(* ===== verification/Prelude.thy ===== *)
theory Prelude
  imports Main "HOL-Library.Word"
begin

text \<open>
  Shared vocabulary of the development.

  \<^item> Bytes and byte strings, Go's fixed-width signed and unsigned conversions.
  \<^item> Go errors and panics as values: every fallible operation returns \<open>'e + 'a\<close>, with
    \<open>Inl\<close> for an error; \<open>sbind\<close> sequences two of them and stops at the first error, as
    the early returns of the code do.
  \<^item> Indexing and slicing of Go slices, with the run-time panic written out.
  \<^item> Little-endian encodings.
\<close>

unbundle bit_operations_syntax

named_theorems go_simps \<open>rewrite rules for Go slices, conversions and error sequencing\<close>

subsection \<open>Machine integers\<close>

type_synonym byte = "8 word"
type_synonym bytes = "8 word list"
type_synonym hash = "8 word list"

text \<open>Go's conversions \<open>int32(x)\<close>, \<open>int64(x)\<close> and \<open>uint32(x)\<close> keep the low bits.\<close>

definition int32_of :: "int \<Rightarrow> int" where
  "int32_of x = signed_take_bit 31 x"

definition int64_of :: "int \<Rightarrow> int" where
  "int64_of x = signed_take_bit 63 x"

definition uint32_of :: "int \<Rightarrow> int" where
  "uint32_of x = take_bit 32 x"

lemma int32_of_id [go_simps]: "- (2 ^ 31) \<le> x \<Longrightarrow> x < 2 ^ 31 \<Longrightarrow> int32_of x = x"
  unfolding int32_of_def by (rule signed_take_bit_int_eq_self)

lemma int64_of_id [go_simps]: "- (2 ^ 63) \<le> x \<Longrightarrow> x < 2 ^ 63 \<Longrightarrow> int64_of x = x"
  unfolding int64_of_def by (rule signed_take_bit_int_eq_self)

lemma int32_of_range: "- (2 ^ 31) \<le> int32_of x \<and> int32_of x < 2 ^ 31"
  unfolding int32_of_def
  by (rule conjI [OF signed_take_bit_int_greater_eq_minus_exp signed_take_bit_int_less_exp])

lemma int32_of_cong: "x mod 2 ^ 32 = y mod 2 ^ 32 \<Longrightarrow> int32_of x = int32_of y"
  unfolding int32_of_def by (rule signed_take_bit_eq_iff_take_bit_eq [THEN iffD2]) (simp add: take_bit_eq_mod)

lemma int32_of_mod: "int32_of x mod 2 ^ 32 = x mod 2 ^ 32"
  unfolding int32_of_def using take_bit_signed_take_bit [of 32 31 x] by (simp add: take_bit_eq_mod)

lemma int32_of_up: "0 \<le> x \<Longrightarrow> x < 2 ^ 32 \<Longrightarrow> int32_of x = x \<or> int32_of x < 0"
proof (cases "x < 2 ^ 31")
  case True
  assume "0 \<le> x"
  with True show ?thesis by (simp add: int32_of_id)
next
  case False
  assume x: "0 \<le> x" "x < 2 ^ 32"
  have "int32_of x = int32_of (x - 2 ^ 32)" by (rule int32_of_cong) simp
  also have "\<dots> = x - 2 ^ 32" using False x by (intro int32_of_id) simp_all
  finally show ?thesis using x by simp
qed

lemma int32_of_length: "length xs < 2 ^ 31 \<Longrightarrow> int32_of (int (length xs)) = int (length xs)"
  by (rule int32_of_id) simp_all

lemma int32_of_fits:
  assumes "0 \<le> n" "n < 2 ^ 32" "m < 2 ^ 31"
  shows "(int32_of n > int m \<or> int32_of n < 0) \<longleftrightarrow> m < nat n"
    and "nat n \<le> m \<Longrightarrow> int32_of n = n"
proof -
  have up: "int32_of n = n" if "n < 2 ^ 31" using that assms by (intro int32_of_id) simp_all
  then show "nat n \<le> m \<Longrightarrow> int32_of n = n" using assms by simp
  show "(int32_of n > int m \<or> int32_of n < 0) \<longleftrightarrow> m < nat n"
  proof (cases "n < 2 ^ 31")
    case True
    then show ?thesis using up assms(1) by auto
  next
    case False
    have "int32_of n = int32_of (n - 2 ^ 32)" by (rule int32_of_cong) simp
    also have "\<dots> = n - 2 ^ 32" using False assms by (intro int32_of_id) simp_all
    finally show ?thesis using False assms by auto
  qed
qed

lemma int64_of_range: "- (2 ^ 63) \<le> int64_of x \<and> int64_of x < 2 ^ 63"
  unfolding int64_of_def
  by (rule conjI [OF signed_take_bit_int_greater_eq_minus_exp signed_take_bit_int_less_exp])

lemma byte_less: "uint (b :: byte) < 256"
  using uint_lt2p [of b] by simp

lemma byte_le: "uint (b :: byte) \<le> 255"
  using byte_less [of b] by linarith

subsection \<open>Bits of integers\<close>

lemma pow256: "(256 :: int) ^ n = 2 ^ (8 * n)"
  by (simp add: power_mult)

lemma or_push_add: "0 \<le> (r :: int) \<Longrightarrow> r < 2 ^ n \<Longrightarrow> r OR push_bit n x = r + 2 ^ n * x"
  using concat_bit_eq [of n r x]
  by (simp add: concat_bit_def push_bit_eq_mult take_bit_int_eq_self mult.commute)

lemma and_255: "(n :: int) AND 255 = n mod 256"
  using take_bit_eq_mask [of 8 n] by (simp add: take_bit_eq_mod mask_eq_exp_minus_1)

lemma and_127: "(n :: int) AND 127 = n mod 128"
  using take_bit_eq_mask [of 7 n] by (simp add: take_bit_eq_mod mask_eq_exp_minus_1)

lemma byte_and_80: "(b :: byte) AND 0x80 \<noteq> 0 \<longleftrightarrow> 128 \<le> uint b"
proof -
  have "b AND 0x80 \<noteq> 0 \<longleftrightarrow> bit b 7"
    using and_exp_eq_0_iff_not_bit [of b 7] by simp
  also have "\<dots> \<longleftrightarrow> odd (uint b div 128)"
    by (simp add: bit_iff_odd [of "uint b" 7, simplified, symmetric] bit_uint_iff)
  also have "uint b div 128 = (if 128 \<le> uint b then 1 else 0)"
    using byte_less [of b] unsigned_greater_eq [of b, where 'a = int] by auto
  finally show ?thesis by simp
qed

lemma byte_and_7f: "(b :: byte) AND 0x7f = 0 \<longleftrightarrow> uint b = 0 \<or> uint b = 128"
proof -
  have "b AND 0x7f = 0 \<longleftrightarrow> uint b mod 128 = 0"
    by (simp add: word_uint_eq_iff [of "b AND 0x7f"] uint_and and_127)
  also have "\<dots> \<longleftrightarrow> uint b = 0 \<or> uint b = 128"
  proof -
    have "uint b = 128 * (uint b div 128) + uint b mod 128" by simp
    moreover have "uint b div 128 = 0 \<or> uint b div 128 = 1"
      using byte_less [of b] unsigned_greater_eq [of b, where 'a = int] by linarith
    ultimately show ?thesis by auto
  qed
  finally show ?thesis .
qed

subsection \<open>Errors as values\<close>

definition sbind :: "'e + 'a \<Rightarrow> ('a \<Rightarrow> 'e + 'b) \<Rightarrow> 'e + 'b" where
  "sbind r f = (case r of Inl e \<Rightarrow> Inl e | Inr x \<Rightarrow> f x)"

lemma sbind_simps [simp]:
  "sbind (Inl e) f = Inl e"
  "sbind (Inr x) f = f x"
  by (simp_all add: sbind_def)

lemma sbind_eq_Inr: "sbind r f = Inr y \<longleftrightarrow> (\<exists>x. r = Inr x \<and> f x = Inr y)"
  by (cases r) simp_all

lemma sbind_eq_Inl: "sbind r f = Inl e \<longleftrightarrow> r = Inl e \<or> (\<exists>x. r = Inr x \<and> f x = Inl e)"
  by (cases r) simp_all

lemma guard_eq_Inr: "(if c then Inl e else r) = Inr y \<longleftrightarrow> \<not> c \<and> r = Inr y"
  by simp

lemma sbind_assoc: "sbind (sbind r f) g = sbind r (\<lambda>x. sbind (f x) g)"
  by (cases r) simp_all

lemma sbind_cong [fundef_cong]:
  "r = r' \<Longrightarrow> (\<And>x. r' = Inr x \<Longrightarrow> f x = g x) \<Longrightarrow> sbind r f = sbind r' g"
  by (cases r') simp_all

text \<open>A guard: the code's \<open>if cond \<lbrace> return err \<rbrace>\<close>.\<close>

definition fail_if :: "bool \<Rightarrow> 'e \<Rightarrow> 'e + unit" where
  "fail_if c e = (if c then Inl e else Inr ())"

lemma fail_if_simps [simp]:
  "fail_if True e = Inl e"
  "fail_if False e = Inr ()"
  by (simp_all add: fail_if_def)

lemma fail_if_eq_Inr [simp]: "fail_if c e = Inr u \<longleftrightarrow> \<not> c"
  by (simp add: fail_if_def)

lemma fail_if_eq_Inl [simp]: "fail_if c e = Inl e' \<longleftrightarrow> c \<and> e' = e"
  by (auto simp: fail_if_def)

text \<open>A counted loop over a state whose body may fail.\<close>

fun repeat_n :: "nat \<Rightarrow> ('s \<Rightarrow> 'e + 's) \<Rightarrow> 's \<Rightarrow> 'e + 's" where
  "repeat_n 0 f s = Inr s"
| "repeat_n (Suc n) f s = sbind (f s) (repeat_n n f)"

text \<open>The loop follows a sequence of states, or stops in the first one where its body fails.\<close>

lemma repeat_n_states:
  assumes "\<And>i. i < n \<Longrightarrow> f (g i) = Inr (g (Suc i))"
  shows "repeat_n n f (g 0) = Inr (g n)"
  using assms
proof (induction n arbitrary: g)
  case 0
  then show ?case by simp
next
  case (Suc n)
  have "repeat_n n f (g (Suc 0)) = Inr (g (Suc n))"
    using Suc.prems by (intro Suc.IH [of "\<lambda>i. g (Suc i)"]) simp
  then show ?case using Suc.prems [of 0] by simp
qed

lemma repeat_n_fails:
  assumes "\<And>i. i < m \<Longrightarrow> f (g i) = Inr (g (Suc i))" "f (g m) = Inl e" "m < n"
  shows "repeat_n n f (g 0) = Inl e"
  using assms
proof (induction m arbitrary: n g)
  case 0
  then show ?case by (cases n) simp_all
next
  case (Suc m)
  then obtain n' where n: "n = Suc n'" "m < n'" by (cases n) simp_all
  have "repeat_n n' f (g (Suc 0)) = Inl e"
    using Suc.prems n(2) by (intro Suc.IH [of "\<lambda>i. g (Suc i)"]) simp_all
  then show ?case using Suc.prems(1) [of 0] n(1) by simp
qed

subsection \<open>Little-endian byte strings\<close>

fun le_val :: "bytes \<Rightarrow> int" where
  "le_val [] = 0"
| "le_val (b # bs) = uint b + 256 * le_val bs"

lemma le_val_nonneg [simp]: "0 \<le> le_val bs"
  by (induction bs) simp_all

lemma le_val_append: "le_val (xs @ ys) = le_val xs + 256 ^ length xs * le_val ys"
  by (induction xs) (simp_all add: algebra_simps)

lemma le_val_less: "le_val bs < 256 ^ length bs"
proof (induction bs)
  case Nil
  show ?case by simp
next
  case (Cons b bs)
  define P :: int where "P = 256 ^ length bs"
  have "uint b < 256" by (rule byte_less)
  moreover have "le_val bs < P"
    using Cons.IH by (simp add: P_def)
  ultimately have "uint b + 256 * le_val bs < 256 * P" by linarith
  then show ?case by (simp add: P_def)
qed

lemma le_val_inj: "length xs = length ys \<Longrightarrow> le_val xs = le_val ys \<Longrightarrow> xs = ys"
proof (induction xs ys rule: list_induct2)
  case Nil
  show ?case by simp
next
  case (Cons x xs y ys)
  have eq: "uint x + 256 * le_val xs = uint y + 256 * le_val ys"
    using Cons.prems by simp
  have "uint x < 256" "uint y < 256" by (rule byte_less)+
  with arg_cong [OF eq, of "\<lambda>k. k mod 256"] have "uint x = uint y"
    by simp
  moreover from this eq have "le_val xs = le_val ys" by simp
  ultimately show ?case using Cons.IH by (simp add: word_uint_eq_iff)
qed

text \<open>The byte string that \<open>binary.LittleEndian.PutUint\<close> writes for a width of \<open>k\<close> bytes.\<close>

fun le_bytes :: "nat \<Rightarrow> int \<Rightarrow> bytes" where
  "le_bytes 0 n = []"
| "le_bytes (Suc k) n = word_of_int n # le_bytes k (n div 256)"

lemma length_le_bytes [simp]: "length (le_bytes k n) = k"
  by (induction k arbitrary: n) simp_all

lemma le_val_le_bytes: "le_val (le_bytes k n) = n mod 256 ^ k"
proof (induction k arbitrary: n)
  case (Suc k)
  have "uint (word_of_int n :: byte) = n mod 256" by (simp add: uint_word_of_int)
  then show ?case by (simp add: Suc.IH zmod_zmult2_eq)
qed simp

lemma le_bytes_le_val: "le_bytes (length bs) (le_val bs) = bs"
  by (rule le_val_inj) (simp_all add: le_val_le_bytes le_val_less)

lemma le_bytes_mod: "x mod 256 ^ k = y mod 256 ^ k \<Longrightarrow> le_bytes k x = le_bytes k y"
  by (rule le_val_inj) (simp_all add: le_val_le_bytes)

lemma int32_of_le_bytes:
  assumes "- (2 ^ 31) \<le> v" "v < 2 ^ 31"
  shows "int32_of (le_val (le_bytes 4 v)) = v"
proof -
  have "int32_of (v mod 2 ^ 32) = int32_of v" by (rule int32_of_cong) simp
  then show ?thesis using assms by (simp add: le_val_le_bytes int32_of_id)
qed

lemma le_bytes_int32: "length xs = 4 \<Longrightarrow> le_bytes 4 (int32_of (le_val xs)) = xs"
  using le_bytes_mod [of "int32_of (le_val xs)" 4 "le_val xs"] int32_of_mod [of "le_val xs"] le_bytes_le_val [of xs]
  by simp

lemma int64_of_mod: "int64_of x mod 2 ^ 64 = x mod 2 ^ 64"
  unfolding int64_of_def using take_bit_signed_take_bit [of 64 63 x] by (simp add: take_bit_eq_mod)

lemma int64_of_cong: "x mod 2 ^ 64 = y mod 2 ^ 64 \<Longrightarrow> int64_of x = int64_of y"
  unfolding int64_of_def by (rule signed_take_bit_eq_iff_take_bit_eq [THEN iffD2]) (simp add: take_bit_eq_mod)

lemma int64_of_le_bytes:
  assumes "- (2 ^ 63) \<le> v" "v < 2 ^ 63"
  shows "int64_of (le_val (le_bytes 8 v)) = v"
proof -
  have "int64_of (v mod 2 ^ 64) = int64_of v" by (rule int64_of_cong) simp
  then show ?thesis using assms by (simp add: le_val_le_bytes int64_of_id)
qed

lemma le_bytes_int64: "length xs = 8 \<Longrightarrow> le_bytes 8 (int64_of (le_val xs)) = xs"
  using le_bytes_mod [of "int64_of (le_val xs)" 8 "le_val xs"] int64_of_mod [of "le_val xs"] le_bytes_le_val [of xs]
  by simp

end
