(* ===== verification/Script_Base.thy ===== *)
theory Script_Base
  imports Prelude
begin

text \<open>
  Errors and limits of the script package (\<^verbatim>\<open>node/txscript\<close>): the error codes of
  \<^verbatim>\<open>error.go\<close>, the constants of \<^verbatim>\<open>engine.go\<close>, \<^verbatim>\<open>script.go\<close> and
  \<^verbatim>\<open>scriptnum.go\<close>, and Go's checked indexing and slicing. A \<open>go_error\<close> is a script
  error with its code, an error of another package, or a run-time panic; the message texts
  are not modelled. The codes are those the package raises; the legacy codes of the enum that
  no code of the package refers to (the DER signature and witness v0 codes) are left out.
\<close>

datatype (plugins only: code size) ErrorCode =
    ErrInternal | ErrInvalidIndex | ErrUnsupportedAddress | ErrTooMuchNullData
  | ErrUnsupportedScriptVersion | ErrEarlyReturn | ErrEmptyStack | ErrEvalFalse
  | ErrScriptUnfinished | ErrInvalidProgramCounter | ErrScriptTooBig | ErrElementTooBig
  | ErrTooManyOperations | ErrStackOverflow | ErrNumberTooBig | ErrVerify | ErrEqualVerify
  | ErrNumEqualVerify | ErrCheckSigVerify | ErrCheckMultiSigVerify | ErrDisabledOpcode
  | ErrReservedOpcode | ErrMalformedPush | ErrInvalidStackOperation
  | ErrUnbalancedConditional | ErrMinimalData | ErrNotPushOnly | ErrCleanStack | ErrNullFail
  | ErrWitnessMalleated | ErrDiscourageUpgradableNOPs | ErrNegativeLockTime
  | ErrUnsatisfiedLockTime | ErrMinimalIf | ErrDiscourageUpgradableWitnessProgram
  | ErrWitnessProgramEmpty | ErrWitnessUnexpected | ErrDiscourageUpgradeableTaprootVersion
  | ErrTapscriptCheckMultisig | ErrDiscourageUpgradeablePubKeyType | ErrTaprootSigInvalid
  | ErrTaprootMerkleProofInvalid | ErrTaprootOutputKeyParityMismatch
  | ErrControlBlockTooSmall | ErrControlBlockTooLarge | ErrControlBlockInvalidLength
  | ErrWitnessHasNoAnnex | ErrInvalidTaprootSigLen | ErrTaprootPubkeyIsEmpty
  | ErrTaprootMaxSigOps | ErrMerkleRootNoKeyPathSpend | ErrMerkleRootMerkleProofInvalid
  | ErrMerkleRootControlBlockInvalidParity

datatype go_error = scriptError ErrorCode | otherError | goPanic

subsection \<open>Slices\<close>

text \<open>\<open>xs[i]\<close> and \<open>xs[lo:hi]\<close>; out of range is a panic.\<close>

definition go_index :: "'a list \<Rightarrow> int \<Rightarrow> go_error + 'a" where
  "go_index xs i = (if 0 \<le> i \<and> i < int (length xs) then Inr (xs ! nat i) else Inl goPanic)"

definition go_slice :: "'a list \<Rightarrow> int \<Rightarrow> int \<Rightarrow> go_error + 'a list" where
  "go_slice xs lo hi =
     (if 0 \<le> lo \<and> lo \<le> hi \<and> hi \<le> int (length xs)
      then Inr (take (nat (hi - lo)) (drop (nat lo) xs)) else Inl goPanic)"

lemma go_index_in [go_simps]:
  "0 \<le> i \<Longrightarrow> i < int (length xs) \<Longrightarrow> go_index xs i = Inr (xs ! nat i)"
  by (simp add: go_index_def)

lemma go_slice_in [go_simps]:
  "0 \<le> lo \<Longrightarrow> lo \<le> hi \<Longrightarrow> hi \<le> int (length xs) \<Longrightarrow>
     go_slice xs lo hi = Inr (take (nat (hi - lo)) (drop (nat lo) xs))"
  by (simp add: go_slice_def)

lemma go_slice_tail: "go_slice (xs @ ys) (int (length xs)) (int (length (xs @ ys))) = Inr ys"
  by (simp add: go_slice_def)

lemma go_slice_from: "k \<le> length xs \<Longrightarrow> go_slice xs (int k) (int (length xs)) = Inr (drop k xs)"
  by (simp add: go_slice_def nat_diff_distrib)

lemma go_slice_upto: "k \<le> length xs \<Longrightarrow> go_slice xs 0 (int k) = Inr (take k xs)"
  by (simp add: go_slice_def)

subsection \<open>Limits\<close>

definition maxInt32 :: int where "maxInt32 = 2147483647"
definition minInt32 :: int where "minInt32 = - 2147483648"
definition maxScriptNumLen :: nat where "maxScriptNumLen = 4"
definition MaxStackSize :: int where "MaxStackSize = 1000"
definition MaxScriptSize :: nat where "MaxScriptSize = 10000"
definition MaxOpsPerScript :: int where "MaxOpsPerScript = 201"
definition MaxScriptElementSize :: nat where "MaxScriptElementSize = 520"
definition payToTaprootDataSize :: nat where "payToTaprootDataSize = 32"
definition payToMerkleRootDataSize :: nat where "payToMerkleRootDataSize = 32"
definition sigOpsDelta :: int where "sigOpsDelta = 50"

definition LockTimeThreshold :: int where "LockTimeThreshold = 500000000"

lemmas script_limits =
  maxInt32_def minInt32_def maxScriptNumLen_def MaxStackSize_def MaxScriptSize_def
  MaxOpsPerScript_def MaxScriptElementSize_def payToTaprootDataSize_def
  payToMerkleRootDataSize_def sigOpsDelta_def

end
