(* ===== verification/Script_Num.thy ===== *)
theory Script_Num
  imports Script_Base
begin

text \<open>
  Script numbers (\<^verbatim>\<open>node/txscript/scriptnum.go\<close>): the little-endian sign-magnitude
  encoding of the numbers on the script stacks. A \<open>scriptNum\<close> is an \<open>int64\<close>; the model
  keeps it as an \<open>int\<close> and writes the 64-bit conversions out.
\<close>

type_synonym scriptNum = int

definition checkMinimalDataEncoding :: "bytes \<Rightarrow> go_error + unit" where
  "checkMinimalDataEncoding v =
     (if length v = 0 then Inr ()
      else if (v ! (length v - 1)) AND 0x7f = 0 then
        (if length v = 1 \<or> (v ! (length v - 2)) AND 0x80 = 0
         then Inl (scriptError ErrMinimalData) else Inr ())
      else Inr ())"

text \<open>The loop of \<open>Bytes\<close>: \<open>for n > 0 \<lbrace> append byte(n & 0xff); n >>= 8 \<rbrace>\<close>.\<close>

function le_digits :: "int \<Rightarrow> bytes" where
  "le_digits n = (if n > 0 then word_of_int (n AND 0xff) # le_digits (drop_bit 8 n) else [])"
  by pat_completeness auto
termination
  by (relation "measure nat") (auto simp: drop_bit_int_def)

declare le_digits.simps [simp del]

text \<open>
  \<open>Bytes\<close> of the least \<open>int64\<close>: its negation is itself, the loop produces no byte, and
  \<open>result[len(result)-1]\<close> panics.
\<close>

definition scriptNum_Bytes :: "scriptNum \<Rightarrow> go_error + bytes" where
  "scriptNum_Bytes n =
     (if n = 0 then Inr []
      else
        let isNegative = n < 0;
            n' = (if isNegative then int64_of (- n) else n);
            result = le_digits n'
        in if result = [] then Inl goPanic
           else if last result AND 0x80 \<noteq> 0 then
             Inr (result @ [if isNegative then 0x80 else 0x00])
           else if isNegative then
             Inr (result[length result - 1 := last result OR 0x80])
           else Inr result)"

definition scriptNum_Int32 :: "scriptNum \<Rightarrow> int" where
  "scriptNum_Int32 n =
     (if n > maxInt32 then maxInt32 else if n < minInt32 then minInt32 else int32_of n)"

text \<open>The decoding loop of \<open>MakeScriptNum\<close>: \<open>result |= int64(val) << uint8(8*i)\<close>.\<close>

fun le_accumulate :: "nat \<Rightarrow> bytes \<Rightarrow> int \<Rightarrow> int" where
  "le_accumulate i [] result = result"
| "le_accumulate i (val # v) result =
     le_accumulate (Suc i) v (result OR int64_of (push_bit ((8 * i) mod 256) (uint val)))"

definition MakeScriptNum :: "bytes \<Rightarrow> bool \<Rightarrow> nat \<Rightarrow> go_error + scriptNum" where
  "MakeScriptNum v requireMinimal scriptNumLen =
     (if length v > scriptNumLen then Inl (scriptError ErrNumberTooBig)
      else
        sbind (if requireMinimal then checkMinimalDataEncoding v else Inr ()) (\<lambda>_.
          if length v = 0 then Inr 0
          else
            let result = le_accumulate 0 v 0
            in if (v ! (length v - 1)) AND 0x80 \<noteq> 0 then
                 Inr (int64_of (- (result AND
                        NOT (int64_of (push_bit ((8 * (length v - 1)) mod 256) 0x80)))))
               else Inr result))"

subsection \<open>The encoding and decoding loops\<close>

lemma byte_shift_bound: "i \<le> 6 \<Longrightarrow> 2 ^ (8 * i) * uint (b :: byte) < (2 ^ 56 :: int)"
proof -
  assume i: "i \<le> 6"
  have "2 ^ (8 * i) * uint b < 2 ^ (8 * i) * (2 ^ 8 :: int)"
    by (intro mult_strict_left_mono) (simp_all add: byte_less)
  also have "\<dots> = 2 ^ (8 * i + 8)" by (simp add: power_add)
  also have "\<dots> \<le> (2 ^ 56 :: int)" using i by (intro power_increasing) simp_all
  finally show ?thesis .
qed

lemma le_accumulate_val:
  "0 \<le> r \<Longrightarrow> r < 256 ^ i \<Longrightarrow> i + length v \<le> 7 \<Longrightarrow>
     le_accumulate i v r = r + 256 ^ i * le_val v"
proof (induction v arbitrary: i r)
  case Nil
  then show ?case by simp
next
  case (Cons b v)
  let ?r = "r + 256 ^ i * uint b"
  have i: "i \<le> 6" using Cons.prems by simp
  have "int64_of (push_bit (8 * i) (uint b)) = push_bit (8 * i) (uint b)"
    using byte_shift_bound [OF i, of b]
    by (intro int64_of_id) (simp_all add: push_bit_eq_mult mult.commute order.trans [of _ 0])
  moreover have "(8 * i) mod 256 = 8 * i" using i by simp
  ultimately have step: "r OR int64_of (push_bit ((8 * i) mod 256) (uint b)) = ?r"
    using Cons.prems by (simp add: or_push_add pow256)
  have "?r < 256 ^ Suc i"
  proof -
    have "256 ^ i * uint b \<le> 256 ^ i * (255 :: int)"
      using byte_less [of b] by (intro mult_left_mono) (linarith, simp)
    with Cons.prems(2) have "?r < 256 * 256 ^ i" by linarith
    then show ?thesis by simp
  qed
  moreover have "0 \<le> ?r" using Cons.prems(1) by simp
  ultimately have "le_accumulate (Suc i) v ?r = ?r + 256 ^ Suc i * le_val v"
    using Cons.prems(3) by (intro Cons.IH) simp_all
  with step show ?case by (simp add: algebra_simps)
qed

lemma le_digits_pos: "0 < n \<Longrightarrow> le_digits n = word_of_int (n mod 256) # le_digits (n div 256)"
  by (subst le_digits.simps) (simp add: and_255 drop_bit_int_def)

lemma le_digits_nonpos [simp]: "n \<le> 0 \<Longrightarrow> le_digits n = []"
  by (subst le_digits.simps) simp

lemma le_val_le_digits: "0 \<le> n \<Longrightarrow> le_val (le_digits n) = n"
proof (induction n rule: le_digits.induct)
  case (1 n)
  show ?case
  proof (cases "0 < n")
    case True
    with "1.IH" have "le_val (le_digits (n div 256)) = n div 256"
      by (simp add: drop_bit_int_def)
    with True show ?thesis
      by (simp add: le_digits_pos unsigned_of_int take_bit_eq_mod)
  next
    case False
    with "1.prems" show ?thesis by simp
  qed
qed

lemma le_digits_le_val: "v = [] \<or> last v \<noteq> 0 \<Longrightarrow> le_digits (le_val v) = v"
proof (induction v)
  case Nil
  then show ?case by simp
next
  case (Cons b v)
  have IH: "le_digits (le_val v) = v"
    using Cons by (cases v) auto
  have "0 < le_val (b # v)"
  proof (cases "v = []")
    case True
    with Cons.prems have "uint b \<noteq> 0" by (simp add: uint_0_iff)
    then have "0 < uint b" using unsigned_greater_eq [of b, where 'a = int] by linarith
    with True show ?thesis by simp
  next
    case False
    then have "le_val v \<noteq> 0" using IH by auto
    then have "0 < le_val v" using le_val_nonneg [of v] by linarith
    then show ?thesis by (simp add: add_nonneg_pos)
  qed
  moreover have "(uint b + 256 * le_val v) mod 256 = uint b"
    by (simp add: mod_pos_pos_trivial byte_less)
  moreover have "(uint b + 256 * le_val v) div 256 = le_val v"
    by (simp add: div_pos_pos_trivial byte_less)
  ultimately show ?case by (simp add: le_digits_pos IH)
qed


definition sm_val :: "bytes \<Rightarrow> int" where
  "sm_val v =
     (if v = [] then 0
      else if 128 \<le> uint (last v)
      then - (le_val (butlast v) + 256 ^ (length v - 1) * (uint (last v) - 128))
      else le_val v)"

lemma le_val_snoc: "v \<noteq> [] \<Longrightarrow>
    le_val v = le_val (butlast v) + 256 ^ (length v - 1) * uint (last v)"
  using le_val_append [of "butlast v" "[last v]"] by simp

lemma clear_sign_bit:
  fixes r :: int
  assumes "r = lo + 2 ^ m * hi" "0 \<le> lo" "lo < 2 ^ m" "128 \<le> hi" "hi < 256"
  shows "r AND NOT (push_bit m 128) = lo + 2 ^ m * (hi - 128)"
proof -
  have "push_bit m (128 :: int) = push_bit (m + 7) 1"
    by (simp add: push_bit_eq_mult power_add)
  then have "r AND NOT (push_bit m 128) = unset_bit (m + 7) r"
    by (simp only: unset_bit_eq_and_not)
  moreover have "bit r (m + 7)"
  proof -
    have "r div 2 ^ (m + 7) = (r div 2 ^ m) div 128"
      by (simp add: power_add zdiv_zmult2_eq)
    also have "r div 2 ^ m = hi" using assms by simp
    also have "hi div 128 = 1" using assms by linarith
    finally show ?thesis by (simp add: bit_iff_odd)
  qed
  ultimately show ?thesis
    using assms(1) by (simp add: unset_bit_eq power_add algebra_simps)
qed

lemma last_le_digits: "0 < n \<Longrightarrow> le_digits n \<noteq> [] \<and> last (le_digits n) \<noteq> 0"
proof (induction n rule: le_digits.induct)
  case (1 n)
  show ?case
  proof (cases "0 < n div 256")
    case True
    with 1 have "le_digits (n div 256) \<noteq> [] \<and> last (le_digits (n div 256)) \<noteq> 0"
      by (simp add: drop_bit_int_def)
    with "1.prems" show ?thesis by (simp add: le_digits_pos)
  next
    case False
    with "1.prems" have "n < 256" "n div 256 = 0" by linarith+
    moreover have "word_of_int n \<noteq> (0 :: byte)"
      using \<open>n < 256\<close> "1.prems" by (simp add: word_of_int_eq_0_iff zdvd_not_zless)
    ultimately show ?thesis using "1.prems" by (simp add: le_digits_pos)
  qed
qed



lemma sm_val_bound:
  assumes "v \<noteq> []"
  shows "\<bar>sm_val v\<bar> < 2 ^ (8 * length v - 1)"
proof -
  let ?m = "8 * (length v - 1)"
  have lo: "0 \<le> le_val (butlast v)" "le_val (butlast v) < 2 ^ ?m"
    using le_val_less [of "butlast v"] by (simp_all add: pow256)
  define h where "h = (if 128 \<le> uint (last v) then uint (last v) - 128 else uint (last v))"
  have h: "0 \<le> h" "h \<le> 127" using byte_le [of "last v"] by (auto simp: h_def)
  have "\<bar>sm_val v\<bar> = le_val (butlast v) + 2 ^ ?m * h"
  proof -
    let ?M = "le_val (butlast v) + 2 ^ ?m * h"
    have "0 \<le> ?M" using h(1) by simp
    moreover have "sm_val v = ?M \<or> sm_val v = - ?M"
      using assms by (simp add: sm_val_def h_def le_val_snoc [of v] pow256)
    ultimately show ?thesis by linarith
  qed
  also have "\<dots> < 2 ^ ?m + 2 ^ ?m * 127"
    using lo(2) h by (intro add_less_le_mono mult_left_mono) simp_all
  also have "\<dots> = 2 ^ (?m + 7)" by (simp add: power_add)
  also have "?m + 7 = 8 * length v - 1" using assms by (cases v) simp_all
  finally show ?thesis .
qed

lemma MakeScriptNum_eq_sm_val:
  assumes "length v \<le> k" "k \<le> 7"
  shows "MakeScriptNum v False k = Inr (sm_val v)"
proof (cases "v = []")
  case True
  then show ?thesis by (simp add: MakeScriptNum_def sm_val_def)
next
  case False
  let ?m = "8 * (length v - 1)"
  have acc: "le_accumulate 0 v 0 = le_val v"
    using assms by (subst le_accumulate_val) simp_all
  have last: "v ! (length v - 1) = last v" using False by (simp add: last_conv_nth)
  have m: "?m mod 256 = ?m" "?m \<le> 48" using assms by simp_all
  show ?thesis
  proof (cases "128 \<le> uint (last v)")
    case neg: True
    have "push_bit ?m (128 :: int) \<le> 2 ^ 48 * 128"
      unfolding push_bit_eq_mult mult.commute [of 128] using m(2)
      by (intro mult_right_mono power_increasing) simp_all
    moreover have "0 \<le> push_bit ?m (128 :: int)" by simp
    ultimately have "- (2 ^ 63) \<le> push_bit ?m (128 :: int) \<and> push_bit ?m (128 :: int) < 2 ^ 63"
      by (auto simp: order.trans [of _ 0])
    then have sh: "int64_of (push_bit ?m 128) = push_bit ?m 128"
      by (intro int64_of_id) simp_all
    have "le_val v AND NOT (push_bit ?m 128) = - sm_val v"
      using neg False le_val_less [of "butlast v"]
      by (subst clear_sign_bit [where lo = "le_val (butlast v)" and hi = "uint (last v)"])
         (simp_all add: le_val_snoc [of v] pow256 sm_val_def byte_less)
    moreover have "\<bar>sm_val v\<bar> < 2 ^ 63"
      using assms by (intro order.strict_trans2 [OF sm_val_bound [OF False] power_increasing]) simp_all
    ultimately show ?thesis
      using neg False assms
      by (simp add: MakeScriptNum_def Let_def acc last m sh byte_and_80 int64_of_id del: One_nat_def)
  next
    case pos: False
    then show ?thesis
      using False assms
      by (simp add: MakeScriptNum_def Let_def acc last byte_and_80 sm_val_def del: One_nat_def)
  qed
qed

lemma byte_or_80: "uint b < 128 \<Longrightarrow> uint ((b :: byte) OR 0x80) = uint b + 128"
  using or_push_add [of "uint b" 7 1] by (simp add: uint_or push_bit_eq_mult)

lemma sm_val_snoc [simp]:
  "sm_val (v @ [b]) = (if 128 \<le> uint b then - (le_val v + 256 ^ length v * (uint b - 128))
     else le_val v + 256 ^ length v * uint b)"
  by (simp add: sm_val_def le_val_append)

lemma checkMinimal_snoc:
  "checkMinimalDataEncoding (v @ [b]) = Inr () \<longleftrightarrow>
     (b AND 0x7f \<noteq> 0 \<or> (v \<noteq> [] \<and> 128 \<le> uint (last v)))"
  by (cases v rule: rev_cases)
     (auto simp: checkMinimalDataEncoding_def nth_append byte_and_80 [symmetric])

lemma MakeScriptNum_minimal:
  assumes "k \<le> 7"
  shows "MakeScriptNum v True k = Inr n \<longleftrightarrow>
     length v \<le> k \<and> checkMinimalDataEncoding v = Inr () \<and> n = sm_val v"
proof (cases "length v \<le> k \<and> checkMinimalDataEncoding v = Inr ()")
  case True
  then have "MakeScriptNum v True k = MakeScriptNum v False k"
    by (simp add: MakeScriptNum_def)
  with True assms show ?thesis by (auto simp: MakeScriptNum_eq_sm_val)
next
  case False
  then show ?thesis
    by (auto simp: MakeScriptNum_def sbind_eq_Inr split: if_splits)
qed

lemma scriptNum_Bytes_cases:
  assumes "n \<noteq> 0" "- (2 ^ 63) < n" "n < 2 ^ 63"
  obtains ds d where "le_digits \<bar>n\<bar> = ds @ [d]" "d \<noteq> 0" "\<bar>n\<bar> = le_val (ds @ [d])"
    "scriptNum_Bytes n = Inr
       (if 128 \<le> uint d then ds @ [d, if n < 0 then 0x80 else 0x00]
        else ds @ [if n < 0 then d OR 0x80 else d])"
proof -
  have "le_digits \<bar>n\<bar> \<noteq> [] \<and> last (le_digits \<bar>n\<bar>) \<noteq> 0"
    using assms(1) by (intro last_le_digits) simp
  then obtain ds d where d: "le_digits \<bar>n\<bar> = ds @ [d]" "d \<noteq> 0"
    by (metis append_butlast_last_id)
  have "n < 0 \<Longrightarrow> le_digits (int64_of (- n)) = ds @ [d]" "0 < n \<Longrightarrow> le_digits n = ds @ [d]"
    using assms d(1) by (simp_all add: int64_of_id)
  with d assms(1) have "scriptNum_Bytes n = Inr
       (if 128 \<le> uint d then ds @ [d, if n < 0 then 0x80 else 0x00]
        else ds @ [if n < 0 then d OR 0x80 else d])"
    by (simp add: scriptNum_Bytes_def Let_def byte_and_80)
  moreover have "\<bar>n\<bar> = le_val (ds @ [d])"
    using d(1) le_val_le_digits [of "\<bar>n\<bar>"] by simp
  ultimately show thesis using d that by blast
qed

lemma scriptNum_Bytes_sm_val:
  assumes "- (2 ^ 63) < n" "n < 2 ^ 63"
  shows "\<exists>v. scriptNum_Bytes n = Inr v \<and> sm_val v = n \<and> checkMinimalDataEncoding v = Inr ()"
proof (cases "n = 0")
  case True
  then show ?thesis
    by (simp add: scriptNum_Bytes_def sm_val_def checkMinimalDataEncoding_def)
next
  case False
  then obtain ds d where d: "d \<noteq> 0" "\<bar>n\<bar> = le_val (ds @ [d])"
    "scriptNum_Bytes n = Inr
       (if 128 \<le> uint d then ds @ [d, if n < 0 then 0x80 else 0x00]
        else ds @ [if n < 0 then d OR 0x80 else d])"
    using assms by (elim scriptNum_Bytes_cases) auto
  show ?thesis
  proof (cases "128 \<le> uint d")
    case True
    let ?v = "(ds @ [d]) @ [if n < 0 then 0x80 else 0x00]"
    have "checkMinimalDataEncoding ?v = Inr ()" using True by (simp only: checkMinimal_snoc) simp
    moreover have "sm_val ?v = n" using d(2) by (simp only: sm_val_snoc) auto
    ultimately show ?thesis using True d(3) by simp
  next
    case False
    let ?v = "ds @ [if n < 0 then d OR 0x80 else d]"
    have "uint d \<noteq> 0" using d(1) by (simp add: uint_0_iff)
    moreover have "uint d + 128 \<noteq> 0"
      using unsigned_greater_eq [of d, where 'a = int] by linarith
    ultimately have "checkMinimalDataEncoding ?v = Inr ()" using False
      by (simp add: checkMinimal_snoc byte_and_7f byte_or_80)
    moreover have "sm_val ?v = n"
      using False d(2) by (auto simp: byte_or_80 le_val_append split: if_splits)
    ultimately show ?thesis using False d(3) by simp
  qed
qed

lemma scriptNum_Bytes_inverse:
  assumes "checkMinimalDataEncoding v = Inr ()" "length v \<le> 7"
  shows "scriptNum_Bytes (sm_val v) = Inr v"
proof (cases v rule: rev_cases)
  case Nil
  then show ?thesis by (simp add: scriptNum_Bytes_def sm_val_def)
next
  case (snoc ds b)
  let ?n = "sm_val v"
  have nb: "\<bar>?n\<bar> < 2 ^ 63"
    using assms(2) snoc by (intro order.strict_trans2 [OF sm_val_bound power_increasing]) simp_all
  show ?thesis
  proof (cases "b AND 0x7f = 0")
    case True
    with assms(1) snoc have ds: "ds \<noteq> []" "128 \<le> uint (last ds)"
      by (simp_all add: checkMinimal_snoc)
    have b: "b = 0 \<or> b = 0x80"
      using True by (simp only: byte_and_7f) (simp add: word_uint_eq_iff)
    have n: "?n = (if b = 0 then le_val ds else - le_val ds)"
      using b snoc by auto
    have digs: "le_digits (le_val ds) = ds"
      using ds by (intro le_digits_le_val) auto
    then have "0 < le_val ds" using ds(1) le_digits_nonpos [of "le_val ds"] by fastforce
    then show ?thesis
      using n b nb digs ds snoc
      by (auto simp: scriptNum_Bytes_def Let_def byte_and_80 int64_of_id)
  next
    case False
    define d :: byte where "d = (if 128 \<le> uint b then b AND 0x7f else b)"
    have d: "uint d = (if 128 \<le> uint b then uint b - 128 else uint b)"
    proof -
      have "uint b mod 128 = uint b - 128" if "128 \<le> uint b"
        using that byte_less [of b] minus_mod_self2 [of "uint b" 128]
          mod_pos_pos_trivial [of "uint b - 128" 128] by linarith
      then show ?thesis by (simp add: d_def uint_and and_127)
    qed
    have "uint b \<noteq> 0 \<and> uint b \<noteq> 128" using False by (simp only: byte_and_7f) simp
    then have d0: "d \<noteq> 0" "uint d < 128"
      using byte_less [of b] d by (auto simp: word_uint_eq_iff)
    have bd: "128 \<le> uint b \<Longrightarrow> d OR 0x80 = b" "\<not> 128 \<le> uint b \<Longrightarrow> d = b"
      using d0(2) d by (simp_all add: word_uint_eq_iff byte_or_80)
    have n: "?n = (if 128 \<le> uint b then - le_val (ds @ [d]) else le_val (ds @ [d]))"
      using snoc d by (simp add: le_val_append)
    have digs: "le_digits (le_val (ds @ [d])) = ds @ [d]"
      using d0 by (intro le_digits_le_val) simp
    then have pos: "0 < le_val (ds @ [d])"
      using le_digits_nonpos [of "le_val (ds @ [d])"] by fastforce
    have "\<not> 128 \<le> uint d" using d0 by simp
    with n nb digs pos snoc bd show ?thesis
      by (cases "128 \<le> uint b")
         (simp_all add: scriptNum_Bytes_def Let_def byte_and_80 int64_of_id
           del: le_val.simps sm_val_snoc)
  qed
qed

subsection \<open>Round trips\<close>

lemma sm_val_lower:
  assumes "checkMinimalDataEncoding (ds @ [b]) = Inr ()"
  shows "2 ^ (8 * length ds - 1) \<le> \<bar>sm_val (ds @ [b])\<bar>"
proof (cases "b AND 0x7f = 0")
  case True
  with assms have ds: "ds \<noteq> []" "128 \<le> uint (last ds)"
    by (simp_all add: checkMinimal_snoc)
  have "(2 :: int) ^ (8 * length ds - 1) = 2 ^ (8 * (length ds - 1)) * 128"
  proof -
    have "8 * length ds - 1 = 8 * (length ds - 1) + 7" using ds(1) by (cases ds) simp_all
    then show ?thesis by (simp add: power_add)
  qed
  also have "\<dots> \<le> 256 ^ (length ds - 1) * uint (last ds)"
    using ds(2) by (simp add: pow256)
  also have "\<dots> \<le> le_val ds" using ds(1) by (simp add: le_val_snoc)
  also have "\<dots> = \<bar>sm_val (ds @ [b])\<bar>"
  proof -
    have "uint b = 0 \<or> uint b = 128" using True by (simp only: byte_and_7f)
    then show ?thesis by auto
  qed
  finally show ?thesis .
next
  case False
  then have b: "uint b \<noteq> 0 \<and> uint b \<noteq> 128" by (simp only: byte_and_7f) simp
  define h where "h = (if 128 \<le> uint b then uint b - 128 else uint b)"
  have "0 < uint b" using b unsigned_greater_eq [of b, where 'a = int] by linarith
  with b have "1 \<le> h" by (auto simp: h_def)
  then have "256 ^ length ds * 1 \<le> 256 ^ length ds * h" by (intro mult_left_mono) simp_all
  moreover have "\<bar>sm_val (ds @ [b])\<bar> = \<bar>le_val ds + 256 ^ length ds * h\<bar>"
    by (simp only: sm_val_snoc h_def) (simp only: abs_minus_cancel split: if_split, simp)
  ultimately have "256 ^ length ds \<le> \<bar>sm_val (ds @ [b])\<bar>"
    using le_val_nonneg [of ds] by linarith
  moreover have "(2 :: int) ^ (8 * length ds - 1) \<le> 256 ^ length ds"
    unfolding pow256 by (intro power_increasing) simp_all
  ultimately show ?thesis by linarith
qed

lemma minimal_length:
  assumes "checkMinimalDataEncoding v = Inr ()" "\<bar>sm_val v\<bar> < 2 ^ (8 * k - 1)"
  shows "length v \<le> k"
proof (cases v rule: rev_cases)
  case Nil
  then show ?thesis by simp
next
  case (snoc ds b)
  show ?thesis
  proof (rule ccontr)
    assume "\<not> length v \<le> k"
    then have "(2 :: int) ^ (8 * k - 1) \<le> 2 ^ (8 * length ds - 1)"
      using snoc by (intro power_increasing) simp_all
    also have "\<dots> \<le> \<bar>sm_val v\<bar>" using sm_val_lower [of ds b] assms(1) snoc by simp
    finally show False using assms(2) by simp
  qed
qed

text \<open>
  Encoding then decoding a script number gives it back: every number of magnitude below
  \<open>2^(8k-1)\<close> is encoded, without a panic, in at most \<open>k\<close> bytes which \<open>MakeScriptNum\<close> with
  the minimal-encoding rule and the limit \<open>k\<close> decodes to that number.
\<close>

lemma scriptNum_roundtrip:
  assumes "0 < k" "k \<le> 7" "\<bar>n\<bar> < 2 ^ (8 * k - 1)"
  shows "\<exists>v. scriptNum_Bytes n = Inr v \<and> length v \<le> k \<and> MakeScriptNum v True k = Inr n"
proof -
  have "\<bar>n\<bar> < 2 ^ 63"
    using assms(2) by (intro order.strict_trans2 [OF assms(3) power_increasing]) simp_all
  then obtain v where v: "scriptNum_Bytes n = Inr v" "sm_val v = n"
      "checkMinimalDataEncoding v = Inr ()"
    using scriptNum_Bytes_sm_val [of n] by (auto simp: abs_less_iff)
  then have "length v \<le> k" using assms(3) minimal_length by simp
  with v assms(2) show ?thesis by (auto simp: MakeScriptNum_minimal)
qed

lemma scriptNum_roundtrip_example:
  "\<exists>v. scriptNum_Bytes (- 32768) = Inr v \<and> length v \<le> 4 \<and> MakeScriptNum v True 4 = Inr (- 32768)"
  by (rule scriptNum_roundtrip) simp_all

text \<open>
  The minimal encoding is unique: bytes that \<open>MakeScriptNum\<close> accepts under the
  minimal-encoding rule are exactly the bytes \<open>Bytes\<close> produces for the decoded number, and
  the number is below \<open>2^(8k-1)\<close> in magnitude for the limit \<open>k\<close>.
\<close>

lemma scriptNum_canonical:
  assumes "k \<le> 7" "MakeScriptNum v True k = Inr n"
  shows "scriptNum_Bytes n = Inr v \<and> \<bar>n\<bar> < 2 ^ (8 * k - 1)"
proof -
  from assms have v: "length v \<le> k" "checkMinimalDataEncoding v = Inr ()" "n = sm_val v"
    by (simp_all add: MakeScriptNum_minimal)
  have "\<bar>sm_val v\<bar> < 2 ^ (8 * k - 1)"
  proof (cases "v = []")
    case True
    then show ?thesis by (simp add: sm_val_def)
  next
    case False
    with v(1) show ?thesis
      by (intro order.strict_trans2 [OF sm_val_bound power_increasing]) simp_all
  qed
  with v assms(1) scriptNum_Bytes_inverse show ?thesis by simp
qed

lemma scriptNum_canonical_example:
  "MakeScriptNum [0x00, 0x80, 0x80] True 4 = Inr (- 32768) \<and>
   scriptNum_Bytes (- 32768) = Inr [0x00, 0x80, 0x80] \<and> \<bar>- 32768\<bar> < (2 :: int) ^ (8 * 4 - 1)"
proof -
  have h: "MakeScriptNum [0x00, 0x80, 0x80] True 4 = Inr (- 32768)" by code_simp
  show ?thesis using h scriptNum_canonical [OF _ h] by simp
qed

text \<open>The one \<open>int64\<close> whose encoding panics.\<close>

lemma scriptNum_Bytes_total:
  "- (2 ^ 63) < n \<Longrightarrow> n < 2 ^ 63 \<Longrightarrow> \<exists>v. scriptNum_Bytes n = Inr v"
  using scriptNum_Bytes_sm_val by blast

lemma scriptNum_Bytes_min_int64: "scriptNum_Bytes (- (2 ^ 63)) = Inl goPanic"
  by code_simp

lemma MakeScriptNum_range:
  assumes "MakeScriptNum v b k = Inr n" "k \<le> 7"
  shows "\<bar>n\<bar> < 2 ^ (8 * k - 1) \<or> n = 0"
proof -
  have len: "length v \<le> k" using assms(1) by (auto simp: MakeScriptNum_def split: if_splits)
  have "MakeScriptNum v False k = Inr n"
    using assms(1) len by (cases b) (auto simp: MakeScriptNum_def sbind_eq_Inr)
  then have n: "n = sm_val v" using len assms(2) by (simp add: MakeScriptNum_eq_sm_val)
  show ?thesis
  proof (cases "v = []")
    case True
    then show ?thesis by (simp add: n sm_val_def)
  next
    case False
    with len show ?thesis unfolding n
      by (intro disjI1 order.strict_trans2 [OF sm_val_bound power_increasing]) simp_all
  qed
qed

end
