(* ===== verification/Script_Stack.thy ===== *)
theory Script_Stack
  imports Script_Num
begin

text \<open>
  The data and alternate stacks of the script machine (\<^verbatim>\<open>node/txscript/stack.go\<close>).
  As in the code the last element of \<open>stk\<close> is the top. Indices and sizes are \<open>int32\<close>
  values, kept as \<open>int\<close> with the conversions written out; the lemmas are about stacks of
  fewer than \<open>2^31\<close> items, where the conversion of the length is exact. A failing operation
  returns its error only: no caller looks at a stack after an error.
\<close>

record stack =
  stk :: "bytes list"
  verifyMinimalData :: bool

fun asBool :: "bytes \<Rightarrow> bool" where
  "asBool [] = False"
| "asBool (b # t) =
     (if b \<noteq> 0 then (if t = [] \<and> b = 0x80 then False else True) else asBool t)"

definition fromBool :: "bool \<Rightarrow> bytes" where
  "fromBool v = (if v then [1] else [])"

definition Depth :: "stack \<Rightarrow> int" where
  "Depth s = int32_of (int (length (stk s)))"

definition PushByteArray :: "bytes \<Rightarrow> stack \<Rightarrow> stack" where
  "PushByteArray so s = s\<lparr>stk := stk s @ [so]\<rparr>"

definition PushInt :: "scriptNum \<Rightarrow> stack \<Rightarrow> go_error + stack" where
  "PushInt val s = sbind (scriptNum_Bytes val) (\<lambda>so. Inr (PushByteArray so s))"

definition PushBool :: "bool \<Rightarrow> stack \<Rightarrow> stack" where
  "PushBool val s = PushByteArray (fromBool val) s"

definition nipN :: "int \<Rightarrow> stack \<Rightarrow> go_error + (bytes \<times> stack)" where
  "nipN idx s =
     (let sz = Depth s
      in if idx < 0 \<or> idx > int32_of (sz - 1) then Inl (scriptError ErrInvalidStackOperation)
         else
           sbind (go_index (stk s) (sz - idx - 1)) (\<lambda>so.
             if idx = 0 then
               sbind (go_slice (stk s) 0 (sz - 1)) (\<lambda>s1. Inr (so, s\<lparr>stk := s1\<rparr>))
             else if idx = sz - 1 then
               sbind (go_slice (stk s) 1 (int (length (stk s)))) (\<lambda>s1.
                 Inr (so, s\<lparr>stk := take (nat (sz - 1)) s1\<rparr>))
             else
               sbind (go_slice (stk s) (sz - idx) sz) (\<lambda>s1.
                 sbind (go_slice (stk s) 0 (sz - idx - 1)) (\<lambda>s0.
                   Inr (so, s\<lparr>stk := s0 @ s1\<rparr>)))))"

definition NipN :: "int \<Rightarrow> stack \<Rightarrow> go_error + stack" where
  "NipN idx s = sbind (nipN idx s) (\<lambda>(_, s). Inr s)"

definition PopByteArray :: "stack \<Rightarrow> go_error + (bytes \<times> stack)" where
  "PopByteArray s = nipN 0 s"

definition PopInt :: "stack \<Rightarrow> go_error + (scriptNum \<times> stack)" where
  "PopInt s =
     sbind (PopByteArray s) (\<lambda>(so, s).
       sbind (MakeScriptNum so (verifyMinimalData s) maxScriptNumLen) (\<lambda>n. Inr (n, s)))"

definition PopBool :: "stack \<Rightarrow> go_error + (bool \<times> stack)" where
  "PopBool s = sbind (PopByteArray s) (\<lambda>(so, s). Inr (asBool so, s))"

definition PeekByteArray :: "int \<Rightarrow> stack \<Rightarrow> go_error + bytes" where
  "PeekByteArray idx s =
     (let sz = Depth s
      in if idx < 0 \<or> idx \<ge> sz then Inl (scriptError ErrInvalidStackOperation)
         else go_index (stk s) (sz - idx - 1))"

definition PeekInt :: "int \<Rightarrow> stack \<Rightarrow> go_error + scriptNum" where
  "PeekInt idx s =
     sbind (PeekByteArray idx s) (\<lambda>so. MakeScriptNum so (verifyMinimalData s) maxScriptNumLen)"

definition PeekBool :: "int \<Rightarrow> stack \<Rightarrow> go_error + bool" where
  "PeekBool idx s = sbind (PeekByteArray idx s) (\<lambda>so. Inr (asBool so))"

definition Tuck :: "stack \<Rightarrow> go_error + stack" where
  "Tuck s =
     sbind (PopByteArray s) (\<lambda>(so2, s).
       sbind (PopByteArray s) (\<lambda>(so1, s).
         Inr (PushByteArray so2 (PushByteArray so1 (PushByteArray so2 s)))))"

definition DropN :: "int \<Rightarrow> stack \<Rightarrow> go_error + stack" where
  "DropN n s =
     (if n < 1 then Inl (scriptError ErrInvalidStackOperation)
      else repeat_n (nat n) (\<lambda>s. sbind (PopByteArray s) (\<lambda>(_, s). Inr s)) s)"

definition copy_to_top :: "int \<Rightarrow> stack \<Rightarrow> go_error + stack" where
  "copy_to_top entry s = sbind (PeekByteArray entry s) (\<lambda>so. Inr (PushByteArray so s))"

definition move_to_top :: "int \<Rightarrow> stack \<Rightarrow> go_error + stack" where
  "move_to_top entry s = sbind (nipN entry s) (\<lambda>(so, s). Inr (PushByteArray so s))"

definition DupN :: "int \<Rightarrow> stack \<Rightarrow> go_error + stack" where
  "DupN n s =
     (if n < 1 then Inl (scriptError ErrInvalidStackOperation)
      else repeat_n (nat n) (copy_to_top (n - 1)) s)"

definition RotN :: "int \<Rightarrow> stack \<Rightarrow> go_error + stack" where
  "RotN n s =
     (if n < 1 then Inl (scriptError ErrInvalidStackOperation)
      else let entry = int32_of (3 * n - 1) in repeat_n (nat n) (move_to_top entry) s)"

definition SwapN :: "int \<Rightarrow> stack \<Rightarrow> go_error + stack" where
  "SwapN n s =
     (if n < 1 then Inl (scriptError ErrInvalidStackOperation)
      else let entry = int32_of (2 * n - 1) in repeat_n (nat n) (move_to_top entry) s)"

definition OverN :: "int \<Rightarrow> stack \<Rightarrow> go_error + stack" where
  "OverN n s =
     (if n < 1 then Inl (scriptError ErrInvalidStackOperation)
      else let entry = int32_of (2 * n - 1) in repeat_n (nat n) (copy_to_top entry) s)"

definition PickN :: "int \<Rightarrow> stack \<Rightarrow> go_error + stack" where
  "PickN n s = copy_to_top n s"

definition RollN :: "int \<Rightarrow> stack \<Rightarrow> go_error + stack" where
  "RollN n s = move_to_top n s"

text \<open>\<open>getStack\<close> and \<open>setStack\<close> of \<^verbatim>\<open>engine.go\<close>: both ignore the errors of their calls.\<close>

definition getStack :: "stack \<Rightarrow> bytes list" where
  "getStack s =
     map (\<lambda>i. case PeekByteArray (Depth s - int i - 1) s of Inl _ \<Rightarrow> [] | Inr so \<Rightarrow> so)
       [0..<nat (Depth s)]"

definition clearStack :: "stack \<Rightarrow> stack" where
  "clearStack s = (case DropN (Depth s) s of Inl _ \<Rightarrow> s | Inr s' \<Rightarrow> s')"

definition setStack :: "stack \<Rightarrow> bytes list \<Rightarrow> stack" where
  "setStack s data = fold PushByteArray data (clearStack s)"

subsection \<open>Removing, reading and pushing items\<close>

lemma Depth_small [simp]: "length (stk s) < 2 ^ 31 \<Longrightarrow> Depth s = int (length (stk s))"
  unfolding Depth_def by (intro int32_of_id) simp_all

lemma PushByteArray_sel [simp]:
  "stk (PushByteArray so s) = stk s @ [so]"
  "verifyMinimalData (PushByteArray so s) = verifyMinimalData s"
  by (simp_all add: PushByteArray_def)

lemma nipN_split:
  assumes "stk s = xs @ [x] @ ys" "idx = int (length ys)" "length (stk s) < 2 ^ 31"
  shows "nipN idx s = Inr (x, s\<lparr>stk := xs @ ys\<rparr>)"
proof -
  let ?n = "int (length xs) + int (length ys)"
  have len: "length (stk s) = length xs + length ys + 1" using assms(1) by simp
  have sz: "Depth s = ?n + 1" using assms(3) len by simp
  have guard: "int32_of (Depth s - 1) = ?n"
    using sz assms(3) len by (subst int32_of_id) simp_all
  have ix: "go_index (stk s) (Depth s - idx - 1) = Inr x"
    using assms len by (simp add: go_index_in nth_append)
  show ?thesis
  proof (cases "idx = 0")
    case True
    then show ?thesis using guard ix sz len assms by (simp add: nipN_def Let_def go_slice_in)
  next
    case ne: False
    show ?thesis
    proof (cases "idx = Depth s - 1")
      case True
      then have "xs = []" using sz assms(2) by simp
      then show ?thesis using ne True guard ix sz len assms
        by (simp add: nipN_def Let_def go_slice_in)
    next
      case False
      have "go_slice (stk s) (Depth s - idx) (Depth s) = Inr ys"
        using sz len assms by (simp add: go_slice_in nat_add_distrib)
      moreover have "go_slice (stk s) 0 (Depth s - idx - 1) = Inr xs"
        using sz len assms by (simp add: go_slice_in)
      ultimately show ?thesis using ne False guard ix sz assms(2)
        by (simp add: nipN_def Let_def)
    qed
  qed
qed

lemma nipN_fails:
  assumes "idx < 0 \<or> int (length (stk s)) \<le> idx" "length (stk s) < 2 ^ 31"
  shows "nipN idx s = Inl (scriptError ErrInvalidStackOperation)"
proof -
  have "int32_of (Depth s - 1) = int (length (stk s)) - 1"
    using assms(2) by (subst int32_of_id) simp_all
  with assms(1) show ?thesis by (auto simp: nipN_def Let_def)
qed

lemma stack_split_top:
  assumes "0 \<le> idx" "idx < int (length (stk s))"
  obtains xs x ys where "stk s = xs @ [x] @ ys" "idx = int (length ys)"
proof -
  let ?p = "length (stk s) - 1 - nat idx"
  have "?p < length (stk s)" using assms by linarith
  then have "stk s = take ?p (stk s) @ [stk s ! ?p] @ drop (Suc ?p) (stk s)"
    by (simp add: id_take_nth_drop)
  moreover have "idx = int (length (drop (Suc ?p) (stk s)))" using assms by simp
  ultimately show thesis using that by blast
qed

lemma nipN_cases:
  assumes "length (stk s) < 2 ^ 31"
  obtains (fail) "idx < 0 \<or> int (length (stk s)) \<le> idx"
      "nipN idx s = Inl (scriptError ErrInvalidStackOperation)"
  | (ok) xs x ys where "stk s = xs @ [x] @ ys" "idx = int (length ys)"
      "nipN idx s = Inr (x, s\<lparr>stk := xs @ ys\<rparr>)"
proof (cases "0 \<le> idx \<and> idx < int (length (stk s))")
  case True
  then show thesis using stack_split_top nipN_split ok assms by metis
next
  case False
  then show thesis using nipN_fails [OF _ assms, of idx] fail by auto
qed

lemma PeekByteArray_split:
  assumes "stk s = xs @ [x] @ ys" "idx = int (length ys)" "length (stk s) < 2 ^ 31"
  shows "PeekByteArray idx s = Inr x"
  using assms by (simp add: PeekByteArray_def Let_def go_index_in nth_append)

lemma PeekByteArray_fails:
  assumes "idx < 0 \<or> int (length (stk s)) \<le> idx" "length (stk s) < 2 ^ 31"
  shows "PeekByteArray idx s = Inl (scriptError ErrInvalidStackOperation)"
  using assms by (auto simp: PeekByteArray_def Let_def)

lemma PopByteArray_snoc [simp]:
  "stk s = xs @ [x] \<Longrightarrow> length xs < 2 ^ 31 - 1 \<Longrightarrow> PopByteArray s = Inr (x, s\<lparr>stk := xs\<rparr>)"
  unfolding PopByteArray_def by (subst nipN_split [of s xs x "[]"]) simp_all

lemma PopByteArray_empty [simp]:
  "stk s = [] \<Longrightarrow> PopByteArray s = Inl (scriptError ErrInvalidStackOperation)"
  unfolding PopByteArray_def by (intro nipN_fails) simp_all

lemma PopByteArray_eq_Inr:
  "length (stk s) < 2 ^ 31 \<Longrightarrow>
     PopByteArray s = Inr (x, s') \<longleftrightarrow> stk s = stk s' @ [x] \<and> s' = s\<lparr>stk := butlast (stk s)\<rparr>"
  by (cases "stk s" rule: rev_cases) auto

lemma stk_update_id: "stk s = xs \<Longrightarrow> s\<lparr>stk := xs\<rparr> = s"
  by (cases s) simp

subsection \<open>Rotation and duplication of a window of the stack\<close>

lemma move_to_top_window:
  assumes "stk s = xs @ w" "int (length w) = entry + 1" "0 \<le> entry" "length (stk s) < 2 ^ 31"
  shows "move_to_top entry s = Inr (s\<lparr>stk := xs @ rotate1 w\<rparr>)"
proof -
  obtain y ys where w: "w = y # ys" using assms(2,3) by (cases w) simp_all
  have "nipN entry s = Inr (y, s\<lparr>stk := xs @ ys\<rparr>)"
    using assms w by (intro nipN_split) simp_all
  with w show ?thesis by (simp add: move_to_top_def PushByteArray_def)
qed

lemma copy_to_top_window:
  assumes "stk s = xs @ w @ take i w" "int (length w) = entry + 1" "i < length w"
    "length (stk s) < 2 ^ 31"
  shows "copy_to_top entry s = Inr (s\<lparr>stk := xs @ w @ take (Suc i) w\<rparr>)"
proof -
  have "stk s = (xs @ take i w) @ [w ! i] @ (drop (Suc i) w @ take i w)"
    using assms(1,3) by (simp add: id_take_nth_drop [symmetric] flip: append_assoc)
       (simp add: id_take_nth_drop)
  moreover have "entry = int (length (drop (Suc i) w @ take i w))" using assms(2,3) by simp
  ultimately have "PeekByteArray entry s = Inr (w ! i)"
    using assms(4) by (intro PeekByteArray_split)
  with assms(1,3) show ?thesis
    by (simp add: copy_to_top_def PushByteArray_def take_Suc_conv_app_nth)
qed

lemma repeat_move_to_top:
  assumes "stk s = xs @ w" "int (length w) = entry + 1" "0 \<le> entry" "length (stk s) < 2 ^ 31"
  shows "repeat_n n (move_to_top entry) s = Inr (s\<lparr>stk := xs @ rotate n w\<rparr>)"
proof -
  let ?g = "\<lambda>i. s\<lparr>stk := xs @ rotate i w\<rparr>"
  have "repeat_n n (move_to_top entry) (?g 0) = Inr (?g n)"
    using assms by (intro repeat_n_states [of n _ ?g]) (simp add: move_to_top_window rotate_Suc)
  then show ?thesis using assms(1) by (simp add: stk_update_id)
qed

lemma repeat_copy_to_top:
  assumes "stk s = xs @ w" "int (length w) = entry + 1" "n \<le> length w"
    "length (stk s) + n < 2 ^ 31"
  shows "repeat_n n (copy_to_top entry) s = Inr (s\<lparr>stk := xs @ w @ take n w\<rparr>)"
proof -
  let ?g = "\<lambda>i. s\<lparr>stk := xs @ w @ take i w\<rparr>"
  have "repeat_n n (copy_to_top entry) (?g 0) = Inr (?g n)"
    using assms by (intro repeat_n_states [of n _ ?g]) (simp add: copy_to_top_window)
  then show ?thesis using assms(1) by (simp add: stk_update_id)
qed

lemma repeat_pop:
  assumes "stk s = xs @ ys" "length (stk s) < 2 ^ 31"
  shows "repeat_n (length ys) (\<lambda>s. sbind (PopByteArray s) (\<lambda>(_, s). Inr s)) s = Inr (s\<lparr>stk := xs\<rparr>)"
proof -
  let ?g = "\<lambda>i. s\<lparr>stk := xs @ take (length ys - i) ys\<rparr>"
  let ?f = "\<lambda>s :: stack. sbind (PopByteArray s) (\<lambda>(_, s). Inr s)"
  have "repeat_n (length ys) ?f (?g 0) = Inr (?g (length ys))"
  proof (rule repeat_n_states)
    fix i assume i: "i < length ys"
    then have "take (length ys - i) ys = take (length ys - Suc i) ys @ [ys ! (length ys - Suc i)]"
      by (metis Suc_diff_Suc diff_less take_Suc_conv_app_nth zero_less_Suc less_nat_zero_code neq0_conv)
    with i assms show "?f (?g i) = Inr (?g (Suc i))"
      by (subst PopByteArray_snoc [of _ "xs @ take (length ys - Suc i) ys" "ys ! (length ys - Suc i)"])
         simp_all
  qed
  then show ?thesis using assms(1) by (simp add: stk_update_id)
qed

lemma DropN_split:
  assumes "stk s = xs @ ys" "ys \<noteq> []" "n = int (length ys)" "length (stk s) < 2 ^ 31"
  shows "DropN n s = Inr (s\<lparr>stk := xs\<rparr>)"
proof -
  have "\<not> n < 1" using assms(2,3) by (cases ys) simp_all
  then show ?thesis using repeat_pop [OF assms(1,4)] assms(3) by (simp add: DropN_def)
qed

lemma clearStack_stk: "length (stk s) < 2 ^ 31 \<Longrightarrow> clearStack s = s\<lparr>stk := []\<rparr>"
proof (cases "stk s = []")
  case True
  then show ?thesis by (simp add: clearStack_def DropN_def)
next
  case False
  assume "length (stk s) < 2 ^ 31"
  with False have "DropN (Depth s) s = Inr (s\<lparr>stk := []\<rparr>)"
    by (intro DropN_split [of s "[]" "stk s"]) simp_all
  then show ?thesis by (simp add: clearStack_def)
qed

lemma fold_PushByteArray: "fold PushByteArray xs s = s\<lparr>stk := stk s @ xs\<rparr>"
  by (induction xs arbitrary: s) (simp_all add: PushByteArray_def)

lemma setStack_stk: "length (stk s) < 2 ^ 31 \<Longrightarrow> setStack s xs = s\<lparr>stk := xs\<rparr>"
  by (simp add: setStack_def fold_PushByteArray clearStack_stk)

lemma getStack_stk: "length (stk s) < 2 ^ 31 \<Longrightarrow> getStack s = stk s"
proof -
  assume s: "length (stk s) < 2 ^ 31"
  have "PeekByteArray (int (length (stk s)) - int i - 1) s = Inr (stk s ! i)"
    if "i < length (stk s)" for i
    using that s by (simp add: PeekByteArray_def Let_def go_index_in)
  with s have "getStack s = map (\<lambda>i. stk s ! i) [0..<length (stk s)]"
    by (simp add: getStack_def)
  then show ?thesis by (simp add: map_nth)
qed

lemma stack_transformations:
  assumes "0 < n" "length a = n" "length b = n" "length c = n" "length xs + 6 * n < 2 ^ 31"
  shows "DupN (int n) (s\<lparr>stk := xs @ a\<rparr>) = Inr (s\<lparr>stk := xs @ a @ a\<rparr>)"
    and "OverN (int n) (s\<lparr>stk := xs @ a @ b\<rparr>) = Inr (s\<lparr>stk := xs @ a @ b @ a\<rparr>)"
    and "SwapN (int n) (s\<lparr>stk := xs @ a @ b\<rparr>) = Inr (s\<lparr>stk := xs @ b @ a\<rparr>)"
    and "RotN (int n) (s\<lparr>stk := xs @ a @ b @ c\<rparr>) = Inr (s\<lparr>stk := xs @ b @ c @ a\<rparr>)"
    and "DropN (int n) (s\<lparr>stk := xs @ a\<rparr>) = Inr (s\<lparr>stk := xs\<rparr>)"
proof -
  have entry: "int32_of (2 * int n - 1) = 2 * int n - 1" "int32_of (3 * int n - 1) = 3 * int n - 1"
    using assms(1,5) by (simp_all add: int32_of_id)
  show "DupN (int n) (s\<lparr>stk := xs @ a\<rparr>) = Inr (s\<lparr>stk := xs @ a @ a\<rparr>)"
    using assms by (simp add: DupN_def repeat_copy_to_top [where xs = xs and w = a])
  show "OverN (int n) (s\<lparr>stk := xs @ a @ b\<rparr>) = Inr (s\<lparr>stk := xs @ a @ b @ a\<rparr>)"
    using assms by (simp add: OverN_def entry repeat_copy_to_top [where xs = xs and w = "a @ b"])
  show "SwapN (int n) (s\<lparr>stk := xs @ a @ b\<rparr>) = Inr (s\<lparr>stk := xs @ b @ a\<rparr>)"
    using assms rotate_append [of a b]
    by (simp add: SwapN_def entry repeat_move_to_top [where xs = xs and w = "a @ b"])
  show "RotN (int n) (s\<lparr>stk := xs @ a @ b @ c\<rparr>) = Inr (s\<lparr>stk := xs @ b @ c @ a\<rparr>)"
    using assms rotate_append [of a "b @ c"]
    by (simp add: RotN_def entry repeat_move_to_top [where xs = xs and w = "a @ b @ c"])
  show "DropN (int n) (s\<lparr>stk := xs @ a\<rparr>) = Inr (s\<lparr>stk := xs\<rparr>)"
    using assms by (subst DropN_split [where xs = xs and ys = a]) auto
qed

lemma repeat_first_fails: "0 < n \<Longrightarrow> f s = Inl e \<Longrightarrow> repeat_n n f s = Inl e"
  by (cases n) simp_all

lemma move_to_top_fails:
  "int (length (stk s)) \<le> entry \<Longrightarrow> length (stk s) < 2 ^ 31 \<Longrightarrow>
     move_to_top entry s = Inl (scriptError ErrInvalidStackOperation)"
  by (simp add: move_to_top_def nipN_fails)

lemma copy_to_top_fails:
  "int (length (stk s)) \<le> entry \<Longrightarrow> length (stk s) < 2 ^ 31 \<Longrightarrow>
     copy_to_top entry s = Inl (scriptError ErrInvalidStackOperation)"
  by (simp add: copy_to_top_def PeekByteArray_fails)

lemma repeat_pop_fails:
  assumes "length (stk s) < n" "length (stk s) < 2 ^ 31"
  shows "repeat_n n (\<lambda>s. sbind (PopByteArray s) (\<lambda>(_, s). Inr s)) s =
     Inl (scriptError ErrInvalidStackOperation)"
  using assms
proof (induction n arbitrary: s)
  case 0
  then show ?case by simp
next
  case (Suc n)
  then show ?case by (cases "stk s" rule: rev_cases) simp_all
qed

lemma stack_underflow:
  assumes "6 * n < 2 ^ 31" "length (stk s) < 2 ^ 31"
  shows "int (length (stk s)) < n \<or> n < 1 \<Longrightarrow> DupN n s = Inl (scriptError ErrInvalidStackOperation)"
    and "int (length (stk s)) < n \<or> n < 1 \<Longrightarrow> DropN n s = Inl (scriptError ErrInvalidStackOperation)"
    and "int (length (stk s)) < 2 * n \<or> n < 1 \<Longrightarrow> OverN n s = Inl (scriptError ErrInvalidStackOperation)"
    and "int (length (stk s)) < 2 * n \<or> n < 1 \<Longrightarrow> SwapN n s = Inl (scriptError ErrInvalidStackOperation)"
    and "int (length (stk s)) < 3 * n \<or> n < 1 \<Longrightarrow> RotN n s = Inl (scriptError ErrInvalidStackOperation)"
proof -
  have entry: "\<not> n < 1 \<Longrightarrow> int32_of (2 * n - 1) = 2 * n - 1"
    "\<not> n < 1 \<Longrightarrow> int32_of (3 * n - 1) = 3 * n - 1"
    using assms(1) by (simp_all add: int32_of_id)
  note fails = repeat_first_fails move_to_top_fails copy_to_top_fails
  show "int (length (stk s)) < n \<or> n < 1 \<Longrightarrow> DupN n s = Inl (scriptError ErrInvalidStackOperation)"
    using assms(2) by (auto simp: DupN_def intro!: fails)
  show "int (length (stk s)) < n \<or> n < 1 \<Longrightarrow> DropN n s = Inl (scriptError ErrInvalidStackOperation)"
    using assms(2) by (auto simp: DropN_def intro!: repeat_pop_fails)
  show "int (length (stk s)) < 2 * n \<or> n < 1 \<Longrightarrow> OverN n s = Inl (scriptError ErrInvalidStackOperation)"
    using assms(2) entry(1) by (auto simp: OverN_def intro!: fails)
  show "int (length (stk s)) < 2 * n \<or> n < 1 \<Longrightarrow> SwapN n s = Inl (scriptError ErrInvalidStackOperation)"
    using assms(2) entry(1) by (auto simp: SwapN_def intro!: fails)
  show "int (length (stk s)) < 3 * n \<or> n < 1 \<Longrightarrow> RotN n s = Inl (scriptError ErrInvalidStackOperation)"
    using assms(2) entry(2) by (auto simp: RotN_def intro!: fails)
qed

lemma split_suffix:
  assumes "m \<le> length xs"
  obtains ys zs where "xs = ys @ zs" "length zs = m"
proof -
  have "xs = take (length xs - m) xs @ drop (length xs - m) xs" by simp
  moreover have "length (drop (length xs - m) xs) = m" using assms by simp
  ultimately show thesis using that by blast
qed

lemma one_block_spec:
  fixes n :: nat
  assumes "length (stk s) + 6 * n < 2 ^ 31" "1 \<le> n" "n \<le> length (stk s)"
  shows "DropN (int n) s = Inr (s\<lparr>stk := take (length (stk s) - n) (stk s)\<rparr>)"
    and "DupN (int n) s = Inr (s\<lparr>stk := stk s @ drop (length (stk s) - n) (stk s)\<rparr>)"
proof -
  obtain xs a where S: "stk s = xs @ a" "length a = n" using assms(3) by (rule split_suffix)
  note t = stack_transformations [of n a a a xs s, unfolded stk_update_id [OF S(1)]]
  show "DropN (int n) s = Inr (s\<lparr>stk := take (length (stk s) - n) (stk s)\<rparr>)"
    using t(5) S assms(1,2) by simp
  show "DupN (int n) s = Inr (s\<lparr>stk := stk s @ drop (length (stk s) - n) (stk s)\<rparr>)"
    using t(1) S assms(1,2) by simp
qed

lemma two_block_spec:
  fixes n :: nat
  assumes "length (stk s) + 6 * n < 2 ^ 31" "1 \<le> n" "2 * n \<le> length (stk s)"
  shows "OverN (int n) s = Inr (s\<lparr>stk := stk s @ take n (drop (length (stk s) - 2 * n) (stk s))\<rparr>)"
    and "SwapN (int n) s = Inr (s\<lparr>stk := take (length (stk s) - 2 * n) (stk s) @
           drop (length (stk s) - n) (stk s) @ take n (drop (length (stk s) - 2 * n) (stk s))\<rparr>)"
proof -
  obtain xs w where W: "stk s = xs @ w" "length w = 2 * n" using assms(3) by (rule split_suffix)
  then have "n \<le> length w" by simp
  then obtain a b where w: "w = a @ b" "length b = n" by (rule split_suffix)
  have S: "stk s = xs @ a @ b" "length a = n" using W w by simp_all
  note t = stack_transformations [of n a b b xs s, unfolded stk_update_id [OF S(1)]]
  show "OverN (int n) s = Inr (s\<lparr>stk := stk s @ take n (drop (length (stk s) - 2 * n) (stk s))\<rparr>)"
    using t(2) S w(2) assms(1,2) by simp
  show "SwapN (int n) s = Inr (s\<lparr>stk := take (length (stk s) - 2 * n) (stk s) @
           drop (length (stk s) - n) (stk s) @ take n (drop (length (stk s) - 2 * n) (stk s))\<rparr>)"
    using t(3) S w(2) assms(1,2) by simp
qed

lemma three_block_spec:
  fixes n :: nat
  assumes "length (stk s) + 6 * n < 2 ^ 31" "1 \<le> n" "3 * n \<le> length (stk s)"
  shows "RotN (int n) s = Inr (s\<lparr>stk := take (length (stk s) - 3 * n) (stk s) @
           drop (length (stk s) - 2 * n) (stk s) @ take n (drop (length (stk s) - 3 * n) (stk s))\<rparr>)"
proof -
  obtain xs w where W: "stk s = xs @ w" "length w = 3 * n" using assms(3) by (rule split_suffix)
  then have "2 * n \<le> length w" by simp
  then obtain a v where v: "w = a @ v" "length v = 2 * n" by (rule split_suffix)
  then have "n \<le> length v" by simp
  then obtain b c where w: "v = b @ c" "length c = n" by (rule split_suffix)
  have S: "stk s = xs @ a @ b @ c" "length a = n" "length b = n" using W v w by simp_all
  note t = stack_transformations [of n a b c xs s, unfolded stk_update_id [OF S(1)]]
  show ?thesis using t(4) S w(2) assms(1,2) by simp
qed

text \<open>
  The block operations of the stack do what their comments draw, for every block size and
  every stack: with enough items \<open>DropN\<close>, \<open>DupN\<close>, \<open>OverN\<close>, \<open>SwapN\<close> and \<open>RotN\<close> give the
  documented arrangement of the top one, two or three blocks of \<open>n\<close> items and leave the rest
  alone; with fewer items, or a block size below one, they report an invalid stack operation.
\<close>

lemma stack_ops_spec:
  fixes n :: nat and s :: stack
  defines "k \<equiv> length (stk s)" and "bad \<equiv> Inl (scriptError ErrInvalidStackOperation)"
  assumes "k + 6 * n < 2 ^ 31"
  shows "DropN (int n) s = (if 1 \<le> n \<and> n \<le> k then Inr (s\<lparr>stk := take (k - n) (stk s)\<rparr>) else bad) \<and>
     DupN (int n) s = (if 1 \<le> n \<and> n \<le> k then Inr (s\<lparr>stk := stk s @ drop (k - n) (stk s)\<rparr>) else bad) \<and>
     OverN (int n) s =
       (if 1 \<le> n \<and> 2 * n \<le> k
        then Inr (s\<lparr>stk := stk s @ take n (drop (k - 2 * n) (stk s))\<rparr>) else bad) \<and>
     SwapN (int n) s =
       (if 1 \<le> n \<and> 2 * n \<le> k
        then Inr (s\<lparr>stk := take (k - 2 * n) (stk s) @ drop (k - n) (stk s) @
               take n (drop (k - 2 * n) (stk s))\<rparr>) else bad) \<and>
     RotN (int n) s =
       (if 1 \<le> n \<and> 3 * n \<le> k
        then Inr (s\<lparr>stk := take (k - 3 * n) (stk s) @ drop (k - 2 * n) (stk s) @
               take n (drop (k - 3 * n) (stk s))\<rparr>) else bad)"
proof (cases "n = 0")
  case True
  then show ?thesis
    by (simp add: bad_def DropN_def DupN_def OverN_def SwapN_def RotN_def)
next
  case False
  then show ?thesis
    using assms one_block_spec [of s n] two_block_spec [of s n] three_block_spec [of s n]
      stack_underflow [of "int n" s]
    by (simp add: not_le)
qed

lemma stack_ops_spec_example:
  "RotN 1 \<lparr>stk = [[1], [2], [3], [4]], verifyMinimalData = True\<rparr> =
     Inr \<lparr>stk = [[1], [3], [4], [2]], verifyMinimalData = True\<rparr>"
  using stack_ops_spec [of "\<lparr>stk = [[1], [2], [3], [4]], verifyMinimalData = True\<rparr>" 1] by simp

lemma PopInt_snoc:
  "stk s = xs @ [x] \<Longrightarrow> length xs < 2 ^ 31 - 1 \<Longrightarrow>
     PopInt s = sbind (MakeScriptNum x (verifyMinimalData s) 4) (\<lambda>n. Inr (n, s\<lparr>stk := xs\<rparr>))"
  by (simp add: PopInt_def maxScriptNumLen_def)

end
