(* ===== verification/Script_Tokenizer.thy ===== *)
theory Script_Tokenizer
  imports Script_Stack
begin

text \<open>
  Opcodes and the script tokenizer (\<^verbatim>\<open>node/txscript/opcode.go\<close>,
  \<^verbatim>\<open>tokenizer.go\<close>, \<^verbatim>\<open>script.go\<close>): the opcode values and the lengths of the opcode
  table, \<open>ScriptTokenizer\<close> as a record with \<open>Next\<close> as its step, the loops
  \<open>for tokenizer.Next()\<close> as \<open>for_tokens\<close>, and the script predicates built on them. Offsets are
  \<open>int32\<close> values with the conversions written out. A Go slice that may be nil is an option.
\<close>

subsection \<open>Opcodes\<close>

abbreviation (input) OP_0 :: byte where "OP_0 \<equiv> 0x00"
abbreviation (input) OP_FALSE :: byte where "OP_FALSE \<equiv> 0x00"
abbreviation (input) OP_DATA_1 :: byte where "OP_DATA_1 \<equiv> 0x01"
abbreviation (input) OP_DATA_20 :: byte where "OP_DATA_20 \<equiv> 0x14"
abbreviation (input) OP_DATA_32 :: byte where "OP_DATA_32 \<equiv> 0x20"
abbreviation (input) OP_DATA_75 :: byte where "OP_DATA_75 \<equiv> 0x4b"
abbreviation (input) OP_PUSHDATA1 :: byte where "OP_PUSHDATA1 \<equiv> 0x4c"
abbreviation (input) OP_PUSHDATA2 :: byte where "OP_PUSHDATA2 \<equiv> 0x4d"
abbreviation (input) OP_PUSHDATA4 :: byte where "OP_PUSHDATA4 \<equiv> 0x4e"
abbreviation (input) OP_1NEGATE :: byte where "OP_1NEGATE \<equiv> 0x4f"
abbreviation (input) OP_RESERVED :: byte where "OP_RESERVED \<equiv> 0x50"
abbreviation (input) OP_1 :: byte where "OP_1 \<equiv> 0x51"
abbreviation (input) OP_TRUE :: byte where "OP_TRUE \<equiv> 0x51"
abbreviation (input) OP_2 :: byte where "OP_2 \<equiv> 0x52"
abbreviation (input) OP_3 :: byte where "OP_3 \<equiv> 0x53"
abbreviation (input) OP_4 :: byte where "OP_4 \<equiv> 0x54"
abbreviation (input) OP_5 :: byte where "OP_5 \<equiv> 0x55"
abbreviation (input) OP_6 :: byte where "OP_6 \<equiv> 0x56"
abbreviation (input) OP_7 :: byte where "OP_7 \<equiv> 0x57"
abbreviation (input) OP_8 :: byte where "OP_8 \<equiv> 0x58"
abbreviation (input) OP_9 :: byte where "OP_9 \<equiv> 0x59"
abbreviation (input) OP_10 :: byte where "OP_10 \<equiv> 0x5a"
abbreviation (input) OP_11 :: byte where "OP_11 \<equiv> 0x5b"
abbreviation (input) OP_12 :: byte where "OP_12 \<equiv> 0x5c"
abbreviation (input) OP_13 :: byte where "OP_13 \<equiv> 0x5d"
abbreviation (input) OP_14 :: byte where "OP_14 \<equiv> 0x5e"
abbreviation (input) OP_15 :: byte where "OP_15 \<equiv> 0x5f"
abbreviation (input) OP_16 :: byte where "OP_16 \<equiv> 0x60"
abbreviation (input) OP_NOP :: byte where "OP_NOP \<equiv> 0x61"
abbreviation (input) OP_VER :: byte where "OP_VER \<equiv> 0x62"
abbreviation (input) OP_IF :: byte where "OP_IF \<equiv> 0x63"
abbreviation (input) OP_NOTIF :: byte where "OP_NOTIF \<equiv> 0x64"
abbreviation (input) OP_VERIF :: byte where "OP_VERIF \<equiv> 0x65"
abbreviation (input) OP_VERNOTIF :: byte where "OP_VERNOTIF \<equiv> 0x66"
abbreviation (input) OP_ELSE :: byte where "OP_ELSE \<equiv> 0x67"
abbreviation (input) OP_ENDIF :: byte where "OP_ENDIF \<equiv> 0x68"
abbreviation (input) OP_VERIFY :: byte where "OP_VERIFY \<equiv> 0x69"
abbreviation (input) OP_RETURN :: byte where "OP_RETURN \<equiv> 0x6a"
abbreviation (input) OP_TOALTSTACK :: byte where "OP_TOALTSTACK \<equiv> 0x6b"
abbreviation (input) OP_FROMALTSTACK :: byte where "OP_FROMALTSTACK \<equiv> 0x6c"
abbreviation (input) OP_2DROP :: byte where "OP_2DROP \<equiv> 0x6d"
abbreviation (input) OP_2DUP :: byte where "OP_2DUP \<equiv> 0x6e"
abbreviation (input) OP_3DUP :: byte where "OP_3DUP \<equiv> 0x6f"
abbreviation (input) OP_2OVER :: byte where "OP_2OVER \<equiv> 0x70"
abbreviation (input) OP_2ROT :: byte where "OP_2ROT \<equiv> 0x71"
abbreviation (input) OP_2SWAP :: byte where "OP_2SWAP \<equiv> 0x72"
abbreviation (input) OP_IFDUP :: byte where "OP_IFDUP \<equiv> 0x73"
abbreviation (input) OP_DEPTH :: byte where "OP_DEPTH \<equiv> 0x74"
abbreviation (input) OP_DROP :: byte where "OP_DROP \<equiv> 0x75"
abbreviation (input) OP_DUP :: byte where "OP_DUP \<equiv> 0x76"
abbreviation (input) OP_NIP :: byte where "OP_NIP \<equiv> 0x77"
abbreviation (input) OP_OVER :: byte where "OP_OVER \<equiv> 0x78"
abbreviation (input) OP_PICK :: byte where "OP_PICK \<equiv> 0x79"
abbreviation (input) OP_ROLL :: byte where "OP_ROLL \<equiv> 0x7a"
abbreviation (input) OP_ROT :: byte where "OP_ROT \<equiv> 0x7b"
abbreviation (input) OP_SWAP :: byte where "OP_SWAP \<equiv> 0x7c"
abbreviation (input) OP_TUCK :: byte where "OP_TUCK \<equiv> 0x7d"
abbreviation (input) OP_CAT :: byte where "OP_CAT \<equiv> 0x7e"
abbreviation (input) OP_SUBSTR :: byte where "OP_SUBSTR \<equiv> 0x7f"
abbreviation (input) OP_LEFT :: byte where "OP_LEFT \<equiv> 0x80"
abbreviation (input) OP_RIGHT :: byte where "OP_RIGHT \<equiv> 0x81"
abbreviation (input) OP_SIZE :: byte where "OP_SIZE \<equiv> 0x82"
abbreviation (input) OP_INVERT :: byte where "OP_INVERT \<equiv> 0x83"
abbreviation (input) OP_AND :: byte where "OP_AND \<equiv> 0x84"
abbreviation (input) OP_OR :: byte where "OP_OR \<equiv> 0x85"
abbreviation (input) OP_XOR :: byte where "OP_XOR \<equiv> 0x86"
abbreviation (input) OP_EQUAL :: byte where "OP_EQUAL \<equiv> 0x87"
abbreviation (input) OP_EQUALVERIFY :: byte where "OP_EQUALVERIFY \<equiv> 0x88"
abbreviation (input) OP_RESERVED1 :: byte where "OP_RESERVED1 \<equiv> 0x89"
abbreviation (input) OP_RESERVED2 :: byte where "OP_RESERVED2 \<equiv> 0x8a"
abbreviation (input) OP_1ADD :: byte where "OP_1ADD \<equiv> 0x8b"
abbreviation (input) OP_1SUB :: byte where "OP_1SUB \<equiv> 0x8c"
abbreviation (input) OP_2MUL :: byte where "OP_2MUL \<equiv> 0x8d"
abbreviation (input) OP_2DIV :: byte where "OP_2DIV \<equiv> 0x8e"
abbreviation (input) OP_NEGATE :: byte where "OP_NEGATE \<equiv> 0x8f"
abbreviation (input) OP_ABS :: byte where "OP_ABS \<equiv> 0x90"
abbreviation (input) OP_NOT :: byte where "OP_NOT \<equiv> 0x91"
abbreviation (input) OP_0NOTEQUAL :: byte where "OP_0NOTEQUAL \<equiv> 0x92"
abbreviation (input) OP_ADD :: byte where "OP_ADD \<equiv> 0x93"
abbreviation (input) OP_SUB :: byte where "OP_SUB \<equiv> 0x94"
abbreviation (input) OP_MUL :: byte where "OP_MUL \<equiv> 0x95"
abbreviation (input) OP_DIV :: byte where "OP_DIV \<equiv> 0x96"
abbreviation (input) OP_MOD :: byte where "OP_MOD \<equiv> 0x97"
abbreviation (input) OP_LSHIFT :: byte where "OP_LSHIFT \<equiv> 0x98"
abbreviation (input) OP_RSHIFT :: byte where "OP_RSHIFT \<equiv> 0x99"
abbreviation (input) OP_BOOLAND :: byte where "OP_BOOLAND \<equiv> 0x9a"
abbreviation (input) OP_BOOLOR :: byte where "OP_BOOLOR \<equiv> 0x9b"
abbreviation (input) OP_NUMEQUAL :: byte where "OP_NUMEQUAL \<equiv> 0x9c"
abbreviation (input) OP_NUMEQUALVERIFY :: byte where "OP_NUMEQUALVERIFY \<equiv> 0x9d"
abbreviation (input) OP_NUMNOTEQUAL :: byte where "OP_NUMNOTEQUAL \<equiv> 0x9e"
abbreviation (input) OP_LESSTHAN :: byte where "OP_LESSTHAN \<equiv> 0x9f"
abbreviation (input) OP_GREATERTHAN :: byte where "OP_GREATERTHAN \<equiv> 0xa0"
abbreviation (input) OP_LESSTHANOREQUAL :: byte where "OP_LESSTHANOREQUAL \<equiv> 0xa1"
abbreviation (input) OP_GREATERTHANOREQUAL :: byte where "OP_GREATERTHANOREQUAL \<equiv> 0xa2"
abbreviation (input) OP_MIN :: byte where "OP_MIN \<equiv> 0xa3"
abbreviation (input) OP_MAX :: byte where "OP_MAX \<equiv> 0xa4"
abbreviation (input) OP_WITHIN :: byte where "OP_WITHIN \<equiv> 0xa5"
abbreviation (input) OP_RIPEMD160 :: byte where "OP_RIPEMD160 \<equiv> 0xa6"
abbreviation (input) OP_SHA1 :: byte where "OP_SHA1 \<equiv> 0xa7"
abbreviation (input) OP_SHA256 :: byte where "OP_SHA256 \<equiv> 0xa8"
abbreviation (input) OP_HASH160 :: byte where "OP_HASH160 \<equiv> 0xa9"
abbreviation (input) OP_HASH256 :: byte where "OP_HASH256 \<equiv> 0xaa"
abbreviation (input) OP_CODESEPARATOR :: byte where "OP_CODESEPARATOR \<equiv> 0xab"
abbreviation (input) OP_CHECKSIG :: byte where "OP_CHECKSIG \<equiv> 0xac"
abbreviation (input) OP_CHECKSIGVERIFY :: byte where "OP_CHECKSIGVERIFY \<equiv> 0xad"
abbreviation (input) OP_CHECKMULTISIG :: byte where "OP_CHECKMULTISIG \<equiv> 0xae"
abbreviation (input) OP_CHECKMULTISIGVERIFY :: byte where "OP_CHECKMULTISIGVERIFY \<equiv> 0xaf"
abbreviation (input) OP_NOP1 :: byte where "OP_NOP1 \<equiv> 0xb0"
abbreviation (input) OP_NOP2 :: byte where "OP_NOP2 \<equiv> 0xb1"
abbreviation (input) OP_CHECKLOCKTIMEVERIFY :: byte where "OP_CHECKLOCKTIMEVERIFY \<equiv> 0xb1"
abbreviation (input) OP_NOP3 :: byte where "OP_NOP3 \<equiv> 0xb2"
abbreviation (input) OP_CHECKSEQUENCEVERIFY :: byte where "OP_CHECKSEQUENCEVERIFY \<equiv> 0xb2"
abbreviation (input) OP_NOP4 :: byte where "OP_NOP4 \<equiv> 0xb3"
abbreviation (input) OP_NOP5 :: byte where "OP_NOP5 \<equiv> 0xb4"
abbreviation (input) OP_NOP6 :: byte where "OP_NOP6 \<equiv> 0xb5"
abbreviation (input) OP_NOP7 :: byte where "OP_NOP7 \<equiv> 0xb6"
abbreviation (input) OP_NOP8 :: byte where "OP_NOP8 \<equiv> 0xb7"
abbreviation (input) OP_NOP9 :: byte where "OP_NOP9 \<equiv> 0xb8"
abbreviation (input) OP_NOP10 :: byte where "OP_NOP10 \<equiv> 0xb9"
abbreviation (input) OP_CHECKSIGADD :: byte where "OP_CHECKSIGADD \<equiv> 0xba"
abbreviation (input) OP_CHECKXMSSSIG :: byte where "OP_CHECKXMSSSIG \<equiv> 0xde"
abbreviation (input) OP_SMALLINTEGER :: byte where "OP_SMALLINTEGER \<equiv> 0xfa"
abbreviation (input) OP_PUBKEYS :: byte where "OP_PUBKEYS \<equiv> 0xfb"
abbreviation (input) OP_PUBKEYHASH :: byte where "OP_PUBKEYHASH \<equiv> 0xfd"
abbreviation (input) OP_PUBKEY :: byte where "OP_PUBKEY \<equiv> 0xfe"
abbreviation (input) OP_INVALIDOPCODE :: byte where "OP_INVALIDOPCODE \<equiv> 0xff"

record opcode =
  op_value :: byte
  op_length :: int

text \<open>The length column of the opcode table; the handlers are attached in \<open>Script_Engine\<close>.\<close>

definition opcode_length :: "byte \<Rightarrow> int" where
  "opcode_length b =
     (if OP_DATA_1 \<le> b \<and> b \<le> OP_DATA_75 then uint b + 1
      else if b = OP_PUSHDATA1 then - 1
      else if b = OP_PUSHDATA2 then - 2
      else if b = OP_PUSHDATA4 then - 4
      else 1)"

definition opcodeArray :: "byte \<Rightarrow> opcode" where
  "opcodeArray b = \<lparr>op_value = b, op_length = opcode_length b\<rparr>"

subsection \<open>The tokenizer\<close>

record ScriptTokenizer =
  tok_script :: bytes
  tok_version :: nat
  tok_offset :: int
  tok_opcodePos :: int
  tok_op :: "opcode option"
  tok_data :: "bytes option"
  tok_err :: "go_error option"

definition tok_Done :: "ScriptTokenizer \<Rightarrow> bool" where
  "tok_Done t \<longleftrightarrow> tok_err t \<noteq> None \<or> tok_offset t \<ge> int32_of (int (length (tok_script t)))"

definition tok_fail :: "ScriptTokenizer \<Rightarrow> go_error + (bool \<times> ScriptTokenizer)" where
  "tok_fail t = Inr (False, t\<lparr>tok_err := Some (scriptError ErrMalformedPush)\<rparr>)"

text \<open>The switch on the width of the length field; \<open>None\<close> is its default branch.\<close>

definition tok_dataLen :: "int \<Rightarrow> bytes \<Rightarrow> go_error + int option" where
  "tok_dataLen len script =
     (if len = - 1 then sbind (go_index script 0) (\<lambda>b0. Inr (Some (uint b0)))
      else if len = - 2 then sbind (go_slice script 0 2) (\<lambda>l. Inr (Some (le_val l)))
      else if len = - 4 then sbind (go_slice script 0 4) (\<lambda>l. Inr (Some (int32_of (le_val l))))
      else Inr None)"

definition tok_Next :: "ScriptTokenizer \<Rightarrow> go_error + (bool \<times> ScriptTokenizer)" where
  "tok_Next t0 =
     (if tok_Done t0 then Inr (False, t0)
      else
        let t = t0\<lparr>tok_opcodePos := int32_of (tok_opcodePos t0 + 1)\<rparr>
        in sbind (go_index (tok_script t) (tok_offset t)) (\<lambda>b.
          let op = opcodeArray b
          in if op_length op = 1 then
               Inr (True, t\<lparr>tok_offset := int32_of (tok_offset t + 1), tok_op := Some op, tok_data := None\<rparr>)
             else if op_length op > 1 then
               sbind (go_slice (tok_script t) (tok_offset t) (int (length (tok_script t)))) (\<lambda>script.
                 if int (length script) < op_length op then tok_fail t
                 else
                   sbind (go_slice script 1 (op_length op)) (\<lambda>d.
                     Inr (True, t\<lparr>tok_offset := int32_of (tok_offset t + op_length op),
                                  tok_op := Some op, tok_data := Some d\<rparr>)))
             else if op_length op < 0 then
               sbind (go_slice (tok_script t) (int32_of (tok_offset t + 1)) (int (length (tok_script t))))
                 (\<lambda>script.
                   if int (length script) < - op_length op then tok_fail t
                   else
                     sbind (tok_dataLen (op_length op) script) (\<lambda>dataLen.
                       case dataLen of
                         None \<Rightarrow> tok_fail t
                       | Some dataLen \<Rightarrow>
                           sbind (go_slice script (- op_length op) (int (length script))) (\<lambda>script.
                             if dataLen > int32_of (int (length script)) \<or> dataLen < 0 then tok_fail t
                             else
                               sbind (go_slice script 0 dataLen) (\<lambda>d.
                                 Inr (True, t\<lparr>tok_offset := int32_of (tok_offset t + (1 + - op_length op + dataLen)),
                                              tok_op := Some op, tok_data := Some d\<rparr>)))))
             else Inl goPanic))"

definition MakeScriptTokenizer :: "nat \<Rightarrow> bytes \<Rightarrow> ScriptTokenizer" where
  "MakeScriptTokenizer scriptVersion script =
     \<lparr>tok_script = script, tok_version = scriptVersion, tok_offset = 0, tok_opcodePos = - 1,
      tok_op = None, tok_data = None,
      tok_err = (if scriptVersion \<noteq> 0 then Some (scriptError ErrUnsupportedScriptVersion) else None)\<rparr>"

text \<open>\<open>Opcode()\<close> dereferences the current opcode; \<open>Data()\<close> is read as a byte string.\<close>

definition tok_Opcode :: "ScriptTokenizer \<Rightarrow> go_error + byte" where
  "tok_Opcode t = (case tok_op t of None \<Rightarrow> Inl goPanic | Some op \<Rightarrow> Inr (op_value op))"

definition data_bytes :: "bytes option \<Rightarrow> bytes" where
  "data_bytes d = (case d of None \<Rightarrow> [] | Some d \<Rightarrow> d)"

lemma opcode_length_cases:
  obtains (one) "opcode_length b = 1"
  | (data) "OP_DATA_1 \<le> b" "b \<le> OP_DATA_75" "opcode_length b = uint b + 1" "1 < opcode_length b" "opcode_length b \<le> 76"
  | (push1) "b = OP_PUSHDATA1" "opcode_length b = - 1"
  | (push2) "b = OP_PUSHDATA2" "opcode_length b = - 2"
  | (push4) "b = OP_PUSHDATA4" "opcode_length b = - 4"
proof (cases "OP_DATA_1 \<le> b \<and> b \<le> OP_DATA_75")
  case True
  then have "1 \<le> uint b" "uint b \<le> 75" by (simp_all add: word_le_def)
  then show thesis using True data by (simp add: opcode_length_def)
next
  case False
  then show thesis
    using one push1 push2 push4
    by (cases "b = OP_PUSHDATA1"; cases "b = OP_PUSHDATA2"; cases "b = OP_PUSHDATA4")
       (auto simp: opcode_length_def)
qed

lemma opcodeArray_sel [simp]:
  "op_value (opcodeArray b) = b" "op_length (opcodeArray b) = opcode_length b"
  by (simp_all add: opcodeArray_def)

lemma tok_Next_pushdata:
  assumes "tok_Next t = Inr (True, t')" "go_index (tok_script t) (tok_offset t) = Inr b"
    "opcode_length b < 0" "\<not> tok_Done t" "0 \<le> tok_offset t"
  shows "tok_script t' = tok_script t \<and> tok_offset t < tok_offset t'"
proof -
  let ?L = "int (length (tok_script t))" and ?o = "tok_offset t" and ?k = "- opcode_length b"
  let ?r = "int32_of ?L"
  from assms obtain s1 where s1: "go_slice (tok_script t) (int32_of (?o + 1)) ?L = Inr s1"
    by (auto simp: tok_Next_def Let_def sbind_eq_Inr)
  have "\<exists>s2 n. go_slice s1 ?k (int (length s1)) = Inr s2 \<and>
    n \<le> int32_of (int (length s2)) \<and> 0 \<le> n \<and>
    tok_script t' = tok_script t \<and> tok_offset t' = int32_of (?o + (1 + ?k + n))"
    using assms s1
    by (fastforce simp: tok_Next_def Let_def sbind_eq_Inr tok_fail_def not_less not_le
          split: if_splits option.splits)
  then obtain s2 n where
    s2: "go_slice s1 ?k (int (length s1)) = Inr s2" and
    n: "n \<le> int32_of (int (length s2))" "0 \<le> n" and
    t': "tok_script t' = tok_script t" "tok_offset t' = int32_of (?o + (1 + ?k + n))"
    by blast
  have k: "1 \<le> ?k" "?k \<le> 4" using assms(3) by (cases b rule: opcode_length_cases; simp)+
  have r: "?o < ?r" "?r < 2 ^ 31" using assms(4) int32_of_range [of ?L] by (simp_all add: tok_Done_def)
  then have o1: "int32_of (?o + 1) = ?o + 1" using assms(5) by (intro int32_of_id) simp_all
  have "int (length s2) = ?L - (?o + 1) - ?k"
    using s1 s2 k assms(5) by (auto simp: go_slice_def o1 split: if_splits)
  moreover have "int32_of (?L - (?o + 1) - ?k) = int32_of (?r - (?o + 1) - ?k)"
  proof (rule int32_of_cong)
    have "(?L - (?o + 1) - ?k) mod 2 ^ 32 = (?L mod 2 ^ 32 - ((?o + 1) + ?k)) mod 2 ^ 32"
      by (simp only: mod_diff_left_eq diff_diff_eq)
    also have "\<dots> = (?r mod 2 ^ 32 - ((?o + 1) + ?k)) mod 2 ^ 32" by (simp only: int32_of_mod)
    finally show "(?L - (?o + 1) - ?k) mod 2 ^ 32 = (?r - (?o + 1) - ?k) mod 2 ^ 32"
      by (simp only: mod_diff_left_eq diff_diff_eq)
  qed
  moreover have "int32_of (?r - (?o + 1) - ?k) = ?r - (?o + 1) - ?k"
    using r k assms(5) by (intro int32_of_id) simp_all
  ultimately have "int32_of (int (length s2)) = ?r - (?o + 1) - ?k" by (simp only:)
  with n(1) have bound: "?o + (1 + ?k + n) \<le> ?r" by linarith
  then have "int32_of (?o + (1 + ?k + n)) = ?o + (1 + ?k + n)"
    using r k n assms(5) by (intro int32_of_id) simp_all
  with t' k n show ?thesis by linarith
qed

lemma tok_Next_advance:
  assumes "tok_Next t = Inr (True, t')"
  shows "tok_script t' = tok_script t \<and> 0 \<le> tok_offset t \<and>
     tok_offset t < int32_of (int (length (tok_script t))) \<and>
     (tok_offset t' < 0 \<or> tok_offset t < tok_offset t')"
proof -
  let ?L = "int (length (tok_script t))" and ?o = "tok_offset t"
  from assms have nd: "\<not> tok_Done t" by (auto simp: tok_Next_def)
  then have o1: "?o < int32_of ?L" by (simp add: tok_Done_def)
  have o0: "0 \<le> ?o"
    using assms nd by (auto simp: tok_Next_def Let_def sbind_eq_Inr go_index_def split: if_splits)
  have oL: "?o < 2 ^ 31" using o1 int32_of_range [of ?L] by linarith
  have up: "int32_of (?o + k) < 0 \<or> ?o < int32_of (?o + k)" if "0 < k" "k < 2 ^ 31" for k
    using int32_of_up [of "?o + k"] that o0 oL by auto
  obtain b where b: "go_index (tok_script t) ?o = Inr b"
    using assms nd by (auto simp: tok_Next_def Let_def sbind_eq_Inr)
  have "tok_script t' = tok_script t \<and> (tok_offset t' < 0 \<or> ?o < tok_offset t')"
  proof (cases b rule: opcode_length_cases)
    case one
    then show ?thesis using assms nd b up [of 1] by (auto simp: tok_Next_def Let_def)
  next
    case data
    then show ?thesis using assms nd b up [of "opcode_length b"]
      by (auto simp: tok_Next_def Let_def sbind_eq_Inr tok_fail_def split: if_splits)
  qed (use tok_Next_pushdata [OF assms b _ nd o0] in simp_all)
  with o0 o1 show ?thesis by simp
qed

definition tok_left :: "ScriptTokenizer \<Rightarrow> nat" where
  "tok_left t = (if tok_offset t < 0 then 0
                 else nat (int32_of (int (length (tok_script t))) - tok_offset t) + 1)"

lemma tok_Next_left: "tok_Next t = Inr (True, t') \<Longrightarrow> tok_left t' < tok_left t"
  using tok_Next_advance [of t t'] by (auto simp: tok_left_def)

text \<open>\<open>for tokenizer.Next() \<lbrace> body \<rbrace>\<close>: the body either returns from the function (\<open>Inl\<close>)
  or goes on with an updated accumulator. The loop ends: every step moves the offset forward, or
  makes it negative, which the next step answers with a panic.\<close>

function for_tokens ::
  "('a \<Rightarrow> ScriptTokenizer \<Rightarrow> go_error + ('r + 'a)) \<Rightarrow> 'a \<Rightarrow> ScriptTokenizer \<Rightarrow>
     go_error + (('r + 'a) \<times> ScriptTokenizer)" where
  "for_tokens body acc t =
     sbind (tok_Next t) (\<lambda>(more, t').
       if \<not> more then Inr (Inr acc, t')
       else sbind (body acc t') (\<lambda>x. case x of
              Inl r \<Rightarrow> Inr (Inl r, t')
            | Inr acc' \<Rightarrow> for_tokens body acc' t'))"
  by pat_completeness auto

termination
  by (relation "measure (\<lambda>(body, acc, t). tok_left t)") (auto dest: tok_Next_left)

declare for_tokens.simps [simp del]

subsection \<open>Scripts (\<^verbatim>\<open>script.go\<close>)\<close>

definition TaprootAnnexTag :: byte where "TaprootAnnexTag = 0x50"
definition TaprootLeafMask :: byte where "TaprootLeafMask = 0xfe"

definition IsSmallInt :: "byte \<Rightarrow> bool" where
  "IsSmallInt op \<longleftrightarrow> op = OP_0 \<or> (OP_1 \<le> op \<and> op \<le> OP_16)"

definition AsSmallInt :: "byte \<Rightarrow> int" where
  "AsSmallInt op = (if op = OP_0 then 0 else uint (op - (OP_1 - 1)))"

definition isCanonicalPush :: "byte \<Rightarrow> bytes \<Rightarrow> bool" where
  "isCanonicalPush opcode data =
     (let dataLen = int (length data)
      in if opcode > OP_16 then True
         else if opcode < OP_PUSHDATA1 \<and> opcode > OP_0 \<and> (dataLen = 1 \<and> data ! 0 \<le> 16) then False
         else if opcode = OP_PUSHDATA1 \<and> dataLen < 0x4c then False
         else if opcode = OP_PUSHDATA2 \<and> dataLen \<le> 0xff then False
         else if opcode = OP_PUSHDATA4 \<and> dataLen \<le> 0xffff then False
         else True)"

definition IsPushOnlyScript :: "bytes \<Rightarrow> go_error + bool" where
  "IsPushOnlyScript script =
     sbind (for_tokens (\<lambda>_ t. sbind (tok_Opcode t) (\<lambda>op. Inr (if op > OP_16 then Inl False else Inr ())))
              () (MakeScriptTokenizer 0 script))
       (\<lambda>(r, t). case r of Inl b \<Rightarrow> Inr b | Inr _ \<Rightarrow> Inr (tok_err t = None))"

text \<open>The loop of \<open>removeOpcodeRaw\<close> keeps \<open>result\<close>, nil until the first match, and \<open>prevOffset\<close>.\<close>

definition removeOpcodeRaw_body ::
  "bytes \<Rightarrow> byte \<Rightarrow> bytes option \<times> int \<Rightarrow> ScriptTokenizer \<Rightarrow>
     go_error + (unit + bytes option \<times> int)" where
  "removeOpcodeRaw_body script opcode acc t =
     (let (res, prevOffset) = acc
      in sbind (tok_Opcode t) (\<lambda>op.
        sbind
          (if op = opcode then
             (case res of
                None \<Rightarrow> sbind (go_slice script 0 prevOffset) (\<lambda>s. Inr (Some s))
              | Some r \<Rightarrow> Inr (Some r))
           else
             (case res of
                None \<Rightarrow> Inr None
              | Some r \<Rightarrow> sbind (go_slice script prevOffset (tok_offset t)) (\<lambda>s. Inr (Some (r @ s)))))
          (\<lambda>res'. Inr (Inr (res', tok_offset t)))))"

definition removeOpcodeRaw :: "bytes \<Rightarrow> byte \<Rightarrow> go_error + bytes" where
  "removeOpcodeRaw script opcode =
     (if script = [] then Inr script
      else sbind (for_tokens (removeOpcodeRaw_body script opcode) (None, 0) (MakeScriptTokenizer 0 script))
        (\<lambda>(x, t). case x of
             Inl _ \<Rightarrow> Inr script
           | Inr (None, _) \<Rightarrow> Inr script
           | Inr (Some r, _) \<Rightarrow> Inr r))"

definition removeOpcodeCanonical ::
  "ScriptTokenizer \<Rightarrow> bytes \<Rightarrow> bytes \<Rightarrow> int \<Rightarrow> bytes option \<Rightarrow>
     go_error + (bytes option \<times> int \<times> bool)" where
  "removeOpcodeCanonical t script dataToRemove prevOffset res =
     sbind (tok_Opcode t) (\<lambda>op.
       let data = data_bytes (tok_data t)
       in if isCanonicalPush op data \<and> data = dataToRemove then
            (case res of
               None \<Rightarrow>
                 let fullPushLen = int32_of (tok_offset t - prevOffset)
                 in if int32_of (int32_of (int (length script)) - fullPushLen) < 0 then Inl goPanic
                    else sbind (go_slice script 0 prevOffset) (\<lambda>s. Inr (Some s, tok_offset t, True))
             | Some r \<Rightarrow> Inr (Some r, tok_offset t, True))
          else
            (case res of
               None \<Rightarrow> Inr (None, tok_offset t, False)
             | Some r \<Rightarrow> sbind (go_slice script prevOffset (tok_offset t))
                           (\<lambda>s. Inr (Some (r @ s), tok_offset t, False))))"

definition removeOpcodeByData :: "bytes \<Rightarrow> bytes \<Rightarrow> go_error + (bytes \<times> bool)" where
  "removeOpcodeByData script dataToRemove =
     (if script = [] \<or> dataToRemove = [] then Inr (script, False)
      else sbind
        (for_tokens
           (\<lambda>(res, prevOffset, match) t.
              sbind (removeOpcodeCanonical t script dataToRemove prevOffset res)
                (\<lambda>(res', prevOffset', found).
                   Inr (Inr (res', prevOffset', match \<or> found) :: unit + _)))
           (None, 0, False) (MakeScriptTokenizer 0 script))
        (\<lambda>(x, t). case x of
             Inl _ \<Rightarrow> Inr (script, False)
           | Inr (res, _, match) \<Rightarrow>
               Inr ((case res of None \<Rightarrow> script | Some r \<Rightarrow> r), match)))"

definition checkScriptParses :: "nat \<Rightarrow> bytes \<Rightarrow> go_error + unit" where
  "checkScriptParses scriptVersion script =
     sbind (for_tokens (\<lambda>_ _. Inr (Inr () :: unit + unit)) () (MakeScriptTokenizer scriptVersion script))
       (\<lambda>(_, t). case tok_err t of None \<Rightarrow> Inr () | Some e \<Rightarrow> Inl e)"

definition IsUnspendable :: "bytes \<Rightarrow> bool" where
  "IsUnspendable pkScript =
     (if pkScript \<noteq> [] \<and> pkScript ! 0 = OP_RETURN then True
      else if length pkScript > MaxScriptSize then True
      else checkScriptParses 0 pkScript \<noteq> Inr ())"

text \<open>The keys of \<open>successOpcodes\<close>.\<close>

definition successOpcodes :: "byte \<Rightarrow> bool" where
  "successOpcodes b \<longleftrightarrow>
     b = OP_RESERVED \<or> b = OP_VER \<or> b = OP_SUBSTR \<or> b = OP_LEFT \<or> b = OP_RIGHT \<or>
     b = OP_INVERT \<or> b = OP_AND \<or> b = OP_OR \<or> b = OP_XOR \<or> b = OP_RESERVED1 \<or> b = OP_RESERVED2 \<or>
     b = OP_2MUL \<or> b = OP_2DIV \<or> b = OP_MUL \<or> b = OP_DIV \<or> b = OP_MOD \<or> b = OP_LSHIFT \<or>
     b = OP_RSHIFT \<or> (187 \<le> b \<and> b \<le> 221) \<or> (223 \<le> b \<and> b \<le> 254)"

definition ScriptHasOpSuccess :: "bytes \<Rightarrow> go_error + bool" where
  "ScriptHasOpSuccess witnessScript =
     sbind (for_tokens
              (\<lambda>_ t. sbind (tok_Opcode t) (\<lambda>op. Inr (if successOpcodes op then Inl True else Inr ())))
              () (MakeScriptTokenizer 0 witnessScript))
       (\<lambda>(r, t). case r of Inl b \<Rightarrow> Inr b | Inr _ \<Rightarrow> Inr False)"

subsection \<open>A reference parser\<close>

text \<open>One token of a script: its opcode, the pushed data and the rest of the script.\<close>

definition push_width :: "byte \<Rightarrow> nat" where
  "push_width b = (if b = OP_PUSHDATA1 then 1 else if b = OP_PUSHDATA2 then 2
                   else if b = OP_PUSHDATA4 then 4 else 0)"

fun parse_token :: "bytes \<Rightarrow> (byte \<times> bytes option \<times> bytes) option" where
  "parse_token [] = None"
| "parse_token (b # s) =
     (if OP_DATA_1 \<le> b \<and> b \<le> OP_DATA_75 then
        if length s < unat b then None else Some (b, Some (take (unat b) s), drop (unat b) s)
      else if push_width b > 0 then
        let k = push_width b; n = nat (le_val (take k s)); d = drop k s
        in if length s < k \<or> length d < n then None else Some (b, Some (take n d), drop n d)
      else Some (b, None, s))"

lemma parse_token_suffix: "parse_token s = Some (b, d, r) \<Longrightarrow> \<exists>p. s = b # p @ r"
  by (cases s) (auto simp: Let_def split: if_splits intro: append_take_drop_id [symmetric] exI [of _ "take k xs @ take n ys" for k xs n ys])

lemma parse_token_shorter: "parse_token s = Some (b, d, r) \<Longrightarrow> length r < length s"
  using parse_token_suffix by fastforce

definition tok_rest :: "ScriptTokenizer \<Rightarrow> bytes" where
  "tok_rest t = drop (nat (tok_offset t)) (tok_script t)"

definition tok_ok :: "ScriptTokenizer \<Rightarrow> bool" where
  "tok_ok t \<longleftrightarrow> tok_err t = None \<and> 0 \<le> tok_offset t \<and> tok_offset t \<le> int (length (tok_script t)) \<and>
     length (tok_script t) < 2 ^ 31"

definition tok_advance :: "ScriptTokenizer \<Rightarrow> byte \<Rightarrow> bytes option \<Rightarrow> bytes \<Rightarrow> ScriptTokenizer" where
  "tok_advance t b d r = t\<lparr>tok_opcodePos := int32_of (tok_opcodePos t + 1),
     tok_offset := int (length (tok_script t)) - int (length r),
     tok_op := Some (opcodeArray b), tok_data := d\<rparr>"

lemma tok_Done_iff: "tok_ok t \<Longrightarrow> tok_Done t \<longleftrightarrow> tok_rest t = []"
  by (auto simp: tok_Done_def tok_ok_def tok_rest_def int32_of_length)

lemma tok_Next_end: "tok_ok t \<Longrightarrow> tok_rest t = [] \<Longrightarrow> tok_Next t = Inr (False, t)"
  by (simp add: tok_Next_def tok_Done_iff)

lemma tok_split:
  assumes "tok_ok t"
  obtains pre where "tok_script t = pre @ tok_rest t" "tok_offset t = int (length pre)"
  using assms that [of "take (nat (tok_offset t)) (tok_script t)"]
  by (auto simp: tok_ok_def tok_rest_def)

lemma pushdata_length:
  assumes "opcode_length b = - int k" "k = push_width b" "0 < k" "k \<le> length s"
  shows "tok_dataLen (opcode_length b) s = Inr (Some (int32_of (le_val (take k s))))"
proof -
  from assms(2,3) consider "k = 1" | "k = 2" | "k = 4"
    by (auto simp: push_width_def split: if_splits)
  then show ?thesis
  proof cases
    case 1
    then obtain b0 s' where "s = b0 # s'" using assms(4) by (cases s) simp_all
    moreover have "int32_of (uint b0) = uint b0"
      using byte_less [of b0] by (intro int32_of_id order_trans [OF _ unsigned_greater_eq]) simp_all
    ultimately show ?thesis using 1 assms(1) by (simp add: tok_dataLen_def go_index_def)
  next
    case 2
    have "le_val (take 2 s) < 2 ^ 31"
      using le_val_less [of "take 2 s"] assms(4) 2 by (simp add: min_absorb2)
    then show ?thesis using 2 assms(1,4) go_slice_upto [of 2 s]
      by (simp add: tok_dataLen_def int32_of_id order.trans [OF _ le_val_nonneg])
  next
    case 3
    then show ?thesis using assms(1,4) go_slice_upto [of 4 s] by (simp add: tok_dataLen_def)
  qed
qed

text \<open>The facts about a tokenizer that stands at byte \<open>b\<close> with \<open>s\<close> behind it.\<close>

lemma tok_at:
  assumes ok: "tok_ok t" and rest: "tok_rest t = b # s"
  shows "\<not> tok_Done t"
    and "go_index (tok_script t) (tok_offset t) = Inr b"
    and "go_slice (tok_script t) (tok_offset t) (int (length (tok_script t))) = Inr (b # s)"
    and "go_slice (tok_script t) (int32_of (tok_offset t + 1)) (int (length (tok_script t))) = Inr s"
    and "\<And>k. 0 \<le> k \<Longrightarrow> k \<le> 1 + int (length s) \<Longrightarrow> int32_of (tok_offset t + k) = tok_offset t + k"
    and "int (length (tok_script t)) = tok_offset t + 1 + int (length s)"
    and "length s < 2 ^ 31"
proof -
  obtain pre where sc: "tok_script t = pre @ b # s" and off: "tok_offset t = int (length pre)"
    using tok_split [OF ok] rest by metis
  show "\<not> tok_Done t" using ok rest by (simp add: tok_Done_iff)
  have L: "length pre + 1 + length s < 2 ^ 31" using ok sc by (simp add: tok_ok_def)
  then show "length s < 2 ^ 31" by simp
  show "go_index (tok_script t) (tok_offset t) = Inr b"
    by (simp add: sc off go_index_def)
  show "go_slice (tok_script t) (tok_offset t) (int (length (tok_script t))) = Inr (b # s)"
    unfolding sc off by (rule go_slice_tail)
  show "go_slice (tok_script t) (int32_of (tok_offset t + 1)) (int (length (tok_script t))) = Inr s"
    using go_slice_tail [of "pre @ [b]" s] L by (simp add: sc off int32_of_id add.commute)
  show "int32_of (tok_offset t + k) = tok_offset t + k"
    if "0 \<le> k" "k \<le> 1 + int (length s)" for k
    using that L unfolding off by (intro int32_of_id) simp_all
  show "int (length (tok_script t)) = tok_offset t + 1 + int (length s)" by (simp add: sc off)
qed

lemma tok_Next_short:
  assumes ok: "tok_ok t" and rest: "tok_rest t = b # s" and short: "push_width b = 0"
  shows "tok_Next t =
    (case parse_token (b # s) of
       None \<Rightarrow> tok_fail (t\<lparr>tok_opcodePos := int32_of (tok_opcodePos t + 1)\<rparr>)
     | Some (b, d, r) \<Rightarrow> Inr (True, tok_advance t b d r))"
proof (cases b rule: opcode_length_cases)
  note at = tok_at [OF ok rest]
  case one
  then have "\<not> (OP_DATA_1 \<le> b \<and> b \<le> OP_DATA_75)"
    by (auto simp: opcode_length_def word_le_def)
  then have "parse_token (b # s) = Some (b, None, s)" using short by auto
  then show ?thesis using one at
    by (simp add: tok_Next_def Let_def tok_advance_def del: parse_token.simps)
next
  note at = tok_at [OF ok rest]
  case data
  have u: "uint b = int (unat b)" by simp
  show ?thesis
  proof (cases "length s < unat b")
    case True
    then have "int (length s) < uint b" by (simp only: u of_nat_less_iff)
    then show ?thesis using data at(1-4) True by (simp add: tok_Next_def Let_def)
  next
    case False
    then have fit: "uint b \<le> int (length s)" by (simp only: u of_nat_le_iff not_less)
    then have "go_slice (b # s) 1 (opcode_length b) = Inr (take (unat b) s)"
      using go_slice_in [of 1 "opcode_length b" "b # s"] data by simp
    then show ?thesis using data at(1-3,6) at(5) [of "opcode_length b"] False fit
      by (simp add: tok_Next_def Let_def tok_advance_def of_nat_diff)
  qed
qed (use short in \<open>simp_all add: push_width_def\<close>)

lemma push_width_facts:
  assumes "k = push_width b" "0 < k"
  shows "opcode_length b = - int k" "k \<le> 4" "\<not> (OP_DATA_1 \<le> b \<and> b \<le> OP_DATA_75)"
  using assms by (auto simp: push_width_def opcode_length_def split: if_splits)

lemma le_val_take_4:
  assumes "k \<le> 4" "k \<le> length s"
  shows "le_val (take k s) < 2 ^ 32"
proof -
  have "le_val (take k s) < 256 ^ k" using le_val_less [of "take k s"] assms by (simp add: min_absorb2)
  also have "\<dots> \<le> 256 ^ 4" by (rule power_increasing) (use assms in simp_all)
  finally show ?thesis by simp
qed

lemma tok_Next_pushdata_step:
  assumes ok: "tok_ok t" and rest: "tok_rest t = b # s"
    and k: "k = push_width b" "0 < k" "k \<le> length s" and n: "n = le_val (take k s)"
  shows "tok_Next t =
    (if int32_of n > int32_of (int (length (drop k s))) \<or> int32_of n < 0
     then tok_fail (t\<lparr>tok_opcodePos := int32_of (tok_opcodePos t + 1)\<rparr>)
     else sbind (go_slice (drop k s) 0 (int32_of n)) (\<lambda>d.
       Inr (True, t\<lparr>tok_opcodePos := int32_of (tok_opcodePos t + 1),
                    tok_offset := int32_of (tok_offset t + (1 + int k + int32_of n)),
                    tok_op := Some (opcodeArray b), tok_data := Some d\<rparr>)))"
proof -
  note w = push_width_facts [OF k(1,2)]
  have neg: "opcode_length b \<noteq> 1" "\<not> 1 < opcode_length b" "opcode_length b < 0"
    "\<not> int (length s) < - opcode_length b" using w k by simp_all
  have sl: "go_slice s (- opcode_length b) (int (length s)) = Inr (drop k s)"
    using go_slice_from [of k s] k w(1) by simp
  have pl: "- opcode_length b = int k" using w(1) by simp
  show ?thesis
    using tok_at(1,2,4) [OF ok rest] neg sl pl pushdata_length [OF w(1) k]
    by (simp add: tok_Next_def Let_def n)
qed

lemma tok_Next_push:
  assumes ok: "tok_ok t" and rest: "tok_rest t = b # s" and push: "0 < push_width b"
  shows "tok_Next t =
    (case parse_token (b # s) of
       None \<Rightarrow> tok_fail (t\<lparr>tok_opcodePos := int32_of (tok_opcodePos t + 1)\<rparr>)
     | Some (b, d, r) \<Rightarrow> Inr (True, tok_advance t b d r))"
proof -
  note at = tok_at [OF ok rest]
  define k where "k = push_width b"
  define n where "n = le_val (take k s)"
  have k0: "0 < k" using push by (simp add: k_def)
  note w = push_width_facts [OF k_def k0]
  have P: "parse_token (b # s) =
    (if length s < k \<or> length (drop k s) < nat n then None
     else Some (b, Some (take (nat n) (drop k s)), drop (nat n) (drop k s)))"
    using w(3) push by (auto simp: Let_def k_def n_def)
  show ?thesis
  proof (cases "length s < k")
    case True
    then show ?thesis using at(1,2,4) w k0 P by (simp add: tok_Next_def Let_def del: parse_token.simps)
  next
    case False
    have n: "0 \<le> n" "n < 2 ^ 32" using le_val_take_4 [of k s] w(2) False by (simp_all add: n_def)
    have m: "length (drop k s) < 2 ^ 31" using at(7) by simp
    note fits = int32_of_fits [OF n m]
    have step: "tok_Next t = (if length (drop k s) < nat n
      then tok_fail (t\<lparr>tok_opcodePos := int32_of (tok_opcodePos t + 1)\<rparr>)
      else sbind (go_slice (drop k s) 0 (int32_of n)) (\<lambda>d.
        Inr (True, t\<lparr>tok_opcodePos := int32_of (tok_opcodePos t + 1),
                     tok_offset := int32_of (tok_offset t + (1 + int k + int32_of n)),
                     tok_op := Some (opcodeArray b), tok_data := Some d\<rparr>)))"
      using tok_Next_pushdata_step [OF ok rest k_def k0 _ n_def] False
      unfolding int32_of_length [OF m] fits(1) by simp
    show ?thesis
    proof (cases "length (drop k s) < nat n")
      case True
      then show ?thesis using step P by (simp del: parse_token.simps)
    next
      case fit: False
      then have kn: "k + nat n \<le> length s" using False by simp
      have n': "int32_of n = int (nat n)" using fits(2) fit n by simp
      have "go_slice (drop k s) 0 (int32_of n) = Inr (take (nat n) (drop k s))"
        using go_slice_upto [of "nat n" "drop k s"] fit n' by simp
      moreover have "int32_of (tok_offset t + (1 + int k + int32_of n)) =
        int (length (tok_script t)) - int (length (drop (nat n) (drop k s)))"
        unfolding n' at(6) length_drop using kn by (subst at(5)) linarith+
      ultimately show ?thesis using step P fit False
        by (simp add: tok_advance_def del: parse_token.simps)
    qed
  qed
qed

lemma tok_Next_token:
  assumes "tok_ok t" "tok_rest t = b # s"
  shows "tok_Next t =
    (case parse_token (b # s) of
       None \<Rightarrow> tok_fail (t\<lparr>tok_opcodePos := int32_of (tok_opcodePos t + 1)\<rparr>)
     | Some (b, d, r) \<Rightarrow> Inr (True, tok_advance t b d r))"
  using tok_Next_push [OF assms] tok_Next_short [OF assms] by (cases "push_width b") simp_all
lemma tok_advance_ok:
  assumes "tok_ok t" "parse_token (tok_rest t) = Some (b, d, r)"
  shows "tok_ok (tok_advance t b d r)" "tok_rest (tok_advance t b d r) = r"
proof -
  obtain pre where sc: "tok_script t = pre @ tok_rest t" "tok_offset t = int (length pre)"
    using tok_split [OF assms(1)] .
  obtain p where p: "tok_rest t = b # p @ r" using parse_token_suffix [OF assms(2)] ..
  show "tok_ok (tok_advance t b d r)" using assms(1) sc p by (auto simp: tok_ok_def tok_advance_def)
  obtain q where "tok_script t = q @ r" using sc p that [of "pre @ b # p"] by simp
  then show "tok_rest (tok_advance t b d r) = r"
    by (simp add: tok_rest_def tok_advance_def nat_diff_distrib)
qed

text \<open>The tokenizer when the loop ends: unchanged at the end of the script, else with the error set.\<close>

definition tok_stop :: "ScriptTokenizer \<Rightarrow> ScriptTokenizer" where
  "tok_stop t = (if tok_rest t = [] then t
     else t\<lparr>tok_opcodePos := int32_of (tok_opcodePos t + 1),
            tok_err := Some (scriptError ErrMalformedPush)\<rparr>)"

lemma for_tokens_parse:
  assumes "tok_ok t"
  shows "for_tokens body acc t =
    (case parse_token (tok_rest t) of
       None \<Rightarrow> Inr (Inr acc, tok_stop t)
     | Some (b, d, r) \<Rightarrow>
         sbind (body acc (tok_advance t b d r)) (\<lambda>x. case x of
             Inl y \<Rightarrow> Inr (Inl y, tok_advance t b d r)
           | Inr acc' \<Rightarrow> for_tokens body acc' (tok_advance t b d r)))"
proof (cases "tok_rest t")
  case Nil
  then show ?thesis using tok_Next_end [OF assms]
    by (simp add: for_tokens.simps [of body acc t] tok_stop_def)
next
  case (Cons b s)
  then show ?thesis using tok_Next_token [OF assms Cons]
    by (auto simp: for_tokens.simps [of body acc t] tok_stop_def tok_fail_def
             simp del: parse_token.simps split: option.split)
qed

lemma tok_ok_Make: "length s < 2 ^ 31 \<Longrightarrow> tok_ok (MakeScriptTokenizer 0 s)"
  "tok_rest (MakeScriptTokenizer 0 s) = s" "tok_script (MakeScriptTokenizer 0 s) = s"
  "tok_offset (MakeScriptTokenizer 0 s) = 0"
  by (simp_all add: tok_ok_def tok_rest_def MakeScriptTokenizer_def)

text \<open>All tokens of a script, and the remainder that does not start with a token.\<close>

function parse :: "bytes \<Rightarrow> (byte \<times> bytes option) list \<times> bytes" where
  "parse s = (case parse_token s of
      None \<Rightarrow> ([], s)
    | Some (b, d, r) \<Rightarrow> let (ts, e) = parse r in ((b, d) # ts, e))"
  by pat_completeness auto

termination
  by (relation "measure length") (auto dest: parse_token_shorter)

declare parse.simps [simp del]

lemma parse_stop: "parse_token s = None \<Longrightarrow> parse s = ([], s)"
  by (simp add: parse.simps [of s])

lemma parse_step: "parse_token s = Some (b, d, r) \<Longrightarrow> parse s = ((b, d) # fst (parse r), snd (parse r))"
  by (simp add: parse.simps [of s] case_prod_beta)

lemma parse_induct [case_names stop step]:
  assumes "\<And>s. parse_token s = None \<Longrightarrow> P s"
    and "\<And>s b d r. parse_token s = Some (b, d, r) \<Longrightarrow> P r \<Longrightarrow> P s"
  shows "P s"
proof (induction "length s" arbitrary: s rule: less_induct)
  case less
  show ?case
  proof (cases "parse_token s")
    case None
    then show ?thesis by (rule assms(1))
  next
    case (Some x)
    obtain b d r where "x = (b, d, r)" by (cases x)
    with Some have "parse_token s = Some (b, d, r)" by simp
    then show ?thesis using less parse_token_shorter assms(2) by blast
  qed
qed

text \<open>The bytes of a token, and the tokens that have a byte representation.\<close>

definition token_bytes :: "byte \<times> bytes option \<Rightarrow> bytes" where
  "token_bytes = (\<lambda>(b, d). b # (case d of None \<Rightarrow> [] | Some d \<Rightarrow> le_bytes (push_width b) (int (length d)) @ d))"

definition token_wf :: "byte \<times> bytes option \<Rightarrow> bool" where
  "token_wf = (\<lambda>(b, d). case d of
      None \<Rightarrow> opcode_length b = 1
    | Some d \<Rightarrow> if push_width b = 0 then OP_DATA_1 \<le> b \<and> b \<le> OP_DATA_75 \<and> length d = unat b
                else length d < 256 ^ push_width b)"

lemma parse_token_push:
  assumes "0 < push_width b"
  shows "parse_token (b # s) =
    (let k = push_width b; n = nat (le_val (take k s)); d = drop k s
     in if length s < k \<or> length d < n then None else Some (b, Some (take n d), drop n d))"
  using assms push_width_facts(3) [of "push_width b" b] by auto

lemma parse_token_bytes:
  assumes "parse_token s = Some (b, d, r)"
  shows "token_wf (b, d) \<and> s = token_bytes (b, d) @ r"
proof -
  obtain s' where s: "s = b # s'" using assms by (cases s) (auto simp: Let_def split: if_splits)
  show ?thesis
  proof (cases "push_width b = 0")
    case True
    then show ?thesis using assms s
      by (auto simp: token_wf_def token_bytes_def opcode_length_def push_width_def split: if_splits)
  next
    case False
    let ?k = "push_width b"
    let ?n = "nat (le_val (take ?k s'))" and ?d = "drop ?k s'"
    from assms False have d: "d = Some (take ?n ?d)" "r = drop ?n ?d" "?k \<le> length s'" "?n \<le> length ?d"
      unfolding s by (auto simp: parse_token_push Let_def not_less simp del: parse_token.simps split: if_splits)
    have "?n < 256 ^ ?k"
      using le_val_less [of "take ?k s'"] d(3) by (simp add: nat_less_iff)
    moreover have "le_bytes ?k (int (length (take ?n ?d))) = take ?k s'"
      using le_bytes_le_val [of "take ?k s'"] d(3,4) by (simp add: min_absorb2)
    moreover have "s' = take ?k s' @ take ?n ?d @ drop ?n ?d" by (simp only: append_take_drop_id)
    ultimately show ?thesis using False s d by (simp add: token_wf_def token_bytes_def)
  qed
qed

lemma parse_token_token_bytes:
  assumes "token_wf (b, d)"
  shows "parse_token (token_bytes (b, d) @ r) = Some (b, d, r)"
proof (cases "push_width b = 0")
  case True
  then show ?thesis using assms
    by (auto simp: token_wf_def token_bytes_def opcode_length_def word_le_def split: option.splits if_splits)
next
  case False
  then obtain d' where d: "d = Some d'" "length d' < 256 ^ push_width b"
    using assms push_width_facts(1) [of "push_width b" b] by (auto simp: token_wf_def split: option.splits)
  then have "int (length d') < 256 ^ push_width b" by (metis of_nat_less_iff of_nat_power of_nat_numeral)
  then have "nat (le_val (le_bytes (push_width b) (int (length d')))) = length d'"
    by (simp add: le_val_le_bytes)
  then show ?thesis using False d(1)
    by (simp add: token_bytes_def parse_token_push Let_def del: parse_token.simps)
qed

lemma parse_sound: "list_all token_wf (fst (parse s)) \<and> s = concat (map token_bytes (fst (parse s))) @ snd (parse s)"
  by (induction s rule: parse_induct)
     (use parse_token_bytes in \<open>fastforce simp: parse_stop parse_step\<close>)+

lemma parse_complete: "list_all token_wf ts \<Longrightarrow> parse (concat (map token_bytes ts)) = (ts, [])"
  by (induction ts) (auto simp: parse_stop parse_step [OF parse_token_token_bytes])

lemma parse_done_iff: "snd (parse s) = [] \<longleftrightarrow> (\<exists>ts. list_all token_wf ts \<and> s = concat (map token_bytes ts))"
  using parse_sound [of s] parse_complete by fastforce

text \<open>A loop whose body goes on with every token folds over the tokens.\<close>

lemma for_tokens_fold:
  assumes "tok_ok t"
    and "\<And>acc t. tok_op t \<noteq> None \<Longrightarrow> body acc t = Inr (Inr (f (op_value (the (tok_op t)), tok_data t) acc))"
  shows "\<exists>t'. for_tokens body acc t = Inr (Inr (fold f (fst (parse (tok_rest t))) acc), t') \<and>
     tok_err t' = (if snd (parse (tok_rest t)) = [] then None else Some (scriptError ErrMalformedPush))"
  using assms(1)
proof (induction "tok_rest t" arbitrary: t acc rule: parse_induct)
  case stop
  then show ?case
    using assms(1) by (auto simp: for_tokens_parse parse_stop tok_stop_def tok_ok_def)
next
  case (step b d r)
  note adv = tok_advance_ok [OF step.prems step.hyps(1)]
  have "body acc (tok_advance t b d r) = Inr (Inr (f (b, d) acc))"
    using assms(2) by (simp add: tok_advance_def)
  then show ?case
    using step.hyps(2) [OF adv(2) [symmetric] adv(1), of "f (b, d) acc"] step.prems
    by (simp add: for_tokens_parse parse_step [OF step.hyps(1)] step.hyps(1) adv)
qed

lemma for_tokens_find:
  assumes "tok_ok t"
    and "\<And>acc t. tok_op t \<noteq> None \<Longrightarrow>
      body acc t = Inr (if P (op_value (the (tok_op t))) then Inl y else Inr ())"
  shows "\<exists>t'. for_tokens body () t =
      Inr (if \<exists>x \<in> set (fst (parse (tok_rest t))). P (fst x) then Inl y else Inr (), t') \<and>
     ((\<exists>x \<in> set (fst (parse (tok_rest t))). P (fst x)) \<or>
      tok_err t' = (if snd (parse (tok_rest t)) = [] then None else Some (scriptError ErrMalformedPush)))"
  using assms(1)
proof (induction "tok_rest t" arbitrary: t rule: parse_induct)
  case stop
  then show ?case
    using assms(1) by (auto simp: for_tokens_parse parse_stop tok_stop_def tok_ok_def)
next
  case (step b d r)
  note adv = tok_advance_ok [OF step.prems step.hyps(1)]
  have "body () (tok_advance t b d r) = Inr (if P b then Inl y else Inr ())"
    using assms(2) by (simp add: tok_advance_def)
  then show ?case
    using step.hyps(2) [OF adv(2) [symmetric] adv(1)] step.prems
    by (auto simp: for_tokens_parse parse_step [OF step.hyps(1)] step.hyps(1) adv)
qed

lemma checkScriptParses_parse:
  assumes "length s < 2 ^ 31"
  shows "checkScriptParses 0 s = (if snd (parse s) = [] then Inr () else Inl (scriptError ErrMalformedPush))"
  using for_tokens_fold [OF tok_ok_Make(1) [OF assms], of "\<lambda>_ _. Inr (Inr () :: unit + unit)" "\<lambda>_ _. ()" "()"]
  by (auto simp: checkScriptParses_def tok_ok_Make(2))

lemma for_tokens_exists:
  assumes "length s < 2 ^ 31"
  obtains t' where
    "for_tokens (\<lambda>_ t. sbind (tok_Opcode t) (\<lambda>op. Inr (if P op then Inl y else Inr ()))) ()
       (MakeScriptTokenizer 0 s) =
     Inr (if \<exists>x \<in> set (fst (parse s)). P (fst x) then Inl y else Inr (), t')"
    "(\<exists>x \<in> set (fst (parse s)). P (fst x)) \<or> (tok_err t' = None \<longleftrightarrow> snd (parse s) = [])"
proof -
  let ?body = "\<lambda>_ t. sbind (tok_Opcode t) (\<lambda>op. Inr (if P op then Inl y else Inr ()))"
  have "?body acc t = Inr (if P (op_value (the (tok_op t))) then Inl y else Inr ())"
    if "tok_op t \<noteq> None" for acc t
    using that by (auto simp: tok_Opcode_def)
  from for_tokens_find [OF tok_ok_Make(1) [OF assms], of ?body P y, OF this] show thesis
    using that by (auto simp: tok_ok_Make(2) split: if_splits)
qed

lemma IsPushOnlyScript_spec:
  assumes "length s < 2 ^ 31"
  shows "IsPushOnlyScript s = Inr (snd (parse s) = [] \<and> (\<forall>x \<in> set (fst (parse s)). fst x \<le> OP_16))"
  by (rule for_tokens_exists [OF assms, of "\<lambda>op. op > OP_16" False])
     (auto simp: IsPushOnlyScript_def not_le [symmetric])

lemma ScriptHasOpSuccess_spec:
  assumes "length s < 2 ^ 31"
  shows "ScriptHasOpSuccess s = Inr (\<exists>x \<in> set (fst (parse s)). successOpcodes (fst x))"
  by (rule for_tokens_exists [OF assms, of successOpcodes True])
     (auto simp: ScriptHasOpSuccess_def)

text \<open>The removal loops keep, next to the offset, the tokens kept so far.\<close>

lemma go_slice_token:
  assumes "tok_ok t" "parse_token (tok_rest t) = Some (b, d, r)"
  shows "go_slice (tok_script t) (tok_offset t) (tok_offset (tok_advance t b d r)) = Inr (token_bytes (b, d))"
    and "go_slice (tok_script t) 0 (tok_offset t) = Inr (take (nat (tok_offset t)) (tok_script t))"
    and "tok_script (tok_advance t b d r) = tok_script t"
    and "take (nat (tok_offset (tok_advance t b d r))) (tok_script t) =
       take (nat (tok_offset t)) (tok_script t) @ token_bytes (b, d)"
proof -
  obtain pre where sc: "tok_script t = pre @ tok_rest t" "tok_offset t = int (length pre)"
    using tok_split [OF assms(1)] .
  have r: "tok_rest t = token_bytes (b, d) @ r" using parse_token_bytes [OF assms(2)] by simp
  have off: "tok_offset (tok_advance t b d r) = int (length pre + length (token_bytes (b, d)))"
    using sc r by (simp add: tok_advance_def)
  show "go_slice (tok_script t) (tok_offset t) (tok_offset (tok_advance t b d r)) = Inr (token_bytes (b, d))"
    unfolding off using sc r by (simp add: go_slice_def)
  show "go_slice (tok_script t) 0 (tok_offset t) = Inr (take (nat (tok_offset t)) (tok_script t))"
    using sc by (simp add: go_slice_def)
  show "tok_script (tok_advance t b d r) = tok_script t" by (simp add: tok_advance_def)
  show "take (nat (tok_offset (tok_advance t b d r))) (tok_script t) =
       take (nat (tok_offset t)) (tok_script t) @ token_bytes (b, d)"
    unfolding off using sc r by (simp only: nat_int) simp
qed

primrec removed ::
  "(byte \<times> bytes option \<Rightarrow> bool) \<Rightarrow> bytes \<Rightarrow> bytes option \<Rightarrow> (byte \<times> bytes option) list \<Rightarrow> bytes option" where
  "removed P pre res [] = res"
| "removed P pre res (x # ts) = removed P (pre @ token_bytes x)
     (if P x then Some (case res of None \<Rightarrow> pre | Some r \<Rightarrow> r)
      else map_option (\<lambda>r. r @ token_bytes x) res) ts"

lemma removed_eq:
  "removed P pre res ts =
     (case res of
        Some r \<Rightarrow> Some (r @ concat (map token_bytes (filter (Not \<circ> P) ts)))
      | None \<Rightarrow> if \<exists>x \<in> set ts. P x then Some (pre @ concat (map token_bytes (filter (Not \<circ> P) ts))) else None)"
  by (induction ts arbitrary: pre res) (auto split: option.splits)

lemma removeOpcodeRaw_loop:
  assumes "tok_ok t"
  shows "\<exists>t' off. for_tokens (removeOpcodeRaw_body (tok_script t) opcode) (res, tok_offset t) t =
     Inr (Inr (removed (\<lambda>x. fst x = opcode) (take (nat (tok_offset t)) (tok_script t)) res
                 (fst (parse (tok_rest t))), off), t')"
  using assms
proof (induction "tok_rest t" arbitrary: t res rule: parse_induct)
  case stop
  then show ?case by (auto simp: for_tokens_parse parse_stop)
next
  case (step b d r)
  note adv = tok_advance_ok [OF step.prems step.hyps(1)]
  note sl = go_slice_token [OF step.prems step.hyps(1)]
  define t' where "t' = tok_advance t b d r"
  have op: "tok_Opcode t' = Inr b" by (simp add: t'_def tok_advance_def tok_Opcode_def)
  let ?res = "if b = opcode then Some (case res of None \<Rightarrow> take (nat (tok_offset t)) (tok_script t) | Some r \<Rightarrow> r)
      else map_option (\<lambda>r. r @ token_bytes (b, d)) res"
  have "removeOpcodeRaw_body (tok_script t) opcode (res, tok_offset t) t' = Inr (Inr (?res, tok_offset t'))"
    using sl by (auto simp: removeOpcodeRaw_body_def op t'_def [symmetric] split: option.split)
  then show ?case
    using step.hyps(2) [OF adv(2) [symmetric] adv(1), of ?res] sl(3,4)
    by (simp add: for_tokens_parse [OF step.prems] step.hyps(1) parse_step [OF step.hyps(1)] adv t'_def)
qed

lemma removeOpcodeByData_loop:
  assumes "tok_ok t"
  shows "\<exists>t' off. for_tokens
      (\<lambda>(res, prevOffset, match) t'.
         sbind (removeOpcodeCanonical t' (tok_script t) data prevOffset res)
           (\<lambda>(res', prevOffset', found). Inr (Inr (res', prevOffset', match \<or> found) :: unit + _)))
      (res, tok_offset t, match) t =
     Inr (Inr (removed (\<lambda>x. isCanonicalPush (fst x) (data_bytes (snd x)) \<and> data_bytes (snd x) = data)
                 (take (nat (tok_offset t)) (tok_script t)) res (fst (parse (tok_rest t))), off,
            match \<or> (\<exists>x \<in> set (fst (parse (tok_rest t))).
               isCanonicalPush (fst x) (data_bytes (snd x)) \<and> data_bytes (snd x) = data)), t')"
  using assms
proof (induction "tok_rest t" arbitrary: t res match rule: parse_induct)
  case stop
  then show ?case by (auto simp: for_tokens_parse parse_stop)
next
  case (step b d r)
  note adv = tok_advance_ok [OF step.prems step.hyps(1)]
  note sl = go_slice_token [OF step.prems step.hyps(1)]
  define t' where "t' = tok_advance t b d r"
  have op: "tok_Opcode t' = Inr b" "tok_data t' = d" by (simp_all add: t'_def tok_advance_def tok_Opcode_def)
  let ?P = "isCanonicalPush b (data_bytes d) \<and> data_bytes d = data"
  let ?res = "if ?P then Some (case res of None \<Rightarrow> take (nat (tok_offset t)) (tok_script t) | Some r \<Rightarrow> r)
      else map_option (\<lambda>r. r @ token_bytes (b, d)) res"
  have off: "0 \<le> tok_offset t" "tok_offset t \<le> tok_offset t'" "tok_offset t' \<le> int (length (tok_script t))"
    "length (tok_script t) < 2 ^ 31"
    using sl(1,3) adv(1) step.prems unfolding t'_def tok_ok_def go_slice_def by (auto split: if_splits)
  have cap: "\<not> int32_of (int32_of (int (length (tok_script t))) - int32_of (tok_offset t' - tok_offset t)) < 0"
    using off by (simp add: int32_of_id)
  have "removeOpcodeCanonical t' (tok_script t) data (tok_offset t) res = Inr (?res, tok_offset t', ?P)"
    using sl cap by (auto simp: removeOpcodeCanonical_def Let_def op t'_def [symmetric] split: option.split)
  then show ?case
    using step.hyps(2) [OF adv(2) [symmetric] adv(1), of ?res "match \<or> ?P"] sl(3,4)
    by (simp add: for_tokens_parse [OF step.prems] step.hyps(1) parse_step [OF step.hyps(1)] adv t'_def disj_assoc)
qed

lemma removed_all:
  assumes "snd (parse s) = []"
  shows "(case removed P [] None (fst (parse s)) of None \<Rightarrow> s | Some r \<Rightarrow> r) =
    concat (map token_bytes (filter (Not \<circ> P) (fst (parse s))))"
proof (cases "\<exists>x \<in> set (fst (parse s)). P x")
  case False
  then have "filter (Not \<circ> P) (fst (parse s)) = fst (parse s)" by (auto intro: filter_True)
  then show ?thesis using False assms parse_sound [of s] by (simp add: removed_eq)
qed (simp add: removed_eq)

lemma removeOpcodeRaw_spec:
  assumes "length s < 2 ^ 31" "snd (parse s) = []"
  shows "removeOpcodeRaw s opcode =
    Inr (concat (map token_bytes (filter (\<lambda>x. fst x \<noteq> opcode) (fst (parse s)))))"
  using removeOpcodeRaw_loop [OF tok_ok_Make(1) [OF assms(1)], of opcode None]
    removed_all [OF assms(2), of "\<lambda>x. fst x = opcode"]
  by (cases "s = []")
     (auto simp: removeOpcodeRaw_def tok_ok_Make(2-4) comp_def parse_stop split: option.splits)

lemma removeOpcodeByData_spec:
  assumes "length s < 2 ^ 31" "snd (parse s) = []" "data \<noteq> []"
  shows "removeOpcodeByData s data =
    (let P = (\<lambda>x. isCanonicalPush (fst x) (data_bytes (snd x)) \<and> data_bytes (snd x) = data)
     in Inr (concat (map token_bytes (filter (\<lambda>x. \<not> P x) (fst (parse s)))), \<exists>x \<in> set (fst (parse s)). P x))"
  using removeOpcodeByData_loop [OF tok_ok_Make(1) [OF assms(1)], of data None False] assms(3)
    removed_all [OF assms(2), of "\<lambda>x. isCanonicalPush (fst x) (data_bytes (snd x)) \<and> data_bytes (snd x) = data"]
  by (cases "s = []")
     (auto simp: removeOpcodeByData_def tok_ok_Make(2-4) comp_def parse_stop Let_def split: option.splits)

subsection \<open>Properties\<close>

text \<open>
  A version 0 script parses exactly when it is the concatenation of well-formed tokens; any
  other script is rejected with \<open>ErrMalformedPush\<close>.\<close>

lemma checkScriptParses_iff:
  assumes "length script < 2 ^ 31"
  shows "checkScriptParses 0 script =
    (if \<exists>ts. list_all token_wf ts \<and> script = concat (map token_bytes ts) then Inr ()
     else Inl (scriptError ErrMalformedPush))"
  using checkScriptParses_parse [OF assms] parse_done_iff [of script] by simp

lemma checkScriptParses_iff_example:
  "checkScriptParses 0 [0x02, 0xaa, 0xbb, 0x51] = Inr ()"
proof -
  have ex: "\<exists>ts. list_all token_wf ts \<and> [0x02, 0xaa, 0xbb, 0x51] = concat (map token_bytes ts)"
    by (rule exI [of _ "[(0x02, Some [0xaa, 0xbb]), (0x51, None)]"])
       (simp add: token_wf_def token_bytes_def push_width_def opcode_length_def word_le_def)
  show ?thesis
    using checkScriptParses_iff [of "[0x02, 0xaa, 0xbb, 0x51]", unfolded if_P [OF ex]] by simp
qed

text \<open>
  Tokenizing the bytes of any sequence of well-formed tokens yields these tokens again, in
  order, each with its opcode and its data, and ends without an error.\<close>

lemma tokenizer_roundtrip:
  assumes "list_all token_wf ts" "length (concat (map token_bytes ts)) < 2 ^ 31"
  shows "\<exists>t'. for_tokens (\<lambda>acc t. sbind (tok_Opcode t) (\<lambda>op. Inr (Inr (acc @ [(op, tok_data t)]) :: unit + _)))
      [] (MakeScriptTokenizer 0 (concat (map token_bytes ts))) = Inr (Inr ts, t') \<and> tok_err t' = None"
proof -
  let ?body = "\<lambda>acc t. sbind (tok_Opcode t) (\<lambda>op. Inr (Inr (acc @ [(op, tok_data t)]) :: unit + _))"
  have step: "?body acc t = Inr (Inr ((\<lambda>x acc. acc @ [x]) (op_value (the (tok_op t)), tok_data t) acc))"
    if "tok_op t \<noteq> None" for acc t
    using that by (auto simp: tok_Opcode_def)
  have "fold (\<lambda>x acc. acc @ [x]) us acc = acc @ us" for us acc :: "(byte \<times> bytes option) list"
    by (induction us arbitrary: acc) simp_all
  then show ?thesis
    using for_tokens_fold [OF tok_ok_Make(1) [OF assms(2)], of ?body "\<lambda>x acc. acc @ [x]" "[]", OF step]
      parse_complete [OF assms(1)] by (simp add: tok_ok_Make(2))
qed

lemma tokenizer_roundtrip_example:
  "\<exists>t'. for_tokens (\<lambda>acc t. sbind (tok_Opcode t) (\<lambda>op. Inr (Inr (acc @ [(op, tok_data t)]) :: unit + _)))
      [] (MakeScriptTokenizer 0 [0x4c, 0x01, 0xcc, 0x87]) = Inr (Inr [(0x4c, Some [0xcc]), (0x87, None)], t') \<and>
     tok_err t' = None"
  using tokenizer_roundtrip [of "[(0x4c, Some [0xcc]), (0x87, None)]"]
  by (simp add: token_wf_def token_bytes_def push_width_def opcode_length_def word_le_def)

text \<open>
  On a script that parses, \<open>removeOpcodeRaw\<close> drops exactly the tokens with the opcode and
  \<open>removeOpcodeByData\<close> exactly the canonical pushes of the data, and tells whether there was one;
  all other tokens keep their bytes and their order.\<close>

lemma opcode_removal:
  assumes "length script < 2 ^ 31" "snd (parse script) = []"
  shows "removeOpcodeRaw script opcode =
      Inr (concat (map token_bytes (filter (\<lambda>x. fst x \<noteq> opcode) (fst (parse script))))) \<and>
    (data \<noteq> [] \<longrightarrow> removeOpcodeByData script data =
      (let P = (\<lambda>x. isCanonicalPush (fst x) (data_bytes (snd x)) \<and> data_bytes (snd x) = data)
       in Inr (concat (map token_bytes (filter (\<lambda>x. \<not> P x) (fst (parse script)))),
               \<exists>x \<in> set (fst (parse script)). P x)))"
  using removeOpcodeRaw_spec [OF assms] removeOpcodeByData_spec [OF assms] by blast

lemma opcode_removal_example:
  "removeOpcodeRaw [0xab, 0x02, 0xaa, 0xbb] 0xab = Inr [0x02, 0xaa, 0xbb] \<and>
   removeOpcodeByData [0xab, 0x02, 0xaa, 0xbb] [0xaa, 0xbb] = Inr ([0xab], True)"
proof -
  have p: "parse [0xab, 0x02, 0xaa, 0xbb] = ([(0xab, None), (0x02, Some [0xaa, 0xbb])], [])"
    using parse_complete [of "[(0xab, None), (0x02, Some [0xaa, 0xbb])]"]
    by (simp add: token_wf_def token_bytes_def push_width_def opcode_length_def word_le_def)
  show ?thesis
    using opcode_removal [of "[0xab, 0x02, 0xaa, 0xbb]" "0xab" "[0xaa, 0xbb]"]
    by (simp add: p token_bytes_def push_width_def data_bytes_def isCanonicalPush_def word_less_def)
qed

end
