(* ===== verification/Script_Standard.thy ===== *)
theory Script_Standard
  imports Script_Tokenizer
begin

text \<open>
  Building and classifying scripts (\<^verbatim>\<open>node/txscript/scriptbuilder.go\<close>,
  \<^verbatim>\<open>standard.go\<close>): the script builder with its sticky error, the standard output forms
  (null data, taproot, pay-to-merkle-root), witness programs and the witness annex. A Go slice
  that may be nil is an option. \<open>ErrScriptNotCanonical\<close> of the builder is \<open>otherError\<close>.
\<close>

subsection \<open>The script builder\<close>

record ScriptBuilder =
  sb_script :: bytes
  sb_err :: "go_error option"

definition NewScriptBuilder :: ScriptBuilder where
  "NewScriptBuilder = \<lparr>sb_script = [], sb_err = None\<rparr>"

definition AddOp :: "byte \<Rightarrow> ScriptBuilder \<Rightarrow> ScriptBuilder" where
  "AddOp opcode b =
     (if sb_err b \<noteq> None then b
      else if length (sb_script b) + 1 > MaxScriptSize then b\<lparr>sb_err := Some otherError\<rparr>
      else b\<lparr>sb_script := sb_script b @ [opcode]\<rparr>)"

definition AddOps :: "bytes \<Rightarrow> ScriptBuilder \<Rightarrow> ScriptBuilder" where
  "AddOps opcodes b =
     (if sb_err b \<noteq> None then b
      else if length (sb_script b) + length opcodes > MaxScriptSize then b\<lparr>sb_err := Some otherError\<rparr>
      else b\<lparr>sb_script := sb_script b @ opcodes\<rparr>)"

definition canonicalDataSize :: "bytes \<Rightarrow> nat" where
  "canonicalDataSize data =
     (let dataLen = length data
      in if dataLen = 0 then 1
         else if dataLen = 1 \<and> data ! 0 \<le> 16 then 1
         else if dataLen = 1 \<and> data ! 0 = 0x81 then 1
         else if dataLen < 0x4c then 1 + dataLen
         else if dataLen \<le> 0xff then 2 + dataLen
         else if dataLen \<le> 0xffff then 3 + dataLen
         else 5 + dataLen)"

definition addData :: "bytes \<Rightarrow> ScriptBuilder \<Rightarrow> ScriptBuilder" where
  "addData data b =
     (let dataLen = length data
      in if dataLen = 0 \<or> dataLen = 1 \<and> data ! 0 = 0 then b\<lparr>sb_script := sb_script b @ [OP_0]\<rparr>
         else if dataLen = 1 \<and> data ! 0 \<le> 16 then b\<lparr>sb_script := sb_script b @ [(OP_1 - 1) + data ! 0]\<rparr>
         else if dataLen = 1 \<and> data ! 0 = 0x81 then b\<lparr>sb_script := sb_script b @ [OP_1NEGATE]\<rparr>
         else
           let script =
             (if dataLen < 0x4c then sb_script b @ [word_of_int ((uint OP_DATA_1 - 1) + int dataLen)]
              else if dataLen \<le> 0xff then sb_script b @ [OP_PUSHDATA1, word_of_int (int dataLen)]
              else if dataLen \<le> 0xffff then sb_script b @ [OP_PUSHDATA2] @ le_bytes 2 (int dataLen)
              else sb_script b @ [OP_PUSHDATA4] @ le_bytes 4 (int dataLen))
           in b\<lparr>sb_script := script @ data\<rparr>)"

definition AddFullData :: "bytes \<Rightarrow> ScriptBuilder \<Rightarrow> ScriptBuilder" where
  "AddFullData data b = (if sb_err b \<noteq> None then b else addData data b)"

definition AddData :: "bytes \<Rightarrow> ScriptBuilder \<Rightarrow> ScriptBuilder" where
  "AddData data b =
     (if sb_err b \<noteq> None then b
      else if length (sb_script b) + canonicalDataSize data > MaxScriptSize then
        b\<lparr>sb_err := Some otherError\<rparr>
      else if length data > MaxScriptElementSize then b\<lparr>sb_err := Some otherError\<rparr>
      else addData data b)"

definition AddInt64 :: "int \<Rightarrow> ScriptBuilder \<Rightarrow> go_error + ScriptBuilder" where
  "AddInt64 val b =
     (if sb_err b \<noteq> None then Inr b
      else if length (sb_script b) + 1 > MaxScriptSize then Inr (b\<lparr>sb_err := Some otherError\<rparr>)
      else if val = 0 then Inr (b\<lparr>sb_script := sb_script b @ [OP_0]\<rparr>)
      else if val = - 1 \<or> (val \<ge> 1 \<and> val \<le> 16) then
        Inr (b\<lparr>sb_script := sb_script b @ [word_of_int ((uint OP_1 - 1) + val)]\<rparr>)
      else sbind (scriptNum_Bytes val) (\<lambda>d. Inr (AddData d b)))"

definition Reset :: "ScriptBuilder \<Rightarrow> ScriptBuilder" where
  "Reset b = b\<lparr>sb_script := [], sb_err := None\<rparr>"

definition sb_Script :: "ScriptBuilder \<Rightarrow> bytes \<times> go_error option" where
  "sb_Script b = (sb_script b, sb_err b)"

subsection \<open>Standard scripts\<close>

definition MaxDataCarrierSize :: nat where "MaxDataCarrierSize = 80"
definition witnessV1TaprootLen :: nat where "witnessV1TaprootLen = 34"
definition witnessV2MerkleRootLen :: nat where "witnessV2MerkleRootLen = 34"

lemmas standard_sizes = MaxDataCarrierSize_def witnessV1TaprootLen_def witnessV2MerkleRootLen_def

type_synonym ScriptClass = byte

abbreviation (input) NonStandardTy :: ScriptClass where "NonStandardTy \<equiv> 0"
abbreviation (input) NullDataTy :: ScriptClass where "NullDataTy \<equiv> 1"
abbreviation (input) WitnessV1TaprootTy :: ScriptClass where "WitnessV1TaprootTy \<equiv> 2"
abbreviation (input) WitnessV2MerkleRootTy :: ScriptClass where "WitnessV2MerkleRootTy \<equiv> 3"

definition scriptClassToName :: "string list" where
  "scriptClassToName =
     [''nonstandard'', ''nulldata'', ''witness_v1_taproot'', ''witness_v2_merkleroot'']"

definition ScriptClass_String :: "ScriptClass \<Rightarrow> go_error + string" where
  "ScriptClass_String t =
     (if uint t > int (length scriptClassToName) \<or> uint t < 0 then Inr ''Invalid''
      else go_index scriptClassToName (uint t))"

fun find_name :: "nat \<Rightarrow> string list \<Rightarrow> string \<Rightarrow> nat option" where
  "find_name i [] name = None"
| "find_name i (n # ns) name = (if n = name then Some i else find_name (Suc i) ns name)"

definition NewScriptClass :: "string \<Rightarrow> go_error + ScriptClass" where
  "NewScriptClass name =
     (case find_name 0 scriptClassToName name of
        Some i \<Rightarrow> Inr (word_of_nat i)
      | None \<Rightarrow> Inl otherError)"

definition extractScriptHash :: "bytes \<Rightarrow> bytes option" where
  "extractScriptHash script =
     (if length script = 23 \<and> script ! 0 = OP_HASH160 \<and> script ! 1 = OP_DATA_20 \<and> script ! 22 = OP_EQUAL
      then Some (take 20 (drop 2 script)) else None)"

definition isScriptHashScript :: "bytes \<Rightarrow> bool" where
  "isScriptHashScript script \<longleftrightarrow> extractScriptHash script \<noteq> None"

definition extractWitnessV1KeyBytes :: "bytes \<Rightarrow> bytes option" where
  "extractWitnessV1KeyBytes script =
     (if length script = witnessV1TaprootLen \<and> script ! 0 = OP_1 \<and> script ! 1 = OP_DATA_32
      then Some (take 32 (drop 2 script)) else None)"

definition extractWitnessProgramInfo :: "bytes \<Rightarrow> go_error + (int \<times> bytes option \<times> bool)" where
  "extractWitnessProgramInfo script =
     (if length script < 4 \<or> length script > 42 then Inr (0, None, False)
      else
        sbind (tok_Next (MakeScriptTokenizer 0 script)) (\<lambda>(more, t1).
          if \<not> more then Inr (0, None, False)
          else sbind (tok_Opcode t1) (\<lambda>op1.
            if \<not> IsSmallInt op1 then Inr (0, None, False)
            else
              let version = AsSmallInt op1
              in sbind (tok_Next t1) (\<lambda>(more, t2).
                if \<not> more then Inr (0, None, False)
                else sbind (tok_Opcode t2) (\<lambda>op2.
                  if \<not> isCanonicalPush op2 (data_bytes (tok_data t2)) then Inr (0, None, False)
                  else
                    let program = tok_data t2;
                        valid = (tok_Done t2 \<and> tok_err t2 = None)
                    in Inr (version, program, valid))))))"

definition isWitnessProgramScript :: "bytes \<Rightarrow> go_error + bool" where
  "isWitnessProgramScript script =
     sbind (extractWitnessProgramInfo script) (\<lambda>(_, _, valid). Inr valid)"

definition ExtractWitnessProgramInfo :: "bytes \<Rightarrow> go_error + (int \<times> bytes option)" where
  "ExtractWitnessProgramInfo script =
     sbind (extractWitnessProgramInfo script) (\<lambda>(version, program, valid).
       if \<not> valid then Inl otherError else Inr (version, program))"

definition isWitnessTaprootScript :: "bytes \<Rightarrow> bool" where
  "isWitnessTaprootScript script \<longleftrightarrow> extractWitnessV1KeyBytes script \<noteq> None"

definition extractWitnessV2MerkleRootBytes :: "bytes \<Rightarrow> bytes option" where
  "extractWitnessV2MerkleRootBytes script =
     (if length script = witnessV2MerkleRootLen \<and> script ! 0 = OP_2 \<and> script ! 1 = OP_DATA_32
      then Some (take 32 (drop 2 script)) else None)"

definition isWitnessMerkleRootScript :: "bytes \<Rightarrow> bool" where
  "isWitnessMerkleRootScript script \<longleftrightarrow> extractWitnessV2MerkleRootBytes script \<noteq> None"

definition isAnnexedWitness :: "bytes list \<Rightarrow> bool" where
  "isAnnexedWitness witness =
     (if length witness < 2 then False
      else let lastElement = witness ! (length witness - 1)
           in length lastElement > 0 \<and> lastElement ! 0 = TaprootAnnexTag)"

definition extractAnnex :: "bytes list \<Rightarrow> go_error + bytes" where
  "extractAnnex witness =
     (if \<not> isAnnexedWitness witness then Inl (scriptError ErrWitnessHasNoAnnex)
      else Inr (witness ! (length witness - 1)))"

definition isNullDataScript :: "bytes \<Rightarrow> bool" where
  "isNullDataScript script \<longleftrightarrow> length script \<ge> 1 \<and> script ! 0 = OP_RETURN"

definition GetScriptClass :: "bytes \<Rightarrow> ScriptClass" where
  "GetScriptClass script =
     (if isNullDataScript script then NullDataTy
      else if isWitnessTaprootScript script then WitnessV1TaprootTy
      else if isWitnessMerkleRootScript script then WitnessV2MerkleRootTy
      else NonStandardTy)"

definition payToWitnessTaprootScript :: "bytes \<Rightarrow> bytes \<times> go_error option" where
  "payToWitnessTaprootScript rawKey = sb_Script (AddData rawKey (AddOp OP_1 NewScriptBuilder))"

definition payToMerkleRootScript :: "bytes \<Rightarrow> bytes \<times> go_error option" where
  "payToMerkleRootScript merkleRoot = sb_Script (AddData merkleRoot (AddOp OP_2 NewScriptBuilder))"

text \<open>The address types that \<open>PayToAddrScript\<close> tells apart; a nil pointer is \<open>None\<close>.\<close>

datatype Address =
    AddressTaproot "bytes option"
  | AddressMerkleRoot "bytes option"
  | AddressOther

definition PayToAddrScript :: "Address \<Rightarrow> bytes \<times> go_error option" where
  "PayToAddrScript addr =
     (case addr of
        AddressTaproot None \<Rightarrow> ([], Some (scriptError ErrUnsupportedAddress))
      | AddressTaproot (Some a) \<Rightarrow> payToWitnessTaprootScript a
      | AddressMerkleRoot None \<Rightarrow> ([], Some (scriptError ErrUnsupportedAddress))
      | AddressMerkleRoot (Some a) \<Rightarrow> payToMerkleRootScript a
      | AddressOther \<Rightarrow> ([], Some (scriptError ErrUnsupportedAddress)))"

definition NullDataScript :: "bytes \<Rightarrow> bytes \<times> go_error option" where
  "NullDataScript data =
     (if length data > MaxDataCarrierSize then ([], Some (scriptError ErrTooMuchNullData))
      else sb_Script (AddData data (AddOp OP_RETURN NewScriptBuilder)))"

definition PushedData :: "bytes \<Rightarrow> go_error + bytes option list" where
  "PushedData script =
     sbind (for_tokens
              (\<lambda>data t. case tok_data t of
                  Some d \<Rightarrow> Inr (Inr (data @ [Some d]) :: unit + _)
                | None \<Rightarrow> sbind (tok_Opcode t) (\<lambda>op.
                    Inr (Inr (if op = OP_0 then data @ [None] else data))))
              [] (MakeScriptTokenizer 0 script))
       (\<lambda>(r, t). case tok_err t of
            Some e \<Rightarrow> Inl e
          | None \<Rightarrow> (case r of Inl _ \<Rightarrow> Inl goPanic | Inr data \<Rightarrow> Inr data))"

subsection \<open>Pushes as tokens\<close>

text \<open>The value a token pushes on the stack, and the token the builder writes for some data.\<close>

definition token_value :: "byte \<times> bytes option \<Rightarrow> bytes option" where
  "token_value = (\<lambda>(b, d). case d of
      Some d \<Rightarrow> Some d
    | None \<Rightarrow>
        if b = OP_0 then Some []
        else if b = OP_1NEGATE then Some [0x81]
        else if OP_1 \<le> b \<and> b \<le> OP_16 then Some [b - (OP_1 - 1)]
        else None)"

definition push_token :: "bytes \<Rightarrow> byte \<times> bytes option" where
  "push_token data =
     (let n = length data
      in if n = 0 \<or> data = [0] then (OP_0, None)
         else if n = 1 \<and> data ! 0 \<le> 16 then (0x50 + data ! 0, None)
         else if data = [0x81] then (OP_1NEGATE, None)
         else if n < 0x4c then (word_of_nat n, Some data)
         else if n \<le> 0xff then (OP_PUSHDATA1, Some data)
         else if n \<le> 0xffff then (OP_PUSHDATA2, Some data)
         else (OP_PUSHDATA4, Some data))"

lemma push_token_cases:
  obtains (empty) "data = [] \<or> data = [0]" "push_token data = (OP_0, None)"
  | (small) v where "data = [v]" "1 \<le> v" "v \<le> 16" "push_token data = (0x50 + v, None)"
  | (neg) "data = [0x81]" "push_token data = (OP_1NEGATE, None)"
  | (direct) "0 < length data" "length data < 76" "length data = 1 \<Longrightarrow> \<not> data ! 0 \<le> 16 \<and> data ! 0 \<noteq> 0x81"
     "push_token data = (word_of_nat (length data), Some data)"
  | (one) "76 \<le> length data" "length data < 256" "push_token data = (OP_PUSHDATA1, Some data)"
  | (two) "256 \<le> length data" "length data < 65536" "push_token data = (OP_PUSHDATA2, Some data)"
  | (four) "65536 \<le> length data" "push_token data = (OP_PUSHDATA4, Some data)"
proof (cases "length data \<le> 1")
  case True
  consider "data = []" | v where "data = [v]" using True by (cases data) auto
  then show thesis
  proof cases
    case 1 then show thesis using empty by (simp add: push_token_def)
  next
    case (2 v)
    show thesis
    proof (cases "v = 0 \<or> v = 0x81 \<or> \<not> v \<le> 16")
      case True
      consider "v = 0" | "v = 0x81" | "v \<noteq> 0" "v \<noteq> 0x81" "\<not> v \<le> 16" using True by blast
      then show thesis using 2 empty neg direct by cases (auto simp: push_token_def Let_def)
    next
      case False
      then have "1 \<le> v" by (simp add: word_le_def) (metis int_one_le_iff_zero_less order.not_eq_order_implies_strict uint_0_iff unsigned_greater_eq)
      then show thesis using 2 False small [of v] by (simp add: push_token_def)
    qed
  qed
next
  case False
  consider "length data < 76" | "76 \<le> length data" "length data < 256"
    | "256 \<le> length data" "length data < 65536" | "65536 \<le> length data" by linarith
  moreover have "data \<noteq> []" "data \<noteq> [0]" "data \<noteq> [0x81]" "length data \<noteq> 1" using False by auto
  ultimately show thesis using direct one two four by cases (simp_all add: push_token_def Let_def)
qed

lemma small_push:
  assumes "1 \<le> (v :: byte)" "v \<le> 16"
  shows "uint (0x50 + v) = 80 + uint v" "1 \<le> uint v" "uint v \<le> 16"
proof -
  show v: "1 \<le> uint v" "uint v \<le> 16" using assms by (simp_all add: word_le_def)
  then show "uint (0x50 + v) = 80 + uint v" by (simp add: uint_word_ariths)
qed

lemma small_push_op:
  assumes "1 \<le> (v :: byte)" "v \<le> 16"
  shows "opcode_length (0x50 + v) = 1" "OP_1 \<le> 0x50 + v" "0x50 + v \<le> OP_16" "0x50 + v \<noteq> OP_0" "0x50 + v \<noteq> OP_1NEGATE"
    "push_width (0x50 + v) = 0"
  using small_push [OF assms] by (simp_all add: opcode_length_def word_le_def word_uint_eq_iff [of "_ + v"] push_width_def)

lemma direct_push_op:
  assumes "0 < n" "n < 76"
  shows "unat (word_of_nat n :: byte) = n" "OP_DATA_1 \<le> word_of_nat n" "word_of_nat n \<le> OP_DATA_75"
    "push_width (word_of_nat n) = 0"
proof -
  show u: "unat (word_of_nat n :: byte) = n" using assms by (simp add: unsigned_of_nat take_bit_nat_eq_self)
  show "OP_DATA_1 \<le> word_of_nat n" "word_of_nat n \<le> OP_DATA_75"
    using assms by (simp_all add: word_le_nat_alt u)
  show "push_width (word_of_nat n) = 0" 
    using assms by (auto simp: push_width_def word_unat_eq_iff u)
qed

lemma addData_push_token: "sb_script (addData data b) = sb_script b @ token_bytes (push_token data)"
  and addData_err: "sb_err (addData data b) = sb_err b"
proof -
  show "sb_err (addData data b) = sb_err b" by (simp add: addData_def Let_def)
  show "sb_script (addData data b) = sb_script b @ token_bytes (push_token data)"
  proof (cases data rule: push_token_cases)
    case direct
    then show ?thesis by (cases "length data = 1") (auto simp: addData_def Let_def token_bytes_def direct_push_op, simp_all add: push_width_def)
  qed (auto simp: addData_def Let_def token_bytes_def push_width_def)
qed

lemma push_token_wf: "length data < 2 ^ 32 \<Longrightarrow> token_wf (push_token data)"
proof (cases data rule: push_token_cases)
  case direct
  then show ?thesis by (simp add: token_wf_def direct_push_op)
next
  case (small v)
  then show ?thesis by (simp add: token_wf_def small_push_op)
qed (auto simp: token_wf_def push_width_def opcode_length_def)

lemma push_token_value: "token_value (push_token data) = Some (if data = [0] then [] else data)"
  by (cases data rule: push_token_cases) (auto simp: token_value_def small_push_op)

lemma push_token_size: "length (token_bytes (push_token data)) = canonicalDataSize data"
proof (cases data rule: push_token_cases)
  case direct
  then show ?thesis by (cases "length data = 1") (auto simp: canonicalDataSize_def Let_def token_bytes_def direct_push_op, simp_all add: push_width_def)
qed (auto simp: canonicalDataSize_def token_bytes_def push_width_def Let_def small_push_op)
lemma AddData_spec:
  assumes "sb_err b = None" "length (sb_script b) + canonicalDataSize data \<le> MaxScriptSize"
    "length data \<le> MaxScriptElementSize"
  shows "AddData data b = b\<lparr>sb_script := sb_script b @ token_bytes (push_token data)\<rparr>"
  using assms addData_push_token [of data b] addData_err [of data b]
  by (cases b; cases "addData data b") (simp add: AddData_def)

lemma AddData_overflow:
  "sb_err b = None \<Longrightarrow> length (sb_script b) + canonicalDataSize data > MaxScriptSize \<or> length data > MaxScriptElementSize
     \<Longrightarrow> AddData data b = b\<lparr>sb_err := Some otherError\<rparr>"
  by (auto simp: AddData_def)

lemma AddOp_ok: "sb_err b = None \<Longrightarrow> length (sb_script b) < MaxScriptSize \<Longrightarrow>
    AddOp op b = b\<lparr>sb_script := sb_script b @ [op]\<rparr>"
  by (simp add: AddOp_def)

lemma small_int_token:
  assumes "val = - 1 \<or> (val \<ge> 1 \<and> val \<le> 16)"
  shows "\<exists>x v. [word_of_int (80 + val)] = token_bytes x \<and> token_wf x \<and> token_value x = Some v \<and>
     scriptNum_Bytes val = Inr v"
proof (cases "val = - 1")
  case True
  have "scriptNum_Bytes (- 1) = Inr [0x81]" by code_simp
  with True show ?thesis
    by (intro exI [of _ "(OP_1NEGATE, None)"] exI [of _ "[0x81]"])
       (simp add: token_bytes_def token_wf_def token_value_def opcode_length_def)
next
  case False
  define w :: byte where "w = word_of_int val"
  have u: "uint w = val" using assms False by (simp add: w_def uint_word_of_int)
  have w: "1 \<le> w" "w \<le> 16" using assms False u by (simp_all add: word_le_def)
  have "checkMinimalDataEncoding [w] = Inr ()"
    using u assms False by (simp add: checkMinimalDataEncoding_def byte_and_7f)
  from scriptNum_Bytes_inverse [OF this] have "scriptNum_Bytes val = Inr [w]"
    using u assms False by (simp add: sm_val_def)
  moreover have "word_of_int (80 + val) = 0x50 + w" by (simp add: w_def)
  ultimately show ?thesis
    by (intro exI [of _ "(0x50 + w, None)"] exI [of _ "[w]"])
       (simp add: token_bytes_def token_wf_def token_value_def small_push_op [OF w])
qed

text \<open>A number is pushed as its minimal encoding.\<close>

lemma AddInt64_spec:
  assumes "\<bar>val\<bar> < 2 ^ 63" "sb_err b = None" "length (sb_script b) + 10 \<le> MaxScriptSize"
  shows "\<exists>x v. AddInt64 val b = Inr (b\<lparr>sb_script := sb_script b @ token_bytes x\<rparr>) \<and>
     token_wf x \<and> token_value x = Some v \<and> scriptNum_Bytes val = Inr v"
proof -
  obtain v where v: "scriptNum_Bytes val = Inr v" "sm_val v = val" "checkMinimalDataEncoding v = Inr ()"
    using scriptNum_Bytes_sm_val [of val] assms(1) by (auto simp: abs_less_iff)
  have len: "length v \<le> 8" using v(2,3) assms(1) minimal_length [of v 8] by simp
  show ?thesis
  proof (cases "val = 0")
    case True
    then show ?thesis using assms
      by (intro exI [of _ "(OP_0, None)"] exI [of _ "[]"])
         (simp add: AddInt64_def token_bytes_def token_wf_def token_value_def opcode_length_def scriptNum_Bytes_def)
  next
    case nz: False
    show ?thesis
    proof (cases "val = - 1 \<or> (val \<ge> 1 \<and> val \<le> 16)")
      case True
      from small_int_token [OF True] obtain x u where x: "token_bytes x = [word_of_int (80 + val)]"
        "token_wf x" "token_value x = Some u" "scriptNum_Bytes val = Inr u" by metis
      have "AddInt64 val b = Inr (b\<lparr>sb_script := sb_script b @ token_bytes x\<rparr>)"
        using True nz assms unfolding x(1) by (simp add: AddInt64_def script_limits)
      with x show ?thesis by blast
    next
      case False
      have "canonicalDataSize v \<le> 9" using len by (simp add: canonicalDataSize_def Let_def)
      then have "AddData v b = b\<lparr>sb_script := sb_script b @ token_bytes (push_token v)\<rparr>"
        using assms len by (intro AddData_spec) (simp_all add: script_limits)
      moreover have "v \<noteq> [0]" using v(2) nz by (auto simp: sm_val_def)
      ultimately show ?thesis using v(1) False nz assms len push_token_wf [of v] push_token_value [of v]
        by (intro exI [of _ "push_token v"] exI [of _ v]) (auto simp: AddInt64_def script_limits)
    qed
  qed
qed


lemma tok_Next_parse:
  assumes "tok_ok t"
  shows "tok_Next t = (case parse_token (tok_rest t) of
      None \<Rightarrow> Inr (False, tok_stop t)
    | Some (b, d, r) \<Rightarrow> Inr (True, tok_advance t b d r))"
  using assms tok_Next_end [OF assms] tok_Next_token [OF assms]
  by (cases "tok_rest t")
     (auto simp: tok_stop_def tok_fail_def simp del: parse_token.simps(2) split: option.splits)

lemma extractWitnessProgramInfo_parse:
  assumes "4 \<le> length s" "length s \<le> 42"
  shows "extractWitnessProgramInfo s =
    (case parse_token s of
       None \<Rightarrow> Inr (0, None, False)
     | Some (op1, d1, r1) \<Rightarrow>
         if \<not> IsSmallInt op1 then Inr (0, None, False)
         else case parse_token r1 of
             None \<Rightarrow> Inr (0, None, False)
           | Some (op2, d2, r2) \<Rightarrow>
               if \<not> isCanonicalPush op2 (data_bytes d2) then Inr (0, None, False)
               else Inr (AsSmallInt op1, d2, r2 = []))"
proof -
  let ?t = "MakeScriptTokenizer 0 s"
  have ok: "tok_ok ?t" using tok_ok_Make(1) [of s] assms by simp
  show ?thesis
  proof (cases "parse_token s")
    case None
    then show ?thesis using assms
      by (simp add: extractWitnessProgramInfo_def tok_Next_parse [OF ok] tok_ok_Make(2))
  next
    case (Some x)
    obtain op1 d1 r1 where x: "x = (op1, d1, r1)" by (cases x)
    note adv = tok_advance_ok [OF ok, unfolded tok_ok_Make(2), OF Some [unfolded x]]
    have op: "tok_Opcode (tok_advance t b d r) = Inr b" "tok_data (tok_advance t b d r) = d" for t b d r
      by (simp_all add: tok_advance_def tok_Opcode_def)
    have fin: "tok_Done (tok_advance (tok_advance ?t op1 d1 r1) op2 d2 r2) \<longleftrightarrow> r2 = []"
      "tok_err (tok_advance (tok_advance ?t op1 d1 r1) op2 d2 r2) = None"
      if "parse_token r1 = Some (op2, d2, r2)" for op2 d2 r2
      using tok_advance_ok [OF adv(1), unfolded adv(2), OF that] tok_Done_iff
      by (auto simp: tok_ok_def)
    show ?thesis using assms Some x
      by (auto simp: extractWitnessProgramInfo_def tok_Next_parse [OF ok] tok_ok_Make(2) op Let_def
            tok_Next_parse [OF adv(1)] adv(2) fin split: option.splits)
  qed
qed

lemma IsSmallInt_length: "IsSmallInt b \<Longrightarrow> parse_token (b # s) = Some (b, None, s)"
  by (auto simp: IsSmallInt_def push_width_def word_le_def)

lemma canonical_short_push:
  assumes "parse_token r = Some (b, d, [])" "3 \<le> length r" "length r \<le> 41" "isCanonicalPush b (data_bytes d)"
  shows "\<exists>p. d = Some p \<and> r = word_of_nat (length p) # p"
proof -
  have r: "token_wf (b, d)" "r = token_bytes (b, d)" using parse_token_bytes [OF assms(1)] by simp_all
  then obtain p where p: "d = Some p" using assms(2) by (cases d) (simp_all add: token_bytes_def)
  have "push_width b = 0"
  proof (rule ccontr)
    assume "push_width b \<noteq> 0"
    then show False using assms(3,4) r(2) p
      by (auto simp: push_width_def isCanonicalPush_def data_bytes_def token_bytes_def Let_def word_less_def split: if_splits)
  qed
  then show ?thesis using r p by (auto simp: token_wf_def token_bytes_def)
qed

lemma direct_canonical:
  assumes "2 \<le> length p" "length p < 76"
  shows "isCanonicalPush (word_of_nat (length p)) p"
proof -
  have "unat (word_of_nat (length p) :: byte) = length p" using assms by (intro direct_push_op(1)) auto
  then show ?thesis using assms by (simp add: isCanonicalPush_def Let_def word_unat_eq_iff)
qed

lemma direct_parse:
  assumes "0 < length p" "length p < 76"
  shows "parse_token (word_of_nat (length p) # p @ s) = Some (word_of_nat (length p), Some p, s)"
  using parse_token_token_bytes [of "word_of_nat (length p)" "Some p" s] direct_push_op [OF assms]
  by (simp add: token_wf_def token_bytes_def del: parse_token.simps)

lemma witness_program_iff:
  "isWitnessProgramScript s = Inr (\<exists>op p. s = op # word_of_nat (length p) # p \<and> IsSmallInt op \<and>
      2 \<le> length p \<and> length p \<le> 40)"
  (is "_ = Inr ?W")
proof (cases "4 \<le> length s \<and> length s \<le> 42")
  case False
  then show ?thesis by (auto simp: isWitnessProgramScript_def extractWitnessProgramInfo_def)
next
  case len: True
  note parse = extractWitnessProgramInfo_parse [OF conjunct1 [OF len] conjunct2 [OF len]]
  obtain op r where s: "s = op # r" using len by (cases s) auto
  show ?thesis
  proof (cases "IsSmallInt op")
    case False
    then show ?thesis using s parse parse_token_suffix [of s]
      by (fastforce simp: isWitnessProgramScript_def simp del: parse_token.simps split: option.splits)
  next
    case True
    note first = IsSmallInt_length [OF True, of r]
    have W: "?W" if "parse_token r = Some (b, d, [])" "isCanonicalPush b (data_bytes d)" for b d
      using canonical_short_push [OF that(1) _ _ that(2)] len s True by auto
    have "parse_token r = Some (word_of_nat (length p), Some p, []) \<and> isCanonicalPush (word_of_nat (length p)) p"
      if "r = word_of_nat (length p) # p" "2 \<le> length p" "length p \<le> 40" for p
      using that direct_parse [of p "[]"] direct_canonical [of p]
      by (cases "p = []") (simp_all del: parse_token.simps)
    then show ?thesis using W s first parse True
      by (auto simp: isWitnessProgramScript_def data_bytes_def simp del: parse_token.simps split: option.splits)
  qed
qed

lemma pay_to_script_32:
  assumes "length key = 32"
  shows "sb_Script (AddData key (AddOp op NewScriptBuilder)) = (op # OP_DATA_32 # key, None)"
proof -
  have tok: "push_token key = (OP_DATA_32, Some key)" using assms
    by (cases key rule: push_token_cases) auto
  have "canonicalDataSize key = 33" using assms by (simp add: canonicalDataSize_def)
  then show ?thesis using assms AddData_spec [of "AddOp op NewScriptBuilder" key]
    by (simp add: AddOp_ok NewScriptBuilder_def script_limits sb_Script_def tok token_bytes_def push_width_def)
qed

lemma builder_sticky:
  assumes "sb_err b \<noteq> None"
  shows "AddOp op b = b \<and> AddOps ops b = b \<and> AddData data b = b \<and> AddFullData data b = b \<and> AddInt64 val b = Inr b"
  using assms by (simp add: AddOp_def AddOps_def AddData_def AddFullData_def AddInt64_def)

lemma builder_size:
  assumes "length (sb_script b) \<le> MaxScriptSize"
  shows "length (sb_script (AddOp op b)) \<le> MaxScriptSize \<and> length (sb_script (AddOps ops b)) \<le> MaxScriptSize \<and>
    length (sb_script (AddData data b)) \<le> MaxScriptSize"
  using assms by (auto simp: AddOp_def AddOps_def AddData_def addData_push_token push_token_size)

subsection \<open>Properties\<close>

text \<open>
  \<open>AddData\<close> within the limits appends the bytes of one well-formed token, of the size
  \<open>canonicalDataSize\<close> predicts, whose stack value is the data (the one-byte string \<open>00\<close> is pushed
  as the empty string); above the limits the builder keeps its script and records an error; a
  builder with an error stays as it is.\<close>

lemma AddData_pushes:
  "if sb_err b \<noteq> None then AddData data b = b
   else if length (sb_script b) + canonicalDataSize data > MaxScriptSize \<or> length data > MaxScriptElementSize
     then AddData data b = b\<lparr>sb_err := Some otherError\<rparr>
   else \<exists>x. AddData data b = b\<lparr>sb_script := sb_script b @ token_bytes x\<rparr> \<and> token_wf x \<and>
          length (token_bytes x) = canonicalDataSize data \<and>
          token_value x = Some (if data = [0] then [] else data)"
proof (cases "sb_err b \<noteq> None \<or> length (sb_script b) + canonicalDataSize data > MaxScriptSize \<or>
    length data > MaxScriptElementSize")
  case True
  then show ?thesis using builder_sticky AddData_overflow by auto
next
  case False
  then have "token_wf (push_token data)" by (intro push_token_wf) (simp add: script_limits)
  with False AddData_spec [of b data] push_token_size [of data] push_token_value [of data]
  show ?thesis by (auto simp del: split_paired_Ex)
qed

text \<open>
  \<open>AddInt64\<close> appends one well-formed token whose stack value is the minimal encoding of the
  number, so that \<open>MakeScriptNum\<close> reads the number back.\<close>

lemma AddInt64_roundtrip:
  assumes "\<bar>val\<bar> < 2 ^ 55" "sb_err b = None" "length (sb_script b) + 10 \<le> MaxScriptSize"
  shows "\<exists>x v. AddInt64 val b = Inr (b\<lparr>sb_script := sb_script b @ token_bytes x\<rparr>) \<and>
     token_wf x \<and> token_value x = Some v \<and> MakeScriptNum v True 7 = Inr val"
proof -
  obtain x v where x: "AddInt64 val b = Inr (b\<lparr>sb_script := sb_script b @ token_bytes x\<rparr>)"
     "token_wf x" "token_value x = Some v" "scriptNum_Bytes val = Inr v"
    using AddInt64_spec [of val b] assms by auto
  have "sm_val v = val" "checkMinimalDataEncoding v = Inr ()"
    using scriptNum_Bytes_sm_val [of val] assms(1) x(4) by (auto simp: abs_less_iff)
  moreover from this have "length v \<le> 7" using assms(1) minimal_length [of v 7] by simp
  ultimately have "MakeScriptNum v True 7 = Inr val" by (auto simp: MakeScriptNum_minimal)
  with x show ?thesis by blast
qed

lemma AddInt64_roundtrip_example:
  "\<exists>x v. AddInt64 1000 NewScriptBuilder = Inr (NewScriptBuilder\<lparr>sb_script := [] @ token_bytes x\<rparr>) \<and>
     token_wf x \<and> token_value x = Some v \<and> MakeScriptNum v True 7 = Inr 1000"
  using AddInt64_roundtrip [of 1000 NewScriptBuilder] by (simp add: NewScriptBuilder_def script_limits)

text \<open>
  A script is a witness program exactly when it is a small-integer opcode followed by the
  direct push of 2 to 40 bytes.\<close>

lemma isWitnessProgramScript_iff:
  "isWitnessProgramScript script =
     Inr (\<exists>op program. script = op # word_of_nat (length program) # program \<and> IsSmallInt op \<and>
            2 \<le> length program \<and> length program \<le> 40)"
  by (rule witness_program_iff)

text \<open>
  The output scripts for a 32-byte taproot key and for a 32-byte merkle root are built without
  an error, are classified as what they are, and give the key or root back.\<close>

lemma standard_outputs_roundtrip:
  assumes "length key = 32"
  shows "payToWitnessTaprootScript key = (OP_1 # OP_DATA_32 # key, None) \<and>
    GetScriptClass (OP_1 # OP_DATA_32 # key) = WitnessV1TaprootTy \<and>
    extractWitnessV1KeyBytes (OP_1 # OP_DATA_32 # key) = Some key \<and>
    payToMerkleRootScript key = (OP_2 # OP_DATA_32 # key, None) \<and>
    GetScriptClass (OP_2 # OP_DATA_32 # key) = WitnessV2MerkleRootTy \<and>
    extractWitnessV2MerkleRootBytes (OP_2 # OP_DATA_32 # key) = Some key \<and>
    extractWitnessProgramInfo (OP_1 # OP_DATA_32 # key) = Inr (1, Some key, True) \<and>
    extractWitnessProgramInfo (OP_2 # OP_DATA_32 # key) = Inr (2, Some key, True)"
proof -
  have "extractWitnessProgramInfo (op # OP_DATA_32 # key) = Inr (AsSmallInt op, Some key, True)" if "IsSmallInt op" for op
    using assms that IsSmallInt_length [OF that] direct_parse [of key "[]"] direct_canonical [of key]
    by (subst extractWitnessProgramInfo_parse) (auto simp: data_bytes_def simp del: parse_token.simps)
  then show ?thesis
    using assms pay_to_script_32 [OF assms]
    by (simp add: payToWitnessTaprootScript_def payToMerkleRootScript_def GetScriptClass_def isNullDataScript_def
          isWitnessTaprootScript_def isWitnessMerkleRootScript_def extractWitnessV1KeyBytes_def
          extractWitnessV2MerkleRootBytes_def standard_sizes IsSmallInt_def AsSmallInt_def word_le_def)
qed

lemma standard_outputs_roundtrip_example:
  "payToWitnessTaprootScript (replicate 32 7) = (OP_1 # OP_DATA_32 # replicate 32 7, None) \<and>
   extractWitnessProgramInfo (OP_2 # OP_DATA_32 # replicate 32 7) = Inr (2, Some (replicate 32 7), True)"
  using standard_outputs_roundtrip [of "replicate 32 7"] by simp

text \<open>The range check of \<open>ScriptClass.String\<close> lets the first invalid value through.\<close>

lemma ScriptClass_String_out_of_range: "ScriptClass_String 4 = Inl goPanic"
  by (simp add: ScriptClass_String_def scriptClassToName_def go_index_def)

lemma ScriptClass_String_roundtrip:
  "c \<in> {NonStandardTy, NullDataTy, WitnessV1TaprootTy, WitnessV2MerkleRootTy} \<Longrightarrow>
     \<exists>n. ScriptClass_String c = Inr n \<and> NewScriptClass n = Inr c"
  by (auto simp: ScriptClass_String_def scriptClassToName_def go_index_def NewScriptClass_def)

end
