(* ===== verification/Wire_Codec.thy ===== *)
theory Wire_Codec
  imports Prelude
begin

text \<open>
  Primitives of the wire protocol (\<^verbatim>\<open>node/wire/common.go\<close>): reading from and writing to a byte
  stream, variable length integers, strings and byte arrays. A writer returns the bytes it writes.
  A reader takes the remaining bytes of the stream and returns its value with the bytes behind it,
  or an error: \<open>ioError\<close> when the stream ends early, \<open>messageError\<close> for a malformed message,
  \<open>formatError\<close> for the plain errors of the certificates, \<open>wirePanic\<close> for a run-time panic.

  The contract of a format is the locale \<open>byte_codec\<close>: reading what was written gives the value
  back, and a reader accepts nothing else, so that no value has two encodings. The locale
  \<open>budget_codec\<close> is the same contract for readers that also use up a buffer of bounded size.
\<close>

datatype wire_error = ioError | messageError | errSuperfluousWitnessRecord | formatError | wirePanic

definition ReadFull :: "nat \<Rightarrow> bytes \<Rightarrow> wire_error + (bytes \<times> bytes)" where
  "ReadFull n s = (if length s < n then Inl ioError else Inr (take n s, drop n s))"

definition MaxMessagePayload :: nat where "MaxMessagePayload = 1024 * 1024 * 32"

subsection \<open>Variable length integers\<close>

definition ReadVarIntBuf :: "bytes \<Rightarrow> wire_error + (nat \<times> bytes)" where
  "ReadVarIntBuf s =
     sbind (ReadFull 1 s) (\<lambda>(buf, s).
       let discriminant = buf ! 0
       in if discriminant = 0xff then
            sbind (ReadFull 8 s) (\<lambda>(buf, s).
              let rv = nat (le_val buf)
              in if rv < 0x100000000 then Inl messageError else Inr (rv, s))
          else if discriminant = 0xfe then
            sbind (ReadFull 4 s) (\<lambda>(buf, s).
              let rv = nat (le_val buf)
              in if rv < 0x10000 then Inl messageError else Inr (rv, s))
          else if discriminant = 0xfd then
            sbind (ReadFull 2 s) (\<lambda>(buf, s).
              let rv = nat (le_val buf)
              in if rv < 0xfd then Inl messageError else Inr (rv, s))
          else Inr (unat discriminant, s))"

definition WriteVarIntBuf :: "nat \<Rightarrow> bytes" where
  "WriteVarIntBuf val =
     (if val < 0xfd then [word_of_nat val]
      else if val \<le> 0xffff then 0xfd # le_bytes 2 (int val)
      else if val \<le> 0xffffffff then 0xfe # le_bytes 4 (int val)
      else 0xff # le_bytes 8 (int val))"

definition VarIntSerializeSize :: "nat \<Rightarrow> nat" where
  "VarIntSerializeSize val =
     (if val < 0xfd then 1 else if val \<le> 0xffff then 3 else if val \<le> 0xffffffff then 5 else 9)"

subsection \<open>Variable length byte arrays and strings\<close>

definition ReadVarBytesBuf :: "nat \<Rightarrow> bytes \<Rightarrow> wire_error + (bytes \<times> bytes)" where
  "ReadVarBytesBuf maxAllowed s =
     sbind (ReadVarIntBuf s) (\<lambda>(count, s).
       if count > maxAllowed then Inl messageError else ReadFull count s)"

definition WriteVarBytesBuf :: "bytes \<Rightarrow> bytes" where
  "WriteVarBytesBuf bs = WriteVarIntBuf (length bs) @ bs"

definition readVarStringBuf :: "bytes \<Rightarrow> wire_error + (bytes \<times> bytes)" where
  "readVarStringBuf s =
     sbind (ReadVarIntBuf s) (\<lambda>(count, s).
       if count > MaxMessagePayload then Inl messageError else ReadFull count s)"

definition writeVarStringBuf :: "bytes \<Rightarrow> bytes" where
  "writeVarStringBuf str = WriteVarIntBuf (length str) @ str"

text \<open>The counted loops over a message: every element takes its share of the buffer.\<close>

primrec read_loop ::
  "(nat \<Rightarrow> bytes \<Rightarrow> wire_error + ('a \<times> bytes)) \<Rightarrow> ('a \<Rightarrow> nat) \<Rightarrow> nat \<Rightarrow> nat \<Rightarrow> bytes \<Rightarrow>
     wire_error + ('a list \<times> nat \<times> bytes)" where
  "read_loop rd used 0 b s = Inr ([], b, s)"
| "read_loop rd used (Suc n) b s =
     sbind (rd b s) (\<lambda>(x, s).
       sbind (read_loop rd used n (b - used x) s) (\<lambda>(xs, b, s). Inr (x # xs, b, s)))"

subsection \<open>The contract of a format\<close>

locale byte_codec =
  fixes enc :: "'a \<Rightarrow> bytes"
    and dec :: "bytes \<Rightarrow> wire_error + ('a \<times> bytes)"
    and ok :: "'a \<Rightarrow> bool"
  assumes dec_enc: "ok x \<Longrightarrow> dec (enc x @ r) = Inr (x, r)"
    and enc_dec: "dec s = Inr (x, r) \<Longrightarrow> s = enc x @ r \<and> ok x"
begin

text \<open>Encodings are injective, and no encoding is a proper prefix of another.\<close>

lemma enc_inj: "ok x \<Longrightarrow> ok y \<Longrightarrow> enc x = enc y \<Longrightarrow> x = y"
  using dec_enc [of x "[]"] dec_enc [of y "[]"] by (metis Inr_inject prod.inject)

lemma enc_prefix_free: "ok x \<Longrightarrow> ok y \<Longrightarrow> enc x @ r = enc y @ q \<Longrightarrow> x = y \<and> r = q"
  using dec_enc [of x r] dec_enc [of y q] by (metis Inr_inject prod.inject)

lemma dec_iff: "dec s = Inr (x, r) \<longleftrightarrow> s = enc x @ r \<and> ok x"
  using dec_enc enc_dec by blast

end

locale budget_codec =
  fixes benc :: "'a \<Rightarrow> bytes"
    and bdec :: "nat \<Rightarrow> bytes \<Rightarrow> wire_error + ('a \<times> bytes)"
    and cost :: "'a \<Rightarrow> nat"
    and bok :: "'a \<Rightarrow> bool"
  assumes bdec_enc: "bok x \<Longrightarrow> cost x \<le> b \<Longrightarrow> bdec b (benc x @ r) = Inr (x, r)"
    and benc_dec: "bdec b s = Inr (x, r) \<Longrightarrow> s = benc x @ r \<and> bok x \<and> cost x \<le> b"

begin

lemma read_loop_enc:
  "list_all bok xs \<Longrightarrow> sum_list (map cost xs) \<le> b \<Longrightarrow>
     read_loop bdec cost (length xs) b (concat (map benc xs) @ r) = Inr (xs, b - sum_list (map cost xs), r)"
  by (induction xs arbitrary: b) (simp_all add: bdec_enc)

lemma read_loop_dec:
  "read_loop bdec cost n b s = Inr (xs, b', r) \<Longrightarrow>
     s = concat (map benc xs) @ r \<and> list_all bok xs \<and> length xs = n \<and> b = b' + sum_list (map cost xs)"
proof (induction n arbitrary: b s xs)
  case (Suc n)
  then obtain x ys q where "bdec b s = Inr (x, q)"
    "read_loop bdec cost n (b - cost x) q = Inr (ys, b', r)" "xs = x # ys"
    by (auto simp: sbind_eq_Inr)
  with Suc.IH benc_dec show ?case by fastforce
qed simp

end

text \<open>A plain format is a format that leaves the buffer alone.\<close>

sublocale byte_codec \<subseteq> free: budget_codec enc "\<lambda>_. dec" "\<lambda>_. 0" ok
  by unfold_locales (simp_all add: dec_enc enc_dec)

subsection \<open>The primitives fulfil the contract\<close>

lemma ReadFull_append: "length xs = n \<Longrightarrow> ReadFull n (xs @ r) = Inr (xs, r)"
  by (simp add: ReadFull_def)

lemma ReadFull_eq_Inr: "ReadFull n s = Inr (xs, r) \<longleftrightarrow> s = xs @ r \<and> length xs = n"
  by (auto simp: ReadFull_def)

lemma ReadFull_1: "ReadFull (Suc 0) (d # q) = Inr ([d], q)"
  by (simp add: ReadFull_def)

lemma le_bytes_nat:
  assumes "length xs = k"
  shows "le_bytes k (int (nat (le_val xs))) = xs"
  using le_bytes_le_val [of xs] assms by simp

lemma nat_le_val_le_bytes: "n < 256 ^ k \<Longrightarrow> nat (le_val (le_bytes k (int n))) = n"
  using nat_int [of n] by (simp add: le_val_le_bytes)

lemma nat_le_val_less: "length xs = k \<Longrightarrow> nat (le_val xs) < 256 ^ k"
  using le_val_less [of xs] by (simp add: nat_less_iff)

lemma length_WriteVarIntBuf: "length (WriteVarIntBuf n) = VarIntSerializeSize n"
  by (simp add: WriteVarIntBuf_def VarIntSerializeSize_def)

lemma byte_of_small: "n < 256 \<Longrightarrow> unat (word_of_nat n :: byte) = n"
  by (simp add: unsigned_of_nat take_bit_nat_eq_self)

lemma ReadVarInt_Write:
  assumes "n < 2 ^ 64"
  shows "ReadVarIntBuf (WriteVarIntBuf n @ r) = Inr (n, r)"
proof -
  consider "n < 0xfd" | "0xfd \<le> n" "n \<le> 0xffff" | "0xffff < n" "n \<le> 0xffffffff" | "0xffffffff < n" by linarith
  then show ?thesis
  proof cases
    case 1
    then have "unat (word_of_nat n :: byte) = n" by (intro byte_of_small) simp
    then show ?thesis using 1
      by (simp add: WriteVarIntBuf_def ReadVarIntBuf_def ReadFull_def word_unat_eq_iff)
  qed (use assms in \<open>simp_all add: WriteVarIntBuf_def ReadVarIntBuf_def ReadFull_def nat_le_val_le_bytes\<close>)
qed

lemma Write_ReadVarInt:
  assumes "ReadVarIntBuf s = Inr (n, r)"
  shows "s = WriteVarIntBuf n @ r \<and> n < 2 ^ 64"
proof -
  obtain d q where s: "s = d # q" using assms by (cases s) (auto simp: ReadVarIntBuf_def ReadFull_def)
  have wide: "s = WriteVarIntBuf n @ r \<and> n < 2 ^ 64"
    if "k \<in> {2, 4, 8}" "ReadFull k q = Inr (xs, r)" "n = nat (le_val xs)" 
      "d # le_bytes k (int n) = WriteVarIntBuf n" for k xs
  proof -
    have "q = xs @ r" "length xs = k" using that(2) by (simp_all add: ReadFull_eq_Inr)
    moreover from this have "n < 2 ^ 64"
      using less_le_trans [OF nat_le_val_less [of xs k]] that(1,3) by auto
    ultimately show ?thesis using that(3,4) le_bytes_nat [of xs k] s by (auto simp del: of_nat_nat)
  qed
  have small: "s = WriteVarIntBuf n @ r \<and> n < 2 ^ 64"
    if "n = unat d" "q = r" "d \<noteq> 0xff" "d \<noteq> 0xfe" "d \<noteq> 0xfd"
  proof -
    have "unat d \<noteq> 255" "unat d \<noteq> 254" "unat d \<noteq> 253" using that(3-5) by (auto simp: word_unat_eq_iff)
    then have "unat d < 253" using unsigned_less [of d, where 'a = nat] by simp
    then show ?thesis using that s by (simp add: WriteVarIntBuf_def)
  qed
  consider "d = 0xff" | "d = 0xfe" | "d = 0xfd" | "d \<noteq> 0xff" "d \<noteq> 0xfe" "d \<noteq> 0xfd" by blast
  then show ?thesis
  proof cases
    case 1
    then obtain xs where "ReadFull 8 q = Inr (xs, r)" "n = nat (le_val xs)" "0x100000000 \<le> n"
      using assms s by (auto simp: ReadVarIntBuf_def ReadFull_1 Let_def sbind_eq_Inr split: if_splits)
    then show ?thesis using 1 by (intro wide [of 8 xs]) (simp_all add: WriteVarIntBuf_def)
  next
    case 2
    then obtain xs where xs: "ReadFull 4 q = Inr (xs, r)" "n = nat (le_val xs)" "0x10000 \<le> n"
      using assms s by (auto simp: ReadVarIntBuf_def ReadFull_1 Let_def sbind_eq_Inr split: if_splits)
    then have "n < 256 ^ 4" using nat_le_val_less [of xs 4] by (simp add: ReadFull_eq_Inr)
    then show ?thesis using 2 xs by (intro wide [of 4 xs]) (simp_all add: WriteVarIntBuf_def)
  next
    case 3
    then obtain xs where xs: "ReadFull 2 q = Inr (xs, r)" "n = nat (le_val xs)" "0xfd \<le> n"
      using assms s by (auto simp: ReadVarIntBuf_def ReadFull_1 Let_def sbind_eq_Inr split: if_splits)
    then have "n < 256 ^ 2" using nat_le_val_less [of xs 2] by (simp add: ReadFull_eq_Inr)
    then show ?thesis using 3 xs by (intro wide [of 2 xs]) (simp_all add: WriteVarIntBuf_def)
  next
    case 4
    then show ?thesis using assms s
      by (intro small) (simp_all add: ReadVarIntBuf_def ReadFull_1)
  qed
qed

interpretation var_int: byte_codec WriteVarIntBuf ReadVarIntBuf "\<lambda>n. n < 2 ^ 64"
  using ReadVarInt_Write Write_ReadVarInt by unfold_locales

lemma ReadVarBytes_eq:
  "ReadVarBytesBuf m s = Inr (bs, r) \<longleftrightarrow> s = WriteVarBytesBuf bs @ r \<and> length bs \<le> m \<and> length bs < 2 ^ 64"
proof -
  have "ReadVarBytesBuf m s = Inr (bs, r) \<longleftrightarrow>
    (\<exists>c q. ReadVarIntBuf s = Inr (c, q) \<and> c \<le> m \<and> ReadFull c q = Inr (bs, r))"
    by (auto simp: ReadVarBytesBuf_def sbind_eq_Inr not_less split: if_splits)
  also have "\<dots> \<longleftrightarrow> s = WriteVarBytesBuf bs @ r \<and> length bs \<le> m \<and> length bs < 2 ^ 64"
    unfolding var_int.dec_iff ReadFull_eq_Inr WriteVarBytesBuf_def by (metis append.assoc)
  finally show ?thesis .
qed

interpretation var_bytes: byte_codec WriteVarBytesBuf "ReadVarBytesBuf m"
    "\<lambda>bs. length bs \<le> m \<and> length bs < 2 ^ 64" for m
  by unfold_locales (simp_all add: ReadVarBytes_eq)

lemma readVarString_eq: "readVarStringBuf = ReadVarBytesBuf MaxMessagePayload" "writeVarStringBuf = WriteVarBytesBuf"
  by (simp_all add: fun_eq_iff readVarStringBuf_def ReadVarBytesBuf_def writeVarStringBuf_def WriteVarBytesBuf_def)

interpretation var_string: byte_codec writeVarStringBuf readVarStringBuf
    "\<lambda>bs. length bs \<le> MaxMessagePayload \<and> length bs < 2 ^ 64"
  unfolding readVarString_eq by (rule var_bytes.byte_codec_axioms)

subsection \<open>Properties\<close>

text \<open>
  Variable length integers and byte arrays have exactly one encoding: every 64-bit value is
  read back from its encoding, whatever follows it, and a reader that succeeds has read exactly the
  encoding of its result, whose size is \<open>VarIntSerializeSize\<close>; over-long forms are refused.\<close>

lemma var_int_canonical:
  "(n < 2 ^ 64 \<and> s = WriteVarIntBuf n @ r \<longleftrightarrow> ReadVarIntBuf s = Inr (n, r)) \<and>
   length (WriteVarIntBuf n) = VarIntSerializeSize n \<and>
   (ReadVarBytesBuf m s = Inr (bs, r) \<longleftrightarrow>
      s = WriteVarBytesBuf bs @ r \<and> length bs \<le> m \<and> length bs < 2 ^ 64)"
  using var_int.dec_iff [of s n r] by (auto simp: length_WriteVarIntBuf ReadVarBytes_eq)

end
