(* ===== verification/Wire_Tx.thy ===== *)
theory Wire_Tx
  imports Wire_Codec
begin

text \<open>
  Transactions and block headers on the wire (\<^verbatim>\<open>node/wire/msgtx.go\<close>,
  \<^verbatim>\<open>blockheader.go\<close>): the records of the Go structs, their serialization with and without
  witness data, and the decoder with its limits and the shared script buffer of \<open>scriptSlabSize\<close>
  bytes, of which every script read takes its part. Unsigned fields are \<open>nat\<close>, signed ones \<open>int\<close>;
  hashes are byte strings of length 32. The buffers only serve as scratch space, and the final copy
  of the scripts into one allocation does not change their contents; it is not modelled.
\<close>

record OutPoint =
  out_Hash :: hash
  out_Index :: nat

record TxIn =
  ti_PreviousOutPoint :: OutPoint
  ti_SignatureScript :: bytes
  ti_Witness :: "bytes list"
  ti_Sequence :: nat

record TxOut =
  to_Value :: int
  to_PkScript :: bytes

record MsgTx =
  tx_Version :: int
  tx_TxIn :: "TxIn list"
  tx_TxOut :: "TxOut list"
  tx_LockTime :: nat

datatype MessageEncoding = BaseEncoding | WitnessEncoding

subsection \<open>Limits\<close>

definition MaxTxInSequenceNum :: nat where "MaxTxInSequenceNum = 0xffffffff"
definition MaxPrevOutIndex :: nat where "MaxPrevOutIndex = 0xffffffff"
definition SequenceLockTimeDisabled :: nat where "SequenceLockTimeDisabled = 2 ^ 31"
definition SequenceLockTimeIsSeconds :: nat where "SequenceLockTimeIsSeconds = 2 ^ 22"
definition SequenceLockTimeMask :: nat where "SequenceLockTimeMask = 0x0000ffff"
definition SequenceLockTimeGranularity :: nat where "SequenceLockTimeGranularity = 9"
definition minTxInPayload :: nat where "minTxInPayload = 9 + 32"
definition maxTxInPerMessage :: nat where "maxTxInPerMessage = MaxMessagePayload div minTxInPayload + 1"
definition MinTxOutPayload :: nat where "MinTxOutPayload = 9"
definition maxTxOutPerMessage :: nat where "maxTxOutPerMessage = MaxMessagePayload div MinTxOutPayload + 1"
definition maxWitnessItemsPerInput :: nat where "maxWitnessItemsPerInput = 4000000"
definition maxWitnessItemSize :: nat where "maxWitnessItemSize = 4000000"
definition scriptSlabSize :: nat where "scriptSlabSize = 2 ^ 22"

lemmas wire_limits =
  minTxInPayload_def maxTxInPerMessage_def MinTxOutPayload_def maxTxOutPerMessage_def
  maxWitnessItemsPerInput_def maxWitnessItemSize_def scriptSlabSize_def MaxMessagePayload_def

subsection \<open>Writing\<close>

definition writeOutPointBuf :: "OutPoint \<Rightarrow> bytes" where
  "writeOutPointBuf op = out_Hash op @ le_bytes 4 (int (out_Index op))"

definition writeTxInBuf :: "TxIn \<Rightarrow> bytes" where
  "writeTxInBuf ti =
     writeOutPointBuf (ti_PreviousOutPoint ti) @ WriteVarBytesBuf (ti_SignatureScript ti) @
     le_bytes 4 (int (ti_Sequence ti))"

definition WriteTxOutBuf :: "TxOut \<Rightarrow> bytes" where
  "WriteTxOutBuf to = le_bytes 8 (to_Value to) @ WriteVarBytesBuf (to_PkScript to)"

definition writeTxWitnessBuf :: "bytes list \<Rightarrow> bytes" where
  "writeTxWitnessBuf wit = WriteVarIntBuf (length wit) @ concat (map WriteVarBytesBuf wit)"

definition HasWitness :: "MsgTx \<Rightarrow> bool" where
  "HasWitness msg \<longleftrightarrow> list_ex (\<lambda>txIn. ti_Witness txIn \<noteq> []) (tx_TxIn msg)"

definition prlEncode :: "MessageEncoding \<Rightarrow> MsgTx \<Rightarrow> bytes" where
  "prlEncode enc msg =
     (let doWitness = (enc = WitnessEncoding \<and> HasWitness msg)
      in le_bytes 4 (tx_Version msg) @
         (if doWitness then [0x00, 0x01] else []) @
         WriteVarIntBuf (length (tx_TxIn msg)) @ concat (map writeTxInBuf (tx_TxIn msg)) @
         WriteVarIntBuf (length (tx_TxOut msg)) @ concat (map WriteTxOutBuf (tx_TxOut msg)) @
         (if doWitness then concat (map (\<lambda>ti. writeTxWitnessBuf (ti_Witness ti)) (tx_TxIn msg)) else []) @
         le_bytes 4 (int (tx_LockTime msg)))"

definition Serialize :: "MsgTx \<Rightarrow> bytes" where
  "Serialize msg = prlEncode WitnessEncoding msg"

definition SerializeNoWitness :: "MsgTx \<Rightarrow> bytes" where
  "SerializeNoWitness msg = prlEncode BaseEncoding msg"

subsection \<open>Reading\<close>

definition readOutPointBuf :: "bytes \<Rightarrow> wire_error + (OutPoint \<times> bytes)" where
  "readOutPointBuf s =
     sbind (ReadFull 32 s) (\<lambda>(h, s).
       sbind (ReadFull 4 s) (\<lambda>(buf, s).
         Inr (\<lparr>out_Hash = h, out_Index = nat (le_val buf)\<rparr>, s)))"

definition readScriptBuf :: "nat \<Rightarrow> bytes \<Rightarrow> wire_error + (bytes \<times> bytes)" where
  "readScriptBuf slab s =
     sbind (ReadVarIntBuf s) (\<lambda>(count, s).
       if count > maxWitnessItemSize then Inl messageError
       else if count > slab then Inl messageError
       else ReadFull count s)"

definition readTxInBuf :: "nat \<Rightarrow> bytes \<Rightarrow> wire_error + (TxIn \<times> bytes)" where
  "readTxInBuf slab s =
     sbind (readOutPointBuf s) (\<lambda>(op, s).
       sbind (readScriptBuf slab s) (\<lambda>(script, s).
         sbind (ReadFull 4 s) (\<lambda>(buf, s).
           Inr (\<lparr>ti_PreviousOutPoint = op, ti_SignatureScript = script, ti_Witness = [],
                 ti_Sequence = nat (le_val buf)\<rparr>, s))))"

definition readTxOutBuf :: "nat \<Rightarrow> bytes \<Rightarrow> wire_error + (TxOut \<times> bytes)" where
  "readTxOutBuf slab s =
     sbind (ReadFull 8 s) (\<lambda>(buf, s).
       sbind (readScriptBuf slab s) (\<lambda>(script, s).
         Inr (\<lparr>to_Value = int64_of (le_val buf), to_PkScript = script\<rparr>, s)))"

definition ReadTxOut :: "bytes \<Rightarrow> wire_error + (TxOut \<times> bytes)" where
  "ReadTxOut s = readTxOutBuf scriptSlabSize s"

text \<open>The witness of one input: the count and the loop over its items.\<close>

definition readTxWitness :: "nat \<Rightarrow> bytes \<Rightarrow> wire_error + (bytes list \<times> bytes)" where
  "readTxWitness slab s =
     sbind (ReadVarIntBuf s) (\<lambda>(witCount, s).
       if witCount > maxWitnessItemsPerInput then Inl messageError
       else sbind (read_loop readScriptBuf length witCount slab s) (\<lambda>(wit, _, s). Inr (wit, s)))"

text \<open>The loop over the inputs that attaches their witnesses.\<close>

fun readWitnesses :: "TxIn list \<Rightarrow> nat \<Rightarrow> bytes \<Rightarrow> wire_error + (TxIn list \<times> bytes)" where
  "readWitnesses [] slab s = Inr ([], s)"
| "readWitnesses (ti # tis) slab s =
     sbind (readTxWitness slab s) (\<lambda>(wit, s).
       sbind (readWitnesses tis (slab - sum_list (map length wit)) s) (\<lambda>(tis, s).
         Inr (ti\<lparr>ti_Witness := wit\<rparr> # tis, s)))"

text \<open>The number of inputs, preceded by the marker and the flag when there is witness data.\<close>

definition readInputCount :: "MessageEncoding \<Rightarrow> bytes \<Rightarrow> wire_error + (byte \<times> nat \<times> bytes)" where
  "readInputCount enc s =
     sbind (ReadVarIntBuf s) (\<lambda>(count, s).
       if count = 0 \<and> enc = WitnessEncoding then
         sbind (ReadFull 1 s) (\<lambda>(flag, s).
           if flag ! 0 \<noteq> 0x01 then Inl messageError
           else sbind (ReadVarIntBuf s) (\<lambda>(count, s). Inr (flag ! 0, count, s)))
       else Inr (0, count, s))"

text \<open>The witness data, which a transaction with the flag must have.\<close>

definition readWitnessData ::
  "MessageEncoding \<Rightarrow> byte \<Rightarrow> TxIn list \<Rightarrow> nat \<Rightarrow> bytes \<Rightarrow> wire_error + (TxIn list \<times> bytes)" where
  "readWitnessData enc flag txIns slab s =
     (if flag \<noteq> 0 \<and> enc = WitnessEncoding then
        sbind (readWitnesses txIns slab s) (\<lambda>(txIns, s).
          if \<not> list_ex (\<lambda>ti. ti_Witness ti \<noteq> []) txIns then Inl errSuperfluousWitnessRecord
          else Inr (txIns, s))
      else Inr (txIns, s))"

definition prlDecode :: "MessageEncoding \<Rightarrow> bytes \<Rightarrow> wire_error + (MsgTx \<times> bytes)" where
  "prlDecode enc s =
     sbind (ReadFull 4 s) (\<lambda>(vbuf, s).
       sbind (readInputCount enc s) (\<lambda>(flag, count, s).
         if count > maxTxInPerMessage then Inl messageError
         else
           sbind (read_loop readTxInBuf (\<lambda>ti. length (ti_SignatureScript ti)) count scriptSlabSize s)
             (\<lambda>(txIns, slab, s).
               sbind (ReadVarIntBuf s) (\<lambda>(count, s).
                 if count > maxTxOutPerMessage then Inl messageError
                 else
                   sbind (read_loop readTxOutBuf (\<lambda>to. length (to_PkScript to)) count slab s)
                     (\<lambda>(txOuts, slab, s).
                       sbind (readWitnessData enc flag txIns slab s) (\<lambda>(txIns, s).
                         sbind (ReadFull 4 s) (\<lambda>(lbuf, s).
                           Inr (\<lparr>tx_Version = int32_of (le_val vbuf), tx_TxIn = txIns, tx_TxOut = txOuts,
                                 tx_LockTime = nat (le_val lbuf)\<rparr>, s))))))))"

subsection \<open>Sizes\<close>

definition TxIn_SerializeSize :: "TxIn \<Rightarrow> nat" where
  "TxIn_SerializeSize t =
     40 + VarIntSerializeSize (length (ti_SignatureScript t)) + length (ti_SignatureScript t)"

definition TxOut_SerializeSize :: "TxOut \<Rightarrow> nat" where
  "TxOut_SerializeSize t = 8 + VarIntSerializeSize (length (to_PkScript t)) + length (to_PkScript t)"

definition TxWitness_SerializeSize :: "bytes list \<Rightarrow> nat" where
  "TxWitness_SerializeSize t =
     VarIntSerializeSize (length t) +
     sum_list (map (\<lambda>witItem. VarIntSerializeSize (length witItem) + length witItem) t)"

definition baseSize :: "MsgTx \<Rightarrow> nat" where
  "baseSize msg =
     8 + VarIntSerializeSize (length (tx_TxIn msg)) + VarIntSerializeSize (length (tx_TxOut msg)) +
     sum_list (map TxIn_SerializeSize (tx_TxIn msg)) + sum_list (map TxOut_SerializeSize (tx_TxOut msg))"

definition SerializeSize :: "MsgTx \<Rightarrow> nat" where
  "SerializeSize msg =
     (if HasWitness msg
      then baseSize msg + 2 + sum_list (map (\<lambda>ti. TxWitness_SerializeSize (ti_Witness ti)) (tx_TxIn msg))
      else baseSize msg)"

definition SerializeSizeStripped :: "MsgTx \<Rightarrow> nat" where
  "SerializeSizeStripped msg = baseSize msg"

text \<open>The transaction and witness hash, over the double SHA-256 of the caller.\<close>

definition TxHash :: "(bytes \<Rightarrow> hash) \<Rightarrow> MsgTx \<Rightarrow> hash" where
  "TxHash doubleHash msg = doubleHash (SerializeNoWitness msg)"

definition WitnessHash :: "(bytes \<Rightarrow> hash) \<Rightarrow> MsgTx \<Rightarrow> hash" where
  "WitnessHash doubleHash msg =
     (if HasWitness msg then doubleHash (Serialize msg) else TxHash doubleHash msg)"

subsection \<open>Block headers\<close>

record BlockHeader =
  bh_Version :: int
  bh_PrevBlock :: hash
  bh_MerkleRoot :: hash
  bh_Timestamp :: int
  bh_Bits :: nat
  bh_ProofCommitment :: hash

definition MaxBlockHeaderPayload :: nat where "MaxBlockHeaderPayload = 12 + 32 * 3"

definition readBlockHeaderBuf :: "bytes \<Rightarrow> wire_error + (BlockHeader \<times> bytes)" where
  "readBlockHeaderBuf s =
     sbind (ReadFull 4 s) (\<lambda>(version, s).
       sbind (ReadFull 32 s) (\<lambda>(prev, s).
         sbind (ReadFull 32 s) (\<lambda>(root, s).
           sbind (ReadFull 4 s) (\<lambda>(time, s).
             sbind (ReadFull 4 s) (\<lambda>(bits, s).
               sbind (ReadFull 32 s) (\<lambda>(commitment, s).
                 Inr (\<lparr>bh_Version = int32_of (le_val version), bh_PrevBlock = prev, bh_MerkleRoot = root,
                       bh_Timestamp = le_val time, bh_Bits = nat (le_val bits),
                       bh_ProofCommitment = commitment\<rparr>, s)))))))"

definition writeBlockHeaderBuf :: "BlockHeader \<Rightarrow> bytes" where
  "writeBlockHeaderBuf bh =
     le_bytes 4 (bh_Version bh) @ bh_PrevBlock bh @ bh_MerkleRoot bh @
     le_bytes 4 (bh_Timestamp bh) @ le_bytes 4 (int (bh_Bits bh)) @ bh_ProofCommitment bh"

definition BlockHash :: "(bytes \<Rightarrow> hash) \<Rightarrow> BlockHeader \<Rightarrow> hash" where
  "BlockHash doubleHash h = doubleHash (writeBlockHeaderBuf h)"

subsection \<open>The contract of the formats\<close>

lemma budget_codec_iff: "(\<And>b s x r. dec b s = Inr (x, r) \<longleftrightarrow> s = enc x @ r \<and> ok x \<and> c x \<le> b) \<Longrightarrow> budget_codec enc dec c ok"
  by unfold_locales simp_all

definition outpoint_ok :: "OutPoint \<Rightarrow> bool" where
  "outpoint_ok op \<longleftrightarrow> length (out_Hash op) = 32 \<and> out_Index op < 2 ^ 32"

lemma readOutPoint_iff: "readOutPointBuf s = Inr (op, r) \<longleftrightarrow> s = writeOutPointBuf op @ r \<and> outpoint_ok op"
proof
  assume "readOutPointBuf s = Inr (op, r)"
  then obtain h buf where "s = h @ buf @ r" "length h = 32" "length buf = 4" "op = \<lparr>out_Hash = h, out_Index = nat (le_val buf)\<rparr>"
    by (auto simp: readOutPointBuf_def sbind_eq_Inr ReadFull_eq_Inr)
  then show "s = writeOutPointBuf op @ r \<and> outpoint_ok op"
    using le_bytes_nat [of buf 4] nat_le_val_less [of buf 4] by (simp add: writeOutPointBuf_def outpoint_ok_def)
next
  assume "s = writeOutPointBuf op @ r \<and> outpoint_ok op"
  then show "readOutPointBuf s = Inr (op, r)"
    by (simp add: readOutPointBuf_def writeOutPointBuf_def outpoint_ok_def ReadFull_append nat_le_val_le_bytes)
qed

interpretation out_point: byte_codec writeOutPointBuf readOutPointBuf outpoint_ok
  by unfold_locales (simp_all add: readOutPoint_iff)

lemma readScript_iff:
  "readScriptBuf b s = Inr (x, r) \<longleftrightarrow> s = WriteVarBytesBuf x @ r \<and> length x \<le> maxWitnessItemSize \<and> length x \<le> b"
proof -
  have "readScriptBuf b s = ReadVarBytesBuf (min maxWitnessItemSize b) s"
    unfolding readScriptBuf_def ReadVarBytesBuf_def
    by (rule arg_cong [of _ _ "sbind (ReadVarIntBuf s)"]) (auto simp: min_less_iff_disj)
  then show ?thesis by (auto simp: ReadVarBytes_eq wire_limits)
qed

interpretation script: budget_codec WriteVarBytesBuf readScriptBuf length "\<lambda>x. length x \<le> maxWitnessItemSize"
  by (rule budget_codec_iff) (simp add: readScript_iff)

definition txin_ok :: "TxIn \<Rightarrow> bool" where
  "txin_ok ti \<longleftrightarrow> outpoint_ok (ti_PreviousOutPoint ti) \<and> length (ti_SignatureScript ti) \<le> maxWitnessItemSize \<and>
     ti_Sequence ti < 2 ^ 32 \<and> ti_Witness ti = []"

lemma readTxIn_iff:
  "readTxInBuf b s = Inr (ti, r) \<longleftrightarrow> s = writeTxInBuf ti @ r \<and> txin_ok ti \<and> length (ti_SignatureScript ti) \<le> b"
proof
  assume "readTxInBuf b s = Inr (ti, r)"
  then obtain op sc buf where "s = writeOutPointBuf op @ WriteVarBytesBuf sc @ buf @ r" "outpoint_ok op" "length sc \<le> maxWitnessItemSize"
    "length sc \<le> b" "length buf = 4" 
    "ti = \<lparr>ti_PreviousOutPoint = op, ti_SignatureScript = sc, ti_Witness = [], ti_Sequence = nat (le_val buf)\<rparr>"
    by (auto simp: readTxInBuf_def sbind_eq_Inr ReadFull_eq_Inr readOutPoint_iff readScript_iff)
  then show "s = writeTxInBuf ti @ r \<and> txin_ok ti \<and> length (ti_SignatureScript ti) \<le> b"
    using le_bytes_nat [of buf 4] nat_le_val_less [of buf 4] by (simp add: writeTxInBuf_def txin_ok_def)
next
  assume a: "s = writeTxInBuf ti @ r \<and> txin_ok ti \<and> length (ti_SignatureScript ti) \<le> b"
  then show "readTxInBuf b s = Inr (ti, r)"
    by (cases ti) (simp add: readTxInBuf_def writeTxInBuf_def txin_ok_def out_point.dec_enc script.bdec_enc ReadFull_append nat_le_val_le_bytes)
qed

interpretation tx_in: budget_codec writeTxInBuf readTxInBuf "\<lambda>ti. length (ti_SignatureScript ti)" txin_ok
  by (rule budget_codec_iff) (simp add: readTxIn_iff)

definition txout_ok :: "TxOut \<Rightarrow> bool" where
  "txout_ok to \<longleftrightarrow> - (2 ^ 63) \<le> to_Value to \<and> to_Value to < 2 ^ 63 \<and> length (to_PkScript to) \<le> maxWitnessItemSize"

lemma readTxOut_iff:
  "readTxOutBuf b s = Inr (to, r) \<longleftrightarrow> s = WriteTxOutBuf to @ r \<and> txout_ok to \<and> length (to_PkScript to) \<le> b"
proof
  assume "readTxOutBuf b s = Inr (to, r)"
  then obtain buf sc where "s = buf @ WriteVarBytesBuf sc @ r" "length sc \<le> maxWitnessItemSize"
    "length sc \<le> b" "length buf = 8" "to = \<lparr>to_Value = int64_of (le_val buf), to_PkScript = sc\<rparr>"
    by (auto simp: readTxOutBuf_def sbind_eq_Inr ReadFull_eq_Inr readScript_iff)
  then show "s = WriteTxOutBuf to @ r \<and> txout_ok to \<and> length (to_PkScript to) \<le> b"
    using le_bytes_int64 [of buf] int64_of_range [of "le_val buf"] by (simp add: WriteTxOutBuf_def txout_ok_def)
next
  assume "s = WriteTxOutBuf to @ r \<and> txout_ok to \<and> length (to_PkScript to) \<le> b"
  then show "readTxOutBuf b s = Inr (to, r)"
    by (cases to) (simp add: readTxOutBuf_def WriteTxOutBuf_def txout_ok_def script.bdec_enc ReadFull_append int64_of_le_bytes)
qed

interpretation tx_out: budget_codec WriteTxOutBuf readTxOutBuf "\<lambda>to. length (to_PkScript to)" txout_ok
  by (rule budget_codec_iff) (simp add: readTxOut_iff)

definition witness_ok :: "bytes list \<Rightarrow> bool" where
  "witness_ok wit \<longleftrightarrow> length wit \<le> maxWitnessItemsPerInput \<and> list_all (\<lambda>x. length x \<le> maxWitnessItemSize) wit"

lemma readTxWitness_iff:
  "readTxWitness b s = Inr (wit, r) \<longleftrightarrow> s = writeTxWitnessBuf wit @ r \<and> witness_ok wit \<and> sum_list (map length wit) \<le> b"
proof
  assume "readTxWitness b s = Inr (wit, r)"
  then obtain n q b' where "ReadVarIntBuf s = Inr (n, q)" "n \<le> maxWitnessItemsPerInput" "read_loop readScriptBuf length n b q = Inr (wit, b', r)"
    by (auto simp: readTxWitness_def sbind_eq_Inr split: if_splits)
  then show "s = writeTxWitnessBuf wit @ r \<and> witness_ok wit \<and> sum_list (map length wit) \<le> b"
    using script.read_loop_dec by (fastforce simp: var_int.dec_iff writeTxWitnessBuf_def witness_ok_def)
next
  assume a: "s = writeTxWitnessBuf wit @ r \<and> witness_ok wit \<and> sum_list (map length wit) \<le> b"
  then have "length wit < 2 ^ 64" by (simp add: witness_ok_def wire_limits)
  then show "readTxWitness b s = Inr (wit, r)"
    using a by (simp add: readTxWitness_def writeTxWitnessBuf_def witness_ok_def var_int.dec_enc script.read_loop_enc)
qed

interpretation tx_witness: budget_codec writeTxWitnessBuf readTxWitness "\<lambda>wit. sum_list (map length wit)" witness_ok
  by (rule budget_codec_iff) (simp add: readTxWitness_iff)

definition strip :: "TxIn \<Rightarrow> TxIn" where
  "strip ti = ti\<lparr>ti_Witness := []\<rparr>"

lemma writeTxIn_witness [simp]: "writeTxInBuf (ti\<lparr>ti_Witness := w\<rparr>) = writeTxInBuf ti"
  by (simp add: writeTxInBuf_def)

definition witness_cost :: "TxIn list \<Rightarrow> nat" where
  "witness_cost tis = sum_list (map (\<lambda>ti. sum_list (map length (ti_Witness ti))) tis)"

definition write_witnesses :: "TxIn list \<Rightarrow> bytes" where
  "write_witnesses tis = concat (map (\<lambda>ti. writeTxWitnessBuf (ti_Witness ti)) tis)"

lemma readWitnesses_enc:
  "list_all (\<lambda>ti. witness_ok (ti_Witness ti)) tis \<Longrightarrow> witness_cost tis \<le> b \<Longrightarrow>
     readWitnesses (map strip tis) b (write_witnesses tis @ r) = Inr (tis, r)"
  by (induction tis arbitrary: b) (simp_all add: witness_cost_def write_witnesses_def tx_witness.bdec_enc strip_def)

lemma readWitnesses_dec:
  "readWitnesses tis b s = Inr (tis', r) \<Longrightarrow> list_all (\<lambda>ti. ti_Witness ti = []) tis \<Longrightarrow>
     s = write_witnesses tis' @ r \<and> tis = map strip tis' \<and> list_all (\<lambda>ti. witness_ok (ti_Witness ti)) tis' \<and>
     witness_cost tis' \<le> b"
proof (induction tis arbitrary: b s tis')
  case Nil
  then show ?case by (simp add: write_witnesses_def witness_cost_def)
next
  case (Cons ti tis)
  then obtain wit q ys where *: "readTxWitness b s = Inr (wit, q)"
    "readWitnesses tis (b - sum_list (map length wit)) q = Inr (ys, r)" "tis' = ti\<lparr>ti_Witness := wit\<rparr> # ys"
    by (auto simp: sbind_eq_Inr)
  have "strip (ti\<lparr>ti_Witness := wit\<rparr>) = ti" using Cons.prems(2) by (cases ti) (simp add: strip_def)
  with * Cons.IH [OF *(2)] Cons.prems(2) show ?case
    by (auto simp: readTxWitness_iff write_witnesses_def witness_cost_def)
qed

definition txins_ok :: "TxIn list \<Rightarrow> bool" where
  "txins_ok tis \<longleftrightarrow> list_all (\<lambda>ti. txin_ok (strip ti) \<and> witness_ok (ti_Witness ti)) tis"

text \<open>The transactions that fit the limits of the decoder.\<close>

definition tx_ok :: "MsgTx \<Rightarrow> bool" where
  "tx_ok tx \<longleftrightarrow>
     - (2 ^ 31) \<le> tx_Version tx \<and> tx_Version tx < 2 ^ 31 \<and> tx_LockTime tx < 2 ^ 32 \<and>
     length (tx_TxIn tx) \<le> maxTxInPerMessage \<and> length (tx_TxOut tx) \<le> maxTxOutPerMessage \<and>
     txins_ok (tx_TxIn tx) \<and> list_all txout_ok (tx_TxOut tx) \<and>
     sum_list (map (\<lambda>ti. length (ti_SignatureScript ti)) (tx_TxIn tx)) +
       sum_list (map (\<lambda>to. length (to_PkScript to)) (tx_TxOut tx)) + witness_cost (tx_TxIn tx) \<le> scriptSlabSize"

lemma count_64: "length (tx_TxIn tx) \<le> maxTxInPerMessage \<Longrightarrow> length (tx_TxIn tx) < 2 ^ 64"
  "length (tx_TxOut tx) \<le> maxTxOutPerMessage \<Longrightarrow> length (tx_TxOut tx) < 2 ^ 64"
  by (simp_all add: wire_limits)

lemma read_ins:
  assumes "txins_ok tis" "sum_list (map (\<lambda>ti. length (ti_SignatureScript ti)) tis) \<le> b"
  shows "read_loop readTxInBuf (\<lambda>ti. length (ti_SignatureScript ti)) (length tis) b (concat (map writeTxInBuf tis) @ r) =
    Inr (map strip tis, b - sum_list (map (\<lambda>ti. length (ti_SignatureScript ti)) tis), r)"
  using tx_in.read_loop_enc [of "map strip tis" b r] assms
  by (simp add: txins_ok_def list_all_iff o_def strip_def)

lemma read_wits:
  "txins_ok tis \<Longrightarrow> witness_cost tis \<le> b \<Longrightarrow>
     readWitnesses (map strip tis) b (concat (map (\<lambda>ti. writeTxWitnessBuf (ti_Witness ti)) tis) @ r) = Inr (tis, r)"
  using readWitnesses_enc [of tis b r] by (simp add: txins_ok_def write_witnesses_def list_all_iff)

lemma map_strip_id: "list_all (\<lambda>ti. ti_Witness ti = []) tis \<Longrightarrow> map strip tis = tis"
  by (induction tis) (simp_all add: strip_def)

lemma readInputCount_iff:
  "readInputCount WitnessEncoding s = Inr (flag, n, r) \<longleftrightarrow> n < 2 ^ 64 \<and>
     (flag = 0 \<and> n \<noteq> 0 \<and> s = WriteVarIntBuf n @ r \<or> flag = 1 \<and> s = [0x00, 0x01] @ WriteVarIntBuf n @ r)"
  (is "?L \<longleftrightarrow> ?R")
proof
  assume ?L
  then obtain c q where c: "ReadVarIntBuf s = Inr (c, q)"
    "c \<noteq> 0 \<and> flag = 0 \<and> n = c \<and> r = q \<or>
     c = 0 \<and> (\<exists>x q'. ReadFull 1 q = Inr (x, q') \<and> x ! 0 = 1 \<and> ReadVarIntBuf q' = Inr (n, r) \<and> flag = 1)"
    by (auto simp: readInputCount_def sbind_eq_Inr split: if_splits)
  then show ?R by (auto simp: var_int.dec_iff ReadFull_eq_Inr length_Suc_conv WriteVarIntBuf_def [of 0])
next
  have z: "ReadVarIntBuf (0x00 # q) = Inr (0, q)" for q
    by (simp add: ReadVarIntBuf_def ReadFull_1)
  assume ?R
  then show ?L by (auto simp: readInputCount_def z ReadFull_1 var_int.dec_enc)
qed

lemma tx_decode_encode:
  assumes ok: "tx_ok tx" and ins: "tx_TxIn tx \<noteq> []"
  shows "prlDecode WitnessEncoding (prlEncode WitnessEncoding tx @ r) = Inr (tx, r)"
proof -
  define si where "si = sum_list (map (\<lambda>ti. length (ti_SignatureScript ti)) (tx_TxIn tx))"
  define so where "so = sum_list (map (\<lambda>to. length (to_PkScript to)) (tx_TxOut tx))"
  have b: "si \<le> scriptSlabSize" "so \<le> scriptSlabSize - si" "witness_cost (tx_TxIn tx) \<le> scriptSlabSize - si - so"
  proof -
    have "si + so + witness_cost (tx_TxIn tx) \<le> scriptSlabSize" using ok by (simp add: tx_ok_def si_def so_def)
    then show "si \<le> scriptSlabSize" "so \<le> scriptSlabSize - si" "witness_cost (tx_TxIn tx) \<le> scriptSlabSize - si - so"
      by linarith+
  qed
  have k: "txins_ok (tx_TxIn tx)" "list_all txout_ok (tx_TxOut tx)" "length (tx_TxIn tx) \<le> maxTxInPerMessage"
    "length (tx_TxOut tx) \<le> maxTxOutPerMessage" "int32_of (le_val (le_bytes 4 (tx_Version tx))) = tx_Version tx"
    "nat (le_val (le_bytes 4 (int (tx_LockTime tx)))) = tx_LockTime tx"
    using ok by (simp_all add: tx_ok_def int32_of_le_bytes nat_le_val_le_bytes)
  have ni: "length (tx_TxIn tx) \<noteq> 0" using ins by simp
  define fl :: byte where "fl = (if HasWitness tx then 1 else 0)"
  define mk :: bytes where "mk = (if HasWitness tx then [0x00, 0x01] else [])"
  define ws where "ws = (if HasWitness tx then concat (map (\<lambda>ti. writeTxWitnessBuf (ti_Witness ti)) (tx_TxIn tx)) else [])"
  have cnt: "readInputCount WitnessEncoding (mk @ WriteVarIntBuf (length (tx_TxIn tx)) @ q) = Inr (fl, length (tx_TxIn tx), q)" for q
    using count_64(1) [OF k(3)] ni by (simp add: readInputCount_iff fl_def mk_def)
  have wit: "readWitnessData WitnessEncoding fl (map strip (tx_TxIn tx)) (scriptSlabSize - (si + so)) (ws @ q) =
      Inr (tx_TxIn tx, q)" for q
    using k(1) b(3) map_strip_id [of "tx_TxIn tx"]
    by (auto simp: readWitnessData_def read_wits fl_def ws_def HasWitness_def list_all_iff list_ex_iff)
  have "prlEncode WitnessEncoding tx = le_bytes 4 (tx_Version tx) @ mk @ WriteVarIntBuf (length (tx_TxIn tx)) @
      concat (map writeTxInBuf (tx_TxIn tx)) @ WriteVarIntBuf (length (tx_TxOut tx)) @
      concat (map WriteTxOutBuf (tx_TxOut tx)) @ ws @ le_bytes 4 (int (tx_LockTime tx))"
    by (simp add: prlEncode_def Let_def mk_def ws_def)
  then show ?thesis
    using k b ni count_64 [of tx]
    by (simp add: prlDecode_def cnt wit read_ins si_def [symmetric] so_def [symmetric]
         tx_out.read_loop_enc var_int.dec_enc ReadFull_append del: map_map)
qed

lemma read_ins_dec:
  assumes "read_loop readTxInBuf (\<lambda>ti. length (ti_SignatureScript ti)) n b s = Inr (tis, b', r)"
  shows "s = concat (map writeTxInBuf tis) @ r \<and> length tis = n \<and>
    b = b' + sum_list (map (\<lambda>ti. length (ti_SignatureScript ti)) tis) \<and>
    list_all (\<lambda>ti. ti_Witness ti = []) tis \<and> txins_ok tis"
proof -
  have "witness_ok []" by (simp add: witness_ok_def)
  moreover have "strip ti = ti" if "ti_Witness ti = []" for ti using that by (cases ti) (simp add: strip_def)
  ultimately show ?thesis using tx_in.read_loop_dec [OF assms] by (auto simp: txins_ok_def list_all_iff txin_ok_def)
qed

lemma strip_facts:
  "concat (map writeTxInBuf (map strip tis)) = concat (map writeTxInBuf tis)"
  "map (\<lambda>ti. length (ti_SignatureScript ti)) (map strip tis) = map (\<lambda>ti. length (ti_SignatureScript ti)) tis"
  "txins_ok (map strip tis) \<Longrightarrow> list_all (\<lambda>ti. witness_ok (ti_Witness ti)) tis \<Longrightarrow> txins_ok tis"
  by (simp_all add: comp_def strip_def txins_ok_def list_all_iff)

lemma tx_encode_decode:
  assumes "prlDecode WitnessEncoding s = Inr (tx, r)"
  shows "s = prlEncode WitnessEncoding tx @ r \<and> tx_ok tx \<and> tx_TxIn tx \<noteq> []"
proof -
  obtain vbuf s1 flag n s2 ins slab s3 m s4 outs slab' s5 ins' s6 lbuf where d:
    "ReadFull 4 s = Inr (vbuf, s1)" "readInputCount WitnessEncoding s1 = Inr (flag, n, s2)" "n \<le> maxTxInPerMessage"
    "read_loop readTxInBuf (\<lambda>ti. length (ti_SignatureScript ti)) n scriptSlabSize s2 = Inr (ins, slab, s3)"
    "ReadVarIntBuf s3 = Inr (m, s4)" "m \<le> maxTxOutPerMessage"
    "read_loop readTxOutBuf (\<lambda>to. length (to_PkScript to)) m slab s4 = Inr (outs, slab', s5)"
    "readWitnessData WitnessEncoding flag ins slab' s5 = Inr (ins', s6)" "ReadFull 4 s6 = Inr (lbuf, r)"
    "tx = \<lparr>tx_Version = int32_of (le_val vbuf), tx_TxIn = ins', tx_TxOut = outs, tx_LockTime = nat (le_val lbuf)\<rparr>"
    using assms by (auto simp: prlDecode_def sbind_eq_Inr not_less split: if_splits)
  note i = read_ins_dec [OF d(4)]
  note o = tx_out.read_loop_dec [OF d(7)]
  have v: "vbuf = le_bytes 4 (tx_Version tx)" "lbuf = le_bytes 4 (int (tx_LockTime tx))"
    using d(1,9,10) le_bytes_int32 [of vbuf] le_bytes_nat [of lbuf 4] by (simp_all add: ReadFull_eq_Inr)
  have w: "HasWitness tx = (flag = 1) \<and> ins = map strip ins' \<and> txins_ok ins' \<and> witness_cost ins' \<le> slab' \<and>
     s5 = (if flag = 1 then write_witnesses ins' else []) @ s6"
  proof (cases "flag = 1")
    case True
    then show ?thesis using d(8,10) i readWitnesses_dec [of ins slab' s5 ins' s6] strip_facts(3) [of ins']
      by (auto simp: readWitnessData_def sbind_eq_Inr HasWitness_def split: if_splits)
  next
    case False
    then have "flag = 0" using d(2) by (auto simp: readInputCount_iff)
    then show ?thesis using d(8,10) i map_strip_id [of ins]
      by (auto simp: readWitnessData_def HasWitness_def list_all_iff list_ex_iff witness_cost_def cong: map_cong)
  qed
  have "concat (map writeTxInBuf ins) = concat (map writeTxInBuf ins')" "length ins = length ins'"
    "map (\<lambda>ti. length (ti_SignatureScript ti)) ins = map (\<lambda>ti. length (ti_SignatureScript ti)) ins'"
    using w strip_facts(1,2) by auto
  note eqs = this
  have cnt: "s1 = (if flag = 1 then [0x00, 0x01] else []) @ WriteVarIntBuf (length ins') @ s2" "n = length ins'"
    using d(2) i eqs(2) by (auto simp: readInputCount_iff)
  have sel: "tx_TxIn tx = ins'" "tx_TxOut tx = outs" using d(10) by simp_all
  have parts: "s = vbuf @ s1" "s2 = concat (map writeTxInBuf ins') @ s3" "s3 = WriteVarIntBuf (length outs) @ s4"
    "s4 = concat (map WriteTxOutBuf outs) @ s5" "s6 = lbuf @ r"
    using d(1,5,9) i o eqs(1) by (simp_all add: ReadFull_eq_Inr var_int.dec_iff)
  have "s = prlEncode WitnessEncoding tx @ r"
    using w unfolding parts(1) cnt(1) parts(2-4) parts(5) v
    by (simp add: prlEncode_def Let_def sel write_witnesses_def parts(5) v)
  moreover have "tx_ok tx"
  proof -
    have "sum_list (map (\<lambda>ti. length (ti_SignatureScript ti)) ins') +
       sum_list (map (\<lambda>to. length (to_PkScript to)) outs) + witness_cost ins' \<le> scriptSlabSize"
    proof -
      have "scriptSlabSize = slab + sum_list (map (\<lambda>ti. length (ti_SignatureScript ti)) ins')"
        using i unfolding eqs(3) by blast
      moreover have "slab = slab' + sum_list (map (\<lambda>to. length (to_PkScript to)) outs)" using o by blast
      moreover have "witness_cost ins' \<le> slab'" using w by blast
      ultimately show ?thesis by linarith
    qed
    moreover have "tx_LockTime tx < 2 ^ 32"
      using nat_le_val_less [of lbuf 4] d(9,10) by (simp add: ReadFull_eq_Inr)
    moreover have "- (2 ^ 31) \<le> tx_Version tx" "tx_Version tx < 2 ^ 31"
      using int32_of_range [of "le_val vbuf"] d(10) by simp_all
    moreover have "length ins' \<le> maxTxInPerMessage" "length outs \<le> maxTxOutPerMessage" "list_all txout_ok outs"
      using d(3,6) cnt(2) o by simp_all
    ultimately show ?thesis using w by (simp only: tx_ok_def sel simp_thms)
  qed
  moreover have "ins' \<noteq> []" using w d(2,10) cnt by (auto simp: readInputCount_iff HasWitness_def)
  ultimately show ?thesis using d(10) by simp
qed

interpretation msg_tx: byte_codec "prlEncode WitnessEncoding" "prlDecode WitnessEncoding"
    "\<lambda>tx. tx_ok tx \<and> tx_TxIn tx \<noteq> []"
  using tx_decode_encode tx_encode_decode by unfold_locales blast+

lemma length_WriteVarBytes: "length (WriteVarBytesBuf bs) = VarIntSerializeSize (length bs) + length bs"
  by (simp add: WriteVarBytesBuf_def length_WriteVarIntBuf)

lemma size_parts:
  "length (out_Hash (ti_PreviousOutPoint ti)) = 32 \<Longrightarrow> length (writeTxInBuf ti) = TxIn_SerializeSize ti"
  "length (WriteTxOutBuf to) = TxOut_SerializeSize to"
  "length (writeTxWitnessBuf wit) = TxWitness_SerializeSize wit"
  by (simp_all add: writeTxInBuf_def writeOutPointBuf_def TxIn_SerializeSize_def length_WriteVarBytes WriteTxOutBuf_def
     TxOut_SerializeSize_def writeTxWitnessBuf_def TxWitness_SerializeSize_def length_WriteVarIntBuf length_concat comp_def)

definition header_ok :: "BlockHeader \<Rightarrow> bool" where
  "header_ok bh \<longleftrightarrow> - (2 ^ 31) \<le> bh_Version bh \<and> bh_Version bh < 2 ^ 31 \<and> length (bh_PrevBlock bh) = 32 \<and>
     length (bh_MerkleRoot bh) = 32 \<and> 0 \<le> bh_Timestamp bh \<and> bh_Timestamp bh < 2 ^ 32 \<and> bh_Bits bh < 2 ^ 32 \<and>
     length (bh_ProofCommitment bh) = 32"

lemma header_encode_decode:
  assumes "readBlockHeaderBuf s = Inr (bh, r)"
  shows "s = writeBlockHeaderBuf bh @ r \<and> header_ok bh"
proof -
  obtain v p m t b c where parts: "s = v @ p @ m @ t @ b @ c @ r" "length v = 4" "length p = 32" "length m = 32"
    "length t = 4" "length b = 4" "length c = 32"
    "bh = \<lparr>bh_Version = int32_of (le_val v), bh_PrevBlock = p, bh_MerkleRoot = m,
           bh_Timestamp = le_val t, bh_Bits = nat (le_val b), bh_ProofCommitment = c\<rparr>"
    using assms by (auto simp: readBlockHeaderBuf_def sbind_eq_Inr ReadFull_eq_Inr)
  then show ?thesis
    using le_bytes_int32 [of v] le_bytes_le_val [of t] le_bytes_nat [of b 4] int32_of_range [of "le_val v"]
      le_val_less [of t] nat_le_val_less [of b 4]
    by (simp add: writeBlockHeaderBuf_def header_ok_def)
qed

interpretation block_header: byte_codec writeBlockHeaderBuf readBlockHeaderBuf header_ok
proof unfold_locales
  fix bh r
  assume ok: "header_ok bh"
  then have "le_val (le_bytes 4 (bh_Timestamp bh)) = bh_Timestamp bh" by (simp add: le_val_le_bytes header_ok_def)
  then show "readBlockHeaderBuf (writeBlockHeaderBuf bh @ r) = Inr (bh, r)" using ok
    by (cases bh) (simp add: readBlockHeaderBuf_def writeBlockHeaderBuf_def header_ok_def ReadFull_append
          int32_of_le_bytes nat_le_val_le_bytes)
qed (rule header_encode_decode)

subsection \<open>Properties\<close>

text \<open>
  C17. The transaction format is not malleable: a transaction within the limits is read back from its
  serialization, whatever follows it, and the decoder accepts no other bytes for it.\<close>

theorem tx_serialization_canonical:
  "prlDecode WitnessEncoding s = Inr (tx, r) \<longleftrightarrow> s = Serialize tx @ r \<and> tx_ok tx \<and> tx_TxIn tx \<noteq> []"
  unfolding Serialize_def using msg_tx.dec_iff [of s tx r] by blast

text \<open>
  The size functions give the number of bytes written, with and without witness data.\<close>

lemma tx_serialized_size:
  assumes "\<forall>ti \<in> set (tx_TxIn tx). length (out_Hash (ti_PreviousOutPoint ti)) = 32"
  shows "length (Serialize tx) = SerializeSize tx \<and> length (SerializeNoWitness tx) = SerializeSizeStripped tx"
proof -
  have "sum_list (map (\<lambda>ti. length (writeTxInBuf ti)) (tx_TxIn tx)) = sum_list (map TxIn_SerializeSize (tx_TxIn tx))"
    using assms by (intro arg_cong [of _ _ sum_list] map_cong) (simp_all add: size_parts)
  then show ?thesis
    by (simp add: Serialize_def SerializeNoWitness_def SerializeSize_def SerializeSizeStripped_def baseSize_def
          prlEncode_def Let_def length_concat comp_def size_parts length_WriteVarIntBuf)
qed

lemma tx_serialized_size_example:
  "length (Serialize \<lparr>tx_Version = 1, tx_TxIn = [\<lparr>ti_PreviousOutPoint = \<lparr>out_Hash = replicate 32 0, out_Index = 0\<rparr>,
      ti_SignatureScript = [], ti_Witness = [[7]], ti_Sequence = 5\<rparr>], tx_TxOut = [], tx_LockTime = 0\<rparr>) = 56"
  using tx_serialized_size [of "\<lparr>tx_Version = 1, tx_TxIn = [\<lparr>ti_PreviousOutPoint = \<lparr>out_Hash = replicate 32 0, out_Index = 0\<rparr>,
      ti_SignatureScript = [], ti_Witness = [[7]], ti_Sequence = 5\<rparr>], tx_TxOut = [], tx_LockTime = 0\<rparr>"]
  by (simp add: SerializeSize_def baseSize_def HasWitness_def TxIn_SerializeSize_def TxWitness_SerializeSize_def VarIntSerializeSize_def)

text \<open>
  A block header is read back from its serialization and has no other one.\<close>

lemma header_serialization_canonical:
  "readBlockHeaderBuf s = Inr (bh, r) \<longleftrightarrow> s = writeBlockHeaderBuf bh @ r \<and> header_ok bh"
  by (rule block_header.dec_iff)

end
