(* ===== verification/Rand_Cache.thy ===== *)
theory Rand_Cache
  imports Prelude "HOL-Library.AList"
begin

text \<open>
  The cache with random eviction (\<^verbatim>\<open>node/txscript/randevictcache.go\<close>), a bounded map that
  drops an arbitrary entry when it is full. The map is an association list with distinct keys;
  the entry that Go's map iteration happens to visit first is chosen by a parameter \<open>pick\<close>, about
  which nothing is assumed. The locks only serialize the operations and are not modelled.

  The locale \<open>evicting_map\<close> is what the users of the cache rely on: an entry that is found was put
  under its key, an entry just put is found while the cache is not disabled, and the size is
  bounded. The signature cache and the hash cache use it through the interpretation at the end.
\<close>

record ('k, 'v) randEvictCache =
  re_entries :: "('k \<times> 'v) list"
  re_maxEntries :: nat

definition newRandEvictCache :: "nat \<Rightarrow> ('k, 'v) randEvictCache" where
  "newRandEvictCache maxEntries = \<lparr>re_entries = [], re_maxEntries = maxEntries\<rparr>"

definition re_get :: "('k, 'v) randEvictCache \<Rightarrow> 'k \<Rightarrow> 'v option" where
  "re_get c key = (if re_maxEntries c = 0 then None else map_of (re_entries c) key)"

definition re_contains :: "('k, 'v) randEvictCache \<Rightarrow> 'k \<Rightarrow> bool" where
  "re_contains c key = (if re_maxEntries c = 0 then False else map_of (re_entries c) key \<noteq> None)"

text \<open>Deleting one entry of the map; nothing happens when it is empty.\<close>

definition evict :: "(('k \<times> 'v) list \<Rightarrow> nat) \<Rightarrow> ('k \<times> 'v) list \<Rightarrow> ('k \<times> 'v) list" where
  "evict pick es = (if es = [] then [] else AList.delete (fst (es ! (pick es mod length es))) es)"

definition re_put ::
  "(('k \<times> 'v) list \<Rightarrow> nat) \<Rightarrow> ('k, 'v) randEvictCache \<Rightarrow> 'k \<Rightarrow> 'v \<Rightarrow> ('k, 'v) randEvictCache" where
  "re_put pick c key v =
     (if re_maxEntries c = 0 then c
      else
        let exists = map_of (re_entries c) key \<noteq> None;
            es = (if \<not> exists \<and> length (re_entries c) + 1 > re_maxEntries c
                  then evict pick (re_entries c) else re_entries c)
        in c\<lparr>re_entries := AList.update key v es\<rparr>)"

definition re_remove :: "('k, 'v) randEvictCache \<Rightarrow> 'k \<Rightarrow> ('k, 'v) randEvictCache" where
  "re_remove c key =
     (if re_maxEntries c = 0 then c else c\<lparr>re_entries := AList.delete key (re_entries c)\<rparr>)"

definition re_len :: "('k, 'v) randEvictCache \<Rightarrow> nat" where
  "re_len c = length (re_entries c)"

text \<open>The keys of the map are distinct, and there are at most \<open>maxEntries\<close> of them.\<close>

definition cache_ok :: "('k, 'v) randEvictCache \<Rightarrow> bool" where
  "cache_ok c \<longleftrightarrow> distinct (map fst (re_entries c)) \<and> length (re_entries c) \<le> re_maxEntries c"

subsection \<open>The interface\<close>

locale evicting_map =
  fixes get :: "'s \<Rightarrow> 'k \<Rightarrow> 'v option"
    and put :: "'s \<Rightarrow> 'k \<Rightarrow> 'v \<Rightarrow> 's"
    and remove :: "'s \<Rightarrow> 'k \<Rightarrow> 's"
    and count :: "'s \<Rightarrow> nat"
    and cap :: "'s \<Rightarrow> nat"
    and inv :: "'s \<Rightarrow> bool"
  assumes put_inv: "inv s \<Longrightarrow> inv (put s k v)"
    and remove_inv: "inv s \<Longrightarrow> inv (remove s k)"
    and put_cap: "cap (put s k v) = cap s"
    and remove_cap: "cap (remove s k) = cap s"
    and bounded: "inv s \<Longrightarrow> count s \<le> cap s"
    and get_put: "inv s \<Longrightarrow> get (put s k v) k' = Some w \<Longrightarrow> k' = k \<and> w = v \<or> k' \<noteq> k \<and> get s k' = Some w"
    and get_put_same: "inv s \<Longrightarrow> 0 < cap s \<Longrightarrow> get (put s k v) k = Some v"
    and get_remove: "inv s \<Longrightarrow> get (remove s k) k' = (if k' = k then None else get s k')"
begin

text \<open>A property of all entries survives a put of an entry that has it, and every removal.\<close>

lemma entries_put:
  assumes "inv s" "\<And>k w. get s k = Some w \<Longrightarrow> P k w" "P k v"
  shows "get (put s k v) k' = Some w \<Longrightarrow> P k' w"
  using get_put [OF assms(1)] assms(2,3) by blast

lemma entries_remove:
  assumes "inv s" "\<And>k w. get s k = Some w \<Longrightarrow> P k w"
  shows "get (remove s k) k' = Some w \<Longrightarrow> P k' w"
  using get_remove [OF assms(1)] assms(2) by (auto split: if_splits)

lemma put_bounded: "inv s \<Longrightarrow> count (put s k v) \<le> cap s"
  using bounded [OF put_inv] put_cap by metis

end

subsection \<open>The cache implements it\<close>

lemma length_delete:
  assumes "distinct (map fst es)"
  shows "length (AList.delete k es) = (if k \<in> fst ` set es then length es - 1 else length es)"
  using assms
proof (induction es)
  case (Cons e es)
  then show ?case by (cases "length es") (auto simp: AList.delete_eq length_filter_conv_card)
qed simp

lemma length_update:
  "length (AList.update k v es) = (if k \<in> fst ` set es then length es else length es + 1)"
  by (induction es) auto

lemma evict_ok: "distinct (map fst es) \<Longrightarrow> distinct (map fst (evict pick es))"
  by (simp add: evict_def AList.distinct_delete)

lemma evict_length:
  assumes "distinct (map fst es)" "es \<noteq> []"
  shows "length (evict pick es) = length es - 1"
proof -
  have "es ! (pick es mod length es) \<in> set es" using assms(2) by (simp add: nth_mem)
  then show ?thesis using assms length_delete [OF assms(1)] by (simp add: evict_def)
qed

lemma evict_entries: "map_of (evict pick es) k = Some v \<Longrightarrow> map_of es k = Some v"
  by (auto simp: evict_def AList.delete_conv split: if_splits)

lemma update_map_of: "map_of (AList.update k v es) k' = (if k' = k then Some v else map_of es k')"
  by (simp add: AList.update_conv)

lemma re_put_ok:
  assumes "cache_ok c"
  shows "cache_ok (re_put pick c k v)"
proof (cases "re_maxEntries c = 0")
  case True
  then show ?thesis using assms by (simp add: re_put_def)
next
  case False
  let ?es = "re_entries c"
  have ok: "distinct (map fst ?es)" "length ?es \<le> re_maxEntries c" using assms by (simp_all add: cache_ok_def)
  show ?thesis
  proof (cases "map_of ?es k = None \<and> length ?es + 1 > re_maxEntries c")
    case True
    then have "?es \<noteq> []" using False by auto
    then have "length (AList.update k v (evict pick ?es)) \<le> length ?es"
      using evict_length [OF ok(1)] length_update [of k v "evict pick ?es"] by (cases ?es) auto
    then show ?thesis using True False ok
      by (simp add: cache_ok_def re_put_def AList.distinct_update evict_ok)
  next
    case no: False
    then have "length (AList.update k v ?es) \<le> re_maxEntries c"
      using ok(2) length_update [of k v ?es] by (auto simp: map_of_eq_None_iff)
    then show ?thesis using no False ok by (auto simp: cache_ok_def re_put_def Let_def AList.distinct_update)
  qed
qed

lemma re_remove_ok: "cache_ok c \<Longrightarrow> cache_ok (re_remove c k)"
  using AList.length_delete_le [of k "re_entries c"]
  by (auto simp: cache_ok_def re_remove_def AList.distinct_delete)

lemma re_get_put:
  "re_get (re_put pick c k v) k' = Some w \<Longrightarrow> k' = k \<and> w = v \<or> k' \<noteq> k \<and> re_get c k' = Some w"
  by (auto simp: re_get_def re_put_def Let_def update_map_of dest: evict_entries split: if_splits)

lemma re_get_put_same: "0 < re_maxEntries c \<Longrightarrow> re_get (re_put pick c k v) k = Some v"
  by (simp add: re_get_def re_put_def Let_def update_map_of)

lemma re_get_remove: "re_get (re_remove c k) k' = (if k' = k then None else re_get c k')"
  by (simp add: re_get_def re_remove_def AList.delete_conv)

lemma re_caps: "re_maxEntries (re_put pick c k v) = re_maxEntries c" "re_maxEntries (re_remove c k) = re_maxEntries c"
  by (simp_all add: re_put_def re_remove_def Let_def)

interpretation rand_evict: evicting_map re_get "re_put pick" re_remove re_len re_maxEntries cache_ok for pick
  by unfold_locales
     (simp_all add: re_put_ok re_remove_ok re_get_put re_get_put_same re_get_remove re_caps,
      simp add: cache_ok_def re_len_def)

subsection \<open>Properties\<close>

text \<open>
  A put keeps the number of entries within the maximum and makes the entry found, unless the
  cache is disabled; every other entry that is found afterwards was found before. No assumption is
  made on which entry is evicted.\<close>

lemma cache_put_spec:
  assumes "cache_ok c"
  shows "cache_ok (re_put pick c k v) \<and> re_len (re_put pick c k v) \<le> re_maxEntries c \<and>
    re_get (re_put pick c k v) k = (if re_maxEntries c = 0 then None else Some v) \<and>
    (\<forall>k' w. k' \<noteq> k \<and> re_get (re_put pick c k v) k' = Some w \<longrightarrow> re_get c k' = Some w)"
proof (intro conjI)
  show "re_get (re_put pick c k v) k = (if re_maxEntries c = 0 then None else Some v)"
    using rand_evict.get_put_same [OF assms] by (simp add: re_get_def re_caps)
qed (use rand_evict.put_inv [OF assms] rand_evict.put_bounded [OF assms] rand_evict.get_put [OF assms] in blast)+

lemma cache_put_spec_example:
  "re_len (re_put (\<lambda>_. 3) \<lparr>re_entries = [(1 :: nat, True), (2, False)], re_maxEntries = 2\<rparr> 5 True) \<le> 2"
  using cache_put_spec [of "\<lparr>re_entries = [(1 :: nat, True), (2, False)], re_maxEntries = 2\<rparr>" "\<lambda>_. 3" 5 True]
  by (simp add: cache_ok_def)

end
