(* ===== verification/Script_Sighash.thy ===== *)
theory Script_Sighash
  imports Script_Standard Wire_Tx Rand_Cache
begin

text \<open>
  Signature hashes (\<^verbatim>\<open>node/txscript/sighash.go\<close>, \<^verbatim>\<open>hashcache.go\<close>,
  \<^verbatim>\<open>node/chaincfg/chainhash\<close>): the tagged hash, the precomputed parts of the message, the
  cache of these parts, and the message that a witness version 0, a taproot and a tapscript
  signature commits to. The cryptographic primitives are the fields of a \<open>crypto\<close> record, a
  parameter of every definition that uses them; \<open>crypto_ok\<close> states what the code relies on. A
  public key is represented by its 33-byte compressed serialization. The fetcher of previous
  outputs returns \<open>None\<close> for Go's nil, and dereferencing it is a panic.
\<close>

record crypto =
  c_sha256 :: "bytes \<Rightarrow> hash"
  c_ripemd160 :: "bytes \<Rightarrow> bytes"
  c_sha1 :: "bytes \<Rightarrow> bytes"
  c_ParsePubKey :: "bytes \<Rightarrow> bytes option"
  c_ParseSignature :: "bytes \<Rightarrow> bytes option"
  c_VerifySig :: "bytes \<Rightarrow> hash \<Rightarrow> bytes \<Rightarrow> bool"
  c_AddTweak :: "bytes \<Rightarrow> hash \<Rightarrow> bytes"
  c_VerifyXMSS :: "bytes \<Rightarrow> bytes \<Rightarrow> bytes \<Rightarrow> bool"

text \<open>SHA-256 has 32-byte digests, RIPEMD-160 and SHA-1 have 20-byte digests; a parsed x-only key serializes to the bytes it was parsed from;
  keys have 33 bytes.\<close>

definition crypto_ok :: "crypto \<Rightarrow> bool" where
  "crypto_ok C \<longleftrightarrow>
     (\<forall>b. length (c_sha256 C b) = 32) \<and>
     (\<forall>b. length (c_ripemd160 C b) = 20) \<and>
     (\<forall>b. length (c_sha1 C b) = 20) \<and>
     (\<forall>k p. c_ParsePubKey C k = Some p \<longrightarrow> length p = 33 \<and> tl p = k) \<and>
     (\<forall>p t. length (c_AddTweak C p t) = 33)"

subsection \<open>Hashes (\<^verbatim>\<open>chainhash\<close>)\<close>

definition zeroHash :: hash where "zeroHash = replicate 32 0"

definition HashB :: "crypto \<Rightarrow> bytes \<Rightarrow> hash" where "HashB C b = c_sha256 C b"
definition HashH :: "crypto \<Rightarrow> bytes \<Rightarrow> hash" where "HashH C b = c_sha256 C b"
definition DoubleHashB :: "crypto \<Rightarrow> bytes \<Rightarrow> hash" where "DoubleHashB C b = c_sha256 C (c_sha256 C b)"
definition DoubleHashRaw :: "crypto \<Rightarrow> bytes \<Rightarrow> hash" where "DoubleHashRaw C b = c_sha256 C (c_sha256 C b)"

definition ascii :: "string \<Rightarrow> bytes" where "ascii s = map of_char s"

definition TagTapSighash :: bytes where "TagTapSighash = ascii ''TapSighash''"
definition TagTapLeaf :: bytes where "TagTapLeaf = ascii ''TapLeaf''"
definition TagTapBranch :: bytes where "TagTapBranch = ascii ''TapBranch''"
definition TagTapTweak :: bytes where "TagTapTweak = ascii ''TapTweak''"

definition TaggedHash :: "crypto \<Rightarrow> bytes \<Rightarrow> bytes list \<Rightarrow> hash" where
  "TaggedHash C tag msgs =
     (let shaTag = c_sha256 C tag in c_sha256 C (shaTag @ shaTag @ concat msgs))"

lemma TaggedHash_length: "crypto_ok C \<Longrightarrow> length (TaggedHash C tag msgs) = 32"
  by (simp add: TaggedHash_def crypto_ok_def Let_def)

subsection \<open>Precomputed parts (\<^verbatim>\<open>hashcache.go\<close>)\<close>

type_synonym PrevOutputFetcher = "OutPoint \<Rightarrow> TxOut option"

text \<open>The two implementations: one output for every outpoint, and a map.\<close>

record CannedPrevOutputFetcher =
  cf_pkScript :: bytes
  cf_amt :: int

definition NewCannedPrevOutputFetcher :: "bytes \<Rightarrow> int \<Rightarrow> CannedPrevOutputFetcher" where
  "NewCannedPrevOutputFetcher script amt = \<lparr>cf_pkScript = script, cf_amt = amt\<rparr>"

definition Canned_FetchPrevOutput :: "CannedPrevOutputFetcher \<Rightarrow> PrevOutputFetcher" where
  "Canned_FetchPrevOutput c op = Some \<lparr>to_Value = cf_amt c, to_PkScript = cf_pkScript c\<rparr>"

record MultiPrevOutFetcher =
  mf_prevOuts :: "OutPoint \<rightharpoonup> TxOut"

definition NewMultiPrevOutFetcher :: "(OutPoint \<rightharpoonup> TxOut) option \<Rightarrow> MultiPrevOutFetcher" where
  "NewMultiPrevOutFetcher outs = \<lparr>mf_prevOuts = (case outs of None \<Rightarrow> Map.empty | Some f \<Rightarrow> f)\<rparr>"

definition Multi_FetchPrevOutput :: "MultiPrevOutFetcher \<Rightarrow> PrevOutputFetcher" where
  "Multi_FetchPrevOutput f op = mf_prevOuts f op"

definition AddPrevOut :: "MultiPrevOutFetcher \<Rightarrow> OutPoint \<Rightarrow> TxOut \<Rightarrow> MultiPrevOutFetcher" where
  "AddPrevOut f op txOut = f\<lparr>mf_prevOuts := (mf_prevOuts f)(op \<mapsto> txOut)\<rparr>"

definition Multi_Merge :: "MultiPrevOutFetcher \<Rightarrow> MultiPrevOutFetcher \<Rightarrow> MultiPrevOutFetcher" where
  "Multi_Merge f other = f\<lparr>mf_prevOuts := mf_prevOuts f ++ mf_prevOuts other\<rparr>"

definition calcHashPrevOuts :: "crypto \<Rightarrow> MsgTx \<Rightarrow> hash" where
  "calcHashPrevOuts C tx =
     HashH C (concat (map (\<lambda>txIn. out_Hash (ti_PreviousOutPoint txIn) @
                                  le_bytes 4 (int (out_Index (ti_PreviousOutPoint txIn)))) (tx_TxIn tx)))"

definition calcHashSequence :: "crypto \<Rightarrow> MsgTx \<Rightarrow> hash" where
  "calcHashSequence C tx =
     HashH C (concat (map (\<lambda>txIn. le_bytes 4 (int (ti_Sequence txIn))) (tx_TxIn tx)))"

definition calcHashOutputs :: "crypto \<Rightarrow> MsgTx \<Rightarrow> hash" where
  "calcHashOutputs C tx = HashH C (concat (map WriteTxOutBuf (tx_TxOut tx)))"

text \<open>The previous outputs of all inputs; a missing one is a nil dereference.\<close>

definition fetch :: "PrevOutputFetcher \<Rightarrow> OutPoint \<Rightarrow> go_error + TxOut" where
  "fetch inputFetcher op = (case inputFetcher op of None \<Rightarrow> Inl goPanic | Some prevOut \<Rightarrow> Inr prevOut)"

fun fetch_all :: "PrevOutputFetcher \<Rightarrow> TxIn list \<Rightarrow> go_error + TxOut list" where
  "fetch_all inputFetcher [] = Inr []"
| "fetch_all inputFetcher (txIn # txIns) =
     sbind (fetch inputFetcher (ti_PreviousOutPoint txIn)) (\<lambda>prevOut.
       sbind (fetch_all inputFetcher txIns) (\<lambda>prevOuts. Inr (prevOut # prevOuts)))"

definition calcHashInputAmounts :: "crypto \<Rightarrow> MsgTx \<Rightarrow> PrevOutputFetcher \<Rightarrow> go_error + hash" where
  "calcHashInputAmounts C tx inputFetcher =
     sbind (fetch_all inputFetcher (tx_TxIn tx)) (\<lambda>prevOuts.
       Inr (HashH C (concat (map (\<lambda>prevOut. le_bytes 8 (to_Value prevOut)) prevOuts))))"

definition calcHashInputScripts :: "crypto \<Rightarrow> MsgTx \<Rightarrow> PrevOutputFetcher \<Rightarrow> go_error + hash" where
  "calcHashInputScripts C tx inputFetcher =
     sbind (fetch_all inputFetcher (tx_TxIn tx)) (\<lambda>prevOuts.
       Inr (HashH C (concat (map (\<lambda>prevOut. WriteVarBytesBuf (to_PkScript prevOut)) prevOuts))))"

record TxSigHashes =
  HashPrevOutsV0 :: hash
  HashSequenceV0 :: hash
  HashOutputsV0 :: hash
  HashPrevOutsV1 :: hash
  HashSequenceV1 :: hash
  HashOutputsV1 :: hash
  HashInputScriptsV1 :: hash
  HashInputAmountsV1 :: hash

definition IsPayToTaproot :: "bytes \<Rightarrow> bool" where
  "IsPayToTaproot script = isWitnessTaprootScript script"

definition IsPayToMerkleRoot :: "bytes \<Rightarrow> bool" where
  "IsPayToMerkleRoot script = isWitnessMerkleRootScript script"

text \<open>The loop over the inputs that decides which parts are needed.\<close>

fun scanInputs :: "PrevOutputFetcher \<Rightarrow> TxIn list \<Rightarrow> bool \<Rightarrow> bool \<Rightarrow> go_error + (bool \<times> bool)" where
  "scanInputs inputFetcher [] hasV0Inputs hasV1Inputs = Inr (hasV0Inputs, hasV1Inputs)"
| "scanInputs inputFetcher (txIn # txIns) hasV0Inputs hasV1Inputs =
     (let outpoint = ti_PreviousOutPoint txIn
      in if out_Index outpoint = 0xffffffff \<and> out_Hash outpoint = zeroHash then
           scanInputs inputFetcher txIns True hasV1Inputs
         else
           sbind (fetch inputFetcher outpoint) (\<lambda>prevOut.
             let hasV1 = (if IsPayToTaproot (to_PkScript prevOut) then True else hasV1Inputs);
                 hasV0 = (if IsPayToTaproot (to_PkScript prevOut) then hasV0Inputs else True)
             in if hasV0 \<and> hasV1 then Inr (hasV0, hasV1)
                else scanInputs inputFetcher txIns hasV0 hasV1))"

definition NewTxSigHashes :: "crypto \<Rightarrow> MsgTx \<Rightarrow> PrevOutputFetcher \<Rightarrow> go_error + TxSigHashes" where
  "NewTxSigHashes C tx inputFetcher =
     sbind (scanInputs inputFetcher (tx_TxIn tx) False False) (\<lambda>(hasV0Inputs, hasV1Inputs).
       let prevOuts = calcHashPrevOuts C tx;
           sequence = calcHashSequence C tx;
           outputs = calcHashOutputs C tx;
           v0 = (\<lambda>h. if hasV0Inputs then HashH C h else zeroHash)
       in sbind (if hasV1Inputs then calcHashInputAmounts C tx inputFetcher else Inr zeroHash) (\<lambda>amounts.
            sbind (if hasV1Inputs then calcHashInputScripts C tx inputFetcher else Inr zeroHash) (\<lambda>scripts.
              Inr \<lparr>HashPrevOutsV0 = v0 prevOuts, HashSequenceV0 = v0 sequence, HashOutputsV0 = v0 outputs,
                   HashPrevOutsV1 = prevOuts, HashSequenceV1 = sequence, HashOutputsV1 = outputs,
                   HashInputScriptsV1 = scripts, HashInputAmountsV1 = amounts\<rparr>)))"

type_synonym HashCache = "(hash, TxSigHashes) randEvictCache"

definition NewHashCache :: "nat \<Rightarrow> HashCache" where
  "NewHashCache maxSize = newRandEvictCache maxSize"

definition LoadOrComputeSigHashes ::
  "crypto \<Rightarrow> ((hash \<times> TxSigHashes) list \<Rightarrow> nat) \<Rightarrow> HashCache \<Rightarrow> MsgTx \<Rightarrow> PrevOutputFetcher \<Rightarrow>
     go_error + (TxSigHashes \<times> HashCache)" where
  "LoadOrComputeSigHashes C pick h tx inputFetcher =
     (let txid = TxHash (DoubleHashRaw C) tx
      in case re_get h txid of
           Some sigHashes \<Rightarrow> Inr (sigHashes, h)
         | None \<Rightarrow>
             sbind (NewTxSigHashes C tx inputFetcher) (\<lambda>sigHashes.
               Inr (sigHashes, re_put pick h txid sigHashes)))"

definition PurgeSigHashes :: "HashCache \<Rightarrow> hash \<Rightarrow> HashCache" where
  "PurgeSigHashes h txid = re_remove h txid"

subsection \<open>The message (\<^verbatim>\<open>sighash.go\<close>)\<close>

type_synonym SigHashType = nat

definition SigHashDefault :: SigHashType where "SigHashDefault = 0x00"
definition SigHashAll :: SigHashType where "SigHashAll = 0x1"
definition SigHashNone :: SigHashType where "SigHashNone = 0x2"
definition SigHashSingle :: SigHashType where "SigHashSingle = 0x3"
definition SigHashAnyOneCanPay :: SigHashType where "SigHashAnyOneCanPay = 0x80"
definition sigHashMask :: nat where "sigHashMask = 0x1f"
definition blankCodeSepValue :: nat where "blankCodeSepValue = 2 ^ 32 - 1"

lemmas sighash_types =
  SigHashDefault_def SigHashAll_def SigHashNone_def SigHashSingle_def SigHashAnyOneCanPay_def
  sigHashMask_def

text \<open>The witness version 0 message.\<close>

definition calcWitnessSignatureHashRaw ::
  "crypto \<Rightarrow> bytes \<Rightarrow> TxSigHashes \<Rightarrow> SigHashType \<Rightarrow> MsgTx \<Rightarrow> int \<Rightarrow> int \<Rightarrow> go_error + hash" where
  "calcWitnessSignatureHashRaw C subScript sigHashes hashType tx idx amt =
     (if idx > int (length (tx_TxIn tx)) - 1 then Inl otherError
      else sbind (go_index (tx_TxIn tx) idx) (\<lambda>txIn.
        let msg =
          le_bytes 4 (tx_Version tx) @
          (if hashType AND SigHashAnyOneCanPay = 0 then HashPrevOutsV0 sigHashes else zeroHash) @
          (if hashType AND SigHashAnyOneCanPay = 0 \<and> hashType AND sigHashMask \<noteq> SigHashSingle \<and>
              hashType AND sigHashMask \<noteq> SigHashNone
           then HashSequenceV0 sigHashes else zeroHash) @
          out_Hash (ti_PreviousOutPoint txIn) @ le_bytes 4 (int (out_Index (ti_PreviousOutPoint txIn))) @
          WriteVarBytesBuf subScript @
          le_bytes 8 amt @ le_bytes 4 (int (ti_Sequence txIn)) @
          (if hashType AND sigHashMask \<noteq> SigHashSingle \<and> hashType AND sigHashMask \<noteq> SigHashNone
           then HashOutputsV0 sigHashes
           else if hashType AND sigHashMask = SigHashSingle \<and> idx < int (length (tx_TxOut tx))
           then DoubleHashRaw C (WriteTxOutBuf (tx_TxOut tx ! nat idx))
           else zeroHash) @
          le_bytes 4 (int (tx_LockTime tx)) @ le_bytes 4 (int hashType)
        in Inr (DoubleHashRaw C msg)))"

definition CalcWitnessSigHash ::
  "crypto \<Rightarrow> bytes \<Rightarrow> TxSigHashes \<Rightarrow> SigHashType \<Rightarrow> MsgTx \<Rightarrow> int \<Rightarrow> int \<Rightarrow> go_error + hash" where
  "CalcWitnessSigHash C script sigHashes hType tx idx amt =
     sbind (checkScriptParses 0 script) (\<lambda>_.
       calcWitnessSignatureHashRaw C script sigHashes hType tx idx amt)"

text \<open>The options of the taproot message.\<close>

record taprootSigHashOptions =
  extFlag :: nat
  annexHash :: "hash option"
  tapLeafHash :: bytes
  keyVersion :: byte
  codeSepPos :: nat

definition defaultTaprootSighashOptions :: taprootSigHashOptions where
  "defaultTaprootSighashOptions =
     \<lparr>extFlag = 0, annexHash = None, tapLeafHash = [], keyVersion = 0, codeSepPos = 0\<rparr>"

definition writeDigestExtensions :: "taprootSigHashOptions \<Rightarrow> bytes" where
  "writeDigestExtensions t =
     (if extFlag t = 1 then tapLeafHash t @ [keyVersion t] @ le_bytes 4 (int (codeSepPos t)) else [])"

type_synonym TaprootSigHashOption = "taprootSigHashOptions \<Rightarrow> taprootSigHashOptions"

definition WithAnnex :: "crypto \<Rightarrow> bytes \<Rightarrow> TaprootSigHashOption" where
  "WithAnnex C annex o' = o'\<lparr>annexHash := Some (HashB C (WriteVarBytesBuf annex))\<rparr>"

definition WithBaseTapscriptVersion :: "nat \<Rightarrow> bytes \<Rightarrow> TaprootSigHashOption" where
  "WithBaseTapscriptVersion pos leafHash o' =
     o'\<lparr>extFlag := 1, tapLeafHash := leafHash, keyVersion := 0, codeSepPos := pos\<rparr>"

definition isValidTaprootSigHash :: "SigHashType \<Rightarrow> bool" where
  "isValidTaprootSigHash hashType \<longleftrightarrow>
     hashType = SigHashDefault \<or> hashType = SigHashAll \<or> hashType = SigHashNone \<or>
     hashType = SigHashSingle \<or> hashType = 0x81 \<or> hashType = 0x82 \<or> hashType = 0x83"

definition calcTaprootSignatureHashRaw ::
  "crypto \<Rightarrow> TxSigHashes \<Rightarrow> SigHashType \<Rightarrow> MsgTx \<Rightarrow> int \<Rightarrow> PrevOutputFetcher \<Rightarrow>
     TaprootSigHashOption list \<Rightarrow> go_error + hash" where
  "calcTaprootSignatureHashRaw C sigHashes hType tx idx prevOutFetcher sigHashOpts =
     (let opts = fold (\<lambda>opt o'. opt o') sigHashOpts defaultTaprootSighashOptions
      in if \<not> isValidTaprootSigHash hType then Inl otherError
         else if idx > int (length (tx_TxIn tx)) - 1 then Inl otherError
         else
           let head =
             [0x00, word_of_nat hType] @ le_bytes 4 (tx_Version tx) @ le_bytes 4 (int (tx_LockTime tx)) @
             (if hType AND SigHashAnyOneCanPay \<noteq> SigHashAnyOneCanPay
              then HashPrevOutsV1 sigHashes @ HashInputAmountsV1 sigHashes @
                   HashInputScriptsV1 sigHashes @ HashSequenceV1 sigHashes
              else []) @
             (if hType AND SigHashSingle \<noteq> SigHashSingle \<and> hType AND SigHashSingle \<noteq> SigHashNone
              then HashOutputsV1 sigHashes else [])
           in sbind (go_index (tx_TxIn tx) idx) (\<lambda>input.
             let witnessHasAnnex = annexHash opts \<noteq> None;
                 spendType = word_of_nat (extFlag opts) * 2 + (if witnessHasAnnex then 1 else 0) :: byte
             in sbind
               (if hType AND SigHashAnyOneCanPay = SigHashAnyOneCanPay then
                  sbind (fetch prevOutFetcher (ti_PreviousOutPoint input)) (\<lambda>prevOut.
                    Inr (writeOutPointBuf (ti_PreviousOutPoint input) @ WriteTxOutBuf prevOut @
                         le_bytes 4 (int (ti_Sequence input))))
                else Inr (le_bytes 4 idx)) (\<lambda>inputPart.
               sbind
                 (if hType AND sigHashMask = SigHashSingle then
                    if idx \<ge> int (length (tx_TxOut tx)) then Inl otherError
                    else sbind (go_index (tx_TxOut tx) idx) (\<lambda>txOut. Inr (c_sha256 C (WriteTxOutBuf txOut)))
                  else Inr []) (\<lambda>outputPart.
                 let sigMsg =
                   head @ [spendType] @ inputPart @
                   (case annexHash opts of None \<Rightarrow> [] | Some h \<Rightarrow> h) @
                   outputPart @ writeDigestExtensions opts
                 in Inr (TaggedHash C TagTapSighash [sigMsg])))))"

definition CalcTaprootSignatureHash ::
  "crypto \<Rightarrow> TxSigHashes \<Rightarrow> SigHashType \<Rightarrow> MsgTx \<Rightarrow> int \<Rightarrow> PrevOutputFetcher \<Rightarrow> go_error + hash" where
  "CalcTaprootSignatureHash C sigHashes hType tx idx prevOutFetcher =
     calcTaprootSignatureHashRaw C sigHashes hType tx idx prevOutFetcher []"

subsection \<open>What the message contains\<close>

lemma valid_sighash_cases:
  assumes "isValidTaprootSigHash h"
  obtains "h = 0" | "h = 1" | "h = 2" | "h = 3" | "h = 0x81" | "h = 0x82" | "h = 0x83"
  using assms by (auto simp: isValidTaprootSigHash_def sighash_types)

lemma sighash_bits:
  "isValidTaprootSigHash h \<Longrightarrow> (h AND SigHashAnyOneCanPay = SigHashAnyOneCanPay) = (0x80 \<le> h)"
  "isValidTaprootSigHash h \<Longrightarrow> (h AND sigHashMask = SigHashSingle) = (h = 3 \<or> h = 0x83)"
  "isValidTaprootSigHash h \<Longrightarrow> (h AND SigHashSingle \<noteq> SigHashSingle \<and> h AND SigHashSingle \<noteq> SigHashNone) = (h \<in> {0, 1, 0x81})"
  by (erule valid_sighash_cases; simp add: sighash_types)+

lemma fetch_eq: "fetch f op = Inr p \<longleftrightarrow> f op = Some p" "fetch f op = Inl e \<longleftrightarrow> f op = None \<and> e = goPanic"
  by (auto simp: fetch_def split: option.splits)

text \<open>Coinbase inputs are recognized by their null outpoint.\<close>

definition is_null_outpoint :: "OutPoint \<Rightarrow> bool" where
  "is_null_outpoint op \<longleftrightarrow> out_Index op = 0xffffffff \<and> out_Hash op = zeroHash"

lemma taproot_not_merkleroot: "IsPayToMerkleRoot s \<Longrightarrow> \<not> IsPayToTaproot s"
  by (auto simp: IsPayToMerkleRoot_def IsPayToTaproot_def isWitnessMerkleRootScript_def isWitnessTaprootScript_def
        extractWitnessV1KeyBytes_def extractWitnessV2MerkleRootBytes_def split: if_splits)

lemma scanInputs_no_taproot:
  assumes "\<forall>txIn \<in> set txIns. \<not> is_null_outpoint (ti_PreviousOutPoint txIn) \<longrightarrow>
    (\<exists>p. F (ti_PreviousOutPoint txIn) = Some p \<and> \<not> IsPayToTaproot (to_PkScript p))"
  shows "scanInputs F txIns v0 False = Inr (v0 \<or> txIns \<noteq> [], False)"
  using assms by (induction txIns arbitrary: v0) (auto simp: Let_def fetch_def is_null_outpoint_def)

text \<open>A hash cache that holds, for the transactions of \<open>T\<close>, only what \<open>NewTxSigHashes\<close> computes.\<close>

definition cache_consistent :: "crypto \<Rightarrow> PrevOutputFetcher \<Rightarrow> MsgTx set \<Rightarrow> HashCache \<Rightarrow> bool" where
  "cache_consistent C F T h \<longleftrightarrow> cache_ok h \<and>
     (\<forall>tx \<in> T. \<forall>sh. re_get h (TxHash (DoubleHashRaw C) tx) = Some sh \<longrightarrow> NewTxSigHashes C tx F = Inr sh)"

text \<open>A small instance of the primitives and a transaction, for the concrete cases below.\<close>

definition sample_crypto :: crypto where
  "sample_crypto = \<lparr>c_sha256 = (\<lambda>b. foldl (\<lambda>a x. 3 * a + x) 1 b # replicate 31 0), c_ripemd160 = (\<lambda>b. take 20 (b @ replicate 20 0)),
     c_sha1 = (\<lambda>b. take 20 (b @ replicate 20 0)),
     c_ParsePubKey = (\<lambda>k. if length k = 32 then Some (2 # k) else None), c_ParseSignature = Some,
     c_VerifySig = (\<lambda>s h p. take 32 s = h), c_AddTweak = (\<lambda>p t. 2 # replicate 32 1),
     c_VerifyXMSS = (\<lambda>m p s. m = take 32 s)\<rparr>"

lemma sample_crypto_ok: "crypto_ok sample_crypto"
  by (auto simp: crypto_ok_def sample_crypto_def split: if_splits)

definition sample_outpoint :: OutPoint where
  "sample_outpoint = \<lparr>out_Hash = replicate 32 5, out_Index = 1\<rparr>"

definition sample_tx :: MsgTx where
  "sample_tx = \<lparr>tx_Version = 1, tx_TxIn = [\<lparr>ti_PreviousOutPoint = sample_outpoint, ti_SignatureScript = [],
     ti_Witness = [], ti_Sequence = 0\<rparr>], tx_TxOut = [\<lparr>to_Value = 10, to_PkScript = [OP_1]\<rparr>], tx_LockTime = 0\<rparr>"

definition sample_sighashes :: "hash \<Rightarrow> TxSigHashes" where
  "sample_sighashes h = \<lparr>HashPrevOutsV0 = h, HashSequenceV0 = h, HashOutputsV0 = h, HashPrevOutsV1 = h,
     HashSequenceV1 = h, HashOutputsV1 = h, HashInputScriptsV1 = h, HashInputAmountsV1 = h\<rparr>"

definition p2mr_fetcher :: "int \<Rightarrow> PrevOutputFetcher" where
  "p2mr_fetcher amount op = Some \<lparr>to_Value = amount, to_PkScript = OP_2 # OP_DATA_32 # replicate 32 9\<rparr>"

lemma p2mr_fetcher_script:
  "\<exists>p. p2mr_fetcher a op = Some p \<and> IsPayToMerkleRoot (to_PkScript p)"
  by (simp add: p2mr_fetcher_def IsPayToMerkleRoot_def isWitnessMerkleRootScript_def
       extractWitnessV2MerkleRootBytes_def standard_sizes)

subsection \<open>Properties\<close>

text \<open>
  For an input whose previous outputs are known, the taproot signature hash is a 32-byte value
  exactly when the hash type is one of the seven valid ones, the input exists and, for
  \<open>SIGHASH_SINGLE\<close>, the output of the same index exists; otherwise an error is returned. There is no
  panic.\<close>

lemma taproot_sighash_defined:
  assumes "crypto_ok C" "0 \<le> idx"
    "\<forall>txIn \<in> set (tx_TxIn tx). prevOuts (ti_PreviousOutPoint txIn) \<noteq> None"
  shows "if isValidTaprootSigHash hType \<and> idx < int (length (tx_TxIn tx)) \<and>
           (hType \<in> {3, 0x83} \<longrightarrow> idx < int (length (tx_TxOut tx)))
     then \<exists>h. calcTaprootSignatureHashRaw C sigHashes hType tx idx prevOuts opts = Inr h \<and> length h = 32
     else calcTaprootSignatureHashRaw C sigHashes hType tx idx prevOuts opts = Inl otherError"
proof (cases "isValidTaprootSigHash hType \<and> idx < int (length (tx_TxIn tx))")
  case False
  then show ?thesis by (auto simp: calcTaprootSignatureHashRaw_def Let_def)
next
  case True
  then obtain txIn where i: "go_index (tx_TxIn tx) idx = Inr txIn" "txIn \<in> set (tx_TxIn tx)"
    using assms(2) by (auto simp: go_index_def)
  then obtain p where p: "fetch prevOuts (ti_PreviousOutPoint txIn) = Inr p"
    using assms(3) by (auto simp: fetch_eq)
  have o: "\<exists>txOut. go_index (tx_TxOut tx) idx = Inr txOut" if "idx < int (length (tx_TxOut tx))"
    using that assms(2) by (simp add: go_index_def)
  show ?thesis using True i p o TaggedHash_length [OF assms(1)]
    by (auto simp: calcTaprootSignatureHashRaw_def Let_def sighash_bits)
qed

lemma taproot_sighash_defined_example:
  "(\<exists>h. calcTaprootSignatureHashRaw sample_crypto (sample_sighashes zeroHash) 0x83 sample_tx 0 (p2mr_fetcher 7) [] = Inr h \<and> length h = 32) \<and>
   calcTaprootSignatureHashRaw sample_crypto (sample_sighashes zeroHash) 0x84 sample_tx 0 (p2mr_fetcher 7) [] = Inl otherError"
  using taproot_sighash_defined [OF sample_crypto_ok, of 0 sample_tx "p2mr_fetcher 7" "0x83" "sample_sighashes zeroHash" "[]"]
    taproot_sighash_defined [OF sample_crypto_ok, of 0 sample_tx "p2mr_fetcher 7" "0x84" "sample_sighashes zeroHash" "[]"]
  by (simp add: sample_tx_def p2mr_fetcher_def isValidTaprootSigHash_def sighash_types)

lemma le_bytes_nat_inject: "m < 2 ^ 32 \<Longrightarrow> n < 2 ^ 32 \<Longrightarrow> le_bytes 4 (int m) = le_bytes 4 (int n) \<longleftrightarrow> m = n"
proof
  assume "m < 2 ^ 32" "n < 2 ^ 32" and e: "le_bytes 4 (int m) = le_bytes 4 (int n)"
  then have "nat (le_val (le_bytes 4 (int m))) = m" "nat (le_val (le_bytes 4 (int n))) = n" by (intro nat_le_val_le_bytes; simp)+
  then show "m = n" unfolding e by simp
qed simp

text \<open>What a taproot signature commits to, read off the transaction: with \<open>ANYONECANPAY\<close> only the signed input itself.\<close>

record committedData =
  cd_type :: nat
  cd_version :: int
  cd_lockTime :: nat
  cd_inputs :: "(hash \<times> hash \<times> hash \<times> hash) option"
  cd_outputs :: "hash option"
  cd_input :: "nat + OutPoint \<times> TxOut \<times> nat"
  cd_annex :: "hash option"
  cd_single :: "hash option"
  cd_leaf :: "(bytes \<times> byte \<times> nat) option"

definition committed ::
  "crypto \<Rightarrow> TxSigHashes \<Rightarrow> SigHashType \<Rightarrow> MsgTx \<Rightarrow> nat \<Rightarrow> PrevOutputFetcher \<Rightarrow> taprootSigHashOptions \<Rightarrow> committedData" where
  "committed C sh hType tx idx F ext =
     (let input = tx_TxIn tx ! idx in
      \<lparr>cd_type = hType, cd_version = tx_Version tx, cd_lockTime = tx_LockTime tx,
       cd_inputs = (if hType < 0x80 then Some (HashPrevOutsV1 sh, HashInputAmountsV1 sh, HashInputScriptsV1 sh, HashSequenceV1 sh) else None),
       cd_outputs = (if hType \<in> {0, 1, 0x81} then Some (HashOutputsV1 sh) else None),
       cd_input = (if hType < 0x80 then Inl idx
                   else Inr (ti_PreviousOutPoint input, the (F (ti_PreviousOutPoint input)), ti_Sequence input)),
       cd_annex = annexHash ext,
       cd_single = (if hType \<in> {3, 0x83} then Some (c_sha256 C (WriteTxOutBuf (tx_TxOut tx ! idx))) else None),
       cd_leaf = (if extFlag ext = 1 then Some (tapLeafHash ext, keyVersion ext, codeSepPos ext) else None)\<rparr>)"

text \<open>What Go's types and the callers provide: the widths of the numbers and hashes, and a previous output for the input.\<close>

definition signable :: "TxSigHashes \<Rightarrow> SigHashType \<Rightarrow> MsgTx \<Rightarrow> nat \<Rightarrow> PrevOutputFetcher \<Rightarrow> taprootSigHashOptions \<Rightarrow> bool" where
  "signable sh hType tx idx F ext \<longleftrightarrow>
     isValidTaprootSigHash hType \<and> idx < length (tx_TxIn tx) \<and> idx < 2 ^ 32 \<and> (hType \<in> {3, 0x83} \<longrightarrow> idx < length (tx_TxOut tx)) \<and>
     - (2 ^ 31) \<le> tx_Version tx \<and> tx_Version tx < 2 ^ 31 \<and> tx_LockTime tx < 2 ^ 32 \<and>
     (\<forall>h \<in> {HashPrevOutsV1 sh, HashInputAmountsV1 sh, HashInputScriptsV1 sh, HashSequenceV1 sh, HashOutputsV1 sh}. length h = 32) \<and>
     outpoint_ok (ti_PreviousOutPoint (tx_TxIn tx ! idx)) \<and> ti_Sequence (tx_TxIn tx ! idx) < 2 ^ 32 \<and>
     (\<exists>prevOut. F (ti_PreviousOutPoint (tx_TxIn tx ! idx)) = Some prevOut \<and> txout_ok prevOut) \<and>
     extFlag ext \<le> 1 \<and> (\<forall>h. annexHash ext = Some h \<longrightarrow> length h = 32) \<and>
     (extFlag ext = 1 \<longrightarrow> length (tapLeafHash ext) = 32 \<and> codeSepPos ext < 2 ^ 32)"

definition input_bytes :: "nat + OutPoint \<times> TxOut \<times> nat \<Rightarrow> bytes" where
  "input_bytes i = (case i of Inl idx \<Rightarrow> le_bytes 4 (int idx)
     | Inr (op, prevOut, sequence) \<Rightarrow> writeOutPointBuf op @ WriteTxOutBuf prevOut @ le_bytes 4 (int sequence))"

definition leaf_bytes :: "(bytes \<times> byte \<times> nat) option \<Rightarrow> bytes" where
  "leaf_bytes l = (case l of None \<Rightarrow> [] | Some (h, v, pos) \<Rightarrow> h @ [v] @ le_bytes 4 (int pos))"

definition taproot_message :: "committedData \<Rightarrow> bytes" where
  "taproot_message d =
     [0, word_of_nat (cd_type d)] @ le_bytes 4 (cd_version d) @ le_bytes 4 (int (cd_lockTime d)) @
     (case cd_inputs d of None \<Rightarrow> [] | Some (a, b, c, e) \<Rightarrow> a @ b @ c @ e) @
     (case cd_outputs d of None \<Rightarrow> [] | Some h \<Rightarrow> h) @
     [(if cd_leaf d = None then 0 else 2) + (if cd_annex d = None then 0 else 1)] @
     input_bytes (cd_input d) @ (case cd_annex d of None \<Rightarrow> [] | Some h \<Rightarrow> h) @ (case cd_single d of None \<Rightarrow> [] | Some h \<Rightarrow> h) @
     leaf_bytes (cd_leaf d)"

lemma sighash_message:
  assumes "signable sh hType tx idx F ext" "ext = fold (\<lambda>opt o'. opt o') opts defaultTaprootSighashOptions"
  shows "calcTaprootSignatureHashRaw C sh hType tx (int idx) F opts = Inr (TaggedHash C TagTapSighash [taproot_message (committed C sh hType tx idx F ext)])"
proof -
  obtain prevOut where p: "F (ti_PreviousOutPoint (tx_TxIn tx ! idx)) = Some prevOut" using assms(1) by (auto simp: signable_def)
  have v: "isValidTaprootSigHash hType" "idx < length (tx_TxIn tx)" "extFlag ext = 0 \<or> extFlag ext = 1"
    and o': "hType \<in> {3, 0x83} \<Longrightarrow> idx < length (tx_TxOut tx)" using assms(1) by (auto simp: signable_def)
  have i: "go_index (tx_TxIn tx) (int idx) = Inr (tx_TxIn tx ! idx)" using v(2) by (simp add: go_index_def)
  have ou: "go_index (tx_TxOut tx) (int idx) = Inr (tx_TxOut tx ! idx)" "idx < length (tx_TxOut tx)" if "hType \<in> {3, 0x83}"
    using o' [OF that] by (simp_all add: go_index_def)
  show ?thesis using v i ou p
    by (cases "annexHash ext")
      (auto simp: calcTaprootSignatureHashRaw_def Let_def sighash_bits taproot_message_def committed_def input_bytes_def leaf_bytes_def fetch_def
        writeDigestExtensions_def simp flip: assms(2))
qed

lemma tx_out_prefix_free:
  assumes "txout_ok x" "txout_ok y" "WriteTxOutBuf x @ r = WriteTxOutBuf y @ q"
  shows "x = y \<and> r = q"
proof -
  let ?b = "length (to_PkScript x) + length (to_PkScript y)"
  have "readTxOutBuf ?b (WriteTxOutBuf x @ r) = Inr (x, r)" "readTxOutBuf ?b (WriteTxOutBuf y @ q) = Inr (y, q)"
    using assms(1,2) by (simp_all add: tx_out.bdec_enc)
  then have "Inr (x, r) = (Inr (y, q) :: wire_error + TxOut \<times> bytes)" unfolding assms(3) by simp
  then show ?thesis by simp
qed

definition input_ok :: "nat + OutPoint \<times> TxOut \<times> nat \<Rightarrow> bool" where
  "input_ok i = (case i of Inl idx \<Rightarrow> idx < 2 ^ 32 | Inr (op, prevOut, sequence) \<Rightarrow> outpoint_ok op \<and> txout_ok prevOut \<and> sequence < 2 ^ 32)"

lemma input_prefix_free:
  assumes "isl i = isl j" "input_ok i" "input_ok j" "input_bytes i @ r = input_bytes j @ q"
  shows "i = j \<and> r = q"
proof (cases i)
  case (Inl a)
  then obtain b where "j = Inl b" using assms(1) by (cases j) auto
  note Inl = Inl this
  have "le_bytes 4 (int a) = le_bytes 4 (int b)" "r = q"
    using assms(4) by (simp_all add: input_bytes_def Inl)
  moreover have "a < 2 ^ 32" "b < 2 ^ 32" using assms(2,3) by (simp_all add: input_ok_def Inl)
  ultimately show ?thesis using le_bytes_nat_inject by (simp only: Inl)
next
  case (Inr a)
  obtain op po se where a: "a = (op, po, se)" by (cases a)
  obtain op' po' se' where j: "j = Inr (op', po', se')" using assms(1) Inr by (cases j) auto
  have ok: "outpoint_ok op" "outpoint_ok op'" "txout_ok po" "txout_ok po'" "se < 2 ^ 32" "se' < 2 ^ 32"
    using assms(2,3) Inr j a by (simp_all add: input_ok_def)
  have e: "writeOutPointBuf op @ (WriteTxOutBuf po @ le_bytes 4 (int se) @ r) = writeOutPointBuf op' @ (WriteTxOutBuf po' @ le_bytes 4 (int se') @ q)"
    using assms(4) by (simp add: input_bytes_def Inr a j)
  note out_point.enc_prefix_free [OF ok(1,2) e]
  moreover from this have "WriteTxOutBuf po @ (le_bytes 4 (int se) @ r) = WriteTxOutBuf po' @ (le_bytes 4 (int se') @ q)" by simp
  note tx_out_prefix_free [OF ok(3,4) this]
  ultimately show ?thesis using ok(5,6) by (simp add: Inr a j le_bytes_nat_inject)
qed

definition opt_32 :: "hash option \<Rightarrow> bool" where
  "opt_32 x \<longleftrightarrow> (\<forall>h. x = Some h \<longrightarrow> length h = 32)"

lemma opt_prefix_free:
  assumes "opt_32 x" "opt_32 y" "(x = None) = (y = None)" "(case x of None \<Rightarrow> [] | Some h \<Rightarrow> h) @ r = (case y of None \<Rightarrow> [] | Some h \<Rightarrow> h) @ q"
  shows "x = y \<and> r = q"
  using assms by (cases x; cases y) (auto simp: opt_32_def)

definition data_ok :: "committedData \<Rightarrow> bool" where
  "data_ok d \<longleftrightarrow> cd_type d < 256 \<and> - (2 ^ 31) \<le> cd_version d \<and> cd_version d < 2 ^ 31 \<and> cd_lockTime d < 2 ^ 32 \<and>
     (cd_inputs d = None \<longleftrightarrow> 0x80 \<le> cd_type d) \<and> (\<forall>a b c e. cd_inputs d = Some (a, b, c, e) \<longrightarrow> (\<forall>h \<in> {a, b, c, e}. length h = 32)) \<and>
     (cd_outputs d = None \<longleftrightarrow> cd_type d \<notin> {0, 1, 0x81}) \<and> opt_32 (cd_outputs d) \<and> (isl (cd_input d) \<longleftrightarrow> cd_type d < 0x80) \<and> input_ok (cd_input d) \<and>
     opt_32 (cd_annex d) \<and> (cd_single d = None \<longleftrightarrow> cd_type d \<notin> {3, 0x83}) \<and> opt_32 (cd_single d) \<and>
     (\<forall>h v pos. cd_leaf d = Some (h, v, pos) \<longrightarrow> length h = 32 \<and> pos < 2 ^ 32)"

lemma message_inject:
  assumes "data_ok d" "data_ok d'" "taproot_message d = taproot_message d'"
  shows "d = d'"
proof -
  define y where "y = (\<lambda>d :: committedData. (case cd_inputs d of None \<Rightarrow> [] | Some (a, b, c, e) \<Rightarrow> a @ b @ c @ e) @ (case cd_outputs d of None \<Rightarrow> [] | Some h \<Rightarrow> h) @
     [(if cd_leaf d = None then 0 else 2) + (if cd_annex d = None then 0 else 1) :: byte] @
     input_bytes (cd_input d) @ (case cd_annex d of None \<Rightarrow> [] | Some h \<Rightarrow> h) @ (case cd_single d of None \<Rightarrow> [] | Some h \<Rightarrow> h) @
     leaf_bytes (cd_leaf d))"
  have "taproot_message d = [0, word_of_nat (cd_type d)] @ le_bytes 4 (cd_version d) @ le_bytes 4 (int (cd_lockTime d)) @ y d" for d
    by (simp only: taproot_message_def y_def)
  with assms(3) have e: "(word_of_nat (cd_type d) :: byte) = word_of_nat (cd_type d')" "le_bytes 4 (cd_version d) = le_bytes 4 (cd_version d')"
    "le_bytes 4 (int (cd_lockTime d)) = le_bytes 4 (int (cd_lockTime d'))" and r: "y d = y d'"
    by (simp_all only: append_eq_append_conv length_le_bytes append_Cons append_Nil list.inject simp_thms)
  have "unat (word_of_nat (cd_type d) :: byte) = cd_type d" "unat (word_of_nat (cd_type d') :: byte) = cd_type d'"
    by (rule byte_of_small; use assms(1,2) in \<open>simp add: data_ok_def\<close>)+
  then have ty: "cd_type d = cd_type d'" unfolding e(1) by simp
  have "int32_of (le_val (le_bytes 4 (cd_version d))) = cd_version d" "int32_of (le_val (le_bytes 4 (cd_version d'))) = cd_version d'"
    by (rule int32_of_le_bytes; use assms(1,2) in \<open>simp add: data_ok_def\<close>)+
  then have ve: "cd_version d = cd_version d'" unfolding e(2) by simp
  have lo: "cd_lockTime d = cd_lockTime d'" using e(3) assms(1,2) by (simp add: data_ok_def le_bytes_nat_inject)
  define t where "t = (\<lambda>d :: committedData. leaf_bytes (cd_leaf d))"
  define u where "u = (\<lambda>d :: committedData. (case cd_single d of None \<Rightarrow> [] | Some h \<Rightarrow> h) @ t d)"
  define v where "v = (\<lambda>d :: committedData. (case cd_annex d of None \<Rightarrow> [] | Some h \<Rightarrow> h) @ u d)"
  define w where "w = (\<lambda>d :: committedData. [(if cd_leaf d = None then 0 else 2) + (if cd_annex d = None then 0 else 1) :: byte] @ input_bytes (cd_input d) @ v d)"
  define x where "x = (\<lambda>d :: committedData. (case cd_outputs d of None \<Rightarrow> [] | Some h \<Rightarrow> h) @ w d)"
  note parts = t_def u_def v_def w_def x_def
  have m: "(case cd_inputs d of None \<Rightarrow> [] | Some (a, b, c, e) \<Rightarrow> a @ b @ c @ e) @ x d = (case cd_inputs d' of None \<Rightarrow> [] | Some (a, b, c, e) \<Rightarrow> a @ b @ c @ e) @ x d'"
    using r by (simp only: y_def parts)
  have n: "(cd_inputs d = None) = (cd_inputs d' = None)" using assms(1,2) ty by (simp add: data_ok_def)
  have "cd_inputs d = cd_inputs d' \<and> x d = x d'"
  proof (cases "cd_inputs d")
    case None
    then show ?thesis using m n by simp
  next
    case (Some i)
    obtain a b c f where i: "i = (a, b, c, f)" by (cases i)
    obtain a' b' c' f' where i': "cd_inputs d' = Some (a', b', c', f')" using n Some by (cases "cd_inputs d'") auto
    have "length a = 32" "length b = 32" "length c = 32" "length f = 32" "length a' = 32" "length b' = 32" "length c' = 32" "length f' = 32"
      using assms(1,2) Some i i' by (simp_all add: data_ok_def)
    then show ?thesis using m Some i i' by simp
  qed
  then have i: "cd_inputs d = cd_inputs d'" and xx: "x d = x d'" by simp_all
  have ou: "cd_outputs d = cd_outputs d' \<and> w d = w d'"
    by (rule opt_prefix_free) (use xx assms(1,2) ty in \<open>auto simp: x_def data_ok_def\<close>)
  have "((if cd_leaf d = None then 0 else 2) + (if cd_annex d = None then 0 else 1) :: byte) = (if cd_leaf d' = None then 0 else 2) + (if cd_annex d' = None then 0 else 1)"
    and iv: "input_bytes (cd_input d) @ v d = input_bytes (cd_input d') @ v d'" using ou by (simp_all add: w_def)
  then have sp: "(cd_leaf d = None) = (cd_leaf d' = None)" "(cd_annex d = None) = (cd_annex d' = None)" by (auto split: if_splits)
  have inp: "cd_input d = cd_input d' \<and> v d = v d'"
    by (rule input_prefix_free [OF _ _ _ iv]) (use assms(1,2) ty in \<open>simp_all add: data_ok_def\<close>)
  have an: "cd_annex d = cd_annex d' \<and> u d = u d'"
    by (rule opt_prefix_free [OF _ _ sp(2)]) (use inp assms(1,2) in \<open>simp_all add: v_def data_ok_def\<close>)
  have si: "cd_single d = cd_single d' \<and> t d = t d'"
    by (rule opt_prefix_free) (use an assms(1,2) ty in \<open>auto simp: u_def data_ok_def\<close>)
  have "cd_leaf d = cd_leaf d'"
  proof (cases "cd_leaf d")
    case None
    then show ?thesis using sp by simp
  next
    case (Some l)
    obtain h k pos where l: "l = (h, k, pos)" by (cases l)
    obtain h' k' pos' where l': "cd_leaf d' = Some (h', k', pos')" using sp Some by (cases "cd_leaf d'") auto
    have "length h = 32" "length h' = 32" "pos < 2 ^ 32" "pos' < 2 ^ 32" using assms(1,2) Some l l' by (simp_all add: data_ok_def)
    then show ?thesis using si Some l l' by (simp add: t_def leaf_bytes_def le_bytes_nat_inject)
  qed
  then show ?thesis using ty ve lo i ou inp an si by (cases d; cases d') simp
qed

lemma committed_ok:
  assumes "crypto_ok C" "signable sh hType tx idx F ext"
  shows "data_ok (committed C sh hType tx idx F ext)"
proof -
  obtain prevOut where p: "F (ti_PreviousOutPoint (tx_TxIn tx ! idx)) = Some prevOut" "txout_ok prevOut" using assms(2) by (auto simp: signable_def)
  have "isValidTaprootSigHash hType" using assms(2) by (simp add: signable_def)
  then have "cd_type (committed C sh hType tx idx F ext) < 256" by (elim valid_sighash_cases) (simp_all add: committed_def Let_def)
  with assms p show ?thesis
    by (auto simp: signable_def data_ok_def committed_def opt_32_def input_ok_def crypto_ok_def Let_def split: if_splits)
qed

text \<open>
  C20. What a taproot signature commits to: the message that is hashed is the serialization of the committed data, and for two inputs, possibly of
  different transactions, it is the same if and only if all of these data are the same -- the hash type, version and lock time; without \<open>ANYONECANPAY\<close> the index of the input and the
  precomputed hashes over all outpoints, amounts, scripts and sequence numbers, with it the outpoint, the spent output and the sequence number
  of the input alone; for \<open>ALL\<close> and \<open>DEFAULT\<close> the hash of all outputs, for \<open>SINGLE\<close> the hash of the output of the same index, for \<open>NONE\<close> no
  output; the annex, and in a tapscript the leaf, its key version and the position of the last separator. Numbers and hashes
  have the widths of Go's types, and the previous output is known.\<close>

theorem sighash_scope:
  assumes "crypto_ok C" "signable sh hType tx idx F ext" "signable sh' hType' tx' idx' F' ext'"
    "ext = fold (\<lambda>opt o'. opt o') opts defaultTaprootSighashOptions" "ext' = fold (\<lambda>opt o'. opt o') opts' defaultTaprootSighashOptions"
  shows "calcTaprootSignatureHashRaw C sh hType tx (int idx) F opts =
      Inr (TaggedHash C TagTapSighash [taproot_message (committed C sh hType tx idx F ext)]) \<and>
    calcTaprootSignatureHashRaw C sh' hType' tx' (int idx') F' opts' =
      Inr (TaggedHash C TagTapSighash [taproot_message (committed C sh' hType' tx' idx' F' ext')]) \<and>
    (taproot_message (committed C sh hType tx idx F ext) = taproot_message (committed C sh' hType' tx' idx' F' ext') \<longleftrightarrow>
     committed C sh hType tx idx F ext = committed C sh' hType' tx' idx' F' ext')"
  using sighash_message [OF assms(2,4), of C] sighash_message [OF assms(3,5), of C]
    message_inject [OF committed_ok [OF assms(1,2)] committed_ok [OF assms(1,3)]] by metis

theorem sighash_scope_witness:
  "\<exists>m m'. calcTaprootSignatureHashRaw sample_crypto (sample_sighashes zeroHash) 0x82 sample_tx 0 (p2mr_fetcher 7) [] =
       Inr (TaggedHash sample_crypto TagTapSighash [m]) \<and>
     calcTaprootSignatureHashRaw sample_crypto (sample_sighashes zeroHash) 0x82 (sample_tx\<lparr>tx_LockTime := 5\<rparr>) 0 (p2mr_fetcher 7) [] =
       Inr (TaggedHash sample_crypto TagTapSighash [m']) \<and> m \<noteq> m'"
proof -
  have ok: "signable (sample_sighashes zeroHash) 0x82 (sample_tx\<lparr>tx_LockTime := n\<rparr>) 0 (p2mr_fetcher 7) defaultTaprootSighashOptions" if "n < 2 ^ 32" for n
    using that by (simp add: signable_def sample_tx_def sample_sighashes_def zeroHash_def isValidTaprootSigHash_def sighash_types outpoint_ok_def
        sample_outpoint_def p2mr_fetcher_def txout_ok_def wire_limits defaultTaprootSighashOptions_def)
  have zero: "sample_tx\<lparr>tx_LockTime := 0\<rparr> = sample_tx" by (simp add: sample_tx_def)
  have "committed sample_crypto (sample_sighashes zeroHash) 0x82 sample_tx 0 (p2mr_fetcher 7) defaultTaprootSighashOptions \<noteq>
      committed sample_crypto (sample_sighashes zeroHash) 0x82 (sample_tx\<lparr>tx_LockTime := 5\<rparr>) 0 (p2mr_fetcher 7) defaultTaprootSighashOptions"
    by (simp add: committed_def sample_tx_def Let_def)
  with sighash_scope [OF sample_crypto_ok ok [of 0] ok [of 5], of "[]" "[]"] show ?thesis by (auto simp: zero)
qed

text \<open>
  When all inputs spend pay-to-merkle-root outputs, \<open>NewTxSigHashes\<close> leaves the hashes of the
  input amounts and scripts zero, since it computes them only if some input is a taproot output.
  The signature hash that a tapscript signature of such a transaction commits to is then the same
  for all amounts and scripts of the spent outputs.\<close>

lemma merkleroot_sighash_uncommitted:
  assumes "tx_TxIn tx \<noteq> []"
    "\<forall>txIn \<in> set (tx_TxIn tx). \<exists>p. F (ti_PreviousOutPoint txIn) = Some p \<and> IsPayToMerkleRoot (to_PkScript p)"
    "\<forall>txIn \<in> set (tx_TxIn tx). \<exists>p. F' (ti_PreviousOutPoint txIn) = Some p \<and> IsPayToMerkleRoot (to_PkScript p)"
    "hType < 0x80"
  shows "\<exists>sh. NewTxSigHashes C tx F = Inr sh \<and> NewTxSigHashes C tx F' = Inr sh \<and>
     HashInputAmountsV1 sh = zeroHash \<and> HashInputScriptsV1 sh = zeroHash \<and>
     calcTaprootSignatureHashRaw C sh hType tx idx F opts = calcTaprootSignatureHashRaw C sh hType tx idx F' opts"
proof -
  have "scanInputs F (tx_TxIn tx) False False = Inr (True, False)" "scanInputs F' (tx_TxIn tx) False False = Inr (True, False)"
    using scanInputs_no_taproot [of "tx_TxIn tx" F False] scanInputs_no_taproot [of "tx_TxIn tx" F' False] assms(1-3) taproot_not_merkleroot by fastforce+
  moreover have "\<not> hType AND SigHashAnyOneCanPay = SigHashAnyOneCanPay" if "isValidTaprootSigHash hType"
    using sighash_bits(1) [OF that] assms(4) by simp
  ultimately show ?thesis
    by (cases "isValidTaprootSigHash hType") (auto simp: NewTxSigHashes_def Let_def calcTaprootSignatureHashRaw_def)
qed

lemma merkleroot_sighash_uncommitted_example:
  "\<exists>sh. NewTxSigHashes sample_crypto sample_tx (p2mr_fetcher 1) = Inr sh \<and>
     NewTxSigHashes sample_crypto sample_tx (p2mr_fetcher 1000) = Inr sh \<and>
     HashInputAmountsV1 sh = zeroHash \<and> HashInputScriptsV1 sh = zeroHash \<and>
     calcTaprootSignatureHashRaw sample_crypto sh 0 sample_tx 0 (p2mr_fetcher 1) [] =
     calcTaprootSignatureHashRaw sample_crypto sh 0 sample_tx 0 (p2mr_fetcher 1000) []"
  by (rule merkleroot_sighash_uncommitted) (simp_all add: sample_tx_def p2mr_fetcher_script)

text \<open>
  The hash cache is transparent: with transaction ids that do not collide, looking a transaction
  up returns what \<open>NewTxSigHashes\<close> computes for it, whatever was evicted before, and keeps the cache
  consistent.\<close>

lemma LoadOrComputeSigHashes_transparent:
  assumes "inj_on (TxHash (DoubleHashRaw C)) T" "tx \<in> T" "cache_consistent C F T h"
  shows "case LoadOrComputeSigHashes C pick h tx F of
      Inl e \<Rightarrow> NewTxSigHashes C tx F = Inl e
    | Inr (sh, h') \<Rightarrow> NewTxSigHashes C tx F = Inr sh \<and> cache_consistent C F T h'"
proof (cases "re_get h (TxHash (DoubleHashRaw C) tx)")
  case (Some sh)
  then show ?thesis using assms by (simp add: LoadOrComputeSigHashes_def cache_consistent_def)
next
  case None
  show ?thesis
  proof (cases "NewTxSigHashes C tx F")
    case (Inr sh)
    let ?P = "\<lambda>txid sh. \<forall>tx \<in> T. TxHash (DoubleHashRaw C) tx = txid \<longrightarrow> NewTxSigHashes C tx F = Inr sh"
    have ok: "cache_ok h" using assms(3) by (simp add: cache_consistent_def)
    have "?P k w" if "re_get (re_put pick h (TxHash (DoubleHashRaw C) tx) sh) k = Some w" for k w
    proof (rule rand_evict.entries_put [OF ok _ _ that, where P = ?P])
      show "?P k w" if "re_get h k = Some w" for k w using that assms(3) by (auto simp: cache_consistent_def)
      show "?P (TxHash (DoubleHashRaw C) tx) sh" using Inr assms(1,2) by (auto dest: inj_onD)
    qed
    then show ?thesis using None Inr rand_evict.put_inv [OF ok]
      by (auto simp: LoadOrComputeSigHashes_def cache_consistent_def)
  qed (use None in \<open>simp add: LoadOrComputeSigHashes_def\<close>)
qed

lemma LoadOrComputeSigHashes_example:
  "case LoadOrComputeSigHashes sample_crypto (\<lambda>_. 0) (NewHashCache 1) sample_tx (p2mr_fetcher 7) of
      Inl e \<Rightarrow> NewTxSigHashes sample_crypto sample_tx (p2mr_fetcher 7) = Inl e
    | Inr (sh, h') \<Rightarrow> NewTxSigHashes sample_crypto sample_tx (p2mr_fetcher 7) = Inr sh \<and>
        cache_consistent sample_crypto (p2mr_fetcher 7) {sample_tx} h'"
  by (rule LoadOrComputeSigHashes_transparent)
     (simp_all add: cache_consistent_def NewHashCache_def newRandEvictCache_def cache_ok_def re_get_def)

end
