(* ===== verification/Script_Taproot.thy ===== *)
theory Script_Taproot
  imports Script_Sighash
begin

text \<open>
  Taproot and pay-to-merkle-root commitments and signatures (\<^verbatim>\<open>node/txscript/taproot.go\<close>,
  \<^verbatim>\<open>sigvalidate.go\<close>, \<^verbatim>\<open>sigcache.go\<close>): control blocks, script trees with their inclusion
  proofs, the check of a leaf commitment, the parsing and verification of Schnorr signatures and
  the signature cache. Elliptic curve operations are those of the \<open>crypto\<close> parameter.
\<close>

subsection \<open>Leaves and branches\<close>

type_synonym TapscriptLeafVersion = byte

definition BaseLeafVersion :: TapscriptLeafVersion where "BaseLeafVersion = 0xc0"
definition ControlBlockBaseSize :: nat where "ControlBlockBaseSize = 33"
definition ControlBlockNodeSize :: nat where "ControlBlockNodeSize = 32"
definition ControlBlockMaxNodeCount :: nat where "ControlBlockMaxNodeCount = 128"
definition ControlBlockMaxSize :: nat where
  "ControlBlockMaxSize = ControlBlockBaseSize + ControlBlockNodeSize * ControlBlockMaxNodeCount"
definition MerkleRootControlBlockBaseSize :: nat where "MerkleRootControlBlockBaseSize = 1"
definition MerkleRootControlBlockMaxSize :: nat where
  "MerkleRootControlBlockMaxSize =
     MerkleRootControlBlockBaseSize + ControlBlockNodeSize * ControlBlockMaxNodeCount"

lemmas control_block_sizes =
  ControlBlockBaseSize_def ControlBlockNodeSize_def ControlBlockMaxNodeCount_def
  ControlBlockMaxSize_def MerkleRootControlBlockBaseSize_def MerkleRootControlBlockMaxSize_def

record TapLeaf =
  leaf_LeafVersion :: TapscriptLeafVersion
  leaf_Script :: bytes

definition NewTapLeaf :: "TapscriptLeafVersion \<Rightarrow> bytes \<Rightarrow> TapLeaf" where
  "NewTapLeaf leafVersion script = \<lparr>leaf_LeafVersion = leafVersion, leaf_Script = script\<rparr>"

definition NewBaseTapLeaf :: "bytes \<Rightarrow> TapLeaf" where
  "NewBaseTapLeaf script = \<lparr>leaf_LeafVersion = BaseLeafVersion, leaf_Script = script\<rparr>"

datatype TapNode = LeafNode TapLeaf | BranchNode TapNode TapNode

definition TapLeaf_TapHash :: "crypto \<Rightarrow> TapLeaf \<Rightarrow> hash" where
  "TapLeaf_TapHash C t =
     TaggedHash C TagTapLeaf [leaf_LeafVersion t # WriteVarBytesBuf (leaf_Script t)]"

text \<open>\<open>bytes.Compare(l, r) < 0\<close>.\<close>

fun bytes_less :: "bytes \<Rightarrow> bytes \<Rightarrow> bool" where
  "bytes_less xs [] = False"
| "bytes_less [] (y # ys) = True"
| "bytes_less (x # xs) (y # ys) = (x < y \<or> x = y \<and> bytes_less xs ys)"

definition tapBranchHash :: "crypto \<Rightarrow> bytes \<Rightarrow> bytes \<Rightarrow> hash" where
  "tapBranchHash C l r =
     (if bytes_less r l then TaggedHash C TagTapBranch [r, l] else TaggedHash C TagTapBranch [l, r])"

primrec TapHash :: "crypto \<Rightarrow> TapNode \<Rightarrow> hash" where
  "TapHash C (LeafNode t) = TapLeaf_TapHash C t"
| "TapHash C (BranchNode l r) = tapBranchHash C (TapHash C l) (TapHash C r)"

primrec leafDescendants :: "TapNode \<Rightarrow> TapNode list" where
  "leafDescendants (LeafNode t) = [LeafNode t]"
| "leafDescendants (BranchNode l r) = leafDescendants l @ leafDescendants r"

definition computeMerkleRootFromProof :: "crypto \<Rightarrow> TapscriptLeafVersion \<Rightarrow> bytes \<Rightarrow> bytes \<Rightarrow> hash" where
  "computeMerkleRootFromProof C leafVersion inclusionProof revealedScript =
     fold (\<lambda>nodeOffset merkleAccumulator.
             tapBranchHash C merkleAccumulator (take 32 (drop (32 * nodeOffset) inclusionProof)))
       [0..<length inclusionProof div ControlBlockNodeSize]
       (TapLeaf_TapHash C (NewTapLeaf leafVersion revealedScript))"

subsection \<open>Control blocks\<close>

record ControlBlock =
  cb_InternalKey :: bytes
  cb_OutputKeyYIsOdd :: bool
  cb_LeafVersion :: TapscriptLeafVersion
  cb_InclusionProof :: bytes

definition SerializePubKey :: "bytes \<Rightarrow> bytes" where
  "SerializePubKey pubKey = tl pubKey"

definition ControlBlock_ToBytes :: "ControlBlock \<Rightarrow> bytes" where
  "ControlBlock_ToBytes c =
     (cb_LeafVersion c OR (if cb_OutputKeyYIsOdd c then 1 else 0)) #
     SerializePubKey (cb_InternalKey c) @ cb_InclusionProof c"

definition ControlBlock_RootHash :: "crypto \<Rightarrow> ControlBlock \<Rightarrow> bytes \<Rightarrow> hash" where
  "ControlBlock_RootHash C c revealedScript =
     computeMerkleRootFromProof C (cb_LeafVersion c) (cb_InclusionProof c) revealedScript"

definition ParseControlBlock :: "crypto \<Rightarrow> bytes \<Rightarrow> go_error + ControlBlock" where
  "ParseControlBlock C ctrlBlock =
     (if length ctrlBlock < ControlBlockBaseSize then Inl (scriptError ErrControlBlockTooSmall)
      else if length ctrlBlock > ControlBlockMaxSize then Inl (scriptError ErrControlBlockTooLarge)
      else if (length ctrlBlock - ControlBlockBaseSize) mod ControlBlockNodeSize \<noteq> 0 then
        Inl (scriptError ErrControlBlockInvalidLength)
      else
        let leafVersion = ctrlBlock ! 0 AND TaprootLeafMask;
            yIsOdd = (ctrlBlock ! 0 AND 0x01 = 0x01);
            rawKey = take 32 (drop 1 ctrlBlock)
        in case c_ParsePubKey C rawKey of
             None \<Rightarrow> Inl otherError
           | Some pubKey \<Rightarrow>
               Inr \<lparr>cb_InternalKey = pubKey, cb_OutputKeyYIsOdd = yIsOdd, cb_LeafVersion = leafVersion,
                    cb_InclusionProof = drop 33 ctrlBlock\<rparr>)"

definition ComputeTaprootOutputKey :: "crypto \<Rightarrow> bytes \<Rightarrow> bytes \<Rightarrow> go_error + bytes" where
  "ComputeTaprootOutputKey C pubKey scriptRoot =
     (case c_ParsePubKey C (SerializePubKey pubKey) of
        None \<Rightarrow> Inl goPanic
      | Some internalKey \<Rightarrow>
          let tapTweakHash = TaggedHash C TagTapTweak [SerializePubKey internalKey, scriptRoot]
          in Inr (c_AddTweak C internalKey tapTweakHash))"

definition ComputeTaprootKeyNoScript :: "crypto \<Rightarrow> bytes \<Rightarrow> go_error + bytes" where
  "ComputeTaprootKeyNoScript C internalKey = ComputeTaprootOutputKey C internalKey []"

definition VerifyTaprootLeafCommitment :: "crypto \<Rightarrow> ControlBlock \<Rightarrow> bytes \<Rightarrow> bytes \<Rightarrow> go_error + unit" where
  "VerifyTaprootLeafCommitment C controlBlock taprootWitnessProgram revealedScript =
     (let rootHash = ControlBlock_RootHash C controlBlock revealedScript
      in sbind (ComputeTaprootOutputKey C (cb_InternalKey controlBlock) rootHash) (\<lambda>taprootKey.
        if SerializePubKey taprootKey \<noteq> taprootWitnessProgram then
          Inl (scriptError ErrTaprootMerkleProofInvalid)
        else
          let derivedYIsOdd = (taprootKey ! 0 = 0x03)
          in if cb_OutputKeyYIsOdd controlBlock \<noteq> derivedYIsOdd then
               Inl (scriptError ErrTaprootOutputKeyParityMismatch)
             else Inr ()))"

record MerkleRootControlBlock =
  mcb_LeafVersion :: TapscriptLeafVersion
  mcb_InclusionProof :: bytes

definition MerkleRoot_RootHash :: "crypto \<Rightarrow> MerkleRootControlBlock \<Rightarrow> bytes \<Rightarrow> hash" where
  "MerkleRoot_RootHash C c revealedScript =
     computeMerkleRootFromProof C (mcb_LeafVersion c) (mcb_InclusionProof c) revealedScript"

definition MerkleRoot_ToBytes :: "MerkleRootControlBlock \<Rightarrow> bytes" where
  "MerkleRoot_ToBytes c = (mcb_LeafVersion c OR 0x01) # mcb_InclusionProof c"

definition ParseMerkleRootControlBlock :: "bytes \<Rightarrow> go_error + MerkleRootControlBlock" where
  "ParseMerkleRootControlBlock ctrlBlock =
     (if length ctrlBlock < MerkleRootControlBlockBaseSize then Inl (scriptError ErrControlBlockTooSmall)
      else if length ctrlBlock > MerkleRootControlBlockMaxSize then
        Inl (scriptError ErrControlBlockTooLarge)
      else if (length ctrlBlock - MerkleRootControlBlockBaseSize) mod ControlBlockNodeSize \<noteq> 0 then
        Inl (scriptError ErrControlBlockInvalidLength)
      else if ctrlBlock ! 0 AND 0x01 \<noteq> 0x01 then
        Inl (scriptError ErrMerkleRootControlBlockInvalidParity)
      else Inr \<lparr>mcb_LeafVersion = ctrlBlock ! 0 AND TaprootLeafMask,
                mcb_InclusionProof = drop 1 ctrlBlock\<rparr>)"

definition VerifyMerkleRootLeafCommitment ::
  "crypto \<Rightarrow> MerkleRootControlBlock \<Rightarrow> bytes \<Rightarrow> bytes \<Rightarrow> go_error + unit" where
  "VerifyMerkleRootLeafCommitment C controlBlock witnessProgram revealedScript =
     (let rootHash = MerkleRoot_RootHash C controlBlock revealedScript
      in if rootHash \<noteq> witnessProgram then Inl (scriptError ErrMerkleRootMerkleProofInvalid)
         else Inr ())"

subsection \<open>Script trees\<close>

record TapscriptProof =
  tp_TapLeaf :: TapLeaf
  tp_RootNode :: "TapNode option"
  tp_InclusionProof :: bytes

record IndexedTapScriptTree =
  tree_RootNode :: "TapNode option"
  tree_LeafMerkleProofs :: "TapscriptProof list"
  tree_LeafProofIndex :: "hash \<Rightarrow> nat option"

definition ToControlBlock :: "crypto \<Rightarrow> TapscriptProof \<Rightarrow> bytes \<Rightarrow> go_error + ControlBlock" where
  "ToControlBlock C t internalKey =
     (case tp_RootNode t of
        None \<Rightarrow> Inl goPanic
      | Some root \<Rightarrow>
          sbind (ComputeTaprootOutputKey C internalKey (TapHash C root)) (\<lambda>taprootKey.
            Inr \<lparr>cb_InternalKey = internalKey, cb_OutputKeyYIsOdd = (taprootKey ! 0 = 0x03),
                 cb_LeafVersion = leaf_LeafVersion (tp_TapLeaf t),
                 cb_InclusionProof = tp_InclusionProof t\<rparr>))"

definition empty_proof :: TapscriptProof where
  "empty_proof = \<lparr>tp_TapLeaf = \<lparr>leaf_LeafVersion = 0, leaf_Script = []\<rparr>, tp_RootNode = None,
                  tp_InclusionProof = []\<rparr>"

text \<open>\<open>LeafMerkleProofs[i].InclusionProof = append(..., h...)\<close>, and a lookup in the index map with
  Go's zero value for a missing key.\<close>

definition extend_proof :: "nat \<Rightarrow> bytes \<Rightarrow> TapscriptProof list \<Rightarrow> TapscriptProof list" where
  "extend_proof i h ps = ps[i := (ps ! i)\<lparr>tp_InclusionProof := tp_InclusionProof (ps ! i) @ h\<rparr>]"

definition set_leaf :: "nat \<Rightarrow> TapLeaf \<Rightarrow> TapscriptProof list \<Rightarrow> TapscriptProof list" where
  "set_leaf i leaf ps = ps[i := (ps ! i)\<lparr>tp_TapLeaf := leaf\<rparr>]"

definition index_of :: "(hash \<Rightarrow> nat option) \<Rightarrow> hash \<Rightarrow> nat" where
  "index_of index h = (case index h of None \<Rightarrow> 0 | Some i \<Rightarrow> i)"

fun leafIndex :: "crypto \<Rightarrow> nat \<Rightarrow> TapLeaf list \<Rightarrow> (hash \<Rightarrow> nat option) \<Rightarrow> (hash \<Rightarrow> nat option)" where
  "leafIndex C i [] index = index"
| "leafIndex C i (leaf # leaves) index = leafIndex C (Suc i) leaves (index(TapLeaf_TapHash C leaf \<mapsto> i))"

type_synonym TapBranch = "TapNode \<times> TapNode"

definition branchNode :: "TapBranch \<Rightarrow> TapNode" where
  "branchNode b = BranchNode (fst b) (snd b)"

text \<open>The first phase: the leaves are combined in pairs; a single last leaf joins the last branch.\<close>

fun pairLeaves ::
  "crypto \<Rightarrow> (hash \<Rightarrow> nat option) \<Rightarrow> nat \<Rightarrow> TapLeaf list \<Rightarrow> TapBranch list \<Rightarrow> TapscriptProof list \<Rightarrow>
     go_error + (TapBranch list \<times> TapscriptProof list)" where
  "pairLeaves C index i [] branches ps = Inr (branches, ps)"
| "pairLeaves C index i [leaf] branches ps =
     (if branches = [] then Inl goPanic
      else
        let branchToMerge = last branches;
            branches = butlast branches @ [(branchNode branchToMerge, LeafNode leaf)];
            branchHash = TapHash C (branchNode branchToMerge);
            ps = extend_proof i branchHash (set_leaf i leaf ps);
            lastLeafHash = TapLeaf_TapHash C leaf;
            leftLeafIndex = index_of index (TapHash C (fst branchToMerge));
            ps = extend_proof leftLeafIndex lastLeafHash ps;
            rightLeafIndex = index_of index (TapHash C (snd branchToMerge));
            ps = extend_proof rightLeafIndex lastLeafHash ps
        in Inr (branches, ps))"
| "pairLeaves C index i (left # right # leaves) branches ps =
     (let leftHash = TapLeaf_TapHash C left;
          rightHash = TapLeaf_TapHash C right;
          ps = extend_proof i rightHash (set_leaf i left ps);
          ps = extend_proof (i + 1) leftHash (set_leaf (i + 1) right ps)
      in pairLeaves C index (i + 2) leaves (branches @ [(LeafNode left, LeafNode right)]) ps)"

definition extend_all ::
  "crypto \<Rightarrow> (hash \<Rightarrow> nat option) \<Rightarrow> TapNode list \<Rightarrow> bytes \<Rightarrow> TapscriptProof list \<Rightarrow> TapscriptProof list" where
  "extend_all C index leaves h ps =
     fold (\<lambda>leaf ps. extend_proof (index_of index (TapHash C leaf)) h ps) leaves ps"

text \<open>The second phase: the first two branches are merged and queued until one is left.\<close>

function mergeBranches ::
  "crypto \<Rightarrow> (hash \<Rightarrow> nat option) \<Rightarrow> TapBranch list \<Rightarrow> TapscriptProof list \<Rightarrow>
     TapNode option \<times> TapscriptProof list" where
  "mergeBranches C index [] ps = (None, ps)"
| "mergeBranches C index [b] ps = (Some (branchNode b), ps)"
| "mergeBranches C index (left # right # branches) ps =
     (let l = branchNode left; r = branchNode right;
          ps = extend_all C index (leafDescendants l) (TapHash C r) ps;
          ps = extend_all C index (leafDescendants r) (TapHash C l) ps
      in mergeBranches C index (branches @ [(l, r)]) ps)"
  by pat_completeness auto

termination by (relation "measure (\<lambda>(C, index, branches, ps). length branches)") auto

definition AssembleTaprootScriptTree :: "crypto \<Rightarrow> TapLeaf list \<Rightarrow> go_error + IndexedTapScriptTree" where
  "AssembleTaprootScriptTree C leaves =
     (if length leaves = 1 then
        let leaf = leaves ! 0
        in Inr \<lparr>tree_RootNode = Some (LeafNode leaf),
                tree_LeafMerkleProofs =
                  [\<lparr>tp_TapLeaf = leaf, tp_RootNode = Some (LeafNode leaf), tp_InclusionProof = []\<rparr>],
                tree_LeafProofIndex = Map.empty(TapLeaf_TapHash C leaf \<mapsto> 0)\<rparr>
      else
        let index = leafIndex C 0 leaves Map.empty
        in sbind (pairLeaves C index 0 leaves [] (replicate (length leaves) empty_proof))
             (\<lambda>(branches, ps).
                let (rootNode, ps) = mergeBranches C index branches ps
                in Inr \<lparr>tree_RootNode = rootNode,
                        tree_LeafMerkleProofs = map (\<lambda>p. p\<lparr>tp_RootNode := rootNode\<rparr>) ps,
                        tree_LeafProofIndex = index\<rparr>))"

definition PayToTaprootScript :: "bytes \<Rightarrow> bytes \<times> go_error option" where
  "PayToTaprootScript taprootKey =
     sb_Script (AddData (SerializePubKey taprootKey) (AddOp OP_1 NewScriptBuilder))"

subsection \<open>The signature cache\<close>

record sigCacheEntry =
  sce_sig :: bytes
  sce_pubKey :: bytes

type_synonym SigCache = "(hash, sigCacheEntry) randEvictCache"

definition NewSigCache :: "nat \<Rightarrow> SigCache" where
  "NewSigCache maxEntries = newRandEvictCache maxEntries"

definition SigCache_Exists :: "SigCache \<Rightarrow> hash \<Rightarrow> bytes \<Rightarrow> bytes \<Rightarrow> bool" where
  "SigCache_Exists s sigHash sig pubKey =
     (case re_get s sigHash of
        None \<Rightarrow> False
      | Some entry \<Rightarrow> sce_pubKey entry = pubKey \<and> sce_sig entry = sig)"

type_synonym sig_pick = "(hash \<times> sigCacheEntry) list \<Rightarrow> nat"

definition SigCache_Add :: "sig_pick \<Rightarrow> SigCache \<Rightarrow> hash \<Rightarrow> bytes \<Rightarrow> bytes \<Rightarrow> SigCache" where
  "SigCache_Add pick s sigHash sig pubKey = re_put pick s sigHash \<lparr>sce_sig = sig, sce_pubKey = pubKey\<rparr>"

subsection \<open>Signatures\<close>

text \<open>The hash a signer of a tapscript leaf needs (\<^verbatim>\<open>sighash.go\<close>).\<close>

definition CalcTapscriptSignaturehash ::
  "crypto \<Rightarrow> TxSigHashes \<Rightarrow> SigHashType \<Rightarrow> MsgTx \<Rightarrow> int \<Rightarrow> PrevOutputFetcher \<Rightarrow> TapLeaf \<Rightarrow>
     TaprootSigHashOption list \<Rightarrow> go_error + hash" where
  "CalcTapscriptSignaturehash C sigHashes hType tx idx prevOutFetcher tapLeaf sigHashOpts =
     calcTaprootSignatureHashRaw C sigHashes hType tx idx prevOutFetcher
       (WithBaseTapscriptVersion blankCodeSepValue (TapLeaf_TapHash C tapLeaf) # sigHashOpts)"

definition SignatureSize :: nat where "SignatureSize = 64"

definition parseTaprootSigAndPubKey ::
  "crypto \<Rightarrow> bytes \<Rightarrow> bytes \<Rightarrow> go_error + (bytes \<times> bytes \<times> SigHashType)" where
  "parseTaprootSigAndPubKey C pkBytes rawSig =
     (case c_ParsePubKey C pkBytes of
        None \<Rightarrow> Inl otherError
      | Some pubKey \<Rightarrow>
          if length rawSig = SignatureSize then
            (case c_ParseSignature C rawSig of
               None \<Rightarrow> Inl otherError
             | Some sig \<Rightarrow> Inr (pubKey, sig, SigHashDefault))
          else if length rawSig = SignatureSize + 1 \<and> rawSig ! 64 \<noteq> 0 then
            (case c_ParseSignature C (take SignatureSize rawSig) of
               None \<Rightarrow> Inl otherError
             | Some sig \<Rightarrow> Inr (pubKey, sig, unat (rawSig ! SignatureSize)))
          else Inl (scriptError ErrInvalidTaprootSigLen))"

record taprootSigVerifier =
  v_pubKey :: bytes
  v_pkBytes :: bytes
  v_fullSigBytes :: bytes
  v_sig :: bytes
  v_hashType :: SigHashType
  v_hashCache :: TxSigHashes
  v_tx :: MsgTx
  v_inputIndex :: int
  v_annex :: "bytes option"
  v_prevOuts :: PrevOutputFetcher

definition newTaprootSigVerifier ::
  "crypto \<Rightarrow> bytes \<Rightarrow> bytes \<Rightarrow> MsgTx \<Rightarrow> int \<Rightarrow> PrevOutputFetcher \<Rightarrow> TxSigHashes \<Rightarrow> bytes option \<Rightarrow>
     go_error + taprootSigVerifier" where
  "newTaprootSigVerifier C pkBytes fullSigBytes tx inputIndex prevOuts hashCache annex =
     sbind (parseTaprootSigAndPubKey C pkBytes fullSigBytes) (\<lambda>(pubKey, sig, sigHashType).
       Inr \<lparr>v_pubKey = pubKey, v_pkBytes = pkBytes, v_fullSigBytes = fullSigBytes, v_sig = sig,
            v_hashType = sigHashType, v_hashCache = hashCache, v_tx = tx, v_inputIndex = inputIndex,
            v_annex = annex, v_prevOuts = prevOuts\<rparr>)"

text \<open>The cache is an optional pointer; \<open>None\<close> is nil.\<close>

definition verifySig ::
  "crypto \<Rightarrow> sig_pick \<Rightarrow> taprootSigVerifier \<Rightarrow> hash \<Rightarrow> SigCache option \<Rightarrow> bool \<times> SigCache option" where
  "verifySig C pick t sigHash sigCache =
     (let hit = (case sigCache of
                   None \<Rightarrow> False
                 | Some c \<Rightarrow> SigCache_Exists c sigHash (v_fullSigBytes t) (v_pkBytes t))
      in if hit then (True, sigCache)
         else if c_VerifySig C (v_sig t) sigHash (v_pubKey t) then
           (True, map_option (\<lambda>c. SigCache_Add pick c sigHash (v_fullSigBytes t) (v_pkBytes t)) sigCache)
         else (False, sigCache))"

text \<open>\<open>Verify\<close> of a key spend; \<open>Inl\<close> is a panic of the hash computation.\<close>

definition taproot_Verify ::
  "crypto \<Rightarrow> sig_pick \<Rightarrow> taprootSigVerifier \<Rightarrow> SigCache option \<Rightarrow> go_error + (bool \<times> SigCache option)" where
  "taproot_Verify C pick t sigCache =
     (let opts = (case v_annex t of None \<Rightarrow> [] | Some annex \<Rightarrow> [WithAnnex C annex])
      in case calcTaprootSignatureHashRaw C (v_hashCache t) (v_hashType t) (v_tx t) (v_inputIndex t)
                (v_prevOuts t) opts of
           Inl e \<Rightarrow> (if e = goPanic then Inl goPanic else Inr (False, sigCache))
         | Inr sigHash \<Rightarrow> Inr (verifySig C pick t sigHash sigCache))"

definition VerifyTaprootKeySpend ::
  "crypto \<Rightarrow> sig_pick \<Rightarrow> bytes \<Rightarrow> bytes \<Rightarrow> MsgTx \<Rightarrow> int \<Rightarrow> PrevOutputFetcher \<Rightarrow> TxSigHashes \<Rightarrow>
     SigCache option \<Rightarrow> go_error + SigCache option" where
  "VerifyTaprootKeySpend C pick witnessProgram rawSig tx inputIndex prevOuts hashCache sigCache =
     sbind (go_index (tx_TxIn tx) inputIndex) (\<lambda>txIn.
       let witness = ti_Witness txIn;
           annex = (if isAnnexedWitness witness
                    then (case extractAnnex witness of Inl _ \<Rightarrow> None | Inr a \<Rightarrow> Some a) else None)
       in sbind (newTaprootSigVerifier C witnessProgram rawSig tx inputIndex prevOuts hashCache annex)
            (\<lambda>keySpendVerifier.
              sbind (taproot_Verify C pick keySpendVerifier sigCache) (\<lambda>(sigValid, sigCache).
                if sigValid then Inr sigCache else Inl (scriptError ErrTaprootSigInvalid))))"

subsection \<open>Inclusion proofs\<close>

lemma bytes_less_total: "\<not> bytes_less l r \<Longrightarrow> \<not> bytes_less r l \<Longrightarrow> l = r"
  by (induction l r rule: bytes_less.induct) (auto elim: bytes_less.elims simp: neq_Nil_conv)

lemma bytes_less_asym: "bytes_less l r \<Longrightarrow> \<not> bytes_less r l"
  by (induction l r rule: bytes_less.induct) auto

lemma tapBranchHash_commute: "tapBranchHash C l r = tapBranchHash C r l"
  using bytes_less_total [of l r] bytes_less_asym [of l r] by (auto simp: tapBranchHash_def)

lemma tapBranchHash_length: "crypto_ok C \<Longrightarrow> length (tapBranchHash C l r) = 32"
  by (simp add: tapBranchHash_def TaggedHash_length)

lemma TapHash_length: "crypto_ok C \<Longrightarrow> length (TapHash C t) = 32"
  by (cases t) (simp_all add: tapBranchHash_length TapLeaf_TapHash_def TaggedHash_length)

definition proof_hash :: "crypto \<Rightarrow> hash \<Rightarrow> bytes \<Rightarrow> hash" where
  "proof_hash C h p = fold (\<lambda>i acc. tapBranchHash C acc (take 32 (drop (32 * i) p))) [0..<length p div 32] h"

lemma computeMerkleRoot_proof_hash:
  "computeMerkleRootFromProof C v p s = proof_hash C (TapLeaf_TapHash C (NewTapLeaf v s)) p"
  by (simp add: computeMerkleRootFromProof_def proof_hash_def ControlBlockNodeSize_def)

lemma proof_hash_Nil [simp]: "proof_hash C h [] = h"
  by (simp add: proof_hash_def)

lemma proof_hash_snoc:
  assumes "32 dvd length p" "length h' = 32"
  shows "proof_hash C h (p @ h') = tapBranchHash C (proof_hash C h p) h'"
proof -
  obtain n where n: "length p = 32 * n" using assms(1) by (elim dvdE)
  have "fold (\<lambda>i acc. tapBranchHash C acc (take 32 (drop (32 * i) (p @ h')))) [0..<n] h =
    fold (\<lambda>i acc. tapBranchHash C acc (take 32 (drop (32 * i) p))) [0..<n] h"
    by (rule fold_cong) (simp_all add: n)
  then show ?thesis using n assms(2) by (simp add: proof_hash_def)
qed

text \<open>The state of the construction: proofs that lead from every leaf to the root of its tree.\<close>

primrec leaves_of :: "TapNode \<Rightarrow> TapLeaf list" where
  "leaves_of (LeafNode t) = [t]"
| "leaves_of (BranchNode l r) = leaves_of l @ leaves_of r"

lemma leafDescendants_leaves: "leafDescendants t = map LeafNode (leaves_of t)"
  by (induction t) simp_all

definition proofs_lead ::
  "crypto \<Rightarrow> TapLeaf list \<Rightarrow> TapscriptProof list \<Rightarrow> TapNode \<Rightarrow> bool" where
  "proofs_lead C leaves ps t \<longleftrightarrow>
     (\<forall>i < length leaves. leaves ! i \<in> set (leaves_of t) \<longrightarrow>
        32 dvd length (tp_InclusionProof (ps ! i)) \<and> tp_TapLeaf (ps ! i) = leaves ! i \<and>
        proof_hash C (TapLeaf_TapHash C (leaves ! i)) (tp_InclusionProof (ps ! i)) = TapHash C t)"

lemma leafIndex_other: "h \<notin> TapLeaf_TapHash C ` set leaves \<Longrightarrow> leafIndex C i leaves index h = index h"
  by (induction leaves arbitrary: i index) auto

lemma leafIndex_nth:
  assumes "distinct (map (TapLeaf_TapHash C) leaves)" "j < length leaves"
  shows "leafIndex C i leaves index (TapLeaf_TapHash C (leaves ! j)) = Some (i + j)"
  using assms
proof (induction leaves arbitrary: i j index)
  case (Cons leaf leaves)
  then show ?case by (cases j) (auto simp: leafIndex_other)
qed simp

lemma index_of_leaf:
  "distinct (map (TapLeaf_TapHash C) leaves) \<Longrightarrow> j < length leaves \<Longrightarrow>
     index_of (leafIndex C 0 leaves Map.empty) (TapLeaf_TapHash C (leaves ! j)) = j"
  by (simp add: index_of_def leafIndex_nth)

lemma extend_all_length: "length (extend_all C index ts h ps) = length ps"
  unfolding extend_all_def by (induction ts arbitrary: ps) (simp_all add: extend_proof_def)

lemma extend_all_nth:
  assumes "distinct (map (TapLeaf_TapHash C) leaves)" "length ps = length leaves" "i < length leaves"
    "distinct ls" "set ls \<subseteq> set leaves"
  shows "extend_all C (leafIndex C 0 leaves Map.empty) (map LeafNode ls) h ps ! i =
    (if leaves ! i \<in> set ls then (ps ! i)\<lparr>tp_InclusionProof := tp_InclusionProof (ps ! i) @ h\<rparr> else ps ! i)"
  using assms(2,4,5)
proof (induction ls arbitrary: ps)
  case Nil
  then show ?case by (simp add: extend_all_def)
next
  case (Cons leaf ls)
  then obtain j where j: "j < length leaves" "leaves ! j = leaf" by (auto simp: in_set_conv_nth)
  have ij: "leaves ! i = leaf \<longleftrightarrow> i = j"
    using j assms(1,3) nth_eq_iff_index_eq [of leaves i j] by (simp add: distinct_map)
  let ?ps = "extend_proof j h ps"
  have "extend_all C (leafIndex C 0 leaves Map.empty) (map LeafNode (leaf # ls)) h ps =
    extend_all C (leafIndex C 0 leaves Map.empty) (map LeafNode ls) h ?ps"
    using index_of_leaf [OF assms(1) j(1)] j(2) by (simp add: extend_all_def)
  moreover have "length ?ps = length leaves" using Cons.prems(1) by (simp add: extend_proof_def)
  ultimately show ?case
    using Cons.IH [of ?ps] Cons.prems ij j assms(3) by (auto simp: extend_proof_def)
qed

text \<open>One merge of two trees.\<close>

lemma merge_leads:
  assumes C: "crypto_ok C" "distinct (map (TapLeaf_TapHash C) leaves)" "length ps = length leaves"
    and l: "proofs_lead C leaves ps l" and r: "proofs_lead C leaves ps r"
    and d: "distinct (leaves_of l @ leaves_of r)" "set (leaves_of l @ leaves_of r) \<subseteq> set leaves"
  defines "ps' \<equiv> extend_all C (leafIndex C 0 leaves Map.empty) (leafDescendants r) (TapHash C l)
      (extend_all C (leafIndex C 0 leaves Map.empty) (leafDescendants l) (TapHash C r) ps)"
  shows "length ps' = length leaves" "proofs_lead C leaves ps' (BranchNode l r)"
    "proofs_lead C leaves ps t \<Longrightarrow> set (leaves_of t) \<inter> set (leaves_of l @ leaves_of r) = {} \<Longrightarrow> proofs_lead C leaves ps' t"
proof -
  show len: "length ps' = length leaves" by (simp add: ps'_def extend_all_length C(3))
  have nth: "ps' ! i = (if leaves ! i \<in> set (leaves_of l)
       then (ps ! i)\<lparr>tp_InclusionProof := tp_InclusionProof (ps ! i) @ TapHash C r\<rparr>
       else if leaves ! i \<in> set (leaves_of r)
       then (ps ! i)\<lparr>tp_InclusionProof := tp_InclusionProof (ps ! i) @ TapHash C l\<rparr> else ps ! i)"
    if "i < length leaves" for i
    using that d extend_all_nth [OF C(2,3) that, of "leaves_of l" "TapHash C r"]
      extend_all_nth [OF C(2) _ that, of "extend_all C (leafIndex C 0 leaves Map.empty) (leafDescendants l) (TapHash C r) ps" "leaves_of r" "TapHash C l"]
    by (auto simp: ps'_def leafDescendants_leaves extend_all_length C(3))
  show "proofs_lead C leaves ps' (BranchNode l r)"
    using l r d(1) unfolding proofs_lead_def
    by (auto simp: nth proof_hash_snoc TapHash_length [OF C(1)] tapBranchHash_commute)
  show "proofs_lead C leaves ps' t"
    if "proofs_lead C leaves ps t" "set (leaves_of t) \<inter> set (leaves_of l @ leaves_of r) = {}"
    using that unfolding proofs_lead_def by (auto simp: nth)
qed

text \<open>The invariant of both phases over the list of trees.\<close>

definition forest_ok :: "crypto \<Rightarrow> TapLeaf list \<Rightarrow> TapscriptProof list \<Rightarrow> TapNode list \<Rightarrow> bool" where
  "forest_ok C leaves ps ts \<longleftrightarrow> length ps = length leaves \<and> distinct (concat (map leaves_of ts)) \<and>
     set (concat (map leaves_of ts)) = set leaves \<and> (\<forall>t \<in> set ts. proofs_lead C leaves ps t)"

lemma mergeBranches_ok:
  assumes "crypto_ok C" "distinct (map (TapLeaf_TapHash C) leaves)" "bs \<noteq> []"
    "forest_ok C leaves ps (map branchNode bs)"
  shows "\<exists>t ps'. mergeBranches C (leafIndex C 0 leaves Map.empty) bs ps = (Some t, ps') \<and> forest_ok C leaves ps' [t]"
  using assms(3,4)
proof (induction "length bs" arbitrary: bs ps rule: less_induct)
  case less
  consider b where "bs = [b]" | l r rest where "bs = l # r # rest"
    using less.prems(1) by (metis list.exhaust)
  then show ?case
  proof cases
    case 1
    then show ?thesis using less.prems(2) by simp
  next
    case 2
    let ?l = "branchNode l" and ?r = "branchNode r"
    let ?ps = "extend_all C (leafIndex C 0 leaves Map.empty) (leafDescendants ?r) (TapHash C ?l)
      (extend_all C (leafIndex C 0 leaves Map.empty) (leafDescendants ?l) (TapHash C ?r) ps)"
    have f: "length ps = length leaves" "proofs_lead C leaves ps ?l" "proofs_lead C leaves ps ?r"
      "distinct (leaves_of ?l @ leaves_of ?r)" "set (leaves_of ?l @ leaves_of ?r) \<subseteq> set leaves"
      using less.prems(2) 2 by (auto simp: forest_ok_def)
    note m = merge_leads [OF assms(1,2) f]
    have "proofs_lead C leaves ?ps t" if "t \<in> set (map branchNode rest)" for t
      using that m(3) [of t] less.prems(2) 2 by (fastforce simp: forest_ok_def)
    then have "forest_ok C leaves ?ps (map branchNode (rest @ [(?l, ?r)]))"
      using m(1,2) less.prems(2) 2 by (auto simp: forest_ok_def branchNode_def)
    with less.hyps [of "rest @ [(?l, ?r)]" ?ps] 2 show ?thesis by (simp add: Let_def)
  qed
qed

definition paired :: "crypto \<Rightarrow> TapLeaf list \<Rightarrow> nat \<Rightarrow> TapBranch list \<Rightarrow> TapscriptProof list \<Rightarrow> bool" where
  "paired C leaves i bs ps \<longleftrightarrow> length ps = length leaves \<and>
     concat (map (leaves_of \<circ> branchNode) bs) = take i leaves \<and>
     (\<forall>b \<in> set bs. (\<exists>x y. b = (LeafNode x, LeafNode y)) \<and> proofs_lead C leaves ps (branchNode b)) \<and>
     (\<forall>j. i \<le> j \<and> j < length leaves \<longrightarrow> ps ! j = empty_proof)"

lemma extend_proof_commute:
  "i \<noteq> j \<Longrightarrow> extend_proof i a (extend_proof j b ps) = extend_proof j b (extend_proof i a ps)"
  by (simp add: extend_proof_def list_update_swap)

lemma drop_Cons_nth: "drop i xs = y # ys \<Longrightarrow> i < length xs \<and> xs ! i = y \<and> drop (Suc i) xs = ys"
  by (metis Cons_nth_drop_Suc drop_eq_Nil list.distinct(1) list.inject not_le)

lemma leaf_position:
  assumes "distinct leaves" "i < length leaves" "j < length leaves" "leaves ! j \<in> set (take i leaves)"
  shows "j < i"
proof -
  obtain k where "k < i" "k < length leaves" "leaves ! k = leaves ! j"
    using assms(4) by (auto simp: in_set_conv_nth)
  then show ?thesis using assms nth_eq_iff_index_eq by blast
qed

lemma pair_step:
  assumes "crypto_ok C" "distinct leaves" "paired C leaves i bs ps" "drop i leaves = left # right # rest"
    "ps' = extend_proof (i + 1) (TapLeaf_TapHash C left) (set_leaf (i + 1) right
      (extend_proof i (TapLeaf_TapHash C right) (set_leaf i left ps)))"
  shows "paired C leaves (i + 2) (bs @ [(LeafNode left, LeafNode right)]) ps'"
proof -
  have i: "i < length leaves" "leaves ! i = left" "Suc i < length leaves" "leaves ! Suc i = right"
    using drop_Cons_nth [OF assms(4)] drop_Cons_nth [of "Suc i" leaves right rest] by simp_all
  have p: "length ps = length leaves" "\<And>j. i \<le> j \<Longrightarrow> j < length leaves \<Longrightarrow> ps ! j = empty_proof"
    "concat (map (leaves_of \<circ> branchNode) bs) = take i leaves"
    using assms(3) by (simp_all add: paired_def)
  have nth: "ps' ! j = (if j = i then \<lparr>tp_TapLeaf = left, tp_RootNode = None, tp_InclusionProof = TapLeaf_TapHash C right\<rparr>
      else if j = Suc i then \<lparr>tp_TapLeaf = right, tp_RootNode = None, tp_InclusionProof = TapLeaf_TapHash C left\<rparr>
      else ps ! j)" if "j < length leaves" for j
    using that i p by (auto simp: assms(5) extend_proof_def set_leaf_def empty_proof_def nth_list_update)
  have len': "length ps' = length leaves" using p(1) by (simp add: assms(5) extend_proof_def set_leaf_def)
  have len: "length (TapLeaf_TapHash C x) = 32" for x using TapHash_length [OF assms(1), of "LeafNode x"] by simp
  have at: "leaves ! j = left \<longleftrightarrow> j = i" "leaves ! j = right \<longleftrightarrow> j = Suc i" if "j < length leaves" for j
    using that i assms(2) nth_eq_iff_index_eq by blast+
  have snoc: "proof_hash C h h' = tapBranchHash C h h'" if "length h' = 32" for h h'
    using proof_hash_snoc [of "[]" h' C h] that by simp
  have "proofs_lead C leaves ps' (branchNode (LeafNode left, LeafNode right))"
    unfolding proofs_lead_def by (auto simp: branchNode_def nth at i len snoc tapBranchHash_commute)
  moreover have "proofs_lead C leaves ps' (branchNode b)" if "b \<in> set bs" for b
  proof -
    have "j < i" if "j < length leaves" "leaves ! j \<in> set (leaves_of (branchNode b))" for j
    proof (rule leaf_position [OF assms(2) i(1) that(1)])
      show "leaves ! j \<in> set (take i leaves)" using that(2) \<open>b \<in> set bs\<close> by (auto simp flip: p(3))
    qed
    moreover have "proofs_lead C leaves ps (branchNode b)" using assms(3) that by (auto simp: paired_def)
    ultimately show ?thesis unfolding proofs_lead_def by (fastforce simp: nth)
  qed
  moreover have "take (Suc (Suc i)) leaves = take i leaves @ [left, right]" using i by (simp add: take_Suc_conv_app_nth)
  ultimately show ?thesis
    using assms(3) p i len' by (auto simp: paired_def nth) (simp_all add: branchNode_def)
qed

lemma last_leaf_step:
  assumes "crypto_ok C" "distinct (map (TapLeaf_TapHash C) leaves)" "paired C leaves i bs ps" "drop i leaves = [leaf]" "bs \<noteq> []"
  shows "\<exists>bs' ps'. pairLeaves C (leafIndex C 0 leaves Map.empty) i [leaf] bs ps = Inr (bs', ps') \<and>
     forest_ok C leaves ps' (map branchNode bs')"
proof -
  have dl: "distinct leaves" using assms(2) by (simp add: distinct_map)
  have i: "i < length leaves" "leaves ! i = leaf" "length leaves = Suc i"
    using drop_Cons_nth [OF assms(4)] arg_cong [OF assms(4), of length] by simp_all
  obtain b bs0 where bs: "bs = bs0 @ [b]" using assms(5) by (metis append_butlast_last_id)
  have p: "length ps = length leaves" "ps ! i = empty_proof" 
    "concat (map (leaves_of \<circ> branchNode) bs) = take i leaves" "\<And>b. b \<in> set bs \<Longrightarrow> proofs_lead C leaves ps (branchNode b)"
    using assms(3) i by (simp_all add: paired_def)
  obtain x y where b: "b = (LeafNode x, LeafNode y)" using assms(3) bs by (auto simp: paired_def)
  let ?ps = "set_leaf i leaf ps"
  have ps: "length ?ps = length leaves" "\<And>j. ?ps ! j = (if j = i then (ps ! i)\<lparr>tp_TapLeaf := leaf\<rparr> else ps ! j)"
    using p(1) i by (auto simp: set_leaf_def nth_list_update)
  have all: "concat (map leaves_of (map branchNode bs)) @ [leaf] = leaves"
    using p(3) i take_Suc_conv_app_nth [of i leaves] by (simp add: comp_def)
  have at: "leaves ! j = leaf \<longleftrightarrow> j = i" if "j < length leaves" for j
    using that i dl nth_eq_iff_index_eq by blast
  have new: "leaf \<notin> set (leaves_of (branchNode c))" if "c \<in> set bs" for c
    using that dl all by (metis (no_types, lifting) UN_I disjoint_insert(2) distinct_append image_eqI list.set_map list.simps(15) set_concat)
  have lead: "proofs_lead C leaves ?ps (branchNode c)" if "c \<in> set bs" for c
    using p(4) [OF that] new [OF that] i unfolding proofs_lead_def by (auto simp: ps)
  have leadl: "proofs_lead C leaves ?ps (LeafNode leaf)"
    unfolding proofs_lead_def by (auto simp: at ps p(2) empty_proof_def i(2))
  have d: "distinct (leaves_of (branchNode b) @ leaves_of (LeafNode leaf))"
    "set (leaves_of (branchNode b) @ leaves_of (LeafNode leaf)) \<subseteq> set leaves"
    using all dl bs by (auto simp flip: all)
  note m = merge_leads [OF assms(1,2) ps(1) lead leadl d]
  obtain ix iy where ix: "ix < length leaves" "leaves ! ix = x" "iy < length leaves" "leaves ! iy = y"
    using d(2) by (auto simp: b branchNode_def in_set_conv_nth)
  have ne: "ix \<noteq> i" "iy \<noteq> i" using d(1) ix i by (auto simp: b branchNode_def)
  have idx: "index_of (leafIndex C 0 leaves Map.empty) (TapLeaf_TapHash C x) = ix"
    "index_of (leafIndex C 0 leaves Map.empty) (TapLeaf_TapHash C y) = iy"
    "index_of (leafIndex C 0 leaves Map.empty) (TapLeaf_TapHash C leaf) = i"
    using index_of_leaf [OF assms(2)] ix i by auto
  let ?ps' = "extend_all C (leafIndex C 0 leaves Map.empty) (leafDescendants (LeafNode leaf)) (TapHash C (branchNode b))
      (extend_all C (leafIndex C 0 leaves Map.empty) (leafDescendants (branchNode b)) (TapHash C (LeafNode leaf)) ?ps)"
  have eq: "?ps' = extend_proof iy (TapLeaf_TapHash C leaf) (extend_proof ix (TapLeaf_TapHash C leaf)
      (extend_proof i (TapHash C (branchNode b)) ?ps))"
    using ne by (simp add: extend_all_def b branchNode_def idx extend_proof_commute [of i])
  have "pairLeaves C (leafIndex C 0 leaves Map.empty) i [leaf] bs ps = Inr (bs0 @ [(branchNode b, LeafNode leaf)], ?ps')"
    unfolding eq by (simp add: bs b idx Let_def)
  moreover have "forest_ok C leaves ?ps' (map branchNode (bs0 @ [(branchNode b, LeafNode leaf)]))"
  proof -
    have "proofs_lead C leaves ?ps' (branchNode c)" if "c \<in> set bs0" for c
      using that bs dl new [of c] by (intro m(3) lead) (auto simp flip: all)
    then show ?thesis using m(1,2) dl bs by (auto simp: forest_ok_def branchNode_def simp flip: all)
  qed
  ultimately show ?thesis by blast
qed

lemma pairLeaves_ok:
  assumes "crypto_ok C" "distinct (map (TapLeaf_TapHash C) leaves)" "length leaves \<noteq> 1"
    "paired C leaves i bs ps" "rest = drop i leaves" "i \<le> length leaves"
  shows "\<exists>bs' ps'. pairLeaves C (leafIndex C 0 leaves Map.empty) i rest bs ps = Inr (bs', ps') \<and>
     forest_ok C leaves ps' (map branchNode bs')"
  using assms(4-6)
proof (induction "length rest" arbitrary: rest i bs ps rule: less_induct)
  case less
  have dl: "distinct leaves" using assms(2) by (simp add: distinct_map)
  consider "rest = []" | leaf where "rest = [leaf]" | left right rest' where "rest = left # right # rest'"
    by (metis list.exhaust)
  then show ?case
  proof cases
    case 1
    then have "i = length leaves" using less.prems by simp
    then show ?thesis using 1 less.prems(1) dl
      by (auto simp: paired_def forest_ok_def comp_def)
  next
    case (2 leaf)
    have "bs \<noteq> []"
    proof
      assume "bs = []"
      then have "take i leaves = []" using less.prems(1) by (auto simp: paired_def)
      then show False using 2 less.prems(2) assms(3) by (cases "i = 0") auto
    qed
    then show ?thesis using last_leaf_step [OF assms(1,2) less.prems(1)] 2 less.prems(2) by simp
  next
    case (3 left right rest')
    define ps' where "ps' = extend_proof (i + 1) (TapLeaf_TapHash C left) (set_leaf (i + 1) right
      (extend_proof i (TapLeaf_TapHash C right) (set_leaf i left ps)))"
    have d: "drop i leaves = left # right # rest'" using 3 less.prems(2) by simp
    have "rest' = drop (i + 2) leaves" "i + 2 \<le> length leaves"
      using drop_Cons_nth [OF d] drop_Cons_nth [of "Suc i" leaves right rest'] by simp_all
    then have "\<exists>bs' ps''. pairLeaves C (leafIndex C 0 leaves Map.empty) (i + 2) rest' (bs @ [(LeafNode left, LeafNode right)]) ps' = Inr (bs', ps'') \<and>
       forest_ok C leaves ps'' (map branchNode bs')"
      using 3 pair_step [OF assms(1) dl less.prems(1) d ps'_def] by (intro less.hyps) simp_all
    then show ?thesis using 3 by (simp add: Let_def ps'_def)
  qed
qed

lemma NewTapLeaf_sel: "NewTapLeaf (leaf_LeafVersion l) (leaf_Script l) = l"
  by (cases l) (simp add: NewTapLeaf_def)

lemma assemble_proofs:
  assumes "crypto_ok C" "leaves \<noteq> []" "distinct (map (TapLeaf_TapHash C) leaves)"
  shows "\<exists>tree root. AssembleTaprootScriptTree C leaves = Inr tree \<and> tree_RootNode tree = Some root \<and>
     length (tree_LeafMerkleProofs tree) = length leaves \<and>
     (\<forall>i < length leaves. tree_LeafProofIndex tree (TapLeaf_TapHash C (leaves ! i)) = Some i) \<and>
     (\<forall>i < length leaves. let p = tree_LeafMerkleProofs tree ! i in
        tp_TapLeaf p = leaves ! i \<and> tp_RootNode p = Some root \<and> 32 dvd length (tp_InclusionProof p) \<and>
        computeMerkleRootFromProof C (leaf_LeafVersion (leaves ! i)) (tp_InclusionProof p) (leaf_Script (leaves ! i)) =
          TapHash C root)"
proof (cases "length leaves = 1")
  case True
  then obtain leaf where "leaves = [leaf]" by (auto simp: length_Suc_conv)
  then show ?thesis by (simp add: AssembleTaprootScriptTree_def computeMerkleRoot_proof_hash NewTapLeaf_sel)
next
  case False
  have "paired C leaves 0 [] (replicate (length leaves) empty_proof)" by (simp add: paired_def)
  from pairLeaves_ok [OF assms(1,3) False this] obtain bs ps where
    pl: "pairLeaves C (leafIndex C 0 leaves Map.empty) 0 leaves [] (replicate (length leaves) empty_proof) = Inr (bs, ps)"
      "forest_ok C leaves ps (map branchNode bs)" by auto
  then have "bs \<noteq> []" using assms(2) by (auto simp: forest_ok_def)
  then obtain t ps' where mb: "mergeBranches C (leafIndex C 0 leaves Map.empty) bs ps = (Some t, ps')" "forest_ok C leaves ps' [t]"
    using mergeBranches_ok [OF assms(1,3) _ pl(2)] by blast
  have "length ps' = length leaves" "proofs_lead C leaves ps' t" "\<And>i. i < length leaves \<Longrightarrow> leaves ! i \<in> set (leaves_of t)"
    using mb(2) by (auto simp: forest_ok_def)
  then show ?thesis using False pl(1) mb(1) leafIndex_nth [OF assms(3), of _ 0 Map.empty]
    by (auto simp: AssembleTaprootScriptTree_def computeMerkleRoot_proof_hash proofs_lead_def NewTapLeaf_sel Let_def)
qed

lemma byte_fe: "(0xfe :: byte) = NOT 1"
  by simp

lemma byte_mask_split: "(b :: byte) = (b AND 0xfe) OR (b AND 1)"
proof -
  have "(b AND NOT 1) OR (b AND 1) = b AND (NOT 1 OR 1)" by (rule bit.conj_disj_distrib [symmetric])
  also have "NOT 1 OR (1 :: byte) = - 1" by (rule bit.disj_cancel_left)
  finally show ?thesis unfolding byte_fe by simp
qed

lemma byte_mask_parity: "((b :: byte) AND 0xfe) OR (if b AND 1 = 1 then 1 else 0) = b"
proof -
  have "(if b AND 1 = 1 then 1 else 0) = b AND 1" by (simp add: and_one_eq)
  then show ?thesis by (simp only: byte_mask_split [symmetric])
qed

lemma byte_mask_even: "((b :: byte) AND 0xfe) AND 1 = 0"
  unfolding byte_fe by (simp only: and.assoc bit.conj_cancel_left bit.conj_zero_right)

lemma byte_parity:
  assumes "(v :: byte) AND 1 = 0"
  shows "(v OR 1) AND 0xfe = v" "v AND 0xfe = v" "(v OR 1) AND 1 = 1"
proof -
  show v: "v AND 0xfe = v" using byte_mask_split [of v] assms by simp
  have "(1 :: byte) AND 0xfe = 0" by simp
  then show "(v OR 1) AND 0xfe = v" using v by (simp add: bit.conj_disj_distrib2)
  show "(v OR 1) AND 1 = 1" using assms by (simp add: bit.conj_disj_distrib2)
qed

lemma merkleroot_control_block_roundtrip:
  assumes "mcb_LeafVersion c AND 1 = 0" "32 dvd length (mcb_InclusionProof c)" "length (mcb_InclusionProof c) \<le> 32 * 128"
  shows "ParseMerkleRootControlBlock (MerkleRoot_ToBytes c) = Inr c"
  using assms by (cases c)
    (auto simp: ParseMerkleRootControlBlock_def MerkleRoot_ToBytes_def control_block_sizes TaprootLeafMask_def byte_parity)

lemma merkleroot_control_block_canonical:
  assumes "ParseMerkleRootControlBlock b = Inr c"
  shows "MerkleRoot_ToBytes c = b \<and> mcb_LeafVersion c AND 1 = 0 \<and> 32 dvd length (mcb_InclusionProof c) \<and>
    length (mcb_InclusionProof c) \<le> 32 * 128"
proof -
  obtain x xs where b: "b = x # xs"
    using assms by (cases b) (simp_all add: ParseMerkleRootControlBlock_def control_block_sizes)
  have x: "x AND 1 = 1" "c = \<lparr>mcb_LeafVersion = x AND 0xfe, mcb_InclusionProof = xs\<rparr>" "length xs mod 32 = 0" "length xs \<le> 32 * 128"
    using assms unfolding b
    by (auto simp: ParseMerkleRootControlBlock_def control_block_sizes TaprootLeafMask_def split: if_splits)
  note byte_mask_even [of x]
  then show ?thesis using x byte_mask_parity [of x] b by (simp add: MerkleRoot_ToBytes_def dvd_eq_mod_eq_0)
qed

lemma control_block_roundtrip:
  assumes "cb_LeafVersion c AND 1 = 0" "32 dvd length (cb_InclusionProof c)" "length (cb_InclusionProof c) \<le> 32 * 128"
    "c_ParsePubKey C (SerializePubKey (cb_InternalKey c)) = Some (cb_InternalKey c)" "length (cb_InternalKey c) = 33"
  shows "ParseControlBlock C (ControlBlock_ToBytes c) = Inr c"
proof -
  have "length (SerializePubKey (cb_InternalKey c)) = 32" using assms(5) by (simp add: SerializePubKey_def)
  then show ?thesis using assms
    by (cases c)
       (auto simp: ParseControlBlock_def ControlBlock_ToBytes_def control_block_sizes TaprootLeafMask_def byte_parity)
qed

lemma control_block_canonical:
  assumes "crypto_ok C" "ParseControlBlock C b = Inr c"
  shows "ControlBlock_ToBytes c = b"
proof -
  obtain x xs where b: "b = x # xs"
    using assms(2) by (cases b) (simp_all add: ParseControlBlock_def control_block_sizes)
  obtain p where p: "c_ParsePubKey C (take 32 xs) = Some p"
     "c = \<lparr>cb_InternalKey = p, cb_OutputKeyYIsOdd = (x AND 1 = 1), cb_LeafVersion = x AND 0xfe, cb_InclusionProof = drop 32 xs\<rparr>"
    using assms(2) unfolding b
    by (auto simp: ParseControlBlock_def control_block_sizes TaprootLeafMask_def Let_def split: if_splits option.splits)
  have "tl p = take 32 xs" using assms(1) p(1) by (simp add: crypto_ok_def)
  then show ?thesis using p(2) byte_mask_parity [of x] b by (simp add: ControlBlock_ToBytes_def SerializePubKey_def)
qed

definition sig_cache_sound :: "crypto \<Rightarrow> SigCache \<Rightarrow> bool" where
  "sig_cache_sound C c \<longleftrightarrow> cache_ok c \<and>
     (\<forall>h e. re_get c h = Some e \<longrightarrow>
        (\<exists>pk sig ht. parseTaprootSigAndPubKey C (sce_pubKey e) (sce_sig e) = Inr (pk, sig, ht) \<and> c_VerifySig C sig h pk))"

lemma verifySig_transparent:
  assumes "newTaprootSigVerifier C pkBytes sigBytes tx idx prevOuts hc annex = Inr v"
    "case sigCache of None \<Rightarrow> True | Some c \<Rightarrow> sig_cache_sound C c"
  shows "fst (verifySig C pick v h sigCache) = c_VerifySig C (v_sig v) h (v_pubKey v) \<and>
     (case snd (verifySig C pick v h sigCache) of None \<Rightarrow> sigCache = None | Some c \<Rightarrow> sig_cache_sound C c)"
proof -
  obtain ht where v: "parseTaprootSigAndPubKey C (v_pkBytes v) (v_fullSigBytes v) = Inr (v_pubKey v, v_sig v, ht)"
    using assms(1) by (auto simp: newTaprootSigVerifier_def sbind_eq_Inr)
  show ?thesis
  proof (cases sigCache)
    case None
    then show ?thesis by (simp add: verifySig_def Let_def)
  next
    case (Some c)
    then have sound: "sig_cache_sound C c" using assms(2) by simp
    then have ok: "cache_ok c" by (simp add: sig_cache_sound_def)
    have hit: "c_VerifySig C (v_sig v) h (v_pubKey v)" if "SigCache_Exists c h (v_fullSigBytes v) (v_pkBytes v)"
      using that sound v by (fastforce simp: SigCache_Exists_def sig_cache_sound_def split: option.splits)
    let ?P = "\<lambda>h e. \<exists>pk sig ht. parseTaprootSigAndPubKey C (sce_pubKey e) (sce_sig e) = Inr (pk, sig, ht) \<and> c_VerifySig C sig h pk"
    have "sig_cache_sound C (SigCache_Add pick c h (v_fullSigBytes v) (v_pkBytes v))" if "c_VerifySig C (v_sig v) h (v_pubKey v)"
      unfolding sig_cache_sound_def SigCache_Add_def
    proof (intro conjI allI impI)
      show "cache_ok (re_put pick c h \<lparr>sce_sig = v_fullSigBytes v, sce_pubKey = v_pkBytes v\<rparr>)" by (rule rand_evict.put_inv [OF ok])
      show "?P h' e" if "re_get (re_put pick c h \<lparr>sce_sig = v_fullSigBytes v, sce_pubKey = v_pkBytes v\<rparr>) h' = Some e" for h' e
        by (rule rand_evict.entries_put [OF ok _ _ that, where P = ?P])
           (use sound v \<open>c_VerifySig C (v_sig v) h (v_pubKey v)\<close> in \<open>auto simp: sig_cache_sound_def\<close>)
    qed
    then show ?thesis using Some hit sound by (auto simp: verifySig_def Let_def)
  qed
qed
subsection \<open>Properties\<close>

text \<open>
  C18. Every leaf of an assembled script tree can be spent: for leaves with different hashes the tree has a root node, and a proof
  for every leaf, found under the hash of the leaf; the
  control block of each leaf passes the taproot commitment check against the output key that commits to this root, and its
  inclusion proof passes the merkle root check against the hash of this root.\<close>

theorem assembled_tree_spendable:
  assumes "crypto_ok C" "leaves \<noteq> []" "distinct (map (TapLeaf_TapHash C) leaves)"
    "c_ParsePubKey C (SerializePubKey key) = Some key"
  shows "\<exists>tree root outputKey. AssembleTaprootScriptTree C leaves = Inr tree \<and> tree_RootNode tree = Some root \<and>
     length (tree_LeafMerkleProofs tree) = length leaves \<and>
     ComputeTaprootOutputKey C key (TapHash C root) = Inr outputKey \<and>
     (\<forall>i < length leaves. \<exists>cb. tree_LeafProofIndex tree (TapLeaf_TapHash C (leaves ! i)) = Some i \<and>
        tp_TapLeaf (tree_LeafMerkleProofs tree ! i) = leaves ! i \<and> ToControlBlock C (tree_LeafMerkleProofs tree ! i) key = Inr cb \<and>
        VerifyTaprootLeafCommitment C cb (SerializePubKey outputKey) (leaf_Script (leaves ! i)) = Inr () \<and>
        VerifyMerkleRootLeafCommitment C \<lparr>mcb_LeafVersion = cb_LeafVersion cb, mcb_InclusionProof = cb_InclusionProof cb\<rparr>
          (TapHash C root) (leaf_Script (leaves ! i)) = Inr ())"
proof -
  obtain tree root where t: "AssembleTaprootScriptTree C leaves = Inr tree" "tree_RootNode tree = Some root"
    "\<And>i. i < length leaves \<Longrightarrow> tree_LeafProofIndex tree (TapLeaf_TapHash C (leaves ! i)) = Some i" "length (tree_LeafMerkleProofs tree) = length leaves"
    "\<And>i. i < length leaves \<Longrightarrow> let p = tree_LeafMerkleProofs tree ! i in
        tp_TapLeaf p = leaves ! i \<and> tp_RootNode p = Some root \<and>
        computeMerkleRootFromProof C (leaf_LeafVersion (leaves ! i)) (tp_InclusionProof p) (leaf_Script (leaves ! i)) = TapHash C root"
    using assemble_proofs [OF assms(1-3)] by (auto simp: Let_def)
  obtain out where "ComputeTaprootOutputKey C key (TapHash C root) = Inr out"
    using assms(4) by (simp add: ComputeTaprootOutputKey_def Let_def)
  with t show ?thesis
    by (intro exI [of _ tree] exI [of _ root] exI [of _ out])
       (simp add: ToControlBlock_def VerifyTaprootLeafCommitment_def VerifyMerkleRootLeafCommitment_def
          ControlBlock_RootHash_def MerkleRoot_RootHash_def Let_def)
qed

theorem assembled_tree_spendable_witness:
  "\<exists>tree root outputKey. AssembleTaprootScriptTree sample_crypto [NewBaseTapLeaf [OP_1], NewBaseTapLeaf [OP_2]] = Inr tree \<and>
     tree_RootNode tree = Some root \<and> length (tree_LeafMerkleProofs tree) = 2 \<and>
     ComputeTaprootOutputKey sample_crypto (2 # replicate 32 4) (TapHash sample_crypto root) = Inr outputKey"
proof -
  have "TapLeaf_TapHash sample_crypto (NewBaseTapLeaf [OP_1]) \<noteq> TapLeaf_TapHash sample_crypto (NewBaseTapLeaf [OP_2])"
    by code_simp
  then have d: "distinct (map (TapLeaf_TapHash sample_crypto) [NewBaseTapLeaf [OP_1], NewBaseTapLeaf [OP_2]])" by simp
  have pk: "c_ParsePubKey sample_crypto (SerializePubKey (2 # replicate 32 4)) = Some (2 # replicate 32 4)"
    by (simp add: sample_crypto_def SerializePubKey_def)
  obtain tree root outputKey where
    "AssembleTaprootScriptTree sample_crypto [NewBaseTapLeaf [OP_1], NewBaseTapLeaf [OP_2]] = Inr tree" "tree_RootNode tree = Some root"
    "length (tree_LeafMerkleProofs tree) = length [NewBaseTapLeaf [OP_1], NewBaseTapLeaf [OP_2]]"
    "ComputeTaprootOutputKey sample_crypto (2 # replicate 32 4) (TapHash sample_crypto root) = Inr outputKey"
    using assembled_tree_spendable [OF sample_crypto_ok _ d pk] by blast
  then show ?thesis by auto
qed

text \<open>
  Pay-to-merkle-root control blocks are parsed from exactly one byte string: parsing accepts a
  string iff it is the serialization of a control block with an even leaf version and at most 128
  proof nodes, and returns that control block.\<close>

lemma merkleroot_control_block_iff:
  "ParseMerkleRootControlBlock b = Inr c \<longleftrightarrow>
     b = MerkleRoot_ToBytes c \<and> mcb_LeafVersion c AND 1 = 0 \<and> 32 dvd length (mcb_InclusionProof c) \<and>
     length (mcb_InclusionProof c) \<le> 32 * 128"
  using merkleroot_control_block_roundtrip [of c] merkleroot_control_block_canonical [of b c] by blast

text \<open>
  A taproot control block is read back from its serialization, and whatever parses as a control
  block is its serialization.\<close>

lemma control_block_bytes:
  assumes "crypto_ok C"
  shows "(ParseControlBlock C b = Inr c \<longrightarrow> ControlBlock_ToBytes c = b) \<and>
    (cb_LeafVersion c AND 1 = 0 \<and> 32 dvd length (cb_InclusionProof c) \<and> length (cb_InclusionProof c) \<le> 32 * 128 \<and>
     c_ParsePubKey C (SerializePubKey (cb_InternalKey c)) = Some (cb_InternalKey c) \<longrightarrow>
     ParseControlBlock C (ControlBlock_ToBytes c) = Inr c)"
proof -
  have "length p = 33" if "c_ParsePubKey C k = Some p" for k p using assms that by (auto simp: crypto_ok_def)
  then show ?thesis using control_block_canonical [OF assms] control_block_roundtrip [of c C] by blast
qed

lemma control_block_bytes_example:
  "ParseControlBlock sample_crypto (ControlBlock_ToBytes \<lparr>cb_InternalKey = 2 # replicate 32 4, cb_OutputKeyYIsOdd = True,
     cb_LeafVersion = BaseLeafVersion, cb_InclusionProof = replicate 64 1\<rparr>) =
   Inr \<lparr>cb_InternalKey = 2 # replicate 32 4, cb_OutputKeyYIsOdd = True,
     cb_LeafVersion = BaseLeafVersion, cb_InclusionProof = replicate 64 1\<rparr>"
  using control_block_bytes [OF sample_crypto_ok, of "[]" "\<lparr>cb_InternalKey = 2 # replicate 32 4, cb_OutputKeyYIsOdd = True,
     cb_LeafVersion = BaseLeafVersion, cb_InclusionProof = replicate 64 1\<rparr>"]
  by (simp add: BaseLeafVersion_def SerializePubKey_def sample_crypto_def)

text \<open>
  C19. The signature cache is sound and transparent: with a cache whose entries are valid signatures,
  the verdict on a signature is that of the Schnorr verification, a cache miss and an arbitrary
  eviction notwithstanding, and the cache still holds only valid signatures afterwards.\<close>

theorem sig_cache_transparent:
  assumes "newTaprootSigVerifier C pkBytes sigBytes tx idx prevOuts hashCache annex = Inr v"
    "sig_cache_sound C sigCache"
  shows "\<exists>sigCache'. verifySig C pick v sigHash (Some sigCache) = (c_VerifySig C (v_sig v) sigHash (v_pubKey v), Some sigCache') \<and>
     sig_cache_sound C sigCache'"
  using verifySig_transparent [OF assms(1), of "Some sigCache" pick sigHash] assms(2)
  by (cases "verifySig C pick v sigHash (Some sigCache)") (auto split: option.splits)

theorem sig_cache_transparent_witness:
  "\<exists>v sigCache'. newTaprootSigVerifier sample_crypto (replicate 32 4) (replicate 64 6) sample_tx 0 (p2mr_fetcher 1)
        (sample_sighashes zeroHash) None = Inr v \<and>
     verifySig sample_crypto (\<lambda>_. 0) v (replicate 32 6) (Some (NewSigCache 2)) = (True, Some sigCache')"
proof -
  have "\<exists>v. newTaprootSigVerifier sample_crypto (replicate 32 4) (replicate 64 6) sample_tx 0 (p2mr_fetcher 1)
        (sample_sighashes zeroHash) None = Inr v \<and> v_sig v = replicate 64 6"
    by (simp add: newTaprootSigVerifier_def parseTaprootSigAndPubKey_def sample_crypto_def SignatureSize_def)
  then obtain v where v: "newTaprootSigVerifier sample_crypto (replicate 32 4) (replicate 64 6) sample_tx 0 (p2mr_fetcher 1)
        (sample_sighashes zeroHash) None = Inr v" "v_sig v = replicate 64 6" by blast
  have "sig_cache_sound sample_crypto (NewSigCache 2)"
    by (simp add: sig_cache_sound_def NewSigCache_def newRandEvictCache_def cache_ok_def re_get_def)
  from sig_cache_transparent [OF v(1) this, of "\<lambda>_. 0" "replicate 32 6"] v show ?thesis
    by (auto simp: sample_crypto_def)
qed

end
