(* ===== verification/Script_Opcodes.thy ===== *)
theory Script_Opcodes
  imports Script_Taproot
begin

text \<open>
  The script machine's state and its opcode handlers (\<^verbatim>\<open>node/txscript/engine.go\<close>,
  \<^verbatim>\<open>opcode.go\<close>, \<^verbatim>\<open>sigvalidate.go\<close>). \<open>Engine\<close> has the fields of the Go struct except the flags
  (no handler reads them) and the debugging callback. A handler takes the opcode, its data and the
  machine and returns the updated machine or an error; after an error the code does not look at the
  machine again, so it is not part of the result. The signature cache, which outlives the machine,
  can thus be seen only after successful runs. The hash functions and signature schemes are
  the fields of the \<open>crypto\<close> record; \<open>pick\<close> is the eviction choice of the signature cache.
\<close>

subsection \<open>State\<close>

record tapscriptExecutionCtx =
  ctx_annex :: "bytes option"
  ctx_codeSepPos :: nat
  ctx_tapLeafHash :: hash
  ctx_opsBudget :: int

datatype (plugins only: code size) OpCond = OpCondFalse | OpCondTrue | OpCondSkip

record Engine =
  vm_tx :: MsgTx
  vm_txIdx :: int
  vm_version :: nat
  vm_sigCache :: "SigCache option"
  vm_hashCache :: TxSigHashes
  vm_prevOutFetcher :: PrevOutputFetcher
  vm_scripts :: "bytes list"
  vm_scriptIdx :: nat
  vm_opcodeIdx :: nat
  vm_lastCodeSep :: int
  vm_tokenizer :: ScriptTokenizer
  vm_dstack :: stack
  vm_astack :: stack
  vm_condStack :: "OpCond list"
  vm_numOps :: int
  vm_witnessVersion :: int
  vm_witnessProgram :: "bytes option"
  vm_inputAmount :: int
  vm_tapscriptCtx :: "tapscriptExecutionCtx option"

definition newTapscriptExecutionCtx :: "int \<Rightarrow> bytes option \<Rightarrow> hash \<Rightarrow> tapscriptExecutionCtx" where
  "newTapscriptExecutionCtx witnessSize annex leafHash =
     \<lparr>ctx_annex = annex, ctx_codeSepPos = blankCodeSepValue, ctx_tapLeafHash = leafHash,
      ctx_opsBudget = int32_of (sigOpsDelta + witnessSize)\<rparr>"

definition tallyOpCost :: "int \<Rightarrow> tapscriptExecutionCtx \<Rightarrow> go_error + tapscriptExecutionCtx" where
  "tallyOpCost cost t =
     (let t = t\<lparr>ctx_opsBudget := int32_of (ctx_opsBudget t - cost)\<rparr>
      in if ctx_opsBudget t < 0 then Inl (scriptError ErrTaprootMaxSigOps) else Inr t)"

definition tallysigOp :: "tapscriptExecutionCtx \<Rightarrow> go_error + tapscriptExecutionCtx" where
  "tallysigOp t = tallyOpCost sigOpsDelta t"

definition isBranchExecuting :: "Engine \<Rightarrow> bool" where
  "isBranchExecuting vm =
     (if vm_condStack vm = [] then True else last (vm_condStack vm) = OpCondTrue)"

text \<open>The message signed in a tapscript, and the verifier of tapscript signatures. \<open>Verify\<close> treats
  an error of the message as an invalid signature; a panic stays a panic.\<close>

definition CalcTapscriptSigHash ::
  "crypto \<Rightarrow> Engine \<Rightarrow> TxSigHashes \<Rightarrow> SigHashType \<Rightarrow> MsgTx \<Rightarrow> int \<Rightarrow> PrevOutputFetcher \<Rightarrow> go_error + hash" where
  "CalcTapscriptSigHash C vm hashCache hashType tx inputIndex prevOuts =
     (case vm_tapscriptCtx vm of
        None \<Rightarrow> Inl (scriptError ErrInternal)
      | Some ctx \<Rightarrow>
          calcTaprootSignatureHashRaw C hashCache hashType tx inputIndex prevOuts
            (WithBaseTapscriptVersion (ctx_codeSepPos ctx) (ctx_tapLeafHash ctx) #
             (case ctx_annex ctx of None \<Rightarrow> [] | Some annex \<Rightarrow> [WithAnnex C annex])))"

definition newBaseTapscriptSigVerifier ::
  "crypto \<Rightarrow> bytes \<Rightarrow> bytes \<Rightarrow> Engine \<Rightarrow> go_error + taprootSigVerifier" where
  "newBaseTapscriptSigVerifier C pkBytes rawSig vm =
     (if length pkBytes = 0 then Inl (scriptError ErrTaprootPubkeyIsEmpty)
      else if length pkBytes = 32 then
        (case vm_tapscriptCtx vm of
           None \<Rightarrow> Inl goPanic
         | Some ctx \<Rightarrow>
             newTaprootSigVerifier C pkBytes rawSig (vm_tx vm) (vm_txIdx vm) (vm_prevOutFetcher vm)
               (vm_hashCache vm) (ctx_annex ctx))
      else Inl (scriptError ErrDiscourageUpgradeablePubKeyType))"

definition tapscript_Verify ::
  "crypto \<Rightarrow> sig_pick \<Rightarrow> taprootSigVerifier \<Rightarrow> Engine \<Rightarrow> go_error + (bool \<times> Engine)" where
  "tapscript_Verify C pick b vm =
     (case CalcTapscriptSigHash C vm (v_hashCache b) (v_hashType b) (v_tx b) (v_inputIndex b) (v_prevOuts b) of
        Inl e \<Rightarrow> (if e = goPanic then Inl goPanic else Inr (False, vm))
      | Inr sigHash \<Rightarrow>
          let (sigValid, sigCache) = verifySig C pick b sigHash (vm_sigCache vm)
          in Inr (sigValid, vm\<lparr>vm_sigCache := sigCache\<rparr>))"

subsection \<open>Handlers: constants and control flow\<close>

type_synonym handler = "opcode \<Rightarrow> bytes \<Rightarrow> Engine \<Rightarrow> go_error + Engine"

text \<open>A call \<open>vm.dstack.f(...)\<close> that returns an error or changes the data stack.\<close>

definition on_dstack :: "(stack \<Rightarrow> go_error + stack) \<Rightarrow> Engine \<Rightarrow> go_error + Engine" where
  "on_dstack f vm = sbind (f (vm_dstack vm)) (\<lambda>s. Inr (vm\<lparr>vm_dstack := s\<rparr>))"

definition opcodeDisabled :: handler where
  "opcodeDisabled op data vm = Inl (scriptError ErrDisabledOpcode)"

definition opcodeReserved :: handler where
  "opcodeReserved op data vm = Inl (scriptError ErrReservedOpcode)"

definition opcodeInvalid :: handler where
  "opcodeInvalid op data vm = Inl (scriptError ErrReservedOpcode)"

definition opcodeFalse :: handler where
  "opcodeFalse op data vm = on_dstack (\<lambda>s. Inr (PushByteArray [] s)) vm"

definition opcodePushData :: handler where
  "opcodePushData op data vm = on_dstack (\<lambda>s. Inr (PushByteArray data s)) vm"

definition opcode1Negate :: handler where
  "opcode1Negate op data vm = on_dstack (PushInt (- 1)) vm"

definition opcodeN :: handler where
  "opcodeN op data vm = on_dstack (PushInt (uint (op_value op - (OP_1 - 1)))) vm"

definition opcodeNop :: handler where
  "opcodeNop op data vm =
     (if op_value op \<in> {OP_NOP1, OP_NOP4, OP_NOP5, OP_NOP6, OP_NOP7, OP_NOP8, OP_NOP9, OP_NOP10}
      then Inl (scriptError ErrDiscourageUpgradableNOPs) else Inr vm)"

definition popIfBool :: "stack \<Rightarrow> go_error + (bool \<times> stack)" where
  "popIfBool s =
     sbind (PopByteArray s) (\<lambda>(so, s).
       if length so > 1 then Inl (scriptError ErrMinimalIf)
       else if length so = 1 \<and> so ! 0 \<noteq> 0x01 then Inl (scriptError ErrMinimalIf)
       else Inr (asBool so, s))"

definition opcodeIf :: handler where
  "opcodeIf op data vm =
     (if isBranchExecuting vm then
        sbind (popIfBool (vm_dstack vm)) (\<lambda>(ok, s).
          Inr (vm\<lparr>vm_dstack := s, vm_condStack := vm_condStack vm @ [if ok then OpCondTrue else OpCondFalse]\<rparr>))
      else Inr (vm\<lparr>vm_condStack := vm_condStack vm @ [OpCondSkip]\<rparr>))"

definition opcodeNotIf :: handler where
  "opcodeNotIf op data vm =
     (if isBranchExecuting vm then
        sbind (popIfBool (vm_dstack vm)) (\<lambda>(ok, s).
          Inr (vm\<lparr>vm_dstack := s, vm_condStack := vm_condStack vm @ [if \<not> ok then OpCondTrue else OpCondFalse]\<rparr>))
      else Inr (vm\<lparr>vm_condStack := vm_condStack vm @ [OpCondSkip]\<rparr>))"

definition opcodeElse :: handler where
  "opcodeElse op data vm =
     (if vm_condStack vm = [] then Inl (scriptError ErrUnbalancedConditional)
      else
        let conditionalIdx = length (vm_condStack vm) - 1
        in Inr (case vm_condStack vm ! conditionalIdx of
                  OpCondTrue \<Rightarrow> vm\<lparr>vm_condStack := (vm_condStack vm)[conditionalIdx := OpCondFalse]\<rparr>
                | OpCondFalse \<Rightarrow> vm\<lparr>vm_condStack := (vm_condStack vm)[conditionalIdx := OpCondTrue]\<rparr>
                | OpCondSkip \<Rightarrow> vm))"

definition opcodeEndif :: handler where
  "opcodeEndif op data vm =
     (if vm_condStack vm = [] then Inl (scriptError ErrUnbalancedConditional)
      else Inr (vm\<lparr>vm_condStack := take (length (vm_condStack vm) - 1) (vm_condStack vm)\<rparr>))"

definition abstractVerify :: "ErrorCode \<Rightarrow> Engine \<Rightarrow> go_error + Engine" where
  "abstractVerify c vm =
     sbind (PopBool (vm_dstack vm)) (\<lambda>(verified, s).
       if \<not> verified then Inl (scriptError c) else Inr (vm\<lparr>vm_dstack := s\<rparr>))"

definition opcodeVerify :: handler where
  "opcodeVerify op data vm = abstractVerify ErrVerify vm"

definition opcodeReturn :: handler where
  "opcodeReturn op data vm = Inl (scriptError ErrEarlyReturn)"

subsection \<open>Handlers: lock times\<close>

definition verifyLockTime :: "int \<Rightarrow> int \<Rightarrow> int \<Rightarrow> go_error + unit" where
  "verifyLockTime txLockTime threshold lockTime =
     (if \<not> ((txLockTime < threshold \<and> lockTime < threshold) \<or>
            (txLockTime \<ge> threshold \<and> lockTime \<ge> threshold))
      then Inl (scriptError ErrUnsatisfiedLockTime)
      else if lockTime > txLockTime then Inl (scriptError ErrUnsatisfiedLockTime)
      else Inr ())"

definition opcodeCheckLockTimeVerify :: handler where
  "opcodeCheckLockTimeVerify op data vm =
     sbind (PeekByteArray 0 (vm_dstack vm)) (\<lambda>so.
       sbind (MakeScriptNum so (verifyMinimalData (vm_dstack vm)) 5) (\<lambda>lockTime.
         if lockTime < 0 then Inl (scriptError ErrNegativeLockTime)
         else sbind (verifyLockTime (int (tx_LockTime (vm_tx vm))) LockTimeThreshold lockTime) (\<lambda>_.
           sbind (go_index (tx_TxIn (vm_tx vm)) (vm_txIdx vm)) (\<lambda>txIn.
             if ti_Sequence txIn = MaxTxInSequenceNum then Inl (scriptError ErrUnsatisfiedLockTime)
             else Inr vm))))"

definition opcodeCheckSequenceVerify :: handler where
  "opcodeCheckSequenceVerify op data vm =
     sbind (PeekByteArray 0 (vm_dstack vm)) (\<lambda>so.
       sbind (MakeScriptNum so (verifyMinimalData (vm_dstack vm)) 5) (\<lambda>stackSequence.
         if stackSequence < 0 then Inl (scriptError ErrNegativeLockTime)
         else
           let sequence = stackSequence
           in if sequence AND int SequenceLockTimeDisabled \<noteq> 0 then Inr vm
              else if uint32_of (tx_Version (vm_tx vm)) < 2 then Inl (scriptError ErrUnsatisfiedLockTime)
              else sbind (go_index (tx_TxIn (vm_tx vm)) (vm_txIdx vm)) (\<lambda>txIn.
                let txSequence = int (ti_Sequence txIn)
                in if txSequence AND int SequenceLockTimeDisabled \<noteq> 0
                   then Inl (scriptError ErrUnsatisfiedLockTime)
                   else
                     let lockTimeMask = int (SequenceLockTimeIsSeconds OR SequenceLockTimeMask)
                     in sbind (verifyLockTime (txSequence AND lockTimeMask)
                                 (int SequenceLockTimeIsSeconds) (sequence AND lockTimeMask)) (\<lambda>_. Inr vm))))"

subsection \<open>Handlers: stack\<close>

definition opcodeToAltStack :: handler where
  "opcodeToAltStack op data vm =
     sbind (PopByteArray (vm_dstack vm)) (\<lambda>(so, s).
       Inr (vm\<lparr>vm_dstack := s, vm_astack := PushByteArray so (vm_astack vm)\<rparr>))"

definition opcodeFromAltStack :: handler where
  "opcodeFromAltStack op data vm =
     sbind (PopByteArray (vm_astack vm)) (\<lambda>(so, s).
       Inr (vm\<lparr>vm_astack := s, vm_dstack := PushByteArray so (vm_dstack vm)\<rparr>))"

definition opcode2Drop :: handler where "opcode2Drop op data vm = on_dstack (DropN 2) vm"
definition opcode2Dup :: handler where "opcode2Dup op data vm = on_dstack (DupN 2) vm"
definition opcode3Dup :: handler where "opcode3Dup op data vm = on_dstack (DupN 3) vm"
definition opcode2Over :: handler where "opcode2Over op data vm = on_dstack (OverN 2) vm"
definition opcode2Rot :: handler where "opcode2Rot op data vm = on_dstack (RotN 2) vm"
definition opcode2Swap :: handler where "opcode2Swap op data vm = on_dstack (SwapN 2) vm"

definition opcodeIfDup :: handler where
  "opcodeIfDup op data vm =
     on_dstack (\<lambda>s. sbind (PeekByteArray 0 s) (\<lambda>so. Inr (if asBool so then PushByteArray so s else s))) vm"

definition opcodeDepth :: handler where
  "opcodeDepth op data vm = on_dstack (\<lambda>s. PushInt (Depth s) s) vm"

definition opcodeDrop :: handler where "opcodeDrop op data vm = on_dstack (DropN 1) vm"
definition opcodeDup :: handler where "opcodeDup op data vm = on_dstack (DupN 1) vm"
definition opcodeNip :: handler where "opcodeNip op data vm = on_dstack (NipN 1) vm"
definition opcodeOver :: handler where "opcodeOver op data vm = on_dstack (OverN 1) vm"

definition opcodePick :: handler where
  "opcodePick op data vm = on_dstack (\<lambda>s. sbind (PopInt s) (\<lambda>(val, s). PickN (scriptNum_Int32 val) s)) vm"

definition opcodeRoll :: handler where
  "opcodeRoll op data vm = on_dstack (\<lambda>s. sbind (PopInt s) (\<lambda>(val, s). RollN (scriptNum_Int32 val) s)) vm"

definition opcodeRot :: handler where "opcodeRot op data vm = on_dstack (RotN 1) vm"
definition opcodeSwap :: handler where "opcodeSwap op data vm = on_dstack (SwapN 1) vm"
definition opcodeTuck :: handler where "opcodeTuck op data vm = on_dstack Tuck vm"

text \<open>\<open>OP_CAT\<close> costs one budget unit for every 64 bytes of its result.\<close>

definition opcodeCat :: handler where
  "opcodeCat op data vm =
     (case vm_tapscriptCtx vm of
        None \<Rightarrow> Inl (scriptError ErrDisabledOpcode)
      | Some ctx \<Rightarrow>
          if Depth (vm_dstack vm) < 2 then Inl (scriptError ErrInvalidStackOperation)
          else sbind (PopByteArray (vm_dstack vm)) (\<lambda>(vch2, s).
            sbind (PopByteArray s) (\<lambda>(vch1, s).
              let resultLen = length vch1 + length vch2
              in if resultLen > MaxScriptElementSize then Inl (scriptError ErrElementTooBig)
                 else sbind (tallyOpCost (int32_of (int ((resultLen + 63) div 64))) ctx) (\<lambda>ctx.
                   Inr (vm\<lparr>vm_tapscriptCtx := Some ctx,
                           vm_dstack := PushByteArray (vch1 @ vch2) s\<rparr>)))))"

definition opcodeSize :: handler where
  "opcodeSize op data vm =
     on_dstack (\<lambda>s. sbind (PeekByteArray 0 s) (\<lambda>so. PushInt (int (length so)) s)) vm"

definition opcodeEqual :: handler where
  "opcodeEqual op data vm =
     on_dstack (\<lambda>s. sbind (PopByteArray s) (\<lambda>(a, s). sbind (PopByteArray s) (\<lambda>(b, s).
       Inr (PushBool (a = b) s)))) vm"

definition opcodeEqualVerify :: handler where
  "opcodeEqualVerify op data vm = sbind (opcodeEqual op data vm) (abstractVerify ErrEqualVerify)"

subsection \<open>Handlers: numbers\<close>

text \<open>The shape shared by the numeric handlers: pop one, two or three numbers, push the result.
  \<open>v0\<close> is the top item. Script numbers are \<open>int64\<close> values.\<close>

definition int_op1 :: "(scriptNum \<Rightarrow> scriptNum) \<Rightarrow> Engine \<Rightarrow> go_error + Engine" where
  "int_op1 f = on_dstack (\<lambda>s. sbind (PopInt s) (\<lambda>(m, s). PushInt (f m) s))"

definition int_op2 :: "(scriptNum \<Rightarrow> scriptNum \<Rightarrow> scriptNum) \<Rightarrow> Engine \<Rightarrow> go_error + Engine" where
  "int_op2 f = on_dstack (\<lambda>s. sbind (PopInt s) (\<lambda>(v0, s). sbind (PopInt s) (\<lambda>(v1, s). PushInt (f v0 v1) s)))"

definition opcode1Add :: handler where
  "opcode1Add op data vm = int_op1 (\<lambda>m. int64_of (m + 1)) vm"

definition opcode1Sub :: handler where
  "opcode1Sub op data vm = int_op1 (\<lambda>m. int64_of (m - 1)) vm"

definition opcodeNegate :: handler where
  "opcodeNegate op data vm = int_op1 (\<lambda>m. int64_of (- m)) vm"

definition opcodeAbs :: handler where
  "opcodeAbs op data vm = int_op1 (\<lambda>m. if m < 0 then int64_of (- m) else m) vm"

definition opcodeNot :: handler where
  "opcodeNot op data vm = int_op1 (\<lambda>m. if m = 0 then 1 else 0) vm"

definition opcode0NotEqual :: handler where
  "opcode0NotEqual op data vm = int_op1 (\<lambda>m. if m \<noteq> 0 then 1 else m) vm"

definition opcodeAdd :: handler where
  "opcodeAdd op data vm = int_op2 (\<lambda>v0 v1. int64_of (v0 + v1)) vm"

definition opcodeSub :: handler where
  "opcodeSub op data vm = int_op2 (\<lambda>v0 v1. int64_of (v1 - v0)) vm"

definition opcodeBoolAnd :: handler where
  "opcodeBoolAnd op data vm = int_op2 (\<lambda>v0 v1. if v0 \<noteq> 0 \<and> v1 \<noteq> 0 then 1 else 0) vm"

definition opcodeBoolOr :: handler where
  "opcodeBoolOr op data vm = int_op2 (\<lambda>v0 v1. if v0 \<noteq> 0 \<or> v1 \<noteq> 0 then 1 else 0) vm"

definition opcodeNumEqual :: handler where
  "opcodeNumEqual op data vm = int_op2 (\<lambda>v0 v1. if v0 = v1 then 1 else 0) vm"

definition opcodeNumEqualVerify :: handler where
  "opcodeNumEqualVerify op data vm = sbind (opcodeNumEqual op data vm) (abstractVerify ErrNumEqualVerify)"

definition opcodeNumNotEqual :: handler where
  "opcodeNumNotEqual op data vm = int_op2 (\<lambda>v0 v1. if v0 \<noteq> v1 then 1 else 0) vm"

definition opcodeLessThan :: handler where
  "opcodeLessThan op data vm = int_op2 (\<lambda>v0 v1. if v1 < v0 then 1 else 0) vm"

definition opcodeGreaterThan :: handler where
  "opcodeGreaterThan op data vm = int_op2 (\<lambda>v0 v1. if v1 > v0 then 1 else 0) vm"

definition opcodeLessThanOrEqual :: handler where
  "opcodeLessThanOrEqual op data vm = int_op2 (\<lambda>v0 v1. if v1 \<le> v0 then 1 else 0) vm"

definition opcodeGreaterThanOrEqual :: handler where
  "opcodeGreaterThanOrEqual op data vm = int_op2 (\<lambda>v0 v1. if v1 \<ge> v0 then 1 else 0) vm"

definition opcodeMin :: handler where
  "opcodeMin op data vm = int_op2 (\<lambda>v0 v1. if v1 < v0 then v1 else v0) vm"

definition opcodeMax :: handler where
  "opcodeMax op data vm = int_op2 (\<lambda>v0 v1. if v1 > v0 then v1 else v0) vm"

definition opcodeWithin :: handler where
  "opcodeWithin op data vm =
     on_dstack (\<lambda>s. sbind (PopInt s) (\<lambda>(maxVal, s). sbind (PopInt s) (\<lambda>(minVal, s).
       sbind (PopInt s) (\<lambda>(x, s). PushInt (if x \<ge> minVal \<and> x < maxVal then 1 else 0) s)))) vm"

subsection \<open>Handlers: hashes and signatures\<close>

definition hash_top :: "(bytes \<Rightarrow> bytes) \<Rightarrow> Engine \<Rightarrow> go_error + Engine" where
  "hash_top h = on_dstack (\<lambda>s. sbind (PopByteArray s) (\<lambda>(buf, s). Inr (PushByteArray (h buf) s)))"

definition opcodeRipemd160 :: "crypto \<Rightarrow> handler" where
  "opcodeRipemd160 C op data vm = hash_top (c_ripemd160 C) vm"

definition opcodeSha1 :: "crypto \<Rightarrow> handler" where
  "opcodeSha1 C op data vm = hash_top (c_sha1 C) vm"

definition opcodeSha256 :: "crypto \<Rightarrow> handler" where
  "opcodeSha256 C op data vm = hash_top (c_sha256 C) vm"

definition opcodeHash160 :: "crypto \<Rightarrow> handler" where
  "opcodeHash160 C op data vm = hash_top (\<lambda>buf. c_ripemd160 C (c_sha256 C buf)) vm"

definition opcodeHash256 :: "crypto \<Rightarrow> handler" where
  "opcodeHash256 C op data vm = hash_top (DoubleHashB C) vm"

definition opcodeCodeSeparator :: handler where
  "opcodeCodeSeparator op data vm =
     (let vm = vm\<lparr>vm_lastCodeSep := tok_offset (vm_tokenizer vm)\<rparr>
      in case vm_tapscriptCtx vm of
           None \<Rightarrow> Inr vm
         | Some ctx \<Rightarrow>
             Inr (vm\<lparr>vm_tapscriptCtx :=
                       Some (ctx\<lparr>ctx_codeSepPos := nat (uint32_of (tok_opcodePos (vm_tokenizer vm)))\<rparr>)\<rparr>))"

definition opcodeCheckSig :: "crypto \<Rightarrow> sig_pick \<Rightarrow> handler" where
  "opcodeCheckSig C pick op data vm =
     sbind (PopByteArray (vm_dstack vm)) (\<lambda>(pkBytes, s).
       sbind (PopByteArray s) (\<lambda>(fullSigBytes, s).
         case vm_tapscriptCtx vm of
           None \<Rightarrow> Inl (scriptError ErrInternal)
         | Some ctx \<Rightarrow>
             sbind (if length fullSigBytes > 0 then tallysigOp ctx else Inr ctx) (\<lambda>ctx.
               let vm = vm\<lparr>vm_dstack := s, vm_tapscriptCtx := Some ctx\<rparr>
               in if length pkBytes = 0 then Inl (scriptError ErrTaprootPubkeyIsEmpty)
                  else if length fullSigBytes = 0 then on_dstack (\<lambda>s. Inr (PushByteArray [] s)) vm
                  else
                    sbind (newBaseTapscriptSigVerifier C pkBytes fullSigBytes vm) (\<lambda>sigVerifier.
                      sbind (tapscript_Verify C pick sigVerifier vm) (\<lambda>(valid, vm).
                        if \<not> valid \<and> length fullSigBytes \<noteq> 0 then Inl (scriptError ErrNullFail)
                        else on_dstack (\<lambda>s. Inr (PushBool valid s)) vm)))))"

definition PKLen :: nat where "PKLen = 64"
definition MsgLen :: nat where "MsgLen = 32"
definition SignatureLen :: nat where "SignatureLen = 2340"
definition numSigChunks :: nat where "numSigChunks = 5"
definition sigChunkSize :: nat where "sigChunkSize = SignatureLen div numSigChunks"

text \<open>The loop that pops the chunks, last chunk first, and fills the array from its end.\<close>

fun popChunks :: "nat \<Rightarrow> bytes list \<Rightarrow> stack \<Rightarrow> go_error + (bytes list \<times> stack)" where
  "popChunks 0 chunks s = Inr (chunks, s)"
| "popChunks (Suc n) chunks s = sbind (PopByteArray s) (\<lambda>(chunk, s). popChunks n (chunk # chunks) s)"

text \<open>\<open>copy\<close> into a zeroed array of \<open>n\<close> bytes.\<close>

definition copy_array :: "nat \<Rightarrow> bytes \<Rightarrow> bytes" where
  "copy_array n src = take n src @ replicate (n - length src) 0"

definition opcodeCheckXmssSig :: "crypto \<Rightarrow> handler" where
  "opcodeCheckXmssSig C op data vm =
     (case vm_tapscriptCtx vm of
        None \<Rightarrow> Inl (scriptError ErrReservedOpcode)
      | Some ctx \<Rightarrow>
          sbind (PopByteArray (vm_dstack vm)) (\<lambda>(pkBytes, s).
            sbind (popChunks numSigChunks [] s) (\<lambda>(sigChunks, s).
              let vm = vm\<lparr>vm_dstack := s\<rparr>; pushFalse = on_dstack (\<lambda>s. Inr (PushBool False s))
              in if length pkBytes \<noteq> PKLen then pushFalse vm
                 else if \<exists>chunk \<in> set sigChunks. length chunk \<noteq> sigChunkSize then pushFalse vm
                 else sbind (tallyOpCost 1000 ctx) (\<lambda>ctx.
                   let vm = vm\<lparr>vm_tapscriptCtx := Some ctx\<rparr>;
                       sigBytes = concat sigChunks
                   in case CalcTapscriptSigHash C vm (vm_hashCache vm) SigHashDefault (vm_tx vm)
                             (vm_txIdx vm) (vm_prevOutFetcher vm) of
                        Inl e \<Rightarrow> (if e = goPanic then Inl goPanic else pushFalse vm)
                      | Inr sigHash \<Rightarrow>
                          let valid = c_VerifyXMSS C (copy_array PKLen pkBytes) (copy_array MsgLen sigHash)
                                        (copy_array SignatureLen sigBytes)
                          in if \<not> valid then Inl (scriptError ErrNullFail)
                             else on_dstack (\<lambda>s. Inr (PushBool valid s)) vm))))"

definition opcodeCheckSigVerify :: "crypto \<Rightarrow> sig_pick \<Rightarrow> handler" where
  "opcodeCheckSigVerify C pick op data vm =
     sbind (opcodeCheckSig C pick op data vm) (abstractVerify ErrCheckSigVerify)"

definition opcodeCheckSigAdd :: "crypto \<Rightarrow> sig_pick \<Rightarrow> handler" where
  "opcodeCheckSigAdd C pick op data vm =
     (case vm_tapscriptCtx vm of
        None \<Rightarrow> Inl (scriptError ErrReservedOpcode)
      | Some ctx \<Rightarrow>
          sbind (PopByteArray (vm_dstack vm)) (\<lambda>(pubKeyBytes, s).
            sbind (PopInt s) (\<lambda>(accumulatorInt, s).
              sbind (PopByteArray s) (\<lambda>(sigBytes, s).
                sbind (if length sigBytes \<noteq> 0 then tallysigOp ctx else Inr ctx) (\<lambda>ctx.
                  let vm = vm\<lparr>vm_dstack := s, vm_tapscriptCtx := Some ctx\<rparr>
                  in if length pubKeyBytes = 0 then Inl (scriptError ErrTaprootPubkeyIsEmpty)
                     else if length sigBytes = 0 then on_dstack (PushInt accumulatorInt) vm
                     else
                       sbind (newBaseTapscriptSigVerifier C pubKeyBytes sigBytes vm) (\<lambda>sigVerifier.
                         sbind (tapscript_Verify C pick sigVerifier vm) (\<lambda>(sigValid, vm).
                           if \<not> sigValid then Inl (scriptError ErrNullFail)
                           else on_dstack (PushInt (int64_of (accumulatorInt + 1))) vm)))))))"

definition opcodeCheckMultiSig :: handler where
  "opcodeCheckMultiSig op data vm = Inl (scriptError ErrTapscriptCheckMultisig)"

definition opcodeCheckMultiSigVerify :: handler where
  "opcodeCheckMultiSigVerify op data vm =
     sbind (opcodeCheckMultiSig op data vm) (abstractVerify ErrCheckMultiSigVerify)"

subsection \<open>The opcode table\<close>

definition opcodeHandlers :: "crypto \<Rightarrow> sig_pick \<Rightarrow> (byte \<times> handler) list" where
  "opcodeHandlers C pick =
     [(OP_FALSE, opcodeFalse), (OP_1NEGATE, opcode1Negate), (OP_RESERVED, opcodeReserved),
      (OP_NOP, opcodeNop), (OP_VER, opcodeReserved), (OP_IF, opcodeIf), (OP_NOTIF, opcodeNotIf),
      (OP_VERIF, opcodeReserved), (OP_VERNOTIF, opcodeReserved), (OP_ELSE, opcodeElse),
      (OP_ENDIF, opcodeEndif), (OP_VERIFY, opcodeVerify), (OP_RETURN, opcodeReturn),
      (OP_CHECKLOCKTIMEVERIFY, opcodeCheckLockTimeVerify),
      (OP_CHECKSEQUENCEVERIFY, opcodeCheckSequenceVerify),
      (OP_TOALTSTACK, opcodeToAltStack), (OP_FROMALTSTACK, opcodeFromAltStack),
      (OP_2DROP, opcode2Drop), (OP_2DUP, opcode2Dup), (OP_3DUP, opcode3Dup), (OP_2OVER, opcode2Over),
      (OP_2ROT, opcode2Rot), (OP_2SWAP, opcode2Swap), (OP_IFDUP, opcodeIfDup),
      (OP_DEPTH, opcodeDepth), (OP_DROP, opcodeDrop), (OP_DUP, opcodeDup), (OP_NIP, opcodeNip),
      (OP_OVER, opcodeOver), (OP_PICK, opcodePick), (OP_ROLL, opcodeRoll), (OP_ROT, opcodeRot),
      (OP_SWAP, opcodeSwap), (OP_TUCK, opcodeTuck),
      (OP_CAT, opcodeCat), (OP_SUBSTR, opcodeDisabled), (OP_LEFT, opcodeDisabled),
      (OP_RIGHT, opcodeDisabled), (OP_SIZE, opcodeSize),
      (OP_INVERT, opcodeDisabled), (OP_AND, opcodeDisabled), (OP_OR, opcodeDisabled),
      (OP_XOR, opcodeDisabled), (OP_EQUAL, opcodeEqual), (OP_EQUALVERIFY, opcodeEqualVerify),
      (OP_RESERVED1, opcodeReserved), (OP_RESERVED2, opcodeReserved),
      (OP_1ADD, opcode1Add), (OP_1SUB, opcode1Sub), (OP_2MUL, opcodeDisabled), (OP_2DIV, opcodeDisabled),
      (OP_NEGATE, opcodeNegate), (OP_ABS, opcodeAbs), (OP_NOT, opcodeNot), (OP_0NOTEQUAL, opcode0NotEqual),
      (OP_ADD, opcodeAdd), (OP_SUB, opcodeSub), (OP_MUL, opcodeDisabled), (OP_DIV, opcodeDisabled),
      (OP_MOD, opcodeDisabled), (OP_LSHIFT, opcodeDisabled), (OP_RSHIFT, opcodeDisabled),
      (OP_BOOLAND, opcodeBoolAnd), (OP_BOOLOR, opcodeBoolOr), (OP_NUMEQUAL, opcodeNumEqual),
      (OP_NUMEQUALVERIFY, opcodeNumEqualVerify), (OP_NUMNOTEQUAL, opcodeNumNotEqual),
      (OP_LESSTHAN, opcodeLessThan), (OP_GREATERTHAN, opcodeGreaterThan),
      (OP_LESSTHANOREQUAL, opcodeLessThanOrEqual), (OP_GREATERTHANOREQUAL, opcodeGreaterThanOrEqual),
      (OP_MIN, opcodeMin), (OP_MAX, opcodeMax), (OP_WITHIN, opcodeWithin),
      (OP_RIPEMD160, opcodeRipemd160 C), (OP_SHA1, opcodeSha1 C), (OP_SHA256, opcodeSha256 C),
      (OP_HASH160, opcodeHash160 C), (OP_HASH256, opcodeHash256 C),
      (OP_CODESEPARATOR, opcodeCodeSeparator), (OP_CHECKSIG, opcodeCheckSig C pick),
      (OP_CHECKSIGVERIFY, opcodeCheckSigVerify C pick), (OP_CHECKMULTISIG, opcodeCheckMultiSig),
      (OP_CHECKMULTISIGVERIFY, opcodeCheckMultiSigVerify), (OP_CHECKSIGADD, opcodeCheckSigAdd C pick),
      (OP_CHECKXMSSSIG, opcodeCheckXmssSig C),
      (OP_NOP1, opcodeNop), (OP_NOP4, opcodeNop), (OP_NOP5, opcodeNop), (OP_NOP6, opcodeNop),
      (OP_NOP7, opcodeNop), (OP_NOP8, opcodeNop), (OP_NOP9, opcodeNop), (OP_NOP10, opcodeNop)]"

text \<open>The \<open>opfunc\<close> column of the table: the data pushes and small integers are ranges, and all other
  entries of the array (the undefined opcodes 187 to 255) have the handler \<open>opcodeInvalid\<close>.\<close>

definition opfunc :: "crypto \<Rightarrow> sig_pick \<Rightarrow> byte \<Rightarrow> handler" where
  "opfunc C pick b =
     (case map_of (opcodeHandlers C pick) b of
        Some h \<Rightarrow> h
      | None \<Rightarrow>
          if OP_DATA_1 \<le> b \<and> b \<le> OP_PUSHDATA4 then opcodePushData
          else if OP_1 \<le> b \<and> b \<le> OP_16 then opcodeN
          else opcodeInvalid)"

end
