(* ===== verification/Script_Handlers.thy ===== *)
theory Script_Handlers
  imports Script_Opcodes
begin

text \<open>
  The contract of the opcode handlers. Part one: what a handler may change (\<open>same_program\<close>), proved
  for every entry of the opcode table (\<open>opfunc_frames\<close>). Part two: a machine within its limits
  (\<open>engine_ok\<close>) never panics, stays within the item size limit and grows its stacks by at most three
  items, keeps its conditional stack well-formed and does not gain budget (\<open>opfunc_safe\<close>). Both are
  proved handler by handler; the rules are collected in \<open>handler_frame\<close> and \<open>handler_safety\<close>.
\<close>

subsection \<open>All handlers of the table\<close>

lemma opfunc_rule:
  assumes "list_all (\<lambda>(b, h). P h) (opcodeHandlers C pick)" "P opcodePushData" "P opcodeN" "P opcodeInvalid"
  shows "P (opfunc C pick b)"
proof (cases "map_of (opcodeHandlers C pick) b")
  case None
  then show ?thesis using assms(2-4) by (simp add: opfunc_def)
next
  case (Some h)
  then have "(b, h) \<in> set (opcodeHandlers C pick)" by (rule map_of_SomeD)
  with assms(1) Some show ?thesis by (auto simp: opfunc_def list_all_iff)
qed

subsection \<open>What a handler leaves alone\<close>

text \<open>A handler changes the stacks, the conditional stack, the code separator positions, the budget
  and the signature cache only.\<close>

definition same_program :: "Engine \<Rightarrow> Engine \<Rightarrow> bool" where
  "same_program vm vm' \<longleftrightarrow>
     vm_tx vm' = vm_tx vm \<and> vm_txIdx vm' = vm_txIdx vm \<and> vm_version vm' = vm_version vm \<and>
     vm_hashCache vm' = vm_hashCache vm \<and> vm_prevOutFetcher vm' = vm_prevOutFetcher vm \<and>
     vm_scripts vm' = vm_scripts vm \<and> vm_scriptIdx vm' = vm_scriptIdx vm \<and>
     vm_opcodeIdx vm' = vm_opcodeIdx vm \<and> vm_tokenizer vm' = vm_tokenizer vm \<and>
     vm_numOps vm' = vm_numOps vm \<and> vm_witnessVersion vm' = vm_witnessVersion vm \<and>
     vm_witnessProgram vm' = vm_witnessProgram vm \<and> vm_inputAmount vm' = vm_inputAmount vm \<and>
     map_option ctx_annex (vm_tapscriptCtx vm') = map_option ctx_annex (vm_tapscriptCtx vm) \<and>
     map_option ctx_tapLeafHash (vm_tapscriptCtx vm') = map_option ctx_tapLeafHash (vm_tapscriptCtx vm)"

definition frames :: "handler \<Rightarrow> bool" where
  "frames h \<longleftrightarrow> (\<forall>op data vm vm'. h op data vm = Inr vm' \<longrightarrow> same_program vm vm')"

named_theorems handler_frame \<open>frame rules of the opcode handlers\<close>

lemma same_program_trans: "same_program a b \<Longrightarrow> same_program b c \<Longrightarrow> same_program a c"
  by (simp add: same_program_def)

lemma on_dstack_frame: "on_dstack f vm = Inr vm' \<Longrightarrow> same_program vm vm'"
  by (auto simp: on_dstack_def sbind_eq_Inr same_program_def)

lemma abstractVerify_frame: "abstractVerify c vm = Inr vm' \<Longrightarrow> same_program vm vm'"
  by (auto simp: abstractVerify_def sbind_eq_Inr same_program_def split: if_splits)

lemma tallyOpCost_frame:
  "tallyOpCost cost t = Inr t' \<Longrightarrow> ctx_annex t' = ctx_annex t \<and> ctx_tapLeafHash t' = ctx_tapLeafHash t"
  by (auto simp: tallyOpCost_def Let_def split: if_splits)

lemma tapscript_Verify_frame: "tapscript_Verify C pick b vm = Inr (v, vm') \<Longrightarrow> same_program vm vm'"
  by (auto simp: tapscript_Verify_def same_program_def Let_def split: sum.splits if_splits prod.splits)

lemma frames_on_dstack: "(\<And>op data vm. \<exists>f. h op data vm = on_dstack f vm) \<Longrightarrow> frames h"
  unfolding frames_def by (metis on_dstack_frame)

lemma frames_verify: "frames g \<Longrightarrow> frames (\<lambda>op data vm. sbind (g op data vm) (abstractVerify c))"
  unfolding frames_def sbind_eq_Inr using same_program_trans abstractVerify_frame by blast

lemmas stack_handlers =
  opcodeFalse_def opcodePushData_def opcode1Negate_def opcodeN_def opcode2Drop_def opcode2Dup_def opcode3Dup_def
  opcode2Over_def opcode2Rot_def opcode2Swap_def opcodeIfDup_def opcodeDepth_def opcodeDrop_def
  opcodeDup_def opcodeNip_def opcodeOver_def opcodePick_def opcodeRoll_def opcodeRot_def
  opcodeSwap_def opcodeTuck_def opcodeSize_def opcodeEqual_def opcodeWithin_def
  int_op1_def int_op2_def hash_top_def

lemmas number_handlers =
  opcode1Add_def opcode1Sub_def opcodeNegate_def opcodeAbs_def opcodeNot_def opcode0NotEqual_def
  opcodeAdd_def opcodeSub_def opcodeBoolAnd_def opcodeBoolOr_def opcodeNumEqual_def
  opcodeNumNotEqual_def opcodeLessThan_def opcodeGreaterThan_def opcodeLessThanOrEqual_def
  opcodeGreaterThanOrEqual_def opcodeMin_def opcodeMax_def

lemmas hash_handlers =
  opcodeRipemd160_def opcodeSha1_def opcodeSha256_def opcodeHash160_def opcodeHash256_def

lemma stack_frames [handler_frame]:
  "frames opcodeFalse" "frames opcodePushData" "frames opcode1Negate" "frames opcodeN"
  "frames opcode2Drop" "frames opcode2Dup" "frames opcode3Dup" "frames opcode2Over" "frames opcode2Rot"
  "frames opcode2Swap" "frames opcodeIfDup" "frames opcodeDepth" "frames opcodeDrop" "frames opcodeDup"
  "frames opcodeNip" "frames opcodeOver" "frames opcodePick" "frames opcodeRoll" "frames opcodeRot"
  "frames opcodeSwap" "frames opcodeTuck" "frames opcodeSize" "frames opcodeEqual" "frames opcodeWithin"
  by (rule frames_on_dstack, simp only: stack_handlers, rule exI, rule refl)+

lemma number_frames [handler_frame]:
  "frames opcode1Add" "frames opcode1Sub" "frames opcodeNegate" "frames opcodeAbs" "frames opcodeNot"
  "frames opcode0NotEqual" "frames opcodeAdd" "frames opcodeSub" "frames opcodeBoolAnd" "frames opcodeBoolOr"
  "frames opcodeNumEqual" "frames opcodeNumNotEqual" "frames opcodeLessThan" "frames opcodeGreaterThan"
  "frames opcodeLessThanOrEqual" "frames opcodeGreaterThanOrEqual" "frames opcodeMin" "frames opcodeMax"
  "frames (opcodeRipemd160 C)" "frames (opcodeSha1 C)" "frames (opcodeSha256 C)" "frames (opcodeHash160 C)"
  "frames (opcodeHash256 C)"
  by (rule frames_on_dstack, simp only: stack_handlers number_handlers hash_handlers, rule exI, rule refl)+

lemma control_frames [handler_frame]:
  "frames opcodeDisabled" "frames opcodeReserved" "frames opcodeInvalid" "frames opcodeNop"
  "frames opcodeIf" "frames opcodeNotIf" "frames opcodeElse" "frames opcodeEndif" "frames opcodeReturn"
  "frames opcodeToAltStack" "frames opcodeFromAltStack" "frames opcodeCheckMultiSig"
  by (auto simp: frames_def opcodeDisabled_def opcodeReserved_def opcodeInvalid_def opcodeNop_def opcodeIf_def
        opcodeNotIf_def opcodeElse_def opcodeEndif_def opcodeReturn_def opcodeToAltStack_def
        opcodeFromAltStack_def opcodeCheckMultiSig_def sbind_eq_Inr same_program_def Let_def
        split: if_splits OpCond.splits)

lemma lock_time_frames [handler_frame]: "frames opcodeCheckLockTimeVerify" "frames opcodeCheckSequenceVerify"
  by (auto simp: frames_def opcodeCheckLockTimeVerify_def opcodeCheckSequenceVerify_def sbind_eq_Inr same_program_def
        Let_def split: if_splits)

lemma code_separator_frame [handler_frame]: "frames opcodeCodeSeparator"
  by (auto simp: frames_def opcodeCodeSeparator_def same_program_def Let_def split: option.splits)

lemma cat_frame [handler_frame]: "frames opcodeCat"
  by (auto simp: frames_def opcodeCat_def sbind_eq_Inr same_program_def Let_def dest: tallyOpCost_frame
        split: option.splits if_splits)

text \<open>The signature handlers, step by step.\<close>

definition framed :: "Engine \<Rightarrow> go_error + Engine \<Rightarrow> bool" where
  "framed vm r \<longleftrightarrow> (\<forall>vm'. r = Inr vm' \<longrightarrow> same_program vm vm')"

lemma framed_Inl [simp]: "framed vm (Inl e)"
  by (simp add: framed_def)

lemma framed_sbind: "(\<And>x. r = Inr x \<Longrightarrow> framed vm (f x)) \<Longrightarrow> framed vm (sbind r f)"
  by (auto simp: framed_def sbind_eq_Inr)

lemma framed_if: "(c \<Longrightarrow> framed vm a) \<Longrightarrow> (\<not> c \<Longrightarrow> framed vm b) \<Longrightarrow> framed vm (if c then a else b)"
  by simp

lemma framed_on_dstack: "same_program vm vm' \<Longrightarrow> framed vm (on_dstack f vm')"
  unfolding framed_def using same_program_trans on_dstack_frame by blast

lemma same_program_tally:
  "vm_tapscriptCtx vm = Some ctx \<Longrightarrow> tallyOpCost cost ctx = Inr ctx' \<Longrightarrow>
     same_program vm (vm\<lparr>vm_dstack := s, vm_tapscriptCtx := Some ctx'\<rparr>)"
  using tallyOpCost_frame [of cost ctx ctx'] by (simp add: same_program_def)

lemma same_program_maybe_tally:
  "vm_tapscriptCtx vm = Some ctx \<Longrightarrow> (if c then tallysigOp ctx else Inr ctx) = Inr ctx' \<Longrightarrow>
     same_program vm (vm\<lparr>vm_dstack := s, vm_tapscriptCtx := Some ctx'\<rparr>)"
  using same_program_tally [of vm ctx sigOpsDelta ctx' s]
  by (auto simp: tallysigOp_def same_program_def split: if_splits)

lemma framed_prod: "(\<And>a b. x = (a, b) \<Longrightarrow> framed vm (f a b)) \<Longrightarrow> framed vm (case x of (a, b) \<Rightarrow> f a b)"
  by (cases x) simp

lemma framed_option:
  "(\<And>x. y = Some x \<Longrightarrow> framed vm (f x)) \<Longrightarrow> framed vm (case y of None \<Rightarrow> Inl e | Some x \<Rightarrow> f x)"
  by (cases y) simp_all

lemma framed_sum:
  "(\<And>e. y = Inl e \<Longrightarrow> framed vm (g e)) \<Longrightarrow> (\<And>x. y = Inr x \<Longrightarrow> framed vm (f x)) \<Longrightarrow>
     framed vm (case y of Inl e \<Rightarrow> g e | Inr x \<Rightarrow> f x)"
  by (cases y) simp_all

lemma same_program_verify:
  "tapscript_Verify C pick b vm1 = Inr x \<Longrightarrow> x = (v, vm2) \<Longrightarrow> same_program vm vm1 \<Longrightarrow> same_program vm vm2"
  using tapscript_Verify_frame same_program_trans by blast

lemmas framing = allI framed_if framed_sbind framed_prod framed_option framed_sum framed_on_dstack framed_Inl

lemma CheckSig_frame [handler_frame]: "frames (opcodeCheckSig C pick)"
  unfolding frames_def framed_def [symmetric] opcodeCheckSig_def Let_def
  by (intro framing; (erule (1) same_program_verify)?; rule same_program_maybe_tally; assumption)

lemma CheckSigAdd_frame [handler_frame]: "frames (opcodeCheckSigAdd C pick)"
  unfolding frames_def framed_def [symmetric] opcodeCheckSigAdd_def Let_def
  by (intro framing; (erule (1) same_program_verify)?; rule same_program_maybe_tally; assumption)

lemma CheckXmssSig_frame [handler_frame]: "frames (opcodeCheckXmssSig C)"
  unfolding frames_def framed_def [symmetric] opcodeCheckXmssSig_def Let_def
  by (intro framing; (rule same_program_tally; assumption)?) (simp_all add: same_program_def)

lemma verify_frames [handler_frame]:
  "frames opcodeVerify" "frames opcodeEqualVerify" "frames opcodeNumEqualVerify"
  "frames (opcodeCheckSigVerify C pick)" "frames opcodeCheckMultiSigVerify"
proof -
  show "frames opcodeVerify" by (simp add: frames_def opcodeVerify_def abstractVerify_frame)
  show "frames opcodeEqualVerify" "frames opcodeNumEqualVerify" "frames (opcodeCheckSigVerify C pick)"
    "frames opcodeCheckMultiSigVerify"
    unfolding opcodeEqualVerify_def [abs_def] opcodeNumEqualVerify_def [abs_def]
      opcodeCheckSigVerify_def [abs_def] opcodeCheckMultiSigVerify_def [abs_def]
    by (intro frames_verify handler_frame)+
qed

lemma opfunc_frames: "opfunc C pick b op data vm = Inr vm' \<Longrightarrow> same_program vm vm'"
proof -
  have "frames (opfunc C pick b)"
    by (rule opfunc_rule) (simp_all add: opcodeHandlers_def handler_frame)
  then show "opfunc C pick b op data vm = Inr vm' \<Longrightarrow> same_program vm vm'" by (simp add: frames_def)
qed

subsection \<open>Safety of the stack operations\<close>

text \<open>The result of a computation that does not panic, with a property of its value.\<close>

definition safely :: "go_error + 'a \<Rightarrow> ('a \<Rightarrow> bool) \<Rightarrow> bool" where
  "safely r Q \<longleftrightarrow> (case r of Inl e \<Rightarrow> e \<noteq> goPanic | Inr x \<Rightarrow> Q x)"

lemma safely_simps [simp]:
  "safely (Inl e) Q \<longleftrightarrow> e \<noteq> goPanic" "safely (Inr x) Q \<longleftrightarrow> Q x"
  "safely (sbind r f) Q \<longleftrightarrow> safely r (\<lambda>x. safely (f x) Q)"
  by (cases r; simp add: safely_def)+

lemma safely_mono: "safely r P \<Longrightarrow> (\<And>x. P x \<Longrightarrow> Q x) \<Longrightarrow> safely r Q"
  by (cases r) simp_all

definition stack_ok :: "nat \<Rightarrow> stack \<Rightarrow> bool" where
  "stack_ok n s \<longleftrightarrow> length (stk s) \<le> n \<and> (\<forall>x \<in> set (stk s). length x \<le> MaxScriptElementSize)"

lemma stack_ok_mono: "stack_ok n s \<Longrightarrow> n \<le> m \<Longrightarrow> stack_ok m s"
  by (simp add: stack_ok_def)

lemma stack_ok_update: "stack_ok n s \<Longrightarrow> set xs \<subseteq> set (stk s) \<Longrightarrow> length xs \<le> m \<Longrightarrow> stack_ok m (s\<lparr>stk := xs\<rparr>)"
  by (auto simp: stack_ok_def)

lemma stack_ok_push: "stack_ok n s \<Longrightarrow> length x \<le> MaxScriptElementSize \<Longrightarrow> stack_ok (Suc n) (PushByteArray x s)"
  by (auto simp: stack_ok_def)

text \<open>The stack limits leave ample room below \<open>2^31\<close>.\<close>

lemma nipN_safe:
  assumes "stack_ok n s" "n \<le> 2000"
    "\<And>x xs. stack_ok (n - 1) (s\<lparr>stk := xs\<rparr>) \<Longrightarrow> length x \<le> MaxScriptElementSize \<Longrightarrow> 0 < n \<Longrightarrow> Q (x, s\<lparr>stk := xs\<rparr>)"
  shows "safely (nipN idx s) Q"
proof -
  have "length (stk s) < 2 ^ 31" using assms(1,2) by (simp add: stack_ok_def)
  then show ?thesis
  proof (cases rule: nipN_cases [where idx = idx])
    case (ok xs x ys)
    have "stack_ok (n - 1) (s\<lparr>stk := xs @ ys\<rparr>)" "length x \<le> MaxScriptElementSize" "0 < n"
      using ok(1) assms(1) by (auto simp: stack_ok_def)
    then show ?thesis using ok(3) assms(3) by simp
  qed simp
qed

lemma Pop_safe:
  assumes "stack_ok n s" "n \<le> 2000"
    "\<And>x xs. stack_ok (n - 1) (s\<lparr>stk := xs\<rparr>) \<Longrightarrow> length x \<le> MaxScriptElementSize \<Longrightarrow> 0 < n \<Longrightarrow> Q (x, s\<lparr>stk := xs\<rparr>)"
  shows "safely (PopByteArray s) Q"
  unfolding PopByteArray_def by (rule nipN_safe [OF assms(1,2)], rule assms(3))

lemma Peek_safe:
  assumes "stack_ok n s" "n \<le> 2000" "\<And>x. length x \<le> MaxScriptElementSize \<Longrightarrow> 0 < n \<Longrightarrow> Q x"
  shows "safely (PeekByteArray idx s) Q"
proof -
  have n: "length (stk s) < 2 ^ 31" using assms(1,2) by (simp add: stack_ok_def)
  show ?thesis
  proof (cases "0 \<le> idx \<and> idx < int (length (stk s))")
    case True
    then have "0 \<le> idx" "idx < int (length (stk s))" by simp_all
    then obtain xs x ys where *: "stk s = xs @ [x] @ ys" "idx = int (length ys)" by (rule stack_split_top)
    then have "length x \<le> MaxScriptElementSize" "0 < n" using assms(1) by (auto simp: stack_ok_def)
    then show ?thesis using PeekByteArray_split [OF * n] assms(3) by simp
  next
    case False
    then show ?thesis using PeekByteArray_fails [of idx s] n by auto
  qed
qed

text \<open>Script numbers: four-byte operands stay far from the limits of \<open>int64\<close>.\<close>

lemma MakeScriptNum_safe:
  assumes "k \<le> 7" "\<And>n. \<bar>n\<bar> < 2 ^ (8 * k - 1) \<Longrightarrow> Q n"
  shows "safely (MakeScriptNum v b k) Q"
proof (cases "MakeScriptNum v b k")
  case (Inl e)
  then show ?thesis
    by (auto simp: MakeScriptNum_def sbind_eq_Inl fail_if_eq_Inl checkMinimalDataEncoding_def Let_def split: if_splits)
next
  case (Inr n)
  then show ?thesis using MakeScriptNum_range [OF Inr assms(1)] assms(2) [of n] by auto
qed

lemma PopInt_safe:
  assumes "stack_ok n s" "n \<le> 2000"
    "\<And>v xs. stack_ok (n - 1) (s\<lparr>stk := xs\<rparr>) \<Longrightarrow> \<bar>v\<bar> < 2 ^ 31 \<Longrightarrow> 0 < n \<Longrightarrow> Q (v, s\<lparr>stk := xs\<rparr>)"
  shows "safely (PopInt s) Q"
  unfolding PopInt_def
  by (simp add: maxScriptNumLen_def, rule Pop_safe [OF assms(1,2)], simp, rule MakeScriptNum_safe)
     (use assms(3) in simp_all)

lemma PushInt_safe:
  assumes "stack_ok n s" "\<bar>v\<bar> < 2 ^ 55" "\<And>s'. stack_ok (Suc n) s' \<Longrightarrow> Q s'"
  shows "safely (PushInt v s) Q"
proof -
  obtain so where so: "scriptNum_Bytes v = Inr so" "length so \<le> 7"
    using scriptNum_Bytes_sm_val [of v] minimal_length [of _ 7] assms(2) by (fastforce simp: abs_less_iff)
  then have "stack_ok (Suc n) (PushByteArray so s)"
    using assms(1) by (intro stack_ok_push) (simp_all add: MaxScriptElementSize_def)
  then show ?thesis using so assms(3) by (simp add: PushInt_def)
qed

text \<open>A stack operation that grows the stack by at most \<open>k\<close> items and keeps the item limit.\<close>

definition stack_safe :: "nat \<Rightarrow> (stack \<Rightarrow> go_error + stack) \<Rightarrow> bool" where
  "stack_safe k f \<longleftrightarrow> (\<forall>s n. n \<le> 1000 \<longrightarrow> stack_ok n s \<longrightarrow> safely (f s) (stack_ok (n + k)))"

lemma copy_to_top_safe:
  assumes "stack_ok n s" "n \<le> 2000" shows "safely (copy_to_top idx s) (stack_ok (Suc n))"
  unfolding copy_to_top_def by simp (rule Peek_safe [OF assms], simp add: stack_ok_push assms(1))

lemma move_to_top_safe:
  assumes "stack_ok n s" "n \<le> 2000" shows "safely (move_to_top idx s) (stack_ok n)"
  unfolding move_to_top_def
  by simp (rule nipN_safe [OF assms], auto dest: stack_ok_push)

lemma repeat_safe:
  assumes "\<And>n s. stack_ok n s \<Longrightarrow> n \<le> 2000 \<Longrightarrow> safely (f s) (stack_ok (n + d))" "stack_ok n s" "n + d * k \<le> 2000"
  shows "safely (repeat_n k f s) (stack_ok (n + d * k))"
  using assms(2,3)
proof (induction k arbitrary: n s)
  case (Suc k)
  have "safely (f s) (\<lambda>s'. safely (repeat_n k f s') (stack_ok (n + d * Suc k)))"
  proof (rule safely_mono [OF assms(1) [OF Suc.prems(1)]])
    show "safely (repeat_n k f s') (stack_ok (n + d * Suc k))" if "stack_ok (n + d) s'" for s'
      using Suc.IH [OF that] Suc.prems(2) by (simp add: add.assoc)
  qed (use Suc.prems in simp)
  then show ?case by simp
qed simp

lemma stack_safe_shuffle:
  "k \<le> 3 \<Longrightarrow> stack_safe k (DupN (int k))" "k \<le> 3 \<Longrightarrow> stack_safe k (OverN (int k))"
  "stack_safe 0 (RotN m)" "stack_safe 0 (SwapN m)" "k \<le> 100 \<Longrightarrow> stack_safe 0 (DropN (int k))" "stack_safe 0 (NipN m)"
proof -
  have copy: "safely (repeat_n k (copy_to_top idx) s) (stack_ok (n + k))" if "k \<le> 3" "stack_ok n s" "n \<le> 1000" for k n s idx
    using repeat_safe [of "copy_to_top idx" 1 n s k] copy_to_top_safe that by simp
  have move: "safely (repeat_n k (move_to_top idx) s) (stack_ok n)" if "stack_ok n s" "n \<le> 1000" for k n s idx
    using repeat_safe [of "move_to_top idx" 0 n s k] move_to_top_safe that by simp
  have pop: "safely (sbind (PopByteArray s) (\<lambda>(_, s). Inr s)) (stack_ok n)" if "stack_ok n s" "n \<le> 2000" for n s
    by simp (rule Pop_safe [OF that], auto elim: stack_ok_mono)
  show "k \<le> 3 \<Longrightarrow> stack_safe k (DupN (int k))" "k \<le> 3 \<Longrightarrow> stack_safe k (OverN (int k))"
    by (auto simp: stack_safe_def DupN_def OverN_def Let_def intro!: copy)
  show "stack_safe 0 (RotN m)" "stack_safe 0 (SwapN m)"
    by (auto simp: stack_safe_def RotN_def SwapN_def Let_def intro!: move)
  show "stack_safe 0 (DropN (int k))" if "k \<le> 100"
    using repeat_safe [of "\<lambda>s. sbind (PopByteArray s) (\<lambda>(_, s). Inr s)" 0 _ _ k] pop
    by (auto simp: stack_safe_def DropN_def)
  show "stack_safe 0 (NipN m)"
    unfolding stack_safe_def NipN_def
  proof (intro allI impI, simp)
    fix s :: stack and n :: nat
    assume n: "n \<le> 1000" "stack_ok n s"
    show "safely (nipN m s) (\<lambda>x. safely (case x of (x, xa) \<Rightarrow> Inr xa) (stack_ok n))"
      by (rule nipN_safe [OF n(2)]) (use n(1) stack_ok_mono in \<open>auto intro: stack_ok_mono [of "n - 1"]\<close>)
  qed
qed

subsection \<open>Safety of the handlers\<close>

text \<open>The conditional stack of nested conditionals: executed branches, then at most one branch that
  is not executed, then the conditionals skipped inside of it.\<close>

fun cond_ok :: "OpCond list \<Rightarrow> bool" where
  "cond_ok [] = True"
| "cond_ok (OpCondTrue # cs) = cond_ok cs"
| "cond_ok (OpCondFalse # cs) = (\<forall>c \<in> set cs. c = OpCondSkip)"
| "cond_ok (OpCondSkip # cs) = False"

lemma cond_ok_snoc:
  "cond_ok (cs @ [c]) \<longleftrightarrow>
     (if c = OpCondSkip then cond_ok cs \<and> (\<exists>c' \<in> set cs. c' \<noteq> OpCondTrue) else \<forall>c' \<in> set cs. c' = OpCondTrue)"
  by (induction cs rule: cond_ok.induct) (cases c; auto)+

lemma cond_ok_all: "\<forall>c \<in> set cs. c = OpCondTrue \<Longrightarrow> cond_ok cs"
  by (induction cs rule: cond_ok.induct) auto

lemma cond_ok_last: "cond_ok cs \<Longrightarrow> cs \<noteq> [] \<Longrightarrow> last cs = OpCondTrue \<longleftrightarrow> (\<forall>c \<in> set cs. c = OpCondTrue)"
  by (cases cs rule: rev_cases) (auto simp: cond_ok_snoc split: if_splits)

definition budget :: "Engine \<Rightarrow> int" where
  "budget vm = (case vm_tapscriptCtx vm of None \<Rightarrow> 0 | Some ctx \<Rightarrow> ctx_opsBudget ctx)"

text \<open>A machine within its limits, with stacks of at most \<open>n\<close> items, for an existing input of a
  transaction whose previous outputs are known.\<close>

definition engine_ok :: "nat \<Rightarrow> Engine \<Rightarrow> bool" where
  "engine_ok n vm \<longleftrightarrow>
     stack_ok n (vm_dstack vm) \<and> stack_ok n (vm_astack vm) \<and>
     0 \<le> vm_txIdx vm \<and> vm_txIdx vm < int (length (tx_TxIn (vm_tx vm))) \<and>
     (\<forall>txIn \<in> set (tx_TxIn (vm_tx vm)). vm_prevOutFetcher vm (ti_PreviousOutPoint txIn) \<noteq> None) \<and>
     0 \<le> budget vm \<and> budget vm < 2 ^ 31 \<and> cond_ok (vm_condStack vm)"

text \<open>What a handler guarantees: no panic; the limits, with room for three more items until the
  machine checks the stack size; and a budget that is not larger than before.\<close>

definition handled :: "Engine \<Rightarrow> go_error + Engine \<Rightarrow> bool" where
  "handled vm r \<longleftrightarrow> safely r (\<lambda>vm'. engine_ok 1003 vm' \<and> budget vm' \<le> budget vm)"

definition handler_safe :: "handler \<Rightarrow> bool" where
  "handler_safe h \<longleftrightarrow>
     (\<forall>op data vm. engine_ok 1000 vm \<longrightarrow> length data \<le> MaxScriptElementSize \<longrightarrow> handled vm (h op data vm))"

named_theorems handler_safety \<open>safety of the opcode handlers\<close>

lemma engine_ok_mono: "engine_ok n vm \<Longrightarrow> n \<le> m \<Longrightarrow> engine_ok m vm"
  by (auto simp: engine_ok_def elim: stack_ok_mono)

lemma engine_ok_stacks:
  "engine_ok n vm \<Longrightarrow> stack_ok n (vm_dstack vm)" "engine_ok n vm \<Longrightarrow> stack_ok n (vm_astack vm)"
  by (simp_all add: engine_ok_def)

lemma engine_ok_update:
  assumes "engine_ok n vm" "stack_ok m s" "n \<le> m"
  shows "engine_ok m (vm\<lparr>vm_dstack := s\<rparr>)" "engine_ok m (vm\<lparr>vm_astack := s\<rparr>)"
  using assms stack_ok_mono by (auto simp: engine_ok_def budget_def)

lemma budget_update [simp]:
  "budget (vm\<lparr>vm_dstack := s\<rparr>) = budget vm" "budget (vm\<lparr>vm_astack := s\<rparr>) = budget vm"
  "budget (vm\<lparr>vm_condStack := c\<rparr>) = budget vm" "budget (vm\<lparr>vm_sigCache := sc\<rparr>) = budget vm"
  "budget (vm\<lparr>vm_tapscriptCtx := Some ctx\<rparr>) = ctx_opsBudget ctx" "budget (vm\<lparr>vm_lastCodeSep := i\<rparr>) = budget vm"
  by (simp_all add: budget_def)

lemma on_dstack_handled:
  assumes "engine_ok n vm" "safely (f (vm_dstack vm)) (stack_ok 1003)" "n \<le> 1003" "budget vm \<le> budget vm0"
  shows "handled vm0 (on_dstack f vm)"
  using assms(2) unfolding handled_def on_dstack_def
  by (simp, elim safely_mono) (use engine_ok_update(1) [OF assms(1)] assms(3,4) in auto)

lemma stack_handler:
  assumes "stack_safe k f" "k \<le> 3" "engine_ok 1000 vm"
  shows "handled vm (on_dstack f vm)"
proof (rule on_dstack_handled [OF assms(3)])
  have "safely (f (vm_dstack vm)) (stack_ok (1000 + k))"
    using assms by (simp add: stack_safe_def engine_ok_def)
  then show "safely (f (vm_dstack vm)) (stack_ok 1003)"
    by (rule safely_mono) (use assms(2) in \<open>auto intro: stack_ok_mono\<close>)
qed simp_all

lemma stack_safe_push: "length x \<le> MaxScriptElementSize \<Longrightarrow> stack_safe 1 (\<lambda>s. Inr (PushByteArray x s))"
  by (simp add: stack_safe_def stack_ok_push)

lemma stack_safe_PushInt: "\<bar>v\<bar> < 2 ^ 55 \<Longrightarrow> stack_safe 1 (PushInt v)"
  by (auto simp: stack_safe_def intro: PushInt_safe)

text \<open>Pops followed by a push stay within the original size.\<close>

lemma stack_safe_pop:
  assumes "\<And>x s n. length x \<le> MaxScriptElementSize \<Longrightarrow> stack_ok n s \<Longrightarrow> n < 1000 \<Longrightarrow> safely (f x s) (stack_ok (n + Suc k))"
  shows "stack_safe k (\<lambda>s. sbind (PopByteArray s) (\<lambda>(x, s). f x s))"
  unfolding stack_safe_def safely_simps(3)
proof (intro allI impI)
  fix s :: stack and n :: nat
  assume n: "n \<le> 1000" "stack_ok n s"
  have "safely (f x s') (stack_ok (n + k))" if "stack_ok (n - 1) s'" "length x \<le> MaxScriptElementSize" "0 < n" for x s'
    using assms [OF that(2,1)] n(1) that(3) by simp
  then show "safely (PopByteArray s) (\<lambda>x. safely (case x of (x, s) \<Rightarrow> f x s) (stack_ok (n + k)))"
    by (intro Pop_safe [OF n(2)]) (use n(1) in simp_all)
qed

lemma stack_safe_pop_int:
  assumes "\<And>v s n. \<bar>v\<bar> < 2 ^ 31 \<Longrightarrow> stack_ok n s \<Longrightarrow> n < 1000 \<Longrightarrow> safely (f v s) (stack_ok (n + Suc k))"
  shows "stack_safe k (\<lambda>s. sbind (PopInt s) (\<lambda>(v, s). f v s))"
  unfolding stack_safe_def safely_simps(3)
proof (intro allI impI)
  fix s :: stack and n :: nat
  assume n: "n \<le> 1000" "stack_ok n s"
  have "safely (f v s') (stack_ok (n + k))" if "stack_ok (n - 1) s'" "\<bar>v\<bar> < 2 ^ 31" "0 < n" for v s'
    using assms [OF that(2,1)] n(1) that(3) by simp
  then show "safely (PopInt s) (\<lambda>x. safely (case x of (v, s) \<Rightarrow> f v s) (stack_ok (n + k)))"
    by (intro PopInt_safe [OF n(2)]) (use n(1) in simp_all)
qed

lemma stack_safeD: "stack_safe k f \<Longrightarrow> stack_ok n s \<Longrightarrow> n < 1000 \<Longrightarrow> safely (f s) (stack_ok (n + k))"
  by (simp add: stack_safe_def)

lemma stack_safe_int1:
  assumes "\<And>m. \<bar>m\<bar> < 2 ^ 31 \<Longrightarrow> \<bar>f m\<bar> < 2 ^ 55"
  shows "stack_safe 0 (\<lambda>s. sbind (PopInt s) (\<lambda>(m, s). PushInt (f m) s))"
  by (rule stack_safe_pop_int, erule PushInt_safe [OF _ assms]) simp_all

lemma stack_safe_weaken: "stack_safe k f \<Longrightarrow> k \<le> m \<Longrightarrow> stack_safe m f"
  unfolding stack_safe_def
proof (intro allI impI)
  fix s n
  assume "\<forall>s n. n \<le> 1000 \<longrightarrow> stack_ok n s \<longrightarrow> safely (f s) (stack_ok (n + k))" and n: "k \<le> m" "n \<le> 1000" "stack_ok n s"
  then have "safely (f s) (stack_ok (n + k))" by blast
  then show "safely (f s) (stack_ok (n + m))"
    by (rule safely_mono) (use n(1) in \<open>auto intro: stack_ok_mono [of "n + k"]\<close>)
qed

lemma stack_safe_int2:
  assumes "\<And>v w. \<bar>v\<bar> < 2 ^ 31 \<Longrightarrow> \<bar>w\<bar> < 2 ^ 31 \<Longrightarrow> \<bar>f v w\<bar> < 2 ^ 55"
  shows "stack_safe 0 (\<lambda>s. sbind (PopInt s) (\<lambda>(v0, s). sbind (PopInt s) (\<lambda>(v1, s). PushInt (f v0 v1) s)))"
  by (rule stack_safe_pop_int, rule stack_safeD, rule stack_safe_weaken [where k = 0], rule stack_safe_int1)
     (rule assms; assumption | assumption | simp)+

lemma stack_safe_hash:
  assumes "\<And>b. length (h b) \<le> MaxScriptElementSize"
  shows "stack_safe 0 (\<lambda>s. sbind (PopByteArray s) (\<lambda>(buf, s). Inr (PushByteArray (h buf) s)))"
  by (rule stack_safe_pop) (use assms stack_ok_push in auto)

lemma stack_ok_pred: "stack_ok (n - Suc 0) s \<Longrightarrow> stack_ok n s"
  by (erule stack_ok_mono) simp

lemma handler_safeI: "stack_safe k f \<Longrightarrow> k \<le> 3 \<Longrightarrow> (\<And>op data vm. h op data vm = on_dstack f vm) \<Longrightarrow> handler_safe h"
  by (simp add: handler_safe_def stack_handler)

lemma numeral_shuffles:
  "stack_safe 1 (DupN 1)" "stack_safe 2 (DupN 2)" "stack_safe 3 (DupN 3)" "stack_safe 1 (OverN 1)" "stack_safe 2 (OverN 2)"
  "stack_safe 0 (DropN 1)" "stack_safe 0 (DropN 2)"
  using stack_safe_shuffle(1) [of 1] stack_safe_shuffle(1) [of 2] stack_safe_shuffle(1) [of 3] stack_safe_shuffle(2) [of 1]
    stack_safe_shuffle(2) [of 2] stack_safe_shuffle(5) [of 1] stack_safe_shuffle(5) [of 2] by simp_all

lemma shuffle_safe [handler_safety]:
  "handler_safe opcode2Drop" "handler_safe opcode2Dup" "handler_safe opcode3Dup" "handler_safe opcode2Over"
  "handler_safe opcode2Rot" "handler_safe opcode2Swap" "handler_safe opcodeDrop" "handler_safe opcodeDup"
  "handler_safe opcodeNip" "handler_safe opcodeOver" "handler_safe opcodeRot" "handler_safe opcodeSwap"
  by (rule handler_safeI, (rule numeral_shuffles stack_safe_shuffle(3,4,6)), simp, simp only: stack_handlers)+

lemma push_safe [handler_safety]:
  "handler_safe opcodeFalse" "handler_safe opcodePushData" "handler_safe opcode1Negate" "handler_safe opcodeN"
proof -
  show "handler_safe opcodeFalse" "handler_safe opcodePushData"
    by (auto simp: handler_safe_def stack_handlers intro!: stack_handler stack_safe_push)
  show "handler_safe opcode1Negate"
    unfolding handler_safe_def stack_handlers by (auto intro!: stack_handler stack_safe_PushInt)
  have "\<bar>uint (b :: byte)\<bar> < 2 ^ 55" for b using byte_less [of b] by simp
  then show "handler_safe opcodeN"
    unfolding handler_safe_def stack_handlers by (blast intro: stack_handler stack_safe_PushInt one_le_numeral)
qed

lemma int_op1_safe:
  "(\<And>m. \<bar>m\<bar> < 2 ^ 31 \<Longrightarrow> \<bar>f m\<bar> < 2 ^ 55) \<Longrightarrow> engine_ok 1000 vm \<Longrightarrow> handled vm (int_op1 f vm)"
  unfolding int_op1_def by (rule stack_handler [OF stack_safe_int1]) simp_all

lemma int_op2_safe:
  "(\<And>v w. \<bar>v\<bar> < 2 ^ 31 \<Longrightarrow> \<bar>w\<bar> < 2 ^ 31 \<Longrightarrow> \<bar>f v w\<bar> < 2 ^ 55) \<Longrightarrow> engine_ok 1000 vm \<Longrightarrow> handled vm (int_op2 f vm)"
  unfolding int_op2_def by (rule stack_handler [OF stack_safe_int2]) simp_all

lemma int64_small: "\<bar>x\<bar> < 2 ^ 40 \<Longrightarrow> int64_of x = x"
  by (rule int64_of_id) (simp_all add: abs_less_iff)

lemma number_safe [handler_safety]:
  "handler_safe opcode1Add" "handler_safe opcode1Sub" "handler_safe opcodeNegate" "handler_safe opcodeAbs"
  "handler_safe opcodeNot" "handler_safe opcode0NotEqual" "handler_safe opcodeAdd" "handler_safe opcodeSub"
  "handler_safe opcodeBoolAnd" "handler_safe opcodeBoolOr" "handler_safe opcodeNumEqual" "handler_safe opcodeNumNotEqual"
  "handler_safe opcodeLessThan" "handler_safe opcodeGreaterThan" "handler_safe opcodeLessThanOrEqual"
  "handler_safe opcodeGreaterThanOrEqual" "handler_safe opcodeMin" "handler_safe opcodeMax"
  unfolding handler_safe_def number_handlers
  by (intro allI impI int_op1_safe int_op2_safe; (assumption | auto simp: int64_small))+

lemma hash_safe [handler_safety]:
  assumes "crypto_ok C"
  shows "handler_safe (opcodeRipemd160 C)" "handler_safe (opcodeSha1 C)" "handler_safe (opcodeSha256 C)"
    "handler_safe (opcodeHash160 C)" "handler_safe (opcodeHash256 C)"
  using assms unfolding handler_safe_def hash_handlers hash_top_def crypto_ok_def
  by (auto simp: DoubleHashB_def MaxScriptElementSize_def intro!: stack_handler [of 0] stack_safe_hash)

lemma more_stack_safe [handler_safety]:
  "handler_safe opcodeIfDup" "handler_safe opcodeDepth" "handler_safe opcodePick" "handler_safe opcodeRoll"
  "handler_safe opcodeTuck" "handler_safe opcodeSize" "handler_safe opcodeEqual" "handler_safe opcodeWithin"
proof -
  have peek: "safely (PeekByteArray 0 s) Q" if "n \<le> 1000" "stack_ok n s" "\<And>x. length x \<le> MaxScriptElementSize \<Longrightarrow> Q x" for n s Q
    by (rule Peek_safe [OF that(2)]) (use that in simp_all)
  have "stack_safe 1 (\<lambda>s. sbind (PeekByteArray 0 s) (\<lambda>so. Inr (if asBool so then PushByteArray so s else s)))"
    by (auto simp: stack_safe_def intro!: peek stack_ok_push intro: stack_ok_mono)
  then show "handler_safe opcodeIfDup" by (auto simp: handler_safe_def stack_handlers intro: stack_handler)
  have "stack_safe 1 (\<lambda>s. PushInt (Depth s) s)"
    by (auto simp: stack_safe_def stack_ok_def [of _ "_ :: stack"] intro!: PushInt_safe)
  then show "handler_safe opcodeDepth" by (auto simp: handler_safe_def stack_handlers intro: stack_handler)
  have move: "safely (move_to_top idx s) (stack_ok (Suc n))" if "stack_ok n s" "n < 1000" for n s idx
    using safely_mono [OF move_to_top_safe [OF that(1)] stack_ok_mono [of n _ "Suc n"]] that(2) by simp
  have "stack_safe 0 (\<lambda>s. sbind (PopInt s) (\<lambda>(val, s). PickN (scriptNum_Int32 val) s))"
    "stack_safe 0 (\<lambda>s. sbind (PopInt s) (\<lambda>(val, s). RollN (scriptNum_Int32 val) s))"
    unfolding PickN_def RollN_def using copy_to_top_safe move by (auto intro!: stack_safe_pop_int)
  then show "handler_safe opcodePick" "handler_safe opcodeRoll"
    by (auto simp: handler_safe_def stack_handlers intro: stack_handler)
  have "stack_safe 1 Tuck" unfolding Tuck_def
    by (intro stack_safe_pop) (auto intro!: Pop_safe stack_ok_push [of "Suc _"], metis Suc_pred stack_ok_push)
  then show "handler_safe opcodeTuck" by (rule handler_safeI) (simp_all add: stack_handlers)
  have "stack_safe 1 (\<lambda>s. sbind (PeekByteArray 0 s) (\<lambda>so. PushInt (int (length so)) s))"
    by (auto simp: stack_safe_def MaxScriptElementSize_def intro!: peek PushInt_safe)
  then show "handler_safe opcodeSize" by (rule handler_safeI) (simp_all add: stack_handlers)
  have "stack_safe 0 (\<lambda>s. sbind (PopByteArray s) (\<lambda>(a, s). sbind (PopByteArray s) (\<lambda>(b, s). Inr (PushBool (a = b) s))))"
    by (intro stack_safe_pop) (auto simp: PushBool_def fromBool_def MaxScriptElementSize_def
          intro!: Pop_safe stack_ok_push intro: stack_ok_pred)
  then show "handler_safe opcodeEqual" by (rule handler_safeI) (simp_all add: stack_handlers)
  have "stack_safe 0 (\<lambda>s. sbind (PopInt s) (\<lambda>(maxVal, s). sbind (PopInt s) (\<lambda>(minVal, s). sbind (PopInt s) (\<lambda>(x, s).
       PushInt (if x \<ge> minVal \<and> x < maxVal then 1 else 0) s))))"
    by (rule stack_safe_pop_int, rule stack_safeD, rule stack_safe_weaken [where k = 0], rule stack_safe_int2) auto
  then show "handler_safe opcodeWithin" by (rule handler_safeI) (simp_all add: stack_handlers)
qed

text \<open>The machine looks only at the innermost conditional; this is right because in a well-formed
  conditional stack it is executed exactly when all enclosing ones are.\<close>

lemma isBranchExecuting_iff:
  "cond_ok (vm_condStack vm) \<Longrightarrow> isBranchExecuting vm \<longleftrightarrow> (\<forall>c \<in> set (vm_condStack vm). c = OpCondTrue)"
  using cond_ok_last [of "vm_condStack vm"] by (simp add: isBranchExecuting_def)

lemma cond_ok_if:
  "cond_ok (vm_condStack vm) \<Longrightarrow> isBranchExecuting vm \<Longrightarrow> c \<noteq> OpCondSkip \<Longrightarrow> cond_ok (vm_condStack vm @ [c])"
  "cond_ok (vm_condStack vm) \<Longrightarrow> \<not> isBranchExecuting vm \<Longrightarrow> cond_ok (vm_condStack vm @ [OpCondSkip])"
  using isBranchExecuting_iff [of vm] by (auto simp: cond_ok_snoc)

lemma cond_ok_else:
  assumes "cond_ok (cs @ [c])"
  shows "c = OpCondTrue \<Longrightarrow> cond_ok (cs @ [OpCondFalse])" "c = OpCondFalse \<Longrightarrow> cond_ok (cs @ [OpCondTrue])" "cond_ok cs"
  using assms cond_ok_all by (auto simp: cond_ok_snoc split: if_splits)

lemma engine_ok_cond:
  "engine_ok n vm \<Longrightarrow> cond_ok cs \<Longrightarrow> engine_ok n (vm\<lparr>vm_condStack := cs\<rparr>)"
  by (simp add: engine_ok_def)

lemma popIfBool_safe:
  assumes "stack_ok n s" "n \<le> 2000" "\<And>b s'. stack_ok n s' \<Longrightarrow> Q (b, s')"
  shows "safely (popIfBool s) Q"
  unfolding popIfBool_def safely_simps
  by (rule Pop_safe [OF assms(1,2)]) (auto intro!: assms(3) stack_ok_pred)

lemma handled_simps [simp]:
  "handled vm (Inl e) \<longleftrightarrow> e \<noteq> goPanic" "handled vm (Inr vm') \<longleftrightarrow> engine_ok 1003 vm' \<and> budget vm' \<le> budget vm"
  by (simp_all add: handled_def)

lemma conditional_safe [handler_safety]:
  "handler_safe opcodeIf" "handler_safe opcodeNotIf" "handler_safe opcodeElse" "handler_safe opcodeEndif"
proof -
  have ok: "cond_ok (vm_condStack vm)" "engine_ok 1003 vm" "stack_ok 1000 (vm_dstack vm)" if "engine_ok 1000 vm" for vm
    using that engine_ok_mono [OF that, of 1003] by (simp_all add: engine_ok_def)
  have upd: "engine_ok 1003 (vm\<lparr>vm_dstack := s, vm_condStack := cs\<rparr>)" if "engine_ok 1000 vm" "stack_ok 1000 s" "cond_ok cs" for vm s cs
    using engine_ok_cond [OF engine_ok_mono [OF engine_ok_update(1) [OF that(1,2)]] that(3)] by simp
  have branch: "handled vm (if isBranchExecuting vm then sbind (popIfBool (vm_dstack vm)) (\<lambda>(b, s).
      Inr (vm\<lparr>vm_dstack := s, vm_condStack := vm_condStack vm @ [if f b then OpCondTrue else OpCondFalse]\<rparr>))
      else Inr (vm\<lparr>vm_condStack := vm_condStack vm @ [OpCondSkip]\<rparr>))" if "engine_ok 1000 vm" for vm f
  proof (cases "isBranchExecuting vm")
    case True
    have "engine_ok 1003 (vm\<lparr>vm_dstack := s, vm_condStack := vm_condStack vm @ [if f b then OpCondTrue else OpCondFalse]\<rparr>)"
      if "stack_ok 1000 s" for b s
      using upd [OF \<open>engine_ok 1000 vm\<close> that] cond_ok_if(1) [OF ok(1) [OF \<open>engine_ok 1000 vm\<close>] True] by simp
    then show ?thesis using True popIfBool_safe [OF ok(3) [OF that]] by (simp add: handled_def)
  next
    case False
    then show ?thesis using engine_ok_cond [OF ok(2) cond_ok_if(2) [OF ok(1)]] that by simp
  qed
  show "handler_safe opcodeIf" using branch [of _ "\<lambda>b. b"] by (simp add: handler_safe_def opcodeIf_def)
  show "handler_safe opcodeNotIf" using branch [of _ "\<lambda>b. \<not> b"] by (simp add: handler_safe_def opcodeNotIf_def)
  have last: "handled vm (opcodeElse op data vm) \<and> handled vm (opcodeEndif op data vm)" if vm: "engine_ok 1000 vm" for op data vm
  proof (cases "vm_condStack vm" rule: rev_cases)
    case Nil
    then show ?thesis by (simp add: opcodeElse_def opcodeEndif_def)
  next
    case (snoc cs c)
    then show ?thesis using ok [OF vm] cond_ok_else [of cs c] engine_ok_cond [OF ok(2) [OF vm]]
      by (cases c) (auto simp: opcodeElse_def opcodeEndif_def Let_def)
  qed
  then show "handler_safe opcodeElse" "handler_safe opcodeEndif" by (simp_all add: handler_safe_def)
qed

lemma engine_ok_index:
  "engine_ok n vm \<Longrightarrow> \<exists>txIn. go_index (tx_TxIn (vm_tx vm)) (vm_txIdx vm) = Inr txIn"
  by (simp add: engine_ok_def go_index_def)

lemma simple_safe [handler_safety]:
  "handler_safe opcodeDisabled" "handler_safe opcodeReserved" "handler_safe opcodeInvalid" "handler_safe opcodeNop"
  "handler_safe opcodeReturn" "handler_safe opcodeCheckMultiSig"
  by (auto simp: handler_safe_def opcodeDisabled_def opcodeReserved_def opcodeInvalid_def opcodeNop_def opcodeReturn_def
        opcodeCheckMultiSig_def elim: engine_ok_mono)

lemma alt_stack_safe [handler_safety]: "handler_safe opcodeToAltStack" "handler_safe opcodeFromAltStack"
proof -
  have upd: "engine_ok 1003 (vm\<lparr>vm_dstack := s, vm_astack := t\<rparr>)" "engine_ok 1003 (vm\<lparr>vm_astack := t, vm_dstack := s\<rparr>)"
    if "engine_ok 1000 vm" "stack_ok 1001 s" "stack_ok 1001 t" for vm s t
    using that by (auto simp: engine_ok_def budget_def elim: stack_ok_mono)
  show "handler_safe opcodeToAltStack" "handler_safe opcodeFromAltStack"
    unfolding handler_safe_def handled_def opcodeToAltStack_def opcodeFromAltStack_def
    by (auto intro!: Pop_safe [of 1000] upd stack_ok_push [of 1000, simplified] simp: engine_ok_stacks)
       (erule stack_ok_mono, simp)+
qed

lemma lock_time_safe [handler_safety]: "handler_safe opcodeCheckLockTimeVerify" "handler_safe opcodeCheckSequenceVerify"
proof -
  have peek: "safely (PeekByteArray 0 (vm_dstack vm)) (\<lambda>so. safely (MakeScriptNum so b 5) Q)"
    if "engine_ok 1000 vm" "\<And>n. Q n" for vm b Q
    by (rule Peek_safe [OF engine_ok_stacks(1) [OF that(1)]]) (auto intro: MakeScriptNum_safe that(2))
  have lock: "safely (verifyLockTime a t l) Q" if "Q ()" for a t l Q using that by (simp add: verifyLockTime_def)
  have vm: "engine_ok 1003 vm" "\<exists>txIn. go_index (tx_TxIn (vm_tx vm)) (vm_txIdx vm) = Inr txIn" if "engine_ok 1000 vm" for vm
    using that engine_ok_index engine_ok_mono [of 1000 vm 1003] by simp_all
  show "handler_safe opcodeCheckLockTimeVerify" "handler_safe opcodeCheckSequenceVerify"
    unfolding handler_safe_def handled_def opcodeCheckLockTimeVerify_def opcodeCheckSequenceVerify_def Let_def
    using vm by (fastforce intro!: peek lock)+
qed

text \<open>The budget: a successful charge lowers it by the cost and leaves it non-negative.\<close>

lemma tallyOpCost_iff:
  assumes "0 \<le> ctx_opsBudget ctx" "ctx_opsBudget ctx < 2 ^ 31" "0 \<le> cost" "cost < 2 ^ 31"
  shows "tallyOpCost cost ctx =
    (if cost \<le> ctx_opsBudget ctx then Inr (ctx\<lparr>ctx_opsBudget := ctx_opsBudget ctx - cost\<rparr>)
     else Inl (scriptError ErrTaprootMaxSigOps))"
proof -
  have "int32_of (ctx_opsBudget ctx - cost) = ctx_opsBudget ctx - cost"
    using assms by (intro int32_of_id) simp_all
  then show ?thesis by (simp add: tallyOpCost_def Let_def not_less)
qed

lemma engine_ok_budget:
  "engine_ok n vm \<Longrightarrow> vm_tapscriptCtx vm = Some ctx \<Longrightarrow> 0 \<le> ctx_opsBudget ctx \<and> ctx_opsBudget ctx < 2 ^ 31"
  by (simp add: engine_ok_def budget_def)

lemma engine_ok_charge:
  assumes "engine_ok n vm" "stack_ok m s" "n \<le> m" "0 \<le> ctx_opsBudget ctx'" "ctx_opsBudget ctx' \<le> budget vm"
  shows "engine_ok m (vm\<lparr>vm_dstack := s, vm_tapscriptCtx := Some ctx'\<rparr>)"
    "engine_ok m (vm\<lparr>vm_tapscriptCtx := Some ctx', vm_dstack := s\<rparr>)"
  using assms by (auto simp: engine_ok_def budget_def elim: stack_ok_mono)

text \<open>Charging inside a handler.\<close>

lemma tally_handled:
  assumes "engine_ok n vm" "vm_tapscriptCtx vm = Some ctx" "0 \<le> cost" "cost < 2 ^ 31"
    "\<And>ctx'. 0 \<le> ctx_opsBudget ctx' \<Longrightarrow> ctx_opsBudget ctx' \<le> budget vm \<Longrightarrow> handled vm (f ctx')"
  shows "handled vm (sbind (tallyOpCost cost ctx) f)"
  using tallyOpCost_iff [of ctx cost] engine_ok_budget [OF assms(1,2)] assms(2-5) by (simp add: budget_def)

lemma pop_handled:
  assumes "stack_ok n s" "n \<le> 2000"
    "\<And>x s'. length x \<le> MaxScriptElementSize \<Longrightarrow> stack_ok (n - 1) s' \<Longrightarrow> 0 < n \<Longrightarrow> handled vm (f x s')"
  shows "handled vm (sbind (PopByteArray s) (\<lambda>(x, s'). f x s'))"
  using assms(3) unfolding handled_def safely_simps by (intro Pop_safe [OF assms(1,2)]) simp

lemma pop_int_handled:
  assumes "stack_ok n s" "n \<le> 2000"
    "\<And>v s'. \<bar>v\<bar> < 2 ^ 31 \<Longrightarrow> stack_ok (n - 1) s' \<Longrightarrow> 0 < n \<Longrightarrow> handled vm (f v s')"
  shows "handled vm (sbind (PopInt s) (\<lambda>(v, s'). f v s'))"
  using assms(3) unfolding handled_def safely_simps by (intro PopInt_safe [OF assms(1,2)]) simp

lemma cat_safe [handler_safety]: "handler_safe opcodeCat"
  unfolding handler_safe_def
proof (intro allI impI)
  fix op data vm
  assume vm: "engine_ok 1000 vm"
  note dst = engine_ok_stacks(1) [OF vm]
  have cost: "0 \<le> int32_of (int ((k + 63) div 64))" "int32_of (int ((k + 63) div 64)) < 2 ^ 31" if "k \<le> 520" for k :: nat
    using that by (subst int32_of_id; simp)+
  have "handled vm (sbind (tallyOpCost (int32_of (int ((length x + length y + 63) div 64))) ctx)
      (\<lambda>ctx. Inr (vm\<lparr>vm_tapscriptCtx := Some ctx, vm_dstack := PushByteArray (x @ y) s\<rparr>)))"
    if "vm_tapscriptCtx vm = Some ctx" "length x + length y \<le> MaxScriptElementSize" "stack_ok 998 s" for ctx x y s
  proof (rule tally_handled [OF vm that(1)])
    fix ctx' :: tapscriptExecutionCtx
    assume c: "0 \<le> ctx_opsBudget ctx'" "ctx_opsBudget ctx' \<le> budget vm"
    have "stack_ok 1003 (PushByteArray (x @ y) s)"
      using stack_ok_push [OF that(3), of "x @ y"] that(2) by (auto elim: stack_ok_mono)
    from engine_ok_charge(2) [OF vm this _ c] c show "handled vm (Inr (vm\<lparr>vm_tapscriptCtx := Some ctx', vm_dstack := PushByteArray (x @ y) s\<rparr>))"
      by simp
  qed (use cost [of "length x + length y"] that(2) in \<open>simp_all add: MaxScriptElementSize_def add.assoc\<close>)
  then show "handled vm (opcodeCat op data vm)"
    unfolding opcodeCat_def Let_def
    by (auto split: option.split intro!: pop_handled [OF dst] pop_handled [of 999] simp: not_less)
qed

lemma codesep_safe [handler_safety]: "handler_safe opcodeCodeSeparator"
  by (auto simp: handler_safe_def opcodeCodeSeparator_def Let_def engine_ok_def budget_def split: option.split elim: stack_ok_mono)

text \<open>The signature message of the running machine is computed without a panic.\<close>

lemma sighash_no_panic:
  assumes "0 \<le> idx" "idx < int (length (tx_TxIn tx))"
    "\<forall>txIn \<in> set (tx_TxIn tx). prevOuts (ti_PreviousOutPoint txIn) \<noteq> None"
  shows "calcTaprootSignatureHashRaw C sh h tx idx prevOuts opts \<noteq> Inl goPanic"
proof -
  obtain txIn where i: "go_index (tx_TxIn tx) idx = Inr txIn" "txIn \<in> set (tx_TxIn tx)"
    using assms(1,2) by (auto simp: go_index_def)
  then obtain p where "fetch prevOuts (ti_PreviousOutPoint txIn) = Inr p" using assms(3) by (auto simp: fetch_eq)
  with i assms(1) show ?thesis by (auto simp: calcTaprootSignatureHashRaw_def Let_def go_index_def)
qed

lemma tapscript_hash_no_panic:
  "engine_ok n vm \<Longrightarrow> CalcTapscriptSigHash C vm hc h (vm_tx vm) (vm_txIdx vm) (vm_prevOutFetcher vm) \<noteq> Inl goPanic"
  using sighash_no_panic [of "vm_txIdx vm" "vm_tx vm" "vm_prevOutFetcher vm" C hc h]
  by (simp add: CalcTapscriptSigHash_def engine_ok_def split: option.split)

lemma verifier_safe:
  assumes "engine_ok n vm" "vm_tapscriptCtx vm \<noteq> None"
    "\<And>v cache. handled vm0 (f v (vm\<lparr>vm_sigCache := cache\<rparr>))"
  shows "handled vm0 (sbind (newBaseTapscriptSigVerifier C pk sig vm) (\<lambda>b. sbind (tapscript_Verify C pick b vm) (\<lambda>(v, vm). f v vm)))"
proof -
  have "handled vm0 (f v vm)" for v using assms(3) [of v "vm_sigCache vm"] by simp
  then show ?thesis
    using assms tapscript_hash_no_panic [OF assms(1), of C]
    by (auto simp: newBaseTapscriptSigVerifier_def newTaprootSigVerifier_def parseTaprootSigAndPubKey_def tapscript_Verify_def Let_def
      split: option.splits sum.splits prod.splits)
qed

lemma handled_option:
  "(\<And>x. y = Some x \<Longrightarrow> handled vm (f x)) \<Longrightarrow> e \<noteq> goPanic \<Longrightarrow> handled vm (case y of None \<Rightarrow> Inl e | Some x \<Rightarrow> f x)"
  by (cases y) simp_all

lemma maybe_tally_handled:
  assumes "engine_ok n vm" "vm_tapscriptCtx vm = Some ctx"
    "\<And>ctx'. 0 \<le> ctx_opsBudget ctx' \<Longrightarrow> ctx_opsBudget ctx' \<le> budget vm \<Longrightarrow> handled vm (f ctx')"
  shows "handled vm (sbind (if c then tallysigOp ctx else Inr ctx) f)"
  using tally_handled [OF assms(1,2), of sigOpsDelta f] engine_ok_budget [OF assms(1,2)] assms(2,3)
  by (simp add: tallysigOp_def sigOpsDelta_def budget_def)

lemma push_handled:
  assumes "engine_ok n vm" "n \<le> 1002" "budget vm \<le> budget vm0"
  shows "length x \<le> MaxScriptElementSize \<Longrightarrow> handled vm0 (on_dstack (\<lambda>s. Inr (PushByteArray x s)) vm)"
    "handled vm0 (on_dstack (\<lambda>s. Inr (PushBool b s)) vm)"
    "\<bar>v\<bar> < 2 ^ 55 \<Longrightarrow> handled vm0 (on_dstack (PushInt v) vm)"
proof -
  have push: "safely (Inr (PushByteArray x (vm_dstack vm)) :: go_error + stack) (stack_ok 1003)" if "length x \<le> MaxScriptElementSize" for x
    using stack_ok_mono [OF stack_ok_push [OF engine_ok_stacks(1) [OF assms(1)] that], of 1003] assms(2) by simp
  show "handled vm0 (on_dstack (\<lambda>s. Inr (PushByteArray x s)) vm)" if "length x \<le> MaxScriptElementSize"
    by (rule on_dstack_handled [OF assms(1) _ _ assms(3)]) (use push [OF that] assms(2) in simp_all)
  show "handled vm0 (on_dstack (\<lambda>s. Inr (PushBool b s)) vm)" unfolding PushBool_def
    by (rule on_dstack_handled [OF assms(1) _ _ assms(3)])
       (use push [of "fromBool b"] assms(2) in \<open>simp_all add: fromBool_def MaxScriptElementSize_def\<close>)
  show "handled vm0 (on_dstack (PushInt v) vm)" if "\<bar>v\<bar> < 2 ^ 55"
  proof (rule on_dstack_handled [OF assms(1) _ _ assms(3)])
    show "safely (PushInt v (vm_dstack vm)) (stack_ok 1003)"
      by (rule PushInt_safe [OF engine_ok_stacks(1) [OF assms(1)] that]) (use assms(2) in \<open>auto elim: stack_ok_mono\<close>)
  qed (use assms(2) in simp)
qed

lemma engine_ok_cache: "engine_ok n vm \<Longrightarrow> engine_ok n (vm\<lparr>vm_sigCache := c\<rparr>)"
  by (simp add: engine_ok_def)

lemma checksig_safe [handler_safety]: "handler_safe (opcodeCheckSig C pick)"
  unfolding handler_safe_def
proof (intro allI impI)
  fix op data vm
  assume vm: "engine_ok 1000 vm"
  have tail: "handled vm (let vm' = vm\<lparr>vm_dstack := s, vm_tapscriptCtx := Some ctx\<rparr>
      in if length pk = 0 then Inl (scriptError ErrTaprootPubkeyIsEmpty)
         else if length sig = 0 then on_dstack (\<lambda>s. Inr (PushByteArray [] s)) vm'
         else sbind (newBaseTapscriptSigVerifier C pk sig vm') (\<lambda>sigVerifier.
           sbind (tapscript_Verify C pick sigVerifier vm') (\<lambda>(valid, vm).
             if \<not> valid \<and> length sig \<noteq> 0 then Inl (scriptError ErrNullFail)
             else on_dstack (\<lambda>s. Inr (PushBool valid s)) vm)))"
    if "stack_ok 998 s" "0 \<le> ctx_opsBudget ctx" "ctx_opsBudget ctx \<le> budget vm" for s ctx pk sig
  proof -
    define vm' where "vm' = vm\<lparr>vm_dstack := s, vm_tapscriptCtx := Some ctx\<rparr>"
    have vm': "engine_ok 1000 vm'" "budget vm' \<le> budget vm" "vm_tapscriptCtx vm' \<noteq> None"
      using engine_ok_charge(1) [OF vm stack_ok_mono [OF that(1)]] that(2,3) by (simp_all add: vm'_def)
    show ?thesis unfolding vm'_def [symmetric] Let_def
      using push_handled(1) [OF vm'(1) _ vm'(2), of "[]"] push_handled(2) [OF engine_ok_cache [OF vm'(1)]] vm'
      by (auto intro!: verifier_safe)
  qed
  show "handled vm (opcodeCheckSig C pick op data vm)"
    unfolding opcodeCheckSig_def
    by (rule pop_handled [OF engine_ok_stacks(1) [OF vm]], simp, rule pop_handled, assumption, simp, rule handled_option,
        rule maybe_tally_handled [OF vm], assumption, rule tail) simp_all
qed

lemma checksigadd_safe [handler_safety]: "handler_safe (opcodeCheckSigAdd C pick)"
  unfolding handler_safe_def
proof (intro allI impI)
  fix op data vm
  assume vm: "engine_ok 1000 vm"
  have tail: "handled vm (let vm' = vm\<lparr>vm_dstack := s, vm_tapscriptCtx := Some ctx\<rparr>
      in if length pk = 0 then Inl (scriptError ErrTaprootPubkeyIsEmpty)
         else if length sig = 0 then on_dstack (PushInt n) vm'
         else sbind (newBaseTapscriptSigVerifier C pk sig vm') (\<lambda>sigVerifier.
           sbind (tapscript_Verify C pick sigVerifier vm') (\<lambda>(sigValid, vm).
             if \<not> sigValid then Inl (scriptError ErrNullFail)
             else on_dstack (PushInt (int64_of (n + 1))) vm)))"
    if "stack_ok 997 s" "\<bar>n\<bar> < 2 ^ 31" "0 \<le> ctx_opsBudget ctx" "ctx_opsBudget ctx \<le> budget vm" for s n ctx pk sig
  proof -
    define vm' where "vm' = vm\<lparr>vm_dstack := s, vm_tapscriptCtx := Some ctx\<rparr>"
    have vm': "engine_ok 1000 vm'" "budget vm' \<le> budget vm" "vm_tapscriptCtx vm' \<noteq> None"
      using engine_ok_charge(1) [OF vm stack_ok_mono [OF that(1)]] that(3,4) by (simp_all add: vm'_def)
    have "\<bar>n\<bar> < 2 ^ 55" "\<bar>int64_of (n + 1)\<bar> < 2 ^ 55" using that(2) by (simp_all add: int64_small)
    then show ?thesis unfolding vm'_def [symmetric] Let_def
      using push_handled(3) [OF vm'(1) _ vm'(2), of n] push_handled(3) [OF engine_ok_cache [OF vm'(1)], where v = "int64_of (n + 1)"] vm'
      by (auto intro!: verifier_safe)
  qed
  show "handled vm (opcodeCheckSigAdd C pick op data vm)"
    unfolding opcodeCheckSigAdd_def
    by (rule handled_option, rule pop_handled [OF engine_ok_stacks(1) [OF vm]], simp, rule pop_int_handled, assumption, simp,
        rule pop_handled, assumption, simp, rule maybe_tally_handled [OF vm], assumption, rule tail) simp_all
qed

lemma popChunks_safe:
  assumes "stack_ok n s" "n \<le> 2000" "\<And>cs s'. stack_ok n s' \<Longrightarrow> Q (cs, s')"
  shows "safely (popChunks k chunks s) Q"
  using assms(1)
proof (induction k arbitrary: chunks s)
  case (Suc k)
  show ?case
    by (simp, rule Pop_safe [OF Suc.prems assms(2)]) (use Suc.IH stack_ok_pred in simp)
qed (simp add: assms(3))

lemma popChunks_handled:
  assumes "stack_ok n s" "n \<le> 2000" "\<And>cs s'. stack_ok n s' \<Longrightarrow> handled vm (f cs s')"
  shows "handled vm (sbind (popChunks k chunks s) (\<lambda>(cs, s'). f cs s'))"
  using assms(3) unfolding handled_def safely_simps by (intro popChunks_safe [OF assms(1,2)]) simp

lemma handled_if: "(c \<Longrightarrow> handled vm a) \<Longrightarrow> (\<not> c \<Longrightarrow> handled vm b) \<Longrightarrow> handled vm (if c then a else b)"
  by simp

lemma checkxmss_safe [handler_safety]: "handler_safe (opcodeCheckXmssSig C)"
  unfolding handler_safe_def
proof (intro allI impI)
  fix op data vm
  assume vm: "engine_ok 1000 vm"
  let ?False = "on_dstack (\<lambda>s. Inr (PushBool False s))"
  have no_charge: "handled vm (?False (vm\<lparr>vm_dstack := s\<rparr>))" if "stack_ok 1000 s" for s
    using push_handled(2) [OF engine_ok_update(1) [OF vm that]] by simp
  have charged: "handled vm (case CalcTapscriptSigHash C vm' (vm_hashCache vm') SigHashDefault (vm_tx vm') (vm_txIdx vm') (vm_prevOutFetcher vm') of
       Inl e \<Rightarrow> (if e = goPanic then Inl goPanic else ?False vm')
     | Inr h \<Rightarrow> let valid = V h in if \<not> valid then Inl (scriptError ErrNullFail) else on_dstack (\<lambda>s. Inr (PushBool valid s)) vm')"
    if "stack_ok 1000 s" "0 \<le> ctx_opsBudget ctx" "ctx_opsBudget ctx \<le> budget vm" "vm' = vm\<lparr>vm_dstack := s, vm_tapscriptCtx := Some ctx\<rparr>"
    for s ctx V vm'
  proof -
    have vm': "engine_ok 1000 vm'" "budget vm' \<le> budget vm"
      using engine_ok_charge(1) [OF vm that(1) _ that(2,3)] that(3,4) by simp_all
    then show ?thesis using tapscript_hash_no_panic [OF vm'(1)] push_handled(2) [OF vm'(1) _ vm'(2)]
      by (auto split: sum.split simp: Let_def)
  qed
  show "handled vm (opcodeCheckXmssSig C op data vm)"
    unfolding opcodeCheckXmssSig_def Let_def
    by (rule handled_option, rule pop_handled [OF engine_ok_stacks(1) [OF vm]], simp, rule popChunks_handled, assumption, simp,
        rule handled_if, rule no_charge, erule stack_ok_mono, simp, rule handled_if, rule no_charge, erule stack_ok_mono, simp,
        rule tally_handled [OF vm], assumption, simp, simp, rule charged [unfolded Let_def], erule stack_ok_mono)
       simp_all
qed

lemma abstractVerify_handled:
  assumes "handled vm0 r" shows "handled vm0 (sbind r (abstractVerify c))"
proof (cases r)
  case (Inr vm)
  have vm: "engine_ok 1003 vm" "budget vm \<le> budget vm0" using assms Inr by simp_all
  show ?thesis unfolding Inr sbind_simps abstractVerify_def PopBool_def sbind_assoc
    by (simp add: handled_def, rule Pop_safe [OF engine_ok_stacks(1) [OF vm(1)]])
       (use vm engine_ok_update(1) [OF vm(1), of 1003] stack_ok_mono [of 1002 _ 1003] in auto)
qed (use assms in simp)

lemma verify_safe [handler_safety]:
  "handler_safe opcodeVerify" "handler_safe opcodeEqualVerify" "handler_safe opcodeNumEqualVerify"
  "handler_safe (opcodeCheckSigVerify C pick)" "handler_safe opcodeCheckMultiSigVerify"
proof -
  have "handled vm (abstractVerify c vm)" if "engine_ok 1000 vm" for vm c
    using abstractVerify_handled [of vm "Inr vm"] engine_ok_mono [OF that] by simp
  then show "handler_safe opcodeVerify" by (simp add: handler_safe_def opcodeVerify_def)
  show "handler_safe opcodeEqualVerify" "handler_safe opcodeNumEqualVerify" "handler_safe (opcodeCheckSigVerify C pick)"
    "handler_safe opcodeCheckMultiSigVerify"
    using handler_safety unfolding handler_safe_def opcodeEqualVerify_def opcodeNumEqualVerify_def opcodeCheckSigVerify_def
      opcodeCheckMultiSigVerify_def
    by (auto intro!: abstractVerify_handled)
qed

lemma opfunc_safe:
  assumes "crypto_ok C" "engine_ok 1000 vm" "length data \<le> MaxScriptElementSize"
  shows "handled vm (opfunc C pick b op data vm)"
proof -
  have "handler_safe (opfunc C pick b)"
    by (rule opfunc_rule) (simp_all add: opcodeHandlers_def handler_safety hash_safe [OF assms(1)])
  with assms(2,3) show ?thesis by (simp add: handler_safe_def)
qed

end
