(* ===== verification/Script_Engine.thy ===== *)
theory Script_Engine
  imports Script_Handlers
begin

text \<open>
  The script machine (\<^verbatim>\<open>node/txscript/engine.go\<close>): the checks around an opcode, the witness
  programs of versions 1 (taproot) and 2 (merkle root), the step function, the execution loop and
  the construction of a machine for an input. The loop is total: \<open>Step_progress\<close> gives the measure.
  The debugging callback, the disassembler and the trace log are left out.
\<close>

subsection \<open>Opcodes\<close>

definition isOpcodeDisabled :: "byte \<Rightarrow> bool" where
  "isOpcodeDisabled opcode \<longleftrightarrow>
     opcode \<in> {OP_SUBSTR, OP_LEFT, OP_RIGHT, OP_INVERT, OP_AND, OP_OR, OP_XOR, OP_2MUL, OP_2DIV,
               OP_MUL, OP_DIV, OP_MOD, OP_LSHIFT, OP_RSHIFT}"

definition isOpcodeAlwaysIllegal :: "byte \<Rightarrow> bool" where
  "isOpcodeAlwaysIllegal opcode \<longleftrightarrow> opcode \<in> {OP_VERIF, OP_VERNOTIF}"

definition isOpcodeConditional :: "byte \<Rightarrow> bool" where
  "isOpcodeConditional opcode \<longleftrightarrow> opcode \<in> {OP_IF, OP_NOTIF, OP_ELSE, OP_ENDIF}"

definition checkMinimalDataPush :: "opcode \<Rightarrow> bytes \<Rightarrow> go_error + unit" where
  "checkMinimalDataPush op data =
     (let opcodeVal = op_value op; dataLen = length data; bad = Inl (scriptError ErrMinimalData)
      in if dataLen = 0 \<and> opcodeVal \<noteq> OP_0 then bad
         else if dataLen = 1 \<and> data ! 0 \<ge> 1 \<and> data ! 0 \<le> 16 then
           (if opcodeVal \<noteq> OP_1 + data ! 0 - 1 then bad else Inr ())
         else if dataLen = 1 \<and> data ! 0 = 0x81 then
           (if opcodeVal \<noteq> OP_1NEGATE then bad else Inr ())
         else if dataLen \<le> 75 then (if unat opcodeVal \<noteq> dataLen then bad else Inr ())
         else if dataLen \<le> 255 then (if opcodeVal \<noteq> OP_PUSHDATA1 then bad else Inr ())
         else if dataLen \<le> 65535 then (if opcodeVal \<noteq> OP_PUSHDATA2 then bad else Inr ())
         else Inr ())"

text \<open>The size of the pushed data is checked only where no operation is counted.\<close>

definition countOpcode :: "opcode \<Rightarrow> bytes \<Rightarrow> Engine \<Rightarrow> go_error + Engine" where
  "countOpcode op data vm =
     (if vm_tapscriptCtx vm = None \<and> op_value op > OP_16 then
        let vm = vm\<lparr>vm_numOps := vm_numOps vm + 1\<rparr>
        in if vm_numOps vm > MaxOpsPerScript then Inl (scriptError ErrTooManyOperations) else Inr vm
      else if length data > MaxScriptElementSize then Inl (scriptError ErrElementTooBig)
      else Inr vm)"

definition executeOpcode :: "crypto \<Rightarrow> sig_pick \<Rightarrow> opcode \<Rightarrow> bytes \<Rightarrow> Engine \<Rightarrow> go_error + Engine" where
  "executeOpcode C pick op data vm =
     (if isOpcodeDisabled (op_value op) then Inl (scriptError ErrDisabledOpcode)
      else if isOpcodeAlwaysIllegal (op_value op) then Inl (scriptError ErrReservedOpcode)
      else sbind (countOpcode op data vm) (\<lambda>vm.
        if \<not> isBranchExecuting vm \<and> \<not> isOpcodeConditional (op_value op) then Inr vm
        else
          sbind (if verifyMinimalData (vm_dstack vm) \<and> isBranchExecuting vm \<and> op_value op \<le> OP_PUSHDATA4
                 then checkMinimalDataPush op data else Inr ()) (\<lambda>_.
            opfunc C pick (op_value op) op data vm)))"

definition checkValidPC :: "Engine \<Rightarrow> go_error + unit" where
  "checkValidPC vm =
     (if vm_scriptIdx vm \<ge> length (vm_scripts vm) then Inl (scriptError ErrInvalidProgramCounter) else Inr ())"

subsection \<open>Witness programs\<close>

definition stripWitnessAnnex :: "bytes list \<Rightarrow> bytes list \<times> bytes option" where
  "stripWitnessAnnex witness =
     (if isAnnexedWitness witness then
        (take (length witness - 1) witness,
         case extractAnnex witness of Inl _ \<Rightarrow> None | Inr annex \<Rightarrow> Some annex)
      else (witness, None))"

definition enforceTapscriptStackLimits :: "Engine \<Rightarrow> go_error + Engine" where
  "enforceTapscriptStackLimits vm =
     (if Depth (vm_dstack vm) > MaxStackSize then Inl (scriptError ErrStackOverflow)
      else if \<exists>witElement \<in> set (getStack (vm_dstack vm)). length witElement > MaxScriptElementSize
      then Inl (scriptError ErrElementTooBig)
      else Inr vm)"

definition setupScriptPathSpend ::
  "crypto \<Rightarrow> bytes list \<Rightarrow> int \<Rightarrow> bytes option \<Rightarrow> bytes \<Rightarrow> TapscriptLeafVersion \<Rightarrow> Engine \<Rightarrow> go_error + Engine" where
  "setupScriptPathSpend C stack witnessSize annex witnessScript leafVersion vm =
     (if leafVersion \<noteq> BaseLeafVersion then Inl (scriptError ErrDiscourageUpgradeableTaprootVersion)
      else sbind (checkScriptParses (vm_version vm) witnessScript) (\<lambda>_.
        sbind (go_slice stack 0 (int (length stack) - 2)) (\<lambda>items.
          enforceTapscriptStackLimits
            (vm\<lparr>vm_tapscriptCtx :=
                  Some (newTapscriptExecutionCtx witnessSize annex (TapLeaf_TapHash C (NewBaseTapLeaf witnessScript))),
                vm_scripts := vm_scripts vm @ [witnessScript],
                vm_dstack := setStack (vm_dstack vm) items\<rparr>))))"

definition verifyTaprootKeyPath :: "crypto \<Rightarrow> sig_pick \<Rightarrow> bytes \<Rightarrow> bytes \<Rightarrow> Engine \<Rightarrow> go_error + Engine" where
  "verifyTaprootKeyPath C pick witnessProgram rawSig vm =
     sbind (VerifyTaprootKeySpend C pick witnessProgram rawSig (vm_tx vm) (vm_txIdx vm)
              (vm_prevOutFetcher vm) (vm_hashCache vm) (vm_sigCache vm)) (\<lambda>sigCache.
       Inr (vm\<lparr>vm_sigCache := sigCache, vm_dstack := setStack (vm_dstack vm) [[0x01]]\<rparr>))"

definition verifyTaprootSpend :: "crypto \<Rightarrow> sig_pick \<Rightarrow> bytes \<Rightarrow> bytes list \<Rightarrow> Engine \<Rightarrow> go_error + Engine" where
  "verifyTaprootSpend C pick witnessProgram witness vm =
     (if length witness = 0 then Inl (scriptError ErrWitnessProgramEmpty)
      else
        let witnessSize = int32_of (int (TxWitness_SerializeSize witness));
            (stack, annex) = stripWitnessAnnex witness
        in if length stack = 1 then sbind (go_index stack 0) (\<lambda>rawSig. verifyTaprootKeyPath C pick witnessProgram rawSig vm)
           else sbind (go_index stack (int (length stack) - 1)) (\<lambda>rawBlock.
             sbind (ParseControlBlock C rawBlock) (\<lambda>controlBlock.
               sbind (go_index stack (int (length stack) - 2)) (\<lambda>witnessScript.
                 sbind (VerifyTaprootLeafCommitment C controlBlock witnessProgram witnessScript) (\<lambda>_.
                   setupScriptPathSpend C stack witnessSize annex witnessScript (cb_LeafVersion controlBlock) vm)))))"

definition verifyMerkleRootSpend :: "crypto \<Rightarrow> bytes \<Rightarrow> bytes list \<Rightarrow> Engine \<Rightarrow> go_error + Engine" where
  "verifyMerkleRootSpend C witnessProgram witness vm =
     (if length witness = 0 then Inl (scriptError ErrWitnessProgramEmpty)
      else
        let witnessSize = int32_of (int (TxWitness_SerializeSize witness));
            (stack, annex) = stripWitnessAnnex witness
        in if length stack = 1 then Inl (scriptError ErrMerkleRootNoKeyPathSpend)
           else sbind (go_index stack (int (length stack) - 1)) (\<lambda>rawBlock.
             sbind (ParseMerkleRootControlBlock rawBlock) (\<lambda>controlBlock.
               sbind (go_index stack (int (length stack) - 2)) (\<lambda>witnessScript.
                 sbind (VerifyMerkleRootLeafCommitment C controlBlock witnessProgram witnessScript) (\<lambda>_.
                   setupScriptPathSpend C stack witnessSize annex witnessScript (mcb_LeafVersion controlBlock) vm)))))"

definition BaseSegwitWitnessVersion :: int where "BaseSegwitWitnessVersion = 0"
definition TaprootWitnessVersion :: int where "TaprootWitnessVersion = 1"
definition MerkleRootWitnessVersion :: int where "MerkleRootWitnessVersion = 2"

lemmas witness_versions =
  BaseSegwitWitnessVersion_def TaprootWitnessVersion_def MerkleRootWitnessVersion_def

definition verifyWitnessProgram :: "crypto \<Rightarrow> sig_pick \<Rightarrow> bytes \<Rightarrow> bytes list \<Rightarrow> Engine \<Rightarrow> go_error + Engine" where
  "verifyWitnessProgram C pick witnessProgram witness vm =
     (if vm_witnessVersion vm = BaseSegwitWitnessVersion then Inl (scriptError ErrDiscourageUpgradableWitnessProgram)
      else if vm_witnessVersion vm = TaprootWitnessVersion then
        (if length witnessProgram \<noteq> payToTaprootDataSize then Inl (scriptError ErrDiscourageUpgradableWitnessProgram)
         else verifyTaprootSpend C pick witnessProgram witness vm)
      else if vm_witnessVersion vm = MerkleRootWitnessVersion then
        (if length witnessProgram \<noteq> payToMerkleRootDataSize then Inl (scriptError ErrDiscourageUpgradableWitnessProgram)
         else verifyMerkleRootSpend C witnessProgram witness vm)
      else Inl (scriptError ErrDiscourageUpgradableWitnessProgram))"

subsection \<open>Steps\<close>

definition CheckErrorCondition :: "bool \<Rightarrow> Engine \<Rightarrow> go_error + Engine" where
  "CheckErrorCondition finalScript vm =
     (if vm_scriptIdx vm < length (vm_scripts vm) then Inl (scriptError ErrScriptUnfinished)
      else if finalScript \<and> vm_tapscriptCtx vm \<noteq> None \<and> Depth (vm_dstack vm) \<noteq> 1
      then Inl (scriptError ErrCleanStack)
      else if Depth (vm_dstack vm) < 1 then Inl (scriptError ErrEmptyStack)
      else sbind (PopBool (vm_dstack vm)) (\<lambda>(v, s).
        if \<not> v then Inl (scriptError ErrEvalFalse) else Inr (vm\<lparr>vm_dstack := s\<rparr>)))"

text \<open>The end of a script: the per-script state is reset, the witness program is evaluated behind the
  public key script, and one empty script is skipped.\<close>

definition resetScript :: "Engine \<Rightarrow> Engine" where
  "resetScript vm = vm\<lparr>vm_astack := clearStack (vm_astack vm), vm_numOps := 0, vm_opcodeIdx := 0,
     vm_lastCodeSep := 0, vm_scriptIdx := vm_scriptIdx vm + 1\<rparr>"

definition enterScript :: "Engine \<Rightarrow> bool \<times> Engine" where
  "enterScript vm =
     (let vm = (if vm_scriptIdx vm < length (vm_scripts vm) \<and> length (vm_scripts vm ! vm_scriptIdx vm) = 0
                then vm\<lparr>vm_scriptIdx := vm_scriptIdx vm + 1\<rparr> else vm)
      in if vm_scriptIdx vm \<ge> length (vm_scripts vm) then (True, vm)
         else (False, vm\<lparr>vm_tokenizer := MakeScriptTokenizer (vm_version vm) (vm_scripts vm ! vm_scriptIdx vm)\<rparr>))"

definition finishScript :: "crypto \<Rightarrow> sig_pick \<Rightarrow> Engine \<Rightarrow> go_error + (bool \<times> Engine)" where
  "finishScript C pick vm =
     (if vm_condStack vm \<noteq> [] then Inl (scriptError ErrUnbalancedConditional)
      else
        let vm = resetScript vm
        in sbind
          (case vm_witnessProgram vm of
             Some witnessProgram \<Rightarrow>
               if vm_scriptIdx vm = 2 then
                 sbind (go_index (tx_TxIn (vm_tx vm)) (vm_txIdx vm)) (\<lambda>txIn.
                   verifyWitnessProgram C pick witnessProgram (ti_Witness txIn) vm)
               else Inr vm
           | None \<Rightarrow> Inr vm) (\<lambda>vm. Inr (enterScript vm)))"

definition Step :: "crypto \<Rightarrow> sig_pick \<Rightarrow> Engine \<Rightarrow> go_error + (bool \<times> Engine)" where
  "Step C pick vm =
     sbind (checkValidPC vm) (\<lambda>_.
       sbind (tok_Next (vm_tokenizer vm)) (\<lambda>(more, t).
         let vm = vm\<lparr>vm_tokenizer := t\<rparr>
         in if \<not> more then
              (case tok_err t of
                 Some err \<Rightarrow> Inl err
               | None \<Rightarrow> Inl (scriptError ErrInvalidProgramCounter))
            else
              (case tok_op t of
                 None \<Rightarrow> Inl goPanic
               | Some op \<Rightarrow>
                   sbind (executeOpcode C pick op (data_bytes (tok_data t)) vm) (\<lambda>vm.
                     if int32_of (Depth (vm_dstack vm) + Depth (vm_astack vm)) > MaxStackSize
                     then Inl (scriptError ErrStackOverflow)
                     else
                       let vm = vm\<lparr>vm_opcodeIdx := vm_opcodeIdx vm + 1\<rparr>
                       in if \<not> tok_Done (vm_tokenizer vm) then Inr (False, vm)
                          else finishScript C pick vm))))"

text \<open>Access to the stacks and to the code behind the last separator.\<close>

definition Engine_GetStack :: "Engine \<Rightarrow> bytes list" where
  "Engine_GetStack vm = getStack (vm_dstack vm)"

definition Engine_SetStack :: "bytes list \<Rightarrow> Engine \<Rightarrow> Engine" where
  "Engine_SetStack data vm = vm\<lparr>vm_dstack := setStack (vm_dstack vm) data\<rparr>"

definition Engine_GetAltStack :: "Engine \<Rightarrow> bytes list" where
  "Engine_GetAltStack vm = getStack (vm_astack vm)"

definition Engine_SetAltStack :: "bytes list \<Rightarrow> Engine \<Rightarrow> Engine" where
  "Engine_SetAltStack data vm = vm\<lparr>vm_astack := setStack (vm_astack vm) data\<rparr>"

definition subScript :: "Engine \<Rightarrow> go_error + bytes" where
  "subScript vm =
     sbind (go_index (vm_scripts vm) (int (vm_scriptIdx vm))) (\<lambda>scr. go_slice scr (vm_lastCodeSep vm) (int (length scr)))"

definition isStrictPubKeyEncoding :: "bytes \<Rightarrow> bool" where
  "isStrictPubKeyEncoding pubKey \<longleftrightarrow>
     length pubKey = 33 \<and> (pubKey ! 0 = 0x02 \<or> pubKey ! 0 = 0x03) \<or>
     length pubKey = 65 \<and> pubKey ! 0 \<in> {0x04, 0x06, 0x07}"

subsection \<open>Progress of a step\<close>

lemma countOpcode_frame:
  "countOpcode op data vm = Inr vm' \<Longrightarrow> vm' = vm\<lparr>vm_numOps := vm_numOps vm'\<rparr>"
  by (auto simp: countOpcode_def Let_def split: if_splits)

lemma executeOpcode_frame:
  assumes "executeOpcode C pick op data vm = Inr vm'"
  shows "\<exists>n. same_program (vm\<lparr>vm_numOps := n\<rparr>) vm'"
proof -
  obtain vm1 where vm1: "countOpcode op data vm = Inr vm1" and
    "vm' = vm1 \<or> opfunc C pick (op_value op) op data vm1 = Inr vm'"
    using assms by (auto simp: executeOpcode_def sbind_eq_Inr split: if_splits)
  then have "same_program vm1 vm'" using opfunc_frames by (auto simp: same_program_def)
  then show ?thesis using countOpcode_frame [OF vm1] by metis
qed

text \<open>What the evaluation of a witness program changes.\<close>

definition same_position :: "Engine \<Rightarrow> Engine \<Rightarrow> bool" where
  "same_position vm vm' \<longleftrightarrow>
     vm_tx vm' = vm_tx vm \<and> vm_txIdx vm' = vm_txIdx vm \<and> vm_version vm' = vm_version vm \<and>
     vm_hashCache vm' = vm_hashCache vm \<and> vm_prevOutFetcher vm' = vm_prevOutFetcher vm \<and>
     vm_scriptIdx vm' = vm_scriptIdx vm \<and> vm_opcodeIdx vm' = vm_opcodeIdx vm \<and> vm_astack vm' = vm_astack vm \<and>
     vm_condStack vm' = vm_condStack vm \<and> vm_witnessProgram vm' = vm_witnessProgram vm \<and>
     vm_witnessVersion vm' = vm_witnessVersion vm \<and> vm_inputAmount vm' = vm_inputAmount vm"

lemma same_position_refl: "same_position vm vm"
  by (simp add: same_position_def)

lemma setupScriptPathSpend_frame:
  "setupScriptPathSpend C st sz annex script v vm = Inr vm' \<Longrightarrow> same_position vm vm'"
  by (auto simp: setupScriptPathSpend_def enforceTapscriptStackLimits_def sbind_eq_Inr same_position_def split: if_splits)

lemma verifyWitnessProgram_frame:
  assumes "verifyWitnessProgram C pick p witness vm = Inr vm'" shows "same_position vm vm'"
proof -
  have "verifyTaprootSpend C pick p witness vm = Inr vm' \<or> verifyMerkleRootSpend C p witness vm = Inr vm'"
    using assms by (auto simp: verifyWitnessProgram_def split: if_splits)
  then show ?thesis
    by (auto simp: verifyTaprootSpend_def verifyMerkleRootSpend_def verifyTaprootKeyPath_def Let_def sbind_eq_Inr
        same_position_def [of vm "vm\<lparr>vm_sigCache := c, vm_dstack := s\<rparr>" for c s]
        intro: setupScriptPathSpend_frame split: if_splits prod.splits)
qed

lemma resetScript_sel [simp]:
  "vm_scriptIdx (resetScript vm) = Suc (vm_scriptIdx vm)" "vm_scripts (resetScript vm) = vm_scripts vm"
  "vm_witnessProgram (resetScript vm) = vm_witnessProgram vm" "vm_tx (resetScript vm) = vm_tx vm"
  "vm_txIdx (resetScript vm) = vm_txIdx vm"
  by (simp_all add: resetScript_def)

lemma finishScript_cases:
  assumes "finishScript C pick vm = Inr (done, vm')"
  obtains vm2 where "vm_condStack vm = []" "same_position (resetScript vm) vm2" "vm2 = resetScript vm \<or> vm_scriptIdx vm = 1"
    "(done, vm') = enterScript vm2"
  using assms same_position_refl
  by (fastforce simp: finishScript_def Let_def sbind_eq_Inr split: if_splits option.splits dest: verifyWitnessProgram_frame)

lemma enterScript_sel:
  assumes "(done, vm') = enterScript vm"
  shows "vm_scriptIdx vm \<le> vm_scriptIdx vm'" "vm_scripts vm' = vm_scripts vm"
    "done \<longleftrightarrow> length (vm_scripts vm') \<le> vm_scriptIdx vm'"
  using assms by (auto simp: enterScript_def Let_def split: if_splits)

lemma finishScript_progress:
  assumes "finishScript C pick vm = Inr (done, vm')"
  shows "vm_scriptIdx vm < vm_scriptIdx vm'" "2 \<le> vm_scriptIdx vm \<Longrightarrow> vm_scripts vm' = vm_scripts vm"
    "done \<longleftrightarrow> length (vm_scripts vm') \<le> vm_scriptIdx vm'"
  using assms by (cases rule: finishScript_cases; auto dest: enterScript_sel simp: same_position_def)+

lemma Step_cases:
  assumes "Step C pick vm = Inr (done, vm')"
  obtains t op vm1 n where "vm_scriptIdx vm < length (vm_scripts vm)" "tok_Next (vm_tokenizer vm) = Inr (True, t)" "tok_op t = Some op"
    "executeOpcode C pick op (data_bytes (tok_data t)) (vm\<lparr>vm_tokenizer := t\<rparr>) = Inr vm1"
    "same_program (vm\<lparr>vm_tokenizer := t, vm_numOps := n\<rparr>) vm1"
    "int32_of (Depth (vm_dstack vm1) + Depth (vm_astack vm1)) \<le> MaxStackSize"
    "if tok_Done t then finishScript C pick (vm1\<lparr>vm_opcodeIdx := vm_opcodeIdx vm1 + 1\<rparr>) = Inr (done, vm')
     else \<not> done \<and> vm' = vm1\<lparr>vm_opcodeIdx := vm_opcodeIdx vm1 + 1\<rparr>"
proof -
  obtain t op vm1 where *: "vm_scriptIdx vm < length (vm_scripts vm)" "tok_Next (vm_tokenizer vm) = Inr (True, t)" "tok_op t = Some op"
    "executeOpcode C pick op (data_bytes (tok_data t)) (vm\<lparr>vm_tokenizer := t\<rparr>) = Inr vm1"
    "int32_of (Depth (vm_dstack vm1) + Depth (vm_astack vm1)) \<le> MaxStackSize"
    "if tok_Done (vm_tokenizer vm1) then finishScript C pick (vm1\<lparr>vm_opcodeIdx := vm_opcodeIdx vm1 + 1\<rparr>) = Inr (done, vm')
     else \<not> done \<and> vm' = vm1\<lparr>vm_opcodeIdx := vm_opcodeIdx vm1 + 1\<rparr>"
    using assms by (auto simp: Step_def checkValidPC_def sbind_eq_Inr Let_def not_le not_less split: if_splits option.splits)
  obtain n where n: "same_program (vm\<lparr>vm_tokenizer := t, vm_numOps := n\<rparr>) vm1"
    using executeOpcode_frame [OF *(4)] by auto
  then have "vm_tokenizer vm1 = t" by (simp add: same_program_def)
  with * n that show thesis by simp
qed

text \<open>A step that does not end the execution either goes on in the script, or to a later one; only
  the step behind the public key script can add a script.\<close>

lemma Step_progress:
  assumes "Step C pick vm = Inr (False, vm')"
  shows "(vm', vm) \<in> measures [\<lambda>vm. 2 - vm_scriptIdx vm, \<lambda>vm. length (vm_scripts vm) - vm_scriptIdx vm,
     \<lambda>vm. tok_left (vm_tokenizer vm)]"
  using assms
proof (cases rule: Step_cases)
  case (1 t op vm1 n)
  show ?thesis
  proof (cases "tok_Done t")
    case True
    then have fin: "finishScript C pick (vm1\<lparr>vm_opcodeIdx := vm_opcodeIdx vm1 + 1\<rparr>) = Inr (False, vm')" using 1(7) by simp
    then show ?thesis using finishScript_progress [OF fin] 1(1,5) by (auto simp: same_program_def)
  next
    case False
    then show ?thesis using 1(5,7) tok_Next_left [OF 1(2)] by (auto simp: same_program_def)
  qed
qed

function executeLoop :: "crypto \<Rightarrow> sig_pick \<Rightarrow> Engine \<Rightarrow> go_error + Engine" where
  "executeLoop C pick vm =
     sbind (Step C pick vm) (\<lambda>(done, vm). if done then Inr vm else executeLoop C pick vm)"
  by pat_completeness auto

termination
  by (relation "inv_image (measures [\<lambda>vm. 2 - vm_scriptIdx vm, \<lambda>vm. length (vm_scripts vm) - vm_scriptIdx vm,
     \<lambda>vm. tok_left (vm_tokenizer vm)]) (\<lambda>(C, pick, vm). vm)")
     (auto simp del: in_measures intro: Step_progress)

declare executeLoop.simps [simp del]

definition Execute :: "crypto \<Rightarrow> sig_pick \<Rightarrow> Engine \<Rightarrow> go_error + Engine" where
  "Execute C pick vm =
     (if vm_version vm \<noteq> 0 then Inr vm
      else sbind (executeLoop C pick vm) (CheckErrorCondition True))"

subsection \<open>Construction\<close>

definition IsWitnessProgram :: "bytes \<Rightarrow> go_error + bool" where
  "IsWitnessProgram script = isWitnessProgramScript script"

definition checkScript :: "bytes \<Rightarrow> go_error + unit" where
  "checkScript scr = (if length scr > MaxScriptSize then Inl (scriptError ErrScriptTooBig) else checkScriptParses 0 scr)"

definition NewEngine ::
  "bytes \<Rightarrow> MsgTx \<Rightarrow> int \<Rightarrow> SigCache option \<Rightarrow> TxSigHashes \<Rightarrow> int \<Rightarrow> PrevOutputFetcher \<Rightarrow> go_error + Engine" where
  "NewEngine scriptPubKey tx txIdx sigCache hashCache inputAmount prevOutFetcher =
     (if txIdx < 0 \<or> txIdx \<ge> int (length (tx_TxIn tx)) then Inl (scriptError ErrInvalidIndex)
      else
        let scriptSig = ti_SignatureScript (tx_TxIn tx ! nat txIdx)
        in if length scriptSig = 0 \<and> length scriptPubKey = 0 then Inl (scriptError ErrEvalFalse)
           else sbind (IsPushOnlyScript scriptSig) (\<lambda>pushOnly.
             if \<not> pushOnly then Inl (scriptError ErrNotPushOnly)
             else sbind (checkScript scriptSig) (\<lambda>_. sbind (checkScript scriptPubKey) (\<lambda>_.
               let scripts = [scriptSig, scriptPubKey];
                   scriptIdx = (if length scriptSig = 0 then 1 else 0)
               in sbind (IsWitnessProgram scriptPubKey) (\<lambda>isWitness.
                 sbind
                   (if isWitness then
                      if length scriptSig \<noteq> 0 then Inl (scriptError ErrWitnessMalleated)
                      else ExtractWitnessProgramInfo scriptPubKey
                    else
                      if length (ti_Witness (tx_TxIn tx ! nat txIdx)) \<noteq> 0 then Inl (scriptError ErrWitnessUnexpected)
                      else Inr (0, None)) (\<lambda>(witnessVersion, witnessProgram).
                   Inr \<lparr>vm_tx = tx, vm_txIdx = txIdx, vm_version = 0, vm_sigCache = sigCache,
                        vm_hashCache = hashCache, vm_prevOutFetcher = prevOutFetcher, vm_scripts = scripts,
                        vm_scriptIdx = scriptIdx, vm_opcodeIdx = 0, vm_lastCodeSep = 0,
                        vm_tokenizer = MakeScriptTokenizer 0 (scripts ! scriptIdx),
                        vm_dstack = \<lparr>stk = [], verifyMinimalData = True\<rparr>,
                        vm_astack = \<lparr>stk = [], verifyMinimalData = True\<rparr>,
                        vm_condStack = [], vm_numOps = 0, vm_witnessVersion = witnessVersion,
                        vm_witnessProgram = witnessProgram, vm_inputAmount = inputAmount,
                        vm_tapscriptCtx = None\<rparr>))))))"

end
