(* ===== verification/Script_Machine.thy ===== *)
theory Script_Machine
  imports Script_Engine
begin

text \<open>
  Runs of the script machine. The locale \<open>step_machine\<close> states what a loop around a fallible step
  needs to run to completion without a panic; its interpretation \<open>script_vm\<close> on \<open>Step\<close> and
  \<open>executeLoop\<close> carries the invariant \<open>vm_ok\<close> of the states between steps. \<open>NewEngine_ok\<close>
  establishes the invariant.
\<close>

subsection \<open>Machines that run to completion\<close>

text \<open>The states a machine passes through.\<close>

inductive reaches :: "('s \<Rightarrow> go_error + (bool \<times> 's)) \<Rightarrow> 's \<Rightarrow> 's \<Rightarrow> bool" for step where
  reaches_refl: "reaches step s s"
| reaches_step: "reaches step s s1 \<Longrightarrow> step s1 = Inr (False, s2) \<Longrightarrow> reaches step s s2"

lemma reaches_first: "step s = Inr (False, s1) \<Longrightarrow> reaches step s1 s2 \<Longrightarrow> reaches step s s2"
  by (rotate_tac 1, induction rule: reaches.induct) (auto intro: reaches.intros)

text \<open>The interface of a machine: its step, the loop around it, an invariant of the states between
  steps with a condition on the final state, and a well-founded order in which steps go down.\<close>

locale step_machine =
  fixes step :: "'s \<Rightarrow> go_error + (bool \<times> 's)"
    and run :: "'s \<Rightarrow> go_error + 's"
    and rank :: "('s \<times> 's) set"
    and inv :: "'s \<Rightarrow> bool"
    and final :: "'s \<Rightarrow> bool"
  assumes run_step: "run s = sbind (step s) (\<lambda>(done, s). if done then Inr s else run s)"
    and rank_wf: "wf rank"
    and progress: "step s = Inr (False, s') \<Longrightarrow> (s', s) \<in> rank"
    and step_safe: "inv s \<Longrightarrow> safely (step s) (\<lambda>(done, s'). if done then final s' else inv s')"
begin

lemma reaches_inv: "reaches step s s' \<Longrightarrow> inv s \<Longrightarrow> inv s'"
  by (induction rule: reaches.induct) (use step_safe in \<open>fastforce+\<close>)

lemma run_safe: "inv s \<Longrightarrow> safely (run s) final"
proof (induction s rule: wf_induct_rule [OF rank_wf])
  case (1 s)
  show ?case
  proof (cases "step s")
    case (Inl e)
    then show ?thesis using step_safe [OF 1(2)] by (simp add: run_step [of s])
  next
    case (Inr r)
    then obtain fin s' where r: "step s = Inr (fin, s')" by (cases r) simp
    show ?thesis
    proof (cases fin)
      case True
      then show ?thesis using step_safe [OF 1(2)] r by (simp add: run_step [of s])
    next
      case False
      then show ?thesis using step_safe [OF 1(2)] r 1(1) [OF progress] by (simp add: run_step [of s])
    qed
  qed
qed

lemma run_reaches: "run s = Inr s' \<Longrightarrow> \<exists>s1. reaches step s s1 \<and> step s1 = Inr (True, s')"
proof (induction s rule: wf_induct_rule [OF rank_wf])
  case (1 s)
  then obtain fin s1 where s1: "step s = Inr (fin, s1)" "if fin then s1 = s' else run s1 = Inr s'"
    by (subst (asm) run_step) (auto simp: sbind_eq_Inr split: if_splits)
  show ?case
  proof (cases fin)
    case True
    then show ?thesis using s1 reaches_refl [of step s] by auto
  next
    case False
    with s1 have "step s = Inr (False, s1)" "run s1 = Inr s'" by simp_all
    with 1(1) [OF progress] obtain s2 where "reaches step s1 s2" "step s2 = Inr (True, s')" by blast
    with \<open>step s = Inr (False, s1)\<close> show ?thesis using reaches_first [of step s s1 s2] by blast
  qed
qed

lemma reaches_run: "reaches step s s1 \<Longrightarrow> run s = run s1"
  by (induction rule: reaches.induct) (auto simp: run_step [of s1 for s1])

lemma run_stops: "\<exists>s1. reaches step s s1 \<and> (\<forall>s2. step s1 \<noteq> Inr (False, s2))"
proof (induction s rule: wf_induct_rule [OF rank_wf])
  case (1 s)
  then show ?case using progress [of s] reaches_first [of step s] reaches_refl [of step s] by metis
qed

lemma run_iff:
  "run s = r \<longleftrightarrow> (\<exists>s1. reaches step s s1 \<and> (case r of Inl e \<Rightarrow> step s1 = Inl e | Inr s' \<Rightarrow> step s1 = Inr (True, s')))"
  (is "_ \<longleftrightarrow> ?R")
proof
  obtain s1 where s1: "reaches step s s1" "\<And>s2. step s1 \<noteq> Inr (False, s2)" using run_stops by blast
  then have "run s = sbind (step s1) (\<lambda>(fin, s). if fin then Inr s else run s)" using reaches_run run_step [of s1] by simp
  moreover have "step s1 = Inr (True, s')" if "step s1 = Inr (fin, s')" for fin s' using that s1(2) by (cases fin) auto
  ultimately show "run s = r \<Longrightarrow> ?R" using s1(1) by (cases "step s1") fastforce+
next
  assume ?R
  then obtain s1 where s1: "reaches step s s1" "case r of Inl e \<Rightarrow> step s1 = Inl e | Inr s' \<Rightarrow> step s1 = Inr (True, s')" by blast
  from s1(2) show "run s = r" using reaches_run [OF s1(1)] run_step [of s1] by (simp split: sum.splits)
qed

end

subsection \<open>Witness programs\<close>

definition witness_of :: "Engine \<Rightarrow> bytes list" where
  "witness_of vm = ti_Witness (tx_TxIn (vm_tx vm) ! nat (vm_txIdx vm))"

lemma serialize_size_bounds:
  "length w \<le> TxWitness_SerializeSize w" "x \<in> set w \<Longrightarrow> length x \<le> TxWitness_SerializeSize w"
proof -
  have "length w \<le> sum_list (map (\<lambda>i. VarIntSerializeSize (length i) + length i) w)"
    by (induction w) (auto simp: VarIntSerializeSize_def)
  then show "length w \<le> TxWitness_SerializeSize w" by (simp add: TxWitness_SerializeSize_def)
  show "x \<in> set w \<Longrightarrow> length x \<le> TxWitness_SerializeSize w"
    using member_le_sum_list [of "VarIntSerializeSize (length x) + length x" "map (\<lambda>i. VarIntSerializeSize (length i) + length i) w"]
    by (auto simp: TxWitness_SerializeSize_def)
qed

lemma stripWitnessAnnex_sub:
  assumes "stripWitnessAnnex w = (st, annex)" "w \<noteq> []"
  shows "st \<noteq> []" "set st \<subseteq> set w" "length st \<le> length w"
  using assms set_take_subset [of "length w - 1" w]
  by (auto simp: stripWitnessAnnex_def isAnnexedWitness_def Let_def split: if_splits)

text \<open>A machine whose witness is small enough for 32-bit sizes, at the point where the public key
  script has ended.\<close>

definition witness_small :: "Engine \<Rightarrow> bool" where
  "witness_small vm \<longleftrightarrow> TxWitness_SerializeSize (witness_of vm) + 50 < 2 ^ 31"

lemma enforce_limits:
  assumes "length (stk (vm_dstack vm)) < 2 ^ 31"
  shows "enforceTapscriptStackLimits vm =
    (if length (stk (vm_dstack vm)) > 1000 then Inl (scriptError ErrStackOverflow)
     else if \<not> stack_ok 1000 (vm_dstack vm) then Inl (scriptError ErrElementTooBig) else Inr vm)"
  using assms by (auto simp: enforceTapscriptStackLimits_def getStack_stk stack_ok_def MaxStackSize_def not_le not_less)

lemma checkScriptParses_safe:
  "length s < 2 ^ 31 \<Longrightarrow> (snd (parse s) = [] \<Longrightarrow> Q ()) \<Longrightarrow> safely (checkScriptParses 0 s) Q"
  by (simp add: checkScriptParses_parse)

lemma setup_safe:
  assumes "engine_ok 1000 vm" "vm_version vm = 0" "length st < 2 ^ 31" "2 \<le> length st" "length script < 2 ^ 31"
    "0 \<le> sz" "sz + 50 < 2 ^ 31"
  shows "safely (setupScriptPathSpend C st sz annex script v vm)
    (\<lambda>vm'. engine_ok 1000 vm' \<and> vm_scripts vm' = vm_scripts vm @ [script] \<and> snd (parse script) = [])"
proof -
  have d: "setStack (vm_dstack vm) xs = vm_dstack vm\<lparr>stk := xs\<rparr>" for xs
    using assms(1) by (intro setStack_stk) (simp add: engine_ok_def stack_ok_def)
  have b: "int32_of (50 + sz) = 50 + sz" using assms(6,7) by (intro int32_of_id) simp_all
  have sl: "go_slice st 0 (int (length st) - 2) = Inr (take (length st - 2) st)"
    using assms(4) by (simp add: go_slice_def nat_diff_distrib)
  show ?thesis
    unfolding setupScriptPathSpend_def
    using assms by (auto simp: sl d enforce_limits newTapscriptExecutionCtx_def sigOpsDelta_def b engine_ok_def budget_def
      intro!: checkScriptParses_safe)
qed

lemma key_path_safe:
  assumes "crypto_ok C" "engine_ok 1000 vm"
  shows "safely (verifyTaprootKeyPath C pick p sig vm) (\<lambda>vm'. engine_ok 1000 vm' \<and> vm_scripts vm' = vm_scripts vm)"
proof -
  have d: "setStack (vm_dstack vm) xs = vm_dstack vm\<lparr>stk := xs\<rparr>" for xs
    using assms(2) by (intro setStack_stk) (simp add: engine_ok_def stack_ok_def)
  have np: "calcTaprootSignatureHashRaw C sh h (vm_tx vm) (vm_txIdx vm) (vm_prevOutFetcher vm) opts \<noteq> Inl goPanic" for sh h opts
    using assms(2) by (intro sighash_no_panic) (simp_all add: engine_ok_def)
  obtain txIn where "go_index (tx_TxIn (vm_tx vm)) (vm_txIdx vm) = Inr txIn" using engine_ok_index [OF assms(2)] by blast
  moreover have "safely (newTaprootSigVerifier C p sig (vm_tx vm) (vm_txIdx vm) (vm_prevOutFetcher vm) hc annex)
      (\<lambda>v. v_tx v = vm_tx vm \<and> v_inputIndex v = vm_txIdx vm \<and> v_prevOuts v = vm_prevOutFetcher vm)" for hc annex
    by (auto simp: newTaprootSigVerifier_def parseTaprootSigAndPubKey_def split: option.split)
  then have "safely (newTaprootSigVerifier C p sig (vm_tx vm) (vm_txIdx vm) (vm_prevOutFetcher vm) hc annex)
      (\<lambda>v. safely (sbind (taproot_Verify C pick v c) (\<lambda>(ok, c). if ok then Inr c else Inl (scriptError ErrTaprootSigInvalid))) (\<lambda>_. True))" for hc annex c
    by (rule safely_mono) (use np in \<open>auto simp: taproot_Verify_def Let_def split: sum.split option.split prod.split\<close>)
  ultimately have "safely (VerifyTaprootKeySpend C pick p sig (vm_tx vm) (vm_txIdx vm) (vm_prevOutFetcher vm) (vm_hashCache vm) (vm_sigCache vm)) (\<lambda>_. True)"
    by (simp add: VerifyTaprootKeySpend_def Let_def)
  then show ?thesis unfolding verifyTaprootKeyPath_def safely_simps
    by (rule safely_mono) (use assms(2) in \<open>simp add: d engine_ok_def stack_ok_def MaxScriptElementSize_def budget_def\<close>)
qed

lemma control_block_safe:
  assumes "crypto_ok C"
  shows "safely (ParseControlBlock C b) (\<lambda>cb. safely (VerifyTaprootLeafCommitment C cb p s) (\<lambda>_. True))"
    "safely (ParseMerkleRootControlBlock b) (\<lambda>_. True)"
proof -
  have "c_ParsePubKey C (SerializePubKey p) = Some p" if "c_ParsePubKey C k = Some p" for k p
    using assms that by (auto simp: crypto_ok_def SerializePubKey_def)
  then show "safely (ParseControlBlock C b) (\<lambda>cb. safely (VerifyTaprootLeafCommitment C cb p s) (\<lambda>_. True))"
    by (auto simp: ParseControlBlock_def VerifyTaprootLeafCommitment_def ComputeTaprootOutputKey_def Let_def split: option.split)
  show "safely (ParseMerkleRootControlBlock b) (\<lambda>_. True)"
    by (simp add: ParseMerkleRootControlBlock_def)
qed

text \<open>A witness program leaves the machine within its limits, possibly with one more script, which parses.\<close>

definition spend_done :: "Engine \<Rightarrow> Engine \<Rightarrow> bool" where
  "spend_done vm vm' \<longleftrightarrow> engine_ok 1000 vm' \<and>
     (vm_scripts vm' = vm_scripts vm \<or>
      (\<exists>script. vm_scripts vm' = vm_scripts vm @ [script] \<and> length script < 2 ^ 31 \<and> snd (parse script) = []))"

lemma script_path_safe:
  assumes vm: "engine_ok 1000 vm" "vm_version vm = 0" and w: "TxWitness_SerializeSize w + 50 < 2 ^ 31" "w \<noteq> []"
    "stripWitnessAnnex w = (st, annex)" "length st \<noteq> 1"
  shows "\<exists>b script. go_index st (int (length st) - 1) = Inr b \<and> go_index st (int (length st) - 2) = Inr script \<and>
    (\<forall>v. safely (setupScriptPathSpend C st (int32_of (int (TxWitness_SerializeSize w))) annex script v vm) (spend_done vm))"
proof -
  note st = stripWitnessAnnex_sub [OF w(3,2)]
  have len: "2 \<le> length st" using st(1) w(4) by (cases st rule: rev_cases; cases "butlast st"; auto)
  have small: "length st < 2 ^ 31" "\<And>x. x \<in> set st \<Longrightarrow> length x < 2 ^ 31"
    using st(2,3) w(1) serialize_size_bounds(1) [of w] serialize_size_bounds(2) [of _ w] by fastforce+
  have sz: "int32_of (int (TxWitness_SerializeSize w)) = int (TxWitness_SerializeSize w)" using w(1) by (intro int32_of_id) simp_all
  let ?script = "st ! nat (int (length st) - 2)"
  have script: "length ?script < 2 ^ 31" using len small(2) by simp
  have "safely (setupScriptPathSpend C st (int (TxWitness_SerializeSize w)) annex ?script v vm) (spend_done vm)" for v
    by (rule safely_mono [OF setup_safe [OF vm small(1) len script]]) (use w(1) script in \<open>auto simp: spend_done_def\<close>)
  with len sz st(1) show ?thesis by (simp add: go_index_def)
qed

lemma witness_program_safe:
  assumes C: "crypto_ok C" and vm: "engine_ok 1000 vm" "vm_version vm = 0" and w: "TxWitness_SerializeSize w + 50 < 2 ^ 31"
  shows "safely (verifyWitnessProgram C pick p w vm) (spend_done vm)"
proof (cases "w = []")
  case True
  then show ?thesis by (simp add: verifyWitnessProgram_def verifyTaprootSpend_def verifyMerkleRootSpend_def)
next
  case False
  obtain st annex where st: "stripWitnessAnnex w = (st, annex)" by (cases "stripWitnessAnnex w")
  have key: "safely (verifyTaprootKeyPath C pick p sig vm) (spend_done vm)" for sig
    by (rule safely_mono [OF key_path_safe [OF C vm(1)]]) (simp add: spend_done_def)
  show ?thesis
  proof (cases "length st = 1")
    case True
    then show ?thesis using False st key
      by (simp add: verifyWitnessProgram_def verifyTaprootSpend_def verifyMerkleRootSpend_def Let_def go_index_def)
  next
    case long: False
    obtain b script where bs: "go_index st (int (length st) - 1) = Inr b" "go_index st (int (length st) - 2) = Inr script"
      "\<And>v. safely (setupScriptPathSpend C st (int32_of (int (TxWitness_SerializeSize w))) annex script v vm) (spend_done vm)"
      using script_path_safe [OF vm w False st long] by blast
    have "safely (VerifyMerkleRootLeafCommitment C cb p script) (\<lambda>_. True)" for cb by (simp add: VerifyMerkleRootLeafCommitment_def Let_def)
    then show ?thesis using False st long bs
        safely_mono [OF control_block_safe(1) [OF C, of b p script]] safely_mono [OF control_block_safe(2) [OF C, of b]]
        safely_mono [of "VerifyTaprootLeafCommitment C cb p script" "\<lambda>_. True" for cb]
        safely_mono [of "VerifyMerkleRootLeafCommitment C cb p script" "\<lambda>_. True" for cb]
      by (simp add: verifyWitnessProgram_def verifyTaprootSpend_def verifyMerkleRootSpend_def Let_def)
  qed
qed

subsection \<open>The invariant of the machine\<close>

text \<open>Between steps: the limits hold, with at most 1000 items on both stacks together; the scripts
  parse; the tokenizer stands before an opcode of the script that is executed, which is the
  signature script, the public key script or the revealed leaf.\<close>

definition final_ok :: "Engine \<Rightarrow> bool" where
  "final_ok vm \<longleftrightarrow> engine_ok 1000 vm \<and>
     length (stk (vm_dstack vm)) + length (stk (vm_astack vm)) \<le> 1000 \<and>
     vm_condStack vm = [] \<and> length (vm_scripts vm) \<le> vm_scriptIdx vm"

definition vm_ok :: "Engine \<Rightarrow> bool" where
  "vm_ok vm \<longleftrightarrow> engine_ok 1000 vm \<and>
     length (stk (vm_dstack vm)) + length (stk (vm_astack vm)) \<le> 1000 \<and>
     vm_version vm = 0 \<and> witness_small vm \<and>
     (vm_scriptIdx vm < 2 \<and> length (vm_scripts vm) = 2 \<or> vm_scriptIdx vm = 2 \<and> length (vm_scripts vm) = 3) \<and>
     (\<forall>s \<in> set (vm_scripts vm). length s < 2 ^ 31 \<and> snd (parse s) = []) \<and>
     tok_ok (vm_tokenizer vm) \<and> tok_rest (vm_tokenizer vm) \<noteq> [] \<and> snd (parse (tok_rest (vm_tokenizer vm))) = []"

definition step_post :: "bool \<times> Engine \<Rightarrow> bool" where
  "step_post r \<longleftrightarrow> (if fst r then final_ok (snd r) else vm_ok (snd r))"

lemma vm_ok_token:
  assumes "vm_ok vm"
  obtains b d r where "parse_token (tok_rest (vm_tokenizer vm)) = Some (b, d, r)"
    "tok_Next (vm_tokenizer vm) = Inr (True, tok_advance (vm_tokenizer vm) b d r)"
    "tok_ok (tok_advance (vm_tokenizer vm) b d r)" "tok_rest (tok_advance (vm_tokenizer vm) b d r) = r" "snd (parse r) = []"
proof -
  let ?t = "vm_tokenizer vm"
  have t: "tok_ok ?t" "tok_rest ?t \<noteq> []" "snd (parse (tok_rest ?t)) = []" using assms by (simp_all add: vm_ok_def)
  then obtain b0 s0 where rest: "tok_rest ?t = b0 # s0" by (cases "tok_rest ?t") simp
  have "parse_token (tok_rest ?t) \<noteq> None" using t(2,3) parse_stop by fastforce
  then obtain b d r where p: "parse_token (tok_rest ?t) = Some (b, d, r)" by auto
  then show thesis using that tok_Next_token [OF t(1) rest] tok_advance_ok [OF t(1) p] rest parse_step [OF p] t(3)
    by (simp del: parse_token.simps)
qed

lemma parse_token_data:
  assumes "parse_token s = Some (b, d, r)" "b > OP_16" shows "d = None"
proof -
  have "\<not> b \<le> OP_DATA_75" "push_width b = 0" using assms(2) by (auto simp: push_width_def dest: less_le_trans)
  with assms(1) show ?thesis by (cases s) (auto simp: Let_def split: if_splits)
qed

lemma countOpcode_safe:
  assumes "engine_ok 1000 vm" "op_value op > OP_16 \<Longrightarrow> data = []"
  shows "safely (countOpcode op data vm) (\<lambda>vm'. engine_ok 1000 vm' \<and> length data \<le> MaxScriptElementSize)"
  using assms by (auto simp: countOpcode_def Let_def engine_ok_def budget_def)

lemma executeOpcode_safe:
  assumes "crypto_ok C" "engine_ok 1000 vm" "op_value op > OP_16 \<Longrightarrow> data = []"
  shows "safely (executeOpcode C pick op data vm) (engine_ok 1003)"
proof -
  have *: "safely (opfunc C pick b op data vm') (engine_ok 1003)" if "engine_ok 1000 vm'" "length data \<le> MaxScriptElementSize" for b vm'
    using opfunc_safe [OF assms(1) that] unfolding handled_def by (rule safely_mono) simp
  have minimal: "safely (checkMinimalDataPush op data) (\<lambda>_. True)" by (auto simp: checkMinimalDataPush_def Let_def)
  have "safely (countOpcode op data vm) (\<lambda>vm'. safely (if \<not> isBranchExecuting vm' \<and> \<not> isOpcodeConditional (op_value op) then Inr vm'
        else sbind (if verifyMinimalData (vm_dstack vm') \<and> isBranchExecuting vm' \<and> op_value op \<le> OP_PUSHDATA4
                 then checkMinimalDataPush op data else Inr ()) (\<lambda>_. opfunc C pick (op_value op) op data vm')) (engine_ok 1003))"
    by (rule safely_mono [OF countOpcode_safe [OF assms(2,3)]])
       (use * in \<open>auto intro: engine_ok_mono safely_mono [OF minimal]\<close>)
  then show ?thesis by (simp add: executeOpcode_def)
qed

lemma combined_size:
  assumes "engine_ok 1003 vm" "int32_of (Depth (vm_dstack vm) + Depth (vm_astack vm)) \<le> MaxStackSize"
  shows "engine_ok 1000 vm" "length (stk (vm_dstack vm)) + length (stk (vm_astack vm)) \<le> 1000"
proof -
  have len: "length (stk (vm_dstack vm)) \<le> 1003" "length (stk (vm_astack vm)) \<le> 1003"
    using assms(1) by (simp_all add: engine_ok_def stack_ok_def)
  then have "int32_of (Depth (vm_dstack vm) + Depth (vm_astack vm)) = int (length (stk (vm_dstack vm))) + int (length (stk (vm_astack vm)))"
    by (subst int32_of_id) simp_all
  with assms(2) show le: "length (stk (vm_dstack vm)) + length (stk (vm_astack vm)) \<le> 1000" by (simp add: MaxStackSize_def)
  then show "engine_ok 1000 vm" using assms(1) by (auto simp: engine_ok_def stack_ok_def)
qed

lemma enterScript_safe:
  assumes "engine_ok 1000 vm" "vm_astack vm = s\<lparr>stk := []\<rparr>" "vm_condStack vm = []" "vm_version vm = 0" "witness_small vm"
    "vm_scriptIdx vm \<in> {1, 2, 3}" "vm_scriptIdx vm = 1 \<Longrightarrow> length (vm_scripts vm) = 2" "vm_scriptIdx vm \<noteq> 1 \<Longrightarrow> length (vm_scripts vm) \<in> {2, 3}"
    "vm_scriptIdx vm = 3 \<Longrightarrow> length (vm_scripts vm) = 3"
    "\<forall>s \<in> set (vm_scripts vm). length s < 2 ^ 31 \<and> snd (parse s) = []"
  shows "step_post (enterScript vm)"
proof -
  have "length (stk (vm_dstack vm)) \<le> 1000" using assms(1) by (simp add: engine_ok_def stack_ok_def)
  moreover have "vm_scripts vm ! vm_scriptIdx vm \<in> set (vm_scripts vm)" if "vm_scriptIdx vm < length (vm_scripts vm)"
    using that by simp
  ultimately show ?thesis using assms
    by (auto simp: step_post_def enterScript_def Let_def final_ok_def vm_ok_def engine_ok_def budget_def tok_ok_Make witness_small_def witness_of_def)
qed

lemma finishScript_safe:
  assumes C: "crypto_ok C" and vm: "engine_ok 1000 vm" "vm_version vm = 0" "witness_small vm"
    "vm_scriptIdx vm < 2 \<and> length (vm_scripts vm) = 2 \<or> vm_scriptIdx vm = 2 \<and> length (vm_scripts vm) = 3"
    "\<forall>s \<in> set (vm_scripts vm). length s < 2 ^ 31 \<and> snd (parse s) = []"
  shows "safely (finishScript C pick vm) step_post"
proof (cases "vm_condStack vm = []")
  case True
  define vm1 where "vm1 = resetScript vm"
  have a: "vm_astack vm1 = vm_astack vm\<lparr>stk := []\<rparr>"
    using vm(1) by (auto simp: vm1_def resetScript_def engine_ok_def stack_ok_def intro!: clearStack_stk)
  have vm1: "engine_ok 1000 vm1" "vm_version vm1 = 0" "witness_small vm1" "vm_scriptIdx vm1 = Suc (vm_scriptIdx vm)"
    "vm_scripts vm1 = vm_scripts vm" "vm_condStack vm1 = []"
    using vm a True by (auto simp: vm1_def resetScript_def engine_ok_def stack_ok_def budget_def witness_small_def witness_of_def)
  have plain: "step_post (enterScript vm1)"
    by (rule enterScript_safe [OF vm1(1) a]) (use vm vm1 in auto)
  have spend: "step_post (enterScript vm2)"
    if "spend_done vm1 vm2" "same_position vm1 vm2" "vm_scriptIdx vm = 1" for vm2
  proof (rule enterScript_safe)
    show "vm_astack vm2 = vm_astack vm\<lparr>stk := []\<rparr>" using that(2) a by (simp add: same_position_def)
    show "witness_small vm2" using that(2) vm1(3) by (simp add: same_position_def witness_small_def witness_of_def)
  qed (use that vm vm1 in \<open>auto simp: same_position_def spend_done_def\<close>)
  obtain txIn where txIn: "go_index (tx_TxIn (vm_tx vm1)) (vm_txIdx vm1) = Inr txIn" "ti_Witness txIn = witness_of vm1"
    using vm1(1) by (simp add: engine_ok_def go_index_def witness_of_def)
  have "safely (verifyWitnessProgram C pick p (ti_Witness txIn) vm1)
      (\<lambda>vm2. step_post (enterScript vm2))" if "vm_scriptIdx vm = 1" for p
  proof (cases "verifyWitnessProgram C pick p (ti_Witness txIn) vm1")
    case (Inl e)
    then show ?thesis using witness_program_safe [OF C vm1(1,2), of "ti_Witness txIn" pick p] vm1(3) txIn by (simp add: witness_small_def)
  next
    case (Inr vm2)
    then have "spend_done vm1 vm2" "same_position vm1 vm2"
      using witness_program_safe [OF C vm1(1,2), of "ti_Witness txIn" pick p] vm1(3) txIn verifyWitnessProgram_frame by (simp_all add: witness_small_def)
    with Inr spend [OF _ _ that] show ?thesis by simp
  qed
  then show ?thesis unfolding finishScript_def
    using True plain txIn(1) vm1(4) by (simp add: Let_def vm1_def [symmetric] split: option.split)
qed (simp add: finishScript_def)

lemma Step_safe:
  assumes "crypto_ok C" "vm_ok vm"
  shows "safely (Step C pick vm) step_post"
proof -
  obtain b d r where tok: "parse_token (tok_rest (vm_tokenizer vm)) = Some (b, d, r)"
    "tok_Next (vm_tokenizer vm) = Inr (True, tok_advance (vm_tokenizer vm) b d r)"
    "tok_ok (tok_advance (vm_tokenizer vm) b d r)" "tok_rest (tok_advance (vm_tokenizer vm) b d r) = r" "snd (parse r) = []"
    using vm_ok_token [OF assms(2)] .
  define t where "t = tok_advance (vm_tokenizer vm) b d r"
  have t: "tok_op t = Some (opcodeArray b)" "tok_data t = d" by (simp_all add: t_def tok_advance_def)
  have pc: "checkValidPC vm = Inr ()" using assms(2) by (auto simp: vm_ok_def checkValidPC_def)
  let ?vm = "vm\<lparr>vm_tokenizer := t\<rparr>"
  have ok: "engine_ok 1000 ?vm" using assms(2) by (simp add: vm_ok_def engine_ok_def budget_def)
  have "safely (executeOpcode C pick (opcodeArray b) (data_bytes d) ?vm) (engine_ok 1003)"
    by (rule executeOpcode_safe [OF assms(1) ok]) (use parse_token_data [OF tok(1)] in \<open>simp add: data_bytes_def\<close>)
  then show ?thesis
  proof (cases "executeOpcode C pick (opcodeArray b) (data_bytes d) ?vm")
    case (Inr vm1)
    assume s: "safely (executeOpcode C pick (opcodeArray b) (data_bytes d) ?vm) (engine_ok 1003)"
    obtain n where frame: "same_program (?vm\<lparr>vm_numOps := n\<rparr>) vm1" using executeOpcode_frame [OF Inr] by blast
    define vm2 where "vm2 = vm1\<lparr>vm_opcodeIdx := Suc (vm_opcodeIdx vm1)\<rparr>"
    show ?thesis
    proof (cases "int32_of (Depth (vm_dstack vm1) + Depth (vm_astack vm1)) \<le> MaxStackSize")
      case True
      then have vm1: "engine_ok 1000 vm1" "length (stk (vm_dstack vm1)) + length (stk (vm_astack vm1)) \<le> 1000"
        using combined_size s Inr by simp_all
      have vm2: "engine_ok 1000 vm2" "vm_version vm2 = 0" "witness_small vm2"
        "vm_scriptIdx vm2 < 2 \<and> length (vm_scripts vm2) = 2 \<or> vm_scriptIdx vm2 = 2 \<and> length (vm_scripts vm2) = 3"
        "\<forall>s \<in> set (vm_scripts vm2). length s < 2 ^ 31 \<and> snd (parse s) = []"
        "length (stk (vm_dstack vm2)) + length (stk (vm_astack vm2)) \<le> 1000" "vm_tokenizer vm1 = t" "vm_tokenizer vm2 = t"
        using vm1 frame assms(2)
        by (simp_all add: vm2_def same_program_def vm_ok_def engine_ok_def budget_def witness_small_def witness_of_def)
      have "vm_ok vm2" if "\<not> tok_Done t"
        using that vm2 tok(3-5) tok_Done_iff [of t] unfolding vm_ok_def by (simp add: t_def [symmetric])
      then show ?thesis using True Inr tok(2) pc t finishScript_safe [OF assms(1) vm2(1-5), of pick] vm2(7,8)
        by (simp add: step_post_def [of "(False, vm)" for vm] Step_def t_def [symmetric] vm2_def [symmetric] Let_def not_less)
    qed (use Inr tok(2) pc t in \<open>simp add: Step_def t_def [symmetric] Let_def\<close>)
  qed (use tok(2) pc t in \<open>simp add: Step_def t_def [symmetric] Let_def\<close>)
qed

interpretation script_vm: step_machine "Step C pick" "executeLoop C pick"
  "measures [\<lambda>vm. 2 - vm_scriptIdx vm, \<lambda>vm. length (vm_scripts vm) - vm_scriptIdx vm, \<lambda>vm. tok_left (vm_tokenizer vm)]"
  "\<lambda>vm. crypto_ok C \<and> vm_ok vm" "\<lambda>vm. crypto_ok C \<and> final_ok vm" for C pick
proof unfold_locales
  show "executeLoop C pick s = sbind (Step C pick s) (\<lambda>(fin, s). if fin then Inr s else executeLoop C pick s)" for s
    by (rule executeLoop.simps)
  show "safely (Step C pick s) (\<lambda>(fin, s'). if fin then crypto_ok C \<and> final_ok s' else crypto_ok C \<and> vm_ok s')"
    if "crypto_ok C \<and> vm_ok s" for s
    using that by (intro safely_mono [OF Step_safe [of C s pick]]) (auto simp: step_post_def)
qed (simp, rule Step_progress)

lemma checkScript_iff:
  "length s < 2 ^ 31 \<Longrightarrow> checkScript s = Inr () \<longleftrightarrow> length s \<le> 10000 \<and> snd (parse s) = []"
  by (simp add: checkScript_def MaxScriptSize_def checkScriptParses_parse)

lemma NewEngine_ok:
  assumes "NewEngine pk tx idx cache hashes amount prevOuts = Inr vm"
    "length pk < 2 ^ 31" "length (ti_SignatureScript (tx_TxIn tx ! nat idx)) < 2 ^ 31"
    "\<forall>txIn \<in> set (tx_TxIn tx). prevOuts (ti_PreviousOutPoint txIn) \<noteq> None"
    "TxWitness_SerializeSize (ti_Witness (tx_TxIn tx ! nat idx)) + 50 < 2 ^ 31"
  shows "vm_ok vm"
proof -
  let ?sig = "ti_SignatureScript (tx_TxIn tx ! nat idx)"
  have "checkScript ?sig = Inr ()" "checkScript pk = Inr ()" "?sig \<noteq> [] \<or> pk \<noteq> []"
    using assms(1) by (auto simp: NewEngine_def Let_def sbind_eq_Inr split: if_splits)
  then have "snd (parse ?sig) = []" "snd (parse pk) = []" "?sig \<noteq> [] \<or> pk \<noteq> []" using checkScript_iff assms(2,3) by auto
  then show ?thesis using assms
    by (auto simp: NewEngine_def Let_def sbind_eq_Inr vm_ok_def engine_ok_def stack_ok_def budget_def
        witness_small_def witness_of_def tok_ok_Make split: if_splits)
qed

end
