(* ===== verification/Script_Validation.thy ===== *)
theory Script_Validation
  imports Script_Machine
begin

text \<open>
  Validation of an input, from the construction of the machine to its verdict: no panic, the limits of
  every intermediate state, termination, and the verdicts on witness programs as equations that do
  not mention the steps of the machine.
\<close>

subsection \<open>Validating an input\<close>

definition validate_input ::
  "crypto \<Rightarrow> sig_pick \<Rightarrow> bytes \<Rightarrow> MsgTx \<Rightarrow> int \<Rightarrow> SigCache option \<Rightarrow> TxSigHashes \<Rightarrow> int \<Rightarrow> PrevOutputFetcher \<Rightarrow> go_error + Engine" where
  "validate_input C pick pkScript tx txIdx sigCache sigHashes inputAmount prevOuts =
     sbind (NewEngine pkScript tx txIdx sigCache sigHashes inputAmount prevOuts) (Execute C pick)"

text \<open>Transactions as the node holds them: the spent outputs are known and the sizes fit 32 bits, far
  above the limit of a message.\<close>

definition tx_in_range :: "PrevOutputFetcher \<Rightarrow> MsgTx \<Rightarrow> bool" where
  "tx_in_range prevOuts tx \<longleftrightarrow> (\<forall>txIn \<in> set (tx_TxIn tx).
     prevOuts (ti_PreviousOutPoint txIn) \<noteq> None \<and> length (ti_SignatureScript txIn) < 2 ^ 31 \<and>
     TxWitness_SerializeSize (ti_Witness txIn) + 50 < 2 ^ 31)"

lemma NewEngine_vm_ok:
  assumes "NewEngine pk tx idx cache hashes amount prevOuts = Inr vm" "length pk < 2 ^ 31" "tx_in_range prevOuts tx"
  shows "vm_ok vm"
proof -
  have "tx_TxIn tx ! nat idx \<in> set (tx_TxIn tx)" using assms(1) by (auto simp: NewEngine_def split: if_splits)
  then show ?thesis using NewEngine_ok [OF assms(1,2)] assms(3) by (simp add: tx_in_range_def)
qed

lemma checkScript_safe: "length s < 2 ^ 31 \<Longrightarrow> safely (checkScript s) (\<lambda>_. True)"
  by (simp add: checkScript_def checkScriptParses_parse)

lemma witness_info_total: "\<exists>v p ok. extractWitnessProgramInfo s = Inr (v, p, ok)"
  using witness_program_iff [of s] by (auto simp: isWitnessProgramScript_def sbind_eq_Inr)

lemma NewEngine_no_panic:
  assumes "length pk < 2 ^ 31" "tx_in_range prevOuts tx"
  shows "safely (NewEngine pk tx idx cache hashes amount prevOuts) (\<lambda>_. True)"
proof (cases "0 \<le> idx \<and> idx < int (length (tx_TxIn tx))")
  case True
  let ?sig = "ti_SignatureScript (tx_TxIn tx ! nat idx)"
  have "tx_TxIn tx ! nat idx \<in> set (tx_TxIn tx)" using True by (intro nth_mem) (simp add: nat_less_iff)
  then have sig: "length ?sig < 2 ^ 31" using assms(2) by (auto simp: tx_in_range_def)
  obtain v p ok where info: "extractWitnessProgramInfo pk = Inr (v, p, ok)" using witness_info_total by blast
  have chk: "safely (checkScript ?sig) (\<lambda>_. safely (checkScript pk) (\<lambda>_. Q))" if Q for Q
    by (rule safely_mono [OF checkScript_safe [OF sig]], rule safely_mono [OF checkScript_safe [OF assms(1)]]) (rule that)
  show ?thesis using True IsPushOnlyScript_spec [OF sig] info
    by (simp add: NewEngine_def Let_def IsWitnessProgram_def isWitnessProgramScript_def ExtractWitnessProgramInfo_def chk)
qed (auto simp: NewEngine_def)

lemma NewEngine_safe:
  assumes "length pk < 2 ^ 31" "tx_in_range prevOuts tx"
  shows "safely (NewEngine pk tx idx cache hashes amount prevOuts) vm_ok"
  using NewEngine_no_panic [OF assms, of idx cache hashes amount] NewEngine_vm_ok [OF _ assms, of idx cache hashes amount]
  by (cases "NewEngine pk tx idx cache hashes amount prevOuts") simp_all

lemma CheckErrorCondition_safe:
  assumes "final_ok vm" shows "safely (CheckErrorCondition b vm) (\<lambda>_. True)"
proof -
  have "stack_ok 1000 (vm_dstack vm)" using assms by (simp add: final_ok_def engine_ok_def)
  then have "safely (PopBool (vm_dstack vm)) (\<lambda>_. True)" by (auto simp: PopBool_def intro: Pop_safe [of 1000])
  then have "safely (PopBool (vm_dstack vm)) (\<lambda>r. safely (case r of (v, s) \<Rightarrow> if \<not> v then Inl (scriptError ErrEvalFalse) else Inr (vm\<lparr>vm_dstack := s\<rparr>)) (\<lambda>_. True))"
    by (rule safely_mono) (auto split: prod.split)
  then show ?thesis by (simp add: CheckErrorCondition_def)
qed

lemma Execute_safe:
  assumes "crypto_ok C" "vm_ok vm" shows "safely (Execute C pick vm) (\<lambda>_. True)"
proof -
  have "safely (executeLoop C pick vm) (\<lambda>vm. safely (CheckErrorCondition True vm) (\<lambda>_. True))"
    by (rule safely_mono [OF script_vm.run_safe [of C vm pick]]) (use assms CheckErrorCondition_safe in auto)
  then show ?thesis by (simp add: Execute_def)
qed

lemma validate_safe:
  assumes "crypto_ok C" "length pk < 2 ^ 31" "tx_in_range prevOuts tx"
  shows "safely (validate_input C pick pk tx idx cache hashes amount prevOuts) (\<lambda>_. True)"
  unfolding validate_input_def safely_simps
  by (rule safely_mono [OF NewEngine_safe [OF assms(2,3)]]) (rule Execute_safe [OF assms(1)])

subsection \<open>Running a witness program\<close>

lemma table_keys:
  assumes "map_of (opcodeHandlers C pick) b = Some h"
  shows "\<not> (OP_DATA_1 \<le> b \<and> b \<le> OP_PUSHDATA4)" "\<not> (OP_1 \<le> b \<and> b \<le> OP_16)"
proof -
  have "list_all (\<lambda>(k, h). \<not> (OP_DATA_1 \<le> k \<and> k \<le> OP_PUSHDATA4) \<and> \<not> (OP_1 \<le> k \<and> k \<le> OP_16)) (opcodeHandlers C pick)"
    by (simp add: opcodeHandlers_def)
  with map_of_SomeD [OF assms] show "\<not> (OP_DATA_1 \<le> b \<and> b \<le> OP_PUSHDATA4)" "\<not> (OP_1 \<le> b \<and> b \<le> OP_16)"
    by (auto simp: list_all_iff)
qed

lemma opfunc_pushes:
  "OP_DATA_1 \<le> b \<Longrightarrow> b \<le> OP_PUSHDATA4 \<Longrightarrow> opfunc C pick b = opcodePushData"
  "OP_1 \<le> b \<Longrightarrow> b \<le> OP_16 \<Longrightarrow> opfunc C pick b = opcodeN"
  "opfunc C pick OP_0 = opcodeFalse"
proof -
  show "opfunc C pick b = opcodePushData" if "OP_DATA_1 \<le> b" "b \<le> OP_PUSHDATA4"
    using that table_keys(1) [of C pick b] by (auto simp: opfunc_def split: option.split)
  show "opfunc C pick b = opcodeN" if b: "OP_1 \<le> b" "b \<le> OP_16"
  proof -
    have "\<not> b \<le> OP_PUSHDATA4" using b(1) by (auto dest: order_trans)
    then show ?thesis using b table_keys(2) [of C pick b] by (auto simp: opfunc_def split: option.split)
  qed
  show "opfunc C pick OP_0 = opcodeFalse" by (simp add: opfunc_def opcodeHandlers_def)
qed

text \<open>A push that the machine accepts: the effect of one step on the data stack.\<close>

definition pushes_item :: "byte \<Rightarrow> bytes option \<Rightarrow> bytes \<Rightarrow> bool" where
  "pushes_item b d x \<longleftrightarrow> length x \<le> MaxScriptElementSize \<and>
     (\<forall>C pick vm. isBranchExecuting vm \<longrightarrow> vm_dstack vm = \<lparr>stk = stk (vm_dstack vm), verifyMinimalData = True\<rparr> \<longrightarrow>
        executeOpcode C pick (opcodeArray b) (data_bytes d) vm = Inr (vm\<lparr>vm_dstack := PushByteArray x (vm_dstack vm)\<rparr>))"

lemma not_special:
  "b \<le> OP_16 \<Longrightarrow> \<not> isOpcodeDisabled b \<and> \<not> isOpcodeAlwaysIllegal b \<and> \<not> OP_16 < b"
  by (auto simp: isOpcodeDisabled_def isOpcodeAlwaysIllegal_def)

lemma direct_push:
  assumes "2 \<le> length p" "length p \<le> 75"
  shows "pushes_item (word_of_nat (length p)) (Some p) p"
proof -
  let ?b = "word_of_nat (length p) :: byte"
  have u: "unat ?b = length p" using assms by (simp add: unsigned_of_nat take_bit_nat_eq_self)
  then have b: "OP_DATA_1 \<le> ?b" "?b \<le> OP_PUSHDATA4" "?b \<le> OP_16" using assms by (simp_all add: word_le_nat_alt)
  have "checkMinimalDataPush (opcodeArray ?b) p = Inr ()" using assms u by (auto simp: checkMinimalDataPush_def Let_def)
  with b not_special [OF b(3)] opfunc_pushes(1) [OF b(1,2)] show ?thesis using assms
    by (auto simp: pushes_item_def executeOpcode_def countOpcode_def data_bytes_def MaxScriptElementSize_def opcodePushData_def on_dstack_def)
qed

lemma small_number_bytes:
  obtains x where "scriptNum_Bytes (uint (b :: byte)) = Inr x" "length x \<le> 7"
proof -
  have "- (2 ^ 63) < uint b" by (rule less_le_trans [OF _ unsigned_greater_eq]) simp
  then have b: "- (2 ^ 63) < uint b" "uint b < 2 ^ 63" "\<bar>uint b\<bar> < 2 ^ (8 * 7 - 1)" using byte_less [of b] by simp_all
  from scriptNum_Bytes_sm_val [OF b(1,2)] that minimal_length [of _ 7] b(3) show thesis by metis
qed

lemma small_int_push:
  assumes "IsSmallInt b" shows "\<exists>x. pushes_item b None x"
proof (cases "b = OP_0")
  case True
  have "checkMinimalDataPush (opcodeArray 0) [] = Inr ()" by (simp add: checkMinimalDataPush_def Let_def)
  then have "pushes_item OP_0 None []"
    by (simp add: pushes_item_def executeOpcode_def countOpcode_def data_bytes_def not_special opfunc_pushes(3) opcodeFalse_def on_dstack_def
        MaxScriptElementSize_def)
  with True show ?thesis by blast
next
  case False
  then have b: "OP_1 \<le> b" "b \<le> OP_16" using assms by (auto simp: IsSmallInt_def)
  obtain x where x: "scriptNum_Bytes (uint (b - (OP_1 - 1))) = Inr x" "length x \<le> 7"
    by (rule small_number_bytes)
  have "\<not> b \<le> OP_PUSHDATA4" using b(1) by (auto dest: order_trans)
  with x b not_special [OF b(2)] opfunc_pushes(2) [OF b] show ?thesis
    by (auto simp: pushes_item_def executeOpcode_def countOpcode_def data_bytes_def MaxScriptElementSize_def opcodeN_def on_dstack_def PushInt_def
        intro!: exI [of _ x])
qed

lemma push_step:
  assumes "pushes_item b d x" "vm_ok vm" "parse_token (tok_rest (vm_tokenizer vm)) = Some (b, d, r)"
    "vm_condStack vm = []" "verifyMinimalData (vm_dstack vm)" "length (stk (vm_dstack vm)) + length (stk (vm_astack vm)) < 1000"
  defines "vm1 \<equiv> vm\<lparr>vm_tokenizer := tok_advance (vm_tokenizer vm) b d r, vm_dstack := PushByteArray x (vm_dstack vm),
     vm_opcodeIdx := vm_opcodeIdx vm + 1\<rparr>"
  shows "Step C pick vm = (if r = [] then finishScript C pick vm1 else Inr (False, vm1))"
proof -
  let ?t = "tok_advance (vm_tokenizer vm) b d r"
  have tok: "tok_Next (vm_tokenizer vm) = Inr (True, ?t)" "tok_ok ?t" "tok_rest ?t = r"
    by (rule vm_ok_token [OF assms(2)], use assms(3) in simp)+
  have t: "tok_op ?t = Some (opcodeArray b)" "tok_data ?t = d" by (simp_all add: tok_advance_def)
  have pc: "checkValidPC vm = Inr ()" using assms(2) by (auto simp: vm_ok_def checkValidPC_def)
  have ex: "executeOpcode C pick (opcodeArray b) (data_bytes d) (vm\<lparr>vm_tokenizer := ?t\<rparr>) =
      Inr (vm\<lparr>vm_tokenizer := ?t, vm_dstack := PushByteArray x (vm_dstack vm)\<rparr>)"
    using assms(1,4,5) unfolding pushes_item_def by (simp add: isBranchExecuting_def)
  have sz: "\<not> int32_of (Depth (PushByteArray x (vm_dstack vm)) + Depth (vm_astack vm)) > MaxStackSize"
    using assms(6) by (simp add: int32_of_id MaxStackSize_def)
  show ?thesis using tok t pc ex sz tok_Done_iff [OF tok(2)]
    by (simp add: Step_def Let_def vm1_def)
qed


text \<open>The machine for an output with a witness program: its construction, and its state when the
  public key script has been executed.\<close>

lemma direct_token:
  assumes "2 \<le> length p" "length p \<le> 40"
  shows "parse_token (word_of_nat (length p) # p) = Some (word_of_nat (length p), Some p, [])"
proof -
  have "0 < length p" "length p < 76" using assms by linarith+
  from direct_parse [OF this, of "[]"] show ?thesis by (simp del: parse_token.simps)
qed

lemma witness_script_parse:
  assumes "IsSmallInt op" "2 \<le> length p" "length p \<le> 40"
  shows "parse (op # word_of_nat (length p) # p) = ([(op, None), (word_of_nat (length p), Some p)], [])"
proof -
  have "parse ([] :: bytes) = ([], [])" by (rule parse_stop) simp
  then show ?thesis
    by (simp only: parse_step [OF IsSmallInt_length [OF assms(1)]] parse_step [OF direct_token [OF assms(2,3)]]) simp
qed

definition witness_vm ::
  "byte \<Rightarrow> bytes \<Rightarrow> MsgTx \<Rightarrow> int \<Rightarrow> SigCache option \<Rightarrow> TxSigHashes \<Rightarrow> int \<Rightarrow> PrevOutputFetcher \<Rightarrow> Engine" where
  "witness_vm op p tx idx cache hashes amount prevOuts =
     \<lparr>vm_tx = tx, vm_txIdx = idx, vm_version = 0, vm_sigCache = cache, vm_hashCache = hashes,
      vm_prevOutFetcher = prevOuts, vm_scripts = [[], op # word_of_nat (length p) # p], vm_scriptIdx = 1,
      vm_opcodeIdx = 0, vm_lastCodeSep = 0, vm_tokenizer = MakeScriptTokenizer 0 (op # word_of_nat (length p) # p),
      vm_dstack = \<lparr>stk = [], verifyMinimalData = True\<rparr>, vm_astack = \<lparr>stk = [], verifyMinimalData = True\<rparr>,
      vm_condStack = [], vm_numOps = 0, vm_witnessVersion = AsSmallInt op, vm_witnessProgram = Some p,
      vm_inputAmount = amount, vm_tapscriptCtx = None\<rparr>"

lemma NewEngine_witness:
  assumes "IsSmallInt op" "2 \<le> length p" "length p \<le> 40" "0 \<le> idx" "idx < int (length (tx_TxIn tx))"
    "ti_SignatureScript (tx_TxIn tx ! nat idx) = []"
  shows "NewEngine (op # word_of_nat (length p) # p) tx idx cache hashes amount prevOuts =
    Inr (witness_vm op p tx idx cache hashes amount prevOuts)"
proof -
  let ?s = "op # word_of_nat (length p) # p"
  have w: "isWitnessProgramScript ?s = Inr True" using assms(1-3) unfolding witness_program_iff by blast
  have can: "isCanonicalPush (word_of_nat (length p)) p" using direct_canonical [of p] assms(2,3) by simp
  have x: "ExtractWitnessProgramInfo ?s = Inr (AsSmallInt op, Some p)"
    using extractWitnessProgramInfo_parse [of ?s] assms(1-3) can
    by (simp add: ExtractWitnessProgramInfo_def IsSmallInt_length direct_token data_bytes_def del: parse_token.simps)
  have empty: "IsPushOnlyScript [] = Inr True" "checkScript [] = Inr ()"
    using parse_stop [of "[]"] by (simp_all add: IsPushOnlyScript_spec checkScript_def checkScriptParses_parse MaxScriptSize_def)
  have "checkScript ?s = Inr ()"
    using assms(3) witness_script_parse [OF assms(1-3)] by (simp add: checkScript_iff)
  then show ?thesis using assms w x empty
    by (simp add: NewEngine_def IsWitnessProgram_def witness_vm_def Let_def)
qed

lemma witness_vm_ok:
  assumes "IsSmallInt op" "2 \<le> length p" "length p \<le> 40" "0 \<le> idx" "idx < int (length (tx_TxIn tx))"
    "ti_SignatureScript (tx_TxIn tx ! nat idx) = []"
    "\<forall>txIn \<in> set (tx_TxIn tx). prevOuts (ti_PreviousOutPoint txIn) \<noteq> None"
    "TxWitness_SerializeSize (ti_Witness (tx_TxIn tx ! nat idx)) + 50 < 2 ^ 31"
  shows "vm_ok (witness_vm op p tx idx cache hashes amount prevOuts)"
  by (rule NewEngine_ok [OF NewEngine_witness [OF assms(1-6)]]) (use assms in simp_all)

text \<open>The state in which the witness program is evaluated: two items on the stack, no script left.\<close>

definition at_witness :: "Engine \<Rightarrow> Engine \<Rightarrow> bool" where
  "at_witness vm vm2 \<longleftrightarrow> engine_ok 1000 vm2 \<and> vm_scriptIdx vm2 = 2 \<and> vm_scripts vm2 = vm_scripts vm \<and> vm_condStack vm2 = [] \<and>
     vm_tx vm2 = vm_tx vm \<and> vm_txIdx vm2 = vm_txIdx vm \<and> vm_version vm2 = 0 \<and> vm_sigCache vm2 = vm_sigCache vm \<and>
     vm_hashCache vm2 = vm_hashCache vm \<and> vm_prevOutFetcher vm2 = vm_prevOutFetcher vm \<and>
     vm_witnessVersion vm2 = vm_witnessVersion vm \<and> vm_tapscriptCtx vm2 = None \<and> vm_numOps vm2 = 0 \<and>
     vm_lastCodeSep vm2 = 0 \<and> vm_opcodeIdx vm2 = 0 \<and> vm_astack vm2 = \<lparr>stk = [], verifyMinimalData = True\<rparr> \<and>
     verifyMinimalData (vm_dstack vm2) \<and> vm_witnessProgram vm2 = vm_witnessProgram vm \<and> vm_inputAmount vm2 = vm_inputAmount vm"

lemma witness_run:
  assumes "IsSmallInt op" "2 \<le> length p" "length p \<le> 40" "0 \<le> idx" "idx < int (length (tx_TxIn tx))"
    "ti_SignatureScript (tx_TxIn tx ! nat idx) = []"
    "\<forall>txIn \<in> set (tx_TxIn tx). prevOuts (ti_PreviousOutPoint txIn) \<noteq> None"
    "TxWitness_SerializeSize (ti_Witness (tx_TxIn tx ! nat idx)) + 50 < 2 ^ 31" "crypto_ok C"
    and vm_def: "vm = witness_vm op p tx idx cache hashes amount prevOuts"
  obtains vm2 where "at_witness vm vm2"
    "executeLoop C pick vm =
       sbind (verifyWitnessProgram C pick p (ti_Witness (tx_TxIn tx ! nat idx)) vm2) (\<lambda>vm3.
         let (fin, vm4) = enterScript vm3 in if fin then Inr vm4 else executeLoop C pick vm4)"
proof -
  let ?b = "word_of_nat (length p) :: byte"
  have ok: "vm_ok vm" unfolding vm_def by (rule witness_vm_ok [OF assms(1-8)])
  obtain x where x: "pushes_item op None x" using small_int_push [OF assms(1)] ..
  have p: "pushes_item ?b (Some p) p" using direct_push assms(2,3) by simp
  define vm1 where "vm1 = vm\<lparr>vm_tokenizer := tok_advance (vm_tokenizer vm) op None (?b # p),
     vm_dstack := PushByteArray x (vm_dstack vm), vm_opcodeIdx := vm_opcodeIdx vm + 1\<rparr>"
  have c: "vm_condStack vm = []" "verifyMinimalData (vm_dstack vm)" "length (stk (vm_dstack vm)) + length (stk (vm_astack vm)) < 1000"
    by (simp_all add: vm_def witness_vm_def)
  have pt: "parse_token (tok_rest (vm_tokenizer vm)) = Some (op, None, ?b # p)"
    using IsSmallInt_length [OF assms(1)] by (simp add: vm_def witness_vm_def tok_ok_Make del: parse_token.simps)
  have s1: "Step C pick vm = Inr (False, vm1)"
    using push_step [OF x ok pt c, of C pick, folded vm1_def] by (simp only: list.distinct if_False)
  then have ok1: "vm_ok vm1" using Step_safe [OF assms(9) ok, of pick] by (simp add: step_post_def)
  have rest: "tok_rest (vm_tokenizer vm1) = ?b # p"
    using tok_advance_ok(2) [OF _ pt] ok by (simp add: vm1_def vm_ok_def)
  define vm2 where "vm2 = vm1\<lparr>vm_tokenizer := tok_advance (vm_tokenizer vm1) ?b (Some p) [],
     vm_dstack := PushByteArray p (vm_dstack vm1), vm_opcodeIdx := vm_opcodeIdx vm1 + 1\<rparr>"
  have c1: "vm_condStack vm1 = []" "verifyMinimalData (vm_dstack vm1)" "length (stk (vm_dstack vm1)) + length (stk (vm_astack vm1)) < 1000"
    by (simp_all add: vm1_def vm_def witness_vm_def)
  have s2: "Step C pick vm1 = finishScript C pick vm2"
    using push_step [OF p ok1 _ c1, of "[]" C pick, folded vm2_def] direct_token [OF assms(2,3)] rest
    by (simp del: parse_token.simps)
  have clear: "clearStack \<lparr>stk = [], verifyMinimalData = True\<rparr> = \<lparr>stk = [], verifyMinimalData = True\<rparr>"
    by (simp add: clearStack_stk)
  have e2: "engine_ok 1000 vm2"
    using ok1 p x assms(2,3) unfolding vm_ok_def
    by (auto simp: vm2_def vm1_def vm_def witness_vm_def engine_ok_def stack_ok_def budget_def pushes_item_def)
  have "at_witness vm (resetScript vm2)"
    using e2 clear by (simp add: at_witness_def resetScript_def vm2_def vm1_def vm_def witness_vm_def engine_ok_def budget_def stack_ok_def)
  moreover have "executeLoop C pick vm =
       sbind (verifyWitnessProgram C pick p (ti_Witness (tx_TxIn tx ! nat idx)) (resetScript vm2)) (\<lambda>vm3.
         let (fin, vm4) = enterScript vm3 in if fin then Inr vm4 else executeLoop C pick vm4)"
  proof -
    have v: "vm_condStack vm2 = []" "vm_witnessProgram vm2 = Some p" "vm_scriptIdx vm2 = 1" "vm_tx vm2 = tx" "vm_txIdx vm2 = idx"
      by (simp_all add: vm2_def vm1_def vm_def witness_vm_def)
    have "executeLoop C pick vm = sbind (finishScript C pick vm2) (\<lambda>(fin, vm). if fin then Inr vm else executeLoop C pick vm)"
      by (simp add: executeLoop.simps [of C pick vm] executeLoop.simps [of C pick vm1] s1 s2)
    also have "finishScript C pick vm2 = sbind (verifyWitnessProgram C pick p (ti_Witness (tx_TxIn tx ! nat idx)) (resetScript vm2)) (\<lambda>vm. Inr (enterScript vm))"
      using v assms(4,5) by (simp add: finishScript_def resetScript_def go_index_def Let_def)
    finally show ?thesis by (simp add: sbind_assoc Let_def)
  qed
  ultimately show thesis by (rule that)
qed

text \<open>Spending a witness program: an input without a signature script.\<close>

definition spends :: "PrevOutputFetcher \<Rightarrow> MsgTx \<Rightarrow> int \<Rightarrow> bytes list \<Rightarrow> bool" where
  "spends prevOuts tx idx w \<longleftrightarrow> tx_in_range prevOuts tx \<and> 0 \<le> idx \<and> idx < int (length (tx_TxIn tx)) \<and>
     ti_SignatureScript (tx_TxIn tx ! nat idx) = [] \<and> ti_Witness (tx_TxIn tx ! nat idx) = w"

definition finish_run :: "crypto \<Rightarrow> sig_pick \<Rightarrow> Engine \<Rightarrow> go_error + Engine" where
  "finish_run C pick vm =
     (let (fin, vm) = enterScript vm
      in sbind (if fin then Inr vm else executeLoop C pick vm) (CheckErrorCondition True))"

lemma validate_witness:
  assumes "crypto_ok C" "spends prevOuts tx idx w" "IsSmallInt op" "2 \<le> length p" "length p \<le> 40"
  obtains vm where "at_witness (witness_vm op p tx idx cache hashes amount prevOuts) vm"
    "validate_input C pick (op # word_of_nat (length p) # p) tx idx cache hashes amount prevOuts =
       sbind (verifyWitnessProgram C pick p w vm) (finish_run C pick)"
proof -
  have s: "0 \<le> idx" "idx < int (length (tx_TxIn tx))" "ti_SignatureScript (tx_TxIn tx ! nat idx) = []"
    "ti_Witness (tx_TxIn tx ! nat idx) = w" using assms(2) by (simp_all add: spends_def)
  then have mem: "tx_TxIn tx ! nat idx \<in> set (tx_TxIn tx)" by (intro nth_mem) (simp add: nat_less_iff)
  then have r: "\<forall>txIn \<in> set (tx_TxIn tx). prevOuts (ti_PreviousOutPoint txIn) \<noteq> None"
    "TxWitness_SerializeSize (ti_Witness (tx_TxIn tx ! nat idx)) + 50 < 2 ^ 31"
    using assms(2) by (auto simp: spends_def tx_in_range_def)
  let ?vm = "witness_vm op p tx idx cache hashes amount prevOuts"
  obtain vm2 where vm2: "at_witness ?vm vm2" "executeLoop C pick ?vm = sbind (verifyWitnessProgram C pick p w vm2) (\<lambda>vm3.
         let (fin, vm4) = enterScript vm3 in if fin then Inr vm4 else executeLoop C pick vm4)"
    by (rule witness_run [OF assms(3-5) s(1-3) r assms(1) refl, where pick = pick and cache = cache and hashes = hashes and amount = amount])
       (simp only: s(4))
  have "vm_version ?vm = 0" by (simp add: witness_vm_def)
  with vm2(2) have "validate_input C pick (op # word_of_nat (length p) # p) tx idx cache hashes amount prevOuts =
       sbind (verifyWitnessProgram C pick p w vm2) (finish_run C pick)"
    by (simp add: validate_input_def NewEngine_witness [OF assms(3-5) s(1-3)] Execute_def sbind_assoc finish_run_def [abs_def] Let_def case_prod_unfold)
  with vm2(1) that show thesis by blast
qed

lemma clean_true_verdict:
  assumes "vm_tapscriptCtx vm = None" "length (vm_scripts vm) \<le> vm_scriptIdx vm" "vm_dstack vm = d\<lparr>stk := [[1]]\<rparr>"
  shows "\<exists>vm'. finish_run C pick vm = Inr vm' \<and> vm_sigCache vm' = vm_sigCache vm"
proof -
  have "PopBool (vm_dstack vm) = Inr (True, d\<lparr>stk := []\<rparr>)"
    using nipN_split [of "d\<lparr>stk := [[1]]\<rparr>" "[]" "[1]" "[]" 0] by (simp add: assms(3) PopBool_def PopByteArray_def)
  with assms(1,2) show ?thesis by (simp add: assms(3) finish_run_def enterScript_def CheckErrorCondition_def)
qed

lemma key_path_validation:
  assumes "crypto_ok C" "spends prevOuts tx idx w" "length key = 32" "fst (stripWitnessAnnex w) = [sig]"
  shows "case VerifyTaprootKeySpend C pick key sig tx idx prevOuts hashes cache of
      Inl e \<Rightarrow> validate_input C pick (OP_1 # OP_DATA_32 # key) tx idx cache hashes amount prevOuts = Inl e
    | Inr cache' \<Rightarrow> \<exists>vm. validate_input C pick (OP_1 # OP_DATA_32 # key) tx idx cache hashes amount prevOuts = Inr vm \<and> vm_sigCache vm = cache'"
proof -
  have op: "IsSmallInt OP_1" "AsSmallInt OP_1 = TaprootWitnessVersion"
    by (simp_all add: IsSmallInt_def AsSmallInt_def witness_versions)
  have w: "w \<noteq> []" using assms(4) by (auto simp: stripWitnessAnnex_def split: if_splits)
  have p: "2 \<le> length key" "length key \<le> 40" "word_of_nat (length key) = OP_DATA_32" using assms(3) by simp_all
  obtain vm where vm: "at_witness (witness_vm OP_1 key tx idx cache hashes amount prevOuts) vm"
    "validate_input C pick (OP_1 # OP_DATA_32 # key) tx idx cache hashes amount prevOuts =
       sbind (verifyWitnessProgram C pick key w vm) (finish_run C pick)"
    using validate_witness [OF assms(1,2) op(1) p(1,2), unfolded p(3)] by blast
  have v: "engine_ok 1000 vm" "vm_witnessVersion vm = TaprootWitnessVersion" "vm_tx vm = tx" "vm_txIdx vm = idx" "vm_prevOutFetcher vm = prevOuts"
    "vm_hashCache vm = hashes" "vm_sigCache vm = cache" "vm_tapscriptCtx vm = None" "vm_scriptIdx vm = 2" "length (vm_scripts vm) = 2"
    using vm(1) op(2) by (simp_all add: at_witness_def witness_vm_def)
  have d: "setStack (vm_dstack vm) xs = vm_dstack vm\<lparr>stk := xs\<rparr>" for xs
    using v(1) by (intro setStack_stk) (simp add: engine_ok_def stack_ok_def)
  have "verifyWitnessProgram C pick key w vm = verifyTaprootKeyPath C pick key sig vm"
    using assms(3,4) v(2) w
    by (simp add: verifyWitnessProgram_def witness_versions payToTaprootDataSize_def verifyTaprootSpend_def Let_def case_prod_unfold go_index_def)
  then show ?thesis unfolding vm(2) using v d
      clean_true_verdict [of "vm\<lparr>vm_sigCache := c, vm_dstack := vm_dstack vm\<lparr>stk := [[1]]\<rparr>\<rparr>" "vm_dstack vm" C pick for c]
    by (auto simp: verifyTaprootKeyPath_def split: sum.split)
qed

text \<open>The message a key spend signs: the annex is committed to when there is one.\<close>

text \<open>An annex is a last item of at least two whose first byte is \<open>0x50\<close>.\<close>

definition has_annex :: "bytes list \<Rightarrow> bool" where
  "has_annex w \<longleftrightarrow> 2 \<le> length w \<and> last w \<noteq> [] \<and> hd (last w) = 0x50"

definition annex_of :: "bytes list \<Rightarrow> bytes option" where
  "annex_of w = (if has_annex w then Some (last w) else None)"

definition without_annex :: "bytes list \<Rightarrow> bytes list" where
  "without_annex w = (if has_annex w then butlast w else w)"

lemma annexed_iff: "isAnnexedWitness w \<longleftrightarrow> has_annex w"
  by (cases "w = []") (auto simp: isAnnexedWitness_def has_annex_def last_conv_nth hd_conv_nth TaprootAnnexTag_def Let_def)

lemma extractAnnex_last: "isAnnexedWitness w \<Longrightarrow> extractAnnex w = Inr (last w)"
  by (cases "w = []") (auto simp: extractAnnex_def isAnnexedWitness_def last_conv_nth)

definition key_spend_signed ::
  "crypto \<Rightarrow> bytes \<Rightarrow> bytes \<Rightarrow> MsgTx \<Rightarrow> int \<Rightarrow> PrevOutputFetcher \<Rightarrow> TxSigHashes \<Rightarrow> bytes option \<Rightarrow> bool" where
  "key_spend_signed C key rawSig tx idx prevOuts hashes annex \<longleftrightarrow>
     (\<exists>pk sig hashType sigHash. parseTaprootSigAndPubKey C key rawSig = Inr (pk, sig, hashType) \<and>
        calcTaprootSignatureHashRaw C hashes hashType tx idx prevOuts (case annex of None \<Rightarrow> [] | Some a \<Rightarrow> [WithAnnex C a]) = Inr sigHash \<and>
        c_VerifySig C sig sigHash pk)"

lemma key_spend_iff:
  assumes "0 \<le> idx" "idx < int (length (tx_TxIn tx))" "case cache of None \<Rightarrow> True | Some c \<Rightarrow> sig_cache_sound C c"
  shows "(\<exists>cache'. VerifyTaprootKeySpend C pick key rawSig tx idx prevOuts hashes cache = Inr cache') \<longleftrightarrow>
    key_spend_signed C key rawSig tx idx prevOuts hashes (annex_of (ti_Witness (tx_TxIn tx ! nat idx)))"
    "VerifyTaprootKeySpend C pick key rawSig tx idx prevOuts hashes cache = Inr cache' \<Longrightarrow>
      (case cache' of None \<Rightarrow> True | Some c \<Rightarrow> sig_cache_sound C c)"
proof -
  let ?annex = "annex_of (ti_Witness (tx_TxIn tx ! nat idx))"
  have eq: "VerifyTaprootKeySpend C pick key rawSig tx idx prevOuts hashes cache =
      sbind (newTaprootSigVerifier C key rawSig tx idx prevOuts hashes ?annex) (\<lambda>v.
        sbind (taproot_Verify C pick v cache) (\<lambda>(ok, c). if ok then Inr c else Inl (scriptError ErrTaprootSigInvalid)))"
    using assms(1,2) extractAnnex_last by (simp add: VerifyTaprootKeySpend_def go_index_def annex_of_def annexed_iff Let_def)
  have verdict: "fst (verifySig C pick v h cache) = c_VerifySig C (v_sig v) h (v_pubKey v)"
    "case snd (verifySig C pick v h cache) of None \<Rightarrow> True | Some c \<Rightarrow> sig_cache_sound C c"
    if "newTaprootSigVerifier C key rawSig tx idx prevOuts hashes ?annex = Inr v" for v h
    using verifySig_transparent [OF that assms(3), of pick h] by (auto split: option.splits)
  show "(\<exists>cache'. VerifyTaprootKeySpend C pick key rawSig tx idx prevOuts hashes cache = Inr cache') \<longleftrightarrow>
    key_spend_signed C key rawSig tx idx prevOuts hashes ?annex"
  proof (cases "parseTaprootSigAndPubKey C key rawSig")
    case (Inl e)
    then show ?thesis unfolding eq by (simp add: newTaprootSigVerifier_def key_spend_signed_def)
  next
    case (Inr r)
    then obtain pk sig ht where p: "parseTaprootSigAndPubKey C key rawSig = Inr (pk, sig, ht)" by (cases r) simp
    then obtain v where v: "newTaprootSigVerifier C key rawSig tx idx prevOuts hashes ?annex = Inr v" "v_sig v = sig" "v_pubKey v = pk"
      "v_hashType v = ht" "v_hashCache v = hashes" "v_tx v = tx" "v_inputIndex v = idx" "v_prevOuts v = prevOuts" "v_annex v = ?annex"
      by (simp add: newTaprootSigVerifier_def)
    have "\<exists>c. verifySig C pick v h cache = (c_VerifySig C sig h pk, c)" for h
      using verdict(1) [OF v(1), of h] v by (cases "verifySig C pick v h cache") simp
    then obtain cf where vs: "verifySig C pick v h cache = (c_VerifySig C sig h pk, cf h)" for h by metis
    let ?opts = "case ?annex of None \<Rightarrow> [] | Some a \<Rightarrow> [WithAnnex C a]"
    have "VerifyTaprootKeySpend C pick key rawSig tx idx prevOuts hashes cache =
        sbind (case calcTaprootSignatureHashRaw C hashes ht tx idx prevOuts ?opts of
             Inl e \<Rightarrow> (if e = goPanic then Inl goPanic else Inr (False, cache))
           | Inr h \<Rightarrow> Inr (c_VerifySig C sig h pk, cf h)) (\<lambda>(ok, c). if ok then Inr c else Inl (scriptError ErrTaprootSigInvalid))"
      by (simp only: eq v sbind_simps taproot_Verify_def Let_def vs)
    then show ?thesis unfolding key_spend_signed_def p
      by (cases "calcTaprootSignatureHashRaw C hashes ht tx idx prevOuts ?opts") simp_all
  qed
  show "case cache' of None \<Rightarrow> True | Some c \<Rightarrow> sig_cache_sound C c"
    if ok: "VerifyTaprootKeySpend C pick key rawSig tx idx prevOuts hashes cache = Inr cache'"
  proof -
    obtain v where v: "newTaprootSigVerifier C key rawSig tx idx prevOuts hashes ?annex = Inr v"
      and "taproot_Verify C pick v cache = Inr (True, cache')"
      using ok unfolding eq by (auto simp: sbind_eq_Inr split: if_splits)
    then obtain h where "verifySig C pick v h cache = (True, cache')"
      by (auto simp: taproot_Verify_def Let_def split: sum.splits if_splits)
    with verdict(2) [OF v, of h] show ?thesis by simp
  qed
qed

subsection \<open>Running a revealed leaf\<close>

text \<open>Behind the public key script the machine stays a tapscript machine.\<close>

lemma leaf_step:
  assumes "Step C pick vm = Inr (fin, vm')" "2 \<le> vm_scriptIdx vm"
  shows "2 \<le> vm_scriptIdx vm' \<and> (vm_tapscriptCtx vm' = None \<longleftrightarrow> vm_tapscriptCtx vm = None)"
  using assms(1)
proof (cases rule: Step_cases)
  case (1 t op vm1 n)
  then have f: "vm_scriptIdx vm1 = vm_scriptIdx vm" "vm_tapscriptCtx vm1 = None \<longleftrightarrow> vm_tapscriptCtx vm = None"
    by (cases "vm_tapscriptCtx vm"; cases "vm_tapscriptCtx vm1"; auto simp: same_program_def)+
  show ?thesis
  proof (cases "tok_Done t")
    case True
    then have "finishScript C pick (vm1\<lparr>vm_opcodeIdx := vm_opcodeIdx vm1 + 1\<rparr>) = Inr (fin, vm')" using 1(7) by simp
    then show ?thesis
      by (cases rule: finishScript_cases) (use f assms(2) in \<open>auto simp: enterScript_def resetScript_def Let_def split: if_splits\<close>)
  qed (use 1(7) f assms(2) in simp)
qed

lemma leaf_run:
  assumes "executeLoop C pick vm = Inr vm'" "2 \<le> vm_scriptIdx vm"
  shows "vm_tapscriptCtx vm' = None \<longleftrightarrow> vm_tapscriptCtx vm = None"
proof -
  have "2 \<le> vm_scriptIdx s \<and> (vm_tapscriptCtx s = None \<longleftrightarrow> vm_tapscriptCtx vm = None)" if "reaches (Step C pick) vm s" for s
    using that assms(2) by (induction rule: reaches.induct) (auto dest!: leaf_step)
  moreover obtain s where "reaches (Step C pick) vm s" "Step C pick s = Inr (True, vm')"
    using script_vm.run_reaches [OF assms(1)] by blast
  ultimately show ?thesis by (metis leaf_step)
qed

lemma CheckErrorCondition_tapscript:
  assumes "final_ok vm" "vm_tapscriptCtx vm \<noteq> None"
  shows "(\<exists>vm'. CheckErrorCondition True vm = Inr vm') \<longleftrightarrow> (\<exists>x. stk (vm_dstack vm) = [x] \<and> asBool x)"
proof (cases "length (stk (vm_dstack vm)) = 1")
  case True
  then obtain x where x: "stk (vm_dstack vm) = [x]" by (auto simp: length_Suc_conv)
  then have "PopBool (vm_dstack vm) = Inr (asBool x, vm_dstack vm\<lparr>stk := []\<rparr>)"
    using nipN_split [of "vm_dstack vm" "[]" x "[]" 0] by (simp add: PopBool_def PopByteArray_def)
  with x assms show ?thesis by (simp add: CheckErrorCondition_def final_ok_def)
next
  case False
  moreover have "length (stk (vm_dstack vm)) \<le> 1000" using assms(1) by (simp add: final_ok_def)
  ultimately show ?thesis using assms by (auto simp: CheckErrorCondition_def final_ok_def)
qed

text \<open>The machine that executes a leaf: \<open>items\<close> is the initial stack.\<close>

definition leaf_vm ::
  "crypto \<Rightarrow> byte \<Rightarrow> bytes \<Rightarrow> MsgTx \<Rightarrow> int \<Rightarrow> SigCache option \<Rightarrow> TxSigHashes \<Rightarrow> int \<Rightarrow> PrevOutputFetcher \<Rightarrow>
     bytes list \<Rightarrow> bytes \<Rightarrow> bytes list \<Rightarrow> Engine" where
  "leaf_vm C op p tx idx cache hashes amount prevOuts w script items =
     (witness_vm op p tx idx cache hashes amount prevOuts)
       \<lparr>vm_scripts := [[], op # word_of_nat (length p) # p, script], vm_scriptIdx := 2,
        vm_tokenizer := MakeScriptTokenizer 0 script, vm_dstack := \<lparr>stk = items, verifyMinimalData = True\<rparr>,
        vm_tapscriptCtx := Some (newTapscriptExecutionCtx (int (TxWitness_SerializeSize w)) (annex_of w)
          (TapLeaf_TapHash C (NewBaseTapLeaf script)))\<rparr>"

text \<open>A leaf accepts its initial stack: the script parses, the stack is within the limits, and the
  script runs to a stack that holds one item, which is true.\<close>

definition leaf_accepts :: "crypto \<Rightarrow> sig_pick \<Rightarrow> Engine \<Rightarrow> bytes \<Rightarrow> bytes list \<Rightarrow> bool" where
  "leaf_accepts C pick vm script items \<longleftrightarrow> snd (parse script) = [] \<and>
     length items \<le> 1000 \<and> (\<forall>x \<in> set items. length x \<le> MaxScriptElementSize) \<and>
     (\<exists>x vm'. (if script = [] then Inr vm else executeLoop C pick vm) = Inr vm' \<and> stk (vm_dstack vm') = [x] \<and> asBool x)"

lemma strip_without: "stripWitnessAnnex w = (without_annex w, annex_of w)"
  using extractAnnex_last [of w] by (simp add: stripWitnessAnnex_def annex_of_def without_annex_def annexed_iff butlast_conv_take)

lemma strip_annex: "stripWitnessAnnex w = (st, annex) \<Longrightarrow> annex = annex_of w"
  by (simp add: strip_without)

lemma finish_leaf:
  assumes C: "crypto_ok C" and V: "step_post (enterScript V)" "vm_tapscriptCtx V \<noteq> None" "vm_scriptIdx V = 2" "length (vm_scripts V) = 3"
    "vm_scripts V ! 2 = script" "vm_version V = 0"
  shows "(\<exists>vm'. finish_run C pick V = Inr vm') \<longleftrightarrow>
    (\<exists>x vm'. (if script = [] then Inr V else executeLoop C pick (V\<lparr>vm_tokenizer := MakeScriptTokenizer 0 script\<rparr>)) = Inr vm' \<and>
       stk (vm_dstack vm') = [x] \<and> asBool x)"
proof (cases "script = []")
  case True
  then have e: "enterScript V = (True, V\<lparr>vm_scriptIdx := 3\<rparr>)" using V by (simp add: enterScript_def)
  then have "final_ok (V\<lparr>vm_scriptIdx := 3\<rparr>)" using V(1) by (simp add: step_post_def)
  from CheckErrorCondition_tapscript [OF this] V(2) True e show ?thesis by (simp add: finish_run_def)
next
  case False
  let ?V = "V\<lparr>vm_tokenizer := MakeScriptTokenizer 0 script\<rparr>"
  have e: "enterScript V = (False, ?V)" using V False by (simp add: enterScript_def)
  then have ok: "vm_ok ?V" using V(1) by (simp add: step_post_def)
  have "(\<exists>r. CheckErrorCondition True vm' = Inr r) \<longleftrightarrow> (\<exists>x. stk (vm_dstack vm') = [x] \<and> asBool x)" if r: "executeLoop C pick ?V = Inr vm'" for vm'
  proof (rule CheckErrorCondition_tapscript)
    show "final_ok vm'" using script_vm.run_safe [of C ?V pick] C ok r by simp
    show "vm_tapscriptCtx vm' \<noteq> None" using leaf_run [OF r] V(2,3) by simp
  qed
  then show ?thesis using e False by (cases "executeLoop C pick ?V") (simp_all add: finish_run_def)
qed

lemma spends_small:
  assumes "spends prevOuts tx idx w"
  shows "TxWitness_SerializeSize w + 50 < 2 ^ 31" "int32_of (int (TxWitness_SerializeSize w)) = int (TxWitness_SerializeSize w)"
    "length w < 2 ^ 31" "x \<in> set w \<Longrightarrow> length x < 2 ^ 31"
proof -
  have s: "0 \<le> idx" "idx < int (length (tx_TxIn tx))" "ti_Witness (tx_TxIn tx ! nat idx) = w" "tx_in_range prevOuts tx"
    using assms by (simp_all add: spends_def)
  then have "tx_TxIn tx ! nat idx \<in> set (tx_TxIn tx)" by (intro nth_mem) (simp add: nat_less_iff)
  then show small: "TxWitness_SerializeSize w + 50 < 2 ^ 31" using s(3,4) by (auto simp: tx_in_range_def)
  then show "int32_of (int (TxWitness_SerializeSize w)) = int (TxWitness_SerializeSize w)" by (intro int32_of_id) simp_all
  show "length w < 2 ^ 31" "x \<in> set w \<Longrightarrow> length x < 2 ^ 31"
    using small serialize_size_bounds(1) [of w] serialize_size_bounds(2) [of x w] by linarith+
qed

lemma setup_leaf:
  assumes C: "crypto_ok C" and sp: "spends prevOuts tx idx w" and vm: "at_witness (witness_vm op p tx idx cache hashes amount prevOuts) vm"
    and st: "stripWitnessAnnex w = (items @ [script, blk], annex)" and pk: "snd (parse (op # word_of_nat (length p) # p)) = []" "length p \<le> 40"
  shows "(\<exists>vm'. sbind (setupScriptPathSpend C (items @ [script, blk]) (int32_of (int (TxWitness_SerializeSize w))) annex script v vm) (finish_run C pick) = Inr vm') \<longleftrightarrow>
    v = BaseLeafVersion \<and> leaf_accepts C pick (leaf_vm C op p tx idx cache hashes amount prevOuts w script items) script items"
proof -
  note small = spends_small [OF sp]
  let ?st = "items @ [script, blk]"
  have "w \<noteq> []" using st by (auto simp: stripWitnessAnnex_def split: if_splits)
  from stripWitnessAnnex_sub [OF st this] have sub: "set ?st \<subseteq> set w" "length ?st \<le> length w" by blast+
  then have len: "length items < 2 ^ 31" "length script < 2 ^ 31" using small(3) small(4) [of script] by auto
  have vm0: "engine_ok 1000 vm" "vm_version vm = 0" using vm by (simp_all add: at_witness_def)
  have d: "setStack (vm_dstack vm) xs = vm_dstack vm\<lparr>stk := xs\<rparr>" for xs
    using vm0(1) by (intro setStack_stk) (simp add: engine_ok_def stack_ok_def)
  define ctx where "ctx = newTapscriptExecutionCtx (int (TxWitness_SerializeSize w)) (annex_of w) (TapLeaf_TapHash C (NewBaseTapLeaf script))"
  define V where "V = vm\<lparr>vm_tapscriptCtx := Some ctx, vm_scripts := vm_scripts vm @ [script], vm_dstack := vm_dstack vm\<lparr>stk := items\<rparr>\<rparr>"
  have sl: "go_slice ?st 0 (int (length ?st) - 2) = Inr items" by (simp add: go_slice_def)
  have su: "setupScriptPathSpend C ?st (int32_of (int (TxWitness_SerializeSize w))) annex script v vm =
      (if v \<noteq> BaseLeafVersion then Inl (scriptError ErrDiscourageUpgradeableTaprootVersion)
       else sbind (checkScriptParses 0 script) (\<lambda>_. enforceTapscriptStackLimits V))"
    by (simp only: setupScriptPathSpend_def small(2) vm0(2) sl d strip_annex [OF st] V_def ctx_def sbind_simps)
  have lim: "enforceTapscriptStackLimits V =
    (if length items > 1000 then Inl (scriptError ErrStackOverflow)
     else if \<not> (\<forall>x \<in> set items. length x \<le> MaxScriptElementSize) then Inl (scriptError ErrElementTooBig) else Inr V)"
    using len(1) enforce_limits [of V] by (auto simp: V_def stack_ok_def)
  have leaf: "V\<lparr>vm_tokenizer := MakeScriptTokenizer 0 script\<rparr> = leaf_vm C op p tx idx cache hashes amount prevOuts w script items"
    using vm by (cases vm) (auto simp: V_def ctx_def leaf_vm_def at_witness_def witness_vm_def)
  have fin: "(\<exists>vm'. finish_run C pick V = Inr vm') \<longleftrightarrow>
      (\<exists>x vm'. (if script = [] then Inr V else executeLoop C pick (V\<lparr>vm_tokenizer := MakeScriptTokenizer 0 script\<rparr>)) = Inr vm' \<and> stk (vm_dstack vm') = [x] \<and> asBool x)"
    if ok: "snd (parse script) = []" "length items \<le> 1000" "\<forall>x \<in> set items. length x \<le> MaxScriptElementSize"
  proof (rule finish_leaf [OF C])
    have scripts: "vm_scripts V = [[], op # word_of_nat (length p) # p, script]" using vm by (simp add: V_def at_witness_def witness_vm_def)
    have b: "int32_of (50 + int (TxWitness_SerializeSize w)) = 50 + int (TxWitness_SerializeSize w)" using small(1) by (intro int32_of_id) simp_all
    then have "engine_ok 1000 V" using vm0(1) ok small(1)
      by (auto simp: V_def engine_ok_def stack_ok_def budget_def ctx_def newTapscriptExecutionCtx_def sigOpsDelta_def)
    moreover have "vm_astack V = (vm_astack V)\<lparr>stk := []\<rparr>" "vm_condStack V = []" "vm_version V = 0" "witness_small V" "vm_scriptIdx V = 2"
      using vm sp small(1) by (simp_all add: V_def at_witness_def witness_small_def witness_of_def spends_def witness_vm_def)
    moreover have "snd (parse []) = ([] :: bytes)" using parse_stop [of "[]"] by simp
    ultimately show "step_post (enterScript V)" using len(2) ok(1) pk
      by (intro enterScript_safe [where s = "vm_astack V"]) (auto simp: scripts)
  qed (use vm in \<open>simp_all add: V_def at_witness_def witness_vm_def\<close>)
  have "stk (vm_dstack V) = items" by (simp add: V_def)
  then have "leaf_accepts C pick (leaf_vm C op p tx idx cache hashes amount prevOuts w script items) script items \<longleftrightarrow>
     snd (parse script) = [] \<and> length items \<le> 1000 \<and> (\<forall>x \<in> set items. length x \<le> MaxScriptElementSize) \<and>
     (\<exists>vm'. finish_run C pick V = Inr vm')"
    unfolding leaf_accepts_def using fin by (auto simp: leaf leaf_vm_def)
  then show ?thesis using su lim checkScriptParses_parse [OF len(2)] by auto
qed

lemma strip_shape:
  obtains (none) "w = []" | (single) sig annex where "w \<noteq> []" "stripWitnessAnnex w = ([sig], annex)"
  | (many) items script blk annex where "w \<noteq> []" "stripWitnessAnnex w = (items @ [script, blk], annex)"
proof (cases "w = []")
  case False
  obtain st annex where st: "stripWitnessAnnex w = (st, annex)" by (cases "stripWitnessAnnex w")
  from stripWitnessAnnex_sub(1) [OF this False] obtain xs blk where "st = xs @ [blk]" by (cases st rule: rev_cases) auto
  with st False single [of blk annex] many [of _ _ blk annex] show thesis by (cases xs rule: rev_cases) auto
qed (use none in simp)

lemma spend_program:
  assumes "crypto_ok C" "spends prevOuts tx idx w" "op = OP_1 \<or> op = OP_2" "length p = 32"
  obtains vm where "at_witness (witness_vm op p tx idx cache hashes amount prevOuts) vm"
    "validate_input C pick (op # OP_DATA_32 # p) tx idx cache hashes amount prevOuts =
       sbind (if op = OP_1 then verifyTaprootSpend C pick p w vm else verifyMerkleRootSpend C p w vm) (finish_run C pick)"
    "snd (parse (op # word_of_nat (length p) # p)) = []"
proof -
  have op: "IsSmallInt op" using assms(3) by (auto simp: IsSmallInt_def)
  have p: "2 \<le> length p" "length p \<le> 40" "word_of_nat (length p) = OP_DATA_32" using assms(4) by simp_all
  obtain vm where vm: "at_witness (witness_vm op p tx idx cache hashes amount prevOuts) vm"
    "validate_input C pick (op # OP_DATA_32 # p) tx idx cache hashes amount prevOuts =
       sbind (verifyWitnessProgram C pick p w vm) (finish_run C pick)"
    using validate_witness [OF assms(1,2) op p(1,2), unfolded p(3)] by blast
  have "vm_witnessVersion vm = AsSmallInt op" using vm(1) by (simp add: at_witness_def witness_vm_def)
  then have "verifyWitnessProgram C pick p w vm =
      (if op = OP_1 then verifyTaprootSpend C pick p w vm else verifyMerkleRootSpend C p w vm)"
    using assms(3,4)
    by (auto simp: AsSmallInt_def verifyWitnessProgram_def witness_versions payToTaprootDataSize_def payToMerkleRootDataSize_def)
  with vm that witness_script_parse [OF op p(1,2)] show thesis by simp
qed

lemma go_index_tail:
  "go_index (items @ [script, blk]) (int (length (items @ [script, blk])) - 1) = Inr blk"
  "go_index (items @ [script, blk]) (int (length (items @ [script, blk])) - 2) = Inr script"
  by (simp_all add: go_index_def nth_append nat_add_distrib)

lemma merkle_root_validation:
  assumes "crypto_ok C" "spends prevOuts tx idx w" "length root = 32"
  shows "(\<exists>vm. validate_input C pick (OP_2 # OP_DATA_32 # root) tx idx cache hashes amount prevOuts = Inr vm) \<longleftrightarrow>
    (\<exists>items script cb. fst (stripWitnessAnnex w) = items @ [script, MerkleRoot_ToBytes cb] \<and>
       mcb_LeafVersion cb = BaseLeafVersion \<and> 32 dvd length (mcb_InclusionProof cb) \<and> length (mcb_InclusionProof cb) \<le> 32 * 128 \<and>
       computeMerkleRootFromProof C BaseLeafVersion (mcb_InclusionProof cb) script = root \<and>
       leaf_accepts C pick (leaf_vm C OP_2 root tx idx cache hashes amount prevOuts w script items) script items)"
proof -
  obtain vm where vm: "at_witness (witness_vm OP_2 root tx idx cache hashes amount prevOuts) vm"
    "validate_input C pick (OP_2 # OP_DATA_32 # root) tx idx cache hashes amount prevOuts =
       sbind (verifyMerkleRootSpend C root w vm) (finish_run C pick)"
    "snd (parse (OP_2 # word_of_nat (length root) # root)) = []"
    by (rule spend_program [OF assms(1,2) disjI2 [OF refl] assms(3), where pick = pick and cache = cache and hashes = hashes and amount = amount]) simp
  show ?thesis
  proof (cases w rule: strip_shape)
    case none
    then show ?thesis unfolding vm(2) by (simp add: verifyMerkleRootSpend_def stripWitnessAnnex_def isAnnexedWitness_def)
  next
    case (single sig annex)
    then show ?thesis unfolding vm(2) by (simp add: verifyMerkleRootSpend_def)
  next
    case (many items script blk annex)
    have "verifyMerkleRootSpend C root w vm =
        sbind (ParseMerkleRootControlBlock blk) (\<lambda>cb. sbind (VerifyMerkleRootLeafCommitment C cb root script) (\<lambda>_.
          setupScriptPathSpend C (items @ [script, blk]) (int32_of (int (TxWitness_SerializeSize w))) annex script (mcb_LeafVersion cb) vm))"
      using many by (simp only: verifyMerkleRootSpend_def many(2) Let_def prod.case go_index_tail sbind_simps) simp
    then have "(\<exists>r. sbind (verifyMerkleRootSpend C root w vm) (finish_run C pick) = Inr r) \<longleftrightarrow>
        (\<exists>cb. ParseMerkleRootControlBlock blk = Inr cb \<and> MerkleRoot_RootHash C cb script = root \<and>
          (\<exists>r. sbind (setupScriptPathSpend C (items @ [script, blk]) (int32_of (int (TxWitness_SerializeSize w))) annex script (mcb_LeafVersion cb) vm)
            (finish_run C pick) = Inr r))"
      by (cases "ParseMerkleRootControlBlock blk") (simp_all add: VerifyMerkleRootLeafCommitment_def Let_def)
    also have "\<dots> \<longleftrightarrow> (\<exists>cb. ParseMerkleRootControlBlock blk = Inr cb \<and> MerkleRoot_RootHash C cb script = root \<and> mcb_LeafVersion cb = BaseLeafVersion \<and>
          leaf_accepts C pick (leaf_vm C OP_2 root tx idx cache hashes amount prevOuts w script items) script items)"
      using assms(3) by (simp only: setup_leaf [OF assms(1,2) vm(1) many(2) vm(3), of _ pick])
    also have "\<dots> \<longleftrightarrow> (\<exists>cb. blk = MerkleRoot_ToBytes cb \<and> mcb_LeafVersion cb = BaseLeafVersion \<and>
          32 dvd length (mcb_InclusionProof cb) \<and> length (mcb_InclusionProof cb) \<le> 32 * 128 \<and>
          computeMerkleRootFromProof C BaseLeafVersion (mcb_InclusionProof cb) script = root \<and>
          leaf_accepts C pick (leaf_vm C OP_2 root tx idx cache hashes amount prevOuts w script items) script items)" (is "?L \<longleftrightarrow> ?R")
    proof
      show "?L \<Longrightarrow> ?R" using merkleroot_control_block_canonical [of blk] by (fastforce simp: MerkleRoot_RootHash_def)
      have even: "BaseLeafVersion AND 1 = 0" by (simp add: BaseLeafVersion_def)
      show "?R \<Longrightarrow> ?L" using merkleroot_control_block_roundtrip even by (fastforce simp: MerkleRoot_RootHash_def)
    qed
    finally show ?thesis unfolding vm(2) many(2) by simp
  qed
qed

lemma taproot_validation:
  assumes "crypto_ok C" "spends prevOuts tx idx w" "length key = 32" "case cache of None \<Rightarrow> True | Some c \<Rightarrow> sig_cache_sound C c"
  shows "(\<exists>vm. validate_input C pick (OP_1 # OP_DATA_32 # key) tx idx cache hashes amount prevOuts = Inr vm) \<longleftrightarrow>
    (\<exists>sig. fst (stripWitnessAnnex w) = [sig] \<and> key_spend_signed C key sig tx idx prevOuts hashes (annex_of w)) \<or>
    (\<exists>items script blk cb. fst (stripWitnessAnnex w) = items @ [script, blk] \<and>
       ParseControlBlock C blk = Inr cb \<and> cb_LeafVersion cb = BaseLeafVersion \<and> VerifyTaprootLeafCommitment C cb key script = Inr () \<and>
       leaf_accepts C pick (leaf_vm C OP_1 key tx idx cache hashes amount prevOuts w script items) script items)"
proof -
  obtain vm where vm: "at_witness (witness_vm OP_1 key tx idx cache hashes amount prevOuts) vm"
    "validate_input C pick (OP_1 # OP_DATA_32 # key) tx idx cache hashes amount prevOuts =
       sbind (verifyTaprootSpend C pick key w vm) (finish_run C pick)"
    "snd (parse (OP_1 # word_of_nat (length key) # key)) = []"
    by (rule spend_program [OF assms(1,2) disjI1 [OF refl] assms(3), where pick = pick and cache = cache and hashes = hashes and amount = amount]) simp
  show ?thesis
  proof (cases w rule: strip_shape)
    case none
    then show ?thesis unfolding vm(2) by (simp add: verifyTaprootSpend_def stripWitnessAnnex_def isAnnexedWitness_def)
  next
    case (single sig annex)
    have w: "ti_Witness (tx_TxIn tx ! nat idx) = w" "0 \<le> idx" "idx < int (length (tx_TxIn tx))" using assms(2) by (simp_all add: spends_def)
    have "fst (stripWitnessAnnex w) = [sig]" using single by simp
    from key_path_validation [OF assms(1-3) this, where pick = pick and hashes = hashes and cache = cache and amount = amount]
      key_spend_iff(1) [OF w(2,3) assms(4), of pick key sig prevOuts hashes]
    show ?thesis using single w(1) by (auto split: sum.splits)
  next
    case (many items script blk annex)
    have "verifyTaprootSpend C pick key w vm =
        sbind (ParseControlBlock C blk) (\<lambda>cb. sbind (VerifyTaprootLeafCommitment C cb key script) (\<lambda>_.
          setupScriptPathSpend C (items @ [script, blk]) (int32_of (int (TxWitness_SerializeSize w))) annex script (cb_LeafVersion cb) vm))"
      using many by (simp only: verifyTaprootSpend_def many(2) Let_def prod.case go_index_tail sbind_simps) simp
    then have "(\<exists>r. sbind (verifyTaprootSpend C pick key w vm) (finish_run C pick) = Inr r) \<longleftrightarrow>
        (\<exists>cb. ParseControlBlock C blk = Inr cb \<and> VerifyTaprootLeafCommitment C cb key script = Inr () \<and>
          (\<exists>r. sbind (setupScriptPathSpend C (items @ [script, blk]) (int32_of (int (TxWitness_SerializeSize w))) annex script (cb_LeafVersion cb) vm)
            (finish_run C pick) = Inr r))"
      by (cases "ParseControlBlock C blk") (auto simp: sbind_assoc sbind_eq_Inr)
    also have "\<dots> \<longleftrightarrow> (\<exists>cb. ParseControlBlock C blk = Inr cb \<and> VerifyTaprootLeafCommitment C cb key script = Inr () \<and> cb_LeafVersion cb = BaseLeafVersion \<and>
          leaf_accepts C pick (leaf_vm C OP_1 key tx idx cache hashes amount prevOuts w script items) script items)"
      using assms(3) by (simp only: setup_leaf [OF assms(1,2) vm(1) many(2) vm(3), of _ pick])
    finally show ?thesis unfolding vm(2) many(2) by auto
  qed
qed

lemma unknown_program:
  assumes "crypto_ok C" "spends prevOuts tx idx w" "IsSmallInt op" "2 \<le> length p" "length p \<le> 40" "\<not> (op \<in> {OP_1, OP_2} \<and> length p = 32)"
  shows "validate_input C pick (op # word_of_nat (length p) # p) tx idx cache hashes amount prevOuts =
    Inl (scriptError ErrDiscourageUpgradableWitnessProgram)"
proof -
  obtain vm where vm: "at_witness (witness_vm op p tx idx cache hashes amount prevOuts) vm"
    "validate_input C pick (op # word_of_nat (length p) # p) tx idx cache hashes amount prevOuts =
       sbind (verifyWitnessProgram C pick p w vm) (finish_run C pick)"
    using validate_witness [OF assms(1-5)] by blast
  have v: "vm_witnessVersion vm = AsSmallInt op" using vm(1) by (simp add: at_witness_def witness_vm_def)
  have "op = OP_1" if "AsSmallInt op = 1"
  proof -
    have "op - 80 = 1" using that by (auto simp: AsSmallInt_def word_uint_eq_iff split: if_splits)
    then show ?thesis by (simp add: diff_eq_eq)
  qed
  moreover have "op = OP_2" if "AsSmallInt op = 2"
  proof -
    have "op - 80 = 2" using that by (auto simp: AsSmallInt_def word_uint_eq_iff split: if_splits)
    then show ?thesis by (simp add: diff_eq_eq)
  qed
  ultimately show ?thesis using assms(6) v
    by (auto simp: vm(2) verifyWitnessProgram_def witness_versions payToTaprootDataSize_def payToMerkleRootDataSize_def)
qed

subsection \<open>Concrete inputs\<close>

definition spend_tx :: "bytes list \<Rightarrow> MsgTx" where
  "spend_tx w = sample_tx\<lparr>tx_TxIn := [\<lparr>ti_PreviousOutPoint = sample_outpoint, ti_SignatureScript = [],
     ti_Witness = w, ti_Sequence = 0\<rparr>]\<rparr>"

lemma spend_tx_spends:
  assumes "TxWitness_SerializeSize w + 50 < 2 ^ 31"
  shows "spends (p2mr_fetcher 5) (spend_tx w) 0 w" "tx_in_range (p2mr_fetcher 5) (spend_tx w)"
  using assms by (simp_all add: spends_def tx_in_range_def spend_tx_def p2mr_fetcher_def)

lemma spend_tx_sighash:
  obtains h where "length h = 32"
    "\<And>w. calcTaprootSignatureHashRaw sample_crypto sh 0 (spend_tx w) 0 f [] = Inr h"
proof (rule that)
  show "length (TaggedHash sample_crypto TagTapSighash [m]) = 32" for m by (rule TaggedHash_length [OF sample_crypto_ok])
  show "calcTaprootSignatureHashRaw sample_crypto sh 0 (spend_tx w) 0 f [] = Inr (TaggedHash sample_crypto TagTapSighash
      [[0, 0] @ le_bytes 4 (tx_Version sample_tx) @ le_bytes 4 (int (tx_LockTime sample_tx)) @ HashPrevOutsV1 sh @ HashInputAmountsV1 sh @
       HashInputScriptsV1 sh @ HashSequenceV1 sh @ HashOutputsV1 sh @ [0] @ le_bytes 4 0])" for w
    by (simp add: calcTaprootSignatureHashRaw_def Let_def isValidTaprootSigHash_def sighash_types spend_tx_def go_index_def
        defaultTaprootSighashOptions_def writeDigestExtensions_def)
qed

lemma machine_first_step:
  "case NewEngine [OP_1, OP_1] (spend_tx []) 0 None (sample_sighashes zeroHash) 5 (p2mr_fetcher 5) of Inl _ \<Rightarrow> False | Inr vm0 \<Rightarrow>
     (case Step sample_crypto (\<lambda>_. 0) vm0 of Inl _ \<Rightarrow> False | Inr (fin, vm) \<Rightarrow> \<not> fin \<and> stk (vm_dstack vm) = [[1]])"
  by code_simp

subsection \<open>Properties\<close>

text \<open>
  C7. Validating an input never panics: whatever the scripts and the witness are, constructing the
  machine and executing it ends with an accepted input or a script error, for every transaction whose
  spent outputs are known and every choice of evicted cache entries.\<close>

theorem input_validation_no_panic:
  assumes "crypto_ok C" "length pkScript < 2 ^ 31" "tx_in_range prevOuts tx"
  shows "sbind (NewEngine pkScript tx txIdx sigCache sigHashes inputAmount prevOuts) (Execute C pick) \<noteq> Inl goPanic"
  using validate_safe [OF assms, of pick txIdx sigCache sigHashes inputAmount]
  unfolding validate_input_def by (auto simp: safely_def)

theorem input_validation_no_panic_witness:
  "sbind (NewEngine (OP_RETURN # replicate 300 OP_CHECKSIG) (spend_tx []) 0 None (sample_sighashes zeroHash) 5 (p2mr_fetcher 5))
     (Execute sample_crypto (\<lambda>_. 0)) \<noteq> Inl goPanic"
  by (rule input_validation_no_panic [OF sample_crypto_ok _ spend_tx_spends(2)]) (simp_all add: TxWitness_SerializeSize_def VarIntSerializeSize_def)

text \<open>
  C8. The limits hold in every state the machine passes through: both stacks together hold at most
  1000 items of at most 520 bytes, the signature budget is not negative, conditionals are nested
  consistently; the program counter is valid and the tokenizer has an opcode to deliver, so the checks
  for that in a step never fire.\<close>

theorem machine_limits:
  assumes "crypto_ok C" "length pkScript < 2 ^ 31" "tx_in_range prevOuts tx"
    "NewEngine pkScript tx txIdx sigCache sigHashes inputAmount prevOuts = Inr vm0"
    "reaches (Step C pick) vm0 vm"
  shows "length (stk (vm_dstack vm)) + length (stk (vm_astack vm)) \<le> 1000 \<and>
    (\<forall>x \<in> set (stk (vm_dstack vm)) \<union> set (stk (vm_astack vm)). length x \<le> MaxScriptElementSize) \<and>
    0 \<le> budget vm \<and> cond_ok (vm_condStack vm) \<and> checkValidPC vm = Inr () \<and>
    (\<exists>t. tok_Next (vm_tokenizer vm) = Inr (True, t))"
proof -
  have ok: "vm_ok vm"
    using script_vm.reaches_inv [OF assms(5)] NewEngine_vm_ok [OF assms(4,2,3)] assms(1) by blast
  then have "checkValidPC vm = Inr ()" by (auto simp: vm_ok_def checkValidPC_def)
  moreover have "\<exists>t. tok_Next (vm_tokenizer vm) = Inr (True, t)" using vm_ok_token [OF ok] by metis
  ultimately show ?thesis using ok by (auto simp: vm_ok_def engine_ok_def stack_ok_def)
qed

theorem machine_limits_witness:
  "\<exists>vm0 vm. NewEngine [OP_1, OP_1] (spend_tx []) 0 None (sample_sighashes zeroHash) 5 (p2mr_fetcher 5) = Inr vm0 \<and>
     Step sample_crypto (\<lambda>_. 0) vm0 = Inr (False, vm) \<and> stk (vm_dstack vm) = [[1]] \<and> checkValidPC vm = Inr () \<and>
     (\<exists>t. tok_Next (vm_tokenizer vm) = Inr (True, t))"
proof -
  obtain vm0 vm where vm: "NewEngine [OP_1, OP_1] (spend_tx []) 0 None (sample_sighashes zeroHash) 5 (p2mr_fetcher 5) = Inr vm0"
    "Step sample_crypto (\<lambda>_. 0) vm0 = Inr (False, vm)" "stk (vm_dstack vm) = [[1]]"
    using machine_first_step by (auto split: sum.splits)
  have "tx_in_range (p2mr_fetcher 5) (spend_tx [])"
    by (rule spend_tx_spends(2)) (simp add: TxWitness_SerializeSize_def VarIntSerializeSize_def)
  moreover have "reaches (Step sample_crypto (\<lambda>_. 0)) vm0 vm" by (rule reaches_step [where step = "Step sample_crypto (\<lambda>_. 0)", OF reaches_refl vm(2)])
  ultimately show ?thesis using machine_limits [OF sample_crypto_ok _ _ vm(1)] vm by auto
qed

text \<open>
  C9. Every run of the machine ends: there is no infinite sequence of steps that do not finish the
  execution, from any machine whatsoever.\<close>

theorem steps_terminate: "wf {(vm', vm). Step C pick vm = Inr (False, vm')}"
  by (rule wf_subset [OF script_vm.rank_wf]) (auto dest: Step_progress)

text \<open>
  Small steps and the loop agree: the execution loop returns a result exactly when some state the
  machine passes through takes a step with that result.\<close>

lemma execution_loop_iff:
  "executeLoop C pick vm = r \<longleftrightarrow> (\<exists>vm1. reaches (Step C pick) vm vm1 \<and>
     (case r of Inl e \<Rightarrow> Step C pick vm1 = Inl e | Inr vm' \<Rightarrow> Step C pick vm1 = Inr (True, vm')))"
  by (rule script_vm.run_iff)

text \<open>
  C10. Which taproot inputs are valid, with a sound signature cache or none: those whose witness, without
  a last item that is an annex (of two items or more, the last one begins with \<open>0x50\<close>), is one Schnorr signature by the output key over the signature hash of the transaction, and
  those that reveal a leaf of the base version with a control block that commits the output key to it,
  where the leaf executed on the other witness items leaves one true item on the stack.\<close>

theorem taproot_spend_iff:
  assumes "crypto_ok C" "spends prevOuts tx idx w" "length key = 32" "case cache of None \<Rightarrow> True | Some c \<Rightarrow> sig_cache_sound C c"
  shows "(\<exists>vm. sbind (NewEngine (OP_1 # OP_DATA_32 # key) tx idx cache hashes amount prevOuts) (Execute C pick) = Inr vm) \<longleftrightarrow>
    (\<exists>sig. without_annex w = [sig] \<and> key_spend_signed C key sig tx idx prevOuts hashes (annex_of w)) \<or>
    (\<exists>items script blk cb. without_annex w = items @ [script, blk] \<and>
       ParseControlBlock C blk = Inr cb \<and> cb_LeafVersion cb = BaseLeafVersion \<and> VerifyTaprootLeafCommitment C cb key script = Inr () \<and>
       leaf_accepts C pick (leaf_vm C OP_1 key tx idx cache hashes amount prevOuts w script items) script items)"
  using taproot_validation [OF assms, of pick hashes amount] by (simp only: validate_input_def strip_without fst_conv)

theorem taproot_spend_iff_witness:
  "\<exists>sig vm. sbind (NewEngine (OP_1 # OP_DATA_32 # replicate 32 7) (spend_tx [sig]) 0 None (sample_sighashes zeroHash) 5 (p2mr_fetcher 5))
     (Execute sample_crypto (\<lambda>_. 0)) = Inr vm"
proof -
  obtain h where h: "length h = 32"
    "\<And>w. calcTaprootSignatureHashRaw sample_crypto (sample_sighashes zeroHash) 0 (spend_tx w) 0 (p2mr_fetcher 5) [] = Inr h"
    using spend_tx_sighash [of "sample_sighashes zeroHash" "p2mr_fetcher 5"] by blast
  let ?sig = "h @ replicate 32 0"
  have sp: "spends (p2mr_fetcher 5) (spend_tx [?sig]) 0 [?sig]"
    by (rule spend_tx_spends) (simp add: h TxWitness_SerializeSize_def VarIntSerializeSize_def)
  have "key_spend_signed sample_crypto (replicate 32 7) ?sig (spend_tx [?sig]) 0 (p2mr_fetcher 5) (sample_sighashes zeroHash) None"
    using h by (simp add: key_spend_signed_def parseTaprootSigAndPubKey_def SignatureSize_def sighash_types sample_crypto_def)
  moreover have "without_annex [?sig] = [?sig]" "annex_of [?sig] = None"
    by (simp_all add: without_annex_def annex_of_def has_annex_def)
  ultimately show ?thesis
    using taproot_spend_iff [OF sample_crypto_ok sp, of "replicate 32 7" None "sample_sighashes zeroHash" 5 "\<lambda>_. 0"] by auto
qed

text \<open>
  C11. Which pay-to-merkle-root inputs are valid: those that reveal a leaf of the base version and an
  inclusion proof that leads from the leaf to the root of the output as the last two items before the annex, if there is one, where the leaf
  executed on the items below them leaves one true item on the stack. There is no key path.\<close>

theorem merkle_root_spend_iff:
  assumes "crypto_ok C" "spends prevOuts tx idx w" "length root = 32"
  shows "(\<exists>vm. sbind (NewEngine (OP_2 # OP_DATA_32 # root) tx idx cache hashes amount prevOuts) (Execute C pick) = Inr vm) \<longleftrightarrow>
    (\<exists>items script cb. without_annex w = items @ [script, MerkleRoot_ToBytes cb] \<and>
       mcb_LeafVersion cb = BaseLeafVersion \<and> 32 dvd length (mcb_InclusionProof cb) \<and> length (mcb_InclusionProof cb) \<le> 32 * 128 \<and>
       computeMerkleRootFromProof C BaseLeafVersion (mcb_InclusionProof cb) script = root \<and>
       leaf_accepts C pick (leaf_vm C OP_2 root tx idx cache hashes amount prevOuts w script items) script items)"
  using merkle_root_validation [OF assms, of pick cache hashes amount] by (simp only: validate_input_def strip_without fst_conv)

theorem merkle_root_spend_iff_witness:
  "\<exists>vm. sbind (NewEngine (OP_2 # OP_DATA_32 # computeMerkleRootFromProof sample_crypto BaseLeafVersion [] [])
     (spend_tx [[1], [], [0xc1]]) 0 None (sample_sighashes zeroHash) 5 (p2mr_fetcher 5)) (Execute sample_crypto (\<lambda>_. 0)) = Inr vm"
proof -
  let ?root = "computeMerkleRootFromProof sample_crypto BaseLeafVersion [] []"
  let ?cb = "\<lparr>mcb_LeafVersion = BaseLeafVersion, mcb_InclusionProof = []\<rparr>"
  have root: "length ?root = 32"
    by (simp add: computeMerkleRootFromProof_def TapLeaf_TapHash_def TaggedHash_length [OF sample_crypto_ok])
  have sp: "spends (p2mr_fetcher 5) (spend_tx [[1], [], [0xc1]]) 0 [[1], [], [0xc1]]"
    by (rule spend_tx_spends) (simp add: TxWitness_SerializeSize_def VarIntSerializeSize_def)
  have "without_annex [[1], [], [0xc1]] = [[1]] @ [[], MerkleRoot_ToBytes ?cb]"
    by (simp add: without_annex_def has_annex_def MerkleRoot_ToBytes_def BaseLeafVersion_def)
  moreover have "leaf_accepts sample_crypto (\<lambda>_. 0) (leaf_vm sample_crypto OP_2 ?root (spend_tx [[1], [], [0xc1]]) 0 None (sample_sighashes zeroHash)
      5 (p2mr_fetcher 5) [[1], [], [0xc1]] [] [[1]]) [] [[1]]"
    using parse_stop [of "[]"] by (simp add: leaf_accepts_def leaf_vm_def MaxScriptElementSize_def)
  ultimately show ?thesis
    using merkle_root_spend_iff [OF sample_crypto_ok sp root, of None "sample_sighashes zeroHash" 5 "\<lambda>_. 0"] by fastforce
qed

text \<open>
  Every other witness program is unspendable: an output of another version or another size fails
  with the same error whatever the witness is.\<close>

lemma unknown_witness_program:
  assumes "crypto_ok C" "spends prevOuts tx idx w" "IsSmallInt op" "2 \<le> length p" "length p \<le> 40" "\<not> (op \<in> {OP_1, OP_2} \<and> length p = 32)"
  shows "sbind (NewEngine (op # word_of_nat (length p) # p) tx idx cache hashes amount prevOuts) (Execute C pick) =
    Inl (scriptError ErrDiscourageUpgradableWitnessProgram)"
  using unknown_program [OF assms] by (simp only: validate_input_def)

lemma unknown_witness_program_example:
  "sbind (NewEngine (OP_0 # OP_DATA_20 # replicate 20 3) (spend_tx [[1]]) 0 None (sample_sighashes zeroHash) 5 (p2mr_fetcher 5))
     (Execute sample_crypto (\<lambda>_. 0)) = Inl (scriptError ErrDiscourageUpgradableWitnessProgram)"
proof -
  have "spends (p2mr_fetcher 5) (spend_tx [[1]]) 0 [[1]]"
    by (rule spend_tx_spends) (simp add: TxWitness_SerializeSize_def VarIntSerializeSize_def)
  from unknown_witness_program [OF sample_crypto_ok this, of OP_0 "replicate 20 3" None "sample_sighashes zeroHash" 5 "\<lambda>_. 0"]
  show ?thesis by (simp add: IsSmallInt_def)
qed

end
