(* ===== verification/Script_Checks.thy ===== *)
theory Script_Checks
  imports Script_Machine
begin

text \<open>
  What the opcodes that carry the spending rules compute: the signature checks with their budget, the
  hash-based signature check, and the arithmetic on script numbers.
\<close>

subsection \<open>Schnorr signatures\<close>

text \<open>A signature over the tapscript message of the running machine.\<close>

definition tapscript_signed :: "crypto \<Rightarrow> Engine \<Rightarrow> bytes \<Rightarrow> bytes \<Rightarrow> bool" where
  "tapscript_signed C vm pkBytes rawSig \<longleftrightarrow>
     (\<exists>pk sig hashType sigHash. parseTaprootSigAndPubKey C pkBytes rawSig = Inr (pk, sig, hashType) \<and>
        CalcTapscriptSigHash C vm (vm_hashCache vm) hashType (vm_tx vm) (vm_txIdx vm) (vm_prevOutFetcher vm) = Inr sigHash \<and>
        c_VerifySig C sig sigHash pk)"

definition cache_sound :: "crypto \<Rightarrow> SigCache option \<Rightarrow> bool" where
  "cache_sound C cache \<longleftrightarrow> (case cache of None \<Rightarrow> True | Some c \<Rightarrow> sig_cache_sound C c)"

lemma charged_signed:
  assumes "vm_tapscriptCtx vm = Some ctx"
  shows "tapscript_signed C (vm\<lparr>vm_dstack := s, vm_tapscriptCtx := Some (ctx\<lparr>ctx_opsBudget := b\<rparr>)\<rparr>) pk sig = tapscript_signed C vm pk sig"
  using assms by (simp add: tapscript_signed_def CalcTapscriptSigHash_def)

lemma tapscript_verdict:
  assumes "engine_ok n vm" "vm_tapscriptCtx vm \<noteq> None" "cache_sound C (vm_sigCache vm)" "pk \<noteq> []"
    and r_def: "r = sbind (newBaseTapscriptSigVerifier C pk sig vm) (\<lambda>b. tapscript_Verify C pick b vm)"
  shows "(\<exists>vm'. r = Inr (True, vm')) \<longleftrightarrow> length pk = 32 \<and> tapscript_signed C vm pk sig"
    "r = Inr (v, vm') \<Longrightarrow> \<exists>c. vm' = vm\<lparr>vm_sigCache := c\<rparr> \<and> cache_sound C c"
proof -
  obtain ctx where ctx: "vm_tapscriptCtx vm = Some ctx" using assms(2) by blast
  let ?new = "newTaprootSigVerifier C pk sig (vm_tx vm) (vm_txIdx vm) (vm_prevOutFetcher vm) (vm_hashCache vm) (ctx_annex ctx)"
  have verdict: "fst (verifySig C pick b h (vm_sigCache vm)) = c_VerifySig C (v_sig b) h (v_pubKey b)"
    "cache_sound C (snd (verifySig C pick b h (vm_sigCache vm)))" if "?new = Inr b" for b h
    using verifySig_transparent [OF that, of "vm_sigCache vm" pick h] assms(3) by (auto simp: cache_sound_def split: option.splits)
  have np: "CalcTapscriptSigHash C vm hc h (vm_tx vm) (vm_txIdx vm) (vm_prevOutFetcher vm) \<noteq> Inl goPanic" for hc h
    by (rule tapscript_hash_no_panic [OF assms(1)])
  show "(\<exists>vm'. r = Inr (True, vm')) \<longleftrightarrow> length pk = 32 \<and> tapscript_signed C vm pk sig"
  proof (cases "parseTaprootSigAndPubKey C pk sig")
    case (Inl e)
    then show ?thesis using assms(4) ctx by (simp add: r_def newBaseTapscriptSigVerifier_def newTaprootSigVerifier_def tapscript_signed_def)
  next
    case (Inr p)
    then obtain k s ht where p: "parseTaprootSigAndPubKey C pk sig = Inr (k, s, ht)" by (cases p) simp
    then obtain b where b: "?new = Inr b" "v_sig b = s" "v_pubKey b = k" "v_hashType b = ht" "v_hashCache b = vm_hashCache vm"
      "v_tx b = vm_tx vm" "v_inputIndex b = vm_txIdx vm" "v_prevOuts b = vm_prevOutFetcher vm"
      by (simp add: newTaprootSigVerifier_def)
    show ?thesis
    proof (cases "CalcTapscriptSigHash C vm (vm_hashCache vm) ht (vm_tx vm) (vm_txIdx vm) (vm_prevOutFetcher vm)")
      case (Inl e)
      then show ?thesis using np [of "vm_hashCache vm" ht] p b assms(4) ctx
        by (simp add: r_def newBaseTapscriptSigVerifier_def tapscript_Verify_def tapscript_signed_def)
    next
      case (Inr h)
      then show ?thesis using p b assms(4) ctx verdict(1) [OF b(1), of h]
        by (simp add: r_def newBaseTapscriptSigVerifier_def tapscript_Verify_def tapscript_signed_def case_prod_unfold)
    qed
  qed
  show "\<exists>c. vm' = vm\<lparr>vm_sigCache := c\<rparr> \<and> cache_sound C c" if r: "r = Inr (v, vm')"
  proof -
    obtain b where b: "newBaseTapscriptSigVerifier C pk sig vm = Inr b" "tapscript_Verify C pick b vm = Inr (v, vm')"
      using r unfolding r_def by (auto simp: sbind_eq_Inr)
    have new: "?new = Inr b" using b(1) ctx by (auto simp: newBaseTapscriptSigVerifier_def split: if_splits)
    have "vm' = vm \<or> (\<exists>h. vm' = vm\<lparr>vm_sigCache := snd (verifySig C pick b h (vm_sigCache vm))\<rparr>)"
      using b(2) by (auto simp: tapscript_Verify_def case_prod_unfold Let_def split: sum.splits if_splits)
    then show ?thesis using verdict(2) [OF new] assms(3) by (metis Engine.surjective Engine.update_convs(4))
  qed
qed

lemma on_dstack_push [simp]:
  "on_dstack (\<lambda>s. Inr (PushByteArray x s)) vm = Inr (vm\<lparr>vm_dstack := PushByteArray x (vm_dstack vm)\<rparr>)"
  "on_dstack (\<lambda>s. Inr (PushBool b s)) vm = Inr (vm\<lparr>vm_dstack := PushByteArray (fromBool b) (vm_dstack vm)\<rparr>)"
  by (simp_all add: on_dstack_def PushBool_def)

lemma checksig_pops:
  assumes "engine_ok 1000 vm" "vm_tapscriptCtx vm = Some ctx" "stk (vm_dstack vm) = rest @ [sig, pk]"
  shows "opcodeCheckSig C pick op data vm =
    sbind (if sig \<noteq> [] then (if 50 \<le> ctx_opsBudget ctx then Inr (ctx\<lparr>ctx_opsBudget := ctx_opsBudget ctx - 50\<rparr>)
           else Inl (scriptError ErrTaprootMaxSigOps)) else Inr ctx) (\<lambda>ctx.
      let vm = vm\<lparr>vm_dstack := vm_dstack vm\<lparr>stk := rest\<rparr>, vm_tapscriptCtx := Some ctx\<rparr>
      in if pk = [] then Inl (scriptError ErrTaprootPubkeyIsEmpty)
         else if sig = [] then Inr (vm\<lparr>vm_dstack := PushByteArray [] (vm_dstack vm)\<rparr>)
         else sbind (sbind (newBaseTapscriptSigVerifier C pk sig vm) (\<lambda>b. tapscript_Verify C pick b vm)) (\<lambda>(valid, vm).
           if \<not> valid then Inl (scriptError ErrNullFail) else Inr (vm\<lparr>vm_dstack := PushByteArray (fromBool valid) (vm_dstack vm)\<rparr>)))"
proof -
  have len: "length rest < 2 ^ 31 - 2" using assms(1,3) by (simp add: engine_ok_def stack_ok_def)
  have p1: "PopByteArray (vm_dstack vm) = Inr (pk, vm_dstack vm\<lparr>stk := rest @ [sig]\<rparr>)"
    using len assms(3) by (intro PopByteArray_snoc) simp_all
  have p2: "PopByteArray (vm_dstack vm\<lparr>stk := rest @ [sig]\<rparr>) = Inr (sig, vm_dstack vm\<lparr>stk := rest\<rparr>)"
    using len by (subst PopByteArray_snoc [of _ rest]) simp_all
  have t: "tallysigOp ctx = (if 50 \<le> ctx_opsBudget ctx then Inr (ctx\<lparr>ctx_opsBudget := ctx_opsBudget ctx - 50\<rparr>) else Inl (scriptError ErrTaprootMaxSigOps))"
    using tallyOpCost_iff [of ctx 50] engine_ok_budget [OF assms(1,2)] by (simp add: tallysigOp_def sigOpsDelta_def)
  show ?thesis
    by (simp add: opcodeCheckSig_def p1 p2 assms(2) t Let_def sbind_assoc case_prod_unfold cong: if_cong)
qed

lemma checksig_correct:
  assumes "engine_ok 1000 vm" "vm_tapscriptCtx vm = Some ctx" "stk (vm_dstack vm) = rest @ [sig, pk]" "cache_sound C (vm_sigCache vm)"
  shows "(\<exists>vm'. opcodeCheckSig C pick op data vm = Inr vm') \<longleftrightarrow>
      pk \<noteq> [] \<and> (sig = [] \<or> 50 \<le> budget vm \<and> length pk = 32 \<and> tapscript_signed C vm pk sig)"
    "opcodeCheckSig C pick op data vm = Inr vm' \<Longrightarrow>
      stk (vm_dstack vm') = rest @ [if sig = [] then [] else [1]] \<and> budget vm' = budget vm - (if sig = [] then 0 else 50) \<and>
      cache_sound C (vm_sigCache vm')"
proof -
  define vm1 where "vm1 = vm\<lparr>vm_dstack := vm_dstack vm\<lparr>stk := rest\<rparr>, vm_tapscriptCtx := Some (ctx\<lparr>ctx_opsBudget := ctx_opsBudget ctx - 50\<rparr>)\<rparr>"
  let ?r = "sbind (newBaseTapscriptSigVerifier C pk sig vm1) (\<lambda>b. tapscript_Verify C pick b vm1)"
  have b: "budget vm = ctx_opsBudget ctx" using assms(2) by (simp add: budget_def)
  have fail: "opcodeCheckSig C pick op data vm = Inl (scriptError ErrTaprootPubkeyIsEmpty)" if "pk = []" "sig = [] \<or> 50 \<le> budget vm"
    using that b checksig_pops [OF assms(1-3), of C pick op data] by auto
  have over: "opcodeCheckSig C pick op data vm = Inl (scriptError ErrTaprootMaxSigOps)" if "sig \<noteq> []" "budget vm < 50"
    using that b checksig_pops [OF assms(1-3), of C pick op data] by auto
  have empty: "opcodeCheckSig C pick op data vm = Inr (vm\<lparr>vm_dstack := vm_dstack vm\<lparr>stk := rest @ [[]]\<rparr>, vm_tapscriptCtx := Some ctx\<rparr>)"
    if "sig = []" "pk \<noteq> []"
    using that checksig_pops [OF assms(1-3), of C pick op data] by (simp add: PushByteArray_def Let_def)
  have sig: "opcodeCheckSig C pick op data vm = sbind ?r (\<lambda>(valid, vm).
      if \<not> valid then Inl (scriptError ErrNullFail) else Inr (vm\<lparr>vm_dstack := PushByteArray (fromBool valid) (vm_dstack vm)\<rparr>))"
    if "sig \<noteq> []" "pk \<noteq> []" "50 \<le> budget vm"
    using that b checksig_pops [OF assms(1-3), of C pick op data] by (simp add: vm1_def Let_def)
  have vm1: "engine_ok 1000 vm1" "vm_tapscriptCtx vm1 \<noteq> None" "cache_sound C (vm_sigCache vm1)" if "50 \<le> budget vm"
    using assms b that by (auto simp: vm1_def engine_ok_def budget_def stack_ok_def)
  note verdict = tapscript_verdict [OF vm1 _ refl, of pk sig pick]
  have signed: "tapscript_signed C vm1 pk sig = tapscript_signed C vm pk sig"
    unfolding vm1_def by (rule charged_signed [OF assms(2)])
  show "(\<exists>vm'. opcodeCheckSig C pick op data vm = Inr vm') \<longleftrightarrow>
      pk \<noteq> [] \<and> (sig = [] \<or> 50 \<le> budget vm \<and> length pk = 32 \<and> tapscript_signed C vm pk sig)"
  proof (cases "sig = [] \<or> pk = [] \<or> budget vm < 50")
    case True
    then show ?thesis using fail over empty by (cases "sig = []"; cases "pk = []"; cases "budget vm < 50") auto
  next
    case False
    then have c: "sig \<noteq> []" "pk \<noteq> []" "50 \<le> budget vm" by auto
    have "(\<exists>vm'. opcodeCheckSig C pick op data vm = Inr vm') \<longleftrightarrow> (\<exists>vm'. ?r = Inr (True, vm'))"
      unfolding sig [OF c] by (cases ?r) (auto split: if_splits)
    then show ?thesis using verdict(1) [OF c(3,3,3,2)] signed c by simp
  qed
  show "stk (vm_dstack vm') = rest @ [if sig = [] then [] else [1]] \<and> budget vm' = budget vm - (if sig = [] then 0 else 50) \<and>
      cache_sound C (vm_sigCache vm')" if ok: "opcodeCheckSig C pick op data vm = Inr vm'"
  proof (cases "sig = []")
    case True
    then have "pk \<noteq> []" using ok fail by auto
    with ok empty True assms(4) b show ?thesis by (auto simp: budget_def)
  next
    case False
    then have c: "50 \<le> budget vm" "pk \<noteq> []" using ok over fail by (cases "budget vm < 50"; auto)+
    obtain vm2 where vm2: "?r = Inr (True, vm2)" "vm' = vm2\<lparr>vm_dstack := PushByteArray [1] (vm_dstack vm2)\<rparr>"
      using ok sig [OF False c(2,1)] by (cases ?r) (auto simp: fromBool_def split: if_splits)
    with verdict(2) [OF c(1,1,1,2) vm2(1)] False b show ?thesis by (auto simp: vm1_def budget_def)
  qed
qed

subsection \<open>Hash-based signatures\<close>

lemma popChunks_split:
  assumes "stk s = rest @ cs" "length rest + length cs < 2 ^ 31"
  shows "popChunks (length cs) acc s = Inr (cs @ acc, s\<lparr>stk := rest\<rparr>)"
  using assms
proof (induction cs arbitrary: s acc rule: rev_induct)
  case Nil
  then show ?case by (simp add: stk_update_id)
next
  case (snoc c cs)
  have "PopByteArray s = Inr (c, s\<lparr>stk := rest @ cs\<rparr>)"
    using snoc.prems by (intro PopByteArray_snoc) simp_all
  then show ?case using snoc.IH [of "s\<lparr>stk := rest @ cs\<rparr>" "c # acc"] snoc.prems by simp
qed

lemma copy_array_id: "length src = n \<Longrightarrow> copy_array n src = src"
  by (simp add: copy_array_def)

lemma default_sighash:
  assumes "crypto_ok C" "engine_ok n vm" "vm_tapscriptCtx vm \<noteq> None"
  obtains h where "CalcTapscriptSigHash C vm hc SigHashDefault (vm_tx vm) (vm_txIdx vm) (vm_prevOutFetcher vm) = Inr h" "length h = 32"
proof -
  have "go_index (tx_TxIn (vm_tx vm)) (vm_txIdx vm) = Inr (tx_TxIn (vm_tx vm) ! nat (vm_txIdx vm))" "vm_txIdx vm < int (length (tx_TxIn (vm_tx vm)))"
    using assms(2) by (simp_all add: engine_ok_def go_index_def)
  then show thesis using assms(3) that TaggedHash_length [OF assms(1)]
    by (auto simp: CalcTapscriptSigHash_def calcTaprootSignatureHashRaw_def Let_def isValidTaprootSigHash_def sighash_types)
qed

lemma concat_chunks: "\<forall>c \<in> set cs. length c = n \<Longrightarrow> length (concat cs) = length cs * n"
  by (induction cs) auto

lemma checkxmss_correct:
  assumes "crypto_ok C" "engine_ok 1000 vm" "vm_tapscriptCtx vm = Some ctx" "stk (vm_dstack vm) = rest @ chunks @ [pk]" "length chunks = 5"
    "CalcTapscriptSigHash C vm (vm_hashCache vm) SigHashDefault (vm_tx vm) (vm_txIdx vm) (vm_prevOutFetcher vm) = Inr h" "length h = 32"
  shows "opcodeCheckXmssSig C op data vm =
    (if length pk \<noteq> 64 \<or> (\<exists>c \<in> set chunks. length c \<noteq> 468) then Inr (vm\<lparr>vm_dstack := vm_dstack vm\<lparr>stk := rest @ [[]]\<rparr>\<rparr>)
     else if budget vm < 1000 then Inl (scriptError ErrTaprootMaxSigOps)
     else if c_VerifyXMSS C pk h (concat chunks)
     then Inr (vm\<lparr>vm_dstack := vm_dstack vm\<lparr>stk := rest @ [[1]]\<rparr>, vm_tapscriptCtx := Some (ctx\<lparr>ctx_opsBudget := ctx_opsBudget ctx - 1000\<rparr>)\<rparr>)
     else Inl (scriptError ErrNullFail))"
proof -
  have len: "length rest + 6 < 2 ^ 31" using assms(2,4,5) by (simp add: engine_ok_def stack_ok_def)
  have p1: "PopByteArray (vm_dstack vm) = Inr (pk, vm_dstack vm\<lparr>stk := rest @ chunks\<rparr>)"
    using len assms(4,5) by (intro PopByteArray_snoc) simp_all
  have p2: "popChunks 5 [] (vm_dstack vm\<lparr>stk := rest @ chunks\<rparr>) = Inr (chunks, vm_dstack vm\<lparr>stk := rest\<rparr>)"
    using popChunks_split [of "vm_dstack vm\<lparr>stk := rest @ chunks\<rparr>" rest chunks "[]"] len assms(5) by simp
  have b: "budget vm = ctx_opsBudget ctx" using assms(3) by (simp add: budget_def)
  have t: "tallyOpCost 1000 ctx = (if 1000 \<le> budget vm then Inr (ctx\<lparr>ctx_opsBudget := ctx_opsBudget ctx - 1000\<rparr>) else Inl (scriptError ErrTaprootMaxSigOps))"
    using tallyOpCost_iff [of ctx 1000] engine_ok_budget [OF assms(2,3)] b by simp
  have h: "CalcTapscriptSigHash C (vm\<lparr>vm_dstack := s, vm_tapscriptCtx := Some (ctx\<lparr>ctx_opsBudget := n\<rparr>)\<rparr>) (vm_hashCache vm) SigHashDefault
      (vm_tx vm) (vm_txIdx vm) (vm_prevOutFetcher vm) = Inr h" for s n
    using assms(3,6) by (simp add: CalcTapscriptSigHash_def)
  have arrays: "copy_array PKLen pk = pk" "copy_array SignatureLen (concat chunks) = concat chunks"
    if "length pk = 64" "\<forall>c \<in> set chunks. length c = 468"
    using that concat_chunks [OF that(2)] assms(5) by (simp_all add: copy_array_id PKLen_def SignatureLen_def)
  have chunk: "sigChunkSize = 468" "numSigChunks = 5" by (simp_all add: sigChunkSize_def SignatureLen_def numSigChunks_def)
  show ?thesis
    by (auto simp: opcodeCheckXmssSig_def assms(3) p1 p2 t h arrays chunk Let_def PushByteArray_def fromBool_def on_dstack_def PushBool_def
        PKLen_def MsgLen_def copy_array_id assms(7) not_le)
qed

lemma popChunks_underflow: "length (stk s) < n \<Longrightarrow> n \<le> 5 \<Longrightarrow> popChunks n cs s = Inl (scriptError ErrInvalidStackOperation)"
proof (induction n arbitrary: cs s)
  case (Suc n)
  show ?case
  proof (cases "stk s" rule: rev_cases)
    case Nil
    then show ?thesis using PopByteArray_empty [of s] by simp
  next
    case (snoc xs x)
    then show ?thesis using Suc by simp
  qed
qed simp

lemma checkxmss_underflow:
  assumes "vm_tapscriptCtx vm \<noteq> None" "length (stk (vm_dstack vm)) < 6"
  shows "opcodeCheckXmssSig C op data vm = Inl (scriptError ErrInvalidStackOperation)"
proof (cases "stk (vm_dstack vm)" rule: rev_cases)
  case Nil
  then show ?thesis using assms(1) by (auto simp: opcodeCheckXmssSig_def)
next
  case (snoc xs x)
  then have "popChunks numSigChunks [] (vm_dstack vm\<lparr>stk := xs\<rparr>) = Inl (scriptError ErrInvalidStackOperation)"
    using assms(2) by (intro popChunks_underflow) (simp_all add: numSigChunks_def)
  then show ?thesis using assms snoc by (auto simp: opcodeCheckXmssSig_def)
qed

subsection \<open>Arithmetic\<close>

text \<open>A number as the machine keeps it on the stack: at most four bytes, minimally encoded.\<close>

definition numeric :: "int \<Rightarrow> bytes \<Rightarrow> bool" where
  "numeric v x \<longleftrightarrow> \<bar>v\<bar> < 2 ^ 31 \<and> scriptNum_Bytes v = Inr x"

text \<open>The numeric opcodes with two operands, on integers; \<open>b\<close> is the top item.\<close>

definition binary_ops :: "(byte \<times> (int \<Rightarrow> int \<Rightarrow> int)) list" where
  "binary_ops =
     [(OP_ADD, \<lambda>a b. a + b), (OP_SUB, \<lambda>a b. a - b),
      (OP_BOOLAND, \<lambda>a b. if a \<noteq> 0 \<and> b \<noteq> 0 then 1 else 0), (OP_BOOLOR, \<lambda>a b. if a \<noteq> 0 \<or> b \<noteq> 0 then 1 else 0),
      (OP_NUMEQUAL, \<lambda>a b. if a = b then 1 else 0), (OP_NUMNOTEQUAL, \<lambda>a b. if a \<noteq> b then 1 else 0),
      (OP_LESSTHAN, \<lambda>a b. if a < b then 1 else 0), (OP_GREATERTHAN, \<lambda>a b. if a > b then 1 else 0),
      (OP_LESSTHANOREQUAL, \<lambda>a b. if a \<le> b then 1 else 0), (OP_GREATERTHANOREQUAL, \<lambda>a b. if a \<ge> b then 1 else 0),
      (OP_MIN, min), (OP_MAX, max)]"

definition unary_ops :: "(byte \<times> (int \<Rightarrow> int)) list" where
  "unary_ops =
     [(OP_1ADD, \<lambda>a. a + 1), (OP_1SUB, \<lambda>a. a - 1), (OP_NEGATE, \<lambda>a. - a), (OP_ABS, abs),
      (OP_NOT, \<lambda>a. if a = 0 then 1 else 0), (OP_0NOTEQUAL, \<lambda>a. if a \<noteq> 0 then 1 else 0)]"

lemma numeric_pop:
  assumes "numeric v x" "stk s = xs @ [x]" "verifyMinimalData s" "length xs < 2 ^ 31 - 1"
  shows "PopInt s = Inr (v, s\<lparr>stk := xs\<rparr>)"
proof -
  have v: "- (2 ^ 63) < v" "v < 2 ^ 63" "\<bar>v\<bar> < 2 ^ (8 * 4 - 1)" using assms(1) by (auto simp: numeric_def)
  then obtain x' where "scriptNum_Bytes v = Inr x'" "sm_val x' = v" "checkMinimalDataEncoding x' = Inr ()"
    using scriptNum_Bytes_sm_val by blast
  then have "sm_val x = v" "checkMinimalDataEncoding x = Inr ()" "length x \<le> 4"
    using assms(1) minimal_length [of x 4] v(3) by (auto simp: numeric_def)
  then have "MakeScriptNum x True 4 = Inr v" by (simp add: MakeScriptNum_minimal)
  with assms show ?thesis by (simp add: PopInt_snoc)
qed

lemma numeric_push:
  assumes "\<bar>v\<bar> < 2 ^ 63"
  obtains z where "scriptNum_Bytes v = Inr z" "PushInt v s = Inr (s\<lparr>stk := stk s @ [z]\<rparr>)"
  using scriptNum_Bytes_total [of v] assms by (auto simp: PushInt_def PushByteArray_def abs_less_iff)

lemma int_ops:
  assumes "verifyMinimalData (vm_dstack vm)" "length rest < 2 ^ 31 - 2"
  shows "numeric a x \<Longrightarrow> stk (vm_dstack vm) = rest @ [x] \<Longrightarrow> \<bar>f a\<bar> < 2 ^ 63 \<Longrightarrow>
      \<exists>z. scriptNum_Bytes (f a) = Inr z \<and> int_op1 f vm = Inr (vm\<lparr>vm_dstack := vm_dstack vm\<lparr>stk := rest @ [z]\<rparr>\<rparr>)"
    "numeric a x \<Longrightarrow> numeric b y \<Longrightarrow> stk (vm_dstack vm) = rest @ [x, y] \<Longrightarrow> \<bar>g b a\<bar> < 2 ^ 63 \<Longrightarrow>
      \<exists>z. scriptNum_Bytes (g b a) = Inr z \<and> int_op2 g vm = Inr (vm\<lparr>vm_dstack := vm_dstack vm\<lparr>stk := rest @ [z]\<rparr>\<rparr>)"
proof -
  assume x: "numeric a x"
  show "\<exists>z. scriptNum_Bytes (f a) = Inr z \<and> int_op1 f vm = Inr (vm\<lparr>vm_dstack := vm_dstack vm\<lparr>stk := rest @ [z]\<rparr>\<rparr>)"
    if s: "stk (vm_dstack vm) = rest @ [x]" "\<bar>f a\<bar> < 2 ^ 63"
  proof -
    obtain z where "scriptNum_Bytes (f a) = Inr z" "PushInt (f a) (vm_dstack vm\<lparr>stk := rest\<rparr>) = Inr (vm_dstack vm\<lparr>stk := rest @ [z]\<rparr>)"
      using numeric_push [OF s(2), of "vm_dstack vm\<lparr>stk := rest\<rparr>"] by auto
    moreover have "PopInt (vm_dstack vm) = Inr (a, vm_dstack vm\<lparr>stk := rest\<rparr>)"
      by (rule numeric_pop [OF x s(1) assms(1)]) (use assms(2) in simp)
    ultimately show ?thesis by (simp add: int_op1_def on_dstack_def)
  qed
  show "\<exists>z. scriptNum_Bytes (g b a) = Inr z \<and> int_op2 g vm = Inr (vm\<lparr>vm_dstack := vm_dstack vm\<lparr>stk := rest @ [z]\<rparr>\<rparr>)"
    if y: "numeric b y" "stk (vm_dstack vm) = rest @ [x, y]" "\<bar>g b a\<bar> < 2 ^ 63"
  proof -
    obtain z where "scriptNum_Bytes (g b a) = Inr z" "PushInt (g b a) (vm_dstack vm\<lparr>stk := rest\<rparr>) = Inr (vm_dstack vm\<lparr>stk := rest @ [z]\<rparr>)"
      using numeric_push [OF y(3), of "vm_dstack vm\<lparr>stk := rest\<rparr>"] by auto
    moreover have "PopInt (vm_dstack vm) = Inr (b, vm_dstack vm\<lparr>stk := rest @ [x]\<rparr>)"
      by (rule numeric_pop [OF y(1) _ assms(1)]) (use y(2) assms(2) in simp_all)
    moreover have "PopInt (vm_dstack vm\<lparr>stk := rest @ [x]\<rparr>) = Inr (a, vm_dstack vm\<lparr>stk := rest\<rparr>)"
      using numeric_pop [OF x, of "vm_dstack vm\<lparr>stk := rest @ [x]\<rparr>" rest] assms by simp
    ultimately show ?thesis by (simp add: int_op2_def on_dstack_def)
  qed
qed

text \<open>The handlers of the numeric opcodes, and that they stay within 64 bits.\<close>

lemma numeric_table:
  "opfunc C pick OP_1ADD = (\<lambda>op data. int_op1 (\<lambda>m. int64_of (m + 1)))"
  "opfunc C pick OP_1SUB = (\<lambda>op data. int_op1 (\<lambda>m. int64_of (m - 1)))"
  "opfunc C pick OP_NEGATE = (\<lambda>op data. int_op1 (\<lambda>m. int64_of (- m)))"
  "opfunc C pick OP_ABS = (\<lambda>op data. int_op1 (\<lambda>m. if m < 0 then int64_of (- m) else m))"
  "opfunc C pick OP_NOT = (\<lambda>op data. int_op1 (\<lambda>m. if m = 0 then 1 else 0))"
  "opfunc C pick OP_0NOTEQUAL = (\<lambda>op data. int_op1 (\<lambda>m. if m \<noteq> 0 then 1 else m))"
  "opfunc C pick OP_ADD = (\<lambda>op data. int_op2 (\<lambda>v0 v1. int64_of (v0 + v1)))"
  "opfunc C pick OP_SUB = (\<lambda>op data. int_op2 (\<lambda>v0 v1. int64_of (v1 - v0)))"
  "opfunc C pick OP_BOOLAND = (\<lambda>op data. int_op2 (\<lambda>v0 v1. if v0 \<noteq> 0 \<and> v1 \<noteq> 0 then 1 else 0))"
  "opfunc C pick OP_BOOLOR = (\<lambda>op data. int_op2 (\<lambda>v0 v1. if v0 \<noteq> 0 \<or> v1 \<noteq> 0 then 1 else 0))"
  "opfunc C pick OP_NUMEQUAL = (\<lambda>op data. int_op2 (\<lambda>v0 v1. if v0 = v1 then 1 else 0))"
  "opfunc C pick OP_NUMNOTEQUAL = (\<lambda>op data. int_op2 (\<lambda>v0 v1. if v0 \<noteq> v1 then 1 else 0))"
  "opfunc C pick OP_LESSTHAN = (\<lambda>op data. int_op2 (\<lambda>v0 v1. if v1 < v0 then 1 else 0))"
  "opfunc C pick OP_GREATERTHAN = (\<lambda>op data. int_op2 (\<lambda>v0 v1. if v1 > v0 then 1 else 0))"
  "opfunc C pick OP_LESSTHANOREQUAL = (\<lambda>op data. int_op2 (\<lambda>v0 v1. if v1 \<le> v0 then 1 else 0))"
  "opfunc C pick OP_GREATERTHANOREQUAL = (\<lambda>op data. int_op2 (\<lambda>v0 v1. if v1 \<ge> v0 then 1 else 0))"
  "opfunc C pick OP_MIN = (\<lambda>op data. int_op2 (\<lambda>v0 v1. if v1 < v0 then v1 else v0))"
  "opfunc C pick OP_MAX = (\<lambda>op data. int_op2 (\<lambda>v0 v1. if v1 > v0 then v1 else v0))"
  by (simp_all add: opfunc_def opcodeHandlers_def fun_eq_iff opcode1Add_def opcode1Sub_def opcodeNegate_def opcodeAbs_def opcodeNot_def
      opcode0NotEqual_def opcodeAdd_def opcodeSub_def opcodeBoolAnd_def opcodeBoolOr_def opcodeNumEqual_def opcodeNumNotEqual_def
      opcodeLessThan_def opcodeGreaterThan_def opcodeLessThanOrEqual_def opcodeGreaterThanOrEqual_def opcodeMin_def opcodeMax_def)

lemma binary_handler:
  assumes "(b, f) \<in> set binary_ops"
  shows "\<exists>g. opfunc C pick b = (\<lambda>op data. int_op2 g) \<and>
    (\<forall>x y. \<bar>x\<bar> < 2 ^ 31 \<longrightarrow> \<bar>y\<bar> < 2 ^ 31 \<longrightarrow> g y x = f x y \<and> \<bar>f x y\<bar> < 2 ^ 63)"
proof -
  have small: "int64_of (y + x) = x + y" "int64_of (x - y) = x - y" if "\<bar>x\<bar> < 2 ^ 31" "\<bar>y\<bar> < 2 ^ 31" for x y
    using that by (subst int64_of_id; simp add: abs_less_iff)+
  from assms show ?thesis unfolding binary_ops_def
    by (simp only: list.set insert_iff empty_iff simp_thms prod.inject)
       (elim disjE conjE; hypsubst; rule exI, rule conjI, rule numeric_table; auto simp: small)
qed

lemma unary_handler:
  assumes "(b, f) \<in> set unary_ops"
  shows "\<exists>g. opfunc C pick b = (\<lambda>op data. int_op1 g) \<and> (\<forall>x. \<bar>x\<bar> < 2 ^ 31 \<longrightarrow> g x = f x \<and> \<bar>f x\<bar> < 2 ^ 63)"
proof -
  have small: "int64_of (x + 1) = x + 1" "int64_of (x - 1) = x - 1" "int64_of (- x) = - x" if "\<bar>x\<bar> < 2 ^ 31" for x
    using that by (subst int64_of_id; simp add: abs_less_iff)+
  from assms show ?thesis unfolding unary_ops_def
    by (simp only: list.set insert_iff empty_iff simp_thms prod.inject)
       (elim disjE conjE; hypsubst; rule exI, rule conjI, rule numeric_table; auto simp: small)
qed

subsection \<open>Minimal pushes\<close>

lemma minimal_push_opcode:
  assumes "x \<noteq> [0]" "length x \<le> MaxScriptElementSize"
  shows "checkMinimalDataPush (opcodeArray b) x = Inr () \<longleftrightarrow> b = fst (push_token x)"
proof (cases x rule: push_token_cases)
  case empty
  then show ?thesis using assms(1) by (auto simp: checkMinimalDataPush_def Let_def unat_eq_0)
next
  case (small v)
  have "OP_1 + v - 1 = 80 + v" by simp
  with small show ?thesis by (simp add: checkMinimalDataPush_def Let_def eq_commute [of b])
next
  case direct
  have "(length x = 1 \<and> 1 \<le> x ! 0 \<and> x ! 0 \<le> 16) = False" "(length x = 1 \<and> x ! 0 = 0x81) = False" "(length x = 0) = False" "length x \<le> 75"
    using direct by auto
  then have "checkMinimalDataPush (opcodeArray b) x = Inr () \<longleftrightarrow> unat b = length x"
    unfolding checkMinimalDataPush_def Let_def by simp
  also have "\<dots> \<longleftrightarrow> b = word_of_nat (length x)" using direct_push_op(1) [OF direct(1,2)] by (metis word_unat_eq_iff)
  finally show ?thesis using direct(4) by simp
qed (use assms in \<open>auto simp: checkMinimalDataPush_def Let_def MaxScriptElementSize_def\<close>)

lemma minimal_push_token:
  assumes "token_wf (b, d)" "b \<le> OP_PUSHDATA4" "data_bytes d \<noteq> [0]" "length (data_bytes d) \<le> MaxScriptElementSize"
  shows "checkMinimalDataPush (opcodeArray b) (data_bytes d) = Inr () \<longleftrightarrow> (b, d) = push_token (data_bytes d)"
proof -
  have "d = snd (push_token (data_bytes d))" if b: "b = fst (push_token (data_bytes d))"
  proof (cases "data_bytes d" rule: push_token_cases)
    case empty
    then show ?thesis using b assms(1) by (cases d) (auto simp: token_wf_def push_width_def)
  next
    case (small v)
    have "OP_1 \<le> b" using b small(4) small_push_op(2) [OF small(2,3)] by simp
    from order_trans [OF this assms(2)] show ?thesis by simp
  next
    case neg
    then show ?thesis using b assms(2) by simp
  qed (use b in \<open>cases d; simp add: data_bytes_def; fail\<close>)+
  then have "(b, d) = push_token (data_bytes d) \<longleftrightarrow> b = fst (push_token (data_bytes d))" by (metis fst_conv prod.collapse)
  with minimal_push_opcode [OF assms(3,4)] show ?thesis by blast
qed

subsection \<open>A concrete machine\<close>

definition sample_vm :: "int \<Rightarrow> bytes list \<Rightarrow> Engine" where
  "sample_vm b items =
     \<lparr>vm_tx = sample_tx, vm_txIdx = 0, vm_version = 0, vm_sigCache = None, vm_hashCache = sample_sighashes zeroHash,
      vm_prevOutFetcher = p2mr_fetcher 5, vm_scripts = [], vm_scriptIdx = 2, vm_opcodeIdx = 0, vm_lastCodeSep = 0,
      vm_tokenizer = MakeScriptTokenizer 0 [], vm_dstack = \<lparr>stk = items, verifyMinimalData = True\<rparr>,
      vm_astack = \<lparr>stk = [], verifyMinimalData = True\<rparr>, vm_condStack = [], vm_numOps = 0, vm_witnessVersion = 2,
      vm_witnessProgram = None, vm_inputAmount = 5,
      vm_tapscriptCtx = Some \<lparr>ctx_annex = None, ctx_codeSepPos = blankCodeSepValue, ctx_tapLeafHash = zeroHash, ctx_opsBudget = b\<rparr>\<rparr>"

lemma sample_vm_ok:
  assumes "0 \<le> b" "b < 2 ^ 31" "length items \<le> 1000" "\<forall>x \<in> set items. length x \<le> MaxScriptElementSize"
  shows "engine_ok 1000 (sample_vm b items)"
  using assms by (simp add: sample_vm_def engine_ok_def stack_ok_def budget_def sample_tx_def p2mr_fetcher_def)

subsection \<open>Properties\<close>

text \<open>
  C15. \<^verbatim>\<open>OP_CHECKSIG\<close> in a tapscript, with a sound signature cache or none. It succeeds iff the key is
  not empty and either the signature is empty, or the budget holds the 50 units of a signature check,
  the key has 32 bytes and the signature is valid for the message of the running script. The result
  pushed says which case it was, exactly a checked signature is charged, and the cache stays sound.\<close>

theorem checksig_spec:
  assumes "engine_ok 1000 vm" "vm_tapscriptCtx vm = Some ctx" "stk (vm_dstack vm) = rest @ [sig, pk]" "cache_sound C (vm_sigCache vm)"
  shows "((\<exists>vm'. opcodeCheckSig C pick op data vm = Inr vm') \<longleftrightarrow>
      pk \<noteq> [] \<and> (sig = [] \<or> 50 \<le> budget vm \<and> length pk = 32 \<and> tapscript_signed C vm pk sig)) \<and>
    (\<forall>vm'. opcodeCheckSig C pick op data vm = Inr vm' \<longrightarrow>
      stk (vm_dstack vm') = rest @ [if sig = [] then [] else [1]] \<and> budget vm' = budget vm - (if sig = [] then 0 else 50) \<and>
      cache_sound C (vm_sigCache vm'))"
  using checksig_correct [OF assms, of pick op data] by blast

theorem checksig_spec_witness:
  "\<exists>sig vm'. opcodeCheckSig sample_crypto (\<lambda>_. 0) (opcodeArray OP_CHECKSIG) [] (sample_vm 60 [[9], sig, replicate 32 4]) = Inr vm' \<and>
     stk (vm_dstack vm') = [[9], [1]] \<and> budget vm' = 10"
proof -
  have "engine_ok 1000 (sample_vm 60 [])" by (rule sample_vm_ok) simp_all
  then obtain h where h: "CalcTapscriptSigHash sample_crypto (sample_vm 60 []) (sample_sighashes zeroHash) SigHashDefault sample_tx 0 (p2mr_fetcher 5) = Inr h"
    "length h = 32"
    using default_sighash [OF sample_crypto_ok, of 1000 "sample_vm 60 []" "sample_sighashes zeroHash"] by (auto simp: sample_vm_def)
  let ?sig = "h @ replicate 32 0" and ?vm = "sample_vm 60 [[9], h @ replicate 32 0, replicate 32 4]"
  have hash: "CalcTapscriptSigHash sample_crypto ?vm (sample_sighashes zeroHash) SigHashDefault sample_tx 0 (p2mr_fetcher 5) = Inr h"
    using h(1) by (simp add: CalcTapscriptSigHash_def sample_vm_def)
  have signed: "tapscript_signed sample_crypto ?vm (replicate 32 4) ?sig"
    using hash h(2) by (simp add: tapscript_signed_def parseTaprootSigAndPubKey_def sample_crypto_def sample_vm_def SignatureSize_def)
  have ok: "engine_ok 1000 ?vm" by (rule sample_vm_ok) (simp_all add: h(2) MaxScriptElementSize_def)
  have "vm_tapscriptCtx ?vm = Some \<lparr>ctx_annex = None, ctx_codeSepPos = blankCodeSepValue, ctx_tapLeafHash = zeroHash, ctx_opsBudget = 60\<rparr>"
    "stk (vm_dstack ?vm) = [[9]] @ [?sig, replicate 32 4]" "cache_sound sample_crypto (vm_sigCache ?vm)" "budget ?vm = 60"
    by (simp_all add: sample_vm_def cache_sound_def budget_def)
  from checksig_spec [OF ok this(1-3), of "\<lambda>_. 0" "opcodeArray OP_CHECKSIG" "[]"] this(4) signed
  have "(\<exists>vm'. opcodeCheckSig sample_crypto (\<lambda>_. 0) (opcodeArray OP_CHECKSIG) [] ?vm = Inr vm') \<and>
    (\<forall>vm'. opcodeCheckSig sample_crypto (\<lambda>_. 0) (opcodeArray OP_CHECKSIG) [] ?vm = Inr vm' \<longrightarrow>
       stk (vm_dstack vm') = [[9], [1]] \<and> budget vm' = 10)" by simp
  then show ?thesis by blast
qed

text \<open>
  C16. \<^verbatim>\<open>OP_CHECKXMSSSIG\<close> in every case: outside of a tapscript it is a reserved opcode, with fewer than six items on the
  stack it fails. Otherwise the signature is the concatenation of five stack items of 468 bytes below
  a key of 64 bytes, verified over the default signature hash, which always exists. A key or chunk of
  another size pushes false without a charge, a well-formed one costs 1000 units of the budget and an
  invalid signature fails the script.\<close>

theorem checkxmss_spec:
  assumes "crypto_ok C" "engine_ok 1000 vm"
  shows "(vm_tapscriptCtx vm = None \<longrightarrow> opcodeCheckXmssSig C op data vm = Inl (scriptError ErrReservedOpcode)) \<and>
    (vm_tapscriptCtx vm \<noteq> None \<and> length (stk (vm_dstack vm)) < 6 \<longrightarrow> opcodeCheckXmssSig C op data vm = Inl (scriptError ErrInvalidStackOperation)) \<and>
    (\<forall>ctx rest chunks pk. vm_tapscriptCtx vm = Some ctx \<and> stk (vm_dstack vm) = rest @ chunks @ [pk] \<and> length chunks = 5 \<longrightarrow>
      (\<exists>h. CalcTapscriptSigHash C vm (vm_hashCache vm) SigHashDefault (vm_tx vm) (vm_txIdx vm) (vm_prevOutFetcher vm) = Inr h \<and>
        opcodeCheckXmssSig C op data vm =
          (if length pk \<noteq> 64 \<or> (\<exists>c \<in> set chunks. length c \<noteq> 468) then Inr (vm\<lparr>vm_dstack := vm_dstack vm\<lparr>stk := rest @ [[]]\<rparr>\<rparr>)
           else if budget vm < 1000 then Inl (scriptError ErrTaprootMaxSigOps)
           else if c_VerifyXMSS C pk h (concat chunks)
           then Inr (vm\<lparr>vm_dstack := vm_dstack vm\<lparr>stk := rest @ [[1]]\<rparr>, vm_tapscriptCtx := Some (ctx\<lparr>ctx_opsBudget := ctx_opsBudget ctx - 1000\<rparr>)\<rparr>)
           else Inl (scriptError ErrNullFail))))"
proof (intro conjI allI impI)
  show "vm_tapscriptCtx vm = None \<Longrightarrow> opcodeCheckXmssSig C op data vm = Inl (scriptError ErrReservedOpcode)"
    by (simp add: opcodeCheckXmssSig_def)
  show "vm_tapscriptCtx vm \<noteq> None \<and> length (stk (vm_dstack vm)) < 6 \<Longrightarrow>
      opcodeCheckXmssSig C op data vm = Inl (scriptError ErrInvalidStackOperation)"
    by (rule checkxmss_underflow) auto
next
  fix ctx rest chunks pk
  assume a: "vm_tapscriptCtx vm = Some ctx \<and> stk (vm_dstack vm) = rest @ chunks @ [pk] \<and> length chunks = 5"
  then have ctx: "vm_tapscriptCtx vm = Some ctx" "stk (vm_dstack vm) = rest @ chunks @ [pk]" "length chunks = 5" by simp_all
  obtain h where h: "CalcTapscriptSigHash C vm (vm_hashCache vm) SigHashDefault (vm_tx vm) (vm_txIdx vm) (vm_prevOutFetcher vm) = Inr h" "length h = 32"
    using default_sighash [OF assms] ctx(1) by blast
  from checkxmss_correct [OF assms ctx h] h(1)
  show "\<exists>h. CalcTapscriptSigHash C vm (vm_hashCache vm) SigHashDefault (vm_tx vm) (vm_txIdx vm) (vm_prevOutFetcher vm) = Inr h \<and>
        opcodeCheckXmssSig C op data vm =
          (if length pk \<noteq> 64 \<or> (\<exists>c \<in> set chunks. length c \<noteq> 468) then Inr (vm\<lparr>vm_dstack := vm_dstack vm\<lparr>stk := rest @ [[]]\<rparr>\<rparr>)
           else if budget vm < 1000 then Inl (scriptError ErrTaprootMaxSigOps)
           else if c_VerifyXMSS C pk h (concat chunks)
           then Inr (vm\<lparr>vm_dstack := vm_dstack vm\<lparr>stk := rest @ [[1]]\<rparr>, vm_tapscriptCtx := Some (ctx\<lparr>ctx_opsBudget := ctx_opsBudget ctx - 1000\<rparr>)\<rparr>)
           else Inl (scriptError ErrNullFail))" by blast
qed

theorem checkxmss_spec_witness:
  "opcodeCheckXmssSig sample_crypto (opcodeArray OP_CHECKXMSSSIG) [] (sample_vm 2000 (replicate 5 (replicate 468 1) @ [replicate 64 1])) =
     Inl (scriptError ErrNullFail) \<and>
   opcodeCheckXmssSig sample_crypto (opcodeArray OP_CHECKXMSSSIG) [] (sample_vm 10 (replicate 5 (replicate 468 1) @ [replicate 64 1])) =
     Inl (scriptError ErrTaprootMaxSigOps) \<and>
   opcodeCheckXmssSig sample_crypto (opcodeArray OP_CHECKXMSSSIG) [] (sample_vm 10 (replicate 5 [])) = Inl (scriptError ErrInvalidStackOperation) \<and>
   opcodeCheckXmssSig sample_crypto (opcodeArray OP_CHECKXMSSSIG) [] (sample_vm 10 []\<lparr>vm_tapscriptCtx := None\<rparr>) = Inl (scriptError ErrReservedOpcode)"
proof -
  have ok: "engine_ok 1000 (sample_vm b (replicate 5 (replicate 468 1) @ [replicate 64 1]))" if "0 \<le> b" "b < 2 ^ 31" for b
    by (rule sample_vm_ok [OF that]) (auto simp: MaxScriptElementSize_def)
  have st: "stk (vm_dstack (sample_vm b (replicate 5 (replicate 468 1) @ [replicate 64 1]))) = [] @ replicate 5 (replicate 468 1) @ [replicate 64 1]" for b
    by (simp add: sample_vm_def)
  have ctx: "vm_tapscriptCtx (sample_vm b items) = Some \<lparr>ctx_annex = None, ctx_codeSepPos = blankCodeSepValue, ctx_tapLeafHash = zeroHash, ctx_opsBudget = b\<rparr>"
    "budget (sample_vm b items) = b" for b items
    by (simp_all add: sample_vm_def budget_def)
  have "(replicate 64 1 :: bytes) \<noteq> take 32 x" for x by (metis length_replicate length_take min.cobounded2 numeral_le_iff semiring_norm(71) semiring_norm(69) semiring_norm(68))
  then have bad: "\<not> c_VerifyXMSS sample_crypto (replicate 64 1) h x" for h x by (simp add: sample_crypto_def)
  let ?chunks = "replicate 5 (replicate 468 1) :: bytes list" and ?pk = "replicate 64 1 :: bytes"
  have run: "opcodeCheckXmssSig sample_crypto (opcodeArray OP_CHECKXMSSSIG) [] (sample_vm b (?chunks @ [?pk])) =
      (if b < 1000 then Inl (scriptError ErrTaprootMaxSigOps) else Inl (scriptError ErrNullFail))" if b: "0 \<le> b" "b < 2 ^ 31" for b
  proof -
    have five: "length ?chunks = 5" by simp
    note spec = checkxmss_spec [OF sample_crypto_ok ok [OF b], of "opcodeArray OP_CHECKXMSSSIG" "[]", THEN conjunct2, THEN conjunct2,
        rule_format, OF conjI [OF ctx(1) conjI [OF st five]]]
    have sizes: "\<not> (length ?pk \<noteq> 64 \<or> (\<exists>c \<in> set ?chunks. length c \<noteq> 468))" by simp
    from spec show ?thesis unfolding if_not_P [OF sizes] ctx(2) using bad by auto
  qed
  have few: "engine_ok 1000 (sample_vm 10 (replicate 5 []))" "engine_ok 1000 (sample_vm 10 []\<lparr>vm_tapscriptCtx := None\<rparr>)"
    using sample_vm_ok [of 10 "replicate 5 []"] sample_vm_ok [of 10 "[]"] by (auto simp: engine_ok_def budget_def)
  show ?thesis
    using run [of 2000] run [of 10] checkxmss_spec [OF sample_crypto_ok few(1), of "opcodeArray OP_CHECKXMSSSIG" "[]"]
      checkxmss_spec [OF sample_crypto_ok few(2), of "opcodeArray OP_CHECKXMSSSIG" "[]"] ctx(1) [of 10 "replicate 5 []"]
    by (simp add: sample_vm_def)
qed

text \<open>
  Script arithmetic is integer arithmetic: on minimally encoded numbers of at most four bytes the
  opcode replaces its operands by the encoding of the result, for all twelve binary and all six unary
  numeric opcodes of the table.\<close>

lemma arithmetic_spec:
  assumes "verifyMinimalData (vm_dstack vm)" "length rest < 2 ^ 31 - 2" "numeric a x"
  shows "((b, f) \<in> set unary_ops \<and> stk (vm_dstack vm) = rest @ [x] \<longrightarrow>
      (\<exists>z. scriptNum_Bytes (f a) = Inr z \<and> opfunc C pick b op data vm = Inr (vm\<lparr>vm_dstack := vm_dstack vm\<lparr>stk := rest @ [z]\<rparr>\<rparr>))) \<and>
    ((b, g) \<in> set binary_ops \<and> numeric c y \<and> stk (vm_dstack vm) = rest @ [x, y] \<longrightarrow>
      (\<exists>z. scriptNum_Bytes (g a c) = Inr z \<and> opfunc C pick b op data vm = Inr (vm\<lparr>vm_dstack := vm_dstack vm\<lparr>stk := rest @ [z]\<rparr>\<rparr>)))"
proof (intro conjI impI)
  have a: "\<bar>a\<bar> < 2 ^ 31" using assms(3) by (simp add: numeric_def)
  assume u: "(b, f) \<in> set unary_ops \<and> stk (vm_dstack vm) = rest @ [x]"
  then obtain h where "opfunc C pick b = (\<lambda>op data. int_op1 h)" "h a = f a" "\<bar>f a\<bar> < 2 ^ 63"
    using unary_handler [of b f C pick] a by blast
  with int_ops(1) [OF assms(1,2,3), of h] u
  show "\<exists>z. scriptNum_Bytes (f a) = Inr z \<and> opfunc C pick b op data vm = Inr (vm\<lparr>vm_dstack := vm_dstack vm\<lparr>stk := rest @ [z]\<rparr>\<rparr>)" by simp
next
  have a: "\<bar>a\<bar> < 2 ^ 31" using assms(3) by (simp add: numeric_def)
  assume u: "(b, g) \<in> set binary_ops \<and> numeric c y \<and> stk (vm_dstack vm) = rest @ [x, y]"
  then have c: "\<bar>c\<bar> < 2 ^ 31" by (simp add: numeric_def)
  obtain h where h: "opfunc C pick b = (\<lambda>op data. int_op2 h)" "\<forall>x y. \<bar>x\<bar> < 2 ^ 31 \<longrightarrow> \<bar>y\<bar> < 2 ^ 31 \<longrightarrow> h y x = g x y \<and> \<bar>g x y\<bar> < 2 ^ 63"
    using binary_handler [of b g C pick] u by blast
  from h(2) a c have "h c a = g a c" "\<bar>g a c\<bar> < 2 ^ 63" by blast+
  with h(1) int_ops(2) [OF assms(1,2,3), of c y h] u
  show "\<exists>z. scriptNum_Bytes (g a c) = Inr z \<and> opfunc C pick b op data vm = Inr (vm\<lparr>vm_dstack := vm_dstack vm\<lparr>stk := rest @ [z]\<rparr>\<rparr>)" by simp
qed

lemma arithmetic_spec_example:
  "\<exists>z. scriptNum_Bytes (- 300 + 7) = Inr z \<and>
     opfunc sample_crypto (\<lambda>_. 0) OP_ADD (opcodeArray OP_ADD) [] (sample_vm 0 [[0x2c, 0x81], [7]]) =
       Inr ((sample_vm 0 [[0x2c, 0x81], [7]])\<lparr>vm_dstack := \<lparr>stk = [z], verifyMinimalData = True\<rparr>\<rparr>)"
proof -
  have "scriptNum_Bytes (- 300) = Inr [0x2c, 0x81]" "scriptNum_Bytes 7 = Inr [7]" by code_simp+
  then have n: "numeric (- 300) [0x2c, 0x81]" "numeric 7 [7]" by (simp_all add: numeric_def)
  have "(OP_ADD, \<lambda>a b. a + b) \<in> set binary_ops" by (simp add: binary_ops_def)
  with n arithmetic_spec [of "sample_vm 0 [[0x2c, 0x81], [7]]" "[]" "- 300" "[0x2c, 0x81]" OP_ADD id sample_crypto "\<lambda>_. 0" "opcodeArray OP_ADD" "[]" "\<lambda>a b. a + b" 7 "[7]"]
  show ?thesis by (simp add: sample_vm_def)
qed

text \<open>
  The machine's minimal push rule is the script builder's choice: a push of up to 520 bytes is
  accepted exactly when its bytes are the ones \<open>AddData\<close> emits for the data, except for the one-byte
  data 00, which \<open>AddData\<close> replaces by the empty string.\<close>

lemma minimal_push_iff_builder:
  assumes "parse_token s = Some (b, d, r)" "b \<le> OP_PUSHDATA4" "data_bytes d \<noteq> [0]" "length (data_bytes d) \<le> MaxScriptElementSize"
  shows "checkMinimalDataPush (opcodeArray b) (data_bytes d) = Inr () \<longleftrightarrow>
    s = fst (sb_Script (AddData (data_bytes d) NewScriptBuilder)) @ r"
proof -
  have tok: "token_wf (b, d)" "s = token_bytes (b, d) @ r" using parse_token_bytes [OF assms(1)] by simp_all
  have len: "length (data_bytes d) < 2 ^ 32" using assms(4) by (simp add: MaxScriptElementSize_def)
  have "canonicalDataSize (data_bytes d) \<le> 5 + length (data_bytes d)" by (simp add: canonicalDataSize_def Let_def)
  then have "AddData (data_bytes d) NewScriptBuilder = NewScriptBuilder\<lparr>sb_script := token_bytes (push_token (data_bytes d))\<rparr>"
    using AddData_spec [of NewScriptBuilder "data_bytes d"] assms(4) by (simp add: NewScriptBuilder_def script_limits)
  then have b: "fst (sb_Script (AddData (data_bytes d) NewScriptBuilder)) = token_bytes (push_token (data_bytes d))"
    by (simp add: sb_Script_def)
  have "(b, d) = push_token (data_bytes d)" if "token_bytes (b, d) @ r = token_bytes (push_token (data_bytes d)) @ r"
    using assms(1) tok(2) that parse_token_token_bytes [of "fst (push_token (data_bytes d))" "snd (push_token (data_bytes d))" r] push_token_wf [OF len]
    by (simp add: prod_eq_iff del: parse_token.simps)
  then show ?thesis using minimal_push_token [OF tok(1) assms(2-4)] tok(2) b by auto
qed

lemma minimal_push_iff_builder_example:
  "checkMinimalDataPush (opcodeArray OP_PUSHDATA1) [7, 7] \<noteq> Inr () \<and> checkMinimalDataPush (opcodeArray 2) [7, 7] = Inr ()"
  using minimal_push_iff_builder [of "[OP_PUSHDATA1, 2, 7, 7]" OP_PUSHDATA1 "Some [7, 7]" "[]"]
    minimal_push_iff_builder [of "[2, 7, 7]" 2 "Some [7, 7]" "[]"]
  by (simp add: data_bytes_def push_width_def MaxScriptElementSize_def sb_Script_def AddData_def addData_def NewScriptBuilder_def canonicalDataSize_def Let_def script_limits)

end
