(* ===== verification/Work_Math.thy ===== *)
theory Work_Math
  imports Prelude
begin

text \<open>
  Proof of work (\<^verbatim>\<open>node/blockchain/internal/workmath\<close>, \<^verbatim>\<open>node/blockchain/difficulty.go\<close>): the
  compact form of difficulty targets, the work of a target, the WTEMA retarget rule and the bound on
  the difficulty that \<^verbatim>\<open>ProcessBlock\<close> checks against a checkpoint. \<open>big.Int\<close> values are integers,
  durations are nanoseconds as in Go's \<open>time.Duration\<close>, timestamps are seconds; a division by zero is
  a panic.
\<close>

subsection \<open>Compact targets\<close>

definition HashToBig :: "hash \<Rightarrow> int" where
  "HashToBig h = foldl (\<lambda>n b. n * 256 + uint b) 0 (rev h)"

definition CompactToBig :: "32 word \<Rightarrow> int" where
  "CompactToBig compact =
     (let mantissa = compact AND 0x007fffff;
          isNegative = compact AND 0x00800000 \<noteq> 0;
          exponent = unat (drop_bit 24 compact);
          bn = (if exponent \<le> 3 then uint (drop_bit (8 * (3 - exponent)) mantissa)
                else push_bit (8 * (exponent - 3)) (uint mantissa))
      in if isNegative then - bn else bn)"

text \<open>The number of bytes of the absolute value.\<close>

function big_bytes :: "int \<Rightarrow> nat" where
  "big_bytes n = (if n \<le> 0 then 0 else Suc (big_bytes (n div 256)))"
  by pat_completeness auto

termination
  by (relation "measure nat") auto

declare big_bytes.simps [simp del]

definition BigToCompact :: "int \<Rightarrow> 32 word" where
  "BigToCompact n =
     (if n = 0 then 0
      else
        let exponent = big_bytes \<bar>n\<bar>;
            mantissa = (if exponent \<le> 3 then push_bit (8 * (3 - exponent)) (word_of_int \<bar>n\<bar> :: 32 word)
                        else word_of_int \<bar>drop_bit (8 * (exponent - 3)) n\<bar>);
            (mantissa, exponent) =
              (if mantissa AND 0x00800000 \<noteq> 0 then (drop_bit 8 mantissa, exponent + 1) else (mantissa, exponent));
            compact = push_bit 24 (word_of_nat exponent) OR mantissa
        in if n < 0 then compact OR 0x00800000 else compact)"

definition CalcWork :: "32 word \<Rightarrow> int" where
  "CalcWork bits =
     (let difficultyNum = CompactToBig bits
      in if difficultyNum \<le> 0 then 0 else push_bit 256 1 div (difficultyNum + 1))"

lemma le_div_int:
  assumes "0 < (p :: int)"
  shows "a \<le> n div p \<longleftrightarrow> a * p \<le> n" "n div p < a \<longleftrightarrow> n < a * p"
proof -
  have "n div p * p \<le> n" using div_mult_mod_eq [of n p] pos_mod_sign [OF assms, of n] by linarith
  then have "a * p \<le> n" if "a \<le> n div p" using mult_right_mono [OF that, of p] assms by linarith
  moreover have "a \<le> n div p" if "a * p \<le> n" using zdiv_mono1 [OF that assms] assms by simp
  ultimately show "a \<le> n div p \<longleftrightarrow> a * p \<le> n" by blast
  then show "n div p < a \<longleftrightarrow> n < a * p" by linarith
qed

lemma div_256:
  "a \<le> n div 256 \<longleftrightarrow> 256 * a \<le> n" "n div 256 < a \<longleftrightarrow> n < 256 * (a :: int)"
  using le_div_int [of 256] by (simp_all add: mult.commute)

lemma big_bytes_iff: "0 < n \<Longrightarrow> big_bytes n = Suc k \<longleftrightarrow> 256 ^ k \<le> n \<and> n < 256 ^ Suc k"
proof (induction n arbitrary: k rule: big_bytes.induct)
  case (1 n)
  show ?case
  proof (cases "n < 256")
    case True
    then have "n div 256 = 0" using 1(2) by simp
    then have "big_bytes n = 1" using 1(2) by (simp add: big_bytes.simps [of n] big_bytes.simps [of 0])
    moreover have "k = 0" if "(256 :: int) ^ k \<le> n"
    proof (rule ccontr)
      assume "k \<noteq> 0"
      then have "(256 :: int) ^ 1 \<le> 256 ^ k" by (intro power_increasing) simp_all
      with that True show False by simp
    qed
    ultimately show ?thesis using True 1(2) by auto
  next
    case False
    then have d: "0 < n div 256" using 1(2) by (simp add: pos_imp_zdiv_pos_iff)
    have up: "big_bytes n = Suc (big_bytes (n div 256))" using 1(2) by (simp add: big_bytes.simps [of n])
    show ?thesis
    proof (cases k)
      case 0
      then show ?thesis using up d False by (simp add: big_bytes.simps [of "n div 256"])
    next
      case (Suc j)
      have "big_bytes (n div 256) = Suc j \<longleftrightarrow> 256 ^ j \<le> n div 256 \<and> n div 256 < 256 ^ Suc j" using 1(1) [OF _ d] 1(2) by simp
      then show ?thesis by (simp only: up Suc nat.inject power_Suc div_256)
    qed
  qed
qed

text \<open>The value of a compact encoding with its parts.\<close>

lemma uint_drop_bit: "uint (drop_bit k w) = uint w div 2 ^ k"
proof -
  have "unat (drop_bit k w) = unat w div 2 ^ k" using unat_drop_bit_eq [of k w] by (simp only: drop_bit_eq_div [of k "unat w"])
  then have "int (unat (drop_bit k w)) = int (unat w) div 2 ^ k" by (simp only: zdiv_int of_nat_power of_nat_numeral)
  then show ?thesis by simp
qed

lemma CompactToBig_value:
  "CompactToBig c = (let m = uint c mod 2 ^ 23; e = nat (uint c div 2 ^ 24); v = (if e \<le> 3 then m div 2 ^ (8 * (3 - e)) else m * 2 ^ (8 * (e - 3)))
     in if (uint c div 2 ^ 23) mod 2 = 1 then - v else v)"
proof -
  have "(0x7fffff :: 32 word) = mask 23" by (simp add: mask_eq_exp_minus_1)
  then have m: "c AND 0x7fffff = take_bit 23 c" by (simp only: take_bit_eq_mask)
  have um: "uint (take_bit 23 c) = uint c mod 2 ^ 23"
    using unsigned_take_bit_eq [of 23 c, where 'a = int] by (simp only: take_bit_eq_mod [of 23 "uint c"])
  have d: "uint (drop_bit k w) = uint w div 2 ^ k" for k and w :: "32 word" by (rule uint_drop_bit)
  have e: "unat (drop_bit 24 c) = nat (uint c div 2 ^ 24)" by (simp only: unat_eq_nat_uint d)
  have s: "c AND 0x800000 \<noteq> 0 \<longleftrightarrow> (uint c div 2 ^ 23) mod 2 = 1"
  proof -
    have k: "(0x800000 :: 32 word) = 2 ^ 23" by simp
    have "c AND 2 ^ 23 \<noteq> 0 \<longleftrightarrow> bit c 23" using and_exp_eq_0_iff_not_bit [of c 23] by blast
    also have "\<dots> \<longleftrightarrow> bit (uint c) 23" by (simp add: bit_uint_iff)
    also have "\<dots> \<longleftrightarrow> (uint c div 2 ^ 23) mod 2 = 1" by (simp only: bit_iff_odd odd_iff_mod_2_eq_one)
    finally show ?thesis unfolding k .
  qed
  show ?thesis unfolding CompactToBig_def Let_def m e d um s push_bit_eq_mult by simp
qed

text \<open>Packing exponent and mantissa, and reading them back.\<close>

lemma pack_uint:
  assumes "0 \<le> e" "e < 256" "0 \<le> m" "m < 2 ^ 24"
  shows "uint (push_bit 24 (word_of_int e) OR word_of_int m :: 32 word) = e * 2 ^ 24 + m"
proof -
  have "push_bit 24 e AND m = 0"
  proof (rule bit_eqI)
    fix n
    have "\<not> bit m n" if "24 \<le> n"
    proof -
      have "m < 2 ^ n" using assms(4) power_increasing [OF that, of "2 :: int"] by linarith
      then show ?thesis using assms(3) by (simp add: bit_iff_odd)
    qed
    then show "bit (push_bit 24 e AND m) n = bit (0 :: int) n" by (cases "24 \<le> n") (auto simp: bit_simps)
  qed
  then have or: "push_bit 24 e OR m = e * 2 ^ 24 + m" by (simp add: disjunctive_add_eq_or [symmetric] push_bit_eq_mult)
  have "push_bit 24 (word_of_int e) OR word_of_int m = (word_of_int (push_bit 24 e OR m) :: 32 word)"
    by (rule bit_word_eqI) (auto simp: bit_simps)
  moreover have "uint (word_of_int k :: 32 word) = k mod 2 ^ 32" for k by (simp add: uint_word_of_int)
  ultimately have "uint (push_bit 24 (word_of_int e) OR word_of_int m :: 32 word) = (e * 2 ^ 24 + m) mod 2 ^ 32"
    by (simp only: or)
  also have "\<dots> = e * 2 ^ 24 + m" using assms by (intro mod_pos_pos_trivial) simp_all
  finally show ?thesis .
qed

text \<open>The number of bytes that leaves the top bit free, and the first three of them.\<close>

definition target_bytes :: "int \<Rightarrow> nat" where
  "target_bytes n = (if 2 ^ (8 * big_bytes n - 1) \<le> n then big_bytes n + 1 else big_bytes n)"

definition target_mantissa :: "int \<Rightarrow> int" where
  "target_mantissa n = n * 256 ^ (3 - target_bytes n) div 256 ^ (target_bytes n - 3)"

lemma word_mantissa:
  assumes "0 \<le> x" "x < 2 ^ 24"
  shows "(word_of_int x :: 32 word) AND 0x800000 \<noteq> 0 \<longleftrightarrow> 2 ^ 23 \<le> x" "drop_bit 8 (word_of_int x :: 32 word) = word_of_int (x div 256)"
proof -
  have u: "uint (word_of_int x :: 32 word) = x" using assms by (simp add: uint_word_of_int)
  have k: "(0x800000 :: 32 word) = 2 ^ 23" by simp
  have "(word_of_int x :: 32 word) AND 2 ^ 23 \<noteq> 0 \<longleftrightarrow> bit (word_of_int x :: 32 word) 23" using and_exp_eq_0_iff_not_bit [of _ 23] by blast
  also have "\<dots> \<longleftrightarrow> bit x 23" by (simp add: bit_simps)
  also have "\<dots> \<longleftrightarrow> odd (x div 2 ^ 23)" by (simp only: bit_iff_odd)
  also have "\<dots> \<longleftrightarrow> 2 ^ 23 \<le> x"
  proof -
    have "x = 8388608 * (x div 8388608) + x mod 8388608" "0 \<le> x mod 8388608" "x mod 8388608 < 8388608" "x < 16777216" using assms by simp_all
    then have "x div 8388608 = 0 \<or> x div 8388608 = 1" "x div 8388608 = 1 \<longleftrightarrow> 8388608 \<le> x" using assms(1) by linarith+
    then show ?thesis by auto
  qed
  finally show "(word_of_int x :: 32 word) AND 0x800000 \<noteq> 0 \<longleftrightarrow> 2 ^ 23 \<le> x" unfolding k .
  have "uint (drop_bit 8 (word_of_int x :: 32 word)) = x div 256" using uint_drop_bit [of 8 "word_of_int x :: 32 word"] u by simp
  then show "drop_bit 8 (word_of_int x :: 32 word) = word_of_int (x div 256)" by (metis word_of_int_uint)
qed

lemma big_bytes_bounds:
  assumes "0 < n"
  obtains k where "big_bytes n = Suc k" "256 ^ k \<le> n" "n < 256 ^ Suc k"
proof -
  obtain k where "big_bytes n = Suc k" using assms by (cases "big_bytes n") (auto simp: big_bytes.simps [of n])
  with that big_bytes_iff [OF assms] show thesis by blast
qed

lemma BigToCompact_parts:
  assumes "0 < n" "target_bytes n < 256"
  shows "uint (BigToCompact n) = int (target_bytes n) * 2 ^ 24 + target_mantissa n" "0 < target_mantissa n" "target_mantissa n < 2 ^ 23"
proof -
  obtain k where k: "big_bytes n = Suc k" "256 ^ k \<le> n" "n < 256 ^ Suc k" using big_bytes_bounds [OF assms(1)] .
  let ?b = "Suc k"
  define x where "x = n * 256 ^ (3 - ?b) div 256 ^ (?b - 3)"
  have x: "2 ^ 16 \<le> x" "x < 2 ^ 24" "2 ^ 23 \<le> x \<longleftrightarrow> 2 ^ (8 * ?b - 1) \<le> n"
  proof -
    have "k = 0 \<or> k = 1 \<or> k = 2 \<or> k = (k - 3) + 3" by linarith
    then consider "k = 0" | "k = 1" | "k = 2" | j where "k = j + 3" by blast
    then have "2 ^ 16 \<le> x \<and> x < 2 ^ 24 \<and> (2 ^ 23 \<le> x \<longleftrightarrow> 2 ^ (8 * ?b - 1) \<le> n)"
    proof cases
      case 4
      have p: "(256 :: int) ^ (j + 1) = 2 ^ (8 * j + 8)" "(256 :: int) ^ k = 2 ^ 16 * 256 ^ (j + 1)" "(256 :: int) ^ Suc k = 2 ^ 24 * 256 ^ (j + 1)"
        using 4 by (simp_all add: power_add power_mult)
      have "(2 :: int) ^ (8 * ?b - 1) = 2 ^ (23 + (8 * j + 8))" using 4 by (intro arg_cong [of _ _ "power 2"]) simp
      then have "(2 :: int) ^ (8 * ?b - 1) = 2 ^ 23 * 256 ^ (j + 1)" by (simp only: p(1) power_add [of 2 23])
      moreover have "x = n div 256 ^ (j + 1)" using 4 by (simp add: x_def)
      ultimately show ?thesis using k(2,3) p(2,3) le_div_int [of "256 ^ (j + 1)"] by simp
    qed (use k(2,3) in \<open>simp_all add: x_def\<close>)
    then show "2 ^ 16 \<le> x" "x < 2 ^ 24" "2 ^ 23 \<le> x \<longleftrightarrow> 2 ^ (8 * ?b - 1) \<le> n" by blast+
  qed
  have m: "target_bytes n = (if 2 ^ 23 \<le> x then ?b + 1 else ?b)" "target_mantissa n = (if 2 ^ 23 \<le> x then x div 256 else x)"
  proof -
    show t: "target_bytes n = (if 2 ^ 23 \<le> x then ?b + 1 else ?b)" unfolding target_bytes_def k(1) x(3) ..
    show "target_mantissa n = (if 2 ^ 23 \<le> x then x div 256 else x)"
    proof (cases "2 ^ 23 \<le> x")
      case True
      then have tm: "target_mantissa n = n * 256 ^ (1 - k) div 256 ^ (k - 1)" by (simp add: target_mantissa_def t)
      have "n * 256 ^ (1 - k) div 256 ^ (k - 1) = x div 256"
      proof (cases "k \<le> 1")
        case True
        then have "(256 :: int) ^ (3 - ?b) = 256 * 256 ^ (1 - k)" by (simp add: power_Suc [symmetric] Suc_diff_le del: power_Suc)
        with True show ?thesis by (simp add: x_def)
      next
        case False
        then have "(256 :: int) ^ (k - 1) = 256 ^ (?b - 3) * 256" by (simp add: power_Suc2 [symmetric] Suc_diff_le del: power_Suc power_Suc2)
        with False show ?thesis by (simp add: x_def zdiv_zmult2_eq)
      qed
      with True tm show ?thesis by simp
    qed (simp add: target_mantissa_def t x_def)
  qed
  show tb: "0 < target_mantissa n" "target_mantissa n < 2 ^ 23" using m(2) x by auto
  have w: "(if ?b \<le> 3 then push_bit (8 * (3 - ?b)) (word_of_int n :: 32 word) else word_of_int \<bar>drop_bit (8 * (?b - 3)) n\<bar>) = word_of_int x"
  proof (cases "?b \<le> 3")
    case True
    then have "x = push_bit (8 * (3 - ?b)) n" by (simp add: x_def push_bit_eq_mult power_mult)
    with True show ?thesis by (simp add: push_bit_eq_mult)
  next
    case False
    then have "drop_bit (8 * (?b - 3)) n = x" by (simp add: x_def drop_bit_eq_div power_mult)
    moreover have "\<bar>x\<bar> = x" by (rule abs_of_nonneg, rule order_trans [OF _ x(1)]) simp
    ultimately show ?thesis using False by (simp only: if_False)
  qed
  have a: "\<bar>n\<bar> = n" "(n = 0) = False" "(n < 0) = False" using assms(1) by simp_all
  have x0: "0 \<le> x" by (rule order_trans [OF _ x(1)]) simp
  have "BigToCompact n = push_bit 24 (word_of_int (int (target_bytes n))) OR word_of_int (target_mantissa n)"
    by (cases "2 ^ 23 \<le> x")
       (simp_all only: BigToCompact_def Let_def a k(1) w word_mantissa [OF x0 x(2)] m if_True if_False not_True_eq_False not_False_eq_True
         prod.case of_int_of_nat_eq)
  then show "uint (BigToCompact n) = int (target_bytes n) * 2 ^ 24 + target_mantissa n"
    using pack_uint [of "int (target_bytes n)" "target_mantissa n"] assms(2) tb by simp
qed

text \<open>What a target becomes in compact form: its first bytes.\<close>

definition truncated :: "int \<Rightarrow> int" where
  "truncated n = n div 256 ^ (target_bytes n - 3) * 256 ^ (target_bytes n - 3)"

lemma CompactToBig_BigToCompact:
  assumes "0 < n" "target_bytes n < 256"
  shows "CompactToBig (BigToCompact n) = truncated n"
proof -
  let ?L = "target_bytes n" and ?m = "target_mantissa n"
  note parts = BigToCompact_parts [OF assms]
  have c: "uint (BigToCompact n) = 8388608 * (2 * int ?L) + ?m" "0 \<le> ?m" "?m < 8388608" using parts by simp_all
  have d: "uint (BigToCompact n) mod 2 ^ 23 = ?m" "uint (BigToCompact n) div 2 ^ 23 = 2 * int ?L"
    using mod_mult_self4 [of 8388608 "2 * int ?L" ?m] div_mult_self4 [of 8388608 "2 * int ?L" ?m] mod_pos_pos_trivial [OF c(2,3)] div_pos_pos_trivial [OF c(2,3)]
    by (simp_all add: c(1) del: mod_mult_self4 div_mult_self4)
  have "uint (BigToCompact n) div 2 ^ 24 = uint (BigToCompact n) div 2 ^ 23 div 2" by (simp add: zdiv_zmult2_eq [symmetric])
  then have e: "nat (uint (BigToCompact n) div 2 ^ 24) = ?L" unfolding d by simp
  have s: "(uint (BigToCompact n) div 2 ^ 23) mod 2 = 1 \<longleftrightarrow> False" unfolding d by simp
  have p: "(2 :: int) ^ (8 * k) = 256 ^ k" for k by (simp add: power_mult)
  show ?thesis unfolding CompactToBig_value Let_def e d(1) s p if_False
    by (cases "?L \<le> 3") (simp_all add: truncated_def target_mantissa_def)
qed

lemma target_bytes_bounds:
  assumes "0 < n"
  shows "1 \<le> target_bytes n" "n < 2 ^ (8 * target_bytes n - 1)" "2 \<le> target_bytes n \<Longrightarrow> 2 ^ (8 * (target_bytes n - 1) - 1) \<le> n"
proof -
  obtain k where k: "big_bytes n = Suc k" "256 ^ k \<le> n" "n < 256 ^ Suc k" using big_bytes_bounds [OF assms] .
  have p: "(2 :: int) ^ (8 * k) = 256 ^ k" for k by (simp add: power_mult)
  show "1 \<le> target_bytes n" by (simp add: target_bytes_def k(1))
  show "n < 2 ^ (8 * target_bytes n - 1)"
  proof (cases "2 ^ (8 * Suc k - 1) \<le> n")
    case True
    have "(2 :: int) ^ (8 * Suc k) \<le> 2 ^ (8 * (Suc k + 1) - 1)" by (rule power_increasing) simp_all
    with k(3) True show ?thesis unfolding target_bytes_def k(1) p [of "Suc k", symmetric] by (simp only: if_True)
  next
    case False
    then have "target_bytes n = Suc k" by (simp only: target_bytes_def k(1) if_False)
    then show ?thesis using False by (simp only: not_le)
  qed
  show "2 ^ (8 * (target_bytes n - 1) - 1) \<le> n" if "2 \<le> target_bytes n"
  proof (cases "2 ^ (8 * Suc k - 1) \<le> n")
    case True
    then show ?thesis unfolding target_bytes_def k(1) by (simp only: if_True add_diff_cancel_right')
  next
    case False
    then have L: "target_bytes n = Suc k" by (simp only: target_bytes_def k(1) if_False)
    have "(2 :: int) ^ (8 * k - 1) \<le> 2 ^ (8 * k)" by (rule power_increasing) simp_all
    with k(2) show ?thesis unfolding L p by simp
  qed
qed

lemma target_bytes_mono:
  assumes "0 < n" "n \<le> n'" shows "target_bytes n \<le> target_bytes n'"
proof (rule ccontr)
  assume less: "\<not> target_bytes n \<le> target_bytes n'"
  have n': "0 < n'" using assms by simp
  have "2 \<le> target_bytes n" using less target_bytes_bounds(1) [OF n'] by simp
  then have "2 ^ (8 * (target_bytes n - 1) - 1) \<le> n" by (rule target_bytes_bounds(3) [OF assms(1)])
  moreover have "(2 :: int) ^ (8 * target_bytes n' - 1) \<le> 2 ^ (8 * (target_bytes n - 1) - 1)"
    using less by (intro power_increasing diff_le_mono mult_le_mono2) simp_all
  ultimately show False using target_bytes_bounds(2) [OF n'] assms(2) by linarith
qed

lemma floor_multiple:
  assumes "0 < (p :: int)" shows "n div p * p \<le> n" "n - n div p * p < p" "p dvd q \<Longrightarrow> q \<le> n \<Longrightarrow> q \<le> n div p * p"
proof -
  show "n div p * p \<le> n" "n - n div p * p < p"
    using div_mult_mod_eq [of n p] pos_mod_sign [OF assms, of n] pos_mod_bound [OF assms, of n] by linarith+
  show "q \<le> n div p * p" if "p dvd q" "q \<le> n"
    using zdiv_mono1 [OF that(2) assms] mult_right_mono [of "q div p" "n div p" p] assms that(1) by simp
qed

lemma truncated_bounds:
  assumes "0 < n"
  shows "truncated n \<le> n" "0 < truncated n" "2 ^ 15 * (n - truncated n) < n"
    "2 \<le> target_bytes n \<Longrightarrow> 2 ^ (8 * (target_bytes n - 1) - 1) \<le> truncated n"
proof -
  let ?L = "target_bytes n" and ?p = "256 ^ (target_bytes n - 3) :: int"
  have p: "0 < ?p" by simp
  show le: "truncated n \<le> n" unfolding truncated_def by (rule floor_multiple [OF p])
  have dvd: "?p dvd 2 ^ (8 * (?L - 1) - 1)" if "2 \<le> ?L"
  proof -
    have "?p = 2 ^ (8 * (?L - 3))" by (simp add: power_mult)
    then show ?thesis using that by (simp add: le_imp_power_dvd)
  qed
  show low: "2 ^ (8 * (?L - 1) - 1) \<le> truncated n" if "2 \<le> ?L"
    unfolding truncated_def by (rule floor_multiple(3) [OF p dvd [OF that] target_bytes_bounds(3) [OF assms that]])
  show "0 < truncated n"
  proof (cases "2 \<le> ?L")
    case True
    have "(0 :: int) < 2 ^ (8 * (?L - 1) - 1)" by simp
    with low [OF True] show ?thesis by linarith
  next
    case False
    with assms show ?thesis by (simp add: truncated_def)
  qed
  show "2 ^ 15 * (n - truncated n) < n"
  proof (cases "?L \<le> 3")
    case True
    with assms show ?thesis by (simp add: truncated_def)
  next
    case False
    have "8 * (?L - 1) - 1 = 15 + 8 * (?L - 3)" using False by simp
    then have "(2 :: int) ^ (8 * (?L - 1) - 1) = 2 ^ 15 * ?p" by (simp only: power_add power_mult) simp
    moreover have "2 ^ (8 * (?L - 1) - 1) \<le> n" using False by (intro target_bytes_bounds(3) [OF assms]) simp
    moreover have "n - truncated n < ?p" unfolding truncated_def by (rule floor_multiple(2) [OF p])
    ultimately show ?thesis by simp
  qed
qed

lemma truncated_mono:
  assumes "0 < n" "n \<le> n'" shows "truncated n \<le> truncated n'"
proof (cases "target_bytes n = target_bytes n'")
  case True
  have "n div p * p \<le> n' div p * p" if "0 < p" for p using that assms(2) by (simp add: zdiv_mono1)
  then show ?thesis by (simp add: truncated_def True)
next
  case False
  then have L: "target_bytes n < target_bytes n'" using target_bytes_mono [OF assms] by simp
  have n': "0 < n'" using assms by simp
  have two: "2 \<le> target_bytes n'" using L target_bytes_bounds(1) [OF assms(1)] by simp
  have "truncated n \<le> n" by (rule truncated_bounds(1) [OF assms(1)])
  also have "n < 2 ^ (8 * target_bytes n - 1)" by (rule target_bytes_bounds(2) [OF assms(1)])
  also have "\<dots> \<le> 2 ^ (8 * (target_bytes n' - 1) - 1)"
    using L by (intro power_increasing diff_le_mono mult_le_mono2) simp_all
  also have "\<dots> \<le> truncated n'" by (rule truncated_bounds(4) [OF n' two])
  finally show ?thesis by simp
qed

text \<open>A value that has a compact form at all is not changed.\<close>

lemma truncated_compact:
  assumes "0 < CompactToBig c" shows "truncated (CompactToBig c) = CompactToBig c" "target_bytes (CompactToBig c) < 256"
proof -
  let ?v = "CompactToBig c" and ?m = "uint c mod 2 ^ 23" and ?e = "nat (uint c div 2 ^ 24)"
  have m: "0 \<le> ?m" "?m < 2 ^ 23" by simp_all
  have v: "?v = (if ?e \<le> 3 then ?m div 2 ^ (8 * (3 - ?e)) else ?m * 2 ^ (8 * (?e - 3)))"
  proof -
    let ?w = "if ?e \<le> 3 then ?m div 2 ^ (8 * (3 - ?e)) else ?m * 2 ^ (8 * (?e - 3))"
    have "0 \<le> ?w" using m(1) by (simp add: pos_imp_zdiv_nonneg_iff)
    moreover have "?v = ?w \<or> ?v = - ?w" unfolding CompactToBig_value Let_def by (cases "(uint c div 2 ^ 23) mod 2 = 1") simp_all
    ultimately show ?thesis using assms by linarith
  qed
  have e: "?e < 256"
  proof -
    have "uint c < 256 * 2 ^ 24" using unsigned_less [of c] by simp
    then have "uint c div 2 ^ 24 < 256" using le_div_int(2) [of "2 ^ 24" "uint c" 256] by simp
    then show ?thesis by simp
  qed
  have "truncated ?v = ?v \<and> target_bytes ?v < 256"
  proof (cases "?e \<le> 3")
    case True
    have "?m * 1 \<le> ?m * 2 ^ (8 * (3 - ?e))" using m(1) by (intro mult_left_mono) simp_all
    moreover have "(0 :: int) < 2 ^ (8 * (3 - ?e))" by simp
    ultimately have "?m < (?m + 1) * 2 ^ (8 * (3 - ?e))" unfolding distrib_right by linarith
    then have "?m div 2 ^ (8 * (3 - ?e)) \<le> ?m" using le_div_int(2) [of "2 ^ (8 * (3 - ?e))" ?m "?m + 1"] by simp
    then have "?v \<le> ?m" unfolding v using True by (simp only: if_True)
    then have "?v < 2 ^ 23" using m(2) by linarith
    have "target_bytes ?v \<le> 3"
    proof (rule ccontr)
      assume L: "\<not> target_bytes ?v \<le> 3"
      then have "(2 :: int) ^ 23 \<le> 2 ^ (8 * (target_bytes ?v - 1) - 1)" by (intro power_increasing) simp_all
      also have "\<dots> \<le> ?v" using L by (intro target_bytes_bounds(3) [OF assms]) simp
      finally show False using \<open>?v < 2 ^ 23\<close> by linarith
    qed
    then show ?thesis by (simp add: truncated_def)
  next
    case False
    then have v2: "?v = ?m * 2 ^ (8 * (?e - 3))" using v by (simp only: if_False)
    have "?m * 2 ^ (8 * (?e - 3)) < 2 ^ 23 * 2 ^ (8 * (?e - 3))" using m(2) by (intro mult_strict_right_mono) simp_all
    also have "\<dots> = 2 ^ (23 + 8 * (?e - 3))" by (simp only: power_add)
    also have "23 + 8 * (?e - 3) = 8 * ?e - 1" using False by linarith
    finally have "?v < 2 ^ (8 * ?e - 1)" unfolding v2 .
    have L: "target_bytes ?v \<le> ?e"
    proof (rule ccontr)
      assume L: "\<not> target_bytes ?v \<le> ?e"
      then have "(2 :: int) ^ (8 * ?e - 1) \<le> 2 ^ (8 * (target_bytes ?v - 1) - 1)" by (intro power_increasing diff_le_mono mult_le_mono2) simp_all
      also have "\<dots> \<le> ?v" using L False by (intro target_bytes_bounds(3) [OF assms]) simp
      finally show False using \<open>?v < 2 ^ (8 * ?e - 1)\<close> by linarith
    qed
    have "(256 :: int) ^ (target_bytes ?v - 3) = 2 ^ (8 * (target_bytes ?v - 3))" by (simp add: power_mult)
    also have "\<dots> dvd 2 ^ (8 * (?e - 3))" using L by (intro le_imp_power_dvd) simp
    also have "\<dots> dvd ?v" unfolding v2 by simp
    finally show ?thesis using L e by (simp add: truncated_def dvd_div_mult_self)
  qed
  then show "truncated ?v = ?v" "target_bytes ?v < 256" by blast+
qed

lemma limit_bytes:
  assumes "1 \<le> n" "n < 2 ^ 256" shows "target_bytes n < 256"
proof (rule ccontr)
  assume L: "\<not> target_bytes n < 256"
  have "(2 :: int) ^ 256 \<le> 2 ^ (8 * (target_bytes n - 1) - 1)" using L by (intro power_increasing) simp_all
  also have "\<dots> \<le> n" using L assms(1) by (intro target_bytes_bounds(3)) simp_all
  finally show False using assms(2) by linarith
qed

text \<open>A target that is easier is less work.\<close>

lemma CalcWork_antitone:
  assumes "0 < CompactToBig b" "CompactToBig b \<le> CompactToBig b'" shows "CalcWork b' \<le> CalcWork b" "0 \<le> CalcWork b'"
proof -
  have "(2 ^ 256 :: int) div (CompactToBig b' + 1) \<le> 2 ^ 256 div (CompactToBig b + 1)"
    using assms by (intro zdiv_mono2) simp_all
  moreover have "0 \<le> (2 ^ 256 :: int) div (CompactToBig b' + 1)" using assms by (intro pos_imp_zdiv_nonneg_iff [THEN iffD2]) simp_all
  ultimately show "CalcWork b' \<le> CalcWork b" "0 \<le> CalcWork b'"
    using assms by (simp_all add: CalcWork_def Let_def push_bit_eq_mult)
qed

lemma HashToBig_le_val: "HashToBig h = le_val h"
  by (induction h) (simp_all add: HashToBig_def)

subsection \<open>Properties\<close>

text \<open>
  Compact targets: a target of up to 256 bits is read back from its compact form rounded down by
  less than one part in 2^15, never to zero; the rounding keeps the order of targets, and every
  positive value that has a compact form is read back exactly.\<close>

lemma compact_target:
  assumes "0 < n" "n \<le> m" "m < 2 ^ 256"
  shows "0 < CompactToBig (BigToCompact n) \<and> CompactToBig (BigToCompact n) \<le> n \<and>
    2 ^ 15 * (n - CompactToBig (BigToCompact n)) < n \<and>
    CompactToBig (BigToCompact n) \<le> CompactToBig (BigToCompact m) \<and>
    (0 < CompactToBig c \<longrightarrow> CompactToBig (BigToCompact (CompactToBig c)) = CompactToBig c)"
proof -
  have n: "CompactToBig (BigToCompact n) = truncated n" using assms by (intro CompactToBig_BigToCompact limit_bytes) simp_all
  have m: "CompactToBig (BigToCompact m) = truncated m" using assms by (intro CompactToBig_BigToCompact limit_bytes) simp_all
  show ?thesis unfolding n m
    using truncated_bounds(1-3) [OF assms(1)] truncated_mono [OF assms(1,2)] truncated_compact [of c] CompactToBig_BigToCompact [of "CompactToBig c"]
    by simp
qed

lemma compact_target_example:
  "2 ^ 15 * (123456789 - CompactToBig (BigToCompact 123456789)) < 123456789 \<and>
   CompactToBig (BigToCompact 123456789) \<le> CompactToBig (BigToCompact (2 ^ 200)) \<and>
   CompactToBig (BigToCompact (CompactToBig 0x1b00ffff)) = CompactToBig 0x1b00ffff"
proof -
  have "0 < CompactToBig 0x1b00ffff" by code_simp
  then show ?thesis using compact_target [of 123456789 "2 ^ 200" "0x1b00ffff"] by simp
qed

end
