(* ===== verification/Difficulty.thy ===== *)
theory Difficulty
  imports Work_Math Script_Base Complex_Main "HOL-Library.Signed_Division"
begin

text \<open>
  The WTEMA difficulty rule (\<^verbatim>\<open>node/blockchain/difficulty.go\<close>). A header context is a header
  with its ancestors. \<open>seconds\<close> is the division of a \<open>time.Duration\<close> by \<open>time.Second\<close>, \<open>big_div\<close>
  the Euclidean division of \<open>big.Int\<close>. The lemmas bound the targets that a chain can reach: one
  retarget multiplies the target by at most \<open>exp (t / half life)\<close>, and the code's rational bound
  for a half life is larger than the base of the natural logarithm.
\<close>

subsection \<open>Retargeting\<close>

record chainParams =
  p_MainNet :: bool
  p_PowLimit :: int
  p_PowLimitBits :: "32 word"
  p_PoWNoRetargeting :: bool
  p_TargetTimePerBlock :: int
  p_WTEMAHalfLife :: int
  p_ReduceMinDifficulty :: bool
  p_MinDiffReductionTime :: int

datatype HeaderCtx = HeaderCtx (h_Height: int) (h_Bits: "32 word") (h_Timestamp: int) (h_Parent: "HeaderCtx option")

definition seconds :: "int \<Rightarrow> int" where
  "seconds d = d sdiv 10 ^ 9"

definition big_div :: "int \<Rightarrow> int \<Rightarrow> go_error + int" where
  "big_div x y = (if y = 0 then Inl goPanic else Inr (if y > 0 then x div y else - (x div (- y))))"

definition calcNextRequiredDifficulty :: "HeaderCtx option \<Rightarrow> int \<Rightarrow> chainParams \<Rightarrow> go_error + 32 word" where
  "calcNextRequiredDifficulty lastNode newBlockTime P =
     (case lastNode of
        None \<Rightarrow> Inr (p_PowLimitBits P)
      | Some node \<Rightarrow>
          if p_PoWNoRetargeting P then Inr (p_PowLimitBits P)
          else if p_ReduceMinDifficulty P \<and> p_MainNet P then Inl goPanic
          else if p_ReduceMinDifficulty P \<and>
            newBlockTime > int64_of (h_Timestamp node + seconds (p_MinDiffReductionTime P)) then Inr (p_PowLimitBits P)
          else
            (case h_Parent node of
               None \<Rightarrow> Inr (h_Bits node)
             | Some parentNode \<Rightarrow>
                 let t = int64_of (h_Timestamp node - h_Timestamp parentNode);
                     T = seconds (p_TargetTimePerBlock P);
                     halfLife = seconds (p_WTEMAHalfLife P);
                     oldTarget = CompactToBig (h_Bits node)
                 in sbind (big_div (int64_of (t - T) * oldTarget) halfLife) (\<lambda>adjustment.
                      let newTarget = oldTarget + adjustment;
                          newTarget = (if newTarget > p_PowLimit P then p_PowLimit P else newTarget);
                          newTarget = (if newTarget \<le> 0 then 1 else newTarget)
                      in Inr (BigToCompact newTarget))))"

definition calcEasiestDifficulty :: "32 word \<Rightarrow> int \<Rightarrow> chainParams \<Rightarrow> go_error + 32 word" where
  "calcEasiestDifficulty bits duration P =
     (let durationVal = seconds duration
      in if p_ReduceMinDifficulty P \<and> durationVal > seconds (p_MinDiffReductionTime P) then Inr (p_PowLimitBits P)
         else
           let halfLifeSec = seconds (p_WTEMAHalfLife P);
               newTarget = CompactToBig bits;
               cap = (\<lambda>newTarget. Inr (BigToCompact (if newTarget > p_PowLimit P then p_PowLimit P else newTarget)))
           in if durationVal > 0 then
                if halfLifeSec = 0 then Inl goPanic
                else
                  let periods = int64_of (int64_of (int64_of (durationVal + halfLifeSec) - 1) sdiv halfLifeSec)
                  in if periods > 177 then Inr (p_PowLimitBits P)
                     else cap (drop_bit (nat (take_bit 64 (5 * periods))) (newTarget * 87 ^ nat periods))
              else cap newTarget)"

subsection \<open>The growth of a target\<close>

lemma exp_1_bound: "exp (1 :: real) \<le> 87 / 32"
proof -
  obtain t :: real where t: "\<bar>t\<bar> \<le> \<bar>1\<bar>" "exp 1 = (\<Sum>m<8. 1 ^ m / fact m) + exp t / fact 8 * 1 ^ 8"
    using Maclaurin_exp_le [of 1 8] by blast
  have "exp t \<le> exp 1" using t(1) by simp
  also have "\<dots> \<le> (3 :: real)" by (rule exp_le)
  finally have "exp t \<le> 3" .
  moreover have "(\<Sum>m<8. (1 :: real) ^ m / fact m) = 685 / 252" by (simp add: lessThan_nat_numeral lessThan_Suc fact_numeral)
  ultimately show ?thesis using t(2) by (simp add: fact_numeral)
qed

text \<open>One retarget: the target grows at most by the exponential of the block time over the half life,
  and never exceeds the limit.\<close>

lemma retarget_growth:
  fixes old HL t T :: int
  assumes "1 \<le> old" "0 < HL" "0 \<le> t" "0 \<le> T"
  shows "real_of_int (max 1 (old + (t - T) * old div HL)) \<le> real_of_int old * exp (real_of_int t / real_of_int HL)"
proof -
  have e: "1 + real_of_int t / real_of_int HL \<le> exp (real_of_int t / real_of_int HL)" by (rule exp_ge_add_one_self)
  have "0 \<le> real_of_int t / real_of_int HL" using assms by simp
  with e have e1: "1 \<le> exp (real_of_int t / real_of_int HL)" by linarith
  have "real_of_int ((t - T) * old div HL) \<le> real_of_int ((t - T) * old) / real_of_int HL" by (rule real_of_int_div4)
  also have "\<dots> \<le> real_of_int (t * old) / real_of_int HL"
    using assms by (intro divide_right_mono) (simp_all add: left_diff_distrib)
  finally have "real_of_int (old + (t - T) * old div HL) \<le> real_of_int old * (1 + real_of_int t / real_of_int HL)"
    by (simp add: distrib_left mult.commute)
  also have "\<dots> \<le> real_of_int old * exp (real_of_int t / real_of_int HL)" using e assms(1) by (intro mult_left_mono) simp_all
  finally have 1: "real_of_int (old + (t - T) * old div HL) \<le> real_of_int old * exp (real_of_int t / real_of_int HL)" .
  have "1 * 1 \<le> real_of_int old * exp (real_of_int t / real_of_int HL)" using assms(1) e1 by (intro mult_mono) simp_all
  with 1 show ?thesis by simp
qed

text \<open>Parameters of a network that retargets on every block, as the main network does.\<close>

definition retargets :: "chainParams \<Rightarrow> bool" where
  "retargets P \<longleftrightarrow> \<not> p_PoWNoRetargeting P \<and> \<not> p_ReduceMinDifficulty P \<and>
     0 < seconds (p_WTEMAHalfLife P) \<and> seconds (p_WTEMAHalfLife P) < 2 ^ 61 \<and>
     0 \<le> seconds (p_TargetTimePerBlock P) \<and> seconds (p_TargetTimePerBlock P) < 2 ^ 61 \<and>
     1 \<le> p_PowLimit P \<and> p_PowLimit P < 2 ^ 256 \<and> p_PowLimitBits P = BigToCompact (p_PowLimit P)"

definition target :: "HeaderCtx \<Rightarrow> int" where
  "target h = CompactToBig (h_Bits h)"

text \<open>A header with sane timestamps that are not earlier than its parent's, and a target within the limits.\<close>

definition header_sane :: "chainParams \<Rightarrow> HeaderCtx \<Rightarrow> bool" where
  "header_sane P h \<longleftrightarrow> 1 \<le> target h \<and> target h \<le> p_PowLimit P \<and>
     (\<exists>p. h_Parent h = Some p \<and> 0 \<le> h_Timestamp p \<and> h_Timestamp p \<le> h_Timestamp h \<and> h_Timestamp h < 2 ^ 61)"

definition block_time :: "HeaderCtx \<Rightarrow> int" where
  "block_time h = (case h_Parent h of None \<Rightarrow> 0 | Some p \<Rightarrow> h_Timestamp h - h_Timestamp p)"

definition next_target :: "chainParams \<Rightarrow> HeaderCtx \<Rightarrow> int" where
  "next_target P h = min (p_PowLimit P) (max 1 (target h + (block_time h - seconds (p_TargetTimePerBlock P)) * target h div seconds (p_WTEMAHalfLife P)))"

lemma sdiv_pos: "0 \<le> a \<Longrightarrow> 0 < b \<Longrightarrow> a sdiv b = a div (b :: int)"
  by (cases "a = 0") (simp_all add: signed_divide_int_def)

lemma retarget_value:
  assumes "retargets P" "header_sane P h"
  shows "calcNextRequiredDifficulty (Some h) time P = Inr (BigToCompact (next_target P h))"
    "CompactToBig (BigToCompact (next_target P h)) = truncated (next_target P h)" "1 \<le> next_target P h" "next_target P h \<le> p_PowLimit P"
proof -
  obtain p where p: "h_Parent h = Some p" "0 \<le> h_Timestamp p" "h_Timestamp p \<le> h_Timestamp h" "h_Timestamp h < 2 ^ 61"
    using assms(2) by (auto simp: header_sane_def)
  let ?T = "seconds (p_TargetTimePerBlock P)" and ?HL = "seconds (p_WTEMAHalfLife P)"
  have P: "0 < ?HL" "0 \<le> ?T" "?T < 2 ^ 61" "1 \<le> p_PowLimit P" "p_PowLimit P < 2 ^ 256" using assms(1) by (simp_all add: retargets_def)
  have i: "int64_of (h_Timestamp h - h_Timestamp p) = h_Timestamp h - h_Timestamp p"
    "int64_of (h_Timestamp h - h_Timestamp p - ?T) = h_Timestamp h - h_Timestamp p - ?T"
    using p P(2,3) by (intro int64_of_id; simp)+
  have clamp: "(let newTarget = (if x > p_PowLimit P then p_PowLimit P else x); newTarget = (if newTarget \<le> 0 then 1 else newTarget) in f newTarget) =
      f (min (p_PowLimit P) (max 1 x))" for x and f :: "int \<Rightarrow> 'a"
    using P(4) by (auto simp: Let_def min_def max_def)
  show "calcNextRequiredDifficulty (Some h) time P = Inr (BigToCompact (next_target P h))"
    using assms(1) P(1) p(1) by (simp add: calcNextRequiredDifficulty_def retargets_def next_target_def block_time_def target_def big_div_def i)
      (simp only: Let_def clamp [unfolded Let_def])
  show b: "1 \<le> next_target P h" "next_target P h \<le> p_PowLimit P" using P(4) by (simp_all add: next_target_def)
  show "CompactToBig (BigToCompact (next_target P h)) = truncated (next_target P h)"
    using b P(5) by (intro CompactToBig_BigToCompact limit_bytes) simp_all
qed

text \<open>A chain of headers on top of \<open>start\<close>, each with the required difficulty; \<open>d\<close> adds up the block
  times that the retargets used.\<close>

inductive extends :: "chainParams \<Rightarrow> HeaderCtx \<Rightarrow> HeaderCtx \<Rightarrow> int \<Rightarrow> bool" for P start where
  extends_refl: "extends P start start 0"
| extends_child: "extends P start h d \<Longrightarrow> calcNextRequiredDifficulty (Some h) time P = Inr bits \<Longrightarrow>
     h_Timestamp h \<le> time \<Longrightarrow> time < 2 ^ 61 \<Longrightarrow> extends P start (HeaderCtx height bits time (Some h)) (d + block_time h)"

lemma extends_bound:
  assumes "extends P start h d" "retargets P" "header_sane P start"
  shows "header_sane P h \<and> 0 \<le> d \<and> truncated (target h) = target h \<and>
    real_of_int (target h) \<le> real_of_int (target start) * exp (real_of_int d / real_of_int (seconds (p_WTEMAHalfLife P)))"
  using assms(1)
proof (induction rule: extends.induct)
  case extends_refl
  have "0 < CompactToBig (h_Bits start)" using assms(3) by (simp add: header_sane_def target_def)
  from truncated_compact(1) [OF this] assms(3) show ?case by (simp add: target_def)
next
  case (extends_child h d time bits height)
  let ?HL = "seconds (p_WTEMAHalfLife P)" and ?c = "HeaderCtx height bits time (Some h)"
  have h: "header_sane P h" "0 \<le> d" using extends_child.IH by simp_all
  note v = retarget_value [OF assms(2) h(1)]
  have bits: "bits = BigToCompact (next_target P h)" using extends_child.hyps(2) v(1) by simp
  have t: "target ?c = truncated (next_target P h)" by (simp add: target_def bits v(2))
  have n: "0 < next_target P h" using v(3) by simp
  have up: "target ?c \<le> next_target P h" "0 < target ?c" unfolding t using truncated_bounds(1,2) [OF n] by simp_all
  have bt: "0 \<le> block_time h" "0 \<le> h_Timestamp h" using h(1) by (auto simp: header_sane_def block_time_def)
  have c: "0 < CompactToBig bits" using up(2) by (simp add: target_def)
  have "real_of_int (target ?c) \<le> real_of_int (target h) * exp (real_of_int (block_time h) / real_of_int ?HL)"
  proof -
    have "real_of_int (max 1 (target h + (block_time h - seconds (p_TargetTimePerBlock P)) * target h div ?HL)) \<le>
        real_of_int (target h) * exp (real_of_int (block_time h) / real_of_int ?HL)"
      using assms(2) h(1) bt(1) by (intro retarget_growth) (simp_all add: retargets_def header_sane_def)
    moreover have "target ?c \<le> max 1 (target h + (block_time h - seconds (p_TargetTimePerBlock P)) * target h div ?HL)"
      using up(1) unfolding next_target_def by linarith
    ultimately show ?thesis by linarith
  qed
  also have "\<dots> \<le> real_of_int (target start) * exp (real_of_int d / real_of_int ?HL) * exp (real_of_int (block_time h) / real_of_int ?HL)"
    using extends_child.IH by (intro mult_right_mono) simp_all
  also have "\<dots> = real_of_int (target start) * exp (real_of_int (d + block_time h) / real_of_int ?HL)"
    by (simp add: exp_add add_divide_distrib mult.assoc)
  finally have "real_of_int (target ?c) \<le> real_of_int (target start) * exp (real_of_int (d + block_time h) / real_of_int ?HL)" .
  moreover have "header_sane P ?c" using up v(4) bt extends_child.hyps(3,4) by (simp add: header_sane_def)
  moreover have "truncated (target ?c) = target ?c" using truncated_compact(1) [OF c] by (simp add: target_def)
  ultimately show ?case using h(2) bt by simp
qed

lemma easiest_bound:
  assumes "extends P start h d" "retargets P" "header_sane P start" "d \<le> seconds duration" "seconds duration < 2 ^ 61"
  shows "\<exists>bits. calcEasiestDifficulty (h_Bits start) duration P = Inr bits \<and> target h \<le> CompactToBig bits"
proof -
  let ?D = "seconds duration" and ?HL = "seconds (p_WTEMAHalfLife P)" and ?L = "p_PowLimit P" and ?t0 = "target start"
  note inv = extends_bound [OF assms(1-3)]
  have P: "0 < ?HL" "?HL < 2 ^ 61" "1 \<le> ?L" "?L < 2 ^ 256" "p_PowLimitBits P = BigToCompact ?L" "\<not> p_ReduceMinDifficulty P"
    using assms(2) by (simp_all add: retargets_def)
  have h: "1 \<le> target h" "target h \<le> ?L" "1 \<le> ?t0" using inv assms(3) by (simp_all add: header_sane_def)
  have capped: "target h \<le> CompactToBig (BigToCompact n)" if n: "target h \<le> n" "n \<le> ?L" for n
  proof -
    have "target h = truncated (target h)" using inv by simp
    also have "\<dots> \<le> truncated n" by (rule truncated_mono) (use h(1) n(1) in simp_all)
    also have "\<dots> = CompactToBig (BigToCompact n)"
      using h(1) n P(4) by (intro CompactToBig_BigToCompact [symmetric] limit_bytes) simp_all
    finally show ?thesis .
  qed
  have cap: "target h \<le> CompactToBig (BigToCompact (if n > ?L then ?L else n))" if "target h \<le> n" for n
    using capped [of n] capped [of ?L] h(2) that by simp
  show ?thesis
  proof (cases "0 < ?D")
    case False
    then have "d = 0" "?D = 0" using inv assms(4) by linarith+
    then have "target h \<le> ?t0" using inv by simp
    then have "target h \<le> CompactToBig (BigToCompact (if ?t0 > ?L then ?L else ?t0))" by (rule cap)
    then show ?thesis using False P(6) unfolding calcEasiestDifficulty_def Let_def target_def by simp
  next
    case True
    define N where "N = (?D + ?HL - 1) div ?HL"
    define n where "n = nat N"
    have "1 \<le> N" using True P(1) le_div_int(1) [of ?HL 1 "?D + ?HL - 1"] by (simp add: N_def)
    then have n: "N = int n" by (simp add: n_def)
    have le: "?D \<le> N * ?HL" using le_div_int(2) [OF P(1), of "?D + ?HL - 1" "N + 1"] by (simp add: N_def distrib_right)
    have "N * ?HL \<le> ?D + ?HL - 1" using le_div_int(1) [OF P(1), of N "?D + ?HL - 1"] by (simp only: N_def order_refl)
    moreover have "N * 1 \<le> N * ?HL" using \<open>1 \<le> N\<close> P(1) by (intro mult_left_mono) simp_all
    ultimately have small: "N \<le> ?D + ?HL - 1" by linarith
    have "int64_of (?D + ?HL) = ?D + ?HL" "int64_of (?D + ?HL - 1) = ?D + ?HL - 1" "int64_of N = N"
      using True P(1,2) assms(5) small \<open>1 \<le> N\<close> by (intro int64_of_id; simp)+
    moreover have "(?D + ?HL - 1) sdiv ?HL = N" unfolding N_def using True P(1) by (intro sdiv_pos) simp_all
    ultimately have periods: "int64_of (int64_of (int64_of (?D + ?HL) - 1) sdiv ?HL) = N" by simp
    show ?thesis
    proof (cases "N > 177")
      case big: True
      have "calcEasiestDifficulty (h_Bits start) duration P = Inr (p_PowLimitBits P)"
        using True P(1,6) big by (simp add: calcEasiestDifficulty_def periods Let_def)
      then show ?thesis using capped [of ?L] h(2) P(5) by simp
    next
      case few: False
      define E where "E = ?t0 * 87 ^ n div 32 ^ n"
      have "take_bit 64 (5 * N) = 5 * N" using few \<open>1 \<le> N\<close> by (intro take_bit_int_eq_self) simp_all
      then have "drop_bit (nat (take_bit 64 (5 * N))) (?t0 * 87 ^ nat N) = E"
        by (simp add: E_def n drop_bit_eq_div power_mult nat_mult_distrib)
      then have easiest: "calcEasiestDifficulty (h_Bits start) duration P = Inr (BigToCompact (if E > ?L then ?L else E))"
        using True P(1,6) few unfolding calcEasiestDifficulty_def periods Let_def target_def by simp
      have "real_of_int d / real_of_int ?HL \<le> real n"
      proof -
        have "d \<le> int n * ?HL" using le assms(4) n by simp
        then have "real_of_int d \<le> real n * real_of_int ?HL" by (metis of_int_le_iff of_int_mult of_int_of_nat_eq)
        then show ?thesis using P(1) by (simp add: divide_le_eq)
      qed
      then have "exp (real_of_int d / real_of_int ?HL) \<le> exp (real n)" by simp
      also have "\<dots> = exp 1 ^ n" by (simp add: exp_of_nat_mult [of n 1, simplified])
      also have "\<dots> \<le> (87 / 32) ^ n" by (intro power_mono exp_1_bound) simp
      finally have "real_of_int ?t0 * exp (real_of_int d / real_of_int ?HL) \<le> real_of_int ?t0 * (87 / 32) ^ n"
        using h(3) by (intro mult_left_mono) simp_all
      then have "real_of_int (target h) \<le> real_of_int ?t0 * (87 / 32) ^ n" using inv by linarith
      then have "real_of_int (target h) * 32 ^ n \<le> real_of_int ?t0 * 87 ^ n" by (simp add: power_divide field_simps)
      then have "real_of_int (target h * 32 ^ n) \<le> real_of_int (?t0 * 87 ^ n)" by simp
      then have "target h * 32 ^ n \<le> ?t0 * 87 ^ n" by (simp only: of_int_le_iff)
      then have "target h \<le> E" unfolding E_def using le_div_int(1) [of "32 ^ n"] by simp
      then show ?thesis using cap [of E] easiest by blast
    qed
  qed
qed

text \<open>The parameters of the main network.\<close>

definition mainPowLimit :: int where
  "mainPowLimit = push_bit 208 1 - 1"

definition MainNetParams :: chainParams where
  "MainNetParams =
     \<lparr>p_MainNet = True, p_PowLimit = mainPowLimit, p_PowLimitBits = 0x1b00ffff, p_PoWNoRetargeting = False,
      p_TargetTimePerBlock = 60 * 10 ^ 9 * 3 + 10 ^ 9 * 14, p_WTEMAHalfLife = 3600 * 10 ^ 9 * 168,
      p_ReduceMinDifficulty = False, p_MinDiffReductionTime = 0\<rparr>"

lemma MainNetParams_retargets: "retargets MainNetParams"
proof -
  have "BigToCompact (push_bit 208 1 - 1) = 0x1b00ffff" by code_simp
  then show ?thesis by (simp add: retargets_def MainNetParams_def mainPowLimit_def seconds_def sdiv_pos push_bit_eq_mult)
qed

text \<open>The block time of the starting header itself has to be covered: with a duration of zero, as
  between a header and a child with the same timestamp, the bound is the starting target, while the
  child may be required to have an easier one.\<close>

lemma easiest_difficulty_gap:
  "case calcNextRequiredDifficulty (Some (HeaderCtx 1 0x1a00ffff 100000 (Some (HeaderCtx 0 0x1b00ffff 0 None)))) 100000 MainNetParams of
     Inl _ \<Rightarrow> False
   | Inr next \<Rightarrow> (case calcEasiestDifficulty 0x1a00ffff 0 MainNetParams of
       Inl _ \<Rightarrow> False | Inr easiest \<Rightarrow> CompactToBig easiest < CompactToBig next)"
  by code_simp

subsection \<open>Properties\<close>

text \<open>
  The required difficulty of a block is the WTEMA formula: on a network that retargets, no panic,
  the target of the parent changed by (t - T) / half life of it, at least 1, at most the limit, and
  rounded down to a compact target that is again within these bounds.\<close>

lemma next_difficulty_spec:
  assumes "retargets P" "header_sane P h"
  shows "calcNextRequiredDifficulty (Some h) time P = Inr (BigToCompact (next_target P h)) \<and>
    1 \<le> next_target P h \<and> next_target P h \<le> p_PowLimit P \<and>
    1 \<le> CompactToBig (BigToCompact (next_target P h)) \<and> CompactToBig (BigToCompact (next_target P h)) \<le> next_target P h"
  using retarget_value [OF assms] truncated_bounds(1,2) [of "next_target P h"] by simp

lemma next_difficulty_spec_example:
  "\<exists>bits. calcNextRequiredDifficulty (Some (HeaderCtx 1 0x1a00ffff 1200 (Some (HeaderCtx 0 0x1b00ffff 1000 None)))) 1300 MainNetParams = Inr bits \<and>
     1 \<le> CompactToBig bits"
proof -
  have "CompactToBig 0x1a00ffff = 0xffff * 2 ^ 184" by code_simp
  then have "header_sane MainNetParams (HeaderCtx 1 0x1a00ffff 1200 (Some (HeaderCtx 0 0x1b00ffff 1000 None)))"
    by (simp add: header_sane_def target_def MainNetParams_def mainPowLimit_def push_bit_eq_mult)
  from next_difficulty_spec [OF MainNetParams_retargets this] show ?thesis by blast
qed

text \<open>
  C21. The checkpoint sanity bound is sound: on a network that retargets, no chain on top of a header
  has a block with an easier target than \<open>calcEasiestDifficulty\<close> returns for the bits of that header
  and a duration that covers the block times the retargets used. This needs that 87/32 exceeds the
  base of the natural logarithm, and rests on the rounding of every step being downwards.\<close>

theorem easiest_difficulty_sound:
  assumes "extends P start h d" "retargets P" "header_sane P start" "d \<le> seconds duration" "seconds duration < 2 ^ 61"
  shows "\<exists>bits. calcEasiestDifficulty (h_Bits start) duration P = Inr bits \<and> CompactToBig (h_Bits h) \<le> CompactToBig bits"
  using easiest_bound [OF assms] by (simp add: target_def)

theorem easiest_difficulty_sound_witness:
  "\<exists>bits next. calcNextRequiredDifficulty (Some (HeaderCtx 1 0x1a00ffff 1200 (Some (HeaderCtx 0 0x1b00ffff 1000 None)))) 1300 MainNetParams = Inr next \<and>
     calcEasiestDifficulty 0x1a00ffff (200 * 10 ^ 9) MainNetParams = Inr bits \<and> CompactToBig next \<le> CompactToBig bits"
proof -
  let ?h = "HeaderCtx 1 0x1a00ffff 1200 (Some (HeaderCtx 0 0x1b00ffff 1000 None))"
  have "CompactToBig 0x1a00ffff = 0xffff * 2 ^ 184" by code_simp
  then have h: "header_sane MainNetParams ?h" by (simp add: header_sane_def target_def MainNetParams_def mainPowLimit_def push_bit_eq_mult)
  obtain next' where n: "calcNextRequiredDifficulty (Some ?h) 1300 MainNetParams = Inr next'"
    using retarget_value(1) [OF MainNetParams_retargets h] by blast
  have "extends MainNetParams ?h (HeaderCtx 2 next' 1300 (Some ?h)) (0 + block_time ?h)"
    by (rule extends_child [OF extends_refl n]) simp_all
  from easiest_difficulty_sound [OF this MainNetParams_retargets h, of "200 * 10 ^ 9"] n show ?thesis
    by (simp add: block_time_def seconds_def sdiv_pos)
qed

end
