(* ===== verification/Chain_Errors.thy ===== *)
theory Chain_Errors
  imports Prelude
begin

text \<open>
  The rule errors of the chain package (\<^verbatim>\<open>node/blockchain/error.go\<close>). A failure is a rule
  error with its code, an assertion that the code raises for an inconsistent state, an error of another package, or a
  run-time panic; the descriptions are left out.
\<close>

datatype (plugins only: code size) RuleErrorCode =
    ErrDuplicateBlock | ErrBlockTooBig | ErrBlockVersionTooOld | ErrInvalidTime | ErrTimeTooOld
  | ErrTimeTooNew | ErrDifficultyTooLow | ErrUnexpectedDifficulty | ErrHighHash
  | ErrCertificateTooLarge | ErrCertificateMissing | ErrDisallowedCertVersion | ErrBadMerkleRoot
  | ErrBadCheckpoint | ErrForkTooOld | ErrCheckpointTimeTooOld | ErrNoTransactions | ErrNoTxInputs
  | ErrNoTxOutputs | ErrTxTooBig | ErrBadTxOutValue | ErrDuplicateTxInputs | ErrBadTxInput
  | ErrMissingTxOut | ErrUnfinalizedTx | ErrDuplicateTx | ErrOverwriteTx | ErrImmatureSpend
  | ErrSpendTooHigh | ErrBadFees | ErrInsufficientFee | ErrFirstTxNotCoinbase | ErrMultipleCoinbases
  | ErrBadCoinbaseScriptLen | ErrBadCoinbaseValue | ErrMissingCoinbaseHeight | ErrBadCoinbaseHeight
  | ErrScriptMalformed | ErrScriptValidation | ErrUnexpectedWitness | ErrInvalidWitnessCommitment
  | ErrWitnessCommitmentMismatch | ErrPreviousBlockUnknown | ErrInvalidAncestorBlock
  | ErrPrevBlockNotBest | ErrTimewarpAttack | ErrRankPenalty

datatype rule_error = ruleError RuleErrorCode | assertError | otherRuleError | rulePanic

end
