(* ===== verification/Merkle.thy ===== *)
theory Merkle
  imports Chain_Errors Wire_Tx Script_Tokenizer "HOL-Library.Log_Nat"
begin

text \<open>
  Merkle trees of a block (\<^verbatim>\<open>node/blockchain/merkle.go\<close>, \<^verbatim>\<open>rolling_merkle.go\<close>). The code has two
  algorithms: the whole tree in a linear array with nil for missing nodes, and the rolling store,
  which keeps one root per bit of the number of leaves. Both are related to \<open>merkle_root\<close>, which
  hashes a list of leaves level by level and pairs an odd last node with itself. A transaction
  stands for its \<open>btcutil.Tx\<close> wrapper, whose cached hashes are those of the transaction; the
  double SHA-256 is the parameter \<open>dh\<close>. The merging loop of the rolling store does not structurally
  end, so it is a partial function whose result is \<open>None\<close> when it does not return. The exponent
  of \<open>nextPowerOfTwo\<close> is the exact one; the floating point logarithm of the code agrees with it for the
  numbers of transactions that fit into a block. The size hint of the store only reserves memory.
\<close>

subsection \<open>The tree in a linear array\<close>

definition nextPowerOfTwo :: "int \<Rightarrow> int" where
  "nextPowerOfTwo n =
     (if n AND (n - 1) = 0 then n
      else let exponent = bitlen n in int64_of (push_bit (nat exponent) 1))"

definition HashMerkleBranches :: "(bytes \<Rightarrow> hash) \<Rightarrow> hash \<Rightarrow> hash \<Rightarrow> hash" where
  "HashMerkleBranches dh left right = dh (left @ right)"

definition chainZeroHash :: hash where
  "chainZeroHash = replicate 32 0"

text \<open>The leaf of a transaction: the coinbase has a zero witness hash.\<close>

definition leaf_hash :: "(bytes \<Rightarrow> hash) \<Rightarrow> bool \<Rightarrow> nat \<Rightarrow> MsgTx \<Rightarrow> hash" where
  "leaf_hash dh witness i tx =
     (if witness \<and> i = 0 then chainZeroHash else if witness then WitnessHash dh tx else TxHash dh tx)"

definition leaf_hashes :: "(bytes \<Rightarrow> hash) \<Rightarrow> bool \<Rightarrow> MsgTx list \<Rightarrow> hash list" where
  "leaf_hashes dh witness txs = map (\<lambda>(i, tx). leaf_hash dh witness i tx) (enumerate 0 txs)"

definition parent_hash :: "(bytes \<Rightarrow> hash) \<Rightarrow> hash option \<Rightarrow> hash option \<Rightarrow> hash option" where
  "parent_hash dh left right =
     (case left of
        None \<Rightarrow> None
      | Some l \<Rightarrow> (case right of
            None \<Rightarrow> Some (HashMerkleBranches dh l l)
          | Some r \<Rightarrow> Some (HashMerkleBranches dh l r)))"

function build_loop :: "(bytes \<Rightarrow> hash) \<Rightarrow> nat \<Rightarrow> nat \<Rightarrow> hash option list \<Rightarrow> go_error + hash option list" where
  "build_loop dh i offset merkles =
     (if i + 1 < length merkles then
        if length merkles \<le> offset then Inl goPanic
        else
          build_loop dh (i + 2) (offset + 1) (merkles[offset := parent_hash dh (merkles ! i) (merkles ! (i + 1))])
      else Inr merkles)"
  by pat_completeness auto

termination
  by (relation "measure (\<lambda>(dh, i, offset, merkles). length merkles - i)") auto

definition BuildMerkleTreeStore :: "(bytes \<Rightarrow> hash) \<Rightarrow> MsgTx list \<Rightarrow> bool \<Rightarrow> go_error + hash option list" where
  "BuildMerkleTreeStore dh transactions witness =
     (let nextPoT = nextPowerOfTwo (int (length transactions)); arraySize = nextPoT * 2 - 1
      in if arraySize < 0 then Inl goPanic
         else
           let merkles = replicate (nat arraySize) None;
               hashes = map Some (leaf_hashes dh witness transactions)
           in if length hashes > length merkles then Inl goPanic
              else build_loop dh 0 (nat nextPoT) (hashes @ drop (length hashes) merkles))"

subsection \<open>The rolling store\<close>

record rollingMerkleTreeStore =
  st_roots :: "hash list"
  st_numLeaves :: "64 word"

definition newRollingMerkleTreeStore :: "64 word \<Rightarrow> rollingMerkleTreeStore" where
  "newRollingMerkleTreeStore sz = \<lparr>st_roots = [], st_numLeaves = 0\<rparr>"

function add_loop :: "(bytes \<Rightarrow> hash) \<Rightarrow> 64 word \<Rightarrow> nat \<Rightarrow> hash list \<Rightarrow> hash \<Rightarrow> go_error + hash list" where
  "add_loop dh numLeaves h roots newRoot =
     (if drop_bit h numLeaves AND 1 = 1 then
        if roots = [] then Inl goPanic
        else add_loop dh numLeaves (h + 1) (butlast roots) (HashMerkleBranches dh (last roots) newRoot)
      else Inr (roots @ [newRoot]))"
  by pat_completeness auto

termination
proof (relation "measure (\<lambda>(dh, numLeaves, h, roots, newRoot). length roots)")
qed auto

definition rolling_add :: "(bytes \<Rightarrow> hash) \<Rightarrow> rollingMerkleTreeStore \<Rightarrow> hash \<Rightarrow> go_error + rollingMerkleTreeStore" where
  "rolling_add dh s add =
     sbind (add_loop dh (st_numLeaves s) 0 (st_roots s) add) (\<lambda>roots.
       Inr (s\<lparr>st_roots := roots, st_numLeaves := st_numLeaves s + 1\<rparr>))"

fun add_all :: "(bytes \<Rightarrow> hash) \<Rightarrow> rollingMerkleTreeStore \<Rightarrow> hash list \<Rightarrow> go_error + rollingMerkleTreeStore" where
  "add_all dh s [] = Inr s"
| "add_all dh s (x # xs) = sbind (rolling_add dh s x) (\<lambda>s. add_all dh s xs)"

partial_function (option) shift_rows :: "64 word \<Rightarrow> nat \<Rightarrow> 64 word \<Rightarrow> 64 word option" where
  "shift_rows currentLeaves h numLeaves =
     (if drop_bit h currentLeaves AND 1 = 0
      then shift_rows currentLeaves ((h + 1) mod 256) (drop_bit 1 numLeaves)
      else Some numLeaves)"

partial_function (option) merge_roots ::
  "(bytes \<Rightarrow> hash) \<Rightarrow> rollingMerkleTreeStore \<Rightarrow> (go_error + rollingMerkleTreeStore) option" where
  "merge_roots dh s =
     (if length (st_roots s) > 1 then
        Option.bind (shift_rows (st_numLeaves s) 0 (st_numLeaves s)) (\<lambda>numLeaves.
          (case rolling_add dh (s\<lparr>st_numLeaves := numLeaves\<rparr>) (last (st_roots s)) of
             Inl e \<Rightarrow> Some (Inl e)
           | Inr s' \<Rightarrow> merge_roots dh s'))
      else Some (Inr s))"

definition first_root :: "rollingMerkleTreeStore \<Rightarrow> go_error + hash" where
  "first_root s = go_index (st_roots s) 0"

definition add_last_again ::
  "(bytes \<Rightarrow> hash) \<Rightarrow> rollingMerkleTreeStore \<Rightarrow> MsgTx list \<Rightarrow> bool \<Rightarrow> go_error + rollingMerkleTreeStore" where
  "add_last_again dh s adds witness =
     (if length adds > 0 \<and> length adds mod 2 \<noteq> 0
      then rolling_add dh s (if witness then WitnessHash dh (last adds) else TxHash dh (last adds))
      else Inr s)"

definition calcMerkleRoot ::
  "(bytes \<Rightarrow> hash) \<Rightarrow> rollingMerkleTreeStore \<Rightarrow> MsgTx list \<Rightarrow> bool \<Rightarrow> (go_error + hash) option" where
  "calcMerkleRoot dh s adds witness =
     (case add_all dh s (leaf_hashes dh witness adds) of
        Inl e \<Rightarrow> Some (Inl e)
      | Inr s \<Rightarrow>
          if st_numLeaves s = 1 then Some (first_root s)
          else
            (case add_last_again dh s adds witness of
               Inl e \<Rightarrow> Some (Inl e)
             | Inr s \<Rightarrow>
                 Option.bind (merge_roots dh s) (\<lambda>r.
                   (case r of Inl e \<Rightarrow> Some (Inl e) | Inr s \<Rightarrow> Some (first_root s)))))"

definition CalcMerkleRoot :: "(bytes \<Rightarrow> hash) \<Rightarrow> MsgTx list \<Rightarrow> bool \<Rightarrow> (go_error + hash) option" where
  "CalcMerkleRoot dh transactions witness =
     calcMerkleRoot dh (newRollingMerkleTreeStore (of_nat (length transactions))) transactions witness"

subsection \<open>Witness commitments\<close>

definition CoinbaseWitnessDataLen :: nat where "CoinbaseWitnessDataLen = 32"
definition CoinbaseWitnessPkScriptLength :: nat where "CoinbaseWitnessPkScriptLength = 38"

abbreviation (input) OP_DATA_36 :: byte where "OP_DATA_36 \<equiv> 0x24"

definition WitnessMagicBytes :: bytes where
  "WitnessMagicBytes = [OP_RETURN, OP_DATA_36, 0xaa, 0x21, 0xa9, 0xed]"

definition IsCoinBaseTx :: "MsgTx \<Rightarrow> bool" where
  "IsCoinBaseTx msgTx =
     (if length (tx_TxIn msgTx) \<noteq> 1 then False
      else let prevOut = ti_PreviousOutPoint (tx_TxIn msgTx ! 0)
           in \<not> (out_Index prevOut \<noteq> 2 ^ 32 - 1 \<or> out_Hash prevOut \<noteq> chainZeroHash))"

definition ExtractWitnessCommitment :: "MsgTx \<Rightarrow> bytes option" where
  "ExtractWitnessCommitment msgTx =
     (if \<not> IsCoinBaseTx msgTx then None
      else
        (case List.find (\<lambda>txOut. CoinbaseWitnessPkScriptLength \<le> length (to_PkScript txOut) \<and>
                take (length WitnessMagicBytes) (to_PkScript txOut) = WitnessMagicBytes) (rev (tx_TxOut msgTx)) of
           None \<Rightarrow> None
         | Some txOut \<Rightarrow> Some (drop (length WitnessMagicBytes) (take CoinbaseWitnessPkScriptLength (to_PkScript txOut)))))"

definition ValidateWitnessCommitment :: "(bytes \<Rightarrow> hash) \<Rightarrow> MsgTx list \<Rightarrow> (rule_error + unit) option" where
  "ValidateWitnessCommitment dh blk =
     (case blk of
        [] \<Rightarrow> Some (Inl (ruleError ErrNoTransactions))
      | coinbaseTx # _ \<Rightarrow>
          if tx_TxIn coinbaseTx = [] then Some (Inl (ruleError ErrNoTxInputs))
          else
            (case ExtractWitnessCommitment coinbaseTx of
               None \<Rightarrow>
                 if list_ex HasWitness blk then Some (Inl (ruleError ErrUnexpectedWitness)) else Some (Inr ())
             | Some witnessCommitment \<Rightarrow>
                 let coinbaseWitness = ti_Witness (hd (tx_TxIn coinbaseTx))
                 in if length coinbaseWitness \<noteq> 1 then Some (Inl (ruleError ErrInvalidWitnessCommitment))
                    else
                      let witnessNonce = coinbaseWitness ! 0
                      in if length witnessNonce \<noteq> CoinbaseWitnessDataLen
                         then Some (Inl (ruleError ErrInvalidWitnessCommitment))
                         else
                           Option.bind (CalcMerkleRoot dh blk True) (\<lambda>r.
                             (case r of
                                Inl _ \<Rightarrow> Some (Inl rulePanic)
                              | Inr witnessMerkleRoot \<Rightarrow>
                                  if dh (witnessMerkleRoot @ witnessNonce) \<noteq> witnessCommitment
                                  then Some (Inl (ruleError ErrWitnessCommitmentMismatch))
                                  else Some (Inr ())))))"

subsection \<open>The tree by levels\<close>

fun pairs :: "('a \<Rightarrow> 'a \<Rightarrow> 'a) \<Rightarrow> 'a list \<Rightarrow> 'a list" where
  "pairs H (x # y # zs) = H x y # pairs H zs"
| "pairs H [x] = []"
| "pairs H [] = []"

fun level :: "('a \<Rightarrow> 'a \<Rightarrow> 'a) \<Rightarrow> 'a list \<Rightarrow> 'a list" where
  "level H (x # y # zs) = H x y # level H zs"
| "level H [x] = [H x x]"
| "level H [] = []"

lemma length_pairs [simp]: "length (pairs H xs) = length xs div 2"
  by (induction H xs rule: pairs.induct) simp_all

lemma length_level [simp]: "length (level H xs) = (length xs + 1) div 2"
  by (induction H xs rule: level.induct) simp_all

function merkle_root :: "('a \<Rightarrow> 'a \<Rightarrow> 'a) \<Rightarrow> 'a list \<Rightarrow> 'a" where
  "merkle_root H xs = (if length xs \<le> 1 then hd xs else merkle_root H (level H xs))"
  by pat_completeness auto

termination
  by (relation "measure (\<lambda>(H, xs). length xs)") auto

function roots_of :: "('a \<Rightarrow> 'a \<Rightarrow> 'a) \<Rightarrow> 'a list \<Rightarrow> 'a list" where
  "roots_of H xs =
     (if xs = [] then [] else roots_of H (pairs H xs) @ (if odd (length xs) then [last xs] else []))"
  by pat_completeness auto

termination
  by (relation "measure (\<lambda>(H, xs). length xs)") (auto simp: neq_Nil_conv)

declare build_loop.simps [simp del] add_loop.simps [simp del] merkle_root.simps [simp del] roots_of.simps [simp del]

lemma pairs_snoc: "pairs H (xs @ [x]) = (if odd (length xs) then pairs H xs @ [H (last xs) x] else pairs H xs)"
  by (induction H xs rule: pairs.induct) simp_all

lemma level_pairs: "level H xs = pairs H (if odd (length xs) then xs @ [last xs] else xs)"
  by (induction H xs rule: pairs.induct) (auto split: if_splits)

lemma roots_of_even: "even (length xs) \<Longrightarrow> roots_of H xs = roots_of H (pairs H xs)"
  by (subst roots_of.simps) (auto simp: roots_of.simps)

lemma roots_of_odd: "odd (length xs) \<Longrightarrow> roots_of H xs = roots_of H (pairs H xs) @ [last xs]"
  by (subst roots_of.simps) auto

lemma word_bit_0: "(w :: 64 word) AND 1 = 1 \<longleftrightarrow> odd w" "w AND 1 = 0 \<longleftrightarrow> even w"
  by (simp_all add: and_one_eq mod_2_eq_odd)

lemma of_nat_odd: "n < 2 ^ 64 \<Longrightarrow> odd (of_nat n :: 64 word) \<longleftrightarrow> odd n"
  by (simp add: even_of_nat_iff)

lemma drop_bit_of_nat_64: "n < 2 ^ 64 \<Longrightarrow> drop_bit 1 (of_nat n :: 64 word) = of_nat (n div 2)"
  by (simp add: word_unat_eq_iff unat_div unat_of_nat drop_bit_Suc)

lemma drop_bit_eq_zero_64: "64 \<le> h \<Longrightarrow> drop_bit h (w :: 64 word) = 0"
  by (rule bit_word_eqI) (simp add: bit_drop_bit_eq)

lemma add_loop_roots:
  assumes "drop_bit h n = of_nat (length xs)" "length xs < 2 ^ 64"
  shows "add_loop dh n h (roots_of (HashMerkleBranches dh) xs) x = Inr (roots_of (HashMerkleBranches dh) (xs @ [x]))"
  using assms
proof (induction "length xs" arbitrary: xs h x rule: less_induct)
  case less
  let ?H = "HashMerkleBranches dh"
  have bit: "drop_bit h n AND 1 = 1 \<longleftrightarrow> odd (length xs)" using less.prems by (simp add: word_bit_0 of_nat_odd)
  show ?case
  proof (cases "odd (length xs)")
    case False
    then show ?thesis using bit
      by (simp add: add_loop.simps [of dh n h] roots_of_odd [of "xs @ [x]"] roots_of_even [of xs] pairs_snoc)
  next
    case True
    have d: "drop_bit (Suc h) n = of_nat (length (pairs ?H xs))"
      using less.prems drop_bit_of_nat_64 [of "length xs"] drop_bit_drop_bit [of 1 h n] by simp
    have "0 < length xs" using True by (cases xs) simp_all
    then have "add_loop dh n (Suc h) (roots_of ?H (pairs ?H xs)) (?H (last xs) x) = Inr (roots_of ?H (pairs ?H xs @ [?H (last xs) x]))"
      using less.prems by (intro less.hyps d) simp_all
    then show ?thesis using True bit
      by (simp add: add_loop.simps [of dh n h] roots_of_odd [of xs] roots_of_even [of "xs @ [x]"] pairs_snoc)
  qed
qed


text \<open>The store after a list of leaves.\<close>

definition holds_leaves :: "(bytes \<Rightarrow> hash) \<Rightarrow> rollingMerkleTreeStore \<Rightarrow> hash list \<Rightarrow> bool" where
  "holds_leaves dh s xs \<longleftrightarrow> st_roots s = roots_of (HashMerkleBranches dh) xs \<and> st_numLeaves s = of_nat (length xs)"

lemma rolling_add_holds:
  assumes "holds_leaves dh s xs" "length xs < 2 ^ 64"
  shows "\<exists>s'. rolling_add dh s x = Inr s' \<and> holds_leaves dh s' (xs @ [x])"
  using assms add_loop_roots [of 0 "st_numLeaves s" xs dh x] by (simp add: rolling_add_def holds_leaves_def)

lemma add_all_holds:
  assumes "holds_leaves dh s xs" "length xs + length ys < 2 ^ 64"
  shows "\<exists>s'. add_all dh s ys = Inr s' \<and> holds_leaves dh s' (xs @ ys)"
  using assms
proof (induction ys arbitrary: s xs)
  case Nil
  then show ?case by simp
next
  case (Cons y ys)
  obtain s1 where s1: "rolling_add dh s y = Inr s1" "holds_leaves dh s1 (xs @ [y])"
    using rolling_add_holds [OF Cons.prems(1)] Cons.prems(2) by fastforce
  from Cons.IH [OF s1(2)] Cons.prems(2) show ?case by (simp add: s1(1))
qed

lemma roots_of_Nil: "roots_of H xs = [] \<longleftrightarrow> xs = []"
proof (induction "length xs" arbitrary: xs rule: less_induct)
  case less
  show ?case
  proof (cases "odd (length xs)")
    case True
    then show ?thesis by (auto simp: roots_of_odd)
  next
    case False
    show ?thesis
    proof (cases "xs = []")
      case nonempty: False
      then have "length xs div 2 < length xs" "pairs H xs \<noteq> []"
        using False by (cases xs; cases "tl xs"; simp)+
      then show ?thesis using less.hyps [of "pairs H xs"] False nonempty by (simp add: roots_of_even [of xs])
    qed (simp add: roots_of.simps)
  qed
qed

lemma merkle_root_even: "even (length xs) \<Longrightarrow> xs \<noteq> [] \<Longrightarrow> merkle_root H xs = merkle_root H (pairs H xs)"
  by (subst merkle_root.simps) (cases xs; cases "tl xs"; auto simp: level_pairs)

lemma merkle_root_dup: "odd (length xs) \<Longrightarrow> 1 < length xs \<Longrightarrow> merkle_root H (xs @ [last xs]) = merkle_root H xs"
  by (subst (1 2) merkle_root.simps) (auto simp: level_pairs)

lemma single_root:
  "xs \<noteq> [] \<Longrightarrow> length (roots_of H xs) \<le> 1 \<Longrightarrow> roots_of H xs = [merkle_root H xs]"
proof (induction "length xs" arbitrary: xs rule: less_induct)
  case less
  show ?case
  proof (cases "odd (length xs)")
    case True
    then have "roots_of H (pairs H xs) = []" using less.prems(2) by (simp add: roots_of_odd)
    then have "pairs H xs = []" by (simp add: roots_of_Nil)
    then have "length xs div 2 = 0" by (metis length_pairs list.size(3))
    then obtain x where "xs = [x]" using True by (cases xs; cases "tl xs"; auto)
    then show ?thesis by (simp add: roots_of.simps merkle_root.simps)
  next
    case False
    have "0 < length xs" using less.prems(1) by simp
    then have "length xs div 2 < length xs" "0 < length xs div 2" using False by presburger+
    then show ?thesis using less.hyps [of "pairs H xs"] less.prems False
      by (simp add: roots_of_even [of xs] merkle_root_even flip: length_greater_0_conv)
  qed
qed

lemma shift_rows_holds:
  assumes "drop_bit h cur = of_nat (length xs)" "length xs < 2 ^ 64" "xs \<noteq> []"
  shows "\<exists>ys. shift_rows cur h (of_nat (length xs)) = Some (of_nat (length ys)) \<and> odd (length ys) \<and>
    roots_of H ys = roots_of H xs \<and> merkle_root H ys = merkle_root H xs \<and>
    (ys = xs \<or> 2 * length ys \<le> length xs)"
  using assms
proof (induction "length xs" arbitrary: xs h rule: less_induct)
  case less
  have bit: "drop_bit h cur AND 1 = 0 \<longleftrightarrow> even (length xs)" using less.prems by (simp add: word_bit_0 of_nat_odd)
  show ?case
  proof (cases "odd (length xs)")
    case True
    then show ?thesis using bit by (auto simp: shift_rows.simps [of cur h])
  next
    case False
    have "(of_nat (length xs) :: 64 word) \<noteq> 0" using less.prems(2,3) by (simp add: word_unat_eq_iff unat_of_nat)
    then have "drop_bit h cur \<noteq> 0" using less.prems(1) by simp
    then have h: "h < 64" by (rule contrapos_np) (simp add: drop_bit_eq_zero_64)
    have "0 < length xs" using less.prems(3) by simp
    then have len: "length xs div 2 < length xs" "0 < length xs div 2" using False by presburger+
    have d: "drop_bit (Suc h) cur = of_nat (length (pairs H xs))"
      using less.prems drop_bit_of_nat_64 [of "length xs"] drop_bit_drop_bit [of 1 h cur] by simp
    have "pairs H xs \<noteq> []" using len by (simp flip: length_greater_0_conv)
    then have "\<exists>ys. shift_rows cur (Suc h) (of_nat (length (pairs H xs))) = Some (of_nat (length ys)) \<and> odd (length ys) \<and>
        roots_of H ys = roots_of H (pairs H xs) \<and> merkle_root H ys = merkle_root H (pairs H xs) \<and>
        (ys = pairs H xs \<or> 2 * length ys \<le> length (pairs H xs))"
      using len(1) less.prems(2) by (intro less.hyps d) simp_all
    then obtain ys where ys:
      "shift_rows cur (Suc h) (of_nat (length xs div 2)) = Some (of_nat (length ys))" "odd (length ys)"
      "roots_of H ys = roots_of H (pairs H xs)" "merkle_root H ys = merkle_root H (pairs H xs)"
      "ys = pairs H xs \<or> 2 * length ys \<le> length (pairs H xs)"
      by (simp only: length_pairs) blast
    have "length ys \<le> length xs div 2" using ys(5) by auto
    then have small: "2 * length ys \<le> length xs" by linarith
    have "shift_rows cur h (of_nat (length xs)) = shift_rows cur (Suc h) (of_nat (length xs div 2))"
      using bit False h drop_bit_of_nat_64 [OF less.prems(2)] by (simp add: shift_rows.simps [of cur h])
    with ys(1-4) small False less.prems(3) show ?thesis
      by (intro exI [of _ ys]) (simp add: roots_of_even [of xs] merkle_root_even)
  qed
qed

text \<open>Every round of the merging loop makes this number smaller.\<close>

definition merge_measure :: "nat \<Rightarrow> nat" where
  "merge_measure n = (if odd n then n + 2 else n)"

lemma merge_roots_holds:
  assumes "holds_leaves dh s xs" "merge_measure (length xs) < 2 ^ 64" "xs \<noteq> []"
  shows "\<exists>s'. merge_roots dh s = Some (Inr s') \<and> st_roots s' = [merkle_root (HashMerkleBranches dh) xs]"
  using assms
proof (induction "merge_measure (length xs)" arbitrary: s xs rule: less_induct)
  case less
  let ?H = "HashMerkleBranches dh"
  have roots: "st_roots s = roots_of ?H xs" "st_numLeaves s = of_nat (length xs)" using less.prems(1) by (simp_all add: holds_leaves_def)
  have small: "length xs < 2 ^ 64" using less.prems(2) by (simp add: merge_measure_def split: if_splits)
  show ?case
  proof (cases "length (st_roots s) > 1")
    case False
    then show ?thesis using single_root [of xs ?H] less.prems(3) by (simp add: merge_roots.simps [of dh s] roots)
  next
    case True
    obtain ys where ys: "shift_rows (st_numLeaves s) 0 (st_numLeaves s) = Some (of_nat (length ys))" "odd (length ys)"
        "roots_of ?H ys = st_roots s" "merkle_root ?H ys = merkle_root ?H xs" "ys = xs \<or> 2 * length ys \<le> length xs"
      using shift_rows_holds [of 0 "st_numLeaves s" xs ?H] small less.prems(3) by (auto simp: roots)
    have "length ys \<noteq> 1"
    proof
      assume "length ys = 1"
      then have "length (roots_of ?H ys) = 1" by (simp add: roots_of_odd roots_of_Nil [THEN iffD2] flip: length_0_conv)
      then show False using True ys(3) by simp
    qed
    then have len: "3 \<le> length ys" using ys(2) by presburger
    have "holds_leaves dh (s\<lparr>st_numLeaves := of_nat (length ys)\<rparr>) ys" using ys(3) by (simp add: holds_leaves_def)
    moreover have "length ys < 2 ^ 64" using ys(5) small by auto
    moreover have "last (st_roots s) = last ys" using ys(2) unfolding ys(3) [symmetric] by (simp add: roots_of_odd)
    ultimately obtain s' where s': "rolling_add dh (s\<lparr>st_numLeaves := of_nat (length ys)\<rparr>) (last (st_roots s)) = Inr s'"
        "holds_leaves dh s' (ys @ [last ys])"
      using rolling_add_holds by fastforce
    have m: "merge_measure (length (ys @ [last ys])) < merge_measure (length xs)"
      using ys(2,5) len by (auto simp: merge_measure_def)
    then obtain s'' where "merge_roots dh s' = Some (Inr s'')" "st_roots s'' = [merkle_root ?H (ys @ [last ys])]"
      using less.hyps [OF _ s'(2)] less.prems(2) by fastforce
    then show ?thesis using True ys(1,2,4) s'(1) len merkle_root_dup [of ys ?H] by (simp add: merge_roots.simps [of dh s])
  qed
qed

lemma length_leaf_hashes [simp]: "length (leaf_hashes dh witness txs) = length txs"
  by (simp add: leaf_hashes_def)

lemma last_leaf_hashes:
  assumes "1 < length txs"
  shows "last (leaf_hashes dh witness txs) = (if witness then WitnessHash dh (last txs) else TxHash dh (last txs))"
proof -
  have "txs \<noteq> []" using assms by auto
  then show ?thesis using assms
    by (simp add: leaf_hashes_def last_conv_nth leaf_hash_def nth_enumerate_eq flip: length_greater_0_conv)
qed

lemma leaf_hashes_witness: "leaf_hashes dh True (tx # txs) = chainZeroHash # map (WitnessHash dh) txs"
  by (rule nth_equalityI) (simp_all add: leaf_hashes_def leaf_hash_def nth_enumerate_eq nth_Cons split: nat.split)

lemma CalcMerkleRoot_value:
  assumes "txs \<noteq> []" "length txs < 2 ^ 63"
  shows "CalcMerkleRoot dh txs witness = Some (Inr (merkle_root (HashMerkleBranches dh) (leaf_hashes dh witness txs)))"
proof -
  let ?H = "HashMerkleBranches dh" and ?L = "leaf_hashes dh witness txs" and ?s0 = "newRollingMerkleTreeStore (of_nat (length txs))"
  have L: "?L \<noteq> []" using assms(1) by (simp flip: length_greater_0_conv)
  have "holds_leaves dh ?s0 []" by (simp add: holds_leaves_def newRollingMerkleTreeStore_def roots_of.simps)
  then obtain s1 where s1: "add_all dh ?s0 ?L = Inr s1" "holds_leaves dh s1 ?L"
    using add_all_holds [of dh ?s0 "[]" ?L] assms(2) by auto
  have one: "st_numLeaves s1 = 1 \<longleftrightarrow> length txs = 1"
    using s1(2) assms(2) by (simp add: holds_leaves_def word_unat_eq_iff unat_of_nat)
  show ?thesis
  proof (cases "length txs = 1")
    case True
    then have "length (roots_of ?H ?L) \<le> 1"
      using roots_of_odd [of ?L ?H] roots_of_Nil [of ?H "pairs ?H ?L"] by (simp flip: length_0_conv)
    with single_root [OF L, of ?H] s1 one True show ?thesis
      by (simp add: CalcMerkleRoot_def calcMerkleRoot_def first_root_def holds_leaves_def go_index_def)
  next
    case False
    then have many: "1 < length txs" using assms(1) by (cases txs) auto
    obtain s2 xs where s2: "add_last_again dh s1 txs witness = Inr s2" "holds_leaves dh s2 xs" "merkle_root ?H xs = merkle_root ?H ?L" "even (length xs)"
        "length xs \<le> length txs + 1" "xs \<noteq> []"
    proof (cases "even (length txs)")
      case True
      then show ?thesis using that [of s1 ?L] s1(2) L by (simp add: add_last_again_def)
    next
      case False
      then obtain s2 where "rolling_add dh s1 (last ?L) = Inr s2" "holds_leaves dh s2 (?L @ [last ?L])"
        using rolling_add_holds [OF s1(2), of "last ?L"] assms(2) by auto
      then show ?thesis using that [of s2 "?L @ [last ?L]"] False many assms(1) merkle_root_dup [of ?L ?H]
        by (simp add: add_last_again_def last_leaf_hashes odd_iff_mod_2_eq_one)
    qed
    have "merge_measure (length xs) < 2 ^ 64" using s2(4,5) assms(2) by (simp add: merge_measure_def)
    then obtain s3 where "merge_roots dh s2 = Some (Inr s3)" "st_roots s3 = [merkle_root ?H ?L]"
      using merge_roots_holds [OF s2(2) _ s2(6)] s2(3) by auto
    with s1(1) one False s2(1) show ?thesis
      by (simp add: CalcMerkleRoot_def calcMerkleRoot_def first_root_def go_index_def)
  qed
qed


fun row_above :: "(bytes \<Rightarrow> hash) \<Rightarrow> hash option list \<Rightarrow> hash option list" where
  "row_above dh (x # y # zs) = parent_hash dh x y # row_above dh zs"
| "row_above dh [x] = []"
| "row_above dh [] = []"

definition row :: "nat \<Rightarrow> hash list \<Rightarrow> hash option list" where
  "row n xs = map Some xs @ replicate (n - length xs) None"

lemma length_row [simp]: "length xs \<le> n \<Longrightarrow> length (row n xs) = n"
  by (simp add: row_def)

lemma length_row_above [simp]: "length (row_above dh xs) = length xs div 2"
  by (induction dh xs rule: row_above.induct) simp_all

lemma row_above_empty: "row_above dh (replicate n None) = replicate (n div 2) None"
  by (induction n rule: induct_nat_012) (simp_all add: parent_hash_def)

lemma row_above_row: "length xs \<le> 2 * n \<Longrightarrow> row_above dh (row (2 * n) xs) = row n (level (HashMerkleBranches dh) xs)"
proof (induction "HashMerkleBranches dh" xs arbitrary: n rule: level.induct)
  case (1 x y zs)
  then obtain m where "n = Suc m" by (cases n) simp_all
  with 1 show ?case by (simp add: row_def parent_hash_def)
next
  case (2 x)
  then obtain m where "n = Suc m" by (cases n) simp_all
  then show ?case by (simp add: row_def parent_hash_def row_above_empty)
next
  case 3
  then show ?case by (simp add: row_def row_above_empty)
qed

lemma build_loop_row:
  assumes "even (length r)" "length J = length r div 2 + k" "length D + length r \<ge> 2"
  shows "build_loop dh (length P) (length P + length (r @ D)) (P @ r @ D @ J) =
     build_loop dh (length (P @ r)) (length (P @ r) + length (D @ row_above dh r)) ((P @ r) @ (D @ row_above dh r) @ drop (length r div 2) J)"
  using assms
proof (induction dh r arbitrary: P D J rule: row_above.induct)
  case (1 dh x y zs)
  obtain j J' where J: "J = j # J'" using 1(3) by (cases J) simp_all
  have "build_loop dh (length P) (length P + length ((x # y # zs) @ D)) (P @ (x # y # zs) @ D @ J) =
      build_loop dh (length (P @ [x, y])) (length (P @ [x, y]) + length (zs @ (D @ [parent_hash dh x y])))
        ((P @ [x, y]) @ zs @ (D @ [parent_hash dh x y]) @ J')"
    by (subst build_loop.simps) (simp add: J nth_append list_update_append)
  also have "\<dots> = build_loop dh (length ((P @ [x, y]) @ zs))
      (length ((P @ [x, y]) @ zs) + length ((D @ [parent_hash dh x y]) @ row_above dh zs))
      (((P @ [x, y]) @ zs) @ ((D @ [parent_hash dh x y]) @ row_above dh zs) @ drop (length zs div 2) J')"
  proof (cases "zs = []")
    case False
    then show ?thesis using 1(2,3) J by (intro 1(1)) (auto simp: Suc_le_eq)
  qed simp
  finally show ?case by (simp add: J)
qed simp_all

lemma build_loop_root:
  assumes "length xs \<le> 2 ^ k" "2 ^ k < 2 * length xs" "length J = 2 ^ k - 1"
  shows "\<exists>rows. build_loop dh (length P) (length P + 2 ^ k) (P @ row (2 ^ k) xs @ J) = Inr (rows @ [Some (merkle_root (HashMerkleBranches dh) xs)])"
  using assms
proof (induction k arbitrary: xs J P)
  case 0
  then have "length xs = 1" by simp
  then obtain x where "xs = [x]" by (auto simp: length_Suc_conv)
  then show ?case using 0(3) by (simp add: build_loop.simps row_def merkle_root.simps)
next
  case (Suc k)
  let ?H = "HashMerkleBranches dh" and ?r = "row (2 ^ Suc k) xs"
  have r: "length ?r = 2 ^ Suc k" "even (length ?r)" using Suc.prems(1) by simp_all
  have "(1 :: nat) \<le> 2 ^ k" by simp
  then have J: "length J = 2 ^ k + (2 ^ k - 1)" using Suc.prems(3) by simp
  have "build_loop dh (length P) (length P + length (?r @ [])) (P @ ?r @ [] @ J) =
      build_loop dh (length (P @ ?r)) (length (P @ ?r) + length ([] @ row_above dh ?r)) ((P @ ?r) @ ([] @ row_above dh ?r) @ drop (length ?r div 2) J)"
    using r J by (intro build_loop_row [where k = "2 ^ k - 1"]) simp_all
  also have "row_above dh ?r = row (2 ^ k) (level ?H xs)" using Suc.prems(1) by (simp add: row_above_row)
  finally have step: "build_loop dh (length P) (length P + 2 ^ Suc k) (P @ ?r @ J) =
      build_loop dh (length (P @ ?r)) (length (P @ ?r) + 2 ^ k) ((P @ ?r) @ row (2 ^ k) (level ?H xs) @ drop (2 ^ k) J)"
    using r Suc.prems(1) by simp
  have "2 ^ k < length xs" using Suc.prems(2) by simp
  with \<open>1 \<le> 2 ^ k\<close> have "\<not> length xs \<le> 1" by linarith
  then have "merkle_root ?H xs = merkle_root ?H (level ?H xs)" by (subst merkle_root.simps) simp
  moreover have "\<exists>rows. build_loop dh (length (P @ ?r)) (length (P @ ?r) + 2 ^ k) ((P @ ?r) @ row (2 ^ k) (level ?H xs) @ drop (2 ^ k) J) =
      Inr (rows @ [Some (merkle_root ?H (level ?H xs))])"
    using Suc.prems(1,2) J by (intro Suc.IH) simp_all
  ultimately show ?case unfolding step by simp
qed

lemma nextPowerOfTwo_value:
  assumes "1 \<le> n" "n < 2 ^ 62"
  shows "\<exists>k. nextPowerOfTwo n = 2 ^ k \<and> n \<le> 2 ^ k \<and> 2 ^ k < 2 * n"
proof -
  define k where "k = nat (bitlen n - 1)"
  have "bitlen n \<noteq> 0" using bitlen_bounds [of n] assms(1) by auto
  then have "0 < bitlen n" using bitlen_nonneg [of n] by linarith
  then have b: "2 ^ k \<le> n" "n < 2 ^ Suc k" "nat (bitlen n) = Suc k" using bitlen_bounds [of n] assms(1) by (simp_all add: k_def nat_diff_distrib)
  show ?thesis
  proof (cases "n AND (n - 1) = 0")
    case True
    have "n = 2 ^ k"
    proof (rule ccontr)
      assume "n \<noteq> 2 ^ k"
      then have "2 ^ k \<le> n - 1" using b(1) by simp
      then have "n div 2 ^ k = 1" "(n - 1) div 2 ^ k = 1" using b(2) by (simp_all add: int_div_pos_eq [of _ _ 1 "n - 2 ^ k"] int_div_pos_eq [of _ _ 1 "n - 1 - 2 ^ k"])
      then have "bit n k" "bit (n - 1) k" by (simp_all add: bit_iff_odd)
      then have "bit (n AND (n - 1)) k" by (simp add: bit_and_iff)
      then show False by (simp add: True)
    qed
    then show ?thesis using True by (intro exI [of _ k]) (simp add: nextPowerOfTwo_def)
  next
    case False
    have "n \<noteq> 2 ^ k"
    proof
      assume "n = 2 ^ k"
      then have "n AND (n - 1) = take_bit k (2 ^ k)" by (simp add: take_bit_eq_mask mask_eq_exp_minus_1)
      then show False using False by simp
    qed
    then have "2 ^ k < n" using b(1) by simp
    then have "(2 :: int) ^ k < 2 ^ 62" using assms(2) by linarith
    then have "k < 62" by (rule power_less_imp_less_exp [rotated]) simp
    then have "(2 :: int) ^ Suc k < 2 ^ 63" by (intro power_strict_increasing) simp_all
    moreover have "- (2 ^ 63) \<le> (2 :: int) ^ Suc k" by (rule order_trans [of _ 0]) simp_all
    ultimately have "int64_of (2 ^ Suc k) = 2 ^ Suc k" by (rule int64_of_id [rotated])
    then show ?thesis using False b \<open>2 ^ k < n\<close>
      by (intro exI [of _ "Suc k"]) (simp add: nextPowerOfTwo_def push_bit_eq_mult)
  qed
qed

lemma nat_int_2pow: "int n \<le> 2 ^ k \<longleftrightarrow> n \<le> 2 ^ k" "2 ^ k < 2 * int n \<longleftrightarrow> 2 ^ k < 2 * n"
proof -
  have p: "(2 :: int) ^ k = int (2 ^ k)" by simp
  show "int n \<le> 2 ^ k \<longleftrightarrow> n \<le> 2 ^ k" unfolding p by (rule of_nat_le_iff)
  have "2 ^ k < 2 * int n \<longleftrightarrow> int (2 ^ k) < int (2 * n)" by simp
  also have "\<dots> \<longleftrightarrow> 2 ^ k < 2 * n" by (rule of_nat_less_iff)
  finally show "2 ^ k < 2 * int n \<longleftrightarrow> 2 ^ k < 2 * n" .
qed

lemma BuildMerkleTreeStore_value:
  assumes "txs \<noteq> []" "length txs < 2 ^ 62"
  shows "\<exists>rows. BuildMerkleTreeStore dh txs witness = Inr (rows @ [Some (merkle_root (HashMerkleBranches dh) (leaf_hashes dh witness txs))])"
proof -
  let ?L = "leaf_hashes dh witness txs"
  have "1 \<le> int (length txs)" "int (length txs) < 2 ^ 62" using assms by (cases txs; simp)+
  then obtain k where k: "nextPowerOfTwo (int (length txs)) = 2 ^ k" "int (length txs) \<le> 2 ^ k" "2 ^ k < 2 * int (length txs)"
    using nextPowerOfTwo_value by blast
  have n: "length txs \<le> 2 ^ k" "2 ^ k < 2 * length txs" using k(2,3) by (simp_all add: nat_int_2pow)
  have one: "(1 :: int) \<le> 2 ^ k" "(1 :: nat) \<le> 2 ^ k" by simp_all
  have "(1 :: nat) \<le> 2 ^ k * 2" using one(2) by linarith
  then have "2 ^ k * 2 - 1 = int (2 ^ k * 2 - 1)" by (simp add: of_nat_diff)
  then have sz: "nat (2 ^ k * 2 - 1) = 2 ^ k * 2 - 1" by (simp only: nat_int)
  have neg: "\<not> 2 ^ k * 2 - 1 < (0 :: int)" using one(1) by linarith
  have "replicate (2 ^ k * 2 - 1 - length txs) None = replicate (2 ^ k - length txs) None @ replicate (2 ^ k - 1) (None :: hash option)"
    using n(1) one(2) by (simp flip: replicate_add)
  then have arr: "map Some ?L @ drop (length (map Some ?L)) (replicate (2 ^ k * 2 - 1) None) = row (2 ^ k) ?L @ replicate (2 ^ k - 1) None"
    by (simp add: row_def)
  have "\<exists>rows. build_loop dh (length ([] :: hash option list)) (length ([] :: hash option list) + 2 ^ k) ([] @ row (2 ^ k) ?L @ replicate (2 ^ k - 1) None) =
      Inr (rows @ [Some (merkle_root (HashMerkleBranches dh) ?L)])"
    using n by (intro build_loop_root) simp_all
  then show ?thesis using sz neg n(1) one(2) arr by (simp add: BuildMerkleTreeStore_def k(1) Let_def nat_power_eq)
qed

subsection \<open>Properties\<close>

text \<open>
  C22. The two merkle tree algorithms agree: for every block with a transaction, the rolling store
  returns, without a panic, the last entry of the linear array, and it is the root of the tree built level by
  level with an odd last node paired with itself.\<close>

theorem merkle_root_equivalence:
  assumes "txs \<noteq> []" "length txs < 2 ^ 62"
  shows "\<exists>root rows. CalcMerkleRoot dh txs witness = Some (Inr root) \<and>
    BuildMerkleTreeStore dh txs witness = Inr (rows @ [Some root]) \<and>
    root = merkle_root (HashMerkleBranches dh) (leaf_hashes dh witness txs)"
  using BuildMerkleTreeStore_value [OF assms] CalcMerkleRoot_value [OF assms(1)] assms(2) by simp

definition sum_hash :: "bytes \<Rightarrow> hash" where
  "sum_hash bs = replicate 31 0 @ [foldl (\<lambda>a b. 3 * a + b) 1 bs]"

definition empty_tx :: "nat \<Rightarrow> MsgTx" where
  "empty_tx n = \<lparr>tx_Version = 1, tx_TxIn = [], tx_TxOut = [], tx_LockTime = n\<rparr>"

theorem merkle_root_equivalence_witness:
  "\<exists>root rows. CalcMerkleRoot sum_hash (map empty_tx [1, 2, 3]) False = Some (Inr root) \<and>
     BuildMerkleTreeStore sum_hash (map empty_tx [1, 2, 3]) False = Inr (rows @ [Some root])"
  using merkle_root_equivalence [of "map empty_tx [1, 2, 3]" sum_hash False] by auto

text \<open>The commitments that a transaction holds: the 32 bytes behind the magic bytes in the output scripts that begin with these, in the
  order of the outputs.\<close>

definition commitments :: "MsgTx \<Rightarrow> bytes list" where
  "commitments tx = map (\<lambda>txOut. take 32 (drop 6 (to_PkScript txOut)))
     (filter (\<lambda>txOut. 38 \<le> length (to_PkScript txOut) \<and> take 6 (to_PkScript txOut) = [0x6a, 0x24, 0xaa, 0x21, 0xa9, 0xed]) (tx_TxOut tx))"

lemma find_rev: "List.find P (rev xs) = (if filter P xs = [] then None else Some (last (filter P xs)))"
proof (induction xs rule: rev_induct)
  case (snoc x xs)
  then show ?case by simp
qed simp

lemma ExtractWitnessCommitment_last:
  "ExtractWitnessCommitment tx = (if IsCoinBaseTx tx \<and> commitments tx \<noteq> [] then Some (last (commitments tx)) else None)"
proof -
  have len: "length WitnessMagicBytes = 6" by (simp add: WitnessMagicBytes_def)
  have magic: "WitnessMagicBytes = [0x6a, 0x24, 0xaa, 0x21, 0xa9, 0xed]" by (simp add: WitnessMagicBytes_def)
  show ?thesis unfolding ExtractWitnessCommitment_def commitments_def len
    by (simp add: magic find_rev last_map drop_take CoinbaseWitnessPkScriptLength_def)
qed

text \<open>
  C23. A block with a transaction that has inputs passes the witness commitment check iff its first transaction is no coinbase or holds
  no commitment and there is no witness data, or it is a coinbase with exactly one witness item, of 32 bytes, in its first input and the commitment
  in the last of its outputs that has one is the hash of the
  root over all witness hashes, with zero for the coinbase, and that item. The check always returns
  and never panics.\<close>

theorem witness_commitment_iff:
  assumes "length (coinbase # txs) < 2 ^ 62" "tx_TxIn coinbase = input # inputs"
  shows "(ValidateWitnessCommitment dh (coinbase # txs) = Some (Inr ()) \<or>
      (\<exists>e. ValidateWitnessCommitment dh (coinbase # txs) = Some (Inl (ruleError e)))) \<and>
    (ValidateWitnessCommitment dh (coinbase # txs) = Some (Inr ()) \<longleftrightarrow>
      (if IsCoinBaseTx coinbase \<and> commitments coinbase \<noteq> []
       then \<exists>nonce. ti_Witness input = [nonce] \<and> length nonce = 32 \<and>
           dh (merkle_root (HashMerkleBranches dh) (chainZeroHash # map (WitnessHash dh) txs) @ nonce) = last (commitments coinbase)
       else \<forall>tx \<in> set (coinbase # txs). \<not> HasWitness tx))"
proof -
  have "CalcMerkleRoot dh (coinbase # txs) True =
      Some (Inr (merkle_root (HashMerkleBranches dh) (chainZeroHash # map (WitnessHash dh) txs)))"
    using CalcMerkleRoot_value [of "coinbase # txs" dh True] assms(1) by (simp add: leaf_hashes_witness)
  then show ?thesis using assms(2)
    by (auto simp: ValidateWitnessCommitment_def Let_def CoinbaseWitnessDataLen_def list_ex_iff length_Suc_conv ExtractWitnessCommitment_last)
qed

text \<open>A coinbase with two commitments, of which the last one counts.\<close>

definition coinbase_with :: "bytes \<Rightarrow> bytes \<Rightarrow> MsgTx" where
  "coinbase_with nonce commitment =
     \<lparr>tx_Version = 1,
      tx_TxIn = [\<lparr>ti_PreviousOutPoint = \<lparr>out_Hash = chainZeroHash, out_Index = 2 ^ 32 - 1\<rparr>, ti_SignatureScript = [],
        ti_Witness = [nonce], ti_Sequence = 0\<rparr>],
      tx_TxOut = [\<lparr>to_Value = 0, to_PkScript = WitnessMagicBytes @ replicate 32 0\<rparr>, \<lparr>to_Value = 0, to_PkScript = WitnessMagicBytes @ commitment\<rparr>],
      tx_LockTime = 0\<rparr>"

lemma coinbase_with_commitment:
  "length commitment = 32 \<Longrightarrow> IsCoinBaseTx (coinbase_with nonce commitment) \<and> commitments (coinbase_with nonce commitment) = [replicate 32 0, commitment]"
  by (simp add: commitments_def IsCoinBaseTx_def coinbase_with_def WitnessMagicBytes_def)

theorem witness_commitment_iff_witness:
  "ValidateWitnessCommitment sum_hash
     [coinbase_with chainZeroHash (sum_hash (merkle_root (HashMerkleBranches sum_hash) [chainZeroHash, WitnessHash sum_hash (empty_tx 1)] @ chainZeroHash)),
      empty_tx 1] = Some (Inr ())"
  (is "ValidateWitnessCommitment _ [coinbase_with _ ?c, _] = _")
proof -
  have "length ?c = 32" by (simp add: sum_hash_def)
  note * = coinbase_with_commitment [OF this, of chainZeroHash]
  have "tx_TxIn (coinbase_with chainZeroHash ?c) = hd (tx_TxIn (coinbase_with chainZeroHash ?c)) # []"
    "ti_Witness (hd (tx_TxIn (coinbase_with chainZeroHash ?c))) = [chainZeroHash]" "length chainZeroHash = 32"
    by (simp_all add: coinbase_with_def chainZeroHash_def)
  with witness_commitment_iff [of "coinbase_with chainZeroHash ?c" "[empty_tx 1]" _ _ sum_hash] * show ?thesis by auto
qed

end
