(* ===== verification/Compress.thy ===== *)
theory Compress
  imports Script_Tokenizer
begin

text \<open>
  The compression of stored transaction outputs (\<^verbatim>\<open>node/blockchain/compress.go\<close>): variable length
  quantities, amounts, scripts, outputs. The functions that write into a target slice return the
  target afterwards with their result; writing, slicing or copying out of range is a panic. \<open>uint64\<close> values are
  words, the conversion of one to \<open>int\<close> is \<open>sint\<close>. The public key parser and the uncompressed
  serialization of the curve package are parameters; a nil script is the empty one. The values that
  accompany an error are not modelled.
\<close>

subsection \<open>Variable length quantities\<close>

lemma unat_drop_7: "unat (drop_bit 7 (n :: 64 word)) = unat n div 128"
  by (simp add: drop_bit_eq_div unat_div)

lemma vlq_smaller: "0x7f < (n :: 64 word) \<Longrightarrow> unat (drop_bit 7 n - 1) < unat n"
proof -
  assume "0x7f < n"
  then have n: "127 < unat n" by (simp add: word_less_nat_alt)
  then have one: "1 \<le> unat (drop_bit 7 n)" by (simp only: unat_drop_7)
  then have "unat (drop_bit 7 n - 1) = unat (drop_bit 7 n) - 1" by (intro unat_minus_one) auto
  also have "unat (drop_bit 7 n) \<le> unat n" by (simp only: unat_drop_7 div_le_dividend)
  finally show ?thesis using one n by linarith
qed

function serialize_size_loop :: "nat \<Rightarrow> 64 word \<Rightarrow> nat" where
  "serialize_size_loop sz n = (if n > 0x7f then serialize_size_loop (sz + 1) (drop_bit 7 n - 1) else sz)"
  by pat_completeness auto

termination
  by (relation "measure (\<lambda>(sz, n). unat n)") (auto intro: vlq_smaller)

definition serializeSizeVLQ :: "64 word \<Rightarrow> nat" where
  "serializeSizeVLQ n = serialize_size_loop 1 n"

function put_loop :: "bytes \<Rightarrow> nat \<Rightarrow> 64 word \<Rightarrow> go_error + bytes \<times> nat" where
  "put_loop target offset n =
     (let highBitMask = (if offset = 0 then 0x00 else 0x80 :: byte)
      in if length target \<le> offset then Inl goPanic
         else
           let target = target[offset := ucast (n AND 0x7f) OR highBitMask]
           in if n \<le> 0x7f then Inr (target, offset) else put_loop target (offset + 1) (drop_bit 7 n - 1))"
  by pat_completeness auto

termination
  by (relation "measure (\<lambda>(target, offset, n). length target - offset)") auto

function reverse_loop :: "'a list \<Rightarrow> nat \<Rightarrow> nat \<Rightarrow> 'a list" where
  "reverse_loop target i j =
     (if i < j then reverse_loop (target[i := target ! j, j := target ! i]) (i + 1) (j - 1) else target)"
  by pat_completeness auto

termination
  by (relation "measure (\<lambda>(target, i, j). j - i)") auto

definition putVLQ :: "bytes \<Rightarrow> 64 word \<Rightarrow> go_error + bytes \<times> nat" where
  "putVLQ target n = sbind (put_loop target 0 n) (\<lambda>(target, offset). Inr (reverse_loop target 0 offset, offset + 1))"

fun deserialize_loop :: "64 word \<Rightarrow> nat \<Rightarrow> bytes \<Rightarrow> 64 word \<times> nat" where
  "deserialize_loop n sz [] = (n, sz)"
| "deserialize_loop n sz (val # vals) =
     (let sz = sz + 1; n = push_bit 7 n OR ucast (val AND 0x7f)
      in if val AND 0x80 \<noteq> 0x80 then (n, sz) else deserialize_loop (n + 1) sz vals)"

definition deserializeVLQ :: "bytes \<Rightarrow> 64 word \<times> nat" where
  "deserializeVLQ serialized = deserialize_loop 0 0 serialized"

declare serialize_size_loop.simps [simp del] put_loop.simps [simp del] reverse_loop.simps [simp del]

subsection \<open>Amounts\<close>

function strip_zeros :: "64 word \<Rightarrow> nat \<Rightarrow> 64 word \<times> nat" where
  "strip_zeros amount exponent =
     (if amount mod 10 = 0 \<and> exponent < 9 then strip_zeros (amount div 10) (exponent + 1) else (amount, exponent))"
  by pat_completeness auto

termination
  by (relation "measure (\<lambda>(amount, exponent). 9 - exponent)") auto

declare strip_zeros.simps [simp del]

definition compressTxOutAmount :: "64 word \<Rightarrow> 64 word" where
  "compressTxOutAmount amount =
     (if amount = 0 then 0
      else
        let (amount, exponent) = strip_zeros amount 0
        in if exponent < 9 then
             let lastDigit = amount mod 10; amount = amount div 10
             in 1 + 10 * (9 * amount + lastDigit - 1) + of_nat exponent
           else 10 + 10 * (amount - 1))"

fun apply_exponent :: "64 word \<Rightarrow> nat \<Rightarrow> 64 word" where
  "apply_exponent n 0 = n"
| "apply_exponent n (Suc exponent) = apply_exponent (n * 10) exponent"

definition decompressTxOutAmount :: "64 word \<Rightarrow> 64 word" where
  "decompressTxOutAmount amount =
     (if amount = 0 then 0
      else
        let amount = amount - 1; exponent = amount mod 10; amount = amount div 10;
            n = (if exponent < 9 then let lastDigit = amount mod 9 + 1; amount = amount div 9 in amount * 10 + lastDigit
                 else amount + 1)
        in apply_exponent n (unat exponent))"

subsection \<open>Scripts\<close>

definition go_set :: "'a list \<Rightarrow> nat \<Rightarrow> 'a \<Rightarrow> go_error + 'a list" where
  "go_set xs i v = (if i < length xs then Inr (xs[i := v]) else Inl goPanic)"

text \<open>\<open>copy(xs[lo:hi], src)\<close>\<close>

definition go_copy :: "'a list \<Rightarrow> nat \<Rightarrow> nat \<Rightarrow> 'a list \<Rightarrow> go_error + 'a list" where
  "go_copy xs lo hi src =
     (if lo \<le> hi \<and> hi \<le> length xs
      then Inr (take lo xs @ take (hi - lo) src @ drop (lo + min (hi - lo) (length src)) xs) else Inl goPanic)"

abbreviation (input) OP_DATA_33 :: byte where "OP_DATA_33 \<equiv> 0x21"
abbreviation (input) OP_DATA_65 :: byte where "OP_DATA_65 \<equiv> 0x41"

definition numSpecialScripts :: nat where "numSpecialScripts = 6"

definition isPubKeyHash :: "bytes \<Rightarrow> bytes option" where
  "isPubKeyHash script =
     (if length script = 25 \<and> script ! 0 = OP_DUP \<and> script ! 1 = OP_HASH160 \<and> script ! 2 = OP_DATA_20 \<and>
         script ! 23 = OP_EQUALVERIFY \<and> script ! 24 = OP_CHECKSIG
      then Some (take 20 (drop 3 script)) else None)"

definition isScriptHash :: "bytes \<Rightarrow> bytes option" where
  "isScriptHash script =
     (if length script = 23 \<and> script ! 0 = OP_HASH160 \<and> script ! 1 = OP_DATA_20 \<and> script ! 22 = OP_EQUAL
      then Some (take 20 (drop 2 script)) else None)"

definition isPubKey :: "(bytes \<Rightarrow> 'k option) \<Rightarrow> bytes \<Rightarrow> bytes option" where
  "isPubKey ParsePubKey script =
     (if length script = 35 \<and> script ! 0 = OP_DATA_33 \<and> script ! 34 = OP_CHECKSIG \<and>
         (script ! 1 = 0x02 \<or> script ! 1 = 0x03) \<and> ParsePubKey (take 33 (drop 1 script)) \<noteq> None
      then Some (take 33 (drop 1 script))
      else if length script = 67 \<and> script ! 0 = OP_DATA_65 \<and> script ! 66 = OP_CHECKSIG \<and>
         script ! 1 = 0x04 \<and> ParsePubKey (take 65 (drop 1 script)) \<noteq> None
      then Some (take 65 (drop 1 script))
      else None)"

definition compressedScriptSize :: "(bytes \<Rightarrow> 'k option) \<Rightarrow> bytes \<Rightarrow> nat" where
  "compressedScriptSize ParsePubKey pkScript =
     (if isPubKeyHash pkScript \<noteq> None then 21
      else if isScriptHash pkScript \<noteq> None then 21
      else if isPubKey ParsePubKey pkScript \<noteq> None then 33
      else serializeSizeVLQ (of_nat (length pkScript + numSpecialScripts)) + length pkScript)"

definition decodeCompressedScriptSize :: "bytes \<Rightarrow> int" where
  "decodeCompressedScriptSize serialized =
     (let (scriptSize, bytesRead) = deserializeVLQ serialized
      in if bytesRead = 0 then 0
         else if scriptSize = 0 then 21
         else if scriptSize = 1 then 21
         else if scriptSize \<in> {2, 3, 4, 5} then 33
         else sint (scriptSize - of_nat numSpecialScripts + of_nat bytesRead))"

definition putGeneralScript :: "bytes \<Rightarrow> bytes \<Rightarrow> go_error + bytes \<times> nat" where
  "putGeneralScript target pkScript =
     (let encodedSize = of_nat (length pkScript + numSpecialScripts)
      in sbind (putVLQ target encodedSize) (\<lambda>(target, vlqSizeLen).
           sbind (go_copy target vlqSizeLen (length target) pkScript) (\<lambda>target.
             Inr (target, vlqSizeLen + length pkScript))))"

definition putCompressedScript :: "(bytes \<Rightarrow> 'k option) \<Rightarrow> bytes \<Rightarrow> bytes \<Rightarrow> go_error + bytes \<times> nat" where
  "putCompressedScript ParsePubKey target pkScript =
     (case isPubKeyHash pkScript of
        Some h \<Rightarrow> sbind (go_set target 0 0) (\<lambda>target. sbind (go_copy target 1 21 h) (\<lambda>target. Inr (target, 21)))
      | None \<Rightarrow>
     (case isScriptHash pkScript of
        Some h \<Rightarrow> sbind (go_set target 0 1) (\<lambda>target. sbind (go_copy target 1 21 h) (\<lambda>target. Inr (target, 21)))
      | None \<Rightarrow>
     (case isPubKey ParsePubKey pkScript of
        Some serializedPubKey \<Rightarrow>
          let pubKeyFormat = serializedPubKey ! 0
          in if pubKeyFormat = 0x02 \<or> pubKeyFormat = 0x03 then
               sbind (go_set target 0 pubKeyFormat) (\<lambda>target.
               sbind (go_copy target 1 33 (take 32 (drop 1 serializedPubKey))) (\<lambda>target. Inr (target, 33)))
             else if pubKeyFormat = 0x04 then
               sbind (go_set target 0 (pubKeyFormat OR (serializedPubKey ! 64 AND 0x01))) (\<lambda>target.
               sbind (go_copy target 1 33 (take 32 (drop 1 serializedPubKey))) (\<lambda>target. Inr (target, 33)))
             else putGeneralScript target pkScript
      | None \<Rightarrow> putGeneralScript target pkScript)))"

definition decompressScript :: "(bytes \<Rightarrow> 'k option) \<Rightarrow> ('k \<Rightarrow> bytes) \<Rightarrow> bytes \<Rightarrow> go_error + bytes" where
  "decompressScript ParsePubKey SerializeUncompressed compressedPkScript =
     (if compressedPkScript = [] then Inr []
      else
        let (encodedScriptSize, bytesRead) = deserializeVLQ compressedPkScript
        in if encodedScriptSize = 0 then
             sbind (go_slice compressedPkScript (int bytesRead) (int bytesRead + 20)) (\<lambda>h.
               Inr ([OP_DUP, OP_HASH160, OP_DATA_20] @ h @ [OP_EQUALVERIFY, OP_CHECKSIG]))
           else if encodedScriptSize = 1 then
             sbind (go_slice compressedPkScript (int bytesRead) (int bytesRead + 20)) (\<lambda>h.
               Inr ([OP_HASH160, OP_DATA_20] @ h @ [OP_EQUAL]))
           else if encodedScriptSize \<in> {2, 3} then
             sbind (go_slice compressedPkScript (int bytesRead) (int bytesRead + 32)) (\<lambda>x.
               Inr ([OP_DATA_33, ucast encodedScriptSize] @ x @ [OP_CHECKSIG]))
           else if encodedScriptSize \<in> {4, 5} then
             let x = take 32 (drop 1 compressedPkScript);
                 compressedKey = ucast (encodedScriptSize - 2) # x @ replicate (32 - length x) 0
             in (case ParsePubKey compressedKey of
                   None \<Rightarrow> Inr []
                 | Some key \<Rightarrow>
                     let k = take 66 (SerializeUncompressed key)
                     in Inr ((OP_DATA_65 # k @ replicate (66 - length k) 0)[66 := OP_CHECKSIG]))
           else
             let scriptSize = sint (encodedScriptSize - of_nat numSpecialScripts)
             in if scriptSize < 0 then Inl goPanic
                else go_slice compressedPkScript (int bytesRead) (int bytesRead + scriptSize))"

subsection \<open>Outputs\<close>

definition compressedTxOutSize :: "(bytes \<Rightarrow> 'k option) \<Rightarrow> 64 word \<Rightarrow> bytes \<Rightarrow> nat" where
  "compressedTxOutSize ParsePubKey amount pkScript =
     serializeSizeVLQ (compressTxOutAmount amount) + compressedScriptSize ParsePubKey pkScript"

definition putCompressedTxOut :: "(bytes \<Rightarrow> 'k option) \<Rightarrow> bytes \<Rightarrow> 64 word \<Rightarrow> bytes \<Rightarrow> go_error + bytes \<times> nat" where
  "putCompressedTxOut ParsePubKey target amount pkScript =
     sbind (putVLQ target (compressTxOutAmount amount)) (\<lambda>(target, offset).
     sbind (putCompressedScript ParsePubKey (drop offset target) pkScript) (\<lambda>(rest, n).
       Inr (take offset target @ rest, offset + n)))"

definition decodeCompressedTxOut ::
  "(bytes \<Rightarrow> 'k option) \<Rightarrow> ('k \<Rightarrow> bytes) \<Rightarrow> bytes \<Rightarrow> go_error + 64 word \<times> bytes \<times> int" where
  "decodeCompressedTxOut ParsePubKey SerializeUncompressed serialized =
     (let (compressedAmount, bytesRead) = deserializeVLQ serialized
      in if bytesRead \<ge> length serialized then Inl otherError
         else
           let scriptSize = decodeCompressedScriptSize (drop bytesRead serialized)
           in if int (length (drop bytesRead serialized)) < scriptSize then Inl otherError
              else
                let amount = decompressTxOutAmount compressedAmount
                in sbind (go_slice serialized (int bytesRead) (int bytesRead + scriptSize)) (\<lambda>compressed.
                   sbind (decompressScript ParsePubKey SerializeUncompressed compressed) (\<lambda>script.
                     Inr (amount, script, int bytesRead + scriptSize))))"

subsection \<open>Lemmas: quantities\<close>

text \<open>The encoding of a number, with the mark of its last byte.\<close>

function vlq :: "byte \<Rightarrow> 64 word \<Rightarrow> bytes" where
  "vlq mark n = (if n \<le> 0x7f then [] else vlq 0x80 (drop_bit 7 n - 1)) @ [ucast (n AND 0x7f) OR mark]"
  by pat_completeness auto

termination
  by (relation "measure (\<lambda>(mark, n). unat n)") (auto intro: vlq_smaller)

declare vlq.simps [simp del]

lemma vlq_rec:
  "n \<le> 0x7f \<Longrightarrow> vlq mark n = [ucast (n AND 0x7f) OR mark]"
  "\<not> n \<le> 0x7f \<Longrightarrow> vlq mark n = vlq 0x80 (drop_bit 7 n - 1) @ [ucast (n AND 0x7f) OR mark]"
  by (subst vlq.simps; simp)+

lemma vlq_length: "serialize_size_loop sz n + 1 = sz + length (vlq mark n)"
proof (induction "unat n" arbitrary: n sz mark rule: less_induct)
  case less
  show ?case
  proof (cases "n \<le> 0x7f")
    case False
    then have "0x7f < n" by simp
    then show ?thesis using less.hyps [of "drop_bit 7 n - 1" "sz + 1" "0x80"] vlq_smaller [of n] vlq_rec(2) [OF False, of mark]
      by (subst serialize_size_loop.simps) simp
  qed (auto simp: serialize_size_loop.simps [of sz n] vlq_rec dest: leD)
qed

lemma length_vlq: "length (vlq mark n) = serializeSizeVLQ n"
  using vlq_length [of 1 n mark] by (simp add: serializeSizeVLQ_def)

lemma serializeSizeVLQ_rec:
  "n \<le> 0x7f \<Longrightarrow> serializeSizeVLQ n = 1"
  "\<not> n \<le> 0x7f \<Longrightarrow> serializeSizeVLQ n = Suc (serializeSizeVLQ (drop_bit 7 n - 1))"
  "0 < serializeSizeVLQ n"
  unfolding length_vlq [of 0, symmetric] by (simp_all only: vlq_rec) (simp_all add: length_vlq vlq.simps [of 0 n])

lemma put_loop_rec:
  "length target \<le> offset \<Longrightarrow> put_loop target offset n = Inl goPanic"
  "offset < length target \<Longrightarrow> n \<le> 0x7f \<Longrightarrow> put_loop target offset n =
     Inr (target[offset := ucast (n AND 0x7f) OR (if offset = 0 then 0x00 else 0x80)], offset)"
  "offset < length target \<Longrightarrow> \<not> n \<le> 0x7f \<Longrightarrow> put_loop target offset n =
     put_loop (target[offset := ucast (n AND 0x7f) OR (if offset = 0 then 0x00 else 0x80)]) (offset + 1) (drop_bit 7 n - 1)"
  by (subst put_loop.simps; simp only: Let_def if_True if_False not_le [symmetric]; simp)+

lemma reverse_loop_rev:
  "reverse_loop (P @ xs @ S) (length P) (length P + length xs - 1) = P @ rev xs @ S"
proof (induction "length xs" arbitrary: P xs S rule: less_induct)
  case less
  show ?case
  proof (cases "length xs \<le> 1")
    case True
    then show ?thesis by (cases xs) (auto simp: reverse_loop.simps)
  next
    case False
    then obtain x ys where x: "xs = x # ys" "ys \<noteq> []" by (cases xs) auto
    then obtain zs z where z: "ys = zs @ [z]" by (cases ys rule: rev_cases) auto
    have "reverse_loop (P @ xs @ S) (length P) (length P + length xs - 1) =
        reverse_loop ((P @ [z]) @ zs @ (x # S)) (length (P @ [z])) (length (P @ [z]) + length zs - 1)"
      by (subst reverse_loop.simps) (simp add: x z nth_append list_update_append)
    also have "\<dots> = (P @ [z]) @ rev zs @ (x # S)" by (rule less.hyps) (simp add: x z)
    finally show ?thesis by (simp add: x z)
  qed
qed

lemma put_loop_vlq:
  assumes "length P + serializeSizeVLQ n \<le> length target" "take (length P) target = P" "mark = (if P = [] then 0x00 else 0x80)"
  shows "put_loop target (length P) n = Inr (P @ rev (vlq mark n) @ drop (length P + serializeSizeVLQ n) target, length P + serializeSizeVLQ n - 1)"
  using assms
proof (induction "unat n" arbitrary: n P target mark rule: less_induct)
  case less
  let ?b = "ucast (n AND 0x7f) OR mark :: byte"
  have fits: "length P < length target" using less.prems(1) serializeSizeVLQ_rec(3) [of n] by linarith
  have target: "target = P @ drop (length P) target" using less.prems(2) append_take_drop_id [of "length P" target] by simp
  have upd: "target[length P := ?b] = P @ ?b # drop (Suc (length P)) target"
    using fits less.prems(2) by (simp add: upd_conv_take_nth_drop)
  show ?case
  proof (cases "n \<le> 0x7f")
    case True
    then show ?thesis using fits less.prems(3) upd by (simp add: put_loop_rec(2) serializeSizeVLQ_rec(1) vlq_rec(1))
  next
    case False
    then have n: "0x7f < n" by simp
    let ?m = "drop_bit 7 n - 1"
    note sz = serializeSizeVLQ_rec(2) [OF False]
    have "put_loop (target[length P := ?b]) (length (P @ [?b])) ?m =
       Inr ((P @ [?b]) @ rev (vlq 0x80 ?m) @ drop (length (P @ [?b]) + serializeSizeVLQ ?m) (target[length P := ?b]), length (P @ [?b]) + serializeSizeVLQ ?m - 1)"
      using less.prems(1) sz upd by (intro less.hyps vlq_smaller [OF n]) simp_all
    moreover have "put_loop target (length P) n = put_loop (target[length P := ?b]) (length (P @ [?b])) ?m"
      using put_loop_rec(3) [OF fits False] less.prems(3) by simp
    ultimately show ?thesis by (simp add: vlq_rec(2) [OF False] sz)
  qed
qed

lemma put_loop_short:
  assumes "length target < offset + serializeSizeVLQ n"
  shows "put_loop target offset n = Inl goPanic"
  using assms
proof (induction "unat n" arbitrary: n offset target rule: less_induct)
  case less
  show ?case
  proof (cases "n \<le> 0x7f")
    case True
    then show ?thesis using less.prems by (simp add: put_loop_rec(1) serializeSizeVLQ_rec(1))
  next
    case False
    then have n: "0x7f < n" by simp
    note sz = serializeSizeVLQ_rec(2) [OF False]
    show ?thesis
    proof (cases "offset < length target")
      case True
      show ?thesis unfolding put_loop_rec(3) [OF True False] using less.prems sz by (intro less.hyps vlq_smaller [OF n]) simp
    qed (simp add: put_loop_rec(1))
  qed
qed

lemma putVLQ_spec:
  "putVLQ target n = (if serializeSizeVLQ n \<le> length target
     then Inr (vlq 0 n @ drop (serializeSizeVLQ n) target, serializeSizeVLQ n) else Inl goPanic)"
proof (cases "serializeSizeVLQ n \<le> length target")
  case True
  then show ?thesis using put_loop_vlq [of "[]" n target 0] reverse_loop_rev [of "[]" "rev (vlq 0 n)" "drop (serializeSizeVLQ n) target"]
      serializeSizeVLQ_rec(3) [of n]
    by (simp add: putVLQ_def length_vlq)
qed (simp add: putVLQ_def put_loop_short)


lemma word_127: "(0x7f :: 64 word) = mask 7" "(0x7f :: byte) = mask 7"
  by (simp_all add: mask_eq_exp_minus_1)

lemma low_byte:
  fixes n :: "64 word"
  shows "(ucast (n AND 0x7f) :: byte) AND 0x7f = ucast (n AND 0x7f)" "ucast (ucast (n AND 0x7f) :: byte) = n AND 0x7f"
  unfolding word_127 by (rule bit_word_eqI; auto simp: bit_simps)+

text \<open>The seven value bits of a byte and its mark.\<close>

lemma marked_byte:
  fixes n :: "64 word"
  shows "ucast ((ucast (n AND 0x7f) OR 0x80 :: byte) AND 0x7f) = n AND 0x7f" "(ucast (n AND 0x7f) OR 0x80 :: byte) AND 0x80 = 0x80"
    "ucast ((ucast (n AND 0x7f) OR 0 :: byte) AND 0x7f) = n AND 0x7f" "(ucast (n AND 0x7f) OR 0 :: byte) AND 0x80 = 0"
proof -
  have "(x OR 0x80) AND 0x7f = x AND (0x7f :: byte)" for x by (simp add: bit.conj_disj_distrib2)
  then show "ucast ((ucast (n AND 0x7f) OR 0x80 :: byte) AND 0x7f) = n AND 0x7f" by (simp only: low_byte)
  have "(x OR y) AND y = y" for x y :: byte by (rule bit_word_eqI) (auto simp: bit_simps)
  then show "(ucast (n AND 0x7f) OR 0x80 :: byte) AND 0x80 = 0x80" .
  show "ucast ((ucast (n AND 0x7f) OR 0 :: byte) AND 0x7f) = n AND 0x7f" by (simp only: or.right_neutral low_byte)
  have "(ucast (n AND 0x7f) :: byte) AND 0x80 = (ucast (n AND 0x7f) AND 0x7f) AND 0x80" by (simp only: low_byte)
  also have "\<dots> = 0" by (simp only: and.assoc) simp
  finally show "(ucast (n AND 0x7f) OR 0 :: byte) AND 0x80 = 0" by simp
qed

lemma low_high: "push_bit 7 (drop_bit 7 n) OR (n AND 0x7f) = (n :: 64 word)"
  unfolding word_127 by (rule bit_word_eqI) (auto simp: bit_simps)

lemma small_and: "n \<le> 0x7f \<Longrightarrow> n AND 0x7f = (n :: 64 word)"
  by (simp add: word_uint_eq_iff uint_and and_127 word_le_def)

lemma deserialize_marked:
  "deserialize_loop 0 sz (vlq 0x80 n @ rest) = deserialize_loop (n + 1) (sz + length (vlq 0x80 n)) rest"
proof (induction "unat n" arbitrary: n rest rule: less_induct)
  case less
  show ?case
  proof (cases "n \<le> 0x7f")
    case True
    then show ?thesis using marked_byte(1,2) [of n] by (simp add: vlq_rec Let_def small_and)
  next
    case False
    then have n: "0x7f < n" by simp
    have "deserialize_loop 0 sz (vlq 0x80 n @ rest) =
        deserialize_loop (drop_bit 7 n) (sz + length (vlq 0x80 (drop_bit 7 n - 1))) ((ucast (n AND 0x7f) OR 0x80) # rest)"
      using less.hyps [OF vlq_smaller [OF n], of "(ucast (n AND 0x7f) OR 0x80) # rest"] by (simp add: vlq_rec(2) [OF False])
    then show ?thesis using marked_byte(1,2) [of n] low_high [of n] by (simp add: vlq_rec(2) [OF False] Let_def)
  qed
qed

lemma deserializeVLQ_vlq: "deserializeVLQ (vlq 0 n @ rest) = (n, serializeSizeVLQ n)"
proof (cases "n \<le> 0x7f")
  case True
  then show ?thesis using marked_byte(3,4) [of n]
    by (simp add: vlq_rec Let_def small_and deserializeVLQ_def serializeSizeVLQ_rec)
next
  case False
  have "deserializeVLQ (vlq 0 n @ rest) =
      deserialize_loop (drop_bit 7 n) (length (vlq 0x80 (drop_bit 7 n - 1))) ((ucast (n AND 0x7f) OR 0) # rest)"
    using deserialize_marked [of 0 "drop_bit 7 n - 1" "(ucast (n AND 0x7f) OR 0) # rest"]
    by (simp add: vlq_rec(2) [OF False] deserializeVLQ_def)
  then show ?thesis using marked_byte(3,4) [of n] low_high [of n]
    by (simp add: Let_def length_vlq serializeSizeVLQ_rec(2) [OF False])
qed


text \<open>The value of a run of bytes that announce another one.\<close>

definition cont_val :: "bytes \<Rightarrow> nat" where
  "cont_val cs = foldl (\<lambda>v c. 128 * v + unat (c AND 0x7f) + 1) 0 cs"

lemma cont_val_simps [simp]:
  "cont_val [] = 0"
  "cont_val (cs @ [c]) = 128 * cont_val cs + unat (c AND 0x7f) + 1"
  by (simp_all add: cont_val_def)

lemma byte_low: "unat ((c :: byte) AND 0x7f) < 128"
proof -
  have "int (unat (c AND 0x7f)) < 128" by (simp add: uint_and and_127)
  then show ?thesis by linarith
qed

lemma cont_val_bound: "cont_val cs + 2 \<le> 2 * 128 ^ length cs"
proof (induction cs rule: rev_induct)
  case (snoc c cs)
  have "cont_val (cs @ [c]) + 2 \<le> 128 * (cont_val cs + 2)" using byte_low [of c] by simp
  also have "\<dots> \<le> 128 * (2 * 128 ^ length cs)" using snoc by (rule mult_le_mono2)
  finally show ?case by simp
qed simp

lemma or_low: "push_bit 7 v OR (ucast ((c :: byte) AND 0x7f)) = (128 * v + of_nat (unat (c AND 0x7f)) :: 64 word)"
proof -
  have "push_bit 7 v AND ucast (c AND 0x7f) = (0 :: 64 word)"
    unfolding word_127 by (rule bit_word_eqI) (auto simp: bit_simps)
  then have "push_bit 7 v OR ucast (c AND 0x7f) = push_bit 7 v + (ucast (c AND 0x7f) :: 64 word)"
    by (rule disjunctive_add_eq_or [symmetric])
  also have "\<dots> = 128 * v + of_nat (unat (c AND 0x7f))" by (simp add: push_bit_eq_mult)
  finally show ?thesis .
qed

lemma deserialize_cont:
  "\<forall>c \<in> set cs. c AND 0x80 = 0x80 \<Longrightarrow>
     deserialize_loop 0 sz (cs @ rest) = deserialize_loop (of_nat (cont_val cs)) (sz + length cs) rest"
proof (induction cs arbitrary: rest rule: rev_induct)
  case (snoc c cs)
  then show ?case using or_low [of "of_nat (cont_val cs)" c] by (simp add: Let_def algebra_simps)
qed simp

lemma deserialize_sz:
  "deserialize_loop n sz bs = (m, sz') \<Longrightarrow>
     \<exists>k. sz' = sz + k \<and> k \<le> length bs \<and> (\<forall>i. i + 1 < k \<longrightarrow> bs ! i AND 0x80 = 0x80) \<and> (bs \<noteq> [] \<longrightarrow> 0 < k)"
proof (induction n sz bs rule: deserialize_loop.induct)
  case (2 n sz v vs)
  show ?case
  proof (cases "v AND 0x80 = 0x80")
    case True
    with 2 obtain k where "sz' = sz + 1 + k" "k \<le> length vs" "\<forall>i. i + 1 < k \<longrightarrow> vs ! i AND 0x80 = 0x80"
      by (fastforce simp: Let_def)
    with True show ?thesis by (intro exI [of _ "Suc k"]) (auto simp: nth_Cons split: nat.split)
  next
    case False
    with 2(2) show ?thesis by (intro exI [of _ 1]) (simp add: Let_def)
  qed
qed simp

lemma byte_restore: "(c AND 0x80 = (0x80 :: byte)) \<Longrightarrow> (c AND 0x7f) OR 0x80 = c" "c AND 0x80 = (0 :: byte) \<Longrightarrow> (c AND 0x7f) OR 0 = c"
proof -
  have "(c AND 0x7f) OR (c AND 0x80) = c AND (0x7f OR 0x80)" by (simp only: bit.conj_disj_distrib)
  also have "0x7f OR 0x80 = (mask 8 :: byte)" by (simp add: mask_eq_exp_minus_1)
  also have "c AND mask 8 = c" by (rule bit_word_eqI) (auto simp: bit_simps)
  finally show "(c AND 0x80 = (0x80 :: byte)) \<Longrightarrow> (c AND 0x7f) OR 0x80 = c" "c AND 0x80 = (0 :: byte) \<Longrightarrow> (c AND 0x7f) OR 0 = c" by simp_all
qed

lemma unat_of_nat_64: "m < 2 ^ 64 \<Longrightarrow> unat (of_nat m :: 64 word) = m"
  by (simp add: unat_of_nat)

lemma and_7f_mod: "unat ((w :: 64 word) AND 0x7f) = unat w mod 128"
proof -
  have "int (unat (w AND 0x7f)) = int (unat w mod 128)" by (simp add: uint_and and_127 zmod_int)
  then show ?thesis by (simp only: of_nat_eq_iff)
qed

lemma unat_ucast_byte: "unat (ucast (w :: 64 word) :: byte) = unat w mod 256"
  by (simp add: unsigned_ucast_eq take_bit_eq_mod)

lemma ucast_low: "unat (w :: 64 word) = unat (c AND 0x7f) \<Longrightarrow> ucast w = (c AND 0x7f :: byte)"
  using byte_low [of c] unfolding word_unat_eq_iff unat_ucast_byte by simp

lemma split_128: "d < 128 \<Longrightarrow> (128 * V + d) div 128 = (V :: nat)" "d < 128 \<Longrightarrow> (128 * V + d) mod 128 = (d :: nat)"
  by simp_all

lemma byte_back: "ucast (ucast (x :: byte) :: 64 word) = x"
  by (rule bit_word_eqI) (auto simp: bit_simps)

lemma vlq_cont:
  assumes "\<forall>c \<in> set cs. c AND 0x80 = 0x80" "length cs \<le> 8"
  shows "vlq mark (of_nat (128 * cont_val cs + unat (c AND 0x7f))) = cs @ [(c AND 0x7f) OR mark]"
  using assms
proof (induction cs arbitrary: mark c rule: rev_induct)
  case Nil
  have "unat (c AND 0x7f) < 128" by (rule byte_low)
  then have "(of_nat (unat (c AND 0x7f)) :: 64 word) \<le> 0x7f" by (simp only: word_le_nat_alt unat_of_nat) simp
  then show ?case by (simp add: vlq_rec small_and byte_back)
next
  case (snoc b cs)
  let ?V = "cont_val (cs @ [b])" and ?d = "unat (c AND 0x7f)"
  have d: "?d < 128" by (rule byte_low)
  have "?V + 2 \<le> 2 * 128 ^ length (cs @ [b])" by (rule cont_val_bound)
  also have "\<dots> \<le> 2 * 128 ^ 8" using snoc.prems(2) by (intro mult_le_mono2 power_increasing) simp_all
  finally have V: "?V < 2 ^ 57" by simp
  then have n: "unat (of_nat (128 * ?V + ?d) :: 64 word) = 128 * ?V + ?d"
    using d by (intro unat_of_nat_64) simp
  have big: "\<not> (of_nat (128 * ?V + ?d) :: 64 word) \<le> 0x7f" using n by (simp add: word_le_nat_alt)
  have "drop_bit 7 (of_nat (128 * ?V + ?d) :: 64 word) = of_nat ?V"
  proof (rule word_unat_eq_iff [THEN iffD2])
    have "unat (of_nat ?V :: 64 word) = ?V" using V by (intro unat_of_nat_64) simp
    then show "unat (drop_bit 7 (of_nat (128 * ?V + ?d) :: 64 word)) = unat (of_nat ?V :: 64 word)"
      unfolding unat_drop_7 n by (simp only: split_128(1) [OF d])
  qed
  then have drop: "drop_bit 7 (of_nat (128 * ?V + ?d) :: 64 word) - 1 = of_nat (128 * cont_val cs + unat (b AND 0x7f))" by simp
  have "unat ((of_nat (128 * ?V + ?d) :: 64 word) AND 0x7f) = ?d"
    unfolding and_7f_mod n by (rule split_128(2) [OF d])
  then have low: "ucast ((of_nat (128 * ?V + ?d) :: 64 word) AND 0x7f) = c AND 0x7f"
    by (rule ucast_low)
  have "b AND 0x80 = 0x80" using snoc.prems(1) by simp
  with snoc.IH [of "0x80" b] snoc.prems have "vlq 0x80 (of_nat (128 * cont_val cs + unat (b AND 0x7f))) = cs @ [b]"
    by (simp add: byte_restore(1))
  then show ?case unfolding vlq_rec(2) [OF big] drop low by simp
qed

lemma deserializeVLQ_unique:
  assumes "deserializeVLQ bs = (n, k)" "0 < k" "k \<le> 9" "bs ! (k - 1) AND 0x80 = 0"
  shows "take k bs = vlq 0 n"
proof -
  let ?cs = "take (k - 1) bs" and ?c = "bs ! (k - 1)"
  have k: "k \<le> length bs" "\<forall>i. i + 1 < k \<longrightarrow> bs ! i AND 0x80 = 0x80"
    using deserialize_sz [of 0 0 bs n k] assms(1) by (auto simp: deserializeVLQ_def)
  have bs: "bs = ?cs @ ?c # drop k bs" using k(1) assms(2) by (metis Suc_diff_1 id_take_nth_drop less_le_trans diff_less zero_less_one)
  have cs: "\<forall>c \<in> set ?cs. c AND 0x80 = 0x80" using k by (auto simp: in_set_conv_nth)
  have "deserializeVLQ bs = deserialize_loop 0 0 (?cs @ ?c # drop k bs)" unfolding deserializeVLQ_def using bs by simp
  also have "\<dots> = deserialize_loop (of_nat (cont_val ?cs)) (k - 1) (?c # drop k bs)"
    using k(1) by (subst deserialize_cont [OF cs]) simp
  also have "\<dots> = (of_nat (128 * cont_val ?cs + unat (?c AND 0x7f)), k)"
    using or_low [of "of_nat (cont_val ?cs)" ?c] assms(2,4) by (simp add: Let_def)
  finally have n: "n = of_nat (128 * cont_val ?cs + unat (?c AND 0x7f))" using assms(1) by simp
  have "vlq 0 n = ?cs @ [(?c AND 0x7f) OR 0]" unfolding n using assms(3) by (intro vlq_cont cs) simp
  also have "\<dots> = take k bs" using byte_restore(2) [OF assms(4)] take_Suc_conv_app_nth [of "k - 1" bs] k(1) assms(2) by simp
  finally show ?thesis by simp
qed


subsection \<open>Lemmas: amounts\<close>

lemma of_nat_div_mod_64:
  "a < 2 ^ 64 \<Longrightarrow> b < 2 ^ 64 \<Longrightarrow> of_nat a div of_nat b = (of_nat (a div b) :: 64 word)"
  "a < 2 ^ 64 \<Longrightarrow> b < 2 ^ 64 \<Longrightarrow> of_nat a mod of_nat b = (of_nat (a mod b) :: 64 word)"
proof -
  assume *: "a < 2 ^ 64" "b < 2 ^ 64"
  have "a div b \<le> a" "a mod b \<le> a" by simp_all
  then have "a div b < 2 ^ 64" "a mod b < 2 ^ 64" using *(1) by (simp_all only: le_less_trans)
  then show "of_nat a div of_nat b = (of_nat (a div b) :: 64 word)" "of_nat a mod of_nat b = (of_nat (a mod b) :: 64 word)"
    using * unfolding word_unat_eq_iff unat_div unat_mod by (simp_all only: unat_of_nat_64)
qed

lemmas of_nat_10_64 = of_nat_div_mod_64 [where b = 10, simplified] of_nat_div_mod_64 [where b = 9, simplified]

lemma of_nat_eq_64: "a < 2 ^ 64 \<Longrightarrow> b < 2 ^ 64 \<Longrightarrow> (of_nat a :: 64 word) = of_nat b \<longleftrightarrow> a = b"
  unfolding word_unat_eq_iff by (simp only: unat_of_nat_64)

lemma strip_zeros_spec:
  assumes "0 < a" "a < 2 ^ 64" "e0 \<le> 9"
  shows "\<exists>b e. strip_zeros (of_nat a) e0 = (of_nat b, e0 + e) \<and> e0 + e \<le> 9 \<and> a = b * 10 ^ e \<and> (e0 + e < 9 \<longrightarrow> b mod 10 \<noteq> 0)"
  using assms
proof (induction "9 - e0" arbitrary: a e0 rule: less_induct)
  case less
  have m: "(of_nat a mod 10 = (0 :: 64 word)) \<longleftrightarrow> a mod 10 = 0"
    using of_nat_eq_64 [of "a mod 10" 0] less.prems(2) by (simp add: of_nat_10_64)
  show ?case
  proof (cases "a mod 10 = 0 \<and> e0 < 9")
    case True
    have "0 < a div 10" "a div 10 < 2 ^ 64" using True less.prems(1,2) by auto
    then have "\<exists>b e. strip_zeros (of_nat (a div 10)) (e0 + 1) = (of_nat b, e0 + 1 + e) \<and> e0 + 1 + e \<le> 9 \<and>
        a div 10 = b * 10 ^ e \<and> (e0 + 1 + e < 9 \<longrightarrow> b mod 10 \<noteq> 0)"
      using True by (intro less.hyps) auto
    then obtain b e where "strip_zeros (of_nat (a div 10)) (e0 + 1) = (of_nat b, e0 + 1 + e)" "e0 + 1 + e \<le> 9"
        "a div 10 = b * 10 ^ e" "e0 + 1 + e < 9 \<longrightarrow> b mod 10 \<noteq> 0"
      by blast
    moreover have "a = a div 10 * 10" using True by auto
    then have "a = b * 10 ^ Suc e" using \<open>a div 10 = b * 10 ^ e\<close> by simp
    moreover have "strip_zeros (of_nat a) e0 = strip_zeros (of_nat (a div 10)) (e0 + 1)"
      using True m less.prems(2) by (simp add: strip_zeros.simps [of "of_nat a"] of_nat_10_64)
    ultimately show ?thesis
      by - (rule exI [of _ b], rule exI [of _ "Suc e"], simp)
  next
    case False
    then show ?thesis using m less.prems(3) by - (rule exI [of _ a], rule exI [of _ 0], auto simp: strip_zeros.simps [of "of_nat a"])
  qed
qed

lemma apply_exponent_power: "apply_exponent n e = n * 10 ^ e"
  by (induction e arbitrary: n) (simp_all add: mult.assoc)

lemma amount_roundtrip_nat:
  assumes "9 * a + 9 < 2 ^ 64"
  shows "decompressTxOutAmount (compressTxOutAmount (of_nat a)) = of_nat a"
proof (cases "a = 0")
  case True
  then show ?thesis by (simp add: compressTxOutAmount_def decompressTxOutAmount_def)
next
  case False
  have a: "0 < a" "a < 2 ^ 64" using False assms by simp_all
  then obtain b e where s: "strip_zeros (of_nat a) 0 = (of_nat b, e)" "e \<le> 9" "a = b * 10 ^ e" "e < 9 \<longrightarrow> b mod 10 \<noteq> 0"
    using strip_zeros_spec [of a 0] by (simp only: add_0) blast
  have b: "0 < b" using a(1) s(3) by (cases b) simp_all
  have "b * 1 \<le> b * 10 ^ e" by (intro mult_le_mono2) simp
  then have "b \<le> a" using s(3) by simp
  then have small: "9 * b + 9 < 2 ^ 64" using assms by linarith
  have nz: "(of_nat a :: 64 word) \<noteq> 0" using of_nat_eq_64 [OF a(2), of 0] a(1) by simp
  define m where "m = (if e < 9 then 9 * (b div 10) + b mod 10 - 1 else b - 1)"
  have split: "10 * (b div 10) + b mod 10 = b" by presburger
  have m9: "m = 9 * (b div 10) + (b mod 10 - 1)" "1 \<le> b mod 10" if "e < 9"
    using s(4) that by (simp_all add: m_def)
  have c: "10 * m + 1 + e < 2 ^ 64"
  proof (cases "e < 9")
    case True
    have "b mod 10 < 10" by simp
    then have "10 * m + 1 + e \<le> 9 * b + 9" using m9 [OF True] True split by linarith
    then show ?thesis using small by linarith
  next
    case False
    then have "e = 9" using s(2) by simp
    then have "10 * m + 1 + e \<le> a" using b s(3) by (simp add: m_def)
    then show ?thesis using a(2) by linarith
  qed
  have comp: "compressTxOutAmount (of_nat a) = of_nat (10 * m + 1 + e)"
  proof (cases "e < 9")
    case True
    have "(of_nat b mod 10 :: 64 word) = of_nat (b mod 10 - 1) + 1"
      using small m9(2) [OF True] by (simp add: of_nat_10_64 of_nat_diff)
    then show ?thesis using nz s(1) True small
      by (simp add: compressTxOutAmount_def m9(1) [OF True] of_nat_10_64)
  next
    case False
    then have "e = 9" using s(2) by simp
    then show ?thesis using nz s(1) b by (simp add: compressTxOutAmount_def m_def of_nat_diff)
  qed
  have d: "(of_nat (10 * m + e) mod 10 :: 64 word) = of_nat e" "(of_nat (10 * m + e) div 10 :: 64 word) = of_nat m"
  proof -
    have "10 * m + e < 2 ^ 64" using c by linarith
    then have "(of_nat (10 * m + e) mod 10 :: 64 word) = of_nat ((10 * m + e) mod 10)" "(of_nat (10 * m + e) div 10 :: 64 word) = of_nat ((10 * m + e) div 10)"
      by (intro of_nat_10_64; simp)+
    moreover have "(10 * m + e) mod 10 = e" "(10 * m + e) div 10 = m" using s(2) by simp_all
    ultimately show "(of_nat (10 * m + e) mod 10 :: 64 word) = of_nat e" "(of_nat (10 * m + e) div 10 :: 64 word) = of_nat m"
      by (simp_all only:)
  qed
  have e: "unat (of_nat e :: 64 word) = e" "(of_nat e :: 64 word) < 9 \<longleftrightarrow> e < 9"
    using s(2) unat_of_nat_64 [of e] by (simp_all add: word_less_nat_alt)
  have nz': "(of_nat (10 * m + 1 + e) :: 64 word) \<noteq> 0" using of_nat_eq_64 [OF c, of 0] by simp
  have minus: "(of_nat (10 * m + 1 + e) - 1 :: 64 word) = of_nat (10 * m + e)" by simp
  have n: "(if e < 9 then of_nat m div 9 * 10 + (of_nat m mod 9 + 1) else of_nat m + 1) = (of_nat b :: 64 word)"
  proof (cases "e < 9")
    case True
    have "b mod 10 - 1 < 9" by simp
    then have q: "m mod 9 = b mod 10 - 1" "m div 9 = b div 10" using m9(1) [OF True] by simp_all
    have "m < 2 ^ 64" using c by linarith
    then have "of_nat m div 9 * 10 + (of_nat m mod 9 + 1) = (of_nat (m div 9 * 10 + (m mod 9 + 1)) :: 64 word)" by (simp add: of_nat_10_64)
    also have "m div 9 * 10 + (m mod 9 + 1) = b" unfolding q using m9(2) [OF True] split by linarith
    finally show ?thesis using True by simp
  next
    case False
    then show ?thesis using b by (simp add: m_def of_nat_diff)
  qed
  show ?thesis unfolding comp decompressTxOutAmount_def Let_def minus d e
    using nz' n s(3) by (simp add: apply_exponent_power)
qed


subsection \<open>Lemmas: scripts\<close>

lemma take_1: "1 \<le> length xs \<Longrightarrow> take (Suc 0) xs = [xs ! 0]"
  by (cases xs) simp_all

lemma take_2: "2 \<le> length xs \<Longrightarrow> take 2 xs = [xs ! 0, xs ! 1]"
  by (simp add: take_Suc_conv_app_nth numeral_2_eq_2 take_1)

lemma take_3: "3 \<le> length xs \<Longrightarrow> take 3 xs = [xs ! 0, xs ! 1, xs ! 2]"
  by (simp add: take_Suc_conv_app_nth numeral_3_eq_3 numeral_2_eq_2 take_1)

lemma split_at: "m \<le> n \<Longrightarrow> n \<le> length xs \<Longrightarrow> xs = take m xs @ take (n - m) (drop m xs) @ drop n xs"
  by (metis append_take_drop_id drop_drop le_add_diff_inverse2)

lemma drop_last1: "length xs = Suc n \<Longrightarrow> drop n xs = [xs ! n]"
  using Cons_nth_drop_Suc [of n xs] by simp

lemma drop_last2: "length xs = Suc (Suc n) \<Longrightarrow> drop n xs = [xs ! n, xs ! Suc n]"
  using Cons_nth_drop_Suc [of n xs] drop_last1 [of xs "Suc n"] by simp

lemma isPubKeyHash_Some:
  assumes "isPubKeyHash pk = Some h"
  shows "pk = [OP_DUP, OP_HASH160, OP_DATA_20] @ h @ [OP_EQUALVERIFY, OP_CHECKSIG]" "length h = 20"
proof -
  have l: "length pk = 25" and h: "h = take 20 (drop 3 pk)" using assms by (auto simp: isPubKeyHash_def split: if_splits)
  have "pk = take 3 pk @ take (23 - 3) (drop 3 pk) @ drop 23 pk" using l by (intro split_at) simp_all
  then show "pk = [OP_DUP, OP_HASH160, OP_DATA_20] @ h @ [OP_EQUALVERIFY, OP_CHECKSIG]"
    using assms l take_3 [of pk] drop_last2 [of pk 23] by (simp add: isPubKeyHash_def split: if_splits)
  show "length h = 20" using l h by simp
qed

lemma isScriptHash_Some:
  assumes "isScriptHash pk = Some h"
  shows "pk = [OP_HASH160, OP_DATA_20] @ h @ [OP_EQUAL]" "length h = 20"
proof -
  have l: "length pk = 23" and h: "h = take 20 (drop 2 pk)" using assms by (auto simp: isScriptHash_def split: if_splits)
  have "pk = take 2 pk @ take (22 - 2) (drop 2 pk) @ drop 22 pk" using l by (intro split_at) simp_all
  then show "pk = [OP_HASH160, OP_DATA_20] @ h @ [OP_EQUAL]"
    using assms l take_2 [of pk] drop_last1 [of pk 22] by (simp add: isScriptHash_def split: if_splits)
  show "length h = 20" using l h by simp
qed

lemma isPubKey_Some:
  assumes "isPubKey pkey pk = Some k"
  shows "(\<exists>f x. k = f # x \<and> length x = 32 \<and> f \<in> {0x02, 0x03} \<and> pk = OP_DATA_33 # f # x @ [OP_CHECKSIG]) \<or>
    (\<exists>x y. k = 0x04 # x @ y \<and> length x = 32 \<and> length y = 32 \<and> pk = OP_DATA_65 # 0x04 # x @ y @ [OP_CHECKSIG] \<and> pkey k \<noteq> None)"
proof (cases "length pk = 35")
  case True
  then have k: "k = take 33 (drop 1 pk)" "pk ! 0 = OP_DATA_33" "pk ! 34 = OP_CHECKSIG" "pk ! 1 = 0x02 \<or> pk ! 1 = 0x03"
    using assms by (auto simp: isPubKey_def split: if_splits)
  obtain f x where x: "x = take 32 (drop 2 pk)" "f = pk ! 1" by simp
  have "pk = take 2 pk @ take (34 - 2) (drop 2 pk) @ drop 34 pk" using True by (intro split_at) simp_all
  then have pk: "pk = OP_DATA_33 # f # x @ [OP_CHECKSIG]"
    using True k take_2 [of pk] drop_last1 [of pk 34] by (simp add: x)
  have "length x = 32" using True by (simp add: x)
  moreover have "k = f # x" unfolding k(1) pk using \<open>length x = 32\<close> by simp
  ultimately show ?thesis using k(4) pk x(2) by blast
next
  case False
  then have k: "length pk = 67" "k = take 65 (drop 1 pk)" "pk ! 0 = OP_DATA_65" "pk ! 66 = OP_CHECKSIG" "pk ! 1 = 0x04" "pkey k \<noteq> None"
    using assms by (auto simp: isPubKey_def split: if_splits)
  obtain x y where x: "x = take 32 (drop 2 pk)" "y = take 32 (drop 34 pk)" by simp
  have "pk = take 34 pk @ take (66 - 34) (drop 34 pk) @ drop 66 pk" using k(1) by (intro split_at) simp_all
  also have "take 34 pk = take 2 (take 34 pk) @ take (34 - 2) (drop 2 (take 34 pk)) @ drop 34 (take 34 pk)" using k(1) by (intro split_at) simp_all
  finally have pk: "pk = OP_DATA_65 # 0x04 # x @ y @ [OP_CHECKSIG]"
    using k take_2 [of pk] drop_last1 [of pk 66] by (simp add: x drop_take)
  have l: "length x = 32" "length y = 32" using k(1) by (simp_all add: x)
  have "k = 0x04 # x @ y" unfolding k(2) pk using l by simp
  then show ?thesis using k(6) pk l by blast
qed

text \<open>The compressed form of a script.\<close>

definition script_form :: "(bytes \<Rightarrow> 'k option) \<Rightarrow> bytes \<Rightarrow> bytes" where
  "script_form pkey pk =
     (case isPubKeyHash pk of Some h \<Rightarrow> 0 # h | None \<Rightarrow>
     (case isScriptHash pk of Some h \<Rightarrow> 1 # h | None \<Rightarrow>
     (case isPubKey pkey pk of
        Some k \<Rightarrow> (if k ! 0 = 0x04 then 0x04 OR (k ! 64 AND 0x01) else k ! 0) # take 32 (drop 1 k)
      | None \<Rightarrow> vlq 0 (of_nat (length pk + numSpecialScripts)) @ pk)))"

lemma length_script_form: "length (script_form pkey pk) = compressedScriptSize pkey pk"
  using isPubKeyHash_Some(2) [of pk] isScriptHash_Some(2) [of pk] isPubKey_Some [of pkey pk]
  by (auto simp: script_form_def compressedScriptSize_def length_vlq split: option.splits)

lemma put_form: "length x = n \<Longrightarrow> n < length target \<Longrightarrow>
   sbind (go_set target 0 b) (\<lambda>t. sbind (go_copy t 1 (Suc n) x) (\<lambda>t. Inr (t, Suc n))) =
     Inr ((b # x) @ drop (Suc n) target, Suc n)"
  by (cases target) (simp_all add: go_set_def go_copy_def)

lemma putGeneralScript_form:
  assumes "length (vlq 0 (of_nat (length pk + numSpecialScripts)) @ pk) \<le> length target"
  shows "putGeneralScript target pk =
    (let e = vlq 0 (of_nat (length pk + numSpecialScripts)) @ pk in Inr (e @ drop (length e) target, length e))"
  using assms by (simp add: putGeneralScript_def putVLQ_spec length_vlq go_copy_def Let_def add.commute)

lemma putCompressedScript_form:
  assumes "compressedScriptSize pkey pk \<le> length target"
  shows "putCompressedScript pkey target pk = Inr (script_form pkey pk @ drop (compressedScriptSize pkey pk) target, compressedScriptSize pkey pk)"
proof -
  note l = length_script_form [of pkey pk]
  show ?thesis
  proof (cases "isPubKeyHash pk")
    case (Some h)
    then show ?thesis using assms isPubKeyHash_Some(2) [OF Some] put_form [of h 20 target 0]
      by (simp add: putCompressedScript_def script_form_def compressedScriptSize_def)
  next
    case pkh: None
    show ?thesis
    proof (cases "isScriptHash pk")
      case (Some h)
      then show ?thesis using assms pkh isScriptHash_Some(2) [OF Some] put_form [of h 20 target 1]
        by (simp add: putCompressedScript_def script_form_def compressedScriptSize_def)
    next
      case sh: None
      show ?thesis
      proof (cases "isPubKey pkey pk")
        case (Some k)
        have "length (take 32 (drop 1 k)) = 32" "k ! 0 \<in> {0x02, 0x03, 0x04}" using isPubKey_Some [OF Some] by auto
        then show ?thesis using assms pkh sh Some put_form [of "take 32 (drop 1 k)" 32 target]
          by (auto simp: putCompressedScript_def script_form_def compressedScriptSize_def Let_def)
      next
        case None
        then show ?thesis using assms pkh sh putGeneralScript_form [of pk target]
          by (simp add: putCompressedScript_def script_form_def compressedScriptSize_def Let_def length_vlq)
      qed
    qed
  qed
qed

lemma deserializeVLQ_byte: "b AND 0x80 = 0 \<Longrightarrow> deserializeVLQ (b # bs) = (ucast b, 1)"
  using byte_restore(2) [of b] by (simp add: deserializeVLQ_def Let_def)

text \<open>What the code relies on in the curve package: a public key is determined by its x coordinate and
  the parity of y.\<close>

definition compressible_keys :: "(bytes \<Rightarrow> 'k option) \<Rightarrow> ('k \<Rightarrow> bytes) \<Rightarrow> bool" where
  "compressible_keys pkey uncompressed \<longleftrightarrow>
     (\<forall>x y. length x = 32 \<longrightarrow> length y = 32 \<longrightarrow> pkey (0x04 # x @ y) \<noteq> None \<longrightarrow>
        (\<exists>key. pkey ((0x02 OR (last y AND 0x01)) # x) = Some key \<and> uncompressed key = 0x04 # x @ y))"

lemma serializeSizeVLQ_le: "serializeSizeVLQ n \<le> Suc (unat n)"
proof (induction "unat n" arbitrary: n rule: less_induct)
  case less
  show ?case
  proof (cases "n \<le> 0x7f")
    case False
    then have "0x7f < n" by simp
    then show ?thesis using less.hyps [OF vlq_smaller] vlq_smaller [of n] serializeSizeVLQ_rec(2) [OF False] by fastforce
  qed (simp add: serializeSizeVLQ_rec)
qed

lemma sint_of_nat_64: "m < 2 ^ 63 \<Longrightarrow> sint (of_nat m :: 64 word) = int m"
  by (simp add: signed_of_nat signed_take_bit_int_eq_self)

lemma parity: "(b :: byte) AND 1 = 0 \<or> b AND 1 = 1"
  by (simp add: and_one_eq mod_2_eq_odd)

lemma script_form_back:
  assumes "compressible_keys pkey uncompressed" "length pk < 2 ^ 61"
  shows "decompressScript pkey uncompressed (script_form pkey pk) = Inr pk"
    and "decodeCompressedScriptSize (script_form pkey pk @ rest) = int (compressedScriptSize pkey pk)"
proof -
  have 1: "decompressScript pkey uncompressed (script_form pkey pk) = Inr pk \<and>
    decodeCompressedScriptSize (script_form pkey pk @ rest) = int (length (script_form pkey pk))"
  proof (cases "isPubKeyHash pk")
    case (Some h)
    then show ?thesis using isPubKeyHash_Some [OF Some]
      by (simp add: script_form_def decompressScript_def decodeCompressedScriptSize_def deserializeVLQ_byte go_slice_def)
  next
    case pkh: None
    show ?thesis
    proof (cases "isScriptHash pk")
      case (Some h)
      then show ?thesis using pkh isScriptHash_Some [OF Some]
        by (simp add: script_form_def decompressScript_def decodeCompressedScriptSize_def deserializeVLQ_byte go_slice_def)
    next
      case sh: None
      show ?thesis
      proof (cases "isPubKey pkey pk")
        case (Some k)
        from isPubKey_Some [OF Some] show ?thesis
        proof (elim disjE exE conjE)
          fix f x
          assume k: "k = f # x" "length x = 32" "f \<in> {0x02, 0x03}" "pk = OP_DATA_33 # f # x @ [OP_CHECKSIG]"
          then show ?thesis using pkh sh Some
            by (auto simp: script_form_def decompressScript_def decodeCompressedScriptSize_def deserializeVLQ_byte go_slice_def)
        next
          fix x y
          assume k: "k = 0x04 # x @ y" "length x = 32" "length y = 32" "pk = OP_DATA_65 # 0x04 # x @ y @ [OP_CHECKSIG]" "pkey k \<noteq> None"
          obtain key where key: "pkey ((0x02 OR (last y AND 0x01)) # x) = Some key" "uncompressed key = 0x04 # x @ y"
            using assms(1) k unfolding compressible_keys_def by blast
          have "y \<noteq> []" using k(3) by auto
          then have "k ! 64 = last y" using k(1-3) last_conv_nth [of y] by (simp add: nth_append)
          then have form: "script_form pkey pk = (0x04 OR (last y AND 0x01)) # x" using pkh sh Some k(1,2) by (simp add: script_form_def)
          have "(x @ y @ [0])[64 := c] = x @ y @ [c]" for c using k(2,3) by (simp add: list_update_append)
          then show ?thesis using parity [of "last y"] key k(2-4) unfolding form
            by (auto simp: decompressScript_def decodeCompressedScriptSize_def deserializeVLQ_byte Let_def)
        qed
      next
        case None
        let ?n = "of_nat (length pk + numSpecialScripts) :: 64 word"
        have form: "script_form pkey pk = vlq 0 ?n @ pk" using pkh sh None by (simp add: script_form_def)
        have n: "unat ?n = length pk + 6" using assms(2) unfolding numSpecialScripts_def by (intro unat_of_nat_64) simp
        have small: "?n \<noteq> 0" "?n \<noteq> 1" "?n \<notin> {2, 3, 4, 5}" using n by (auto simp: word_unat_eq_iff)
        have v: "deserializeVLQ (vlq 0 ?n @ xs) = (?n, serializeSizeVLQ ?n)" for xs by (rule deserializeVLQ_vlq)
        have sz: "serializeSizeVLQ ?n < 2 ^ 62" "0 < serializeSizeVLQ ?n"
          using serializeSizeVLQ_le [of ?n] serializeSizeVLQ_rec(3) [of ?n] n assms(2) by simp_all
        have "?n - of_nat numSpecialScripts = of_nat (length pk)"
          "?n - of_nat numSpecialScripts + of_nat (serializeSizeVLQ ?n) = of_nat (length pk + serializeSizeVLQ ?n)" by simp_all
        moreover have "sint (of_nat (length pk) :: 64 word) = int (length pk)"
          "sint (of_nat (length pk + serializeSizeVLQ ?n) :: 64 word) = int (length pk + serializeSizeVLQ ?n)"
          using sz assms(2) by (intro sint_of_nat_64; simp)+
        ultimately have s: "sint (?n - of_nat numSpecialScripts) = int (length pk)"
          "sint (?n - of_nat numSpecialScripts + of_nat (serializeSizeVLQ ?n)) = int (length pk + serializeSizeVLQ ?n)" by (simp_all only:)
        have ne: "vlq 0 ?n @ pk \<noteq> []" using length_vlq [of 0 ?n] sz(2) by (auto simp del: of_nat_add)
        have "go_slice (vlq 0 ?n @ pk) (int (serializeSizeVLQ ?n)) (int (serializeSizeVLQ ?n) + int (length pk)) = Inr pk"
          by (simp add: go_slice_def length_vlq del: of_nat_add)
        then have "decompressScript pkey uncompressed (vlq 0 ?n @ pk) = Inr pk"
          unfolding decompressScript_def v Let_def split_conv using small ne s(1) by (simp del: of_nat_add)
        moreover have "decodeCompressedScriptSize (vlq 0 ?n @ pk @ rest) = int (length (vlq 0 ?n @ pk))"
          unfolding decodeCompressedScriptSize_def v Let_def split_conv s(2) using small sz(2) by (simp add: length_vlq del: of_nat_add)
        ultimately show ?thesis unfolding form by (simp del: of_nat_add)
      qed
    qed
  qed
  then show "decompressScript pkey uncompressed (script_form pkey pk) = Inr pk"
    and "decodeCompressedScriptSize (script_form pkey pk @ rest) = int (compressedScriptSize pkey pk)"
    by (simp_all add: length_script_form)
qed


text \<open>An encoded size of 2^63 and more is a negative \<open>int\<close>, which passes the length check.\<close>

lemma decode_negative_size_panics:
  "decodeCompressedTxOut (\<lambda>_. None :: unit option) (\<lambda>_. []) [0x00, 0x80, 0xfe, 0xfe, 0xfe, 0xfe, 0xfe, 0xfe, 0xfe, 0xfe, 0x05] = Inl goPanic"
  by code_simp

lemma drop_drop_add: "drop n (drop m xs) = drop (m + n) xs"
  by (simp add: add.commute)

subsection \<open>The bytes of an output\<close>

definition txout_bytes :: "(bytes \<Rightarrow> 'k option) \<Rightarrow> 64 word \<Rightarrow> bytes \<Rightarrow> bytes" where
  "txout_bytes pkey amount pkScript = vlq 0 (compressTxOutAmount amount) @ script_form pkey pkScript"

lemma length_txout_bytes: "length (txout_bytes pkey amount pkScript) = compressedTxOutSize pkey amount pkScript"
  by (simp add: txout_bytes_def compressedTxOutSize_def length_script_form length_vlq)

lemma txout_bytes_nonempty: "txout_bytes pkey amount pkScript \<noteq> []"
  by (cases "compressTxOutAmount amount \<le> 0x7f") (simp_all only: txout_bytes_def vlq_rec append_is_Nil_conv list.simps simp_thms)

lemma putCompressedTxOut_form:
  assumes "compressedTxOutSize pkey amount pkScript \<le> length target"
  shows "putCompressedTxOut pkey target amount pkScript =
    Inr (txout_bytes pkey amount pkScript @ drop (compressedTxOutSize pkey amount pkScript) target, compressedTxOutSize pkey amount pkScript)"
  using assms putCompressedScript_form [of pkey pkScript "drop (serializeSizeVLQ (compressTxOutAmount amount)) target"]
  by (simp add: putCompressedTxOut_def putVLQ_spec compressedTxOutSize_def txout_bytes_def length_script_form length_vlq drop_drop_add add.commute)

lemma decodeCompressedTxOut_form:
  assumes "compressible_keys pkey uncompressed" "9 * unat amount + 9 < 2 ^ 64" "length pkScript < 2 ^ 61"
  shows "decodeCompressedTxOut pkey uncompressed (txout_bytes pkey amount pkScript @ rest) =
    Inr (amount, pkScript, int (compressedTxOutSize pkey amount pkScript))"
proof -
  let ?c = "compressTxOutAmount amount" and ?f = "script_form pkey pkScript"
  let ?a = "vlq 0 ?c" and ?n = "compressedScriptSize pkey pkScript"
  note l = length_script_form [of pkey pkScript] length_vlq [of 0 ?c]
  have amount: "decompressTxOutAmount ?c = amount" using amount_roundtrip_nat [OF assms(2)] by simp
  have "0 < ?n" by (simp add: compressedScriptSize_def serializeSizeVLQ_rec(3))
  have "go_slice (?a @ ?f @ rest) (int (serializeSizeVLQ ?c)) (int (serializeSizeVLQ ?c) + int ?n) = Inr ?f"
    by (simp add: go_slice_def l)
  then show ?thesis using \<open>0 < ?n\<close> script_form_back [OF assms(1,3)]
    by (simp add: decodeCompressedTxOut_def deserializeVLQ_vlq l amount txout_bytes_def compressedTxOutSize_def)
qed

subsection \<open>Properties\<close>

text \<open>
  Variable length quantities: a number is written in the predicted number of bytes to the front of a
  target that is large enough, and otherwise the write panics; the bytes are read back as the number,
  whatever follows; and no other complete encoding of at most nine bytes, the lengths that cannot wrap
  around, is read as the same number.\<close>

lemma vlq_canonical:
  "if serializeSizeVLQ n \<le> length target
   then \<exists>enc. putVLQ target n = Inr (enc @ drop (length enc) target, length enc) \<and>
     length enc = serializeSizeVLQ n \<and> (\<forall>rest. deserializeVLQ (enc @ rest) = (n, length enc)) \<and>
     (\<forall>bs k. deserializeVLQ bs = (n, k) \<and> 0 < k \<and> k \<le> 9 \<and> bs ! (k - 1) AND 0x80 = 0 \<longrightarrow> take k bs = enc)
   else putVLQ target n = Inl goPanic"
  using deserializeVLQ_unique [of _ n] by (simp add: putVLQ_spec) (metis length_vlq deserializeVLQ_vlq)

lemma vlq_canonical_example:
  "putVLQ [1, 2, 3] 128 = Inr ([0x80, 0x00, 3], 2) \<and> putVLQ [1] 128 = Inl goPanic \<and>
   deserializeVLQ [0x80, 0x00, 7] = (128, 2)"
proof -
  have sz: "serializeSizeVLQ 128 = 2" by code_simp
  have d: "deserializeVLQ [0x80, 0x00, 7] = (128, 2)" by code_simp
  from vlq_canonical [of 128 "[1, 2, 3]"] obtain enc where
    "putVLQ [1, 2, 3] 128 = Inr (enc @ drop (length enc) [1, 2, 3], length enc)" "length enc = 2"
    "\<forall>bs k. deserializeVLQ bs = (128, k) \<and> 0 < k \<and> k \<le> 9 \<and> bs ! (k - 1) AND 0x80 = 0 \<longrightarrow> take k bs = enc"
    by (auto simp: sz)
  moreover from this(3) [rule_format, of "[0x80, 0x00, 7]" 2] have "enc = [0x80, 0x00]" using d by simp
  ultimately show ?thesis using vlq_canonical [of 128 "[1]"] d by (simp add: sz)
qed

text \<open>
  C24. A transaction output with an amount below 2^64 / 9 is compressed to the predicted number of bytes
  and decompressed to the same amount and script, and the decoder reports the number of bytes, whatever
  follows. The code relies on one law of the curve package: a valid uncompressed key
  is the one obtained from its x coordinate and the parity of y.\<close>

theorem compressed_output_roundtrip:
  assumes "compressible_keys ParsePubKey SerializeUncompressed" "9 * unat amount + 9 < 2 ^ 64"
    "length pkScript < 2 ^ 61" "compressedTxOutSize ParsePubKey amount pkScript \<le> length target"
  shows "\<exists>enc. putCompressedTxOut ParsePubKey target amount pkScript = Inr (enc @ drop (length enc) target, length enc) \<and>
    length enc = compressedTxOutSize ParsePubKey amount pkScript \<and>
    (\<forall>rest. decodeCompressedTxOut ParsePubKey SerializeUncompressed (enc @ rest) = Inr (amount, pkScript, int (length enc)))"
  using assms putCompressedTxOut_form [OF assms(4)] decodeCompressedTxOut_form [OF assms(1-3)]
  by (intro exI [of _ "txout_bytes ParsePubKey amount pkScript"]) (simp add: length_txout_bytes)

text \<open>A curve with one key per x coordinate and parity.\<close>

definition toy_parse :: "bytes \<Rightarrow> bytes option" where
  "toy_parse k =
     (if length k = 33 \<and> hd k = 0x02 then Some (0x04 # tl k @ replicate 32 0)
      else if length k = 33 \<and> hd k = 0x03 then Some (0x04 # tl k @ replicate 31 0 @ [1])
      else if length k = 65 \<and> hd k = 0x04 \<and> drop 33 k \<in> {replicate 32 0, replicate 31 0 @ [1]} then Some k
      else None)"

theorem compressed_output_roundtrip_witness:
  "\<exists>enc. putCompressedTxOut toy_parse (replicate 34 7) 5000000000 (OP_DATA_65 # 0x04 # replicate 63 0 @ [1, OP_CHECKSIG]) = Inr (enc, 34) \<and>
     decodeCompressedTxOut toy_parse (\<lambda>k. k) enc = Inr (5000000000, OP_DATA_65 # 0x04 # replicate 63 0 @ [1, OP_CHECKSIG], 34)"
proof -
  have "replicate 32 (0 :: byte) = replicate 31 0 @ [0]" by (simp add: numeral_eq_Suc)
  then have "last (replicate 32 (0 :: byte)) = 0" by simp
  then have "compressible_keys toy_parse (\<lambda>k. k)" by (auto simp: compressible_keys_def toy_parse_def split: if_splits)
  moreover have sz: "compressedTxOutSize toy_parse 5000000000 (OP_DATA_65 # 0x04 # replicate 63 0 @ [1, OP_CHECKSIG]) = 34" by code_simp
  ultimately obtain enc where
    "putCompressedTxOut toy_parse (replicate 34 7) 5000000000 (OP_DATA_65 # 0x04 # replicate 63 0 @ [1, OP_CHECKSIG]) =
       Inr (enc @ drop (length enc) (replicate 34 7), length enc)" "length enc = 34"
    "\<forall>rest. decodeCompressedTxOut toy_parse (\<lambda>k. k) (enc @ rest) =
       Inr (5000000000, OP_DATA_65 # 0x04 # replicate 63 0 @ [1, OP_CHECKSIG], int (length enc))"
    using compressed_output_roundtrip [of toy_parse "\<lambda>k. k" 5000000000 "OP_DATA_65 # 0x04 # replicate 63 0 @ [1, OP_CHECKSIG]" "replicate 34 7"]
    by auto
  moreover from this(3) [rule_format, of "[]"] have "decodeCompressedTxOut toy_parse (\<lambda>k. k) enc =
      Inr (5000000000, OP_DATA_65 # 0x04 # replicate 63 0 @ [1, OP_CHECKSIG], 34)" by (simp add: calculation(2))
  ultimately show ?thesis by (intro exI [of _ enc]) simp
qed

end
