(* ===== verification/Block_Index.thy ===== *)
theory Block_Index
  imports Work_Math Wire_Tx Script_Base "HOL-Library.Multiset"
begin

text \<open>
  Block nodes and the block index (\<^verbatim>\<open>node/blockchain/blockindex.go\<close>). A node holds its parent and a
  skip pointer to an older ancestor, which \<open>Ancestor\<close> follows as far as it can. The nodes are values; the
  status bits of a node, the only field that the code writes later, and the set of dirty nodes are left out. A map from hashes to
  nodes stands for the index. The lemmas show that the walk over skip pointers finds the node that the walk over
  parents finds, and that the past median time does not decrease along a chain of non-decreasing
  timestamps.
\<close>

subsection \<open>Block nodes\<close>

datatype (plugins only: code size) blockNode =
  BlockNode (bn_parent: "blockNode option") (bn_ancestor: "blockNode option") (bn_hash: hash) (bn_workSum: int)
    (bn_height: int) (bn_version: int) (bn_bits: "32 word") (bn_timestamp: int) (bn_merkleRoot: hash)
    (bn_proofCommitment: hash) (bn_vsize: int) (bn_status: byte)

definition HaveData :: "byte \<Rightarrow> bool" where
  "HaveData status \<longleftrightarrow> status AND 0x01 \<noteq> 0"

definition KnownValid :: "byte \<Rightarrow> bool" where
  "KnownValid status \<longleftrightarrow> status AND 0x02 \<noteq> 0"

definition KnownInvalid :: "byte \<Rightarrow> bool" where
  "KnownInvalid status \<longleftrightarrow> status AND (0x04 OR 0x08) \<noteq> 0"

definition invertLowestOne :: "int \<Rightarrow> int" where
  "invertLowestOne n = n AND int32_of (n - 1)"

definition getAncestorHeight :: "int \<Rightarrow> int" where
  "getAncestorHeight height = invertLowestOne (invertLowestOne height)"

fun parent_size :: "blockNode option \<Rightarrow> nat" where
  "parent_size None = 0"
| "parent_size (Some n) = Suc (size n)"

lemma parent_smaller: "parent_size (bn_parent n) < Suc (size n)" "parent_size (bn_ancestor n) < Suc (size n)"
  by (cases n; cases "bn_parent n"; cases "bn_ancestor n"; auto)+

function ancestor_loop :: "blockNode option \<Rightarrow> int \<Rightarrow> blockNode option" where
  "ancestor_loop n height =
     (case n of
        None \<Rightarrow> None
      | Some node \<Rightarrow>
          if bn_height node = height then Some node
          else if bn_ancestor node \<noteq> None \<and> getAncestorHeight (bn_height node) \<ge> height
          then ancestor_loop (bn_ancestor node) height
          else ancestor_loop (bn_parent node) height)"
  by pat_completeness auto

termination
  by (relation "measure (\<lambda>(n, height). parent_size n)") (simp_all add: parent_smaller)

declare ancestor_loop.simps [simp del]

definition Ancestor :: "blockNode \<Rightarrow> int \<Rightarrow> blockNode option" where
  "Ancestor node height =
     (if height < 0 \<or> height > bn_height node then None else ancestor_loop (Some node) height)"

definition RelativeAncestor :: "blockNode \<Rightarrow> int \<Rightarrow> blockNode option" where
  "RelativeAncestor node distance = Ancestor node (int32_of (bn_height node - distance))"

definition newBlockNode ::
  "(bytes \<Rightarrow> hash) \<Rightarrow> BlockHeader \<Rightarrow> blockNode option \<Rightarrow> byte \<Rightarrow> int \<Rightarrow> blockNode" where
  "newBlockNode dh blockHeader parent status vsize =
     (let node = (\<lambda>ancestor workSum height.
            BlockNode parent ancestor (BlockHash dh blockHeader) workSum height (bh_Version blockHeader)
              (of_nat (bh_Bits blockHeader)) (bh_Timestamp blockHeader) (bh_MerkleRoot blockHeader)
              (bh_ProofCommitment blockHeader) vsize status);
          workSum = CalcWork (of_nat (bh_Bits blockHeader))
      in case parent of
           None \<Rightarrow> node None workSum 0
         | Some p \<Rightarrow>
             let height = int32_of (bn_height p + 1)
             in node (Ancestor p (getAncestorHeight height)) (bn_workSum p + workSum) height)"

definition Equals :: "blockNode \<Rightarrow> blockNode \<Rightarrow> bool" where
  "Equals node other \<longleftrightarrow>
     bn_hash node = bn_hash other \<and> bn_workSum node = bn_workSum other \<and> bn_height node = bn_height other \<and>
     bn_version node = bn_version other \<and> bn_bits node = bn_bits other \<and> bn_timestamp node = bn_timestamp other \<and>
     bn_merkleRoot node = bn_merkleRoot other \<and> bn_proofCommitment node = bn_proofCommitment other \<and>
     bn_vsize node = bn_vsize other \<and> bn_status node = bn_status other"

definition IsAncestor :: "blockNode \<Rightarrow> blockNode option \<Rightarrow> bool" where
  "IsAncestor node otherNode =
     (case otherNode of
        None \<Rightarrow> False
      | Some other \<Rightarrow>
          (case Ancestor node (bn_height other) of
             None \<Rightarrow> False
           | Some ancestor \<Rightarrow>
               if bn_height node = bn_height ancestor then False else Equals ancestor other))"

subsection \<open>The past median time\<close>

definition medianTimeBlocks :: nat where "medianTimeBlocks = 11"

fun past_timestamps :: "nat \<Rightarrow> blockNode option \<Rightarrow> int list" where
  "past_timestamps 0 iterNode = []"
| "past_timestamps (Suc i) None = []"
| "past_timestamps (Suc i) (Some node) = bn_timestamp node # past_timestamps i (bn_parent node)"

definition CalcPastMedianTime :: "blockNode \<Rightarrow> int" where
  "CalcPastMedianTime node =
     (let timestamps = sort (past_timestamps medianTimeBlocks (Some node))
      in timestamps ! (length timestamps div 2))"

subsection \<open>The index\<close>

type_synonym blockIndex = "hash \<Rightarrow> blockNode option"

definition newBlockIndex :: blockIndex where
  "newBlockIndex = (\<lambda>_. None)"

definition HaveBlock :: "blockIndex \<Rightarrow> hash \<Rightarrow> bool" where
  "HaveBlock bi h \<longleftrightarrow> bi h \<noteq> None"

definition LookupNode :: "blockIndex \<Rightarrow> hash \<Rightarrow> blockNode option" where
  "LookupNode bi h = bi h"

definition addNode :: "blockIndex \<Rightarrow> blockNode \<Rightarrow> blockIndex" where
  "addNode bi node = bi(bn_hash node \<mapsto> node)"

definition index_Add ::
  "(bytes \<Rightarrow> hash) \<Rightarrow> blockIndex \<Rightarrow> BlockHeader \<Rightarrow> blockNode option \<Rightarrow> byte \<Rightarrow> int \<Rightarrow> blockIndex \<times> blockNode" where
  "index_Add dh bi header parent status vsize =
     (let node = newBlockNode dh header parent status vsize in (addNode bi node, node))"

subsection \<open>Chains of nodes\<close>

text \<open>Nodes that the code creates: a genesis node, or a child below the largest height.\<close>

inductive built :: "(bytes \<Rightarrow> hash) \<Rightarrow> blockNode \<Rightarrow> bool" for dh where
  built_genesis: "built dh (newBlockNode dh header None status vsize)"
| built_child: "built dh p \<Longrightarrow> bn_height p < 2 ^ 31 - 1 \<Longrightarrow> built dh (newBlockNode dh header (Some p) status vsize)"

text \<open>The node that many steps back.\<close>

fun parents :: "nat \<Rightarrow> blockNode \<Rightarrow> blockNode option" where
  "parents 0 n = Some n"
| "parents (Suc k) n = (case bn_parent n of None \<Rightarrow> None | Some p \<Rightarrow> parents k p)"

lemma parents_add: "parents (j + k) n = (case parents j n of None \<Rightarrow> None | Some m \<Rightarrow> parents k m)"
  by (induction j n rule: parents.induct) (simp_all split: option.split)

lemma newBlockNode_fields [simp]:
  "bn_parent (newBlockNode dh h p s v) = p"
  "bn_height (newBlockNode dh h None s v) = 0"
  "bn_height (newBlockNode dh h (Some q) s v) = int32_of (bn_height q + 1)"
  "bn_ancestor (newBlockNode dh h None s v) = None"
  "bn_ancestor (newBlockNode dh h (Some q) s v) = Ancestor q (getAncestorHeight (int32_of (bn_height q + 1)))"
  "bn_timestamp (newBlockNode dh h p s v) = bh_Timestamp h"
  "bn_hash (newBlockNode dh h p s v) = BlockHash dh h"
  by (simp_all add: newBlockNode_def Let_def split: option.split)

lemma built_height: "built dh n \<Longrightarrow> 0 \<le> bn_height n \<and> bn_height n < 2 ^ 31"
  by (induction rule: built.induct) (simp_all add: int32_of_id)

lemma built_parent:
  assumes "built dh n"
  shows "bn_parent n = None \<Longrightarrow> bn_height n = 0"
    and "bn_parent n = Some p \<Longrightarrow> built dh p \<and> bn_height n = bn_height p + 1 \<and>
      bn_ancestor n = Ancestor p (getAncestorHeight (bn_height n))"
  using assms by (cases rule: built.cases, (auto dest!: built_height simp: int32_of_id)[2])+

lemma built_parents:
  "built dh n \<Longrightarrow> int k \<le> bn_height n \<Longrightarrow> \<exists>m. parents k n = Some m \<and> built dh m \<and> bn_height m = bn_height n - int k"
proof (induction k arbitrary: n)
  case (Suc k)
  then obtain p where p: "bn_parent n = Some p" using built_parent(1) [OF Suc.prems(1)] by (cases "bn_parent n") auto
  with built_parent(2) [OF Suc.prems(1) p] Suc.IH [of p] Suc.prems(2) show ?case by auto
qed simp

lemma invertLowestOne_less: "0 \<le> n \<Longrightarrow> n < 2 ^ 31 \<Longrightarrow> 0 \<le> invertLowestOne n \<and> invertLowestOne n \<le> n \<and> (0 < n \<longrightarrow> invertLowestOne n < n)"
proof -
  assume n: "0 \<le> n" "n < 2 ^ 31"
  then have "int32_of (n - 1) = n - 1" by (intro int32_of_id) simp_all
  moreover have "0 \<le> n AND (n - 1)" using n by simp
  moreover have "n AND (n - 1) \<le> n - 1" if "0 < n" using that by (intro AND_upper2) simp
  ultimately show ?thesis using n by (cases "n = 0") (auto simp: invertLowestOne_def)
qed

lemma getAncestorHeight_less: "0 < n \<Longrightarrow> n < 2 ^ 31 \<Longrightarrow> 0 \<le> getAncestorHeight n \<and> getAncestorHeight n < n"
  using invertLowestOne_less [of n] invertLowestOne_less [of "invertLowestOne n"] by (simp add: getAncestorHeight_def)

text \<open>The walk over skip pointers ends in the node that the walk over parents ends in.\<close>

lemma ancestor_loop_parents:
  assumes "built dh n" "0 \<le> h" "h \<le> bn_height n"
  shows "ancestor_loop (Some n) h = parents (nat (bn_height n - h)) n"
  using assms
proof (induction "nat (bn_height n)" arbitrary: n h rule: less_induct)
  case less
  show ?case
  proof (cases "bn_height n = h")
    case True
    then show ?thesis by (simp add: ancestor_loop.simps)
  next
    case False
    then have pos: "0 < bn_height n" using less.prems by simp
    then obtain p where p: "bn_parent n = Some p" using built_parent(1) [OF less.prems(1)] by (cases "bn_parent n") auto
    note b = built_parent(2) [OF less.prems(1) p]
    let ?g = "getAncestorHeight (bn_height n)"
    have g: "0 \<le> ?g" "?g < bn_height n" using getAncestorHeight_less [OF pos] built_height [OF less.prems(1)] by simp_all
    have "ancestor_loop (Some p) ?g = parents (nat (bn_height p - ?g)) p" using g b pos by (intro less.hyps) auto
    then have a: "bn_ancestor n = parents (nat (bn_height p - ?g)) p" using b g by (simp add: Ancestor_def)
    obtain m where m: "parents (nat (bn_height p - ?g)) p = Some m" "built dh m" "bn_height m = ?g"
      using built_parents [of dh p "nat (bn_height p - ?g)"] b g by auto
    show ?thesis
    proof (cases "?g \<ge> h")
      case True
      have "ancestor_loop (Some n) h = ancestor_loop (Some m) h"
        using False True a m(1) by (simp add: ancestor_loop.simps [of "Some n"])
      also have "\<dots> = parents (nat (?g - h)) m" using less.hyps [of m h] m g less.prems(2) True by simp
      also have "\<dots> = parents (Suc (nat (bn_height p - ?g)) + nat (?g - h)) n" unfolding parents_add by (simp add: p m(1))
      also have "Suc (nat (bn_height p - ?g)) + nat (?g - h) = nat (bn_height n - h)" using b g True less.prems by simp
      finally show ?thesis .
    next
      case skip: False
      have "ancestor_loop (Some n) h = ancestor_loop (Some p) h"
        using False skip p by (simp add: ancestor_loop.simps [of "Some n"])
      also have "\<dots> = parents (nat (bn_height p - h)) p" using b less.prems False by (intro less.hyps) auto
      also have "\<dots> = parents (Suc (nat (bn_height p - h))) n" by (simp add: p)
      also have "Suc (nat (bn_height p - h)) = nat (bn_height n - h)" using b False less.prems by simp
      finally show ?thesis .
    qed
  qed
qed

lemma Ancestor_parents:
  assumes "built dh n"
  shows "Ancestor n h = (if 0 \<le> h \<and> h \<le> bn_height n then parents (nat (bn_height n - h)) n else None)"
  using ancestor_loop_parents [OF assms] by (auto simp: Ancestor_def)

lemma Ancestor_built:
  assumes "built dh n" "0 \<le> h" "h \<le> bn_height n"
  shows "\<exists>m. Ancestor n h = Some m \<and> built dh m \<and> bn_height m = h"
  using built_parents [OF assms(1), of "nat (bn_height n - h)"] assms by (auto simp: Ancestor_parents)

text \<open>A set of nodes that is closed under parents, without two nodes of the same hash.\<close>

definition block_tree :: "(bytes \<Rightarrow> hash) \<Rightarrow> blockNode set \<Rightarrow> bool" where
  "block_tree dh N \<longleftrightarrow> (\<forall>n \<in> N. built dh n \<and> (\<forall>p. bn_parent n = Some p \<longrightarrow> p \<in> N)) \<and> inj_on bn_hash N"

text \<open>An index that finds every node of the set by its hash.\<close>

definition index_ok :: "blockIndex \<Rightarrow> blockNode set \<Rightarrow> bool" where
  "index_ok bi N \<longleftrightarrow> (\<forall>n \<in> N. LookupNode bi (bn_hash n) = Some n)"

lemma parents_None: "built dh n \<Longrightarrow> bn_height n < int k \<Longrightarrow> parents k n = None"
proof (induction k arbitrary: n)
  case 0
  then show ?case using built_height [of dh n] by simp
next
  case (Suc k)
  show ?case
  proof (cases "bn_parent n")
    case (Some p)
    then show ?thesis using built_parent(2) [OF Suc.prems(1) Some] Suc.IH [of p] Suc.prems(2) by simp
  qed simp
qed

lemma tree_parents: "block_tree dh N \<Longrightarrow> n \<in> N \<Longrightarrow> parents k n = Some m \<Longrightarrow> m \<in> N"
  by (induction k arbitrary: n) (auto simp: block_tree_def split: option.splits)

lemma tree_built: "block_tree dh N \<Longrightarrow> n \<in> N \<Longrightarrow> built dh n"
  by (simp add: block_tree_def)

text \<open>Chains whose timestamps do not decrease, as the header rules of the network require.\<close>

inductive timely :: "blockNode \<Rightarrow> bool" where
  timely_genesis: "bn_parent n = None \<Longrightarrow> timely n"
| timely_child: "bn_parent n = Some p \<Longrightarrow> timely p \<Longrightarrow> bn_timestamp p \<le> bn_timestamp n \<Longrightarrow> timely n"

lemma timely_parent: "timely n \<Longrightarrow> bn_parent n = Some p \<Longrightarrow> timely p \<and> bn_timestamp p \<le> bn_timestamp n"
  by (cases rule: timely.cases) auto

lemma past_timestamps_le: "timely n \<Longrightarrow> t \<in> set (past_timestamps i (Some n)) \<Longrightarrow> t \<le> bn_timestamp n"
proof (induction i arbitrary: n)
  case (Suc i)
  show ?case
  proof (cases "bn_parent n")
    case None
    then show ?thesis using Suc.prems(2) by (cases i) simp_all
  next
    case (Some p)
    then show ?thesis using Suc.prems(2) Suc.IH [of p] timely_parent [OF Suc.prems(1) Some] by force
  qed
qed simp

lemma past_timestamps_sorted: "timely n \<Longrightarrow> sorted (rev (past_timestamps i (Some n)))"
proof (induction i arbitrary: n)
  case (Suc i)
  show ?case
  proof (cases "bn_parent n")
    case None
    then show ?thesis by (cases i) simp_all
  next
    case (Some p)
    then show ?thesis using Suc.IH [of p] timely_parent [OF Suc.prems Some] past_timestamps_le [of p _ i]
      by (fastforce simp: sorted_append)
  qed
qed simp

lemma past_timestamps_take: "past_timestamps i n = take i (past_timestamps (Suc i) n)"
  by (induction i n rule: past_timestamps.induct) simp_all

lemma length_past_timestamps: "length (past_timestamps i n) \<le> i"
  by (induction i n rule: past_timestamps.induct) simp_all

lemma CalcPastMedianTime_timely:
  assumes "timely n"
  shows "let L = past_timestamps 11 (Some n) in CalcPastMedianTime n = L ! (length L - 1 - length L div 2) \<and> L \<noteq> []"
proof -
  let ?L = "past_timestamps 11 (Some n)"
  have "sort ?L = rev ?L" using past_timestamps_sorted [OF assms] by (intro properties_for_sort) simp_all
  moreover have "?L \<noteq> []" by (simp add: numeral_eq_Suc)
  ultimately show ?thesis by (simp add: CalcPastMedianTime_def medianTimeBlocks_def Let_def rev_nth)
qed

lemma median_time_mono:
  assumes "timely n" "bn_parent n = Some p"
  shows "CalcPastMedianTime p \<le> CalcPastMedianTime n"
proof -
  let ?P = "past_timestamps 11 (Some p)" and ?N = "past_timestamps 11 (Some n)"
  note t = timely_parent [OF assms]
  have N: "?N = bn_timestamp n # take 10 ?P"
    using assms(2) past_timestamps_take [of 10 "Some p"] by (simp add: numeral_eq_Suc del: take_Suc_Cons)
  have P: "CalcPastMedianTime p = ?P ! (length ?P - 1 - length ?P div 2)" "?P \<noteq> []"
    using CalcPastMedianTime_timely [of p] t by (simp_all add: Let_def)
  have M: "CalcPastMedianTime n = ?N ! (length ?N - 1 - length ?N div 2)"
    using CalcPastMedianTime_timely [OF assms(1)] by (simp add: Let_def)
  have len: "length ?P \<le> 11" "0 < length ?P" using length_past_timestamps [of 11 "Some p"] P(2) by simp_all
  have desc: "?P ! j \<le> ?P ! i" if "i \<le> j" "j < length ?P" for i j
  proof -
    have "rev ?P ! (length ?P - 1 - j) \<le> rev ?P ! (length ?P - 1 - i)"
      using past_timestamps_sorted [of p 11] t that by (intro sorted_nth_mono) simp_all
    then show ?thesis using that by (simp add: rev_nth)
  qed
  let ?i = "length ?N - 1 - length ?N div 2"
  have lN: "length ?N = min 11 (Suc (length ?P))" unfolding N by simp
  show ?thesis
  proof (cases ?i)
    case 0
    have "?P ! (length ?P - 1 - length ?P div 2) \<in> set ?P" using len by (intro nth_mem) simp
    then have "CalcPastMedianTime p \<le> bn_timestamp p" using past_timestamps_le [of p _ 11] t P(1) by simp
    moreover have "CalcPastMedianTime n = bn_timestamp n" using M 0 N by simp
    ultimately show ?thesis using t by simp
  next
    case (Suc i)
    have "i \<le> length ?P - 1 - length ?P div 2" "i < 10" using Suc len lN by (auto simp: min_def split: if_splits)
    moreover from this have "CalcPastMedianTime n = ?P ! i" using M Suc N by simp
    ultimately show ?thesis using desc [of i "length ?P - 1 - length ?P div 2"] P(1) len by simp
  qed
qed

subsection \<open>Properties\<close>

text \<open>
  C25. \<open>Ancestor\<close> is the walk over parents: for every node that the code creates, following the skip
  pointers gives the node as many steps back as the heights differ, and nil for a height that is
  negative or above the node.\<close>

theorem ancestor_by_parents:
  assumes "built dh n"
  shows "Ancestor n h = (if 0 \<le> h \<and> h \<le> bn_height n then parents (nat (bn_height n - h)) n else None) \<and>
    (0 \<le> h \<and> h \<le> bn_height n \<longrightarrow> (\<exists>m. Ancestor n h = Some m \<and> bn_height m = h))"
  using Ancestor_parents [OF assms] Ancestor_built [OF assms] by blast

definition genesis_header :: BlockHeader where
  "genesis_header = \<lparr>bh_Version = 1, bh_PrevBlock = replicate 32 0, bh_MerkleRoot = replicate 32 0, bh_Timestamp = 0,
     bh_Bits = 0x1b00ffff, bh_ProofCommitment = replicate 32 0\<rparr>"

fun sample_chain :: "nat \<Rightarrow> blockNode" where
  "sample_chain 0 = newBlockNode (\<lambda>_. []) genesis_header None 0 0"
| "sample_chain (Suc k) = newBlockNode (\<lambda>_. []) (genesis_header\<lparr>bh_Timestamp := int k\<rparr>) (Some (sample_chain k)) 0 0"

declare sample_chain.simps [simp del]

lemma sample_chain_built: "k < 2 ^ 31 \<Longrightarrow> built (\<lambda>_. []) (sample_chain k) \<and> bn_height (sample_chain k) = int k"
  by (induction k) (simp_all add: sample_chain.simps built_genesis built_child int32_of_id)

theorem ancestor_by_parents_witness:
  "Ancestor (sample_chain 1000) 17 = parents 983 (sample_chain 1000) \<and> (\<exists>m. Ancestor (sample_chain 1000) 17 = Some m \<and> bn_height m = 17)"
  using ancestor_by_parents [of "\<lambda>_. []" "sample_chain 1000" 17] sample_chain_built [of 1000] by fastforce

end
