(* ===== verification/Deployments.thy ===== *)
theory Deployments
  imports Block_Index "HOL-Library.Signed_Division"
begin

text \<open>
  Version bits voting (\<^verbatim>\<open>node/blockchain/thresholdstate.go\<close>, \<^verbatim>\<open>versionbits.go\<close>,
  \<^verbatim>\<open>node/chaincfg/deployment_time_frame.go\<close>). The interface of condition checkers is a record of its
  methods, and its contract, that the condition of a block has one value whatever the caches of the
  checker hold, is the locale \<open>condition_checker\<close>. It has two interpretations: deployment checkers, whose
  condition is a bit of the block version, and the checkers for unknown rules, whose condition works on the
  deployment caches and rests on the first interpretation. A state computation that does not return is
  \<open>None\<close>. Times are seconds; the zero time is \<open>None\<close>. The log output is left out.
\<close>

subsection \<open>States and checkers\<close>

datatype ThresholdState =
  ThresholdDefined | ThresholdStarted | ThresholdLockedIn | ThresholdActive | ThresholdFailed

text \<open>The interface \<open>thresholdConditionChecker\<close>. A condition may work on caches of its own, which are the
  state \<open>'s\<close>.\<close>

record 's thresholdConditionChecker =
  HasStarted :: "blockNode \<Rightarrow> bool"
  HasEnded :: "blockNode \<Rightarrow> bool"
  RuleChangeActivationThreshold :: nat
  MinerConfirmationWindow :: nat
  EligibleToActivate :: "blockNode \<Rightarrow> bool"
  IsSpeedy :: bool
  Condition :: "blockNode \<Rightarrow> 's \<Rightarrow> ((go_error + bool) \<times> 's) option"
  ForceActive :: "blockNode option \<Rightarrow> bool"

type_synonym thresholdStateCache = "hash \<Rightarrow> ThresholdState option"

definition cache_Lookup :: "thresholdStateCache \<Rightarrow> hash \<Rightarrow> ThresholdState option" where
  "cache_Lookup c h = c h"

definition cache_Update :: "thresholdStateCache \<Rightarrow> hash \<Rightarrow> ThresholdState \<Rightarrow> thresholdStateCache" where
  "cache_Update c h state = c(h \<mapsto> state)"

definition newThresholdCaches :: "nat \<Rightarrow> thresholdStateCache list" where
  "newThresholdCaches numCaches = replicate numCaches (\<lambda>_. None)"

subsection \<open>Transitions\<close>

fun count_votes ::
  "'s thresholdConditionChecker \<Rightarrow> nat \<Rightarrow> blockNode option \<Rightarrow> nat \<Rightarrow> 's \<Rightarrow> ((go_error + nat) \<times> 's) option" where
  "count_votes checker 0 countNode cnt s = Some (Inr cnt, s)"
| "count_votes checker (Suc i) countNode cnt s =
     (case countNode of
        None \<Rightarrow> Some (Inl goPanic, s)
      | Some node \<Rightarrow>
          Option.bind (Condition checker node s) (\<lambda>(condition, s).
            (case condition of
               Inl e \<Rightarrow> Some (Inl e, s)
             | Inr b \<Rightarrow> count_votes checker i (bn_parent node) (if b then cnt + 1 else cnt) s)))"

definition thresholdStateTransition ::
  "ThresholdState \<Rightarrow> blockNode \<Rightarrow> 's thresholdConditionChecker \<Rightarrow> int \<Rightarrow> 's \<Rightarrow> ((go_error + ThresholdState) \<times> 's) option" where
  "thresholdStateTransition state prevNode checker confirmationWindow s =
     (case state of
        ThresholdDefined \<Rightarrow>
          Some (Inr (if \<not> IsSpeedy checker \<and> HasEnded checker prevNode then ThresholdFailed
                     else if HasStarted checker prevNode then ThresholdStarted else state), s)
      | ThresholdStarted \<Rightarrow>
          if \<not> IsSpeedy checker \<and> HasEnded checker prevNode then Some (Inr ThresholdFailed, s)
          else
            Option.bind (count_votes checker (nat confirmationWindow) (Some prevNode) 0 s) (\<lambda>(votes, s).
              (case votes of
                 Inl e \<Rightarrow> Some (Inl e, s)
               | Inr cnt \<Rightarrow>
                   Some (Inr (if cnt \<ge> RuleChangeActivationThreshold checker then ThresholdLockedIn
                              else if IsSpeedy checker \<and> HasEnded checker prevNode then ThresholdFailed
                              else state), s)))
      | ThresholdLockedIn \<Rightarrow>
          Some (Inr (if \<not> EligibleToActivate checker prevNode then ThresholdLockedIn else ThresholdActive), s)
      | ThresholdActive \<Rightarrow> Some (Inr state, s)
      | ThresholdFailed \<Rightarrow> Some (Inr state, s))"

partial_function (option) needed_windows ::
  "'s thresholdConditionChecker \<Rightarrow> int \<Rightarrow> thresholdStateCache \<Rightarrow> blockNode option \<Rightarrow> blockNode list \<Rightarrow>
     (thresholdStateCache \<times> blockNode option \<times> blockNode list) option" where
  "needed_windows checker confirmationWindow cache prevNode neededStates =
     (case prevNode of
        None \<Rightarrow> Some (cache, None, neededStates)
      | Some node \<Rightarrow>
          if cache_Lookup cache (bn_hash node) \<noteq> None then Some (cache, Some node, neededStates)
          else if \<not> HasStarted checker node
          then Some (cache_Update cache (bn_hash node) ThresholdDefined, Some node, neededStates)
          else needed_windows checker confirmationWindow cache (RelativeAncestor node confirmationWindow)
                 (node # neededStates))"

fun update_windows ::
  "'s thresholdConditionChecker \<Rightarrow> int \<Rightarrow> blockNode list \<Rightarrow> ThresholdState \<Rightarrow> thresholdStateCache \<Rightarrow> 's \<Rightarrow>
     ((go_error + ThresholdState) \<times> thresholdStateCache \<times> 's) option" where
  "update_windows checker confirmationWindow [] state cache s = Some (Inr state, cache, s)"
| "update_windows checker confirmationWindow (prevNode # neededStates) state cache s =
     Option.bind (thresholdStateTransition state prevNode checker confirmationWindow s) (\<lambda>(r, s).
       (case r of
          Inl e \<Rightarrow> Some (Inl e, cache, s)
        | Inr state \<Rightarrow>
            update_windows checker confirmationWindow neededStates state
              (cache_Update cache (bn_hash prevNode) state) s))"

definition thresholdState ::
  "blockNode option \<Rightarrow> 's thresholdConditionChecker \<Rightarrow> thresholdStateCache \<Rightarrow> 's \<Rightarrow>
     ((go_error + ThresholdState) \<times> thresholdStateCache \<times> 's) option" where
  "thresholdState prevNode checker cache s =
     (if ForceActive checker prevNode then Some (Inr ThresholdActive, cache, s)
      else
        let confirmationWindow = int32_of (int (MinerConfirmationWindow checker))
        in case prevNode of
             None \<Rightarrow> Some (Inr ThresholdDefined, cache, s)
           | Some node \<Rightarrow>
               if int32_of (bn_height node + 1) < confirmationWindow then Some (Inr ThresholdDefined, cache, s)
               else if confirmationWindow = 0 then Some (Inl goPanic, cache, s)
               else
                 let prevNode = Ancestor node
                       (int32_of (bn_height node - int32_of (bn_height node + 1) smod confirmationWindow))
                 in Option.bind (needed_windows checker confirmationWindow cache prevNode [])
                      (\<lambda>(cache, prevNode, neededStates).
                        (case (case prevNode of
                                 None \<Rightarrow> Some ThresholdDefined
                               | Some node \<Rightarrow> cache_Lookup cache (bn_hash node)) of
                           None \<Rightarrow> Some (Inl otherError, cache, s)
                         | Some state \<Rightarrow> update_windows checker confirmationWindow neededStates state cache s)))"

subsection \<open>Deployments\<close>

record ConsensusDeployment =
  cd_BitNumber :: nat
  cd_MinActivationHeight :: nat
  cd_CustomActivationThreshold :: nat
  cd_AlwaysActiveHeight :: nat
  cd_StartTime :: "int option"
  cd_EndTime :: "int option"

record votingParams =
  vp_RuleChangeActivationThreshold :: nat
  vp_MinerConfirmationWindow :: nat
  vp_Deployments :: "ConsensusDeployment list"

definition EffectiveAlwaysActiveHeight :: "ConsensusDeployment \<Rightarrow> nat" where
  "EffectiveAlwaysActiveHeight d = (if cd_AlwaysActiveHeight d = 0 then 2 ^ 32 - 1 else cd_AlwaysActiveHeight d)"

definition PastMedianTime :: "blockIndex \<Rightarrow> blockNode \<Rightarrow> go_error + int" where
  "PastMedianTime bi blockHeader =
     (case bn_parent blockHeader of
        None \<Rightarrow> Inl otherError
      | Some parent \<Rightarrow>
          (case LookupNode bi (bn_hash parent) of
             None \<Rightarrow> Inl otherError
           | Some prevNode \<Rightarrow>
               Inr (CalcPastMedianTime
                 (BlockNode (Some prevNode) None (bn_hash blockHeader) 0 (bn_height blockHeader) 0 (bn_bits blockHeader)
                   (bn_timestamp blockHeader) (replicate 32 0) (replicate 32 0) 0 0))))"

text \<open>The median time starter and ender; the time is None when it is the zero time.\<close>

definition Starter_HasStarted :: "(blockNode \<Rightarrow> go_error + int) option \<Rightarrow> int option \<Rightarrow> blockNode \<Rightarrow> go_error + bool" where
  "Starter_HasStarted blockClock startTime blkHeader =
     (case blockClock of
        None \<Rightarrow> Inl otherError
      | Some clock \<Rightarrow>
          (case startTime of
             None \<Rightarrow> Inr True
           | Some t \<Rightarrow> sbind (clock blkHeader) (\<lambda>medianTime. Inr (medianTime > t \<or> medianTime = t))))"

definition Ender_HasEnded :: "(blockNode \<Rightarrow> go_error + int) option \<Rightarrow> int option \<Rightarrow> blockNode \<Rightarrow> go_error + bool" where
  "Ender_HasEnded blockClock endTime blkHeader =
     (case blockClock of
        None \<Rightarrow> Inl otherError
      | Some clock \<Rightarrow>
          (case endTime of
             None \<Rightarrow> Inr False
           | Some t \<Rightarrow> sbind (clock blkHeader) (\<lambda>medianTime. Inr (medianTime > t \<or> medianTime = t))))"

text \<open>\<open>started, _ := ...\<close>: the result next to an error is false.\<close>

definition value_of :: "go_error + bool \<Rightarrow> bool" where
  "value_of r = (case r of Inl _ \<Rightarrow> False | Inr b \<Rightarrow> b)"

definition vbTopBits :: "32 word" where "vbTopBits = 0x20000000"
definition vbTopMask :: "32 word" where "vbTopMask = 0xe0000000"
definition vbNumBits :: nat where "vbNumBits = 29"

definition signals :: "ConsensusDeployment \<Rightarrow> blockNode \<Rightarrow> bool" where
  "signals d node =
     (let conditionMask = push_bit (cd_BitNumber d) 1; version = word_of_int (bn_version node)
      in version AND vbTopMask = vbTopBits \<and> version AND conditionMask \<noteq> 0)"

definition deploymentChecker :: "votingParams \<Rightarrow> blockIndex \<Rightarrow> ConsensusDeployment \<Rightarrow> 's thresholdConditionChecker" where
  "deploymentChecker P bi d =
     \<lparr>HasStarted = (\<lambda>blkNode. value_of (Starter_HasStarted (Some (PastMedianTime bi)) (cd_StartTime d) blkNode)),
      HasEnded = (\<lambda>blkNode. value_of (Ender_HasEnded (Some (PastMedianTime bi)) (cd_EndTime d) blkNode)),
      RuleChangeActivationThreshold =
        (if cd_CustomActivationThreshold d \<noteq> 0 then cd_CustomActivationThreshold d else vp_RuleChangeActivationThreshold P),
      MinerConfirmationWindow = vp_MinerConfirmationWindow P,
      EligibleToActivate = (\<lambda>blkNode.
        if cd_MinActivationHeight d = 0 then True
        else uint32_of (bn_height blkNode + 1) \<ge> int (cd_MinActivationHeight d)),
      IsSpeedy = (cd_MinActivationHeight d \<noteq> 0 \<or> cd_CustomActivationThreshold d \<noteq> 0),
      Condition = (\<lambda>node s. Some (Inr (signals d node), s)),
      ForceActive = (\<lambda>node.
        (case node of
           None \<Rightarrow> False
         | Some n \<Rightarrow> uint32_of (bn_height n + 1) \<ge> int (EffectiveAlwaysActiveHeight d)))\<rparr>"

fun next_version_loop ::
  "votingParams \<Rightarrow> blockIndex \<Rightarrow> blockNode option \<Rightarrow> ConsensusDeployment list \<Rightarrow> thresholdStateCache list \<Rightarrow> 32 word \<Rightarrow>
     ((go_error + 32 word) \<times> thresholdStateCache list) option" where
  "next_version_loop P bi prevNode [] caches expectedVersion = Some (Inr expectedVersion, caches)"
| "next_version_loop P bi prevNode (d # ds) [] expectedVersion = Some (Inl goPanic, [])"
| "next_version_loop P bi prevNode (d # ds) (cache # caches) expectedVersion =
     Option.bind (thresholdState prevNode (deploymentChecker P bi d) cache ()) (\<lambda>(r, cache, _).
       (case r of
          Inl e \<Rightarrow> Some (Inl e, cache # caches)
        | Inr state \<Rightarrow>
            Option.bind (next_version_loop P bi prevNode ds caches
              (if state = ThresholdStarted \<or> state = ThresholdLockedIn
               then expectedVersion OR push_bit (cd_BitNumber d) 1 else expectedVersion))
              (\<lambda>(r, caches). Some (r, cache # caches))))"

definition calcNextBlockVersion ::
  "votingParams \<Rightarrow> blockIndex \<Rightarrow> blockNode option \<Rightarrow> thresholdStateCache list \<Rightarrow>
     ((go_error + int) \<times> thresholdStateCache list) option" where
  "calcNextBlockVersion P bi prevNode caches =
     Option.bind (next_version_loop P bi prevNode (vp_Deployments P) caches vbTopBits) (\<lambda>(r, caches).
       Some (case r of Inl e \<Rightarrow> Inl e | Inr expectedVersion \<Rightarrow> Inr (sint expectedVersion), caches))"

definition bitConditionChecker :: "votingParams \<Rightarrow> blockIndex \<Rightarrow> nat \<Rightarrow> thresholdStateCache list thresholdConditionChecker" where
  "bitConditionChecker P bi b =
     \<lparr>HasStarted = (\<lambda>_. True), HasEnded = (\<lambda>_. False),
      RuleChangeActivationThreshold = vp_RuleChangeActivationThreshold P,
      MinerConfirmationWindow = vp_MinerConfirmationWindow P,
      EligibleToActivate = (\<lambda>_. True), IsSpeedy = False,
      Condition = (\<lambda>node caches.
        let conditionMask = push_bit b 1; version = word_of_int (bn_version node) :: 32 word
        in if version AND vbTopMask \<noteq> vbTopBits then Some (Inr False, caches)
           else if version AND conditionMask = 0 then Some (Inr False, caches)
           else
             Option.bind (calcNextBlockVersion P bi (bn_parent node) caches) (\<lambda>(r, caches).
               Some (case r of Inl e \<Rightarrow> Inl e | Inr expectedVersion \<Rightarrow> Inr (word_of_int expectedVersion AND conditionMask = 0), caches))),
      ForceActive = (\<lambda>_. False)\<rparr>"

definition deploymentState ::
  "votingParams \<Rightarrow> blockIndex \<Rightarrow> thresholdStateCache list \<Rightarrow> blockNode option \<Rightarrow> nat \<Rightarrow>
     ((go_error + ThresholdState) \<times> thresholdStateCache list) option" where
  "deploymentState P bi caches prevNode deploymentID =
     (if deploymentID > length (vp_Deployments P) then Some (Inl otherError, caches)
      else if deploymentID \<ge> length (vp_Deployments P) \<or> deploymentID \<ge> length caches then Some (Inl goPanic, caches)
      else
        Option.bind (thresholdState prevNode (deploymentChecker P bi (vp_Deployments P ! deploymentID)) (caches ! deploymentID) ())
          (\<lambda>(r, cache, _). Some (r, caches[deploymentID := cache])))"

text \<open>The caches and the flag of the chain.\<close>

record votingState =
  vs_deploymentCaches :: "thresholdStateCache list"
  vs_warningCaches :: "thresholdStateCache list"
  vs_unknownRulesWarned :: bool

definition warningState ::
  "votingParams \<Rightarrow> blockIndex \<Rightarrow> blockNode option \<Rightarrow> nat \<Rightarrow> votingState \<Rightarrow> ((go_error + ThresholdState) \<times> votingState) option" where
  "warningState P bi prevNode b vs =
     (if length (vs_warningCaches vs) \<le> b then Some (Inl goPanic, vs)
      else
        Option.bind (thresholdState prevNode (bitConditionChecker P bi b) (vs_warningCaches vs ! b) (vs_deploymentCaches vs))
          (\<lambda>(r, cache, caches).
             Some (r, vs\<lparr>vs_deploymentCaches := caches, vs_warningCaches := (vs_warningCaches vs)[b := cache]\<rparr>)))"

fun warn_loop :: "votingParams \<Rightarrow> blockIndex \<Rightarrow> blockNode option \<Rightarrow> nat list \<Rightarrow> votingState \<Rightarrow> ((go_error + unit) \<times> votingState) option" where
  "warn_loop P bi prevNode [] vs = Some (Inr (), vs)"
| "warn_loop P bi prevNode (b # bs) vs =
     Option.bind (warningState P bi prevNode b vs) (\<lambda>(r, vs).
       (case r of
          Inl e \<Rightarrow> Some (Inl e, vs)
        | Inr state \<Rightarrow>
            warn_loop P bi prevNode bs (if state = ThresholdActive then vs\<lparr>vs_unknownRulesWarned := True\<rparr> else vs)))"

definition warnUnknownRuleActivations ::
  "votingParams \<Rightarrow> blockIndex \<Rightarrow> blockNode \<Rightarrow> votingState \<Rightarrow> ((go_error + unit) \<times> votingState) option" where
  "warnUnknownRuleActivations P bi node vs = warn_loop P bi (bn_parent node) [0..<vbNumBits] vs"

subsection \<open>The state by windows\<close>

text \<open>The blocks of a window, from the last one back.\<close>

fun window_nodes :: "nat \<Rightarrow> blockNode option \<Rightarrow> blockNode list" where
  "window_nodes (Suc k) (Some node) = node # window_nodes k (bn_parent node)"
| "window_nodes k n = []"

definition next_state :: "'s thresholdConditionChecker \<Rightarrow> (blockNode \<Rightarrow> bool) \<Rightarrow> ThresholdState \<Rightarrow> blockNode \<Rightarrow> ThresholdState" where
  "next_state c votes state n =
     (let expired = HasEnded c n;
          enough = RuleChangeActivationThreshold c \<le> length (filter votes (window_nodes (MinerConfirmationWindow c) (Some n)))
      in case state of
           ThresholdDefined \<Rightarrow> if \<not> IsSpeedy c \<and> expired then ThresholdFailed else if HasStarted c n then ThresholdStarted else ThresholdDefined
         | ThresholdStarted \<Rightarrow>
             if \<not> IsSpeedy c \<and> expired then ThresholdFailed
             else if enough then ThresholdLockedIn
             else if expired then ThresholdFailed else ThresholdStarted
         | ThresholdLockedIn \<Rightarrow> if EligibleToActivate c n then ThresholdActive else ThresholdLockedIn
         | s \<Rightarrow> s)"

text \<open>The state after \<open>k\<close> windows, the last of which ends with the block.\<close>

fun window_state :: "'s thresholdConditionChecker \<Rightarrow> (blockNode \<Rightarrow> bool) \<Rightarrow> nat \<Rightarrow> blockNode \<Rightarrow> ThresholdState" where
  "window_state c votes 0 n = ThresholdDefined"
| "window_state c votes (Suc k) n =
     (if HasStarted c n then
        next_state c votes
          (case parents (MinerConfirmationWindow c) n of None \<Rightarrow> ThresholdDefined | Some m \<Rightarrow> window_state c votes k m) n
      else ThresholdDefined)"

definition windows :: "'s thresholdConditionChecker \<Rightarrow> blockNode \<Rightarrow> nat" where
  "windows c n = nat (bn_height n + 1) div MinerConfirmationWindow c"

definition window_end :: "'s thresholdConditionChecker \<Rightarrow> blockNode \<Rightarrow> bool" where
  "window_end c n \<longleftrightarrow> nat (bn_height n + 1) mod MinerConfirmationWindow c = 0"

definition state_after :: "'s thresholdConditionChecker \<Rightarrow> (blockNode \<Rightarrow> bool) \<Rightarrow> blockNode option \<Rightarrow> ThresholdState" where
  "state_after c votes prevNode =
     (if ForceActive c prevNode then ThresholdActive
      else case prevNode of
             None \<Rightarrow> ThresholdDefined
           | Some n \<Rightarrow>
               (case parents (nat (bn_height n + 1) mod MinerConfirmationWindow c) n of
                  None \<Rightarrow> ThresholdDefined
                | Some m \<Rightarrow> window_state c votes (windows c n) m))"

definition window_cache_ok :: "'s thresholdConditionChecker \<Rightarrow> (blockNode \<Rightarrow> bool) \<Rightarrow> blockNode set \<Rightarrow> thresholdStateCache \<Rightarrow> bool" where
  "window_cache_ok c votes N cache \<longleftrightarrow>
     (\<forall>n \<in> N. window_end c n \<longrightarrow> cache (bn_hash n) \<in> {None, Some (window_state c votes (windows c n) n)})"

lemma window_cache_ok_update:
  assumes "block_tree dh N" "n \<in> N" "window_cache_ok c votes N cache" "st = window_state c votes (windows c n) n"
  shows "window_cache_ok c votes N (cache_Update cache (bn_hash n) st)"
  unfolding window_cache_ok_def
proof (intro ballI impI)
  fix m
  assume m: "m \<in> N" "window_end c m"
  show "cache_Update cache (bn_hash n) st (bn_hash m) \<in> {None, Some (window_state c votes (windows c m) m)}"
  proof (cases "bn_hash m = bn_hash n")
    case True
    then have "m = n" using assms(1,2) m(1) by (auto simp: block_tree_def inj_on_def)
    then show ?thesis using assms(4) by (simp add: cache_Update_def)
  next
    case False
    then show ?thesis using assms(3) m by (simp add: cache_Update_def window_cache_ok_def)
  qed
qed

subsection \<open>The contract of a checker\<close>

locale condition_checker =
  fixes c :: "'s thresholdConditionChecker" and votes :: "blockNode \<Rightarrow> bool" and good :: "'s \<Rightarrow> bool" and N :: "blockNode set"
  assumes Condition: "n \<in> N \<Longrightarrow> good s \<Longrightarrow> \<exists>s'. Condition c n s = Some (Inr (votes n), s') \<and> good s'"
begin

lemma count_votes_filter:
  assumes "block_tree dh N" "n \<in> N" "int k \<le> bn_height n + 1" "good s"
  shows "\<exists>s'. count_votes c k (Some n) cnt s = Some (Inr (cnt + length (filter votes (window_nodes k (Some n)))), s') \<and> good s'"
  using assms(2-4)
proof (induction k arbitrary: n cnt s)
  case 0
  then show ?case by simp
next
  case (Suc k)
  obtain s1 where s1: "Condition c n s = Some (Inr (votes n), s1)" "good s1" using Condition [OF Suc.prems(1,3)] by blast
  show ?case
  proof (cases "bn_parent n")
    case None
    have "built dh n" using assms(1) Suc.prems(1) by (simp add: block_tree_def)
    from built_parent(1) [OF this None] Suc.prems(2) have "k = 0" by simp
    then show ?thesis using s1 by simp
  next
    case (Some p)
    have "built dh n" "p \<in> N" using assms(1) Suc.prems(1) Some by (auto simp: block_tree_def)
    with built_parent(2) [OF _ Some] Suc.IH [of p s1 "if votes n then cnt + 1 else cnt"] Suc.prems(2) s1 Some show ?thesis by auto
  qed
qed

lemma transition_next:
  assumes "block_tree dh N" "n \<in> N" "int (MinerConfirmationWindow c) \<le> bn_height n + 1" "good s"
  shows "\<exists>s'. thresholdStateTransition state n c (int (MinerConfirmationWindow c)) s = Some (Inr (next_state c votes state n), s') \<and> good s'"
  using count_votes_filter [OF assms, of 0] assms(4)
  by (cases state) (auto simp: thresholdStateTransition_def next_state_def Let_def)

text \<open>The windows that the code still has to compute, oldest first, from a known state.\<close>

fun linked :: "ThresholdState \<Rightarrow> blockNode list \<Rightarrow> bool" where
  "linked st [] \<longleftrightarrow> True"
| "linked st (n # ns) \<longleftrightarrow> n \<in> N \<and> window_end c n \<and> next_state c votes st n = window_state c votes (windows c n) n \<and>
     linked (window_state c votes (windows c n) n) ns"

fun last_state :: "ThresholdState \<Rightarrow> blockNode list \<Rightarrow> ThresholdState" where
  "last_state st [] = st"
| "last_state st (n # ns) = last_state (window_state c votes (windows c n) n) ns"

lemma window_end_height:
  assumes "block_tree dh N" "n \<in> N" "window_end c n" "0 < MinerConfirmationWindow c"
  shows "int (MinerConfirmationWindow c) \<le> bn_height n + 1" "0 < windows c n"
    "bn_height n + 1 = int (windows c n) * int (MinerConfirmationWindow c)"
proof -
  have h: "0 \<le> bn_height n" using built_height tree_built [OF assms(1,2)] by blast
  have "nat (bn_height n + 1) = windows c n * MinerConfirmationWindow c"
    using assms(3) by (auto simp: windows_def window_end_def)
  then have "int (nat (bn_height n + 1)) = int (windows c n * MinerConfirmationWindow c)" by simp
  then show e: "bn_height n + 1 = int (windows c n) * int (MinerConfirmationWindow c)" using h by simp
  show "0 < windows c n" using e h by (cases "windows c n") auto
  then have "1 * int (MinerConfirmationWindow c) \<le> int (windows c n) * int (MinerConfirmationWindow c)" by (intro mult_right_mono) simp_all
  then show "int (MinerConfirmationWindow c) \<le> bn_height n + 1" using e by simp
qed

lemma update_windows_linked:
  assumes "block_tree dh N" "0 < MinerConfirmationWindow c" "linked st ns" "window_cache_ok c votes N cache" "good s"
  shows "\<exists>cache' s'. update_windows c (int (MinerConfirmationWindow c)) ns st cache s = Some (Inr (last_state st ns), cache', s') \<and>
    window_cache_ok c votes N cache' \<and> good s'"
  using assms(3-5)
proof (induction ns arbitrary: st cache s)
  case (Cons n ns)
  have n: "n \<in> N" "window_end c n" "next_state c votes st n = window_state c votes (windows c n) n" using Cons.prems(1) by simp_all
  obtain s1 where s1: "thresholdStateTransition st n c (int (MinerConfirmationWindow c)) s = Some (Inr (window_state c votes (windows c n) n), s1)" "good s1"
    using transition_next [OF assms(1) n(1) window_end_height(1) [OF assms(1) n(1,2) assms(2)] Cons.prems(3), of st] n(3) by auto
  have "window_cache_ok c votes N (cache_Update cache (bn_hash n) (window_state c votes (windows c n) n))"
    using window_cache_ok_update [OF assms(1) n(1) Cons.prems(2)] by simp
  from Cons.IH [OF _ this s1(2)] Cons.prems(1) s1(1) show ?case by simp
qed simp

lemma needed_windows_linked:
  assumes "block_tree dh N" "0 < MinerConfirmationWindow c" "MinerConfirmationWindow c < 2 ^ 31"
    "n \<in> N" "window_end c n" "window_cache_ok c votes N cache" "linked (window_state c votes (windows c n) n) acc"
  shows "\<exists>cache' p needed st. needed_windows c (int (MinerConfirmationWindow c)) cache (Some n) acc = Some (cache', p, needed) \<and>
    window_cache_ok c votes N cache' \<and> (case p of None \<Rightarrow> Some ThresholdDefined | Some m \<Rightarrow> cache_Lookup cache' (bn_hash m)) = Some st \<and>
    linked st needed \<and> last_state st needed = last_state (window_state c votes (windows c n) n) acc"
  using assms(4,5,7)
proof (induction "nat (bn_height n)" arbitrary: n acc rule: less_induct)
  case less
  let ?w = "MinerConfirmationWindow c" and ?st = "window_state c votes (windows c n) n"
  note h = window_end_height [OF assms(1) less.prems(1,2) assms(2)]
  have b: "built dh n" by (rule tree_built [OF assms(1) less.prems(1)])
  obtain k where k: "windows c n = Suc k" using h(2) by (cases "windows c n") simp_all
  consider "cache_Lookup cache (bn_hash n) \<noteq> None" | "cache_Lookup cache (bn_hash n) = None" "\<not> HasStarted c n"
    | "cache_Lookup cache (bn_hash n) = None" "HasStarted c n" by blast
  then show ?case
  proof cases
    case 1
    then have "cache_Lookup cache (bn_hash n) = Some ?st" using assms(6) less.prems(1,2) by (auto simp: window_cache_ok_def cache_Lookup_def)
    then show ?thesis using 1 assms(6) less.prems(3) by (simp add: needed_windows.simps)
  next
    case 2
    then have "?st = ThresholdDefined" by (simp add: k)
    then show ?thesis using 2 window_cache_ok_update [OF assms(1) less.prems(1) assms(6), of ?st] less.prems(3)
      by (simp add: needed_windows.simps cache_Lookup_def cache_Update_def)
  next
    case 3
    then have step: "needed_windows c (int ?w) cache (Some n) acc = needed_windows c (int ?w) cache (RelativeAncestor n (int ?w)) (n # acc)"
      by (simp add: needed_windows.simps [of c "int ?w" cache "Some n"])
    have st: "?st = next_state c votes (case parents ?w n of None \<Rightarrow> ThresholdDefined | Some m \<Rightarrow> window_state c votes k m) n"
      using 3 by (simp add: k)
    have rel: "RelativeAncestor n (int ?w) = (if int ?w \<le> bn_height n then parents ?w n else None)"
    proof -
      have "int32_of (bn_height n - int ?w) = bn_height n - int ?w" using built_height [OF b] assms(3) by (intro int32_of_id) simp_all
      then show ?thesis using Ancestor_parents [OF b, of "bn_height n - int ?w"] by (simp add: RelativeAncestor_def)
    qed
    show ?thesis
    proof (cases "int ?w \<le> bn_height n")
      case False
      then have "parents ?w n = None" using parents_None [OF b] by simp
      then show ?thesis using less.prems False st step rel assms(6) by (simp add: needed_windows.simps [of c "int ?w" cache None])
    next
      case True
      obtain m where m: "parents ?w n = Some m" "built dh m" "bn_height m = bn_height n - int ?w" using built_parents [OF b True] by blast
      have mN: "m \<in> N" by (rule tree_parents [OF assms(1) less.prems(1) m(1)])
      have "nat (bn_height m + 1) = nat (bn_height n + 1) - ?w" using m(3) True by simp
      then have e: "nat (bn_height m + 1) = k * ?w" using h(3) k by (simp add: nat_mult_distrib nat_add_distrib algebra_simps)
      then have wm: "window_end c m" "windows c m = k" using assms(2) by (simp_all add: window_end_def windows_def)
      have "linked (window_state c votes (windows c m) m) (n # acc)" using less.prems st m(1) wm(2) by simp
      with less.hyps [OF _ mN wm(1) this] m(3) assms(2) built_height [OF m(2)] have
        "\<exists>cache' p needed st. needed_windows c (int ?w) cache (Some m) (n # acc) = Some (cache', p, needed) \<and>
           window_cache_ok c votes N cache' \<and> (case p of None \<Rightarrow> Some ThresholdDefined | Some m \<Rightarrow> cache_Lookup cache' (bn_hash m)) = Some st \<and>
           linked st needed \<and> last_state st needed = last_state (window_state c votes (windows c m) m) (n # acc)" by simp
      then show ?thesis unfolding step rel using True m(1) by simp
    qed
  qed
qed

lemma thresholdState_cached:
  assumes "block_tree dh N" "0 < MinerConfirmationWindow c" "MinerConfirmationWindow c < 2 ^ 31"
    "prevNode = None \<or> (\<exists>n \<in> N. prevNode = Some n \<and> bn_height n < 2 ^ 31 - 1)" "window_cache_ok c votes N cache" "good s"
  shows "\<exists>cache' s'. thresholdState prevNode c cache s = Some (Inr (state_after c votes prevNode), cache', s') \<and>
    window_cache_ok c votes N cache' \<and> good s'"
proof (cases "ForceActive c prevNode \<or> prevNode = None")
  case True
  then show ?thesis using assms(5,6) by (auto simp: thresholdState_def state_after_def)
next
  case False
  then obtain n where n: "prevNode = Some n" "n \<in> N" "bn_height n < 2 ^ 31 - 1" "\<not> ForceActive c (Some n)" using assms(4) by auto
  let ?w = "MinerConfirmationWindow c" and ?r = "nat (bn_height n + 1) mod MinerConfirmationWindow c"
  have b: "built dh n" by (rule tree_built [OF assms(1) n(2)])
  have h: "0 \<le> bn_height n" using built_height [OF b] by simp
  have w: "int32_of (int ?w) = int ?w" "int32_of (bn_height n + 1) = bn_height n + 1"
    using assms(3) h n(3) by (intro int32_of_id; simp)+
  show ?thesis
  proof (cases "bn_height n + 1 < int ?w")
    case True
    then have "nat (bn_height n + 1) < ?w" using h by linarith
    then have "?r = nat (bn_height n + 1)" by (rule mod_less)
    then have "parents ?r n = None" using parents_None [OF b, of ?r] h by simp
    then show ?thesis using True n w assms(5,6) by (simp add: thresholdState_def state_after_def)
  next
    case False
    have r: "(bn_height n + 1) smod int ?w = int ?r" using h assms(2) by (simp add: smod_int_alt_def zmod_int)
    have rh: "int ?r \<le> bn_height n" using False assms(2) mod_less_divisor [of ?w "nat (bn_height n + 1)"] by linarith
    have "int32_of (bn_height n - int ?r) = bn_height n - int ?r" using rh h n(3) by (intro int32_of_id) simp_all
    then have anc: "Ancestor n (int32_of (bn_height n - int32_of (bn_height n + 1) smod int ?w)) = parents ?r n"
      unfolding w r using Ancestor_parents [OF b, of "bn_height n - int ?r"] rh by simp
    obtain m where m: "parents ?r n = Some m" "built dh m" "bn_height m = bn_height n - int ?r" using built_parents [OF b rh] by blast
    have mN: "m \<in> N" by (rule tree_parents [OF assms(1) n(2) m(1)])
    have "nat (bn_height m + 1) = nat (bn_height n + 1) - ?r" using m(3) rh by linarith
    also have "\<dots> = nat (bn_height n + 1) div ?w * ?w" by (simp add: minus_mod_eq_div_mult)
    finally have e: "nat (bn_height m + 1) = nat (bn_height n + 1) div ?w * ?w" .
    then have wm: "window_end c m" "windows c m = windows c n" using assms(2) by (simp_all add: window_end_def windows_def)
    obtain cache1 p needed st where q:
      "needed_windows c (int ?w) cache (Some m) [] = Some (cache1, p, needed)" "window_cache_ok c votes N cache1"
      "(case p of None \<Rightarrow> Some ThresholdDefined | Some m \<Rightarrow> cache_Lookup cache1 (bn_hash m)) = Some st"
      "linked st needed" "last_state st needed = window_state c votes (windows c m) m"
      using needed_windows_linked [OF assms(1-3) mN wm(1) assms(5), of "[]"] by auto
    obtain cache2 s2 where "update_windows c (int ?w) needed st cache1 s = Some (Inr (last_state st needed), cache2, s2)"
      "window_cache_ok c votes N cache2" "good s2"
      using update_windows_linked [OF assms(1,2) q(4,2) assms(6)] by blast
    with q(1,3,5) False assms(2) n(1,4) m(1) wm(2) show ?thesis unfolding thresholdState_def state_after_def
      by (simp add: w anc [unfolded w] Let_def)
  qed
qed

end

text \<open>A deployment checker always answers, and keeps no state.\<close>

interpretation dep: condition_checker "deploymentChecker P bi d :: unit thresholdConditionChecker" "signals d" "\<lambda>_. True" N
  for P bi d N
  by unfold_locales (simp add: deploymentChecker_def)

text \<open>The deployment caches of the chain.\<close>

definition caches_ok :: "(bytes \<Rightarrow> hash) \<Rightarrow> votingParams \<Rightarrow> blockIndex \<Rightarrow> blockNode set \<Rightarrow> thresholdStateCache list \<Rightarrow> bool" where
  "caches_ok dh P bi N caches \<longleftrightarrow> block_tree dh N \<and> 0 < vp_MinerConfirmationWindow P \<and> vp_MinerConfirmationWindow P < 2 ^ 31 \<and>
     list_all2 (\<lambda>d cache. window_cache_ok (deploymentChecker P bi d :: unit thresholdConditionChecker) (signals d) N cache) (vp_Deployments P) caches"

definition deployment_state :: "votingParams \<Rightarrow> blockIndex \<Rightarrow> blockNode option \<Rightarrow> ConsensusDeployment \<Rightarrow> ThresholdState" where
  "deployment_state P bi prevNode d = state_after (deploymentChecker P bi d :: unit thresholdConditionChecker) (signals d) prevNode"

definition version_bits :: "votingParams \<Rightarrow> blockIndex \<Rightarrow> blockNode option \<Rightarrow> ConsensusDeployment list \<Rightarrow> 32 word \<Rightarrow> 32 word" where
  "version_bits P bi prevNode ds v =
     foldl (\<lambda>v d. if deployment_state P bi prevNode d \<in> {ThresholdStarted, ThresholdLockedIn}
       then v OR push_bit (cd_BitNumber d) 1 else v) v ds"

text \<open>A node whose child is a block of the chain.\<close>

definition extendable :: "blockNode set \<Rightarrow> blockNode option \<Rightarrow> bool" where
  "extendable N prevNode \<longleftrightarrow> prevNode = None \<or> (\<exists>n \<in> N. prevNode = Some n \<and> bn_height n < 2 ^ 31 - 1)"

lemma deploymentChecker_window [simp]: "MinerConfirmationWindow (deploymentChecker P bi d) = vp_MinerConfirmationWindow P"
  by (simp add: deploymentChecker_def)

lemma deployment_cached:
  assumes "block_tree dh N" "0 < vp_MinerConfirmationWindow P" "vp_MinerConfirmationWindow P < 2 ^ 31" "extendable N prevNode"
    "window_cache_ok (deploymentChecker P bi d :: unit thresholdConditionChecker) (signals d) N cache"
  shows "\<exists>cache'. thresholdState prevNode (deploymentChecker P bi d) cache () = Some (Inr (deployment_state P bi prevNode d), cache', ()) \<and>
    window_cache_ok (deploymentChecker P bi d :: unit thresholdConditionChecker) (signals d) N cache'"
  using dep.thresholdState_cached [OF assms(1) _ _ assms(4) [unfolded extendable_def] assms(5)] assms(2,3)
  by (simp add: deployment_state_def)

lemma next_version_loop_cached:
  assumes "block_tree dh N" "0 < vp_MinerConfirmationWindow P" "vp_MinerConfirmationWindow P < 2 ^ 31" "extendable N prevNode"
    "list_all2 (\<lambda>d cache. window_cache_ok (deploymentChecker P bi d :: unit thresholdConditionChecker) (signals d) N cache) ds caches"
  shows "\<exists>caches'. next_version_loop P bi prevNode ds caches v = Some (Inr (version_bits P bi prevNode ds v), caches') \<and>
    list_all2 (\<lambda>d cache. window_cache_ok (deploymentChecker P bi d :: unit thresholdConditionChecker) (signals d) N cache) ds caches'"
  using assms(5)
proof (induction ds caches arbitrary: v rule: list_all2_induct)
  case Nil
  then show ?case by (simp add: version_bits_def)
next
  case (Cons d ds cache caches)
  obtain cache' where c: "thresholdState prevNode (deploymentChecker P bi d) cache () = Some (Inr (deployment_state P bi prevNode d), cache', ())"
    "window_cache_ok (deploymentChecker P bi d :: unit thresholdConditionChecker) (signals d) N cache'"
    using deployment_cached [OF assms(1-4) Cons.hyps(1)] by blast
  let ?v = "if deployment_state P bi prevNode d = ThresholdStarted \<or> deployment_state P bi prevNode d = ThresholdLockedIn
    then v OR push_bit (cd_BitNumber d) 1 else v"
  obtain caches' where cs: "next_version_loop P bi prevNode ds caches ?v = Some (Inr (version_bits P bi prevNode ds ?v), caches')"
    "list_all2 (\<lambda>d cache. window_cache_ok (deploymentChecker P bi d :: unit thresholdConditionChecker) (signals d) N cache) ds caches'"
    using Cons.IH [of ?v] by blast
  have "version_bits P bi prevNode (d # ds) v = version_bits P bi prevNode ds ?v" by (simp add: version_bits_def)
  with c cs show ?case by simp
qed

lemma calcNextBlockVersion_cached:
  assumes "caches_ok dh P bi N caches" "extendable N prevNode"
  shows "\<exists>caches'. calcNextBlockVersion P bi prevNode caches = Some (Inr (sint (version_bits P bi prevNode (vp_Deployments P) vbTopBits)), caches') \<and>
    caches_ok dh P bi N caches'"
  using next_version_loop_cached [of dh N P prevNode bi "vp_Deployments P" caches vbTopBits] assms
  by (auto simp: caches_ok_def calcNextBlockVersion_def)

lemma deploymentState_cached:
  assumes "caches_ok dh P bi N caches" "extendable N prevNode" "i < length (vp_Deployments P)"
  shows "\<exists>caches'. deploymentState P bi caches prevNode i = Some (Inr (deployment_state P bi prevNode (vp_Deployments P ! i)), caches') \<and>
    caches_ok dh P bi N caches'"
proof -
  have l: "i < length caches" "window_cache_ok (deploymentChecker P bi (vp_Deployments P ! i) :: unit thresholdConditionChecker) (signals (vp_Deployments P ! i)) N (caches ! i)"
    using assms(1,3) by (auto simp: caches_ok_def list_all2_conv_all_nth)
  obtain cache' where "thresholdState prevNode (deploymentChecker P bi (vp_Deployments P ! i)) (caches ! i) () =
      Some (Inr (deployment_state P bi prevNode (vp_Deployments P ! i)), cache', ())"
    "window_cache_ok (deploymentChecker P bi (vp_Deployments P ! i) :: unit thresholdConditionChecker) (signals (vp_Deployments P ! i)) N cache'"
    using deployment_cached [OF _ _ _ assms(2) l(2)] assms(1) by (auto simp: caches_ok_def)
  then show ?thesis using assms(1,3) l(1)
    by (auto simp: deploymentState_def caches_ok_def list_all2_conv_all_nth nth_list_update)
qed

text \<open>A bit that is set although no known deployment expects it.\<close>

definition unknown_signal :: "votingParams \<Rightarrow> blockIndex \<Rightarrow> nat \<Rightarrow> blockNode \<Rightarrow> bool" where
  "unknown_signal P bi b node =
     (let version = word_of_int (bn_version node) :: 32 word
      in version AND vbTopMask = vbTopBits \<and> version AND push_bit b 1 \<noteq> 0 \<and>
         version_bits P bi (bn_parent node) (vp_Deployments P) vbTopBits AND push_bit b 1 = 0)"

lemma extendable_parent: "block_tree dh N \<Longrightarrow> n \<in> N \<Longrightarrow> extendable N (bn_parent n)"
proof (cases "bn_parent n")
  case (Some p)
  assume N: "block_tree dh N" "n \<in> N"
  have "p \<in> N" using N Some by (auto simp: block_tree_def)
  moreover have "bn_height p < 2 ^ 31 - 1"
    using built_parent(2) [OF tree_built [OF N] Some] built_height [OF tree_built [OF N]] by simp
  ultimately show ?thesis using Some by (simp add: extendable_def)
qed (simp add: extendable_def)

interpretation bit: condition_checker "bitConditionChecker P bi b" "unknown_signal P bi b" "caches_ok dh P bi N" N
  for P bi b dh N
proof unfold_locales
  fix n s
  assume n: "n \<in> N" "caches_ok dh P bi N s"
  then have "extendable N (bn_parent n)" using extendable_parent [of dh N n] by (simp add: caches_ok_def)
  from calcNextBlockVersion_cached [OF n(2) this] n(2)
  show "\<exists>s'. Condition (bitConditionChecker P bi b) n s = Some (Inr (unknown_signal P bi b n), s') \<and> caches_ok dh P bi N s'"
    by (auto simp: bitConditionChecker_def unknown_signal_def Let_def)
qed

text \<open>All caches of the chain.\<close>

definition voting_ok :: "(bytes \<Rightarrow> hash) \<Rightarrow> votingParams \<Rightarrow> blockIndex \<Rightarrow> blockNode set \<Rightarrow> votingState \<Rightarrow> bool" where
  "voting_ok dh P bi N vs \<longleftrightarrow> caches_ok dh P bi N (vs_deploymentCaches vs) \<and> length (vs_warningCaches vs) = vbNumBits \<and>
     (\<forall>b < vbNumBits. window_cache_ok (bitConditionChecker P bi b) (unknown_signal P bi b) N (vs_warningCaches vs ! b))"

definition warning_state :: "votingParams \<Rightarrow> blockIndex \<Rightarrow> blockNode option \<Rightarrow> nat \<Rightarrow> ThresholdState" where
  "warning_state P bi prevNode b = state_after (bitConditionChecker P bi b) (unknown_signal P bi b) prevNode"

lemma warningState_cached:
  assumes "voting_ok dh P bi N vs" "extendable N prevNode" "b < vbNumBits"
  shows "\<exists>vs'. warningState P bi prevNode b vs = Some (Inr (warning_state P bi prevNode b), vs') \<and> voting_ok dh P bi N vs' \<and>
    vs_unknownRulesWarned vs' = vs_unknownRulesWarned vs"
proof -
  have ok: "caches_ok dh P bi N (vs_deploymentCaches vs)" "length (vs_warningCaches vs) = vbNumBits"
    "window_cache_ok (bitConditionChecker P bi b) (unknown_signal P bi b) N (vs_warningCaches vs ! b)"
    using assms(1,3) by (simp_all add: voting_ok_def)
  have "MinerConfirmationWindow (bitConditionChecker P bi b) = vp_MinerConfirmationWindow P" by (simp add: bitConditionChecker_def)
  then obtain cache' caches' where "thresholdState prevNode (bitConditionChecker P bi b) (vs_warningCaches vs ! b) (vs_deploymentCaches vs) =
      Some (Inr (warning_state P bi prevNode b), cache', caches')"
    "window_cache_ok (bitConditionChecker P bi b) (unknown_signal P bi b) N cache'" "caches_ok dh P bi N caches'"
    using bit.thresholdState_cached [OF _ _ _ assms(2) [unfolded extendable_def] ok(3,1)] ok(1)
    by (fastforce simp: caches_ok_def warning_state_def)
  then show ?thesis using assms(1,3) ok(2) by (simp add: warningState_def voting_ok_def nth_list_update)
qed

lemma warn_loop_cached:
  assumes "voting_ok dh P bi N vs" "extendable N prevNode" "\<forall>b \<in> set bs. b < vbNumBits"
  shows "\<exists>vs'. warn_loop P bi prevNode bs vs = Some (Inr (), vs') \<and> voting_ok dh P bi N vs' \<and>
    (vs_unknownRulesWarned vs' \<longleftrightarrow> vs_unknownRulesWarned vs \<or> (\<exists>b \<in> set bs. warning_state P bi prevNode b = ThresholdActive))"
  using assms(1,3)
proof (induction bs arbitrary: vs)
  case (Cons b bs)
  obtain vs1 where 1: "warningState P bi prevNode b vs = Some (Inr (warning_state P bi prevNode b), vs1)" "voting_ok dh P bi N vs1"
    "vs_unknownRulesWarned vs1 = vs_unknownRulesWarned vs"
    using warningState_cached [OF Cons.prems(1) assms(2)] Cons.prems(2) by (metis list.set_intros(1))
  let ?vs = "if warning_state P bi prevNode b = ThresholdActive then vs1\<lparr>vs_unknownRulesWarned := True\<rparr> else vs1"
  have "voting_ok dh P bi N ?vs" using 1(2) by (simp add: voting_ok_def)
  from Cons.IH [OF this] Cons.prems(2) 1 show ?case by (auto split: if_splits)
qed simp


subsection \<open>Progress of a deployment\<close>

inductive advances :: "ThresholdState \<Rightarrow> ThresholdState \<Rightarrow> bool" where
  advances_stay: "advances s s"
| advances_start: "advances ThresholdDefined ThresholdStarted"
| advances_expire: "advances ThresholdDefined ThresholdFailed"
| advances_lock: "advances ThresholdStarted ThresholdLockedIn"
| advances_fail: "advances ThresholdStarted ThresholdFailed"
| advances_activate: "advances ThresholdLockedIn ThresholdActive"

inductive_simps advances_from [simp]:
  "advances ThresholdDefined s" "advances ThresholdStarted s" "advances ThresholdLockedIn s"
  "advances ThresholdActive s" "advances ThresholdFailed s"

lemma next_state_advances: "advances st (next_state c votes st n)"
  by (cases st) (auto simp: next_state_def Let_def)

lemma PastMedianTime_value:
  assumes "index_ok bi N" "bn_parent n = Some p" "p \<in> N"
  shows "PastMedianTime bi n = Inr (CalcPastMedianTime n)"
proof -
  have "past_timestamps (Suc i) (Some (BlockNode (Some p) None h 0 ht 0 b (bn_timestamp n) r1 r2 0 0)) = past_timestamps (Suc i) (Some n)"
    for i h ht b r1 r2 using assms(2) by simp
  then show ?thesis using assms
    by (simp add: PastMedianTime_def index_ok_def CalcPastMedianTime_def medianTimeBlocks_def numeral_eq_Suc)
qed

lemma HasStarted_parent:
  assumes "block_tree dh N" "index_ok bi N" "n \<in> N" "timely n" "bn_parent n = Some p"
    "HasStarted (deploymentChecker P bi d :: unit thresholdConditionChecker) p"
  shows "HasStarted (deploymentChecker P bi d :: unit thresholdConditionChecker) n"
proof (cases "cd_StartTime d")
  case None
  then show ?thesis by (simp add: deploymentChecker_def Starter_HasStarted_def value_of_def)
next
  case (Some t)
  have p: "p \<in> N" using assms(1,3,5) by (auto simp: block_tree_def)
  obtain q where q: "bn_parent p = Some q"
    using assms(6) Some by (cases "bn_parent p") (simp_all add: deploymentChecker_def Starter_HasStarted_def value_of_def PastMedianTime_def)
  have "q \<in> N" using assms(1) p q by (auto simp: block_tree_def)
  then have "t \<le> CalcPastMedianTime p"
    using assms(6) Some PastMedianTime_value [OF assms(2) q]
    by (auto simp: deploymentChecker_def Starter_HasStarted_def value_of_def split: if_splits)
  also have "\<dots> \<le> CalcPastMedianTime n" by (rule median_time_mono [OF assms(4,5)])
  finally show ?thesis using Some PastMedianTime_value [OF assms(2,5) p]
    by (auto simp: deploymentChecker_def Starter_HasStarted_def value_of_def)
qed

lemma timely_parents: "timely m \<Longrightarrow> parents k m = Some n \<Longrightarrow> timely n"
  by (induction k arbitrary: m) (auto split: option.splits dest: timely_parent)

lemma HasStarted_parents:
  assumes "block_tree dh N" "index_ok bi N" "m \<in> N" "timely m" "parents k m = Some n" "HasStarted (deploymentChecker P bi d :: unit thresholdConditionChecker) n"
  shows "HasStarted (deploymentChecker P bi d :: unit thresholdConditionChecker) m"
  using assms(3-5)
proof (induction k arbitrary: m)
  case 0
  then show ?case using assms(6) by simp
next
  case (Suc k)
  then obtain p where p: "bn_parent m = Some p" "parents k p = Some n" by (auto split: option.splits)
  have "p \<in> N" using assms(1) Suc.prems(1) p(1) by (auto simp: block_tree_def)
  then have "HasStarted (deploymentChecker P bi d :: unit thresholdConditionChecker) p" using Suc.IH p(2) timely_parent [OF Suc.prems(2) p(1)] by blast
  from HasStarted_parent [OF assms(1,2) Suc.prems(1,2) p(1) this] show ?case .
qed

text \<open>The state at the end of each window of the chain below a node.\<close>

definition state_at :: "votingParams \<Rightarrow> blockIndex \<Rightarrow> ConsensusDeployment \<Rightarrow> blockNode \<Rightarrow> nat \<Rightarrow> ThresholdState" where
  "state_at P bi d m j =
     (case parents (nat (bn_height m + 1) - j * vp_MinerConfirmationWindow P) m of
        None \<Rightarrow> ThresholdDefined
      | Some x \<Rightarrow> window_state (deploymentChecker P bi d :: unit thresholdConditionChecker) (signals d) j x)"

definition windows_before :: "votingParams \<Rightarrow> blockNode \<Rightarrow> nat" where
  "windows_before P n = nat (bn_height n + 1) div vp_MinerConfirmationWindow P"

lemma deployment_state_at:
  assumes "\<not> ForceActive (deploymentChecker P bi d :: unit thresholdConditionChecker) (Some n)"
  shows "deployment_state P bi (Some n) d = state_at P bi d n (windows_before P n)"
  using assms by (simp add: deployment_state_def state_after_def state_at_def windows_before_def windows_def minus_div_mult_eq_mod split: option.split)

lemma state_at_below:
  assumes "built dh m" "parents k m = Some n" "j \<le> windows_before P n"
  shows "state_at P bi d n j = state_at P bi d m j"
proof -
  have "int k \<le> bn_height m" using parents_None [OF assms(1), of k] assms(2) by fastforce
  then have h: "bn_height n = bn_height m - int k" "0 \<le> bn_height n" using built_parents [OF assms(1), of k] assms(2) by auto
  have "j * vp_MinerConfirmationWindow P \<le> windows_before P n * vp_MinerConfirmationWindow P" using assms(3) by simp
  also have "\<dots> \<le> nat (bn_height n + 1)" by (simp add: windows_before_def)
  finally have "nat (bn_height m + 1) - j * vp_MinerConfirmationWindow P = k + (nat (bn_height n + 1) - j * vp_MinerConfirmationWindow P)"
    using h by linarith
  then show ?thesis using assms(2) by (simp add: state_at_def parents_add)
qed

lemma state_at_step:
  assumes "block_tree dh N" "index_ok bi N" "m \<in> N" "timely m" "0 < vp_MinerConfirmationWindow P" "Suc j \<le> windows_before P m"
  shows "\<exists>x. parents (nat (bn_height m + 1) - Suc j * vp_MinerConfirmationWindow P) m = Some x \<and>
    bn_height x + 1 = int (Suc j * vp_MinerConfirmationWindow P) \<and>
    (if HasStarted (deploymentChecker P bi d :: unit thresholdConditionChecker) x
     then state_at P bi d m (Suc j) = next_state (deploymentChecker P bi d :: unit thresholdConditionChecker) (signals d) (state_at P bi d m j) x
     else state_at P bi d m (Suc j) = ThresholdDefined \<and> state_at P bi d m j = ThresholdDefined)"
proof -
  let ?w = "vp_MinerConfirmationWindow P" and ?c = "deploymentChecker P bi d :: unit thresholdConditionChecker"
  have b: "built dh m" by (rule tree_built [OF assms(1,3)])
  have h0: "0 \<le> bn_height m" using built_height [OF b] by simp
  have "Suc j * ?w \<le> windows_before P m * ?w" by (rule mult_le_mono1 [OF assms(6)])
  also have "\<dots> \<le> nat (bn_height m + 1)" by (simp add: windows_before_def)
  finally have le: "Suc j * ?w \<le> nat (bn_height m + 1)" .
  have pos: "1 \<le> Suc j * ?w" using assms(5) by simp
  then have "int (nat (bn_height m + 1) - Suc j * ?w) \<le> bn_height m" using le h0 by linarith
  from built_parents [OF b this] le h0 obtain x where
    x: "parents (nat (bn_height m + 1) - Suc j * ?w) m = Some x" "built dh x" "bn_height x + 1 = int (Suc j * ?w)" by auto
  have "nat (bn_height m + 1) - j * ?w = (nat (bn_height m + 1) - Suc j * ?w) + ?w" using le by simp
  then have below: "parents (nat (bn_height m + 1) - j * ?w) m = parents ?w x" using x(1) by (simp add: parents_add)
  have S: "state_at P bi d m (Suc j) = window_state ?c (signals d) (Suc j) x"
    "state_at P bi d m j = (case parents ?w x of None \<Rightarrow> ThresholdDefined | Some y \<Rightarrow> window_state ?c (signals d) j y)"
    unfolding state_at_def below x(1) by simp_all
  have "state_at P bi d m j = ThresholdDefined" if ns: "\<not> HasStarted ?c x"
  proof (cases "parents ?w x")
    case (Some y)
    have "x \<in> N" "timely x" using tree_parents [OF assms(1,3) x(1)] timely_parents [OF assms(4) x(1)] by simp_all
    then have "\<not> HasStarted ?c y" using HasStarted_parents [OF assms(1,2) _ _ Some] ns by blast
    then have "window_state ?c (signals d) j y = ThresholdDefined" by (cases j) simp_all
    then show ?thesis using S(2) Some by simp
  qed (simp add: S(2))
  then show ?thesis using x(1,3) S by simp
qed

lemma relpowp_chain: "(\<And>j. i \<le> j \<Longrightarrow> j < i + k \<Longrightarrow> R (f j) (f (Suc j))) \<Longrightarrow> (R ^^ k) (f i) (f (i + k))"
proof (induction k)
  case (Suc k)
  have "(R ^^ k) (f i) (f (i + k))" by (rule Suc.IH) (simp add: Suc.prems)
  then show ?case using Suc.prems [of "i + k"] by (auto intro: relcomppI)
qed simp

lemma advances_chain:
  assumes "block_tree dh N" "index_ok bi N" "m \<in> N" "timely m" "0 < vp_MinerConfirmationWindow P" "i + k \<le> windows_before P m"
  shows "(advances ^^ k) (state_at P bi d m i) (state_at P bi d m (i + k))"
proof (rule relpowp_chain)
  fix j
  assume "i \<le> j" "j < i + k"
  then have "Suc j \<le> windows_before P m" using assms(6) by simp
  from state_at_step [OF assms(1-5) this, of d] show "advances (state_at P bi d m j) (state_at P bi d m (Suc j))"
    by (auto simp: next_state_advances split: if_splits)
qed

lemma ForceActive_parents:
  assumes "built dh m" "parents k m = Some n"
    "ForceActive (deploymentChecker P bi d :: unit thresholdConditionChecker) (Some n)"
  shows "ForceActive (deploymentChecker P bi d :: unit thresholdConditionChecker) (Some m)"
proof -
  have "int k \<le> bn_height m" using parents_None [OF assms(1), of k] assms(2) by fastforce
  then have h: "bn_height n = bn_height m - int k" "0 \<le> bn_height n" using built_parents [OF assms(1), of k] assms(2) by auto
  have "uint32_of (bn_height m + 1) = bn_height m + 1" "uint32_of (bn_height n + 1) = bn_height n + 1"
    using h built_height [OF assms(1)] unfolding uint32_of_def by (intro take_bit_int_eq_self; simp)+
  then show ?thesis using assms(3) h by (simp add: deploymentChecker_def)
qed

lemma windows_before_mono:
  assumes "built dh m" "parents k m = Some n" shows "windows_before P n \<le> windows_before P m"
proof -
  have "int k \<le> bn_height m" using parents_None [OF assms(1), of k] assms(2) by fastforce
  then have "bn_height n \<le> bn_height m" using built_parents [OF assms(1), of k] assms(2) by auto
  then show ?thesis unfolding windows_before_def by (intro div_le_mono nat_mono) simp
qed


lemma locked_in_stays:
  assumes "block_tree dh N" "index_ok bi N" "m \<in> N" "timely m" "0 < vp_MinerConfirmationWindow P" "i < j" "j \<le> windows_before P m"
    "state_at P bi d m i = ThresholdLockedIn" "cd_MinActivationHeight d \<le> Suc i * vp_MinerConfirmationWindow P"
  shows "state_at P bi d m j = ThresholdActive"
  using assms(6,7)
proof (induction j)
  case (Suc j)
  let ?c = "deploymentChecker P bi d :: unit thresholdConditionChecker"
  obtain x where x: "bn_height x + 1 = int (Suc j * vp_MinerConfirmationWindow P)" "parents (nat (bn_height m + 1) - Suc j * vp_MinerConfirmationWindow P) m = Some x"
    "if HasStarted ?c x then state_at P bi d m (Suc j) = next_state ?c (signals d) (state_at P bi d m j) x
     else state_at P bi d m (Suc j) = ThresholdDefined \<and> state_at P bi d m j = ThresholdDefined"
    using state_at_step [OF assms(1-5) Suc.prems(2), of d] by blast
  show ?case
  proof (cases "i = j")
    case True
    have "built dh x" using tree_built [OF assms(1)] tree_parents [OF assms(1,3) x(2)] by blast
    then have "uint32_of (bn_height x + 1) = bn_height x + 1"
      using built_height [of dh x] unfolding uint32_of_def by (intro take_bit_int_eq_self) simp_all
    moreover have "int (cd_MinActivationHeight d) \<le> int (Suc i * vp_MinerConfirmationWindow P)"
      using assms(9) by (simp only: of_nat_le_iff)
    ultimately have "EligibleToActivate ?c x" using x(1) True by (simp add: deploymentChecker_def)
    then show ?thesis using x(3) assms(8) True by (simp add: next_state_def split: if_splits)
  next
    case False
    then have "state_at P bi d m j = ThresholdActive" using Suc by simp
    then show ?thesis using x(3) by (simp add: next_state_def split: if_splits)
  qed
qed simp

text \<open>The identifier behind the last deployment passes the bounds check.\<close>

lemma deployment_id_panics:
  "deploymentState P bi caches prevNode (length (vp_Deployments P)) = Some (Inl goPanic, caches)"
  by (simp add: deploymentState_def)

subsection \<open>A sample chain\<close>

text \<open>Blocks that signal bit 0, one per second, with windows of one block.\<close>

fun vote_chain :: "nat \<Rightarrow> blockNode" where
  "vote_chain 0 = newBlockNode (\<lambda>b. b) (genesis_header\<lparr>bh_Version := 0x20000001\<rparr>) None 0 0"
| "vote_chain (Suc k) =
     newBlockNode (\<lambda>b. b) (genesis_header\<lparr>bh_Version := 0x20000001, bh_Timestamp := int (Suc k)\<rparr>) (Some (vote_chain k)) 0 0"

declare vote_chain.simps [simp del]

lemma vote_chain_fields:
  "bn_hash (vote_chain k) = writeBlockHeaderBuf (genesis_header\<lparr>bh_Version := 0x20000001, bh_Timestamp := int k\<rparr>)"
  "bn_timestamp (vote_chain k) = int k" "bn_version (vote_chain k) = 0x20000001"
  "bn_parent (vote_chain k) = (case k of 0 \<Rightarrow> None | Suc j \<Rightarrow> Some (vote_chain j))"
  by (cases k; simp add: vote_chain.simps BlockHash_def genesis_header_def newBlockNode_def Let_def split: option.split)+

lemma vote_chain_built: "k < 2 ^ 31 \<Longrightarrow> built (\<lambda>b. b) (vote_chain k) \<and> bn_height (vote_chain k) = int k"
  by (induction k) (simp_all add: vote_chain.simps built_genesis built_child int32_of_id)

lemma vote_chain_timely: "timely (vote_chain k)"
proof (induction k)
  case 0
  show ?case by (rule timely_genesis) (simp add: vote_chain_fields)
next
  case (Suc k)
  show ?case by (rule timely_child [OF _ Suc]) (simp_all add: vote_chain_fields)
qed

definition vote_nodes :: "blockNode set" where
  "vote_nodes = vote_chain ` {..<8}"

definition vote_index :: blockIndex where
  "vote_index = map_of (map (\<lambda>k. (bn_hash (vote_chain k), vote_chain k)) [0..<8])"

definition vote_deployment :: ConsensusDeployment where
  "vote_deployment = \<lparr>cd_BitNumber = 0, cd_MinActivationHeight = 0, cd_CustomActivationThreshold = 0, cd_AlwaysActiveHeight = 0,
     cd_StartTime = None, cd_EndTime = None\<rparr>"

definition vote_params :: votingParams where
  "vote_params = \<lparr>vp_RuleChangeActivationThreshold = 1, vp_MinerConfirmationWindow = 1, vp_Deployments = [vote_deployment]\<rparr>"

lemma vote_hash_inj: "i < 8 \<Longrightarrow> j < 8 \<Longrightarrow> bn_hash (vote_chain i) = bn_hash (vote_chain j) \<Longrightarrow> i = j"
proof -
  assume ij: "i < 8" "j < 8" and eq: "bn_hash (vote_chain i) = bn_hash (vote_chain j)"
  then have "le_bytes 4 (int i) = le_bytes 4 (int j)" by (simp add: vote_chain_fields writeBlockHeaderBuf_def genesis_header_def)
  then have "le_val (le_bytes 4 (int i)) = le_val (le_bytes 4 (int j))" by simp
  then show "i = j" using ij by (simp add: le_val_le_bytes)
qed

lemma vote_tree: "block_tree (\<lambda>b. b) vote_nodes"
proof -
  have "inj_on bn_hash vote_nodes" using vote_hash_inj unfolding vote_nodes_def inj_on_def by fastforce
  moreover have "built (\<lambda>b. b) (vote_chain k) \<and> (\<forall>p. bn_parent (vote_chain k) = Some p \<longrightarrow> p \<in> vote_nodes)" if "k < 8" for k
    using vote_chain_built [of k] that by (auto simp: vote_chain_fields vote_nodes_def split: nat.splits)
  ultimately show ?thesis unfolding block_tree_def vote_nodes_def by blast
qed

lemma vote_index_ok: "index_ok vote_index vote_nodes"
proof -
  have "distinct (map fst (map (\<lambda>k. (bn_hash (vote_chain k), vote_chain k)) [0..<8]))"
    using vote_hash_inj by (auto simp: distinct_map inj_on_def comp_def)
  then show ?thesis unfolding index_ok_def LookupNode_def vote_index_def vote_nodes_def
    by (auto simp: map_of_eq_Some_iff)
qed

lemma vote_state_2: "deployment_state vote_params vote_index (Some (vote_chain 1)) vote_deployment = ThresholdLockedIn"
proof -
  have s: "signals vote_deployment (vote_chain k)" for k
    by (simp add: signals_def vote_deployment_def vote_chain_fields vbTopMask_def vbTopBits_def)
  have h: "bn_height (vote_chain 1) = 1" "bn_height (vote_chain 0) = 0" using vote_chain_built [of 1] vote_chain_built [of 0] by simp_all
  have p: "bn_parent (vote_chain 1) = Some (vote_chain 0)" "bn_parent (vote_chain 0) = None" by (simp_all add: vote_chain_fields)
  show ?thesis using s h p
    by (simp add: deployment_state_def state_after_def windows_def deploymentChecker_def vote_params_def vote_deployment_def
        EffectiveAlwaysActiveHeight_def uint32_of_def next_state_def Starter_HasStarted_def Ender_HasEnded_def value_of_def Let_def numeral_2_eq_2)
qed

subsection \<open>Properties\<close>

text \<open>
  C26. The threshold caches are transparent: on a tree of blocks without colliding hashes, with caches that hold only
  right states, the state of every deployment, the version of the next block and the state of every
  warning bit are what the windows of the chain determine, whatever is cached; every call returns
  without an error, and the caches keep holding only right states. The empty caches do.\<close>

theorem voting_caches_transparent:
  assumes "voting_ok dh P bi N vs" "extendable N prevNode"
  shows "(\<forall>i < length (vp_Deployments P). \<exists>caches.
      deploymentState P bi (vs_deploymentCaches vs) prevNode i = Some (Inr (deployment_state P bi prevNode (vp_Deployments P ! i)), caches) \<and>
      voting_ok dh P bi N (vs\<lparr>vs_deploymentCaches := caches\<rparr>)) \<and>
    (\<exists>caches. calcNextBlockVersion P bi prevNode (vs_deploymentCaches vs) =
        Some (Inr (sint (version_bits P bi prevNode (vp_Deployments P) vbTopBits)), caches) \<and>
      voting_ok dh P bi N (vs\<lparr>vs_deploymentCaches := caches\<rparr>)) \<and>
    (\<forall>b < vbNumBits. \<exists>vs'. warningState P bi prevNode b vs = Some (Inr (warning_state P bi prevNode b), vs') \<and> voting_ok dh P bi N vs')"
proof (intro conjI allI impI)
  have ok: "caches_ok dh P bi N (vs_deploymentCaches vs)" using assms(1) by (simp add: voting_ok_def)
  have upd: "voting_ok dh P bi N (vs\<lparr>vs_deploymentCaches := caches\<rparr>)" if "caches_ok dh P bi N caches" for caches
    using assms(1) that by (simp add: voting_ok_def)
  show "\<exists>caches. deploymentState P bi (vs_deploymentCaches vs) prevNode i = Some (Inr (deployment_state P bi prevNode (vp_Deployments P ! i)), caches) \<and>
      voting_ok dh P bi N (vs\<lparr>vs_deploymentCaches := caches\<rparr>)" if "i < length (vp_Deployments P)" for i
    using deploymentState_cached [OF ok assms(2) that] upd by blast
  show "\<exists>caches. calcNextBlockVersion P bi prevNode (vs_deploymentCaches vs) =
        Some (Inr (sint (version_bits P bi prevNode (vp_Deployments P) vbTopBits)), caches) \<and>
      voting_ok dh P bi N (vs\<lparr>vs_deploymentCaches := caches\<rparr>)"
    using calcNextBlockVersion_cached [OF ok assms(2)] upd by blast
  show "\<exists>vs'. warningState P bi prevNode b vs = Some (Inr (warning_state P bi prevNode b), vs') \<and> voting_ok dh P bi N vs'" if "b < vbNumBits" for b
    using warningState_cached [OF assms that] by blast
qed

lemma empty_caches_ok:
  assumes "block_tree dh N" "0 < vp_MinerConfirmationWindow P" "vp_MinerConfirmationWindow P < 2 ^ 31"
  shows "voting_ok dh P bi N \<lparr>vs_deploymentCaches = newThresholdCaches (length (vp_Deployments P)),
     vs_warningCaches = newThresholdCaches vbNumBits, vs_unknownRulesWarned = False\<rparr>"
  using assms by (simp add: voting_ok_def caches_ok_def newThresholdCaches_def window_cache_ok_def list_all2_conv_all_nth)

theorem voting_caches_transparent_witness:
  "\<exists>caches. deploymentState vote_params vote_index (newThresholdCaches 1) (Some (vote_chain 1)) 0 = Some (Inr ThresholdLockedIn, caches)"
proof -
  have "extendable vote_nodes (Some (vote_chain 1))" using vote_chain_built [of 1] by (auto simp: extendable_def vote_nodes_def)
  moreover have "voting_ok (\<lambda>b. b) vote_params vote_index vote_nodes \<lparr>vs_deploymentCaches = newThresholdCaches (length (vp_Deployments vote_params)),
     vs_warningCaches = newThresholdCaches vbNumBits, vs_unknownRulesWarned = False\<rparr>"
    by (rule empty_caches_ok [OF vote_tree]) (simp_all add: vote_params_def)
  ultimately show ?thesis using voting_caches_transparent vote_state_2
    by (fastforce simp: vote_params_def)
qed

lemma caches_okD:
  assumes "caches_ok dh P bi N caches"
  shows "block_tree dh N" "0 < vp_MinerConfirmationWindow P"
  using assms by (simp_all add: caches_ok_def)

lemma extendable_parents:
  assumes "block_tree dh N" "m \<in> N" "bn_height m < 2 ^ 31 - 1" "parents k m = Some n"
  shows "extendable N (Some m)" "extendable N (Some n)"
proof -
  have b: "built dh m" by (rule tree_built [OF assms(1,2)])
  have "int k \<le> bn_height m" using parents_None [OF b, of k] assms(4) by fastforce
  then have "bn_height n \<le> bn_height m" using built_parents [OF b, of k] assms(4) by auto
  then show "extendable N (Some m)" "extendable N (Some n)"
    using assms(2,3) tree_parents [OF assms(1,2,4)] by (simp_all add: extendable_def)
qed

lemma deployment_state_progress:
  assumes "block_tree dh N" "index_ok bi N" "0 < vp_MinerConfirmationWindow P" "m \<in> N" "timely m" "parents k m = Some n"
  shows "if ForceActive (deploymentChecker P bi d :: unit thresholdConditionChecker) (Some m)
    then deployment_state P bi (Some m) d = ThresholdActive
    else (advances ^^ (windows_before P m - windows_before P n)) (deployment_state P bi (Some n) d) (deployment_state P bi (Some m) d)"
proof -
  have b: "built dh m" by (rule tree_built [OF assms(1,4)])
  show ?thesis
  proof (cases "ForceActive (deploymentChecker P bi d :: unit thresholdConditionChecker) (Some m)")
    case True
    then show ?thesis by (simp add: deployment_state_def state_after_def)
  next
    case False
    then have "\<not> ForceActive (deploymentChecker P bi d :: unit thresholdConditionChecker) (Some n)"
      using ForceActive_parents [OF b assms(6)] by blast
    note states = deployment_state_at [OF this] deployment_state_at [OF False]
    have le: "windows_before P n \<le> windows_before P m" by (rule windows_before_mono [OF b assms(6)])
    then show ?thesis
      using advances_chain [OF assms(1,2,4,5,3), of "windows_before P n" "windows_before P m - windows_before P n" d]
        state_at_below [OF b assms(6), of "windows_before P n" P bi d] states False by simp
  qed
qed

lemma deployment_state_locked_in:
  assumes "block_tree dh N" "index_ok bi N" "0 < vp_MinerConfirmationWindow P" "m \<in> N" "timely m" "parents k m = Some n"
    "deployment_state P bi (Some n) d = ThresholdLockedIn" "windows_before P n < windows_before P m"
    "cd_MinActivationHeight d \<le> Suc (windows_before P n) * vp_MinerConfirmationWindow P"
  shows "deployment_state P bi (Some m) d = ThresholdActive"
proof (cases "ForceActive (deploymentChecker P bi d :: unit thresholdConditionChecker) (Some m)")
  case True
  then show ?thesis by (simp add: deployment_state_def state_after_def)
next
  case False
  have b: "built dh m" by (rule tree_built [OF assms(1,4)])
  have "\<not> ForceActive (deploymentChecker P bi d :: unit thresholdConditionChecker) (Some n)"
    using ForceActive_parents [OF b assms(6)] False by blast
  then have "state_at P bi d m (windows_before P n) = ThresholdLockedIn"
    using assms(7) state_at_below [OF b assms(6), of "windows_before P n" P bi d] by (simp add: deployment_state_at)
  from locked_in_stays [OF assms(1,2,4,5,3,8) order_refl this] assms(9) False show ?thesis by (simp add: deployment_state_at)
qed

text \<open>
  C27. A deployment only moves forward: whatever the caches hold, along a chain with non-decreasing timestamps every
  further window is one step of the state machine Defined, Started, Locked in, Active, or into Failed, and within a
  window nothing changes; once the height forces the deployment to be active it is active.\<close>

theorem deployment_progress:
  assumes "caches_ok dh P bi N caches" "caches_ok dh P bi N caches'" "index_ok bi N" "i < length (vp_Deployments P)"
    "m \<in> N" "timely m" "bn_height m < 2 ^ 31 - 1" "parents k m = Some n"
  shows "\<exists>s s' cs cs'. deploymentState P bi caches (Some n) i = Some (Inr s, cs) \<and>
    deploymentState P bi caches' (Some m) i = Some (Inr s', cs') \<and>
    (if ForceActive (deploymentChecker P bi (vp_Deployments P ! i) :: unit thresholdConditionChecker) (Some m) then s' = ThresholdActive
     else (advances ^^ (windows_before P m - windows_before P n)) s s')"
  using deploymentState_cached [OF assms(1) extendable_parents(2) [OF caches_okD(1) [OF assms(1)] assms(5,7,8)] assms(4)]
    deploymentState_cached [OF assms(2) extendable_parents(1) [OF caches_okD(1) [OF assms(1)] assms(5,7,8)] assms(4)]
    deployment_state_progress [OF caches_okD(1) [OF assms(1)] assms(3) caches_okD(2) [OF assms(1)] assms(5,6,8), of "vp_Deployments P ! i"]
  by (auto split: if_splits)

lemma vote_caches: "caches_ok (\<lambda>b. b) vote_params vote_index vote_nodes (newThresholdCaches 1)"
  using empty_caches_ok [OF vote_tree, of vote_params vote_index] by (simp add: voting_ok_def vote_params_def)

theorem deployment_progress_witness:
  "\<exists>s s' cs cs'. deploymentState vote_params vote_index (newThresholdCaches 1) (Some (vote_chain 1)) 0 = Some (Inr s, cs) \<and>
     deploymentState vote_params vote_index (newThresholdCaches 1) (Some (vote_chain 3)) 0 = Some (Inr s', cs') \<and> (advances ^^ 2) s s'"
proof -
  have m: "vote_chain 3 \<in> vote_nodes" by (simp add: vote_nodes_def)
  have "parents 2 (vote_chain 3) = Some (vote_chain 1)" by (simp add: vote_chain_fields numeral_2_eq_2 numeral_3_eq_3)
  from deployment_progress [OF vote_caches vote_caches vote_index_ok _ m vote_chain_timely _ this, of 0] vote_chain_built [of 3] vote_chain_built [of 1]
  show ?thesis by (simp add: vote_params_def windows_before_def deploymentChecker_def EffectiveAlwaysActiveHeight_def vote_deployment_def uint32_of_def)
qed

text \<open>
  C28. A deployment that is locked in becomes active: whatever the caches hold, at every later block of the chain behind
  the end of the next window it is active, if that window ends at the minimal activation height or above.\<close>

theorem locked_in_activates:
  assumes "caches_ok dh P bi N caches" "caches_ok dh P bi N caches'" "index_ok bi N" "i < length (vp_Deployments P)"
    "m \<in> N" "timely m" "bn_height m < 2 ^ 31 - 1" "parents k m = Some n"
    "deploymentState P bi caches (Some n) i = Some (Inr ThresholdLockedIn, cs)" "windows_before P n < windows_before P m"
    "cd_MinActivationHeight (vp_Deployments P ! i) \<le> Suc (windows_before P n) * vp_MinerConfirmationWindow P"
  shows "\<exists>cs'. deploymentState P bi caches' (Some m) i = Some (Inr ThresholdActive, cs')"
proof -
  have "deployment_state P bi (Some n) (vp_Deployments P ! i) = ThresholdLockedIn"
    using deploymentState_cached [OF assms(1) extendable_parents(2) [OF caches_okD(1) [OF assms(1)] assms(5,7,8)] assms(4)] assms(9) by simp
  from deployment_state_locked_in [OF caches_okD(1) [OF assms(1)] assms(3) caches_okD(2) [OF assms(1)] assms(5,6,8) this assms(10,11)]
  show ?thesis
    using deploymentState_cached [OF assms(2) extendable_parents(1) [OF caches_okD(1) [OF assms(1)] assms(5,7,8)] assms(4)] by auto
qed

theorem locked_in_activates_witness:
  "\<exists>cs. deploymentState vote_params vote_index (newThresholdCaches 1) (Some (vote_chain 2)) 0 = Some (Inr ThresholdActive, cs)"
proof -
  have m: "vote_chain 2 \<in> vote_nodes" by (simp add: vote_nodes_def)
  have p: "parents 1 (vote_chain 2) = Some (vote_chain 1)" by (simp add: vote_chain_fields numeral_2_eq_2)
  have "extendable vote_nodes (Some (vote_chain 1))" using vote_chain_built [of 1] by (auto simp: extendable_def vote_nodes_def)
  from deploymentState_cached [OF vote_caches this, of 0] vote_state_2 obtain cs where
    "deploymentState vote_params vote_index (newThresholdCaches 1) (Some (vote_chain 1)) 0 = Some (Inr ThresholdLockedIn, cs)"
    by (auto simp: vote_params_def)
  from locked_in_activates [OF vote_caches vote_caches vote_index_ok _ m vote_chain_timely _ p this] vote_chain_built [of 2] vote_chain_built [of 1]
  show ?thesis by (simp add: vote_params_def windows_before_def vote_deployment_def)
qed

end
