(* ===== verification/Chain_View.thy ===== *)
theory Chain_View
  imports Block_Index "HOL-Library.Sublist" "HOL-Library.Signed_Division"
begin

text \<open>
  The view of the best chain (\<^verbatim>\<open>node/blockchain/chainview.go\<close>) and the queries that read it
  (\<^verbatim>\<open>node/blockchain/chain.go\<close>): block locators, inventory, hash ranges, the choice of the tip and the
  nodes that a reorganization detaches and attaches. A view is the slice of nodes by height; its lock and the spare
  capacity of the slice are left out. The code compares pointers where the model compares nodes; in a tree without two
  nodes of the same hash the two agree.
\<close>

subsection \<open>Floor of the binary logarithm\<close>

definition log2FloorMasks :: "32 word list" where
  "log2FloorMasks = [0xffff0000, 0xff00, 0xf0, 0xc, 0x2]"

fun log2_loop :: "32 word list \<Rightarrow> 32 word \<Rightarrow> nat \<Rightarrow> byte \<Rightarrow> byte" where
  "log2_loop [] n exponent rv = rv"
| "log2_loop (m # masks) n exponent rv =
     (if n AND m \<noteq> 0 then log2_loop masks (drop_bit exponent n) (exponent div 2) (rv + of_nat exponent)
      else log2_loop masks n (exponent div 2) rv)"

definition fastLog2Floor :: "32 word \<Rightarrow> byte" where
  "fastLog2Floor n = log2_loop log2FloorMasks n 16 0"

subsection \<open>The view\<close>

type_synonym chainView = "blockNode option list"

definition view_genesis :: "chainView \<Rightarrow> blockNode option" where
  "view_genesis c = (if length c = 0 then None else c ! 0)"

definition view_tip :: "chainView \<Rightarrow> blockNode option" where
  "view_tip c = (if length c = 0 then None else c ! (length c - 1))"

definition view_height :: "chainView \<Rightarrow> int" where
  "view_height c = int32_of (int (length c) - 1)"

function set_tip_loop :: "blockNode option \<Rightarrow> chainView \<Rightarrow> go_error + chainView" where
  "set_tip_loop node c =
     (case node of
        None \<Rightarrow> Inr c
      | Some n \<Rightarrow>
          sbind (go_index c (bn_height n)) (\<lambda>old.
            if old = Some n then Inr c
            else set_tip_loop (bn_parent n) (c[nat (bn_height n) := Some n])))"
  by pat_completeness auto

termination
  by (relation "measure (\<lambda>(n, c). parent_size n)") (simp_all add: parent_smaller)

declare set_tip_loop.simps [simp del]

definition setTip :: "chainView \<Rightarrow> blockNode option \<Rightarrow> go_error + chainView" where
  "setTip c node =
     (case node of
        None \<Rightarrow> Inr []
      | Some n \<Rightarrow>
          let needed = int32_of (bn_height n + 1)
          in if needed < 0 then Inl goPanic
             else set_tip_loop node (take (nat needed) c @ replicate (nat needed - length c) None))"

definition newChainView :: "blockNode option \<Rightarrow> go_error + chainView" where
  "newChainView tip = setTip [] tip"

definition nodeByHeight :: "chainView \<Rightarrow> int \<Rightarrow> blockNode option" where
  "nodeByHeight c height = (if height < 0 \<or> height \<ge> int32_of (int (length c)) then None else c ! nat height)"

definition view_Equals :: "chainView \<Rightarrow> chainView \<Rightarrow> bool" where
  "view_Equals c other \<longleftrightarrow> length c = length other \<and> view_tip c = view_tip other"

definition view_contains :: "chainView \<Rightarrow> blockNode \<Rightarrow> bool" where
  "view_contains c node \<longleftrightarrow> nodeByHeight c (bn_height node) = Some node"

definition view_next :: "chainView \<Rightarrow> blockNode option \<Rightarrow> blockNode option" where
  "view_next c node =
     (case node of
        None \<Rightarrow> None
      | Some n \<Rightarrow> if \<not> view_contains c n then None else nodeByHeight c (int32_of (bn_height n + 1)))"

function fork_loop :: "chainView \<Rightarrow> blockNode option \<Rightarrow> blockNode option" where
  "fork_loop c node =
     (case node of
        None \<Rightarrow> None
      | Some n \<Rightarrow> if \<not> view_contains c n then fork_loop c (bn_parent n) else Some n)"
  by pat_completeness auto

termination
  by (relation "measure (\<lambda>(c, n). parent_size n)") (simp_all add: parent_smaller)

declare fork_loop.simps [simp del]

definition findFork :: "chainView \<Rightarrow> blockNode option \<Rightarrow> blockNode option" where
  "findFork c node =
     (case node of
        None \<Rightarrow> None
      | Some n \<Rightarrow>
          fork_loop c (if bn_height n > view_height c then Ancestor n (view_height c) else Some n))"

subsection \<open>Block locators\<close>

definition locator_max_entries :: "blockNode \<Rightarrow> byte" where
  "locator_max_entries node =
     (if bn_height node \<le> 12 then of_int (bn_height node) + 1
      else 12 + fastLog2Floor (of_int (bn_height node) - 10))"

partial_function (option) locator_loop ::
  "chainView \<Rightarrow> blockNode option \<Rightarrow> int \<Rightarrow> hash list \<Rightarrow> (go_error + hash list) option" where
  "locator_loop c node step locator =
     (case node of
        None \<Rightarrow> Some (Inr locator)
      | Some n \<Rightarrow>
          let locator = locator @ [bn_hash n]
          in if bn_height n = 0 then Some (Inr locator)
             else
               let height = int32_of (bn_height n - step);
                   height = (if height < 0 then 0 else height)
               in case (if view_contains c n then go_index c height else Inr (Ancestor n height)) of
                    Inl e \<Rightarrow> Some (Inl e)
                  | Inr node \<Rightarrow>
                      locator_loop c node (if length locator > 10 then int32_of (step * 2) else step) locator)"

definition blockLocator :: "chainView \<Rightarrow> blockNode option \<Rightarrow> (go_error + hash list) option" where
  "blockLocator c node =
     (let node = (if node = None then view_tip c else node)
      in if node = None then Some (Inr []) else locator_loop c node 1 [])"

subsection \<open>Queries of the best chain\<close>

text \<open>The hash of a node that may be nil.\<close>

definition hash_of :: "blockNode option \<Rightarrow> go_error + hash" where
  "hash_of node = (case node of None \<Rightarrow> Inl goPanic | Some n \<Rightarrow> Inr (bn_hash n))"

fun first_known :: "chainView \<Rightarrow> blockIndex \<Rightarrow> hash list \<Rightarrow> blockNode option" where
  "first_known c bi [] = view_genesis c"
| "first_known c bi (h # locator) =
     (case LookupNode bi h of
        None \<Rightarrow> first_known c bi locator
      | Some node \<Rightarrow> if view_contains c node then Some node else first_known c bi locator)"

definition locateInventory ::
  "chainView \<Rightarrow> blockIndex \<Rightarrow> hash list \<Rightarrow> hash \<Rightarrow> nat \<Rightarrow> go_error + (blockNode option \<times> nat)" where
  "locateInventory c bi locator hashStop maxEntries =
     (let stopNode = LookupNode bi hashStop
      in if length locator = 0 then (if stopNode = None then Inr (None, 0) else Inr (stopNode, 1))
         else
           case view_next c (first_known c bi locator) of
             None \<Rightarrow> Inr (None, 0)
           | Some startNode \<Rightarrow>
               (case view_tip c of
                  None \<Rightarrow> Inl goPanic
                | Some tip \<Rightarrow>
                    let total = nat (uint32_of (int32_of (int32_of (bn_height tip - bn_height startNode) + 1)));
                        total = (case stopNode of
                                   Some stop \<Rightarrow>
                                     if view_contains c stop \<and> bn_height stop \<ge> bn_height startNode
                                     then nat (uint32_of (int32_of (int32_of (bn_height stop - bn_height startNode) + 1)))
                                     else total
                                 | None \<Rightarrow> total)
                    in Inr (Some startNode, if total > maxEntries then maxEntries else total)))"

fun hashes_loop :: "chainView \<Rightarrow> nat \<Rightarrow> blockNode option \<Rightarrow> go_error + hash list" where
  "hashes_loop c 0 node = Inr []"
| "hashes_loop c (Suc i) node =
     sbind (hash_of node) (\<lambda>h. sbind (hashes_loop c i (view_next c node)) (\<lambda>hs. Inr (h # hs)))"

definition locateBlocks :: "chainView \<Rightarrow> blockIndex \<Rightarrow> hash list \<Rightarrow> hash \<Rightarrow> nat \<Rightarrow> go_error + hash list" where
  "locateBlocks c bi locator hashStop maxHashes =
     sbind (locateInventory c bi locator hashStop maxHashes) (\<lambda>(node, total).
       if total = 0 then Inr [] else hashes_loop c total node)"

fun height_hashes :: "chainView \<Rightarrow> int list \<Rightarrow> go_error + hash list" where
  "height_hashes c [] = Inr []"
| "height_hashes c (i # is) =
     sbind (hash_of (nodeByHeight c i)) (\<lambda>h. sbind (height_hashes c is) (\<lambda>hs. Inr (h # hs)))"

definition HeightRange :: "chainView \<Rightarrow> int \<Rightarrow> int \<Rightarrow> go_error + hash list" where
  "HeightRange c startHeight endHeight =
     (if startHeight < 0 then Inl otherError
      else if endHeight < startHeight then Inl otherError
      else if startHeight = endHeight then Inr []
      else
        case view_tip c of
          None \<Rightarrow> Inl goPanic
        | Some tip \<Rightarrow>
            if startHeight > bn_height tip then Inr []
            else
              let endHeight = (if endHeight > int32_of (bn_height tip + 1) then int32_of (bn_height tip + 1) else endHeight)
              in if endHeight < startHeight then Inl goPanic
                 else height_hashes c [startHeight..endHeight - 1])"

fun parent_hashes :: "nat \<Rightarrow> blockNode option \<Rightarrow> hash list \<Rightarrow> go_error + hash list" where
  "parent_hashes 0 node hs = Inr hs"
| "parent_hashes (Suc i) None hs = Inl goPanic"
| "parent_hashes (Suc i) (Some node) hs = parent_hashes i (bn_parent node) (bn_hash node # hs)"

definition HeightToHashRange :: "blockIndex \<Rightarrow> int \<Rightarrow> hash \<Rightarrow> int \<Rightarrow> go_error + hash list" where
  "HeightToHashRange bi startHeight endHash maxResults =
     (case LookupNode bi endHash of
        None \<Rightarrow> Inl otherError
      | Some endNode \<Rightarrow>
          if \<not> KnownValid (bn_status endNode) then Inl otherError
          else if startHeight < 0 then Inl otherError
          else if startHeight > bn_height endNode then Inl otherError
          else
            let resultsLength = int32_of (int32_of (bn_height endNode - startHeight) + 1)
            in if resultsLength > maxResults then Inl otherError
               else if resultsLength < 0 then Inl goPanic
               else parent_hashes (nat resultsLength) (Some endNode) [])"

fun interval_hashes :: "chainView \<Rightarrow> int \<Rightarrow> nat \<Rightarrow> blockNode option \<Rightarrow> hash list \<Rightarrow> go_error + hash list" where
  "interval_hashes c interval 0 node hs = Inr hs"
| "interval_hashes c interval (Suc i) None hs = Inl goPanic"
| "interval_hashes c interval (Suc i) (Some node) hs =
     (let blockHeight = int32_of (int (Suc i) * interval);
          node = (if view_contains c node then nodeByHeight c blockHeight else Ancestor node blockHeight)
      in sbind (hash_of node) (\<lambda>h. interval_hashes c interval i node (h # hs)))"

definition IntervalBlockHashes :: "chainView \<Rightarrow> blockIndex \<Rightarrow> hash \<Rightarrow> int \<Rightarrow> go_error + hash list" where
  "IntervalBlockHashes c bi endHash interval =
     (case LookupNode bi endHash of
        None \<Rightarrow> Inl otherError
      | Some endNode \<Rightarrow>
          if \<not> KnownValid (bn_status endNode) then Inl otherError
          else if interval = 0 then Inl goPanic
          else
            let resultsLength = bn_height endNode sdiv interval
            in if resultsLength < 0 then Inl goPanic
               else interval_hashes c interval (nat resultsLength) (Some endNode) [])"

subsection \<open>Chains as lists\<close>

text \<open>The nodes from the genesis node to a node, and the view of that chain.\<close>

function chain_to :: "blockNode \<Rightarrow> blockNode list" where
  "chain_to n = (case bn_parent n of None \<Rightarrow> [] | Some p \<Rightarrow> chain_to p) @ [n]"
  by pat_completeness auto

termination
  by (relation "measure size") (simp, metis Suc_less_eq in_measure parent_size.simps(2) parent_smaller(1))

declare chain_to.simps [simp del]

definition view_of :: "blockNode \<Rightarrow> chainView" where
  "view_of n = map Some (chain_to n)"

definition view_ok :: "(bytes \<Rightarrow> hash) \<Rightarrow> chainView \<Rightarrow> bool" where
  "view_ok dh c \<longleftrightarrow> c = [] \<or> (\<exists>n. built dh n \<and> bn_height n < 2 ^ 31 - 1 \<and> c = view_of n)"

lemma chain_to_root [simp]: "bn_parent n = None \<Longrightarrow> chain_to n = [n]"
  by (simp add: chain_to.simps [of n])

lemma chain_to_child [simp]: "bn_parent n = Some p \<Longrightarrow> chain_to n = chain_to p @ [n]"
  by (simp add: chain_to.simps [of n])

lemma last_chain_to [simp]: "chain_to n \<noteq> []" "last (chain_to n) = n"
  by (cases "bn_parent n"; simp)+

lemma length_chain_to: "built dh n \<Longrightarrow> int (length (chain_to n)) = bn_height n + 1"
proof (induction rule: built.induct)
  case (built_child p header status vsize)
  then show ?case using built_height [of dh p] by (simp add: int32_of_id)
qed simp

text \<open>A node of the chain has its index as height, and its own chain is the chain up to it.\<close>

lemma chain_to_nth:
  "built dh n \<Longrightarrow> j < length (chain_to n) \<Longrightarrow>
     built dh (chain_to n ! j) \<and> bn_height (chain_to n ! j) = int j \<and> chain_to (chain_to n ! j) = take (Suc j) (chain_to n)"
proof (induction rule: built.induct)
  case (built_child p header status vsize)
  let ?n = "newBlockNode dh header (Some p) status vsize"
  have b: "built dh ?n" by (rule built.built_child [OF built_child.hyps])
  have c: "chain_to ?n = chain_to p @ [?n]" by simp
  show ?case
  proof (cases "j < length (chain_to p)")
    case True
    then show ?thesis using built_child.IH unfolding c by (simp add: nth_append)
  next
    case False
    then have "j = length (chain_to p)" using built_child.prems unfolding c by simp
    then show ?thesis using b length_chain_to [OF b] unfolding c by simp
  qed
qed (simp add: built_genesis)

lemma in_chain_to:
  assumes "built dh n"
  shows "m \<in> set (chain_to n) \<longleftrightarrow> 0 \<le> bn_height m \<and> bn_height m \<le> bn_height n \<and> chain_to n ! nat (bn_height m) = m"
proof
  assume "m \<in> set (chain_to n)"
  then obtain j where j: "j < length (chain_to n)" "m = chain_to n ! j" by (auto simp: in_set_conv_nth)
  then show "0 \<le> bn_height m \<and> bn_height m \<le> bn_height n \<and> chain_to n ! nat (bn_height m) = m"
    using chain_to_nth [OF assms j(1)] length_chain_to [OF assms] by simp
next
  assume m: "0 \<le> bn_height m \<and> bn_height m \<le> bn_height n \<and> chain_to n ! nat (bn_height m) = m"
  then have "nat (bn_height m) < length (chain_to n)" using length_chain_to [OF assms] by linarith
  then show "m \<in> set (chain_to n)" using m nth_mem by metis
qed

lemma chain_to_member:
  assumes "built dh n" "m \<in> set (chain_to n)"
  shows "built dh m" "chain_to m = take (Suc (nat (bn_height m))) (chain_to n)" "prefix (chain_to m) (chain_to n)"
proof -
  have m: "0 \<le> bn_height m" "nat (bn_height m) < length (chain_to n)" "chain_to n ! nat (bn_height m) = m"
    using assms length_chain_to [OF assms(1)] in_chain_to [OF assms(1)] by auto
  then show "built dh m" "chain_to m = take (Suc (nat (bn_height m))) (chain_to n)"
    using chain_to_nth [OF assms(1) m(2)] by simp_all
  then show "prefix (chain_to m) (chain_to n)" by (simp add: take_is_prefix)
qed

lemma chain_to_parents: "built dh n \<Longrightarrow> k < length (chain_to n) \<Longrightarrow> parents k n = Some (rev (chain_to n) ! k)"
proof (induction k arbitrary: n)
  case 0
  then show ?case by (cases "bn_parent n") simp_all
next
  case (Suc k)
  show ?case
  proof (cases "bn_parent n")
    case None
    then show ?thesis using Suc.prems by simp
  next
    case (Some p)
    then show ?thesis using Suc.IH [of p] Suc.prems built_parent(2) [OF Suc.prems(1) Some] by simp
  qed
qed

lemma Ancestor_chain:
  assumes "built dh n"
  shows "Ancestor n h = (if 0 \<le> h \<and> h \<le> bn_height n then Some (chain_to n ! nat h) else None)"
proof (cases "0 \<le> h \<and> h \<le> bn_height n")
  case True
  then have "nat (bn_height n - h) < length (chain_to n)" using length_chain_to [OF assms] by linarith
  moreover have "length (chain_to n) - Suc (nat (bn_height n - h)) = nat h" using True length_chain_to [OF assms] by linarith
  ultimately show ?thesis using True Ancestor_parents [OF assms] chain_to_parents [OF assms] by (simp add: rev_nth)
qed (use Ancestor_parents [OF assms] in auto)

subsection \<open>The tip of the view\<close>

text \<open>Below the height, every slot of the slice is empty or begins the chain of the node that it holds.\<close>

definition slots_ok :: "(bytes \<Rightarrow> hash) \<Rightarrow> chainView \<Rightarrow> nat \<Rightarrow> bool" where
  "slots_ok dh c k \<longleftrightarrow> (\<forall>j < k. \<forall>q. c ! j = Some q \<longrightarrow> take (Suc j) c = view_of q)"

lemma set_tip_loop_view:
  assumes "built dh n" "bn_height n < int (length c)" "slots_ok dh c (Suc (nat (bn_height n)))"
  shows "set_tip_loop (Some n) c = Inr (view_of n @ drop (Suc (nat (bn_height n))) c)"
  using assms
proof (induction "nat (bn_height n)" arbitrary: n c)
  case 0
  then have h: "bn_height n = 0" using built_height [of dh n] by simp
  have p: "bn_parent n = None" using built_parent(2) [OF "0.prems"(1)] h built_height by (cases "bn_parent n") fastforce+
  obtain x xs where c: "c = x # xs" using "0.prems"(2) h by (cases c) auto
  show ?case by (simp add: set_tip_loop.simps [of "Some n"] set_tip_loop.simps [of None] go_simps h p c view_of_def)
next
  case (Suc k)
  have pos: "0 < bn_height n" using Suc.hyps(2) by simp
  obtain p where p: "bn_parent n = Some p" using built_parent(1) [OF Suc.prems(1)] pos by (cases "bn_parent n") auto
  note b = built_parent(2) [OF Suc.prems(1) p]
  have k: "nat (bn_height p) = k" "nat (bn_height n) = Suc k" "Suc k < length c" using b Suc.hyps(2) Suc.prems(2) by auto
  show ?case
  proof (cases "c ! Suc k = Some n")
    case True
    then have "take (Suc (Suc k)) c = view_of n" using Suc.prems(3) k by (simp add: slots_ok_def)
    moreover have "set_tip_loop (Some n) c = Inr c" using True k pos Suc.prems(2) by (simp add: set_tip_loop.simps [of "Some n"] go_simps)
    ultimately show ?thesis using k by (metis append_take_drop_id)
  next
    case False
    let ?c = "c[Suc k := Some n]"
    have "slots_ok dh ?c (Suc k)" using Suc.prems(3) k unfolding slots_ok_def by (auto simp: less_Suc_eq)
    then have "set_tip_loop (Some p) ?c = Inr (view_of p @ drop (Suc k) ?c)"
      using Suc.hyps(1) [of p ?c] b k Suc.prems(2) by simp
    moreover have "drop (Suc k) ?c = Some n # drop (Suc (Suc k)) c"
      using k by (simp add: Cons_nth_drop_Suc [symmetric])
    ultimately show ?thesis using False k pos Suc.prems(2) p by (simp add: set_tip_loop.simps [of "Some n"] go_simps view_of_def)
  qed
qed

lemma view_of_nth:
  assumes "built dh n" "j < length (view_of n)" "view_of n ! j = Some q"
  shows "take (Suc j) (view_of n) = view_of q"
  using assms chain_to_nth [OF assms(1), of j] by (auto simp: view_of_def take_map)

lemma setTip_view:
  assumes "view_ok dh c" "built dh n" "bn_height n < 2 ^ 31 - 1"
  shows "setTip c (Some n) = Inr (view_of n)"
proof -
  let ?l = "nat (bn_height n + 1)"
  let ?c = "take ?l c @ replicate (?l - length c) None"
  have h: "0 \<le> bn_height n" "int32_of (bn_height n + 1) = bn_height n + 1" using built_height [OF assms(2)] assms(3) by (simp_all add: int32_of_id)
  have "slots_ok dh ?c ?l"
    unfolding slots_ok_def
  proof (intro allI impI)
    fix j q
    assume j: "j < ?l" "?c ! j = Some q"
    then have jc: "j < length c" "c ! j = Some q" by (auto simp: nth_append split: if_splits)
    then obtain t where t: "built dh t" "c = view_of t" using assms(1) by (auto simp: view_ok_def)
    have "take (Suc j) c = view_of q" using view_of_nth [OF t(1)] jc t(2) by simp
    then show "take (Suc j) ?c = view_of q" using j(1) jc(1) by simp
  qed
  moreover have "Suc (nat (bn_height n)) = ?l" "length ?c = ?l" using h(1) by auto
  ultimately have "set_tip_loop (Some n) ?c = Inr (view_of n @ drop ?l ?c)"
    using set_tip_loop_view [OF assms(2), of ?c] h(1) by simp
  then show ?thesis using h \<open>length ?c = ?l\<close> by (simp add: setTip_def Let_def)
qed

lemma view_contains_view_of:
  assumes "built dh n" "bn_height n < 2 ^ 31 - 1"
  shows "view_contains (view_of n) m \<longleftrightarrow> m \<in> set (chain_to n)"
proof -
  have "int32_of (int (length (chain_to n))) = bn_height n + 1"
    using length_chain_to [OF assms(1)] assms(2) built_height [OF assms(1)] by (simp add: int32_of_id)
  then show ?thesis
    using length_chain_to [OF assms(1)] in_chain_to [OF assms(1), of m]
    by (cases "0 \<le> bn_height m \<and> bn_height m \<le> bn_height n") (auto simp: view_contains_def nodeByHeight_def view_of_def nth_map)
qed

lemma view_contains_empty [simp]: "\<not> view_contains [] m"
  by (auto simp: view_contains_def nodeByHeight_def int32_of_id)

subsection \<open>The fork point\<close>

lemma find_last: "List.find P (xs @ [x]) = (case List.find P xs of None \<Rightarrow> if P x then Some x else None | y \<Rightarrow> y)"
  by (induction xs) simp_all

lemma fork_loop_find: "fork_loop c (Some n) = List.find (view_contains c) (rev (chain_to n))"
proof (induction "size n" arbitrary: n rule: less_induct)
  case less
  show ?case
  proof (cases "bn_parent n")
    case None
    then show ?thesis by (simp add: fork_loop.simps [of c "Some n"] fork_loop.simps [of c None])
  next
    case (Some p)
    then have "size p < size n" using parent_smaller(1) [of n] by simp
    from less [OF this] Some show ?thesis by (simp add: fork_loop.simps [of c "Some n"])
  qed
qed

lemma prefix_last:
  assumes "prefix p xs" "p \<noteq> []"
  shows "last p = xs ! (length p - 1)" "length p - 1 < length xs" "take (Suc (length p - 1)) xs = p"
  using assms by (cases p; auto elim!: prefixE simp: last_conv_nth nth_append)+

lemma lcp_find:
  assumes "built dh t" "built dh n"
  shows "List.find (\<lambda>m. m \<in> set (chain_to t)) (rev (chain_to n)) =
    (let p = longest_common_prefix (chain_to t) (chain_to n) in if p = [] then None else Some (last p))"
proof -
  let ?p = "longest_common_prefix (chain_to t) (chain_to n)"
  have pre: "prefix ?p (chain_to t)" "prefix ?p (chain_to n)" by (rule longest_common_prefix_prefix1 longest_common_prefix_prefix2)+
  show ?thesis
  proof (cases "List.find (\<lambda>m. m \<in> set (chain_to t)) (rev (chain_to n))")
    case None
    then have "x \<notin> set (chain_to t)" if "x \<in> set (chain_to n)" for x using that by (auto simp: find_None_iff)
    then have "?p = []" using pre by (metis last_in_set set_mono_prefix subsetD)
    then show ?thesis using None by simp
  next
    case (Some f)
    then obtain i where i: "i < length (chain_to n)" "f = rev (chain_to n) ! i" "f \<in> set (chain_to t)"
        "\<And>j. j < i \<Longrightarrow> rev (chain_to n) ! j \<notin> set (chain_to t)"
      by (auto simp: find_Some_iff)
    let ?i = "length (chain_to n) - Suc i"
    have f: "f = chain_to n ! ?i" "?i < length (chain_to n)" using i by (simp_all add: rev_nth)
    then have fn: "f \<in> set (chain_to n)" by simp
    have "prefix (chain_to f) ?p"
      using chain_to_member(3) [OF assms(1) i(3)] chain_to_member(3) [OF assms(2) fn] by (rule longest_common_prefix_max_prefix)
    then have "length (chain_to f) \<le> length ?p" by (rule prefix_length_le)
    moreover have "chain_to f = take (Suc ?i) (chain_to n)" using chain_to_nth [OF assms(2) f(2)] f(1) by simp
    then have "length (chain_to f) = Suc ?i" using f(2) by (simp only: length_take min.absorb2 Suc_leI)
    ultimately have len: "?i < length ?p" by linarith
    have "\<not> Suc ?i < length ?p"
    proof
      assume "Suc ?i < length ?p"
      moreover have "length ?p \<le> length (chain_to n)" by (rule prefix_length_le [OF pre(2)])
      ultimately have *: "length (chain_to n) - length ?p < i" "0 < length ?p" by auto
      have "last ?p = chain_to n ! (length ?p - 1)" using * pre(2) by (intro prefix_last(1)) auto
      also have "\<dots> = rev (chain_to n) ! (length (chain_to n) - length ?p)"
        using * \<open>length ?p \<le> length (chain_to n)\<close> by (simp add: rev_nth)
      finally have "last ?p \<notin> set (chain_to t)" using i(4) [OF *(1)] by simp
      then show False using pre(1) *(2) by (metis last_in_set length_greater_0_conv set_mono_prefix subsetD)
    qed
    then have l: "length ?p = Suc ?i" using len by simp
    then have "last ?p = chain_to n ! ?i" using prefix_last(1) [OF pre(2)] by fastforce
    then show ?thesis using Some f(1) l by (auto simp: Let_def)
  qed
qed


lemma lcp_find_above:
  assumes "\<And>m. m \<in> set ys \<Longrightarrow> \<not> P m"
  shows "List.find P (rev (xs @ ys)) = List.find P (rev xs)"
proof -
  have "List.find P (ys' @ xs') = List.find P xs'" if "\<And>m. m \<in> set ys' \<Longrightarrow> \<not> P m" for ys' xs'
    using that by (induction ys') auto
  from this [of "rev ys" "rev xs"] assms show ?thesis by simp
qed

text \<open>The last node that the chain of a node has in common with a chain.\<close>

definition fork_of :: "blockNode \<Rightarrow> blockNode \<Rightarrow> blockNode option" where
  "fork_of t n = (let p = longest_common_prefix (chain_to t) (chain_to n) in if p = [] then None else Some (last p))"

lemma findFork_view:
  assumes "built dh t" "bn_height t < 2 ^ 31 - 1" "built dh n"
  shows "findFork (view_of t) (Some n) = fork_of t n"
proof -
  let ?P = "\<lambda>m. m \<in> set (chain_to t)"
  have P: "view_contains (view_of t) = ?P" using view_contains_view_of [OF assms(1,2)] by auto
  have h: "view_height (view_of t) = bn_height t" "0 \<le> bn_height t"
    using length_chain_to [OF assms(1)] built_height [OF assms(1)] by (simp_all add: view_height_def view_of_def int32_of_id)
  show ?thesis
  proof (cases "bn_height n > bn_height t")
    case False
    then show ?thesis using lcp_find [OF assms(1,3)] by (simp add: findFork_def fork_of_def h fork_loop_find P)
  next
    case True
    let ?j = "nat (bn_height t)"
    have j: "?j < length (chain_to n)" using True h(2) length_chain_to [OF assms(3)] by linarith
    have A: "Ancestor n (bn_height t) = Some (chain_to n ! ?j)" using True h(2) Ancestor_chain [OF assms(3)] by simp
    have above: "\<not> ?P m" if "m \<in> set (drop (Suc ?j) (chain_to n))" for m
    proof -
      from that obtain i where "Suc ?j + i < length (chain_to n)" "m = chain_to n ! (Suc ?j + i)"
        by (auto simp: in_set_conv_nth less_diff_conv add.commute)
      then have "bn_height m > bn_height t" using chain_to_nth [OF assms(3), of "Suc ?j + i"] h(2) by simp
      then show ?thesis using in_chain_to [OF assms(1)] by simp
    qed
    have "findFork (view_of t) (Some n) = List.find ?P (rev (take (Suc ?j) (chain_to n)))"
      using True A chain_to_nth [OF assms(3) j] by (simp add: findFork_def h(1) fork_loop_find P)
    also have "\<dots> = List.find ?P (rev (chain_to n))"
      using lcp_find_above [of "drop (Suc ?j) (chain_to n)" ?P "take (Suc ?j) (chain_to n)"] above by simp
    finally show ?thesis using lcp_find [OF assms(1,3)] by (simp add: fork_of_def)
  qed
qed

lemma findFork_empty: "findFork [] (Some n) = None"
proof -
  have "List.find (view_contains []) xs = None" for xs by (simp add: find_None_iff)
  then show ?thesis
    by (cases "Ancestor n (- 1)") (auto simp: findFork_def view_height_def int32_of_id fork_loop_find fork_loop.simps [of "[]" None])
qed

lemma fork_of_chains:
  assumes "built dh t" "built dh n"
  shows "fork_of t n = Some f \<longleftrightarrow> f \<in> set (chain_to t) \<and> f \<in> set (chain_to n) \<and>
    (\<forall>g. g \<in> set (chain_to t) \<and> g \<in> set (chain_to n) \<longrightarrow> bn_height g \<le> bn_height f)"
    and "fork_of t n = Some f \<Longrightarrow> longest_common_prefix (chain_to t) (chain_to n) = chain_to f"
proof -
  let ?p = "longest_common_prefix (chain_to t) (chain_to n)"
  have pre: "prefix ?p (chain_to t)" "prefix ?p (chain_to n)" by (rule longest_common_prefix_prefix1 longest_common_prefix_prefix2)+
  have p: "?p = chain_to (last ?p) \<and> last ?p \<in> set (chain_to t) \<and> last ?p \<in> set (chain_to n)" if "?p \<noteq> []"
  proof -
    have "last ?p \<in> set ?p" using that by simp
    then have m: "last ?p \<in> set (chain_to t)" "last ?p \<in> set (chain_to n)" using pre by (meson set_mono_prefix subsetD)+
    let ?k = "length ?p - 1"
    have k: "?k < length (chain_to n)" "last ?p = chain_to n ! ?k" "take (Suc ?k) (chain_to n) = ?p"
      using prefix_last [OF pre(2) that] by simp_all
    then show ?thesis using m chain_to_nth [OF assms(2) k(1)] by simp
  qed
  have common: "bn_height g \<le> bn_height (last ?p) \<and> ?p \<noteq> []" if "g \<in> set (chain_to t)" "g \<in> set (chain_to n)" for g
  proof -
    have "prefix (chain_to g) ?p"
      using chain_to_member(3) [OF assms(1) that(1)] chain_to_member(3) [OF assms(2) that(2)] by (rule longest_common_prefix_max_prefix)
    then have *: "length (chain_to g) \<le> length ?p" "?p \<noteq> []" by (auto dest: prefix_length_le)
    then show ?thesis using p chain_to_member(1) [OF assms(2)] that(2) length_chain_to [of dh g] length_chain_to [of dh "last ?p"]
      by fastforce
  qed
  show "fork_of t n = Some f \<longleftrightarrow> f \<in> set (chain_to t) \<and> f \<in> set (chain_to n) \<and>
    (\<forall>g. g \<in> set (chain_to t) \<and> g \<in> set (chain_to n) \<longrightarrow> bn_height g \<le> bn_height f)"
  proof
    assume "fork_of t n = Some f"
    then show "f \<in> set (chain_to t) \<and> f \<in> set (chain_to n) \<and> (\<forall>g. g \<in> set (chain_to t) \<and> g \<in> set (chain_to n) \<longrightarrow> bn_height g \<le> bn_height f)"
      using p common by (auto simp: fork_of_def Let_def split: if_splits)
  next
    assume f: "f \<in> set (chain_to t) \<and> f \<in> set (chain_to n) \<and> (\<forall>g. g \<in> set (chain_to t) \<and> g \<in> set (chain_to n) \<longrightarrow> bn_height g \<le> bn_height f)"
    then have ne: "?p \<noteq> []" and "bn_height (last ?p) = bn_height f" using common p by (auto intro: order_antisym)
    then have "f = last ?p" using in_chain_to [OF assms(2)] f p by metis
    then show "fork_of t n = Some f" using ne by (simp add: fork_of_def Let_def)
  qed
  show "fork_of t n = Some f \<Longrightarrow> ?p = chain_to f" using p by (auto simp: fork_of_def Let_def split: if_splits)
qed

subsection \<open>Block locators\<close>

text \<open>How far the entry of an index lies below the node: one block each for the first entries, then twice as far for every further one.\<close>

definition locator_offset :: "nat \<Rightarrow> nat" where
  "locator_offset i = (if i \<le> 11 then i else 9 + 2 ^ (i - 10))"

definition locator_step :: "nat \<Rightarrow> nat" where
  "locator_step i = (if i \<le> 10 then 1 else 2 ^ (i - 10))"

lemma locator_step_Suc: "locator_step (Suc i) = (if 10 \<le> i then 2 * locator_step i else locator_step i)"
proof (cases "10 \<le> i")
  case True
  then obtain k where "i = 10 + k" using le_Suc_ex by blast
  then show ?thesis by (simp add: locator_step_def)
qed (simp add: locator_step_def)

lemma locator_offset_Suc: "locator_offset (Suc i) = locator_offset i + locator_step i"
proof (cases "12 \<le> i")
  case True
  then obtain k where "i = 12 + k" using le_Suc_ex by blast
  then show ?thesis by (simp add: locator_offset_def locator_step_def power_add)
next
  case False
  then consider "i \<le> 10" | "i = 11" by linarith
  then show ?thesis by cases (simp_all add: locator_offset_def locator_step_def)
qed

lemma locator_step_bounds: "0 < locator_step i" "locator_step i \<le> Suc (locator_offset i)"
  by (cases "i = 11"; simp add: locator_step_def locator_offset_def)+

lemma locator_offset_grows: "i \<le> locator_offset i"
proof (induction i)
  case (Suc i)
  then show ?case using locator_step_bounds(1) [of i] by (simp add: locator_offset_Suc)
qed simp

text \<open>Each mask selects the upper half of the bits that are left.\<close>

lemma log2_mask:
  fixes n :: "32 word"
  assumes "unat n < 2 ^ (e + e)" "e + e \<le> 32" "m = push_bit e (mask e)"
  shows "n AND m \<noteq> 0 \<longleftrightarrow> 2 ^ e \<le> unat n"
proof -
  have high: "\<not> bit n i" if "e + e \<le> i" for i
  proof -
    have "unat n < 2 ^ i" using assms(1) that power_increasing [of "e + e" i "2 :: nat"] by linarith
    then have "unat n div 2 ^ i = 0" by simp
    then have "drop_bit i n = 0" by (metis unat_drop_bit_eq drop_bit_eq_div unat_eq_0)
    then show ?thesis by (simp add: bit_iff_odd_drop_bit)
  qed
  have "n AND m \<noteq> 0 \<longleftrightarrow> (\<exists>i \<ge> e. bit n i)"
  proof -
    have "n AND m \<noteq> 0 \<longleftrightarrow> (\<exists>i. bit n i \<and> bit m i)" 
      using bit_imp_le_length [of n] by (auto simp: bit_eq_iff bit_and_iff)
    moreover have "bit m i \<longleftrightarrow> e \<le> i \<and> i < e + e" for i using assms(2) by (auto simp: assms(3) bit_simps)
    ultimately show ?thesis using high by (meson not_le)
  qed
  also have "\<dots> \<longleftrightarrow> (\<exists>i. bit (drop_bit e n) i)" by (auto simp: bit_drop_bit_eq le_iff_add)
  also have "\<dots> \<longleftrightarrow> drop_bit e n \<noteq> 0" using bit_eqI [of "drop_bit e n" 0] by fastforce
  also have "\<dots> \<longleftrightarrow> unat n div 2 ^ e \<noteq> 0" by (metis unat_drop_bit_eq drop_bit_eq_div unat_eq_0)
  also have "\<dots> \<longleftrightarrow> 2 ^ e \<le> unat n" by (simp add: div_eq_0_iff not_less)
  finally show ?thesis .
qed

definition finds_log2 :: "32 word list \<Rightarrow> nat \<Rightarrow> bool" where
  "finds_log2 masks e \<longleftrightarrow> (\<forall>n rv. 0 < unat n \<longrightarrow> unat n < 2 ^ (e + e) \<longrightarrow>
     (\<exists>r < e + e. log2_loop masks n e rv = rv + of_nat r \<and> 2 ^ r \<le> unat n \<and> unat n < 2 ^ Suc r))"

lemma log2_half:
  assumes "e + e \<le> 32" "m = push_bit e (mask e)"
    and rest: "\<And>n rv. 0 < unat n \<Longrightarrow> unat n < 2 ^ e \<Longrightarrow>
      \<exists>r < e. log2_loop masks n (e div 2) rv = rv + of_nat r \<and> 2 ^ r \<le> unat n \<and> unat n < 2 ^ Suc r"
  shows "finds_log2 (m # masks) e"
  unfolding finds_log2_def
proof (intro allI impI)
  fix n :: "32 word" and rv :: byte
  assume n: "0 < unat n" "unat n < 2 ^ (e + e)"
  show "\<exists>r < e + e. log2_loop (m # masks) n e rv = rv + of_nat r \<and> 2 ^ r \<le> unat n \<and> unat n < 2 ^ Suc r"
  proof (cases "2 ^ e \<le> unat n")
    case True
    let ?n = "drop_bit e n"
    have u: "unat ?n = unat n div 2 ^ e" by (rule trans [OF unat_drop_bit_eq drop_bit_eq_div])
    have "0 < unat ?n" "unat ?n < 2 ^ e" unfolding u using True n(2) by (simp_all add: div_greater_zero_iff less_mult_imp_div_less power_add)
    from rest [OF this, of "rv + of_nat e"] obtain r where r: "r < e"
      "log2_loop masks ?n (e div 2) (rv + of_nat e) = rv + of_nat e + of_nat r" "2 ^ r \<le> unat ?n" "unat ?n < 2 ^ Suc r" by blast
    have "2 ^ (e + r) \<le> unat n" using r(3) unfolding u by (simp add: power_add less_eq_div_iff_mult_less_eq mult.commute)
    moreover have "unat n < 2 ^ Suc (e + r)" using r(4) unfolding u by (simp add: power_add div_less_iff_less_mult mult.commute mult.left_commute)
    ultimately show ?thesis
      using r(1,2) log2_mask [OF n(2) assms(1,2)] True by (intro exI [of _ "e + r"]) (simp add: add.assoc)
  next
    case False
    with rest [of n rv] n(1) log2_mask [OF n(2) assms(1,2)] show ?thesis by force
  qed
qed

lemma log2_next:
  assumes "finds_log2 masks e" "e + e + (e + e) \<le> 32" "m = push_bit (e + e) (mask (e + e))"
  shows "finds_log2 (m # masks) (e + e)"
  using assms(1) by (intro log2_half [OF assms(2,3)]) (simp add: finds_log2_def)

lemma fastLog2Floor_value:
  assumes "n \<noteq> 0"
  shows "2 ^ unat (fastLog2Floor n) \<le> unat n \<and> unat n < 2 ^ Suc (unat (fastLog2Floor n))"
proof -
  have 1: "finds_log2 [2] 1"
    by (rule log2_half) (auto simp: mask_eq_exp_minus_1)
  have 2: "finds_log2 [0xc, 2] 2" using log2_next [OF 1, of "0xc"] by (simp add: numeral_2_eq_2 mask_eq_exp_minus_1 push_bit_eq_mult)
  have 4: "finds_log2 [0xf0, 0xc, 2] 4" using log2_next [OF 2, of "0xf0"] by (simp add: mask_eq_exp_minus_1 push_bit_eq_mult)
  have 8: "finds_log2 [0xff00, 0xf0, 0xc, 2] 8" using log2_next [OF 4, of "0xff00"] by (simp add: mask_eq_exp_minus_1 push_bit_eq_mult)
  have 16: "finds_log2 [0xffff0000, 0xff00, 0xf0, 0xc, 2] 16"
    using log2_next [OF 8, of "0xffff0000"] by (simp add: mask_eq_exp_minus_1 push_bit_eq_mult)
  have "0 < unat n" "unat n < 2 ^ (16 + 16)" using assms unsigned_less [of n, where 'a = nat] by (simp_all add: unat_gt_0)
  then obtain r where "r < 32" "fastLog2Floor n = of_nat r" "2 ^ r \<le> unat n \<and> unat n < 2 ^ Suc r"
    using 16 [unfolded finds_log2_def, rule_format, of n 0] by (auto simp: fastLog2Floor_def log2FloorMasks_def simp del: log2_loop.simps)
  moreover from this have "unat (fastLog2Floor n) = r" by (simp add: unat_of_nat)
  ultimately show ?thesis by simp
qed

lemma locator_max_entries_value:
  assumes "0 \<le> bn_height n" "bn_height n < 2 ^ 31"
  shows "locator_offset (unat (locator_max_entries n) - 1) \<ge> nat (bn_height n)" "0 < unat (locator_max_entries n)"
    "i < unat (locator_max_entries n) - 1 \<Longrightarrow> locator_offset i < nat (bn_height n)"
proof -
  obtain H where H: "bn_height n = int H" "H < 2 ^ 31" using assms by (metis int_nat_eq nat_less_iff of_nat_0_le_iff zero_less_imp_eq_int order_le_less nonneg_int_cases of_nat_less_iff of_nat_numeral of_nat_power)
  let ?m = "unat (locator_max_entries n)"
  have "locator_offset (?m - 1) \<ge> H \<and> 0 < ?m \<and> (\<forall>i < ?m - 1. locator_offset i < H)"
  proof (cases "H \<le> 12")
    case True
    then have "locator_max_entries n = of_nat (Suc H)" using H by (simp add: locator_max_entries_def)
    then have "?m = Suc H" using True by (simp only: unat_of_nat) simp
    then show ?thesis using True locator_offset_grows [of H] by (auto simp: locator_offset_def)
  next
    case False
    let ?n = "of_nat (H - 10) :: 32 word"
    have n: "unat ?n = H - 10" using H(2) by (simp add: unat_of_nat)
    have "locator_max_entries n = 12 + fastLog2Floor ?n" using False H by (simp add: locator_max_entries_def of_nat_diff)
    moreover have r: "2 ^ unat (fastLog2Floor ?n) \<le> H - 10" "H - 10 < 2 ^ Suc (unat (fastLog2Floor ?n))"
      using fastLog2Floor_value [of ?n] n False by (auto simp del: power_Suc simp: unat_eq_0 [symmetric])
    have "unat (fastLog2Floor ?n) < 31"
    proof (rule ccontr)
      assume "\<not> unat (fastLog2Floor ?n) < 31"
      then have "(2 :: nat) ^ 31 \<le> 2 ^ unat (fastLog2Floor ?n)" by (intro power_increasing) simp_all
      then show False using r(1) H(2) by simp
    qed
    ultimately have m: "?m = 12 + unat (fastLog2Floor ?n)" by (simp add: unat_word_ariths)
    have "locator_offset i < H" if "i < ?m - 1" for i
    proof (cases "i \<le> 11")
      case True
      then show ?thesis using False by (simp add: locator_offset_def)
    next
      case i: False
      then have "(2 :: nat) ^ (i - 10) \<le> 2 ^ unat (fastLog2Floor ?n)" using that m by (intro power_increasing) simp_all
      then have "9 + 2 ^ (i - 10) < H" using r(1) False by linarith
      then show ?thesis using i by (simp add: locator_offset_def)
    qed
    moreover have "unat (fastLog2Floor ?n) \<noteq> 0" by (rule notI) (use r(2) False in simp)
    then have "locator_offset (?m - 1) \<ge> H" using r(2) m False by (auto simp: locator_offset_def Suc_diff_le)
    ultimately show ?thesis using m by simp
  qed
  then show "locator_offset (?m - 1) \<ge> nat (bn_height n)" "0 < ?m" "i < ?m - 1 \<Longrightarrow> locator_offset i < nat (bn_height n)"
    using H(1) by auto
qed

definition locator_hashes :: "blockNode \<Rightarrow> nat \<Rightarrow> hash list" where
  "locator_hashes n k = map (\<lambda>i. bn_hash (chain_to n ! (nat (bn_height n) - locator_offset i))) [0..<k]"

lemma view_ok_at:
  assumes "view_ok dh c" "view_contains c m" "0 \<le> h" "h \<le> bn_height m"
  shows "go_index c h = Inr (Some (chain_to m ! nat h))"
proof -
  obtain t where t: "built dh t" "bn_height t < 2 ^ 31 - 1" "c = view_of t" using assms(1,2) by (auto simp: view_ok_def)
  then have m: "m \<in> set (chain_to t)" using assms(2) view_contains_view_of by simp
  note cm = chain_to_member [OF t(1) m]
  have "nat h < length (chain_to t)" "nat h < Suc (nat (bn_height m))"
    using assms(3,4) m in_chain_to [OF t(1), of m] length_chain_to [OF t(1)] by linarith+
  then show ?thesis using assms(3) cm(2) t(3) by (simp add: go_index_def view_of_def nat_less_iff)
qed

lemma locator_loop_value:
  assumes "view_ok dh c" "built dh n"
  shows "i < unat (locator_max_entries n) \<Longrightarrow>
    locator_loop c (Some (chain_to n ! (nat (bn_height n) - locator_offset i))) (int32_of (int (locator_step i))) (locator_hashes n i) =
      Some (Inr (locator_hashes n (unat (locator_max_entries n))))"
proof (induction "unat (locator_max_entries n) - i" arbitrary: i rule: less_induct)
  case less
  define H where "H = nat (bn_height n)"
  have h: "0 \<le> bn_height n" "bn_height n < 2 ^ 31" "bn_height n = int H" using built_height [OF assms(2)] by (simp_all add: H_def)
  let ?m = "unat (locator_max_entries n)" and ?a = "chain_to n ! (H - locator_offset i)"
  have "H - locator_offset i < length (chain_to n)" using length_chain_to [OF assms(2)] h(3) by linarith
  note a = chain_to_nth [OF assms(2) this]
  have S: "locator_hashes n (Suc i) = locator_hashes n i @ [bn_hash ?a]" by (simp add: locator_hashes_def H_def)
  have len: "length (locator_hashes n (Suc i)) = Suc i" by (simp add: locator_hashes_def)
  show ?case
  proof (cases "i < ?m - 1")
    case False
    then have "?m = Suc i" using less.prems by simp
    then show ?thesis
      using locator_max_entries_value(1) [OF h(1,2)] a S by (simp add: locator_loop.simps H_def [symmetric] Let_def)
  next
    case True
    have o: "locator_offset i < H" using locator_max_entries_value(3) [OF h(1,2) True] by (simp add: H_def)
    have st: "int (locator_step i) < 2 ^ 31" "int32_of (int (locator_step i)) = int (locator_step i)"
      using locator_step_bounds(2) [of i] o h by (simp_all add: int32_of_id)
    let ?h = "int (H - locator_offset i) - int (locator_step i)"
    let ?b = "chain_to n ! (H - locator_offset (Suc i))"
    have h32: "int32_of ?h = ?h" using o h st by (intro int32_of_id) linarith+
    have nx: "(if ?h < 0 then 0 else ?h) = int (H - locator_offset (Suc i))" by (simp add: locator_offset_Suc) linarith
    have le: "H - locator_offset (Suc i) < Suc (H - locator_offset i)" by (simp add: locator_offset_Suc)
    have b: "chain_to ?a ! (H - locator_offset (Suc i)) = ?b" using a le by simp
    have "(if view_contains c ?a then go_index c (int (H - locator_offset (Suc i)))
        else Inr (Ancestor ?a (int (H - locator_offset (Suc i))))) = Inr (Some ?b)"
      using view_ok_at [OF assms(1), of ?a "int (H - locator_offset (Suc i))"] Ancestor_chain [of dh ?a] a b le by simp
    moreover have "(if length (locator_hashes n (Suc i)) > 10 then int32_of (int (locator_step i) * 2) else int (locator_step i)) =
        int32_of (int (locator_step (Suc i)))"
      using st by (simp add: len locator_step_Suc mult.commute)
    moreover have "bn_height ?a \<noteq> 0" using a o by simp
    ultimately have "locator_loop c (Some ?a) (int (locator_step i)) (locator_hashes n i) =
        locator_loop c (Some ?b) (int32_of (int (locator_step (Suc i)))) (locator_hashes n (Suc i))"
      by (subst locator_loop.simps)
        (simp only: option.case if_False Let_def S [symmetric] sum.case a [THEN conjunct2, THEN conjunct1] h32 nx)
    then show ?thesis using less.hyps [of "Suc i"] True less.prems st(2) by (simp add: H_def)
  qed
qed

lemma blockLocator_value:
  assumes "view_ok dh c" "built dh n"
  shows "blockLocator c (Some n) = Some (Inr (locator_hashes n (unat (locator_max_entries n))))"
proof -
  have h: "0 \<le> bn_height n" "bn_height n < 2 ^ 31" using built_height [OF assms(2)] by simp_all
  have "chain_to n ! nat (bn_height n) = n"
  proof -
    have "nat (bn_height n) = length (chain_to n) - 1" using length_chain_to [OF assms(2)] h by linarith
    then show ?thesis using last_conv_nth [of "chain_to n"] by simp
  qed
  then show ?thesis
    using locator_loop_value [OF assms, of 0] locator_max_entries_value(2) [OF h]
    by (simp add: blockLocator_def locator_offset_def locator_step_def locator_hashes_def int32_of_id)
qed

subsection \<open>Inventory\<close>

lemma nodeByHeight_view:
  assumes "built dh t" "bn_height t < 2 ^ 31 - 1"
  shows "nodeByHeight (view_of t) h = (if 0 \<le> h \<and> h \<le> bn_height t then Some (chain_to t ! nat h) else None)"
proof -
  have "int32_of (int (length (chain_to t))) = bn_height t + 1"
    using length_chain_to [OF assms(1)] assms(2) built_height [OF assms(1)] by (simp add: int32_of_id)
  moreover have "nat h < length (chain_to t)" if "0 \<le> h" "h \<le> bn_height t" using that length_chain_to [OF assms(1)] by linarith
  ultimately show ?thesis by (auto simp: nodeByHeight_def view_of_def)
qed

lemma view_next_view:
  assumes "built dh t" "bn_height t < 2 ^ 31 - 1" "j < length (chain_to t)"
  shows "view_next (view_of t) (Some (chain_to t ! j)) = (if Suc j < length (chain_to t) then Some (chain_to t ! Suc j) else None)"
proof -
  have h: "int j < 2 ^ 31 - 1" "int j \<le> bn_height t" using assms length_chain_to [OF assms(1)] by linarith+
  then have "int32_of (int j + 1) = int j + 1" by (intro int32_of_id) simp_all
  moreover have "Suc j < length (chain_to t) \<longleftrightarrow> int j + 1 \<le> bn_height t" using length_chain_to [OF assms(1)] by linarith
  ultimately show ?thesis
    using chain_to_nth [OF assms(1,3)] assms(3) view_contains_view_of [OF assms(1,2)] nodeByHeight_view [OF assms(1,2)]
    by (simp add: view_next_def nat_add_distrib)
qed

lemma view_tip_view: "view_tip (view_of t) = Some t"
  using last_conv_nth [of "chain_to t"] by (simp add: view_tip_def view_of_def)

lemma view_genesis_view: "view_genesis (view_of t) = Some (hd (chain_to t))"
  using hd_conv_nth [of "chain_to t"] by (simp add: view_genesis_def view_of_def)

lemma hashes_loop_view:
  assumes "built dh t" "bn_height t < 2 ^ 31 - 1"
  shows "j + k \<le> length (chain_to t) \<Longrightarrow> 0 < k \<Longrightarrow>
    hashes_loop (view_of t) k (Some (chain_to t ! j)) = Inr (map bn_hash (take k (drop j (chain_to t))))"
proof (induction k arbitrary: j)
  case (Suc k)
  then have j: "j < length (chain_to t)" by simp
  then have "take (Suc k) (drop j (chain_to t)) = chain_to t ! j # take k (drop (Suc j) (chain_to t))"
    by (simp add: Cons_nth_drop_Suc [symmetric])
  then show ?case using Suc view_next_view [OF assms j] by (cases k) (auto simp: hash_of_def)
qed simp

text \<open>The height up to which blocks are served.\<close>

definition inventory_end :: "blockNode \<Rightarrow> blockIndex \<Rightarrow> hash \<Rightarrow> int \<Rightarrow> int" where
  "inventory_end t bi hashStop start =
     (case LookupNode bi hashStop of
        None \<Rightarrow> bn_height t
      | Some stop \<Rightarrow> if stop \<in> set (chain_to t) \<and> bn_height stop \<ge> start then bn_height stop else bn_height t)"

lemma span_32: "0 \<le> a \<Longrightarrow> a < 2 ^ 31 - 1 \<Longrightarrow> uint32_of (int32_of (int32_of a + 1)) = a + 1"
  by (simp add: int32_of_id uint32_of_def take_bit_int_eq_self)

lemma locateBlocks_value:
  assumes t: "built dh t" "bn_height t < 2 ^ 31 - 1"
    and s: "first_known (view_of t) bi locator = Some s" "s \<in> set (chain_to t)" "locator \<noteq> []"
  shows "locateBlocks (view_of t) bi locator hashStop maxHashes =
    Inr (map bn_hash (take maxHashes (take (nat (inventory_end t bi hashStop (bn_height s + 1) - bn_height s))
      (drop (Suc (nat (bn_height s))) (chain_to t)))))"
proof -
  let ?j = "nat (bn_height s)" and ?e = "inventory_end t bi hashStop (bn_height s + 1)"
  have sh: "0 \<le> bn_height s" "bn_height s \<le> bn_height t" "chain_to t ! ?j = s" using s(2) in_chain_to [OF t(1)] by simp_all
  have j: "?j < length (chain_to t)" using sh length_chain_to [OF t(1)] by linarith
  note nx = view_next_view [OF t j, unfolded sh(3)]
  show ?thesis
  proof (cases "Suc ?j < length (chain_to t)")
    case False
    then show ?thesis using nx s by (simp add: locateBlocks_def locateInventory_def Let_def)
  next
    case True
    let ?n = "chain_to t ! Suc ?j"
    have n: "bn_height ?n = bn_height s + 1" "Suc ?j \<le> length (chain_to t)" "bn_height s + 1 \<le> bn_height t"
      using chain_to_nth [OF t(1) True] sh length_chain_to [OF t(1)] True by linarith+
    have e: "bn_height s + 1 \<le> ?e" "?e \<le> bn_height t"
      using n(3) in_chain_to [OF t(1)] by (auto simp: inventory_end_def split: option.split)
    have c: "view_contains (view_of t) = (\<lambda>m. m \<in> set (chain_to t))" using view_contains_view_of [OF t] by auto
    have w: "uint32_of (int32_of (int32_of (h - (bn_height s + 1)) + 1)) = h - bn_height s" if "bn_height s + 1 \<le> h" "h \<le> bn_height t" for h
      using span_32 [of "h - (bn_height s + 1)"] that t(2) sh(1) by simp
    have "locateInventory (view_of t) bi locator hashStop maxHashes = Inr (Some ?n, min maxHashes (nat (?e - bn_height s)))"
    proof (cases "\<exists>stop. LookupNode bi hashStop = Some stop \<and> stop \<in> set (chain_to t) \<and> bn_height stop \<ge> bn_height s + 1")
      case stop: True
      then obtain p where p: "LookupNode bi hashStop = Some p" "p \<in> set (chain_to t)" "bn_height p \<ge> bn_height s + 1" by blast
      then have "bn_height p \<le> bn_height t" using in_chain_to [OF t(1)] by blast
      then show ?thesis
        using True nx s p w [of "bn_height p"] view_tip_view [of t] n(1) by (auto simp: locateInventory_def inventory_end_def c Let_def min_def)
    next
      case stop: False
      then have "?e = bn_height t" by (auto simp: inventory_end_def split: option.split)
      then show ?thesis
        using True nx s stop w [of "bn_height t"] n(3) view_tip_view [of t] n(1)
        by (auto simp: locateInventory_def c Let_def min_def split: option.split)
    qed
    moreover have "Suc ?j + min maxHashes (nat (?e - bn_height s)) \<le> length (chain_to t)"
      using e sh(1) length_chain_to [OF t(1)] by linarith
    ultimately show ?thesis
      using hashes_loop_view [OF t, of "Suc ?j" "min maxHashes (nat (?e - bn_height s))"]
      by (cases "min maxHashes (nat (?e - bn_height s)) = 0") (auto simp: locateBlocks_def min_def)
  qed
qed

text \<open>The blocks that answer a locator start at most as far below the fork as the node of the locator is above it.\<close>

lemma locator_start:
  assumes t: "built dh t" "bn_height t < 2 ^ 31 - 1" and N: "block_tree dh N" "index_ok bi N" "m \<in> N"
    and f: "fork_of t m = Some f" and c: "view_ok dh c" "blockLocator c (Some m) = Some (Inr L)"
  shows "\<exists>s \<in> set (chain_to t). first_known (view_of t) bi L = Some s \<and> L \<noteq> [] \<and>
    (s = f \<or> bn_height s \<le> bn_height f \<and> bn_height f - bn_height s < bn_height m - bn_height f)"
proof -
  have m: "built dh m" by (rule tree_built [OF N(1,3)])
  define H where "H = nat (bn_height m)"
  define K where "K = unat (locator_max_entries m)"
  have h: "0 \<le> bn_height m" "bn_height m < 2 ^ 31" "bn_height m = int H" using built_height [OF m] by (simp_all add: H_def)
  note K = locator_max_entries_value [OF h(1,2), folded K_def H_def]
  have L: "L = map (\<lambda>i. bn_hash (chain_to m ! (H - locator_offset i))) [0..<K]"
    using c(2) blockLocator_value [OF c(1) m] by (simp add: locator_hashes_def H_def K_def)
  have f': "f \<in> set (chain_to t)" "f \<in> set (chain_to m)"
      "\<And>g. g \<in> set (chain_to t) \<Longrightarrow> g \<in> set (chain_to m) \<Longrightarrow> bn_height g \<le> bn_height f"
    using fork_of_chains(1) [OF t(1) m] f by blast+
  have fh: "0 \<le> bn_height f" "bn_height f \<le> bn_height m" "chain_to m ! nat (bn_height f) = f" using f'(2) in_chain_to [OF m] by blast+
  define F where "F = nat (bn_height f)"
  have F: "bn_height f = int F" "F \<le> H" using fh h by (simp_all add: F_def)
  have entry: "LookupNode bi (bn_hash (chain_to m ! j)) = Some (chain_to m ! j) \<and>
      (chain_to m ! j \<in> set (chain_to t) \<longleftrightarrow> j \<le> F) \<and> bn_height (chain_to m ! j) = int j" if "j \<le> H" for j
  proof -
    have j: "j < length (chain_to m)" using that length_chain_to [OF m] h by linarith
    note nj = chain_to_nth [OF m j]
    have "parents (H - j) m = Some (chain_to m ! j)"
    proof -
      have "length (chain_to m) = Suc H" using length_chain_to [OF m] h(3) by linarith
      then show ?thesis using chain_to_parents [OF m, of "H - j"] that by (simp add: rev_nth)
    qed
    then have "chain_to m ! j \<in> N" by (rule tree_parents [OF N(1,3)])
    moreover have "chain_to m ! j \<in> set (chain_to t)" if "j \<le> F"
    proof -
      have "chain_to f = take (Suc F) (chain_to m)" using chain_to_member(2) [OF m f'(2)] by (simp add: F_def)
      then have "chain_to m ! j \<in> set (chain_to f)" using that j by (simp add: in_set_conv_nth) (metis less_Suc_eq_le nth_take)
      then show ?thesis using chain_to_member(3) [OF t(1) f'(1)] by (meson set_mono_prefix subsetD)
    qed
    moreover have "j \<le> F" if "chain_to m ! j \<in> set (chain_to t)" using f'(3) [OF that] j nj F(1) by simp
    ultimately show ?thesis using N(2) nj by (auto simp: index_ok_def)
  qed
  have C: "view_contains (view_of t) = (\<lambda>x. x \<in> set (chain_to t))" using view_contains_view_of [OF t] by auto
  have found: "first_known (view_of t) bi (map (\<lambda>i. bn_hash (chain_to m ! (H - locator_offset i))) [i..<K]) =
      Some (chain_to m ! (H - locator_offset k))" if "i \<le> k" "k < K" "\<And>j. i \<le> j \<Longrightarrow> j < k \<Longrightarrow> F < H - locator_offset j" "H - locator_offset k \<le> F" for i k
    using that
  proof (induction "k - i" arbitrary: i)
    case 0
    then show ?case using entry [of "H - locator_offset k"] by (simp add: upt_conv_Cons C)
  next
    case (Suc d)
    have "F < H - locator_offset i" using Suc.prems(3) [of i] Suc.hyps(2) by simp
    then have "first_known (view_of t) bi (map (\<lambda>i. bn_hash (chain_to m ! (H - locator_offset i))) [i..<K]) =
        first_known (view_of t) bi (map (\<lambda>i. bn_hash (chain_to m ! (H - locator_offset i))) [Suc i..<K])"
      using entry [of "H - locator_offset i"] Suc.prems(1,2) by (simp add: upt_conv_Cons C)
    also have "\<dots> = Some (chain_to m ! (H - locator_offset k))" using Suc.hyps(2) Suc.prems by (intro Suc.hyps(1)) auto
    finally show ?case .
  qed
  define k where "k = (LEAST i. H - locator_offset i \<le> F)"
  have "H - locator_offset (K - 1) \<le> F" using K(1) by simp
  then have k: "H - locator_offset k \<le> F" "k \<le> K - 1" unfolding k_def by (rule LeastI, rule Least_le)
  have before: "F < H - locator_offset j" if "j < k" for j using not_less_Least [of j "\<lambda>i. H - locator_offset i \<le> F"] that unfolding k_def by simp
  let ?s = "chain_to m ! (H - locator_offset k)"
  have s: "?s \<in> set (chain_to t)" "bn_height ?s = int (H - locator_offset k)" using entry [of "H - locator_offset k"] k(1) by simp_all
  have "?s = f \<or> F - (H - locator_offset k) < H - F"
  proof (cases k)
    case 0
    then have "H = F" using k(1) F(2) by (simp add: locator_offset_def)
    then show ?thesis using 0 fh(3) by (simp add: locator_offset_def F_def)
  next
    case (Suc j)
    then have "F < H - locator_offset j" using before by simp
    moreover have "locator_offset k = locator_offset j + locator_step j" using Suc by (simp add: locator_offset_Suc)
    ultimately show ?thesis using locator_step_bounds(2) [of j] k(1) by linarith
  qed
  then have "?s = f \<or> bn_height ?s \<le> bn_height f \<and> bn_height f - bn_height ?s < bn_height m - bn_height f"
    using s(2) k(1) F h(3) by linarith
  moreover have "first_known (view_of t) bi L = Some ?s" using found [of 0 k] before k K(2) unfolding L by simp
  moreover have "L \<noteq> []" using K(2) unfolding L by simp
  ultimately show ?thesis using s(1) by blast
qed

subsection \<open>Ranges of hashes\<close>

lemma height_hashes_view:
  assumes "built dh t" "bn_height t < 2 ^ 31 - 1"
  shows "0 \<le> a \<Longrightarrow> b \<le> bn_height t \<Longrightarrow> height_hashes (view_of t) [a..b] = Inr (map bn_hash (take (nat (b + 1 - a)) (drop (nat a) (chain_to t))))"
proof (induction "nat (b + 1 - a)" arbitrary: a)
  case 0
  then show ?case by simp
next
  case (Suc k)
  have a: "nat a < length (chain_to t)" using Suc.hyps(2) Suc.prems length_chain_to [OF assms(1)] by linarith
  have "nat (b + 1 - a) = Suc (nat (b + 1 - (a + 1)))" "nat (a + 1) = Suc (nat a)" using Suc.hyps(2) Suc.prems by auto
  moreover have "[a..b] = a # [a + 1..b]" using Suc.hyps(2) by (intro upto_rec1) simp
  moreover have "height_hashes (view_of t) [a + 1..b] = Inr (map bn_hash (take (nat (b + 1 - (a + 1))) (drop (nat (a + 1)) (chain_to t))))"
    using Suc.hyps(2) Suc.prems by (intro Suc.hyps(1)) auto
  moreover have "a \<le> bn_height t" using Suc.hyps(2) Suc.prems by linarith
  ultimately show ?case using nodeByHeight_view [OF assms] Suc.prems a by (simp add: hash_of_def Cons_nth_drop_Suc [symmetric])
qed

lemma HeightRange_view:
  assumes "built dh t" "bn_height t < 2 ^ 31 - 1" "0 \<le> a" "a \<le> b"
  shows "HeightRange (view_of t) a b = Inr (map bn_hash (take (nat (b - a)) (drop (nat a) (chain_to t))))"
proof -
  have h: "int32_of (bn_height t + 1) = bn_height t + 1" "int (length (chain_to t)) = bn_height t + 1"
    using assms built_height [OF assms(1)] length_chain_to by (simp_all add: int32_of_id)
  show ?thesis
  proof (cases "a = b \<or> a > bn_height t")
    case True
    then have "take (nat (b - a)) (drop (nat a) (chain_to t)) = []" using h(2) by auto
    then show ?thesis using True assms by (auto simp: HeightRange_def view_tip_view)
  next
    case False
    let ?b = "if b > bn_height t + 1 then bn_height t + 1 else b"
    have "take (nat (?b - a)) (drop (nat a) (chain_to t)) = take (nat (b - a)) (drop (nat a) (chain_to t))"
      using h(2) assms(3) False by (auto intro!: take_all simp: take_all_iff)
    then show ?thesis
      using False assms h height_hashes_view [OF assms(1,2,3), of "?b - 1"] by (auto simp: HeightRange_def view_tip_view Let_def)
  qed
qed

lemma parent_hashes_chain:
  assumes "built dh n"
  shows "k \<le> length (chain_to n) \<Longrightarrow> parent_hashes k (Some n) hs = Inr (map bn_hash (drop (length (chain_to n) - k) (chain_to n)) @ hs)"
  using assms
proof (induction k arbitrary: n hs)
  case (Suc k)
  show ?case
  proof (cases "bn_parent n")
    case None
    then show ?thesis using Suc.prems by (cases k) auto
  next
    case (Some p)
    then show ?thesis using Suc.IH [of p "bn_hash n # hs"] Suc.prems built_parent(2) [OF Suc.prems(2) Some] by (simp add: Suc_diff_le)
  qed
qed simp

lemma HeightToHashRange_value:
  assumes "LookupNode bi h = Some n" "built dh n" "bn_height n < 2 ^ 31 - 1" "KnownValid (bn_status n)" "0 \<le> a" "a \<le> bn_height n"
    "bn_height n - a < k"
  shows "HeightToHashRange bi a h k = Inr (map bn_hash (drop (nat a) (chain_to n)))"
proof -
  have h: "int32_of (bn_height n - a) = bn_height n - a" "int32_of (bn_height n - a + 1) = bn_height n - a + 1"
    using assms by (auto intro!: int32_of_id)
  have "length (chain_to n) - nat (bn_height n - a + 1) = nat a" "nat (bn_height n - a + 1) \<le> length (chain_to n)"
    using assms length_chain_to [OF assms(2)] by linarith+
  then show ?thesis using assms h parent_hashes_chain [OF assms(2), of "nat (bn_height n - a + 1)" "[]"] by (simp add: HeightToHashRange_def Let_def)
qed

subsection \<open>Choosing the tip\<close>

definition ShouldChangeTip :: "int \<Rightarrow> int \<Rightarrow> int \<Rightarrow> int \<Rightarrow> bool" where
  "ShouldChangeTip currentWork proposedWork currentTipBlockWork proposedTipBlockWork =
     (if currentWork \<ge> proposedWork then False
      else
        let diff = proposedWork - currentWork;
            minBlockWork = (if proposedTipBlockWork < currentTipBlockWork then proposedTipBlockWork else currentTipBlockWork)
        in diff \<ge> drop_bit 2 minBlockWork)"

text \<open>The status bits of the nodes, which the code updates in place.\<close>

type_synonym statuses = "blockNode \<Rightarrow> byte"

definition statusInvalidAncestor :: byte where "statusInvalidAncestor = 0x08"

definition SetStatusFlags :: "statuses \<Rightarrow> blockNode \<Rightarrow> byte \<Rightarrow> statuses" where
  "SetStatusFlags status node flags = status(node := status node OR flags)"

function attach_loop :: "statuses \<Rightarrow> blockNode option \<Rightarrow> blockNode option \<Rightarrow> blockNode list \<Rightarrow> bool \<times> blockNode list" where
  "attach_loop status forkNode n attachNodes =
     (case n of
        None \<Rightarrow> (False, attachNodes)
      | Some node \<Rightarrow>
          if n = forkNode then (False, attachNodes)
          else if KnownInvalid (status node) then (True, attachNodes)
          else attach_loop status forkNode (bn_parent node) (node # attachNodes))"
  by pat_completeness auto

termination
  by (relation "measure (\<lambda>(status, forkNode, n, attachNodes). parent_size n)") (simp_all add: parent_smaller)

declare attach_loop.simps [simp del]

function detach_loop :: "blockNode option \<Rightarrow> blockNode option \<Rightarrow> blockNode list" where
  "detach_loop forkNode n =
     (case n of
        None \<Rightarrow> []
      | Some node \<Rightarrow> if n = forkNode then [] else node # detach_loop forkNode (bn_parent node))"
  by pat_completeness auto

termination
  by (relation "measure (\<lambda>(forkNode, n). parent_size n)") (simp_all add: parent_smaller)

declare detach_loop.simps [simp del]

definition getReorganizeNodes ::
  "chainView \<Rightarrow> statuses \<Rightarrow> blockNode \<Rightarrow> go_error + (statuses \<times> blockNode list \<times> blockNode list)" where
  "getReorganizeNodes bestChain status node =
     (case bn_parent node of
        None \<Rightarrow> Inl goPanic
      | Some parent \<Rightarrow>
          if KnownInvalid (status parent) then Inr (SetStatusFlags status node statusInvalidAncestor, [], [])
          else
            let forkNode = findFork bestChain (Some node);
                (invalidChain, attachNodes) = attach_loop status forkNode (Some node) []
            in if invalidChain
               then Inr (fold (\<lambda>n status. SetStatusFlags status n statusInvalidAncestor) attachNodes status, [], [])
               else Inr (status, detach_loop forkNode (view_tip bestChain), attachNodes))"

lemma chain_below:
  assumes "built dh n" "f \<in> set (chain_to n)"
  obtains b where "chain_to n = chain_to f @ b"
  using chain_to_member(3) [OF assms] by (auto elim: prefixE)

lemma detach_loop_chain: "built dh n \<Longrightarrow> chain_to n = chain_to f @ b \<Longrightarrow> detach_loop (Some f) (Some n) = rev b"
proof (induction b arbitrary: n rule: rev_induct)
  case Nil
  then have "n = f" by (metis append_Nil2 last_chain_to(2))
  then show ?case by (simp add: detach_loop.simps)
next
  case (snoc x b)
  have x: "x = n" using snoc.prems(2) last_chain_to(2) [of n] by (metis last_appendR last_snoc not_Cons_self2 append_is_Nil_conv)
  then obtain p where p: "bn_parent n = Some p" using snoc.prems(2) by (cases "bn_parent n") auto
  then have "chain_to p = chain_to f @ b" using snoc.prems(2) x by simp
  moreover have "n \<noteq> f" using snoc.prems(2) by (metis append_self_conv snoc_eq_iff_butlast)
  ultimately show ?case using snoc.IH [of p] built_parent(2) [OF snoc.prems(1) p] p x by (simp add: detach_loop.simps [of _ "Some n"])
qed

text \<open>The nodes above the highest invalid one of the branch, from the top.\<close>

definition above_invalid :: "statuses \<Rightarrow> blockNode list \<Rightarrow> blockNode list" where
  "above_invalid status branch = takeWhile (\<lambda>n. \<not> KnownInvalid (status n)) (rev branch)"

lemma attach_loop_chain:
  "built dh n \<Longrightarrow> chain_to n = chain_to f @ b \<Longrightarrow>
     attach_loop status (Some f) (Some n) acc = (\<exists>x \<in> set b. KnownInvalid (status x), rev (above_invalid status b) @ acc)"
proof (induction b arbitrary: n acc rule: rev_induct)
  case Nil
  then have "n = f" by (metis append_Nil2 last_chain_to(2))
  then show ?case by (simp add: attach_loop.simps above_invalid_def)
next
  case (snoc x b)
  have x: "x = n" using snoc.prems(2) last_chain_to(2) [of n] by (metis last_appendR last_snoc not_Cons_self2 append_is_Nil_conv)
  then obtain p where p: "bn_parent n = Some p" using snoc.prems(2) by (cases "bn_parent n") auto
  then have "chain_to p = chain_to f @ b" using snoc.prems(2) x by simp
  moreover have "n \<noteq> f" using snoc.prems(2) by (metis append_self_conv snoc_eq_iff_butlast)
  ultimately show ?case
    using snoc.IH [of p "n # acc"] built_parent(2) [OF snoc.prems(1) p] p x
    by (auto simp: attach_loop.simps [of _ _ "Some n"] above_invalid_def)
qed

lemma above_invalid_none: "\<not> (\<exists>x \<in> set b. KnownInvalid (status x)) \<Longrightarrow> above_invalid status b = rev b"
  by (simp add: above_invalid_def takeWhile_eq_all_conv)

lemma mark_all:
  "fold (\<lambda>n status. SetStatusFlags status n statusInvalidAncestor) ns status =
     (\<lambda>x. if x \<in> set ns then status x OR statusInvalidAncestor else status x)"
proof (induction ns arbitrary: status)
  case (Cons n ns)
  have "(w OR statusInvalidAncestor) OR statusInvalidAncestor = w OR statusInvalidAncestor" for w :: byte
    by (simp add: or.assoc)
  then show ?case unfolding fold_Cons comp_apply Cons.IH by (auto simp: SetStatusFlags_def)
qed simp

lemma reorganize_value:
  assumes t: "built dh t" "bn_height t < 2 ^ 31 - 1" and n: "built dh n" "bn_parent n = Some p" "\<not> KnownInvalid (status p)"
    and f: "fork_of t n = Some f"
  obtains d a where "chain_to t = chain_to f @ d" "chain_to n = chain_to f @ a"
    "getReorganizeNodes (view_of t) status n =
       Inr (if \<exists>x \<in> set a. KnownInvalid (status x)
            then ((\<lambda>x. if x \<in> set (above_invalid status a) then status x OR statusInvalidAncestor else status x), [], [])
            else (status, rev d, a))"
proof -
  have "f \<in> set (chain_to t)" "f \<in> set (chain_to n)" using fork_of_chains(1) [OF t(1) n(1)] f by blast+
  then obtain d a where da: "chain_to t = chain_to f @ d" "chain_to n = chain_to f @ a" using chain_below t(1) n(1) by metis
  moreover have "getReorganizeNodes (view_of t) status n =
       Inr (if \<exists>x \<in> set a. KnownInvalid (status x)
            then ((\<lambda>x. if x \<in> set (above_invalid status a) then status x OR statusInvalidAncestor else status x), [], [])
            else (status, rev d, a))"
    using n f findFork_view [OF t n(1)] detach_loop_chain [OF t(1) da(1)] attach_loop_chain [OF n(1) da(2), of status "[]"]
      above_invalid_none [of a status] mark_all [of "rev (above_invalid status a)" status] view_tip_view [of t]
    by (auto simp: getReorganizeNodes_def)
  ultimately show thesis by (rule that)
qed

lemma interval_hashes_chain:
  assumes "view_ok dh c" "built dh n" "0 < interval"
  shows "j < length (chain_to n) \<Longrightarrow> int k * interval \<le> int j \<Longrightarrow>
    interval_hashes c interval k (Some (chain_to n ! j)) hs =
      Inr (map (\<lambda>i. bn_hash (chain_to n ! nat (int i * interval))) [1..<Suc k] @ hs)"
proof (induction k arbitrary: j hs)
  case (Suc k)
  let ?h = "int (Suc k) * interval"
  have j: "int j < 2 ^ 31" using Suc.prems(1) length_chain_to [OF assms(2)] built_height [OF assms(2)] by linarith
  have h0: "0 \<le> ?h" using assms(3) by simp
  then have h: "int32_of ?h = ?h" "0 \<le> ?h" using j Suc.prems(2) by (auto intro!: int32_of_id simp del: of_nat_Suc)
  note nj = chain_to_nth [OF assms(2) Suc.prems(1)]
  have le: "nat ?h \<le> j" using Suc.prems(2) h(2) by linarith
  then have at: "chain_to (chain_to n ! j) ! nat ?h = chain_to n ! nat ?h" using nj by simp
  have pick: "(if view_contains c (chain_to n ! j) then nodeByHeight c ?h else Ancestor (chain_to n ! j) ?h) = Some (chain_to n ! nat ?h)"
  proof (cases "view_contains c (chain_to n ! j)")
    case True
    then obtain t where t: "built dh t" "bn_height t < 2 ^ 31 - 1" "c = view_of t" using assms(1) by (auto simp: view_ok_def)
    then have m: "chain_to n ! j \<in> set (chain_to t)" using True view_contains_view_of by simp
    have "chain_to (chain_to n ! j) = take (Suc j) (chain_to t)" using chain_to_member(2) [OF t(1) m] nj by simp
    then have "chain_to t ! nat ?h = chain_to n ! nat ?h" using at le by simp
    moreover have "?h \<le> bn_height t" using in_chain_to [OF t(1)] m nj Suc.prems(2) by fastforce
    ultimately show ?thesis using True nodeByHeight_view [OF t(1,2)] h(2) t(3) by simp
  next
    case False
    then show ?thesis using Ancestor_chain [of dh "chain_to n ! j"] nj at h(2) Suc.prems(2) by simp
  qed
  have "interval_hashes c interval (Suc k) (Some (chain_to n ! j)) hs =
      interval_hashes c interval k (Some (chain_to n ! nat ?h)) (bn_hash (chain_to n ! nat ?h) # hs)"
    by (simp only: interval_hashes.simps Let_def h(1) pick hash_of_def option.case sbind_simps)
  moreover have "int k * interval \<le> int (nat ?h)" "nat ?h < length (chain_to n)"
    using h(2) assms(3) le Suc.prems(1) by (simp_all add: algebra_simps)
  ultimately show ?case using Suc.IH [of "nat ?h"] by simp
qed simp

lemma IntervalBlockHashes_value:
  assumes "view_ok dh c" "LookupNode bi h = Some n" "built dh n" "KnownValid (bn_status n)" "0 < interval"
  shows "IntervalBlockHashes c bi h interval =
    Inr (map (\<lambda>i. bn_hash (chain_to n ! nat (int i * interval))) [1..<Suc (nat (bn_height n div interval))])"
proof -
  have hn: "0 \<le> bn_height n" using built_height [OF assms(3)] by simp
  then have d: "bn_height n sdiv interval = bn_height n div interval" "0 \<le> bn_height n div interval"
    using assms(5) by (simp_all add: signed_divide_int_def pos_imp_zdiv_nonneg_iff sgn_if)
  have len: "length (chain_to n) = Suc (nat (bn_height n))" using length_chain_to [OF assms(3)] hn by linarith
  have n: "chain_to n ! nat (bn_height n) = n" using last_conv_nth [of "chain_to n"] len by simp
  have "bn_height n div interval * interval \<le> bn_height n"
    using div_mult_mod_eq [of "bn_height n" interval] pos_mod_sign [OF assms(5), of "bn_height n"] by linarith
  then have "int (nat (bn_height n div interval)) * interval \<le> int (nat (bn_height n))" using hn d(2) by simp
  from interval_hashes_chain [OF assms(1,3,5) _ this, of "[]"] len n show ?thesis
    using assms d by (simp add: IntervalBlockHashes_def Let_def)
qed

lemma tip_margin_is_quarter: "ShouldChangeTip 100 125 100 100" "\<not> ShouldChangeTip 100 124 100 100"
  by (simp_all add: ShouldChangeTip_def drop_bit_eq_div)

subsection \<open>A tree with a fork\<close>

fun fork_node :: "nat \<Rightarrow> blockNode" where
  "fork_node 0 = newBlockNode (\<lambda>b. b) genesis_header None 0x02 0"
| "fork_node (Suc k) = newBlockNode (\<lambda>b. b) (genesis_header\<lparr>bh_Timestamp := int (Suc k)\<rparr>)
     (Some (if k = 2 then fork_node 1 else fork_node k)) 0x02 0"

declare fork_node.simps [simp del]

definition fork_parent :: "nat \<Rightarrow> nat" where
  "fork_parent k = (if k = 2 then 1 else k)"

definition fork_tree :: "blockNode set" where
  "fork_tree = fork_node ` {..<5}"

definition fork_index :: blockIndex where
  "fork_index = map_of (map (\<lambda>k. (bn_hash (fork_node k), fork_node k)) [0..<5])"

lemma fork_node_built: "k < 5 \<Longrightarrow> built (\<lambda>b. b) (fork_node k) \<and> bn_height (fork_node k) \<le> int k"
proof (induction k rule: less_induct)
  case (less k)
  show ?case
  proof (cases k)
    case (Suc j)
    let ?p = "fork_parent j"
    have "?p < k" "?p < 5" "?p \<le> j" using Suc less.prems by (auto simp: fork_parent_def)
    then have "built (\<lambda>b. b) (fork_node ?p) \<and> bn_height (fork_node ?p) \<le> int j" using less.IH [of ?p] by simp
    moreover from this have "0 \<le> bn_height (fork_node ?p)" using built_height by blast
    ultimately show ?thesis using Suc less.prems by (auto simp: fork_node.simps fork_parent_def int32_of_id intro!: built_child split: if_splits)
  qed (simp add: fork_node.simps built_genesis)
qed

lemma fork_node_hash: "bn_hash (fork_node k) = writeBlockHeaderBuf (genesis_header\<lparr>bh_Timestamp := int k\<rparr>)"
  by (cases k) (simp_all add: fork_node.simps BlockHash_def genesis_header_def)

lemma fork_node_parent: "bn_parent (fork_node k) = (case k of 0 \<Rightarrow> None | Suc j \<Rightarrow> Some (fork_node (fork_parent j)))"
  by (cases k) (simp_all add: fork_node.simps fork_parent_def)

lemma fork_hash_inj: "i < 5 \<Longrightarrow> j < 5 \<Longrightarrow> bn_hash (fork_node i) = bn_hash (fork_node j) \<Longrightarrow> i = j"
proof -
  assume ij: "i < 5" "j < 5" and eq: "bn_hash (fork_node i) = bn_hash (fork_node j)"
  then have "le_bytes 4 (int i) = le_bytes 4 (int j)" by (simp add: fork_node_hash writeBlockHeaderBuf_def genesis_header_def)
  then have "le_val (le_bytes 4 (int i)) = le_val (le_bytes 4 (int j))" by simp
  then show "i = j" using ij by (simp add: le_val_le_bytes)
qed

lemma fork_tree_ok: "block_tree (\<lambda>b. b) fork_tree" "index_ok fork_index fork_tree"
proof -
  have "inj_on bn_hash fork_tree" using fork_hash_inj unfolding fork_tree_def inj_on_def by fastforce
  moreover have "built (\<lambda>b. b) (fork_node k) \<and> (\<forall>p. bn_parent (fork_node k) = Some p \<longrightarrow> p \<in> fork_tree)" if "k < 5" for k
    using fork_node_built [OF that] that by (auto simp: fork_node_parent fork_tree_def fork_parent_def split: nat.splits)
  ultimately show "block_tree (\<lambda>b. b) fork_tree" unfolding block_tree_def fork_tree_def by blast
  have "distinct (map fst (map (\<lambda>k. (bn_hash (fork_node k), fork_node k)) [0..<5]))"
    using fork_hash_inj by (auto simp: distinct_map inj_on_def comp_def)
  then show "index_ok fork_index fork_tree" unfolding index_ok_def LookupNode_def fork_index_def fork_tree_def
    by (auto simp: map_of_eq_Some_iff)
qed

lemma fork_chains:
  "chain_to (fork_node 2) = map fork_node [0, 1, 2]" "chain_to (fork_node 4) = map fork_node [0, 1, 3, 4]"
proof -
  have 0: "chain_to (fork_node 0) = [fork_node 0]" by (rule chain_to_root) (simp add: fork_node_parent)
  have s: "chain_to (fork_node (Suc j)) = chain_to (fork_node (fork_parent j)) @ [fork_node (Suc j)]" for j
    by (rule chain_to_child) (simp add: fork_node_parent)
  show "chain_to (fork_node 2) = map fork_node [0, 1, 2]" "chain_to (fork_node 4) = map fork_node [0, 1, 3, 4]"
    using s [of 0] s [of 1] s [of 2] s [of 3] 0 by (simp_all add: fork_parent_def numeral_2_eq_2 numeral_3_eq_3 numeral_eq_Suc)
qed

lemma fork_node_inj: "i < 5 \<Longrightarrow> j < 5 \<Longrightarrow> fork_node i = fork_node j \<longleftrightarrow> i = j"
  using fork_hash_inj by metis

lemma fork_point: "fork_of (fork_node 2) (fork_node 4) = Some (fork_node 1)"
  by (simp add: fork_of_def fork_chains fork_node_inj)

lemma fork_small: "bn_height (fork_node 2) < 2 ^ 31 - 1" "bn_height (fork_node 4) < 2 ^ 31 - 1" "built (\<lambda>b. b) (fork_node 2)" "built (\<lambda>b. b) (fork_node 4)"
  using fork_node_built [of 2] fork_node_built [of 4] by auto

subsection \<open>Properties\<close>

text \<open>
  C13. The view of the best chain: whatever chain a well-formed view showed before, setting its tip gives exactly the
  chain of the new tip. It contains a node iff the node lies on that chain, its node of a height is the node
  of the chain, and \<open>findFork\<close> of a node of any branch is the highest node that both
  chains have, and nil when they have none.\<close>

theorem chain_view_spec:
  assumes "view_ok dh c" "built dh t" "bn_height t < 2 ^ 31 - 1" "built dh n"
  shows "\<exists>v. setTip c (Some t) = Inr v \<and> view_ok dh v \<and> view_tip v = Some t \<and>
    (\<forall>m. view_contains v m \<longleftrightarrow> m \<in> set (chain_to t)) \<and>
    (\<forall>h. nodeByHeight v h = (if 0 \<le> h \<and> h \<le> bn_height t then Some (chain_to t ! nat h) else None)) \<and>
    (\<forall>f. findFork v (Some n) = Some f \<longleftrightarrow> f \<in> set (chain_to t) \<and> f \<in> set (chain_to n) \<and>
      (\<forall>g. g \<in> set (chain_to t) \<and> g \<in> set (chain_to n) \<longrightarrow> bn_height g \<le> bn_height f))"
proof (intro exI [of _ "view_of t"] conjI allI)
  show "setTip c (Some t) = Inr (view_of t)" by (rule setTip_view [OF assms(1-3)])
  show "view_ok dh (view_of t)" using assms(2,3) by (auto simp: view_ok_def)
qed (simp_all add: view_tip_view view_contains_view_of [OF assms(2,3)] nodeByHeight_view [OF assms(2,3)]
    findFork_view [OF assms(2-4)] fork_of_chains(1) [OF assms(2,4)])

theorem chain_view_spec_witness:
  "\<exists>v. setTip (view_of (fork_node 4)) (Some (fork_node 2)) = Inr v \<and> findFork v (Some (fork_node 4)) = Some (fork_node 1)"
proof -
  have ok: "view_ok (\<lambda>b. b) (view_of (fork_node 4))" using fork_small by (auto simp: view_ok_def)
  have "fork_node 1 \<in> set (chain_to (fork_node 2)) \<and> fork_node 1 \<in> set (chain_to (fork_node 4)) \<and>
      (\<forall>g. g \<in> set (chain_to (fork_node 2)) \<and> g \<in> set (chain_to (fork_node 4)) \<longrightarrow> bn_height g \<le> bn_height (fork_node 1))"
    using fork_of_chains(1) [OF fork_small(3,4)] fork_point by blast
  then show ?thesis using chain_view_spec [OF ok fork_small(3,1,4)] by blast
qed

text \<open>
  A block locator starts at the node, holds its ancestors one by one for twelve entries and then at distances that
  double, and ends at the genesis node; its length is exactly the number of entries that the code computes in advance.\<close>

lemma block_locator_spec:
  assumes "view_ok dh c" "built dh n"
  shows "\<exists>L. blockLocator c (Some n) = Some (Inr L) \<and> length L = unat (locator_max_entries n) \<and> 0 < length L \<and>
    (\<forall>i < length L. L ! i = bn_hash (chain_to n ! (nat (bn_height n) - locator_offset i))) \<and>
    (\<forall>i < length L - 1. locator_offset i < nat (bn_height n)) \<and> nat (bn_height n) \<le> locator_offset (length L - 1)"
proof -
  have "0 \<le> bn_height n" "bn_height n < 2 ^ 31" using built_height [OF assms(2)] by simp_all
  note K = locator_max_entries_value [OF this]
  show ?thesis
    by (rule exI [of _ "locator_hashes n (unat (locator_max_entries n))"])
      (use blockLocator_value [OF assms] K in \<open>simp add: locator_hashes_def\<close>)
qed

lemma block_locator_spec_example:
  "\<exists>L. blockLocator [] (Some (sample_chain 1000)) = Some (Inr L) \<and> 0 < length L"
  using block_locator_spec [of "\<lambda>_. []" "[]" "sample_chain 1000"] sample_chain_built [of 1000] by (auto simp: view_ok_def)

text \<open>
  C29. Synchronization makes progress: a node whose best block is known to the peer sends its locator, and the peer answers
  with consecutive blocks of its own best chain, beginning at the fork point or below it by fewer blocks
  than the node itself is above it, up to the stop block or the tip, as many as the limit allows.\<close>

theorem sync_progress:
  assumes "block_tree dh N" "index_ok bi N" "n \<in> N" "built dh t" "bn_height t < 2 ^ 31 - 1" "fork_of t n = Some f" "view_ok dh c"
  shows "\<exists>L s. blockLocator c (Some n) = Some (Inr L) \<and> s \<in> set (chain_to t) \<and>
    (s = f \<or> bn_height s \<le> bn_height f \<and> bn_height f - bn_height s < bn_height n - bn_height f) \<and>
    locateBlocks (view_of t) bi L hashStop maxHashes =
      Inr (map bn_hash (take maxHashes (take (nat (inventory_end t bi hashStop (bn_height s + 1) - bn_height s))
        (drop (Suc (nat (bn_height s))) (chain_to t)))))"
proof -
  have L: "blockLocator c (Some n) = Some (Inr (locator_hashes n (unat (locator_max_entries n))))" (is "_ = Some (Inr ?L)")
    by (rule blockLocator_value [OF assms(7) tree_built [OF assms(1,3)]])
  obtain s where s: "s \<in> set (chain_to t)" "first_known (view_of t) bi ?L = Some s" "?L \<noteq> []"
      "s = f \<or> bn_height s \<le> bn_height f \<and> bn_height f - bn_height s < bn_height n - bn_height f"
    using locator_start [OF assms(4,5,1,2,3,6,7) L] by blast
  show ?thesis using L s locateBlocks_value [OF assms(4,5) s(2,1,3)] by blast
qed

theorem sync_progress_witness:
  "\<exists>L s. blockLocator [] (Some (fork_node 4)) = Some (Inr L) \<and> s \<in> set (chain_to (fork_node 2)) \<and>
    locateBlocks (view_of (fork_node 2)) fork_index L [] 500 =
      Inr (map bn_hash (take 500 (take (nat (inventory_end (fork_node 2) fork_index [] (bn_height s + 1) - bn_height s))
        (drop (Suc (nat (bn_height s))) (chain_to (fork_node 2))))))"
proof -
  have "fork_node 4 \<in> fork_tree" "view_ok (\<lambda>b. b) []" by (simp_all add: fork_tree_def view_ok_def)
  then show ?thesis using sync_progress [OF fork_tree_ok _ fork_small(3,1) fork_point, of "[]" "[]" 500] by blast
qed

text \<open>
  C12. The nodes of a reorganization: without an invalid block on the branch, taking off the detached nodes in their order and
  putting on the attached ones turns the best chain into the chain of the new tip, and they
  meet at the fork point. With an invalid block nothing is detached or attached, and exactly the nodes of the branch
  above the highest invalid one are marked.\<close>

theorem reorganization_spec:
  assumes "built dh t" "bn_height t < 2 ^ 31 - 1" "built dh n" "bn_parent n = Some p" "\<not> KnownInvalid (status p)" "fork_of t n = Some f"
  shows "\<exists>detached attached. chain_to t = chain_to f @ rev detached \<and> chain_to n = chain_to f @ attached \<and>
    set detached \<inter> set (chain_to n) = {} \<and>
    getReorganizeNodes (view_of t) status n =
      Inr (if \<exists>x \<in> set attached. KnownInvalid (status x)
           then ((\<lambda>x. if x \<in> set (above_invalid status attached) then status x OR statusInvalidAncestor else status x), [], [])
           else (status, detached, attached))"
proof -
  obtain d a where da: "chain_to t = chain_to f @ d" "chain_to n = chain_to f @ a"
    "getReorganizeNodes (view_of t) status n =
       Inr (if \<exists>x \<in> set a. KnownInvalid (status x)
            then ((\<lambda>x. if x \<in> set (above_invalid status a) then status x OR statusInvalidAncestor else status x), [], [])
            else (status, rev d, a))"
    by (rule reorganize_value [of dh t n p status f, OF assms])
  have "x \<notin> set (chain_to n)" if "x \<in> set d" for x
  proof
    assume "x \<in> set (chain_to n)"
    then have "bn_height x \<le> bn_height f" using fork_of_chains(1) [OF assms(1,3)] assms(6) that da(1) by auto
    moreover from that obtain i where "i < length d" "x = d ! i" by (auto simp: in_set_conv_nth)
    then have i: "i < length d" "x = chain_to t ! (length (chain_to f) + i)" using da(1) by simp_all
    moreover have "built dh f" using fork_of_chains(1) [OF assms(1,3)] assms(6) chain_to_member(1) [OF assms(1)] by blast
    ultimately show False using chain_to_nth [OF assms(1), of "length (chain_to f) + i"] length_chain_to [of dh f] da(1) by simp
  qed
  then show ?thesis using da by (intro exI [of _ "rev d"] exI [of _ a]) auto
qed

theorem reorganization_spec_witness:
  "\<exists>detached attached. chain_to (fork_node 4) = chain_to (fork_node 1) @ attached \<and>
    chain_to (fork_node 2) = chain_to (fork_node 1) @ rev detached \<and>
    getReorganizeNodes (view_of (fork_node 2)) (\<lambda>_. 2) (fork_node 4) = Inr (\<lambda>_. 2, detached, attached)"
proof -
  have "bn_parent (fork_node 4) = Some (fork_node 3)" by (simp add: fork_node_parent fork_parent_def numeral_eq_Suc)
  then show ?thesis
    using reorganization_spec [OF fork_small(3,1,4), of "fork_node 3" "\<lambda>_. 2", OF _ _ fork_point] by (auto simp: KnownInvalid_def)
qed

end
