(* ===== verification/Tx_Rules.thy ===== *)
theory Tx_Rules
  imports Merkle Difficulty Script_Standard
begin

text \<open>
  Context-free rules for transactions and the block subsidy (\<^verbatim>\<open>node/blockchain/validate.go\<close>,
  \<^verbatim>\<open>vsize.go\<close>): virtual sizes, amounts, duplicate inputs, finality, lock times by sequence number, the height in
  the coinbase script and the emission. The lemmas characterize the accepted transactions and sum up the
  emission.
\<close>

subsection \<open>Amounts and sizes\<close>

definition GrainPerPearl :: int where "GrainPerPearl = 10 ^ 8"
definition MaxGrain :: int where "MaxGrain = 21 * 10 ^ 9 * GrainPerPearl"
definition totalSupply :: int where "totalSupply = 2100000000 * GrainPerPearl"
definition defaultEmissionConstant :: int where "defaultEmissionConstant = 650226"
definition MinCoinbaseScriptLen :: nat where "MinCoinbaseScriptLen = 2"
definition MaxCoinbaseScriptLen :: nat where "MaxCoinbaseScriptLen = 100"
definition MaxBlockVsize :: int where "MaxBlockVsize = 1000000"
definition WitnessScaleFactor :: int where "WitnessScaleFactor = 4"

lemmas amounts = GrainPerPearl_def MaxGrain_def totalSupply_def

definition CalcVsize :: "int \<Rightarrow> int \<Rightarrow> int" where
  "CalcVsize base witness = base + (witness + WitnessScaleFactor - 1) sdiv WitnessScaleFactor"

definition GetTransactionVsize :: "MsgTx \<Rightarrow> int" where
  "GetTransactionVsize msgTx =
     (let base = int (SerializeSizeStripped msgTx);
          witness = int (SerializeSize msgTx) - base
      in CalcVsize base witness)"

definition isNullOutpoint :: "OutPoint \<Rightarrow> bool" where
  "isNullOutpoint outpoint \<longleftrightarrow> out_Index outpoint = 2 ^ 32 - 1 \<and> out_Hash outpoint = chainZeroHash"

subsection \<open>Finality and lock times\<close>

record SequenceLock =
  sl_Seconds :: int
  sl_BlockHeight :: int

definition SequenceLockActive :: "SequenceLock \<Rightarrow> int \<Rightarrow> int \<Rightarrow> bool" where
  "SequenceLockActive sequenceLock blockHeight medianTimePast \<longleftrightarrow>
     \<not> (sl_Seconds sequenceLock \<ge> medianTimePast \<or> sl_BlockHeight sequenceLock \<ge> blockHeight)"

definition IsFinalizedTransaction :: "MsgTx \<Rightarrow> int \<Rightarrow> int \<Rightarrow> bool" where
  "IsFinalizedTransaction msgTx blockHeight blockTime =
     (let lockTime = int (tx_LockTime msgTx)
      in if lockTime = 0 then True
         else
           let blockTimeOrHeight = (if lockTime < LockTimeThreshold then blockHeight else blockTime)
           in if lockTime < blockTimeOrHeight then True
              else list_all (\<lambda>txIn. ti_Sequence txIn = 2 ^ 32 - 1) (tx_TxIn msgTx))"

definition LockTimeToSequence :: "bool \<Rightarrow> nat \<Rightarrow> nat" where
  "LockTimeToSequence isSeconds locktime =
     (if \<not> isSeconds then locktime
      else SequenceLockTimeIsSeconds OR drop_bit SequenceLockTimeGranularity locktime)"

subsection \<open>Emission\<close>

definition emission_constant :: "chainParams option \<Rightarrow> go_error + int" where
  "emission_constant P =
     (case P of
        Some P \<Rightarrow>
          if p_TargetTimePerBlock P > 0 then
            let targetTimePerBlockSeconds = seconds (p_TargetTimePerBlock P)
            in if targetTimePerBlockSeconds = 0 then Inl goPanic
               else Inr ((4 * 365 * 24 * 60 * 60) sdiv targetTimePerBlockSeconds)
          else Inr defaultEmissionConstant
      | None \<Rightarrow> Inr defaultEmissionConstant)"

definition CalcBlockSubsidy :: "int \<Rightarrow> chainParams option \<Rightarrow> go_error + int" where
  "CalcBlockSubsidy height P =
     (if height = 0 then Inr 0
      else
        sbind (emission_constant P) (\<lambda>emissionConstant.
          let h = height;
              numerator = totalSupply * emissionConstant;
              denominator = int64_of (h + emissionConstant) * int64_of (h - 1 + emissionConstant)
          in sbind (big_div numerator denominator) (\<lambda>subsidy. Inr (int64_of subsidy))))"

subsection \<open>Sanity of a transaction\<close>

fun check_outputs :: "TxOut list \<Rightarrow> int \<Rightarrow> rule_error + int" where
  "check_outputs [] totalGrain = Inr totalGrain"
| "check_outputs (txOut # outs) totalGrain =
     (let scriptClass = GetScriptClass (to_PkScript txOut)
      in if scriptClass \<noteq> WitnessV1TaprootTy \<and> scriptClass \<noteq> WitnessV2MerkleRootTy \<and> scriptClass \<noteq> NullDataTy
         then Inl (ruleError ErrScriptMalformed)
         else
           let grain = to_Value txOut
           in if grain < 0 then Inl (ruleError ErrBadTxOutValue)
              else if grain > MaxGrain then Inl (ruleError ErrBadTxOutValue)
              else
                let totalGrain = int64_of (totalGrain + grain)
                in if totalGrain < 0 then Inl (ruleError ErrBadTxOutValue)
                   else if totalGrain > MaxGrain then Inl (ruleError ErrBadTxOutValue)
                   else check_outputs outs totalGrain)"

fun check_duplicates :: "TxIn list \<Rightarrow> OutPoint set \<Rightarrow> rule_error + unit" where
  "check_duplicates [] existingTxOut = Inr ()"
| "check_duplicates (txIn # ins) existingTxOut =
     (if ti_PreviousOutPoint txIn \<in> existingTxOut then Inl (ruleError ErrDuplicateTxInputs)
      else check_duplicates ins (insert (ti_PreviousOutPoint txIn) existingTxOut))"

definition CheckTransactionSanity :: "MsgTx \<Rightarrow> rule_error + unit" where
  "CheckTransactionSanity msgTx =
     (if length (tx_TxIn msgTx) = 0 then Inl (ruleError ErrNoTxInputs)
      else if length (tx_TxOut msgTx) = 0 then Inl (ruleError ErrNoTxOutputs)
      else if GetTransactionVsize msgTx > MaxBlockVsize then Inl (ruleError ErrTxTooBig)
      else
        sbind (check_outputs (tx_TxOut msgTx) 0) (\<lambda>_.
        sbind (check_duplicates (tx_TxIn msgTx) {}) (\<lambda>_.
          if IsCoinBaseTx msgTx then
            let slen = length (ti_SignatureScript (tx_TxIn msgTx ! 0))
            in if slen < MinCoinbaseScriptLen \<or> slen > MaxCoinbaseScriptLen then Inl (ruleError ErrBadCoinbaseScriptLen)
               else Inr ()
          else if list_ex (\<lambda>txIn. isNullOutpoint (ti_PreviousOutPoint txIn)) (tx_TxIn msgTx) then Inl (ruleError ErrBadTxInput)
          else Inr ())))"

subsection \<open>The height in the coinbase\<close>

definition compareScript :: "int \<Rightarrow> bytes \<Rightarrow> rule_error + unit" where
  "compareScript height script =
     (case AddInt64 height NewScriptBuilder of
        Inl _ \<Rightarrow> Inl rulePanic
      | Inr b \<Rightarrow>
          (case sb_Script b of
             (scriptHeight, Some _) \<Rightarrow> Inl otherRuleError
           | (scriptHeight, None) \<Rightarrow>
               if take (length scriptHeight) script \<noteq> scriptHeight then Inl (ruleError ErrBadCoinbaseHeight) else Inr ()))"

definition ExtractCoinbaseHeight :: "MsgTx \<Rightarrow> rule_error + int" where
  "ExtractCoinbaseHeight coinbaseTx =
     (case tx_TxIn coinbaseTx of
        [] \<Rightarrow> Inl rulePanic
      | txIn # _ \<Rightarrow>
          (case ti_SignatureScript txIn of
             [] \<Rightarrow> Inl (ruleError ErrMissingCoinbaseHeight)
           | opcode # rest \<Rightarrow>
               if opcode = OP_0 then Inr 0
               else if OP_1 \<le> opcode \<and> opcode \<le> OP_16 then Inr (uint opcode - (uint OP_1 - 1))
               else
                 let serializedLen = unat opcode
                 in if length rest < serializedLen then Inl (ruleError ErrMissingCoinbaseHeight)
                    else
                      let heightBytes = take 4 (take serializedLen rest);
                          serializedHeight = int32_of (le_val (heightBytes @ replicate (4 - length heightBytes) 0))
                      in sbind (compareScript serializedHeight (opcode # rest)) (\<lambda>_. Inr serializedHeight)))"

definition CheckSerializedHeight :: "MsgTx \<Rightarrow> int \<Rightarrow> rule_error + unit" where
  "CheckSerializedHeight coinbaseTx wantHeight =
     sbind (ExtractCoinbaseHeight coinbaseTx) (\<lambda>serializedHeight.
       if serializedHeight \<noteq> wantHeight then Inl (ruleError ErrBadCoinbaseHeight) else Inr ())"

subsection \<open>Accepted transactions\<close>

definition output_allowed :: "TxOut \<Rightarrow> bool" where
  "output_allowed txOut \<longleftrightarrow>
     GetScriptClass (to_PkScript txOut) \<in> {WitnessV1TaprootTy, WitnessV2MerkleRootTy, NullDataTy} \<and>
     0 \<le> to_Value txOut \<and> to_Value txOut \<le> MaxGrain"

definition total_value :: "TxOut list \<Rightarrow> int" where
  "total_value outs = sum_list (map to_Value outs)"

lemma total_value_simps [simp]: "total_value [] = 0" "total_value (txOut # outs) = to_Value txOut + total_value outs"
  by (simp_all add: total_value_def)

lemma total_value_nonneg: "list_all output_allowed outs \<Longrightarrow> 0 \<le> total_value outs"
  by (induction outs) (auto simp: output_allowed_def)

lemma check_outputs_iff:
  "0 \<le> totalGrain \<Longrightarrow> totalGrain \<le> MaxGrain \<Longrightarrow>
     check_outputs outs totalGrain = Inr t \<longleftrightarrow>
       list_all output_allowed outs \<and> totalGrain + total_value outs \<le> MaxGrain \<and> t = totalGrain + total_value outs"
proof (induction outs arbitrary: totalGrain)
  case (Cons txOut outs)
  show ?case
  proof (cases "output_allowed txOut")
    case True
    then have v: "0 \<le> to_Value txOut" "to_Value txOut \<le> MaxGrain" by (simp_all add: output_allowed_def)
    then have "int64_of (totalGrain + to_Value txOut) = totalGrain + to_Value txOut"
      using Cons.prems by (intro int64_of_id) (simp_all add: amounts)
    then have "check_outputs (txOut # outs) totalGrain =
        (if totalGrain + to_Value txOut > MaxGrain then Inl (ruleError ErrBadTxOutValue) else check_outputs outs (totalGrain + to_Value txOut))"
      using True v Cons.prems unfolding output_allowed_def by auto
    moreover have "0 \<le> total_value outs" if "list_all output_allowed outs" by (rule total_value_nonneg [OF that])
    ultimately show ?thesis
      using True v Cons.IH [of "totalGrain + to_Value txOut"] Cons.prems(1) by (auto simp: add.assoc)
  next
    case False
    then show ?thesis by (auto simp: output_allowed_def Let_def)
  qed
qed auto

lemma check_duplicates_iff:
  "check_duplicates ins seen = Inr () \<longleftrightarrow> distinct (map ti_PreviousOutPoint ins) \<and> set (map ti_PreviousOutPoint ins) \<inter> seen = {}"
  by (induction ins arbitrary: seen) auto

definition sane_tx :: "MsgTx \<Rightarrow> bool" where
  "sane_tx msgTx \<longleftrightarrow>
     tx_TxIn msgTx \<noteq> [] \<and> tx_TxOut msgTx \<noteq> [] \<and> GetTransactionVsize msgTx \<le> MaxBlockVsize \<and>
     list_all output_allowed (tx_TxOut msgTx) \<and> total_value (tx_TxOut msgTx) \<le> MaxGrain \<and>
     distinct (map ti_PreviousOutPoint (tx_TxIn msgTx)) \<and>
     (if IsCoinBaseTx msgTx
      then length (ti_SignatureScript (hd (tx_TxIn msgTx))) \<in> {MinCoinbaseScriptLen..MaxCoinbaseScriptLen}
      else list_all (\<lambda>txIn. \<not> isNullOutpoint (ti_PreviousOutPoint txIn)) (tx_TxIn msgTx))"

lemma CheckTransactionSanity_iff: "CheckTransactionSanity msgTx = Inr () \<longleftrightarrow> sane_tx msgTx"
proof -
  have "check_duplicates (tx_TxIn msgTx) {} = Inr () \<longleftrightarrow> distinct (map ti_PreviousOutPoint (tx_TxIn msgTx))"
    by (simp add: check_duplicates_iff)
  moreover have "(\<exists>t. check_outputs (tx_TxOut msgTx) 0 = Inr t) \<longleftrightarrow>
      list_all output_allowed (tx_TxOut msgTx) \<and> total_value (tx_TxOut msgTx) \<le> MaxGrain"
    by (simp add: check_outputs_iff amounts)
  moreover have "list_ex P xs \<longleftrightarrow> \<not> list_all (\<lambda>x. \<not> P x) xs" for P and xs :: "TxIn list" by (simp add: list_ex_iff list_all_iff)
  ultimately show ?thesis
    by (auto simp: CheckTransactionSanity_def sane_tx_def sbind_eq_Inr Let_def hd_conv_nth not_less)
qed

subsection \<open>The emission\<close>

lemma subsidy_value:
  assumes "emission_constant P = Inr E" "0 < E" "E < 2 ^ 62" "0 < h" "h < 2 ^ 31"
  shows "CalcBlockSubsidy h P = Inr (totalSupply * E div ((h + E) * (h - 1 + E)))"
proof -
  let ?d = "(h + E) * (h - 1 + E)"
  have i: "int64_of (h + E) = h + E" "int64_of (h - 1 + E) = h - 1 + E" using assms by (auto intro!: int64_of_id)
  have p: "0 < h + E" "E \<le> h - 1 + E" using assms by auto
  then have pos: "0 < ?d" "E \<le> ?d" using assms(2) mult_mono [of 1 "h + E" E "h - 1 + E"] by auto
  have "totalSupply * E div ?d \<le> totalSupply * E div E" using pos assms(2) by (intro zdiv_mono2) (simp_all add: amounts)
  then have "totalSupply * E div ?d \<le> totalSupply" using assms(2) by simp
  moreover have "0 \<le> totalSupply * E div ?d" using pos assms(2) by (simp add: pos_imp_zdiv_nonneg_iff amounts)
  ultimately have "int64_of (totalSupply * E div ?d) = totalSupply * E div ?d" by (intro int64_of_id) (simp_all add: amounts)
  then show ?thesis using assms i pos by (simp add: CalcBlockSubsidy_def big_div_def Let_def)
qed

lemma subsidy_bounds:
  fixes T E h :: int
  assumes "0 < E" "0 < h" "0 \<le> T"
  shows "real_of_int (T * E div ((h + E) * (h - 1 + E))) \<le> T * h / (h + E) - T * (h - 1) / (h - 1 + E)"
    and "T * h / (h + E) - T * (h - 1) / (h - 1 + E) \<le> real_of_int (T * E div ((h + E) * (h - 1 + E))) + 1"
proof -
  have nz: "real_of_int h + E \<noteq> 0" "real_of_int h - 1 + E \<noteq> 0" using assms by linarith+
  have "real_of_int (T * E) / real_of_int ((h + E) * (h - 1 + E)) = T * h / (h + E) - T * (h - 1) / (h - 1 + E)"
    using nz by (simp add: field_simps)
  then show "real_of_int (T * E div ((h + E) * (h - 1 + E))) \<le> T * h / (h + E) - T * (h - 1) / (h - 1 + E)"
    "T * h / (h + E) - T * (h - 1) / (h - 1 + E) \<le> real_of_int (T * E div ((h + E) * (h - 1 + E))) + 1"
    using real_of_int_div4 [of "T * E" "(h + E) * (h - 1 + E)"] real_of_int_div3 [of "T * E" "(h + E) * (h - 1 + E)"] by linarith+
qed

lemma emission_sum:
  fixes T E :: int
  assumes "0 < E" "0 \<le> T"
  shows "real_of_int (\<Sum>h = 1..int H. T * E div ((h + E) * (h - 1 + E))) \<le> T * int H / (int H + E)"
    and "T * int H / (int H + E) \<le> real_of_int (\<Sum>h = 1..int H. T * E div ((h + E) * (h - 1 + E))) + H"
proof (induction H)
  case (Suc H)
  have "{1..int (Suc H)} = insert (int (Suc H)) {1..int H}" by auto
  then have "(\<Sum>h = 1..int (Suc H). T * E div ((h + E) * (h - 1 + E))) =
      T * E div ((int (Suc H) + E) * (int (Suc H) - 1 + E)) + (\<Sum>h = 1..int H. T * E div ((h + E) * (h - 1 + E)))" by simp
  moreover note subsidy_bounds [OF assms(1) _ assms(2), of "int (Suc H)"]
  ultimately show "real_of_int (\<Sum>h = 1..int (Suc H). T * E div ((h + E) * (h - 1 + E))) \<le> T * int (Suc H) / (int (Suc H) + E)"
    "T * int (Suc H) / (int (Suc H) + E) \<le> real_of_int (\<Sum>h = 1..int (Suc H). T * E div ((h + E) * (h - 1 + E))) + Suc H"
    using Suc.IH by simp_all
qed simp_all

subsection \<open>Heights in coinbase scripts\<close>

lemma le_val_zeros: "le_val (v @ replicate k 0) = le_val v"
proof -
  have "le_val (replicate k 0) = 0" by (induction k) simp_all
  then show ?thesis by (simp add: le_val_append)
qed

lemma AddInt64_height:
  assumes "16 < h" "h < 2 ^ 31"
  obtains v where "AddInt64 h NewScriptBuilder = Inr \<lparr>sb_script = word_of_nat (length v) # v, sb_err = None\<rparr>"
    "0 < length v" "length v \<le> 4" "le_val v = h"
proof -
  obtain v where v: "scriptNum_Bytes h = Inr v" "sm_val v = h" "checkMinimalDataEncoding v = Inr ()"
    using scriptNum_Bytes_sm_val [of h] assms by auto
  have ne: "v \<noteq> []" using v(2) assms(1) by (auto simp: sm_val_def)
  have len: "length v \<le> 4" using v(2,3) assms minimal_length [of v 4] by simp
  obtain ds b where db: "v = ds @ [b]" using ne by (cases v rule: rev_cases) auto
  have "0 \<le> le_val ds" "uint b < 256" by (simp_all add: le_val_nonneg byte_less)
  have b: "uint b < 128"
  proof (rule ccontr)
    assume "\<not> uint b < 128"
    then have "sm_val v = - (le_val ds + 256 ^ length ds * (uint b - 128))" by (simp add: db)
    moreover have "0 \<le> 256 ^ length ds * (uint b - 128)" using \<open>\<not> uint b < 128\<close> by simp
    ultimately show False using v(2) assms(1) \<open>0 \<le> le_val ds\<close> by linarith
  qed
  have val: "le_val v = h" using v(2) b by (simp add: db le_val_append)
  have "\<not> (length v = 1 \<and> (v ! 0 \<le> 16 \<or> v ! 0 = 0x81 \<or> v ! 0 = 0))"
  proof
    assume *: "length v = 1 \<and> (v ! 0 \<le> 16 \<or> v ! 0 = 0x81 \<or> v ! 0 = 0)"
    then have "v = [b]" "v ! 0 = b" using db by auto
    then have "uint b = h" using val by simp
    then show False using * \<open>v ! 0 = b\<close> b assms(1) by (auto simp: word_le_def)
  qed
  then have "addData v NewScriptBuilder = \<lparr>sb_script = word_of_nat (length v) # v, sb_err = None\<rparr>"
    using ne len by (auto simp: addData_def NewScriptBuilder_def Let_def)
  moreover have "canonicalDataSize v \<le> 5" using len by (simp add: canonicalDataSize_def Let_def)
  ultimately have "AddInt64 h NewScriptBuilder = Inr \<lparr>sb_script = word_of_nat (length v) # v, sb_err = None\<rparr>"
    using v(1) assms len by (simp add: AddInt64_def AddData_def NewScriptBuilder_def script_limits)
  then show thesis using that len val ne by simp
qed

definition height_code :: "int \<Rightarrow> bytes \<Rightarrow> bool" where
  "height_code h s \<longleftrightarrow>
     s = [OP_0] \<and> h = 0 \<or>
     (\<exists>w. s = [w] \<and> w \<noteq> OP_0 \<and> OP_1 \<le> w \<and> w \<le> OP_16 \<and> h = uint w - 80) \<or>
     (\<exists>v. s = word_of_nat (length v) # v \<and> 0 < length v \<and> length v \<le> 4 \<and> le_val v = h \<and> 16 < h)"

lemma AddInt64_height_code:
  assumes "0 \<le> h" "h < 2 ^ 31"
  obtains s where "AddInt64 h NewScriptBuilder = Inr \<lparr>sb_script = s, sb_err = None\<rparr>" "height_code h s"
proof (cases "h \<le> 16")
  case True
  have "uint (word_of_int (80 + h) :: byte) = 80 + h" using True assms(1) by (simp only: uint_word_of_int) simp
  then have "h \<noteq> 0 \<Longrightarrow> height_code h [word_of_int (80 + h)]"
    unfolding height_code_def using True assms(1)
    by (intro disjI2 disjI1 exI [of _ "word_of_int (80 + h)"]) (auto simp: word_le_def word_uint_eq_iff)
  then have "height_code h [if h = 0 then OP_0 else word_of_int (80 + h)]" by (simp add: height_code_def)
  then show thesis using that True assms(1) by (simp add: AddInt64_def NewScriptBuilder_def script_limits split: if_splits)
next
  case False
  with AddInt64_height [of h] assms(2) that show thesis by (metis height_code_def not_le)
qed

lemma compareScript_iff:
  "AddInt64 h NewScriptBuilder = Inr \<lparr>sb_script = s, sb_err = None\<rparr> \<Longrightarrow> compareScript h script = Inr () \<longleftrightarrow> (\<exists>rest. script = s @ rest)"
  by (auto simp: compareScript_def sb_Script_def) (metis append_take_drop_id)

lemma CheckSerializedHeight_iff:
  assumes "0 \<le> h" "h < 2 ^ 31" "tx_TxIn tx = txIn # ins" "AddInt64 h NewScriptBuilder = Inr \<lparr>sb_script = s, sb_err = None\<rparr>" "height_code h s"
  shows "CheckSerializedHeight tx h = Inr () \<longleftrightarrow> (\<exists>rest. ti_SignatureScript txIn = s @ rest)"
proof (cases "ti_SignatureScript txIn")
  case Nil
  then show ?thesis using assms(3,5) by (auto simp: CheckSerializedHeight_def ExtractCoinbaseHeight_def height_code_def)
next
  case (Cons opcode rest)
  note defs = CheckSerializedHeight_def ExtractCoinbaseHeight_def
  note cmp = compareScript_iff [OF assms(4)]
  consider (zero) "opcode = OP_0" | (small) "OP_1 \<le> opcode" "opcode \<le> OP_16" "opcode \<noteq> OP_0" | (long) "opcode \<noteq> OP_0" "\<not> (OP_1 \<le> opcode \<and> opcode \<le> OP_16)"
    by blast
  then show ?thesis
  proof cases
    case zero
    have "h = 0 \<longleftrightarrow> (\<exists>rest'. opcode # rest = s @ rest')"
      using assms(5) zero by (auto simp: height_code_def word_le_def) (use direct_push_op(1) in fastforce)+
    then show ?thesis using zero Cons assms(3) by (auto simp: defs)
  next
    case small
    have u: "80 < uint opcode" "uint opcode \<le> 96" using small by (simp_all add: word_le_def)
    have "uint opcode - 80 = h \<longleftrightarrow> (\<exists>rest'. opcode # rest = s @ rest')"
    proof -
      have "opcode \<noteq> word_of_nat (length v)" if "0 < length v" "length v \<le> 4" for v :: bytes
      proof
        assume "opcode = word_of_nat (length v)"
        then have "unat opcode = length v" using direct_push_op(1) [of "length v"] that by simp
        moreover have "uint opcode = int (unat opcode)" by simp
        ultimately show False using u that by linarith
      qed
      then show ?thesis using assms(5) u by (auto simp: height_code_def word_uint_eq_iff)
    qed
    then show ?thesis using small Cons assms(3) by (auto simp: defs)
  next
    case long
    let ?hb = "take 4 (take (unat opcode) rest)"
    have "CheckSerializedHeight tx h = Inr () \<Longrightarrow> compareScript h (opcode # rest) = Inr ()"
      using long Cons assms(3) by (auto simp: defs sbind_eq_Inr Let_def split: if_splits)
    moreover have "CheckSerializedHeight tx h = Inr ()" if begins: "opcode # rest = s @ r" for r
    proof -
      obtain v where v: "s = word_of_nat (length v) # v" "0 < length v" "length v \<le> 4" "le_val v = h"
        using assms(5) long begins by (auto simp: height_code_def)
      then have o: "unat opcode = length v" "rest = v @ r" using begins direct_push_op(1) [of "length v"] by auto
      have hb: "take 4 (take (unat opcode) rest) = v" "\<not> length rest < unat opcode" using o v(3) by simp_all
      have "int32_of h = h" using assms(1,2) by (intro int32_of_id) simp_all
      then have sh: "int32_of (le_val (v @ replicate (4 - length v) 0)) = h" by (simp only: le_val_zeros v(4))
      have "compareScript h (opcode # rest) = Inr ()" using cmp begins by blast
      then show ?thesis
        by (simp only: defs assms(3) list.case Cons long(1) long(2) if_False hb Let_def sh sbind_simps simp_thms)
    qed
    ultimately show ?thesis using cmp [of "opcode # rest"] unfolding Cons by metis
  qed
qed

subsection \<open>Properties\<close>

text \<open>
  C30. The sanity check accepts exactly the transactions with inputs and outputs, a virtual size within the limit of a
  block, outputs of the supported script types with amounts in range whose exact sum is in range too, no
  outpoint that is spent twice, and, for a coinbase, a script of 2 to 100 bytes, otherwise no null
  outpoint. The running 64-bit sum never overflows.\<close>

theorem tx_sanity_iff:
  "CheckTransactionSanity tx = Inr () \<longleftrightarrow>
     tx_TxIn tx \<noteq> [] \<and> tx_TxOut tx \<noteq> [] \<and> GetTransactionVsize tx \<le> MaxBlockVsize \<and>
     (\<forall>txOut \<in> set (tx_TxOut tx). GetScriptClass (to_PkScript txOut) \<in> {WitnessV1TaprootTy, WitnessV2MerkleRootTy, NullDataTy} \<and>
        0 \<le> to_Value txOut \<and> to_Value txOut \<le> MaxGrain) \<and>
     sum_list (map to_Value (tx_TxOut tx)) \<le> MaxGrain \<and>
     distinct (map ti_PreviousOutPoint (tx_TxIn tx)) \<and>
     (if IsCoinBaseTx tx then 2 \<le> length (ti_SignatureScript (hd (tx_TxIn tx))) \<and> length (ti_SignatureScript (hd (tx_TxIn tx))) \<le> 100
      else \<not> (\<exists>txIn \<in> set (tx_TxIn tx). isNullOutpoint (ti_PreviousOutPoint txIn)))"
  unfolding CheckTransactionSanity_iff sane_tx_def
  by (auto simp: list_all_iff output_allowed_def total_value_def MinCoinbaseScriptLen_def MaxCoinbaseScriptLen_def)

definition payment_tx :: MsgTx where
  "payment_tx = \<lparr>tx_Version = 1, tx_TxIn = [\<lparr>ti_PreviousOutPoint = \<lparr>out_Hash = [1], out_Index = 0\<rparr>,
     ti_SignatureScript = [], ti_Witness = [], ti_Sequence = 0\<rparr>],
     tx_TxOut = [\<lparr>to_Value = 5, to_PkScript = OP_1 # OP_DATA_32 # replicate 32 7\<rparr>], tx_LockTime = 0\<rparr>"

theorem tx_sanity_iff_witness:
  "CheckTransactionSanity payment_tx = Inr ()"
proof -
  have "GetScriptClass (OP_1 # OP_DATA_32 # replicate 32 7) = WitnessV1TaprootTy" by code_simp
  moreover have "GetTransactionVsize payment_tx \<le> MaxBlockVsize"
    by (simp add: GetTransactionVsize_def CalcVsize_def WitnessScaleFactor_def MaxBlockVsize_def SerializeSize_def SerializeSizeStripped_def
        baseSize_def payment_tx_def TxIn_SerializeSize_def TxOut_SerializeSize_def VarIntSerializeSize_def HasWitness_def)
  moreover have "\<not> IsCoinBaseTx payment_tx" by (simp add: IsCoinBaseTx_def payment_tx_def)
  ultimately show ?thesis
    by (subst tx_sanity_iff) (simp add: payment_tx_def isNullOutpoint_def chainZeroHash_def amounts)
qed

lemma emission_bounds:
  assumes "emission_constant P = Inr E" "0 < E" "E < 2 ^ 62"
  shows "\<exists>s. (\<forall>h. 0 < h \<and> h < 2 ^ 31 \<longrightarrow> CalcBlockSubsidy h P = Inr (s h) \<and> 0 \<le> s h \<and> s (h + 1) \<le> s h) \<and>
    (\<forall>H. (\<Sum>h = 1..int H. s h) * (int H + E) \<le> totalSupply * int H \<and>
         totalSupply * int H \<le> ((\<Sum>h = 1..int H. s h) + int H) * (int H + E) \<and>
         (\<Sum>h = 1..int H. s h) \<le> totalSupply)"
proof (intro exI [of _ "\<lambda>h. totalSupply * E div ((h + E) * (h - 1 + E))"] conjI allI impI; (elim conjE)?)
  let ?s = "\<lambda>h. totalSupply * E div ((h + E) * (h - 1 + E))"
  have T: "0 \<le> totalSupply" by (simp add: amounts)
  show "CalcBlockSubsidy h P = Inr (?s h)" if "0 < h" "h < 2 ^ 31" for h by (rule subsidy_value [OF assms that])
  show "0 \<le> ?s h" if "0 < h" for h using that assms(2) T by (simp add: pos_imp_zdiv_nonneg_iff)
  show "?s (h + 1) \<le> ?s h" if "0 < h" for h
  proof (rule zdiv_mono2)
    show "0 \<le> totalSupply * E" "0 < (h + E) * (h - 1 + E)" using that assms(2) T by simp_all
    show "(h + E) * (h - 1 + E) \<le> (h + 1 + E) * (h + 1 - 1 + E)" using that assms(2) mult_mono [of "h - 1 + E" "h + 1 + E" "h + E" "h + E"]
      by (simp add: mult.commute)
  qed
  fix H :: nat
  have pos: "0 < real_of_int (int H + E)" using assms(2) by simp
  define S where "S = (\<Sum>h = 1..int H. ?s h)"
  note sum = emission_sum [OF assms(2) T, of H, folded S_def]
  have "real_of_int (S * (int H + E)) \<le> real_of_int (totalSupply * int H)" using sum(1) pos by (simp add: pos_le_divide_eq)
  then have le: "S * (int H + E) \<le> totalSupply * int H" by (simp only: of_int_le_iff)
  then show "(\<Sum>h = 1..int H. ?s h) * (int H + E) \<le> totalSupply * int H" by (simp only: S_def)
  have "real_of_int (totalSupply * int H) \<le> real_of_int ((S + int H) * (int H + E))" using sum(2) pos by (simp add: pos_divide_le_eq)
  then have "totalSupply * int H \<le> (S + int H) * (int H + E)" by (simp only: of_int_le_iff)
  then show "totalSupply * int H \<le> ((\<Sum>h = 1..int H. ?s h) + int H) * (int H + E)" by (simp only: S_def)
  have "totalSupply * int H \<le> totalSupply * (int H + E)" using T assms(2) by (intro mult_left_mono) simp_all
  then have "S * (int H + E) \<le> totalSupply * (int H + E)" using le by linarith
  then have "S \<le> totalSupply" using assms(2) by simp
  then show "(\<Sum>h = 1..int H. ?s h) \<le> totalSupply" by (simp only: S_def)
qed

text \<open>
  C31. The emission: with a positive emission constant the subsidy of every height from 1 on is defined, not negative and
  does not grow with the height, and the subsidies up to a height sum up to the fraction \<open>H / (H + E)\<close> of the
  total supply, less at most one unit for every block; so they never exceed the total supply.\<close>

theorem emission_schedule:
  assumes "emission_constant P = Inr E" "0 < E" "E < 2 ^ 62"
  shows "\<exists>s. (\<forall>h. 0 < h \<and> h < 2 ^ 31 \<longrightarrow> CalcBlockSubsidy h P = Inr (s h) \<and> 0 \<le> s h \<and> s (h + 1) \<le> s h) \<and>
    (\<forall>H. (\<Sum>h = 1..int H. s h) * (int H + E) \<le> totalSupply * int H \<and>
         totalSupply * int H \<le> ((\<Sum>h = 1..int H. s h) + int H) * (int H + E) \<and>
         (\<Sum>h = 1..int H. s h) \<le> totalSupply)"
  using assms by (rule emission_bounds)

theorem emission_schedule_witness:
  "\<exists>s. (\<forall>h. 0 < h \<and> h < 2 ^ 31 \<longrightarrow> CalcBlockSubsidy h (Some MainNetParams) = Inr (s h) \<and> 0 \<le> s h \<and> s (h + 1) \<le> s h) \<and>
    (\<forall>H. (\<Sum>h = 1..int H. s h) * (int H + 650226) \<le> totalSupply * int H \<and>
         totalSupply * int H \<le> ((\<Sum>h = 1..int H. s h) + int H) * (int H + 650226) \<and>
         (\<Sum>h = 1..int H. s h) \<le> totalSupply)"
  by (rule emission_schedule) (code_simp, simp_all)

text \<open>
  The height in a coinbase is accepted exactly when the script starts with what the script builder appends for the
  height, so every height has one encoding and no longer form is accepted.\<close>

lemma coinbase_height_iff:
  assumes "0 \<le> h" "h < 2 ^ 31" "tx_TxIn tx = txIn # ins"
  shows "CheckSerializedHeight tx h = Inr () \<longleftrightarrow>
    (\<exists>s rest. AddInt64 h NewScriptBuilder = Inr \<lparr>sb_script = s, sb_err = None\<rparr> \<and> ti_SignatureScript txIn = s @ rest)"
proof -
  obtain s where "AddInt64 h NewScriptBuilder = Inr \<lparr>sb_script = s, sb_err = None\<rparr>" "height_code h s"
    using AddInt64_height_code [OF assms(1,2)] by blast
  then show ?thesis using CheckSerializedHeight_iff [OF assms] by auto
qed

lemma coinbase_height_iff_example:
  "CheckSerializedHeight \<lparr>tx_Version = 1, tx_TxIn = [\<lparr>ti_PreviousOutPoint = \<lparr>out_Hash = [], out_Index = 0\<rparr>,
     ti_SignatureScript = [2, 0xe8, 3, 7], ti_Witness = [], ti_Sequence = 0\<rparr>], tx_TxOut = [], tx_LockTime = 0\<rparr> 1000 = Inr ()"
proof -
  have "AddInt64 1000 NewScriptBuilder = Inr \<lparr>sb_script = [2, 0xe8, 3], sb_err = None\<rparr>" by code_simp
  then show ?thesis by (subst coinbase_height_iff) auto
qed

end
