(* ===== verification/Utxo_View.thy ===== *)
theory Utxo_View
  imports Tx_Rules Block_Index
begin

text \<open>
  Views of the unspent transaction outputs (\<^verbatim>\<open>node/blockchain/utxoviewpoint.go\<close>). A view maps an
  outpoint to an entry, to nil (looked up and not found), or to nothing; the set of unspent outputs behind it, which the
  code reads through its cache, is a function argument. The abstract state is the map of the coins, and connecting
  and disconnecting a transaction are shown to refine spending and creating coins there. The index of an output is a
  natural number: a transaction within the size limit has far fewer than \<open>2 ^ 32\<close> outputs.
\<close>

subsection \<open>Entries\<close>

record UtxoEntry =
  ue_amount :: int
  ue_pkScript :: bytes
  ue_blockHeight :: int
  ue_packedFlags :: byte

definition tfCoinBase :: byte where "tfCoinBase = 1"
definition tfSpent :: byte where "tfSpent = 2"
definition tfModified :: byte where "tfModified = 4"
definition tfFresh :: byte where "tfFresh = 8"

lemmas tf_flags = tfCoinBase_def tfSpent_def tfModified_def tfFresh_def

definition isModified :: "UtxoEntry \<Rightarrow> bool" where
  "isModified entry \<longleftrightarrow> ue_packedFlags entry AND tfModified = tfModified"

definition isFresh :: "UtxoEntry \<Rightarrow> bool" where
  "isFresh entry \<longleftrightarrow> ue_packedFlags entry AND tfFresh = tfFresh"

definition ue_IsCoinBase :: "UtxoEntry \<Rightarrow> bool" where
  "ue_IsCoinBase entry \<longleftrightarrow> ue_packedFlags entry AND tfCoinBase = tfCoinBase"

definition IsSpent :: "UtxoEntry \<Rightarrow> bool" where
  "IsSpent entry \<longleftrightarrow> ue_packedFlags entry AND tfSpent = tfSpent"

definition Spend :: "UtxoEntry \<Rightarrow> UtxoEntry" where
  "Spend entry = (if IsSpent entry then entry else entry\<lparr>ue_packedFlags := ue_packedFlags entry OR (tfSpent OR tfModified)\<rparr>)"

definition NewUtxoEntry :: "TxOut \<Rightarrow> int \<Rightarrow> bool \<Rightarrow> UtxoEntry" where
  "NewUtxoEntry txOut blockHeight isCoinbase =
     \<lparr>ue_amount = to_Value txOut, ue_pkScript = to_PkScript txOut, ue_blockHeight = blockHeight,
      ue_packedFlags = (if isCoinbase then tfCoinBase else 0)\<rparr>"

record SpentTxOut =
  st_Amount :: int
  st_PkScript :: bytes
  st_Height :: int
  st_IsCoinBase :: bool

subsection \<open>Views\<close>

record UtxoViewpoint =
  uv_entries :: "OutPoint \<Rightarrow> UtxoEntry option option"
  uv_bestHash :: hash

definition NewUtxoViewpoint :: UtxoViewpoint where
  "NewUtxoViewpoint = \<lparr>uv_entries = (\<lambda>_. None), uv_bestHash = chainZeroHash\<rparr>"

definition LookupEntry :: "UtxoViewpoint \<Rightarrow> OutPoint \<Rightarrow> UtxoEntry option" where
  "LookupEntry view outpoint = (case uv_entries view outpoint of None \<Rightarrow> None | Some entry \<Rightarrow> entry)"

definition FetchPrevOutput :: "UtxoViewpoint \<Rightarrow> OutPoint \<Rightarrow> TxOut option" where
  "FetchPrevOutput view op =
     (case LookupEntry view op of
        None \<Rightarrow> None
      | Some prevOut \<Rightarrow> Some \<lparr>to_Value = ue_amount prevOut, to_PkScript = ue_pkScript prevOut\<rparr>)"

definition put_entry :: "UtxoViewpoint \<Rightarrow> OutPoint \<Rightarrow> UtxoEntry option \<Rightarrow> UtxoViewpoint" where
  "put_entry view outpoint entry = view\<lparr>uv_entries := (uv_entries view)(outpoint := Some entry)\<rparr>"

definition SetBestHash :: "UtxoViewpoint \<Rightarrow> hash \<Rightarrow> UtxoViewpoint" where
  "SetBestHash view h = view\<lparr>uv_bestHash := h\<rparr>"

definition fresh_entry :: "TxOut \<Rightarrow> bool \<Rightarrow> int \<Rightarrow> UtxoEntry" where
  "fresh_entry txOut isCoinBase blockHeight =
     \<lparr>ue_amount = to_Value txOut, ue_pkScript = to_PkScript txOut, ue_blockHeight = blockHeight,
      ue_packedFlags = (if isCoinBase then (tfFresh OR tfModified) OR tfCoinBase else tfFresh OR tfModified)\<rparr>"

definition addTxOut :: "UtxoViewpoint \<Rightarrow> OutPoint \<Rightarrow> TxOut \<Rightarrow> bool \<Rightarrow> int \<Rightarrow> UtxoViewpoint" where
  "addTxOut view outpoint txOut isCoinBase blockHeight =
     (if IsUnspendable (to_PkScript txOut) then view
      else put_entry view outpoint (Some (fresh_entry txOut isCoinBase blockHeight)))"

definition AddTxOut :: "(bytes \<Rightarrow> hash) \<Rightarrow> UtxoViewpoint \<Rightarrow> MsgTx \<Rightarrow> nat \<Rightarrow> int \<Rightarrow> UtxoViewpoint" where
  "AddTxOut dh view tx txOutIdx blockHeight =
     (if txOutIdx \<ge> length (tx_TxOut tx) then view
      else addTxOut view \<lparr>out_Hash = TxHash dh tx, out_Index = txOutIdx\<rparr> (tx_TxOut tx ! txOutIdx) (IsCoinBaseTx tx) blockHeight)"

fun add_outs :: "hash \<Rightarrow> bool \<Rightarrow> int \<Rightarrow> nat \<Rightarrow> TxOut list \<Rightarrow> UtxoViewpoint \<Rightarrow> UtxoViewpoint" where
  "add_outs h isCoinBase blockHeight txOutIdx [] view = view"
| "add_outs h isCoinBase blockHeight txOutIdx (txOut # outs) view =
     add_outs h isCoinBase blockHeight (Suc txOutIdx) outs
       (addTxOut view \<lparr>out_Hash = h, out_Index = txOutIdx\<rparr> txOut isCoinBase blockHeight)"

definition AddTxOuts :: "(bytes \<Rightarrow> hash) \<Rightarrow> UtxoViewpoint \<Rightarrow> MsgTx \<Rightarrow> int \<Rightarrow> UtxoViewpoint" where
  "AddTxOuts dh view tx blockHeight = add_outs (TxHash dh tx) (IsCoinBaseTx tx) blockHeight 0 (tx_TxOut tx) view"

subsection \<open>Connecting transactions\<close>

definition spent_details :: "UtxoEntry \<Rightarrow> SpentTxOut" where
  "spent_details entry =
     \<lparr>st_Amount = ue_amount entry, st_PkScript = ue_pkScript entry, st_Height = ue_blockHeight entry,
      st_IsCoinBase = ue_IsCoinBase entry\<rparr>"

fun spend_ins :: "TxIn list \<Rightarrow> UtxoViewpoint \<Rightarrow> SpentTxOut list \<Rightarrow> rule_error + UtxoViewpoint \<times> SpentTxOut list" where
  "spend_ins [] view stxos = Inr (view, stxos)"
| "spend_ins (txIn # ins) view stxos =
     (case LookupEntry view (ti_PreviousOutPoint txIn) of
        None \<Rightarrow> Inl assertError
      | Some entry \<Rightarrow>
          spend_ins ins (put_entry view (ti_PreviousOutPoint txIn) (Some (Spend entry))) (stxos @ [spent_details entry]))"

text \<open>The spent outputs are always collected; the callers that pass nil ignore them.\<close>

definition connectTransaction ::
  "(bytes \<Rightarrow> hash) \<Rightarrow> UtxoViewpoint \<Rightarrow> MsgTx \<Rightarrow> int \<Rightarrow> SpentTxOut list \<Rightarrow> rule_error + UtxoViewpoint \<times> SpentTxOut list" where
  "connectTransaction dh view tx blockHeight stxos =
     (if IsCoinBaseTx tx then Inr (AddTxOuts dh view tx blockHeight, stxos)
      else sbind (spend_ins (tx_TxIn tx) view stxos) (\<lambda>(view, stxos). Inr (AddTxOuts dh view tx blockHeight, stxos)))"

record blockData =
  bk_Header :: BlockHeader
  bk_Transactions :: "MsgTx list"
  bk_Height :: int

fun connect_txs :: "(bytes \<Rightarrow> hash) \<Rightarrow> int \<Rightarrow> MsgTx list \<Rightarrow> UtxoViewpoint \<Rightarrow> SpentTxOut list \<Rightarrow> rule_error + UtxoViewpoint \<times> SpentTxOut list" where
  "connect_txs dh h [] view stxos = Inr (view, stxos)"
| "connect_txs dh h (tx # txs) view stxos =
     sbind (connectTransaction dh view tx h stxos) (\<lambda>(view, stxos). connect_txs dh h txs view stxos)"

definition connectTransactions ::
  "(bytes \<Rightarrow> hash) \<Rightarrow> UtxoViewpoint \<Rightarrow> blockData \<Rightarrow> SpentTxOut list \<Rightarrow> rule_error + UtxoViewpoint \<times> SpentTxOut list" where
  "connectTransactions dh view blk stxos =
     sbind (connect_txs dh (bk_Height blk) (bk_Transactions blk) view stxos) (\<lambda>(view, stxos).
       Inr (SetBestHash view (BlockHash dh (bk_Header blk)), stxos))"

subsection \<open>Disconnecting transactions\<close>

definition countSpentOutputs :: "blockData \<Rightarrow> rule_error + nat" where
  "countSpentOutputs blk =
     (case bk_Transactions blk of
        [] \<Rightarrow> Inl rulePanic
      | _ # txs \<Rightarrow> Inr (sum_list (map (\<lambda>tx. length (tx_TxIn tx)) txs)))"

fun unmake_outs :: "hash \<Rightarrow> byte \<Rightarrow> int \<Rightarrow> nat \<Rightarrow> TxOut list \<Rightarrow> UtxoViewpoint \<Rightarrow> UtxoViewpoint" where
  "unmake_outs h packedFlags blockHeight txOutIdx [] view = view"
| "unmake_outs h packedFlags blockHeight txOutIdx (txOut # outs) view =
     unmake_outs h packedFlags blockHeight (Suc txOutIdx) outs
       (if IsUnspendable (to_PkScript txOut) then view
        else
          let prevOut = \<lparr>out_Hash = h, out_Index = txOutIdx\<rparr>;
              entry = (case LookupEntry view prevOut of
                         None \<Rightarrow> \<lparr>ue_amount = to_Value txOut, ue_pkScript = to_PkScript txOut,
                                  ue_blockHeight = blockHeight, ue_packedFlags = packedFlags\<rparr>
                       | Some entry \<Rightarrow> entry)
          in put_entry view prevOut (Some (Spend entry)))"

definition restored_entry :: "SpentTxOut \<Rightarrow> UtxoEntry" where
  "restored_entry stxo =
     \<lparr>ue_amount = st_Amount stxo, ue_pkScript = st_PkScript stxo, ue_blockHeight = st_Height stxo,
      ue_packedFlags = (if st_IsCoinBase stxo then tfModified OR tfCoinBase else tfModified)\<rparr>"

text \<open>The inputs and the spent outputs are passed from the last one on.\<close>

fun unspend_ins :: "TxIn list \<Rightarrow> SpentTxOut list \<Rightarrow> UtxoViewpoint \<Rightarrow> rule_error + UtxoViewpoint \<times> SpentTxOut list" where
  "unspend_ins [] stxos view = Inr (view, stxos)"
| "unspend_ins (txIn # ins) [] view = Inl rulePanic"
| "unspend_ins (txIn # ins) (stxo # stxos) view =
     unspend_ins ins stxos (put_entry view (ti_PreviousOutPoint txIn) (Some (restored_entry stxo)))"

fun disconnect_txs :: "(bytes \<Rightarrow> hash) \<Rightarrow> int \<Rightarrow> MsgTx list \<Rightarrow> SpentTxOut list \<Rightarrow> UtxoViewpoint \<Rightarrow> rule_error + UtxoViewpoint" where
  "disconnect_txs dh h [] stxos view = Inr view"
| "disconnect_txs dh h (tx # txs) stxos view =
     (let isCoinBase = txs = [];
          view = unmake_outs (TxHash dh tx) (if isCoinBase then tfCoinBase else 0) h 0 (tx_TxOut tx) view
      in if isCoinBase then Inr view
         else sbind (unspend_ins (rev (tx_TxIn tx)) stxos view) (\<lambda>(view, stxos). disconnect_txs dh h txs stxos view))"

definition disconnectTransactions ::
  "(bytes \<Rightarrow> hash) \<Rightarrow> UtxoViewpoint \<Rightarrow> blockData \<Rightarrow> SpentTxOut list \<Rightarrow> rule_error + UtxoViewpoint" where
  "disconnectTransactions dh view blk stxos =
     sbind (countSpentOutputs blk) (\<lambda>n.
       if length stxos \<noteq> n then Inl assertError
       else sbind (disconnect_txs dh (bk_Height blk) (rev (bk_Transactions blk)) (rev stxos) view) (\<lambda>view.
         Inr (SetBestHash view (bh_PrevBlock (bk_Header blk)))))"

definition RemoveEntry :: "UtxoViewpoint \<Rightarrow> OutPoint \<Rightarrow> UtxoViewpoint" where
  "RemoveEntry view outpoint = view\<lparr>uv_entries := (uv_entries view)(outpoint := None)\<rparr>"

definition commit :: "UtxoViewpoint \<Rightarrow> UtxoViewpoint" where
  "commit view = view\<lparr>uv_entries := (\<lambda>outpoint.
     case uv_entries view outpoint of
       None \<Rightarrow> None
     | Some None \<Rightarrow> None
     | Some (Some entry) \<Rightarrow>
         if isModified entry \<and> IsSpent entry then None
         else Some (Some (entry\<lparr>ue_packedFlags := ue_packedFlags entry XOR tfModified\<rparr>)))\<rparr>"

subsection \<open>Loading entries\<close>

text \<open>What the cache returns for an outpoint.\<close>

type_synonym utxoSource = "OutPoint \<Rightarrow> rule_error + UtxoEntry option"

fun fetch_entries :: "utxoSource \<Rightarrow> OutPoint list \<Rightarrow> rule_error + UtxoEntry option list" where
  "fetch_entries fetch [] = Inr []"
| "fetch_entries fetch (op # ops) =
     sbind (fetch op) (\<lambda>entry. sbind (fetch_entries fetch ops) (\<lambda>entries. Inr (entry # entries)))"

definition fetchUtxosFromCache :: "utxoSource \<Rightarrow> UtxoViewpoint \<Rightarrow> OutPoint list \<Rightarrow> rule_error + UtxoViewpoint" where
  "fetchUtxosFromCache fetch view outpoints =
     (if length outpoints = 0 then Inr view
      else sbind (fetch_entries fetch outpoints) (\<lambda>entries.
        Inr (fold (\<lambda>(outpoint, entry) view. put_entry view outpoint entry) (zip outpoints entries) view)))"

definition fetchUtxos :: "utxoSource \<Rightarrow> UtxoViewpoint \<Rightarrow> OutPoint list \<Rightarrow> rule_error + UtxoViewpoint" where
  "fetchUtxos fetch view outpoints =
     (if length outpoints = 0 then Inr view
      else fetchUtxosFromCache fetch view (filter (\<lambda>outpoint. uv_entries view outpoint = None) outpoints))"

definition txInFlight :: "(bytes \<Rightarrow> hash) \<Rightarrow> MsgTx list \<Rightarrow> hash \<Rightarrow> nat option" where
  "txInFlight dh transactions = map_of (rev (zip (map (TxHash dh) transactions) [0..<length transactions]))"

fun find_tx_inputs ::
  "(bytes \<Rightarrow> hash) \<Rightarrow> blockData \<Rightarrow> nat \<Rightarrow> TxIn list \<Rightarrow> UtxoViewpoint \<times> OutPoint list \<Rightarrow> UtxoViewpoint \<times> OutPoint list" where
  "find_tx_inputs dh blk i [] (view, needed) = (view, needed)"
| "find_tx_inputs dh blk i (txIn # ins) (view, needed) =
     find_tx_inputs dh blk i ins
       (case txInFlight dh (bk_Transactions blk) (out_Hash (ti_PreviousOutPoint txIn)) of
          Some inFlightIndex \<Rightarrow>
            if i \<ge> inFlightIndex
            then (AddTxOuts dh view (bk_Transactions blk ! inFlightIndex) (bk_Height blk), needed)
            else if uv_entries view (ti_PreviousOutPoint txIn) \<noteq> None then (view, needed)
            else (view, needed @ [ti_PreviousOutPoint txIn])
        | None \<Rightarrow>
            if uv_entries view (ti_PreviousOutPoint txIn) \<noteq> None then (view, needed)
            else (view, needed @ [ti_PreviousOutPoint txIn]))"

fun find_inputs ::
  "(bytes \<Rightarrow> hash) \<Rightarrow> blockData \<Rightarrow> nat \<Rightarrow> MsgTx list \<Rightarrow> UtxoViewpoint \<times> OutPoint list \<Rightarrow> UtxoViewpoint \<times> OutPoint list" where
  "find_inputs dh blk i [] s = s"
| "find_inputs dh blk i (tx # txs) s = find_inputs dh blk (Suc i) txs (find_tx_inputs dh blk i (tx_TxIn tx) s)"

definition findInputsToFetch :: "(bytes \<Rightarrow> hash) \<Rightarrow> UtxoViewpoint \<Rightarrow> blockData \<Rightarrow> rule_error + UtxoViewpoint \<times> OutPoint list" where
  "findInputsToFetch dh view blk =
     (case bk_Transactions blk of
        [] \<Rightarrow> Inl rulePanic
      | _ # txs \<Rightarrow> Inr (find_inputs dh blk 0 txs (view, [])))"

definition fetchInputUtxos :: "(bytes \<Rightarrow> hash) \<Rightarrow> utxoSource \<Rightarrow> UtxoViewpoint \<Rightarrow> blockData \<Rightarrow> rule_error + UtxoViewpoint" where
  "fetchInputUtxos dh fetch view blk =
     sbind (findInputsToFetch dh view blk) (\<lambda>(view, needed). fetchUtxosFromCache fetch view needed)"

subsection \<open>Coins\<close>

record coin =
  co_amount :: int
  co_pkScript :: bytes
  co_height :: int
  co_coinbase :: bool

type_synonym coins = "OutPoint \<Rightarrow> coin option"

definition coin_of :: "UtxoEntry \<Rightarrow> coin" where
  "coin_of entry = \<lparr>co_amount = ue_amount entry, co_pkScript = ue_pkScript entry, co_height = ue_blockHeight entry,
     co_coinbase = ue_IsCoinBase entry\<rparr>"

text \<open>The coins that a view stands for, over a set of unspent outputs: what the view does not know is looked up there.\<close>

definition unspent :: "UtxoEntry option \<Rightarrow> coin option" where
  "unspent entry = (case entry of None \<Rightarrow> None | Some e \<Rightarrow> if IsSpent e then None else Some (coin_of e))"

definition view_coins :: "coins \<Rightarrow> UtxoViewpoint \<Rightarrow> coins" where
  "view_coins U view op = (case uv_entries view op of None \<Rightarrow> U op | Some entry \<Rightarrow> unspent entry)"

definition prevouts :: "MsgTx \<Rightarrow> OutPoint list" where
  "prevouts tx = map ti_PreviousOutPoint (tx_TxIn tx)"

definition created_from :: "hash \<Rightarrow> bool \<Rightarrow> int \<Rightarrow> nat \<Rightarrow> TxOut list \<Rightarrow> coins" where
  "created_from h cb blockHeight k outs op =
     (if out_Hash op = h \<and> k \<le> out_Index op \<and> out_Index op < k + length outs \<and>
         \<not> IsUnspendable (to_PkScript (outs ! (out_Index op - k)))
      then Some \<lparr>co_amount = to_Value (outs ! (out_Index op - k)), co_pkScript = to_PkScript (outs ! (out_Index op - k)),
             co_height = blockHeight, co_coinbase = cb\<rparr>
      else None)"

definition created :: "(bytes \<Rightarrow> hash) \<Rightarrow> int \<Rightarrow> MsgTx \<Rightarrow> coins" where
  "created dh blockHeight tx = created_from (TxHash dh tx) (IsCoinBaseTx tx) blockHeight 0 (tx_TxOut tx)"

definition apply_tx :: "(bytes \<Rightarrow> hash) \<Rightarrow> int \<Rightarrow> MsgTx \<Rightarrow> coins \<Rightarrow> coins" where
  "apply_tx dh h tx coins =
     (if IsCoinBaseTx tx then coins else coins |` (- set (prevouts tx))) ++ created dh h tx"

definition undo_tx :: "(bytes \<Rightarrow> hash) \<Rightarrow> int \<Rightarrow> MsgTx \<Rightarrow> (OutPoint \<times> coin) list \<Rightarrow> coins \<Rightarrow> coins" where
  "undo_tx dh h tx spent coins = (coins |` (- dom (created dh h tx))) ++ map_of spent"

lemma view_coins_put [simp]:
  "view_coins U (put_entry view op entry) = (view_coins U view)(op := unspent entry)"
  by (rule ext) (simp add: view_coins_def put_entry_def)

lemma unspent_simps [simp]:
  "unspent None = None" "unspent (Some (Spend e)) = None"
proof -
  have "(w OR (tfSpent OR tfModified)) AND tfSpent = tfSpent" for w :: byte by (simp add: tf_flags word_ao_dist word_ao_absorbs)
  then show "unspent (Some (Spend e)) = None" by (simp add: unspent_def Spend_def IsSpent_def)
qed (simp add: unspent_def)

lemma fresh_entry_coin [simp]:
  "unspent (Some (fresh_entry txOut cb h)) =
     Some \<lparr>co_amount = to_Value txOut, co_pkScript = to_PkScript txOut, co_height = h, co_coinbase = cb\<rparr>"
  by (simp add: unspent_def fresh_entry_def IsSpent_def coin_of_def ue_IsCoinBase_def tf_flags)

definition coin_details :: "coin \<Rightarrow> SpentTxOut" where
  "coin_details c = \<lparr>st_Amount = co_amount c, st_PkScript = co_pkScript c, st_Height = co_height c, st_IsCoinBase = co_coinbase c\<rparr>"

lemma restored_entry_coin [simp]: "unspent (Some (restored_entry (coin_details c))) = Some c"
  by (simp add: unspent_def restored_entry_def IsSpent_def coin_of_def ue_IsCoinBase_def tf_flags coin_details_def)

lemma spent_details_coin: "unspent (Some e) = Some c \<Longrightarrow> spent_details e = coin_details c"
  by (auto simp: unspent_def spent_details_def coin_details_def coin_of_def split: if_splits)

subsection \<open>Views refine coins\<close>

lemma created_from_Nil [simp]: "created_from h cb bh k [] = Map.empty"
  by (simp add: created_from_def fun_eq_iff)

lemma map_of_pairs: "map_of (map (\<lambda>op. (op, f op)) ops) op = (if op \<in> set ops then Some (f op) else None)"
  by (induction ops) auto

lemma created_from_Cons:
  "created_from h cb bh k (txOut # outs) =
     (\<lambda>op. if op = \<lparr>out_Hash = h, out_Index = k\<rparr> \<and> \<not> IsUnspendable (to_PkScript txOut)
       then Some \<lparr>co_amount = to_Value txOut, co_pkScript = to_PkScript txOut, co_height = bh, co_coinbase = cb\<rparr>
       else created_from h cb bh (Suc k) outs op)"
proof
  fix op :: OutPoint
  consider "out_Index op < k" | "out_Index op = k" | j where "out_Index op = Suc (k + j)"
    by (metis less_iff_Suc_add linorder_neqE_nat)
  then show "created_from h cb bh k (txOut # outs) op =
      (if op = \<lparr>out_Hash = h, out_Index = k\<rparr> \<and> \<not> IsUnspendable (to_PkScript txOut)
       then Some \<lparr>co_amount = to_Value txOut, co_pkScript = to_PkScript txOut, co_height = bh, co_coinbase = cb\<rparr>
       else created_from h cb bh (Suc k) outs op)"
    by cases (cases op; simp add: created_from_def)+
qed

lemma add_outs_coins: "view_coins U (add_outs h cb bh k outs view) = view_coins U view ++ created_from h cb bh k outs"
proof (induction outs arbitrary: k view)
  case Nil
  then show ?case by simp
next
  case (Cons txOut outs)
  have "created_from h cb bh (Suc k) outs \<lparr>out_Hash = h, out_Index = k\<rparr> = None" by (simp add: created_from_def)
  then show ?case unfolding add_outs.simps Cons.IH addTxOut_def
    by (auto simp: created_from_Cons map_add_def fun_eq_iff split: option.split)
qed

lemma AddTxOuts_coins: "view_coins U (AddTxOuts dh view tx h) = view_coins U view ++ created dh h tx"
  by (simp add: AddTxOuts_def created_def add_outs_coins)

lemma unmake_outs_coins:
  "view_coins U (unmake_outs h fl bh k outs view) = view_coins U view |` (- dom (created_from h cb bh' k outs))"
proof (induction outs arbitrary: k view)
  case Nil
  then show ?case by (simp add: restrict_map_def fun_eq_iff)
next
  case (Cons txOut outs)
  show ?case unfolding unmake_outs.simps Cons.IH
    by (auto simp: created_from_Cons restrict_map_def fun_eq_iff dom_def Let_def)
qed

lemma spend_ins_coins:
  "spend_ins ins view stxos = Inr (view', stxos') \<Longrightarrow>
     view_coins U view' = view_coins U view |` (- set (map ti_PreviousOutPoint ins))"
proof (induction ins arbitrary: view stxos)
  case (Cons txIn ins)
  then show ?case by (auto simp: restrict_map_def fun_eq_iff split: option.splits)
qed (simp add: restrict_map_def fun_eq_iff)

lemma LookupEntry_coins: "LookupEntry view op = Some e \<Longrightarrow> view_coins U view op = unspent (Some e)"
  by (auto simp: LookupEntry_def view_coins_def split: option.splits)

lemma spend_ins_details:
  "spend_ins ins view stxos = Inr (view', stxos') \<Longrightarrow> distinct (map ti_PreviousOutPoint ins) \<Longrightarrow>
     set (map ti_PreviousOutPoint ins) \<subseteq> dom (view_coins U view) \<Longrightarrow>
     stxos' = stxos @ map (\<lambda>txIn. coin_details (the (view_coins U view (ti_PreviousOutPoint txIn)))) ins"
proof (induction ins arbitrary: view stxos)
  case (Cons txIn ins)
  then obtain e where e: "LookupEntry view (ti_PreviousOutPoint txIn) = Some e" by (auto split: option.splits)
  obtain c where c: "view_coins U view (ti_PreviousOutPoint txIn) = Some c" using Cons.prems(3) by auto
  have d: "spent_details e = coin_details c" using spent_details_coin LookupEntry_coins [OF e, of U] c by simp
  let ?view = "put_entry view (ti_PreviousOutPoint txIn) (Some (Spend e))"
  have other: "view_coins U ?view (ti_PreviousOutPoint i) = view_coins U view (ti_PreviousOutPoint i)" if "i \<in> set ins" for i
    using Cons.prems(2) that by (auto simp: image_iff)
  have "ti_PreviousOutPoint i \<in> dom (view_coins U ?view)" if "i \<in> set ins" for i
    using Cons.prems(3) that unfolding dom_def mem_Collect_eq other [OF that] by auto
  then have "set (map ti_PreviousOutPoint ins) \<subseteq> dom (view_coins U ?view)" by auto
  moreover have "spend_ins ins ?view (stxos @ [spent_details e]) = Inr (view', stxos')" "distinct (map ti_PreviousOutPoint ins)"
    using Cons.prems(1,2) e by simp_all
  ultimately have "stxos' = (stxos @ [spent_details e]) @ map (\<lambda>txIn. coin_details (the (view_coins U ?view (ti_PreviousOutPoint txIn)))) ins"
    by (intro Cons.IH)
  moreover have "map (\<lambda>txIn. coin_details (the (view_coins U ?view (ti_PreviousOutPoint txIn)))) ins =
      map (\<lambda>txIn. coin_details (the (view_coins U view (ti_PreviousOutPoint txIn)))) ins"
    using other by simp
  ultimately show ?case using c d by simp
qed simp

lemma connectTransaction_coins:
  assumes "connectTransaction dh view tx h stxos = Inr (view', stxos')"
  shows "view_coins U view' = apply_tx dh h tx (view_coins U view)"
  using assms spend_ins_coins [of "tx_TxIn tx" view stxos _ _ U]
  by (fastforce simp: connectTransaction_def apply_tx_def AddTxOuts_coins prevouts_def sbind_eq_Inr split: if_splits)

text \<open>The coins that a transaction spends, and the ones that it may create.\<close>

definition spent_coins :: "MsgTx \<Rightarrow> coins \<Rightarrow> (OutPoint \<times> coin) list" where
  "spent_coins tx coins = map (\<lambda>op. (op, the (coins op))) (prevouts tx)"

definition spends_ok :: "coins \<Rightarrow> MsgTx \<Rightarrow> bool" where
  "spends_ok coins tx \<longleftrightarrow> IsCoinBaseTx tx \<or> distinct (prevouts tx) \<and> set (prevouts tx) \<subseteq> dom coins"

definition creates_ok :: "(bytes \<Rightarrow> hash) \<Rightarrow> int \<Rightarrow> coins \<Rightarrow> MsgTx \<Rightarrow> bool" where
  "creates_ok dh h coins tx \<longleftrightarrow> dom (created dh h tx) \<inter> dom coins = {}"

lemma undo_apply:
  assumes "\<not> IsCoinBaseTx tx" "spends_ok coins tx" "creates_ok dh h coins tx"
  shows "undo_tx dh h tx (spent_coins tx coins) (apply_tx dh h tx coins) = coins"
proof
  fix op
  have m: "map_of (spent_coins tx coins) op = (if op \<in> set (prevouts tx) then Some (the (coins op)) else None)"
    unfolding spent_coins_def by (simp add: map_of_pairs)
  show "undo_tx dh h tx (spent_coins tx coins) (apply_tx dh h tx coins) op = coins op"
  proof (cases "op \<in> set (prevouts tx)")
    case True
    then obtain c where "coins op = Some c" using assms(1,2) by (auto simp: spends_ok_def)
    then show ?thesis using True m by (simp add: undo_tx_def map_add_def)
  next
    case False
    have "coins op = None" if "created dh h tx op = Some c" for c
      using that assms(3) by (auto simp: creates_ok_def disjoint_iff)
    then show ?thesis using False m assms(1)
      by (cases "created dh h tx op") (auto simp: undo_tx_def apply_tx_def map_add_def restrict_map_def dom_def)
  qed
qed

lemma unspend_ins_coins:
  "unspend_ins ins (map (\<lambda>i. coin_details (f (ti_PreviousOutPoint i))) ins @ rest) view = Inr (view', stxos') \<longleftrightarrow>
    stxos' = rest \<and> view' = foldl (\<lambda>v i. put_entry v (ti_PreviousOutPoint i) (Some (restored_entry (coin_details (f (ti_PreviousOutPoint i)))))) view ins"
  by (induction ins arbitrary: view) auto

lemma foldl_put_coins:
  "view_coins U (foldl (\<lambda>v i. put_entry v (ti_PreviousOutPoint i) (Some (restored_entry (coin_details (f (ti_PreviousOutPoint i)))))) view ins) =
     view_coins U view ++ map_of (map (\<lambda>op. (op, f op)) (map ti_PreviousOutPoint ins))"
proof (induction ins arbitrary: view)
  case (Cons i ins)
  show ?case unfolding foldl_Cons Cons.IH
    by (simp add: map_add_def fun_eq_iff map_of_pairs del: map_map split: option.split)
qed simp

subsection \<open>Blocks of transactions\<close>

abbreviation apply_txs :: "(bytes \<Rightarrow> hash) \<Rightarrow> int \<Rightarrow> MsgTx list \<Rightarrow> coins \<Rightarrow> coins" where
  "apply_txs dh h txs coins \<equiv> fold (apply_tx dh h) txs coins"

fun valid_txs :: "(bytes \<Rightarrow> hash) \<Rightarrow> int \<Rightarrow> coins \<Rightarrow> MsgTx list \<Rightarrow> bool" where
  "valid_txs dh h coins [] \<longleftrightarrow> True"
| "valid_txs dh h coins (tx # txs) \<longleftrightarrow>
     spends_ok coins tx \<and> creates_ok dh h coins tx \<and> valid_txs dh h (apply_tx dh h tx coins) txs"

definition tx_details :: "MsgTx \<Rightarrow> coins \<Rightarrow> SpentTxOut list" where
  "tx_details tx coins = (if IsCoinBaseTx tx then [] else map (coin_details \<circ> snd) (spent_coins tx coins))"

fun block_details :: "(bytes \<Rightarrow> hash) \<Rightarrow> int \<Rightarrow> coins \<Rightarrow> MsgTx list \<Rightarrow> SpentTxOut list" where
  "block_details dh h coins [] = []"
| "block_details dh h coins (tx # txs) = tx_details tx coins @ block_details dh h (apply_tx dh h tx coins) txs"

lemma valid_txs_append:
  "valid_txs dh h coins (xs @ ys) \<longleftrightarrow> valid_txs dh h coins xs \<and> valid_txs dh h (apply_txs dh h xs coins) ys"
  by (induction xs arbitrary: coins) auto

lemma block_details_append:
  "block_details dh h coins (xs @ ys) = block_details dh h coins xs @ block_details dh h (apply_txs dh h xs coins) ys"
  by (induction xs arbitrary: coins) auto

lemma connectTransaction_details:
  assumes "connectTransaction dh view tx h stxos = Inr (view', stxos')" "spends_ok (view_coins U view) tx"
  shows "stxos' = stxos @ tx_details tx (view_coins U view)"
proof (cases "IsCoinBaseTx tx")
  case False
  then obtain view1 where "spend_ins (tx_TxIn tx) view stxos = Inr (view1, stxos')"
    using assms(1) by (auto simp: connectTransaction_def sbind_eq_Inr)
  from spend_ins_details [OF this, of U] assms(2) False show ?thesis
    by (simp add: spends_ok_def prevouts_def tx_details_def spent_coins_def comp_def)
qed (use assms(1) in \<open>simp add: connectTransaction_def tx_details_def\<close>)

lemma connect_txs_coins:
  "connect_txs dh h txs view stxos = Inr (view', stxos') \<Longrightarrow>
     view_coins U view' = apply_txs dh h txs (view_coins U view) \<and>
     (valid_txs dh h (view_coins U view) txs \<longrightarrow> stxos' = stxos @ block_details dh h (view_coins U view) txs)"
proof (induction txs arbitrary: view stxos)
  case (Cons tx txs)
  then obtain view1 stxos1 where s: "connectTransaction dh view tx h stxos = Inr (view1, stxos1)"
      "connect_txs dh h txs view1 stxos1 = Inr (view', stxos')"
    by (auto simp: sbind_eq_Inr)
  show ?case using Cons.IH [OF s(2)] connectTransaction_coins [OF s(1), of U] connectTransaction_details [OF s(1), of U] by simp
qed simp

lemma length_block_details:
  "list_all (\<lambda>tx. \<not> IsCoinBaseTx tx) txs \<Longrightarrow> length (block_details dh h coins txs) = sum_list (map (\<lambda>tx. length (tx_TxIn tx)) txs)"
  by (induction txs arbitrary: coins) (simp_all add: tx_details_def spent_coins_def prevouts_def)

lemma disconnect_txs_coins:
  assumes "IsCoinBaseTx cb" "list_all (\<lambda>tx. \<not> IsCoinBaseTx tx) txs" "valid_txs dh h coins (cb # txs)"
    "view_coins U view = apply_txs dh h (cb # txs) coins"
  shows "\<exists>view'. disconnect_txs dh h (rev (cb # txs)) (rev (block_details dh h coins (cb # txs))) view = Inr view' \<and> view_coins U view' = coins"
  using assms(2-4)
proof (induction txs arbitrary: view rule: rev_induct)
  case Nil
  let ?view = "unmake_outs (TxHash dh cb) tfCoinBase h 0 (tx_TxOut cb) view"
  have "view_coins U ?view = (coins ++ created dh h cb) |` (- dom (created dh h cb))"
    using Nil.prems(3) assms(1)
    by (simp add: unmake_outs_coins [where bh' = h and cb = True] created_def apply_tx_def)
  also have "\<dots> = coins" using Nil.prems(2)
    by (auto simp: creates_ok_def fun_eq_iff restrict_map_def map_add_def disjoint_iff dom_def split: option.split)
  finally show ?case by simp
next
  case (snoc tx txs)
  let ?k = "apply_txs dh h (cb # txs) coins"
  let ?view = "unmake_outs (TxHash dh tx) 0 h 0 (tx_TxOut tx) view"
  let ?f = "\<lambda>op. the (?k op)"
  have v: "\<not> IsCoinBaseTx tx" "spends_ok ?k tx" "creates_ok dh h ?k tx" "valid_txs dh h coins (cb # txs)"
    using snoc.prems(1,2) by (simp_all add: valid_txs_append)
  have b: "rev (block_details dh h coins (cb # txs @ [tx])) =
      map (\<lambda>i. coin_details (?f (ti_PreviousOutPoint i))) (rev (tx_TxIn tx)) @ rev (block_details dh h coins (cb # txs))"
    using v(1) by (simp add: block_details_append tx_details_def spent_coins_def prevouts_def comp_def rev_map)
  let ?view2 = "foldl (\<lambda>v i. put_entry v (ti_PreviousOutPoint i) (Some (restored_entry (coin_details (?f (ti_PreviousOutPoint i)))))) ?view (rev (tx_TxIn tx))"
  have "view_coins U ?view2 = undo_tx dh h tx (spent_coins tx ?k) (apply_tx dh h tx ?k)"
  proof -
    have "map_of (map (\<lambda>op. (op, ?f op)) (map ti_PreviousOutPoint (rev (tx_TxIn tx)))) = map_of (spent_coins tx ?k)"
      by (simp add: fun_eq_iff map_of_pairs spent_coins_def prevouts_def del: map_map)
    moreover have "view_coins U ?view = apply_tx dh h tx ?k |` (- dom (created dh h tx))"
      using snoc.prems(3) v(1) by (simp add: unmake_outs_coins [where bh' = h and cb = False] created_def)
    ultimately show ?thesis
      using foldl_put_coins [of U ?f ?view "rev (tx_TxIn tx)"] by (simp only: undo_tx_def)
  qed
  then have "view_coins U ?view2 = ?k" using undo_apply [OF v(1-3)] by simp
  from snoc.IH [OF _ v(4) this] snoc.prems(1) obtain view' where
    "disconnect_txs dh h (rev (cb # txs)) (rev (block_details dh h coins (cb # txs))) ?view2 = Inr view'" "view_coins U view' = coins" by auto
  moreover have "unspend_ins (rev (tx_TxIn tx)) (rev (block_details dh h coins (cb # txs @ [tx]))) ?view =
      Inr (?view2, rev (block_details dh h coins (cb # txs)))"
    unfolding b using iffD2 [OF unspend_ins_coins [of "rev (tx_TxIn tx)" ?f "rev (block_details dh h coins (cb # txs))" ?view]] by blast
  ultimately show ?case by (simp add: Let_def)
qed

lemma connect_disconnect:
  assumes "bk_Transactions blk = cb # txs" "IsCoinBaseTx cb" "list_all (\<lambda>tx. \<not> IsCoinBaseTx tx) txs"
    "connectTransactions dh view blk [] = Inr (view', stxos)" "valid_txs dh (bk_Height blk) (view_coins U view) (cb # txs)"
  shows "\<exists>view''. disconnectTransactions dh view' blk stxos = Inr view'' \<and> view_coins U view'' = view_coins U view \<and>
    uv_bestHash view'' = bh_PrevBlock (bk_Header blk)"
proof -
  let ?h = "bk_Height blk"
  obtain view1 where c: "connect_txs dh ?h (cb # txs) view [] = Inr (view1, stxos)" "view' = SetBestHash view1 (BlockHash dh (bk_Header blk))"
    using assms(1,4) by (auto simp: connectTransactions_def sbind_eq_Inr simp del: connect_txs.simps)
  have best: "view_coins U (SetBestHash v b) = view_coins U v" for v b by (simp add: view_coins_def SetBestHash_def fun_eq_iff)
  have s: "view_coins U view' = apply_txs dh ?h (cb # txs) (view_coins U view)" "stxos = block_details dh ?h (view_coins U view) (cb # txs)"
    using connect_txs_coins [OF c(1), of U] assms(5) best by (simp_all add: c(2) del: fold_simps block_details.simps valid_txs.simps)
  obtain view2 where "disconnect_txs dh ?h (rev (cb # txs)) (rev stxos) view' = Inr view2" "view_coins U view2 = view_coins U view"
    using disconnect_txs_coins [OF assms(2,3,5) s(1)] s(2) by auto
  moreover have "length stxos = sum_list (map (\<lambda>tx. length (tx_TxIn tx)) txs)"
    using assms(2,3) by (simp add: s(2) tx_details_def length_block_details)
  ultimately show ?thesis
    using assms(1) best by (simp add: disconnectTransactions_def countSpentOutputs_def del: rev.simps disconnect_txs.simps) (simp add: SetBestHash_def)
qed

text \<open>Committing a view keeps its coins, over any set that has none of the outputs the view spent. It sets the modified flag of
  an entry that was not modified.\<close>

lemma commit_flips_modified:
  "uv_entries (commit \<lparr>uv_entries = [op \<mapsto> Some \<lparr>ue_amount = 1, ue_pkScript = [], ue_blockHeight = 1, ue_packedFlags = 0\<rparr>], uv_bestHash = []\<rparr>) op =
     Some (Some \<lparr>ue_amount = 1, ue_pkScript = [], ue_blockHeight = 1, ue_packedFlags = tfModified\<rparr>)"
  by (simp add: commit_def isModified_def tf_flags)

subsection \<open>Property\<close>

definition moving_header :: BlockHeader where
  "moving_header = \<lparr>bh_Version = 1, bh_PrevBlock = [7], bh_MerkleRoot = [], bh_Timestamp = 0, bh_Bits = 0, bh_ProofCommitment = []\<rparr>"

definition moving_coinbase :: MsgTx where
  "moving_coinbase = \<lparr>tx_Version = 1,
     tx_TxIn = [\<lparr>ti_PreviousOutPoint = \<lparr>out_Hash = chainZeroHash, out_Index = 2 ^ 32 - 1\<rparr>, ti_SignatureScript = [], ti_Witness = [], ti_Sequence = 0\<rparr>],
     tx_TxOut = [\<lparr>to_Value = 50, to_PkScript = []\<rparr>], tx_LockTime = 0\<rparr>"

text \<open>The second output of the spending transaction is spendable, the first one is not.\<close>

definition moving_tx :: MsgTx where
  "moving_tx = \<lparr>tx_Version = 1,
     tx_TxIn = [\<lparr>ti_PreviousOutPoint = \<lparr>out_Hash = [9], out_Index = 3\<rparr>, ti_SignatureScript = [], ti_Witness = [], ti_Sequence = 0\<rparr>],
     tx_TxOut = [\<lparr>to_Value = 0, to_PkScript = [OP_RETURN]\<rparr>, \<lparr>to_Value = 5, to_PkScript = []\<rparr>], tx_LockTime = 0\<rparr>"

definition moving_block :: blockData where
  "moving_block = \<lparr>bk_Header = moving_header, bk_Transactions = [moving_coinbase, moving_tx], bk_Height = 11\<rparr>"

definition moving_view :: UtxoViewpoint where
  "moving_view = put_entry NewUtxoViewpoint \<lparr>out_Hash = [9], out_Index = 3\<rparr>
     (Some \<lparr>ue_amount = 6, ue_pkScript = [OP_1], ue_blockHeight = 4, ue_packedFlags = tfCoinBase\<rparr>)"

lemmas moving_samples = moving_header_def moving_coinbase_def moving_tx_def moving_block_def moving_view_def

text \<open>
  C14. Connecting the transactions of a block to a view and disconnecting them again with the spent outputs that
  connecting recorded gives back the coins the view stood for, over any set of unspent outputs \<open>U\<close> below it, and leaves the
  previous block as the best one. The block has a first transaction that is its only coinbase, every other transaction
  spends coins that exist and each of them once, and none creates an output that still exists.\<close>

theorem connect_disconnect_roundtrip:
  assumes "bk_Transactions blk = cb # txs" "IsCoinBaseTx cb" "list_all (\<lambda>tx. \<not> IsCoinBaseTx tx) txs"
    "connectTransactions dh view blk [] = Inr (view', stxos)" "valid_txs dh (bk_Height blk) (view_coins U view) (cb # txs)"
  shows "\<exists>view''. disconnectTransactions dh view' blk stxos = Inr view'' \<and> view_coins U view'' = view_coins U view \<and>
    uv_bestHash view'' = bh_PrevBlock (bk_Header blk)"
  using assms by (rule connect_disconnect)

lemma moving_block_parts:
  "IsCoinBaseTx moving_coinbase" "\<not> IsCoinBaseTx moving_tx" "IsUnspendable [OP_RETURN]" "\<not> IsUnspendable []"
proof -
  have "checkScriptParses 0 [] = Inr ()" by code_simp
  then show "\<not> IsUnspendable []" by (simp add: IsUnspendable_def)
qed (simp_all add: IsCoinBaseTx_def moving_samples IsUnspendable_def)

lemma moving_block_connects:
  "\<exists>view'. connectTransactions (\<lambda>_. [1]) moving_view moving_block [] =
     Inr (view', [\<lparr>st_Amount = 6, st_PkScript = [OP_1], st_Height = 4, st_IsCoinBase = True\<rparr>])"
  using moving_block_parts
  by (simp add: connectTransactions_def connectTransaction_def moving_block_def AddTxOuts_def addTxOut_def TxHash_def)
    (simp add: moving_tx_def moving_coinbase_def moving_view_def LookupEntry_def put_entry_def addTxOut_def spent_details_def ue_IsCoinBase_def)

lemma moving_block_shape:
  "map ti_PreviousOutPoint (tx_TxIn moving_tx) = [\<lparr>out_Hash = [9], out_Index = 3\<rparr>]"
  "tx_TxOut moving_coinbase = [\<lparr>to_Value = 50, to_PkScript = []\<rparr>]"
  "tx_TxOut moving_tx = [\<lparr>to_Value = 0, to_PkScript = [OP_RETURN]\<rparr>, \<lparr>to_Value = 5, to_PkScript = []\<rparr>]"
  by (simp_all add: moving_tx_def moving_coinbase_def)

lemma moving_block_valid:
  "valid_txs (\<lambda>_. [1]) 11 (view_coins Map.empty moving_view) [moving_coinbase, moving_tx]"
  using moving_block_parts
  by (auto simp: moving_block_shape less_Suc_eq spends_ok_def creates_ok_def apply_tx_def created_def TxHash_def prevouts_def created_from_def dom_def
      restrict_map_def map_add_def moving_view_def unspent_def IsSpent_def view_coins_def NewUtxoViewpoint_def tf_flags
      split: if_splits option.splits)

theorem connect_disconnect_roundtrip_witness:
  "\<exists>view' stxos view''. connectTransactions (\<lambda>_. [1]) moving_view moving_block [] = Inr (view', stxos) \<and>
     disconnectTransactions (\<lambda>_. [1]) view' moving_block stxos = Inr view'' \<and>
     view_coins Map.empty view'' = view_coins Map.empty moving_view"
proof -
  obtain view' stxos where c: "connectTransactions (\<lambda>_. [1]) moving_view moving_block [] = Inr (view', stxos)"
    using moving_block_connects by auto
  have "bk_Transactions moving_block = [moving_coinbase, moving_tx]" "bk_Height moving_block = 11" by (simp_all add: moving_block_def)
  then show ?thesis
    using connect_disconnect_roundtrip [OF _ _ _ c, of moving_coinbase "[moving_tx]" Map.empty] moving_block_parts(1,2) moving_block_valid c by fastforce
qed

end
