(* ===== verification/Script_Caches.thy ===== *)
theory Script_Caches
  imports Script_Checks Script_Validation
begin

text \<open>
  The signature cache through a whole execution: no handler and no step of the machine puts a signature into the cache that does
  not verify, so the caches that validation hands on from one input to the next stay sound.
\<close>

definition cache_kept :: "crypto \<Rightarrow> Engine \<Rightarrow> Engine \<Rightarrow> bool" where
  "cache_kept C vm vm' \<longleftrightarrow> (cache_sound C (vm_sigCache vm) \<longrightarrow> cache_sound C (vm_sigCache vm'))"

definition keeping :: "crypto \<Rightarrow> Engine \<Rightarrow> go_error + Engine \<Rightarrow> bool" where
  "keeping C vm r \<longleftrightarrow> (\<forall>vm'. r = Inr vm' \<longrightarrow> cache_kept C vm vm')"

definition keeps_cache :: "crypto \<Rightarrow> handler \<Rightarrow> bool" where
  "keeps_cache C h \<longleftrightarrow> (\<forall>op data vm. keeping C vm (h op data vm))"

named_theorems cache_rules \<open>handlers that keep the signature cache sound\<close>

lemma cache_kept_trans: "cache_kept C a b \<Longrightarrow> cache_kept C b c \<Longrightarrow> cache_kept C a c"
  by (simp add: cache_kept_def)

lemma cache_kept_same: "vm_sigCache vm' = vm_sigCache vm \<Longrightarrow> cache_kept C vm vm'"
  by (simp add: cache_kept_def)

lemma keeping_Inl [simp]: "keeping C vm (Inl e)"
  by (simp add: keeping_def)

lemma keeping_sbind: "(\<And>x. r = Inr x \<Longrightarrow> keeping C vm (f x)) \<Longrightarrow> keeping C vm (sbind r f)"
  by (auto simp: keeping_def sbind_eq_Inr)

lemma keeping_if: "(c \<Longrightarrow> keeping C vm a) \<Longrightarrow> (\<not> c \<Longrightarrow> keeping C vm b) \<Longrightarrow> keeping C vm (if c then a else b)"
  by simp

lemma keeping_prod: "(\<And>a b. x = (a, b) \<Longrightarrow> keeping C vm (f a b)) \<Longrightarrow> keeping C vm (case x of (a, b) \<Rightarrow> f a b)"
  by (cases x) simp

lemma keeping_option: "(\<And>x. y = Some x \<Longrightarrow> keeping C vm (f x)) \<Longrightarrow> keeping C vm (case y of None \<Rightarrow> Inl e | Some x \<Rightarrow> f x)"
  by (cases y) simp_all

lemma keeping_sum:
  "(\<And>e. y = Inl e \<Longrightarrow> keeping C vm (g e)) \<Longrightarrow> (\<And>x. y = Inr x \<Longrightarrow> keeping C vm (f x)) \<Longrightarrow>
     keeping C vm (case y of Inl e \<Rightarrow> g e | Inr x \<Rightarrow> f x)"
  by (cases y) simp_all

lemma keeping_on_dstack: "cache_kept C vm vm' \<Longrightarrow> keeping C vm (on_dstack f vm')"
  by (auto simp: keeping_def cache_kept_def on_dstack_def sbind_eq_Inr)

lemma keeps_on_dstack: "(\<And>op data vm. \<exists>f. h op data vm = on_dstack f vm) \<Longrightarrow> keeps_cache C h"
  unfolding keeps_cache_def by (metis keeping_on_dstack cache_kept_same)

lemma abstractVerify_cache: "abstractVerify c vm = Inr vm' \<Longrightarrow> vm_sigCache vm' = vm_sigCache vm"
  by (auto simp: abstractVerify_def sbind_eq_Inr split: if_splits)

lemma keeps_verify: "keeps_cache C g \<Longrightarrow> keeps_cache C (\<lambda>op data vm. sbind (g op data vm) (abstractVerify c))"
  unfolding keeps_cache_def keeping_def sbind_eq_Inr using cache_kept_trans cache_kept_same abstractVerify_cache by blast

lemma stack_caches [cache_rules]:
  "keeps_cache C opcodeFalse" "keeps_cache C opcodePushData" "keeps_cache C opcode1Negate" "keeps_cache C opcodeN"
  "keeps_cache C opcode2Drop" "keeps_cache C opcode2Dup" "keeps_cache C opcode3Dup" "keeps_cache C opcode2Over" "keeps_cache C opcode2Rot"
  "keeps_cache C opcode2Swap" "keeps_cache C opcodeIfDup" "keeps_cache C opcodeDepth" "keeps_cache C opcodeDrop" "keeps_cache C opcodeDup"
  "keeps_cache C opcodeNip" "keeps_cache C opcodeOver" "keeps_cache C opcodePick" "keeps_cache C opcodeRoll" "keeps_cache C opcodeRot"
  "keeps_cache C opcodeSwap" "keeps_cache C opcodeTuck" "keeps_cache C opcodeSize" "keeps_cache C opcodeEqual" "keeps_cache C opcodeWithin"
  by (rule keeps_on_dstack, simp only: stack_handlers, rule exI, rule refl)+

lemma number_caches [cache_rules]:
  "keeps_cache C opcode1Add" "keeps_cache C opcode1Sub" "keeps_cache C opcodeNegate" "keeps_cache C opcodeAbs" "keeps_cache C opcodeNot"
  "keeps_cache C opcode0NotEqual" "keeps_cache C opcodeAdd" "keeps_cache C opcodeSub" "keeps_cache C opcodeBoolAnd" "keeps_cache C opcodeBoolOr"
  "keeps_cache C opcodeNumEqual" "keeps_cache C opcodeNumNotEqual" "keeps_cache C opcodeLessThan" "keeps_cache C opcodeGreaterThan"
  "keeps_cache C opcodeLessThanOrEqual" "keeps_cache C opcodeGreaterThanOrEqual" "keeps_cache C opcodeMin" "keeps_cache C opcodeMax"
  "keeps_cache C (opcodeRipemd160 D)" "keeps_cache C (opcodeSha1 D)" "keeps_cache C (opcodeSha256 D)" "keeps_cache C (opcodeHash160 D)"
  "keeps_cache C (opcodeHash256 D)"
  by (rule keeps_on_dstack, simp only: stack_handlers number_handlers hash_handlers, rule exI, rule refl)+

lemma control_caches [cache_rules]:
  "keeps_cache C opcodeDisabled" "keeps_cache C opcodeReserved" "keeps_cache C opcodeInvalid" "keeps_cache C opcodeNop"
  "keeps_cache C opcodeIf" "keeps_cache C opcodeNotIf" "keeps_cache C opcodeElse" "keeps_cache C opcodeEndif" "keeps_cache C opcodeReturn"
  "keeps_cache C opcodeToAltStack" "keeps_cache C opcodeFromAltStack" "keeps_cache C opcodeCheckMultiSig"
  by (auto simp: keeps_cache_def keeping_def opcodeDisabled_def opcodeReserved_def opcodeInvalid_def opcodeNop_def opcodeIf_def
        opcodeNotIf_def opcodeElse_def opcodeEndif_def opcodeReturn_def opcodeToAltStack_def
        opcodeFromAltStack_def opcodeCheckMultiSig_def sbind_eq_Inr cache_kept_def Let_def
        split: if_splits OpCond.splits)

lemma other_caches [cache_rules]:
  "keeps_cache C opcodeCheckLockTimeVerify" "keeps_cache C opcodeCheckSequenceVerify" "keeps_cache C opcodeCodeSeparator" "keeps_cache C opcodeCat"
  by (auto simp: keeps_cache_def keeping_def opcodeCheckLockTimeVerify_def opcodeCheckSequenceVerify_def opcodeCodeSeparator_def opcodeCat_def
        sbind_eq_Inr cache_kept_def Let_def split: if_splits option.splits)

lemma tapscript_Verify_cache:
  assumes "newBaseTapscriptSigVerifier D pk sig vm1 = Inr b" "tapscript_Verify D pick b vm1 = Inr x" "x = (v, vm2)" "cache_kept D vm vm1"
  shows "cache_kept D vm vm2"
proof -
  obtain annex where new: "newTaprootSigVerifier D pk sig (vm_tx vm1) (vm_txIdx vm1) (vm_prevOutFetcher vm1) (vm_hashCache vm1) annex = Inr b"
    using assms(1) by (auto simp: newBaseTapscriptSigVerifier_def split: if_splits option.splits)
  have "vm_sigCache vm2 = vm_sigCache vm1 \<or> (\<exists>h. vm_sigCache vm2 = snd (verifySig D pick b h (vm_sigCache vm1)))"
    using assms(2,3) by (auto simp: tapscript_Verify_def case_prod_unfold Let_def split: sum.splits if_splits)
  moreover have "cache_sound D (snd (verifySig D pick b h (vm_sigCache vm1)))" if "cache_sound D (vm_sigCache vm1)" for h
    using verifySig_transparent [OF new, of "vm_sigCache vm1" pick h] that by (auto simp: cache_sound_def split: option.splits)
  ultimately show ?thesis using assms(4) by (auto simp: cache_kept_def)
qed

lemmas keeping_rules = allI keeping_if keeping_sbind keeping_prod keeping_option keeping_sum keeping_on_dstack keeping_Inl

lemma signature_caches [cache_rules]:
  "keeps_cache C (opcodeCheckSig C pick)" "keeps_cache C (opcodeCheckSigAdd C pick)" "keeps_cache C (opcodeCheckXmssSig D)"
  unfolding keeps_cache_def opcodeCheckSig_def opcodeCheckSigAdd_def opcodeCheckXmssSig_def Let_def
  by (intro keeping_rules; (erule (2) tapscript_Verify_cache)?; rule cache_kept_same; simp)+

lemma verify_caches [cache_rules]:
  "keeps_cache C opcodeVerify" "keeps_cache C opcodeEqualVerify" "keeps_cache C opcodeNumEqualVerify"
  "keeps_cache C (opcodeCheckSigVerify C pick)" "keeps_cache C opcodeCheckMultiSigVerify"
proof -
  show "keeps_cache C opcodeVerify"
    by (auto simp: keeps_cache_def keeping_def opcodeVerify_def intro: cache_kept_same abstractVerify_cache)
  show "keeps_cache C opcodeEqualVerify" "keeps_cache C opcodeNumEqualVerify" "keeps_cache C (opcodeCheckSigVerify C pick)"
    "keeps_cache C opcodeCheckMultiSigVerify"
    unfolding opcodeEqualVerify_def [abs_def] opcodeNumEqualVerify_def [abs_def]
      opcodeCheckSigVerify_def [abs_def] opcodeCheckMultiSigVerify_def [abs_def]
    by (intro keeps_verify cache_rules)+
qed

lemma opfunc_cache: "keeping C vm (opfunc C pick b op data vm)"
proof -
  have "keeps_cache C (opfunc C pick b)"
    by (rule opfunc_rule) (simp_all add: opcodeHandlers_def cache_rules)
  then show ?thesis by (simp add: keeps_cache_def)
qed

subsection \<open>The machine\<close>

lemma executeOpcode_cache: "executeOpcode C pick op data vm = Inr vm' \<Longrightarrow> cache_kept C vm vm'"
proof -
  assume "executeOpcode C pick op data vm = Inr vm'"
  then obtain vm1 where "countOpcode op data vm = Inr vm1" "vm' = vm1 \<or> opfunc C pick (op_value op) op data vm1 = Inr vm'"
    by (auto simp: executeOpcode_def sbind_eq_Inr split: if_splits)
  moreover from this have "vm_sigCache vm1 = vm_sigCache vm" by (auto simp: countOpcode_def Let_def split: if_splits)
  ultimately show ?thesis using opfunc_cache [of C vm1 pick "op_value op" op data] by (auto simp: keeping_def cache_kept_def)
qed

lemma verifyWitnessProgram_cache:
  assumes "verifyWitnessProgram C pick p witness vm = Inr vm'" "0 \<le> vm_txIdx vm" "vm_txIdx vm < int (length (tx_TxIn (vm_tx vm)))"
  shows "cache_kept C vm vm'"
proof -
  have path: "vm_sigCache v' = vm_sigCache v" if "setupScriptPathSpend C st sz annex script lv v = Inr v'" for st sz annex script lv v v'
    using that by (auto simp: setupScriptPathSpend_def enforceTapscriptStackLimits_def sbind_eq_Inr split: if_splits)
  have key: "cache_kept C vm v'" if "verifyTaprootKeyPath C pick q raw vm = Inr v'" for q raw v'
    using that key_spend_iff(2) [OF assms(2,3)] by (auto simp: verifyTaprootKeyPath_def sbind_eq_Inr cache_kept_def cache_sound_def)
  have "verifyTaprootSpend C pick p witness vm = Inr vm' \<or> verifyMerkleRootSpend C p witness vm = Inr vm'"
    using assms by (auto simp: verifyWitnessProgram_def split: if_splits)
  then show ?thesis
    using path key by (auto simp: verifyTaprootSpend_def verifyMerkleRootSpend_def Let_def sbind_eq_Inr cache_kept_def split: if_splits prod.splits)
qed

lemma finishScript_cache:
  assumes "finishScript C pick vm = Inr (fin, vm')"
  shows "cache_kept C vm vm'"
proof -
  obtain vm2 where e: "enterScript vm2 = (fin, vm')" and v: "vm2 = resetScript vm \<or>
      (\<exists>p txIn. go_index (tx_TxIn (vm_tx vm)) (vm_txIdx vm) = Inr txIn \<and> verifyWitnessProgram C pick p (ti_Witness txIn) (resetScript vm) = Inr vm2)"
    using assms by (auto simp: finishScript_def Let_def sbind_eq_Inr split: if_splits option.splits)
  have "vm_sigCache vm' = vm_sigCache vm2" using e by (auto simp: enterScript_def Let_def split: if_splits)
  moreover have "cache_kept C (resetScript vm) vm2"
    using v verifyWitnessProgram_cache [of C pick _ _ "resetScript vm" vm2] by (auto simp: go_index_def cache_kept_def split: if_splits)
  moreover have "vm_sigCache (resetScript vm) = vm_sigCache vm" by (simp add: resetScript_def)
  ultimately show ?thesis by (simp add: cache_kept_def)
qed

lemma Step_cache: "Step C pick vm = Inr (fin, vm') \<Longrightarrow> cache_kept C vm vm'"
proof (erule Step_cases)
  fix t op vm1 n
  assume e: "executeOpcode C pick op (data_bytes (tok_data t)) (vm\<lparr>vm_tokenizer := t\<rparr>) = Inr vm1"
    and f: "if tok_Done t then finishScript C pick (vm1\<lparr>vm_opcodeIdx := vm_opcodeIdx vm1 + 1\<rparr>) = Inr (fin, vm')
     else \<not> fin \<and> vm' = vm1\<lparr>vm_opcodeIdx := vm_opcodeIdx vm1 + 1\<rparr>"
  show "cache_kept C vm vm'"
    using executeOpcode_cache [OF e] f finishScript_cache [of C pick "vm1\<lparr>vm_opcodeIdx := vm_opcodeIdx vm1 + 1\<rparr>" fin vm']
    by (auto simp: cache_kept_def split: if_splits)
qed

lemma executeLoop_cache: "executeLoop C pick vm = Inr vm' \<Longrightarrow> cache_kept C vm vm'"
proof (induction C pick vm rule: executeLoop.induct)
  case (1 C pick vm)
  from "1.prems" obtain fin vm1 where s: "Step C pick vm = Inr (fin, vm1)" "if fin then vm1 = vm' else executeLoop C pick vm1 = Inr vm'"
    by (subst (asm) executeLoop.simps) (auto simp: sbind_eq_Inr split: if_splits)
  show ?case
  proof (cases fin)
    case True
    then show ?thesis using s Step_cache by simp
  next
    case False
    then have "cache_kept C vm1 vm'" using "1.IH" [OF s(1) refl] s(2) by simp
    then show ?thesis using Step_cache [OF s(1)] cache_kept_trans by blast
  qed
qed

lemma validate_input_cache:
  assumes "validate_input C pick pkScript tx idx cache hashes amount prevOuts = Inr vm" "cache_sound C cache"
  shows "cache_sound C (vm_sigCache vm)"
proof -
  obtain vm0 where n: "NewEngine pkScript tx idx cache hashes amount prevOuts = Inr vm0" "Execute C pick vm0 = Inr vm"
    using assms(1) by (auto simp: validate_input_def sbind_eq_Inr)
  have "vm_sigCache vm0 = cache" using n(1) by (auto simp: NewEngine_def Let_def sbind_eq_Inr split: if_splits)
  moreover have "cache_kept C vm0 vm"
    using n(2) executeLoop_cache [of C pick vm0]
    by (auto simp: Execute_def sbind_eq_Inr CheckErrorCondition_def cache_kept_def split: if_splits)
  ultimately show ?thesis using assms(2) by (simp add: cache_kept_def)
qed

end
