(* ===== verification/Block_Connect.thy ===== *)
theory Block_Connect
  imports Utxo_View Script_Caches Chain_View
begin

text \<open>
  Connecting a block (\<^verbatim>\<open>node/blockchain/validate.go\<close>, \<^verbatim>\<open>scriptval.go\<close>, \<^verbatim>\<open>checkpoints.go\<close>): the checks of the inputs
  of a transaction, the relative lock times, the rule against overwriting outputs, the scripts of all inputs and
  \<open>checkConnectBlock\<close>, which puts them together. The validator runs the inputs in goroutines; here they run in the order in which it
  hands them out, so of several failing inputs the first one gives the error. The lemmas say which transactions the checks of the inputs
  let through, and how the loop over the transactions moves the coins and their value.
\<close>

subsection \<open>Scripts of a block\<close>

record scriptCaches =
  sc_sig :: "SigCache option"
  sc_hash :: HashCache

type_synonym hash_pick = "(hash \<times> TxSigHashes) list \<Rightarrow> nat"

record txValidateItem =
  vi_txInIndex :: nat
  vi_txIn :: TxIn
  vi_tx :: MsgTx
  vi_sigHashes :: TxSigHashes

definition script_failure :: "RuleErrorCode \<Rightarrow> go_error \<Rightarrow> rule_error" where
  "script_failure code e = (if e = goPanic then rulePanic else ruleError code)"

definition validate_item ::
  "crypto \<Rightarrow> sig_pick \<Rightarrow> UtxoViewpoint \<Rightarrow> txValidateItem \<Rightarrow> SigCache option \<Rightarrow> rule_error + SigCache option" where
  "validate_item C pick view txVI sigCache =
     (case LookupEntry view (ti_PreviousOutPoint (vi_txIn txVI)) of
        None \<Rightarrow> Inl (ruleError ErrMissingTxOut)
      | Some utxo \<Rightarrow>
          (case NewEngine (ue_pkScript utxo) (vi_tx txVI) (int (vi_txInIndex txVI)) sigCache (vi_sigHashes txVI)
                  (ue_amount utxo) (FetchPrevOutput view) of
             Inl e \<Rightarrow> Inl (script_failure ErrScriptMalformed e)
           | Inr vm \<Rightarrow>
               (case Execute C pick vm of
                  Inl e \<Rightarrow> Inl (script_failure ErrScriptValidation e)
                | Inr vm \<Rightarrow> Inr (vm_sigCache vm))))"

fun Validate ::
  "crypto \<Rightarrow> sig_pick \<Rightarrow> UtxoViewpoint \<Rightarrow> txValidateItem list \<Rightarrow> SigCache option \<Rightarrow> rule_error + SigCache option" where
  "Validate C pick view [] sigCache = Inr sigCache"
| "Validate C pick view (txVI # items) sigCache =
     sbind (validate_item C pick view txVI sigCache) (Validate C pick view items)"

definition tx_items :: "MsgTx \<Rightarrow> TxSigHashes \<Rightarrow> txValidateItem list" where
  "tx_items tx cachedHashes =
     map (\<lambda>(txInIdx, txIn). \<lparr>vi_txInIndex = txInIdx, vi_txIn = txIn, vi_tx = tx, vi_sigHashes = cachedHashes\<rparr>)
       (enumerate 0 (tx_TxIn tx))"

definition load_hashes :: "crypto \<Rightarrow> hash_pick \<Rightarrow> UtxoViewpoint \<Rightarrow> MsgTx \<Rightarrow> HashCache \<Rightarrow> rule_error + TxSigHashes \<times> HashCache" where
  "load_hashes C hpick view tx hashCache =
     (case LoadOrComputeSigHashes C hpick hashCache tx (FetchPrevOutput view) of Inl _ \<Rightarrow> Inl rulePanic | Inr r \<Rightarrow> Inr r)"

fun block_items ::
  "crypto \<Rightarrow> hash_pick \<Rightarrow> UtxoViewpoint \<Rightarrow> MsgTx list \<Rightarrow> HashCache \<Rightarrow> rule_error + txValidateItem list \<times> HashCache" where
  "block_items C hpick view [] hashCache = Inr ([], hashCache)"
| "block_items C hpick view (tx # txs) hashCache =
     (if IsCoinBaseTx tx then block_items C hpick view txs hashCache
      else
        sbind (load_hashes C hpick view tx hashCache) (\<lambda>(cachedHashes, hashCache).
        sbind (block_items C hpick view txs hashCache) (\<lambda>(items, hashCache).
          Inr (tx_items tx cachedHashes @ items, hashCache))))"

definition checkBlockScripts ::
  "crypto \<Rightarrow> sig_pick \<Rightarrow> hash_pick \<Rightarrow> MsgTx list \<Rightarrow> UtxoViewpoint \<Rightarrow> scriptCaches \<Rightarrow> rule_error + scriptCaches" where
  "checkBlockScripts C pick hpick transactions utxoView caches =
     sbind (block_items C hpick utxoView transactions (sc_hash caches)) (\<lambda>(txValItems, hashCache).
     sbind (Validate C pick utxoView txValItems (sc_sig caches)) (\<lambda>sigCache.
       Inr \<lparr>sc_sig = sigCache,
            sc_hash = fold (\<lambda>tx h. PurgeSigHashes h (TxHash (DoubleHashRaw C) tx)) transactions hashCache\<rparr>))"

definition ValidateTransactionScripts ::
  "crypto \<Rightarrow> sig_pick \<Rightarrow> hash_pick \<Rightarrow> MsgTx \<Rightarrow> UtxoViewpoint \<Rightarrow> scriptCaches \<Rightarrow> rule_error + scriptCaches" where
  "ValidateTransactionScripts C pick hpick tx utxoView caches =
     (if IsCoinBaseTx tx then Inr caches
      else
        sbind (load_hashes C hpick utxoView tx (sc_hash caches)) (\<lambda>(cachedHashes, hashCache).
        sbind (Validate C pick utxoView (tx_items tx cachedHashes) (sc_sig caches)) (\<lambda>sigCache.
          Inr \<lparr>sc_sig = sigCache, sc_hash = hashCache\<rparr>)))"

subsection \<open>Inputs of a transaction\<close>

fun check_inputs :: "int \<Rightarrow> int \<Rightarrow> UtxoViewpoint \<Rightarrow> TxIn list \<Rightarrow> int \<Rightarrow> rule_error + int" where
  "check_inputs txHeight coinbaseMaturity utxoView [] totalGrainIn = Inr totalGrainIn"
| "check_inputs txHeight coinbaseMaturity utxoView (txIn # ins) totalGrainIn =
     (case LookupEntry utxoView (ti_PreviousOutPoint txIn) of
        None \<Rightarrow> Inl (ruleError ErrMissingTxOut)
      | Some utxo \<Rightarrow>
          if IsSpent utxo then Inl (ruleError ErrMissingTxOut)
          else if ue_IsCoinBase utxo \<and> int32_of (txHeight - ue_blockHeight utxo) < coinbaseMaturity
          then Inl (ruleError ErrImmatureSpend)
          else
            let originTxGrain = ue_amount utxo
            in if originTxGrain < 0 then Inl (ruleError ErrBadTxOutValue)
               else if originTxGrain > MaxGrain then Inl (ruleError ErrBadTxOutValue)
               else
                 let lastGrainIn = totalGrainIn; totalGrainIn = int64_of (totalGrainIn + originTxGrain)
                 in if totalGrainIn < lastGrainIn \<or> totalGrainIn > MaxGrain then Inl (ruleError ErrBadTxOutValue)
                    else check_inputs txHeight coinbaseMaturity utxoView ins totalGrainIn)"

definition sum_outputs :: "TxOut list \<Rightarrow> int" where
  "sum_outputs outs = foldl (\<lambda>totalGrainOut txOut. int64_of (totalGrainOut + to_Value txOut)) 0 outs"

definition CheckTransactionInputs :: "MsgTx \<Rightarrow> int \<Rightarrow> UtxoViewpoint \<Rightarrow> nat \<Rightarrow> rule_error + int" where
  "CheckTransactionInputs tx txHeight utxoView coinbaseMaturity =
     (if IsCoinBaseTx tx then Inr 0
      else
        sbind (check_inputs txHeight (int coinbaseMaturity) utxoView (tx_TxIn tx) 0) (\<lambda>totalGrainIn.
          let totalGrainOut = sum_outputs (tx_TxOut tx)
          in if totalGrainIn < totalGrainOut then Inl (ruleError ErrSpendTooHigh)
             else Inr (int64_of (totalGrainIn - totalGrainOut))))"

subsection \<open>Relative lock times\<close>

fun sequence_locks :: "blockNode \<Rightarrow> UtxoViewpoint \<Rightarrow> TxIn list \<Rightarrow> SequenceLock \<Rightarrow> rule_error + SequenceLock" where
  "sequence_locks node utxoView [] sequenceLock = Inr sequenceLock"
| "sequence_locks node utxoView (txIn # ins) sequenceLock =
     (case LookupEntry utxoView (ti_PreviousOutPoint txIn) of
        None \<Rightarrow> Inl (ruleError ErrMissingTxOut)
      | Some utxo \<Rightarrow>
          let nextHeight = int32_of (bn_height node + 1);
              inputHeight = (if ue_blockHeight utxo = 0x7fffffff then nextHeight else ue_blockHeight utxo);
              sequenceNum = ti_Sequence txIn;
              relativeLock = int (sequenceNum AND SequenceLockTimeMask)
          in if sequenceNum AND SequenceLockTimeDisabled = SequenceLockTimeDisabled
             then sequence_locks node utxoView ins sequenceLock
             else if sequenceNum AND SequenceLockTimeIsSeconds = SequenceLockTimeIsSeconds then
               let prevInputHeight = int32_of (inputHeight - 1);
                   prevInputHeight = (if prevInputHeight < 0 then 0 else prevInputHeight)
               in (case Ancestor node prevInputHeight of
                     None \<Rightarrow> Inl rulePanic
                   | Some blockNode \<Rightarrow>
                       let medianTime = CalcPastMedianTime blockNode;
                           timeLockSeconds = push_bit SequenceLockTimeGranularity relativeLock - 1;
                           timeLock = int64_of (medianTime + timeLockSeconds)
                       in sequence_locks node utxoView ins
                            (if timeLock > sl_Seconds sequenceLock then sequenceLock\<lparr>sl_Seconds := timeLock\<rparr> else sequenceLock))
             else
               let blockHeight = int32_of (inputHeight + int32_of (relativeLock - 1))
               in sequence_locks node utxoView ins
                    (if blockHeight > sl_BlockHeight sequenceLock then sequenceLock\<lparr>sl_BlockHeight := blockHeight\<rparr> else sequenceLock))"

definition calcSequenceLock :: "blockNode \<Rightarrow> MsgTx \<Rightarrow> UtxoViewpoint \<Rightarrow> rule_error + SequenceLock" where
  "calcSequenceLock node tx utxoView =
     (let sequenceLock = \<lparr>sl_Seconds = -1, sl_BlockHeight = -1\<rparr>
      in if uint32_of (tx_Version tx) < 2 \<or> IsCoinBaseTx tx then Inr sequenceLock
         else sequence_locks node utxoView (tx_TxIn tx) sequenceLock)"

fun check_locks :: "blockNode \<Rightarrow> int \<Rightarrow> UtxoViewpoint \<Rightarrow> MsgTx list \<Rightarrow> rule_error + unit" where
  "check_locks node medianTime utxoView [] = Inr ()"
| "check_locks node medianTime utxoView (tx # txs) =
     sbind (calcSequenceLock node tx utxoView) (\<lambda>sequenceLock.
       if \<not> SequenceLockActive sequenceLock (bn_height node) medianTime then Inl (ruleError ErrUnfinalizedTx)
       else check_locks node medianTime utxoView txs)"

subsection \<open>Overwritten outputs\<close>

definition tx_outpoints :: "(bytes \<Rightarrow> hash) \<Rightarrow> MsgTx \<Rightarrow> OutPoint list" where
  "tx_outpoints dh tx = map (\<lambda>txOutIdx. \<lparr>out_Hash = TxHash dh tx, out_Index = txOutIdx\<rparr>) [0..<length (tx_TxOut tx)]"

definition checkBIP0030 :: "(bytes \<Rightarrow> hash) \<Rightarrow> utxoSource \<Rightarrow> blockData \<Rightarrow> UtxoViewpoint \<Rightarrow> rule_error + UtxoViewpoint" where
  "checkBIP0030 dh cache blk view =
     (let fetch = concat (map (tx_outpoints dh) (bk_Transactions blk))
      in sbind (fetchUtxos cache view fetch) (\<lambda>view.
           if list_ex (\<lambda>outpoint. case LookupEntry view outpoint of None \<Rightarrow> False | Some utxo \<Rightarrow> \<not> IsSpent utxo) fetch
           then Inl (ruleError ErrOverwriteTx)
           else Inr view))"

subsection \<open>Connecting a block\<close>

record Checkpoint =
  ck_Height :: int
  ck_Hash :: hash

definition HasCheckpoints :: "Checkpoint list \<Rightarrow> bool" where
  "HasCheckpoints checkpoints \<longleftrightarrow> length checkpoints > 0"

definition LatestCheckpoint :: "Checkpoint list \<Rightarrow> Checkpoint option" where
  "LatestCheckpoint checkpoints =
     (if \<not> HasCheckpoints checkpoints then None else Some (checkpoints ! (length checkpoints - 1)))"

record connectParams =
  cp_GenesisHash :: hash
  cp_CoinbaseMaturity :: nat
  cp_chain :: chainParams
  cp_checkpoints :: "Checkpoint list"

fun check_txs ::
  "(bytes \<Rightarrow> hash) \<Rightarrow> int \<Rightarrow> nat \<Rightarrow> MsgTx list \<Rightarrow> UtxoViewpoint \<Rightarrow> SpentTxOut list \<Rightarrow> int \<Rightarrow>
     rule_error + UtxoViewpoint \<times> SpentTxOut list \<times> int" where
  "check_txs dh height maturity [] view stxos totalFees = Inr (view, stxos, totalFees)"
| "check_txs dh height maturity (tx # txs) view stxos totalFees =
     sbind (CheckTransactionInputs tx height view maturity) (\<lambda>txFee.
       let lastTotalFees = totalFees; totalFees = int64_of (totalFees + txFee)
       in if totalFees < lastTotalFees then Inl (ruleError ErrBadFees)
          else sbind (connectTransaction dh view tx height stxos) (\<lambda>(view, stxos).
                 check_txs dh height maturity txs view stxos totalFees))"

definition panicking :: "go_error + 'a \<Rightarrow> rule_error + 'a" where
  "panicking r = (case r of Inl _ \<Rightarrow> Inl rulePanic | Inr x \<Rightarrow> Inr x)"

definition checkConnectBlock ::
  "crypto \<Rightarrow> sig_pick \<Rightarrow> hash_pick \<Rightarrow> connectParams \<Rightarrow> utxoSource \<Rightarrow> scriptCaches \<Rightarrow> blockNode \<Rightarrow> blockData \<Rightarrow>
     UtxoViewpoint \<Rightarrow> SpentTxOut list \<Rightarrow> rule_error + UtxoViewpoint \<times> SpentTxOut list \<times> scriptCaches" where
  "checkConnectBlock C pick hpick P cache caches node blk view stxos =
     (let dh = DoubleHashRaw C
      in if bn_hash node = cp_GenesisHash P then Inl (ruleError ErrMissingTxOut)
         else if uv_bestHash view \<noteq> bh_PrevBlock (bk_Header blk) then Inl assertError
         else
           sbind (checkBIP0030 dh cache blk view) (\<lambda>view.
           sbind (fetchInputUtxos dh cache view blk) (\<lambda>view.
           let transactions = bk_Transactions blk
           in sbind (check_txs dh (bn_height node) (cp_CoinbaseMaturity P) transactions view stxos 0) (\<lambda>(view, stxos, totalFees).
              let totalGrainOut = sum_outputs (tx_TxOut (transactions ! 0))
              in sbind (panicking (CalcBlockSubsidy (bn_height node) (Some (cp_chain P)))) (\<lambda>subsidy.
                 let expectedGrainOut = int64_of (subsidy + totalFees)
                 in if totalGrainOut > expectedGrainOut then Inl (ruleError ErrBadCoinbaseValue)
                    else
                      let runScripts = (case LatestCheckpoint (cp_checkpoints P) of
                                          None \<Rightarrow> True
                                        | Some checkpoint \<Rightarrow> \<not> bn_height node \<le> ck_Height checkpoint)
                      in (case bn_parent node of
                            None \<Rightarrow> Inl rulePanic
                          | Some parent \<Rightarrow>
                              let medianTime = CalcPastMedianTime parent
                              in sbind (check_locks node medianTime view transactions) (\<lambda>_.
                                 sbind (if runScripts then checkBlockScripts C pick hpick transactions view caches else Inr caches) (\<lambda>caches.
                                   Inr (SetBestHash view (bn_hash node), stxos, caches)))))))))"

subsection \<open>Loading keeps the coins\<close>

definition source_coins :: "utxoSource \<Rightarrow> coins" where
  "source_coins cache op = (case cache op of Inl _ \<Rightarrow> None | Inr entry \<Rightarrow> unspent entry)"

lemma put_entry_simps [simp]:
  "uv_bestHash (put_entry view op entry) = uv_bestHash view"
  "uv_entries (put_entry view op entry) = (uv_entries view)(op \<mapsto> entry)"
  by (simp_all add: put_entry_def)

lemma fetch_entries_length: "fetch_entries cache ops = Inr ents \<Longrightarrow> length ents = length ops"
  by (induction ops arbitrary: ents) (auto simp: sbind_eq_Inr)

lemma fetched_entries:
  "fetch_entries cache ops = Inr ents \<Longrightarrow>
     let view' = fold (\<lambda>(outpoint, entry) view. put_entry view outpoint entry) (zip ops ents) view
     in (\<forall>op. op \<notin> set ops \<longrightarrow> uv_entries view' op = uv_entries view op) \<and>
        (\<forall>op \<in> set ops. \<exists>entry. cache op = Inr entry \<and> uv_entries view' op = Some entry) \<and> uv_bestHash view' = uv_bestHash view"
proof (induction ops arbitrary: ents view)
  case (Cons op ops)
  then obtain e es where e: "cache op = Inr e" "fetch_entries cache ops = Inr es" "ents = e # es" by (auto simp: sbind_eq_Inr)
  note IH = Cons.IH [OF e(2), of "put_entry view op e", unfolded Let_def]
  have "\<exists>entry. cache op' = Inr entry \<and> uv_entries (fold (\<lambda>(outpoint, entry) view. put_entry view outpoint entry) (zip (op # ops) ents) view) op' = Some entry"
    if "op' \<in> set (op # ops)" for op'
  proof (cases "op' \<in> set ops")
    case True
    then show ?thesis using IH e by simp
  next
    case False
    then show ?thesis using IH e that by simp
  qed
  then have "\<forall>op' \<in> set (op # ops). \<exists>entry. cache op' = Inr entry \<and>
      uv_entries (fold (\<lambda>(outpoint, entry) view. put_entry view outpoint entry) (zip (op # ops) ents) view) op' = Some entry" by blast
  moreover have "uv_entries (fold (\<lambda>(outpoint, entry) view. put_entry view outpoint entry) (zip (op # ops) ents) view) op' = uv_entries view op'"
    if "op' \<notin> set (op # ops)" for op' using IH that e(3) by simp
  moreover have "uv_bestHash (fold (\<lambda>(outpoint, entry) view. put_entry view outpoint entry) (zip (op # ops) ents) view) = uv_bestHash view"
    using IH e(3) by simp
  ultimately show ?case unfolding Let_def by blast
qed simp

lemma fetchUtxosFromCache_entries:
  assumes "fetchUtxosFromCache cache view ops = Inr view'"
  shows "op \<notin> set ops \<Longrightarrow> uv_entries view' op = uv_entries view op"
    and "op \<in> set ops \<Longrightarrow> \<exists>entry. cache op = Inr entry \<and> uv_entries view' op = Some entry"
    and "uv_bestHash view' = uv_bestHash view"
proof -
  obtain ents where "ops = [] \<and> view' = view \<or> fetch_entries cache ops = Inr ents \<and>
      view' = fold (\<lambda>(outpoint, entry) view. put_entry view outpoint entry) (zip ops ents) view"
    using assms by (auto simp: fetchUtxosFromCache_def sbind_eq_Inr split: if_splits)
  then show "op \<notin> set ops \<Longrightarrow> uv_entries view' op = uv_entries view op"
      "op \<in> set ops \<Longrightarrow> \<exists>entry. cache op = Inr entry \<and> uv_entries view' op = Some entry"
      "uv_bestHash view' = uv_bestHash view"
    using fetched_entries [of cache ops ents view] by (auto simp: Let_def)
qed

lemma fetchUtxosFromCache_coins:
  assumes "fetchUtxosFromCache cache view ops = Inr view'" "\<forall>op \<in> set ops. uv_entries view op = None"
  shows "view_coins (source_coins cache) view' = view_coins (source_coins cache) view"
proof
  fix op
  show "view_coins (source_coins cache) view' op = view_coins (source_coins cache) view op"
    using fetchUtxosFromCache_entries(1,2) [OF assms(1), of op] assms(2)
    by (cases "op \<in> set ops") (auto simp: view_coins_def source_coins_def)
qed

lemma fetchUtxos_loads:
  assumes "fetchUtxos cache view ops = Inr view'"
  shows "view_coins (source_coins cache) view' = view_coins (source_coins cache) view"
    and "op \<in> set ops \<Longrightarrow> uv_entries view' op \<noteq> None" and "uv_bestHash view' = uv_bestHash view"
proof -
  let ?ops = "filter (\<lambda>outpoint. uv_entries view outpoint = None) ops"
  have f: "ops = [] \<and> view' = view \<or> fetchUtxosFromCache cache view ?ops = Inr view'"
    using assms by (auto simp: fetchUtxos_def split: if_splits)
  have none: "\<forall>op \<in> set ?ops. uv_entries view op = None" by simp
  show "view_coins (source_coins cache) view' = view_coins (source_coins cache) view" "uv_bestHash view' = uv_bestHash view"
    using f fetchUtxosFromCache_coins [OF _ none] fetchUtxosFromCache_entries(3) by metis+
  show "uv_entries view' op \<noteq> None" if "op \<in> set ops"
  proof (cases "uv_entries view op = None")
    case True
    then have "op \<in> set ?ops" "fetchUtxosFromCache cache view ?ops = Inr view'" using that f by auto
    then show ?thesis using fetchUtxosFromCache_entries(2) by blast
  next
    case False
    then have "op \<notin> set ?ops" by simp
    then have "uv_entries view' op = uv_entries view op" using f fetchUtxosFromCache_entries(1) by blast
    with False show ?thesis by simp
  qed
qed

lemma in_tx_outpoints: "op \<in> set (tx_outpoints dh tx) \<longleftrightarrow> out_Hash op = TxHash dh tx \<and> out_Index op < length (tx_TxOut tx)"
  by (cases op) (auto simp: tx_outpoints_def image_iff)

lemma dom_created: "op \<in> dom (created dh h tx) \<Longrightarrow> op \<in> set (tx_outpoints dh tx)"
  by (auto simp: created_def created_from_def in_tx_outpoints split: if_splits)

definition block_outs :: "(bytes \<Rightarrow> hash) \<Rightarrow> int \<Rightarrow> MsgTx list \<Rightarrow> OutPoint set" where
  "block_outs dh h txs = (\<Union>tx \<in> set txs. dom (created dh h tx))"

lemma block_outs_simps [simp]:
  "block_outs dh h [] = {}" "block_outs dh h (tx # txs) = dom (created dh h tx) \<union> block_outs dh h txs"
  by (simp_all add: block_outs_def)

lemma view_coins_none: "view_coins U view op = None \<longleftrightarrow>
    (case LookupEntry view op of None \<Rightarrow> uv_entries view op = None \<longrightarrow> U op = None | Some entry \<Rightarrow> IsSpent entry)"
  by (auto simp: view_coins_def LookupEntry_def unspent_def split: option.splits)

lemma checkBIP0030_coins:
  assumes "checkBIP0030 dh cache blk view = Inr view'"
  shows "view_coins (source_coins cache) view' = view_coins (source_coins cache) view" "uv_bestHash view' = uv_bestHash view"
    and "\<And>tx op. tx \<in> set (bk_Transactions blk) \<Longrightarrow> op \<in> set (tx_outpoints dh tx) \<Longrightarrow>
      uv_entries view' op \<noteq> None \<and> view_coins (source_coins cache) view op = None"
proof -
  let ?fetch = "concat (map (tx_outpoints dh) (bk_Transactions blk))"
  have f: "fetchUtxos cache view ?fetch = Inr view'"
      "\<not> list_ex (\<lambda>outpoint. case LookupEntry view' outpoint of None \<Rightarrow> False | Some utxo \<Rightarrow> \<not> IsSpent utxo) ?fetch"
    using assms by (auto simp: checkBIP0030_def Let_def sbind_eq_Inr split: if_splits simp del: set_concat list_ex_iff)
  note loads = fetchUtxos_loads [OF f(1)]
  show "view_coins (source_coins cache) view' = view_coins (source_coins cache) view" "uv_bestHash view' = uv_bestHash view"
    by (rule loads)+
  fix tx op assume "tx \<in> set (bk_Transactions blk)" "op \<in> set (tx_outpoints dh tx)"
  then have op: "op \<in> set ?fetch" by auto
  with f(2) have "case LookupEntry view' op of None \<Rightarrow> True | Some utxo \<Rightarrow> IsSpent utxo"
    unfolding list_ex_iff by (auto split: option.splits)
  then have "view_coins (source_coins cache) view' op = None"
    using loads(2) [OF op] by (auto simp: view_coins_none split: option.splits)
  then show "uv_entries view' op \<noteq> None \<and> view_coins (source_coins cache) view op = None"
    using loads(1,2) op by simp
qed

text \<open>The outputs of the block are known to the view after the check against overwriting. What the search for the inputs adds to the
  view are then only such outputs.\<close>

lemma add_outs_keys: "dom (uv_entries (add_outs h cb bh k outs view)) \<subseteq>
    dom (uv_entries view) \<union> {op. out_Hash op = h \<and> k \<le> out_Index op \<and> out_Index op < k + length outs}"
proof (induction outs arbitrary: k view)
  case (Cons txOut outs)
  show ?case using Cons.IH [of "Suc k" "addTxOut view \<lparr>out_Hash = h, out_Index = k\<rparr> txOut cb bh"]
    by (auto simp: addTxOut_def split: if_splits)
qed simp

lemma add_outs_keeps: "dom (uv_entries view) \<subseteq> dom (uv_entries (add_outs h cb bh k outs view))"
proof (induction outs arbitrary: k view)
  case (Cons txOut outs)
  have "dom (uv_entries view) \<subseteq> dom (uv_entries (addTxOut view \<lparr>out_Hash = h, out_Index = k\<rparr> txOut cb bh))"
    by (auto simp: addTxOut_def)
  with Cons.IH [of "addTxOut view \<lparr>out_Hash = h, out_Index = k\<rparr> txOut cb bh" "Suc k"] show ?case by simp
qed simp

lemma add_outs_best [simp]: "uv_bestHash (add_outs h cb bh k outs view) = uv_bestHash view"
  by (induction outs arbitrary: k view) (simp_all add: addTxOut_def)

lemma AddTxOuts_keys:
  assumes "set (tx_outpoints dh tx) \<subseteq> dom (uv_entries view)"
  shows "dom (uv_entries (AddTxOuts dh view tx h)) = dom (uv_entries view)"
proof -
  have "{op. out_Hash op = TxHash dh tx \<and> 0 \<le> out_Index op \<and> out_Index op < 0 + length (tx_TxOut tx)} = set (tx_outpoints dh tx)"
    by (auto simp: in_tx_outpoints)
  from add_outs_keys [of "TxHash dh tx" "IsCoinBaseTx tx" h 0 "tx_TxOut tx" view, unfolded this Un_absorb2 [OF assms]]
  show ?thesis unfolding AddTxOuts_def by (rule equalityI [OF _ add_outs_keeps])
qed

lemma txInFlight_index: "txInFlight dh txs hash = Some j \<Longrightarrow> j < length txs \<and> TxHash dh (txs ! j) = hash"
proof -
  assume "txInFlight dh txs hash = Some j"
  then have "(hash, j) \<in> set (rev (zip (map (TxHash dh) txs) [0..<length txs]))" unfolding txInFlight_def by (rule map_of_SomeD)
  then show ?thesis by (auto simp: set_zip)
qed

definition same_keys :: "(bytes \<Rightarrow> hash) \<Rightarrow> int \<Rightarrow> coins \<Rightarrow> MsgTx list \<Rightarrow> UtxoViewpoint \<Rightarrow> UtxoViewpoint \<Rightarrow> bool" where
  "same_keys dh h U txs view view' \<longleftrightarrow> dom (uv_entries view') = dom (uv_entries view) \<and> uv_bestHash view' = uv_bestHash view \<and>
     (\<forall>op. op \<notin> block_outs dh h txs \<longrightarrow> view_coins U view' op = view_coins U view op)"

lemma AddTxOuts_same_keys:
  assumes "set (tx_outpoints dh tx) \<subseteq> dom (uv_entries view)" "tx \<in> set txs"
  shows "same_keys dh h U txs view (AddTxOuts dh view tx h)"
proof -
  have "view_coins U (AddTxOuts dh view tx h) op = view_coins U view op" if "op \<notin> block_outs dh h txs" for op
  proof -
    have "created dh h tx op = None" using that assms(2) by (auto simp: block_outs_def)
    then show ?thesis by (simp add: AddTxOuts_coins map_add_def)
  qed
  then show ?thesis using AddTxOuts_keys [OF assms(1)] by (simp add: same_keys_def AddTxOuts_def)
qed

lemma same_keys_trans: "same_keys dh h U txs v1 v2 \<Longrightarrow> same_keys dh h U txs v2 v3 \<Longrightarrow> same_keys dh h U txs v1 v3"
  by (simp add: same_keys_def)

lemma find_tx_inputs_keys:
  assumes "\<forall>tx \<in> set (bk_Transactions blk). set (tx_outpoints dh tx) \<subseteq> dom (uv_entries view)" "bk_Height blk = h"
    "\<forall>op \<in> set needed. uv_entries view op = None"
  shows "let (view', needed') = find_tx_inputs dh blk i ins (view, needed)
    in same_keys dh h U (bk_Transactions blk) view view' \<and> (\<forall>op \<in> set needed'. uv_entries view op = None)"
  using assms
proof (induction ins arbitrary: view needed)
  case Nil
  then show ?case by (simp add: same_keys_def)
next
  case (Cons txIn ins)
  let ?op = "ti_PreviousOutPoint txIn"
  let ?fl = "txInFlight dh (bk_Transactions blk) (out_Hash ?op)"
  let ?step = "case ?fl of
      Some j \<Rightarrow> if i \<ge> j then (AddTxOuts dh view (bk_Transactions blk ! j) (bk_Height blk), needed)
                else if uv_entries view ?op \<noteq> None then (view, needed) else (view, needed @ [?op])
    | None \<Rightarrow> if uv_entries view ?op \<noteq> None then (view, needed) else (view, needed @ [?op])"
  obtain view1 needed1 where s: "?step = (view1, needed1)" by fastforce
  have k: "same_keys dh h U (bk_Transactions blk) view view1 \<and> (\<forall>op \<in> set needed1. uv_entries view op = None)"
  proof (cases "\<exists>j. ?fl = Some j \<and> i \<ge> j")
    case True
    then obtain j where j: "?fl = Some j" "i \<ge> j" by blast
    then have "bk_Transactions blk ! j \<in> set (bk_Transactions blk)" using txInFlight_index by (metis nth_mem)
    with j s Cons.prems show ?thesis using AddTxOuts_same_keys [of dh "bk_Transactions blk ! j" view "bk_Transactions blk" h U] by auto
  next
    case False
    then have "(view1, needed1) = (if uv_entries view ?op \<noteq> None then (view, needed) else (view, needed @ [?op]))"
      using s by (cases ?fl) (auto simp del: not_None_eq split: if_splits)
    then show ?thesis using Cons.prems(3) by (auto simp: same_keys_def split: if_splits)
  qed
  then have d: "dom (uv_entries view1) = dom (uv_entries view)" by (simp add: same_keys_def)
  then have n: "uv_entries view1 op = None \<longleftrightarrow> uv_entries view op = None" for op by auto
  show ?case using Cons.IH [of view1 needed1] Cons.prems k d s same_keys_trans n
    by (auto simp: Let_def simp del: not_None_eq split: prod.splits)
qed

lemma find_inputs_keys:
  assumes "\<forall>tx \<in> set (bk_Transactions blk). set (tx_outpoints dh tx) \<subseteq> dom (uv_entries view)" "bk_Height blk = h"
    "\<forall>op \<in> set needed. uv_entries view op = None" "find_inputs dh blk i txs (view, needed) = (view', needed')"
  shows "same_keys dh h U (bk_Transactions blk) view view' \<and> (\<forall>op \<in> set needed'. uv_entries view op = None)"
  using assms
proof (induction txs arbitrary: i view needed)
  case Nil
  then show ?case by (simp add: same_keys_def)
next
  case (Cons tx txs)
  obtain view1 needed1 where s: "find_tx_inputs dh blk i (tx_TxIn tx) (view, needed) = (view1, needed1)" by fastforce
  note k = find_tx_inputs_keys [OF Cons.prems(1-3), of i "tx_TxIn tx" U, unfolded s Let_def split_conv]
  then have d: "dom (uv_entries view1) = dom (uv_entries view)" by (simp add: same_keys_def)
  then have n: "uv_entries view1 op = None \<longleftrightarrow> uv_entries view op = None" for op by auto
  have "find_inputs dh blk (Suc i) txs (view1, needed1) = (view', needed')" using Cons.prems(4) s by simp
  from Cons.IH [OF _ Cons.prems(2) _ this] Cons.prems(1) k d n same_keys_trans show ?case by auto
qed

lemma fetchInputUtxos_coins:
  assumes "\<forall>tx \<in> set (bk_Transactions blk). set (tx_outpoints dh tx) \<subseteq> dom (uv_entries view)" "bk_Height blk = h"
    "fetchInputUtxos dh cache view blk = Inr view'"
  shows "(\<forall>op. op \<notin> block_outs dh h (bk_Transactions blk) \<longrightarrow>
      view_coins (source_coins cache) view' op = view_coins (source_coins cache) view op) \<and> uv_bestHash view' = uv_bestHash view"
proof -
  obtain view1 needed where s: "findInputsToFetch dh view blk = Inr (view1, needed)" "fetchUtxosFromCache cache view1 needed = Inr view'"
    using assms(3) by (auto simp: fetchInputUtxos_def sbind_eq_Inr)
  then obtain i txs where "find_inputs dh blk i txs (view, []) = (view1, needed)"
    by (auto simp: findInputsToFetch_def split: list.splits)
  note k = find_inputs_keys [OF assms(1,2) _ this, of "source_coins cache"]
  then have "\<forall>op \<in> set needed. uv_entries view1 op = None" by (auto simp: same_keys_def)
  from fetchUtxosFromCache_coins [OF s(2) this] fetchUtxosFromCache_entries(3) [OF s(2)] k show ?thesis by (auto simp: same_keys_def)
qed

subsection \<open>What a transaction may spend\<close>

definition spendable :: "int \<Rightarrow> nat \<Rightarrow> coins \<Rightarrow> OutPoint \<Rightarrow> bool" where
  "spendable h maturity coins op =
     (case coins op of
        None \<Rightarrow> False
      | Some c \<Rightarrow> 0 \<le> co_amount c \<and> (co_coinbase c \<longrightarrow> int maturity \<le> int32_of (h - co_height c)))"

definition value_at :: "coins \<Rightarrow> OutPoint \<Rightarrow> int" where
  "value_at coins op = (case coins op of None \<Rightarrow> 0 | Some c \<Rightarrow> co_amount c)"

definition spent_value :: "coins \<Rightarrow> MsgTx \<Rightarrow> int" where
  "spent_value coins tx = (if IsCoinBaseTx tx then 0 else sum_list (map (value_at coins) (prevouts tx)))"

definition tx_allowed :: "int \<Rightarrow> nat \<Rightarrow> coins \<Rightarrow> MsgTx \<Rightarrow> bool" where
  "tx_allowed h maturity coins tx \<longleftrightarrow> IsCoinBaseTx tx \<or>
     list_all (spendable h maturity coins) (prevouts tx) \<and> distinct (prevouts tx) \<and>
     total_value (tx_TxOut tx) \<le> spent_value coins tx \<and> spent_value coins tx \<le> MaxGrain"

fun block_allowed :: "(bytes \<Rightarrow> hash) \<Rightarrow> int \<Rightarrow> nat \<Rightarrow> coins \<Rightarrow> MsgTx list \<Rightarrow> bool" where
  "block_allowed dh h maturity coins [] \<longleftrightarrow> True"
| "block_allowed dh h maturity coins (tx # txs) \<longleftrightarrow>
     tx_allowed h maturity coins tx \<and> creates_ok dh h coins tx \<and> block_allowed dh h maturity (apply_tx dh h tx coins) txs"

lemma tx_allowed_spends: "tx_allowed h maturity coins tx \<Longrightarrow> spends_ok coins tx"
  by (auto simp: tx_allowed_def spends_ok_def spendable_def list_all_iff split: option.splits)

lemma block_allowed_valid: "block_allowed dh h maturity coins txs \<Longrightarrow> valid_txs dh h coins txs"
  by (induction txs arbitrary: coins) (auto intro: tx_allowed_spends)

lemma spendable_value: "spendable h maturity coins op \<Longrightarrow> 0 \<le> value_at coins op"
  by (auto simp: spendable_def value_at_def split: option.splits)

lemma spendable_sum: "list_all (spendable h maturity coins) ops \<Longrightarrow> 0 \<le> sum_list (map (value_at coins) ops)"
  by (induction ops) (auto simp: spendable_value add_nonneg_nonneg)

lemma lookup_unspent:
  "view_coins Map.empty view op = (case LookupEntry view op of None \<Rightarrow> None | Some e \<Rightarrow> if IsSpent e then None else Some (coin_of e))"
  by (simp add: view_coins_def LookupEntry_def unspent_def split: option.split)

lemma check_inputs_iff:
  "0 \<le> t \<Longrightarrow> t \<le> MaxGrain \<Longrightarrow> check_inputs h (int maturity) view ins t = Inr t' \<longleftrightarrow>
    list_all (spendable h maturity (view_coins Map.empty view)) (map ti_PreviousOutPoint ins) \<and>
    t' = t + sum_list (map (value_at (view_coins Map.empty view)) (map ti_PreviousOutPoint ins)) \<and> t' \<le> MaxGrain"
proof (induction ins arbitrary: t)
  case (Cons txIn ins)
  let ?op = "ti_PreviousOutPoint txIn" and ?C = "view_coins Map.empty view"
  show ?case
  proof (cases "spendable h maturity ?C ?op")
    case True
    then obtain e where e: "LookupEntry view ?op = Some e" "\<not> IsSpent e" "0 \<le> ue_amount e"
        "ue_IsCoinBase e \<longrightarrow> int maturity \<le> int32_of (h - ue_blockHeight e)"
      by (auto simp: spendable_def lookup_unspent coin_of_def split: option.splits if_splits)
    then have v: "value_at ?C ?op = ue_amount e" by (simp add: value_at_def lookup_unspent coin_of_def)
    show ?thesis
    proof (cases "t + ue_amount e \<le> MaxGrain")
      case le: True
      have "int64_of (t + ue_amount e) = t + ue_amount e"
        using le Cons.prems(1) e(3) by (intro int64_of_id) (simp_all add: amounts)
      then have "check_inputs h (int maturity) view (txIn # ins) t = check_inputs h (int maturity) view ins (t + ue_amount e)"
        using e le Cons.prems(1) by auto
      with Cons.IH [of "t + ue_amount e"] Cons.prems(1) le e(3) True v show ?thesis by (auto simp: add.assoc)
    next
      case False
      have "check_inputs h (int maturity) view (txIn # ins) t = Inl (ruleError ErrBadTxOutValue)"
      proof (cases "ue_amount e \<le> MaxGrain")
        case True
        then have "int64_of (t + ue_amount e) = t + ue_amount e"
          using Cons.prems e(3) by (intro int64_of_id) (simp_all add: amounts)
        then show ?thesis using e False True by auto
      qed (use e in \<open>auto simp: Let_def\<close>)
      moreover have "0 \<le> sum_list (map (value_at ?C) (map ti_PreviousOutPoint ins))"
        if "list_all (spendable h maturity ?C) (map ti_PreviousOutPoint ins)" using spendable_sum [OF that] .
      ultimately show ?thesis using False v by auto
    qed
  next
    case False
    then show ?thesis
      by (auto simp: spendable_def lookup_unspent coin_of_def Let_def split: option.splits if_splits)
  qed
qed auto

lemma total_value_pos: "\<forall>txOut \<in> set outs. 0 \<le> to_Value txOut \<Longrightarrow> 0 \<le> total_value outs"
  by (induction outs) auto

lemma sum_outputs_value:
  assumes "\<forall>txOut \<in> set outs. 0 \<le> to_Value txOut" "total_value outs \<le> MaxGrain"
  shows "sum_outputs outs = total_value outs"
proof -
  have "foldl (\<lambda>t txOut. int64_of (t + to_Value txOut)) t outs = t + total_value outs"
    if "0 \<le> t" "t + total_value outs \<le> MaxGrain" for t
    using that assms(1)
  proof (induction outs arbitrary: t)
    case (Cons txOut outs)
    then have "0 \<le> total_value outs" by (simp add: total_value_pos)
    then have "t + to_Value txOut \<le> MaxGrain" "0 \<le> to_Value txOut" using Cons.prems by simp_all
    then have "int64_of (t + to_Value txOut) = t + to_Value txOut"
      using Cons.prems(1) by (intro int64_of_id) (simp_all add: amounts)
    then show ?case using Cons by (simp add: add.assoc)
  qed simp
  from this [of 0] assms(2) show ?thesis by (simp add: sum_outputs_def)
qed

definition sane_outputs :: "MsgTx \<Rightarrow> bool" where
  "sane_outputs tx \<longleftrightarrow> (\<forall>txOut \<in> set (tx_TxOut tx). 0 \<le> to_Value txOut) \<and> total_value (tx_TxOut tx) \<le> MaxGrain"

lemma CheckTransactionInputs_iff:
  assumes "sane_outputs tx" "distinct (prevouts tx)"
  shows "CheckTransactionInputs tx h view maturity = Inr fee \<longleftrightarrow>
    tx_allowed h maturity (view_coins Map.empty view) tx \<and>
    fee = (if IsCoinBaseTx tx then 0 else spent_value (view_coins Map.empty view) tx - total_value (tx_TxOut tx))"
proof (cases "IsCoinBaseTx tx")
  case False
  let ?out = "total_value (tx_TxOut tx)"
  have o: "sum_outputs (tx_TxOut tx) = ?out" "0 \<le> ?out" "?out \<le> MaxGrain"
    using assms(1) sum_outputs_value total_value_pos by (auto simp: sane_outputs_def)
  then have d: "int64_of (x - ?out) = x - ?out" if "x \<le> MaxGrain" "\<not> x < ?out" for x
    using that by (intro int64_of_id) (simp_all add: amounts)
  have "0 \<le> MaxGrain" by (simp add: amounts)
  with False assms(2) show ?thesis
    by (auto simp: CheckTransactionInputs_def sbind_eq_Inr check_inputs_iff Let_def tx_allowed_def prevouts_def o d spent_value_def
        split: if_splits)
qed (auto simp: CheckTransactionInputs_def tx_allowed_def)

subsection \<open>The coins of a block\<close>

text \<open>No transaction spends an output that itself or a later transaction of the block creates.\<close>

fun spends_earlier :: "(bytes \<Rightarrow> hash) \<Rightarrow> int \<Rightarrow> MsgTx list \<Rightarrow> bool" where
  "spends_earlier dh h [] \<longleftrightarrow> True"
| "spends_earlier dh h (tx # txs) \<longleftrightarrow>
     (IsCoinBaseTx tx \<or> (\<forall>op \<in> set (prevouts tx). \<forall>later \<in> set (tx # txs). created dh h later op = None)) \<and>
     spends_earlier dh h txs"

fun net_fees :: "(bytes \<Rightarrow> hash) \<Rightarrow> int \<Rightarrow> coins \<Rightarrow> MsgTx list \<Rightarrow> int" where
  "net_fees dh h coins [] = 0"
| "net_fees dh h coins (tx # txs) =
     (if IsCoinBaseTx tx then 0 else spent_value coins tx - total_value (tx_TxOut tx)) + net_fees dh h (apply_tx dh h tx coins) txs"

lemma int64_add_checked:
  assumes "0 \<le> a" "a < 2 ^ 63" "0 \<le> b" "b < 2 ^ 63" "\<not> int64_of (a + b) < a"
  shows "int64_of (a + b) = a + b \<and> a + b < 2 ^ 63"
proof (cases "a + b < 2 ^ 63")
  case True
  then show ?thesis using assms by (simp add: int64_of_id)
next
  case False
  have "int64_of (a + b) = int64_of (a + b - 2 ^ 64)"
    unfolding int64_of_def by (rule signed_take_bit_eq_iff_take_bit_eq [THEN iffD2]) (simp add: take_bit_eq_mod)
  also have "\<dots> = a + b - 2 ^ 64" using False assms(1-4) by (intro int64_of_id) simp_all
  finally show ?thesis using assms by simp
qed

lemma tx_allowed_mono:
  assumes "tx_allowed h maturity A tx" "\<And>op c. op \<in> set (prevouts tx) \<Longrightarrow> A op = Some c \<Longrightarrow> B op = Some c"
  shows "tx_allowed h maturity B tx \<and> spent_value B tx = spent_value A tx"
proof (cases "IsCoinBaseTx tx")
  case False
  have eq: "B op = A op" if "op \<in> set (prevouts tx)" for op
  proof -
    have "spendable h maturity A op" using assms(1) False that by (simp add: tx_allowed_def list_all_iff)
    then obtain c where "A op = Some c" by (auto simp: spendable_def split: option.splits)
    with assms(2) that show ?thesis by simp
  qed
  have "spent_value B tx = spent_value A tx"
    unfolding spent_value_def using eq by (auto simp: value_at_def intro: arg_cong [of _ _ sum_list])
  moreover have "list_all (spendable h maturity B) (prevouts tx) = list_all (spendable h maturity A) (prevouts tx)"
    using eq by (simp add: list_all_iff spendable_def)
  ultimately show ?thesis using assms(1) by (simp add: tx_allowed_def)
qed (simp add: tx_allowed_def spent_value_def)

lemma empty_view_coins: "view_coins Map.empty view op = Some c \<Longrightarrow> view_coins U view op = Some c"
  by (simp add: view_coins_def split: option.splits)

lemma created_disjoint: "TxHash dh a \<noteq> TxHash dh b \<Longrightarrow> dom (created dh h a) \<inter> dom (created dh h b) = {}"
  by (auto dest!: dom_created [OF domI] simp: in_tx_outpoints)

lemma block_outs_disjoint:
  "TxHash dh tx \<notin> set (map (TxHash dh) txs) \<Longrightarrow> dom (created dh h tx) \<inter> block_outs dh h txs = {}"
  using created_disjoint [of dh tx _ h] by (induction txs) (simp_all add: Int_Un_distrib)

lemma dom_apply_tx: "dom (apply_tx dh h tx coins) \<subseteq> dom coins \<union> dom (created dh h tx)"
  by (auto simp: apply_tx_def restrict_map_def split: if_splits)

lemma apply_tx_agree:
  assumes "\<forall>op. op \<notin> dom (created dh h tx) \<union> D \<longrightarrow> a op = b op"
  shows "\<forall>op. op \<notin> D \<longrightarrow> apply_tx dh h tx a op = apply_tx dh h tx b op"
proof (intro allI impI)
  fix op assume "op \<notin> D"
  with assms have "created dh h tx op = None \<Longrightarrow> a op = b op" by (auto simp: dom_def)
  then show "apply_tx dh h tx a op = apply_tx dh h tx b op"
    by (cases "created dh h tx op") (auto simp: apply_tx_def map_add_def restrict_map_def)
qed

lemma check_txs_spec:
  assumes "check_txs dh h maturity txs view stxos fees = Inr (view', stxos', fees')"
    "\<forall>tx \<in> set txs. sane_outputs tx \<and> distinct (prevouts tx)" "spends_earlier dh h txs" "distinct (map (TxHash dh) txs)"
    "\<forall>op. op \<notin> block_outs dh h txs \<longrightarrow> view_coins U view op = coins op" "block_outs dh h txs \<inter> dom coins = {}"
    "0 \<le> fees" "fees < 2 ^ 63"
  shows "block_allowed dh h maturity coins txs \<and> view_coins U view' = apply_txs dh h txs coins \<and>
    stxos' = stxos @ block_details dh h coins txs \<and> fees' = fees + net_fees dh h coins txs \<and> 0 \<le> fees' \<and> fees' < 2 ^ 63"
  using assms
proof (induction txs arbitrary: view stxos fees coins)
  case Nil
  then show ?case by (simp add: fun_eq_iff)
next
  case (Cons tx txs)
  from Cons.prems(1) obtain fee view1 stxos1 where s: "CheckTransactionInputs tx h view maturity = Inr fee"
      "\<not> int64_of (fees + fee) < fees" "connectTransaction dh view tx h stxos = Inr (view1, stxos1)"
      "check_txs dh h maturity txs view1 stxos1 (int64_of (fees + fee)) = Inr (view', stxos', fees')"
    by (auto simp: sbind_eq_Inr Let_def split: if_splits)
  have o: "sane_outputs tx" "distinct (prevouts tx)" using Cons.prems(2) by simp_all
  have a: "tx_allowed h maturity (view_coins Map.empty view) tx"
      "fee = (if IsCoinBaseTx tx then 0 else spent_value (view_coins Map.empty view) tx - total_value (tx_TxOut tx))"
    using s(1) CheckTransactionInputs_iff [OF o] by simp_all
  have in_outs: "op \<notin> block_outs dh h (tx # txs)" if "op \<in> set (prevouts tx)" "\<not> IsCoinBaseTx tx" for op
    using Cons.prems(3) that by (auto simp: block_outs_def)
  have b: "tx_allowed h maturity coins tx \<and> spent_value coins tx = spent_value (view_coins Map.empty view) tx"
  proof (cases "IsCoinBaseTx tx")
    case False
    show ?thesis by (rule tx_allowed_mono [OF a(1)]) (metis in_outs False empty_view_coins Cons.prems(5))
  qed (simp add: tx_allowed_def spent_value_def)
  have "0 \<le> total_value (tx_TxOut tx)" using o(1) by (simp add: sane_outputs_def total_value_pos)
  then have fee: "0 \<le> fee" "fee < 2 ^ 63" using a by (auto simp: tx_allowed_def amounts)
  note add = int64_add_checked [OF Cons.prems(7,8) fee s(2)]
  have c: "creates_ok dh h coins tx" using Cons.prems(6) by (auto simp: creates_ok_def)
  have d: "dom (created dh h tx) \<inter> block_outs dh h txs = {}" using Cons.prems(4) by (intro block_outs_disjoint) simp
  have agree: "\<forall>op. op \<notin> block_outs dh h txs \<longrightarrow> view_coins U view1 op = apply_tx dh h tx coins op"
    unfolding connectTransaction_coins [OF s(3)] using Cons.prems(5) by (intro apply_tx_agree) simp
  have "stxos1 = stxos @ tx_details tx coins"
  proof (cases "IsCoinBaseTx tx")
    case False
    have "tx_allowed h maturity (view_coins U view) tx" using tx_allowed_mono [OF a(1)] empty_view_coins by blast
    then have "stxos1 = stxos @ tx_details tx (view_coins U view)" using connectTransaction_details [OF s(3)] tx_allowed_spends by blast
    moreover have "tx_details tx (view_coins U view) = tx_details tx coins"
      using Cons.prems(5) in_outs False by (simp add: tx_details_def spent_coins_def)
    ultimately show ?thesis by simp
  qed (use s(3) in \<open>simp add: connectTransaction_def tx_details_def\<close>)
  moreover have "block_allowed dh h maturity (apply_tx dh h tx coins) txs \<and> view_coins U view' = apply_txs dh h txs (apply_tx dh h tx coins) \<and>
      stxos' = stxos1 @ block_details dh h (apply_tx dh h tx coins) txs \<and>
      fees' = (fees + fee) + net_fees dh h (apply_tx dh h tx coins) txs \<and> 0 \<le> fees' \<and> fees' < 2 ^ 63"
  proof (rule Cons.IH)
    show "check_txs dh h maturity txs view1 stxos1 (fees + fee) = Inr (view', stxos', fees')" using s(4) add by simp
    show "block_outs dh h txs \<inter> dom (apply_tx dh h tx coins) = {}"
      using dom_apply_tx [of dh h tx coins] d Cons.prems(6) unfolding block_outs_simps by blast
    show "0 \<le> fees + fee" "fees + fee < 2 ^ 63" using add fee Cons.prems(7) by simp_all
  qed (use Cons.prems(2-4) agree in auto)
  ultimately show ?case using a(2) b c by (simp add: add.assoc)
qed

subsection \<open>Values\<close>

definition coin_total :: "coins \<Rightarrow> int" where
  "coin_total coins = (\<Sum>op \<in> dom coins. value_at coins op)"

lemma coin_total_empty [simp]: "coin_total Map.empty = 0"
  by (simp add: coin_total_def)

lemma coin_total_add:
  assumes "finite (dom a)" "finite (dom b)" "dom a \<inter> dom b = {}"
  shows "coin_total (a ++ b) = coin_total a + coin_total b"
proof -
  have "coin_total (a ++ b) = (\<Sum>op \<in> dom a. value_at (a ++ b) op) + (\<Sum>op \<in> dom b. value_at (a ++ b) op)"
    using assms by (simp add: coin_total_def sum.union_disjoint Un_commute Int_commute)
  also have "(\<Sum>op \<in> dom a. value_at (a ++ b) op) = coin_total a"
    unfolding coin_total_def using assms(3)
    by (intro sum.cong) (auto simp: value_at_def map_add_def disjoint_iff dom_def split: option.split)
  also have "(\<Sum>op \<in> dom b. value_at (a ++ b) op) = coin_total b"
    unfolding coin_total_def by (intro sum.cong) (auto simp: value_at_def map_add_def)
  finally show ?thesis .
qed

lemma coin_total_restrict:
  assumes "finite (dom m)" "distinct ops" "set ops \<subseteq> dom m"
  shows "coin_total (m |` (- set ops)) = coin_total m - sum_list (map (value_at m) ops)"
proof -
  have "coin_total (m |` (- set ops)) = (\<Sum>op \<in> dom m - set ops. value_at m op)"
    unfolding coin_total_def by (intro sum.cong) (auto simp: value_at_def restrict_map_def split: if_splits)
  also have "\<dots> = coin_total m - (\<Sum>op \<in> set ops. value_at m op)"
    unfolding coin_total_def using assms(1,3) by (rule sum_diff)
  also have "(\<Sum>op \<in> set ops. value_at m op) = sum_list (map (value_at m) ops)"
    using assms(2) by (simp add: sum_list_distinct_conv_sum_set)
  finally show ?thesis .
qed

lemma coin_total_created_from:
  "\<forall>txOut \<in> set outs. 0 \<le> to_Value txOut \<Longrightarrow>
     finite (dom (created_from h cb bh k outs)) \<and> coin_total (created_from h cb bh k outs) \<le> total_value outs"
proof (induction outs arbitrary: k)
  case (Cons txOut outs)
  let ?op = "\<lparr>out_Hash = h, out_Index = k\<rparr>" and ?m = "created_from h cb bh (Suc k) outs"
  let ?c = "\<lparr>co_amount = to_Value txOut, co_pkScript = to_PkScript txOut, co_height = bh, co_coinbase = cb\<rparr>"
  have n: "?m ?op = None" by (simp add: created_from_def)
  have IH: "finite (dom ?m)" "coin_total ?m \<le> total_value outs" using Cons by simp_all
  have eq: "created_from h cb bh k (txOut # outs) = (if IsUnspendable (to_PkScript txOut) then ?m else ?m ++ [?op \<mapsto> ?c])"
    unfolding created_from_Cons using n by (auto simp: fun_eq_iff)
  have "coin_total (?m ++ [?op \<mapsto> ?c]) = coin_total ?m + to_Value txOut"
    using coin_total_add [of ?m "[?op \<mapsto> ?c]"] IH(1) n by (simp add: coin_total_def value_at_def dom_def)
  then show ?case unfolding eq using IH Cons.prems by simp
qed simp

lemma apply_tx_total:
  assumes "finite (dom coins)" "spends_ok coins tx" "creates_ok dh h coins tx" "sane_outputs tx"
  shows "finite (dom (apply_tx dh h tx coins)) \<and>
    coin_total (apply_tx dh h tx coins) \<le> coin_total coins - spent_value coins tx + total_value (tx_TxOut tx)"
proof -
  let ?left = "if IsCoinBaseTx tx then coins else coins |` (- set (prevouts tx))"
  have l: "coin_total ?left = coin_total coins - spent_value coins tx" "dom ?left \<subseteq> dom coins"
    using assms(1,2) by (auto simp: spends_ok_def spent_value_def coin_total_restrict)
  have c: "finite (dom (created dh h tx))" "coin_total (created dh h tx) \<le> total_value (tx_TxOut tx)"
    using coin_total_created_from assms(4) by (simp_all add: created_def sane_outputs_def)
  have f: "finite (dom ?left)" using l(2) assms(1) by (rule finite_subset)
  have d: "dom ?left \<inter> dom (created dh h tx) = {}" using l(2) assms(3) by (auto simp only: creates_ok_def)
  have "finite (dom (apply_tx dh h tx coins))" unfolding apply_tx_def dom_map_add using f c(1) by (simp only: finite_Un)
  moreover have "coin_total (apply_tx dh h tx coins) = coin_total ?left + coin_total (created dh h tx)"
    unfolding apply_tx_def by (rule coin_total_add [OF f c(1) d])
  ultimately show ?thesis using l(1) c(2) by simp
qed

definition coinbase_value :: "MsgTx list \<Rightarrow> int" where
  "coinbase_value txs = sum_list (map (\<lambda>tx. total_value (tx_TxOut tx)) (filter IsCoinBaseTx txs))"

lemma block_total:
  "block_allowed dh h maturity coins txs \<Longrightarrow> \<forall>tx \<in> set txs. sane_outputs tx \<Longrightarrow> finite (dom coins) \<Longrightarrow>
     finite (dom (apply_txs dh h txs coins)) \<and>
     coin_total (apply_txs dh h txs coins) \<le> coin_total coins - net_fees dh h coins txs + coinbase_value txs"
proof (induction txs arbitrary: coins)
  case (Cons tx txs)
  then have t: "finite (dom (apply_tx dh h tx coins)) \<and>
      coin_total (apply_tx dh h tx coins) \<le> coin_total coins - spent_value coins tx + total_value (tx_TxOut tx)"
    by (intro apply_tx_total) (auto intro: tx_allowed_spends)
  from Cons.IH [of "apply_tx dh h tx coins"] Cons.prems t show ?case
    by (auto simp: coinbase_value_def spent_value_def)
qed (simp add: coinbase_value_def)

end
