(* ===== verification/Ledger.thy ===== *)
theory Ledger
  imports Block_Connect
begin

text \<open>
  What \<open>checkConnectBlock\<close> establishes. An accepted block moves the coins as its transactions say, has executed the script of every
  coin it spends and creates at most the subsidy; over a chain of accepted blocks the coins stay below the total supply. The
  results need that no transaction spends an output of its own or of a later one in the block: a concrete block shows that
  the checks do not establish this themselves.
\<close>

subsection \<open>Accepted blocks\<close>

definition coin_out :: "coin \<Rightarrow> TxOut" where
  "coin_out c = \<lparr>to_Value = co_amount c, to_PkScript = co_pkScript c\<rparr>"

lemma FetchPrevOutput_entry:
  "FetchPrevOutput view op = Some t \<longleftrightarrow> (\<exists>e. LookupEntry view op = Some e \<and> t = \<lparr>to_Value = ue_amount e, to_PkScript = ue_pkScript e\<rparr>)"
  by (auto simp: FetchPrevOutput_def split: option.split)

lemma FetchPrevOutput_put:
  "FetchPrevOutput (put_entry view op entry) op' =
     (if op' = op then map_option (\<lambda>e. \<lparr>to_Value = ue_amount e, to_PkScript = ue_pkScript e\<rparr>) entry else FetchPrevOutput view op')"
  by (auto simp: FetchPrevOutput_def LookupEntry_def split: option.split)

lemma Spend_output: "ue_amount (Spend e) = ue_amount e" "ue_pkScript (Spend e) = ue_pkScript e"
  by (simp_all add: Spend_def)

lemma spend_ins_outputs:
  "spend_ins ins view stxos = Inr (view', stxos') \<Longrightarrow> FetchPrevOutput view op = Some t \<Longrightarrow> FetchPrevOutput view' op = Some t"
proof (induction ins arbitrary: view stxos)
  case (Cons txIn ins)
  then obtain e where e: "LookupEntry view (ti_PreviousOutPoint txIn) = Some e" by (auto split: option.splits)
  then have "FetchPrevOutput (put_entry view (ti_PreviousOutPoint txIn) (Some (Spend e))) op = Some t"
    using Cons.prems(2) by (auto simp: FetchPrevOutput_put FetchPrevOutput_entry Spend_output)
  with Cons e show ?case by auto
qed simp

lemma add_outs_outputs:
  "created_from h cb bh k outs op = None \<Longrightarrow> FetchPrevOutput (add_outs h cb bh k outs view) op = FetchPrevOutput view op"
  by (induction outs arbitrary: k view)
    (auto simp: created_from_Cons addTxOut_def FetchPrevOutput_put split: if_splits)

lemma connectTransaction_outputs:
  assumes "connectTransaction dh view tx h stxos = Inr (view', stxos')" "FetchPrevOutput view op = Some t" "created dh h tx op = None"
  shows "FetchPrevOutput view' op = Some t"
  using assms add_outs_outputs spend_ins_outputs [of "tx_TxIn tx" view stxos]
  by (fastforce simp: connectTransaction_def AddTxOuts_def created_def sbind_eq_Inr split: if_splits)

lemma check_txs_outputs:
  "check_txs dh h maturity txs view stxos fees = Inr (view', stxos', fees') \<Longrightarrow> FetchPrevOutput view op = Some t \<Longrightarrow>
     op \<notin> block_outs dh h txs \<Longrightarrow> FetchPrevOutput view' op = Some t"
proof (induction txs arbitrary: view stxos fees)
  case (Cons tx txs)
  then obtain view1 stxos1 fees1 where s: "connectTransaction dh view tx h stxos = Inr (view1, stxos1)"
      "check_txs dh h maturity txs view1 stxos1 fees1 = Inr (view', stxos', fees')"
    by (auto simp: sbind_eq_Inr Let_def split: if_splits)
  then show ?case using Cons connectTransaction_outputs [OF s(1) Cons.prems(2)] by auto
qed simp

text \<open>The outputs that the scripts are checked against are those of the spent coins.\<close>

fun outputs_known :: "PrevOutputFetcher \<Rightarrow> (bytes \<Rightarrow> hash) \<Rightarrow> int \<Rightarrow> coins \<Rightarrow> MsgTx list \<Rightarrow> bool" where
  "outputs_known F dh h coins [] \<longleftrightarrow> True"
| "outputs_known F dh h coins (tx # txs) \<longleftrightarrow>
     (IsCoinBaseTx tx \<or> (\<forall>op \<in> set (prevouts tx). \<exists>c. coins op = Some c \<and> F op = Some (coin_out c))) \<and>
     outputs_known F dh h (apply_tx dh h tx coins) txs"

lemma check_txs_known:
  assumes "check_txs dh h maturity txs view stxos fees = Inr (view', stxos', fees')"
    "\<forall>tx \<in> set txs. sane_outputs tx \<and> distinct (prevouts tx)" "spends_earlier dh h txs"
    "\<forall>op. op \<notin> block_outs dh h txs \<longrightarrow> view_coins U view op = coins op"
  shows "outputs_known (FetchPrevOutput view') dh h coins txs"
  using assms
proof (induction txs arbitrary: view stxos fees coins)
  case (Cons tx txs)
  from Cons.prems(1) obtain fee view1 stxos1 fees1 where s: "CheckTransactionInputs tx h view maturity = Inr fee"
      "connectTransaction dh view tx h stxos = Inr (view1, stxos1)"
      "check_txs dh h maturity txs view1 stxos1 fees1 = Inr (view', stxos', fees')"
    by (auto simp: sbind_eq_Inr Let_def split: if_splits)
  have a: "tx_allowed h maturity (view_coins Map.empty view) tx"
    using s(1) CheckTransactionInputs_iff [of tx h view maturity fee] Cons.prems(2) by simp
  have "\<exists>c. coins op = Some c \<and> FetchPrevOutput view' op = Some (coin_out c)" if "op \<in> set (prevouts tx)" "\<not> IsCoinBaseTx tx" for op
  proof -
    have "spendable h maturity (view_coins Map.empty view) op" using a that by (simp add: tx_allowed_def list_all_iff)
    then obtain c where c: "view_coins Map.empty view op = Some c" by (auto simp: spendable_def split: option.splits)
    then have F: "FetchPrevOutput view op = Some (coin_out c)"
      by (auto simp: lookup_unspent FetchPrevOutput_entry coin_out_def coin_of_def split: option.splits if_splits)
    have none: "\<forall>later \<in> set (tx # txs). created dh h later op = None" using Cons.prems(3) that by simp
    then have outs: "op \<notin> block_outs dh h (tx # txs)" "op \<notin> block_outs dh h txs" "created dh h tx op = None" by (auto simp: block_outs_def)
    then have "coins op = Some c" using Cons.prems(4) empty_view_coins [OF c, of U] by metis
    moreover have "FetchPrevOutput view' op = Some (coin_out c)"
      by (rule check_txs_outputs [OF s(3) connectTransaction_outputs [OF s(2) F outs(3)] outs(2)])
    ultimately show ?thesis by blast
  qed
  moreover have "outputs_known (FetchPrevOutput view') dh h (apply_tx dh h tx coins) txs"
  proof (rule Cons.IH [OF s(3)])
    show "\<forall>op. op \<notin> block_outs dh h txs \<longrightarrow> view_coins U view1 op = apply_tx dh h tx coins op"
      unfolding connectTransaction_coins [OF s(2)] using Cons.prems(4) by (intro apply_tx_agree) simp
  qed (use Cons.prems(2,3) in auto)
  ultimately show ?case by auto
qed simp

definition input_runs :: "crypto \<Rightarrow> sig_pick \<Rightarrow> PrevOutputFetcher \<Rightarrow> MsgTx \<Rightarrow> nat \<Rightarrow> TxOut \<Rightarrow> bool" where
  "input_runs C pick F tx idx prevOut \<longleftrightarrow>
     (\<exists>sigCache sigHashes vm. cache_sound C sigCache \<and> NewTxSigHashes C tx F = Inr sigHashes \<and>
        validate_input C pick (to_PkScript prevOut) tx (int idx) sigCache sigHashes (to_Value prevOut) F = Inr vm)"

lemma in_tx_items:
  "it \<in> set (tx_items tx sh) \<longleftrightarrow>
     (\<exists>k < length (tx_TxIn tx). it = \<lparr>vi_txInIndex = k, vi_txIn = tx_TxIn tx ! k, vi_tx = tx, vi_sigHashes = sh\<rparr>)"
proof -
  have "set (enumerate 0 (tx_TxIn tx)) = {(k, tx_TxIn tx ! k) | k. k < length (tx_TxIn tx)}"
    by (force simp: enumerate_eq_zip set_zip)
  then show ?thesis by (auto simp: tx_items_def)
qed

lemma block_items_complete:
  assumes "block_items C hpick view txs h = Inr (items, h')" "inj_on (TxHash (DoubleHashRaw C)) T" "set txs \<subseteq> T"
    "cache_consistent C (FetchPrevOutput view) T h"
  shows "\<forall>tx \<in> set txs. \<not> IsCoinBaseTx tx \<longrightarrow> (\<exists>sh. NewTxSigHashes C tx (FetchPrevOutput view) = Inr sh \<and> set (tx_items tx sh) \<subseteq> set items)"
  using assms
proof (induction txs arbitrary: h items)
  case (Cons tx txs)
  show ?case
  proof (cases "IsCoinBaseTx tx")
    case True
    then show ?thesis using Cons by auto
  next
    case False
    then obtain sh h1 items1 where s: "load_hashes C hpick view tx h = Inr (sh, h1)" "block_items C hpick view txs h1 = Inr (items1, h')"
        "items = tx_items tx sh @ items1"
      using Cons.prems(1) by (auto simp: sbind_eq_Inr)
    then have l: "LoadOrComputeSigHashes C hpick h tx (FetchPrevOutput view) = Inr (sh, h1)" by (auto simp: load_hashes_def split: sum.splits)
    have "tx \<in> T" using Cons.prems(3) by simp
    from LoadOrComputeSigHashes_transparent [OF Cons.prems(2) this Cons.prems(4), of hpick] l
    have t: "NewTxSigHashes C tx (FetchPrevOutput view) = Inr sh" "cache_consistent C (FetchPrevOutput view) T h1" by simp_all
    from Cons.IH [OF s(2) Cons.prems(2) _ t(2)] Cons.prems(3) t(1) s(3) show ?thesis by (fastforce simp: subset_iff)
  qed
qed simp

lemma validate_item_runs:
  assumes "validate_item C pick view it cache = Inr cache'" "cache_sound C cache"
  shows "cache_sound C cache' \<and> (\<exists>t vm. FetchPrevOutput view (ti_PreviousOutPoint (vi_txIn it)) = Some t \<and>
      validate_input C pick (to_PkScript t) (vi_tx it) (int (vi_txInIndex it)) cache (vi_sigHashes it) (to_Value t) (FetchPrevOutput view) = Inr vm)"
proof -
  obtain e vm0 vm where s: "LookupEntry view (ti_PreviousOutPoint (vi_txIn it)) = Some e"
      "NewEngine (ue_pkScript e) (vi_tx it) (int (vi_txInIndex it)) cache (vi_sigHashes it) (ue_amount e) (FetchPrevOutput view) = Inr vm0"
      "Execute C pick vm0 = Inr vm" "cache' = vm_sigCache vm"
    using assms(1) by (auto simp: validate_item_def split: option.splits sum.splits)
  then have "validate_input C pick (ue_pkScript e) (vi_tx it) (int (vi_txInIndex it)) cache (vi_sigHashes it) (ue_amount e) (FetchPrevOutput view) = Inr vm"
    by (simp add: validate_input_def)
  with s assms(2) validate_input_cache [OF this] show ?thesis by (auto simp: FetchPrevOutput_entry)
qed

lemma Validate_runs:
  "Validate C pick view items cache = Inr cache' \<Longrightarrow> cache_sound C cache \<Longrightarrow>
     cache_sound C cache' \<and> (\<forall>it \<in> set items. \<exists>sc t vm. cache_sound C sc \<and> FetchPrevOutput view (ti_PreviousOutPoint (vi_txIn it)) = Some t \<and>
       validate_input C pick (to_PkScript t) (vi_tx it) (int (vi_txInIndex it)) sc (vi_sigHashes it) (to_Value t) (FetchPrevOutput view) = Inr vm)"
proof (induction items arbitrary: cache)
  case (Cons it items)
  then obtain c where c: "validate_item C pick view it cache = Inr c" "Validate C pick view items c = Inr cache'" by (auto simp: sbind_eq_Inr)
  from validate_item_runs [OF c(1) Cons.prems(2)] Cons.IH [OF c(2)] Cons.prems(2) show ?case by auto
qed simp

lemma checkBlockScripts_runs:
  assumes "checkBlockScripts C pick hpick txs view caches = Inr caches'" "inj_on (TxHash (DoubleHashRaw C)) (set txs)"
    "cache_consistent C (FetchPrevOutput view) (set txs) (sc_hash caches)" "cache_sound C (sc_sig caches)"
  shows "cache_sound C (sc_sig caches')"
    and "tx \<in> set txs \<Longrightarrow> \<not> IsCoinBaseTx tx \<Longrightarrow> k < length (tx_TxIn tx) \<Longrightarrow>
      \<exists>t. FetchPrevOutput view (prevouts tx ! k) = Some t \<and> input_runs C pick (FetchPrevOutput view) tx k t"
proof -
  obtain items h sc where s: "block_items C hpick view txs (sc_hash caches) = Inr (items, h)" "Validate C pick view items (sc_sig caches) = Inr sc"
      "sc_sig caches' = sc"
    using assms(1) by (auto simp: checkBlockScripts_def sbind_eq_Inr)
  note v = Validate_runs [OF s(2) assms(4)]
  show "cache_sound C (sc_sig caches')" using v s(3) by simp
  assume tx: "tx \<in> set txs" "\<not> IsCoinBaseTx tx" "k < length (tx_TxIn tx)"
  then obtain sh where sh: "NewTxSigHashes C tx (FetchPrevOutput view) = Inr sh" "set (tx_items tx sh) \<subseteq> set items"
    using block_items_complete [OF s(1) assms(2) subset_refl assms(3)] by blast
  let ?it = "\<lparr>vi_txInIndex = k, vi_txIn = tx_TxIn tx ! k, vi_tx = tx, vi_sigHashes = sh\<rparr>"
  have "?it \<in> set items" using sh(2) tx(3) by (auto simp: in_tx_items subset_iff)
  with v obtain sc t vm where "cache_sound C sc" "FetchPrevOutput view (ti_PreviousOutPoint (vi_txIn ?it)) = Some t"
      "validate_input C pick (to_PkScript t) (vi_tx ?it) (int (vi_txInIndex ?it)) sc (vi_sigHashes ?it) (to_Value t) (FetchPrevOutput view) = Inr vm"
    by blast
  then show "\<exists>t. FetchPrevOutput view (prevouts tx ! k) = Some t \<and> input_runs C pick (FetchPrevOutput view) tx k t"
    using sh(1) tx(3) by (auto simp: input_runs_def prevouts_def)
qed

text \<open>What the sanity checks of a block establish about its transactions.\<close>

definition sane_block :: "(bytes \<Rightarrow> hash) \<Rightarrow> MsgTx list \<Rightarrow> bool" where
  "sane_block dh txs \<longleftrightarrow> txs \<noteq> [] \<and> IsCoinBaseTx (hd txs) \<and> list_all (\<lambda>tx. \<not> IsCoinBaseTx tx) (tl txs) \<and>
     (\<forall>tx \<in> set txs. sane_outputs tx \<and> distinct (prevouts tx)) \<and> distinct (map (TxHash dh) txs)"

lemma coinbase_value_sane: "sane_block dh txs \<Longrightarrow> coinbase_value txs = total_value (tx_TxOut (txs ! 0))"
  by (cases txs) (auto simp: sane_block_def coinbase_value_def list_all_iff filter_empty_conv)

lemma int64_of_le: "0 \<le> x \<Longrightarrow> x < 2 ^ 64 \<Longrightarrow> int64_of x \<le> x"
proof (cases "x < 2 ^ 63")
  case False
  assume "0 \<le> x" "x < 2 ^ 64"
  then show ?thesis using int64_of_range [of x] False by linarith
qed (simp add: int64_of_id)

lemma accepted_block:
  fixes C
  defines "dh \<equiv> DoubleHashRaw C"
  assumes "checkConnectBlock C pick hpick P cache caches node blk view [] = Inr (view', stxos, caches')"
    "sane_block dh (bk_Transactions blk)" "bk_Height blk = bn_height node" "spends_earlier dh (bn_height node) (bk_Transactions blk)"
    "coins = view_coins (source_coins cache) view"
  shows "block_allowed dh (bn_height node) (cp_CoinbaseMaturity P) coins (bk_Transactions blk)"
    "view_coins (source_coins cache) view' = apply_txs dh (bn_height node) (bk_Transactions blk) coins"
    "stxos = block_details dh (bn_height node) coins (bk_Transactions blk)" "uv_bestHash view' = bn_hash node"
    "outputs_known (FetchPrevOutput view') dh (bn_height node) coins (bk_Transactions blk)"
    "finite (dom coins) \<Longrightarrow> CalcBlockSubsidy (bn_height node) (Some (cp_chain P)) = Inr s \<Longrightarrow> 0 \<le> s \<Longrightarrow> s < 2 ^ 63 \<Longrightarrow>
       finite (dom (view_coins (source_coins cache) view')) \<and> coin_total (view_coins (source_coins cache) view') \<le> coin_total coins + s"
    "LatestCheckpoint (cp_checkpoints P) = None \<or> ck_Height (the (LatestCheckpoint (cp_checkpoints P))) < bn_height node \<Longrightarrow>
       checkBlockScripts C pick hpick (bk_Transactions blk) view' caches = Inr caches'"
proof -
  let ?h = "bn_height node" and ?txs = "bk_Transactions blk" and ?m = "cp_CoinbaseMaturity P" and ?U = "source_coins cache"
  let ?run = "case LatestCheckpoint (cp_checkpoints P) of None \<Rightarrow> True | Some checkpoint \<Rightarrow> \<not> ?h \<le> ck_Height checkpoint"
  from assms(2) obtain v1 v2 v3 fees subsidy where s: "checkBIP0030 dh cache blk view = Inr v1" "fetchInputUtxos dh cache v1 blk = Inr v2"
      "check_txs dh ?h ?m ?txs v2 [] 0 = Inr (v3, stxos, fees)"
      "CalcBlockSubsidy ?h (Some (cp_chain P)) = Inr subsidy"
      "\<not> sum_outputs (tx_TxOut (?txs ! 0)) > int64_of (subsidy + fees)"
      "(if ?run then checkBlockScripts C pick hpick ?txs v3 caches else Inr caches) = Inr caches'"
      "view' = SetBestHash v3 (bn_hash node)"
    unfolding checkConnectBlock_def dh_def [symmetric] Let_def
    by (auto simp: sbind_eq_Inr panicking_def split: if_splits option.splits sum.splits; blast)
  have sane: "\<forall>tx \<in> set ?txs. sane_outputs tx \<and> distinct (prevouts tx)" "distinct (map (TxHash dh) ?txs)"
    using assms(3) by (simp_all add: sane_block_def)
  note bip = checkBIP0030_coins [OF s(1)]
  have known: "\<forall>tx \<in> set ?txs. set (tx_outpoints dh tx) \<subseteq> dom (uv_entries v1)" using bip(3) by blast
  have fresh: "block_outs dh ?h ?txs \<inter> dom coins = {}"
    using bip(3) dom_created assms(6) by (fastforce simp: block_outs_def)
  have agree: "\<forall>op. op \<notin> block_outs dh ?h ?txs \<longrightarrow> view_coins ?U v2 op = coins op"
    using fetchInputUtxos_coins [OF known assms(4) s(2)] bip(1) assms(6) by simp
  note spec = check_txs_spec [OF s(3) sane(1) assms(5) sane(2) agree fresh]
  have best: "view_coins U (SetBestHash v b) = view_coins U v" "FetchPrevOutput (SetBestHash v b) = FetchPrevOutput v" for U v b
    by (simp_all add: view_coins_def SetBestHash_def FetchPrevOutput_def LookupEntry_def fun_eq_iff)
  have coins': "view_coins ?U view' = apply_txs dh ?h ?txs coins" using spec s(7) best(1) by simp
  show "block_allowed dh ?h ?m coins ?txs" "stxos = block_details dh ?h coins ?txs" using spec by simp_all
  show "view_coins ?U view' = apply_txs dh ?h ?txs coins" by (rule coins')
  show "uv_bestHash view' = bn_hash node" using s(7) by (simp add: SetBestHash_def)
  show "outputs_known (FetchPrevOutput view') dh ?h coins ?txs"
    unfolding s(7) best(2) by (rule check_txs_known [OF s(3) sane(1) assms(5) agree])
  show "checkBlockScripts C pick hpick ?txs view' caches = Inr caches'"
    if "LatestCheckpoint (cp_checkpoints P) = None \<or> ck_Height (the (LatestCheckpoint (cp_checkpoints P))) < ?h"
  proof -
    have "checkBlockScripts C pick hpick ?txs v3 caches = Inr caches'" using s(6) that by (auto split: option.splits)
    moreover have "load_hashes C hpick (SetBestHash v b) = load_hashes C hpick v" "validate_item C pick (SetBestHash v b) = validate_item C pick v" for v b
      unfolding load_hashes_def validate_item_def best(2) by (simp_all add: fun_eq_iff SetBestHash_def LookupEntry_def)
    moreover from this have "block_items C hpick (SetBestHash v b) txs hc = block_items C hpick v txs hc" for v b txs hc
      by (induction txs arbitrary: hc) (simp_all cong: sbind_cong)
    moreover have "Validate C pick (SetBestHash v b) its sc = Validate C pick v its sc" if "\<And>v b. validate_item C pick (SetBestHash v b) = validate_item C pick v" for v b its sc
      by (induction its arbitrary: sc) (simp_all add: that cong: sbind_cong)
    ultimately show ?thesis unfolding s(7) checkBlockScripts_def by simp
  qed
  assume fin: "finite (dom coins)" and sub: "CalcBlockSubsidy ?h (Some (cp_chain P)) = Inr s" "0 \<le> s" "s < 2 ^ 63"
  have allowed: "block_allowed dh ?h ?m coins ?txs" "fees = net_fees dh ?h coins ?txs" "0 \<le> fees" "fees < 2 ^ 63" using spec by simp_all
  have "sum_outputs (tx_TxOut (?txs ! 0)) = coinbase_value ?txs"
    using sum_outputs_value [of "tx_TxOut (?txs ! 0)"] coinbase_value_sane [OF assms(3)] sane(1) assms(3)
    by (cases ?txs) (auto simp: sane_outputs_def sane_block_def)
  then have "coinbase_value ?txs \<le> s + fees"
    using s(4,5) sub allowed(3,4) int64_of_le [of "s + fees"] by simp
  with block_total [OF allowed(1) _ fin] sane(1) allowed(2)
  show "finite (dom (view_coins ?U view')) \<and> coin_total (view_coins ?U view') \<le> coin_total coins + s"
    unfolding coins' by auto
qed

fun inputs_executed :: "crypto \<Rightarrow> sig_pick \<Rightarrow> PrevOutputFetcher \<Rightarrow> (bytes \<Rightarrow> hash) \<Rightarrow> int \<Rightarrow> coins \<Rightarrow> MsgTx list \<Rightarrow> bool" where
  "inputs_executed C pick F dh h coins [] \<longleftrightarrow> True"
| "inputs_executed C pick F dh h coins (tx # txs) \<longleftrightarrow>
     (IsCoinBaseTx tx \<or> (\<forall>k < length (prevouts tx). \<exists>c. coins (prevouts tx ! k) = Some c \<and> input_runs C pick F tx k (coin_out c))) \<and>
     inputs_executed C pick F dh h (apply_tx dh h tx coins) txs"

lemma inputs_executed_known:
  assumes "outputs_known F dh h coins txs"
    "\<And>tx k. tx \<in> set txs \<Longrightarrow> \<not> IsCoinBaseTx tx \<Longrightarrow> k < length (tx_TxIn tx) \<Longrightarrow> \<exists>t. F (prevouts tx ! k) = Some t \<and> input_runs C pick F tx k t"
  shows "inputs_executed C pick F dh h coins txs"
  using assms
proof (induction txs arbitrary: coins)
  case (Cons tx txs)
  have "\<exists>c. coins (prevouts tx ! k) = Some c \<and> input_runs C pick F tx k (coin_out c)" if "k < length (prevouts tx)" "\<not> IsCoinBaseTx tx" for k
  proof -
    note k = that
    have "prevouts tx ! k \<in> set (prevouts tx)" using k(1) by simp
    then obtain c where "coins (prevouts tx ! k) = Some c" "F (prevouts tx ! k) = Some (coin_out c)" using Cons.prems(1) k(2) by auto
    moreover obtain t where "F (prevouts tx ! k) = Some t" "input_runs C pick F tx k t"
      using Cons.prems(2) [of tx k] k by (auto simp: prevouts_def)
    ultimately show ?thesis by auto
  qed
  with Cons show ?case by auto
qed simp

definition runs_scripts :: "connectParams \<Rightarrow> int \<Rightarrow> bool" where
  "runs_scripts P height \<longleftrightarrow> (case LatestCheckpoint (cp_checkpoints P) of None \<Rightarrow> True | Some checkpoint \<Rightarrow> ck_Height checkpoint < height)"

lemma accepted_block_scripts:
  fixes C
  defines "dh \<equiv> DoubleHashRaw C"
  assumes "checkConnectBlock C pick hpick P cache caches node blk view [] = Inr (view', stxos, caches')"
    "sane_block dh (bk_Transactions blk)" "bk_Height blk = bn_height node" "spends_earlier dh (bn_height node) (bk_Transactions blk)"
    "coins = view_coins (source_coins cache) view" "runs_scripts P (bn_height node)" "cache_sound C (sc_sig caches)"
    "cache_consistent C (FetchPrevOutput view') (set (bk_Transactions blk)) (sc_hash caches)"
  shows "inputs_executed C pick (FetchPrevOutput view') dh (bn_height node) coins (bk_Transactions blk) \<and> cache_sound C (sc_sig caches')"
proof -
  note acc = accepted_block [OF assms(2) assms(3-6) [unfolded dh_def]]
  have scripts: "checkBlockScripts C pick hpick (bk_Transactions blk) view' caches = Inr caches'"
    using acc(7) assms(7) by (auto simp: runs_scripts_def split: option.splits)
  have "inj_on (TxHash (DoubleHashRaw C)) (set (bk_Transactions blk))"
    using assms(3) unfolding dh_def sane_block_def by (simp add: distinct_map)
  note runs = checkBlockScripts_runs [OF scripts this assms(9,8)]
  show ?thesis unfolding dh_def using inputs_executed_known [OF acc(5)] runs by blast
qed

subsection \<open>Chains of accepted blocks\<close>

text \<open>The coins after accepted blocks, the last one first, on top of the genesis block, whose coinbase is not spendable. Every block is
  checked against a view over a cache that stands for the coins of its parent.\<close>

inductive ledger :: "crypto \<Rightarrow> connectParams \<Rightarrow> blockData list \<Rightarrow> coins \<Rightarrow> bool" for C P where
  ledger_genesis: "ledger C P [] Map.empty"
| ledger_block: "ledger C P blks coins \<Longrightarrow> view_coins (source_coins cache) view = coins \<Longrightarrow>
    checkConnectBlock C pick hpick P cache caches node blk view [] = Inr (view', stxos, caches') \<Longrightarrow>
    sane_block (DoubleHashRaw C) (bk_Transactions blk) \<Longrightarrow> bn_height node = int (length blks) + 1 \<Longrightarrow> bk_Height blk = bn_height node \<Longrightarrow>
    ledger C P (blk # blks) (view_coins (source_coins cache) view')"

text \<open>No transaction of a block spends an output of its own or of a later one.\<close>

definition ordered_block :: "crypto \<Rightarrow> blockData \<Rightarrow> bool" where
  "ordered_block C blk \<longleftrightarrow> spends_earlier (DoubleHashRaw C) (bk_Height blk) (bk_Transactions blk)"

definition amounts_ok :: "coins \<Rightarrow> bool" where
  "amounts_ok coins \<longleftrightarrow> (\<forall>c \<in> ran coins. 0 \<le> co_amount c)"

lemma created_amount: "sane_outputs tx \<Longrightarrow> created dh h tx op = Some c \<Longrightarrow> 0 \<le> co_amount c"
  by (auto simp: created_def created_from_def sane_outputs_def split: if_splits)

lemma apply_txs_amounts: "\<forall>tx \<in> set txs. sane_outputs tx \<Longrightarrow> amounts_ok coins \<Longrightarrow> amounts_ok (apply_txs dh h txs coins)"
proof (induction txs arbitrary: coins)
  case (Cons tx txs)
  have "amounts_ok (apply_tx dh h tx coins)"
    using Cons.prems created_amount [of tx dh h]
    by (fastforce simp: amounts_ok_def apply_tx_def ran_def restrict_map_def split: if_splits)
  with Cons show ?case by simp
qed simp

lemma ledger_supply:
  assumes "ledger C P blks coins" "\<forall>blk \<in> set blks. ordered_block C blk" "\<And>h. 0 < h \<Longrightarrow> h < 2 ^ 31 \<Longrightarrow> CalcBlockSubsidy h (Some (cp_chain P)) = Inr (s h) \<and> 0 \<le> s h" "length blks < 2 ^ 31"
  shows "finite (dom coins) \<and> amounts_ok coins \<and> coin_total coins \<le> (\<Sum>h = 1..int (length blks). s h)"
  using assms
proof (induction rule: ledger.induct)
  case ledger_genesis
  then show ?case by (simp add: amounts_ok_def)
next
  case (ledger_block blks coins cache view pick hpick caches node blk view' stxos caches')
  have ord: "spends_earlier (DoubleHashRaw C) (bn_height node) (bk_Transactions blk)"
    using ledger_block.prems(1) ledger_block.hyps(6) by (simp add: ordered_block_def)
  have IH: "finite (dom coins) \<and> amounts_ok coins \<and> coin_total coins \<le> (\<Sum>h = 1..int (length blks). s h)"
    by (rule ledger_block.IH [OF _ ledger_block.prems(2)]) (use ledger_block.prems in simp_all)
  let ?h = "bn_height node"
  note acc = accepted_block [OF ledger_block.hyps(3,4,6) ord ledger_block.hyps(2) [symmetric]]
  have h: "0 < ?h" "?h < 2 ^ 31" using ledger_block.hyps(5) ledger_block.prems by simp_all
  then have sub: "CalcBlockSubsidy ?h (Some (cp_chain P)) = Inr (s ?h)" "0 \<le> s ?h" using ledger_block.prems(2) by simp_all
  obtain x where "int64_of x = s ?h" using sub(1) h(1) by (auto simp: CalcBlockSubsidy_def sbind_eq_Inr Let_def)
  then have "s ?h < 2 ^ 63" using int64_of_range [of x] by metis
  from acc(6) [OF _ sub this] IH ledger_block.prems(2) have t: "finite (dom (view_coins (source_coins cache) view'))"
      "coin_total (view_coins (source_coins cache) view') \<le> coin_total coins + s ?h" by simp_all
  have "{1..int (length (blk # blks))} = insert ?h {1..int (length blks)}" using ledger_block.hyps(5) by auto
  then have "(\<Sum>h = 1..int (length (blk # blks)). s h) = s ?h + (\<Sum>h = 1..int (length blks). s h)" using ledger_block.hyps(5) by simp
  moreover have "amounts_ok (view_coins (source_coins cache) view')"
    unfolding acc(2) using IH ledger_block.hyps(4) ledger_block.prems by (intro apply_txs_amounts) (auto simp: sane_block_def)
  ultimately show ?case using t IH ledger_block.prems by simp
qed

subsection \<open>Concrete blocks\<close>

text \<open>A hash that keeps the end of its input, so that transactions with different lock times have different identifiers, and
  an output that anyone can spend: its only leaf is the empty script.\<close>

definition tail_crypto :: crypto where
  "tail_crypto = sample_crypto\<lparr>c_sha256 := (\<lambda>b. take 32 (rev b @ replicate 32 0))\<rparr>"

lemma tail_crypto_ok: "crypto_ok tail_crypto"
  using sample_crypto_ok by (auto simp: crypto_ok_def tail_crypto_def)

definition free_root :: hash where
  "free_root = computeMerkleRootFromProof tail_crypto BaseLeafVersion [] []"

definition free_script :: bytes where
  "free_script = OP_2 # OP_DATA_32 # free_root"

definition free_witness :: "bytes list" where
  "free_witness = [[1], [], [0xc1]]"

definition free_tx :: "nat \<Rightarrow> OutPoint \<Rightarrow> int \<Rightarrow> MsgTx" where
  "free_tx lockTime op value = \<lparr>tx_Version = 1,
     tx_TxIn = [\<lparr>ti_PreviousOutPoint = op, ti_SignatureScript = [], ti_Witness = free_witness, ti_Sequence = 0\<rparr>],
     tx_TxOut = [\<lparr>to_Value = value, to_PkScript = free_script\<rparr>], tx_LockTime = lockTime\<rparr>"

definition free_coinbase :: MsgTx where
  "free_coinbase = free_tx 0 \<lparr>out_Hash = chainZeroHash, out_Index = 2 ^ 32 - 1\<rparr> 50"

abbreviation tail_id :: "MsgTx \<Rightarrow> hash" where
  "tail_id \<equiv> TxHash (DoubleHashRaw tail_crypto)"

definition free_parent :: "int \<Rightarrow> blockNode" where
  "free_parent h = BlockNode None None [7] 0 (h - 1) 1 0 5 [] [] 0 0"

definition free_node :: "int \<Rightarrow> blockNode" where
  "free_node h = BlockNode (Some (free_parent h)) None [8] 0 h 1 0 6 [] [] 0 0"

definition free_params :: connectParams where
  "free_params = \<lparr>cp_GenesisHash = [0], cp_CoinbaseMaturity = 100, cp_chain = MainNetParams, cp_checkpoints = []\<rparr>"

definition free_outpoint :: OutPoint where
  "free_outpoint = \<lparr>out_Hash = [9], out_Index = 3\<rparr>"

definition free_entry :: UtxoEntry where
  "free_entry = \<lparr>ue_amount = 6, ue_pkScript = free_script, ue_blockHeight = 4, ue_packedFlags = 0\<rparr>"

definition free_source :: utxoSource where
  "free_source op = Inr (if op = free_outpoint then Some free_entry else None)"

definition free_view :: UtxoViewpoint where
  "free_view = SetBestHash NewUtxoViewpoint [7]"

definition free_caches :: scriptCaches where
  "free_caches = \<lparr>sc_sig = None, sc_hash = NewHashCache 0\<rparr>"

definition free_block :: "int \<Rightarrow> MsgTx list \<Rightarrow> blockData" where
  "free_block h txs = \<lparr>bk_Header = moving_header, bk_Transactions = txs, bk_Height = h\<rparr>"

lemma free_root_length: "length free_root = 32"
  by (simp add: free_root_def computeMerkleRootFromProof_def TapLeaf_TapHash_def TaggedHash_length [OF tail_crypto_ok])

lemma free_script_facts: "length free_script = 34" "IsPayToMerkleRoot free_script" "\<not> IsUnspendable free_script"
proof -
  show l: "length free_script = 34" by (simp add: free_script_def free_root_length)
  show "IsPayToMerkleRoot free_script"
    using free_root_length by (simp add: free_script_def IsPayToMerkleRoot_def isWitnessMerkleRootScript_def extractWitnessV2MerkleRootBytes_def standard_sizes)
  have "IsSmallInt OP_2" by (simp add: IsSmallInt_def)
  from witness_script_parse [OF this, of free_root] have "snd (parse free_script) = []" by (simp add: free_script_def free_root_length)
  moreover have "free_script ! 0 \<noteq> OP_RETURN" by (simp add: free_script_def)
  ultimately show "\<not> IsUnspendable free_script"
    using l checkScriptParses_parse [of free_script] by (simp add: IsUnspendable_def MaxScriptSize_def)
qed

lemma free_tx_sel [simp]:
  "tx_Version (free_tx l op v) = 1" "tx_LockTime (free_tx l op v) = l" "prevouts (free_tx l op v) = [op]"
  "tx_TxOut (free_tx l op v) = [\<lparr>to_Value = v, to_PkScript = free_script\<rparr>]"
  "tx_TxIn (free_tx l op v) = [\<lparr>ti_PreviousOutPoint = op, ti_SignatureScript = [], ti_Witness = free_witness, ti_Sequence = 0\<rparr>]"
  by (simp_all add: free_tx_def prevouts_def)

lemma free_coinbase_is: "IsCoinBaseTx free_coinbase" "out_Index op \<noteq> 2 ^ 32 - 1 \<Longrightarrow> \<not> IsCoinBaseTx (free_tx l op v)"
  by (simp_all add: IsCoinBaseTx_def free_coinbase_def)

lemma tail_hash:
  assumes "28 \<le> length pre" "length suf = 4"
  shows "drop 28 (DoubleHashRaw tail_crypto (pre @ suf)) = suf"
proof -
  let ?b = "pre @ suf"
  have c: "c_sha256 tail_crypto b = take 32 (rev b)" if "32 \<le> length b" for b using that by (simp add: tail_crypto_def)
  have "DoubleHashRaw tail_crypto ?b = rev (take 32 (rev ?b))"
    using assms by (simp only: DoubleHashRaw_def c length_append length_rev length_take) (simp add: c)
  also have "\<dots> = drop (length ?b - 32) ?b" by (simp only: rev_take length_rev rev_rev_ident)
  also have "length ?b - 32 = length pre - 28" using assms by simp
  finally show ?thesis using assms by simp
qed

lemma tail_id_lock: "tx_TxOut tx = [\<lparr>to_Value = v, to_PkScript = free_script\<rparr>] \<Longrightarrow> drop 28 (tail_id tx) = le_bytes 4 (int (tx_LockTime tx))"
  unfolding TxHash_def SerializeNoWitness_def prlEncode_def Let_def
  using tail_hash [of "le_bytes 4 (tx_Version tx) @ WriteVarIntBuf (length (tx_TxIn tx)) @ concat (map writeTxInBuf (tx_TxIn tx)) @
     WriteVarIntBuf (length (tx_TxOut tx)) @ concat (map WriteTxOutBuf (tx_TxOut tx))" "le_bytes 4 (int (tx_LockTime tx))"]
  by (simp add: WriteTxOutBuf_def WriteVarBytesBuf_def free_script_facts(1))

lemma tail_ids: "tail_id (free_tx l op v) = tail_id (free_tx l' op' v') \<Longrightarrow> l < 256 \<Longrightarrow> l' < 256 \<Longrightarrow> l = l'"
proof -
  assume "tail_id (free_tx l op v) = tail_id (free_tx l' op' v')" and l: "l < 256" "l' < 256"
  then have "le_bytes 4 (int l) = le_bytes 4 (int l')" using tail_id_lock [of "free_tx l op v" v] tail_id_lock [of "free_tx l' op' v'" v'] by simp
  then have "le_val (le_bytes 4 (int l)) = le_val (le_bytes 4 (int l'))" by simp
  then show ?thesis using l by (simp add: le_val_le_bytes)
qed

lemma tail_id_length: "length (tail_id tx) = 32"
  using tail_crypto_ok by (simp add: TxHash_def DoubleHashRaw_def crypto_ok_def)

lemma validate_item_accepts:
  assumes "LookupEntry view (ti_PreviousOutPoint (vi_txIn it)) = Some e"
    "validate_input C pick (ue_pkScript e) (vi_tx it) (int (vi_txInIndex it)) sc (vi_sigHashes it) (ue_amount e) (FetchPrevOutput view) = Inr vm"
  shows "validate_item C pick view it sc = Inr (vm_sigCache vm)"
  using assms by (auto simp: validate_item_def validate_input_def sbind_eq_Inr)

lemma block_scripts_accept:
  assumes hashes: "\<And>tx. tx \<in> set txs \<Longrightarrow> \<not> IsCoinBaseTx tx \<Longrightarrow> \<exists>sh. NewTxSigHashes C tx (FetchPrevOutput view) = Inr sh"
    and runs: "\<And>tx k sc sh. tx \<in> set txs \<Longrightarrow> \<not> IsCoinBaseTx tx \<Longrightarrow> k < length (tx_TxIn tx) \<Longrightarrow>
      \<exists>e vm. LookupEntry view (prevouts tx ! k) = Some e \<and>
        validate_input C pick (ue_pkScript e) tx (int k) sc sh (ue_amount e) (FetchPrevOutput view) = Inr vm"
  shows "\<exists>caches'. checkBlockScripts C pick hpick txs view caches = Inr caches'"
proof -
  have load: "\<exists>sh h'. load_hashes C hpick view tx h = Inr (sh, h')" if "tx \<in> set txs" "\<not> IsCoinBaseTx tx" for tx h
    using hashes [OF that] by (auto simp: load_hashes_def LoadOrComputeSigHashes_def Let_def split: option.split)
  have items: "\<exists>items h'. block_items C hpick view ts h = Inr (items, h') \<and>
      (\<forall>it \<in> set items. vi_tx it \<in> set ts \<and> \<not> IsCoinBaseTx (vi_tx it) \<and> vi_txInIndex it < length (tx_TxIn (vi_tx it)) \<and>
         vi_txIn it = tx_TxIn (vi_tx it) ! vi_txInIndex it)" if "set ts \<subseteq> set txs" for ts h
    using that
  proof (induction ts arbitrary: h)
    case (Cons tx ts)
    show ?case
    proof (cases "IsCoinBaseTx tx")
      case True
      then show ?thesis using Cons.IH [of h] Cons.prems by auto
    next
      case False
      obtain sh h1 where l: "load_hashes C hpick view tx h = Inr (sh, h1)" using load [of tx h] Cons.prems False by auto
      obtain items h2 where r: "block_items C hpick view ts h1 = Inr (items, h2)"
        "\<forall>it \<in> set items. vi_tx it \<in> set ts \<and> \<not> IsCoinBaseTx (vi_tx it) \<and> vi_txInIndex it < length (tx_TxIn (vi_tx it)) \<and>
           vi_txIn it = tx_TxIn (vi_tx it) ! vi_txInIndex it"
        using Cons.IH [of h1] Cons.prems by auto
      then show ?thesis using l False by (auto simp: in_tx_items)
    qed
  qed simp
  obtain its h where its: "block_items C hpick view txs (sc_hash caches) = Inr (its, h)"
    "\<forall>it \<in> set its. vi_tx it \<in> set txs \<and> \<not> IsCoinBaseTx (vi_tx it) \<and> vi_txInIndex it < length (tx_TxIn (vi_tx it)) \<and>
       vi_txIn it = tx_TxIn (vi_tx it) ! vi_txInIndex it"
    using items [OF subset_refl] by blast
  have "\<exists>sc'. Validate C pick view its sc = Inr sc'" for sc
    using its(2)
  proof (induction its arbitrary: sc)
    case (Cons it its)
    then obtain e vm where "LookupEntry view (ti_PreviousOutPoint (vi_txIn it)) = Some e"
        "validate_input C pick (ue_pkScript e) (vi_tx it) (int (vi_txInIndex it)) sc (vi_sigHashes it) (ue_amount e) (FetchPrevOutput view) = Inr vm"
      using runs [of "vi_tx it" "vi_txInIndex it" sc "vi_sigHashes it"] by (auto simp: prevouts_def)
    from validate_item_accepts [OF this] Cons show ?case by simp
  qed simp
  then obtain sc where "Validate C pick view its (sc_sig caches) = Inr sc" by blast
  with its(1) show ?thesis by (simp add: checkBlockScripts_def)
qed

lemma free_runs:
  assumes "F op = Some \<lparr>to_Value = a, to_PkScript = free_script\<rparr>"
  shows "\<exists>sh. NewTxSigHashes tail_crypto (free_tx l op v) F = Inr sh"
    and "\<exists>vm. validate_input tail_crypto pick free_script (free_tx l op v) 0 sc sh amount F = Inr vm"
proof -
  have "\<not> IsPayToTaproot free_script" by (rule taproot_not_merkleroot [OF free_script_facts(2)])
  then have "scanInputs F (tx_TxIn (free_tx l op v)) False False = Inr (True, False)"
    using scanInputs_no_taproot [of "tx_TxIn (free_tx l op v)" F False] assms by simp
  then show "\<exists>sh. NewTxSigHashes tail_crypto (free_tx l op v) F = Inr sh" by (simp add: NewTxSigHashes_def Let_def)
  have "spends F (free_tx l op v) 0 free_witness"
    using assms by (simp add: spends_def tx_in_range_def free_witness_def TxWitness_SerializeSize_def VarIntSerializeSize_def)
  note valid = merkle_root_validation [OF tail_crypto_ok this free_root_length, of pick sc sh amount]
  let ?cb = "\<lparr>mcb_LeafVersion = BaseLeafVersion, mcb_InclusionProof = []\<rparr>"
  have "fst (stripWitnessAnnex free_witness) = [[1]] @ [[], MerkleRoot_ToBytes ?cb]"
    by (simp add: free_witness_def stripWitnessAnnex_def isAnnexedWitness_def TaprootAnnexTag_def MerkleRoot_ToBytes_def BaseLeafVersion_def)
  moreover have "leaf_accepts tail_crypto pick (leaf_vm tail_crypto OP_2 free_root (free_tx l op v) 0 sc sh amount F free_witness [] [[1]]) [] [[1]]"
    using parse_stop [of "[]"] by (simp add: leaf_accepts_def leaf_vm_def MaxScriptElementSize_def)
  ultimately show "\<exists>vm. validate_input tail_crypto pick free_script (free_tx l op v) 0 sc sh amount F = Inr vm"
    unfolding free_script_def valid by (fastforce simp: free_root_def)
qed

text \<open>Blocks of such transactions pass the scripts as soon as every input is known with that output.\<close>

definition all_free :: "UtxoViewpoint \<Rightarrow> MsgTx list \<Rightarrow> bool" where
  "all_free view txs \<longleftrightarrow> list_all (\<lambda>tx. IsCoinBaseTx tx \<or>
     tx = free_tx (tx_LockTime tx) (hd (prevouts tx)) (to_Value (hd (tx_TxOut tx))) \<and>
     (case LookupEntry view (hd (prevouts tx)) of None \<Rightarrow> False | Some e \<Rightarrow> ue_pkScript e = free_script)) txs"

lemma free_scripts_accept: "all_free view txs \<Longrightarrow> \<exists>caches'. checkBlockScripts tail_crypto pick hpick txs view caches = Inr caches'"
proof (rule block_scripts_accept)
  fix tx assume all: "all_free view txs" and "tx \<in> set txs" "\<not> IsCoinBaseTx tx"
  then have t: "tx = free_tx (tx_LockTime tx) (hd (prevouts tx)) (to_Value (hd (tx_TxOut tx)))"
      "case LookupEntry view (hd (prevouts tx)) of None \<Rightarrow> False | Some e \<Rightarrow> ue_pkScript e = free_script"
    unfolding all_free_def list_all_iff by blast+
  then obtain e where "LookupEntry view (hd (prevouts tx)) = Some e" "ue_pkScript e = free_script" by (auto split: option.splits)
  with t(1) obtain l op v where tx: "tx = free_tx l op v" "LookupEntry view op = Some e" "ue_pkScript e = free_script" by blast
  then have F: "FetchPrevOutput view op = Some \<lparr>to_Value = ue_amount e, to_PkScript = free_script\<rparr>" by (simp add: FetchPrevOutput_def)
  show "\<exists>sh. NewTxSigHashes tail_crypto tx (FetchPrevOutput view) = Inr sh" unfolding tx(1) by (rule free_runs(1) [of "FetchPrevOutput view" op, OF F])
  fix k sc sh assume "k < length (tx_TxIn tx)"
  then have "k = 0" using tx(1) by simp
  then show "\<exists>e vm. LookupEntry view (prevouts tx ! k) = Some e \<and>
      validate_input tail_crypto pick (ue_pkScript e) tx (int k) sc sh (ue_amount e) (FetchPrevOutput view) = Inr vm"
    using free_runs(2) [of "FetchPrevOutput view" op, OF F, of pick l v sc sh "ue_amount e"] tx by auto
qed

text \<open>The rest of the checks on such blocks.\<close>

lemma free_checks:
  assumes "checkBIP0030 (DoubleHashRaw tail_crypto) cache (free_block h txs) free_view = Inr v1"
    "fetchInputUtxos (DoubleHashRaw tail_crypto) cache v1 (free_block h txs) = Inr v2"
    "check_txs (DoubleHashRaw tail_crypto) h 100 txs v2 [] 0 = Inr (v3, stxos, fees)" "0 \<le> fees" "fees < 2 ^ 62"
    "txs = free_coinbase # rest" "\<forall>tx \<in> set txs. tx_Version tx = 1" "all_free v3 txs" "h = 1 \<or> h = 20"
  shows "\<exists>caches'. checkConnectBlock tail_crypto pick hpick free_params cache free_caches (free_node h) (free_block h txs) free_view [] =
    Inr (SetBestHash v3 [8], stxos, caches')"
proof -
  have locks: "check_locks (free_node h) 5 v ts = Inr ()" if "\<forall>tx \<in> set ts. tx_Version tx = 1" for v ts
    using that assms(9) by (induction ts) (auto simp: calcSequenceLock_def uint32_of_def SequenceLockActive_def free_node_def)
  have median: "CalcPastMedianTime (free_parent h) = 5"
    by (simp add: CalcPastMedianTime_def medianTimeBlocks_def free_parent_def numeral_eq_Suc)
  have sub: "CalcBlockSubsidy h (Some MainNetParams) = Inr (totalSupply * 650226 div ((h + 650226) * (h - 1 + 650226)))"
  proof -
    have "emission_constant (Some MainNetParams) = Inr 650226" by code_simp
    from subsidy_value [OF this, of h] assms(9) show ?thesis by auto
  qed
  obtain caches' where c: "checkBlockScripts tail_crypto pick hpick txs v3 free_caches = Inr caches'"
    using free_scripts_accept [OF assms(8)] by blast
  have pay: "sum_outputs (tx_TxOut (txs ! 0)) = 50" unfolding assms(6) sum_outputs_def free_coinbase_def by (simp add: int64_of_id)
  have sel: "bn_hash (free_node h) = [8]" "bn_height (free_node h) = h" "bn_parent (free_node h) = Some (free_parent h)" "uv_bestHash free_view = [7]"
      "bh_PrevBlock (bk_Header (free_block h txs)) = [7]" "bk_Transactions (free_block h txs) = txs" "cp_GenesisHash free_params = [0]"
      "cp_CoinbaseMaturity free_params = 100" "cp_chain free_params = MainNetParams" "LatestCheckpoint (cp_checkpoints free_params) = None"
    by (simp_all add: free_node_def free_view_def SetBestHash_def free_block_def moving_header_def free_params_def LatestCheckpoint_def HasCheckpoints_def)
  have "int64_of (totalSupply * 650226 div ((h + 650226) * (h - 1 + 650226)) + fees) \<ge> 50"
    using assms(4,5,9) by (subst int64_of_id) (auto simp: amounts)
  then show ?thesis
    using assms(1-3) c pay sub median locks [OF assms(7)] unfolding checkConnectBlock_def Let_def sel
    by (simp add: panicking_def)
qed

definition spending_tx :: MsgTx where
  "spending_tx = free_tx 1 free_outpoint 5"

definition created_entry :: "int \<Rightarrow> bool \<Rightarrow> UtxoEntry" where
  "created_entry v cb = fresh_entry \<lparr>to_Value = v, to_PkScript = free_script\<rparr> cb 20"

lemma free_AddTxOuts:
  "AddTxOuts dh view (free_tx l op v) 20 =
     put_entry view \<lparr>out_Hash = TxHash dh (free_tx l op v), out_Index = 0\<rparr> (Some (created_entry v (IsCoinBaseTx (free_tx l op v))))"
  using free_script_facts(3) by (simp add: AddTxOuts_def addTxOut_def created_entry_def)

lemma free_connect:
  "IsCoinBaseTx (free_tx l op v) \<Longrightarrow> connectTransaction dh view (free_tx l op v) 20 stxos = Inr (AddTxOuts dh view (free_tx l op v) 20, stxos)"
  "\<not> IsCoinBaseTx (free_tx l op v) \<Longrightarrow> LookupEntry view op = Some e \<Longrightarrow>
     connectTransaction dh view (free_tx l op v) 20 stxos =
       Inr (AddTxOuts dh (put_entry view op (Some (Spend e))) (free_tx l op v) 20, stxos @ [spent_details e])"
  by (simp_all add: connectTransaction_def)

lemma free_inputs:
  assumes "\<not> IsCoinBaseTx (free_tx l op v)" "LookupEntry view op = Some e" "\<not> IsSpent e" "\<not> ue_IsCoinBase e"
    "0 \<le> v" "v \<le> ue_amount e" "ue_amount e \<le> 10"
  shows "CheckTransactionInputs (free_tx l op v) 20 view 100 = Inr (ue_amount e - v)"
  using assms by (simp add: CheckTransactionInputs_def sum_outputs_def int64_of_id MaxGrain_def GrainPerPearl_def)

lemma created_entry_facts:
  "\<not> IsSpent (created_entry v cb)" "ue_IsCoinBase (created_entry v cb) = cb" "ue_amount (created_entry v cb) = v"
  "ue_pkScript (created_entry v cb) = free_script" "IsSpent (Spend e)"
  by (simp_all add: created_entry_def fresh_entry_def IsSpent_def ue_IsCoinBase_def tf_flags Spend_def word_ao_dist word_ao_absorbs)

lemma free_entry_facts: "\<not> IsSpent free_entry" "\<not> ue_IsCoinBase free_entry" "ue_amount free_entry = 6" "ue_pkScript free_entry = free_script"
  by (simp_all add: free_entry_def IsSpent_def ue_IsCoinBase_def tf_flags)

lemma LookupEntry_put: "LookupEntry (put_entry view op entry) op' = (if op' = op then entry else LookupEntry view op')"
  by (simp add: LookupEntry_def)

lemma free_outpoint_new: "free_outpoint \<noteq> \<lparr>out_Hash = tail_id tx, out_Index = i\<rparr>" "\<lparr>out_Hash = tail_id tx, out_Index = i\<rparr> \<noteq> free_outpoint"
    "[9] \<noteq> tail_id tx" "tail_id tx \<noteq> [9]"
proof -
  have "length [9 :: byte] \<noteq> length (tail_id tx)" by (simp add: tail_id_length)
  then show "[9] \<noteq> tail_id tx" "tail_id tx \<noteq> [9]" by metis+
  then show "free_outpoint \<noteq> \<lparr>out_Hash = tail_id tx, out_Index = i\<rparr>" "\<lparr>out_Hash = tail_id tx, out_Index = i\<rparr> \<noteq> free_outpoint"
    by (simp_all add: free_outpoint_def)
qed

lemma spending_block_accepted:
  "\<exists>view' caches'. checkConnectBlock tail_crypto pick hpick free_params free_source free_caches (free_node 20)
     (free_block 20 [free_coinbase, spending_tx]) free_view [] = Inr (view', [spent_details free_entry], caches')"
proof -
  let ?dh = "DoubleHashRaw tail_crypto"
  define hc where "hc = tail_id free_coinbase"
  define hm where "hm = tail_id spending_tx"
  have d: "hc \<noteq> hm" using tail_ids [of 0 _ _ 1] by (auto simp: hc_def hm_def free_coinbase_def spending_tx_def)
  let ?c = "\<lparr>out_Hash = hc, out_Index = 0\<rparr>" and ?m = "\<lparr>out_Hash = hm, out_Index = 0\<rparr>"
  have n: "free_outpoint \<noteq> ?c" "free_outpoint \<noteq> ?m" "?c \<noteq> free_outpoint" "?m \<noteq> free_outpoint" "out_Hash free_outpoint \<noteq> hc" "out_Hash free_outpoint \<noteq> hm"
    using free_outpoint_new by (simp_all add: hc_def hm_def) (simp_all add: free_outpoint_def free_outpoint_new)
  have cb: "IsCoinBaseTx free_coinbase" "\<not> IsCoinBaseTx spending_tx"
    using free_coinbase_is by (simp_all add: spending_tx_def free_outpoint_def)
  let ?v1 = "put_entry (put_entry free_view ?c None) ?m None"
  have outs: "tx_outpoints ?dh free_coinbase = [?c]" "tx_outpoints ?dh spending_tx = [?m]"
    by (simp_all add: tx_outpoints_def hc_def hm_def free_coinbase_def spending_tx_def)
  have bip: "checkBIP0030 ?dh free_source (free_block 20 [free_coinbase, spending_tx]) free_view = Inr ?v1"
    using n d by (simp add: checkBIP0030_def free_block_def outs fetchUtxos_def fetchUtxosFromCache_def free_view_def SetBestHash_def
        NewUtxoViewpoint_def free_source_def LookupEntry_put) 
  let ?v2 = "put_entry ?v1 free_outpoint (Some free_entry)"
  have fetch: "fetchInputUtxos ?dh free_source ?v1 (free_block 20 [free_coinbase, spending_tx]) = Inr ?v2"
    using n d by (simp add: fetchInputUtxos_def findInputsToFetch_def free_block_def txInFlight_def hc_def [symmetric] hm_def [symmetric]
       fetchUtxosFromCache_def free_view_def SetBestHash_def NewUtxoViewpoint_def free_source_def spending_tx_def) 
  have cadd: "AddTxOuts ?dh view free_coinbase 20 = put_entry view ?c (Some (created_entry 50 True))" for view
    using free_AddTxOuts [of ?dh view 0 _ 50] cb(1) by (simp add: free_coinbase_def hc_def)
  have madd: "AddTxOuts ?dh view spending_tx 20 = put_entry view ?m (Some (created_entry 5 False))" for view
    using free_AddTxOuts [of ?dh view 1 free_outpoint 5] cb(2) by (simp add: spending_tx_def hm_def)
  let ?v3 = "put_entry ?v2 ?c (Some (created_entry 50 True))"
  let ?v4 = "put_entry (put_entry ?v3 free_outpoint (Some (Spend free_entry))) ?m (Some (created_entry 5 False))"
  have look: "LookupEntry ?v3 free_outpoint = Some free_entry" using n by (simp add: LookupEntry_put)
  have "CheckTransactionInputs spending_tx 20 ?v3 100 = Inr 1"
    using free_inputs [OF _ look free_entry_facts(1,2), of 1 5] cb(2) free_entry_facts(3) by (simp add: spending_tx_def)
  moreover have "connectTransaction ?dh ?v3 spending_tx 20 [] = Inr (?v4, [spent_details free_entry])"
    using free_connect(2) [OF _ look, of 1 5 ?dh "[]"] cb(2) madd by (simp add: spending_tx_def)
  moreover have "connectTransaction ?dh ?v2 free_coinbase 20 [] = Inr (?v3, [])" using cb(1) cadd by (simp add: connectTransaction_def)
  moreover have "CheckTransactionInputs free_coinbase 20 ?v2 100 = Inr 0" using cb(1) by (simp add: CheckTransactionInputs_def)
  ultimately have txs: "check_txs ?dh 20 100 [free_coinbase, spending_tx] ?v2 [] 0 = Inr (?v4, [spent_details free_entry], 1)"
    by (simp add: int64_of_id)
  have "LookupEntry ?v4 free_outpoint = Some (Spend free_entry)" using n by (simp add: LookupEntry_put)
  then have "all_free ?v4 [free_coinbase, spending_tx]"
    using cb(1) free_entry_facts(4) by (simp add: all_free_def spending_tx_def Spend_output)
  from free_checks [OF bip fetch txs _ _ refl _ this, of pick hpick] show ?thesis
    by (auto simp: free_coinbase_def spending_tx_def)
qed

lemma first_block_accepted:
  "\<exists>view' caches'. checkConnectBlock tail_crypto pick hpick free_params (\<lambda>_. Inr None) free_caches (free_node 1)
     (free_block 1 [free_coinbase]) free_view [] = Inr (view', [], caches')"
proof -
  let ?dh = "DoubleHashRaw tail_crypto" and ?src = "\<lambda>_. Inr None :: rule_error + UtxoEntry option"
  define hc where "hc = tail_id free_coinbase"
  let ?c = "\<lparr>out_Hash = hc, out_Index = 0\<rparr>"
  have cb: "IsCoinBaseTx free_coinbase" by (rule free_coinbase_is)
  have outs: "tx_outpoints ?dh free_coinbase = [?c]" by (simp add: tx_outpoints_def hc_def free_coinbase_def)
  let ?v1 = "put_entry free_view ?c None"
  have bip: "checkBIP0030 ?dh ?src (free_block 1 [free_coinbase]) free_view = Inr ?v1"
    by (simp add: checkBIP0030_def free_block_def outs fetchUtxos_def fetchUtxosFromCache_def free_view_def SetBestHash_def
        NewUtxoViewpoint_def LookupEntry_put)
  have fetch: "fetchInputUtxos ?dh ?src ?v1 (free_block 1 [free_coinbase]) = Inr ?v1"
    by (simp add: fetchInputUtxos_def findInputsToFetch_def free_block_def fetchUtxosFromCache_def)
  have txs: "check_txs ?dh 1 100 [free_coinbase] ?v1 [] 0 = Inr (AddTxOuts ?dh ?v1 free_coinbase 1, [], 0)"
    using cb by (simp add: CheckTransactionInputs_def connectTransaction_def int64_of_id)
  have "all_free v [free_coinbase]" for v using cb by (simp add: all_free_def)
  from free_checks [OF bip fetch txs _ _ refl _ this, of pick hpick] show ?thesis by (auto simp: free_coinbase_def)
qed

subsection \<open>A block that spends an output twice\<close>

text \<open>The second transaction spends the output of the third one, the fourth one spends it again.\<close>

definition later_tx :: MsgTx where "later_tx = free_tx 2 free_outpoint 6"
definition early_tx :: MsgTx where "early_tx = free_tx 1 \<lparr>out_Hash = tail_id later_tx, out_Index = 0\<rparr> 6"
definition again_tx :: MsgTx where "again_tx = free_tx 3 \<lparr>out_Hash = tail_id later_tx, out_Index = 0\<rparr> 6"

lemma double_spend_accepted:
  "\<exists>view' caches' e1 e2. checkConnectBlock tail_crypto pick hpick free_params free_source free_caches (free_node 20)
       (free_block 20 [free_coinbase, early_tx, later_tx, again_tx]) free_view [] =
     Inr (view', [spent_details (created_entry 6 False), spent_details free_entry, spent_details (created_entry 6 False)], caches') \<and>
     LookupEntry view' \<lparr>out_Hash = tail_id early_tx, out_Index = 0\<rparr> = Some (created_entry 6 False) \<and>
     LookupEntry view' \<lparr>out_Hash = tail_id again_tx, out_Index = 0\<rparr> = Some (created_entry 6 False)"
proof -
  let ?dh = "DoubleHashRaw tail_crypto"
  let ?txs = "[free_coinbase, early_tx, later_tx, again_tx]"
  define hc where "hc = tail_id free_coinbase"
  define hi where "hi = tail_id early_tx"
  define hj where "hj = tail_id later_tx"
  define hk where "hk = tail_id again_tx"
  note h = hc_def hi_def hj_def hk_def
  note txd = early_tx_def later_tx_def again_tx_def
  have d: "hc \<noteq> hi" "hc \<noteq> hj" "hc \<noteq> hk" "hi \<noteq> hj" "hi \<noteq> hk" "hj \<noteq> hk"
    using tail_ids unfolding h free_coinbase_def txd by fastforce+
  note d = d d [symmetric]
  let ?c = "\<lparr>out_Hash = hc, out_Index = 0\<rparr>" and ?i = "\<lparr>out_Hash = hi, out_Index = 0\<rparr>"
    and ?j = "\<lparr>out_Hash = hj, out_Index = 0\<rparr>" and ?k = "\<lparr>out_Hash = hk, out_Index = 0\<rparr>"
  have n: "free_outpoint \<noteq> ?c" "free_outpoint \<noteq> ?i" "free_outpoint \<noteq> ?j" "free_outpoint \<noteq> ?k"
      "out_Hash free_outpoint \<noteq> hc" "out_Hash free_outpoint \<noteq> hi" "out_Hash free_outpoint \<noteq> hj" "out_Hash free_outpoint \<noteq> hk"
    unfolding h using free_outpoint_new by (simp_all add: free_outpoint_def)
  note n = n n [symmetric]
  have cb: "IsCoinBaseTx free_coinbase" "\<not> IsCoinBaseTx early_tx" "\<not> IsCoinBaseTx later_tx" "\<not> IsCoinBaseTx again_tx"
    using free_coinbase_is by (simp_all add: txd free_outpoint_def)
  let ?v1 = "put_entry (put_entry (put_entry (put_entry free_view ?c None) ?i None) ?j None) ?k None"
  have outs: "tx_outpoints ?dh free_coinbase = [?c]" "tx_outpoints ?dh early_tx = [?i]" "tx_outpoints ?dh later_tx = [?j]" "tx_outpoints ?dh again_tx = [?k]"
    by (simp_all add: tx_outpoints_def h free_coinbase_def txd)
  have bip: "checkBIP0030 ?dh free_source (free_block 20 ?txs) free_view = Inr ?v1"
    using n d by (simp add: checkBIP0030_def free_block_def outs fetchUtxos_def fetchUtxosFromCache_def free_view_def SetBestHash_def
        NewUtxoViewpoint_def free_source_def LookupEntry_put)
  have add: "AddTxOuts ?dh view free_coinbase 20 = put_entry view ?c (Some (created_entry 50 True))"
      "AddTxOuts ?dh view early_tx 20 = put_entry view ?i (Some (created_entry 6 False))"
      "AddTxOuts ?dh view later_tx 20 = put_entry view ?j (Some (created_entry 6 False))"
      "AddTxOuts ?dh view again_tx 20 = put_entry view ?k (Some (created_entry 6 False))" for view
    using cb by (simp_all add: free_AddTxOuts free_coinbase_def h txd)
  have ins: "tx_TxIn early_tx = [\<lparr>ti_PreviousOutPoint = ?j, ti_SignatureScript = [], ti_Witness = free_witness, ti_Sequence = 0\<rparr>]"
      "tx_TxIn later_tx = [\<lparr>ti_PreviousOutPoint = free_outpoint, ti_SignatureScript = [], ti_Witness = free_witness, ti_Sequence = 0\<rparr>]"
      "tx_TxIn again_tx = [\<lparr>ti_PreviousOutPoint = ?j, ti_SignatureScript = [], ti_Witness = free_witness, ti_Sequence = 0\<rparr>]"
    by (simp_all add: txd hj_def)
  let ?v2 = "put_entry (put_entry ?v1 ?j (Some (created_entry 6 False))) free_outpoint (Some free_entry)"
  have fetch: "fetchInputUtxos ?dh free_source ?v1 (free_block 20 ?txs) = Inr ?v2"
    using n d by (simp add: fetchInputUtxos_def findInputsToFetch_def free_block_def txInFlight_def h [symmetric] ins add
       fetchUtxosFromCache_def free_view_def SetBestHash_def NewUtxoViewpoint_def free_source_def)
  let ?v3 = "put_entry ?v2 ?c (Some (created_entry 50 True))"
  let ?v4 = "put_entry (put_entry ?v3 ?j (Some (Spend (created_entry 6 False)))) ?i (Some (created_entry 6 False))"
  let ?v5 = "put_entry (put_entry ?v4 free_outpoint (Some (Spend free_entry))) ?j (Some (created_entry 6 False))"
  let ?v6 = "put_entry (put_entry ?v5 ?j (Some (Spend (created_entry 6 False)))) ?k (Some (created_entry 6 False))"
  let ?s = "[spent_details (created_entry 6 False), spent_details free_entry, spent_details (created_entry 6 False)]"
  have look: "LookupEntry ?v3 ?j = Some (created_entry 6 False)" "LookupEntry ?v4 free_outpoint = Some free_entry"
      "LookupEntry ?v5 ?j = Some (created_entry 6 False)"
    using n d by (simp_all add: LookupEntry_put)
  have check: "CheckTransactionInputs early_tx 20 ?v3 100 = Inr 0" "CheckTransactionInputs later_tx 20 ?v4 100 = Inr 0"
      "CheckTransactionInputs again_tx 20 ?v5 100 = Inr 0"
    using free_inputs [OF _ look(1), of 1 6] free_inputs [OF _ look(2), of 2 6] free_inputs [OF _ look(3), of 3 6] cb free_entry_facts created_entry_facts
    by (simp_all add: txd hj_def)
  have conn: "connectTransaction ?dh ?v3 early_tx 20 [] = Inr (?v4, [spent_details (created_entry 6 False)])"
      "connectTransaction ?dh ?v4 later_tx 20 stxos = Inr (?v5, stxos @ [spent_details free_entry])"
      "connectTransaction ?dh ?v5 again_tx 20 stxos = Inr (?v6, stxos @ [spent_details (created_entry 6 False)])" for stxos
    using free_connect(2) [OF _ look(1), of 1 6 ?dh "[]"] free_connect(2) [OF _ look(2), of 2 6 ?dh stxos] free_connect(2) [OF _ look(3), of 3 6 ?dh stxos]
      cb add by (simp_all add: txd hj_def)
  have "connectTransaction ?dh ?v2 free_coinbase 20 [] = Inr (?v3, [])" using cb(1) add by (simp add: connectTransaction_def)
  moreover have "CheckTransactionInputs free_coinbase 20 ?v2 100 = Inr 0" using cb(1) by (simp add: CheckTransactionInputs_def)
  ultimately have txs: "check_txs ?dh 20 100 ?txs ?v2 [] 0 = Inr (?v6, ?s, 0)" using check conn by (simp add: int64_of_id)
  have "LookupEntry ?v6 ?j = Some (Spend (created_entry 6 False))" "LookupEntry ?v6 free_outpoint = Some (Spend free_entry)"
    using n d by (simp_all add: LookupEntry_put)
  then have "all_free ?v6 ?txs"
    using cb free_entry_facts(4) created_entry_facts(4) by (simp add: all_free_def txd Spend_output hj_def)
  moreover have "LookupEntry (SetBestHash ?v6 [8]) ?i = Some (created_entry 6 False)" "LookupEntry (SetBestHash ?v6 [8]) ?k = Some (created_entry 6 False)"
    using n d by (simp_all add: SetBestHash_def LookupEntry_def)
  moreover have "\<forall>tx \<in> set ?txs. tx_Version tx = 1" by (simp add: txd free_coinbase_def)
  ultimately show ?thesis using free_checks [OF bip fetch txs _ _ refl, of pick hpick] unfolding h by fastforce
qed

subsection \<open>Properties\<close>

text \<open>
  C1. What an accepted block does: its transactions spend existing, mature coins of values in range and each of them once,
  none spends more than it takes in or overwrites a coin; the view it leaves stands for the coins after its transactions, whatever the cache
  below had loaded; the spent outputs are recorded in order; and together the coins are worth at most the subsidy more than before.
  The block has passed the sanity checks and no transaction spends an output of its own or of a later one.\<close>

theorem accepted_block_effect:
  assumes "checkConnectBlock C pick hpick P cache caches node blk view [] = Inr (view', stxos, caches')"
    "sane_block (DoubleHashRaw C) (bk_Transactions blk)" "bk_Height blk = bn_height node"
    "spends_earlier (DoubleHashRaw C) (bn_height node) (bk_Transactions blk)" "finite (dom (view_coins (source_coins cache) view))"
    "CalcBlockSubsidy (bn_height node) (Some (cp_chain P)) = Inr s" "0 \<le> s" "s < 2 ^ 63"
  shows "block_allowed (DoubleHashRaw C) (bn_height node) (cp_CoinbaseMaturity P) (view_coins (source_coins cache) view) (bk_Transactions blk) \<and>
    view_coins (source_coins cache) view' =
      apply_txs (DoubleHashRaw C) (bn_height node) (bk_Transactions blk) (view_coins (source_coins cache) view) \<and>
    stxos = block_details (DoubleHashRaw C) (bn_height node) (view_coins (source_coins cache) view) (bk_Transactions blk) \<and>
    uv_bestHash view' = bn_hash node \<and>
    coin_total (view_coins (source_coins cache) view') \<le> coin_total (view_coins (source_coins cache) view) + s"
  using accepted_block [OF assms(1-4) refl] assms(5-8) by blast

lemma spending_block_facts:
  "sane_block (DoubleHashRaw tail_crypto) [free_coinbase, spending_tx]"
  "spends_earlier (DoubleHashRaw tail_crypto) 20 [free_coinbase, spending_tx]"
  "finite (dom (view_coins (source_coins free_source) free_view))"
proof -
  have d: "tail_id free_coinbase \<noteq> tail_id spending_tx" using tail_ids [of 0 _ _ 1] by (auto simp: free_coinbase_def spending_tx_def)
  have cb: "IsCoinBaseTx free_coinbase" "\<not> IsCoinBaseTx spending_tx"
    using free_coinbase_is by (simp_all add: spending_tx_def free_outpoint_def)
  show "sane_block (DoubleHashRaw tail_crypto) [free_coinbase, spending_tx]"
    using d cb by (simp add: sane_block_def) (simp add: sane_outputs_def free_coinbase_def spending_tx_def amounts)
  show "spends_earlier (DoubleHashRaw tail_crypto) 20 [free_coinbase, spending_tx]"
    using cb free_outpoint_new by (simp add: created_def created_from_def) (simp add: spending_tx_def free_outpoint_def free_outpoint_new)
  have "dom (view_coins (source_coins free_source) free_view) \<subseteq> {free_outpoint}"
    by (auto simp: view_coins_def source_coins_def free_source_def free_view_def SetBestHash_def NewUtxoViewpoint_def split: if_splits)
  then show "finite (dom (view_coins (source_coins free_source) free_view))" by (rule finite_subset) simp
qed

lemma free_block_sel [simp]: "bk_Transactions (free_block h txs) = txs" "bk_Height (free_block h txs) = h" "bn_height (free_node h) = h"
    "cp_chain free_params = MainNetParams"
  by (simp_all add: free_block_def free_node_def free_params_def)

theorem accepted_block_effect_witness:
  "\<exists>view' stxos caches'. checkConnectBlock tail_crypto (\<lambda>_. 0) (\<lambda>_. 0) free_params free_source free_caches (free_node 20)
       (free_block 20 [free_coinbase, spending_tx]) free_view [] = Inr (view', stxos, caches') \<and>
     coin_total (view_coins (source_coins free_source) view') \<le> coin_total (view_coins (source_coins free_source) free_view) + 322945260488"
proof -
  obtain view' stxos caches' where c: "checkConnectBlock tail_crypto (\<lambda>_. 0) (\<lambda>_. 0) free_params free_source free_caches (free_node 20)
       (free_block 20 [free_coinbase, spending_tx]) free_view [] = Inr (view', stxos, caches')"
    using spending_block_accepted by blast
  have "emission_constant (Some MainNetParams) = Inr 650226" by code_simp
  from subsidy_value [OF this, of 20] have "CalcBlockSubsidy 20 (Some MainNetParams) = Inr 322945260488" by (simp add: amounts)
  with accepted_block_effect [OF c] spending_block_facts c show ?thesis by fastforce
qed

text \<open>
  C2. No coin moves without its script: when an accepted block is above the latest checkpoint, every input of every transaction has
  run its signature script, witness and the script of the very coin it spends to success, with the signature hashes of its own
  transaction; and the signature cache stays sound.\<close>

theorem accepted_block_executes_scripts:
  assumes "checkConnectBlock C pick hpick P cache caches node blk view [] = Inr (view', stxos, caches')"
    "sane_block (DoubleHashRaw C) (bk_Transactions blk)" "bk_Height blk = bn_height node"
    "spends_earlier (DoubleHashRaw C) (bn_height node) (bk_Transactions blk)"
    "runs_scripts P (bn_height node)" "cache_sound C (sc_sig caches)"
    "cache_consistent C (FetchPrevOutput view') (set (bk_Transactions blk)) (sc_hash caches)"
  shows "inputs_executed C pick (FetchPrevOutput view') (DoubleHashRaw C) (bn_height node) (view_coins (source_coins cache) view) (bk_Transactions blk) \<and>
    cache_sound C (sc_sig caches')"
  by (rule accepted_block_scripts [OF assms(1-4) refl assms(5-7)])

theorem accepted_block_executes_scripts_witness:
  "\<exists>view' stxos caches'. checkConnectBlock tail_crypto (\<lambda>_. 0) (\<lambda>_. 0) free_params free_source free_caches (free_node 20)
       (free_block 20 [free_coinbase, spending_tx]) free_view [] = Inr (view', stxos, caches') \<and>
     inputs_executed tail_crypto (\<lambda>_. 0) (FetchPrevOutput view') (DoubleHashRaw tail_crypto) 20
       (view_coins (source_coins free_source) free_view) [free_coinbase, spending_tx]"
proof -
  obtain view' stxos caches' where c: "checkConnectBlock tail_crypto (\<lambda>_. 0) (\<lambda>_. 0) free_params free_source free_caches (free_node 20)
       (free_block 20 [free_coinbase, spending_tx]) free_view [] = Inr (view', stxos, caches')"
    using spending_block_accepted by blast
  have "runs_scripts free_params 20" by (simp add: runs_scripts_def free_params_def LatestCheckpoint_def HasCheckpoints_def)
  moreover have "cache_sound tail_crypto (sc_sig free_caches)" by (simp add: cache_sound_def free_caches_def)
  moreover have "cache_consistent tail_crypto F T (sc_hash free_caches)" for F T
    by (simp add: cache_consistent_def free_caches_def NewHashCache_def newRandEvictCache_def cache_ok_def re_get_def)
  ultimately show ?thesis using accepted_block_executes_scripts [OF c] spending_block_facts(1,2) c by fastforce
qed

text \<open>
  C3. The supply: after any number of accepted blocks, in each of which no transaction spends an output of its own or of a later one (C4 shows
  that this is not checked, and what a block without this order can do), every coin has a value that is not negative, and together the coins
  are worth at most the fraction \<open>n / (n + E)\<close> of the total supply after \<open>n\<close> blocks; so they never exceed it.\<close>

theorem supply_cap:
  assumes "ledger C P blks coins" "\<forall>blk \<in> set blks. ordered_block C blk"
    "emission_constant (Some (cp_chain P)) = Inr E" "0 < E" "E < 2 ^ 62" "length blks < 2 ^ 31"
  shows "(\<forall>op c. coins op = Some c \<longrightarrow> 0 \<le> co_amount c) \<and>
    coin_total coins * (int (length blks) + E) \<le> totalSupply * int (length blks) \<and> coin_total coins \<le> totalSupply"
proof -
  let ?n = "length blks"
  obtain s where s: "\<And>h. 0 < h \<Longrightarrow> h < 2 ^ 31 \<Longrightarrow> CalcBlockSubsidy h (Some (cp_chain P)) = Inr (s h) \<and> 0 \<le> s h"
      "(\<Sum>h = 1..int ?n. s h) * (int ?n + E) \<le> totalSupply * int ?n" "(\<Sum>h = 1..int ?n. s h) \<le> totalSupply"
    using emission_bounds [OF assms(3-5)] by blast
  from ledger_supply [OF assms(1,2) s(1) assms(6)]
  have c: "amounts_ok coins" "coin_total coins \<le> (\<Sum>h = 1..int ?n. s h)" by simp_all
  then have "coin_total coins * (int ?n + E) \<le> (\<Sum>h = 1..int ?n. s h) * (int ?n + E)" using assms(4) by (intro mult_right_mono) simp_all
  with c s(2,3) show ?thesis by (auto simp: amounts_ok_def ran_def)
qed

theorem supply_cap_witness:
  "\<exists>coins. ledger tail_crypto free_params [free_block 1 [free_coinbase]] coins \<and> coin_total coins * 650227 \<le> totalSupply"
proof -
  obtain view' caches' where c: "checkConnectBlock tail_crypto (\<lambda>_. 0) (\<lambda>_. 0) free_params (\<lambda>_. Inr None) free_caches (free_node 1)
     (free_block 1 [free_coinbase]) free_view [] = Inr (view', [], caches')"
    using first_block_accepted by blast
  have v: "view_coins (source_coins (\<lambda>_. Inr None)) free_view = Map.empty"
    by (simp add: fun_eq_iff view_coins_def source_coins_def free_view_def SetBestHash_def NewUtxoViewpoint_def)
  have cb: "IsCoinBaseTx free_coinbase" by (rule free_coinbase_is)
  then have "sane_block (DoubleHashRaw tail_crypto) [free_coinbase]"
    by (simp add: sane_block_def) (simp add: sane_outputs_def free_coinbase_def amounts)
  then have l: "ledger tail_crypto free_params [free_block 1 [free_coinbase]] (view_coins (source_coins (\<lambda>_. Inr None)) view')"
    using ledger_block [OF ledger_genesis v c] by simp
  have ordered: "\<forall>blk \<in> set [free_block 1 [free_coinbase]]. ordered_block tail_crypto blk" using cb by (simp add: ordered_block_def)
  have "emission_constant (Some (cp_chain free_params)) = Inr 650226" by code_simp
  from supply_cap [OF l ordered this] l show ?thesis by auto
qed

text \<open>
  C4. Without the ordering the checks do not protect a coin: loading the outputs of the block for the rule against overwriting
  marks them as known, so an input that spends an output of a later transaction is no longer looked up, and a further transaction
  behind that one makes the output available in advance. The block of \<open>early_tx\<close>, \<open>later_tx\<close> and \<open>again_tx\<close> is accepted, scripts
  included, although the first and the last one both spend the only output of the second.\<close>

theorem double_spend_in_block:
  "\<exists>view' caches'. checkConnectBlock tail_crypto pick hpick free_params free_source free_caches (free_node 20)
       (free_block 20 [free_coinbase, early_tx, later_tx, again_tx]) free_view [] =
     Inr (view', [spent_details (created_entry 6 False), spent_details free_entry, spent_details (created_entry 6 False)], caches') \<and>
     prevouts early_tx = prevouts again_tx \<and>
     LookupEntry view' \<lparr>out_Hash = tail_id early_tx, out_Index = 0\<rparr> = Some (created_entry 6 False) \<and>
     LookupEntry view' \<lparr>out_Hash = tail_id again_tx, out_Index = 0\<rparr> = Some (created_entry 6 False)"
  using double_spend_accepted [of pick hpick] by (auto simp: early_tx_def again_tx_def)

end
