(* ===== verification/Wire_Block.thy ===== *)
theory Wire_Block
  imports Wire_Tx
begin

text \<open>
  Blocks on the wire (\<^verbatim>\<open>node/wire/certificate.go\<close>, \<^verbatim>\<open>certificate_v1.go\<close>, \<^verbatim>\<open>certificate_v2.go\<close>,
  \<^verbatim>\<open>certificate_v3.go\<close>, \<^verbatim>\<open>msgheaders.go\<close>, \<^verbatim>\<open>msgblock.go\<close>): the proof-of-work certificates, headers
  that carry one, batches of headers and blocks. An encoder returns the bytes it writes or the error
  it stops with. The lemmas give every format exactly one encoding per value.
\<close>

subsection \<open>Certificates\<close>

definition MaxZKProofSize :: nat where "MaxZKProofSize = 60000"
definition CertificateMaxSize :: nat where "CertificateMaxSize = 65000"
definition CertificateVersionNull :: nat where "CertificateVersionNull = 0"
definition CertificateVersionV1 :: nat where "CertificateVersionV1 = 1"
definition CertificateVersionV2 :: nat where "CertificateVersionV2 = 2"
definition CertificateVersionV3 :: nat where "CertificateVersionV3 = 3"
definition PublicDataSizeV1 :: nat where "PublicDataSizeV1 = 164"
definition PublicDataMaxSizeV2 :: nat where "PublicDataMaxSizeV2 = 4807"
definition PublicDataSizeDenseV2 :: nat where "PublicDataSizeDenseV2 = 164"

lemmas cert_limits = MaxZKProofSize_def CertificateMaxSize_def CertificateVersionNull_def CertificateVersionV1_def
  CertificateVersionV2_def CertificateVersionV3_def PublicDataSizeV1_def PublicDataMaxSizeV2_def PublicDataSizeDenseV2_def

text \<open>\<open>c1_PublicData\<close> and \<open>c2_PublicData\<close> are the arrays of 164 and of 4807 bytes.\<close>

record CertificateV1 =
  c1_Hash :: hash
  c1_PublicData :: bytes
  c1_ProofData :: bytes

record CertificateV2 =
  c2_Hash :: hash
  c2_PublicDataLen :: nat
  c2_PublicData :: bytes
  c2_ProofData :: bytes

datatype BlockCertificate = CertV1 CertificateV1 | CertV2 CertificateV2 | CertV3 CertificateV2

fun cert_Version :: "BlockCertificate \<Rightarrow> nat" where
  "cert_Version (CertV1 c) = CertificateVersionV1"
| "cert_Version (CertV2 c) = CertificateVersionV2"
| "cert_Version (CertV3 c) = CertificateVersionV3"

fun cert_BlockHash :: "BlockCertificate \<Rightarrow> hash" where
  "cert_BlockHash (CertV1 c) = c1_Hash c"
| "cert_BlockHash (CertV2 c) = c2_Hash c"
| "cert_BlockHash (CertV3 c) = c2_Hash c"

definition PublicDataBytesV2 :: "CertificateV2 \<Rightarrow> wire_error + bytes" where
  "PublicDataBytesV2 c =
     (if c2_PublicDataLen c > length (c2_PublicData c) then Inl wirePanic
      else Inr (take (c2_PublicDataLen c) (c2_PublicData c)))"

fun PublicDataBytes :: "BlockCertificate \<Rightarrow> wire_error + bytes" where
  "PublicDataBytes (CertV1 c) = Inr (c1_PublicData c)"
| "PublicDataBytes (CertV2 c) = PublicDataBytesV2 c"
| "PublicDataBytes (CertV3 c) = PublicDataBytesV2 c"

fun ProofBytes :: "BlockCertificate \<Rightarrow> bytes" where
  "ProofBytes (CertV1 c) = c1_ProofData c"
| "ProofBytes (CertV2 c) = c2_ProofData c"
| "ProofBytes (CertV3 c) = c2_ProofData c"

definition IsMoEV2 :: "CertificateV2 \<Rightarrow> bool" where
  "IsMoEV2 c \<longleftrightarrow> c2_PublicDataLen c > PublicDataSizeDenseV2"

fun IsMoE :: "BlockCertificate \<Rightarrow> bool" where
  "IsMoE (CertV1 c) \<longleftrightarrow> False"
| "IsMoE (CertV2 c) \<longleftrightarrow> IsMoEV2 c"
| "IsMoE (CertV3 c) \<longleftrightarrow> IsMoEV2 c"

definition proofCommitment :: "(bytes \<Rightarrow> hash) \<Rightarrow> nat \<Rightarrow> bytes \<Rightarrow> hash" where
  "proofCommitment doubleHash version publicData = doubleHash (le_bytes 4 (int version) @ publicData)"

definition ProofCommitmentV1 :: "(bytes \<Rightarrow> hash) \<Rightarrow> CertificateV1 \<Rightarrow> hash" where
  "ProofCommitmentV1 doubleHash c = doubleHash (le_bytes 4 (int CertificateVersionV1) @ c1_PublicData c)"

fun ProofCommitment :: "(bytes \<Rightarrow> hash) \<Rightarrow> BlockCertificate \<Rightarrow> wire_error + hash" where
  "ProofCommitment dh (CertV1 c) = Inr (ProofCommitmentV1 dh c)"
| "ProofCommitment dh (CertV2 c) =
     sbind (PublicDataBytesV2 c) (\<lambda>publicData. Inr (proofCommitment dh CertificateVersionV2 publicData))"
| "ProofCommitment dh (CertV3 c) =
     sbind (PublicDataBytesV2 c) (\<lambda>publicData. Inr (proofCommitment dh CertificateVersionV3 publicData))"

definition SerializeV1 :: "CertificateV1 \<Rightarrow> bytes" where
  "SerializeV1 c = c1_Hash c @ c1_PublicData c @ le_bytes 4 (int (length (c1_ProofData c))) @ c1_ProofData c"

definition DeserializeV1 :: "bytes \<Rightarrow> wire_error + (CertificateV1 \<times> bytes)" where
  "DeserializeV1 s =
     sbind (ReadFull 32 s) (\<lambda>(h, s).
       sbind (ReadFull PublicDataSizeV1 s) (\<lambda>(publicData, s).
         sbind (ReadFull 4 s) (\<lambda>(buf, s).
           let proofLen = nat (le_val buf)
           in if proofLen > MaxZKProofSize then Inl formatError
              else sbind (ReadFull proofLen s) (\<lambda>(proofData, s).
                Inr (\<lparr>c1_Hash = h, c1_PublicData = publicData, c1_ProofData = proofData\<rparr>, s)))))"

definition SerializedSizeV1 :: "CertificateV1 \<Rightarrow> nat" where
  "SerializedSizeV1 c = 32 + PublicDataSizeV1 + 4 + length (c1_ProofData c)"

definition SerializeV2 :: "CertificateV2 \<Rightarrow> wire_error + bytes" where
  "SerializeV2 c =
     sbind (PublicDataBytesV2 c) (\<lambda>publicData.
       Inr (c2_Hash c @ le_bytes 4 (int (c2_PublicDataLen c)) @ publicData @
            le_bytes 4 (int (length (c2_ProofData c))) @ c2_ProofData c))"

text \<open>\<open>Deserialize\<close> fills the start of the zeroed array of a new certificate.\<close>

definition DeserializeV2 :: "bytes \<Rightarrow> wire_error + (CertificateV2 \<times> bytes)" where
  "DeserializeV2 s =
     sbind (ReadFull 32 s) (\<lambda>(h, s).
       sbind (ReadFull 4 s) (\<lambda>(buf, s).
         let publicDataLen = nat (le_val buf)
         in if publicDataLen > PublicDataMaxSizeV2 then Inl formatError
            else sbind (ReadFull publicDataLen s) (\<lambda>(publicData, s).
              sbind (ReadFull 4 s) (\<lambda>(buf, s).
                let proofLen = nat (le_val buf)
                in if proofLen > MaxZKProofSize then Inl formatError
                   else sbind (ReadFull proofLen s) (\<lambda>(proofData, s).
                     Inr (\<lparr>c2_Hash = h, c2_PublicDataLen = publicDataLen,
                           c2_PublicData = publicData @ replicate (PublicDataMaxSizeV2 - publicDataLen) 0,
                           c2_ProofData = proofData\<rparr>, s))))))"

definition SerializedSizeV2 :: "CertificateV2 \<Rightarrow> nat" where
  "SerializedSizeV2 c = 32 + 4 + c2_PublicDataLen c + 4 + length (c2_ProofData c)"

fun cert_Serialize :: "BlockCertificate \<Rightarrow> wire_error + bytes" where
  "cert_Serialize (CertV1 c) = Inr (SerializeV1 c)"
| "cert_Serialize (CertV2 c) = SerializeV2 c"
| "cert_Serialize (CertV3 c) = SerializeV2 c"

fun SerializedSize :: "BlockCertificate \<Rightarrow> nat" where
  "SerializedSize (CertV1 c) = SerializedSizeV1 c"
| "SerializedSize (CertV2 c) = SerializedSizeV2 c"
| "SerializedSize (CertV3 c) = SerializedSizeV2 c"

definition IsCertVersionAllowed :: "nat \<Rightarrow> bool" where
  "IsCertVersionAllowed v \<longleftrightarrow> v \<in> {CertificateVersionV1, CertificateVersionV2, CertificateVersionV3}"

definition MsgCertificate_SerializeSize :: "BlockCertificate option \<Rightarrow> nat" where
  "MsgCertificate_SerializeSize m = (case m of None \<Rightarrow> 4 | Some c \<Rightarrow> 4 + SerializedSize c)"

definition MsgCertificate_encode :: "BlockCertificate option \<Rightarrow> wire_error + bytes" where
  "MsgCertificate_encode m =
     (case m of
        None \<Rightarrow> Inr (le_bytes 4 (int CertificateVersionNull))
      | Some c \<Rightarrow>
          if MsgCertificate_SerializeSize m > CertificateMaxSize then Inl formatError
          else sbind (cert_Serialize c) (\<lambda>payload. Inr (le_bytes 4 (int (cert_Version c)) @ payload)))"

text \<open>A reader behind \<open>io.LimitReader\<close> sees that many bytes of the stream.\<close>

definition limited :: "nat \<Rightarrow> (bytes \<Rightarrow> wire_error + ('a \<times> bytes)) \<Rightarrow> bytes \<Rightarrow> wire_error + ('a \<times> bytes)" where
  "limited n rd s = sbind (rd (take n s)) (\<lambda>(x, r). Inr (x, r @ drop n s))"

definition MsgCertificate_decode :: "bytes \<Rightarrow> wire_error + (BlockCertificate option \<times> bytes)" where
  "MsgCertificate_decode s =
     sbind (ReadFull 4 s) (\<lambda>(buf, s).
       let version = nat (le_val buf)
       in if version = CertificateVersionNull then Inr (None, s)
          else if version = CertificateVersionV1 then
            sbind (limited CertificateMaxSize DeserializeV1 s) (\<lambda>(c, s). Inr (Some (CertV1 c), s))
          else if version = CertificateVersionV2 then
            sbind (limited CertificateMaxSize DeserializeV2 s) (\<lambda>(c, s). Inr (Some (CertV2 c), s))
          else if version = CertificateVersionV3 then
            sbind (limited CertificateMaxSize DeserializeV2 s) (\<lambda>(c, s). Inr (Some (CertV3 c), s))
          else Inl formatError)"

subsection \<open>Headers with a certificate\<close>

definition MaxBlockHeadersPerMsg :: nat where "MaxBlockHeadersPerMsg = 100"

record MsgHeader =
  mh_MsgCertificate :: "BlockCertificate option"
  mh_BlockHeader :: BlockHeader

definition MsgHeader_decode :: "bytes \<Rightarrow> wire_error + (MsgHeader \<times> bytes)" where
  "MsgHeader_decode s =
     sbind (MsgCertificate_decode s) (\<lambda>(cert, s).
       sbind (readBlockHeaderBuf s) (\<lambda>(header, s).
         Inr (\<lparr>mh_MsgCertificate = cert, mh_BlockHeader = header\<rparr>, s)))"

definition MsgHeader_encode :: "MsgHeader \<Rightarrow> wire_error + bytes" where
  "MsgHeader_encode mh =
     sbind (MsgCertificate_encode (mh_MsgCertificate mh)) (\<lambda>cert. Inr (cert @ writeBlockHeaderBuf (mh_BlockHeader mh)))"

definition MsgHeader_SerializeSize :: "MsgHeader \<Rightarrow> nat" where
  "MsgHeader_SerializeSize mh = MaxBlockHeaderPayload + MsgCertificate_SerializeSize (mh_MsgCertificate mh)"

definition AddBlockHeader :: "MsgHeader list \<Rightarrow> BlockHeader \<Rightarrow> BlockCertificate option \<Rightarrow> wire_error + MsgHeader list" where
  "AddBlockHeader hs bh cert =
     (if length hs + 1 > MaxBlockHeadersPerMsg then Inl messageError
      else Inr (hs @ [\<lparr>mh_MsgCertificate = cert, mh_BlockHeader = bh\<rparr>]))"

fun inconsistent_loop :: "MsgHeader list \<Rightarrow> bool \<Rightarrow> bool \<Rightarrow> bool" where
  "inconsistent_loop [] hasCert noCert \<longleftrightarrow> False"
| "inconsistent_loop (mh # mhs) hasCert noCert \<longleftrightarrow>
     (let hasCert = (hasCert \<or> mh_MsgCertificate mh \<noteq> None); noCert = (noCert \<or> mh_MsgCertificate mh = None)
      in if hasCert \<and> noCert then True else inconsistent_loop mhs hasCert noCert)"

definition HasInconsistentCertificates :: "MsgHeader list \<Rightarrow> bool" where
  "HasInconsistentCertificates headers \<longleftrightarrow> inconsistent_loop headers False False"

definition MsgHeaders_decode :: "bytes \<Rightarrow> wire_error + (MsgHeader list \<times> bytes)" where
  "MsgHeaders_decode s =
     sbind (ReadVarIntBuf s) (\<lambda>(count, s).
       if count > MaxBlockHeadersPerMsg then Inl messageError
       else sbind (read_loop (\<lambda>_. MsgHeader_decode) (\<lambda>_. 0) count 0 s) (\<lambda>(headers, _, s).
         if HasInconsistentCertificates headers then Inl messageError else Inr (headers, s)))"

fun write_all :: "('a \<Rightarrow> wire_error + bytes) \<Rightarrow> 'a list \<Rightarrow> wire_error + bytes" where
  "write_all wr [] = Inr []"
| "write_all wr (x # xs) = sbind (wr x) (\<lambda>b. sbind (write_all wr xs) (\<lambda>bs. Inr (b @ bs)))"

definition MsgHeaders_encode :: "MsgHeader list \<Rightarrow> wire_error + bytes" where
  "MsgHeaders_encode headers =
     (let count = length headers
      in if count > MaxBlockHeadersPerMsg then Inl messageError
         else sbind (write_all MsgHeader_encode headers) (\<lambda>bs. Inr (WriteVarIntBuf count @ bs)))"

subsection \<open>Blocks\<close>

definition MaxBlockPayload :: nat where "MaxBlockPayload = 4000000"
definition minTxPayload :: nat where "minTxPayload = 10"
definition maxTxPerBlock :: nat where "maxTxPerBlock = MaxBlockPayload div minTxPayload + 1"

record MsgBlock =
  mb_MsgHeader :: MsgHeader
  mb_Transactions :: "MsgTx list"

record TxLoc =
  tl_TxStart :: nat
  tl_TxLen :: nat

definition MsgBlock_decode :: "MessageEncoding \<Rightarrow> bytes \<Rightarrow> wire_error + (MsgBlock \<times> bytes)" where
  "MsgBlock_decode enc s =
     sbind (MsgHeader_decode s) (\<lambda>(mh, s).
       sbind (ReadVarIntBuf s) (\<lambda>(txCount, s).
         if txCount > maxTxPerBlock then Inl messageError
         else sbind (read_loop (\<lambda>_. prlDecode enc) (\<lambda>_. 0) txCount 0 s) (\<lambda>(txs, _, s).
           Inr (\<lparr>mb_MsgHeader = mh, mb_Transactions = txs\<rparr>, s))))"

definition block_Deserialize :: "bytes \<Rightarrow> wire_error + (MsgBlock \<times> bytes)" where
  "block_Deserialize s = MsgBlock_decode WitnessEncoding s"

definition block_DeserializeNoWitness :: "bytes \<Rightarrow> wire_error + (MsgBlock \<times> bytes)" where
  "block_DeserializeNoWitness s = MsgBlock_decode BaseEncoding s"

fun locate_loop :: "nat \<Rightarrow> nat \<Rightarrow> bytes \<Rightarrow> wire_error + (TxLoc list \<times> MsgTx list \<times> bytes)" where
  "locate_loop fullLen 0 s = Inr ([], [], s)"
| "locate_loop fullLen (Suc n) s =
     (let start = fullLen - length s
      in sbind (prlDecode WitnessEncoding s) (\<lambda>(tx, r).
           let loc = \<lparr>tl_TxStart = start, tl_TxLen = (fullLen - length r) - start\<rparr>
           in sbind (locate_loop fullLen n r) (\<lambda>(locs, txs, s). Inr (loc # locs, tx # txs, s))))"

definition DeserializeTxLoc :: "bytes \<Rightarrow> wire_error + (TxLoc list \<times> MsgBlock \<times> bytes)" where
  "DeserializeTxLoc s =
     (let fullLen = length s
      in sbind (MsgHeader_decode s) (\<lambda>(mh, s).
           sbind (ReadVarIntBuf s) (\<lambda>(txCount, s).
             if txCount > maxTxPerBlock then Inl messageError
             else sbind (locate_loop fullLen txCount s) (\<lambda>(locs, txs, s).
               Inr (locs, \<lparr>mb_MsgHeader = mh, mb_Transactions = txs\<rparr>, s)))))"

definition MsgBlock_encode :: "MessageEncoding \<Rightarrow> MsgBlock \<Rightarrow> wire_error + bytes" where
  "MsgBlock_encode enc msg =
     sbind (MsgHeader_encode (mb_MsgHeader msg)) (\<lambda>mh.
       Inr (mh @ WriteVarIntBuf (length (mb_Transactions msg)) @ concat (map (prlEncode enc) (mb_Transactions msg))))"

definition block_Serialize :: "MsgBlock \<Rightarrow> wire_error + bytes" where
  "block_Serialize msg = MsgBlock_encode WitnessEncoding msg"

definition block_SerializeNoWitness :: "MsgBlock \<Rightarrow> wire_error + bytes" where
  "block_SerializeNoWitness msg = MsgBlock_encode BaseEncoding msg"

definition block_SerializeSize :: "MsgBlock \<Rightarrow> nat" where
  "block_SerializeSize msg =
     MsgHeader_SerializeSize (mb_MsgHeader msg) + VarIntSerializeSize (length (mb_Transactions msg)) +
     sum_list (map SerializeSize (mb_Transactions msg))"

definition block_SerializeSizeStripped :: "MsgBlock \<Rightarrow> nat" where
  "block_SerializeSizeStripped msg =
     MaxBlockHeaderPayload + VarIntSerializeSize (length (mb_Transactions msg)) +
     sum_list (map SerializeSizeStripped (mb_Transactions msg))"

definition SerializeWitnessSize :: "MsgBlock \<Rightarrow> int" where
  "SerializeWitnessSize msg =
     (\<Sum>tx \<leftarrow> mb_Transactions msg. int (SerializeSize tx) - int (SerializeSizeStripped tx))"

definition TxHashes :: "(bytes \<Rightarrow> hash) \<Rightarrow> MsgBlock \<Rightarrow> hash list" where
  "TxHashes doubleHash msg = map (TxHash doubleHash) (mb_Transactions msg)"

subsection \<open>The contract of a message\<close>

text \<open>A message whose encoder may fail: the reader accepts what the encoder writes for the values within
  the limits, and nothing else.\<close>

locale message_codec =
  fixes menc :: "'a \<Rightarrow> wire_error + bytes"
    and mdec :: "bytes \<Rightarrow> wire_error + ('a \<times> bytes)"
    and mok :: "'a \<Rightarrow> bool"
  assumes mdec_iff: "mdec s = Inr (x, r) \<longleftrightarrow> mok x \<and> (\<exists>b. menc x = Inr b \<and> s = b @ r)"
    and menc_ok: "mok x \<Longrightarrow> \<exists>b. menc x = Inr b"
begin

lemma mdec_menc: "mok x \<Longrightarrow> menc x = Inr b \<Longrightarrow> mdec (b @ r) = Inr (x, r)"
  using mdec_iff by blast

lemma menc_inj: "mok x \<Longrightarrow> mok y \<Longrightarrow> menc x = menc y \<Longrightarrow> x = y"
  using menc_ok [of x] mdec_menc [of x _ "[]"] mdec_menc [of y _ "[]"] by (metis Inr_inject prod.inject)

lemma read_loop_iff:
  "read_loop (\<lambda>_. mdec) (\<lambda>_. 0) n b s = Inr (xs, b', r) \<longleftrightarrow>
     list_all mok xs \<and> length xs = n \<and> b' = b \<and> (\<exists>bs. write_all menc xs = Inr bs \<and> s = bs @ r)"
proof (induction n arbitrary: s xs)
  case 0
  then show ?case by (cases xs) auto
next
  case (Suc n)
  show ?case
  proof (cases xs)
    case Nil
    then show ?thesis by (auto simp: sbind_eq_Inr)
  next
    case (Cons y ys)
    have "read_loop (\<lambda>_. mdec) (\<lambda>_. 0) (Suc n) b s = Inr (xs, b', r) \<longleftrightarrow>
        (\<exists>q. mdec s = Inr (y, q) \<and> read_loop (\<lambda>_. mdec) (\<lambda>_. 0) n b q = Inr (ys, b', r))"
      by (auto simp: sbind_eq_Inr Cons)
    also have "\<dots> \<longleftrightarrow> (\<exists>q. (mok y \<and> (\<exists>c. menc y = Inr c \<and> s = c @ q)) \<and>
        list_all mok ys \<and> length ys = n \<and> b' = b \<and> (\<exists>bs. write_all menc ys = Inr bs \<and> q = bs @ r))"
      by (simp add: Suc.IH mdec_iff)
    also have "\<dots> \<longleftrightarrow> list_all mok xs \<and> length xs = Suc n \<and> b' = b \<and> (\<exists>bs. write_all menc xs = Inr bs \<and> s = bs @ r)"
      unfolding Cons by (simp add: sbind_eq_Inr) (metis append.assoc)
    finally show ?thesis .
  qed
qed

lemma write_all_ok: "list_all mok xs \<Longrightarrow> \<exists>bs. write_all menc xs = Inr bs"
proof (induction xs)
  case (Cons x xs)
  then show ?case using menc_ok [of x] by auto
qed simp

end

sublocale byte_codec \<subseteq> plain: message_codec "\<lambda>x. Inr (enc x)" dec ok
  using dec_iff by unfold_locales auto

lemma write_all_plain: "write_all (\<lambda>x. Inr (f x)) xs = Inr (concat (map f xs))"
  by (induction xs) simp_all

text \<open>Limiting a reader changes nothing for a format whose values fit the limit.\<close>

lemma limited_iff:
  assumes dec: "\<And>s x r. dec s = Inr (x, r) \<longleftrightarrow> ok x \<and> (\<exists>b. enc x = Inr b \<and> s = b @ r)"
    and short: "\<And>x b. ok x \<Longrightarrow> enc x = Inr b \<Longrightarrow> length b \<le> n"
  shows "limited n dec s = Inr (x, r) \<longleftrightarrow> ok x \<and> (\<exists>b. enc x = Inr b \<and> s = b @ r)"
proof
  assume "limited n dec s = Inr (x, r)"
  then obtain q where "dec (take n s) = Inr (x, q)" "r = q @ drop n s" by (auto simp: limited_def sbind_eq_Inr)
  then show "ok x \<and> (\<exists>b. enc x = Inr b \<and> s = b @ r)" by (metis append.assoc append_take_drop_id dec)
next
  assume "ok x \<and> (\<exists>b. enc x = Inr b \<and> s = b @ r)"
  then obtain b where b: "ok x" "enc x = Inr b" "s = b @ r" by blast
  then have "take n s = b @ take (n - length b) r" "drop n s = drop (n - length b) r" using short [OF b(1,2)] by simp_all
  moreover from this(1) b have "dec (take n s) = Inr (x, take (n - length b) r)" using dec by blast
  ultimately show "limited n dec s = Inr (x, r)" by (simp add: limited_def)
qed

subsection \<open>The messages fulfil the contract\<close>

definition certV1_ok :: "CertificateV1 \<Rightarrow> bool" where
  "certV1_ok c \<longleftrightarrow> length (c1_Hash c) = 32 \<and> length (c1_PublicData c) = PublicDataSizeV1 \<and> length (c1_ProofData c) \<le> MaxZKProofSize"

definition certV2_ok :: "CertificateV2 \<Rightarrow> bool" where
  "certV2_ok c \<longleftrightarrow> length (c2_Hash c) = 32 \<and> c2_PublicDataLen c \<le> PublicDataMaxSizeV2 \<and>
     length (c2_PublicData c) = PublicDataMaxSizeV2 \<and>
     drop (c2_PublicDataLen c) (c2_PublicData c) = replicate (PublicDataMaxSizeV2 - c2_PublicDataLen c) 0 \<and>
     length (c2_ProofData c) \<le> MaxZKProofSize"

fun cert_ok :: "BlockCertificate option \<Rightarrow> bool" where
  "cert_ok None \<longleftrightarrow> True"
| "cert_ok (Some (CertV1 c)) \<longleftrightarrow> certV1_ok c"
| "cert_ok (Some (CertV2 c)) \<longleftrightarrow> certV2_ok c"
| "cert_ok (Some (CertV3 c)) \<longleftrightarrow> certV2_ok c"

lemma proof_len: "length p \<le> MaxZKProofSize \<Longrightarrow> nat (le_val (le_bytes 4 (int (length p)))) = length p"
  by (rule nat_le_val_le_bytes) (simp add: cert_limits)

lemma public_len: "n \<le> PublicDataMaxSizeV2 \<Longrightarrow> nat (le_val (le_bytes 4 (int n))) = n"
  by (rule nat_le_val_le_bytes) (simp add: cert_limits)

lemma DeserializeV1_iff: "DeserializeV1 s = Inr (c, r) \<longleftrightarrow> certV1_ok c \<and> s = SerializeV1 c @ r"
proof
  assume "DeserializeV1 s = Inr (c, r)"
  then obtain h p l d where s: "s = h @ p @ l @ d @ r" "length h = 32" "length p = PublicDataSizeV1" "length l = 4"
      "nat (le_val l) \<le> MaxZKProofSize" "length d = nat (le_val l)" "c = \<lparr>c1_Hash = h, c1_PublicData = p, c1_ProofData = d\<rparr>"
    by (auto simp: DeserializeV1_def Let_def sbind_eq_Inr ReadFull_eq_Inr split: if_splits)
  moreover have "le_bytes 4 (int (nat (le_val l))) = l" by (rule le_bytes_nat [OF s(4)])
  ultimately show "certV1_ok c \<and> s = SerializeV1 c @ r" by (simp add: certV1_ok_def SerializeV1_def del: of_nat_nat)
next
  assume "certV1_ok c \<and> s = SerializeV1 c @ r"
  then show "DeserializeV1 s = Inr (c, r)"
    by (cases c) (simp add: DeserializeV1_def SerializeV1_def certV1_ok_def ReadFull_append proof_len)
qed

lemma DeserializeV2_iff:
  "DeserializeV2 s = Inr (c, r) \<longleftrightarrow> certV2_ok c \<and> (\<exists>b. SerializeV2 c = Inr b \<and> s = b @ r)"
proof
  assume "DeserializeV2 s = Inr (c, r)"
  then obtain h k p l d where s: "s = h @ k @ p @ l @ d @ r" "length h = 32" "length k = 4" "nat (le_val k) \<le> PublicDataMaxSizeV2"
      "length p = nat (le_val k)" "length l = 4" "nat (le_val l) \<le> MaxZKProofSize" "length d = nat (le_val l)"
      "c = \<lparr>c2_Hash = h, c2_PublicDataLen = nat (le_val k), c2_PublicData = p @ replicate (PublicDataMaxSizeV2 - nat (le_val k)) 0, c2_ProofData = d\<rparr>"
    by (auto simp: DeserializeV2_def Let_def sbind_eq_Inr ReadFull_eq_Inr split: if_splits)
  moreover have "le_bytes 4 (int (nat (le_val l))) = l" "le_bytes 4 (int (nat (le_val k))) = k"
    by (rule le_bytes_nat [OF s(6)], rule le_bytes_nat [OF s(3)])
  ultimately show "certV2_ok c \<and> (\<exists>b. SerializeV2 c = Inr b \<and> s = b @ r)"
    by (simp add: certV2_ok_def SerializeV2_def PublicDataBytesV2_def del: of_nat_nat)
next
  assume c: "certV2_ok c \<and> (\<exists>b. SerializeV2 c = Inr b \<and> s = b @ r)"
  then have "take (c2_PublicDataLen c) (c2_PublicData c) @ replicate (PublicDataMaxSizeV2 - c2_PublicDataLen c) 0 = c2_PublicData c"
    by (metis certV2_ok_def append_take_drop_id)
  with c show "DeserializeV2 s = Inr (c, r)"
    by (cases c) (auto simp: DeserializeV2_def SerializeV2_def PublicDataBytesV2_def certV2_ok_def ReadFull_append proof_len
         public_len split: if_splits)
qed

lemma length_SerializeV1: "certV1_ok c \<Longrightarrow> length (SerializeV1 c) = SerializedSizeV1 c"
  by (simp add: certV1_ok_def SerializeV1_def SerializedSizeV1_def)

lemma SerializeV2_ok: "certV2_ok c \<Longrightarrow> \<exists>b. SerializeV2 c = Inr b \<and> length b = SerializedSizeV2 c"
  by (simp add: certV2_ok_def SerializeV2_def SerializedSizeV2_def PublicDataBytesV2_def)

lemma cert_sizes:
  "certV1_ok c1 \<Longrightarrow> 4 + SerializedSizeV1 c1 \<le> CertificateMaxSize" "certV2_ok c2 \<Longrightarrow> 4 + SerializedSizeV2 c2 \<le> CertificateMaxSize"
  by (simp_all add: certV1_ok_def certV2_ok_def SerializedSizeV1_def SerializedSizeV2_def cert_limits)

lemma limited_V1: "limited CertificateMaxSize DeserializeV1 s = Inr (c, r) \<longleftrightarrow> certV1_ok c \<and> s = SerializeV1 c @ r"
proof -
  have "length (SerializeV1 c) \<le> CertificateMaxSize" if "certV1_ok c" for c
    using length_SerializeV1 [OF that] cert_sizes(1) [OF that] by simp
  then have "limited CertificateMaxSize DeserializeV1 s = Inr (c, r) \<longleftrightarrow>
      certV1_ok c \<and> (\<exists>b. (Inr (SerializeV1 c) :: wire_error + bytes) = Inr b \<and> s = b @ r)"
    by (intro limited_iff) (auto simp: DeserializeV1_iff)
  then show ?thesis by simp
qed

lemma limited_V2:
  "limited CertificateMaxSize DeserializeV2 s = Inr (c, r) \<longleftrightarrow> certV2_ok c \<and> (\<exists>b. SerializeV2 c = Inr b \<and> s = b @ r)"
proof (rule limited_iff [OF DeserializeV2_iff])
  fix c b
  assume "certV2_ok c" "SerializeV2 c = Inr b"
  then show "length b \<le> CertificateMaxSize" using SerializeV2_ok [of c] cert_sizes(2) [of c] by auto
qed

interpretation certificate: message_codec MsgCertificate_encode MsgCertificate_decode cert_ok
proof unfold_locales
  fix m
  assume "cert_ok m"
  then show "\<exists>b. MsgCertificate_encode m = Inr b"
    using cert_sizes SerializeV2_ok
    by (cases m rule: cert_ok.cases)
      (fastforce simp: MsgCertificate_encode_def MsgCertificate_SerializeSize_def not_le [symmetric])+
next
  fix s m r
  show "MsgCertificate_decode s = Inr (m, r) \<longleftrightarrow> cert_ok m \<and> (\<exists>b. MsgCertificate_encode m = Inr b \<and> s = b @ r)"
  proof
    assume "MsgCertificate_decode s = Inr (m, r)"
    then obtain v q where v: "s = v @ q" "length v = 4" and
      cases: "nat (le_val v) = 0 \<and> m = None \<and> q = r
        \<or> nat (le_val v) = 1 \<and> (\<exists>c. m = Some (CertV1 c) \<and> limited CertificateMaxSize DeserializeV1 q = Inr (c, r))
        \<or> nat (le_val v) = 2 \<and> (\<exists>c. m = Some (CertV2 c) \<and> limited CertificateMaxSize DeserializeV2 q = Inr (c, r))
        \<or> nat (le_val v) = 3 \<and> (\<exists>c. m = Some (CertV3 c) \<and> limited CertificateMaxSize DeserializeV2 q = Inr (c, r))"
      by (auto simp: MsgCertificate_decode_def Let_def sbind_eq_Inr ReadFull_eq_Inr cert_limits split: if_splits)
    have "v = le_bytes 4 (int (nat (le_val v)))" using le_bytes_nat [OF v(2)] by simp
    then show "cert_ok m \<and> (\<exists>b. MsgCertificate_encode m = Inr b \<and> s = b @ r)"
      using cases v cert_sizes unfolding limited_V1 limited_V2
      by (elim disjE) (auto simp: MsgCertificate_encode_def MsgCertificate_SerializeSize_def CertificateVersionNull_def
        CertificateVersionV1_def CertificateVersionV2_def CertificateVersionV3_def not_less)
  next
    have limit: "nat (le_val (le_bytes 4 (int v))) = v" if "v \<le> 3" for v
      using that by (intro nat_le_val_le_bytes) simp
    note versions = CertificateVersionNull_def CertificateVersionV1_def CertificateVersionV2_def CertificateVersionV3_def
    assume "cert_ok m \<and> (\<exists>b. MsgCertificate_encode m = Inr b \<and> s = b @ r)"
    then show "MsgCertificate_decode s = Inr (m, r)"
      using limited_V1 limited_V2 limit [of 0] limit [of 1] limit [of 2] limit [of 3]
      by (cases m rule: cert_ok.cases)
        (auto simp: MsgCertificate_decode_def MsgCertificate_encode_def versions sbind_eq_Inr ReadFull_append split: if_splits)
  qed
qed

definition msgheader_ok :: "MsgHeader \<Rightarrow> bool" where
  "msgheader_ok mh \<longleftrightarrow> cert_ok (mh_MsgCertificate mh) \<and> header_ok (mh_BlockHeader mh)"

interpretation msg_header: message_codec MsgHeader_encode MsgHeader_decode msgheader_ok
proof unfold_locales
  fix mh
  assume "msgheader_ok mh"
  then show "\<exists>b. MsgHeader_encode mh = Inr b"
    using certificate.menc_ok [of "mh_MsgCertificate mh"] by (auto simp: MsgHeader_encode_def msgheader_ok_def)
next
  fix s mh r
  have "MsgHeader_decode s = Inr (mh, r) \<longleftrightarrow>
      (\<exists>q. MsgCertificate_decode s = Inr (mh_MsgCertificate mh, q) \<and> readBlockHeaderBuf q = Inr (mh_BlockHeader mh, r))"
    by (cases mh) (auto simp: MsgHeader_decode_def sbind_eq_Inr)
  also have "\<dots> \<longleftrightarrow> msgheader_ok mh \<and> (\<exists>b. MsgHeader_encode mh = Inr b \<and> s = b @ r)"
    unfolding certificate.mdec_iff block_header.dec_iff MsgHeader_encode_def msgheader_ok_def sbind_eq_Inr
    by auto
  finally show "MsgHeader_decode s = Inr (mh, r) \<longleftrightarrow> msgheader_ok mh \<and> (\<exists>b. MsgHeader_encode mh = Inr b \<and> s = b @ r)" .
qed

lemma inconsistent_loop_iff:
  "\<not> (a \<and> b) \<Longrightarrow> inconsistent_loop hs a b \<longleftrightarrow>
     (a \<or> (\<exists>mh \<in> set hs. mh_MsgCertificate mh \<noteq> None)) \<and> (b \<or> (\<exists>mh \<in> set hs. mh_MsgCertificate mh = None))"
proof (induction hs arbitrary: a b)
  case (Cons mh hs)
  show ?case using Cons.IH [of a True] Cons.IH [of True b] Cons.prems
    by (cases "mh_MsgCertificate mh") (auto simp: Let_def)
qed simp

lemma HasInconsistentCertificates_iff:
  "HasInconsistentCertificates hs \<longleftrightarrow>
     (\<exists>mh \<in> set hs. mh_MsgCertificate mh \<noteq> None) \<and> (\<exists>mh \<in> set hs. mh_MsgCertificate mh = None)"
  by (auto simp: HasInconsistentCertificates_def inconsistent_loop_iff)

definition headers_ok :: "MsgHeader list \<Rightarrow> bool" where
  "headers_ok hs \<longleftrightarrow> length hs \<le> MaxBlockHeadersPerMsg \<and> list_all msgheader_ok hs \<and> \<not> HasInconsistentCertificates hs"

interpretation msg_headers: message_codec MsgHeaders_encode MsgHeaders_decode headers_ok
proof unfold_locales
  fix hs
  assume "headers_ok hs"
  then show "\<exists>b. MsgHeaders_encode hs = Inr b"
    using msg_header.write_all_ok [of hs] by (auto simp: MsgHeaders_encode_def headers_ok_def)
next
  fix s hs r
  have "MsgHeaders_decode s = Inr (hs, r) \<longleftrightarrow>
      (\<exists>count q. ReadVarIntBuf s = Inr (count, q) \<and> count \<le> MaxBlockHeadersPerMsg \<and> \<not> HasInconsistentCertificates hs \<and>
         (\<exists>b'. read_loop (\<lambda>_. MsgHeader_decode) (\<lambda>_. 0) count 0 q = Inr (hs, b', r)))"
    by (auto simp: MsgHeaders_decode_def sbind_eq_Inr guard_eq_Inr)
  also have "\<dots> \<longleftrightarrow> headers_ok hs \<and> (\<exists>bs. write_all MsgHeader_encode hs = Inr bs \<and> s = (WriteVarIntBuf (length hs) @ bs) @ r)"
    unfolding var_int.dec_iff msg_header.read_loop_iff headers_ok_def by (auto simp: MaxBlockHeadersPerMsg_def)
  also have "\<dots> \<longleftrightarrow> headers_ok hs \<and> (\<exists>b. MsgHeaders_encode hs = Inr b \<and> s = b @ r)"
    by (auto simp: MsgHeaders_encode_def headers_ok_def sbind_eq_Inr)
  finally show "MsgHeaders_decode s = Inr (hs, r) \<longleftrightarrow> headers_ok hs \<and> (\<exists>b. MsgHeaders_encode hs = Inr b \<and> s = b @ r)" .
qed

text \<open>The blocks that fit the limits of the decoder; a transaction without inputs cannot be told from the witness marker.\<close>

definition block_ok :: "MsgBlock \<Rightarrow> bool" where
  "block_ok msg \<longleftrightarrow> msgheader_ok (mb_MsgHeader msg) \<and> length (mb_Transactions msg) \<le> maxTxPerBlock \<and>
     list_all (\<lambda>tx. tx_ok tx \<and> tx_TxIn tx \<noteq> []) (mb_Transactions msg)"

lemma txs_read:
  "read_loop (\<lambda>_. prlDecode WitnessEncoding) (\<lambda>_. 0) n b s = Inr (txs, b', r) \<longleftrightarrow>
     list_all (\<lambda>tx. tx_ok tx \<and> tx_TxIn tx \<noteq> []) txs \<and> length txs = n \<and> b' = b \<and> s = concat (map (prlEncode WitnessEncoding) txs) @ r"
  using msg_tx.plain.read_loop_iff [of n b s txs b' r] by (simp add: write_all_plain)

interpretation msg_block: message_codec block_Serialize block_Deserialize block_ok
proof unfold_locales
  fix msg
  assume "block_ok msg"
  then show "\<exists>b. block_Serialize msg = Inr b"
    using msg_header.menc_ok [of "mb_MsgHeader msg"] by (auto simp: block_Serialize_def MsgBlock_encode_def block_ok_def)
next
  fix s msg r
  have "block_Deserialize s = Inr (msg, r) \<longleftrightarrow>
      (\<exists>q count p. MsgHeader_decode s = Inr (mb_MsgHeader msg, q) \<and> ReadVarIntBuf q = Inr (count, p) \<and> count \<le> maxTxPerBlock \<and>
         (\<exists>b'. read_loop (\<lambda>_. prlDecode WitnessEncoding) (\<lambda>_. 0) count 0 p = Inr (mb_Transactions msg, b', r)))"
    by (cases msg) (auto simp: block_Deserialize_def MsgBlock_decode_def sbind_eq_Inr guard_eq_Inr)
  also have "\<dots> \<longleftrightarrow> block_ok msg \<and> (\<exists>h. MsgHeader_encode (mb_MsgHeader msg) = Inr h \<and>
      s = (h @ WriteVarIntBuf (length (mb_Transactions msg)) @ concat (map (prlEncode WitnessEncoding) (mb_Transactions msg))) @ r)"
    unfolding var_int.dec_iff txs_read msg_header.mdec_iff block_ok_def
    by (auto simp: maxTxPerBlock_def MaxBlockPayload_def minTxPayload_def)
  also have "\<dots> \<longleftrightarrow> block_ok msg \<and> (\<exists>b. block_Serialize msg = Inr b \<and> s = b @ r)"
    by (auto simp: block_Serialize_def MsgBlock_encode_def sbind_eq_Inr)
  finally show "block_Deserialize s = Inr (msg, r) \<longleftrightarrow> block_ok msg \<and> (\<exists>b. block_Serialize msg = Inr b \<and> s = b @ r)" .
qed

subsection \<open>Locations and sizes\<close>

text \<open>The bytes at a location.\<close>

definition slice_at :: "bytes \<Rightarrow> TxLoc \<Rightarrow> bytes" where
  "slice_at s loc = take (tl_TxLen loc) (drop (tl_TxStart loc) s)"

lemma locate_loop_iff:
  assumes "length q \<le> fullLen"
  shows "(\<exists>locs. locate_loop fullLen n q = Inr (locs, txs, r)) \<longleftrightarrow>
     read_loop (\<lambda>_. prlDecode WitnessEncoding) (\<lambda>_. 0) n 0 q = Inr (txs, 0, r)"
  using assms
proof (induction n arbitrary: q txs)
  case (Suc n)
  show ?case
  proof (cases "prlDecode WitnessEncoding q")
    case (Inr p)
    then obtain tx q' where d: "prlDecode WitnessEncoding q = Inr (tx, q')" by (cases p) simp
    then have "length q' \<le> fullLen" using Suc.prems by (auto simp: msg_tx.dec_iff)
    from Suc.IH [OF this] show ?thesis using d by (cases txs) (auto simp: Let_def sbind_eq_Inr)
  qed (simp add: Let_def)
qed simp

lemma locate_loop_slices:
  assumes "locate_loop (length (p @ q)) n q = Inr (locs, txs, r)"
  shows "map (slice_at (p @ q)) locs = map Serialize txs"
  using assms
proof (induction n arbitrary: p q locs txs)
  case (Suc n)
  then obtain tx q' ls ts where s: "prlDecode WitnessEncoding q = Inr (tx, q')" "locate_loop (length (p @ q)) n q' = Inr (ls, ts, r)"
      "locs = \<lparr>tl_TxStart = length (p @ q) - length q, tl_TxLen = (length (p @ q) - length q') - (length (p @ q) - length q)\<rparr> # ls" "txs = tx # ts"
    by (auto simp: Let_def sbind_eq_Inr)
  from s(1) have q: "q = Serialize tx @ q'" by (simp add: msg_tx.dec_iff Serialize_def)
  with s(2) have "locate_loop (length ((p @ Serialize tx) @ q')) n q' = Inr (ls, ts, r)" by simp
  from Suc.IH [OF this] q s(3,4) show ?case by (simp add: slice_at_def)
qed simp

lemma DeserializeTxLoc_iff:
  "(\<exists>locs. DeserializeTxLoc s = Inr (locs, msg, r)) \<longleftrightarrow> block_Deserialize s = Inr (msg, r)"
proof -
  have short: "length q \<le> length s" if "MsgHeader_decode s = Inr (mh, p)" "ReadVarIntBuf p = Inr (count, q)" for mh p count q
    using that by (auto simp: msg_header.mdec_iff var_int.dec_iff)
  have "(\<exists>locs. DeserializeTxLoc s = Inr (locs, msg, r)) \<longleftrightarrow>
      (\<exists>p count q. MsgHeader_decode s = Inr (mb_MsgHeader msg, p) \<and> ReadVarIntBuf p = Inr (count, q) \<and> count \<le> maxTxPerBlock \<and>
         (\<exists>locs. locate_loop (length s) count q = Inr (locs, mb_Transactions msg, r)))"
    by (cases msg) (auto simp: DeserializeTxLoc_def Let_def sbind_eq_Inr guard_eq_Inr)
  also have "\<dots> \<longleftrightarrow> (\<exists>p count q. MsgHeader_decode s = Inr (mb_MsgHeader msg, p) \<and> ReadVarIntBuf p = Inr (count, q) \<and> count \<le> maxTxPerBlock \<and>
         read_loop (\<lambda>_. prlDecode WitnessEncoding) (\<lambda>_. 0) count 0 q = Inr (mb_Transactions msg, 0, r))"
    using short locate_loop_iff by blast
  also have "\<dots> \<longleftrightarrow> block_Deserialize s = Inr (msg, r)"
    by (cases msg) (auto simp: block_Deserialize_def MsgBlock_decode_def sbind_eq_Inr guard_eq_Inr txs_read)
  finally show ?thesis .
qed

lemma DeserializeTxLoc_slices:
  assumes "DeserializeTxLoc s = Inr (locs, msg, r)"
  shows "map (slice_at s) locs = map Serialize (mb_Transactions msg)"
proof -
  obtain mh p count q where s: "MsgHeader_decode s = Inr (mh, p)" "ReadVarIntBuf p = Inr (count, q)"
      "locate_loop (length s) count q = Inr (locs, mb_Transactions msg, r)"
    using assms by (auto simp: DeserializeTxLoc_def Let_def sbind_eq_Inr split: if_splits)
  then obtain pre where "s = pre @ q" by (auto simp: msg_header.mdec_iff var_int.dec_iff)
  with s(3) show ?thesis using locate_loop_slices [of pre q count locs "mb_Transactions msg" r] by simp
qed

lemma MsgCertificate_size: "cert_ok m \<Longrightarrow> MsgCertificate_encode m = Inr b \<Longrightarrow> length b = MsgCertificate_SerializeSize m"
  using SerializeV2_ok length_SerializeV1
  by (cases m rule: cert_ok.cases) (fastforce simp: MsgCertificate_encode_def MsgCertificate_SerializeSize_def split: if_splits)+

lemma length_header: "header_ok bh \<Longrightarrow> length (writeBlockHeaderBuf bh) = MaxBlockHeaderPayload"
  by (simp add: header_ok_def writeBlockHeaderBuf_def MaxBlockHeaderPayload_def)

lemma MsgHeader_size: "msgheader_ok mh \<Longrightarrow> MsgHeader_encode mh = Inr b \<Longrightarrow> length b = MsgHeader_SerializeSize mh"
  by (auto simp: MsgHeader_encode_def msgheader_ok_def sbind_eq_Inr MsgHeader_SerializeSize_def MsgCertificate_size length_header)

lemma tx_ok_size: "tx_ok tx \<Longrightarrow> length (Serialize tx) = SerializeSize tx" "tx_ok tx \<Longrightarrow> length (SerializeNoWitness tx) = SerializeSizeStripped tx"
  using tx_serialized_size [of tx] by (auto simp: tx_ok_def txins_ok_def list_all_iff txin_ok_def strip_def outpoint_ok_def)

lemma txs_size:
  "list_all (\<lambda>tx. tx_ok tx \<and> tx_TxIn tx \<noteq> []) txs \<Longrightarrow> length (concat (map Serialize txs)) = sum_list (map SerializeSize txs)"
  by (induction txs) (simp_all add: tx_ok_size)

lemma block_size:
  assumes "block_ok msg" "block_Serialize msg = Inr b"
  shows "length b = block_SerializeSize msg"
proof -
  obtain h where h: "MsgHeader_encode (mb_MsgHeader msg) = Inr h"
      "b = h @ WriteVarIntBuf (length (mb_Transactions msg)) @ concat (map Serialize (mb_Transactions msg))"
    using assms(2) by (auto simp: block_Serialize_def MsgBlock_encode_def sbind_eq_Inr Serialize_def [abs_def])
  with assms(1) show ?thesis
    by (simp add: block_ok_def MsgHeader_size txs_size length_WriteVarIntBuf block_SerializeSize_def)
qed

text \<open>The witness size is the part of a block that stripping removes, apart from the certificate.\<close>

lemma int_sum_map: "int (sum_list (map f xs)) = (\<Sum>x \<leftarrow> xs. int (f x))"
  by (induction xs) simp_all

lemma SerializeWitnessSize_eq:
  "int (block_SerializeSize msg) = int (block_SerializeSizeStripped msg) + SerializeWitnessSize msg +
     int (MsgCertificate_SerializeSize (mh_MsgCertificate (mb_MsgHeader msg)))"
  by (simp add: block_SerializeSize_def block_SerializeSizeStripped_def SerializeWitnessSize_def MsgHeader_SerializeSize_def
        sum_list_subtractf int_sum_map)

text \<open>A certificate whose proof is longer than the reader allows is written.\<close>

definition long_certificate :: BlockCertificate where
  "long_certificate = CertV1 \<lparr>c1_Hash = replicate 32 0, c1_PublicData = replicate 164 0, c1_ProofData = replicate 60001 0\<rparr>"

lemma DeserializeV1_long:
  "length h = 32 \<Longrightarrow> length p = PublicDataSizeV1 \<Longrightarrow> n < 2 ^ 32 \<Longrightarrow> n > MaxZKProofSize \<Longrightarrow>
     DeserializeV1 (h @ p @ le_bytes 4 (int n) @ q) = Inl formatError"
  using nat_le_val_le_bytes [of n 4] by (simp add: DeserializeV1_def ReadFull_append)

lemma certificate_encode_asymmetry:
  "\<exists>b. MsgCertificate_encode (Some long_certificate) = Inr b \<and> (\<forall>r. MsgCertificate_decode (b @ r) = Inl formatError)"
proof (intro exI conjI allI)
  let ?b = "replicate 32 0 @ replicate 164 0 @ le_bytes 4 (int 60001) @ replicate 60001 (0 :: byte)"
  show "MsgCertificate_encode (Some long_certificate) = Inr (le_bytes 4 (int CertificateVersionV1) @ ?b)"
    by (simp add: MsgCertificate_encode_def MsgCertificate_SerializeSize_def long_certificate_def SerializedSizeV1_def
          SerializeV1_def cert_limits)
  fix r
  have "take CertificateMaxSize (?b @ r) = replicate 32 0 @ replicate 164 0 @ le_bytes 4 (int 60001) @ take 64800 (replicate 60001 0 @ r)"
    by (simp add: CertificateMaxSize_def)
  then have "limited CertificateMaxSize DeserializeV1 (?b @ r) = Inl formatError"
    using DeserializeV1_long [of "replicate 32 0" "replicate 164 0" 60001] by (simp add: limited_def PublicDataSizeV1_def MaxZKProofSize_def)
  then show "MsgCertificate_decode ((le_bytes 4 (int CertificateVersionV1) @ ?b) @ r) = Inl formatError"
    using nat_le_val_le_bytes [of CertificateVersionV1 4]
    by (simp add: MsgCertificate_decode_def ReadFull_append CertificateVersionV1_def CertificateVersionNull_def)
qed

subsection \<open>Properties\<close>

text \<open>
  C32. Blocks are not malleable: the decoder accepts exactly the serializations of the blocks within the limits,
  certificate and witness data included, leaves what follows them, and the size function gives the number of bytes.\<close>

theorem block_serialization_canonical:
  "block_Deserialize s = Inr (msg, r) \<longleftrightarrow>
     block_ok msg \<and> (\<exists>b. block_Serialize msg = Inr b \<and> s = b @ r \<and> length b = block_SerializeSize msg)"
  unfolding msg_block.mdec_iff using block_size by blast

text \<open>A batch of headers is read back unless it mixes headers with and without a certificate.\<close>

lemma headers_serialization_canonical:
  "MsgHeaders_decode s = Inr (hs, r) \<longleftrightarrow> headers_ok hs \<and> (\<exists>b. MsgHeaders_encode hs = Inr b \<and> s = b @ r)"
  by (rule msg_headers.mdec_iff)

text \<open>
  Locating the transactions of a serialized block succeeds exactly for the blocks that decode, and every location holds the
  bytes of its transaction.\<close>

lemma transaction_locations:
  "(\<exists>locs. DeserializeTxLoc s = Inr (locs, msg, r) \<and> map (slice_at s) locs = map Serialize (mb_Transactions msg)) \<longleftrightarrow>
     block_Deserialize s = Inr (msg, r)"
  using DeserializeTxLoc_iff DeserializeTxLoc_slices by blast

end
