(* ===== verification/Median_Time.thy ===== *)
theory Median_Time
  imports Prelude "HOL-Library.Multiset"
begin

text \<open>
  The median time source (\<^verbatim>\<open>node/blockchain/mediantime.go\<close>): the clock is adjusted by the median of the
  offsets that peers report. Times are in seconds, as they arrive on the wire; \<open>now\<close> is the reading of the local clock. The
  lemmas bound the adjustment, show that an honest majority of samples determines it, and that it stays for ever
  once the list of samples is full.
\<close>

definition maxAllowedOffsetSecs :: int where "maxAllowedOffsetSecs = 70 * 60"
definition maxMedianTimeEntries :: nat where "maxMedianTimeEntries = 200"

record medianTime =
  mt_knownIDs :: "string set"
  mt_offsets :: "int list"
  mt_offsetSecs :: int
  mt_invalidTimeChecked :: bool

definition NewMedianTime :: medianTime where
  "NewMedianTime = \<lparr>mt_knownIDs = {}, mt_offsets = [], mt_offsetSecs = 0, mt_invalidTimeChecked = False\<rparr>"

definition AdjustedTime :: "medianTime \<Rightarrow> int \<Rightarrow> int" where
  "AdjustedTime m now = now + mt_offsetSecs m"

definition time_Offset :: "medianTime \<Rightarrow> int" where
  "time_Offset m = mt_offsetSecs m"

text \<open>\<open>timeVal.Sub(now)\<close> saturates at the limits of a \<open>time.Duration\<close>, which are this many seconds.\<close>

definition maxDurationSecs :: int where "maxDurationSecs = (2 ^ 63 - 1) div 10 ^ 9"

definition Sub_Seconds :: "int \<Rightarrow> int \<Rightarrow> int" where
  "Sub_Seconds timeVal now = max (- maxDurationSecs) (min maxDurationSecs (timeVal - now))"

definition push_offset :: "int list \<Rightarrow> int \<Rightarrow> int list" where
  "push_offset offsets offsetSecs =
     (if length offsets = maxMedianTimeEntries \<and> maxMedianTimeEntries > 0 then drop 1 offsets else offsets) @ [offsetSecs]"

definition AddTimeSample :: "medianTime \<Rightarrow> string \<Rightarrow> int \<Rightarrow> int \<Rightarrow> medianTime" where
  "AddTimeSample m sourceID timeVal now =
     (if sourceID \<in> mt_knownIDs m then m
      else
        let m = m\<lparr>mt_knownIDs := insert sourceID (mt_knownIDs m)\<rparr>;
            offsetSecs = Sub_Seconds timeVal now;
            offsets = push_offset (mt_offsets m) offsetSecs;
            m = m\<lparr>mt_offsets := offsets\<rparr>;
            numOffsets = length offsets;
            sortedOffsets = sort offsets
        in if numOffsets < 5 \<or> numOffsets mod 2 \<noteq> 1 then m
           else
             let median = sortedOffsets ! (numOffsets div 2)
             in if \<bar>median\<bar> < maxAllowedOffsetSecs then m\<lparr>mt_offsetSecs := median\<rparr>
                else m\<lparr>mt_offsetSecs := 0, mt_invalidTimeChecked := True\<rparr>)"

subsection \<open>The adjustment\<close>

text \<open>The states that samples lead to; a sample is a source, its time and the local time.\<close>

fun add_samples :: "(string \<times> int \<times> int) list \<Rightarrow> medianTime \<Rightarrow> medianTime" where
  "add_samples [] m = m"
| "add_samples ((sourceID, timeVal, now) # samples) m = add_samples samples (AddTimeSample m sourceID timeVal now)"

definition median_ok :: "medianTime \<Rightarrow> bool" where
  "median_ok m \<longleftrightarrow> \<bar>mt_offsetSecs m\<bar> < maxAllowedOffsetSecs \<and> length (mt_offsets m) \<le> maxMedianTimeEntries"

lemma AddTimeSample_ok: "median_ok m \<Longrightarrow> median_ok (AddTimeSample m sourceID timeVal now)"
  by (auto simp: median_ok_def AddTimeSample_def Let_def push_offset_def maxAllowedOffsetSecs_def maxMedianTimeEntries_def)

lemma add_samples_ok: "median_ok m \<Longrightarrow> median_ok (add_samples samples m)"
  by (induction samples m rule: add_samples.induct) (simp_all add: AddTimeSample_ok)

lemma AddTimeSample_full:
  "length (mt_offsets m) = maxMedianTimeEntries \<Longrightarrow>
     length (mt_offsets (AddTimeSample m sourceID timeVal now)) = maxMedianTimeEntries \<and>
     mt_offsetSecs (AddTimeSample m sourceID timeVal now) = mt_offsetSecs m"
  by (auto simp: AddTimeSample_def Let_def push_offset_def maxMedianTimeEntries_def)

lemma add_samples_full:
  "length (mt_offsets m) = maxMedianTimeEntries \<Longrightarrow> mt_offsetSecs (add_samples samples m) = mt_offsetSecs m"
  by (induction samples m rule: add_samples.induct) (simp_all add: AddTimeSample_full)

text \<open>An element in the middle of a sorted list is not below what more than half of the list reaches.\<close>

lemma sorted_middle_ge:
  assumes "sorted xs" "length xs < 2 * length (filter (\<lambda>x. lo \<le> x) xs)" 
  shows "lo \<le> xs ! (length xs div 2)"
proof (rule ccontr)
  assume low: "\<not> lo \<le> xs ! (length xs div 2)"
  let ?k = "length xs div 2 + 1"
  have k: "length xs div 2 < length xs" using assms(2) by (cases xs) auto
  have "x < lo" if "x \<in> set (take ?k xs)" for x
  proof -
    from that obtain i where "i < ?k" "i < length xs" "x = xs ! i" by (auto simp: in_set_conv_nth)
    then show ?thesis using low k sorted_nth_mono [OF assms(1), of i "length xs div 2"] by simp
  qed
  then have "filter (\<lambda>x. lo \<le> x) (take ?k xs) = []" by (force simp: filter_empty_conv)
  then have "filter (\<lambda>x. lo \<le> x) xs = filter (\<lambda>x. lo \<le> x) (drop ?k xs)" by (metis append_Nil append_take_drop_id filter_append)
  then have "length (filter (\<lambda>x. lo \<le> x) xs) \<le> length xs - ?k" using length_filter_le [of "\<lambda>x. lo \<le> x" "drop ?k xs"] by simp
  then show False using assms(2) by linarith
qed

lemma sorted_middle_le:
  assumes "sorted xs" "length xs < 2 * length (filter (\<lambda>x. x \<le> hi) xs)"
  shows "xs ! (length xs div 2) \<le> hi"
proof (rule ccontr)
  assume high: "\<not> xs ! (length xs div 2) \<le> hi"
  let ?k = "length xs div 2"
  have "hi < x" if "x \<in> set (drop ?k xs)" for x
  proof -
    from that obtain i where "i < length xs - ?k" "x = drop ?k xs ! i" by (auto simp: in_set_conv_nth)
    then have "?k + i < length xs" "x = xs ! (?k + i)" by simp_all
    then show ?thesis using high sorted_nth_mono [OF assms(1), of ?k "?k + i"] by simp
  qed
  then have "filter (\<lambda>x. x \<le> hi) (drop ?k xs) = []" by (force simp: filter_empty_conv)
  then have "filter (\<lambda>x. x \<le> hi) xs = filter (\<lambda>x. x \<le> hi) (take ?k xs)" by (metis append_Nil2 append_take_drop_id filter_append)
  then have "length (filter (\<lambda>x. x \<le> hi) xs) \<le> ?k" using length_filter_le [of "\<lambda>x. x \<le> hi" "take ?k xs"] by simp
  then show False using assms(2) by linarith
qed

lemma median_majority:
  assumes "length xs < 2 * length (filter (\<lambda>x. lo \<le> x \<and> x \<le> hi) xs)"
  shows "lo \<le> sort xs ! (length xs div 2) \<and> sort xs ! (length xs div 2) \<le> hi"
proof -
  have len: "length (filter P (sort xs)) = length (filter P xs)" for P
    using mset_filter [of P "sort xs"] mset_filter [of P xs] by (metis mset_sort size_mset)
  have "length (filter (\<lambda>x. lo \<le> x \<and> x \<le> hi) xs) \<le> length (filter (\<lambda>x. lo \<le> x) xs)"
    using length_filter_le [of "\<lambda>x. x \<le> hi" "filter (\<lambda>x. lo \<le> x) xs"] by (simp add: conj_commute)
  moreover have "length (filter (\<lambda>x. lo \<le> x \<and> x \<le> hi) xs) \<le> length (filter (\<lambda>x. x \<le> hi) xs)"
    using length_filter_le [of "\<lambda>x. lo \<le> x" "filter (\<lambda>x. x \<le> hi) xs"] by (simp add: conj_commute)
  ultimately show ?thesis
    using assms sorted_middle_ge [of "sort xs" lo] sorted_middle_le [of "sort xs" hi] len by simp
qed

lemma AddTimeSample_median:
  assumes "sourceID \<notin> mt_knownIDs m" "m' = AddTimeSample m sourceID timeVal now"
    "5 \<le> length (mt_offsets m')" "length (mt_offsets m') mod 2 = 1"
    "\<bar>sort (mt_offsets m') ! (length (mt_offsets m') div 2)\<bar> < maxAllowedOffsetSecs"
  shows "mt_offsetSecs m' = sort (mt_offsets m') ! (length (mt_offsets m') div 2)"
proof -
  have "mt_offsets m' = push_offset (mt_offsets m) (Sub_Seconds timeVal now)"
    using assms(1) unfolding assms(2) AddTimeSample_def Let_def by simp
  with assms show ?thesis unfolding assms(2) AddTimeSample_def Let_def by simp
qed

lemma AddTimeSample_majority:
  assumes "sourceID \<notin> mt_knownIDs m" "m' = AddTimeSample m sourceID timeVal now" "5 \<le> length (mt_offsets m')" "odd (length (mt_offsets m'))"
    "length (mt_offsets m') < 2 * length (filter (\<lambda>x. lo \<le> x \<and> x \<le> hi) (mt_offsets m'))" "- maxAllowedOffsetSecs < lo" "hi < maxAllowedOffsetSecs"
  shows "lo \<le> mt_offsetSecs m' \<and> mt_offsetSecs m' \<le> hi"
proof -
  note med = median_majority [OF assms(5)]
  then have "\<bar>sort (mt_offsets m') ! (length (mt_offsets m') div 2)\<bar> < maxAllowedOffsetSecs" using assms(6,7) by linarith
  moreover have "length (mt_offsets m') mod 2 = 1" using assms(4) by presburger
  ultimately have "mt_offsetSecs m' = sort (mt_offsets m') ! (length (mt_offsets m') div 2)"
    using AddTimeSample_median [OF assms(1-3)] by simp
  with med show ?thesis by simp
qed

subsection \<open>Properties\<close>

lemma time_adjustment_bounded:
  "\<bar>AdjustedTime (add_samples samples NewMedianTime) now - now\<bar> < 70 * 60 \<and>
   length (mt_offsets (add_samples samples NewMedianTime)) \<le> 200"
  using add_samples_ok [of NewMedianTime samples]
  by (simp add: median_ok_def NewMedianTime_def AdjustedTime_def maxAllowedOffsetSecs_def maxMedianTimeEntries_def)

text \<open>
  The time rule of the blocks follows an honest majority: whatever samples came before, a sample from a new source
  that makes an odd number of at least five kept samples sets the adjustment between any two bounds that
  more than half of the kept offsets respect, and the adjustment is always less than 70 minutes.\<close>

lemma median_time_majority:
  assumes "m = add_samples samples NewMedianTime" "sourceID \<notin> mt_knownIDs m" "m' = AddTimeSample m sourceID timeVal now"
    "5 \<le> length (mt_offsets m')" "odd (length (mt_offsets m'))"
    "length (mt_offsets m') < 2 * length (filter (\<lambda>x. lo \<le> x \<and> x \<le> hi) (mt_offsets m'))" "- (70 * 60) < lo" "hi < 70 * 60"
  shows "clock + lo \<le> AdjustedTime m' clock \<and> AdjustedTime m' clock \<le> clock + hi \<and> \<bar>AdjustedTime m' clock - clock\<bar> < 70 * 60"
  using AddTimeSample_majority [OF assms(2-6)] assms(7,8) by (auto simp: AdjustedTime_def maxAllowedOffsetSecs_def)

lemma median_time_majority_example:
  "AdjustedTime (AddTimeSample (add_samples [(''a'', 13, 10), (''b'', 9999, 10), (''c'', 15, 11), (''d'', - 9999, 12)] NewMedianTime) ''e'' 14 12) 100
     \<in> {102..104}"
proof -
  let ?m = "add_samples [(''a'', 13, 10), (''b'', 9999, 10), (''c'', 15, 11), (''d'', - 9999, 12)] NewMedianTime"
  have m: "mt_knownIDs ?m = {''a'', ''b'', ''c'', ''d''}" "mt_offsets (AddTimeSample ?m ''e'' 14 12) = [3, 9989, 4, - 10011, 2]"
    by (auto simp: AddTimeSample_def NewMedianTime_def Sub_Seconds_def maxDurationSecs_def Let_def push_offset_def maxMedianTimeEntries_def)
  show ?thesis
    using median_time_majority [where m = ?m and samples = "[(''a'', 13, 10), (''b'', 9999, 10), (''c'', 15, 11), (''d'', - 9999, 12)]"
        and sourceID = "''e''" and timeVal = 14 and now = 12 and lo = 2 and hi = 4 and clock = 100, OF refl _ refl]
    unfolding m by simp
qed

end
