(* ===== verification/Block_Rules.thy ===== *)
theory Block_Rules
  imports Wire_Block Ledger
begin

text \<open>
  The rules for headers and blocks (\<^verbatim>\<open>node/blockchain/validate.go\<close>, \<^verbatim>\<open>process.go\<close>, \<^verbatim>\<open>checkpoints.go\<close>,
  \<^verbatim>\<open>node/chaincfg/params.go\<close>, \<^verbatim>\<open>node/zkpow/verify.go\<close>): certificates, proof of work, timestamps, difficulty, the
  shape of a block and its position in the chain. The proof verifier behind the foreign function
  interface is a parameter. The lemmas characterise the accepted blocks and connect them to the ledger
  and to the difficulty rule.
\<close>

subsection \<open>Network parameters\<close>

record ruleParams =
  rp_connect :: connectParams
  rp_SimNet :: bool
  rp_MaxTimeOffsetMinutes :: int
  rp_MoEForkHeight :: int
  rp_DenseOnlyForkHeight :: int
  rp_RankPenaltyForkHeight :: int
  rp_SaltedSeedForkHeight :: int

abbreviation rp_chain :: "ruleParams \<Rightarrow> chainParams" where
  "rp_chain P \<equiv> cp_chain (rp_connect P)"

definition IsMoEForkActive :: "ruleParams \<Rightarrow> int \<Rightarrow> bool" where
  "IsMoEForkActive P height \<longleftrightarrow> rp_MoEForkHeight P \<noteq> 0 \<and> height \<ge> rp_MoEForkHeight P"

definition IsDenseOnlyForkActive :: "ruleParams \<Rightarrow> int \<Rightarrow> bool" where
  "IsDenseOnlyForkActive P height \<longleftrightarrow> rp_DenseOnlyForkHeight P \<noteq> 0 \<and> height \<ge> rp_DenseOnlyForkHeight P"

definition IsRankPenaltyForkActive :: "ruleParams \<Rightarrow> int \<Rightarrow> bool" where
  "IsRankPenaltyForkActive P height \<longleftrightarrow> rp_RankPenaltyForkHeight P \<noteq> 0 \<and> height \<ge> rp_RankPenaltyForkHeight P"

definition IsSaltedSeedForkActive :: "ruleParams \<Rightarrow> int \<Rightarrow> bool" where
  "IsSaltedSeedForkActive P height \<longleftrightarrow> rp_SaltedSeedForkHeight P \<noteq> 0 \<and> height \<ge> rp_SaltedSeedForkHeight P"

definition RequiredCertVersion :: "ruleParams \<Rightarrow> int \<Rightarrow> nat" where
  "RequiredCertVersion P height =
     (if IsSaltedSeedForkActive P height then CertificateVersionV3
      else if IsMoEForkActive P height then CertificateVersionV2
      else CertificateVersionV1)"

definition BFFastAdd :: nat where "BFFastAdd = 1"
definition BFNoPoWCheck :: nat where "BFNoPoWCheck = 2"
definition BFNone :: nat where "BFNone = 0"

definition NetBehaviorFlags :: "ruleParams \<Rightarrow> nat" where
  "NetBehaviorFlags P = (if rp_SimNet P then BFNoPoWCheck else BFNone)"

definition flag_set :: "nat \<Rightarrow> nat \<Rightarrow> bool" where
  "flag_set flags f \<longleftrightarrow> flags AND f = f"

subsection \<open>Proof of work\<close>

text \<open>The header that is passed to the verifier, with its hashes in display order.\<close>

record IncompleteBlockHeader =
  ih_version :: nat
  ih_prev_block :: bytes
  ih_merkle_root :: bytes
  ih_timestamp :: nat
  ih_nbits :: nat

definition blockHeaderToC :: "BlockHeader \<Rightarrow> IncompleteBlockHeader" where
  "blockHeaderToC header =
     \<lparr>ih_version = nat (uint32_of (bh_Version header)), ih_prev_block = rev (bh_PrevBlock header),
      ih_merkle_root = rev (bh_MerkleRoot header), ih_timestamp = nat (uint32_of (bh_Timestamp header)),
      ih_nbits = bh_Bits header\<rparr>"

text \<open>The functions of the foreign interface: header, public data and proof give a result code.\<close>

record zkFFI =
  verify_zk_proof_v1 :: "IncompleteBlockHeader \<Rightarrow> bytes \<Rightarrow> bytes \<Rightarrow> int"
  verify_zk_proof_v2 :: "IncompleteBlockHeader \<Rightarrow> bytes \<Rightarrow> bytes \<Rightarrow> int"
  verify_zk_proof_v3 :: "IncompleteBlockHeader \<Rightarrow> bytes \<Rightarrow> bytes \<Rightarrow> int"
  verify_zk_proof_v2_with_nbits :: "IncompleteBlockHeader \<Rightarrow> bytes \<Rightarrow> bytes \<Rightarrow> nat \<Rightarrow> int"
  verify_zk_proof_v3_with_nbits :: "IncompleteBlockHeader \<Rightarrow> bytes \<Rightarrow> bytes \<Rightarrow> nat \<Rightarrow> int"
  check_rank_penalty :: "nat \<Rightarrow> bytes \<Rightarrow> int"

datatype zk_error = hashMismatch | commitmentMismatch | emptyPublicData | emptyProofData | proofRejected | systemError
  | unknownResult | unsupportedVersion | zkPanic

definition zk_result :: "int \<Rightarrow> zk_error + unit" where
  "zk_result result =
     (if result = 0 then Inr () else if result = 1 then Inl proofRejected
      else if result = 2 then Inl systemError else Inl unknownResult)"

definition verifyCertificateV1 :: "zkFFI \<Rightarrow> (bytes \<Rightarrow> hash) \<Rightarrow> BlockHeader \<Rightarrow> CertificateV1 \<Rightarrow> zk_error + unit" where
  "verifyCertificateV1 Z dh header c =
     (if c1_Hash c \<noteq> BlockHash dh header then Inl hashMismatch
      else if bh_ProofCommitment header \<noteq> ProofCommitmentV1 dh c then Inl commitmentMismatch
      else if length (c1_ProofData c) = 0 then Inl emptyProofData
      else zk_result (verify_zk_proof_v1 Z (blockHeaderToC header) (c1_PublicData c) (c1_ProofData c)))"

definition VerifyZKProofFFI ::
  "zkFFI \<Rightarrow> (bytes \<Rightarrow> hash) \<Rightarrow> BlockHeader \<Rightarrow> BlockCertificate \<Rightarrow> nat option \<Rightarrow> zk_error + unit" where
  "VerifyZKProofFFI Z dh header cert nbitsOverride =
     (if cert_BlockHash cert \<noteq> BlockHash dh header then Inl hashMismatch
      else
        (case ProofCommitment dh cert of
           Inl _ \<Rightarrow> Inl zkPanic
         | Inr commitment \<Rightarrow>
             if bh_ProofCommitment header \<noteq> commitment then Inl commitmentMismatch
             else
               (case PublicDataBytes cert of
                  Inl _ \<Rightarrow> Inl zkPanic
                | Inr publicData \<Rightarrow>
                    let proofData = ProofBytes cert; h = blockHeaderToC header
                    in if length publicData = 0 then Inl emptyPublicData
                       else if length proofData = 0 then Inl emptyProofData
                       else if cert_Version cert = CertificateVersionV2 then
                         zk_result (case nbitsOverride of
                             Some nbits \<Rightarrow> verify_zk_proof_v2_with_nbits Z h publicData proofData nbits
                           | None \<Rightarrow> verify_zk_proof_v2 Z h publicData proofData)
                       else if cert_Version cert = CertificateVersionV3 then
                         zk_result (case nbitsOverride of
                             Some nbits \<Rightarrow> verify_zk_proof_v3_with_nbits Z h publicData proofData nbits
                           | None \<Rightarrow> verify_zk_proof_v3 Z h publicData proofData)
                       else Inl unsupportedVersion)))"

fun VerifyCertificate :: "zkFFI \<Rightarrow> (bytes \<Rightarrow> hash) \<Rightarrow> BlockHeader \<Rightarrow> BlockCertificate \<Rightarrow> zk_error + unit" where
  "VerifyCertificate Z dh header (CertV3 c) = VerifyZKProofFFI Z dh header (CertV3 c) None"
| "VerifyCertificate Z dh header (CertV2 c) = VerifyZKProofFFI Z dh header (CertV2 c) None"
| "VerifyCertificate Z dh header (CertV1 c) = verifyCertificateV1 Z dh header c"

definition CheckRankPenalty :: "zkFFI \<Rightarrow> nat \<Rightarrow> bytes \<Rightarrow> zk_error + unit" where
  "CheckRankPenalty Z bits publicData =
     (if length publicData = 0 then Inl emptyPublicData else zk_result (check_rank_penalty Z bits publicData))"

definition checkProofOfWork ::
  "zkFFI \<Rightarrow> (bytes \<Rightarrow> hash) \<Rightarrow> BlockHeader \<Rightarrow> BlockCertificate option \<Rightarrow> int \<Rightarrow> nat \<Rightarrow> rule_error + unit" where
  "checkProofOfWork Z dh header cert powLimit flags =
     (let target = CompactToBig (of_nat (bh_Bits header))
      in if target \<le> 0 then Inl (ruleError ErrUnexpectedDifficulty)
         else if target > powLimit then Inl (ruleError ErrUnexpectedDifficulty)
         else
           (case cert of
              None \<Rightarrow> Inl (ruleError ErrCertificateMissing)
            | Some cert \<Rightarrow>
                if \<not> flag_set flags BFNoPoWCheck then
                  (case VerifyCertificate Z dh header cert of
                     Inl zkPanic \<Rightarrow> Inl rulePanic
                   | Inl _ \<Rightarrow> Inl (ruleError ErrHighHash)
                   | Inr _ \<Rightarrow> Inr ())
                else Inr ()))"

definition CheckProofOfWork ::
  "zkFFI \<Rightarrow> (bytes \<Rightarrow> hash) \<Rightarrow> MsgBlock \<Rightarrow> int \<Rightarrow> rule_error + unit" where
  "CheckProofOfWork Z dh msgBlock powLimit =
     checkProofOfWork Z dh (mh_BlockHeader (mb_MsgHeader msgBlock)) (mh_MsgCertificate (mb_MsgHeader msgBlock)) powLimit BFNone"

subsection \<open>Headers\<close>

text \<open>Besides the header, whose time is in seconds, the fraction of a second of its \<open>time.Time\<close>, in
  nanoseconds; the wire format has no such fraction.\<close>

definition CheckBlockHeaderSanity ::
  "zkFFI \<Rightarrow> (bytes \<Rightarrow> hash) \<Rightarrow> BlockHeader \<Rightarrow> int \<Rightarrow> BlockCertificate option \<Rightarrow> int \<Rightarrow> int \<Rightarrow> int \<Rightarrow> nat \<Rightarrow> rule_error + unit" where
  "CheckBlockHeaderSanity Z dh header nanos cert powLimit adjustedTime maxTimeOffsetMinutes flags =
     (case cert of
        None \<Rightarrow> Inl (ruleError ErrCertificateMissing)
      | Some c \<Rightarrow>
          let certSize = 4 + SerializedSize c
          in if certSize > CertificateMaxSize then Inl (ruleError ErrCertificateTooLarge)
             else if \<not> IsCertVersionAllowed (cert_Version c) then Inl (ruleError ErrDisallowedCertVersion)
             else if nanos \<noteq> 0 then Inl (ruleError ErrInvalidTime)
             else
               let maxTimestamp = adjustedTime * 10 ^ 9 + int64_of (60 * 10 ^ 9 * maxTimeOffsetMinutes)
               in if bh_Timestamp header * 10 ^ 9 + nanos > maxTimestamp then Inl (ruleError ErrTimeTooNew)
                  else checkProofOfWork Z dh header cert powLimit flags)"

definition CheckHeaderSanity ::
  "zkFFI \<Rightarrow> (bytes \<Rightarrow> hash) \<Rightarrow> BlockHeader \<Rightarrow> int \<Rightarrow> BlockCertificate option \<Rightarrow> ruleParams \<Rightarrow> int \<Rightarrow> rule_error + unit" where
  "CheckHeaderSanity Z dh header nanos cert P adjustedTime =
     CheckBlockHeaderSanity Z dh header nanos cert (p_PowLimit (rp_chain P)) adjustedTime (rp_MaxTimeOffsetMinutes P) (NetBehaviorFlags P)"

definition CheckCertificateRules ::
  "zkFFI \<Rightarrow> BlockHeader \<Rightarrow> BlockCertificate option \<Rightarrow> int \<Rightarrow> ruleParams \<Rightarrow> nat \<Rightarrow> rule_error + unit" where
  "CheckCertificateRules Z header cert height P flags =
     (case cert of
        None \<Rightarrow> Inl (ruleError ErrCertificateMissing)
      | Some c \<Rightarrow>
          if cert_Version c \<noteq> RequiredCertVersion P height then Inl (ruleError ErrDisallowedCertVersion)
          else if IsMoE c \<and> IsDenseOnlyForkActive P height then Inl (ruleError ErrDisallowedCertVersion)
          else if IsRankPenaltyForkActive P height \<and> \<not> flag_set flags BFNoPoWCheck then
            (case PublicDataBytes c of
               Inl _ \<Rightarrow> Inl rulePanic
             | Inr publicData \<Rightarrow>
                 (case CheckRankPenalty Z (bh_Bits header) publicData of
                    Inl _ \<Rightarrow> Inl (ruleError ErrRankPenalty)
                  | Inr _ \<Rightarrow> Inr ()))
          else Inr ())"

text \<open>A node as the header context of the difficulty rule.\<close>

primrec header_ctx :: "blockNode \<Rightarrow> HeaderCtx" where
  "header_ctx (BlockNode parent ancestor h workSum height version bits timestamp mroot commitment vsize status) =
     HeaderCtx height bits timestamp (map_option header_ctx parent)"

text \<open>The chain that a header extends: its checkpoints and the search for the last one that is known.\<close>

record 'c ChainCtx =
  cx_VerifyCheckpoint :: "int \<Rightarrow> hash \<Rightarrow> bool"
  cx_FindPreviousCheckpoint :: "'c \<Rightarrow> (rule_error + blockNode option) \<times> 'c"

definition MinTimestampDeltaSeconds :: int where "MinTimestampDeltaSeconds = 1"

definition check_difficulty :: "BlockHeader \<Rightarrow> int \<Rightarrow> blockNode \<Rightarrow> chainParams \<Rightarrow> rule_error + unit" where
  "check_difficulty header nanos prevNode P =
     sbind (panicking (calcNextRequiredDifficulty (Some (header_ctx prevNode)) (bh_Timestamp header) P)) (\<lambda>expectedDifficulty.
       if of_nat (bh_Bits header) \<noteq> expectedDifficulty then Inl (ruleError ErrUnexpectedDifficulty)
       else if bh_Timestamp header * 10 ^ 9 + nanos < bn_timestamp prevNode * 10 ^ 9 + MinTimestampDeltaSeconds * 10 ^ 9
       then Inl (ruleError ErrTimeTooOld)
       else Inr ())"

definition CheckBlockHeaderContext ::
  "(bytes \<Rightarrow> hash) \<Rightarrow> BlockHeader \<Rightarrow> int \<Rightarrow> blockNode \<Rightarrow> nat \<Rightarrow> chainParams \<Rightarrow> 'c ChainCtx \<Rightarrow> bool \<Rightarrow> 'c \<Rightarrow> (rule_error + unit) \<times> 'c" where
  "CheckBlockHeaderContext dh header nanos prevNode flags P cx skipCheckpoint st =
     (let blockHeight = int32_of (bn_height prevNode + 1);
          fastAdd = flag_set flags BFFastAdd
      in case (if \<not> fastAdd then check_difficulty header nanos prevNode P else Inr ()) of
           Inl e \<Rightarrow> (Inl e, st)
         | Inr _ \<Rightarrow>
             if skipCheckpoint then (Inr (), st)
             else if \<not> cx_VerifyCheckpoint cx blockHeight (BlockHash dh header) then (Inl (ruleError ErrBadCheckpoint), st)
             else
               (case cx_FindPreviousCheckpoint cx st of
                  (Inl e, st) \<Rightarrow> (Inl e, st)
                | (Inr checkpointNode, st) \<Rightarrow>
                    (case checkpointNode of
                       Some node \<Rightarrow>
                         if blockHeight < bn_height node then (Inl (ruleError ErrForkTooOld), st) else (Inr (), st)
                     | None \<Rightarrow> (Inr (), st))))"

subsection \<open>Checkpoints\<close>

text \<open>The last checkpoint that was found and the next one to come, which the chain remembers between calls.\<close>

record checkpointState =
  ch_checkpointNode :: "blockNode option"
  ch_nextCheckpoint :: "Checkpoint option"

fun checkpointsByHeight :: "Checkpoint list \<Rightarrow> int \<Rightarrow> Checkpoint option" where
  "checkpointsByHeight [] = (\<lambda>_. None)"
| "checkpointsByHeight (c # cs) = (\<lambda>h. case checkpointsByHeight cs h of None \<Rightarrow> if h = ck_Height c then Some c else None | Some d \<Rightarrow> Some d)"

text \<open>The checkpoints are sorted by height, as the constructor of the chain demands.\<close>

fun checkpoints_sorted :: "Checkpoint list \<Rightarrow> int \<Rightarrow> bool" where
  "checkpoints_sorted [] prevCheckpointHeight \<longleftrightarrow> True"
| "checkpoints_sorted (checkpoint # cs) prevCheckpointHeight \<longleftrightarrow>
     \<not> ck_Height checkpoint \<le> prevCheckpointHeight \<and> checkpoints_sorted cs (ck_Height checkpoint)"

definition verifyCheckpoint :: "Checkpoint list \<Rightarrow> int \<Rightarrow> hash \<Rightarrow> bool" where
  "verifyCheckpoint checkpoints height h =
     (if \<not> HasCheckpoints checkpoints then True
      else
        (case checkpointsByHeight checkpoints height of
           None \<Rightarrow> True
         | Some checkpoint \<Rightarrow> if ck_Hash checkpoint \<noteq> h then False else True))"

text \<open>The search from the last checkpoint backwards; the first \<open>i\<close> checkpoints are left.\<close>

fun latest_known :: "blockIndex \<Rightarrow> chainView \<Rightarrow> Checkpoint list \<Rightarrow> nat \<Rightarrow> (nat \<times> blockNode) option" where
  "latest_known bi bestChain checkpoints 0 = None"
| "latest_known bi bestChain checkpoints (Suc i) =
     (case LookupNode bi (ck_Hash (checkpoints ! i)) of
        None \<Rightarrow> latest_known bi bestChain checkpoints i
      | Some node \<Rightarrow> if \<not> view_contains bestChain node then latest_known bi bestChain checkpoints i else Some (i, node))"

fun checkpoint_index :: "Checkpoint list \<Rightarrow> hash \<Rightarrow> nat \<Rightarrow> nat option" where
  "checkpoint_index checkpoints h 0 = None"
| "checkpoint_index checkpoints h (Suc i) =
     (if ck_Hash (checkpoints ! i) = h then Some i else checkpoint_index checkpoints h i)"

definition checkpoint_after :: "Checkpoint list \<Rightarrow> nat \<Rightarrow> Checkpoint option" where
  "checkpoint_after checkpoints i = (if i + 1 < length checkpoints then Some (checkpoints ! (i + 1)) else None)"

definition findPreviousCheckpoint ::
  "Checkpoint list \<Rightarrow> blockIndex \<Rightarrow> chainView \<Rightarrow> checkpointState \<Rightarrow> (rule_error + blockNode option) \<times> checkpointState" where
  "findPreviousCheckpoint checkpoints bi bestChain st =
     (if \<not> HasCheckpoints checkpoints then (Inr None, st)
      else if ch_checkpointNode st = None \<and> ch_nextCheckpoint st = None then
        (case latest_known bi bestChain checkpoints (length checkpoints) of
           Some (i, node) \<Rightarrow>
             (Inr (Some node), \<lparr>ch_checkpointNode = Some node, ch_nextCheckpoint = checkpoint_after checkpoints i\<rparr>)
         | None \<Rightarrow> (Inr None, st\<lparr>ch_nextCheckpoint := Some (checkpoints ! 0)\<rparr>))
      else
        (case ch_nextCheckpoint st of
           None \<Rightarrow> (Inr (ch_checkpointNode st), st)
         | Some next \<Rightarrow>
             (case view_tip bestChain of
                None \<Rightarrow> (Inl rulePanic, st)
              | Some tip \<Rightarrow>
                  if bn_height tip < ck_Height next then (Inr (ch_checkpointNode st), st)
                  else
                    (case LookupNode bi (ck_Hash next) of
                       None \<Rightarrow> (Inl assertError, st)
                     | Some node \<Rightarrow>
                         (Inr (Some node),
                          \<lparr>ch_checkpointNode = Some node,
                           ch_nextCheckpoint =
                             (case checkpoint_index checkpoints (ck_Hash next) (length checkpoints) of
                                None \<Rightarrow> None
                              | Some i \<Rightarrow> checkpoint_after checkpoints i)\<rparr>)))))"

definition chain_ctx :: "Checkpoint list \<Rightarrow> blockIndex \<Rightarrow> chainView \<Rightarrow> checkpointState ChainCtx" where
  "chain_ctx checkpoints bi bestChain =
     \<lparr>cx_VerifyCheckpoint = verifyCheckpoint checkpoints,
      cx_FindPreviousCheckpoint = findPreviousCheckpoint checkpoints bi bestChain\<rparr>"

text \<open>The search finds the last checkpoint whose node is in the best chain.\<close>

lemma latest_known_spec:
  "latest_known bi bestChain cps k = Some (i, node) \<Longrightarrow>
     i < k \<and> LookupNode bi (ck_Hash (cps ! i)) = Some node \<and> view_contains bestChain node \<and>
     (\<forall>j n. i < j \<and> j < k \<and> LookupNode bi (ck_Hash (cps ! j)) = Some n \<longrightarrow> \<not> view_contains bestChain n)"
proof (induction k)
  case (Suc k)
  show ?case
  proof (cases "latest_known bi bestChain cps k = Some (i, node) \<and> i < k")
    case True
    with Suc show ?thesis by (auto simp: less_Suc_eq split: option.splits if_splits)
  next
    case False
    with Suc have "i = k" "LookupNode bi (ck_Hash (cps ! k)) = Some node" "view_contains bestChain node"
      by (auto split: option.splits if_splits)
    then show ?thesis by auto
  qed
qed simp

lemma latest_known_none:
  "latest_known bi bestChain cps k = None \<Longrightarrow> j < k \<Longrightarrow> LookupNode bi (ck_Hash (cps ! j)) = Some n \<Longrightarrow> \<not> view_contains bestChain n"
  by (induction k) (auto simp: less_Suc_eq split: option.splits if_splits)

definition isNonstandardTransaction :: "MsgTx \<Rightarrow> bool" where
  "isNonstandardTransaction tx \<longleftrightarrow> list_ex (\<lambda>txOut. GetScriptClass (to_PkScript txOut) = NonStandardTy) (tx_TxOut tx)"

definition CheckpointConfirmations :: int where "CheckpointConfirmations = 2016"

text \<open>The block is given with the height it claims.\<close>

definition IsCheckpointCandidate ::
  "(bytes \<Rightarrow> hash) \<Rightarrow> blockIndex \<Rightarrow> chainView \<Rightarrow> MsgBlock \<Rightarrow> int \<Rightarrow> int \<Rightarrow> rule_error + bool" where
  "IsCheckpointCandidate dh bi bestChain msgBlock nanos height =
     (let header = mh_BlockHeader (mb_MsgHeader msgBlock)
      in case LookupNode bi (BlockHash dh header) of
           None \<Rightarrow> Inr False
         | Some node \<Rightarrow>
             if \<not> view_contains bestChain node then Inr False
             else if bn_height node \<noteq> height then Inl otherRuleError
             else
               (case view_tip bestChain of
                  None \<Rightarrow> Inl rulePanic
                | Some tip \<Rightarrow>
                    if bn_height node > int32_of (bn_height tip - CheckpointConfirmations) then Inr False
                    else
                      (case (view_next bestChain (Some node), bn_parent node) of
                         (None, _) \<Rightarrow> Inr False
                       | (Some nextNode, None) \<Rightarrow> Inr False
                       | (Some nextNode, Some parent) \<Rightarrow>
                           let curTime = bh_Timestamp header * 10 ^ 9 + nanos
                           in if bn_timestamp parent * 10 ^ 9 > curTime \<or> bn_timestamp nextNode * 10 ^ 9 < curTime then Inr False
                              else if list_ex isNonstandardTransaction (mb_Transactions msgBlock) then Inr False
                              else Inr True)))"

lemma checkpoint_candidate_spec:
  "IsCheckpointCandidate dh bi bestChain b nanos height = Inr True \<Longrightarrow>
     \<exists>node tip nextNode parent. LookupNode bi (BlockHash dh (mh_BlockHeader (mb_MsgHeader b))) = Some node \<and>
       view_contains bestChain node \<and> bn_height node = height \<and> view_tip bestChain = Some tip \<and>
       height \<le> int32_of (bn_height tip - 2016) \<and> view_next bestChain (Some node) = Some nextNode \<and> bn_parent node = Some parent \<and>
       (nanos = 0 \<longrightarrow> bn_timestamp parent \<le> bh_Timestamp (mh_BlockHeader (mb_MsgHeader b)) \<and>
          bh_Timestamp (mh_BlockHeader (mb_MsgHeader b)) \<le> bn_timestamp nextNode)"
  by (auto simp: IsCheckpointCandidate_def Let_def CheckpointConfirmations_def split: option.splits if_splits)

text \<open>For sorted checkpoints the map by height decides whether every checkpoint of this height has the given hash.\<close>

lemma checkpoints_sorted_higher: "checkpoints_sorted cps h \<Longrightarrow> c \<in> set cps \<Longrightarrow> h < ck_Height c"
  by (induction cps h rule: checkpoints_sorted.induct) fastforce+

lemma checkpointsByHeight_sorted:
  "checkpoints_sorted cps h0 \<Longrightarrow> checkpointsByHeight cps h = Some c \<longleftrightarrow> c \<in> set cps \<and> ck_Height c = h"
proof (induction cps arbitrary: h0 c)
  case (Cons d cps)
  then have sorted: "checkpoints_sorted cps (ck_Height d)" by simp
  have ih: "checkpointsByHeight cps h = Some e \<longleftrightarrow> e \<in> set cps \<and> ck_Height e = h" for e by (rule Cons.IH [OF sorted])
  have above: "ck_Height d < ck_Height e" if "e \<in> set cps" for e using checkpoints_sorted_higher [OF sorted that] .
  show ?case
  proof (cases "checkpointsByHeight cps h")
    case None
    with ih have "e \<notin> set cps \<or> ck_Height e \<noteq> h" for e by (metis option.distinct(1))
    with None show ?thesis by auto
  next
    case (Some e)
    with ih [of e] above [of e] have "e \<in> set cps" "ck_Height e = h" "ck_Height d \<noteq> h" by auto
    with Some ih [of c] show ?thesis by auto
  qed
qed simp

lemma verifyCheckpoint_iff:
  "checkpoints_sorted cps 0 \<Longrightarrow> verifyCheckpoint cps h x \<longleftrightarrow> list_all (\<lambda>c. ck_Height c = h \<longrightarrow> ck_Hash c = x) cps"
proof (cases "checkpointsByHeight cps h")
  case None
  assume "checkpoints_sorted cps 0"
  with None checkpointsByHeight_sorted have "\<forall>c \<in> set cps. ck_Height c \<noteq> h" by (metis option.distinct(1))
  with None show ?thesis by (auto simp: verifyCheckpoint_def list_all_iff)
next
  case (Some d)
  assume "checkpoints_sorted cps 0"
  with Some checkpointsByHeight_sorted have "\<forall>c. c \<in> set cps \<and> ck_Height c = h \<longleftrightarrow> c = d" by (metis option.inject)
  with Some show ?thesis by (auto simp: verifyCheckpoint_def HasCheckpoints_def list_all_iff)
qed

subsection \<open>Blocks\<close>

definition GetBlockVsize :: "MsgBlock \<Rightarrow> int" where
  "GetBlockVsize msgBlock = CalcVsize (int (block_SerializeSizeStripped msgBlock)) (SerializeWitnessSize msgBlock)"

fun check_each :: "('a \<Rightarrow> rule_error + unit) \<Rightarrow> 'a list \<Rightarrow> rule_error + unit" where
  "check_each chk [] = Inr ()"
| "check_each chk (x # xs) = sbind (chk x) (\<lambda>_. check_each chk xs)"

fun check_duplicate_txs :: "(bytes \<Rightarrow> hash) \<Rightarrow> MsgTx list \<Rightarrow> hash set \<Rightarrow> rule_error + unit" where
  "check_duplicate_txs dh [] existingTxHashes = Inr ()"
| "check_duplicate_txs dh (tx # txs) existingTxHashes =
     (if TxHash dh tx \<in> existingTxHashes then Inl (ruleError ErrDuplicateTx)
      else check_duplicate_txs dh txs (insert (TxHash dh tx) existingTxHashes))"

definition block_shape :: "MsgBlock \<Rightarrow> rule_error + unit" where
  "block_shape msgBlock =
     (let transactions = mb_Transactions msgBlock; numTx = length transactions
      in if numTx = 0 then Inl (ruleError ErrNoTransactions)
         else if int numTx > MaxBlockVsize then Inl (ruleError ErrBlockTooBig)
         else if GetBlockVsize msgBlock > MaxBlockVsize then Inl (ruleError ErrBlockTooBig)
         else if \<not> IsCoinBaseTx (transactions ! 0) then Inl (ruleError ErrFirstTxNotCoinbase)
         else if list_ex IsCoinBaseTx (tl transactions) then Inl (ruleError ErrMultipleCoinbases)
         else check_each CheckTransactionSanity transactions)"

definition checkBlockSanity ::
  "zkFFI \<Rightarrow> (bytes \<Rightarrow> hash) \<Rightarrow> MsgBlock \<Rightarrow> int \<Rightarrow> ruleParams \<Rightarrow> int \<Rightarrow> nat \<Rightarrow> (rule_error + unit) option" where
  "checkBlockSanity Z dh msgBlock nanos P adjustedTime flags =
     (let header = mh_BlockHeader (mb_MsgHeader msgBlock);
          cert = mh_MsgCertificate (mb_MsgHeader msgBlock);
          flags = flags OR NetBehaviorFlags P;
          transactions = mb_Transactions msgBlock
      in case block_shape msgBlock of
           Inl e \<Rightarrow> Some (Inl e)
         | Inr _ \<Rightarrow>
             Option.bind (CalcMerkleRoot dh transactions False) (\<lambda>r.
               case r of
                 Inl _ \<Rightarrow> Some (Inl rulePanic)
               | Inr calcRoot \<Rightarrow>
                   if bh_MerkleRoot header \<noteq> calcRoot then Some (Inl (ruleError ErrBadMerkleRoot))
                   else
                     Some (sbind (check_duplicate_txs dh transactions {}) (\<lambda>_.
                       CheckBlockHeaderSanity Z dh header nanos cert (p_PowLimit (rp_chain P)) adjustedTime
                         (rp_MaxTimeOffsetMinutes P) flags))))"

definition CheckBlockSanity ::
  "zkFFI \<Rightarrow> (bytes \<Rightarrow> hash) \<Rightarrow> MsgBlock \<Rightarrow> int \<Rightarrow> ruleParams \<Rightarrow> int \<Rightarrow> (rule_error + unit) option" where
  "CheckBlockSanity Z dh msgBlock nanos P adjustedTime = checkBlockSanity Z dh msgBlock nanos P adjustedTime BFNone"

text \<open>The part of the context check that looks at the transactions.\<close>

definition check_final :: "MsgBlock \<Rightarrow> blockNode \<Rightarrow> int \<Rightarrow> rule_error + unit" where
  "check_final msgBlock prevNode blockHeight =
     (let transactions = mb_Transactions msgBlock; blockTime = CalcPastMedianTime prevNode
      in if list_ex (\<lambda>tx. \<not> IsFinalizedTransaction tx blockHeight blockTime) transactions then Inl (ruleError ErrUnfinalizedTx)
         else
           (case transactions of
              [] \<Rightarrow> Inl rulePanic
            | coinbaseTx # _ \<Rightarrow>
                sbind (CheckSerializedHeight coinbaseTx blockHeight) (\<lambda>_.
                  if GetBlockVsize msgBlock > MaxBlockVsize then Inl (ruleError ErrBlockTooBig) else Inr ())))"

definition checkBlockContext ::
  "zkFFI \<Rightarrow> (bytes \<Rightarrow> hash) \<Rightarrow> MsgBlock \<Rightarrow> int \<Rightarrow> blockNode \<Rightarrow> nat \<Rightarrow> ruleParams \<Rightarrow> 'c ChainCtx \<Rightarrow> 'c \<Rightarrow>
     ((rule_error + unit) \<times> 'c) option" where
  "checkBlockContext Z dh msgBlock nanos prevNode flags P cx st =
     (let flags = flags OR NetBehaviorFlags P;
          header = mh_BlockHeader (mb_MsgHeader msgBlock)
      in case CheckBlockHeaderContext dh header nanos prevNode flags (rp_chain P) cx False st of
           (Inl e, st) \<Rightarrow> Some (Inl e, st)
         | (Inr _, st) \<Rightarrow>
             let blockHeight = int32_of (bn_height prevNode + 1)
             in (case CheckCertificateRules Z header (mh_MsgCertificate (mb_MsgHeader msgBlock)) blockHeight P flags of
                   Inl e \<Rightarrow> Some (Inl e, st)
                 | Inr _ \<Rightarrow>
                     Option.bind (ValidateWitnessCommitment dh (mb_Transactions msgBlock)) (\<lambda>r.
                       case r of
                         Inl e \<Rightarrow> Some (Inl e, st)
                       | Inr _ \<Rightarrow>
                           Some (if \<not> flag_set flags BFFastAdd then check_final msgBlock prevNode blockHeight else Inr (), st))))"

subsection \<open>Accepted blocks are sane\<close>

lemma check_each_iff: "check_each chk xs = Inr () \<longleftrightarrow> list_all (\<lambda>x. chk x = Inr ()) xs"
  by (induction xs) (auto simp: sbind_eq_Inr)

lemma check_duplicate_txs_iff:
  "check_duplicate_txs dh txs seen = Inr () \<longleftrightarrow> distinct (map (TxHash dh) txs) \<and> TxHash dh ` set txs \<inter> seen = {}"
  by (induction txs arbitrary: seen) auto

definition shape_ok :: "MsgBlock \<Rightarrow> bool" where
  "shape_ok msgBlock \<longleftrightarrow>
     (let txs = mb_Transactions msgBlock
      in txs \<noteq> [] \<and> int (length txs) \<le> MaxBlockVsize \<and> GetBlockVsize msgBlock \<le> MaxBlockVsize \<and>
         IsCoinBaseTx (hd txs) \<and> list_all (\<lambda>tx. \<not> IsCoinBaseTx tx) (tl txs) \<and> list_all sane_tx txs)"

lemma block_shape_iff: "block_shape msgBlock = Inr () \<longleftrightarrow> shape_ok msgBlock"
  by (auto simp: block_shape_def shape_ok_def Let_def check_each_iff CheckTransactionSanity_iff hd_conv_nth list_ex_iff list_all_iff)

lemma sane_tx_outputs: "sane_tx tx \<Longrightarrow> sane_outputs tx \<and> distinct (prevouts tx)"
  by (simp add: sane_tx_def sane_outputs_def prevouts_def list_all_iff output_allowed_def)

lemma checkBlockSanity_value:
  "checkBlockSanity Z dh msgBlock nanos P adjustedTime flags =
     Some (sbind (block_shape msgBlock) (\<lambda>_.
       if bh_MerkleRoot (mh_BlockHeader (mb_MsgHeader msgBlock)) \<noteq>
            merkle_root (HashMerkleBranches dh) (leaf_hashes dh False (mb_Transactions msgBlock))
       then Inl (ruleError ErrBadMerkleRoot)
       else sbind (check_duplicate_txs dh (mb_Transactions msgBlock) {}) (\<lambda>_.
         CheckBlockHeaderSanity Z dh (mh_BlockHeader (mb_MsgHeader msgBlock)) nanos (mh_MsgCertificate (mb_MsgHeader msgBlock))
           (p_PowLimit (rp_chain P)) adjustedTime (rp_MaxTimeOffsetMinutes P) (flags OR NetBehaviorFlags P))))"
proof (cases "block_shape msgBlock")
  case (Inr u)
  then have "shape_ok msgBlock" using block_shape_iff by simp
  then have "mb_Transactions msgBlock \<noteq> []" "length (mb_Transactions msgBlock) < 2 ^ 62"
    by (auto simp: shape_ok_def Let_def MaxBlockVsize_def)
  then show ?thesis using CalcMerkleRoot_value [of "mb_Transactions msgBlock" dh False] Inr
    by (simp add: checkBlockSanity_def Let_def)
qed (simp add: checkBlockSanity_def Let_def)

lemma checked_block_sane:
  assumes "checkBlockSanity Z dh msgBlock nanos P adjustedTime flags = Some (Inr ())"
  shows "sane_block dh (mb_Transactions msgBlock)"
proof -
  have "shape_ok msgBlock" "check_duplicate_txs dh (mb_Transactions msgBlock) {} = Inr ()"
    using assms by (auto simp: checkBlockSanity_value sbind_eq_Inr block_shape_iff split: if_splits)
  then show ?thesis using sane_tx_outputs
    by (auto simp: shape_ok_def Let_def sane_block_def check_duplicate_txs_iff list_all_iff)
qed

subsection \<open>Certified headers\<close>

lemma zk_result_iff: "zk_result r = Inr () \<longleftrightarrow> r = 0"
  by (simp add: zk_result_def)

text \<open>The verifier of a certificate's version accepts the header with the public data and the proof of the certificate.\<close>

fun proof_accepted :: "zkFFI \<Rightarrow> BlockHeader \<Rightarrow> BlockCertificate \<Rightarrow> bytes \<Rightarrow> bool" where
  "proof_accepted Z header (CertV1 c) publicData \<longleftrightarrow> verify_zk_proof_v1 Z (blockHeaderToC header) publicData (c1_ProofData c) = 0"
| "proof_accepted Z header (CertV2 c) publicData \<longleftrightarrow> verify_zk_proof_v2 Z (blockHeaderToC header) publicData (c2_ProofData c) = 0"
| "proof_accepted Z header (CertV3 c) publicData \<longleftrightarrow> verify_zk_proof_v3 Z (blockHeaderToC header) publicData (c2_ProofData c) = 0"

definition certified :: "zkFFI \<Rightarrow> (bytes \<Rightarrow> hash) \<Rightarrow> BlockHeader \<Rightarrow> BlockCertificate \<Rightarrow> bool" where
  "certified Z dh header cert \<longleftrightarrow> cert_BlockHash cert = BlockHash dh header \<and> ProofBytes cert \<noteq> [] \<and>
     (\<exists>publicData. PublicDataBytes cert = Inr publicData \<and>
        bh_ProofCommitment header = dh (le_bytes 4 (int (cert_Version cert)) @ publicData) \<and>
        (cert_Version cert = CertificateVersionV1 \<or> publicData \<noteq> []) \<and> proof_accepted Z header cert publicData)"

lemma VerifyCertificate_iff: "VerifyCertificate Z dh header cert = Inr () \<longleftrightarrow> certified Z dh header cert"
proof (cases cert)
  case (CertV1 c)
  then show ?thesis
    by (auto simp: verifyCertificateV1_def certified_def zk_result_iff ProofCommitmentV1_def CertificateVersionV1_def)
next
  case (CertV2 c)
  then show ?thesis
    by (auto simp: VerifyZKProofFFI_def certified_def zk_result_iff proofCommitment_def CertificateVersionV1_def CertificateVersionV2_def
        Let_def sbind_eq_Inr split: sum.splits if_splits)
next
  case (CertV3 c)
  then show ?thesis
    by (auto simp: VerifyZKProofFFI_def certified_def zk_result_iff proofCommitment_def CertificateVersionV1_def CertificateVersionV2_def
        CertificateVersionV3_def Let_def sbind_eq_Inr split: sum.splits if_splits)
qed

lemma checkProofOfWork_iff:
  "checkProofOfWork Z dh header cert powLimit flags = Inr () \<longleftrightarrow>
     0 < CompactToBig (of_nat (bh_Bits header)) \<and> CompactToBig (of_nat (bh_Bits header)) \<le> powLimit \<and>
     (\<exists>c. cert = Some c \<and> (flag_set flags BFNoPoWCheck \<or> certified Z dh header c))"
  by (auto simp: checkProofOfWork_def Let_def VerifyCertificate_iff [symmetric] split: option.splits sum.splits zk_error.splits)

lemma CheckBlockHeaderSanity_iff:
  "CheckBlockHeaderSanity Z dh header nanos cert powLimit adjustedTime minutes flags = Inr () \<longleftrightarrow>
     (\<exists>c. cert = Some c \<and> 4 + SerializedSize c \<le> CertificateMaxSize \<and> nanos = 0 \<and>
        bh_Timestamp header * 10 ^ 9 \<le> adjustedTime * 10 ^ 9 + int64_of (60 * 10 ^ 9 * minutes) \<and>
        0 < CompactToBig (of_nat (bh_Bits header)) \<and> CompactToBig (of_nat (bh_Bits header)) \<le> powLimit \<and>
        (flag_set flags BFNoPoWCheck \<or> certified Z dh header c))"
proof -
  have "IsCertVersionAllowed (cert_Version c)" for c by (cases c) (simp_all add: IsCertVersionAllowed_def)
  then show ?thesis
    by (auto simp: CheckBlockHeaderSanity_def Let_def checkProofOfWork_iff split: option.splits if_splits)
qed

subsection \<open>Headers in their context\<close>

lemma header_ctx_sel [simp]:
  "h_Height (header_ctx n) = bn_height n" "h_Bits (header_ctx n) = bn_bits n" "h_Timestamp (header_ctx n) = bn_timestamp n"
  "h_Parent (header_ctx n) = map_option header_ctx (bn_parent n)"
  by (cases n; simp)+

lemma header_ctx_child:
  "header_ctx (newBlockNode dh header (Some p) status vsize) =
     HeaderCtx (int32_of (bn_height p + 1)) (of_nat (bh_Bits header)) (bh_Timestamp header) (Some (header_ctx p))"
  by (simp add: newBlockNode_def Let_def)

lemma check_difficulty_iff:
  "check_difficulty header 0 prevNode P = Inr () \<longleftrightarrow>
     calcNextRequiredDifficulty (Some (header_ctx prevNode)) (bh_Timestamp header) P = Inr (of_nat (bh_Bits header)) \<and>
     bn_timestamp prevNode + 1 \<le> bh_Timestamp header"
  by (auto simp: check_difficulty_def sbind_eq_Inr panicking_def MinTimestampDeltaSeconds_def split: sum.splits if_splits)

lemma CheckBlockHeaderContext_iff:
  "fst (CheckBlockHeaderContext dh header nanos prevNode flags P cx skip st) = Inr () \<longleftrightarrow>
     (flag_set flags BFFastAdd \<or> check_difficulty header nanos prevNode P = Inr ()) \<and>
     (skip \<or> cx_VerifyCheckpoint cx (int32_of (bn_height prevNode + 1)) (BlockHash dh header) \<and>
        (case fst (cx_FindPreviousCheckpoint cx st) of
           Inl e \<Rightarrow> False
         | Inr None \<Rightarrow> True
         | Inr (Some node) \<Rightarrow> bn_height node \<le> int32_of (bn_height prevNode + 1)))"
  by (auto simp: CheckBlockHeaderContext_def Let_def split: sum.splits option.splits if_splits prod.splits)

text \<open>A chain of headers on top of a node that pass the context check one after the other; the checkpoint context and its state
  may be any at every step.\<close>

inductive checked_chain :: "(bytes \<Rightarrow> hash) \<Rightarrow> chainParams \<Rightarrow> blockNode \<Rightarrow> nat \<Rightarrow> blockNode \<Rightarrow> bool" for dh P start where
  checked_start: "checked_chain dh P start 0 start"
| checked_child: "checked_chain dh P start k p \<Longrightarrow>
    fst (CheckBlockHeaderContext dh header 0 p flags P (cx :: checkpointState ChainCtx) skip st) = Inr () \<Longrightarrow>
    \<not> flag_set flags BFFastAdd \<Longrightarrow> bh_Timestamp header < 2 ^ 32 \<Longrightarrow>
    checked_chain dh P start (Suc k) (newBlockNode dh header (Some p) status vsize)"

lemma newBlockNode_time: "bn_timestamp (newBlockNode dh header (Some p) status vsize) = bh_Timestamp header"
  by (simp add: newBlockNode_def Let_def)

lemma newBlockNode_parent: "bn_parent (newBlockNode dh header (Some p) status vsize) = Some p"
  by (simp add: newBlockNode_def Let_def)

lemma checked_chain_times: "checked_chain dh P start k n \<Longrightarrow> bn_timestamp start + int k \<le> bn_timestamp n"
  by (induction rule: checked_chain.induct)
    (auto simp: newBlockNode_time CheckBlockHeaderContext_iff check_difficulty_iff)

lemma checked_chain_extends:
  assumes "checked_chain dh P start k n"
  shows "\<exists>d. extends P (header_ctx start) (header_ctx n) d \<and>
    (if k = 0 then d = 0 else (\<exists>p. bn_parent n = Some p \<and> d = block_time (header_ctx start) + (bn_timestamp p - bn_timestamp start)))"
  using assms
proof (induction rule: checked_chain.induct)
  case checked_start
  show ?case by (auto intro: extends.extends_refl)
next
  case (checked_child k p header flags cx skip st status vsize)
  then obtain d where d: "extends P (header_ctx start) (header_ctx p) d"
      "if k = 0 then d = 0 else (\<exists>q. bn_parent p = Some q \<and> d = block_time (header_ctx start) + (bn_timestamp q - bn_timestamp start))" by blast
  have c: "calcNextRequiredDifficulty (Some (header_ctx p)) (bh_Timestamp header) P = Inr (of_nat (bh_Bits header))"
      "bn_timestamp p + 1 \<le> bh_Timestamp header"
    using checked_child.hyps by (simp_all add: CheckBlockHeaderContext_iff check_difficulty_iff)
  have "extends P (header_ctx start) (header_ctx (newBlockNode dh header (Some p) status vsize)) (d + block_time (header_ctx p))"
    unfolding header_ctx_child using c checked_child.hyps(4) by (intro extends.extends_child [OF d(1) c(1)]) simp_all
  moreover have "d + block_time (header_ctx p) = block_time (header_ctx start) + (bn_timestamp p - bn_timestamp start)"
  proof (cases "k = 0")
    case True
    then have "p = start" using checked_child.hyps(1) by (auto elim: checked_chain.cases)
    moreover have "d = 0" using d(2) True by simp
    ultimately show ?thesis by simp
  next
    case False
    then obtain q where "bn_parent p = Some q" "d = block_time (header_ctx start) + (bn_timestamp q - bn_timestamp start)" using d(2) by auto
    then show ?thesis by (simp add: block_time_def)
  qed
  ultimately show ?case using newBlockNode_parent [of dh header p status vsize] by auto
qed

text \<open>With the fork heights that the constructor of the chain admits, the required version never goes back.\<close>

lemma RequiredCertVersion_mono:
  assumes "rp_SaltedSeedForkHeight P \<noteq> 0 \<Longrightarrow> rp_MoEForkHeight P \<le> rp_SaltedSeedForkHeight P" "h \<le> h'"
  shows "RequiredCertVersion P h \<le> RequiredCertVersion P h'"
  using assms by (auto simp: RequiredCertVersion_def IsSaltedSeedForkActive_def IsMoEForkActive_def CertificateVersionV1_def
      CertificateVersionV2_def CertificateVersionV3_def)

lemma CheckCertificateRules_iff:
  "CheckCertificateRules Z header cert height P flags = Inr () \<longleftrightarrow>
     (\<exists>c. cert = Some c \<and> cert_Version c = RequiredCertVersion P height \<and> \<not> (IsMoE c \<and> IsDenseOnlyForkActive P height) \<and>
        (IsRankPenaltyForkActive P height \<and> \<not> flag_set flags BFNoPoWCheck \<longrightarrow>
           (\<exists>publicData. PublicDataBytes c = Inr publicData \<and> publicData \<noteq> [] \<and> check_rank_penalty Z (bh_Bits header) publicData = 0)))"
  by (auto simp: CheckCertificateRules_def CheckRankPenalty_def zk_result_iff split: option.splits sum.splits if_splits)
    (auto simp: zk_result_def split: if_splits)

lemma no_error: "\<forall>e. r \<noteq> Inl e \<Longrightarrow> r = Inr ()"
  by (cases r) simp_all

lemma checkBlockContext_accepts:
  assumes "checkBlockContext Z dh msgBlock nanos prevNode flags P cx st = Some (Inr (), st')"
  shows "fst (CheckBlockHeaderContext dh (mh_BlockHeader (mb_MsgHeader msgBlock)) nanos prevNode (flags OR NetBehaviorFlags P) (rp_chain P) cx False st) = Inr ()"
    "CheckCertificateRules Z (mh_BlockHeader (mb_MsgHeader msgBlock)) (mh_MsgCertificate (mb_MsgHeader msgBlock)) (int32_of (bn_height prevNode + 1)) P (flags OR NetBehaviorFlags P) = Inr ()"
    "ValidateWitnessCommitment dh (mb_Transactions msgBlock) = Some (Inr ())"
    "flag_set (flags OR NetBehaviorFlags P) BFFastAdd \<or> check_final msgBlock prevNode (int32_of (bn_height prevNode + 1)) = Inr ()"
  using assms
  by (auto simp: checkBlockContext_def Let_def bind_eq_Some_conv dest!: no_error split: prod.splits sum.splits if_splits)

subsection \<open>A concrete block\<close>

definition zero_hash :: "bytes \<Rightarrow> hash" where
  "zero_hash bs = replicate 32 0"

definition rule_coinbase :: MsgTx where
  "rule_coinbase = \<lparr>tx_Version = 1,
     tx_TxIn = [\<lparr>ti_PreviousOutPoint = \<lparr>out_Hash = chainZeroHash, out_Index = 2 ^ 32 - 1\<rparr>, ti_SignatureScript = [OP_1, 0], ti_Witness = [], ti_Sequence = 0\<rparr>],
     tx_TxOut = [\<lparr>to_Value = 5, to_PkScript = OP_1 # OP_DATA_32 # replicate 32 7\<rparr>], tx_LockTime = 0\<rparr>"

definition rule_cert :: CertificateV2 where
  "rule_cert = \<lparr>c2_Hash = replicate 32 0, c2_PublicDataLen = 1, c2_PublicData = 1 # replicate 4806 0, c2_ProofData = [1]\<rparr>"

definition rule_header :: BlockHeader where
  "rule_header = \<lparr>bh_Version = 1, bh_PrevBlock = replicate 32 0, bh_MerkleRoot = replicate 32 0, bh_Timestamp = 6,
     bh_Bits = 0x03000001, bh_ProofCommitment = replicate 32 0\<rparr>"

definition rule_block :: MsgBlock where
  "rule_block = \<lparr>mb_MsgHeader = \<lparr>mh_MsgCertificate = Some (CertV3 rule_cert), mh_BlockHeader = rule_header\<rparr>, mb_Transactions = [rule_coinbase]\<rparr>"

definition rule_params :: ruleParams where
  "rule_params = \<lparr>rp_connect = \<lparr>cp_GenesisHash = [0], cp_CoinbaseMaturity = 100,
       cp_chain = MainNetParams\<lparr>p_PowLimit := 1, p_PowLimitBits := 0x03000001, p_PoWNoRetargeting := True\<rparr>, cp_checkpoints = []\<rparr>,
     rp_SimNet = False, rp_MaxTimeOffsetMinutes = 5, rp_MoEForkHeight = 1, rp_DenseOnlyForkHeight = 1, rp_RankPenaltyForkHeight = 1,
     rp_SaltedSeedForkHeight = 1\<rparr>"

definition rule_ffi :: zkFFI where
  "rule_ffi = \<lparr>verify_zk_proof_v1 = \<lambda>_ _ _. 1, verify_zk_proof_v2 = \<lambda>_ _ _. 1, verify_zk_proof_v3 = \<lambda>_ _ _. 0,
     verify_zk_proof_v2_with_nbits = \<lambda>_ _ _ _. 1, verify_zk_proof_v3_with_nbits = \<lambda>_ _ _ _. 1, check_rank_penalty = \<lambda>_ _. 0\<rparr>"

definition rule_prev :: blockNode where
  "rule_prev = BlockNode None None (replicate 32 0) 0 0 1 0x03000001 5 [] [] 0 0"

lemma rule_coinbase_facts:
  "IsCoinBaseTx rule_coinbase" "sane_tx rule_coinbase" "GetBlockVsize rule_block \<le> MaxBlockVsize" "HasWitness rule_coinbase = False"
proof -
  have script: "GetScriptClass (OP_1 # OP_DATA_32 # replicate 32 7) = WitnessV1TaprootTy" by code_simp
  show cb: "IsCoinBaseTx rule_coinbase" by (simp add: IsCoinBaseTx_def rule_coinbase_def)
  have vsize: "GetTransactionVsize rule_coinbase \<le> MaxBlockVsize"
    by (simp add: GetTransactionVsize_def CalcVsize_def WitnessScaleFactor_def MaxBlockVsize_def SerializeSize_def SerializeSizeStripped_def
        baseSize_def rule_coinbase_def TxIn_SerializeSize_def TxOut_SerializeSize_def VarIntSerializeSize_def HasWitness_def)
  show "sane_tx rule_coinbase" using cb vsize script
    by (simp add: sane_tx_def rule_coinbase_def output_allowed_def total_value_def amounts MinCoinbaseScriptLen_def MaxCoinbaseScriptLen_def)
  show "GetBlockVsize rule_block \<le> MaxBlockVsize"
    by (simp add: GetBlockVsize_def CalcVsize_def WitnessScaleFactor_def MaxBlockVsize_def block_SerializeSizeStripped_def SerializeWitnessSize_def
        rule_block_def SerializeSize_def SerializeSizeStripped_def baseSize_def rule_coinbase_def TxIn_SerializeSize_def
        TxOut_SerializeSize_def VarIntSerializeSize_def HasWitness_def MaxBlockHeaderPayload_def)
  show "HasWitness rule_coinbase = False" by (simp add: HasWitness_def rule_coinbase_def)
qed

lemma rule_block_certified: "certified rule_ffi zero_hash rule_header (CertV3 rule_cert)"
  by (simp add: certified_def BlockHash_def zero_hash_def rule_cert_def rule_header_def rule_ffi_def PublicDataBytesV2_def)

lemma rule_block_sanity: "checkBlockSanity rule_ffi zero_hash rule_block 0 rule_params 6 BFNone = Some (Inr ())"
proof -
  have target: "CompactToBig 0x03000001 = 1" by code_simp
  have "shape_ok rule_block" using rule_coinbase_facts by (simp add: shape_ok_def rule_block_def MaxBlockVsize_def)
  then have "block_shape rule_block = Inr ()" by (simp add: block_shape_iff)
  moreover have "merkle_root (HashMerkleBranches zero_hash) (leaf_hashes zero_hash False [rule_coinbase]) = replicate 32 0"
    by (simp add: leaf_hashes_def leaf_hash_def TxHash_def zero_hash_def merkle_root.simps)
  moreover have "CheckBlockHeaderSanity rule_ffi zero_hash rule_header 0 (Some (CertV3 rule_cert)) 1 6 5 f = Inr ()" for f
    using rule_block_certified target
    by (simp add: CheckBlockHeaderSanity_iff rule_header_def SerializedSizeV2_def rule_cert_def cert_limits int64_of_id)
  ultimately show ?thesis
    by (simp add: checkBlockSanity_value rule_block_def rule_header_def [THEN arg_cong [of _ _ bh_MerkleRoot]] rule_params_def)
qed

lemma rule_block_context:
  "\<exists>st'. checkBlockContext rule_ffi zero_hash rule_block 0 rule_prev BFNone rule_params (chain_ctx [] newBlockIndex []) st = Some (Inr (), st')"
proof -
  have "check_difficulty rule_header 0 rule_prev (rp_chain rule_params) = Inr ()"
    by (simp add: check_difficulty_iff calcNextRequiredDifficulty_def rule_params_def rule_header_def rule_prev_def)
  then have ctx: "CheckBlockHeaderContext zero_hash rule_header 0 rule_prev f (rp_chain rule_params) (chain_ctx [] newBlockIndex []) False st = (Inr (), st)" for f
    by (simp add: CheckBlockHeaderContext_def Let_def chain_ctx_def verifyCheckpoint_def findPreviousCheckpoint_def HasCheckpoints_def)
  have rules: "CheckCertificateRules rule_ffi rule_header (Some (CertV3 rule_cert)) 1 rule_params f = Inr ()" for f
    by (simp add: CheckCertificateRules_iff RequiredCertVersion_def IsSaltedSeedForkActive_def rule_params_def IsMoEV2_def rule_cert_def
        cert_limits PublicDataBytesV2_def rule_ffi_def)
  have "ExtractWitnessCommitment rule_coinbase = None"
    using rule_coinbase_facts(1) by (simp add: ExtractWitnessCommitment_def rule_coinbase_def CoinbaseWitnessPkScriptLength_def)
  then have witness: "ValidateWitnessCommitment zero_hash [rule_coinbase] = Some (Inr ())"
    using rule_coinbase_facts(4) by (simp add: ValidateWitnessCommitment_def) (simp add: rule_coinbase_def)
  have height: "CheckSerializedHeight rule_coinbase 1 = Inr ()"
    by (simp add: CheckSerializedHeight_def ExtractCoinbaseHeight_def rule_coinbase_def)
  have h: "int32_of (bn_height rule_prev + 1) = 1" by (simp add: rule_prev_def int32_of_id)
  have final: "check_final rule_block rule_prev 1 = Inr ()"
    using height rule_coinbase_facts(3) by (simp add: check_final_def Let_def rule_block_def [THEN arg_cong [of _ _ mb_Transactions]] IsFinalizedTransaction_def)
      (simp add: rule_coinbase_def)
  have sel: "mh_BlockHeader (mb_MsgHeader rule_block) = rule_header" "mh_MsgCertificate (mb_MsgHeader rule_block) = Some (CertV3 rule_cert)"
      "mb_Transactions rule_block = [rule_coinbase]" by (simp_all add: rule_block_def)
  show ?thesis unfolding checkBlockContext_def Let_def sel h using ctx rules witness final by simp
qed

subsection \<open>Properties\<close>

text \<open>
  C33. The context-free check of a block always returns, and it accepts exactly the blocks with transactions, of an allowed number and
  size, the first and only the first of them a coinbase, all of them sane and with different hashes,
  whose merkle root is the one in the header, with a certificate of an allowed size, a target within the limit,
  a timestamp of whole seconds not too far in the future, and a certificate that verifies unless the check
  is switched off.\<close>

theorem block_sanity_iff:
  fixes b
  defines "txs \<equiv> mb_Transactions b" and "header \<equiv> mh_BlockHeader (mb_MsgHeader b)"
  shows "(\<exists>r. checkBlockSanity Z dh b nanos P adjustedTime flags = Some r) \<and>
   (checkBlockSanity Z dh b nanos P adjustedTime flags = Some (Inr ()) \<longleftrightarrow>
      txs \<noteq> [] \<and> int (length txs) \<le> MaxBlockVsize \<and> GetBlockVsize b \<le> MaxBlockVsize \<and>
      IsCoinBaseTx (hd txs) \<and> list_all (\<lambda>tx. \<not> IsCoinBaseTx tx) (tl txs) \<and> list_all (\<lambda>tx. CheckTransactionSanity tx = Inr ()) txs \<and>
      distinct (map (TxHash dh) txs) \<and> bh_MerkleRoot header = merkle_root (HashMerkleBranches dh) (map (TxHash dh) txs) \<and>
      (\<exists>c. mh_MsgCertificate (mb_MsgHeader b) = Some c \<and> 4 + SerializedSize c \<le> 65000 \<and> nanos = 0 \<and>
         bh_Timestamp header * 10 ^ 9 \<le> adjustedTime * 10 ^ 9 + int64_of (60 * 10 ^ 9 * rp_MaxTimeOffsetMinutes P) \<and>
         0 < CompactToBig (of_nat (bh_Bits header)) \<and> CompactToBig (of_nat (bh_Bits header)) \<le> p_PowLimit (rp_chain P) \<and>
         (flag_set (flags OR NetBehaviorFlags P) BFNoPoWCheck \<or> certified Z dh header c)))"
proof -
  have "leaf_hashes dh False txs = map (TxHash dh) txs"
    by (rule nth_equalityI) (simp_all add: leaf_hashes_def leaf_hash_def nth_enumerate_eq)
  then show ?thesis
    unfolding txs_def header_def
    by (auto simp: checkBlockSanity_value sbind_eq_Inr block_shape_iff shape_ok_def Let_def check_duplicate_txs_iff CheckTransactionSanity_iff
        CheckBlockHeaderSanity_iff CertificateMaxSize_def)
qed

theorem block_sanity_iff_witness:
  "checkBlockSanity rule_ffi zero_hash rule_block 0 rule_params 6 BFNone = Some (Inr ()) \<and> distinct (map (TxHash zero_hash) (mb_Transactions rule_block))"
  using rule_block_sanity block_sanity_iff [of rule_ffi zero_hash rule_block 0 rule_params 6 BFNone] by blast

text \<open>
  C34. A block that passes both checks on a network that verifies proof of work carries a certificate of the version that its
  height requires, bound to its header: the certificate names the hash of the header, the header
  commits to the version and the public data of the certificate, and the verifier of this version accepts the header, the data and the
  proof. Behind the activation heights the proof is dense and meets the rank rule.\<close>

theorem accepted_block_certified:
  assumes "checkBlockSanity Z dh b nanos P adjustedTime flags = Some (Inr ())"
    "checkBlockContext Z dh b nanos' prevNode flags P cx st = Some (Inr (), st')" "\<not> rp_SimNet P" "\<not> flag_set flags BFNoPoWCheck"
  shows "\<exists>c publicData. mh_MsgCertificate (mb_MsgHeader b) = Some c \<and> PublicDataBytes c = Inr publicData \<and>
    cert_Version c = RequiredCertVersion P (int32_of (bn_height prevNode + 1)) \<and>
    cert_BlockHash c = BlockHash dh (mh_BlockHeader (mb_MsgHeader b)) \<and>
    bh_ProofCommitment (mh_BlockHeader (mb_MsgHeader b)) = dh (le_bytes 4 (int (cert_Version c)) @ publicData) \<and>
    proof_accepted Z (mh_BlockHeader (mb_MsgHeader b)) c publicData \<and>
    (IsDenseOnlyForkActive P (int32_of (bn_height prevNode + 1)) \<longrightarrow> \<not> IsMoE c) \<and>
    (IsRankPenaltyForkActive P (int32_of (bn_height prevNode + 1)) \<longrightarrow>
       check_rank_penalty Z (bh_Bits (mh_BlockHeader (mb_MsgHeader b))) publicData = 0)"
proof -
  have pow: "\<not> flag_set (flags OR NetBehaviorFlags P) BFNoPoWCheck" using assms(3,4) by (simp add: NetBehaviorFlags_def BFNone_def)
  obtain c where c: "mh_MsgCertificate (mb_MsgHeader b) = Some c" "certified Z dh (mh_BlockHeader (mb_MsgHeader b)) c"
    using assms(1) pow by (auto simp: checkBlockSanity_value sbind_eq_Inr CheckBlockHeaderSanity_iff split: if_splits)
  have rules: "cert_Version c = RequiredCertVersion P (int32_of (bn_height prevNode + 1))"
      "\<not> (IsMoE c \<and> IsDenseOnlyForkActive P (int32_of (bn_height prevNode + 1)))"
      "IsRankPenaltyForkActive P (int32_of (bn_height prevNode + 1)) \<longrightarrow>
         (\<exists>publicData. PublicDataBytes c = Inr publicData \<and> check_rank_penalty Z (bh_Bits (mh_BlockHeader (mb_MsgHeader b))) publicData = 0)"
    using checkBlockContext_accepts(2) [OF assms(2)] pow c(1) by (auto simp: CheckCertificateRules_iff)
  with c show ?thesis by (auto simp: certified_def)
qed

theorem accepted_block_certified_witness:
  "verify_zk_proof_v3 rule_ffi (blockHeaderToC rule_header) [1] [1] = 0 \<and> cert_Version (CertV3 rule_cert) = RequiredCertVersion rule_params 1"
proof -
  obtain st' where ctx: "checkBlockContext rule_ffi zero_hash rule_block 0 rule_prev BFNone rule_params (chain_ctx [] newBlockIndex [])
      \<lparr>ch_checkpointNode = None, ch_nextCheckpoint = None\<rparr> = Some (Inr (), st')"
    using rule_block_context by blast
  have "\<not> rp_SimNet rule_params" "\<not> flag_set BFNone BFNoPoWCheck" by (simp_all add: rule_params_def flag_set_def BFNone_def BFNoPoWCheck_def)
  from accepted_block_certified [OF rule_block_sanity ctx this] show ?thesis
    by (auto simp: rule_block_def rule_prev_def int32_of_id PublicDataBytesV2_def rule_cert_def)
qed

text \<open>
  C35. Along headers that pass the context check one after the other the timestamps grow by at least a second per block, so that the
  number of blocks is bounded by the time they span, and on a network that retargets every target stays within the limit and grows at
  most by the exponential of the time that the retargets used over the half life.\<close>

theorem checked_headers_bounds:
  assumes "checked_chain dh P start (Suc k) n" "retargets P" "bn_parent start = Some first" "header_sane P (header_ctx start)"
  shows "int (Suc k) \<le> bn_timestamp n - bn_timestamp start \<and>
    1 \<le> CompactToBig (bn_bits n) \<and> CompactToBig (bn_bits n) \<le> p_PowLimit P \<and>
    (\<exists>p. bn_parent n = Some p \<and>
       real_of_int (CompactToBig (bn_bits n)) \<le> real_of_int (CompactToBig (bn_bits start)) *
         exp (real_of_int (bn_timestamp p - bn_timestamp first) / real_of_int (seconds (p_WTEMAHalfLife P))))"
proof -
  obtain d p where d: "extends P (header_ctx start) (header_ctx n) d" "bn_parent n = Some p"
      "d = block_time (header_ctx start) + (bn_timestamp p - bn_timestamp start)"
    using checked_chain_extends [OF assms(1)] by auto
  have "d = bn_timestamp p - bn_timestamp first" using d(3) assms(3) by (simp add: block_time_def)
  with extends_bound [OF d(1) assms(2,4)] d(2) checked_chain_times [OF assms(1)] show ?thesis
    by (auto simp: header_sane_def target_def)
qed

definition bounded_start :: blockNode where
  "bounded_start = BlockNode (Some (BlockNode None None [] 0 0 1 0x1b00ffff 1000 [] [] 0 0)) None [] 0 1 1 0x1a00ffff 1200 [] [] 0 0"

theorem checked_headers_bounds_witness:
  "\<exists>bits. calcNextRequiredDifficulty (Some (header_ctx bounded_start)) 1300 MainNetParams = Inr bits \<and>
     CompactToBig bits \<le> mainPowLimit"
proof -
  have "CompactToBig 0x1a00ffff = 0xffff * 2 ^ 184" by code_simp
  then have h: "header_sane MainNetParams (header_ctx bounded_start)"
    by (simp add: header_sane_def target_def MainNetParams_def mainPowLimit_def push_bit_eq_mult bounded_start_def)
  obtain bits where bits: "calcNextRequiredDifficulty (Some (header_ctx bounded_start)) 1300 MainNetParams = Inr bits"
    using retarget_value(1) [OF MainNetParams_retargets h] by blast
  let ?header = "\<lparr>bh_Version = 1, bh_PrevBlock = [], bh_MerkleRoot = [], bh_Timestamp = 1300, bh_Bits = unat bits, bh_ProofCommitment = []\<rparr>"
  have "checked_chain zero_hash MainNetParams bounded_start (Suc 0) (newBlockNode zero_hash ?header (Some bounded_start) 0 0)"
  proof (rule checked_child [OF checked_start])
    show "fst (CheckBlockHeaderContext zero_hash ?header 0 bounded_start BFNone MainNetParams (chain_ctx [] newBlockIndex []) True
        \<lparr>ch_checkpointNode = None, ch_nextCheckpoint = None\<rparr>) = Inr ()"
      using bits by (simp add: CheckBlockHeaderContext_iff check_difficulty_iff) (simp add: bounded_start_def)
  qed (simp_all add: flag_set_def BFNone_def BFFastAdd_def)
  from checked_headers_bounds [OF this MainNetParams_retargets _ h] bits show ?thesis
    by (auto simp: bounded_start_def newBlockNode_def Let_def MainNetParams_def)
qed

end
