(* ===== verification/Size_Helper.thy ===== *)
theory Size_Helper
  imports Prelude "HOL-Library.Word" "HOL-Library.Signed_Division"
begin

text \<open>
  The memory of a Go map (\<^verbatim>\<open>node/blockchain/sizehelper.go\<close>): the size classes of the allocator, the number of buckets
  for a number of elements, and the estimates that bound the cache of unspent outputs. \<^verbatim>\<open>uintptr\<close> has 64 bits.
\<close>

unbundle bit_operations_syntax

subsection \<open>Constants\<close>

definition outpointSize :: nat where "outpointSize = 36"
definition uint64Size :: nat where "uint64Size = 8"
definition bucketSize :: nat where "bucketSize = 16 + uint64Size * outpointSize + uint64Size * uint64Size"
definition baseEntrySize :: nat where "baseEntrySize = 40"
definition pubKeyHashLen :: nat where "pubKeyHashLen = 25"
definition avgEntrySize :: nat where "avgEntrySize = baseEntrySize + (pubKeyHashLen + 7)"

text \<open>The values of a 64-bit system.\<close>

type_synonym uintptr = "64 word"

definition MaxSmallSize :: uintptr where "MaxSmallSize = 32768"
definition smallSizeDiv :: uintptr where "smallSizeDiv = 8"
definition smallSizeMax :: uintptr where "smallSizeMax = 1024"
definition largeSizeDiv :: uintptr where "largeSizeDiv = 128"
definition PageSize :: uintptr where "PageSize = push_bit 13 1"
definition MaxUintptr :: uintptr where "MaxUintptr = NOT 0"
definition bucketCnt :: int where "bucketCnt = 8"
definition loadFactorNum :: uintptr where "loadFactorNum = 13"
definition loadFactorDen :: uintptr where "loadFactorDen = 2"
definition maxAlloc :: uintptr where "maxAlloc = push_bit 40 1"

definition class_to_size :: "nat list" where
  "class_to_size =
    [0, 8, 16, 24, 32, 48, 64, 80, 96, 112, 128, 144, 160, 176, 192, 208, 224, 240, 256, 288, 320, 352, 384, 416, 448, 480, 512,
     576, 640, 704, 768, 896, 1024, 1152, 1280, 1408, 1536, 1792, 2048, 2304, 2688, 3072, 3200, 3456, 4096, 4864, 5376, 6144,
     6528, 6784, 6912, 8192, 9472, 9728, 10240, 10880, 12288, 13568, 14336, 16384, 18432, 19072, 20480, 21760, 24576, 27264,
     28672, 32768]"

definition size_to_class8 :: "nat list" where
  "size_to_class8 =
    [0, 1, 2, 3, 4, 5, 5, 6, 6, 7, 7, 8, 8, 9, 9, 10, 10, 11, 11, 12, 12, 13, 13, 14, 14, 15, 15, 16, 16, 17, 17, 18, 18, 19, 19,
     19, 19, 20, 20, 20, 20, 21, 21, 21, 21, 22, 22, 22, 22, 23, 23, 23, 23, 24, 24, 24, 24, 25, 25, 25, 25, 26, 26, 26, 26, 27,
     27, 27, 27, 27, 27, 27, 27, 28, 28, 28, 28, 28, 28, 28, 28, 29, 29, 29, 29, 29, 29, 29, 29, 30, 30, 30, 30, 30, 30, 30, 30,
     31, 31, 31, 31, 31, 31, 31, 31, 31, 31, 31, 31, 31, 31, 31, 31, 32, 32, 32, 32, 32, 32, 32, 32, 32, 32, 32, 32, 32, 32, 32,
     32]"

definition size_to_class128 :: "nat list" where
  "size_to_class128 =
    [32, 33, 34, 35, 36, 37, 37, 38, 38, 39, 39, 40, 40, 40, 41, 41, 41, 42, 43, 43, 44, 44, 44, 44, 44, 45, 45, 45, 45, 45, 45,
     46, 46, 46, 46, 47, 47, 47, 47, 47, 47, 48, 48, 48, 49, 49, 50, 51, 51, 51, 51, 51, 51, 51, 51, 51, 51, 52, 52, 52, 52, 52,
     52, 52, 52, 52, 52, 53, 53, 54, 54, 54, 54, 55, 55, 55, 55, 55, 56, 56, 56, 56, 56, 56, 56, 56, 56, 56, 56, 57, 57, 57, 57,
     57, 57, 57, 57, 57, 57, 58, 58, 58, 58, 58, 58, 59, 59, 59, 59, 59, 59, 59, 59, 59, 59, 59, 59, 59, 59, 59, 59, 60, 60, 60,
     60, 60, 60, 60, 60, 60, 60, 60, 60, 60, 60, 60, 60, 61, 61, 61, 61, 61, 62, 62, 62, 62, 62, 62, 62, 62, 62, 62, 62, 63, 63,
     63, 63, 63, 63, 63, 63, 63, 63, 64, 64, 64, 64, 64, 64, 64, 64, 64, 64, 64, 64, 64, 64, 64, 64, 64, 64, 64, 64, 64, 64, 65,
     65, 65, 65, 65, 65, 65, 65, 65, 65, 65, 65, 65, 65, 65, 65, 65, 65, 65, 65, 65, 66, 66, 66, 66, 66, 66, 66, 66, 66, 66, 66,
     67, 67, 67, 67, 67, 67, 67, 67, 67, 67, 67, 67, 67, 67, 67, 67, 67, 67, 67, 67, 67, 67, 67, 67, 67, 67, 67, 67, 67, 67, 67,
     67]"

subsection \<open>Size classes\<close>

definition divRoundUp :: "uintptr \<Rightarrow> uintptr \<Rightarrow> uintptr" where
  "divRoundUp n a = (n + a - 1) div a"

definition alignUp :: "uintptr \<Rightarrow> uintptr \<Rightarrow> uintptr" where
  "alignUp n a = (n + a - 1) AND NOT (a - 1)"

definition roundupsize :: "uintptr \<Rightarrow> uintptr" where
  "roundupsize sz =
     (if sz < MaxSmallSize then
        if sz \<le> smallSizeMax - 8
        then of_nat (class_to_size ! (size_to_class8 ! unat (divRoundUp sz smallSizeDiv)))
        else of_nat (class_to_size ! (size_to_class128 ! unat (divRoundUp (sz - smallSizeMax) largeSizeDiv)))
      else if sz + PageSize < sz then sz
      else alignUp sz PageSize)"

definition mulUintptr :: "uintptr \<Rightarrow> uintptr \<Rightarrow> uintptr \<times> bool" where
  "mulUintptr a b =
     (if a OR b < push_bit 32 1 \<or> a = 0 then (a * b, False) else (a * b, b > MaxUintptr div a))"

subsection \<open>Maps\<close>

definition bucketShift :: "nat \<Rightarrow> uintptr" where
  "bucketShift b = push_bit (b AND 63) 1"

definition overLoadFactor :: "uintptr \<Rightarrow> nat \<Rightarrow> bool" where
  "overLoadFactor count B \<longleftrightarrow> sint count > bucketCnt \<and> count > loadFactorNum * (bucketShift B div loadFactorDen)"

text \<open>The number of buckets doubles until they hold the elements; at the exponent 61 they hold every positive number.\<close>

lemma nat_and_63: "(b AND 63 :: nat) = b mod 64"
  using take_bit_eq_mask [of 6 b] by (simp add: take_bit_eq_mod mask_eq_exp_minus_1)

lemma overLoadFactor_below: "overLoadFactor count B \<Longrightarrow> B mod 64 \<noteq> 61"
proof
  assume o: "overLoadFactor count B" "B mod 64 = 61"
  then have pos: "0 < sint count" and gt: "count > 13 * (push_bit 61 1 div 2)"
    by (simp_all add: overLoadFactor_def bucketCnt_def loadFactorNum_def loadFactorDen_def bucketShift_def nat_and_63)
  have "(13 * (push_bit 61 1 div 2) :: uintptr) = 0xD000000000000000" by code_simp
  with gt have big: "(0xD000000000000000 :: uintptr) < count" by simp
  have "sint count = int64_of (uint count)" by (simp add: sint_uint int64_of_def)
  then have "uint count = sint count" "sint count < 2 ^ 63"
    using pos int64_of_mod [of "uint count"] int64_of_range [of "uint count"] uint_lt2p [of count] by simp_all
  then have "uint count < 2 ^ 63" by simp
  with big show False by (simp add: word_less_def)
qed


function map_exponent :: "uintptr \<Rightarrow> nat \<Rightarrow> nat" where
  "map_exponent hint B = (if overLoadFactor hint B then map_exponent hint (B + 1) else B)"
  by pat_completeness auto

termination
proof (relation "measure (\<lambda>(hint, B). (125 - B mod 64) mod 64)")
  fix hint B
  assume "overLoadFactor hint B"
  then have r: "B mod 64 \<noteq> 61" "B mod 64 < 64" by (simp_all add: overLoadFactor_below)
  have step: "(125 - (r + 1) mod 64) mod 64 < (125 - r) mod 64" if "r \<noteq> 61" "r < 64" for r :: nat
  proof -
    have "r = 63 \<or> r = 62 \<or> r \<le> 60" using that by presburger
    then consider "r = 63" | "r = 62" | "r \<le> 60" by blast
    then show ?thesis
    proof cases
      case 3
      then have "125 - r = (61 - r) + 64" "125 - (r + 1) = (60 - r) + 64" by simp_all
      then have "(125 - r) mod 64 = 61 - r" "(125 - (r + 1)) mod 64 = 60 - r" by (simp_all only: mod_add_self2) simp_all
      with 3 show ?thesis by simp
    qed simp_all
  qed
  have "(B + 1) mod 64 = (B mod 64 + 1) mod 64" by (simp add: mod_Suc_eq)
  then have "(125 - (B + 1) mod 64) mod 64 < (125 - B mod 64) mod 64" using step [OF r] by simp
  then show "((hint, B + 1), (hint, B)) \<in> measure (\<lambda>(hint, B). (125 - B mod 64) mod 64)" by simp
qed simp

declare map_exponent.simps [simp del]

definition calculateRoughMapSize :: "int \<Rightarrow> uintptr \<Rightarrow> int" where
  "calculateRoughMapSize hint bucketSz =
     (let (mem, overflow) = mulUintptr (word_of_int hint) bucketSz;
          hint = (if overflow \<or> mem > maxAlloc then 0 else hint);
          B = map_exponent (word_of_int hint) 0;
          base = bucketShift B;
          numBuckets =
            (if B \<ge> 4 then
               let numBuckets = base + bucketShift (B - 4);
                   sz = bucketSz * numBuckets;
                   up = roundupsize sz
               in if up \<noteq> sz then up div bucketSz else numBuckets
             else base);
          (total, _) = mulUintptr bucketSz numBuckets;
          total = (if base \<noteq> numBuckets then total + 24 else total)
      in sint (total + 48))"

text \<open>\<open>lg\<close> is the conversion of the logarithm to an 8-bit integer, which floating point numbers compute.\<close>

definition calculateMinEntries :: "(int \<Rightarrow> nat) \<Rightarrow> int \<Rightarrow> int \<Rightarrow> int" where
  "calculateMinEntries lg totalBytes bucketSz =
     (let totalBytes = int64_of (totalBytes - 48);
          numBuckets = totalBytes sdiv bucketSz;
          B = lg numBuckets
      in if B < 4 then (if B = 0 then 0 else if B = 1 then 9 else if B = 2 then 14 else 27)
         else sint (loadFactorNum * (bucketShift (B - 1) div loadFactorDen)) + 1)"

end
