(* ===== verification/Keyed_Store.thy ===== *)
theory Keyed_Store
  imports Prelude "HOL-Library.Multiset"
begin

text \<open>
  Stores that are read and written by key. The buckets of the database, the cache of unspent outputs and the pending
  changes of a database transaction provide the interface; the lemmas about sequences of writes are proved once here.
\<close>

text \<open>A write stores a value under a key or removes the key.\<close>

definition store_write :: "('k \<Rightarrow> 'v \<Rightarrow> 's \<Rightarrow> 's) \<Rightarrow> ('k \<Rightarrow> 's \<Rightarrow> 's) \<Rightarrow> 'k \<times> 'v option \<Rightarrow> 's \<Rightarrow> 's" where
  "store_write put del w s = (case w of (k, Some v) \<Rightarrow> put k v s | (k, None) \<Rightarrow> del k s)"

locale keyed_store =
  fixes get :: "'s \<Rightarrow> 'k \<Rightarrow> 'v option" and put :: "'k \<Rightarrow> 'v \<Rightarrow> 's \<Rightarrow> 's" and del :: "'k \<Rightarrow> 's \<Rightarrow> 's" and ok :: "'s \<Rightarrow> bool"
  assumes get_put: "ok s \<Longrightarrow> get (put k v s) k' = (if k' = k then Some v else get s k')"
    and get_del: "ok s \<Longrightarrow> get (del k s) k' = (if k' = k then None else get s k')"
    and ok_put: "ok s \<Longrightarrow> ok (put k v s)"
    and ok_del: "ok s \<Longrightarrow> ok (del k s)"
begin

lemma get_write: "ok s \<Longrightarrow> get (store_write put del w s) k = (if k = fst w then snd w else get s k)"
  by (cases w; cases "snd w") (auto simp: store_write_def get_put get_del)

lemma ok_write: "ok s \<Longrightarrow> ok (store_write put del w s)"
  by (cases w; cases "snd w") (auto simp: store_write_def ok_put ok_del)

lemma ok_writes: "ok s \<Longrightarrow> ok (fold (store_write put del) ws s)"
  by (induction ws arbitrary: s) (simp_all add: ok_write)

text \<open>After writes to different keys every key holds what was written to it last, that is its only write.\<close>

lemma get_writes:
  "ok s \<Longrightarrow> distinct (map fst ws) \<Longrightarrow>
     get (fold (store_write put del) ws s) k = (case map_of ws k of None \<Rightarrow> get s k | Some v \<Rightarrow> v)"
proof (induction ws arbitrary: s)
  case (Cons w ws)
  then have "map_of ws (fst w) = None" by (auto simp: map_of_eq_None_iff)
  with Cons show ?case by (cases w) (auto simp: ok_write get_write split: option.split)
qed simp

text \<open>Writes to different keys may be reordered.\<close>

lemma get_writes_perm:
  "ok s \<Longrightarrow> distinct (map fst ws) \<Longrightarrow> mset ws = mset ws' \<Longrightarrow>
     get (fold (store_write put del) ws s) k = get (fold (store_write put del) ws' s) k"
proof -
  assume a: "ok s" "distinct (map fst ws)" "mset ws = mset ws'"
  then have "mset (map fst ws) = mset (map fst ws')" by simp
  with a(2) have "distinct (map fst ws')" by (metis mset_eq_imp_distinct_iff)
  moreover from a this have "map_of ws = map_of ws'"
    by (metis map_of_inject_set mset_eq_setD)
  ultimately show ?thesis using a by (simp add: get_writes)
qed

end

end
