(* ===== verification/Chain_Store.thy ===== *)
theory Chain_Store
  imports Keyed_Store Compress Block_Rules "HOL-Library.Finite_Map" "HOL-Library.List_Lexorder"
begin

text \<open>
  The database of the chain (\<^verbatim>\<open>node/blockchain/chainio.go\<close>): the spend journal, the set of unspent outputs, the indexes of
  heights, hashes, statuses and sizes, the best state and the blocks. A bucket is a finite map whose keys are ordered
  byte-wise; the interface of the database package gives every key it reads what was last put there, and a transaction that fails
  changes nothing. The functions of the curve package that compressed scripts need are a record of parameters. The lemmas
  show that every record is read back, and that writing a view refines the coins.
\<close>

subsection \<open>Buckets\<close>

text \<open>A bucket of the database maps keys to values; its cursor runs through the keys in byte-wise order.\<close>

type_synonym bucket = "(bytes, bytes) fmap"

interpretation bucket: keyed_store fmlookup fmupd fmdrop "\<lambda>_. True"
  by unfold_locales auto

datatype db_error = errNotInMainChain | errDeserialize | dbCorruption | dbAssert | dbBlockNotFound | dbBlockExists | dbError | dbPanic

text \<open>Errors of the compression code as errors of deserialization; a panic stays one.\<close>

definition decoding :: "go_error + 'a \<Rightarrow> db_error + 'a" where
  "decoding r = (case r of Inl goPanic \<Rightarrow> Inl dbPanic | Inl _ \<Rightarrow> Inl errDeserialize | Inr x \<Rightarrow> Inr x)"

definition encoding :: "go_error + 'a \<Rightarrow> db_error + 'a" where
  "encoding r = (case r of Inl _ \<Rightarrow> Inl dbPanic | Inr x \<Rightarrow> Inr x)"

definition corrupt :: "db_error + 'a \<Rightarrow> db_error + 'a" where
  "corrupt r = (case r of Inl errDeserialize \<Rightarrow> Inl dbCorruption | _ \<Rightarrow> r)"

text \<open>The curve package, which the compressed scripts need.\<close>

record 'k curve =
  cv_ParsePubKey :: "bytes \<Rightarrow> 'k option"
  cv_SerializeUncompressed :: "'k \<Rightarrow> bytes"

subsection \<open>The spend journal\<close>

definition header_code :: "int \<Rightarrow> bool \<Rightarrow> 64 word" where
  "header_code h coinbase = (let headerCode = push_bit 1 (word_of_int h) in if coinbase then headerCode OR 1 else headerCode)"

definition spentTxOutHeaderCode :: "SpentTxOut \<Rightarrow> 64 word" where
  "spentTxOutHeaderCode stxo = header_code (st_Height stxo) (st_IsCoinBase stxo)"

definition spentTxOutSerializeSize :: "'k curve \<Rightarrow> SpentTxOut \<Rightarrow> nat" where
  "spentTxOutSerializeSize C stxo =
     serializeSizeVLQ (spentTxOutHeaderCode stxo) +
     compressedTxOutSize (cv_ParsePubKey C) (word_of_int (st_Amount stxo)) (st_PkScript stxo)"

definition putSpentTxOut :: "'k curve \<Rightarrow> bytes \<Rightarrow> SpentTxOut \<Rightarrow> go_error + bytes \<times> nat" where
  "putSpentTxOut C buf stxo =
     sbind (putVLQ buf (spentTxOutHeaderCode stxo)) (\<lambda>(buf, offset).
     sbind (putCompressedTxOut (cv_ParsePubKey C) (drop offset buf) (word_of_int (st_Amount stxo)) (st_PkScript stxo)) (\<lambda>(rest, n).
       Inr (take offset buf @ rest, offset + n)))"

definition decodeSpentTxOut :: "'k curve \<Rightarrow> bytes \<Rightarrow> db_error + SpentTxOut \<times> int" where
  "decodeSpentTxOut C serialized =
     (if length serialized = 0 then Inl errDeserialize
      else
        let (code, offset) = deserializeVLQ serialized
        in if offset \<ge> length serialized then Inl errDeserialize
           else
             sbind (decoding (decodeCompressedTxOut (cv_ParsePubKey C) (cv_SerializeUncompressed C) (drop offset serialized)))
               (\<lambda>(amount, pkScript, bytesRead).
                 Inr (\<lparr>st_Amount = sint amount, st_PkScript = pkScript, st_Height = int32_of (uint (drop_bit 1 code)),
                       st_IsCoinBase = (code AND 1 \<noteq> 0)\<rparr>, int offset + bytesRead)))"

text \<open>The entries are read for the inputs in reverse order.\<close>

fun decode_stxos :: "'k curve \<Rightarrow> TxIn list \<Rightarrow> bytes \<Rightarrow> SpentTxOut list \<Rightarrow> db_error + SpentTxOut list" where
  "decode_stxos C [] serialized stxos = Inr stxos"
| "decode_stxos C (txIn # ins) serialized stxos =
     sbind (decodeSpentTxOut C serialized) (\<lambda>(stxo, n). decode_stxos C ins (drop (nat n) serialized) (stxo # stxos))"

definition deserializeSpendJournalEntry :: "'k curve \<Rightarrow> bytes \<Rightarrow> MsgTx list \<Rightarrow> db_error + SpentTxOut list" where
  "deserializeSpendJournalEntry C serialized txns =
     (let numStxos = sum_list (map (length \<circ> tx_TxIn) txns)
      in if length serialized = 0 then (if numStxos \<noteq> 0 then Inl dbAssert else Inr [])
         else decode_stxos C (rev (concat (map tx_TxIn txns))) serialized [])"

fun put_stxos :: "'k curve \<Rightarrow> SpentTxOut list \<Rightarrow> bytes \<Rightarrow> nat \<Rightarrow> go_error + bytes" where
  "put_stxos C [] serialized offset = Inr serialized"
| "put_stxos C (stxo # stxos) serialized offset =
     sbind (putSpentTxOut C (drop offset serialized) stxo) (\<lambda>(rest, n).
       put_stxos C stxos (take offset serialized @ rest) (offset + n))"

definition serializeSpendJournalEntry :: "'k curve \<Rightarrow> SpentTxOut list \<Rightarrow> go_error + bytes" where
  "serializeSpendJournalEntry C stxos =
     (if length stxos = 0 then Inr []
      else
        let size = sum_list (map (spentTxOutSerializeSize C) stxos)
        in put_stxos C (rev stxos) (replicate size 0) 0)"

subsection \<open>Unspent outputs\<close>

definition outpointKey :: "OutPoint \<Rightarrow> bytes" where
  "outpointKey outpoint =
     (let idx = of_nat (out_Index outpoint)
      in case putVLQ (replicate (serializeSizeVLQ idx) 0) idx of
           Inr (tail, _) \<Rightarrow> out_Hash outpoint @ tail
         | Inl _ \<Rightarrow> out_Hash outpoint)"

definition utxoEntryHeaderCode :: "UtxoEntry \<Rightarrow> db_error + 64 word" where
  "utxoEntryHeaderCode entry =
     (if IsSpent entry then Inl dbAssert else Inr (header_code (ue_blockHeight entry) (ue_IsCoinBase entry)))"

definition serializeUtxoEntry :: "'k curve \<Rightarrow> UtxoEntry \<Rightarrow> db_error + bytes option" where
  "serializeUtxoEntry C entry =
     (if IsSpent entry then Inr None
      else
        sbind (utxoEntryHeaderCode entry) (\<lambda>headerCode.
          let amount = word_of_int (ue_amount entry);
              size = serializeSizeVLQ headerCode + compressedTxOutSize (cv_ParsePubKey C) amount (ue_pkScript entry)
          in sbind (encoding (putVLQ (replicate size 0) headerCode)) (\<lambda>(serialized, offset).
             sbind (encoding (putCompressedTxOut (cv_ParsePubKey C) (drop offset serialized) amount (ue_pkScript entry))) (\<lambda>(rest, n).
               Inr (Some (take offset serialized @ rest))))))"

definition deserializeUtxoEntry :: "'k curve \<Rightarrow> bytes \<Rightarrow> db_error + UtxoEntry" where
  "deserializeUtxoEntry C serialized =
     (let (code, offset) = deserializeVLQ serialized
      in if offset \<ge> length serialized then Inl errDeserialize
         else
           let isCoinBase = code AND 1 \<noteq> 0; blockHeight = int32_of (uint (drop_bit 1 code))
           in sbind (decoding (decodeCompressedTxOut (cv_ParsePubKey C) (cv_SerializeUncompressed C) (drop offset serialized)))
                (\<lambda>(amount, pkScript, _).
                  Inr \<lparr>ue_amount = sint amount, ue_pkScript = pkScript, ue_blockHeight = blockHeight,
                       ue_packedFlags = (if isCoinBase then 0 OR tfCoinBase else 0)\<rparr>))"

definition dbFetchUtxoEntry :: "'k curve \<Rightarrow> bucket \<Rightarrow> OutPoint \<Rightarrow> db_error + UtxoEntry option" where
  "dbFetchUtxoEntry C utxoBucket outpoint =
     (case fmlookup utxoBucket (outpointKey outpoint) of
        None \<Rightarrow> Inr None
      | Some serializedUtxo \<Rightarrow>
          if length serializedUtxo = 0 then Inl dbAssert
          else sbind (corrupt (deserializeUtxoEntry C serializedUtxo)) (\<lambda>entry. Inr (Some entry)))"

text \<open>The cursor stops at the first key that is not below the given one.\<close>

definition cursor_Seek :: "bucket \<Rightarrow> bytes \<Rightarrow> (bytes \<times> bytes) option" where
  "cursor_Seek b key =
     (case filter (\<lambda>k. key \<le> k) (sorted_list_of_fset (fmdom b)) of
        [] \<Rightarrow> None
      | k # _ \<Rightarrow> map_option (\<lambda>v. (k, v)) (fmlookup b k))"

definition dbFetchUtxoEntryByHash :: "'k curve \<Rightarrow> bucket \<Rightarrow> hash \<Rightarrow> db_error + UtxoEntry option" where
  "dbFetchUtxoEntryByHash C utxoBucket h =
     (case cursor_Seek utxoBucket (outpointKey \<lparr>out_Hash = h, out_Index = 0\<rparr>) of
        None \<Rightarrow> Inr None
      | Some (cursorKey, cursorValue) \<Rightarrow>
          if length cursorKey < 32 then Inr None
          else if take 32 cursorKey \<noteq> h then Inr None
          else sbind (deserializeUtxoEntry C cursorValue) (\<lambda>entry. Inr (Some entry)))"

definition dbDeleteUtxoEntry :: "OutPoint \<Rightarrow> bucket \<Rightarrow> bucket" where
  "dbDeleteUtxoEntry outpoint utxoBucket = fmdrop (outpointKey outpoint) utxoBucket"

definition dbPutUtxoEntry :: "'k curve \<Rightarrow> OutPoint \<Rightarrow> UtxoEntry option \<Rightarrow> bucket \<Rightarrow> db_error + bucket" where
  "dbPutUtxoEntry C outpoint entry utxoBucket =
     (case entry of
        None \<Rightarrow> Inl dbAssert
      | Some e \<Rightarrow>
          if IsSpent e then Inl dbAssert
          else
            sbind (serializeUtxoEntry C e) (\<lambda>serialized.
              Inr (fmupd (outpointKey outpoint) (case serialized of None \<Rightarrow> [] | Some s \<Rightarrow> s) utxoBucket)))"

text \<open>The entries of a view, in the order in which the iteration over the map visits them.\<close>

fun dbPutUtxoView :: "'k curve \<Rightarrow> (OutPoint \<times> UtxoEntry option) list \<Rightarrow> bucket \<Rightarrow> db_error + bucket" where
  "dbPutUtxoView C [] utxoBucket = Inr utxoBucket"
| "dbPutUtxoView C ((outpoint, None) # es) utxoBucket = dbPutUtxoView C es utxoBucket"
| "dbPutUtxoView C ((outpoint, Some entry) # es) utxoBucket =
     (if \<not> isModified entry then dbPutUtxoView C es utxoBucket
      else if IsSpent entry then dbPutUtxoView C es (dbDeleteUtxoEntry outpoint utxoBucket)
      else sbind (dbPutUtxoEntry C outpoint (Some entry) utxoBucket) (dbPutUtxoView C es))"

subsection \<open>Round trips\<close>

text \<open>The values that the encodings can carry.\<close>

definition storable :: "int \<Rightarrow> int \<Rightarrow> bytes \<Rightarrow> bool" where
  "storable amount h script \<longleftrightarrow> 0 \<le> amount \<and> 9 * amount + 9 < 2 ^ 64 \<and> 0 \<le> h \<and> h < 2 ^ 31 \<and> length script < 2 ^ 61"

definition curve_ok :: "'k curve \<Rightarrow> bool" where
  "curve_ok C \<longleftrightarrow> compressible_keys (cv_ParsePubKey C) (cv_SerializeUncompressed C)"

definition record_bytes :: "'k curve \<Rightarrow> int \<Rightarrow> bool \<Rightarrow> int \<Rightarrow> bytes \<Rightarrow> bytes" where
  "record_bytes C h coinbase amount script = vlq 0 (header_code h coinbase) @ txout_bytes (cv_ParsePubKey C) (word_of_int amount) script"

lemma header_code_back:
  assumes "0 \<le> h" "h < 2 ^ 31"
  shows "int32_of (uint (drop_bit 1 (header_code h c))) = h" "header_code h c AND 1 \<noteq> 0 \<longleftrightarrow> c"
proof -
  have bits: "bit (header_code h c) n \<longleftrightarrow> c \<and> n = 0 \<or> 0 < n \<and> n < 64 \<and> bit h (n - 1)" for n
  proof -
    have "bit (push_bit 1 (word_of_int h) :: 64 word) n \<longleftrightarrow> 0 < n \<and> n < 64 \<and> bit h (n - 1)"
      by (simp only: bit_push_bit_iff) (auto simp: bit_simps)
    then show ?thesis by (cases c) (auto simp only: header_code_def Let_def if_True if_False bit_or_iff bit_1_iff)
  qed
  show "header_code h c AND 1 \<noteq> 0 \<longleftrightarrow> c"
    using bits [of 0] by (simp add: and_one_eq bit_0 odd_iff_mod_2_eq_one)
  have "drop_bit 1 (header_code h c) = word_of_int h"
  proof (rule bit_word_eqI)
    fix n assume n: "n < LENGTH(64)"
    have "\<not> bit h 63" using assms by (simp add: bit_iff_odd)
    then have "bit h n \<Longrightarrow> n < 63" using n by (cases "n = 63") simp_all
    then show "bit (drop_bit 1 (header_code h c)) n = bit (word_of_int h :: 64 word) n"
      using n by (simp only: bit_drop_bit_eq bits comp_def) (auto simp: bit_simps)
  qed
  moreover have "uint (word_of_int h :: 64 word) = h" using assms by (simp add: unsigned_of_int take_bit_int_eq_self)
  ultimately have "uint (drop_bit 1 (header_code h c)) = h" by simp
  then show "int32_of (uint (drop_bit 1 (header_code h c))) = h" using assms by (simp add: int32_of_id)
qed


lemma word_amount:
  assumes "0 \<le> a" "9 * a + 9 < 2 ^ 64"
  shows "9 * unat (word_of_int a :: 64 word) + 9 < 2 ^ 64" "sint (word_of_int a :: 64 word) = a"
proof -
  have "a < 2 ^ 63" using assms by simp
  then have "uint (word_of_int a :: 64 word) = a" using assms by (simp add: unsigned_of_int take_bit_int_eq_self)
  then have "unat (word_of_int a :: 64 word) = nat a" by (simp add: unat_eq_nat_uint)
  then show "9 * unat (word_of_int a :: 64 word) + 9 < 2 ^ 64" using assms by simp
  show "sint (word_of_int a :: 64 word) = a" using assms \<open>a < 2 ^ 63\<close>
    by (simp add: signed_of_int signed_take_bit_int_eq_self)
qed

lemma decoding_simps [simp]: "decoding (Inr x) = Inr x" "encoding (Inr x) = Inr x" "corrupt (Inr y) = Inr y"
  by (simp_all add: decoding_def encoding_def corrupt_def)

definition record_size :: "'k curve \<Rightarrow> int \<Rightarrow> bool \<Rightarrow> int \<Rightarrow> bytes \<Rightarrow> nat" where
  "record_size C h coinbase amount script =
     serializeSizeVLQ (header_code h coinbase) + compressedTxOutSize (cv_ParsePubKey C) (word_of_int amount) script"

lemma length_record_bytes: "length (record_bytes C h cb amount script) = record_size C h cb amount script"
  by (simp add: record_bytes_def record_size_def length_vlq length_txout_bytes)

lemma record_size_pos: "0 < record_size C h cb amount script"
  using txout_bytes_nonempty [of "cv_ParsePubKey C" "word_of_int amount" script]
  by (simp add: record_size_def flip: length_txout_bytes)

lemma record_decodes:
  assumes "curve_ok C" "storable amount h script"
  shows "deserializeVLQ (record_bytes C h cb amount script @ rest) = (header_code h cb, serializeSizeVLQ (header_code h cb))"
    "serializeSizeVLQ (header_code h cb) < length (record_bytes C h cb amount script @ rest)"
    "decodeCompressedTxOut (cv_ParsePubKey C) (cv_SerializeUncompressed C)
       (drop (serializeSizeVLQ (header_code h cb)) (record_bytes C h cb amount script @ rest)) =
     Inr (word_of_int amount, script, int (compressedTxOutSize (cv_ParsePubKey C) (word_of_int amount) script))"
proof -
  show "deserializeVLQ (record_bytes C h cb amount script @ rest) = (header_code h cb, serializeSizeVLQ (header_code h cb))"
    by (simp add: record_bytes_def deserializeVLQ_vlq)
  show "serializeSizeVLQ (header_code h cb) < length (record_bytes C h cb amount script @ rest)"
    using txout_bytes_nonempty [of "cv_ParsePubKey C" "word_of_int amount" script]
    by (simp add: record_bytes_def length_vlq)
  show "decodeCompressedTxOut (cv_ParsePubKey C) (cv_SerializeUncompressed C)
       (drop (serializeSizeVLQ (header_code h cb)) (record_bytes C h cb amount script @ rest)) =
     Inr (word_of_int amount, script, int (compressedTxOutSize (cv_ParsePubKey C) (word_of_int amount) script))"
    using assms decodeCompressedTxOut_form [of "cv_ParsePubKey C" "cv_SerializeUncompressed C" "word_of_int amount" script rest]
      word_amount(1) [of amount]
    by (simp add: record_bytes_def length_vlq curve_ok_def storable_def)
qed

lemma putSpentTxOut_form:
  "spentTxOutSerializeSize C stxo \<le> length buf \<Longrightarrow>
   putSpentTxOut C buf stxo = Inr (record_bytes C (st_Height stxo) (st_IsCoinBase stxo) (st_Amount stxo) (st_PkScript stxo) @
     drop (spentTxOutSerializeSize C stxo) buf, spentTxOutSerializeSize C stxo)"
  using putCompressedTxOut_form [of "cv_ParsePubKey C" "word_of_int (st_Amount stxo)" "st_PkScript stxo"
      "drop (serializeSizeVLQ (spentTxOutHeaderCode stxo)) buf"]
  by (simp add: putSpentTxOut_def putVLQ_spec spentTxOutSerializeSize_def spentTxOutHeaderCode_def record_bytes_def length_vlq
      drop_drop_add add.commute)

definition stxo_bytes :: "'k curve \<Rightarrow> SpentTxOut \<Rightarrow> bytes" where
  "stxo_bytes C stxo = record_bytes C (st_Height stxo) (st_IsCoinBase stxo) (st_Amount stxo) (st_PkScript stxo)"

definition stxo_ok :: "SpentTxOut \<Rightarrow> bool" where
  "stxo_ok stxo \<longleftrightarrow> storable (st_Amount stxo) (st_Height stxo) (st_PkScript stxo)"

lemma length_stxo_bytes: "length (stxo_bytes C stxo) = spentTxOutSerializeSize C stxo"
  by (simp add: stxo_bytes_def length_record_bytes record_size_def spentTxOutSerializeSize_def spentTxOutHeaderCode_def)

lemma stxo_bytes_nonempty [simp]: "stxo_bytes C stxo \<noteq> []"
  using record_size_pos by (metis length_greater_0_conv length_record_bytes stxo_bytes_def)

lemma decodeSpentTxOut_form:
  assumes "curve_ok C" "stxo_ok stxo"
  shows "decodeSpentTxOut C (stxo_bytes C stxo @ rest) = Inr (stxo, int (length (stxo_bytes C stxo)))"
proof -
  have s: "storable (st_Amount stxo) (st_Height stxo) (st_PkScript stxo)" using assms by (simp add: stxo_ok_def)
  note d = record_decodes [OF assms(1) s, of "st_IsCoinBase stxo" rest]
  have h: "0 \<le> st_Height stxo" "st_Height stxo < 2 ^ 31" "0 \<le> st_Amount stxo" "9 * st_Amount stxo + 9 < 2 ^ 64"
    using s by (simp_all add: storable_def)
  have "stxo_bytes C stxo @ rest \<noteq> []" by simp
  then show ?thesis
    using d header_code_back [OF h(1,2)] word_amount(2) [OF h(3,4)]
    unfolding decodeSpentTxOut_def stxo_bytes_def
    by (simp add: Let_def length_record_bytes record_size_def del: length_append)
qed

lemma put_stxos_form:
  "offset + sum_list (map (spentTxOutSerializeSize C) stxos) \<le> length buf \<Longrightarrow>
   put_stxos C stxos buf offset =
     Inr (take offset buf @ concat (map (stxo_bytes C) stxos) @ drop (offset + sum_list (map (spentTxOutSerializeSize C) stxos)) buf)"
proof (induction stxos arbitrary: buf offset)
  case (Cons stxo stxos)
  let ?n = "spentTxOutSerializeSize C stxo"
  have "putSpentTxOut C (drop offset buf) stxo = Inr (stxo_bytes C stxo @ drop ?n (drop offset buf), ?n)"
    using Cons.prems putSpentTxOut_form [of C stxo "drop offset buf"] by (simp add: stxo_bytes_def)
  moreover have "put_stxos C stxos (take offset buf @ stxo_bytes C stxo @ drop ?n (drop offset buf)) (offset + ?n) =
      Inr ((take offset buf @ stxo_bytes C stxo) @ concat (map (stxo_bytes C) stxos) @
        drop (offset + ?n + sum_list (map (spentTxOutSerializeSize C) stxos)) buf)"
    using Cons.prems by (subst Cons.IH) (simp_all add: length_stxo_bytes add.assoc add.commute)
  ultimately show ?case by (simp add: add.assoc)
qed simp

lemma serializeSpendJournalEntry_form:
  "serializeSpendJournalEntry C stxos = Inr (concat (map (stxo_bytes C) (rev stxos)))"
proof -
  have "sum_list (map (spentTxOutSerializeSize C) (rev stxos)) = sum_list (map (spentTxOutSerializeSize C) stxos)"
    by (metis rev_map sum_list_rev)
  then show ?thesis by (simp add: serializeSpendJournalEntry_def put_stxos_form)
qed

lemma decode_stxos_form:
  "curve_ok C \<Longrightarrow> list_all stxo_ok stxos \<Longrightarrow> length ins = length stxos \<Longrightarrow>
   decode_stxos C ins (concat (map (stxo_bytes C) stxos)) acc = Inr (rev stxos @ acc)"
proof (induction stxos arbitrary: ins acc)
  case (Cons stxo stxos)
  then obtain txIn ins' where "ins = txIn # ins'" by (cases ins) auto
  with Cons show ?case by (simp add: decodeSpentTxOut_form)
qed simp

lemma spend_journal_decodes:
  assumes "curve_ok C" "list_all stxo_ok stxos" "length stxos = sum_list (map (length \<circ> tx_TxIn) txns)"
  shows "sbind (encoding (serializeSpendJournalEntry C stxos)) (\<lambda>b. deserializeSpendJournalEntry C b txns) = Inr stxos"
proof (cases stxos)
  case Nil
  with assms(3) show ?thesis by (simp add: serializeSpendJournalEntry_form deserializeSpendJournalEntry_def)
next
  case (Cons stxo rest)
  have "length (rev (concat (map tx_TxIn txns))) = length (rev stxos)"
    using assms(3) by (simp add: length_concat comp_def)
  moreover have "concat (map (stxo_bytes C) (rev stxos)) \<noteq> []" using Cons by (simp add: stxo_bytes_nonempty)
  ultimately show ?thesis using decode_stxos_form [OF assms(1), of "rev stxos"] assms(2)
    by (simp add: serializeSpendJournalEntry_form deserializeSpendJournalEntry_def)
qed

subsection \<open>Unspent outputs: round trips\<close>

definition entry_ok :: "UtxoEntry \<Rightarrow> bool" where
  "entry_ok e \<longleftrightarrow> storable (ue_amount e) (ue_blockHeight e) (ue_pkScript e)"

definition entry_bytes :: "'k curve \<Rightarrow> UtxoEntry \<Rightarrow> bytes" where
  "entry_bytes C e = record_bytes C (ue_blockHeight e) (ue_IsCoinBase e) (ue_amount e) (ue_pkScript e)"

text \<open>What is left of an entry in the database: the flags but for the coinbase flag are gone.\<close>

definition stored_entry :: "UtxoEntry \<Rightarrow> UtxoEntry" where
  "stored_entry e = e\<lparr>ue_packedFlags := (if ue_IsCoinBase e then tfCoinBase else 0)\<rparr>"

lemma serializeUtxoEntry_form: "serializeUtxoEntry C e = Inr (if IsSpent e then None else Some (entry_bytes C e))"
proof -
  let ?w = "header_code (ue_blockHeight e) (ue_IsCoinBase e)"
  let ?n = "compressedTxOutSize (cv_ParsePubKey C) (word_of_int (ue_amount e)) (ue_pkScript e)"
  have "putVLQ (replicate (serializeSizeVLQ ?w + ?n) 0) ?w = Inr (vlq 0 ?w @ replicate ?n 0, serializeSizeVLQ ?w)"
    by (simp add: putVLQ_spec)
  then show ?thesis
    by (simp add: serializeUtxoEntry_def utxoEntryHeaderCode_def entry_bytes_def record_bytes_def length_vlq putCompressedTxOut_form Let_def)
qed

lemma entry_bytes_nonempty [simp]: "entry_bytes C e \<noteq> []"
  using record_size_pos by (metis length_greater_0_conv length_record_bytes entry_bytes_def)

lemma deserializeUtxoEntry_form:
  assumes "curve_ok C" "entry_ok e"
  shows "deserializeUtxoEntry C (entry_bytes C e @ rest) = Inr (stored_entry e)"
proof -
  have s: "storable (ue_amount e) (ue_blockHeight e) (ue_pkScript e)" using assms by (simp add: entry_ok_def)
  note d = record_decodes [OF assms(1) s, of "ue_IsCoinBase e" rest]
  have h: "0 \<le> ue_blockHeight e" "ue_blockHeight e < 2 ^ 31" "0 \<le> ue_amount e" "9 * ue_amount e + 9 < 2 ^ 64"
    using s by (simp_all add: storable_def)
  show ?thesis
    using d header_code_back [OF h(1,2)] word_amount(2) [OF h(3,4)]
    unfolding deserializeUtxoEntry_def entry_bytes_def
    by (simp add: Let_def stored_entry_def del: length_append)
qed


subsection \<open>Keys\<close>

definition op_ok :: "OutPoint \<Rightarrow> bool" where
  "op_ok op \<longleftrightarrow> length (out_Hash op) = 32 \<and> out_Index op < 2 ^ 32"

lemma outpointKey_form: "outpointKey op = out_Hash op @ vlq 0 (of_nat (out_Index op))"
  by (simp add: outpointKey_def Let_def putVLQ_spec length_vlq)

lemma vlq_inject: "vlq 0 m = vlq 0 n \<Longrightarrow> m = n"
  by (metis append_Nil2 deserializeVLQ_vlq prod.inject)

lemma outpointKey_inject:
  assumes "op_ok p" "op_ok q" "outpointKey p = outpointKey q"
  shows "p = q"
proof -
  have "out_Hash p = out_Hash q" "(of_nat (out_Index p) :: 64 word) = of_nat (out_Index q)"
    using assms vlq_inject by (auto simp: outpointKey_form op_ok_def)
  moreover from this(2) have "out_Index p = out_Index q"
    using assms of_nat_eq_64 [of "out_Index p" "out_Index q"] by (simp add: op_ok_def)
  ultimately show ?thesis by (metis (full_types) OutPoint.equality old.unit.exhaust)
qed

text \<open>The order of the keys: first by hash.\<close>

lemma append_le_iff: "length a = length b \<Longrightarrow> a @ x \<le> b @ y \<longleftrightarrow> a < b \<or> a = b \<and> x \<le> (y :: bytes)"
  by (induction a b rule: list_induct2) auto

lemma zero_key_least: "outpointKey \<lparr>out_Hash = h, out_Index = 0\<rparr> \<le> h @ vlq 0 n"
proof -
  have "vlq 0 0 = [0 :: byte]" by code_simp
  moreover obtain b bs where "vlq 0 n = b # bs"
    using vlq_rec [of n 0] by (cases "vlq 0 n") auto
  ultimately show ?thesis by (cases "b = 0") (simp_all add: outpointKey_form append_le_iff word_neq_0_conv)
qed

text \<open>The first entry at or behind the least key of a hash belongs to the hash if any entry does.\<close>

lemma cursor_Seek_Some:
  assumes "cursor_Seek b key = Some (k, v)"
  shows "fmlookup b k = Some v \<and> key \<le> k \<and> (\<forall>k' v'. fmlookup b k' = Some v' \<and> key \<le> k' \<longrightarrow> k \<le> k')"
proof -
  let ?ks = "filter (\<lambda>k. key \<le> k) (sorted_list_of_fset (fmdom b))"
  obtain ks where ks: "?ks = k # ks" "fmlookup b k = Some v"
    using assms by (auto simp: cursor_Seek_def split: list.splits)
  have "sorted ?ks" by (intro sorted_wrt_filter) (simp add: sorted_list_of_fset.rep_eq)
  then have "\<forall>k' \<in> set ?ks. k \<le> k'" using ks(1) by auto
  moreover have "k \<in> set ?ks" using ks(1) by simp
  ultimately show ?thesis using ks(2) by (auto simp: fmdom'I dest: fmdomI)
qed

lemma cursor_Seek_None: "cursor_Seek b key = None \<Longrightarrow> fmlookup b k = Some v \<Longrightarrow> \<not> key \<le> k"
proof
  assume a: "cursor_Seek b key = None" "fmlookup b k = Some v" "key \<le> k"
  let ?ks = "filter (\<lambda>k. key \<le> k) (sorted_list_of_fset (fmdom b))"
  have "k \<in> set ?ks" using a by (auto dest: fmdomI)
  then obtain k' ks where ks: "?ks = k' # ks" by (cases ?ks) auto
  then have "k' \<in> set ?ks" by simp
  then have "k' |\<in>| fmdom b" by simp
  with a(1) ks show False by (auto simp: cursor_Seek_def fmlookup_dom_iff)
qed

definition utxo_keys :: "bucket \<Rightarrow> bool" where
  "utxo_keys b \<longleftrightarrow> (\<forall>k v. fmlookup b k = Some v \<longrightarrow> (\<exists>op. op_ok op \<and> k = outpointKey op))"

lemma fetch_by_hash:
  assumes "utxo_keys b" "length h = 32"
  shows "dbFetchUtxoEntryByHash C b h = Inr None \<longleftrightarrow> (\<forall>i. i < 2 ^ 32 \<longrightarrow> fmlookup b (outpointKey \<lparr>out_Hash = h, out_Index = i\<rparr>) = None)"
    "dbFetchUtxoEntryByHash C b h = Inr (Some e) \<Longrightarrow>
      \<exists>i < 2 ^ 32. \<exists>v. fmlookup b (outpointKey \<lparr>out_Hash = h, out_Index = i\<rparr>) = Some v \<and> deserializeUtxoEntry C v = Inr e"
proof -
  let ?key = "outpointKey \<lparr>out_Hash = h, out_Index = 0\<rparr>"
  have found: "\<exists>i < 2 ^ 32. k = outpointKey \<lparr>out_Hash = h, out_Index = i\<rparr>"
    if "fmlookup b k = Some v" "take 32 k = h" for k v
  proof -
    from that(1) assms(1) have "\<exists>op. op_ok op \<and> k = outpointKey op" unfolding utxo_keys_def by blast
    then obtain op where op: "op_ok op" "k = outpointKey op" by blast
    then have "out_Hash op = h" using that(2) by (simp add: outpointKey_form op_ok_def)
    with op show ?thesis by (intro exI [of _ "out_Index op"]) (simp add: op_ok_def outpointKey_form)
  qed
  have same: "take 32 k = h \<and> 32 \<le> length k"
    if a: "cursor_Seek b ?key = Some (k, v)" "fmlookup b (outpointKey \<lparr>out_Hash = h, out_Index = i\<rparr>) = Some w" for k v i w
  proof -
    note s = cursor_Seek_Some [OF a(1)]
    from s have "fmlookup b k = Some v" by blast
    then obtain op where op: "op_ok op" "k = outpointKey op" using assms(1) unfolding utxo_keys_def by blast
    have "?key \<le> outpointKey \<lparr>out_Hash = h, out_Index = i\<rparr>" using zero_key_least by (simp add: outpointKey_form)
    with s a(2) have le: "k \<le> outpointKey \<lparr>out_Hash = h, out_Index = i\<rparr>" "?key \<le> k" by auto
    have l: "length (out_Hash op) = length h" using op assms(2) by (simp add: op_ok_def)
    have "out_Hash op < h \<or> out_Hash op = h" "h < out_Hash op \<or> h = out_Hash op"
      using le l unfolding op(2) outpointKey_form by (auto simp: append_le_iff)
    then have "out_Hash op = h" by (meson less_asym)
    with op show ?thesis by (simp add: outpointKey_form op_ok_def)
  qed
  show "dbFetchUtxoEntryByHash C b h = Inr None \<longleftrightarrow> (\<forall>i. i < 2 ^ 32 \<longrightarrow> fmlookup b (outpointKey \<lparr>out_Hash = h, out_Index = i\<rparr>) = None)"
  proof
    assume n: "dbFetchUtxoEntryByHash C b h = Inr None"
    show "\<forall>i. i < 2 ^ 32 \<longrightarrow> fmlookup b (outpointKey \<lparr>out_Hash = h, out_Index = i\<rparr>) = None"
    proof (intro allI impI, rule ccontr)
      fix i :: nat
      assume "fmlookup b (outpointKey \<lparr>out_Hash = h, out_Index = i\<rparr>) \<noteq> None"
      then obtain w where w: "fmlookup b (outpointKey \<lparr>out_Hash = h, out_Index = i\<rparr>) = Some w" by blast
      moreover have "?key \<le> outpointKey \<lparr>out_Hash = h, out_Index = i\<rparr>" using zero_key_least by (simp add: outpointKey_form)
      ultimately obtain k v where "cursor_Seek b ?key = Some (k, v)"
        using cursor_Seek_None [of b ?key] by (metis option.exhaust surj_pair)
      with same [OF this w] n show False
        by (auto simp: dbFetchUtxoEntryByHash_def sbind_eq_Inr)
    qed
  next
    assume none: "\<forall>i. i < 2 ^ 32 \<longrightarrow> fmlookup b (outpointKey \<lparr>out_Hash = h, out_Index = i\<rparr>) = None"
    show "dbFetchUtxoEntryByHash C b h = Inr None"
    proof (cases "cursor_Seek b ?key")
      case (Some kv)
      then obtain k v where kv: "cursor_Seek b ?key = Some (k, v)" by (cases kv) auto
      then have "take 32 k \<noteq> h" using cursor_Seek_Some [OF kv] found [of k v] none by fastforce
      with kv show ?thesis by (simp add: dbFetchUtxoEntryByHash_def)
    qed (simp add: dbFetchUtxoEntryByHash_def)
  qed
  assume e: "dbFetchUtxoEntryByHash C b h = Inr (Some e)"
  then obtain k v where kv: "cursor_Seek b ?key = Some (k, v)" "take 32 k = h" "deserializeUtxoEntry C v = Inr e"
    by (auto simp: dbFetchUtxoEntryByHash_def sbind_eq_Inr split: option.splits if_splits)
  then show "\<exists>i < 2 ^ 32. \<exists>v. fmlookup b (outpointKey \<lparr>out_Hash = h, out_Index = i\<rparr>) = Some v \<and> deserializeUtxoEntry C v = Inr e"
    using found [of k v] cursor_Seek_Some [OF kv(1)] by auto
qed

subsection \<open>The coins of the database\<close>

definition stored_coins :: "'k curve \<Rightarrow> bucket \<Rightarrow> coins" where
  "stored_coins C b op =
     (if op_ok op then case dbFetchUtxoEntry C b op of Inr (Some e) \<Rightarrow> Some (coin_of e) | _ \<Rightarrow> None else None)"

lemma stored_entry_simps [simp]:
  "coin_of (stored_entry e) = coin_of e" "\<not> IsSpent (stored_entry e)" "\<not> isModified (stored_entry e)"
  by (auto simp: coin_of_def stored_entry_def ue_IsCoinBase_def IsSpent_def isModified_def tf_flags)

definition view_writes :: "'k curve \<Rightarrow> (OutPoint \<times> UtxoEntry option) list \<Rightarrow> (bytes \<times> bytes option) list" where
  "view_writes C es =
     map (\<lambda>(op, e). (outpointKey op, if IsSpent (the e) then None else Some (entry_bytes C (the e))))
       (filter (\<lambda>(op, e). e \<noteq> None \<and> isModified (the e)) es)"

lemma dbPutUtxoEntry_form:
  "dbPutUtxoEntry C op (Some e) b = (if IsSpent e then Inl dbAssert else Inr (fmupd (outpointKey op) (entry_bytes C e) b))"
  by (simp add: dbPutUtxoEntry_def serializeUtxoEntry_form)

lemma dbPutUtxoView_form:
  "dbPutUtxoView C es b = Inr (fold (store_write fmupd fmdrop) (view_writes C es) b)"
  by (induction C es b rule: dbPutUtxoView.induct)
    (auto simp: view_writes_def dbPutUtxoEntry_form store_write_def dbDeleteUtxoEntry_def)

lemma view_writes_keys:
  assumes "distinct (map fst es)" "list_all (\<lambda>(op, _). op_ok op) es"
  shows "distinct (map fst (view_writes C es))"
    "op_ok op \<Longrightarrow> map_of (view_writes C es) (outpointKey op) =
      (case map_of es op of
         Some (Some e) \<Rightarrow> if isModified e then Some (if IsSpent e then None else Some (entry_bytes C e)) else None
       | _ \<Rightarrow> None)"
proof -
  have "distinct (map fst (view_writes C es)) \<and> (op_ok op \<longrightarrow> map_of (view_writes C es) (outpointKey op) =
      (case map_of es op of
         Some (Some e) \<Rightarrow> if isModified e then Some (if IsSpent e then None else Some (entry_bytes C e)) else None
       | _ \<Rightarrow> None))" for op
    using assms
  proof (induction es)
    case (Cons x es)
    obtain p e where x: "x = (p, e)" by (cases x)
    have "p \<notin> fst ` set es" "op_ok p" using Cons.prems x by auto
    have "outpointKey p \<notin> fst ` set (view_writes C es)"
    proof
      assume "outpointKey p \<in> fst ` set (view_writes C es)"
      then obtain q e' where q: "(q, e') \<in> set es" "outpointKey p = outpointKey q" by (auto simp: view_writes_def)
      then have "op_ok q" using Cons.prems x by (auto simp: list_all_iff)
      with q \<open>op_ok p\<close> have "p = q" using outpointKey_inject by blast
      with q(1) \<open>p \<notin> fst ` set es\<close> show False by force
    qed
    moreover have "op_ok op \<Longrightarrow> outpointKey op = outpointKey p \<longleftrightarrow> op = p" using outpointKey_inject \<open>op_ok p\<close> by blast
    moreover have "view_writes C (x # es) = (if e \<noteq> None \<and> isModified (the e)
        then (outpointKey p, if IsSpent (the e) then None else Some (entry_bytes C (the e))) # view_writes C es else view_writes C es)"
      by (simp add: x view_writes_def)
    moreover have "distinct (map fst (view_writes C es))" using Cons x by simp
    moreover have "op_ok op \<Longrightarrow> map_of (view_writes C es) (outpointKey op) =
      (case map_of es op of
         Some (Some e) \<Rightarrow> if isModified e then Some (if IsSpent e then None else Some (entry_bytes C e)) else None
       | _ \<Rightarrow> None)" using Cons x by simp
    moreover have "map_of es p = None" using \<open>p \<notin> fst ` set es\<close> by (simp add: map_of_eq_None_iff)
    ultimately show ?case using x by (cases e; cases "op = p") auto
  qed (simp add: view_writes_def)
  then show "distinct (map fst (view_writes C es))"
    "op_ok op \<Longrightarrow> map_of (view_writes C es) (outpointKey op) =
      (case map_of es op of
         Some (Some e) \<Rightarrow> if isModified e then Some (if IsSpent e then None else Some (entry_bytes C e)) else None
       | _ \<Rightarrow> None)" by blast+
qed

definition entries_ok :: "(OutPoint \<times> UtxoEntry option) list \<Rightarrow> bool" where
  "entries_ok es \<longleftrightarrow> distinct (map fst es) \<and>
     list_all (\<lambda>(op, e). op_ok op \<and> (case e of None \<Rightarrow> True | Some e \<Rightarrow> entry_ok e)) es"

text \<open>Writing the entries of a view gives the coins of the view over those of the database.\<close>

lemma fetch_stored:
  "curve_ok C \<Longrightarrow> entry_ok e \<Longrightarrow> fmlookup b (outpointKey op) = Some (entry_bytes C e) \<Longrightarrow>
     dbFetchUtxoEntry C b op = Inr (Some (stored_entry e))"
  using deserializeUtxoEntry_form [of C e "[]"] by (simp add: dbFetchUtxoEntry_def)

lemma dbPutUtxoView_coins:
  assumes "curve_ok C" "entries_ok es" "op_ok op"
  shows "\<exists>b'. dbPutUtxoView C es b = Inr b' \<and>
    stored_coins C b' op = (case map_of es op of
      Some (Some e) \<Rightarrow> if isModified e then unspent (Some e) else stored_coins C b op | _ \<Rightarrow> stored_coins C b op)"
proof -
  let ?b = "fold (store_write fmupd fmdrop) (view_writes C es) b"
  have ok: "distinct (map fst es)" "list_all (\<lambda>(op, _). op_ok op) es"
    using assms(2) by (auto simp: entries_ok_def list_all_iff)
  have l: "fmlookup ?b (outpointKey op) = (case map_of es op of
      Some (Some e) \<Rightarrow> if isModified e then (if IsSpent e then None else Some (entry_bytes C e)) else fmlookup b (outpointKey op)
    | _ \<Rightarrow> fmlookup b (outpointKey op))"
    using bucket.get_writes [OF TrueI view_writes_keys(1) [OF ok], of C b "outpointKey op"] view_writes_keys(2) [OF ok assms(3), of C]
    by (auto split: option.splits)
  have "stored_coins C ?b op = (case map_of es op of
      Some (Some e) \<Rightarrow> if isModified e then unspent (Some e) else stored_coins C b op | _ \<Rightarrow> stored_coins C b op)"
  proof (cases "\<exists>e. map_of es op = Some (Some e) \<and> isModified e")
    case True
    then obtain e where e: "map_of es op = Some (Some e)" "isModified e" by blast
    then have "entry_ok e" using assms(2) by (auto simp: entries_ok_def list_all_iff dest!: map_of_SomeD)
    then show ?thesis using e l fetch_stored [OF assms(1), of e ?b op] assms(3)
      by (auto simp: stored_coins_def unspent_def dbFetchUtxoEntry_def)
  next
    case False
    then have "fmlookup ?b (outpointKey op) = fmlookup b (outpointKey op)" using l by (auto split: option.splits)
    with False show ?thesis by (auto simp: stored_coins_def dbFetchUtxoEntry_def split: option.splits)
  qed
  then show ?thesis by (simp add: dbPutUtxoView_form)
qed


text \<open>
  The comments on the keys say that a byte-wise iteration meets the outputs of a transaction in order. It does so only below index
  16512, where the encoding of the index grows to three bytes.\<close>

lemma outpointKey_out_of_order:
  "outpointKey \<lparr>out_Hash = h, out_Index = 16512\<rparr> < outpointKey \<lparr>out_Hash = h, out_Index = 16511\<rparr>"
proof -
  have "vlq 0 16512 = [0x80, 0x80, 0x00]" "vlq 0 16511 = [0xff, 0x7f]" by code_simp+
  then show ?thesis using append_le_iff [of h h] by (simp add: outpointKey_form less_le_not_le)
qed

subsection \<open>The database of the chain\<close>

record chainDB =
  db_blockIndex :: bucket
  db_hashIndex :: bucket
  db_heightIndex :: bucket
  db_statusIndex :: bucket
  db_vsizeIndex :: bucket
  db_spendJournal :: bucket
  db_utxoSet :: bucket
  db_meta :: bucket
  db_blocks :: "(hash, bytes) fmap"

text \<open>A transaction that fails changes nothing.\<close>

definition db_Update :: "(chainDB \<Rightarrow> db_error + chainDB) \<Rightarrow> chainDB \<Rightarrow> (db_error + unit) \<times> chainDB" where
  "db_Update f db = (case f db of Inl e \<Rightarrow> (Inl e, db) | Inr db' \<Rightarrow> (Inr (), db'))"

definition chainStateKeyName :: bytes where "chainStateKeyName = ascii ''chainstate''"
definition utxoStateConsistencyKeyName :: bytes where "utxoStateConsistencyKeyName = ascii ''utxostateconsistency''"
definition spendJournalVersionKeyName :: bytes where "spendJournalVersionKeyName = ascii ''spendjournalversion''"
definition utxoSetVersionKeyName :: bytes where "utxoSetVersionKeyName = ascii ''utxosetversion''"

definition le_uint :: "nat \<Rightarrow> bytes \<Rightarrow> db_error + int" where
  "le_uint n b = (if length b < n then Inl dbPanic else Inr (le_val (take n b)))"

definition dbFetchVersion :: "bytes \<Rightarrow> chainDB \<Rightarrow> db_error + int" where
  "dbFetchVersion key db = (case fmlookup (db_meta db) key of None \<Rightarrow> Inr 0 | Some serialized \<Rightarrow> le_uint 4 serialized)"

definition meta_Put :: "bytes \<Rightarrow> bytes \<Rightarrow> chainDB \<Rightarrow> chainDB" where
  "meta_Put key value db = db\<lparr>db_meta := fmupd key value (db_meta db)\<rparr>"

definition dbPutVersion :: "bytes \<Rightarrow> int \<Rightarrow> chainDB \<Rightarrow> chainDB" where
  "dbPutVersion key version db = meta_Put key (le_bytes 4 version) db"

definition dbFetchOrCreateVersion :: "bytes \<Rightarrow> int \<Rightarrow> chainDB \<Rightarrow> db_error + int \<times> chainDB" where
  "dbFetchOrCreateVersion key defaultVersion db =
     sbind (dbFetchVersion key db) (\<lambda>version.
       if version = 0 then Inr (defaultVersion, dbPutVersion key defaultVersion db) else Inr (version, db))"

subsection \<open>Spend journal entries\<close>

definition dbFetchSpendJournalEntry :: "'k curve \<Rightarrow> hash \<Rightarrow> MsgTx list \<Rightarrow> chainDB \<Rightarrow> db_error + SpentTxOut list" where
  "dbFetchSpendJournalEntry C blockHash transactions db =
     (case transactions of
        [] \<Rightarrow> Inl dbPanic
      | _ # blockTxns \<Rightarrow>
          corrupt (deserializeSpendJournalEntry C
            (case fmlookup (db_spendJournal db) blockHash of None \<Rightarrow> [] | Some serialized \<Rightarrow> serialized) blockTxns))"

definition dbPutSpendJournalEntry :: "'k curve \<Rightarrow> hash \<Rightarrow> SpentTxOut list \<Rightarrow> chainDB \<Rightarrow> db_error + chainDB" where
  "dbPutSpendJournalEntry C blockHash stxos db =
     sbind (encoding (serializeSpendJournalEntry C stxos)) (\<lambda>serialized.
       Inr (db\<lparr>db_spendJournal := fmupd blockHash serialized (db_spendJournal db)\<rparr>))"

definition dbRemoveSpendJournalEntry :: "hash \<Rightarrow> chainDB \<Rightarrow> chainDB" where
  "dbRemoveSpendJournalEntry blockHash db = db\<lparr>db_spendJournal := fmdrop blockHash (db_spendJournal db)\<rparr>"

fun dbPruneSpendJournalEntry :: "hash list \<Rightarrow> chainDB \<Rightarrow> chainDB" where
  "dbPruneSpendJournalEntry [] db = db"
| "dbPruneSpendJournalEntry (blockHash # blockHashes) db =
     dbPruneSpendJournalEntry blockHashes (dbRemoveSpendJournalEntry blockHash db)"

subsection \<open>Heights and hashes of the main chain\<close>

definition dbPutBlockIndex :: "hash \<Rightarrow> int \<Rightarrow> chainDB \<Rightarrow> chainDB" where
  "dbPutBlockIndex h height db =
     (let serializedHeight = le_bytes 4 height
      in db\<lparr>db_hashIndex := fmupd h serializedHeight (db_hashIndex db),
            db_heightIndex := fmupd serializedHeight h (db_heightIndex db)\<rparr>)"

definition dbRemoveBlockIndex :: "hash \<Rightarrow> int \<Rightarrow> chainDB \<Rightarrow> chainDB" where
  "dbRemoveBlockIndex h height db =
     db\<lparr>db_hashIndex := fmdrop h (db_hashIndex db), db_heightIndex := fmdrop (le_bytes 4 height) (db_heightIndex db)\<rparr>"

definition dbFetchHeightByHash :: "hash \<Rightarrow> chainDB \<Rightarrow> db_error + int" where
  "dbFetchHeightByHash h db =
     (case fmlookup (db_hashIndex db) h of
        None \<Rightarrow> Inl errNotInMainChain
      | Some serializedHeight \<Rightarrow> sbind (le_uint 4 serializedHeight) (\<lambda>n. Inr (int32_of n)))"

definition dbFetchHashByHeight :: "int \<Rightarrow> chainDB \<Rightarrow> db_error + hash" where
  "dbFetchHashByHeight height db =
     (case fmlookup (db_heightIndex db) (le_bytes 4 height) of
        None \<Rightarrow> Inl errNotInMainChain
      | Some hashBytes \<Rightarrow> Inr (take 32 (hashBytes @ replicate 32 0)))"

subsection \<open>The best state\<close>

record bestChainState =
  bs_hash :: hash
  bs_height :: nat
  bs_totalTxns :: nat
  bs_workSum :: int

text \<open>\<open>Bytes\<close> and \<open>SetBytes\<close> of a big integer: the bytes of the absolute value, the most significant first.\<close>

definition big_Bytes :: "int \<Rightarrow> bytes" where "big_Bytes n = rev (le_digits \<bar>n\<bar>)"
definition big_SetBytes :: "bytes \<Rightarrow> int" where "big_SetBytes b = le_val (rev b)"

definition serializeBestChainState :: "bestChainState \<Rightarrow> bytes" where
  "serializeBestChainState state =
     (let workSumBytes = big_Bytes (bs_workSum state); workSumBytesLen = length workSumBytes
      in take 32 (bs_hash state) @ le_bytes 4 (int (bs_height state)) @ le_bytes 8 (int (bs_totalTxns state)) @
         le_bytes 4 (int workSumBytesLen) @ workSumBytes)"

definition deserializeBestChainState :: "bytes \<Rightarrow> db_error + bestChainState" where
  "deserializeBestChainState serializedData =
     (if length serializedData < 32 + 16 then Inl dbCorruption
      else
        let height = nat (le_val (take 4 (drop 32 serializedData)));
            totalTxns = nat (le_val (take 8 (drop 36 serializedData)));
            workSumBytesLen = le_val (take 4 (drop 44 serializedData))
        in if uint32_of (int (length (drop 48 serializedData))) < workSumBytesLen then Inl dbCorruption
           else
             sbind (encoding (go_slice serializedData 48 (uint32_of (48 + workSumBytesLen)))) (\<lambda>workSumBytes.
               Inr \<lparr>bs_hash = take 32 serializedData, bs_height = height, bs_totalTxns = totalTxns,
                    bs_workSum = big_SetBytes workSumBytes\<rparr>))"

record BestState =
  be_Hash :: hash
  be_Height :: int
  be_Bits :: "32 word"
  be_BlockSize :: int
  be_BlockVsize :: int
  be_NumTxns :: nat
  be_TotalTxns :: nat
  be_MedianTime :: int
  be_BlockTime :: int

definition newBestState :: "blockNode \<Rightarrow> int \<Rightarrow> int \<Rightarrow> nat \<Rightarrow> nat \<Rightarrow> int \<Rightarrow> int \<Rightarrow> BestState" where
  "newBestState node blockSize blockVsize numTxns totalTxns medianTime blockTime =
     \<lparr>be_Hash = bn_hash node, be_Height = bn_height node, be_Bits = bn_bits node, be_BlockSize = blockSize,
      be_BlockVsize = blockVsize, be_NumTxns = numTxns, be_TotalTxns = totalTxns, be_MedianTime = medianTime,
      be_BlockTime = blockTime\<rparr>"

definition dbPutBestState :: "BestState \<Rightarrow> int \<Rightarrow> chainDB \<Rightarrow> chainDB" where
  "dbPutBestState snapshot workSum db =
     meta_Put chainStateKeyName
       (serializeBestChainState
         \<lparr>bs_hash = be_Hash snapshot, bs_height = nat (uint32_of (be_Height snapshot)), bs_totalTxns = be_TotalTxns snapshot,
          bs_workSum = workSum\<rparr>) db"

definition dbPutUtxoStateConsistency :: "hash \<Rightarrow> chainDB \<Rightarrow> chainDB" where
  "dbPutUtxoStateConsistency h db = meta_Put utxoStateConsistencyKeyName h db"

definition dbFetchUtxoStateConsistency :: "chainDB \<Rightarrow> bytes option" where
  "dbFetchUtxoStateConsistency db = fmlookup (db_meta db) utxoStateConsistencyKeyName"

subsection \<open>Blocks\<close>

text \<open>A block as the chain handles it: the message and the height that was set.\<close>

record utilBlock =
  ub_MsgBlock :: MsgBlock
  ub_Height :: int

definition BlockHeightUnknown :: int where "BlockHeightUnknown = - 1"

abbreviation ub_header :: "utilBlock \<Rightarrow> BlockHeader" where "ub_header b \<equiv> mh_BlockHeader (mb_MsgHeader (ub_MsgBlock b))"
abbreviation ub_Transactions :: "utilBlock \<Rightarrow> MsgTx list" where "ub_Transactions b \<equiv> mb_Transactions (ub_MsgBlock b)"

definition block_data :: "utilBlock \<Rightarrow> blockData" where
  "block_data b = \<lparr>bk_Header = ub_header b, bk_Transactions = ub_Transactions b, bk_Height = ub_Height b\<rparr>"

definition DBBlockFromBytes :: "bytes \<Rightarrow> db_error + MsgBlock \<times> bytes" where
  "DBBlockFromBytes blockBytes =
     (case block_Deserialize blockBytes of
        Inl wirePanic \<Rightarrow> Inl dbPanic
      | Inl _ \<Rightarrow> Inl dbError
      | Inr (msgBlock, rest) \<Rightarrow>
          let trailing = length rest
          in Inr (msgBlock, if trailing > 0 then take (length blockBytes - trailing) blockBytes else blockBytes))"

definition FetchBlock :: "hash \<Rightarrow> chainDB \<Rightarrow> db_error + bytes" where
  "FetchBlock h db = (case fmlookup (db_blocks db) h of None \<Rightarrow> Inl dbBlockNotFound | Some b \<Rightarrow> Inr b)"

definition HasBlock :: "hash \<Rightarrow> chainDB \<Rightarrow> bool" where
  "HasBlock h db \<longleftrightarrow> fmlookup (db_blocks db) h \<noteq> None"

definition StoreBlock :: "hash \<Rightarrow> bytes \<Rightarrow> chainDB \<Rightarrow> db_error + chainDB" where
  "StoreBlock h b db = (if HasBlock h db then Inl dbBlockExists else Inr (db\<lparr>db_blocks := fmupd h b (db_blocks db)\<rparr>))"

definition dbFetchBlockByNode :: "blockNode \<Rightarrow> chainDB \<Rightarrow> db_error + utilBlock" where
  "dbFetchBlockByNode node db =
     sbind (FetchBlock (bn_hash node) db) (\<lambda>blockBytes.
     sbind (DBBlockFromBytes blockBytes) (\<lambda>(msgBlock, _).
       Inr \<lparr>ub_MsgBlock = msgBlock, ub_Height = bn_height node\<rparr>))"

definition dbStoreBlockStatus :: "hash \<Rightarrow> byte \<Rightarrow> chainDB \<Rightarrow> chainDB" where
  "dbStoreBlockStatus blockHash status db = db\<lparr>db_statusIndex := fmupd blockHash [status] (db_statusIndex db)\<rparr>"

definition dbFetchBlockStatus :: "hash \<Rightarrow> chainDB \<Rightarrow> db_error + byte" where
  "dbFetchBlockStatus blockHash db =
     (case fmlookup (db_statusIndex db) blockHash of
        None \<Rightarrow> Inl dbError
      | Some [] \<Rightarrow> Inl dbPanic
      | Some (status # _) \<Rightarrow> Inr status)"

definition dbStoreBlockVsize :: "hash \<Rightarrow> int \<Rightarrow> chainDB \<Rightarrow> chainDB" where
  "dbStoreBlockVsize blockHash vsize db = db\<lparr>db_vsizeIndex := fmupd blockHash (le_bytes 8 vsize) (db_vsizeIndex db)\<rparr>"

definition dbFetchBlockVsize :: "hash \<Rightarrow> chainDB \<Rightarrow> db_error + int" where
  "dbFetchBlockVsize blockHash db =
     (case fmlookup (db_vsizeIndex db) blockHash of
        None \<Rightarrow> Inl dbError
      | Some vsizeBytes \<Rightarrow> if length vsizeBytes \<noteq> 8 then Inl dbError else Inr (int64_of (le_val vsizeBytes)))"

definition dbFetchCertificate :: "hash \<Rightarrow> chainDB \<Rightarrow> db_error + BlockCertificate option" where
  "dbFetchCertificate blockHash db =
     sbind (FetchBlock blockHash db) (\<lambda>blockBytes.
       case block_Deserialize blockBytes of
         Inl wirePanic \<Rightarrow> Inl dbPanic
       | Inl _ \<Rightarrow> Inl dbError
       | Inr (msgBlock, _) \<Rightarrow> Inr (mh_MsgCertificate (mb_MsgHeader msgBlock)))"

definition blockIndexKey :: "hash \<Rightarrow> nat \<Rightarrow> bytes" where
  "blockIndexKey blockHash blockHeight = rev (le_bytes 4 (int blockHeight)) @ take 32 blockHash"

definition dbStoreBlockHeader :: "(bytes \<Rightarrow> hash) \<Rightarrow> BlockHeader \<Rightarrow> nat \<Rightarrow> chainDB \<Rightarrow> chainDB" where
  "dbStoreBlockHeader dh blockHeader height db =
     db\<lparr>db_blockIndex := fmupd (blockIndexKey (BlockHash dh blockHeader) height) (writeBlockHeaderBuf blockHeader) (db_blockIndex db)\<rparr>"

definition header_of_bytes :: "bytes \<Rightarrow> db_error + BlockHeader" where
  "header_of_bytes value = (case readBlockHeaderBuf value of Inl _ \<Rightarrow> Inl dbError | Inr (header, _) \<Rightarrow> Inr header)"

definition dbFetchBlockHeader :: "hash \<Rightarrow> nat \<Rightarrow> chainDB \<Rightarrow> db_error + BlockHeader" where
  "dbFetchBlockHeader blockHash height db =
     (case fmlookup (db_blockIndex db) (blockIndexKey blockHash height) of
        None \<Rightarrow> Inl dbError
      | Some value \<Rightarrow> header_of_bytes value)"

definition deserializeBlockRow :: "bytes \<Rightarrow> db_error + BlockHeader \<times> byte" where
  "deserializeBlockRow blockRow =
     (case readBlockHeaderBuf blockRow of
        Inl _ \<Rightarrow> Inl dbError
      | Inr (header, rest) \<Rightarrow> (case rest of [] \<Rightarrow> Inl dbError | statusByte # _ \<Rightarrow> Inr (header, statusByte)))"

definition statusDataStored :: byte where "statusDataStored = 1"
definition statusValid :: byte where "statusValid = 2"
definition statusValidateFailed :: byte where "statusValidateFailed = 4"
definition statusNone :: byte where "statusNone = 0"

text \<open>The header, the status, the size and, unless it is there, the block. Bytes that cannot be encoded are an error.\<close>

definition dbStoreBlock :: "(bytes \<Rightarrow> hash) \<Rightarrow> utilBlock \<Rightarrow> int \<Rightarrow> chainDB \<Rightarrow> db_error + chainDB" where
  "dbStoreBlock dh blk vsize db =
     (if ub_Height blk = BlockHeightUnknown then Inl dbError
      else
        let h = BlockHash dh (ub_header blk);
            db = dbStoreBlockHeader dh (ub_header blk) (nat (uint32_of (ub_Height blk))) db;
            db = dbStoreBlockStatus h statusDataStored db;
            db = dbStoreBlockVsize h vsize db
        in if HasBlock h db then Inr db
           else (case block_Serialize (ub_MsgBlock blk) of Inl _ \<Rightarrow> Inl dbError | Inr b \<Rightarrow> StoreBlock h b db))"


subsection \<open>Round trips of the records\<close>

lemma spend_journal_fetch:
  assumes "curve_ok C" "list_all stxo_ok stxos" "length stxos = sum_list (map (length \<circ> tx_TxIn) txs)"
  shows "\<exists>db'. dbPutSpendJournalEntry C h stxos db = Inr db' \<and> dbFetchSpendJournalEntry C h (cb # txs) db' = Inr stxos"
  using spend_journal_decodes [OF assms]
  by (auto simp: dbPutSpendJournalEntry_def dbFetchSpendJournalEntry_def serializeSpendJournalEntry_form)

lemma best_state_decodes:
  assumes "length (bs_hash st) = 32" "bs_height st < 2 ^ 32" "bs_totalTxns st < 2 ^ 64" "0 \<le> bs_workSum st"
    "length (big_Bytes (bs_workSum st)) < 2 ^ 31"
  shows "deserializeBestChainState (serializeBestChainState st) = Inr st"
proof -
  let ?w = "big_Bytes (bs_workSum st)"
  let ?d = "serializeBestChainState st"
  have d: "?d = bs_hash st @ le_bytes 4 (int (bs_height st)) @ le_bytes 8 (int (bs_totalTxns st)) @ le_bytes 4 (int (length ?w)) @ ?w"
    using assms(1) by (simp add: serializeBestChainState_def Let_def)
  have parts: "take 32 ?d = bs_hash st" "take 4 (drop 32 ?d) = le_bytes 4 (int (bs_height st))"
    "take 8 (drop 36 ?d) = le_bytes 8 (int (bs_totalTxns st))" "take 4 (drop 44 ?d) = le_bytes 4 (int (length ?w))"
    "drop 48 ?d = ?w" "length ?d = 48 + length ?w"
    using assms(1) by (simp_all add: d)
  have len: "le_val (le_bytes 4 (int (length ?w))) = int (length ?w)" using assms(5) by (simp add: le_val_le_bytes)
  have u: "uint32_of (int (length ?w)) = int (length ?w)" "uint32_of (48 + int (length ?w)) = 48 + int (length ?w)"
    using assms(5) by (simp_all add: uint32_of_def take_bit_int_eq_self)
  have w: "big_SetBytes ?w = bs_workSum st" using assms(4) by (simp add: big_SetBytes_def big_Bytes_def le_val_le_digits)
  have "go_slice ?d 48 (48 + int (length ?w)) = Inr ?w"
    using parts(5,6) by (simp add: go_slice_def)
  then show ?thesis
    using assms parts len u w nat_le_val_le_bytes [of "bs_height st" 4] nat_le_val_le_bytes [of "bs_totalTxns st" 8]
    by (simp add: deserializeBestChainState_def Let_def)
qed

lemma block_index_entries:
  assumes "length h = 32" "0 \<le> height" "height < 2 ^ 31"
  shows "dbFetchHeightByHash h (dbPutBlockIndex h height db) = Inr height"
    "dbFetchHashByHeight height (dbPutBlockIndex h height db) = Inr h"
    "dbFetchHeightByHash h (dbRemoveBlockIndex h height db) = Inl errNotInMainChain"
    "dbFetchHashByHeight height (dbRemoveBlockIndex h height db) = Inl errNotInMainChain"
  using assms int32_of_le_bytes [of height]
  by (simp_all add: dbFetchHeightByHash_def dbFetchHashByHeight_def dbPutBlockIndex_def dbRemoveBlockIndex_def Let_def le_uint_def)

text \<open>A stored block is read back with the height of its node.\<close>

definition holds_block :: "chainDB \<Rightarrow> hash \<Rightarrow> MsgBlock \<Rightarrow> bool" where
  "holds_block db h msg \<longleftrightarrow> block_ok msg \<and> (\<exists>b r. block_Serialize msg = Inr b \<and> fmlookup (db_blocks db) h = Some (b @ r))"

lemma holds_block_fetch:
  assumes "holds_block db (bn_hash node) msg"
  shows "dbFetchBlockByNode node db = Inr \<lparr>ub_MsgBlock = msg, ub_Height = bn_height node\<rparr>"
proof -
  obtain b r where "block_ok msg" "block_Serialize msg = Inr b" "fmlookup (db_blocks db) (bn_hash node) = Some (b @ r)"
    using assms by (auto simp: holds_block_def)
  moreover from this(1,2) have "block_Deserialize (b @ r) = Inr (msg, r)" using msg_block.mdec_iff by blast
  ultimately show ?thesis by (simp add: dbFetchBlockByNode_def FetchBlock_def DBBlockFromBytes_def Let_def)
qed

lemma dbStoreBlock_holds:
  assumes "dbStoreBlock dh blk vsize db = Inr db'" "block_ok (ub_MsgBlock blk)" "\<not> HasBlock (BlockHash dh (ub_header blk)) db"
  shows "holds_block db' (BlockHash dh (ub_header blk)) (ub_MsgBlock blk)"
  using assms
  by (auto simp: dbStoreBlock_def Let_def holds_block_def StoreBlock_def HasBlock_def dbStoreBlockHeader_def dbStoreBlockStatus_def
      dbStoreBlockVsize_def split: if_splits sum.splits)

lemma dbStoreBlock_frame:
  assumes "dbStoreBlock dh blk vsize db = Inr db'"
  shows "db_hashIndex db' = db_hashIndex db" "db_heightIndex db' = db_heightIndex db" "db_spendJournal db' = db_spendJournal db"
    "db_utxoSet db' = db_utxoSet db" "db_meta db' = db_meta db"
    "h \<noteq> BlockHash dh (ub_header blk) \<Longrightarrow> fmlookup (db_blocks db') h = fmlookup (db_blocks db) h"
  using assms
  by (auto simp: dbStoreBlock_def Let_def StoreBlock_def HasBlock_def dbStoreBlockHeader_def dbStoreBlockStatus_def
      dbStoreBlockVsize_def split: if_splits sum.splits)

lemma dbStoreBlock_header:
  assumes "dbStoreBlock dh blk vsize db = Inr db'" "header_ok (ub_header blk)" "- (2 ^ 63) \<le> vsize" "vsize < 2 ^ 63"
  shows "dbFetchBlockHeader (BlockHash dh (ub_header blk)) (nat (uint32_of (ub_Height blk))) db' = Inr (ub_header blk)"
    "dbFetchBlockStatus (BlockHash dh (ub_header blk)) db' = Inr statusDataStored"
    "dbFetchBlockVsize (BlockHash dh (ub_header blk)) db' = Inr vsize"
  using assms block_header.dec_iff [of "writeBlockHeaderBuf (ub_header blk)" "ub_header blk" "[]"] int64_of_le_bytes [of vsize]
  by (auto simp: dbStoreBlock_def Let_def StoreBlock_def HasBlock_def dbStoreBlockHeader_def dbStoreBlockStatus_def dbStoreBlockVsize_def
      dbFetchBlockHeader_def dbFetchBlockStatus_def dbFetchBlockVsize_def header_of_bytes_def split: if_splits sum.splits)


subsection \<open>Properties\<close>

text \<open>A curve without keys, so that no script is compressed as a key.\<close>

definition no_curve :: "unit curve" where
  "no_curve = \<lparr>cv_ParsePubKey = (\<lambda>_. None), cv_SerializeUncompressed = (\<lambda>_. [])\<rparr>"

lemma no_curve_ok: "curve_ok no_curve"
  by (simp add: curve_ok_def compressible_keys_def no_curve_def)

text \<open>
  C36. Writing a view to the database refines the coins: if the entries of the view that were not modified agree with the database,
  the write succeeds, whatever the order in which the entries are visited, and the database then holds exactly the coins that
  the view stood for over the old ones.\<close>

theorem utxo_store_refines:
  assumes "curve_ok C" "entries_ok es" "uv_entries view = map_of es"
    "\<forall>op e. map_of es op = Some e \<and> \<not> (\<exists>x. e = Some x \<and> isModified x) \<longrightarrow> unspent e = stored_coins C b op"
  shows "\<exists>b'. dbPutUtxoView C es b = Inr b' \<and> (\<forall>op. op_ok op \<longrightarrow> stored_coins C b' op = view_coins (stored_coins C b) view op)"
proof -
  obtain b' where b': "dbPutUtxoView C es b = Inr b'" by (simp add: dbPutUtxoView_form)
  have "stored_coins C b' op = view_coins (stored_coins C b) view op" if "op_ok op" for op
    using dbPutUtxoView_coins [OF assms(1,2) that, of b] b' assms(3,4)
    by (cases "map_of es op"; cases "the (map_of es op)") (auto simp: view_coins_def unspent_def dest: spec2)
  with b' show ?thesis by blast
qed

definition empty_db :: chainDB where
  "empty_db = \<lparr>db_blockIndex = fmempty, db_hashIndex = fmempty, db_heightIndex = fmempty, db_statusIndex = fmempty, db_vsizeIndex = fmempty,
     db_spendJournal = fmempty, db_utxoSet = fmempty, db_meta = fmempty, db_blocks = fmempty\<rparr>"

definition stored_op :: OutPoint where "stored_op = \<lparr>out_Hash = replicate 32 1, out_Index = 300\<rparr>"

definition stored_sample :: "(OutPoint \<times> UtxoEntry option) list" where
  "stored_sample = [(stored_op, Some \<lparr>ue_amount = 5000, ue_pkScript = [0x51], ue_blockHeight = 7, ue_packedFlags = tfModified OR tfCoinBase\<rparr>)]"

theorem utxo_store_refines_witness:
  "\<exists>b'. dbPutUtxoView no_curve stored_sample fmempty = Inr b' \<and>
     stored_coins no_curve b' stored_op = Some \<lparr>co_amount = 5000, co_pkScript = [0x51], co_height = 7, co_coinbase = True\<rparr>"
proof -
  have "entries_ok stored_sample"
    by (simp add: entries_ok_def stored_sample_def op_ok_def stored_op_def entry_ok_def storable_def)
  moreover have "isModified \<lparr>ue_amount = 5000, ue_pkScript = [0x51], ue_blockHeight = 7, ue_packedFlags = tfModified OR tfCoinBase\<rparr>"
    by (simp add: isModified_def tf_flags)
  then have "\<forall>op e. map_of stored_sample op = Some e \<and> \<not> (\<exists>x. e = Some x \<and> isModified x) \<longrightarrow> unspent e = stored_coins no_curve fmempty op"
    by (simp add: stored_sample_def)
  ultimately obtain b' where b': "dbPutUtxoView no_curve stored_sample fmempty = Inr b'"
      "\<forall>op. op_ok op \<longrightarrow> stored_coins no_curve b' op =
        view_coins (stored_coins no_curve fmempty) \<lparr>uv_entries = map_of stored_sample, uv_bestHash = []\<rparr> op"
    using utxo_store_refines [OF no_curve_ok, of stored_sample "\<lparr>uv_entries = map_of stored_sample, uv_bestHash = []\<rparr>" fmempty] by auto
  then have "stored_coins no_curve b' stored_op = unspent (the (map_of stored_sample stored_op))"
    by (simp add: op_ok_def stored_op_def view_coins_def stored_sample_def)
  then show ?thesis using b'(1)
    by (simp add: stored_sample_def unspent_def IsSpent_def coin_of_def ue_IsCoinBase_def tf_flags)
qed

text \<open>
  C37. The spend journal gives back what it was given: the outputs that a block spends, in the order in which they were spent, although the
  record does not say how many they are and holds them in the reverse order.\<close>

theorem spend_journal_roundtrip:
  assumes "curve_ok C" "list_all stxo_ok stxos" "length stxos = sum_list (map (length \<circ> tx_TxIn) txs)"
  shows "\<exists>db'. dbPutSpendJournalEntry C h stxos db = Inr db' \<and> dbFetchSpendJournalEntry C h (cb # txs) db' = Inr stxos \<and>
    dbFetchSpendJournalEntry C h (cb # txs) (dbRemoveSpendJournalEntry h db') = (if stxos = [] then Inr [] else Inl dbAssert)"
proof -
  have empty: "sum_list (map (length \<circ> tx_TxIn) txs) \<noteq> 0 \<longleftrightarrow> stxos \<noteq> []" using assms(3) by (metis length_0_conv)
  have "dbFetchSpendJournalEntry C h (cb # txs) (dbRemoveSpendJournalEntry h db') = (if stxos = [] then Inr [] else Inl dbAssert)" for db'
    unfolding dbFetchSpendJournalEntry_def dbRemoveSpendJournalEntry_def deserializeSpendJournalEntry_def Let_def list.case empty
    by (simp add: corrupt_def)
  with spend_journal_fetch [OF assms] show ?thesis by blast
qed

theorem spend_journal_roundtrip_witness:
  "\<exists>db'. dbPutSpendJournalEntry no_curve [7] [\<lparr>st_Amount = 6, st_PkScript = [], st_Height = 4, st_IsCoinBase = True\<rparr>,
       \<lparr>st_Amount = 70000, st_PkScript = [1, 2], st_Height = 5, st_IsCoinBase = False\<rparr>] empty_db = Inr db' \<and>
     dbFetchSpendJournalEntry no_curve [7] [moving_coinbase, moving_tx, moving_tx] db' =
       Inr [\<lparr>st_Amount = 6, st_PkScript = [], st_Height = 4, st_IsCoinBase = True\<rparr>,
            \<lparr>st_Amount = 70000, st_PkScript = [1, 2], st_Height = 5, st_IsCoinBase = False\<rparr>]"
  using spend_journal_roundtrip [OF no_curve_ok, of "[\<lparr>st_Amount = 6, st_PkScript = [], st_Height = 4, st_IsCoinBase = True\<rparr>,
       \<lparr>st_Amount = 70000, st_PkScript = [1, 2], st_Height = 5, st_IsCoinBase = False\<rparr>]" "[moving_tx, moving_tx]" "[7]" empty_db moving_coinbase]
  by (auto simp: stxo_ok_def storable_def moving_tx_def)

end
