(* ===== verification/Utxo_Cache.thy ===== *)
theory Utxo_Cache
  imports Size_Helper Chain_Store "HOL-Library.Product_Lexorder"
begin

text \<open>
  The cache of unspent outputs (\<^verbatim>\<open>node/blockchain/utxocache.go\<close>): the slice of maps whose memory is bounded, fetching
  through it, connecting blocks to it and flushing it. The map slice is a keyed store. The coins behind the cache are what it
  says, and where it says nothing what the database says; the lemmas show that fetching keeps them, that connecting a block changes
  them as the ledger does, and that a flush keeps them and leaves them in the database. Times are whole seconds, and the
  logarithm that \<^verbatim>\<open>math.Log2\<close> computes is a parameter.
\<close>

subsection \<open>The map slice\<close>

text \<open>
  The maps and their capacities are two slices of the same length that grow together, here one list of pairs. A map
  takes an outpoint to an entry, or to nil for an output that the database does not have.\<close>

type_synonym utxoMap = "(OutPoint, UtxoEntry option) fmap"

record mapSlice =
  ms_maps :: "(utxoMap \<times> int) list"
  ms_maxTotalMemoryUsage :: uintptr

definition ms_length :: "mapSlice \<Rightarrow> nat" where
  "ms_length ms = (\<Sum>(m, _) \<leftarrow> ms_maps ms. size (fmdom m))"

definition ms_size :: "mapSlice \<Rightarrow> int" where
  "ms_size ms = (\<Sum>(_, num) \<leftarrow> ms_maps ms. calculateRoughMapSize num (of_nat bucketSize))"

fun get_maps :: "(utxoMap \<times> int) list \<Rightarrow> OutPoint \<Rightarrow> UtxoEntry option option" where
  "get_maps [] op = None"
| "get_maps ((m, _) # ms) op = (case fmlookup m op of Some entry \<Rightarrow> Some entry | None \<Rightarrow> get_maps ms op)"

definition ms_get :: "mapSlice \<Rightarrow> OutPoint \<Rightarrow> UtxoEntry option option" where
  "ms_get ms op = get_maps (ms_maps ms) op"

text \<open>Overwriting the key where it is, and inserting it into the first map with room.\<close>

fun put_existing :: "OutPoint \<Rightarrow> UtxoEntry option \<Rightarrow> (utxoMap \<times> int) list \<Rightarrow> (utxoMap \<times> int) list option" where
  "put_existing op entry [] = None"
| "put_existing op entry ((m, num) # ms) =
     (if fmlookup m op \<noteq> None then Some ((fmupd op entry m, num) # ms)
      else map_option ((#) (m, num)) (put_existing op entry ms))"

fun put_room :: "OutPoint \<Rightarrow> UtxoEntry option \<Rightarrow> (utxoMap \<times> int) list \<Rightarrow> (utxoMap \<times> int) list option" where
  "put_room op entry [] = None"
| "put_room op entry ((m, maxNum) # ms) =
     (if int (size (fmdom m)) \<ge> maxNum then map_option ((#) (m, maxNum)) (put_room op entry ms)
      else Some ((fmupd op entry m, maxNum) # ms))"

definition makeNewMap :: "(int \<Rightarrow> nat) \<Rightarrow> uintptr \<Rightarrow> mapSlice \<Rightarrow> utxoMap \<times> int" where
  "makeNewMap lg totalEntryMemory ms =
     (let memSize = ms_maxTotalMemoryUsage ms - totalEntryMemory;
          memSize = memSize - (\<Sum>(_, maxNum) \<leftarrow> ms_maps ms. word_of_int (calculateRoughMapSize maxNum (of_nat bucketSize)));
          numMaxElements = calculateMinEntries lg (sint memSize) (int (bucketSize + avgEntrySize)) - 1
      in (fmempty, numMaxElements))"

definition ms_put :: "(int \<Rightarrow> nat) \<Rightarrow> uintptr \<Rightarrow> OutPoint \<Rightarrow> UtxoEntry option \<Rightarrow> mapSlice \<Rightarrow> mapSlice" where
  "ms_put lg totalEntryMemory op entry ms =
     ms\<lparr>ms_maps :=
       (case put_existing op entry (ms_maps ms) of
          Some maps \<Rightarrow> maps
        | None \<Rightarrow>
            (case put_room op entry (ms_maps ms) of
               Some maps \<Rightarrow> maps
             | None \<Rightarrow> let (m, num) = makeNewMap lg totalEntryMemory ms in ms_maps ms @ [(fmupd op entry m, num)]))\<rparr>"

definition ms_delete :: "OutPoint \<Rightarrow> mapSlice \<Rightarrow> mapSlice" where
  "ms_delete op ms = ms\<lparr>ms_maps := map (\<lambda>(m, num). (fmdrop op m, num)) (ms_maps ms)\<rparr>"

definition deleteMaps :: "mapSlice \<Rightarrow> mapSlice" where
  "deleteMaps ms = ms\<lparr>ms_maps := take 1 (ms_maps ms)\<rparr>"

subsection \<open>The cache\<close>

datatype FlushMode = FlushRequired | FlushPeriodic | FlushIfNeeded

record utxoCache =
  uc_maxTotalMemoryUsage :: uintptr
  uc_cachedEntries :: mapSlice
  uc_totalEntryMemory :: uintptr
  uc_lastFlushHash :: hash
  uc_lastFlushTime :: int

definition utxoFlushPeriodicInterval :: int where "utxoFlushPeriodicInterval = 60 * 5"

definition newUtxoCache :: "(int \<Rightarrow> nat) \<Rightarrow> uintptr \<Rightarrow> utxoCache" where
  "newUtxoCache lg maxTotalMemoryUsage =
     (let numMaxElements = calculateMinEntries lg (sint maxTotalMemoryUsage) (int (bucketSize + avgEntrySize)) - 1
      in \<lparr>uc_maxTotalMemoryUsage = maxTotalMemoryUsage,
          uc_cachedEntries = \<lparr>ms_maps = [(fmempty, numMaxElements)], ms_maxTotalMemoryUsage = maxTotalMemoryUsage\<rparr>,
          uc_totalEntryMemory = 0, uc_lastFlushHash = chainZeroHash, uc_lastFlushTime = 0\<rparr>)"

definition totalMemoryUsage :: "utxoCache \<Rightarrow> uintptr" where
  "totalMemoryUsage s = word_of_int (ms_size (uc_cachedEntries s)) + uc_totalEntryMemory s"

text \<open>
  The code counts the capacity of the slice that holds the script. Every entry of the cache has a script
  that addTxOut or the decoder of stored scripts made with exactly its length, so that it is the length.
\<close>

definition memoryUsage :: "UtxoEntry option \<Rightarrow> uintptr" where
  "memoryUsage entry = (case entry of None \<Rightarrow> 0 | Some e \<Rightarrow> of_nat baseEntrySize + of_nat (length (ue_pkScript e)))"

text \<open>Storing an entry, with its memory.\<close>

definition cache_put :: "(int \<Rightarrow> nat) \<Rightarrow> OutPoint \<Rightarrow> UtxoEntry option \<Rightarrow> utxoCache \<Rightarrow> utxoCache" where
  "cache_put lg op entry s =
     s\<lparr>uc_cachedEntries := ms_put lg (uc_totalEntryMemory s) op entry (uc_cachedEntries s),
       uc_totalEntryMemory := uc_totalEntryMemory s + memoryUsage entry\<rparr>"

fun fetch_missing :: "'k curve \<Rightarrow> bucket \<Rightarrow> OutPoint list \<Rightarrow> db_error + UtxoEntry option list" where
  "fetch_missing C utxoBucket [] = Inr []"
| "fetch_missing C utxoBucket (op # ops) =
     sbind (dbFetchUtxoEntry C utxoBucket op) (\<lambda>entry.
     sbind (fetch_missing C utxoBucket ops) (\<lambda>entries. Inr (entry # entries)))"

text \<open>The entries of the cache and, in between, those that were fetched.\<close>

fun fill_entries :: "mapSlice \<Rightarrow> OutPoint list \<Rightarrow> UtxoEntry option list \<Rightarrow> UtxoEntry option list" where
  "fill_entries ms [] dbEntries = []"
| "fill_entries ms (op # ops) dbEntries =
     (case ms_get ms op of
        Some entry \<Rightarrow> entry # fill_entries ms ops dbEntries
      | None \<Rightarrow> (case dbEntries of [] \<Rightarrow> [] | entry # entries \<Rightarrow> entry # fill_entries ms ops entries))"

definition fetchEntries ::
  "'k curve \<Rightarrow> (int \<Rightarrow> nat) \<Rightarrow> bucket \<Rightarrow> OutPoint list \<Rightarrow> utxoCache \<Rightarrow> db_error + UtxoEntry option list \<times> utxoCache" where
  "fetchEntries C lg utxoBucket outpoints s =
     (let missingOps = filter (\<lambda>op. ms_get (uc_cachedEntries s) op = None) outpoints
      in if missingOps = [] then Inr (fill_entries (uc_cachedEntries s) outpoints [], s)
         else
           sbind (fetch_missing C utxoBucket missingOps) (\<lambda>dbEntries.
             Inr (fill_entries (uc_cachedEntries s) outpoints dbEntries,
                  fold (\<lambda>(op, entry). cache_put lg op entry) (zip missingOps dbEntries) s)))"

definition cache_addTxOut :: "(int \<Rightarrow> nat) \<Rightarrow> OutPoint \<Rightarrow> TxOut \<Rightarrow> bool \<Rightarrow> int \<Rightarrow> utxoCache \<Rightarrow> utxoCache" where
  "cache_addTxOut lg outpoint txOut isCoinBase blockHeight s =
     (if IsUnspendable (to_PkScript txOut) then s
      else
        let flags = tfFresh OR tfModified;
            entry = \<lparr>ue_amount = to_Value txOut, ue_pkScript = to_PkScript txOut, ue_blockHeight = blockHeight,
                     ue_packedFlags = (if isCoinBase then flags OR tfCoinBase else flags)\<rparr>
        in cache_put lg outpoint (Some entry) s)"

fun cache_add_outs :: "(int \<Rightarrow> nat) \<Rightarrow> hash \<Rightarrow> bool \<Rightarrow> int \<Rightarrow> nat \<Rightarrow> TxOut list \<Rightarrow> utxoCache \<Rightarrow> utxoCache" where
  "cache_add_outs lg h isCoinBase blockHeight txOutIdx [] s = s"
| "cache_add_outs lg h isCoinBase blockHeight txOutIdx (txOut # outs) s =
     cache_add_outs lg h isCoinBase blockHeight (Suc txOutIdx) outs
       (cache_addTxOut lg \<lparr>out_Hash = h, out_Index = txOutIdx\<rparr> txOut isCoinBase blockHeight s)"

definition cache_addTxOuts :: "(int \<Rightarrow> nat) \<Rightarrow> (bytes \<Rightarrow> hash) \<Rightarrow> MsgTx \<Rightarrow> int \<Rightarrow> utxoCache \<Rightarrow> utxoCache" where
  "cache_addTxOuts lg dh tx blockHeight s = cache_add_outs lg (TxHash dh tx) (IsCoinBaseTx tx) blockHeight 0 (tx_TxOut tx) s"

text \<open>The entry is shared with the cache, so spending it changes it there.\<close>

definition spend_cached :: "OutPoint \<Rightarrow> UtxoEntry \<Rightarrow> mapSlice \<Rightarrow> mapSlice" where
  "spend_cached op entry ms =
     ms\<lparr>ms_maps := (case put_existing op (Some (Spend entry)) (ms_maps ms) of Some maps \<Rightarrow> maps | None \<Rightarrow> ms_maps ms)\<rparr>"

definition cache_addTxIn ::
  "'k curve \<Rightarrow> (int \<Rightarrow> nat) \<Rightarrow> bucket \<Rightarrow> TxIn \<Rightarrow> SpentTxOut list \<Rightarrow> utxoCache \<Rightarrow> db_error + SpentTxOut list \<times> utxoCache" where
  "cache_addTxIn C lg utxoBucket txIn stxos s =
     sbind (fetchEntries C lg utxoBucket [ti_PreviousOutPoint txIn] s) (\<lambda>(entries, s).
       case entries of
         [Some entry] \<Rightarrow>
           let stxos = stxos @ [spent_details entry];
               s = s\<lparr>uc_cachedEntries := spend_cached (ti_PreviousOutPoint txIn) entry (uc_cachedEntries s)\<rparr>
           in Inr (stxos,
                if isFresh (Spend entry)
                then s\<lparr>uc_cachedEntries := ms_delete (ti_PreviousOutPoint txIn) (uc_cachedEntries s),
                       uc_totalEntryMemory := uc_totalEntryMemory s - memoryUsage (Some (Spend entry))\<rparr>
                else s\<lparr>uc_totalEntryMemory := uc_totalEntryMemory s - memoryUsage None\<rparr>)
       | _ \<Rightarrow> Inl dbAssert)"

fun cache_add_ins ::
  "'k curve \<Rightarrow> (int \<Rightarrow> nat) \<Rightarrow> bucket \<Rightarrow> TxIn list \<Rightarrow> SpentTxOut list \<Rightarrow> utxoCache \<Rightarrow> db_error + SpentTxOut list \<times> utxoCache" where
  "cache_add_ins C lg utxoBucket [] stxos s = Inr (stxos, s)"
| "cache_add_ins C lg utxoBucket (txIn # ins) stxos s =
     sbind (cache_addTxIn C lg utxoBucket txIn stxos s) (\<lambda>(stxos, s). cache_add_ins C lg utxoBucket ins stxos s)"

definition cache_addTxIns ::
  "'k curve \<Rightarrow> (int \<Rightarrow> nat) \<Rightarrow> bucket \<Rightarrow> MsgTx \<Rightarrow> SpentTxOut list \<Rightarrow> utxoCache \<Rightarrow> db_error + SpentTxOut list \<times> utxoCache" where
  "cache_addTxIns C lg utxoBucket tx stxos s =
     (if IsCoinBaseTx tx then Inr (stxos, s) else cache_add_ins C lg utxoBucket (tx_TxIn tx) stxos s)"

definition cache_connectTransaction ::
  "'k curve \<Rightarrow> (int \<Rightarrow> nat) \<Rightarrow> (bytes \<Rightarrow> hash) \<Rightarrow> bucket \<Rightarrow> int \<Rightarrow> MsgTx \<Rightarrow> SpentTxOut list \<Rightarrow> utxoCache \<Rightarrow>
     db_error + SpentTxOut list \<times> utxoCache" where
  "cache_connectTransaction C lg dh utxoBucket blockHeight tx stxos s =
     sbind (cache_addTxIns C lg utxoBucket tx stxos s) (\<lambda>(stxos, s). Inr (stxos, cache_addTxOuts lg dh tx blockHeight s))"

text \<open>The spent outputs are always collected; the caller that passes nil ignores them.\<close>

fun cache_connect_txs ::
  "'k curve \<Rightarrow> (int \<Rightarrow> nat) \<Rightarrow> (bytes \<Rightarrow> hash) \<Rightarrow> bucket \<Rightarrow> int \<Rightarrow> MsgTx list \<Rightarrow> SpentTxOut list \<Rightarrow> utxoCache \<Rightarrow>
     db_error + SpentTxOut list \<times> utxoCache" where
  "cache_connect_txs C lg dh utxoBucket blockHeight [] stxos s = Inr (stxos, s)"
| "cache_connect_txs C lg dh utxoBucket blockHeight (tx # txs) stxos s =
     sbind (cache_connectTransaction C lg dh utxoBucket blockHeight tx stxos s) (\<lambda>(stxos, s).
       cache_connect_txs C lg dh utxoBucket blockHeight txs stxos s)"

definition cache_connectTransactions ::
  "'k curve \<Rightarrow> (int \<Rightarrow> nat) \<Rightarrow> (bytes \<Rightarrow> hash) \<Rightarrow> bucket \<Rightarrow> blockData \<Rightarrow> SpentTxOut list \<Rightarrow> utxoCache \<Rightarrow>
     db_error + SpentTxOut list \<times> utxoCache" where
  "cache_connectTransactions C lg dh utxoBucket blk stxos s =
     cache_connect_txs C lg dh utxoBucket (bk_Height blk) (bk_Transactions blk) stxos s"

subsection \<open>Flushing\<close>

text \<open>The order in which the iteration over a map visits its entries.\<close>

type_synonym mapOrder = "utxoMap \<Rightarrow> (OutPoint \<times> UtxoEntry option) list"

fun write_entries :: "'k curve \<Rightarrow> (OutPoint \<times> UtxoEntry option) list \<Rightarrow> bucket \<Rightarrow> db_error + bucket" where
  "write_entries C [] utxoBucket = Inr utxoBucket"
| "write_entries C ((outpoint, entry) # es) utxoBucket =
     (case entry of
        None \<Rightarrow> write_entries C es (dbDeleteUtxoEntry outpoint utxoBucket)
      | Some e \<Rightarrow>
          if IsSpent e then write_entries C es (dbDeleteUtxoEntry outpoint utxoBucket)
          else if \<not> isModified e then write_entries C es utxoBucket
          else sbind (dbPutUtxoEntry C outpoint entry utxoBucket) (write_entries C es))"

text \<open>What a flush that does not erase the cache leaves of a map.\<close>

definition clean_entry :: "UtxoEntry \<Rightarrow> UtxoEntry" where
  "clean_entry e = (if isModified e then e\<lparr>ue_packedFlags := ue_packedFlags e AND NOT (tfModified OR tfFresh)\<rparr> else e)"

definition clean_map :: "utxoMap \<Rightarrow> utxoMap" where
  "clean_map m =
     fmmap (map_option clean_entry)
       (fmfilter (\<lambda>op. case fmlookup m op of Some (Some e) \<Rightarrow> \<not> IsSpent e | _ \<Rightarrow> False) m)"

definition deleted_memory :: "(OutPoint \<times> UtxoEntry option) list \<Rightarrow> uintptr" where
  "deleted_memory es =
     (\<Sum>(_, entry) \<leftarrow> es. case entry of None \<Rightarrow> 0 | Some e \<Rightarrow> if IsSpent e then memoryUsage entry else 0)"

definition writeCache ::
  "'k curve \<Rightarrow> mapOrder \<Rightarrow> hash \<Rightarrow> int \<Rightarrow> bool \<Rightarrow> utxoCache \<Rightarrow> chainDB \<Rightarrow> db_error + utxoCache \<times> chainDB" where
  "writeCache C ord bestHash now eraseCache s db =
     (let maps = ms_maps (uc_cachedEntries s);
          visited = concat (map (\<lambda>(m, _). ord m) maps)
      in sbind (write_entries C visited (db_utxoSet db)) (\<lambda>utxoBucket.
           let s' =
             (if eraseCache
              then s\<lparr>uc_cachedEntries := deleteMaps ((uc_cachedEntries s)\<lparr>ms_maps := map (\<lambda>(m, num). (fmempty, num)) maps\<rparr>),
                     uc_totalEntryMemory := 0\<rparr>
              else s\<lparr>uc_cachedEntries := (uc_cachedEntries s)\<lparr>ms_maps := map (\<lambda>(m, num). (clean_map m, num)) maps\<rparr>,
                     uc_totalEntryMemory :=
                       (if uc_totalEntryMemory s \<ge> deleted_memory visited then uc_totalEntryMemory s - deleted_memory visited else 0)\<rparr>)
           in Inr (s'\<lparr>uc_lastFlushHash := bestHash, uc_lastFlushTime := now\<rparr>,
                   dbPutUtxoStateConsistency bestHash (db\<lparr>db_utxoSet := utxoBucket\<rparr>))))"

definition shouldFlush :: "FlushMode \<Rightarrow> hash \<Rightarrow> int \<Rightarrow> utxoCache \<Rightarrow> bool" where
  "shouldFlush mode bestHash now s =
     (case mode of
        FlushRequired \<Rightarrow> totalMemoryUsage s \<ge> 0
      | FlushIfNeeded \<Rightarrow> if bestHash = uc_lastFlushHash s then False else totalMemoryUsage s \<ge> uc_maxTotalMemoryUsage s
      | FlushPeriodic \<Rightarrow>
          let threshold = (if now - uc_lastFlushTime s > utxoFlushPeriodicInterval then 0 else uc_maxTotalMemoryUsage s)
          in totalMemoryUsage s \<ge> threshold)"

definition cache_flush ::
  "'k curve \<Rightarrow> mapOrder \<Rightarrow> FlushMode \<Rightarrow> hash \<Rightarrow> int \<Rightarrow> utxoCache \<Rightarrow> chainDB \<Rightarrow> db_error + utxoCache \<times> chainDB" where
  "cache_flush C ord mode bestHash now s db =
     (if \<not> shouldFlush mode bestHash now s then Inr (s, db)
      else
        let eraseCache = (mode = FlushRequired \<or> totalMemoryUsage s \<ge> uc_maxTotalMemoryUsage s)
        in writeCache C ord bestHash now eraseCache s db)"


subsection \<open>The map slice as a store\<close>

lemma put_existing_None: "put_existing op entry ms = None \<longleftrightarrow> get_maps ms op = None"
  by (induction op entry ms rule: put_existing.induct) (auto split: option.split)

lemma put_existing_get:
  "put_existing op entry ms = Some ms' \<Longrightarrow> get_maps ms' op' = (if op' = op then Some entry else get_maps ms op')"
  by (induction op entry ms arbitrary: ms' rule: put_existing.induct) (auto split: if_splits option.splits)

lemma put_room_get:
  "put_room op entry ms = Some ms' \<Longrightarrow> get_maps ms op = None \<Longrightarrow>
     get_maps ms' op' = (if op' = op then Some entry else get_maps ms op')"
  by (induction op entry ms arbitrary: ms' rule: put_room.induct) (auto split: if_splits option.splits)

lemma get_maps_append: "get_maps (ms @ ms') op = (case get_maps ms op of None \<Rightarrow> get_maps ms' op | Some entry \<Rightarrow> Some entry)"
  by (induction ms op rule: get_maps.induct) (auto split: option.split)

lemma get_maps_delete: "get_maps (map (\<lambda>(m, num). (fmdrop op m, num)) ms) op' = (if op' = op then None else get_maps ms op')"
  by (induction ms) (auto split: option.split)

lemma ms_get_put: "ms_get (ms_put lg mem op entry ms) op' = (if op' = op then Some entry else ms_get ms op')"
proof (cases "put_existing op entry (ms_maps ms)")
  case None
  then have "get_maps (ms_maps ms) op = None" by (simp add: put_existing_None)
  with None show ?thesis
    by (auto simp: ms_get_def ms_put_def put_room_get makeNewMap_def Let_def get_maps_append split: option.split)
qed (auto simp: ms_get_def ms_put_def put_existing_get)

interpretation cached: keyed_store ms_get "ms_put lg mem" ms_delete "\<lambda>_. True" for lg mem
  by unfold_locales (simp_all add: ms_get_put, simp add: ms_get_def ms_delete_def get_maps_delete)

lemma ms_get_spend:
  "ms_get ms op = Some entry \<Longrightarrow> ms_get (spend_cached op e ms) op' = (if op' = op then Some (Some (Spend e)) else ms_get ms op')"
  using put_existing_None [of op "Some (Spend e)" "ms_maps ms"] put_existing_get [of op "Some (Spend e)" "ms_maps ms"]
  by (auto simp: ms_get_def spend_cached_def split: option.split)

text \<open>No outpoint is a key of two maps.\<close>

definition disjoint_maps :: "(utxoMap \<times> int) list \<Rightarrow> bool" where
  "disjoint_maps ms \<longleftrightarrow> sorted_wrt (\<lambda>a b. \<forall>op. fmlookup (fst a) op = None \<or> fmlookup (fst b) op = None) ms"

lemma get_maps_None: "get_maps ms op = None \<longleftrightarrow> (\<forall>(m, num) \<in> set ms. fmlookup m op = None)"
  by (induction ms op rule: get_maps.induct) (auto split: option.split)

lemma disjoint_maps_tail: "disjoint_maps ((m, num) # ms) \<Longrightarrow> fmlookup m op \<noteq> None \<Longrightarrow> get_maps ms op = None"
proof -
  assume "disjoint_maps ((m, num) # ms)" "fmlookup m op \<noteq> None"
  then have "\<forall>y \<in> set ms. fmlookup (fst y) op = None" unfolding disjoint_maps_def sorted_wrt.simps by force
  then show ?thesis by (auto simp: get_maps_None)
qed

lemma disjoint_put_existing: "put_existing op entry ms = Some ms' \<Longrightarrow> disjoint_maps ms \<Longrightarrow> disjoint_maps ms'"
proof (induction op entry ms arbitrary: ms' rule: put_existing.induct)
  case (2 op entry m num ms)
  show ?case
  proof (cases "fmlookup m op")
    case None
    then obtain ms1 where ms1: "put_existing op entry ms = Some ms1" "ms' = (m, num) # ms1" using 2(2) by auto
    have "\<forall>a \<in> set ms1. \<forall>op'. fmlookup m op' = None \<or> fmlookup (fst a) op' = None"
    proof (intro ballI allI)
      fix a op'
      assume a: "a \<in> set ms1"
      show "fmlookup m op' = None \<or> fmlookup (fst a) op' = None"
      proof (cases "op' = op \<or> fmlookup m op' = None")
        case False
        then have "get_maps ms op' = None" using disjoint_maps_tail [OF 2(3)] by simp
        then have "get_maps ms1 op' = None" using put_existing_get [OF ms1(1), of op'] False by simp
        with a show ?thesis by (cases a) (auto simp: get_maps_None)
      qed (use None in auto)
    qed
    with 2(1) [of ms1] ms1 None 2(3) show ?thesis by (auto simp: disjoint_maps_def)
  next
    case (Some e)
    then have "get_maps ms op = None" using disjoint_maps_tail [OF 2(3)] by simp
    then have "fmlookup m' op = None" if "(m', n') \<in> set ms" for m' n' using that by (auto simp: get_maps_None)
    with Some 2 show ?thesis by (auto simp: disjoint_maps_def)
  qed
qed simp

lemma disjoint_put_room:
  "put_room op entry ms = Some ms' \<Longrightarrow> get_maps ms op = None \<Longrightarrow> disjoint_maps ms \<Longrightarrow> disjoint_maps ms'"
proof (induction op entry ms arbitrary: ms' rule: put_room.induct)
  case (2 op entry m num ms)
  have none: "fmlookup m op = None" "get_maps ms op = None" using 2(3) by (auto split: option.splits)
  show ?case
  proof (cases "int (size (fmdom m)) \<ge> num")
    case True
    then obtain ms1 where ms1: "put_room op entry ms = Some ms1" "ms' = (m, num) # ms1" using 2(2) by auto
    have "\<forall>a \<in> set ms1. \<forall>op'. fmlookup m op' = None \<or> fmlookup (fst a) op' = None"
    proof (intro ballI allI)
      fix a op'
      assume a: "a \<in> set ms1"
      show "fmlookup m op' = None \<or> fmlookup (fst a) op' = None"
      proof (cases "op' = op \<or> fmlookup m op' = None")
        case False
        then have "get_maps ms op' = None" using disjoint_maps_tail [OF 2(4)] by simp
        then have "get_maps ms1 op' = None" using put_room_get [OF ms1(1) none(2), of op'] False by simp
        with a show ?thesis by (cases a) (auto simp: get_maps_None)
      qed (use none in auto)
    qed
    with 2(1) [of ms1] True ms1 none 2(4) show ?thesis by (auto simp: disjoint_maps_def)
  next
    case False
    have "fmlookup m' op = None" if "(m', n') \<in> set ms" for m' n' using none(2) that by (auto simp: get_maps_None)
    with False 2 show ?thesis by (auto simp: disjoint_maps_def)
  qed
qed simp

lemma disjoint_put: "disjoint_maps (ms_maps ms) \<Longrightarrow> disjoint_maps (ms_maps (ms_put lg mem op entry ms))"
proof -
  assume d: "disjoint_maps (ms_maps ms)"
  show ?thesis
  proof (cases "put_existing op entry (ms_maps ms)")
    case None
    then have n: "get_maps (ms_maps ms) op = None" by (simp add: put_existing_None)
    show ?thesis
    proof (cases "put_room op entry (ms_maps ms)")
      case room: None
      have "disjoint_maps (ms_maps ms @ [(fmupd op entry fmempty, num)])" for num
        using d n by (auto simp: disjoint_maps_def sorted_wrt_append get_maps_None)
      then show ?thesis by (simp add: ms_put_def None room makeNewMap_def Let_def)
    qed (use d n None disjoint_put_room in \<open>simp add: ms_put_def\<close>)
  qed (use d disjoint_put_existing in \<open>simp add: ms_put_def\<close>)
qed

lemma disjoint_shrink:
  assumes "disjoint_maps ms" "\<And>m op. fmlookup m op = None \<Longrightarrow> fmlookup (f m) op = None"
  shows "disjoint_maps (map (\<lambda>(m, num). (f m, num)) ms)"
  unfolding disjoint_maps_def sorted_wrt_map
  by (rule sorted_wrt_mono_rel [OF _ assms(1) [unfolded disjoint_maps_def]]) (use assms(2) in \<open>auto simp: case_prod_beta, metis option.distinct(1)\<close>)

lemma disjoint_delete: "disjoint_maps (ms_maps ms) \<Longrightarrow> disjoint_maps (ms_maps (ms_delete op ms))"
  unfolding ms_delete_def by simp (rule disjoint_shrink; simp)

lemma disjoint_spend: "disjoint_maps (ms_maps ms) \<Longrightarrow> disjoint_maps (ms_maps (spend_cached op e ms))"
  using disjoint_put_existing by (auto simp: spend_cached_def split: option.split)


subsection \<open>The coins behind the cache\<close>

text \<open>
  The database holds encodings of entries. The cache agrees with it: nil stands for a missing record, an unmodified entry for its record, and a
  fresh entry for one that the database has never seen.\<close>

definition bucket_ok :: "'k curve \<Rightarrow> bucket \<Rightarrow> bool" where
  "bucket_ok C b \<longleftrightarrow>
     (\<forall>op. op_ok op \<longrightarrow> fmlookup b (outpointKey op) = None \<or> (\<exists>e. entry_ok e \<and> fmlookup b (outpointKey op) = Some (entry_bytes C e)))"

definition cached_ok :: "'k curve \<Rightarrow> bytes option \<Rightarrow> UtxoEntry option \<Rightarrow> bool" where
  "cached_ok C stored entry \<longleftrightarrow>
     (case entry of
        None \<Rightarrow> stored = None
      | Some e \<Rightarrow>
          entry_ok e \<and> (IsSpent e \<longrightarrow> isModified e) \<and> (isFresh e \<longrightarrow> stored = None \<and> \<not> IsSpent e \<and> isModified e) \<and>
          (\<not> isModified e \<longrightarrow> stored = Some (entry_bytes C e)))"

definition coherent :: "'k curve \<Rightarrow> bucket \<Rightarrow> utxoCache \<Rightarrow> bool" where
  "coherent C b s \<longleftrightarrow> disjoint_maps (ms_maps (uc_cachedEntries s)) \<and> ms_maps (uc_cachedEntries s) \<noteq> [] \<and>
     (\<forall>op entry. ms_get (uc_cachedEntries s) op = Some entry \<longrightarrow> op_ok op \<and> cached_ok C (fmlookup b (outpointKey op)) entry)"

text \<open>The coins of the node: what the cache says, and where it says nothing, the database.\<close>

definition cache_coins :: "'k curve \<Rightarrow> bucket \<Rightarrow> utxoCache \<Rightarrow> coins" where
  "cache_coins C b s op =
     (case ms_get (uc_cachedEntries s) op of Some entry \<Rightarrow> unspent entry | None \<Rightarrow> stored_coins C b op)"

lemma flag_bits:
  "isFresh (Spend e) = isFresh e" "isModified (Spend e) \<longleftrightarrow> isModified e \<or> \<not> IsSpent e" "IsSpent (Spend e)"
  "entry_ok (Spend e) = entry_ok e" "memoryUsage (Some (Spend e)) = memoryUsage (Some e)"
proof -
  have a: "(w OR 6) AND 8 = w AND (8 :: byte)" "(w OR 6) AND 4 = (4 :: byte)" "(w OR 6) AND 2 = (2 :: byte)" for w
    by (simp_all add: word_ao_dist)
  show "isFresh (Spend e) = isFresh e" "isModified (Spend e) \<longleftrightarrow> isModified e \<or> \<not> IsSpent e" "IsSpent (Spend e)"
    "entry_ok (Spend e) = entry_ok e" "memoryUsage (Some (Spend e)) = memoryUsage (Some e)"
    using a by (auto simp: Spend_def isFresh_def isModified_def IsSpent_def tf_flags entry_ok_def memoryUsage_def)
qed

lemma stored_coins_entry:
  assumes "curve_ok C" "op_ok op" "entry_ok e" "fmlookup b (outpointKey op) = Some (entry_bytes C e)"
  shows "dbFetchUtxoEntry C b op = Inr (Some (stored_entry e))" "stored_coins C b op = Some (coin_of e)"
  using fetch_stored [OF assms(1,3,4)] assms(2) by (simp_all add: stored_coins_def)

lemma stored_coins_none: "fmlookup b (outpointKey op) = None \<Longrightarrow> dbFetchUtxoEntry C b op = Inr None \<and> stored_coins C b op = None"
  by (simp add: dbFetchUtxoEntry_def stored_coins_def)

lemma stored_entry_ok:
  "entry_ok e \<Longrightarrow> entry_ok (stored_entry e)" "entry_bytes C (stored_entry e) = entry_bytes C e" "\<not> isFresh (stored_entry e)"
  "entry_ok e \<Longrightarrow> cached_ok C (Some (entry_bytes C e)) (Some (stored_entry e))"
proof -
  show f: "\<not> isFresh (stored_entry e)" by (auto simp: stored_entry_def isFresh_def tf_flags)
  show b: "entry_bytes C (stored_entry e) = entry_bytes C e" by (simp add: entry_bytes_def stored_entry_def ue_IsCoinBase_def tf_flags)
  show o: "entry_ok e \<Longrightarrow> entry_ok (stored_entry e)" by (simp add: entry_ok_def stored_entry_def)
  show "entry_ok e \<Longrightarrow> cached_ok C (Some (entry_bytes C e)) (Some (stored_entry e))" using f b o by (simp add: cached_ok_def)
qed

text \<open>What the database returns may be cached without a change of the coins.\<close>

lemma db_fetch_ok:
  assumes "curve_ok C" "bucket_ok C b" "op_ok op"
  obtains entry where "dbFetchUtxoEntry C b op = Inr entry" "cached_ok C (fmlookup b (outpointKey op)) entry" "stored_coins C b op = unspent entry"
proof (cases "fmlookup b (outpointKey op)")
  case None
  then show ?thesis using that [of None] stored_coins_none [OF None, of C] by (simp add: cached_ok_def)
next
  case (Some v)
  then obtain e where e: "entry_ok e" "fmlookup b (outpointKey op) = Some (entry_bytes C e)"
    using assms(2,3) by (auto simp: bucket_ok_def)
  show ?thesis
    using that [of "Some (stored_entry e)"] stored_coins_entry [OF assms(1,3) e] stored_entry_ok(4) [OF e(1), of C] e(2)
    by (simp add: unspent_def)
qed

lemma cache_put_get [simp]:
  "ms_get (uc_cachedEntries (cache_put lg op entry s)) op' = (if op' = op then Some entry else ms_get (uc_cachedEntries s) op')"
  by (simp add: cache_put_def ms_get_put)

lemma ms_maps_put: "ms_maps (ms_put lg mem op entry ms) \<noteq> []"
  using put_existing_None [of op entry "ms_maps ms"]
  by (cases "ms_maps ms") (auto simp: ms_put_def makeNewMap_def Let_def split: option.splits if_splits)

lemma cache_put_ok:
  assumes "coherent C b s" "op_ok op" "cached_ok C (fmlookup b (outpointKey op)) entry"
  shows "coherent C b (cache_put lg op entry s)"
  using assms disjoint_put [of "uc_cachedEntries s" lg "uc_totalEntryMemory s" op entry]
    ms_maps_put [of lg "uc_totalEntryMemory s" op entry "uc_cachedEntries s"]
  by (auto simp: coherent_def) (simp_all add: cache_put_def ms_get_put split: if_splits)

lemma cache_put_coins: "cache_coins C b (cache_put lg op entry s) = (cache_coins C b s)(op := unspent entry)"
  by (rule ext) (simp add: cache_coins_def)

text \<open>Loading entries changes neither the coins nor the agreement, and returns the coins.\<close>

lemma fetch_missing_ok:
  assumes "curve_ok C" "bucket_ok C b" "list_all op_ok ops"
  shows "\<exists>es. fetch_missing C b ops = Inr es \<and> length es = length ops \<and>
    (\<forall>(op, entry) \<in> set (zip ops es). dbFetchUtxoEntry C b op = Inr entry \<and> cached_ok C (fmlookup b (outpointKey op)) entry \<and> stored_coins C b op = unspent entry)"
  using assms(3)
proof (induction ops)
  case (Cons op ops)
  then obtain es where es: "fetch_missing C b ops = Inr es" "length es = length ops"
    "\<forall>(op, entry) \<in> set (zip ops es). dbFetchUtxoEntry C b op = Inr entry \<and> cached_ok C (fmlookup b (outpointKey op)) entry \<and> stored_coins C b op = unspent entry"
    by auto
  from Cons.prems have "op_ok op" by simp
  from db_fetch_ok [OF assms(1,2) this] obtain entry where
    "dbFetchUtxoEntry C b op = Inr entry" "cached_ok C (fmlookup b (outpointKey op)) entry" "stored_coins C b op = unspent entry" .
  with es show ?case by auto
qed simp

lemma cache_puts_ok:
  assumes "coherent C b s" "cache_coins C b s = U"
    "\<forall>(op, entry) \<in> set xs. op_ok op \<and> cached_ok C (fmlookup b (outpointKey op)) entry \<and> U op = unspent entry"
  shows "coherent C b (fold (\<lambda>(op, entry). cache_put lg op entry) xs s) \<and> cache_coins C b (fold (\<lambda>(op, entry). cache_put lg op entry) xs s) = U"
  using assms
proof (induction xs arbitrary: s)
  case (Cons x xs)
  obtain op entry where x: "x = (op, entry)" by (cases x)
  have "coherent C b (cache_put lg op entry s)" using Cons.prems x cache_put_ok by auto
  moreover have "cache_coins C b (cache_put lg op entry s) = U" using Cons.prems x by (auto simp: cache_put_coins fun_eq_iff)
  ultimately show ?case using Cons x by simp
qed simp

lemma fill_entries_coins:
  "length es = length (filter (\<lambda>op. ms_get ms op = None) ops) \<Longrightarrow>
   (\<forall>(op, entry) \<in> set (zip (filter (\<lambda>op. ms_get ms op = None) ops) es). f op = unspent entry) \<Longrightarrow>
   map unspent (fill_entries ms ops es) = map (\<lambda>op. case ms_get ms op of Some entry \<Rightarrow> unspent entry | None \<Rightarrow> f op) ops"
proof (induction ops arbitrary: es)
  case (Cons op ops)
  show ?case
  proof (cases "ms_get ms op")
    case None
    with Cons.prems obtain e es' where "es = e # es'" by (cases es) auto
    with None Cons show ?thesis by simp
  next
    case (Some entry)
    with Cons show ?thesis by simp
  qed
qed simp

lemma fetchEntries_ok:
  assumes "curve_ok C" "bucket_ok C b" "coherent C b s" "list_all op_ok ops"
  shows "\<exists>es s'. fetchEntries C lg b ops s = Inr (es, s') \<and> coherent C b s' \<and> cache_coins C b s' = cache_coins C b s \<and>
    map unspent es = map (cache_coins C b s) ops"
proof -
  let ?missing = "filter (\<lambda>op. ms_get (uc_cachedEntries s) op = None) ops"
  have "list_all op_ok ?missing" using assms(4) by (auto simp: list_all_iff)
  then obtain es where es: "fetch_missing C b ?missing = Inr es" "length es = length ?missing"
    "\<forall>(op, entry) \<in> set (zip ?missing es). dbFetchUtxoEntry C b op = Inr entry \<and> cached_ok C (fmlookup b (outpointKey op)) entry \<and> stored_coins C b op = unspent entry"
    using fetch_missing_ok [OF assms(1,2)] by blast
  have f: "map unspent (fill_entries (uc_cachedEntries s) ops es) = map (cache_coins C b s) ops"
    using fill_entries_coins [OF es(2), of "stored_coins C b"] es(3) by (fastforce simp: cache_coins_def)
  have "\<forall>(op, entry) \<in> set (zip ?missing es). op_ok op \<and> cached_ok C (fmlookup b (outpointKey op)) entry \<and> cache_coins C b s op = unspent entry"
    using es(3) assms(4) by (fastforce simp: cache_coins_def list_all_iff dest: set_zip_leftD)
  note p = cache_puts_ok [OF assms(3) refl this, of lg]
  show ?thesis
  proof (cases "?missing = []")
    case True
    then show ?thesis using f es(2) assms(3) by (simp add: fetchEntries_def)
  next
    case False
    then show ?thesis using f es(1) p by (simp add: fetchEntries_def)
  qed
qed


subsection \<open>Spending and creating outputs in the cache\<close>

lemma fetch_one:
  "fetchEntries C lg b [op] s =
     (case ms_get (uc_cachedEntries s) op of
        Some entry \<Rightarrow> Inr ([entry], s)
      | None \<Rightarrow> sbind (dbFetchUtxoEntry C b op) (\<lambda>entry. Inr ([entry], cache_put lg op entry s)))"
  by (cases "dbFetchUtxoEntry C b op") (simp_all add: fetchEntries_def split: option.split)

lemma coin_op_ok: "coherent C b s \<Longrightarrow> cache_coins C b s op = Some c \<Longrightarrow> op_ok op"
  by (auto simp: coherent_def cache_coins_def stored_coins_def split: option.splits if_splits)

lemma fetch_one_ok:
  assumes "curve_ok C" "bucket_ok C b" "coherent C b s" "cache_coins C b s op = Some c"
  shows "\<exists>e s'. fetchEntries C lg b [op] s = Inr ([Some e], s') \<and> ms_get (uc_cachedEntries s') op = Some (Some e) \<and>
    unspent (Some e) = Some c \<and> coherent C b s' \<and> cache_coins C b s' = cache_coins C b s"
proof (cases "ms_get (uc_cachedEntries s) op")
  case None
  have "op_ok op" using coin_op_ok [OF assms(3,4)] .
  from db_fetch_ok [OF assms(1,2) this] obtain entry where
    entry: "dbFetchUtxoEntry C b op = Inr entry" "cached_ok C (fmlookup b (outpointKey op)) entry" "stored_coins C b op = unspent entry" .
  have u: "unspent entry = Some c" using assms(4) None entry(3) by (simp add: cache_coins_def)
  then obtain e where "entry = Some e" by (cases entry) simp_all
  moreover have "cache_coins C b (cache_put lg op entry s) = cache_coins C b s"
    using assms(4) u by (auto simp: cache_put_coins)
  ultimately show ?thesis
    using None entry u cache_put_ok [OF assms(3) \<open>op_ok op\<close> entry(2), of lg] by (simp add: fetch_one)
next
  case (Some entry)
  with assms(3,4) show ?thesis by (cases entry) (auto simp: fetch_one cache_coins_def)
qed

lemma ms_delete_maps [simp]: "ms_maps (ms_delete op ms) = [] \<longleftrightarrow> ms_maps ms = []"
  by (simp add: ms_delete_def)

lemma cache_addTxIn_ok:
  assumes "curve_ok C" "bucket_ok C b" "coherent C b s" "cache_coins C b s (ti_PreviousOutPoint txIn) = Some c"
  shows "\<exists>s'. cache_addTxIn C lg b txIn stxos s = Inr (stxos @ [coin_details c], s') \<and> coherent C b s' \<and>
    cache_coins C b s' = (cache_coins C b s)(ti_PreviousOutPoint txIn := None)"
proof -
  let ?op = "ti_PreviousOutPoint txIn"
  obtain e s1 where f: "fetchEntries C lg b [?op] s = Inr ([Some e], s1)" "ms_get (uc_cachedEntries s1) ?op = Some (Some e)"
    "unspent (Some e) = Some c" "coherent C b s1" "cache_coins C b s1 = cache_coins C b s"
    using fetch_one_ok [OF assms] by blast
  let ?ms = "spend_cached ?op e (uc_cachedEntries s1)"
  have ns: "\<not> IsSpent e" using f(3) by (auto simp: unspent_def split: if_splits)
  have e: "op_ok ?op" "cached_ok C (fmlookup b (outpointKey ?op)) (Some e)" using f(2,4) by (auto simp: coherent_def)
  have d: "disjoint_maps (ms_maps ?ms)" using f(4) disjoint_spend by (auto simp: coherent_def)
  have "ms_maps (uc_cachedEntries s1) \<noteq> []" using f(4) by (simp add: coherent_def)
  then have ne: "ms_maps ?ms \<noteq> []"
    by (cases "ms_maps (uc_cachedEntries s1)") (auto simp: spend_cached_def split: option.split if_splits)
  have g: "ms_get ?ms op' = (if op' = ?op then Some (Some (Spend e)) else ms_get (uc_cachedEntries s1) op')" for op'
    using ms_get_spend [OF f(2)] .
  note details = spent_details_coin [OF f(3)]
  show ?thesis
  proof (cases "isFresh e")
    case True
    let ?s = "s1\<lparr>uc_cachedEntries := ms_delete ?op ?ms, uc_totalEntryMemory := uc_totalEntryMemory s1 - memoryUsage (Some (Spend e))\<rparr>"
    have "fmlookup b (outpointKey ?op) = None" using e(2) True by (simp add: cached_ok_def)
    then have "stored_coins C b ?op = None" using stored_coins_none by blast
    then have "cache_coins C b ?s = (cache_coins C b s)(?op := None)"
      using g f(5) by (auto simp: cache_coins_def fun_eq_iff cached.get_del)
    moreover have "coherent C b ?s"
      using f(4) d ne disjoint_delete [of ?ms] by (auto simp: coherent_def g cached.get_del split: if_splits)
    ultimately show ?thesis using f(1) details True by (simp add: cache_addTxIn_def flag_bits)
  next
    case False
    let ?s = "s1\<lparr>uc_cachedEntries := ?ms, uc_totalEntryMemory := uc_totalEntryMemory s1 - memoryUsage None\<rparr>"
    have "cache_coins C b ?s = (cache_coins C b s)(?op := None)"
      using g f(5) by (auto simp: cache_coins_def fun_eq_iff)
    moreover have "coherent C b ?s"
      using f(4) d ne e False ns by (auto simp: coherent_def g cached_ok_def flag_bits)
    ultimately show ?thesis using f(1) details False by (simp add: cache_addTxIn_def flag_bits)
  qed
qed

lemma cache_add_ins_ok:
  assumes "curve_ok C" "bucket_ok C b" "coherent C b s" "distinct (map ti_PreviousOutPoint ins)"
    "set (map ti_PreviousOutPoint ins) \<subseteq> dom (cache_coins C b s)"
  shows "\<exists>s'. cache_add_ins C lg b ins stxos s =
      Inr (stxos @ map (\<lambda>txIn. coin_details (the (cache_coins C b s (ti_PreviousOutPoint txIn)))) ins, s') \<and> coherent C b s' \<and>
    cache_coins C b s' = cache_coins C b s |` (- set (map ti_PreviousOutPoint ins))"
  using assms(3-5)
proof (induction ins arbitrary: s stxos)
  case (Cons txIn ins)
  then obtain c where c: "cache_coins C b s (ti_PreviousOutPoint txIn) = Some c" by auto
  obtain s1 where s1: "cache_addTxIn C lg b txIn stxos s = Inr (stxos @ [coin_details c], s1)" "coherent C b s1"
    "cache_coins C b s1 = (cache_coins C b s)(ti_PreviousOutPoint txIn := None)"
    using cache_addTxIn_ok [OF assms(1,2) Cons.prems(1) c] by blast
  have "set (map ti_PreviousOutPoint ins) \<subseteq> dom (cache_coins C b s1)" "distinct (map ti_PreviousOutPoint ins)"
    using Cons.prems(2,3) s1(3) by (auto simp: image_iff)
  from Cons.IH [OF s1(2) this(2,1), of "stxos @ [coin_details c]"] obtain s' where
    s': "cache_add_ins C lg b ins (stxos @ [coin_details c]) s1 =
      Inr ((stxos @ [coin_details c]) @ map (\<lambda>txIn. coin_details (the (cache_coins C b s1 (ti_PreviousOutPoint txIn)))) ins, s')"
    "coherent C b s'" "cache_coins C b s' = cache_coins C b s1 |` (- set (map ti_PreviousOutPoint ins))" by blast
  have "map (\<lambda>txIn. coin_details (the (cache_coins C b s1 (ti_PreviousOutPoint txIn)))) ins =
      map (\<lambda>txIn. coin_details (the (cache_coins C b s (ti_PreviousOutPoint txIn)))) ins"
    using Cons.prems(2) s1(3) by (auto simp: image_iff)
  moreover have "cache_coins C b s' = cache_coins C b s |` (- set (map ti_PreviousOutPoint (txIn # ins)))"
    using s'(3) s1(3) by (auto simp: restrict_map_def fun_eq_iff)
  ultimately show ?case using s1(1) s'(1,2) c by simp
qed (simp add: restrict_map_def fun_eq_iff)

text \<open>The outputs that a transaction may put into the cache: the database has never seen them, and they can be stored.\<close>

definition outs_ok :: "bucket \<Rightarrow> hash \<Rightarrow> int \<Rightarrow> nat \<Rightarrow> TxOut list \<Rightarrow> bool" where
  "outs_ok b h blockHeight k outs \<longleftrightarrow> length h = 32 \<and> k + length outs \<le> 2 ^ 32 \<and>
     (\<forall>i < length outs. \<not> IsUnspendable (to_PkScript (outs ! i)) \<longrightarrow>
        storable (to_Value (outs ! i)) blockHeight (to_PkScript (outs ! i)) \<and>
        fmlookup b (outpointKey \<lparr>out_Hash = h, out_Index = k + i\<rparr>) = None)"

lemma outs_ok_Cons:
  "outs_ok b h bh k (txOut # outs) \<Longrightarrow> outs_ok b h bh (Suc k) outs"
  "outs_ok b h bh k (txOut # outs) \<Longrightarrow> op_ok \<lparr>out_Hash = h, out_Index = k\<rparr>"
  "outs_ok b h bh k (txOut # outs) \<Longrightarrow> \<not> IsUnspendable (to_PkScript txOut) \<Longrightarrow>
     storable (to_Value txOut) bh (to_PkScript txOut) \<and> fmlookup b (outpointKey \<lparr>out_Hash = h, out_Index = k\<rparr>) = None"
  by (fastforce simp: outs_ok_def op_ok_def)+

definition cached_output :: "TxOut \<Rightarrow> bool \<Rightarrow> int \<Rightarrow> UtxoEntry" where
  "cached_output txOut cb bh =
     \<lparr>ue_amount = to_Value txOut, ue_pkScript = to_PkScript txOut, ue_blockHeight = bh,
      ue_packedFlags = (if cb then tfFresh OR tfModified OR tfCoinBase else tfFresh OR tfModified)\<rparr>"

lemma cached_output_simps [simp]:
  "isFresh (cached_output txOut cb bh)" "isModified (cached_output txOut cb bh)" "\<not> IsSpent (cached_output txOut cb bh)"
  "entry_ok (cached_output txOut cb bh) = storable (to_Value txOut) bh (to_PkScript txOut)"
  "unspent (Some (cached_output txOut cb bh)) =
     Some \<lparr>co_amount = to_Value txOut, co_pkScript = to_PkScript txOut, co_height = bh, co_coinbase = cb\<rparr>"
  by (simp_all add: cached_output_def isFresh_def isModified_def IsSpent_def entry_ok_def unspent_def coin_of_def ue_IsCoinBase_def tf_flags)

lemma cache_addTxOut_put:
  "cache_addTxOut lg op txOut cb bh s =
     (if IsUnspendable (to_PkScript txOut) then s else cache_put lg op (Some (cached_output txOut cb bh)) s)"
  by (simp add: cache_addTxOut_def cached_output_def Let_def or.assoc)

lemma cache_add_outs_ok:
  "coherent C b s \<Longrightarrow> outs_ok b h bh k outs \<Longrightarrow>
     coherent C b (cache_add_outs lg h cb bh k outs s) \<and>
     cache_coins C b (cache_add_outs lg h cb bh k outs s) = cache_coins C b s ++ created_from h cb bh k outs"
proof (induction outs arbitrary: k s)
  case (Cons txOut outs)
  let ?op = "\<lparr>out_Hash = h, out_Index = k\<rparr>"
  let ?s = "cache_addTxOut lg ?op txOut cb bh s"
  note o = outs_ok_Cons [OF Cons.prems(2)]
  have "coherent C b ?s"
    using Cons.prems(1) o(2,3) cache_put_ok [of C b s ?op "Some (cached_output txOut cb bh)" lg]
    by (auto simp: cache_addTxOut_put cached_ok_def)
  note IH = Cons.IH [OF this o(1)]
  have "created_from h cb bh (Suc k) outs ?op = None" by (simp add: created_from_def)
  then have "cache_coins C b ?s ++ created_from h cb bh (Suc k) outs = cache_coins C b s ++ created_from h cb bh k (txOut # outs)"
    by (auto simp: cache_addTxOut_put cache_put_coins created_from_Cons map_add_def fun_eq_iff split: option.split)
  with IH show ?case by simp
qed simp

definition tx_ok_for :: "(bytes \<Rightarrow> hash) \<Rightarrow> bucket \<Rightarrow> int \<Rightarrow> MsgTx \<Rightarrow> bool" where
  "tx_ok_for dh b h tx \<longleftrightarrow> outs_ok b (TxHash dh tx) h 0 (tx_TxOut tx)"

lemma cache_connectTransaction_ok:
  assumes "curve_ok C" "bucket_ok C b" "coherent C b s" "spends_ok (cache_coins C b s) tx" "tx_ok_for dh b h tx"
  shows "\<exists>s'. cache_connectTransaction C lg dh b h tx stxos s = Inr (stxos @ tx_details tx (cache_coins C b s), s') \<and>
    coherent C b s' \<and> cache_coins C b s' = apply_tx dh h tx (cache_coins C b s)"
proof -
  have outs: "outs_ok b (TxHash dh tx) h 0 (tx_TxOut tx)" using assms(5) by (simp add: tx_ok_for_def)
  show ?thesis
  proof (cases "IsCoinBaseTx tx")
    case True
    then show ?thesis using cache_add_outs_ok [OF assms(3) outs, of lg True]
      by (simp add: cache_connectTransaction_def cache_addTxIns_def cache_addTxOuts_def tx_details_def apply_tx_def created_def)
  next
    case False
    then have sp: "distinct (map ti_PreviousOutPoint (tx_TxIn tx))" "set (map ti_PreviousOutPoint (tx_TxIn tx)) \<subseteq> dom (cache_coins C b s)"
      using assms(4) by (simp_all add: spends_ok_def prevouts_def)
    obtain s1 where s1: "cache_add_ins C lg b (tx_TxIn tx) stxos s =
        Inr (stxos @ map (\<lambda>txIn. coin_details (the (cache_coins C b s (ti_PreviousOutPoint txIn)))) (tx_TxIn tx), s1)" "coherent C b s1"
      "cache_coins C b s1 = cache_coins C b s |` (- set (map ti_PreviousOutPoint (tx_TxIn tx)))"
      using cache_add_ins_ok [OF assms(1-3) sp] by blast
    then show ?thesis using False cache_add_outs_ok [OF s1(2) outs, of lg False]
      by (simp add: cache_connectTransaction_def cache_addTxIns_def cache_addTxOuts_def tx_details_def apply_tx_def created_def spent_coins_def
          prevouts_def comp_def)
  qed
qed

lemma cache_connect_txs_ok:
  assumes "curve_ok C" "bucket_ok C b" "coherent C b s" "valid_txs dh h (cache_coins C b s) txs" "list_all (tx_ok_for dh b h) txs"
  shows "\<exists>s'. cache_connect_txs C lg dh b h txs stxos s = Inr (stxos @ block_details dh h (cache_coins C b s) txs, s') \<and>
    coherent C b s' \<and> cache_coins C b s' = apply_txs dh h txs (cache_coins C b s)"
  using assms(3-5)
proof (induction txs arbitrary: s stxos)
  case (Cons tx txs)
  then have p: "spends_ok (cache_coins C b s) tx" "tx_ok_for dh b h tx" by simp_all
  obtain s1 where s1: "cache_connectTransaction C lg dh b h tx stxos s = Inr (stxos @ tx_details tx (cache_coins C b s), s1)"
    "coherent C b s1" "cache_coins C b s1 = apply_tx dh h tx (cache_coins C b s)"
    using cache_connectTransaction_ok [OF assms(1,2) Cons.prems(1) p] by blast
  with Cons.IH [of s1 "stxos @ tx_details tx (cache_coins C b s)"] Cons.prems show ?case by auto
qed simp

subsection \<open>Flushing keeps the coins\<close>

definition iterates :: "mapOrder \<Rightarrow> bool" where
  "iterates ord \<longleftrightarrow> (\<forall>m. distinct (map fst (ord m)) \<and> map_of (ord m) = fmlookup m)"

lemma iterates_set: "iterates ord \<Longrightarrow> (op, entry) \<in> set (ord m) \<longleftrightarrow> fmlookup m op = Some entry"
  unfolding iterates_def by (metis map_of_eq_Some_iff)

lemma visited_get:
  assumes "iterates ord" "disjoint_maps ms"
  shows "distinct (map fst (concat (map (\<lambda>(m, _). ord m) ms))) \<and> map_of (concat (map (\<lambda>(m, _). ord m) ms)) = get_maps ms"
  using assms(2)
proof (induction ms)
  case (Cons x ms)
  obtain m num where x: "x = (m, num)" by (cases x)
  have tail: "disjoint_maps ms" using Cons.prems by (simp add: disjoint_maps_def)
  note IH = Cons.IH [OF this]
  have "fst ` set (ord m) \<inter> fst ` set (concat (map (\<lambda>(m, _). ord m) ms)) = {}"
  proof (rule ccontr)
    assume "fst ` set (ord m) \<inter> fst ` set (concat (map (\<lambda>(m, _). ord m) ms)) \<noteq> {}"
    then obtain op e e' where op: "(op, e) \<in> set (ord m)" "(op, e') \<in> set (concat (map (\<lambda>(m, _). ord m) ms))" by force
    then have "fmlookup m op = Some e" using iterates_set [OF assms(1)] by blast
    then have "get_maps ms op = None" using disjoint_maps_tail Cons.prems x by auto
    moreover have "get_maps ms op = Some e'" using IH op(2) by (metis map_of_eq_Some_iff)
    ultimately show False by simp
  qed
  then have "distinct (map fst (ord m @ concat (map (\<lambda>(m, _). ord m) ms)))"
    using IH assms(1) by (simp add: iterates_def)
  moreover have "map_of (ord m @ concat (map (\<lambda>(m, _). ord m) ms)) = get_maps ((m, num) # ms)"
    using IH assms(1) disjoint_maps_tail [OF Cons.prems [unfolded x]]
    by (auto simp: map_add_def iterates_def fun_eq_iff split: option.split)
  ultimately show ?case by (simp add: x)
qed (simp add: fun_eq_iff)

definition cache_writes :: "'k curve \<Rightarrow> (OutPoint \<times> UtxoEntry option) list \<Rightarrow> (OutPoint \<times> bytes option) list" where
  "cache_writes C es =
     map (\<lambda>(op, entry). (op, case entry of None \<Rightarrow> None | Some e \<Rightarrow> if IsSpent e then None else Some (entry_bytes C e)))
       (filter (\<lambda>(op, entry). case entry of None \<Rightarrow> True | Some e \<Rightarrow> IsSpent e \<or> isModified e) es)"

lemma write_entries_form:
  "write_entries C es b = Inr (fold (store_write fmupd fmdrop) (map (apfst outpointKey) (cache_writes C es)) b)"
  by (induction C es b rule: write_entries.induct)
    (auto simp: cache_writes_def store_write_def dbPutUtxoEntry_form dbDeleteUtxoEntry_def split: option.splits)

lemma key_writes:
  assumes "distinct (map fst ws)" "\<And>op w. (op, w) \<in> set ws \<Longrightarrow> op_ok op"
  shows "distinct (map fst (map (apfst outpointKey) ws)) \<and>
    (op_ok op \<longrightarrow> map_of (map (apfst outpointKey) ws) (outpointKey op) = map_of ws op)"
  using assms
proof (induction ws)
  case (Cons x ws)
  obtain p w where x: "x = (p, w)" by (cases x)
  have p: "op_ok p" using Cons.prems(2) x by auto
  have "outpointKey p \<notin> fst ` set (map (apfst outpointKey) ws)"
  proof
    assume "outpointKey p \<in> fst ` set (map (apfst outpointKey) ws)"
    then obtain q v where q: "(q, v) \<in> set ws" "outpointKey p = outpointKey q" by auto
    then have "p = q" using outpointKey_inject p Cons.prems(2) by auto
    with q(1) Cons.prems(1) x show False by force
  qed
  moreover have "outpointKey op = outpointKey p \<longleftrightarrow> op = p" if "op_ok op" using outpointKey_inject p that by blast
  moreover have "distinct (map fst ws)" "\<And>op w. (op, w) \<in> set ws \<Longrightarrow> op_ok op" using Cons.prems x by auto
  then have "distinct (map fst (map (apfst outpointKey) ws)) \<and>
    (op_ok op \<longrightarrow> map_of (map (apfst outpointKey) ws) (outpointKey op) = map_of ws op)" by (rule Cons.IH)
  ultimately show ?case unfolding x list.map apfst_conv fst_conv distinct.simps map_of.simps by (force simp: image_image)
qed simp

lemma cache_writes_map:
  assumes "distinct (map fst es)"
  shows "distinct (map fst (cache_writes C es))"
    "map_of (cache_writes C es) op =
      (case map_of es op of
         None \<Rightarrow> None
       | Some None \<Rightarrow> Some None
       | Some (Some e) \<Rightarrow> if IsSpent e then Some None else if isModified e then Some (Some (entry_bytes C e)) else None)"
proof -
  show "distinct (map fst (cache_writes C es))"
    using distinct_map_filter [OF assms] by (simp add: cache_writes_def comp_def case_prod_beta)
  show "map_of (cache_writes C es) op =
      (case map_of es op of
         None \<Rightarrow> None
       | Some None \<Rightarrow> Some None
       | Some (Some e) \<Rightarrow> if IsSpent e then Some None else if isModified e then Some (Some (entry_bytes C e)) else None)"
    using assms
  proof (induction es)
    case (Cons x es)
    obtain p e where x: "x = (p, e)" by (cases x)
    have "map_of es p = None" using Cons.prems x by (simp add: map_of_eq_None_iff)
    with Cons x show ?case by (cases e) (auto simp: cache_writes_def)
  qed (simp add: cache_writes_def)
qed

lemma cache_writes_set: "(p, w) \<in> set (cache_writes C es) \<Longrightarrow> \<exists>e. (p, e) \<in> set es"
  by (auto simp: cache_writes_def)

text \<open>The record of an output after a flush.\<close>

lemma flushed_bucket:
  assumes "iterates ord" "coherent C b s" "op_ok op"
  defines "b' \<equiv> fold (store_write fmupd fmdrop)
      (map (apfst outpointKey) (cache_writes C (concat (map (\<lambda>(m, _). ord m) (ms_maps (uc_cachedEntries s)))))) b"
  shows "fmlookup b' (outpointKey op) =
    (case ms_get (uc_cachedEntries s) op of
       None \<Rightarrow> fmlookup b (outpointKey op)
     | Some None \<Rightarrow> None
     | Some (Some e) \<Rightarrow> if IsSpent e then None else Some (entry_bytes C e))"
proof -
  let ?es = "concat (map (\<lambda>(m, _). ord m) (ms_maps (uc_cachedEntries s)))"
  have v: "distinct (map fst ?es)" "map_of ?es = ms_get (uc_cachedEntries s)"
    using visited_get [OF assms(1)] assms(2) by (auto simp: coherent_def ms_get_def fun_eq_iff)
  have ok: "op_ok p" if "(p, w) \<in> set (cache_writes C ?es)" for p w
  proof -
    from that have "\<exists>e. (p, e) \<in> set ?es" by (rule cache_writes_set)
    then obtain e where "(p, e) \<in> set ?es" by blast
    then have "ms_get (uc_cachedEntries s) p = Some e" using v by (metis map_of_eq_Some_iff)
    then show ?thesis using assms(2) by (simp add: coherent_def)
  qed
  note k = key_writes [of "cache_writes C ?es" op, OF cache_writes_map(1) [OF v(1)] ok]
  have "cached_ok C (fmlookup b (outpointKey op)) e" if "ms_get (uc_cachedEntries s) op = Some e" for e
    using assms(2) that by (simp add: coherent_def)
  then show ?thesis
    using k assms(3) cache_writes_map(2) [OF v(1), of C op] v(2)
    unfolding b'_def by (subst bucket.get_writes) (auto simp: cached_ok_def split: option.splits)
qed

lemma clean_entry_simps [simp]:
  "\<not> isModified (clean_entry e)" "entry_bytes C (clean_entry e) = entry_bytes C e" "entry_ok (clean_entry e) = entry_ok e"
  "IsSpent (clean_entry e) = IsSpent e" "unspent (Some (clean_entry e)) = unspent (Some e)"
proof -
  have a: "(w AND - 13) AND 4 = (0 :: byte)" "(w AND - 13) AND 2 = w AND (2 :: byte)" "(w AND - 13) AND 1 = w AND (1 :: byte)" for w
    by (simp_all add: and.assoc)
  show m: "\<not> isModified (clean_entry e)" using a(1) by (simp add: clean_entry_def isModified_def tf_flags)
  have c: "ue_IsCoinBase (clean_entry e) = ue_IsCoinBase e" using a(3) by (simp add: clean_entry_def ue_IsCoinBase_def tf_flags)
  show s: "IsSpent (clean_entry e) = IsSpent e" using a(2) by (simp add: clean_entry_def IsSpent_def tf_flags)
  show "entry_bytes C (clean_entry e) = entry_bytes C e" using c by (simp add: entry_bytes_def clean_entry_def)
  show "entry_ok (clean_entry e) = entry_ok e" by (simp add: entry_ok_def clean_entry_def)
  show "unspent (Some (clean_entry e)) = unspent (Some e)" using c s by (simp add: unspent_def coin_of_def) (simp add: clean_entry_def)
qed

lemma clean_entry_fresh: "isFresh e \<longrightarrow> isModified e \<Longrightarrow> \<not> isFresh (clean_entry e)"
proof -
  have "(w AND - 13) AND 8 = (0 :: byte)" for w by (simp add: and.assoc)
  then show "isFresh e \<longrightarrow> isModified e \<Longrightarrow> \<not> isFresh (clean_entry e)" by (auto simp: clean_entry_def isFresh_def tf_flags)
qed

lemma get_clean_maps:
  "disjoint_maps ms \<Longrightarrow> get_maps (map (\<lambda>(m, num). (clean_map m, num)) ms) op =
     (case get_maps ms op of Some (Some e) \<Rightarrow> if IsSpent e then None else Some (Some (clean_entry e)) | _ \<Rightarrow> None)"
proof (induction ms)
  case (Cons x ms)
  obtain m num where x: "x = (m, num)" by (cases x)
  have "disjoint_maps ms" using Cons.prems by (simp add: disjoint_maps_def)
  moreover have "fmlookup m op \<noteq> None \<Longrightarrow> get_maps ms op = None" using disjoint_maps_tail Cons.prems x by blast
  ultimately show ?case using Cons.IH x
    by (cases "fmlookup m op") (auto simp: clean_map_def split: option.splits)
qed simp

lemma get_erased_maps: "get_maps (map (\<lambda>(m, num). (fmempty, num)) ms) op = None"
  by (induction ms) auto

lemma writeCache_ok:
  assumes "curve_ok C" "iterates ord" "bucket_ok C (db_utxoSet db)" "coherent C (db_utxoSet db) s"
  shows "\<exists>s' b'. writeCache C ord bestHash now eraseCache s db = Inr (s', dbPutUtxoStateConsistency bestHash (db\<lparr>db_utxoSet := b'\<rparr>)) \<and>
    bucket_ok C b' \<and> coherent C b' s' \<and> stored_coins C b' = cache_coins C (db_utxoSet db) s \<and>
    cache_coins C b' s' = cache_coins C (db_utxoSet db) s \<and> uc_lastFlushHash s' = bestHash"
proof -
  let ?b = "db_utxoSet db" and ?ms = "uc_cachedEntries s"
  let ?es = "concat (map (\<lambda>(m, _). ord m) (ms_maps ?ms))"
  define b' where "b' = fold (store_write fmupd fmdrop) (map (apfst outpointKey) (cache_writes C ?es)) ?b"
  note l = flushed_bucket [OF assms(2,4), folded b'_def]
  have c: "cached_ok C (fmlookup ?b (outpointKey op)) e \<and> op_ok op" if "ms_get ?ms op = Some e" for op e
    using assms(4) that by (simp add: coherent_def)
  have bok: "bucket_ok C b'"
    unfolding bucket_ok_def
  proof (intro allI impI)
    fix op
    assume op: "op_ok op"
    show "fmlookup b' (outpointKey op) = None \<or> (\<exists>e. entry_ok e \<and> fmlookup b' (outpointKey op) = Some (entry_bytes C e))"
      using l [OF op] c [of op] assms(3) op by (auto simp: bucket_ok_def cached_ok_def split: option.splits)
  qed
  have coins: "stored_coins C b' = cache_coins C ?b s"
  proof
    fix op
    show "stored_coins C b' op = cache_coins C ?b s op"
    proof (cases "op_ok op")
      case False
      then have "ms_get ?ms op = None" using c [of op] by (cases "ms_get ?ms op") auto
      with False show ?thesis by (simp add: stored_coins_def cache_coins_def)
    next
      case True
      show ?thesis
      proof (cases "ms_get ?ms op")
        case None
        then show ?thesis using l [OF True] by (simp add: stored_coins_def cache_coins_def dbFetchUtxoEntry_def)
      next
        case (Some entry)
        then show ?thesis
          using l [OF True] c [OF Some] True stored_coins_entry(2) [OF assms(1) True, of _ b'] stored_coins_none [of b' op C]
          by (cases entry) (auto simp: cache_coins_def cached_ok_def unspent_def)
      qed
    qed
  qed
  have dm: "disjoint_maps (ms_maps ?ms)" "ms_maps ?ms \<noteq> []" using assms(4) by (simp_all add: coherent_def)
  define s' where "s' = (if eraseCache
     then s\<lparr>uc_cachedEntries := deleteMaps (?ms\<lparr>ms_maps := map (\<lambda>(m, num). (fmempty, num)) (ms_maps ?ms)\<rparr>), uc_totalEntryMemory := 0\<rparr>
     else s\<lparr>uc_cachedEntries := ?ms\<lparr>ms_maps := map (\<lambda>(m, num). (clean_map m, num)) (ms_maps ?ms)\<rparr>,
            uc_totalEntryMemory := (if uc_totalEntryMemory s \<ge> deleted_memory ?es then uc_totalEntryMemory s - deleted_memory ?es else 0)\<rparr>)"
  have w: "writeCache C ord bestHash now eraseCache s db =
      Inr (s'\<lparr>uc_lastFlushHash := bestHash, uc_lastFlushTime := now\<rparr>, dbPutUtxoStateConsistency bestHash (db\<lparr>db_utxoSet := b'\<rparr>))"
    by (simp add: writeCache_def write_entries_form b'_def s'_def Let_def)
  have g: "ms_get (uc_cachedEntries s') op =
      (if eraseCache then None else case ms_get ?ms op of Some (Some e) \<Rightarrow> if IsSpent e then None else Some (Some (clean_entry e)) | _ \<Rightarrow> None)" for op
  proof (cases eraseCache)
    case True
    obtain m num ms where "ms_maps ?ms = (m, num) # ms" using dm(2) by (cases "ms_maps ?ms") auto
    with True show ?thesis by (simp add: s'_def ms_get_def deleteMaps_def)
  next
    case False
    then show ?thesis using get_clean_maps [OF dm(1)] by (simp add: s'_def ms_get_def)
  qed
  have d: "disjoint_maps (ms_maps (uc_cachedEntries s'))" "ms_maps (uc_cachedEntries s') \<noteq> []"
  proof -
    obtain m num ms where m: "ms_maps ?ms = (m, num) # ms" using dm(2) by (cases "ms_maps ?ms") auto
    have "disjoint_maps (map (\<lambda>(m, num). (clean_map m, num)) (ms_maps ?ms))"
      by (rule disjoint_shrink [OF dm(1)]) (simp add: clean_map_def)
    then show "disjoint_maps (ms_maps (uc_cachedEntries s'))" using m
      by (auto simp: s'_def deleteMaps_def disjoint_maps_def)
    show "ms_maps (uc_cachedEntries s') \<noteq> []" using m by (simp add: s'_def deleteMaps_def)
  qed
  have cok: "op_ok op \<and> cached_ok C (fmlookup b' (outpointKey op)) entry" if "ms_get (uc_cachedEntries s') op = Some entry" for op entry
  proof -
    from that g [of op] have "(if eraseCache then None else case ms_get ?ms op of
        Some (Some e) \<Rightarrow> if IsSpent e then None else Some (Some (clean_entry e)) | _ \<Rightarrow> None) = Some entry" by simp
    then obtain e where e: "ms_get ?ms op = Some (Some e)" "\<not> IsSpent e" "entry = Some (clean_entry e)"
      by (auto split: if_splits option.splits)
    with c [OF e(1)] l [of op] clean_entry_fresh [of e] show ?thesis by (auto simp: cached_ok_def)
  qed
  have "cache_coins C b' s' op = cache_coins C ?b s op" for op
  proof (cases "ms_get (uc_cachedEntries s') op")
    case None
    then show ?thesis using coins by (simp add: cache_coins_def [of C b'])
  next
    case (Some entry)
    with g [of op] have "(if eraseCache then None else case ms_get ?ms op of
        Some (Some e) \<Rightarrow> if IsSpent e then None else Some (Some (clean_entry e)) | _ \<Rightarrow> None) = Some entry" by simp
    then obtain e where "ms_get ?ms op = Some (Some e)" "entry = Some (clean_entry e)"
      by (auto split: if_splits option.splits)
    with Some show ?thesis by (simp add: cache_coins_def)
  qed
  then have "cache_coins C b' s' = cache_coins C ?b s" by blast
  with w bok coins d cok show ?thesis
    by (intro exI [of _ "s'\<lparr>uc_lastFlushHash := bestHash, uc_lastFlushTime := now\<rparr>"] exI [of _ b'])
       (auto simp: coherent_def cache_coins_def fun_eq_iff)
qed

subsection \<open>Flushing\<close>

text \<open>A flush in any mode keeps the coins; one that is due leaves them all in the database.\<close>

lemma cache_flush_ok:
  assumes "curve_ok C" "iterates ord" "bucket_ok C (db_utxoSet db)" "coherent C (db_utxoSet db) s"
  shows "\<exists>s' db'. cache_flush C ord mode bestHash now s db = Inr (s', db') \<and>
    bucket_ok C (db_utxoSet db') \<and> coherent C (db_utxoSet db') s' \<and>
    cache_coins C (db_utxoSet db') s' = cache_coins C (db_utxoSet db) s \<and>
    (shouldFlush mode bestHash now s \<longrightarrow> stored_coins C (db_utxoSet db') = cache_coins C (db_utxoSet db) s \<and>
       dbFetchUtxoStateConsistency db' = Some bestHash \<and> uc_lastFlushHash s' = bestHash)"
proof (cases "shouldFlush mode bestHash now s")
  case True
  let ?erase = "mode = FlushRequired \<or> totalMemoryUsage s \<ge> uc_maxTotalMemoryUsage s"
  obtain s' b' where w: "writeCache C ord bestHash now ?erase s db = Inr (s', dbPutUtxoStateConsistency bestHash (db\<lparr>db_utxoSet := b'\<rparr>))"
    "bucket_ok C b'" "coherent C b' s'" "stored_coins C b' = cache_coins C (db_utxoSet db) s"
    "cache_coins C b' s' = cache_coins C (db_utxoSet db) s" "uc_lastFlushHash s' = bestHash"
    using writeCache_ok [OF assms, of bestHash now ?erase] by blast
  then show ?thesis using True
    by (simp add: cache_flush_def dbPutUtxoStateConsistency_def dbFetchUtxoStateConsistency_def meta_Put_def)
qed (use assms in \<open>simp add: cache_flush_def\<close>)

text \<open>A new cache stands for what the database holds.\<close>

lemma new_cache:
  "coherent C b (newUtxoCache lg mem)" "cache_coins C b (newUtxoCache lg mem) = stored_coins C b"
proof -
  have g: "ms_get (uc_cachedEntries (newUtxoCache lg mem)) op = None" for op
    by (simp add: newUtxoCache_def ms_get_def Let_def)
  then show "cache_coins C b (newUtxoCache lg mem) = stored_coins C b" by (simp add: cache_coins_def fun_eq_iff)
  show "coherent C b (newUtxoCache lg mem)" using g
    by (simp add: coherent_def) (simp add: newUtxoCache_def disjoint_maps_def Let_def)
qed

lemma single_bucket_ok: "op_ok op \<Longrightarrow> entry_ok e \<Longrightarrow> bucket_ok C (fmupd (outpointKey op) (entry_bytes C e) fmempty)"
  by (auto simp: bucket_ok_def)

subsection \<open>An output put over a spent one\<close>

text \<open>
  The comment of \<^verbatim>\<open>addTxOuts\<close> allows an output to replace one with the same outpoint that is fully spent. If the old
  output is spent in the cache only, the record in the database still waits for its removal; the new entry is fresh, so
  spending it removes it from the cache without a trace, and the old record counts as an unspent output again.\<close>

lemma replaced_output_returns:
  assumes "ms_get (uc_cachedEntries s) op = Some (Some spent)" "IsSpent spent" "\<not> IsUnspendable (to_PkScript txOut)"
    "stored_coins C b op = Some old" "ti_PreviousOutPoint txIn = op"
  shows "cache_coins C b s op = None"
    "\<exists>s' stxos. cache_addTxIn C lg b txIn [] (cache_addTxOut lg op txOut cb h s) = Inr (stxos, s') \<and> cache_coins C b s' op = Some old"
proof -
  show "cache_coins C b s op = None" using assms(1,2) by (simp add: cache_coins_def unspent_def)
  let ?s = "cache_put lg op (Some (cached_output txOut cb h)) s"
  let ?ms = "uc_cachedEntries ?s"
  have g: "ms_get ?ms op = Some (Some (cached_output txOut cb h))" by simp
  have f: "fetchEntries C lg b [op] ?s = Inr ([Some (cached_output txOut cb h)], ?s)" using g by (simp add: fetchEntries_def)
  have fresh: "isFresh (Spend (cached_output txOut cb h))" by (simp add: Spend_def cached_output_def isFresh_def IsSpent_def tf_flags)
  obtain stxos s' where s': "cache_addTxIn C lg b txIn [] ?s = Inr (stxos, s')"
    "uc_cachedEntries s' = ms_delete op (spend_cached op (cached_output txOut cb h) ?ms)"
    using f fresh assms(5) by (simp add: cache_addTxIn_def Let_def)
  have "ms_get (uc_cachedEntries s') op = None" unfolding s'(2) by (simp add: cached.get_del)
  then have "cache_coins C b s' op = Some old" using assms(4) by (simp add: cache_coins_def)
  then show "\<exists>s' stxos. cache_addTxIn C lg b txIn [] (cache_addTxOut lg op txOut cb h s) = Inr (stxos, s') \<and> cache_coins C b s' op = Some old"
    using s'(1) assms(3) by (auto simp: cache_addTxOut_put)
qed

subsection \<open>Properties\<close>

text \<open>
  C38. Connecting the transactions of a block to the cache refines the ledger: where each of them spends coins that exist and
  creates outputs that the database has never seen, it succeeds, the spent outputs are those of the ledger in its order, the cache stays
  consistent with the database, and the coins behind it are those that the ledger has after the block.\<close>

theorem cache_connect_refines:
  assumes "curve_ok C" "bucket_ok C b" "coherent C b s"
    "valid_txs dh (bk_Height blk) (cache_coins C b s) (bk_Transactions blk)" "list_all (tx_ok_for dh b (bk_Height blk)) (bk_Transactions blk)"
  shows "\<exists>s'. cache_connectTransactions C lg dh b blk [] s =
      Inr (block_details dh (bk_Height blk) (cache_coins C b s) (bk_Transactions blk), s') \<and> coherent C b s' \<and>
    cache_coins C b s' = apply_txs dh (bk_Height blk) (bk_Transactions blk) (cache_coins C b s)"
  using cache_connect_txs_ok [OF assms, of lg "[]"] by (simp add: cache_connectTransactions_def)

definition cached_coin :: UtxoEntry where
  "cached_coin = \<lparr>ue_amount = 5000, ue_pkScript = [0x51], ue_blockHeight = 7, ue_packedFlags = 0\<rparr>"

definition cached_bucket :: bucket where
  "cached_bucket = fmupd (outpointKey stored_op) (entry_bytes no_curve cached_coin) fmempty"

definition cached_spend :: MsgTx where
  "cached_spend = \<lparr>tx_Version = 1,
     tx_TxIn = [\<lparr>ti_PreviousOutPoint = stored_op, ti_SignatureScript = [], ti_Witness = [], ti_Sequence = 0\<rparr>], tx_TxOut = [], tx_LockTime = 0\<rparr>"

definition cached_block :: blockData where
  "cached_block = \<lparr>bk_Header = moving_header, bk_Transactions = [moving_coinbase, cached_spend], bk_Height = 11\<rparr>"

definition cached_hash :: "bytes \<Rightarrow> hash" where "cached_hash b = replicate 32 2"

lemma cached_sample:
  "op_ok stored_op" "entry_ok cached_coin" "bucket_ok no_curve cached_bucket"
  "stored_coins no_curve cached_bucket stored_op = Some (coin_of cached_coin)"
proof -
  show o: "op_ok stored_op" by (simp add: op_ok_def stored_op_def)
  show e: "entry_ok cached_coin" by (simp add: entry_ok_def cached_coin_def storable_def)
  show "bucket_ok no_curve cached_bucket" unfolding cached_bucket_def by (rule single_bucket_ok [OF o e])
  have "fmlookup cached_bucket (outpointKey stored_op) = Some (entry_bytes no_curve cached_coin)" by (simp add: cached_bucket_def)
  then show "stored_coins no_curve cached_bucket stored_op = Some (coin_of cached_coin)"
    using stored_coins_entry(2) [OF no_curve_ok o e] by simp
qed

lemma created_once: "created_from h cb bh 0 [txOut] op =
   (if op = \<lparr>out_Hash = h, out_Index = 0\<rparr> \<and> \<not> IsUnspendable (to_PkScript txOut)
    then Some \<lparr>co_amount = to_Value txOut, co_pkScript = to_PkScript txOut, co_height = bh, co_coinbase = cb\<rparr> else None)"
  by (simp add: created_from_Cons created_from_def fun_eq_iff)

lemma cached_block_valid:
  "valid_txs cached_hash 11 (stored_coins no_curve cached_bucket) [moving_coinbase, cached_spend]"
  "list_all (tx_ok_for cached_hash cached_bucket 11) [moving_coinbase, cached_spend]"
proof -
  let ?coins = "stored_coins no_curve cached_bucket"
  let ?new = "\<lparr>out_Hash = replicate 32 2, out_Index = 0\<rparr>"
  have out: "tx_TxOut moving_coinbase = [\<lparr>to_Value = 50, to_PkScript = []\<rparr>]" "tx_TxOut cached_spend = []"
    by (simp_all add: moving_coinbase_def cached_spend_def)
  have h: "TxHash cached_hash tx = replicate 32 2" for tx by (simp add: TxHash_def cached_hash_def)
  have ne: "?new \<noteq> stored_op" by (simp add: stored_op_def)
  moreover have "op_ok ?new" by (simp add: op_ok_def)
  ultimately have none: "fmlookup cached_bucket (outpointKey ?new) = None"
    using outpointKey_inject [of ?new stored_op] cached_sample(1) by (auto simp: cached_bucket_def)
  then have n: "?coins ?new = None" using stored_coins_none by blast
  have cb: "IsCoinBaseTx moving_coinbase" "\<not> IsCoinBaseTx cached_spend" "\<not> IsUnspendable []"
    using moving_block_parts by (simp_all add: IsCoinBaseTx_def cached_spend_def stored_op_def)
  have c: "created cached_hash 11 moving_coinbase = [?new \<mapsto> \<lparr>co_amount = 50, co_pkScript = [], co_height = 11, co_coinbase = True\<rparr>]"
    using cb by (auto simp: created_def h out created_once fun_eq_iff)
  have s: "created cached_hash 11 cached_spend = Map.empty" by (simp add: created_def out created_from_def fun_eq_iff)
  have p: "prevouts cached_spend = [stored_op]" by (simp add: prevouts_def cached_spend_def)
  show "valid_txs cached_hash 11 ?coins [moving_coinbase, cached_spend]"
    using cb n ne cached_sample(4) by (simp add: spends_ok_def creates_ok_def c s p apply_tx_def dom_def)
  show "list_all (tx_ok_for cached_hash cached_bucket 11) [moving_coinbase, cached_spend]"
    using none by (simp add: tx_ok_for_def outs_ok_def h out storable_def)
qed

theorem cache_connect_refines_witness:
  "\<exists>s'. cache_connectTransactions no_curve (\<lambda>_. 0) cached_hash cached_bucket cached_block [] (newUtxoCache (\<lambda>_. 0) 0) =
      Inr ([coin_details (coin_of cached_coin)], s') \<and> cache_coins no_curve cached_bucket s' stored_op = None"
proof -
  have "bk_Height cached_block = 11" "bk_Transactions cached_block = [moving_coinbase, cached_spend]" by (simp_all add: cached_block_def)
  then obtain s' where s': "cache_connectTransactions no_curve (\<lambda>_. 0) cached_hash cached_bucket cached_block [] (newUtxoCache (\<lambda>_. 0) 0) =
      Inr (block_details cached_hash 11 (stored_coins no_curve cached_bucket) [moving_coinbase, cached_spend], s')"
    "cache_coins no_curve cached_bucket s' = apply_txs cached_hash 11 [moving_coinbase, cached_spend] (stored_coins no_curve cached_bucket)"
    using cache_connect_refines [OF no_curve_ok cached_sample(3) new_cache(1), of cached_hash cached_block "\<lambda>_. 0" 0 "\<lambda>_. 0"]
      cached_block_valid unfolding new_cache(2) by auto
  have p: "prevouts cached_spend = [stored_op]" "tx_TxOut cached_spend = []" by (simp_all add: prevouts_def cached_spend_def)
  have cb: "IsCoinBaseTx moving_coinbase" "\<not> IsCoinBaseTx cached_spend"
    using moving_block_parts by (simp_all add: IsCoinBaseTx_def cached_spend_def stored_op_def)
  have "\<lparr>out_Hash = TxHash cached_hash moving_coinbase, out_Index = i\<rparr> \<noteq> stored_op" for i
    by (simp add: TxHash_def cached_hash_def stored_op_def)
  then have "created cached_hash 11 moving_coinbase stored_op = None"
    by (auto simp: created_def created_from_def stored_op_def TxHash_def cached_hash_def)
  then have "apply_tx cached_hash 11 moving_coinbase (stored_coins no_curve cached_bucket) stored_op = Some (coin_of cached_coin)"
    using cb cached_sample(4) by (simp add: apply_tx_def map_add_def)
  then have "block_details cached_hash 11 (stored_coins no_curve cached_bucket) [moving_coinbase, cached_spend] = [coin_details (coin_of cached_coin)]"
    "apply_txs cached_hash 11 [moving_coinbase, cached_spend] (stored_coins no_curve cached_bucket) stored_op = None"
    using cb by (simp_all add: tx_details_def spent_coins_def p) (simp add: apply_tx_def p created_def created_from_def)
  with s' show ?thesis by auto
qed

text \<open>
  C39. Flushing keeps the coins: in every mode and whatever the order in which the maps are visited, a flush of a consistent cache succeeds and leaves the
  coins behind the cache unchanged and the cache consistent; when it is due, the database itself then holds exactly these coins and
  names the block up to which it does.\<close>

theorem flush_keeps_coins:
  assumes "curve_ok C" "iterates ord" "bucket_ok C (db_utxoSet db)" "coherent C (db_utxoSet db) s"
  shows "\<exists>s' db'. cache_flush C ord mode bestHash now s db = Inr (s', db') \<and>
    bucket_ok C (db_utxoSet db') \<and> coherent C (db_utxoSet db') s' \<and>
    cache_coins C (db_utxoSet db') s' = cache_coins C (db_utxoSet db) s \<and>
    (shouldFlush mode bestHash now s \<longrightarrow> stored_coins C (db_utxoSet db') = cache_coins C (db_utxoSet db) s \<and>
       dbFetchUtxoStateConsistency db' = Some bestHash \<and> uc_lastFlushHash s' = bestHash)"
  using assms by (rule cache_flush_ok)

text \<open>An order of the keys, for a concrete iteration.\<close>

instantiation OutPoint_ext :: (linorder) linorder
begin

definition less_eq_OutPoint_ext :: "'a OutPoint_scheme \<Rightarrow> 'a OutPoint_scheme \<Rightarrow> bool" where
  "less_eq_OutPoint_ext a b \<longleftrightarrow> (out_Hash a, out_Index a, OutPoint.more a) \<le> (out_Hash b, out_Index b, OutPoint.more b)"

definition less_OutPoint_ext :: "'a OutPoint_scheme \<Rightarrow> 'a OutPoint_scheme \<Rightarrow> bool" where
  "less_OutPoint_ext a b \<longleftrightarrow> (out_Hash a, out_Index a, OutPoint.more a) < (out_Hash b, out_Index b, OutPoint.more b)"

instance
  by standard (auto simp: less_eq_OutPoint_ext_def less_OutPoint_ext_def intro: OutPoint.equality)

end

definition sorted_iteration :: mapOrder where "sorted_iteration m = sorted_list_of_fmap m"

lemma sorted_iteration_iterates: "iterates sorted_iteration"
proof -
  have "distinct (map fst (sorted_list_of_fmap m))" for m :: utxoMap by (simp add: sorted_list_of_fmap_def comp_def sorted_list_of_fset.rep_eq)
  then show ?thesis by (simp add: iterates_def sorted_iteration_def)
qed

theorem flush_keeps_coins_witness:
  "\<exists>s s' db'. cache_addTxIn no_curve (\<lambda>_. 0) cached_bucket (hd (tx_TxIn cached_spend)) [] (newUtxoCache (\<lambda>_. 0) 0) =
      Inr ([coin_details (coin_of cached_coin)], s) \<and>
    cache_flush no_curve sorted_iteration FlushRequired (replicate 32 3) 0 s (empty_db\<lparr>db_utxoSet := cached_bucket\<rparr>) = Inr (s', db') \<and>
    stored_coins no_curve (db_utxoSet db') stored_op = None"
proof -
  let ?db = "empty_db\<lparr>db_utxoSet := cached_bucket\<rparr>"
  have "cache_coins no_curve cached_bucket (newUtxoCache (\<lambda>_. 0) 0) (ti_PreviousOutPoint (hd (tx_TxIn cached_spend))) = Some (coin_of cached_coin)"
    using cached_sample(4) by (simp add: new_cache(2) cached_spend_def)
  from cache_addTxIn_ok [OF no_curve_ok cached_sample(3) new_cache(1) this, of "\<lambda>_. 0" "[]"] obtain s where
    s: "cache_addTxIn no_curve (\<lambda>_. 0) cached_bucket (hd (tx_TxIn cached_spend)) [] (newUtxoCache (\<lambda>_. 0) 0) =
      Inr ([coin_details (coin_of cached_coin)], s)" "coherent no_curve (db_utxoSet ?db) s" "cache_coins no_curve (db_utxoSet ?db) s stored_op = None"
    by (auto simp: cached_spend_def)
  have "bucket_ok no_curve (db_utxoSet ?db)" using cached_sample(3) by simp
  from flush_keeps_coins [OF no_curve_ok sorted_iteration_iterates this s(2), of FlushRequired "replicate 32 3" 0]
  have "\<exists>s' db'. cache_flush no_curve sorted_iteration FlushRequired (replicate 32 3) 0 s ?db = Inr (s', db') \<and>
      stored_coins no_curve (db_utxoSet db') = cache_coins no_curve (db_utxoSet ?db) s"
    by (auto simp: shouldFlush_def)
  with s show ?thesis by auto
qed

end
