(* ===== verification/Orphan_Pool.thy ===== *)
theory Orphan_Pool
  imports Chain_Store
begin

text \<open>
  The pool of orphan blocks (\<^verbatim>\<open>node/blockchain/chain.go\<close>): blocks whose parent is not known yet, by their hash and by
  the hash of the parent, with the one that expires first. The order of the iteration over a map is a parameter. The lemmas show
  that both maps agree, that the pool is bounded, and that the walk to the root of an orphan ends.
\<close>

subsection \<open>The pool\<close>

record orphanBlock =
  ob_block :: utilBlock
  ob_expiration :: int

definition maxOrphanBlocks :: nat where "maxOrphanBlocks = 25"

record orphanPool =
  po_orphans :: "(hash, orphanBlock) fmap"
  po_prevOrphans :: "(hash, orphanBlock list) fmap"
  po_oldestOrphan :: "orphanBlock option"

definition orphan_hash :: "(bytes \<Rightarrow> hash) \<Rightarrow> orphanBlock \<Rightarrow> hash" where
  "orphan_hash dh orphan = BlockHash dh (ub_header (ob_block orphan))"

definition orphan_prev :: "orphanBlock \<Rightarrow> hash" where
  "orphan_prev orphan = bh_PrevBlock (ub_header (ob_block orphan))"

definition IsKnownOrphan :: "orphanPool \<Rightarrow> hash \<Rightarrow> bool" where
  "IsKnownOrphan pool h \<longleftrightarrow> fmlookup (po_orphans pool) h \<noteq> None"

definition prev_orphans :: "orphanPool \<Rightarrow> hash \<Rightarrow> orphanBlock list" where
  "prev_orphans pool h = (case fmlookup (po_prevOrphans pool) h of None \<Rightarrow> [] | Some orphans \<Rightarrow> orphans)"

definition removeOrphanBlock :: "(bytes \<Rightarrow> hash) \<Rightarrow> orphanBlock \<Rightarrow> orphanPool \<Rightarrow> orphanPool" where
  "removeOrphanBlock dh orphan pool =
     (let orphanHash = orphan_hash dh orphan;
          prevHash = orphan_prev orphan;
          orphans = filter (\<lambda>x. orphan_hash dh x \<noteq> orphanHash) (prev_orphans pool prevHash)
      in pool\<lparr>po_orphans := fmdrop orphanHash (po_orphans pool),
              po_prevOrphans := (if orphans = [] then fmdrop prevHash (po_prevOrphans pool) else fmupd prevHash orphans (po_prevOrphans pool))\<rparr>)"

text \<open>One orphan of the iteration: it is removed when it has expired, otherwise it may be the oldest one.\<close>

definition visit_orphan :: "(bytes \<Rightarrow> hash) \<Rightarrow> int \<Rightarrow> orphanBlock \<Rightarrow> orphanPool \<Rightarrow> orphanPool" where
  "visit_orphan dh now oBlock pool =
     (if now > ob_expiration oBlock then removeOrphanBlock dh oBlock pool
      else if (case po_oldestOrphan pool of None \<Rightarrow> True | Some oldest \<Rightarrow> ob_expiration oBlock < ob_expiration oldest)
      then pool\<lparr>po_oldestOrphan := Some oBlock\<rparr>
      else pool)"

text \<open>The order in which the iteration over the map visits the orphans is a parameter; the clock stands still during a call.\<close>

definition orphan_lifetime :: int where "orphan_lifetime = 3600 * 10 ^ 9"

definition addOrphanBlock ::
  "(bytes \<Rightarrow> hash) \<Rightarrow> ((hash, orphanBlock) fmap \<Rightarrow> orphanBlock list) \<Rightarrow> int \<Rightarrow> utilBlock \<Rightarrow> orphanPool \<Rightarrow> go_error + orphanPool" where
  "addOrphanBlock dh ord now block pool =
     (let pool = fold (visit_orphan dh now) (ord (po_orphans pool)) pool
      in sbind (if size (fmdom (po_orphans pool)) + 1 > maxOrphanBlocks
                then (case po_oldestOrphan pool of
                        None \<Rightarrow> Inl goPanic
                      | Some oldest \<Rightarrow> Inr ((removeOrphanBlock dh oldest pool)\<lparr>po_oldestOrphan := None\<rparr>))
                else Inr pool) (\<lambda>pool.
           let oBlock = \<lparr>ob_block = block, ob_expiration = now + orphan_lifetime\<rparr>;
               prevHash = orphan_prev oBlock
           in Inr (pool\<lparr>po_orphans := fmupd (orphan_hash dh oBlock) oBlock (po_orphans pool),
                        po_prevOrphans := fmupd prevHash (prev_orphans pool prevHash @ [oBlock]) (po_prevOrphans pool)\<rparr>)))"

text \<open>The walk from an orphan to the first of its ancestors whose parent is no orphan.\<close>

partial_function (option) orphan_root :: "orphanPool \<Rightarrow> hash \<Rightarrow> hash \<Rightarrow> hash option" where
  "orphan_root pool orphanRoot prevHash =
     (case fmlookup (po_orphans pool) prevHash of
        None \<Rightarrow> Some orphanRoot
      | Some orphan \<Rightarrow> orphan_root pool prevHash (orphan_prev orphan))"

definition GetOrphanRoot :: "orphanPool \<Rightarrow> hash \<Rightarrow> hash option" where
  "GetOrphanRoot pool h = orphan_root pool h h"

subsection \<open>The well-formed pools\<close>

text \<open>
  Every orphan is stored under its hash and listed once below its parent, and nothing else is listed. The number of orphans
  may exceed the limit by one, but only as long as no oldest orphan is known.\<close>

definition orphan_ok :: "orphanBlock \<Rightarrow> bool" where
  "orphan_ok orphan \<longleftrightarrow> header_ok (ub_header (ob_block orphan))"

definition pool_links :: "(bytes \<Rightarrow> hash) \<Rightarrow> orphanPool \<Rightarrow> bool" where
  "pool_links dh pool \<longleftrightarrow>
     (\<forall>h x. fmlookup (po_orphans pool) h = Some x \<longrightarrow>
        orphan_hash dh x = h \<and> x \<in> set (prev_orphans pool (orphan_prev x)) \<and> orphan_ok x) \<and>
     (\<forall>p x. x \<in> set (prev_orphans pool p) \<longrightarrow> orphan_prev x = p \<and> fmlookup (po_orphans pool) (orphan_hash dh x) = Some x) \<and>
     (\<forall>p. distinct (prev_orphans pool p) \<and> fmlookup (po_prevOrphans pool) p \<noteq> Some []) \<and>
     (\<forall>x. po_oldestOrphan pool = Some x \<longrightarrow> orphan_ok x)"

text \<open>Equal hashes name the same parent; what is needed of the hash function.\<close>

definition names_parents :: "(bytes \<Rightarrow> hash) \<Rightarrow> bool" where
  "names_parents dh \<longleftrightarrow>
     (\<forall>a b. header_ok a \<and> header_ok b \<and> BlockHash dh a = BlockHash dh b \<longrightarrow> bh_PrevBlock a = bh_PrevBlock b)"

lemma orphan_parents:
  "names_parents dh \<Longrightarrow> orphan_ok x \<Longrightarrow> orphan_ok y \<Longrightarrow> orphan_hash dh x = orphan_hash dh y \<Longrightarrow> orphan_prev x = orphan_prev y"
  unfolding names_parents_def orphan_ok_def orphan_hash_def orphan_prev_def by metis

definition pool_size :: "orphanPool \<Rightarrow> nat" where "pool_size pool = size (fmdom (po_orphans pool))"

definition pool_bound :: "orphanPool \<Rightarrow> bool" where
  "pool_bound pool \<longleftrightarrow> pool_size pool \<le> maxOrphanBlocks \<or> pool_size pool = maxOrphanBlocks + 1 \<and> po_oldestOrphan pool = None"

lemma prev_orphans_remove:
  "prev_orphans (removeOrphanBlock dh orphan pool) p =
     (if p = orphan_prev orphan then filter (\<lambda>x. orphan_hash dh x \<noteq> orphan_hash dh orphan) (prev_orphans pool p) else prev_orphans pool p)"
  by (auto simp: prev_orphans_def removeOrphanBlock_def Let_def)

lemma orphans_remove [simp]:
  "po_orphans (removeOrphanBlock dh orphan pool) = fmdrop (orphan_hash dh orphan) (po_orphans pool)"
  "po_oldestOrphan (removeOrphanBlock dh orphan pool) = po_oldestOrphan pool"
  by (simp_all add: removeOrphanBlock_def Let_def)

lemma pool_linksD:
  assumes "pool_links dh pool"
  shows "fmlookup (po_orphans pool) h = Some x \<Longrightarrow> orphan_hash dh x = h"
    "fmlookup (po_orphans pool) h = Some x \<Longrightarrow> x \<in> set (prev_orphans pool (orphan_prev x))"
    "fmlookup (po_orphans pool) h = Some x \<Longrightarrow> orphan_ok x"
    "x \<in> set (prev_orphans pool p) \<Longrightarrow> orphan_prev x = p"
    "x \<in> set (prev_orphans pool p) \<Longrightarrow> fmlookup (po_orphans pool) (orphan_hash dh x) = Some x"
    "distinct (prev_orphans pool p)" "fmlookup (po_prevOrphans pool) p \<noteq> Some []"
    "po_oldestOrphan pool = Some x \<Longrightarrow> orphan_ok x"
proof -
  note l = assms [unfolded pool_links_def]
  note a = conjunct1 [OF l] and b = conjunct1 [OF conjunct2 [OF l]] and c = conjunct1 [OF conjunct2 [OF conjunct2 [OF l]]]
    and d = conjunct2 [OF conjunct2 [OF conjunct2 [OF l]]]
  show "fmlookup (po_orphans pool) h = Some x \<Longrightarrow> orphan_hash dh x = h"
    "fmlookup (po_orphans pool) h = Some x \<Longrightarrow> x \<in> set (prev_orphans pool (orphan_prev x))"
    "fmlookup (po_orphans pool) h = Some x \<Longrightarrow> orphan_ok x" using a by simp_all
  show "x \<in> set (prev_orphans pool p) \<Longrightarrow> orphan_prev x = p"
    "x \<in> set (prev_orphans pool p) \<Longrightarrow> fmlookup (po_orphans pool) (orphan_hash dh x) = Some x" using b by blast+
  show "distinct (prev_orphans pool p)" "fmlookup (po_prevOrphans pool) p \<noteq> Some []" using c by simp_all
  show "po_oldestOrphan pool = Some x \<Longrightarrow> orphan_ok x" using d by simp
qed

lemma remove_links:
  assumes "names_parents dh" "pool_links dh pool" "orphan_ok orphan"
  shows "pool_links dh (removeOrphanBlock dh orphan pool)"
proof -
  note l = pool_linksD [OF assms(2)]
  have ne: "fmlookup (po_prevOrphans (removeOrphanBlock dh orphan pool)) p \<noteq> Some []" for p
    using l(7) [of p] by (auto simp: removeOrphanBlock_def Let_def)
  have same: "orphan_prev x = orphan_prev orphan" if "x \<in> set (prev_orphans pool p)" "orphan_hash dh x = orphan_hash dh orphan" for x p
    using orphan_parents [OF assms(1) _ assms(3) that(2)] l(3) l(5) [OF that(1)] by blast
  show ?thesis unfolding pool_links_def
  proof (intro conjI allI impI)
    fix q
    show "distinct (prev_orphans (removeOrphanBlock dh orphan pool) q)" using l(6) by (simp add: prev_orphans_remove)
    show "fmlookup (po_prevOrphans (removeOrphanBlock dh orphan pool)) q \<noteq> Some []" by (rule ne)
  next
    fix h x
    assume "fmlookup (po_orphans (removeOrphanBlock dh orphan pool)) h = Some x"
    then have x: "fmlookup (po_orphans pool) h = Some x" "h \<noteq> orphan_hash dh orphan" by (auto split: if_splits)
    then show "orphan_hash dh x = h" "orphan_ok x" using l(1,3) by blast+
    then show "x \<in> set (prev_orphans (removeOrphanBlock dh orphan pool) (orphan_prev x))"
      using l(1,2) [OF x(1)] x(2) by (auto simp: prev_orphans_remove)
  next
    fix q x
    assume x: "x \<in> set (prev_orphans (removeOrphanBlock dh orphan pool) q)"
    then have m: "x \<in> set (prev_orphans pool q)" by (auto simp: prev_orphans_remove split: if_splits)
    then show p: "orphan_prev x = q" using l(4) by blast
    then have "orphan_hash dh x \<noteq> orphan_hash dh orphan"
      using x same [OF m] by (auto simp: prev_orphans_remove split: if_splits)
    then show "fmlookup (po_orphans (removeOrphanBlock dh orphan pool)) (orphan_hash dh x) = Some x" using l(5) [OF m] by simp
  next
    fix x
    assume "po_oldestOrphan (removeOrphanBlock dh orphan pool) = Some x"
    then show "orphan_ok x" using l(8) by simp
  qed
qed

lemma pool_size_card: "pool_size pool = card (fmdom' (po_orphans pool))"
  by (simp add: pool_size_def fmdom'_alt_def fcard.rep_eq)

lemma pool_size_remove:
  "pool_size (removeOrphanBlock dh orphan pool) =
     (if IsKnownOrphan pool (orphan_hash dh orphan) then pool_size pool - 1 else pool_size pool)"
  by (auto simp: pool_size_card IsKnownOrphan_def fmdom'_notI fmlookup_dom'_iff)

subsection \<open>Adding an orphan\<close>

definition visits :: "((hash, orphanBlock) fmap \<Rightarrow> orphanBlock list) \<Rightarrow> bool" where
  "visits ord \<longleftrightarrow> (\<forall>m. set (ord m) = fmran' m)"

lemma visit_links:
  "names_parents dh \<Longrightarrow> pool_links dh pool \<Longrightarrow> orphan_ok x \<Longrightarrow> pool_links dh (visit_orphan dh now x pool)"
proof -
  assume a: "names_parents dh" "pool_links dh pool" "orphan_ok x"
  then have "pool_links dh (pool\<lparr>po_oldestOrphan := Some x\<rparr>)" by (simp add: pool_links_def prev_orphans_def)
  with a remove_links show ?thesis by (simp add: visit_orphan_def)
qed

lemma visits_links:
  "names_parents dh \<Longrightarrow> pool_links dh pool \<Longrightarrow> \<forall>x \<in> set xs. orphan_ok x \<Longrightarrow> pool_links dh (fold (visit_orphan dh now) xs pool)"
  by (induction xs arbitrary: pool) (simp_all add: visit_links)

text \<open>What the iteration leaves: the orphans that have not expired.\<close>

lemma visits_orphans:
  "fmlookup (po_orphans (fold (visit_orphan dh now) xs pool)) h =
     (if \<exists>x \<in> set xs. orphan_hash dh x = h \<and> now > ob_expiration x then None else fmlookup (po_orphans pool) h)"
  by (induction xs arbitrary: pool) (auto simp: visit_orphan_def)

lemma visits_oldest:
  "(po_oldestOrphan (fold (visit_orphan dh now) xs pool) = None \<longleftrightarrow>
      po_oldestOrphan pool = None \<and> (\<forall>x \<in> set xs. now > ob_expiration x)) \<and>
   (\<forall>x. po_oldestOrphan (fold (visit_orphan dh now) xs pool) = Some x \<longrightarrow> po_oldestOrphan pool = Some x \<or> x \<in> set xs \<and> \<not> now > ob_expiration x)"
proof (induction xs arbitrary: pool)
  case (Cons y xs)
  from Cons.IH [of "visit_orphan dh now y pool"] show ?case
    by (auto simp: visit_orphan_def split: option.splits if_splits)
qed simp

lemma insert_links:
  assumes "pool_links dh pool" "orphan_ok x" "\<not> IsKnownOrphan pool (orphan_hash dh x)"
    "po_orphans new = fmupd (orphan_hash dh x) x (po_orphans pool)"
    "po_prevOrphans new = fmupd (orphan_prev x) (prev_orphans pool (orphan_prev x) @ [x]) (po_prevOrphans pool)"
    "po_oldestOrphan new = po_oldestOrphan pool"
  shows "pool_links dh new"
proof -
  note l = pool_linksD [OF assms(1)]
  have p: "prev_orphans new q = prev_orphans pool q @ (if q = orphan_prev x then [x] else [])" for q
    by (simp add: prev_orphans_def assms(5))
  have ps: "y \<in> set (prev_orphans new q) \<longleftrightarrow> y \<in> set (prev_orphans pool q) \<or> q = orphan_prev x \<and> y = x" for y q
    by (cases "q = orphan_prev x") (auto simp: p)
  have new: "orphan_hash dh y \<noteq> orphan_hash dh x" if "y \<in> set (prev_orphans pool q)" for y q
    using l(5) [OF that] assms(3) by (auto simp: IsKnownOrphan_def)
  have a: "orphan_hash dh y = h \<and> y \<in> set (prev_orphans new (orphan_prev y)) \<and> orphan_ok y" if "fmlookup (po_orphans new) h = Some y" for h y
  proof (cases "h = orphan_hash dh x")
    case False
    then have "fmlookup (po_orphans pool) h = Some y" using that assms(4) by simp
    then show ?thesis using l(1-3) by (simp add: ps)
  next
    case True
    then have "y = x" using that assms(4) by simp
    with True assms(2) show ?thesis by (simp add: ps)
  qed
  have b: "orphan_prev y = q \<and> fmlookup (po_orphans new) (orphan_hash dh y) = Some y" if y: "y \<in> set (prev_orphans new q)" for q y
  proof (cases "y \<in> set (prev_orphans pool q)")
    case True
    from l(4) [OF this] l(5) [OF this] new [OF this] show ?thesis by (simp add: assms(4))
  next
    case False
    then have "y = x" "q = orphan_prev x" using y by (simp_all add: ps)
    then show ?thesis using assms(4) by simp
  qed
  have c: "distinct (prev_orphans new q) \<and> fmlookup (po_prevOrphans new) q \<noteq> Some []" for q
    using l(6,7) new assms(5) by (cases "q = orphan_prev x") (auto simp: p)
  from a b c l(8) assms(6) show ?thesis unfolding pool_links_def by simp
qed

lemma clear_oldest: "pool_links dh pool \<Longrightarrow> pool_links dh (pool\<lparr>po_oldestOrphan := None\<rparr>)"
  by (simp add: pool_links_def prev_orphans_def)

lemma addOrphanBlock_ok:
  assumes "names_parents dh" "pool_links dh pool" "pool_bound pool" "visits ord" "header_ok (ub_header block)"
    "\<not> IsKnownOrphan pool (BlockHash dh (ub_header block))"
  shows "\<exists>pool'. addOrphanBlock dh ord now block pool = Inr pool' \<and> pool_links dh pool' \<and> pool_bound pool' \<and>
    IsKnownOrphan pool' (BlockHash dh (ub_header block)) \<and>
    (\<forall>h x. fmlookup (po_orphans pool') h = Some x \<longrightarrow>
       x = \<lparr>ob_block = block, ob_expiration = now + orphan_lifetime\<rparr> \<or> fmlookup (po_orphans pool) h = Some x \<and> now \<le> ob_expiration x)"
proof -
  let ?xs = "ord (po_orphans pool)" and ?new = "\<lparr>ob_block = block, ob_expiration = now + orphan_lifetime\<rparr>"
  let ?h = "BlockHash dh (ub_header block)"
  define pool1 where "pool1 = fold (visit_orphan dh now) ?xs pool"
  note l = pool_linksD [OF assms(2)]
  have xs: "x \<in> set ?xs \<longleftrightarrow> fmlookup (po_orphans pool) (orphan_hash dh x) = Some x" for x
    using assms(4) l(1) by (auto simp: visits_def fmran'_def fmlookup_ran'_iff)
  then have ok: "\<forall>x \<in> set ?xs. orphan_ok x" using l(3) by blast
  have l1: "pool_links dh pool1" unfolding pool1_def by (rule visits_links [OF assms(1,2) ok])
  have lk: "fmlookup (po_orphans pool1) h = Some x \<longleftrightarrow> fmlookup (po_orphans pool) h = Some x \<and> now \<le> ob_expiration x" for h x
  proof -
    have "(\<exists>y \<in> set ?xs. orphan_hash dh y = h \<and> now > ob_expiration y) \<longleftrightarrow> now > ob_expiration x" if h: "fmlookup (po_orphans pool) h = Some x"
    proof -
      from l(1) [OF h] h have "y \<in> set ?xs \<and> orphan_hash dh y = h \<longleftrightarrow> y = x" for y using xs by auto
      then show ?thesis by metis
    qed
    then show ?thesis unfolding pool1_def visits_orphans by auto
  qed
  have le: "pool_size pool1 \<le> pool_size pool"
    unfolding pool_size_card using lk by (intro card_mono) (auto simp: fmlookup_dom'_iff)
  note old = visits_oldest [of dh now ?xs pool, folded pool1_def]
  have some: "po_oldestOrphan pool1 \<noteq> None" if "pool_size pool1 \<noteq> 0"
  proof -
    from that have "fmdom' (po_orphans pool1) \<noteq> {}" by (auto simp: pool_size_card)
    then obtain h x where "fmlookup (po_orphans pool1) h = Some x" by (auto simp: fmlookup_dom'_iff)
    then have "x \<in> set ?xs" "\<not> now > ob_expiration x" using lk xs l(1) by auto
    with old show ?thesis by blast
  qed
  define pool2 where "pool2 = (if pool_size pool1 + 1 > maxOrphanBlocks
    then (removeOrphanBlock dh (the (po_oldestOrphan pool1)) pool1)\<lparr>po_oldestOrphan := None\<rparr> else pool1)"
  have two: "pool_links dh pool2 \<and> pool_size pool2 \<le> maxOrphanBlocks \<and> (pool_size pool2 = maxOrphanBlocks \<longrightarrow> po_oldestOrphan pool2 = None)"
  proof (cases "pool_size pool1 + 1 > maxOrphanBlocks")
    case True
    then obtain x where x: "po_oldestOrphan pool1 = Some x" using some by (fastforce simp: maxOrphanBlocks_def)
    have "pool_links dh (removeOrphanBlock dh x pool1)" using remove_links [OF assms(1) l1] pool_linksD(8) [OF l1 x] by blast
    then have "pool_links dh pool2" using True x clear_oldest by (simp add: pool2_def)
    moreover have "pool_size pool1 = maxOrphanBlocks + 1 \<longrightarrow> IsKnownOrphan pool1 (orphan_hash dh x)"
    proof
      assume "pool_size pool1 = maxOrphanBlocks + 1"
      then have "po_oldestOrphan pool = None" using le assms(3) by (auto simp: pool_bound_def)
      then have "x \<in> set ?xs" "\<not> now > ob_expiration x" using old x by auto
      then show "IsKnownOrphan pool1 (orphan_hash dh x)" using xs lk [of "orphan_hash dh x" x] by (simp add: IsKnownOrphan_def)
    qed
    moreover have "pool_size pool1 \<le> maxOrphanBlocks + 1" using le assms(3) by (auto simp: pool_bound_def)
    moreover have "pool_size pool2 = pool_size (removeOrphanBlock dh x pool1)" using True x by (simp add: pool2_def pool_size_def)
    ultimately show ?thesis using True x by (auto simp: pool_size_remove pool2_def)
  qed (use l1 in \<open>simp add: pool2_def\<close>)
  have lk2: "fmlookup (po_orphans pool2) h = Some x \<Longrightarrow> fmlookup (po_orphans pool1) h = Some x" for h x
    by (auto simp: pool2_def split: if_splits)
  let ?pool' = "pool2\<lparr>po_orphans := fmupd ?h ?new (po_orphans pool2),
    po_prevOrphans := fmupd (orphan_prev ?new) (prev_orphans pool2 (orphan_prev ?new) @ [?new]) (po_prevOrphans pool2)\<rparr>"
  have hn: "orphan_hash dh ?new = ?h" by (simp add: orphan_hash_def)
  have add: "addOrphanBlock dh ord now block pool = Inr ?pool'"
  proof (cases "pool_size pool1 + 1 > maxOrphanBlocks")
    case True
    then obtain x where "po_oldestOrphan pool1 = Some x" using some by (fastforce simp: maxOrphanBlocks_def)
    with True show ?thesis
      unfolding addOrphanBlock_def pool1_def [symmetric] pool2_def Let_def hn pool_size_def [symmetric] by simp
  next
    case False
    then show ?thesis
      unfolding addOrphanBlock_def pool1_def [symmetric] pool2_def Let_def hn pool_size_def [symmetric] by simp
  qed
  have fresh: "\<not> IsKnownOrphan pool2 ?h"
    using lk2 lk assms(6) by (fastforce simp: IsKnownOrphan_def)
  have "pool_links dh ?pool'" using insert_links [OF _ _ fresh [folded hn], of ?pool'] two assms(5) hn by (simp add: orphan_ok_def)
  moreover have "pool_size ?pool' = pool_size pool2 + 1"
    using fresh by (simp add: pool_size_card IsKnownOrphan_def fmlookup_dom'_iff card_insert_if)
  then have "pool_bound ?pool'" using two by (auto simp: pool_bound_def)
  moreover have "fmlookup (po_orphans ?pool') h = Some x \<Longrightarrow>
      x = ?new \<or> fmlookup (po_orphans pool) h = Some x \<and> now \<le> ob_expiration x" for h x
    using lk2 lk by (auto split: if_splits)
  ultimately show ?thesis using add by (simp add: IsKnownOrphan_def)
qed

subsection \<open>The root of an orphan\<close>

text \<open>Hashes of parents do not run in circles; then the walk ends.\<close>

lemma GetOrphanRoot_ok:
  fixes age :: "hash \<Rightarrow> nat"
  assumes "\<And>h x. fmlookup (po_orphans pool) h = Some x \<Longrightarrow> age (orphan_prev x) < age h"
  shows "\<exists>r. GetOrphanRoot pool h = Some r \<and>
    (case fmlookup (po_orphans pool) r of None \<Rightarrow> r = h | Some x \<Rightarrow> IsKnownOrphan pool h \<and> \<not> IsKnownOrphan pool (orphan_prev x))"
proof -
  have "\<exists>r. orphan_root pool k h = Some r \<and>
      (case fmlookup (po_orphans pool) h of None \<Rightarrow> r = k
       | Some _ \<Rightarrow> (\<exists>x. fmlookup (po_orphans pool) r = Some x \<and> \<not> IsKnownOrphan pool (orphan_prev x)))" for k h
  proof (induction "age h" arbitrary: h k rule: less_induct)
    case less
    show ?case
    proof (cases "fmlookup (po_orphans pool) h")
      case None
      then show ?thesis by (simp add: orphan_root.simps)
    next
      case (Some x)
      from less [OF assms [OF Some], of h] obtain r where r: "orphan_root pool h (orphan_prev x) = Some r"
        "case fmlookup (po_orphans pool) (orphan_prev x) of None \<Rightarrow> r = h
         | Some _ \<Rightarrow> (\<exists>x. fmlookup (po_orphans pool) r = Some x \<and> \<not> IsKnownOrphan pool (orphan_prev x))" by blast
      have "\<exists>x. fmlookup (po_orphans pool) r = Some x \<and> \<not> IsKnownOrphan pool (orphan_prev x)"
        using r(2) Some by (cases "fmlookup (po_orphans pool) (orphan_prev x)") (auto simp: IsKnownOrphan_def)
      with r(1) Some show ?thesis by (simp add: orphan_root.simps [of _ _ h])
    qed
  qed
  from this [of h h] show ?thesis
    by (auto simp: GetOrphanRoot_def IsKnownOrphan_def split: option.splits)
qed

text \<open>
  An oldest orphan that has left the pool meanwhile is removed again instead of one that is there, so the pool
  exceeds its limit.\<close>

lemma stale_oldest_exceeds_limit:
  assumes "pool_size pool = maxOrphanBlocks" "po_oldestOrphan pool = Some old" "\<not> IsKnownOrphan pool (orphan_hash dh old)"
    "visits ord" "\<forall>x \<in> fmran' (po_orphans pool). now \<le> ob_expiration x \<and> ob_expiration old \<le> ob_expiration x"
    "\<not> IsKnownOrphan pool (BlockHash dh (ub_header block))"
  shows "\<exists>pool'. addOrphanBlock dh ord now block pool = Inr pool' \<and> pool_size pool' = maxOrphanBlocks + 1"
proof -
  have "fold (visit_orphan dh now) xs pool = pool" if "set xs \<subseteq> fmran' (po_orphans pool)" for xs
    using that
  proof (induction xs)
    case (Cons x xs)
    then have "visit_orphan dh now x pool = pool" using assms(2,5) by (fastforce simp: visit_orphan_def)
    with Cons show ?case by simp
  qed simp
  then have f: "fold (visit_orphan dh now) (ord (po_orphans pool)) pool = pool" using assms(4) by (simp add: visits_def)
  let ?pool = "(removeOrphanBlock dh old pool)\<lparr>po_oldestOrphan := None\<rparr>"
  have r: "po_orphans ?pool = po_orphans pool"
    using assms(3) by (intro fmap_ext) (simp add: IsKnownOrphan_def)
  have "orphan_hash dh \<lparr>ob_block = block, ob_expiration = now + orphan_lifetime\<rparr> = BlockHash dh (ub_header block)"
    by (simp add: orphan_hash_def)
  then show ?thesis
    using assms(1,2,6) r
    unfolding addOrphanBlock_def f Let_def pool_size_def [symmetric]
    by (simp add: pool_size_card IsKnownOrphan_def fmlookup_dom'_iff card_insert_if)
qed

subsection \<open>Property\<close>

text \<open>
  C40. The pool of orphans stays well-formed: for a hash function that does not give the hash of one block to another with a
  different parent, adding a block that is not in the pool never follows a nil pointer, whatever the order of the iteration; afterwards
  every orphan is stored under its hash and listed exactly once below its parent, the new block is in the pool, no orphan is expired, and the
  pool has at most one orphan more than its limit, and then no oldest one is remembered.\<close>

theorem orphan_pool_well_formed:
  assumes "names_parents dh" "pool_links dh pool" "pool_bound pool" "visits ord" "header_ok (ub_header block)"
    "\<not> IsKnownOrphan pool (BlockHash dh (ub_header block))"
  shows "\<exists>pool'. addOrphanBlock dh ord now block pool = Inr pool' \<and> pool_links dh pool' \<and> pool_bound pool' \<and>
    IsKnownOrphan pool' (BlockHash dh (ub_header block)) \<and>
    (\<forall>h x. fmlookup (po_orphans pool') h = Some x \<longrightarrow> now \<le> ob_expiration x)"
  using addOrphanBlock_ok [OF assms, of now] by (fastforce simp: orphan_lifetime_def)

definition parent_hash_of :: "bytes \<Rightarrow> hash" where "parent_hash_of b = take 32 (drop 4 b)"

definition orphan_sample :: utilBlock where
  "orphan_sample = \<lparr>ub_MsgBlock = \<lparr>mb_MsgHeader = \<lparr>mh_MsgCertificate = None, mh_BlockHeader = \<lparr>bh_Version = 1, bh_PrevBlock = replicate 32 5,
     bh_MerkleRoot = replicate 32 6, bh_Timestamp = 7, bh_Bits = 8, bh_ProofCommitment = replicate 32 9\<rparr>\<rparr>, mb_Transactions = []\<rparr>, ub_Height = 0\<rparr>"

definition no_orphans :: orphanPool where
  "no_orphans = \<lparr>po_orphans = fmempty, po_prevOrphans = fmempty, po_oldestOrphan = None\<rparr>"

definition sorted_orphans :: "(hash, orphanBlock) fmap \<Rightarrow> orphanBlock list" where
  "sorted_orphans m = map snd (sorted_list_of_fmap m)"

lemma sorted_orphans_visits: "visits sorted_orphans"
proof -
  have "x \<in> snd ` set (sorted_list_of_fmap m) \<longleftrightarrow> x \<in> fmran' m" for x and m :: "(hash, orphanBlock) fmap"
    by (force simp: sorted_list_of_fmap_def fmlookup_ran'_iff fmlookup_dom_iff sorted_list_of_fset.rep_eq)
  then show ?thesis by (auto simp: visits_def sorted_orphans_def)
qed

theorem orphan_pool_well_formed_witness:
  "\<exists>pool'. addOrphanBlock parent_hash_of sorted_orphans 3 orphan_sample no_orphans = Inr pool' \<and> IsKnownOrphan pool' (replicate 32 5)"
proof -
  have "names_parents parent_hash_of"
    by (auto simp: names_parents_def parent_hash_of_def BlockHash_def writeBlockHeaderBuf_def header_ok_def)
  moreover have "pool_links parent_hash_of no_orphans" "pool_bound no_orphans"
    by (simp_all add: pool_links_def no_orphans_def prev_orphans_def pool_bound_def pool_size_def)
  moreover have "header_ok (ub_header orphan_sample)" by (simp add: orphan_sample_def header_ok_def)
  moreover have "BlockHash parent_hash_of (ub_header orphan_sample) = replicate 32 5"
    by (simp add: orphan_sample_def BlockHash_def parent_hash_of_def writeBlockHeaderBuf_def)
  moreover have "\<not> IsKnownOrphan no_orphans (replicate 32 5)" by (simp add: IsKnownOrphan_def no_orphans_def)
  ultimately show ?thesis
    using orphan_pool_well_formed [of parent_hash_of no_orphans sorted_orphans orphan_sample 3] sorted_orphans_visits by auto
qed

end
