(* ===== verification/Chain_State.thy ===== *)
theory Chain_State
  imports Utxo_Cache Orphan_Pool Deployments
begin

text \<open>
  The state of the chain and the operations that change it (\<^verbatim>\<open>node/blockchain/chain.go\<close>, \<^verbatim>\<open>accept.go\<close>, \<^verbatim>\<open>process.go\<close>, the start and the
  recovery in \<^verbatim>\<open>chainio.go\<close> and \<^verbatim>\<open>utxocache.go\<close>): connecting and disconnecting a block, reorganizing, choosing the best chain,
  accepting a block and the orphans that wait for it. A method is a function of the state that returns an error or a value, and the state in both
  cases. The locks are left out, and with them the callbacks that run while the lock of the chain is released.
\<close>

subsection \<open>The state of the chain\<close>

text \<open>Errors by the package that raises them.\<close>

datatype chain_error = fromRules rule_error | fromDB db_error | fromGo go_error

text \<open>
  What the chain is configured with, and what it is given from outside: the storage of the database prunes blocks, optional
  indexes may refuse a block, and iterations over maps have some order.\<close>

record 'k chainConfig =
  cc_crypto :: crypto
  cc_sigPick :: sig_pick
  cc_hashPick :: hash_pick
  cc_rules :: ruleParams
  cc_voting :: votingParams
  cc_zk :: zkFFI
  cc_genesis :: MsgBlock
  cc_curve :: "'k curve"
  cc_log :: "int \<Rightarrow> nat"
  cc_pruneTarget :: nat
  cc_PruneBlocks :: "nat \<Rightarrow> chainDB \<Rightarrow> db_error + hash list \<times> chainDB"
  cc_indexConnect :: "utilBlock \<Rightarrow> SpentTxOut list \<Rightarrow> db_error + unit"
  cc_indexDisconnect :: "utilBlock \<Rightarrow> SpentTxOut list \<Rightarrow> db_error + unit"
  cc_mapOrder :: mapOrder
  cc_viewOrder :: "UtxoViewpoint \<Rightarrow> (OutPoint \<times> UtxoEntry option) list"
  cc_orphanOrder :: "(hash, orphanBlock) fmap \<Rightarrow> orphanBlock list"
  cc_indexOrder :: "blockIndex \<Rightarrow> (hash \<times> blockNode) list"

abbreviation cc_dh :: "'k chainConfig \<Rightarrow> bytes \<Rightarrow> hash" where "cc_dh cfg \<equiv> DoubleHashRaw (cc_crypto cfg)"
abbreviation cc_params :: "'k chainConfig \<Rightarrow> connectParams" where "cc_params cfg \<equiv> rp_connect (cc_rules cfg)"

text \<open>The clocks during a call: the local time in seconds and in nanoseconds, the adjusted time, and the fraction of a second of a header.\<close>

record clocks =
  cl_seconds :: int
  cl_nanos :: int
  cl_adjusted :: int
  cl_fraction :: "BlockHeader \<Rightarrow> int"

record chainState =
  st_index :: blockIndex
  st_status :: statuses
  st_dirty :: "blockNode list"
  st_bestChain :: chainView
  st_utxoCache :: utxoCache
  st_db :: chainDB
  st_snapshot :: BestState
  st_pool :: orphanPool
  st_checkpoint :: checkpointState
  st_voting :: votingState
  st_caches :: scriptCaches

text \<open>A method of the chain returns an error or a value and the state; the loops over windows may not return.\<close>

type_synonym 'a chainM = "chainState \<Rightarrow> ((chain_error + 'a) \<times> chainState) option"

definition cm_return :: "'a \<Rightarrow> 'a chainM" where "cm_return x s = Some (Inr x, s)"
definition cm_throw :: "chain_error \<Rightarrow> 'a chainM" where "cm_throw e s = Some (Inl e, s)"

definition cm_bind :: "'a chainM \<Rightarrow> ('a \<Rightarrow> 'b chainM) \<Rightarrow> 'b chainM" where
  "cm_bind m f s = (case m s of None \<Rightarrow> None | Some (Inl e, s) \<Rightarrow> Some (Inl e, s) | Some (Inr x, s) \<Rightarrow> f x s)"

definition cm_lift :: "('e \<Rightarrow> chain_error) \<Rightarrow> 'e + 'a \<Rightarrow> 'a chainM" where
  "cm_lift from r = (case r of Inl e \<Rightarrow> cm_throw (from e) | Inr x \<Rightarrow> cm_return x)"

definition cm_update :: "(chainState \<Rightarrow> chainState) \<Rightarrow> unit chainM" where "cm_update f s = Some (Inr (), f s)"

definition cm_guard :: "bool \<Rightarrow> chain_error \<Rightarrow> unit chainM" where "cm_guard b e = (if b then cm_return () else cm_throw e)"

text \<open>A pointer that is nil is a panic when it is followed.\<close>

definition cm_deref :: "'a option \<Rightarrow> 'a chainM" where
  "cm_deref p = (case p of None \<Rightarrow> cm_throw (fromGo goPanic) | Some x \<Rightarrow> cm_return x)"

subsection \<open>Transactions of the database\<close>

text \<open>
  A function that runs in a transaction of the database and returns the database to commit; the cache, which it may flush, is not rolled
  back when the transaction fails.\<close>

type_synonym dbFunction = "utxoCache \<Rightarrow> chainDB \<Rightarrow> (db_error + chainDB) \<times> utxoCache"

definition cm_Update :: "dbFunction \<Rightarrow> unit chainM" where
  "cm_Update f s =
     (case f (st_utxoCache s) (st_db s) of
        (Inl e, cache) \<Rightarrow> Some (Inl (fromDB e), s\<lparr>st_utxoCache := cache\<rparr>)
      | (Inr db, cache) \<Rightarrow> Some (Inr (), s\<lparr>st_utxoCache := cache, st_db := db\<rparr>))"

definition tx_bind :: "dbFunction \<Rightarrow> dbFunction \<Rightarrow> dbFunction" where
  "tx_bind f g cache db = (case f cache db of (Inl e, cache) \<Rightarrow> (Inl e, cache) | (Inr db, cache) \<Rightarrow> g cache db)"

definition tx_write :: "(chainDB \<Rightarrow> db_error + chainDB) \<Rightarrow> dbFunction" where
  "tx_write f cache db = (f db, cache)"

definition tx_flush :: "'k chainConfig \<Rightarrow> clocks \<Rightarrow> FlushMode \<Rightarrow> hash \<Rightarrow> dbFunction" where
  "tx_flush cfg clk mode bestHash cache db =
     (case cache_flush (cc_curve cfg) (cc_mapOrder cfg) mode bestHash (cl_seconds clk) cache db of
        Inl e \<Rightarrow> (Inl e, cache)
      | Inr (cache, db) \<Rightarrow> (Inr db, cache))"

definition flushToDB :: "unit chainM" where
  "flushToDB s =
     (if st_dirty s = [] then Some (Inr (), s)
      else Some (Inr (), s\<lparr>st_db := fold (\<lambda>node. dbStoreBlockStatus (bn_hash node) (st_status s node)) (st_dirty s) (st_db s), st_dirty := []\<rparr>))"

definition mark_dirty :: "blockNode list \<Rightarrow> chainState \<Rightarrow> chainState" where
  "mark_dirty nodes s = s\<lparr>st_dirty := st_dirty s @ filter (\<lambda>n. n \<notin> set (st_dirty s)) nodes\<rparr>"

definition set_flags :: "blockNode \<Rightarrow> byte \<Rightarrow> unit chainM" where
  "set_flags node flags = cm_update (\<lambda>s. mark_dirty [node] (s\<lparr>st_status := SetStatusFlags (st_status s) node flags\<rparr>))"

definition FlushUtxoCache :: "'k chainConfig \<Rightarrow> clocks \<Rightarrow> FlushMode \<Rightarrow> unit chainM" where
  "FlushUtxoCache cfg clk mode s =
     (let bestHash = be_Hash (st_snapshot s)
      in if \<not> shouldFlush mode bestHash (cl_seconds clk) (st_utxoCache s) then Some (Inr (), s)
         else cm_Update (tx_flush cfg clk mode bestHash) s)"

definition flushNeededAfterPrune :: "blockIndex \<Rightarrow> hash \<Rightarrow> hash list \<Rightarrow> bool" where
  "flushNeededAfterPrune bi lastFlushHash deletedBlockHashes =
     (case LookupNode bi lastFlushHash of
        None \<Rightarrow> True
      | Some node \<Rightarrow>
          let highestDeletedHeight =
                fold (\<lambda>h highest. case LookupNode bi h of None \<Rightarrow> highest | Some n \<Rightarrow> if bn_height n > highest then bn_height n else highest)
                  deletedBlockHashes (- 1)
          in highestDeletedHeight \<ge> bn_height node)"

subsection \<open>Connecting a block\<close>

definition isCurrent :: "'k chainConfig \<Rightarrow> clocks \<Rightarrow> blockNode \<Rightarrow> bool" where
  "isCurrent cfg clk tip =
     (case LatestCheckpoint (cp_checkpoints (cc_params cfg)) of
        Some checkpoint \<Rightarrow> if bn_height tip < ck_Height checkpoint then False else bn_timestamp tip \<ge> cl_adjusted clk - 24 * 3600
      | None \<Rightarrow> bn_timestamp tip \<ge> cl_adjusted clk - 24 * 3600)"

definition warn_rules :: "'k chainConfig \<Rightarrow> blockNode \<Rightarrow> unit chainM" where
  "warn_rules cfg node s =
     (case warnUnknownRuleActivations (cc_voting cfg) (st_index s) node (st_voting s) of
        None \<Rightarrow> None
      | Some (r, vs) \<Rightarrow> cm_lift fromGo r (s\<lparr>st_voting := vs\<rparr>))"

definition prune_blocks :: "'k chainConfig \<Rightarrow> clocks \<Rightarrow> blockIndex \<Rightarrow> hash \<Rightarrow> dbFunction" where
  "prune_blocks cfg clk bi bestHash cache db =
     (if cc_pruneTarget cfg = 0 then (Inr db, cache)
      else
        case cc_PruneBlocks cfg (cc_pruneTarget cfg) db of
          Inl e \<Rightarrow> (Inl e, cache)
        | Inr (deletedHashes, db) \<Rightarrow>
            if deletedHashes = [] then (Inr db, cache)
            else
              let db = dbPruneSpendJournalEntry deletedHashes db
              in if flushNeededAfterPrune bi (uc_lastFlushHash cache) deletedHashes then tx_flush cfg clk FlushRequired bestHash cache db
                 else (Inr db, cache))"

text \<open>The total number of transactions has 64 bits.\<close>

definition uint64_nat :: "int \<Rightarrow> nat" where "uint64_nat n = nat (n mod 2 ^ 64)"

definition best_state :: "blockNode \<Rightarrow> utilBlock \<Rightarrow> int \<Rightarrow> BestState" where
  "best_state node block totalTxns =
     newBestState node (int (block_SerializeSize (ub_MsgBlock block))) (GetBlockVsize (ub_MsgBlock block)) (length (ub_Transactions block))
       (uint64_nat totalTxns) (CalcPastMedianTime node) (bn_timestamp node)"

definition connectBlock :: "'k chainConfig \<Rightarrow> clocks \<Rightarrow> blockNode \<Rightarrow> utilBlock \<Rightarrow> SpentTxOut list \<Rightarrow> unit chainM" where
  "connectBlock cfg clk node block stxos =
     cm_bind (\<lambda>s. cm_deref (view_tip (st_bestChain s)) s) (\<lambda>tip.
     cm_bind (cm_guard (bh_PrevBlock (ub_header block) = bn_hash tip) (fromRules assertError)) (\<lambda>_.
     cm_bind (cm_lift fromRules (countSpentOutputs (block_data block))) (\<lambda>numSpent.
     cm_bind (cm_guard (length stxos = numSpent) (fromRules assertError)) (\<lambda>_.
     cm_bind (if isCurrent cfg clk tip then warn_rules cfg node else cm_return ()) (\<lambda>_.
     cm_bind flushToDB (\<lambda>_ s.
       let blockHash = BlockHash (cc_dh cfg) (ub_header block);
           state = best_state node block (int (be_TotalTxns (st_snapshot s)) + int (length (ub_Transactions block)))
       in cm_bind
            (cm_Update
              (tx_bind (prune_blocks cfg clk (st_index s) (be_Hash state))
              (tx_bind (tx_write (\<lambda>db. Inr (dbPutBestState state (bn_workSum node) db)))
              (tx_bind (tx_write (\<lambda>db. Inr (dbPutBlockIndex blockHash (bn_height node) db)))
              (tx_bind (tx_write (dbPutSpendJournalEntry (cc_curve cfg) blockHash stxos))
                (tx_write (\<lambda>db. sbind (cc_indexConnect cfg block stxos) (\<lambda>_. Inr db))))))))
            (\<lambda>_. cm_bind (\<lambda>s. cm_lift fromGo (setTip (st_bestChain s) (Some node)) s) (\<lambda>bestChain.
             cm_bind (cm_update (\<lambda>s. s\<lparr>st_bestChain := bestChain, st_snapshot := state\<rparr>)) (\<lambda>_ s.
               if \<not> shouldFlush FlushIfNeeded (be_Hash state) (cl_seconds clk) (st_utxoCache s) then Some (Inr (), s)
               else cm_Update (tx_flush cfg clk FlushIfNeeded (be_Hash state)) s))) s))))))"

subsection \<open>Disconnecting a block\<close>

definition disconnectBlock :: "'k chainConfig \<Rightarrow> clocks \<Rightarrow> blockNode \<Rightarrow> utilBlock \<Rightarrow> UtxoViewpoint \<Rightarrow> UtxoViewpoint chainM" where
  "disconnectBlock cfg clk node block view =
     cm_bind (\<lambda>s. cm_deref (view_tip (st_bestChain s)) s) (\<lambda>tip.
     cm_bind (cm_guard (bn_hash node = bn_hash tip) (fromRules assertError)) (\<lambda>_.
     cm_bind (cm_deref (bn_parent node)) (\<lambda>prevNode.
     cm_bind (\<lambda>s. cm_lift fromDB (dbFetchBlockByNode prevNode (st_db s)) s) (\<lambda>prevBlock.
     cm_bind flushToDB (\<lambda>_ s.
       let blockHash = BlockHash (cc_dh cfg) (ub_header block);
           state = best_state prevNode prevBlock (int (be_TotalTxns (st_snapshot s)) - int (length (ub_Transactions block)))
       in cm_bind
            (cm_Update
              (tx_bind (tx_write (\<lambda>db. Inr (dbPutBestState state (bn_workSum node) db)))
              (tx_bind (tx_write (\<lambda>db. Inr (dbRemoveBlockIndex blockHash (bn_height node) db)))
              (tx_bind (tx_flush cfg clk FlushRequired (be_Hash state))
              (tx_bind (tx_write (\<lambda>db. sbind (dbPutUtxoView (cc_curve cfg) (cc_viewOrder cfg view) (db_utxoSet db)) (\<lambda>b. Inr (db\<lparr>db_utxoSet := b\<rparr>))))
                (tx_write (\<lambda>db.
                   sbind (dbFetchSpendJournalEntry (cc_curve cfg) blockHash (ub_Transactions block) db) (\<lambda>stxos.
                   let db = dbRemoveSpendJournalEntry blockHash db
                   in sbind (cc_indexDisconnect cfg block stxos) (\<lambda>_. Inr db)))))))))
            (\<lambda>_. cm_bind (\<lambda>s. cm_lift fromGo (setTip (st_bestChain s) (Some prevNode)) s) (\<lambda>bestChain.
             cm_bind (cm_update (\<lambda>s. s\<lparr>st_bestChain := bestChain, st_snapshot := state\<rparr>)) (\<lambda>_.
               cm_return (commit view)))) s)))))"

subsection \<open>Views over the cache\<close>

text \<open>
  A view that loads outputs from the cache makes the cache load them from the database. What an output's entry is does not depend
  on what else was loaded, so a view reads a function of the outpoint; the entries that the cache loaded are added to it afterwards.\<close>

definition cache_source :: "'k chainConfig \<Rightarrow> chainState \<Rightarrow> utxoSource" where
  "cache_source cfg s op =
     (case fetchEntries (cc_curve cfg) (cc_log cfg) (db_utxoSet (st_db s)) [op] (st_utxoCache s) of
        Inr ([entry], _) \<Rightarrow> Inr entry
      | _ \<Rightarrow> Inl otherRuleError)"

definition load_cache :: "'k chainConfig \<Rightarrow> OutPoint list \<Rightarrow> chainState \<Rightarrow> chainState" where
  "load_cache cfg ops s =
     (if ops = [] then s
      else case fetchEntries (cc_curve cfg) (cc_log cfg) (db_utxoSet (st_db s)) ops (st_utxoCache s) of
             Inl _ \<Rightarrow> s
           | Inr (_, cache) \<Rightarrow> s\<lparr>st_utxoCache := cache\<rparr>)"

definition load_inputs :: "'k chainConfig \<Rightarrow> UtxoViewpoint \<Rightarrow> blockData \<Rightarrow> chainState \<Rightarrow> chainState" where
  "load_inputs cfg view blk s = (case findInputsToFetch (cc_dh cfg) view blk of Inl _ \<Rightarrow> s | Inr (_, needed) \<Rightarrow> load_cache cfg needed s)"

definition cm_fetchInputUtxos :: "'k chainConfig \<Rightarrow> UtxoViewpoint \<Rightarrow> utilBlock \<Rightarrow> UtxoViewpoint chainM" where
  "cm_fetchInputUtxos cfg view block s =
     cm_lift fromRules (fetchInputUtxos (cc_dh cfg) (cache_source cfg s) view (block_data block)) (load_inputs cfg view (block_data block) s)"

text \<open>The outputs of the block itself are loaded first, then what its inputs need. A block that is refused leaves the script caches alone here.\<close>

definition load_for_check :: "'k chainConfig \<Rightarrow> blockNode \<Rightarrow> UtxoViewpoint \<Rightarrow> blockData \<Rightarrow> chainState \<Rightarrow> chainState" where
  "load_for_check cfg node view blk s =
     (if bn_hash node = cp_GenesisHash (cc_params cfg) \<or> uv_bestHash view \<noteq> bh_PrevBlock (bk_Header blk) then s
      else
        let fetch = concat (map (tx_outpoints (cc_dh cfg)) (bk_Transactions blk));
            s1 = load_cache cfg (filter (\<lambda>outpoint. uv_entries view outpoint = None) fetch) s
        in case checkBIP0030 (cc_dh cfg) (cache_source cfg s) blk view of
             Inl _ \<Rightarrow> s1
           | Inr view1 \<Rightarrow> load_inputs cfg view1 blk s1)"

definition cm_checkConnectBlock :: "'k chainConfig \<Rightarrow> blockNode \<Rightarrow> utilBlock \<Rightarrow> UtxoViewpoint \<Rightarrow> (rule_error + UtxoViewpoint) chainM" where
  "cm_checkConnectBlock cfg node block view s =
     (case checkConnectBlock (cc_crypto cfg) (cc_sigPick cfg) (cc_hashPick cfg) (cc_params cfg) (cache_source cfg s) (st_caches s) node
             (block_data block) view [] of
        Inl e \<Rightarrow> Some (Inr (Inl e), load_for_check cfg node view (block_data block) s)
      | Inr (checked, _, caches) \<Rightarrow> Some (Inr (Inr checked), (load_for_check cfg node view (block_data block) s)\<lparr>st_caches := caches\<rparr>))"

text \<open>What the cache holds after a failure: the transactions and inputs before it, and the entry that was loaded for the failing input.\<close>

fun cache_left_ins :: "'k curve \<Rightarrow> (int \<Rightarrow> nat) \<Rightarrow> bucket \<Rightarrow> TxIn list \<Rightarrow> utxoCache \<Rightarrow> utxoCache" where
  "cache_left_ins C lg utxoBucket [] s = s"
| "cache_left_ins C lg utxoBucket (txIn # ins) s =
     (case cache_addTxIn C lg utxoBucket txIn [] s of
        Inr (_, s) \<Rightarrow> cache_left_ins C lg utxoBucket ins s
      | Inl _ \<Rightarrow> (case fetchEntries C lg utxoBucket [ti_PreviousOutPoint txIn] s of Inl _ \<Rightarrow> s | Inr (_, s) \<Rightarrow> s))"

fun cache_left :: "'k curve \<Rightarrow> (int \<Rightarrow> nat) \<Rightarrow> (bytes \<Rightarrow> hash) \<Rightarrow> bucket \<Rightarrow> int \<Rightarrow> MsgTx list \<Rightarrow> utxoCache \<Rightarrow> utxoCache" where
  "cache_left C lg dh utxoBucket blockHeight [] s = s"
| "cache_left C lg dh utxoBucket blockHeight (tx # txs) s =
     (case cache_connectTransaction C lg dh utxoBucket blockHeight tx [] s of
        Inr (_, s) \<Rightarrow> cache_left C lg dh utxoBucket blockHeight txs s
      | Inl _ \<Rightarrow> cache_left_ins C lg utxoBucket (tx_TxIn tx) s)"

definition cm_connectTransactions :: "'k chainConfig \<Rightarrow> utilBlock \<Rightarrow> SpentTxOut list chainM" where
  "cm_connectTransactions cfg block s =
     (case cache_connectTransactions (cc_curve cfg) (cc_log cfg) (cc_dh cfg) (db_utxoSet (st_db s)) (block_data block) [] (st_utxoCache s) of
        Inl e \<Rightarrow> Some (Inl (fromDB e), s\<lparr>st_utxoCache :=
           cache_left (cc_curve cfg) (cc_log cfg) (cc_dh cfg) (db_utxoSet (st_db s)) (ub_Height block) (ub_Transactions block) (st_utxoCache s)\<rparr>)
      | Inr (stxos, cache) \<Rightarrow> Some (Inr stxos, s\<lparr>st_utxoCache := cache\<rparr>))"

subsection \<open>Reorganization\<close>

fun verify_detach ::
  "'k chainConfig \<Rightarrow> blockNode list \<Rightarrow> UtxoViewpoint \<Rightarrow> ((utilBlock \<times> SpentTxOut list) list \<times> UtxoViewpoint) chainM" where
  "verify_detach cfg [] view = cm_return ([], view)"
| "verify_detach cfg (n # ns) view =
     cm_bind (\<lambda>s. cm_lift fromDB (dbFetchBlockByNode n (st_db s)) s) (\<lambda>block.
     cm_bind (cm_guard (bn_hash n = BlockHash (cc_dh cfg) (ub_header block)) (fromRules assertError)) (\<lambda>_.
     cm_bind (cm_fetchInputUtxos cfg view block) (\<lambda>view.
     cm_bind (\<lambda>s. cm_lift fromDB (dbFetchSpendJournalEntry (cc_curve cfg) (BlockHash (cc_dh cfg) (ub_header block)) (ub_Transactions block) (st_db s)) s) (\<lambda>stxos.
     cm_bind (cm_lift fromRules (disconnectTransactions (cc_dh cfg) view (block_data block) stxos)) (\<lambda>view.
     cm_bind (verify_detach cfg ns view) (\<lambda>(blocks, view). cm_return ((block, stxos) # blocks, view)))))))"

fun mark_descendants :: "blockNode list \<Rightarrow> unit chainM" where
  "mark_descendants [] = cm_return ()"
| "mark_descendants (dn # ns) = cm_bind (set_flags dn statusInvalidAncestor) (\<lambda>_. mark_descendants ns)"

fun verify_attach :: "'k chainConfig \<Rightarrow> blockNode list \<Rightarrow> UtxoViewpoint \<Rightarrow> utilBlock list chainM" where
  "verify_attach cfg [] view = cm_return []"
| "verify_attach cfg (n # ns) view =
     cm_bind (\<lambda>s. cm_lift fromDB (dbFetchBlockByNode n (st_db s)) s) (\<lambda>block.
     cm_bind (\<lambda>s.
       if KnownValid (st_status s n)
       then cm_bind (cm_fetchInputUtxos cfg view block) (\<lambda>view.
              cm_lift fromRules (sbind (connectTransactions (cc_dh cfg) view (block_data block) []) (\<lambda>(view, _). Inr view))) s
       else cm_bind (cm_checkConnectBlock cfg n block view) (\<lambda>r.
              case r of
                Inl (ruleError c) \<Rightarrow>
                  cm_bind (set_flags n statusValidateFailed) (\<lambda>_. cm_bind (mark_descendants ns) (\<lambda>_. cm_throw (fromRules (ruleError c))))
              | Inl e \<Rightarrow> cm_throw (fromRules e)
              | Inr view \<Rightarrow> cm_bind (set_flags n statusValid) (\<lambda>_. cm_return view)) s)
       (\<lambda>view. cm_bind (verify_attach cfg ns view) (\<lambda>blocks. cm_return (block # blocks))))"

definition verifyReorganizationValidity ::
  "'k chainConfig \<Rightarrow> blockNode list \<Rightarrow> blockNode list \<Rightarrow> ((utilBlock \<times> SpentTxOut list) list \<times> utilBlock list) chainM" where
  "verifyReorganizationValidity cfg detachNodes attachNodes =
     (if detachNodes = [] \<and> attachNodes = [] then cm_return ([], [])
      else
        cm_bind (\<lambda>s. cm_deref (view_tip (st_bestChain s)) s) (\<lambda>tip.
        cm_bind (cm_guard (detachNodes \<noteq> [] \<longrightarrow> bn_hash (hd detachNodes) = bn_hash tip) (fromRules assertError)) (\<lambda>_.
        cm_bind (if detachNodes \<noteq> [] \<and> attachNodes \<noteq> []
                 then cm_bind (cm_deref (bn_parent (hd attachNodes))) (\<lambda>p.
                      cm_bind (cm_deref (bn_parent (last detachNodes))) (\<lambda>q. cm_guard (bn_hash p = bn_hash q) (fromRules assertError)))
                 else cm_return ()) (\<lambda>_.
        cm_bind (verify_detach cfg detachNodes (SetBestHash NewUtxoViewpoint (bn_hash tip))) (\<lambda>(detached, view).
        cm_bind (verify_attach cfg attachNodes view) (\<lambda>attachBlocks. cm_return (detached, attachBlocks)))))))"

fun detach_blocks :: "'k chainConfig \<Rightarrow> clocks \<Rightarrow> (blockNode \<times> utilBlock \<times> SpentTxOut list) list \<Rightarrow> UtxoViewpoint \<Rightarrow> unit chainM" where
  "detach_blocks cfg clk [] view = cm_return ()"
| "detach_blocks cfg clk ((n, block, stxos) # ns) view =
     cm_bind (cm_fetchInputUtxos cfg view block) (\<lambda>view.
     cm_bind (cm_lift fromRules (disconnectTransactions (cc_dh cfg) view (block_data block) stxos)) (\<lambda>view.
     cm_bind (disconnectBlock cfg clk n block view) (\<lambda>view. detach_blocks cfg clk ns view)))"

fun attach_blocks :: "'k chainConfig \<Rightarrow> clocks \<Rightarrow> (blockNode \<times> utilBlock) list \<Rightarrow> unit chainM" where
  "attach_blocks cfg clk [] = cm_return ()"
| "attach_blocks cfg clk ((n, block) # ns) =
     cm_bind (cm_connectTransactions cfg block) (\<lambda>stxos.
     cm_bind (connectBlock cfg clk n block stxos) (\<lambda>_. attach_blocks cfg clk ns))"

definition reorganizeChain :: "'k chainConfig \<Rightarrow> clocks \<Rightarrow> blockNode list \<Rightarrow> blockNode list \<Rightarrow> unit chainM" where
  "reorganizeChain cfg clk detachNodes attachNodes =
     cm_bind (verifyReorganizationValidity cfg detachNodes attachNodes) (\<lambda>(detached, attachBlocks).
     cm_bind (\<lambda>s. cm_deref (view_tip (st_bestChain s)) s) (\<lambda>tip.
     cm_bind (detach_blocks cfg clk (zip detachNodes detached) (SetBestHash NewUtxoViewpoint (bn_hash tip))) (\<lambda>_.
       attach_blocks cfg clk (zip attachNodes attachBlocks))))"

subsection \<open>The best chain\<close>

text \<open>The nodes whose status the search for the nodes to reorganize changes.\<close>

definition reorganize_marks :: "chainView \<Rightarrow> statuses \<Rightarrow> blockNode \<Rightarrow> blockNode list" where
  "reorganize_marks bestChain status node =
     (case bn_parent node of
        None \<Rightarrow> []
      | Some parent \<Rightarrow>
          if KnownInvalid (status parent) then [node]
          else let (invalidChain, attachNodes) = attach_loop status (findFork bestChain (Some node)) (Some node) []
               in if invalidChain then attachNodes else [])"

definition cm_getReorganizeNodes :: "blockNode \<Rightarrow> (blockNode list \<times> blockNode list) chainM" where
  "cm_getReorganizeNodes node s =
     (case getReorganizeNodes (st_bestChain s) (st_status s) node of
        Inl e \<Rightarrow> Some (Inl (fromGo e), s)
      | Inr (status, detachNodes, attachNodes) \<Rightarrow>
          Some (Inr (detachNodes, attachNodes), mark_dirty (reorganize_marks (st_bestChain s) (st_status s) node) (s\<lparr>st_status := status\<rparr>)))"

text \<open>A step after which something runs whether or not it failed.\<close>

definition cm_finally :: "'a chainM \<Rightarrow> unit chainM \<Rightarrow> 'a chainM" where
  "cm_finally m f s =
     (case m s of
        None \<Rightarrow> None
      | Some (r, s) \<Rightarrow> (case f s of None \<Rightarrow> None | Some (_, s) \<Rightarrow> Some (r, s)))"

definition cm_onError :: "'a chainM \<Rightarrow> (chain_error \<Rightarrow> unit chainM) \<Rightarrow> 'a chainM" where
  "cm_onError m f s =
     (case m s of
        None \<Rightarrow> None
      | Some (Inl e, s) \<Rightarrow> (case f e s of None \<Rightarrow> None | Some (_, s) \<Rightarrow> Some (Inl e, s))
      | Some (Inr x, s) \<Rightarrow> Some (Inr x, s))"

definition is_RuleError :: "chain_error \<Rightarrow> bool" where
  "is_RuleError e \<longleftrightarrow> (case e of fromRules (ruleError _) \<Rightarrow> True | _ \<Rightarrow> False)"

text \<open>The block extends the tip: it is checked unless it is known to be valid, then it is connected.\<close>

definition check_tip :: "'k chainConfig \<Rightarrow> blockNode \<Rightarrow> utilBlock \<Rightarrow> unit chainM" where
  "check_tip cfg node block =
     cm_bind (cm_checkConnectBlock cfg node block (SetBestHash NewUtxoViewpoint (bh_PrevBlock (ub_header block)))) (\<lambda>r.
       case r of
         Inl (ruleError c) \<Rightarrow>
           cm_bind (set_flags node statusValidateFailed) (\<lambda>_. cm_bind flushToDB (\<lambda>_. cm_throw (fromRules (ruleError c))))
       | Inl e \<Rightarrow> cm_throw (fromRules e)
       | Inr _ \<Rightarrow> cm_bind (set_flags node statusValid) (\<lambda>_. flushToDB))"

definition extend_tip :: "'k chainConfig \<Rightarrow> clocks \<Rightarrow> blockNode \<Rightarrow> utilBlock \<Rightarrow> bool \<Rightarrow> bool chainM" where
  "extend_tip cfg clk node block fastAdd =
     cm_bind (if fastAdd then cm_return () else check_tip cfg node block) (\<lambda>_.
     cm_bind (cm_connectTransactions cfg block) (\<lambda>stxos.
     cm_bind (cm_onError (connectBlock cfg clk node block stxos) (\<lambda>e.
               cm_bind (if is_RuleError e then set_flags node statusValidateFailed else cm_return ()) (\<lambda>_. flushToDB))) (\<lambda>_.
     cm_bind (\<lambda>s. if fastAdd \<or> \<not> KnownValid (st_status s node)
                  then cm_bind (set_flags node statusValid) (\<lambda>_. flushToDB) s else Some (Inr (), s)) (\<lambda>_.
       cm_return True))))"

definition connectBestChain :: "'k chainConfig \<Rightarrow> clocks \<Rightarrow> blockNode \<Rightarrow> utilBlock \<Rightarrow> nat \<Rightarrow> bool chainM" where
  "connectBestChain cfg clk node block flags =
     cm_bind (\<lambda>s. cm_deref (view_tip (st_bestChain s)) s) (\<lambda>tip s.
       if bh_PrevBlock (ub_header block) = bn_hash tip then
         extend_tip cfg clk node block (flag_set flags BFFastAdd \<or> KnownValid (st_status s node)) s
       else if \<not> ShouldChangeTip (bn_workSum tip) (bn_workSum node) (CalcWork (bn_bits tip)) (CalcWork (bn_bits node)) then Some (Inr False, s)
       else
         cm_bind (cm_getReorganizeNodes node) (\<lambda>(detachNodes, attachNodes).
           cm_bind (cm_finally (reorganizeChain cfg clk detachNodes attachNodes) flushToDB) (\<lambda>_. cm_return True)) s)"

subsection \<open>Accepting blocks\<close>

definition maybeAcceptBlock :: "'k chainConfig \<Rightarrow> clocks \<Rightarrow> utilBlock \<Rightarrow> nat \<Rightarrow> bool chainM" where
  "maybeAcceptBlock cfg clk block flags s =
     (let header = ub_header block
      in case LookupNode (st_index s) (bh_PrevBlock header) of
           None \<Rightarrow> Some (Inl (fromRules (ruleError ErrPreviousBlockUnknown)), s)
         | Some prevNode \<Rightarrow>
             if KnownInvalid (st_status s prevNode) then Some (Inl (fromRules (ruleError ErrInvalidAncestorBlock)), s)
             else
               let block = block\<lparr>ub_Height := int32_of (bn_height prevNode + 1)\<rparr>
               in case checkBlockContext (cc_zk cfg) (cc_dh cfg) (ub_MsgBlock block) (cl_fraction clk header) prevNode flags (cc_rules cfg)
                         (chain_ctx (cp_checkpoints (cc_params cfg)) (st_index s) (st_bestChain s)) (st_checkpoint s) of
                    None \<Rightarrow> None
                  | Some (Inl e, checkpoint) \<Rightarrow> Some (Inl (fromRules e), s\<lparr>st_checkpoint := checkpoint\<rparr>)
                  | Some (Inr _, checkpoint) \<Rightarrow>
                      let blockVsize = GetBlockVsize (ub_MsgBlock block)
                      in cm_bind (cm_Update (tx_write (dbStoreBlock (cc_dh cfg) block blockVsize))) (\<lambda>_ s.
                           let (bi, newNode) = index_Add (cc_dh cfg) (st_index s) header (Some prevNode) statusDataStored blockVsize
                           in connectBestChain cfg clk newNode block flags
                                (s\<lparr>st_index := bi, st_status := (st_status s)(newNode := statusDataStored)\<rparr>))
                           (s\<lparr>st_checkpoint := checkpoint\<rparr>))"

definition blockExists :: "chainState \<Rightarrow> hash \<Rightarrow> db_error + bool" where
  "blockExists s h =
     (if HaveBlock (st_index s) h then Inr True
      else if \<not> HasBlock h (st_db s) then Inr False
      else case dbFetchHeightByHash h (st_db s) of
             Inl errNotInMainChain \<Rightarrow> Inr False
           | Inl e \<Rightarrow> Inl e
           | Inr _ \<Rightarrow> Inr True)"

definition chain_HaveBlock :: "chainState \<Rightarrow> hash \<Rightarrow> db_error + bool" where
  "chain_HaveBlock s h = sbind (blockExists s h) (\<lambda>exists. Inr (exists \<or> IsKnownOrphan (st_pool s) h))"

text \<open>The hashes to process are a queue; an orphan leaves the pool before it is accepted.\<close>

partial_function (option) process_orphans ::
  "'k chainConfig \<Rightarrow> clocks \<Rightarrow> nat \<Rightarrow> hash list \<Rightarrow> chainState \<Rightarrow> ((chain_error + unit) \<times> chainState) option" where
  "process_orphans cfg clk flags processHashes s =
     (case processHashes of
        [] \<Rightarrow> Some (Inr (), s)
      | processHash # rest \<Rightarrow>
          (case prev_orphans (st_pool s) processHash of
             [] \<Rightarrow> process_orphans cfg clk flags rest s
           | orphan # _ \<Rightarrow>
               Option.bind (maybeAcceptBlock cfg clk (ob_block orphan) flags (s\<lparr>st_pool := removeOrphanBlock (cc_dh cfg) orphan (st_pool s)\<rparr>))
                 (\<lambda>(r, s). case r of
                    Inl e \<Rightarrow> Some (Inl e, s)
                  | Inr _ \<Rightarrow> process_orphans cfg clk flags (processHashes @ [orphan_hash (cc_dh cfg) orphan]) s)))"

definition processOrphans :: "'k chainConfig \<Rightarrow> clocks \<Rightarrow> hash \<Rightarrow> nat \<Rightarrow> unit chainM" where
  "processOrphans cfg clk h flags = process_orphans cfg clk flags [h]"

text \<open>The checks against the last checkpoint. The difference of two times is limited to 64 bits.\<close>

definition time_diff :: "int \<Rightarrow> int \<Rightarrow> int" where
  "time_diff a b = max (- (2 ^ 63)) (min (2 ^ 63 - 1) (a - b))"

definition check_against_checkpoint ::
  "'k chainConfig \<Rightarrow> clocks \<Rightarrow> nat \<Rightarrow> BlockHeader \<Rightarrow> blockNode \<Rightarrow> blockIndex \<Rightarrow> chain_error + unit" where
  "check_against_checkpoint cfg clk flags header checkpointNode bi =
     (if (case LookupNode bi (bh_PrevBlock header) of
            None \<Rightarrow> False
          | Some prevNode \<Rightarrow> int32_of (bn_height prevNode + 1) < bn_height checkpointNode)
      then Inl (fromRules (ruleError ErrForkTooOld))
      else
        let time = bh_Timestamp header * 10 ^ 9 + cl_fraction clk header;
            checkpointTime = bn_timestamp checkpointNode * 10 ^ 9
        in if time < checkpointTime then Inl (fromRules (ruleError ErrCheckpointTimeTooOld))
           else if flag_set flags BFFastAdd then Inr ()
           else
             case calcEasiestDifficulty (bn_bits checkpointNode) (time_diff time checkpointTime) (cp_chain (cc_params cfg)) of
               Inl e \<Rightarrow> Inl (fromGo e)
             | Inr bits \<Rightarrow>
                 if CompactToBig (of_nat (bh_Bits header)) > CompactToBig bits then Inl (fromRules (ruleError ErrDifficultyTooLow)) else Inr ())"

definition ProcessBlock :: "'k chainConfig \<Rightarrow> clocks \<Rightarrow> utilBlock \<Rightarrow> nat \<Rightarrow> (bool \<times> bool) chainM" where
  "ProcessBlock cfg clk block flags =
     (let header = ub_header block; blockHash = BlockHash (cc_dh cfg) header
      in cm_bind (\<lambda>s. cm_lift fromDB (blockExists s blockHash) s) (\<lambda>exists.
         cm_bind (cm_guard (\<not> exists) (fromRules (ruleError ErrDuplicateBlock))) (\<lambda>_.
         cm_bind (\<lambda>s. cm_guard (\<not> IsKnownOrphan (st_pool s) blockHash) (fromRules (ruleError ErrDuplicateBlock)) s) (\<lambda>_.
         cm_bind (\<lambda>s. case checkBlockSanity (cc_zk cfg) (cc_dh cfg) (ub_MsgBlock block) (cl_fraction clk header) (cc_rules cfg) (cl_adjusted clk) flags of
                          None \<Rightarrow> None
                        | Some r \<Rightarrow> cm_lift fromRules r s) (\<lambda>_.
         cm_bind (\<lambda>s. let (r, checkpoint) = findPreviousCheckpoint (cp_checkpoints (cc_params cfg)) (st_index s) (st_bestChain s) (st_checkpoint s)
                        in cm_lift fromRules r (s\<lparr>st_checkpoint := checkpoint\<rparr>)) (\<lambda>checkpointNode.
         cm_bind (\<lambda>s. case checkpointNode of
                          None \<Rightarrow> Some (Inr (), s)
                        | Some node \<Rightarrow> cm_lift id (check_against_checkpoint cfg clk flags header node (st_index s)) s) (\<lambda>_.
         cm_bind (\<lambda>s. cm_lift fromDB (blockExists s (bh_PrevBlock header)) s) (\<lambda>prevHashExists.
           if \<not> prevHashExists
           then cm_bind (\<lambda>s. cm_lift fromGo (addOrphanBlock (cc_dh cfg) (cc_orphanOrder cfg) (cl_nanos clk) block (st_pool s)) s) (\<lambda>pool.
                cm_bind (cm_update (\<lambda>s. s\<lparr>st_pool := pool\<rparr>)) (\<lambda>_. cm_return (False, True)))
           else cm_bind (maybeAcceptBlock cfg clk block flags) (\<lambda>isMainChain.
                cm_bind (processOrphans cfg clk blockHash flags) (\<lambda>_. cm_return (isMainChain, False)))))))))))"

subsection \<open>Recovery after a crash\<close>

definition set_last_flush :: "clocks \<Rightarrow> hash \<Rightarrow> unit chainM" where
  "set_last_flush clk h = cm_update (\<lambda>s. s\<lparr>st_utxoCache := (st_utxoCache s)\<lparr>uc_lastFlushHash := h, uc_lastFlushTime := cl_seconds clk\<rparr>\<rparr>)"

function nodes_above :: "blockNode \<Rightarrow> blockNode option \<Rightarrow> blockNode list \<Rightarrow> go_error + blockNode list" where
  "nodes_above fork n attachNodes =
     (case n of
        None \<Rightarrow> Inl goPanic
      | Some node \<Rightarrow>
          if bn_height node < 0 \<or> node = fork then Inr attachNodes else nodes_above fork (bn_parent node) (node # attachNodes))"
  by pat_completeness auto

termination
  by (relation "measure (\<lambda>(fork, n, attachNodes). parent_size n)") (simp_all add: parent_smaller)

declare nodes_above.simps [simp del]

text \<open>The interrupt is asked for after every block.\<close>

fun replay_blocks :: "'k chainConfig \<Rightarrow> clocks \<Rightarrow> (blockNode \<Rightarrow> bool) \<Rightarrow> blockNode list \<Rightarrow> unit chainM" where
  "replay_blocks cfg clk interrupted [] = cm_return ()"
| "replay_blocks cfg clk interrupted (node # ns) =
     cm_bind (\<lambda>s. cm_lift fromDB (dbFetchBlockByNode node (st_db s)) s) (\<lambda>block.
     cm_bind (cm_connectTransactions cfg block) (\<lambda>_.
     cm_bind (\<lambda>s. if shouldFlush FlushIfNeeded (bn_hash node) (cl_seconds clk) (st_utxoCache s)
                  then cm_Update (tx_flush cfg clk FlushIfNeeded (bn_hash node)) s else Some (Inr (), s)) (\<lambda>_.
     cm_bind (cm_guard (\<not> interrupted node) (fromGo otherError)) (\<lambda>_. replay_blocks cfg clk interrupted ns))))"

definition InitConsistentState :: "'k chainConfig \<Rightarrow> clocks \<Rightarrow> (blockNode \<Rightarrow> bool) \<Rightarrow> blockNode \<Rightarrow> unit chainM" where
  "InitConsistentState cfg clk interrupted tip s =
     (case dbFetchUtxoStateConsistency (st_db s) of
        None \<Rightarrow> set_last_flush clk (bn_hash tip) (s\<lparr>st_db := dbPutUtxoStateConsistency (bn_hash tip) (st_db s)\<rparr>)
      | Some statusBytes \<Rightarrow>
          if length statusBytes \<noteq> 32 then Some (Inl (fromGo otherError), s)
          else if statusBytes = bn_hash tip then set_last_flush clk (bn_hash tip) s
          else
            cm_bind (cm_deref (LookupNode (st_index s) statusBytes)) (\<lambda>lastFlushNode.
            cm_bind (case findFork (st_bestChain s) (Some lastFlushNode) of
                       None \<Rightarrow> cm_throw (fromRules assertError)
                     | Some fork \<Rightarrow> cm_lift fromGo (nodes_above fork (Some tip) [])) (\<lambda>attachNodes.
            cm_bind (replay_blocks cfg clk interrupted attachNodes) (\<lambda>_. set_last_flush clk (bn_hash tip)))) s)"

subsection \<open>Starting\<close>

definition latestUtxoSetBucketVersion :: int where "latestUtxoSetBucketVersion = 1"
definition latestSpendJournalBucketVersion :: int where "latestSpendJournalBucketVersion = 1"

text \<open>The buckets are there from the beginning.\<close>

definition createChainState :: "'k chainConfig \<Rightarrow> unit chainM" where
  "createChainState cfg s =
     (let genesisBlock = \<lparr>ub_MsgBlock = cc_genesis cfg, ub_Height = 0\<rparr>;
          header = ub_header genesisBlock;
          status = statusDataStored OR statusValid;
          node = newBlockNode (cc_dh cfg) header None status (GetBlockVsize (cc_genesis cfg));
          numTxns = length (ub_Transactions genesisBlock);
          state = newBestState node (int (block_SerializeSize (cc_genesis cfg))) (bn_vsize node) numTxns numTxns (bn_timestamp node) (bn_timestamp node)
      in cm_bind (cm_lift fromGo (setTip (st_bestChain s) (Some node))) (\<lambda>bestChain.
         cm_bind (cm_update (\<lambda>s. s\<lparr>st_bestChain := bestChain, st_index := addNode (st_index s) node, st_status := (st_status s)(node := status),
                                    st_snapshot := state\<rparr>)) (\<lambda>_.
           cm_Update (tx_write (\<lambda>db.
             dbStoreBlock (cc_dh cfg) genesisBlock (bn_vsize node)
               (dbPutBestState state (bn_workSum node)
               (dbPutBlockIndex (bn_hash node) (bn_height node)
               (dbStoreBlockVsize (bn_hash node) (bn_vsize node)
               (dbStoreBlockStatus (bn_hash node) status
               (dbPutVersion spendJournalVersionKeyName latestSpendJournalBucketVersion
               (dbPutVersion utxoSetVersionKeyName latestUtxoSetBucketVersion db))))))))))
         s)"

text \<open>The headers in the order of their keys, that is by height. The parent is mostly the header before.\<close>

fun load_index :: "'k chainConfig \<Rightarrow> bytes list \<Rightarrow> blockNode option \<Rightarrow> unit chainM" where
  "load_index cfg [] lastNode = cm_return ()"
| "load_index cfg (headerBytes # rows) lastNode =
     cm_bind (cm_lift fromDB (header_of_bytes headerBytes)) (\<lambda>header.
     let blockHash = BlockHash (cc_dh cfg) header
     in cm_bind (\<lambda>s. cm_lift fromDB (dbFetchBlockStatus blockHash (st_db s)) s) (\<lambda>status.
        cm_bind (\<lambda>s. case lastNode of
                         None \<Rightarrow> if blockHash \<noteq> cp_GenesisHash (cc_params cfg) then cm_throw (fromRules assertError) s else Some (Inr None, s)
                       | Some node \<Rightarrow>
                           if bh_PrevBlock header = bn_hash node then Some (Inr (Some node), s)
                           else (case LookupNode (st_index s) (bh_PrevBlock header) of
                                   None \<Rightarrow> cm_throw (fromRules assertError) s
                                 | Some parent \<Rightarrow> Some (Inr (Some parent), s))) (\<lambda>parent.
        cm_bind (\<lambda>s. cm_lift fromDB (dbFetchBlockVsize blockHash (st_db s)) s) (\<lambda>vsize.
          let node = newBlockNode (cc_dh cfg) header parent status vsize
          in cm_bind (cm_update (\<lambda>s. s\<lparr>st_index := addNode (st_index s) node, st_status := (st_status s)(node := status)\<rparr>)) (\<lambda>_.
               load_index cfg rows (Some node))))))"

text \<open>The ancestors of the tip, from the tip down.\<close>

fun upgrade_ancestors :: "blockNode list \<Rightarrow> unit chainM" where
  "upgrade_ancestors [] = cm_return ()"
| "upgrade_ancestors (n # ns) =
     cm_bind (\<lambda>s. if \<not> KnownValid (st_status s n) then set_flags n statusValid s else Some (Inr (), s)) (\<lambda>_. upgrade_ancestors ns)"

definition index_rows :: "chainDB \<Rightarrow> bytes list" where
  "index_rows db = map snd (sorted_list_of_fmap (db_blockIndex db))"

definition initChainState :: "'k chainConfig \<Rightarrow> unit chainM" where
  "initChainState cfg s =
     (case fmlookup (db_meta (st_db s)) chainStateKeyName of
        None \<Rightarrow> createChainState cfg s
      | Some serializedData \<Rightarrow>
          cm_bind (cm_lift fromDB (deserializeBestChainState serializedData)) (\<lambda>state.
          cm_bind (load_index cfg (index_rows (st_db s)) None) (\<lambda>_.
          cm_bind (\<lambda>s. case LookupNode (st_index s) (bs_hash state) of None \<Rightarrow> cm_throw (fromRules assertError) s | Some tip \<Rightarrow> cm_return tip s) (\<lambda>tip.
          cm_bind (\<lambda>s. cm_lift fromGo (setTip (st_bestChain s) (Some tip)) s) (\<lambda>bestChain.
          cm_bind (cm_update (\<lambda>s. s\<lparr>st_bestChain := bestChain\<rparr>)) (\<lambda>_.
          cm_bind (\<lambda>s. cm_lift fromDB (sbind (FetchBlock (bs_hash state) (st_db s)) DBBlockFromBytes) s) (\<lambda>(msgBlock, blockBytes).
          cm_bind (upgrade_ancestors (rev (chain_to tip))) (\<lambda>_.
          cm_bind (cm_update (\<lambda>s. s\<lparr>st_snapshot :=
              newBestState tip (int (length blockBytes)) (GetBlockVsize msgBlock) (length (mb_Transactions msgBlock)) (bs_totalTxns state)
                (CalcPastMedianTime tip) (bn_timestamp tip)\<rparr>)) (\<lambda>_. flushToDB)))))))) s)"

end
