(* ===== verification/Chain_Invariant.thy ===== *)
theory Chain_Invariant
  imports Chain_State
begin

text \<open>
  The state that the operations of the chain keep. The coins after a branch of the tree of blocks are those that its stored blocks
  give in their order (\<open>replay\<close>); a good state has a best chain of stored, allowed blocks, the cache over the database stands for the coins
  after it, the database alone for those after one of its blocks, and the spend journal has the record of every block of it (\<open>chain_ok\<close>).
\<close>

subsection \<open>Steps\<close>

lemma cm_bind_iff:
  "cm_bind m f s = Some (r, s') \<longleftrightarrow>
     (\<exists>e. m s = Some (Inl e, s') \<and> r = Inl e) \<or> (\<exists>x s1. m s = Some (Inr x, s1) \<and> f x s1 = Some (r, s'))"
  by (auto simp: cm_bind_def split: option.splits sum.splits)

lemma cm_bind_Inr:
  "cm_bind m f s = Some (Inr y, s') \<longleftrightarrow> (\<exists>x s1. m s = Some (Inr x, s1) \<and> f x s1 = Some (Inr y, s'))"
  by (auto simp: cm_bind_iff)

lemma cm_simps [simp]:
  "cm_return x s = Some (r, s') \<longleftrightarrow> r = Inr x \<and> s' = s"
  "cm_throw e s = Some (r, s') \<longleftrightarrow> r = Inl e \<and> s' = s"
  "cm_lift from (Inl d) = cm_throw (from d)"
  "cm_lift from (Inr x) = cm_return x"
  "cm_update f s = Some (u, s') \<longleftrightarrow> u = Inr () \<and> s' = f s"
  "cm_guard b e s = Some (Inr (), s') \<longleftrightarrow> b \<and> s' = s"
  "cm_deref p s = Some (Inr x, s') \<longleftrightarrow> p = Some x \<and> s' = s"
  by (auto simp: cm_return_def cm_throw_def cm_lift_def cm_update_def cm_guard_def cm_deref_def split: option.splits)

lemma cm_lift_Inr [simp]: "cm_lift from r s = Some (Inr x, s') \<longleftrightarrow> r = Inr x \<and> s' = s"
  by (cases r) auto

lemma cm_lift_Inl: "cm_lift from r s = Some (Inl e, s') \<longleftrightarrow> (\<exists>d. r = Inl d \<and> e = from d) \<and> s' = s"
  by (cases r) auto

subsection \<open>Replaying a branch\<close>

text \<open>The nodes of a branch above the genesis node, from its tip down, and the blocks that the database holds for them.\<close>

definition branch :: "blockNode \<Rightarrow> blockNode list" where
  "branch n = rev (tl (chain_to n))"

lemma branch_simps [simp]: "bn_parent n = None \<Longrightarrow> branch n = []" "bn_parent n = Some p \<Longrightarrow> branch n = n # branch p"
  by (simp_all add: branch_def)

lemma branch_chain: "set (branch n) \<subseteq> set (chain_to n)"
  by (auto simp: branch_def dest: list.set_sel(2) [rotated])

definition txs_of :: "chainDB \<Rightarrow> blockNode \<Rightarrow> MsgTx list" where
  "txs_of db n = (case dbFetchBlockByNode n db of Inl _ \<Rightarrow> [] | Inr blk \<Rightarrow> ub_Transactions blk)"

text \<open>The database holds a sane block under the hash of the node.\<close>

definition stored_block :: "(bytes \<Rightarrow> hash) \<Rightarrow> chainDB \<Rightarrow> blockNode \<Rightarrow> utilBlock \<Rightarrow> bool" where
  "stored_block dh db n blk \<longleftrightarrow> dbFetchBlockByNode n db = Inr blk \<and> BlockHash dh (ub_header blk) = bn_hash n \<and>
     block_ok (ub_MsgBlock blk) \<and> sane_block dh (ub_Transactions blk)"

lemma stored_txs: "stored_block dh db n blk \<Longrightarrow> txs_of db n = ub_Transactions blk"
  by (simp add: stored_block_def txs_of_def)

lemma fetched_height: "dbFetchBlockByNode n db = Inr blk \<Longrightarrow> ub_Height blk = bn_height n"
  by (auto simp: dbFetchBlockByNode_def sbind_eq_Inr)

text \<open>The coins after a branch, when every block of it is held and allowed where it stands.\<close>

fun replay :: "(bytes \<Rightarrow> hash) \<Rightarrow> nat \<Rightarrow> chainDB \<Rightarrow> blockNode list \<Rightarrow> coins option" where
  "replay dh maturity db [] = Some Map.empty"
| "replay dh maturity db (n # ns) =
     (case replay dh maturity db ns of
        None \<Rightarrow> None
      | Some coins \<Rightarrow>
          if (\<exists>blk. stored_block dh db n blk) \<and> block_allowed dh (bn_height n) maturity coins (txs_of db n)
          then Some (apply_txs dh (bn_height n) (txs_of db n) coins)
          else None)"

lemma fetch_same_blocks: "db_blocks db' = db_blocks db \<Longrightarrow> dbFetchBlockByNode n db' = dbFetchBlockByNode n db"
  by (simp add: dbFetchBlockByNode_def FetchBlock_def)

lemma same_blocks:
  assumes "db_blocks db' = db_blocks db"
  shows "stored_block dh db' n blk \<longleftrightarrow> stored_block dh db n blk" "txs_of db' n = txs_of db n" "replay dh m db' ns = replay dh m db ns"
proof -
  note f = fetch_same_blocks [OF assms]
  have s: "stored_block dh db' = stored_block dh db" by (simp add: stored_block_def f fun_eq_iff)
  then show "stored_block dh db' n blk \<longleftrightarrow> stored_block dh db n blk" by simp
  show t: "txs_of db' n = txs_of db n" for n by (simp add: txs_of_def f)
  show "replay dh m db' ns = replay dh m db ns" 
  proof (induction ns)
    case (Cons n ns)
    then show ?case by (cases "replay dh m db ns") (simp_all add: s t)
  qed simp
qed

lemma replay_valid: "replay dh m db (n # ns) = Some coins' \<Longrightarrow> replay dh m db ns = Some coins \<Longrightarrow>
    valid_txs dh (bn_height n) coins (txs_of db n) \<and> coins' = apply_txs dh (bn_height n) (txs_of db n) coins \<and> (\<exists>blk. stored_block dh db n blk)"
  using block_allowed_valid by (auto split: option.splits if_splits)

lemma replay_tail: "replay dh m db (xs @ ns) \<noteq> None \<Longrightarrow> replay dh m db ns \<noteq> None"
  by (induction xs) (auto split: option.splits)

text \<open>A coin has the outpoint of an output of the branch, and can be stored.\<close>

definition coin_storable :: "OutPoint \<Rightarrow> coin \<Rightarrow> bool" where
  "coin_storable op c \<longleftrightarrow> op_ok op \<and> storable (co_amount c) (co_height c) (co_pkScript c)"

text \<open>Amounts that the compression of amounts can carry: it multiplies them by nine in 64 bits.\<close>

definition small_amounts :: "MsgTx list \<Rightarrow> bool" where
  "small_amounts txs \<longleftrightarrow> (\<forall>tx \<in> set txs. \<forall>txOut \<in> set (tx_TxOut tx). 9 * to_Value txOut + 9 < 2 ^ 64)"

lemma block_outputs_storable:
  assumes "stored_block dh db n blk" "small_amounts (ub_Transactions blk)" "\<And>b. length (dh b) = 32" "0 \<le> bn_height n" "bn_height n < 2 ^ 31" "tx \<in> set (ub_Transactions blk)"
  shows "txOut \<in> set (tx_TxOut tx) \<Longrightarrow> storable (to_Value txOut) (bn_height n) (to_PkScript txOut)"
    "length (tx_TxOut tx) \<le> 2 ^ 32" "length (TxHash dh tx) = 32"
proof -
  have t: "tx_ok tx" "sane_outputs tx" using assms(1,6) by (auto simp: stored_block_def block_ok_def sane_block_def list_all_iff)
  show "length (TxHash dh tx) = 32" using assms(3) by (simp add: TxHash_def)
  show "length (tx_TxOut tx) \<le> 2 ^ 32" using t(1) by (auto simp: tx_ok_def wire_limits)
  assume o: "txOut \<in> set (tx_TxOut tx)"
  have "0 \<le> to_Value txOut" "9 * to_Value txOut + 9 < 2 ^ 64" using t(2) o assms(2,6) by (auto simp: sane_outputs_def small_amounts_def)
  moreover have "length (to_PkScript txOut) \<le> sum_list (map (\<lambda>to. length (to_PkScript to)) (tx_TxOut tx))"
    using o by (intro member_le_sum_list) auto
  then have "length (to_PkScript txOut) \<le> scriptSlabSize" using t(1) by (simp add: tx_ok_def)
  ultimately show "storable (to_Value txOut) (bn_height n) (to_PkScript txOut)"
    using assms(4,5) by (simp add: storable_def wire_limits)
qed

lemma created_Some: "created dh h tx op = Some c \<Longrightarrow>
    \<exists>i < length (tx_TxOut tx). op = \<lparr>out_Hash = TxHash dh tx, out_Index = i\<rparr> \<and>
      c = \<lparr>co_amount = to_Value (tx_TxOut tx ! i), co_pkScript = to_PkScript (tx_TxOut tx ! i), co_height = h, co_coinbase = IsCoinBaseTx tx\<rparr>"
  by (cases op) (auto simp: created_def created_from_def split: if_splits)

lemma apply_txs_Some: "apply_txs dh h txs coins op = Some c \<Longrightarrow> coins op = Some c \<or> (\<exists>tx \<in> set txs. created dh h tx op = Some c)"
proof (induction txs arbitrary: coins)
  case (Cons tx txs)
  then consider "apply_tx dh h tx coins op = Some c" | "\<exists>t \<in> set txs. created dh h t op = Some c" by auto
  then show ?case
    by cases (auto simp: apply_tx_def map_add_Some_iff restrict_map_def split: if_splits)
qed simp

lemma replay_coin:
  assumes "replay dh m db ns = Some coins" "coins op = Some c" "\<And>b. length (dh b) = 32"
    "\<And>n. n \<in> set ns \<Longrightarrow> 0 \<le> bn_height n \<and> bn_height n < 2 ^ 31 \<and> small_amounts (txs_of db n)"
  shows "coin_storable op c \<and> (\<exists>n \<in> set ns. \<exists>tx \<in> set (txs_of db n). out_Hash op = TxHash dh tx)"
  using assms(1,2,4)
proof (induction ns arbitrary: coins)
  case (Cons n ns)
  from Cons.prems(1) obtain before where r: "replay dh m db ns = Some before" by (cases "replay dh m db ns") auto
  with Cons.prems(1) obtain blk where v: "coins = apply_txs dh (bn_height n) (txs_of db n) before" "stored_block dh db n blk"
    using replay_valid by blast
  note b = stored_txs [OF v(2)]
  have h: "0 \<le> bn_height n" "bn_height n < 2 ^ 31" "small_amounts (ub_Transactions blk)" using Cons.prems(3) [of n] b by auto
  from apply_txs_Some v(1) Cons.prems(2) consider "before op = Some c" | tx where "tx \<in> set (txs_of db n)" "created dh (bn_height n) tx op = Some c" by blast
  then show ?case
  proof cases
    case 1
    with Cons.IH [OF r] Cons.prems(3) show ?thesis by auto
  next
    case 2
    then obtain i where i: "i < length (tx_TxOut tx)" "op = \<lparr>out_Hash = TxHash dh tx, out_Index = i\<rparr>"
      "c = \<lparr>co_amount = to_Value (tx_TxOut tx ! i), co_pkScript = to_PkScript (tx_TxOut tx ! i), co_height = bn_height n, co_coinbase = IsCoinBaseTx tx\<rparr>"
      using created_Some by blast
    note o = block_outputs_storable [OF v(2) h(3) assms(3) h(1,2) 2(1) [unfolded b]]
    have "coin_storable op c" using o i(1) by (auto simp: coin_storable_def op_ok_def i(2,3))
    with 2(1) i(2) show ?thesis by auto
  qed
qed simp

subsection \<open>The state that the operations keep\<close>

text \<open>What the environment has to provide.\<close>

definition config_ok :: "'k chainConfig \<Rightarrow> bool" where
  "config_ok cfg \<longleftrightarrow> curve_ok (cc_curve cfg) \<and> iterates (cc_mapOrder cfg) \<and> (\<forall>b. length (cc_dh cfg b) = 32) \<and> cc_pruneTarget cfg = 0 \<and>
     (\<forall>v. finite (dom (uv_entries v)) \<longrightarrow> distinct (map fst (cc_viewOrder cfg v)) \<and> map_of (cc_viewOrder cfg v) = uv_entries v)"

abbreviation cc_maturity :: "'k chainConfig \<Rightarrow> nat" where "cc_maturity cfg \<equiv> cp_CoinbaseMaturity (cc_params cfg)"

abbreviation utxo_bucket :: "chainState \<Rightarrow> bucket" where "utxo_bucket s \<equiv> db_utxoSet (st_db s)"

text \<open>The coins of the node, and the coins after the branch of a node.\<close>

definition node_coins :: "'k chainConfig \<Rightarrow> chainState \<Rightarrow> coins" where
  "node_coins cfg s = cache_coins (cc_curve cfg) (utxo_bucket s) (st_utxoCache s)"

definition coins_at :: "'k chainConfig \<Rightarrow> chainDB \<Rightarrow> blockNode \<Rightarrow> coins option" where
  "coins_at cfg db n = replay (cc_dh cfg) (cc_maturity cfg) db (branch n)"

text \<open>
  What cannot be proved of the code alone: heights stay below the limit of the view, no two blocks of a branch have a transaction of the
  same hash, no transaction spends an output of its own block that comes later, and amounts are not beyond what the compression carries.\<close>

definition regular :: "'k chainConfig \<Rightarrow> chainDB \<Rightarrow> blockNode \<Rightarrow> bool" where
  "regular cfg db n \<longleftrightarrow> bn_height n < 2 ^ 31 - 1 \<and> small_amounts (txs_of db n) \<and>
     spends_earlier (cc_dh cfg) (bn_height n) (txs_of db n) \<and>
     (\<forall>m \<in> set (tl (branch n)). \<forall>t \<in> set (txs_of db n). \<forall>u \<in> set (txs_of db m). TxHash (cc_dh cfg) t \<noteq> TxHash (cc_dh cfg) u)"

definition regular_index :: "'k chainConfig \<Rightarrow> chainState \<Rightarrow> bool" where
  "regular_index cfg s \<longleftrightarrow> (\<forall>h n. st_index s h = Some n \<longrightarrow> regular cfg (st_db s) n)"

text \<open>The index is closed under parents, is one tree, and the database holds the block of every node.\<close>

definition tree_ok :: "'k chainConfig \<Rightarrow> chainState \<Rightarrow> bool" where
  "tree_ok cfg s \<longleftrightarrow>
     (\<forall>h n. st_index s h = Some n \<longrightarrow> bn_hash n = h \<and> built (cc_dh cfg) n \<and>
        (\<forall>p. bn_parent n = Some p \<longrightarrow> st_index s (bn_hash p) = Some p \<and>
           (\<exists>blk. stored_block (cc_dh cfg) (st_db s) n blk \<and> bh_PrevBlock (ub_header blk) = bn_hash p)) \<and>
        (\<exists>blk. dbFetchBlockByNode n (st_db s) = Inr blk) \<and>
        (KnownValid (st_status s n) \<longrightarrow> coins_at cfg (st_db s) n \<noteq> None)) \<and>
     (\<exists>g. \<forall>h n. st_index s h = Some n \<longrightarrow> hd (chain_to n) = g) \<and>
     (\<forall>h. fmlookup (db_blocks (st_db s)) h \<noteq> None \<longrightarrow> st_index s h \<noteq> None)"

text \<open>The spend journal has the record of every block of the branch.\<close>

fun journaled :: "'k chainConfig \<Rightarrow> chainDB \<Rightarrow> blockNode list \<Rightarrow> bool" where
  "journaled cfg db [] \<longleftrightarrow> True"
| "journaled cfg db (n # ns) \<longleftrightarrow> journaled cfg db ns \<and>
     (\<forall>coins. replay (cc_dh cfg) (cc_maturity cfg) db ns = Some coins \<longrightarrow>
        dbFetchSpendJournalEntry (cc_curve cfg) (bn_hash n) (txs_of db n) db =
          Inr (block_details (cc_dh cfg) (bn_height n) coins (txs_of db n)))"

text \<open>The database stays at a block of the best chain: it has the coins there and names it.\<close>

definition durable :: "'k chainConfig \<Rightarrow> chainDB \<Rightarrow> blockNode \<Rightarrow> bool" where
  "durable cfg db tip \<longleftrightarrow>
     (\<exists>f \<in> set (chain_to tip). dbFetchUtxoStateConsistency db = Some (bn_hash f) \<and> coins_at cfg db f = Some (stored_coins (cc_curve cfg) (db_utxoSet db)))"

text \<open>The best state of the database names the tip.\<close>

definition best_stored :: "chainDB \<Rightarrow> blockNode \<Rightarrow> bool" where
  "best_stored db tip \<longleftrightarrow>
     (\<exists>state. fmlookup (db_meta db) chainStateKeyName = Some (serializeBestChainState state) \<and> bs_hash state = bn_hash tip)"

text \<open>The cache and the database have the coins after the branch of a block, and the database alone those of a block of this branch.\<close>

definition utxo_ok :: "'k chainConfig \<Rightarrow> chainState \<Rightarrow> blockNode \<Rightarrow> bool" where
  "utxo_ok cfg s n \<longleftrightarrow>
     coherent (cc_curve cfg) (utxo_bucket s) (st_utxoCache s) \<and> bucket_ok (cc_curve cfg) (utxo_bucket s) \<and>
     coins_at cfg (st_db s) n = Some (node_coins cfg s) \<and> durable cfg (st_db s) n"

definition chain_ok :: "'k chainConfig \<Rightarrow> chainState \<Rightarrow> blockNode \<Rightarrow> bool" where
  "chain_ok cfg s tip \<longleftrightarrow>
     st_bestChain s = view_of tip \<and> st_index s (bn_hash tip) = Some tip \<and> utxo_ok cfg s tip \<and>
     journaled cfg (st_db s) (branch tip) \<and> best_stored (st_db s) tip \<and> be_Hash (st_snapshot s) = bn_hash tip"

subsection \<open>The index\<close>

lemma tree_okD:
  assumes "tree_ok cfg s" "st_index s h = Some n"
  shows "bn_hash n = h" "built (cc_dh cfg) n" "bn_parent n = Some p \<Longrightarrow> st_index s (bn_hash p) = Some p"
    "bn_parent n = Some p \<Longrightarrow> \<exists>blk. stored_block (cc_dh cfg) (st_db s) n blk \<and> bh_PrevBlock (ub_header blk) = bn_hash p"
    "\<exists>blk. dbFetchBlockByNode n (st_db s) = Inr blk" "KnownValid (st_status s n) \<Longrightarrow> coins_at cfg (st_db s) n \<noteq> None"
  using assms unfolding tree_ok_def by simp_all

lemma index_self: "tree_ok cfg s \<Longrightarrow> st_index s h = Some n \<Longrightarrow> st_index s (bn_hash n) = Some n"
  using tree_okD(1) by blast

lemma chain_indexed:
  assumes "tree_ok cfg s" "st_index s h = Some n" "m \<in> set (chain_to n)"
  shows "st_index s (bn_hash m) = Some m"
proof -
  have "built (cc_dh cfg) n" using tree_okD(2) [OF assms(1,2)] .
  then show ?thesis using assms(2,3)
  proof (induction arbitrary: h rule: built.induct)
    case (built_genesis header status vsize)
    then show ?case using index_self [OF assms(1) built_genesis.prems(1)] by simp
  next
    case (built_child p header status vsize)
    let ?n = "newBlockNode (cc_dh cfg) header (Some p) status vsize"
    have "st_index s (bn_hash p) = Some p" using tree_okD(3) [OF assms(1) built_child.prems(1)] by simp
    with built_child.IH built_child.prems index_self [OF assms(1) built_child.prems(1)] show ?case by auto
  qed
qed

lemma chain_hash_inject:
  assumes "tree_ok cfg s" "st_index s h = Some n" "a \<in> set (chain_to n)" "b \<in> set (chain_to n)" "bn_hash a = bn_hash b"
  shows "a = b"
  using chain_indexed [OF assms(1,2,3)] chain_indexed [OF assms(1,2,4)] unfolding assms(5) by (metis option.inject)

lemma branch_heights:
  assumes "built dh n" "m \<in> set (branch n)"
  shows "0 \<le> bn_height m \<and> bn_height m < 2 ^ 31"
proof -
  have "m \<in> set (chain_to n)" using branch_chain assms(2) by blast
  from built_height [OF chain_to_member(1) [OF assms(1) this]] show ?thesis .
qed

text \<open>What is known of the coins on a branch of a regular index.\<close>

lemma coins_at_coin:
  assumes "config_ok cfg" "tree_ok cfg s" "regular_index cfg s" "st_index s h = Some n" "coins_at cfg (st_db s) n = Some coins" "coins op = Some c"
  shows "coin_storable op c \<and> (\<exists>m \<in> set (branch n). \<exists>tx \<in> set (txs_of (st_db s) m). out_Hash op = TxHash (cc_dh cfg) tx)"
proof (rule replay_coin [OF assms(5) [unfolded coins_at_def] assms(6)])
  show "length (cc_dh cfg b) = 32" for b using assms(1) by (simp add: config_ok_def)
  fix m
  assume m: "m \<in> set (branch n)"
  then have "st_index s (bn_hash m) = Some m" using chain_indexed [OF assms(2,4)] branch_chain by blast
  then have "regular cfg (st_db s) m" using assms(3) by (auto simp: regular_index_def)
  with branch_heights [OF tree_okD(2) [OF assms(2,4)] m] show "0 \<le> bn_height m \<and> bn_height m < 2 ^ 31 \<and> small_amounts (txs_of (st_db s) m)"
    by (simp add: regular_def)
qed

subsection \<open>What connecting and disconnecting a block change\<close>

lemma status_writes: "\<exists>si. fold (\<lambda>node. dbStoreBlockStatus (bn_hash node) (st node)) ns db = db\<lparr>db_statusIndex := si\<rparr>"
proof (induction ns arbitrary: db)
  case Nil
  have "db = db\<lparr>db_statusIndex := db_statusIndex db\<rparr>" by simp
  then show ?case by (simp add: exI [of _ "db_statusIndex db"])
next
  case (Cons n ns)
  from Cons.IH [of "dbStoreBlockStatus (bn_hash n) (st n) db"] show ?case by (auto simp: dbStoreBlockStatus_def)
qed

lemma flushToDB_effect:
  obtains si where "flushToDB s = Some (Inr (), s\<lparr>st_db := (st_db s)\<lparr>db_statusIndex := si\<rparr>, st_dirty := []\<rparr>)"
proof (cases "st_dirty s = []")
  case True
  then have "s = s\<lparr>st_db := (st_db s)\<lparr>db_statusIndex := db_statusIndex (st_db s)\<rparr>, st_dirty := []\<rparr>" by simp
  with True show ?thesis using that [of "db_statusIndex (st_db s)"] by (simp add: flushToDB_def)
next
  case False
  with status_writes [of "st_status s" "st_dirty s" "st_db s"] that show ?thesis by (auto simp: flushToDB_def)
qed

lemma flush_form:
  assumes "cache_flush C ord mode h now cache db = Inr (cache', db')"
  shows "\<not> shouldFlush mode h now cache \<and> cache' = cache \<and> db' = db \<or>
    shouldFlush mode h now cache \<and> (\<exists>b. db' = dbPutUtxoStateConsistency h (db\<lparr>db_utxoSet := b\<rparr>))"
  using assms by (auto simp: cache_flush_def writeCache_def Let_def sbind_eq_Inr split: if_splits)

lemma cm_Update_iff:
  "cm_Update f s = Some (Inr (), s') \<longleftrightarrow>
     (\<exists>db cache. f (st_utxoCache s) (st_db s) = (Inr db, cache) \<and> s' = s\<lparr>st_utxoCache := cache, st_db := db\<rparr>)"
  by (cases "f (st_utxoCache s) (st_db s)") (auto simp: cm_Update_def split: sum.splits)

lemma tx_bind_iff:
  "tx_bind f g cache db = (Inr db', cache') \<longleftrightarrow> (\<exists>db1 cache1. f cache db = (Inr db1, cache1) \<and> g cache1 db1 = (Inr db', cache'))"
  by (cases "f cache db") (auto simp: tx_bind_def split: sum.splits)

lemma tx_write_iff: "tx_write f cache db = (Inr db', cache') \<longleftrightarrow> f db = Inr db' \<and> cache' = cache"
  by (auto simp: tx_write_def)

lemma tx_flush_iff:
  "tx_flush cfg clk mode h cache db = (Inr db', cache') \<longleftrightarrow>
     cache_flush (cc_curve cfg) (cc_mapOrder cfg) mode h (cl_seconds clk) cache db = Inr (cache', db')"
  by (auto simp: tx_flush_def split: sum.splits)

lemmas tx_iffs = tx_bind_iff tx_write_iff tx_flush_iff cm_Update_iff

lemma flush_if_needed:
  "(if \<not> shouldFlush mode h (cl_seconds clk) (st_utxoCache s) then Some (Inr (), s) else cm_Update (tx_flush cfg clk mode h) s) = Some (Inr (), s') \<longleftrightarrow>
     (\<exists>cache db. cache_flush (cc_curve cfg) (cc_mapOrder cfg) mode h (cl_seconds clk) (st_utxoCache s) (st_db s) = Inr (cache, db) \<and>
        s' = s\<lparr>st_utxoCache := cache, st_db := db\<rparr>)"
  by (cases "shouldFlush mode h (cl_seconds clk) (st_utxoCache s)") (auto simp: tx_iffs cache_flush_def)

lemma warn_rules_effect: "warn_rules cfg n s = Some (Inr (), s') \<Longrightarrow> \<exists>vs. s' = s\<lparr>st_voting := vs\<rparr>"
  by (auto simp: warn_rules_def split: option.splits)

lemma best_state_hash [simp]: "be_Hash (best_state n blk t) = bn_hash n"
  by (simp add: best_state_def newBestState_def)


lemma connectBlock_effect:
  assumes "cc_pruneTarget cfg = 0" "connectBlock cfg clk n blk stxos s = Some (Inr (), s')"
  shows "\<exists>tip state si db.
    view_tip (st_bestChain s) = Some tip \<and> bh_PrevBlock (ub_header blk) = bn_hash tip \<and> be_Hash state = bn_hash n \<and>
    dbPutSpendJournalEntry (cc_curve cfg) (BlockHash (cc_dh cfg) (ub_header blk)) stxos
       (dbPutBlockIndex (BlockHash (cc_dh cfg) (ub_header blk)) (bn_height n) (dbPutBestState state (bn_workSum n) ((st_db s)\<lparr>db_statusIndex := si\<rparr>))) = Inr db \<and>
    cache_flush (cc_curve cfg) (cc_mapOrder cfg) FlushIfNeeded (bn_hash n) (cl_seconds clk) (st_utxoCache s) db = Inr (st_utxoCache s', st_db s') \<and>
    setTip (st_bestChain s) (Some n) = Inr (st_bestChain s') \<and>
    st_index s' = st_index s \<and> st_status s' = st_status s \<and> st_pool s' = st_pool s \<and> st_snapshot s' = state"
proof -
  let ?h = "BlockHash (cc_dh cfg) (ub_header blk)"
  have pr: "prune_blocks cfg clk bi h cache db = (Inr db, cache)" for bi h cache db by (simp add: prune_blocks_def assms(1))
  from assms(2) obtain tip s1 s2 where t: "view_tip (st_bestChain s) = Some tip" "bh_PrevBlock (ub_header blk) = bn_hash tip"
    and w: "(if isCurrent cfg clk tip then warn_rules cfg n else cm_return ()) s = Some (Inr (), s1)"
    and f: "flushToDB s1 = Some (Inr (), s2)"
    and r: "(let blockHash = ?h;
           state = best_state n blk (int (be_TotalTxns (st_snapshot s2)) + int (length (ub_Transactions blk)))
       in cm_bind
            (cm_Update
              (tx_bind (prune_blocks cfg clk (st_index s2) (be_Hash state))
              (tx_bind (tx_write (\<lambda>db. Inr (dbPutBestState state (bn_workSum n) db)))
              (tx_bind (tx_write (\<lambda>db. Inr (dbPutBlockIndex blockHash (bn_height n) db)))
              (tx_bind (tx_write (dbPutSpendJournalEntry (cc_curve cfg) blockHash stxos))
                (tx_write (\<lambda>db. sbind (cc_indexConnect cfg blk stxos) (\<lambda>_. Inr db))))))))
            (\<lambda>_. cm_bind (\<lambda>s. cm_lift fromGo (setTip (st_bestChain s) (Some n)) s) (\<lambda>bestChain.
             cm_bind (cm_update (\<lambda>s. s\<lparr>st_bestChain := bestChain, st_snapshot := state\<rparr>)) (\<lambda>_ s.
               if \<not> shouldFlush FlushIfNeeded (be_Hash state) (cl_seconds clk) (st_utxoCache s) then Some (Inr (), s)
               else cm_Update (tx_flush cfg clk FlushIfNeeded (be_Hash state)) s))) s2) = Some (Inr (), s')"
    unfolding connectBlock_def cm_bind_Inr by auto
  obtain vs where vs: "s1 = s\<lparr>st_voting := vs\<rparr>"
    using w warn_rules_effect [of cfg n s s1] by (cases "isCurrent cfg clk tip") (auto intro: that [of "st_voting s"])
  obtain si where "flushToDB s1 = Some (Inr (), s1\<lparr>st_db := (st_db s1)\<lparr>db_statusIndex := si\<rparr>, st_dirty := []\<rparr>)" by (rule flushToDB_effect)
  with f have s2: "s2 = s\<lparr>st_voting := vs, st_db := (st_db s)\<lparr>db_statusIndex := si\<rparr>, st_dirty := []\<rparr>" by (simp add: vs)
  let ?state = "best_state n blk (int (be_TotalTxns (st_snapshot s2)) + int (length (ub_Transactions blk)))"
  from r [unfolded Let_def cm_bind_Inr] obtain s3 c where
    u: "cm_Update
              (tx_bind (prune_blocks cfg clk (st_index s2) (be_Hash ?state))
              (tx_bind (tx_write (\<lambda>db. Inr (dbPutBestState ?state (bn_workSum n) db)))
              (tx_bind (tx_write (\<lambda>db. Inr (dbPutBlockIndex ?h (bn_height n) db)))
              (tx_bind (tx_write (dbPutSpendJournalEntry (cc_curve cfg) ?h stxos))
                (tx_write (\<lambda>db. sbind (cc_indexConnect cfg blk stxos) (\<lambda>_. Inr db))))))) s2 = Some (Inr (), s3)"
    and c: "setTip (st_bestChain s3) (Some n) = Inr c"
    and l: "(if \<not> shouldFlush FlushIfNeeded (bn_hash n) (cl_seconds clk) (st_utxoCache (s3\<lparr>st_bestChain := c, st_snapshot := ?state\<rparr>)) then
        Some (Inr (), s3\<lparr>st_bestChain := c, st_snapshot := ?state\<rparr>)
      else cm_Update (tx_flush cfg clk FlushIfNeeded (bn_hash n)) (s3\<lparr>st_bestChain := c, st_snapshot := ?state\<rparr>)) = Some (Inr (), s')"
    by (auto cong: if_cong)
  from u obtain db where
    j: "dbPutSpendJournalEntry (cc_curve cfg) ?h stxos
       (dbPutBlockIndex ?h (bn_height n) (dbPutBestState ?state (bn_workSum n) ((st_db s)\<lparr>db_statusIndex := si\<rparr>))) = Inr db"
    and s3: "s3 = s2\<lparr>st_db := db\<rparr>"
    unfolding tx_iffs pr by (auto simp: s2 sbind_eq_Inr)
  from l obtain cache db' where fl: "cache_flush (cc_curve cfg) (cc_mapOrder cfg) FlushIfNeeded (bn_hash n) (cl_seconds clk) (st_utxoCache s) db = Inr (cache, db')"
    and s': "s' = s3\<lparr>st_bestChain := c, st_snapshot := ?state, st_utxoCache := cache, st_db := db'\<rparr>"
    unfolding flush_if_needed by (auto simp: s3 s2)
  show ?thesis
    using t j fl c by (intro exI [of _ tip] exI [of _ ?state] exI [of _ si] exI [of _ db]) (simp add: s' s3 s2)
qed

subsection \<open>Connecting a block\<close>

lemma configD:
  assumes "config_ok cfg"
  shows "curve_ok (cc_curve cfg)" "iterates (cc_mapOrder cfg)" "length (cc_dh cfg b) = 32" "cc_pruneTarget cfg = 0"
    "finite (dom (uv_entries v)) \<Longrightarrow> distinct (map fst (cc_viewOrder cfg v)) \<and> map_of (cc_viewOrder cfg v) = uv_entries v"
  using assms by (simp_all add: config_ok_def)

lemma chain_okD:
  assumes "chain_ok cfg s tip"
  shows "st_bestChain s = view_of tip" "st_index s (bn_hash tip) = Some tip" "utxo_ok cfg s tip"
    "journaled cfg (st_db s) (branch tip)" "best_stored (st_db s) tip" "be_Hash (st_snapshot s) = bn_hash tip"
  using assms unfolding chain_ok_def by simp_all

lemma utxo_okD:
  assumes "utxo_ok cfg s n"
  shows "coherent (cc_curve cfg) (utxo_bucket s) (st_utxoCache s)" "bucket_ok (cc_curve cfg) (utxo_bucket s)"
    "coins_at cfg (st_db s) n = Some (node_coins cfg s)" "durable cfg (st_db s) n"
  using assms unfolding utxo_ok_def by simp_all

lemma branch_mono: "built dh n \<Longrightarrow> f \<in> set (chain_to n) \<Longrightarrow> set (branch f) \<subseteq> set (branch n)"
proof -
  assume "built dh n" "f \<in> set (chain_to n)"
  then obtain b where "chain_to n = chain_to f @ b" using chain_below by blast
  then show ?thesis by (cases "chain_to f") (auto simp: branch_def)
qed

lemma stored_record:
  "curve_ok C \<Longrightarrow> bucket_ok C b \<Longrightarrow> op_ok op \<Longrightarrow> fmlookup b (outpointKey op) \<noteq> None \<Longrightarrow> stored_coins C b op \<noteq> None"
  using stored_coins_entry(2) by (fastforce simp: bucket_ok_def)

text \<open>Every record of the database comes from a transaction of the best chain.\<close>

lemma records_known:
  assumes "config_ok cfg" "tree_ok cfg s" "regular_index cfg s" "utxo_ok cfg s tip" "st_index s h = Some tip" "op_ok op" "fmlookup (utxo_bucket s) (outpointKey op) \<noteq> None"
  shows "\<exists>m \<in> set (branch tip). \<exists>tx \<in> set (txs_of (st_db s) m). out_Hash op = TxHash (cc_dh cfg) tx"
proof -
  note c = utxo_okD [OF assms(4)]
  obtain f where f: "f \<in> set (chain_to tip)" "coins_at cfg (st_db s) f = Some (stored_coins (cc_curve cfg) (utxo_bucket s))"
    using c(4) by (auto simp: durable_def)
  obtain coin where "stored_coins (cc_curve cfg) (utxo_bucket s) op = Some coin"
    using stored_record [OF configD(1) [OF assms(1)] c(2) assms(6,7)] by blast
  from coins_at_coin [OF assms(1-3) chain_indexed [OF assms(2,5) f(1)] f(2) this]
  show ?thesis using branch_mono [OF tree_okD(2) [OF assms(2,5)] f(1)] by blast
qed

lemma new_outputs_ok:
  assumes "config_ok cfg" "tree_ok cfg s" "regular_index cfg s" "utxo_ok cfg s tip" "st_index s h = Some n" "bn_parent n = Some tip"
    "stored_block (cc_dh cfg) (st_db s) n blk"
  shows "list_all (tx_ok_for (cc_dh cfg) (utxo_bucket s) (bn_height n)) (ub_Transactions blk)"
  unfolding list_all_iff tx_ok_for_def outs_ok_def
proof (intro ballI conjI allI impI)
  fix tx
  assume tx: "tx \<in> set (ub_Transactions blk)"
  note t = stored_txs [OF assms(7)]
  have r: "regular cfg (st_db s) n" using assms(3,5) by (simp add: regular_index_def)
  have b: "0 \<le> bn_height n" "bn_height n < 2 ^ 31" using built_height [OF tree_okD(2) [OF assms(2,5)]] by simp_all
  have "small_amounts (ub_Transactions blk)" using r t by (simp add: regular_def)
  note o = block_outputs_storable [OF assms(7) this configD(3) [OF assms(1)] b tx]
  show "length (TxHash (cc_dh cfg) tx) = 32" "0 + length (tx_TxOut tx) \<le> 2 ^ 32" using o(2,3) by simp_all
  fix i
  assume i: "i < length (tx_TxOut tx)"
  show "storable (to_Value (tx_TxOut tx ! i)) (bn_height n) (to_PkScript (tx_TxOut tx ! i))" using o(1) i by simp
  let ?op = "\<lparr>out_Hash = TxHash (cc_dh cfg) tx, out_Index = 0 + i\<rparr>"
  have "op_ok ?op" using o(2,3) i by (simp add: op_ok_def)
  show "fmlookup (utxo_bucket s) (outpointKey ?op) = None"
  proof (rule ccontr)
    assume "fmlookup (utxo_bucket s) (outpointKey ?op) \<noteq> None"
    from records_known [OF assms(1-4) tree_okD(3) [OF assms(2,5,6)] \<open>op_ok ?op\<close> this] obtain m u where
      "m \<in> set (branch tip)" "u \<in> set (txs_of (st_db s) m)" "TxHash (cc_dh cfg) tx = TxHash (cc_dh cfg) u" by auto
    then show False using r t tx assms(6) unfolding regular_def by auto
  qed
qed

lemma connect_transactions:
  assumes "config_ok cfg" "tree_ok cfg s" "regular_index cfg s" "utxo_ok cfg s tip" "st_index s h = Some n" "bn_parent n = Some tip"
    "stored_block (cc_dh cfg) (st_db s) n blk" "coins_at cfg (st_db s) n = Some coins"
  shows "\<exists>cache. cm_connectTransactions cfg blk s =
      Some (Inr (block_details (cc_dh cfg) (bn_height n) (node_coins cfg s) (ub_Transactions blk)), s\<lparr>st_utxoCache := cache\<rparr>) \<and>
    coherent (cc_curve cfg) (utxo_bucket s) cache \<and> cache_coins (cc_curve cfg) (utxo_bucket s) cache = coins"
proof -
  note c = utxo_okD [OF assms(4)]
  have h: "ub_Height blk = bn_height n" using assms(7) fetched_height unfolding stored_block_def by blast
  have "replay (cc_dh cfg) (cc_maturity cfg) (st_db s) (branch tip) = Some (node_coins cfg s)" using c(3) by (simp add: coins_at_def)
  from replay_valid [OF assms(8) [unfolded coins_at_def branch_simps(2) [OF assms(6)]] this]
  have v: "valid_txs (cc_dh cfg) (bn_height n) (node_coins cfg s) (ub_Transactions blk)"
    "coins = apply_txs (cc_dh cfg) (bn_height n) (ub_Transactions blk) (node_coins cfg s)"
    using stored_txs [OF assms(7)] by simp_all
  from cache_connect_txs_ok [OF configD(1) [OF assms(1)] c(2,1) v(1) [unfolded node_coins_def] new_outputs_ok [OF assms(1-7)], of "cc_log cfg" "[]"]
  show ?thesis using v(2) h by (auto simp: cm_connectTransactions_def cache_connectTransactions_def block_data_def node_coins_def)
qed

end
