(* ===== verification/Chain_Recovery.thy ===== *)
theory Chain_Recovery
  imports Chain_Invariant
begin

text \<open>
  Connecting a block (\<^verbatim>\<open>connectBlock\<close>) leads from a good state to a good state, and the start after a crash
  (\<^verbatim>\<open>InitConsistentState\<close>) brings the unspent outputs back to the tip.
\<close>

definition coins_storable :: "coins \<Rightarrow> bool" where
  "coins_storable coins \<longleftrightarrow> (\<forall>op c. coins op = Some c \<longrightarrow> storable (co_amount c) (co_height c) (co_pkScript c))"

lemma apply_tx_storable:
  assumes "coins_storable coins" "\<forall>txOut \<in> set (tx_TxOut tx). storable (to_Value txOut) h (to_PkScript txOut)"
  shows "coins_storable (apply_tx dh h tx coins)"
  unfolding coins_storable_def
proof (intro allI impI)
  fix op c
  assume "apply_tx dh h tx coins op = Some c"
  then consider "coins op = Some c" | "created dh h tx op = Some c" by (auto simp: apply_tx_def map_add_Some_iff restrict_map_def split: if_splits)
  then show "storable (co_amount c) (co_height c) (co_pkScript c)"
  proof cases
    case 1
    then show ?thesis using assms(1) by (auto simp: coins_storable_def)
  next
    case 2
    with created_Some [OF 2] assms(2) show ?thesis by auto
  qed
qed

lemma details_storable:
  "coins_storable coins \<Longrightarrow> valid_txs dh h coins txs \<Longrightarrow>
   \<forall>tx \<in> set txs. \<forall>txOut \<in> set (tx_TxOut tx). storable (to_Value txOut) h (to_PkScript txOut) \<Longrightarrow>
   list_all stxo_ok (block_details dh h coins txs)"
proof (induction txs arbitrary: coins)
  case (Cons tx txs)
  have "stxo_ok (coin_details (the (coins op)))" if "\<not> IsCoinBaseTx tx" "op \<in> set (prevouts tx)" for op
  proof -
    have "op \<in> dom coins" using that Cons.prems(2) by (auto simp: spends_ok_def)
    then show ?thesis using Cons.prems(1) by (auto simp: coins_storable_def stxo_ok_def coin_details_def)
  qed
  then have "list_all stxo_ok (tx_details tx coins)" by (auto simp: tx_details_def spent_coins_def list_all_iff)
  moreover have "list_all stxo_ok (block_details dh h (apply_tx dh h tx coins) txs)"
    using Cons.prems apply_tx_storable [OF Cons.prems(1)] by (intro Cons.IH) simp_all
  ultimately show ?case by simp
qed simp

lemma journaled_cong:
  assumes "db_blocks db' = db_blocks db"
  shows "\<forall>m \<in> set ns. fmlookup (db_spendJournal db') (bn_hash m) = fmlookup (db_spendJournal db) (bn_hash m) \<Longrightarrow>
   journaled cfg db' ns = journaled cfg db ns"
proof (induction ns)
  case (Cons n ns)
  then have "fmlookup (db_spendJournal db') (bn_hash n) = fmlookup (db_spendJournal db) (bn_hash n)" by simp
  then have "dbFetchSpendJournalEntry C (bn_hash n) txs db' = dbFetchSpendJournalEntry C (bn_hash n) txs db" for C :: "'a curve" and txs
    by (cases txs) (simp_all add: dbFetchSpendJournalEntry_def)
  with Cons show ?case by (simp add: same_blocks(2,3) [OF assms])
qed simp

lemma coins_at_cong: "db_blocks db' = db_blocks db \<Longrightarrow> coins_at cfg db' n = coins_at cfg db n"
  unfolding coins_at_def by (rule same_blocks(3))

lemma tree_ok_cong:
  assumes "tree_ok cfg s" "st_index s' = st_index s" "db_blocks (st_db s') = db_blocks (st_db s)"
    "\<And>h n. st_index s h = Some n \<Longrightarrow> KnownValid (st_status s' n) \<Longrightarrow> coins_at cfg (st_db s) n \<noteq> None"
  shows "tree_ok cfg s'"
  using assms(1) assms(4)
  unfolding tree_ok_def assms(2,3) coins_at_cong [OF assms(3)] same_blocks(1) [OF assms(3)] fetch_same_blocks [OF assms(3)] by blast

lemma regular_index_cong:
  assumes "regular_index cfg s" "st_index s' = st_index s" "db_blocks (st_db s') = db_blocks (st_db s)"
  shows "regular_index cfg s'"
  using assms(1) unfolding regular_index_def regular_def assms(2) same_blocks(2) [OF assms(3)] .

lemma regularD:
  assumes "regular_index cfg s" "st_index s h = Some n"
  shows "bn_height n < 2 ^ 31 - 1" "small_amounts (txs_of (st_db s) n)" "spends_earlier (cc_dh cfg) (bn_height n) (txs_of (st_db s) n)"
    "m \<in> set (tl (branch n)) \<Longrightarrow> t \<in> set (txs_of (st_db s) n) \<Longrightarrow> u \<in> set (txs_of (st_db s) m) \<Longrightarrow> TxHash (cc_dh cfg) t \<noteq> TxHash (cc_dh cfg) u"
proof -
  have "regular cfg (st_db s) n" using assms by (simp add: regular_index_def)
  then show "bn_height n < 2 ^ 31 - 1" "small_amounts (txs_of (st_db s) n)" "spends_earlier (cc_dh cfg) (bn_height n) (txs_of (st_db s) n)"
    "m \<in> set (tl (branch n)) \<Longrightarrow> t \<in> set (txs_of (st_db s) n) \<Longrightarrow> u \<in> set (txs_of (st_db s) m) \<Longrightarrow> TxHash (cc_dh cfg) t \<noteq> TxHash (cc_dh cfg) u"
    unfolding regular_def by blast+
qed

lemma node_coins_storable:
  assumes "config_ok cfg" "tree_ok cfg s" "regular_index cfg s" "st_index s h = Some n" "coins_at cfg (st_db s) n = Some coins"
  shows "coins_storable coins"
  using coins_at_coin [OF assms] by (simp add: coins_storable_def coin_storable_def)

text \<open>The record of a block that was connected is read back as the outputs that it spends.\<close>

lemma journal_written:
  assumes "curve_ok C" "coins_storable coins" "valid_txs dh h coins txs" "sane_block dh txs"
    "\<forall>tx \<in> set txs. \<forall>txOut \<in> set (tx_TxOut tx). storable (to_Value txOut) h (to_PkScript txOut)"
  shows "\<exists>j. dbPutSpendJournalEntry C b (block_details dh h coins txs) db = Inr (db\<lparr>db_spendJournal := fmupd b j (db_spendJournal db)\<rparr>) \<and>
    (\<forall>db'. fmlookup (db_spendJournal db') b = Some j \<longrightarrow> dbFetchSpendJournalEntry C b txs db' = Inr (block_details dh h coins txs))"
proof -
  obtain cb rest where t: "txs = cb # rest" "IsCoinBaseTx cb" "list_all (\<lambda>tx. \<not> IsCoinBaseTx tx) rest"
    using assms(4) by (cases txs) (auto simp: sane_block_def)
  have d: "list_all stxo_ok (block_details dh h coins txs)" by (rule details_storable [OF assms(2,3,5)])
  have l: "length (block_details dh h coins txs) = sum_list (map (length \<circ> tx_TxIn) rest)"
    using t by (simp add: tx_details_def length_block_details comp_def)
  obtain db1 where db1: "dbPutSpendJournalEntry C b (block_details dh h coins txs) db = Inr db1"
    "dbFetchSpendJournalEntry C b (cb # rest) db1 = Inr (block_details dh h coins txs)"
    using spend_journal_fetch [OF assms(1) d l] by blast
  then obtain j where j: "db1 = db\<lparr>db_spendJournal := fmupd b j (db_spendJournal db)\<rparr>"
    by (auto simp: dbPutSpendJournalEntry_def sbind_eq_Inr)
  show ?thesis using db1 t(1) by (intro exI [of _ j]) (simp add: j dbFetchSpendJournalEntry_def)
qed

lemma key_names: "chainStateKeyName \<noteq> utxoStateConsistencyKeyName" "utxoStateConsistencyKeyName \<noteq> chainStateKeyName"
  by (simp_all add: chainStateKeyName_def utxoStateConsistencyKeyName_def ascii_def)

lemma best_stored_cong:
  "fmlookup (db_meta db') chainStateKeyName = fmlookup (db_meta db) chainStateKeyName \<Longrightarrow> best_stored db' n = best_stored db n"
  by (simp add: best_stored_def)

lemma best_state_put:
  assumes "be_Hash state = bn_hash n"
  shows "best_stored (dbPutBestState state w db) n"
  unfolding best_stored_def dbPutBestState_def meta_Put_def
  by (intro exI [of _ "\<lparr>bs_hash = be_Hash state, bs_height = nat (uint32_of (be_Height state)), bs_totalTxns = be_TotalTxns state, bs_workSum = w\<rparr>"])
    (simp add: assms)

lemma block_index_put:
  "db_blocks (dbPutBlockIndex h x db) = db_blocks db" "db_utxoSet (dbPutBlockIndex h x db) = db_utxoSet db"
  "db_spendJournal (dbPutBlockIndex h x db) = db_spendJournal db" "db_meta (dbPutBlockIndex h x db) = db_meta db"
  by (simp_all add: dbPutBlockIndex_def Let_def)

lemma best_state_put_simps:
  "db_blocks (dbPutBestState state w db) = db_blocks db" "db_utxoSet (dbPutBestState state w db) = db_utxoSet db"
  "db_spendJournal (dbPutBestState state w db) = db_spendJournal db"
  "fmlookup (db_meta (dbPutBestState state w db)) utxoStateConsistencyKeyName = fmlookup (db_meta db) utxoStateConsistencyKeyName"
  by (simp_all add: dbPutBestState_def meta_Put_def key_names)

lemmas db_effects = block_index_put best_state_put_simps

text \<open>
  A block that extends the best chain and is allowed there: once its transactions are in the cache, connecting it leaves a good state
  with the block as the tip.\<close>

lemma connect_block:
  assumes "config_ok cfg" "tree_ok cfg s" "regular_index cfg s" "chain_ok cfg s tip" "st_index s h = Some n" "bn_parent n = Some tip"
    "stored_block (cc_dh cfg) (st_db s) n blk" "coins_at cfg (st_db s) n = Some coins"
    "cm_connectTransactions cfg blk s = Some (Inr stxos, s1)" "connectBlock cfg clk n blk stxos s1 = Some (Inr (), s2)"
  shows "chain_ok cfg s2 n" "st_index s2 = st_index s" "st_status s2 = st_status s" "db_blocks (st_db s2) = db_blocks (st_db s)"
    "st_pool s2 = st_pool s"
proof -
  let ?C = "cc_curve cfg" and ?txs = "ub_Transactions blk"
  note c = chain_okD [OF assms(4)]
  note u = utxo_okD [OF c(3)] and cf = configD [OF assms(1)]
  obtain cache where cache: "stxos = block_details (cc_dh cfg) (bn_height n) (node_coins cfg s) ?txs" "s1 = s\<lparr>st_utxoCache := cache\<rparr>"
    "coherent ?C (utxo_bucket s) cache" "cache_coins ?C (utxo_bucket s) cache = coins"
    using connect_transactions [OF assms(1-3) c(3) assms(5-8)] assms(9) by auto
  have hash: "BlockHash (cc_dh cfg) (ub_header blk) = bn_hash n" using assms(7) by (simp add: stored_block_def)
  obtain state si db where e: "be_Hash state = bn_hash n"
    "dbPutSpendJournalEntry ?C (bn_hash n) stxos
       (dbPutBlockIndex (bn_hash n) (bn_height n) (dbPutBestState state (bn_workSum n) ((st_db s)\<lparr>db_statusIndex := si\<rparr>))) = Inr db"
    "cache_flush ?C (cc_mapOrder cfg) FlushIfNeeded (bn_hash n) (cl_seconds clk) cache db = Inr (st_utxoCache s2, st_db s2)"
    "setTip (view_of tip) (Some n) = Inr (st_bestChain s2)"
    "st_index s2 = st_index s" "st_status s2 = st_status s" "st_pool s2 = st_pool s" "st_snapshot s2 = state"
    using connectBlock_effect [OF cf(4) assms(10)] by (auto simp: cache(2) c(1) hash)
  show "st_index s2 = st_index s" "st_status s2 = st_status s" "st_pool s2 = st_pool s" using e by simp_all
  have b: "built (cc_dh cfg) n" "built (cc_dh cfg) tip" using tree_okD(2) [OF assms(2)] assms(5) c(2) by blast+
  have r: "bn_height n < 2 ^ 31 - 1" "small_amounts ?txs" using regularD(1,2) [OF assms(3,5)] stored_txs [OF assms(7)] by simp_all
  note rt = regularD(1) [OF assms(3) c(2)]
  have view: "st_bestChain s2 = view_of n" using setTip_view [of "cc_dh cfg" "view_of tip" n] e(4) b r(1) rt by (auto simp: view_ok_def)
  have before: "replay (cc_dh cfg) (cc_maturity cfg) (st_db s) (branch tip) = Some (node_coins cfg s)" using u(3) by (simp add: coins_at_def)
  have v: "valid_txs (cc_dh cfg) (bn_height n) (node_coins cfg s) ?txs"
    using replay_valid [OF assms(8) [unfolded coins_at_def branch_simps(2) [OF assms(6)]] before] stored_txs [OF assms(7)] by simp
  have st: "\<forall>tx \<in> set ?txs. \<forall>txOut \<in> set (tx_TxOut tx). storable (to_Value txOut) (bn_height n) (to_PkScript txOut)"
    using block_outputs_storable(1) [OF assms(7) r(2) cf(3)] built_height [OF b(1)] by blast
  have sane: "sane_block (cc_dh cfg) ?txs" using assms(7) by (simp add: stored_block_def)
  let ?db0 = "dbPutBlockIndex (bn_hash n) (bn_height n) (dbPutBestState state (bn_workSum n) ((st_db s)\<lparr>db_statusIndex := si\<rparr>))"
  obtain j where j: "db = ?db0\<lparr>db_spendJournal := fmupd (bn_hash n) j (db_spendJournal ?db0)\<rparr>"
    "\<And>db'. fmlookup (db_spendJournal db') (bn_hash n) = Some j \<Longrightarrow> dbFetchSpendJournalEntry ?C (bn_hash n) ?txs db' = Inr stxos"
    using journal_written [OF cf(1) node_coins_storable [OF assms(1-3) c(2) u(3)] v sane st, of "bn_hash n" ?db0] e(2) cache(1) by auto
  have db: "db_blocks db = db_blocks (st_db s)" "db_utxoSet db = utxo_bucket s" "db_spendJournal db = fmupd (bn_hash n) j (db_spendJournal (st_db s))"
    "dbFetchUtxoStateConsistency db = dbFetchUtxoStateConsistency (st_db s)" "best_stored db n"
    using best_state_put [OF e(1), of "bn_workSum n" "(st_db s)\<lparr>db_statusIndex := si\<rparr>"]
    by (simp_all add: j(1) db_effects dbFetchUtxoStateConsistency_def best_stored_def)
  from flush_form [OF e(3)] have keep: "db_blocks (st_db s2) = db_blocks (st_db s)" "db_spendJournal (st_db s2) = fmupd (bn_hash n) j (db_spendJournal (st_db s))"
    "best_stored (st_db s2) n"
    using db by (auto simp: dbPutUtxoStateConsistency_def meta_Put_def best_stored_def key_names)
  show "db_blocks (st_db s2) = db_blocks (st_db s)" by (rule keep(1))
  note blocks = same_blocks [OF keep(1)]
  have fl: "bucket_ok ?C (utxo_bucket s2)" "coherent ?C (utxo_bucket s2) (st_utxoCache s2)" "cache_coins ?C (utxo_bucket s2) (st_utxoCache s2) = coins"
    "shouldFlush FlushIfNeeded (bn_hash n) (cl_seconds clk) cache \<Longrightarrow> stored_coins ?C (utxo_bucket s2) = coins \<and>
       dbFetchUtxoStateConsistency (st_db s2) = Some (bn_hash n)"
    using cache_flush_ok [OF cf(1,2), of db cache FlushIfNeeded "bn_hash n" "cl_seconds clk"] u(2) cache(3,4) e(3) by (auto simp: db(2))
  have at: "coins_at cfg (st_db s2) m = coins_at cfg (st_db s) m" for m by (rule coins_at_cong [OF keep(1)])
  have "journaled cfg (st_db s2) (branch tip) = journaled cfg (st_db s) (branch tip)"
  proof (rule journaled_cong [OF keep(1)], rule ballI)
    fix m
    assume "m \<in> set (branch tip)"
    then have m: "m \<in> set (chain_to tip)" using branch_chain by blast
    have "n \<notin> set (chain_to tip)" using in_chain_to [OF b(2), of n] built_parent(2) [OF b(1) assms(6)] by auto
    then have "bn_hash m \<noteq> bn_hash n" using chain_hash_inject [OF assms(2,5), of m n] m assms(6) by auto
    then show "fmlookup (db_spendJournal (st_db s2)) (bn_hash m) = fmlookup (db_spendJournal (st_db s)) (bn_hash m)" using keep(2) by simp
  qed
  then have jn: "journaled cfg (st_db s2) (branch n)"
    using c(4) assms(6) j(2) [of "st_db s2"] keep(2) before cache(1) stored_txs [OF assms(7)] by (simp add: blocks)
  have du: "durable cfg (st_db s2) n"
  proof (cases "shouldFlush FlushIfNeeded (bn_hash n) (cl_seconds clk) cache")
    case True
    then show ?thesis using fl(4) assms(8) at assms(6) unfolding durable_def by (intro bexI [of _ n]) simp_all
  next
    case False
    then have "st_db s2 = db" using flush_form [OF e(3)] by simp
    then show ?thesis using u(4) at db assms(6) by (auto simp: durable_def)
  qed
  show "chain_ok cfg s2 n" unfolding chain_ok_def utxo_ok_def
    using view index_self [OF assms(2,5)] e(1,5,8) fl(1-3) assms(8) at jn du keep(3) by (simp add: node_coins_def)
qed

subsection \<open>Recovery after a crash\<close>

text \<open>What only the unspent outputs are concerned with leaves everything else as it is.\<close>

definition same_but_utxos :: "chainState \<Rightarrow> chainState \<Rightarrow> bool" where
  "same_but_utxos s s' \<longleftrightarrow>
     (\<exists>cache b m. s' = s\<lparr>st_utxoCache := cache, st_db := (st_db s)\<lparr>db_utxoSet := b, db_meta := m\<rparr>\<rparr> \<and>
        fmlookup m chainStateKeyName = fmlookup (db_meta (st_db s)) chainStateKeyName)"

lemma same_but_utxos_refl [simp]: "same_but_utxos s s"
  unfolding same_but_utxos_def
  by (intro exI [of _ "st_utxoCache s"] exI [of _ "db_utxoSet (st_db s)"] exI [of _ "db_meta (st_db s)"]) simp

lemma same_but_utxos_cache [simp]: "same_but_utxos s (s\<lparr>st_utxoCache := cache\<rparr>)"
  unfolding same_but_utxos_def
  by (intro exI [of _ cache] exI [of _ "db_utxoSet (st_db s)"] exI [of _ "db_meta (st_db s)"]) simp

lemma same_but_utxos_trans: "same_but_utxos s s1 \<Longrightarrow> same_but_utxos s1 s2 \<Longrightarrow> same_but_utxos s s2"
  unfolding same_but_utxos_def by clarsimp blast

lemma same_but_utxosD:
  assumes "same_but_utxos s s'"
  shows "st_index s' = st_index s" "st_status s' = st_status s" "st_bestChain s' = st_bestChain s" "st_snapshot s' = st_snapshot s"
    "st_pool s' = st_pool s" "db_blocks (st_db s') = db_blocks (st_db s)" "db_spendJournal (st_db s') = db_spendJournal (st_db s)"
    "best_stored (st_db s') n = best_stored (st_db s) n"
  using assms by (auto simp: same_but_utxos_def best_stored_def)

lemma same_but_utxos_keeps:
  assumes "same_but_utxos s s'"
  shows "tree_ok cfg s \<Longrightarrow> tree_ok cfg s'" "regular_index cfg s \<Longrightarrow> regular_index cfg s'" "coins_at cfg (st_db s') n = coins_at cfg (st_db s) n"
    "journaled cfg (st_db s') ns = journaled cfg (st_db s) ns" "dbFetchBlockByNode n (st_db s') = dbFetchBlockByNode n (st_db s)"
    "stored_block dh (st_db s') n blk = stored_block dh (st_db s) n blk"
proof -
  note d = same_but_utxosD [OF assms]
  show "tree_ok cfg s'" if t: "tree_ok cfg s"
    using tree_ok_cong [OF t d(1) d(6)] tree_okD(6) [OF t] by (simp add: d(2))
  show "regular_index cfg s \<Longrightarrow> regular_index cfg s'" using regular_index_cong d(1,6) by blast
  show "coins_at cfg (st_db s') n = coins_at cfg (st_db s) n" by (rule coins_at_cong [OF d(6)])
  show "journaled cfg (st_db s') ns = journaled cfg (st_db s) ns" by (rule journaled_cong [OF d(6)]) (simp add: d(7))
  show "dbFetchBlockByNode n (st_db s') = dbFetchBlockByNode n (st_db s)" by (rule fetch_same_blocks [OF d(6)])
  show "stored_block dh (st_db s') n blk = stored_block dh (st_db s) n blk" by (rule same_blocks(1) [OF d(6)])
qed

lemma durable_child:
  assumes "durable cfg db f" "set (chain_to f) \<subseteq> set (chain_to n)"
  shows "durable cfg db n"
  using assms unfolding durable_def by blast

text \<open>A flush keeps the coins, and afterwards the database is at the block or where it was.\<close>

lemma flush_utxo_ok:
  assumes "config_ok cfg" "utxo_ok cfg s n"
  shows "\<exists>cache db. cache_flush (cc_curve cfg) (cc_mapOrder cfg) mode (bn_hash n) now (st_utxoCache s) (st_db s) = Inr (cache, db) \<and>
    utxo_ok cfg (s\<lparr>st_utxoCache := cache, st_db := db\<rparr>) n \<and> same_but_utxos s (s\<lparr>st_utxoCache := cache, st_db := db\<rparr>) \<and>
    node_coins cfg (s\<lparr>st_utxoCache := cache, st_db := db\<rparr>) = node_coins cfg s \<and>
    (shouldFlush mode (bn_hash n) now (st_utxoCache s) \<longrightarrow> stored_coins (cc_curve cfg) (db_utxoSet db) = node_coins cfg s)"
proof -
  note u = utxo_okD [OF assms(2)]
  obtain cache db where f: "cache_flush (cc_curve cfg) (cc_mapOrder cfg) mode (bn_hash n) now (st_utxoCache s) (st_db s) = Inr (cache, db)"
    "bucket_ok (cc_curve cfg) (db_utxoSet db)" "coherent (cc_curve cfg) (db_utxoSet db) cache"
    "cache_coins (cc_curve cfg) (db_utxoSet db) cache = node_coins cfg s"
    "shouldFlush mode (bn_hash n) now (st_utxoCache s) \<longrightarrow> stored_coins (cc_curve cfg) (db_utxoSet db) = node_coins cfg s \<and>
       dbFetchUtxoStateConsistency db = Some (bn_hash n)"
    using cache_flush_ok [OF configD(1,2) [OF assms(1)] u(2,1), of mode "bn_hash n" now] unfolding node_coins_def by blast
  let ?s = "s\<lparr>st_utxoCache := cache, st_db := db\<rparr>"
  have same: "same_but_utxos s ?s"
  proof (cases "shouldFlush mode (bn_hash n) now (st_utxoCache s)")
    case True
    then obtain b where "db = dbPutUtxoStateConsistency (bn_hash n) ((st_db s)\<lparr>db_utxoSet := b\<rparr>)" using flush_form [OF f(1)] by blast
    then show ?thesis unfolding same_but_utxos_def
      by (intro exI [of _ cache] exI [of _ b] exI [of _ "fmupd utxoStateConsistencyKeyName (bn_hash n) (db_meta (st_db s))"])
        (simp add: dbPutUtxoStateConsistency_def meta_Put_def key_names)
  qed (use flush_form [OF f(1)] in simp)
  note at = same_but_utxos_keeps(3) [OF same]
  have "durable cfg db n"
  proof (cases "shouldFlush mode (bn_hash n) now (st_utxoCache s)")
    case True
    have "n \<in> set (chain_to n)" by (metis last_chain_to last_in_set)
    then show ?thesis using True f(5) u(3) at [of cfg n] unfolding durable_def by (intro bexI [of _ n]) auto
  next
    case False
    then show ?thesis using flush_form [OF f(1)] u(4) by simp
  qed
  then show ?thesis using f same u(3) at [of cfg n] by (intro exI [of _ cache] exI [of _ db]) (simp add: utxo_ok_def node_coins_def)
qed

lemma connect_utxo_ok:
  assumes "config_ok cfg" "tree_ok cfg s" "regular_index cfg s" "utxo_ok cfg s tip" "st_index s h = Some n" "bn_parent n = Some tip"
    "stored_block (cc_dh cfg) (st_db s) n blk" "coins_at cfg (st_db s) n = Some coins"
  shows "\<exists>cache. cm_connectTransactions cfg blk s =
      Some (Inr (block_details (cc_dh cfg) (bn_height n) (node_coins cfg s) (ub_Transactions blk)), s\<lparr>st_utxoCache := cache\<rparr>) \<and>
    utxo_ok cfg (s\<lparr>st_utxoCache := cache\<rparr>) n \<and> node_coins cfg (s\<lparr>st_utxoCache := cache\<rparr>) = coins"
proof -
  note u = utxo_okD [OF assms(4)]
  obtain cache where "cm_connectTransactions cfg blk s =
      Some (Inr (block_details (cc_dh cfg) (bn_height n) (node_coins cfg s) (ub_Transactions blk)), s\<lparr>st_utxoCache := cache\<rparr>)"
    "coherent (cc_curve cfg) (utxo_bucket s) cache" "cache_coins (cc_curve cfg) (utxo_bucket s) cache = coins"
    using connect_transactions [OF assms] by blast
  moreover have "durable cfg (st_db s) n" by (rule durable_child [OF u(4)]) (use assms(6) in auto)
  ultimately show ?thesis using u(2) assms(8) by (intro exI [of _ cache]) (simp add: utxo_ok_def node_coins_def)
qed

lemma chain_step:
  assumes "built dh t" "chain_to t = chain_to f @ n # ns"
  shows "bn_parent n = Some f" "chain_to t = chain_to n @ ns" "n \<in> set (chain_to t)"
proof -
  have "chain_to n = chain_to f @ [n]"
    using chain_to_nth [OF assms(1), of "length (chain_to f)"] assms(2) by (simp add: nth_append)
  then show "chain_to t = chain_to n @ ns" using assms(2) by simp
  show "n \<in> set (chain_to t)" using assms(2) by simp
  show "bn_parent n = Some f"
  proof (cases "bn_parent n")
    case None
    then show ?thesis using \<open>chain_to n = chain_to f @ [n]\<close> by simp
  next
    case (Some p)
    then have "chain_to p = chain_to f" using \<open>chain_to n = chain_to f @ [n]\<close> by simp
    then show ?thesis using Some by (metis last_chain_to(2))
  qed
qed

lemma coins_at_below:
  assumes "coins_at cfg db t \<noteq> None" "chain_to t = chain_to f @ b"
  shows "coins_at cfg db f \<noteq> None"
proof -
  have "branch t = rev b @ branch f" using assms(2) last_chain_to(1) [of f] by (simp add: branch_def)
  then show ?thesis using assms(1) replay_tail by (simp add: coins_at_def)
qed

text \<open>
  Replaying the blocks of the best chain above the block of the database. An interrupt leaves a database that is at a block of the
  chain again.\<close>

lemma replay_blocks_ok:
  assumes "config_ok cfg" "st_index s h = Some t" "coins_at cfg (st_db s) t \<noteq> None"
  shows "tree_ok cfg s \<Longrightarrow> regular_index cfg s \<Longrightarrow> utxo_ok cfg s f \<Longrightarrow> chain_to t = chain_to f @ ns \<Longrightarrow>
    \<exists>r s'. replay_blocks cfg clk interrupted ns s = Some (r, s') \<and> same_but_utxos s s' \<and> durable cfg (st_db s') t \<and>
      (r = Inr () \<longrightarrow> utxo_ok cfg s' t) \<and> ((\<forall>m. \<not> interrupted m) \<longrightarrow> r = Inr ())"
  using assms(2,3)
proof (induction ns arbitrary: f s)
  case Nil
  then have "f = t" by (metis append_Nil2 last_chain_to(2))
  then show ?case using Nil.prems(3) utxo_okD(4) [OF Nil.prems(3)]
    by (intro exI [of _ "Inr ()"] exI [of _ s]) simp
next
  case (Cons n ns)
  note bt = tree_okD(2) [OF Cons.prems(1,5)]
  note st = chain_step [OF bt Cons.prems(4)]
  have n: "st_index s (bn_hash n) = Some n" by (rule chain_indexed [OF Cons.prems(1,5) st(3)])
  obtain coins where coins: "coins_at cfg (st_db s) n = Some coins" using coins_at_below [OF Cons.prems(6) st(2)] by blast
  obtain blk where blk: "stored_block (cc_dh cfg) (st_db s) n blk" using tree_okD(4) [OF Cons.prems(1) n st(1)] by blast
  obtain stxos cache where c: "cm_connectTransactions cfg blk s = Some (Inr stxos, s\<lparr>st_utxoCache := cache\<rparr>)" "utxo_ok cfg (s\<lparr>st_utxoCache := cache\<rparr>) n"
    using connect_utxo_ok [OF assms(1) Cons.prems(1-3) n st(1) blk coins] by blast
  let ?s1 = "s\<lparr>st_utxoCache := cache\<rparr>"
  obtain cache' db where f: "cache_flush (cc_curve cfg) (cc_mapOrder cfg) FlushIfNeeded (bn_hash n) (cl_seconds clk) cache (st_db s) = Inr (cache', db)"
    "utxo_ok cfg (?s1\<lparr>st_utxoCache := cache', st_db := db\<rparr>) n" "same_but_utxos ?s1 (?s1\<lparr>st_utxoCache := cache', st_db := db\<rparr>)"
    using flush_utxo_ok [OF assms(1) c(2), of FlushIfNeeded "cl_seconds clk"] by auto
  let ?s2 = "s\<lparr>st_utxoCache := cache', st_db := db\<rparr>"
  have s2: "utxo_ok cfg ?s2 n" "same_but_utxos s ?s2"
    using f(2,3) same_but_utxos_trans [OF same_but_utxos_cache [of s cache], of "?s1\<lparr>st_utxoCache := cache', st_db := db\<rparr>"] by simp_all
  have step: "(if shouldFlush FlushIfNeeded (bn_hash n) (cl_seconds clk) cache
      then cm_Update (tx_flush cfg clk FlushIfNeeded (bn_hash n)) ?s1 else Some (Inr (), ?s1)) = Some (Inr (), ?s2)"
    using flush_if_needed [of FlushIfNeeded "bn_hash n" clk ?s1 cfg ?s2] f(1) by (simp split: if_splits)
  note k = same_but_utxos_keeps [OF s2(2)] and d = same_but_utxosD [OF s2(2)]
  have run: "replay_blocks cfg clk interrupted (n # ns) s =
      (if interrupted n then Some (Inl (fromGo otherError), ?s2) else replay_blocks cfg clk interrupted ns ?s2)"
    using blk c(1) step by (simp add: cm_bind_def stored_block_def cm_return_def cm_guard_def cm_throw_def)
  show ?case
  proof (cases "interrupted n")
    case True
    have "durable cfg db n" using utxo_okD(4) [OF s2(1)] by simp
    then have "durable cfg db t" by (rule durable_child) (simp add: st(2))
    then show ?thesis using True run s2(2) by (intro exI [of _ "Inl (fromGo otherError)"] exI [of _ ?s2]) auto
  next
    case False
    have t: "st_index ?s2 h = Some t" "coins_at cfg (st_db ?s2) t \<noteq> None" using Cons.prems(5,6) k(3) [of cfg t] by simp_all
    obtain r s' where "replay_blocks cfg clk interrupted ns ?s2 = Some (r, s')" "same_but_utxos ?s2 s'" "durable cfg (st_db s') t"
      "r = Inr () \<longrightarrow> utxo_ok cfg s' t" "(\<forall>m. \<not> interrupted m) \<longrightarrow> r = Inr ()"
      using Cons.IH [OF k(1) [OF Cons.prems(1)] k(2) [OF Cons.prems(2)] s2(1) st(2) t] by blast
    with False run same_but_utxos_trans [OF s2(2)] show ?thesis by (intro exI [of _ r] exI [of _ s']) auto
  qed
qed

lemma nodes_above_chain:
  "built dh n \<Longrightarrow> chain_to n = chain_to f @ b \<Longrightarrow> nodes_above f (Some n) acc = Inr (b @ acc)"
proof (induction b arbitrary: n acc rule: rev_induct)
  case Nil
  then have "n = f" by (metis append_Nil2 last_chain_to(2))
  then show ?case by (simp add: nodes_above.simps)
next
  case (snoc x b)
  have x: "x = n" using snoc.prems(2) last_chain_to(2) [of n] by (metis last_appendR last_snoc not_Cons_self2 append_is_Nil_conv)
  then obtain p where p: "bn_parent n = Some p" using snoc.prems(2) by (cases "bn_parent n") auto
  then have "chain_to p = chain_to f @ b" using snoc.prems(2) x by simp
  moreover have "n \<noteq> f" using snoc.prems(2) by (metis append_self_conv snoc_eq_iff_butlast)
  moreover have "0 \<le> bn_height n" using built_height [OF snoc.prems(1)] by simp
  ultimately show ?case using snoc.IH [of p "x # acc"] built_parent(2) [OF snoc.prems(1) p] p x by (simp add: nodes_above.simps [of _ "Some n"])
qed

lemma built_hash_length: "built (cc_dh cfg) n \<Longrightarrow> config_ok cfg \<Longrightarrow> length (bn_hash n) = 32"
  by (erule built.cases) (auto simp: BlockHash_def configD(3))

lemma fork_with_member:
  assumes "built dh t" "f \<in> set (chain_to t)"
  shows "fork_of t f = Some f"
proof -
  obtain b where b: "chain_to t = chain_to f @ b" using chain_below [OF assms] .
  have "longest_common_prefix (chain_to f @ b) (chain_to f) = chain_to f"
    by (metis longest_common_prefix_max_prefix longest_common_prefix_prefix2 prefixI prefix_order.antisym prefix_order.refl)
  then show ?thesis by (simp add: fork_of_def b)
qed

lemma utxo_ok_last_flush: "utxo_ok cfg (s\<lparr>st_utxoCache := cache\<lparr>uc_lastFlushHash := h, uc_lastFlushTime := now\<rparr>\<rparr>) n = utxo_ok cfg (s\<lparr>st_utxoCache := cache\<rparr>) n"
proof -
  have "cache_coins C b (cache\<lparr>uc_lastFlushHash := h, uc_lastFlushTime := now\<rparr>) = cache_coins C b cache" for C :: "'a curve" and b
    by (simp add: cache_coins_def fun_eq_iff)
  then show ?thesis by (simp add: utxo_ok_def coherent_def node_coins_def)
qed

text \<open>The start after a crash: the cache is empty, and the database is at some block of the best chain.\<close>

lemma InitConsistentState_ok:
  assumes "config_ok cfg" "tree_ok cfg s" "regular_index cfg s" "st_bestChain s = view_of tip" "st_index s h = Some tip"
    "coins_at cfg (st_db s) tip \<noteq> None" "durable cfg (st_db s) tip" "bucket_ok (cc_curve cfg) (utxo_bucket s)"
    "coherent (cc_curve cfg) (utxo_bucket s) (st_utxoCache s)" "node_coins cfg s = stored_coins (cc_curve cfg) (utxo_bucket s)"
  shows "\<exists>r s'. InitConsistentState cfg clk interrupted tip s = Some (r, s') \<and> same_but_utxos s s' \<and> durable cfg (st_db s') tip \<and>
    (r = Inr () \<longrightarrow> utxo_ok cfg s' tip \<and> uc_lastFlushHash (st_utxoCache s') = bn_hash tip) \<and> ((\<forall>m. \<not> interrupted m) \<longrightarrow> r = Inr ())"
proof -
  have bt: "built (cc_dh cfg) tip" by (rule tree_okD(2) [OF assms(2,5)])
  obtain f where f: "f \<in> set (chain_to tip)" "dbFetchUtxoStateConsistency (st_db s) = Some (bn_hash f)"
    "coins_at cfg (st_db s) f = Some (stored_coins (cc_curve cfg) (utxo_bucket s))"
    using assms(7) unfolding durable_def by blast
  obtain b where b: "chain_to tip = chain_to f @ b" using chain_below [OF bt f(1)] .
  have fi: "st_index s (bn_hash f) = Some f" by (rule chain_indexed [OF assms(2,5) f(1)])
  have bf: "built (cc_dh cfg) f" by (rule tree_okD(2) [OF assms(2) fi])
  have "durable cfg (st_db s) f" using f(2,3) unfolding durable_def by (intro bexI [of _ f]) (auto, metis last_chain_to last_in_set)
  then have uf: "utxo_ok cfg s f" using assms(8-10) f(3) by (simp add: utxo_ok_def)
  obtain r s1 where run: "replay_blocks cfg clk interrupted b s = Some (r, s1)" "same_but_utxos s s1" "durable cfg (st_db s1) tip"
    "r = Inr () \<longrightarrow> utxo_ok cfg s1 tip" "(\<forall>m. \<not> interrupted m) \<longrightarrow> r = Inr ()"
    using replay_blocks_ok [OF assms(1,5,6,2,3) uf b] by blast
  let ?last = "\<lambda>s. s\<lparr>st_utxoCache := (st_utxoCache s)\<lparr>uc_lastFlushHash := bn_hash tip, uc_lastFlushTime := cl_seconds clk\<rparr>\<rparr>"
  have last: "same_but_utxos s1 (?last s1)" "durable cfg (st_db (?last s1)) tip" "r = Inr () \<longrightarrow> utxo_ok cfg (?last s1) tip"
    if "durable cfg (st_db s1) tip" "r = Inr () \<longrightarrow> utxo_ok cfg s1 tip" for s1 :: chainState and r :: "chain_error + unit"
    using that utxo_ok_last_flush [where s = s1 and cache = "st_utxoCache s1" and cfg = cfg] by simp_all
  have len: "length (bn_hash f) = 32" by (rule built_hash_length [OF bf assms(1)])
  show ?thesis
  proof (cases "bn_hash f = bn_hash tip")
    case True
    have "tip \<in> set (chain_to tip)" by (metis last_chain_to last_in_set)
    then have "f = tip" using chain_hash_inject [OF assms(2,5) f(1) _ True] by simp
    then show ?thesis using uf f(2) True len last [of s "Inr ()"] assms(7)
      by (intro exI [of _ "Inr ()"] exI [of _ "?last s"]) (simp add: InitConsistentState_def set_last_flush_def cm_update_def)
  next
    case False
    have "findFork (st_bestChain s) (Some f) = Some f"
      using findFork_view [OF bt regularD(1) [OF assms(3,5)] bf] fork_with_member [OF bt f(1)] assms(4) by simp
    then have run': "InitConsistentState cfg clk interrupted tip s =
        (case r of Inl e \<Rightarrow> Some (Inl e, s1) | Inr _ \<Rightarrow> Some (Inr (), ?last s1))"
      using f(2) False len fi nodes_above_chain [OF bt b, of "[]"] run(1)
      by (simp add: InitConsistentState_def cm_bind_def cm_deref_def cm_return_def LookupNode_def set_last_flush_def cm_update_def split: sum.split)
    show ?thesis
    proof (cases r)
      case (Inl e)
      then show ?thesis using run run' by (intro exI [of _ r] exI [of _ s1]) simp
    next
      case (Inr u)
      then show ?thesis using run run' last [OF run(3,4)] same_but_utxos_trans [OF run(2), of "?last s1"]
        by (intro exI [of _ r] exI [of _ "?last s1"]) simp
    qed
  qed
qed

lemma recovery:
  assumes "config_ok cfg" "tree_ok cfg s" "regular_index cfg s" "chain_ok cfg s tip"
    "s0 = s\<lparr>st_utxoCache := newUtxoCache (cc_log cfg) mem\<rparr>"
  shows "\<exists>r s'. InitConsistentState cfg clk interrupted tip s0 = Some (r, s') \<and> durable cfg (st_db s') tip \<and>
    (r = Inr () \<longrightarrow> chain_ok cfg s' tip \<and> node_coins cfg s' = node_coins cfg s) \<and> ((\<forall>m. \<not> interrupted m) \<longrightarrow> r = Inr ())"
proof -
  note c = chain_okD [OF assms(4)]
  note u = utxo_okD [OF c(3)]
  have same: "same_but_utxos s s0" by (simp add: assms(5))
  note k = same_but_utxos_keeps [OF same] and d = same_but_utxosD [OF same]
  have s0: "tree_ok cfg s0" "regular_index cfg s0" "st_bestChain s0 = view_of tip" "st_index s0 (bn_hash tip) = Some tip"
    "coins_at cfg (st_db s0) tip \<noteq> None" "durable cfg (st_db s0) tip" "bucket_ok (cc_curve cfg) (utxo_bucket s0)"
    using k(1) [OF assms(2)] k(2) [OF assms(3)] c(1,2) u(2-4) d(1,3) k(3) [of cfg tip] by (simp_all add: assms(5))
  have "coherent (cc_curve cfg) (utxo_bucket s0) (st_utxoCache s0)" "node_coins cfg s0 = stored_coins (cc_curve cfg) (utxo_bucket s0)"
    by (simp_all add: assms(5) node_coins_def new_cache)
  from InitConsistentState_ok [OF assms(1) s0 this, of clk interrupted] obtain r s' where
    r: "InitConsistentState cfg clk interrupted tip s0 = Some (r, s')" "same_but_utxos s0 s'" "durable cfg (st_db s') tip"
      "r = Inr () \<longrightarrow> utxo_ok cfg s' tip" "(\<forall>m. \<not> interrupted m) \<longrightarrow> r = Inr ()" by blast
  have same': "same_but_utxos s s'" by (rule same_but_utxos_trans [OF same r(2)])
  have "chain_ok cfg s' tip \<and> node_coins cfg s' = node_coins cfg s" if "utxo_ok cfg s' tip"
    using that utxo_okD(3) [OF that] u(3) c same_but_utxosD [OF same'] same_but_utxos_keeps(3,4) [OF same', where cfg = cfg] by (simp add: chain_ok_def)
  with r show ?thesis by blast
qed

end
