(* ===== verification/Chain_Extend.thy ===== *)
theory Chain_Extend
  imports Chain_Recovery
begin

text \<open>
  Extending the best chain by a block (\<^verbatim>\<open>checkConnectBlock\<close> over the cache and \<^verbatim>\<open>connectBestChain\<close>): a block that is connected is
  allowed by the rules and the state is good again.
\<close>

subsection \<open>Views over the cache\<close>

definition agree :: "coins \<Rightarrow> coins \<Rightarrow> bool" where
  "agree c c' \<longleftrightarrow> (\<forall>op. op_ok op \<longrightarrow> c op = c' op)"

lemma agree_refl [simp]: "agree c c" by (simp add: agree_def)

lemma agree_sym: "agree c c' \<Longrightarrow> agree c' c" by (simp add: agree_def)

definition txs_ops_ok :: "(bytes \<Rightarrow> hash) \<Rightarrow> MsgTx list \<Rightarrow> bool" where
  "txs_ops_ok dh txs \<longleftrightarrow> (\<forall>tx \<in> set txs. (\<forall>op \<in> set (prevouts tx). op_ok op) \<and> length (TxHash dh tx) = 32 \<and> length (tx_TxOut tx) \<le> 2 ^ 32)"

lemma stored_ops_ok:
  assumes "stored_block dh db n blk" "\<And>b. length (dh b) = 32"
  shows "txs_ops_ok dh (ub_Transactions blk)"
  unfolding txs_ops_ok_def
proof (intro ballI conjI)
  fix tx
  assume "tx \<in> set (ub_Transactions blk)"
  then have t: "tx_ok tx" using assms(1) by (auto simp: stored_block_def block_ok_def list_all_iff)
  show "length (TxHash dh tx) = 32" using assms(2) by (simp add: TxHash_def)
  show "length (tx_TxOut tx) \<le> 2 ^ 32" using t by (auto simp: tx_ok_def wire_limits)
  fix op
  assume "op \<in> set (prevouts tx)"
  then show "op_ok op" using t
    by (auto simp: tx_ok_def txins_ok_def txin_ok_def outpoint_ok_def prevouts_def op_ok_def list_all_iff strip_def)
qed

lemma created_op_ok: "length (TxHash dh tx) = 32 \<Longrightarrow> length (tx_TxOut tx) \<le> 2 ^ 32 \<Longrightarrow> created dh h tx op = Some c \<Longrightarrow> op_ok op"
  using created_Some [of dh h tx op c] by (auto simp: op_ok_def)

lemma agree_apply_tx: "agree c c' \<Longrightarrow> agree (apply_tx dh h tx c) (apply_tx dh h tx c')"
  by (auto simp: agree_def apply_tx_def map_add_def restrict_map_def split: option.split)

lemma agree_apply: "agree c c' \<Longrightarrow> agree (apply_txs dh h txs c) (apply_txs dh h txs c')"
  by (induction txs arbitrary: c c') (simp_all add: agree_apply_tx)

lemma allowed_agree:
  "agree c c' \<Longrightarrow> txs_ops_ok dh txs \<Longrightarrow> block_allowed dh h m c txs \<Longrightarrow> block_allowed dh h m c' txs"
proof (induction txs arbitrary: c c')
  case (Cons tx txs)
  have ops: "\<forall>op \<in> set (prevouts tx). c op = c' op" "\<And>op coin. created dh h tx op = Some coin \<Longrightarrow> c op = c' op"
    using Cons.prems(1,2) created_op_ok [of dh tx h] by (auto simp: agree_def txs_ops_ok_def)
  have "spent_value c tx = spent_value c' tx" using ops(1) by (auto simp: spent_value_def value_at_def intro!: arg_cong [of _ _ sum_list])
  then have "tx_allowed h m c' tx" using Cons.prems(3) ops(1) by (auto simp: tx_allowed_def list_all_iff spendable_def)
  moreover have "creates_ok dh h c' tx" using Cons.prems(3) ops(2) by (fastforce simp: creates_ok_def disjoint_iff dom_def)
  moreover have "block_allowed dh h m (apply_tx dh h tx c') txs"
    using Cons.IH [OF agree_apply_tx [OF Cons.prems(1)]] Cons.prems(2,3) by (simp add: txs_ops_ok_def)
  ultimately show ?case by simp
qed simp

text \<open>What a view reads through the cache are the coins of the node.\<close>

lemma cache_source_coins:
  assumes "config_ok cfg" "utxo_ok cfg s n"
  shows "agree (source_coins (cache_source cfg s)) (node_coins cfg s)"
  unfolding agree_def
proof (intro allI impI)
  fix op
  assume op: "op_ok op"
  note u = utxo_okD [OF assms(2)]
  obtain e cache where f: "fetchEntries (cc_curve cfg) (cc_log cfg) (utxo_bucket s) [op] (st_utxoCache s) = Inr ([e], cache)"
    "unspent e = node_coins cfg s op"
    using fetchEntries_ok [OF configD(1) [OF assms(1)] u(2,1), of "[op]" "cc_log cfg"] op by (auto simp: node_coins_def)
  then show "source_coins (cache_source cfg s) op = node_coins cfg s op"
    by (simp add: source_coins_def cache_source_def)
qed

lemma load_cache_ok:
  assumes "config_ok cfg" "utxo_ok cfg s n" "list_all op_ok ops"
  shows "\<exists>cache. load_cache cfg ops s = s\<lparr>st_utxoCache := cache\<rparr> \<and> utxo_ok cfg (load_cache cfg ops s) n \<and>
    node_coins cfg (load_cache cfg ops s) = node_coins cfg s"
proof (cases "ops = []")
  case True
  then show ?thesis using assms(2) by (intro exI [of _ "st_utxoCache s"]) (simp add: load_cache_def)
next
  case False
  note u = utxo_okD [OF assms(2)]
  obtain es cache where "fetchEntries (cc_curve cfg) (cc_log cfg) (utxo_bucket s) ops (st_utxoCache s) = Inr (es, cache)"
    "coherent (cc_curve cfg) (utxo_bucket s) cache" "cache_coins (cc_curve cfg) (utxo_bucket s) cache = node_coins cfg s"
    using fetchEntries_ok [OF configD(1) [OF assms(1)] u(2,1) assms(3), of "cc_log cfg"] by (auto simp: node_coins_def)
  then show ?thesis using False u
    by (intro exI [of _ cache]) (simp add: load_cache_def utxo_ok_def node_coins_def)
qed

lemma needed_ops:
  "set (snd (find_tx_inputs dh blk i ins (view, needed))) \<subseteq> set needed \<union> ti_PreviousOutPoint ` set ins"
proof (induction ins arbitrary: view needed)
  case (Cons txIn ins)
  show ?case
    using Cons.IH [of view "needed @ [ti_PreviousOutPoint txIn]"] Cons.IH [of view needed]
      Cons.IH [of "AddTxOuts dh view (bk_Transactions blk ! k) (bk_Height blk)" needed for k]
    by (auto split: option.split)
qed simp

lemma needed_ops_block:
  "set (snd (find_inputs dh blk i txs (view, needed))) \<subseteq> set needed \<union> (\<Union>tx \<in> set txs. set (prevouts tx))"
proof (induction txs arbitrary: i view needed)
  case (Cons tx txs)
  obtain view1 needed1 where s: "find_tx_inputs dh blk i (tx_TxIn tx) (view, needed) = (view1, needed1)" by (cases "find_tx_inputs dh blk i (tx_TxIn tx) (view, needed)")
  show ?case using Cons.IH [of "Suc i" view1 needed1] needed_ops [of dh blk i "tx_TxIn tx" view needed] s by (auto simp: prevouts_def)
qed simp

lemma load_inputs_ok:
  assumes "config_ok cfg" "utxo_ok cfg s n" "txs_ops_ok (cc_dh cfg) (bk_Transactions blk)"
  shows "\<exists>cache. load_inputs cfg view blk s = s\<lparr>st_utxoCache := cache\<rparr> \<and> utxo_ok cfg (load_inputs cfg view blk s) n \<and>
    node_coins cfg (load_inputs cfg view blk s) = node_coins cfg s"
proof (cases "findInputsToFetch (cc_dh cfg) view blk")
  case (Inl e)
  then show ?thesis using assms(2) by (intro exI [of _ "st_utxoCache s"]) (simp add: load_inputs_def)
next
  case (Inr r)
  then obtain cb txs where t: "bk_Transactions blk = cb # txs" "r = find_inputs (cc_dh cfg) blk 0 txs (view, [])"
    by (auto simp: findInputsToFetch_def split: list.splits)
  have "list_all op_ok (snd r)"
    using needed_ops_block [of "cc_dh cfg" blk 0 txs view "[]"] assms(3) by (fastforce simp: list_all_iff t txs_ops_ok_def)
  from load_cache_ok [OF assms(1,2) this] show ?thesis using Inr by (cases r) (simp add: load_inputs_def)
qed

lemma load_for_check_ok:
  assumes "config_ok cfg" "utxo_ok cfg s n" "txs_ops_ok (cc_dh cfg) (bk_Transactions blk)"
  shows "\<exists>cache. load_for_check cfg node view blk s = s\<lparr>st_utxoCache := cache\<rparr> \<and> utxo_ok cfg (load_for_check cfg node view blk s) n \<and>
    node_coins cfg (load_for_check cfg node view blk s) = node_coins cfg s"
proof -
  let ?ops = "filter (\<lambda>outpoint. uv_entries view outpoint = None) (concat (map (tx_outpoints (cc_dh cfg)) (bk_Transactions blk)))"
  have "list_all op_ok ?ops" using assms(3) by (fastforce simp: list_all_iff txs_ops_ok_def in_tx_outpoints op_ok_def)
  from load_cache_ok [OF assms(1,2) this] obtain cache where
    l: "load_cache cfg ?ops s = s\<lparr>st_utxoCache := cache\<rparr>" "utxo_ok cfg (s\<lparr>st_utxoCache := cache\<rparr>) n"
      "node_coins cfg (s\<lparr>st_utxoCache := cache\<rparr>) = node_coins cfg s" by auto
  show ?thesis
  proof (cases "bn_hash node = cp_GenesisHash (cc_params cfg) \<or> uv_bestHash view \<noteq> bh_PrevBlock (bk_Header blk)")
    case True
    then have "load_for_check cfg node view blk s = s" by (simp add: load_for_check_def)
    then show ?thesis using assms(2) by (intro exI [of _ "st_utxoCache s"]) simp
  next
    case False
    show ?thesis
    proof (cases "checkBIP0030 (cc_dh cfg) (cache_source cfg s) blk view")
      case (Inl e)
      then show ?thesis using l False by (intro exI [of _ cache]) (simp add: load_for_check_def)
    next
      case (Inr view1)
      obtain cache' where "load_inputs cfg view1 blk (s\<lparr>st_utxoCache := cache\<rparr>) = s\<lparr>st_utxoCache := cache'\<rparr>"
        "utxo_ok cfg (s\<lparr>st_utxoCache := cache'\<rparr>) n" "node_coins cfg (s\<lparr>st_utxoCache := cache'\<rparr>) = node_coins cfg s"
        using load_inputs_ok [OF assms(1) l(2) assms(3), of view1] l(3) by auto
      then show ?thesis using Inr l(1) False by (intro exI [of _ cache']) (simp add: load_for_check_def)
    qed
  qed
qed

subsection \<open>Blocks that pass the check\<close>

lemma checked_block:
  assumes "config_ok cfg" "tree_ok cfg s" "regular_index cfg s" "st_index s h = Some n" "bn_parent n = Some p"
    "stored_block (cc_dh cfg) (st_db s) n blk" "coins_at cfg (st_db s) p = Some coins" "agree (view_coins (source_coins source) view) coins"
    "checkConnectBlock (cc_crypto cfg) pick hpick (cc_params cfg) source caches n (block_data blk) view [] = Inr (view', stxos, caches')"
  shows "\<exists>coins'. coins_at cfg (st_db s) n = Some coins' \<and> agree (view_coins (source_coins source) view') coins'"
proof -
  let ?txs = "ub_Transactions blk" and ?c = "view_coins (source_coins source) view"
  note t = stored_txs [OF assms(6)]
  have sane: "sane_block (cc_dh cfg) ?txs" and h: "ub_Height blk = bn_height n"
    using assms(6) fetched_height unfolding stored_block_def by blast+
  have earlier: "spends_earlier (cc_dh cfg) (bn_height n) ?txs" using regularD(3) [OF assms(3,4)] t by simp
  have d: "bk_Transactions (block_data blk) = ?txs" "bk_Height (block_data blk) = bn_height n" using h by (simp_all add: block_data_def)
  note a = accepted_block [OF assms(9), of ?c, unfolded d, OF sane refl earlier refl]
  have ops: "txs_ops_ok (cc_dh cfg) ?txs" by (rule stored_ops_ok [OF assms(6) configD(3) [OF assms(1)]])
  have "block_allowed (cc_dh cfg) (bn_height n) (cc_maturity cfg) coins ?txs" by (rule allowed_agree [OF assms(8) ops a(1)])
  then have "coins_at cfg (st_db s) n = Some (apply_txs (cc_dh cfg) (bn_height n) ?txs coins)"
    using assms(5-7) t by (auto simp: coins_at_def)
  moreover have "agree (view_coins (source_coins source) view') (apply_txs (cc_dh cfg) (bn_height n) ?txs coins)"
    unfolding a(2) by (rule agree_apply [OF assms(8)])
  ultimately show ?thesis by blast
qed

subsection \<open>Changes of the status of nodes\<close>

text \<open>What only statuses, caches of verdicts and the like are concerned with leaves the chain as it is.\<close>

definition same_chain :: "chainState \<Rightarrow> chainState \<Rightarrow> bool" where
  "same_chain s s' \<longleftrightarrow> st_index s' = st_index s \<and> st_bestChain s' = st_bestChain s \<and> st_utxoCache s' = st_utxoCache s \<and>
     st_snapshot s' = st_snapshot s \<and> st_pool s' = st_pool s \<and> (\<exists>si. st_db s' = (st_db s)\<lparr>db_statusIndex := si\<rparr>)"

lemma same_status_index: "\<exists>si. db = db\<lparr>db_statusIndex := si\<rparr>" for db :: chainDB
  by (intro exI [of _ "db_statusIndex db"]) simp

lemma same_chain_refl [simp]: "same_chain s s"
  using same_status_index by (simp add: same_chain_def)

lemma same_chain_trans: "same_chain s s1 \<Longrightarrow> same_chain s1 s2 \<Longrightarrow> same_chain s s2"
  unfolding same_chain_def by auto

lemma same_chainD:
  assumes "same_chain s s'"
  shows "st_index s' = st_index s" "st_bestChain s' = st_bestChain s" "st_utxoCache s' = st_utxoCache s" "st_snapshot s' = st_snapshot s"
    "st_pool s' = st_pool s" "db_blocks (st_db s') = db_blocks (st_db s)" "utxo_bucket s' = utxo_bucket s"
    "db_spendJournal (st_db s') = db_spendJournal (st_db s)" "db_meta (st_db s') = db_meta (st_db s)"
  using assms by (auto simp: same_chain_def)

lemma same_chain_keeps:
  assumes "same_chain s s'"
  shows "regular_index cfg s \<Longrightarrow> regular_index cfg s'" "coins_at cfg (st_db s') n = coins_at cfg (st_db s) n"
    "stored_block dh (st_db s') n blk = stored_block dh (st_db s) n blk" "node_coins cfg s' = node_coins cfg s"
    "utxo_ok cfg s' n = utxo_ok cfg s n" "chain_ok cfg s' n = chain_ok cfg s n"
proof -
  note d = same_chainD [OF assms]
  note at = coins_at_cong [OF d(6), of cfg]
  show "regular_index cfg s \<Longrightarrow> regular_index cfg s'" by (rule regular_index_cong [OF _ d(1,6)])
  show "coins_at cfg (st_db s') n = coins_at cfg (st_db s) n" by (rule at)
  show "stored_block dh (st_db s') n blk = stored_block dh (st_db s) n blk" by (rule same_blocks(1) [OF d(6)])
  show c: "node_coins cfg s' = node_coins cfg s" unfolding node_coins_def d(3,7) by (rule refl)
  have u: "utxo_ok cfg s' n = utxo_ok cfg s n" for n
    unfolding utxo_ok_def durable_def dbFetchUtxoStateConsistency_def at c d(3,7,9) by (rule refl)
  show "utxo_ok cfg s' n = utxo_ok cfg s n" by (rule u)
  have j: "journaled cfg (st_db s') (branch n) = journaled cfg (st_db s) (branch n)" by (rule journaled_cong [OF d(6)]) (simp add: d(8))
  show "chain_ok cfg s' n = chain_ok cfg s n" unfolding chain_ok_def u j best_stored_def d(1,2,4,9) by (rule refl)
qed

lemma same_chain_tree:
  assumes "same_chain s s'" "tree_ok cfg s"
    "\<And>h n. st_index s h = Some n \<Longrightarrow> KnownValid (st_status s' n) \<Longrightarrow> KnownValid (st_status s n) \<or> coins_at cfg (st_db s) n \<noteq> None"
  shows "tree_ok cfg s'"
  using tree_ok_cong [OF assms(2) same_chainD(1,6) [OF assms(1)]] assms(3) tree_okD(6) [OF assms(2)] by blast

lemma set_flags_chain [simp]: "same_chain s (mark_dirty ns (s\<lparr>st_status := st\<rparr>))"
  using same_status_index by (simp add: same_chain_def mark_dirty_def)

lemma set_flags_run: "set_flags n w s = Some (r, s') \<longleftrightarrow> r = Inr () \<and> s' = mark_dirty [n] (s\<lparr>st_status := SetStatusFlags (st_status s) n w\<rparr>)"
  by (simp add: set_flags_def)

lemma mark_dirty_status [simp]: "st_status (mark_dirty ns s) = st_status s" "st_index (mark_dirty ns s) = st_index s" "st_db (mark_dirty ns s) = st_db s"
  by (simp_all add: mark_dirty_def)

lemma status_bits:
  "KnownValid (w OR statusValid)" "KnownValid (w OR statusValidateFailed) = KnownValid w" "KnownValid (w OR statusInvalidAncestor) = KnownValid w"
  by (simp_all add: KnownValid_def statusValid_def statusValidateFailed_def statusInvalidAncestor_def word_ao_dist)

lemma flushToDB_chain:
  assumes "flushToDB s = Some (r, s')"
  shows "r = Inr ()" "same_chain s s'" "st_status s' = st_status s"
proof -
  obtain si where "flushToDB s = Some (Inr (), s\<lparr>st_db := (st_db s)\<lparr>db_statusIndex := si\<rparr>, st_dirty := []\<rparr>)" by (rule flushToDB_effect)
  then show "r = Inr ()" "same_chain s s'" "st_status s' = st_status s" using assms by (auto simp: same_chain_def)
qed

text \<open>Marking a node as valid that is valid.\<close>

lemma mark_valid:
  assumes "tree_ok cfg s" "st_index s h = Some n" "coins_at cfg (st_db s) n \<noteq> None"
    "cm_bind (set_flags n statusValid) (\<lambda>_. flushToDB) s = Some (r, s')"
  shows "r = Inr ()" "same_chain s s'" "tree_ok cfg s'" "KnownValid (st_status s' n)"
proof -
  let ?s1 = "mark_dirty [n] (s\<lparr>st_status := SetStatusFlags (st_status s) n statusValid\<rparr>)"
  have f: "flushToDB ?s1 = Some (r, s')" using assms(4) by (auto simp: cm_bind_iff set_flags_run)
  note fl = flushToDB_chain [OF f]
  show "r = Inr ()" by (rule fl(1))
  show same: "same_chain s s'" by (rule same_chain_trans [OF set_flags_chain fl(2)])
  show "KnownValid (st_status s' n)" by (simp add: fl(3) SetStatusFlags_def status_bits)
  show "tree_ok cfg s'"
    by (rule same_chain_tree [OF same assms(1)]) (use assms(3) in \<open>auto simp: fl(3) SetStatusFlags_def split: if_splits\<close>)
qed

subsection \<open>Extending the best chain\<close>

lemma same_but_utxos_chain_ok:
  assumes "same_but_utxos s s'" "chain_ok cfg s n" "utxo_ok cfg s' n"
  shows "chain_ok cfg s' n"
  using assms(2,3) same_but_utxosD [OF assms(1)] same_but_utxos_keeps(4) [OF assms(1), where cfg = cfg] unfolding chain_ok_def by simp

lemma agree_trans: "agree a b \<Longrightarrow> agree b c \<Longrightarrow> agree a c" by (simp add: agree_def)

lemma agree_view: "agree c c' \<Longrightarrow> agree (view_coins c view) (view_coins c' view)"
  by (auto simp: agree_def view_coins_def split: option.split)

text \<open>The check of a block loads entries into the cache; a block that is refused for a rule leaves the chain as it was.\<close>

lemma cm_check_run:
  assumes "config_ok cfg" "tree_ok cfg s" "regular_index cfg s" "utxo_ok cfg s m" "st_index s h = Some n"
    "bn_parent n = Some p" "stored_block (cc_dh cfg) (st_db s) n blk" "coins_at cfg (st_db s) p = Some coins"
    "agree (view_coins (node_coins cfg s) view) coins"
    "cm_checkConnectBlock cfg n blk view s = Some (r, s')"
  shows "\<exists>cache caches. s' = s\<lparr>st_utxoCache := cache, st_caches := caches\<rparr> \<and> utxo_ok cfg s' m \<and> node_coins cfg s' = node_coins cfg s"
    "r = Inr (Inr view') \<Longrightarrow> \<exists>coins'. coins_at cfg (st_db s) n = Some coins' \<and> agree (view_coins (node_coins cfg s) view') coins'"
    "\<exists>v. r = Inr v"
proof -
  let ?src = "cache_source cfg s"
  have ops: "txs_ops_ok (cc_dh cfg) (bk_Transactions (block_data blk))"
    using stored_ops_ok [OF assms(7) configD(3) [OF assms(1)]] by (simp add: block_data_def)
  obtain cache where l: "load_for_check cfg n view (block_data blk) s = s\<lparr>st_utxoCache := cache\<rparr>"
    "utxo_ok cfg (s\<lparr>st_utxoCache := cache\<rparr>) m" "node_coins cfg (s\<lparr>st_utxoCache := cache\<rparr>) = node_coins cfg s"
    using load_for_check_ok [OF assms(1,4) ops, of n view] by auto
  have caches: "utxo_ok cfg (s\<lparr>st_utxoCache := cache, st_caches := c\<rparr>) m" "node_coins cfg (s\<lparr>st_utxoCache := cache, st_caches := c\<rparr>) = node_coins cfg s" for c
    using l(2,3) by (simp_all add: utxo_ok_def node_coins_def)
  have "(s' = s\<lparr>st_utxoCache := cache, st_caches := st_caches s\<rparr> \<or> (\<exists>caches. s' = s\<lparr>st_utxoCache := cache, st_caches := caches\<rparr>)) \<and> (\<exists>v. r = Inr v)"
    using assms(10) unfolding cm_checkConnectBlock_def l(1) by (auto split: sum.splits)
  then show "\<exists>cache caches. s' = s\<lparr>st_utxoCache := cache, st_caches := caches\<rparr> \<and> utxo_ok cfg s' m \<and> node_coins cfg s' = node_coins cfg s" "\<exists>v. r = Inr v"
    using caches by blast+
  note vc = agree_view [OF cache_source_coins [OF assms(1,4)]]
  have "agree (view_coins (source_coins ?src) view) coins" by (rule agree_trans [OF vc assms(9)])
  note check = checked_block [OF assms(1-3,5-8) this]
  show "\<exists>coins'. coins_at cfg (st_db s) n = Some coins' \<and> agree (view_coins (node_coins cfg s) view') coins'" if ok: "r = Inr (Inr view')"
  proof -
    obtain stxos caches' where "checkConnectBlock (cc_crypto cfg) (cc_sigPick cfg) (cc_hashPick cfg) (cc_params cfg) ?src (st_caches s) n
        (block_data blk) view [] = Inr (view', stxos, caches')"
      using assms(10) ok by (auto simp: cm_checkConnectBlock_def split: sum.splits)
    from check [OF this] show ?thesis using agree_trans [OF agree_sym [OF vc]] by blast
  qed
qed

lemma mark_failed:
  assumes "tree_ok cfg s" "cm_bind (set_flags n statusValidateFailed) (\<lambda>_. flushToDB) s = Some (r, s')"
  shows "r = Inr ()" "same_chain s s'" "tree_ok cfg s'"
proof -
  let ?s1 = "mark_dirty [n] (s\<lparr>st_status := SetStatusFlags (st_status s) n statusValidateFailed\<rparr>)"
  have "flushToDB ?s1 = Some (r, s')" using assms(2) by (auto simp: cm_bind_iff set_flags_run)
  note fl = flushToDB_chain [OF this]
  show "r = Inr ()" by (rule fl(1))
  show same: "same_chain s s'" by (rule same_chain_trans [OF set_flags_chain fl(2)])
  show "tree_ok cfg s'"
    by (rule same_chain_tree [OF same assms(1)]) (auto simp: fl(3) SetStatusFlags_def status_bits split: if_splits)
qed

text \<open>The check of a block on the tip keeps the chain, whatever its result.\<close>

lemma check_tip_ok:
  assumes "config_ok cfg" "tree_ok cfg s" "regular_index cfg s" "chain_ok cfg s tip" "st_index s h = Some n" "bn_parent n = Some tip"
    "stored_block (cc_dh cfg) (st_db s) n blk" "check_tip cfg n blk s = Some (r, s')"
  shows "chain_ok cfg s' tip" "tree_ok cfg s'" "st_index s' = st_index s" "db_blocks (st_db s') = db_blocks (st_db s)"
    "node_coins cfg s' = node_coins cfg s" "r = Inr () \<Longrightarrow> coins_at cfg (st_db s) n \<noteq> None"
proof -
  note c = chain_okD [OF assms(4)]
  note u = utxo_okD [OF c(3)]
  let ?view = "SetBestHash NewUtxoViewpoint (bh_PrevBlock (ub_header blk))"
  have "view_coins U ?view = U" for U by (simp add: view_coins_def SetBestHash_def NewUtxoViewpoint_def fun_eq_iff)
  then have v: "agree (view_coins (node_coins cfg s) ?view) (node_coins cfg s)" by simp
  obtain r1 s1 where check: "cm_checkConnectBlock cfg n blk ?view s = Some (r1, s1)"
    and rest: "(\<exists>e. r1 = Inl e \<and> r = Inl e \<and> s' = s1) \<or> (\<exists>v. r1 = Inr v \<and>
      (case v of
         Inl (ruleError c) \<Rightarrow> cm_bind (set_flags n statusValidateFailed) (\<lambda>_. cm_bind flushToDB (\<lambda>_. cm_throw (fromRules (ruleError c))))
       | Inl e \<Rightarrow> cm_throw (fromRules e)
       | Inr _ \<Rightarrow> cm_bind (set_flags n statusValid) (\<lambda>_. flushToDB)) s1 = Some (r, s'))"
    using assms(8) unfolding check_tip_def cm_bind_iff by blast
  note run = cm_check_run [OF assms(1-3) c(3) assms(5-7) u(3) v check]
  obtain cache caches where s1: "s1 = s\<lparr>st_utxoCache := cache, st_caches := caches\<rparr>" "utxo_ok cfg s1 tip" "node_coins cfg s1 = node_coins cfg s"
    using run(1) by blast
  let ?s0 = "s\<lparr>st_utxoCache := cache\<rparr>"
  have same1: "same_chain ?s0 s1" using same_status_index by (simp add: same_chain_def s1(1))
  have u0: "utxo_ok cfg ?s0 tip" using s1(2) same_chain_keeps(5) [OF same1, of cfg tip] by simp
  have good: "chain_ok cfg s1 tip" "tree_ok cfg s1"
    using same_chain_keeps(6) [OF same1, of cfg tip] same_but_utxos_chain_ok [OF same_but_utxos_cache assms(4) u0]
      same_chain_tree [OF same1 same_but_utxos_keeps(1) [OF same_but_utxos_cache assms(2)]] by (auto simp: s1(1))
  obtain v where v: "r1 = Inr v" using run(3) by blast
  have "same_chain s1 s' \<and> tree_ok cfg s' \<and> (r = Inr () \<longrightarrow> coins_at cfg (st_db s) n \<noteq> None)"
  proof (cases v)
    case (Inr view')
    then have at: "coins_at cfg (st_db s) n \<noteq> None" using run(2) v by blast
    have "st_index s1 h = Some n" "coins_at cfg (st_db s1) n \<noteq> None" using assms(5) at by (simp_all add: s1(1))
    from mark_valid [OF good(2) this] show ?thesis using rest v Inr at by auto
  next
    case (Inl e)
    show ?thesis
    proof (cases "\<exists>c. e = ruleError c")
      case True
      then obtain c where "cm_bind (set_flags n statusValidateFailed) (\<lambda>_. cm_bind flushToDB (\<lambda>_. cm_throw (fromRules (ruleError c)))) s1 = Some (r, s')"
        using rest v Inl by auto
      then have "\<exists>r'. cm_bind (set_flags n statusValidateFailed) (\<lambda>_. flushToDB) s1 = Some (r', s') \<and> (\<exists>e. r = Inl e)"
        by (auto simp: cm_bind_iff)
      then show ?thesis using mark_failed(2,3) [OF good(2)] by blast
    next
      case False
      then have "s' = s1 \<and> (\<exists>e. r = Inl e)" using rest v Inl by (cases e) auto
      then show ?thesis using good by auto
    qed
  qed
  then have same: "same_chain s1 s'" and t: "tree_ok cfg s'" "r = Inr () \<Longrightarrow> coins_at cfg (st_db s) n \<noteq> None" by simp_all
  show "chain_ok cfg s' tip" using same_chain_keeps(6) [OF same, of cfg tip] good(1) by simp
  show "tree_ok cfg s'" "r = Inr () \<Longrightarrow> coins_at cfg (st_db s) n \<noteq> None" by (rule t)+
  show "st_index s' = st_index s" "db_blocks (st_db s') = db_blocks (st_db s)" using same_chainD(1,6) [OF same] by (simp_all add: s1(1))
  show "node_coins cfg s' = node_coins cfg s" using same_chain_keeps(4) [OF same, of cfg] s1(3) by simp
qed

text \<open>
  A block on top of the tip: when it is connected it is the new tip of a good state, it is marked as valid, and the coins of the node are those after its
  transactions.\<close>

lemma extend_tip_ok:
  assumes "config_ok cfg" "tree_ok cfg s" "regular_index cfg s" "chain_ok cfg s tip" "st_index s h = Some n" "bn_parent n = Some tip"
    "stored_block (cc_dh cfg) (st_db s) n blk" "fastAdd \<Longrightarrow> KnownValid (st_status s n)" "extend_tip cfg clk n blk fastAdd s = Some (Inr v, s')"
  shows "v" "chain_ok cfg s' n" "tree_ok cfg s'" "KnownValid (st_status s' n)" "st_index s' = st_index s" "db_blocks (st_db s') = db_blocks (st_db s)"
proof -
  from assms(9) [unfolded extend_tip_def cm_bind_Inr] obtain s1 stxos s2 s3 s4 where
    check: "(if fastAdd then cm_return () else check_tip cfg n blk) s = Some (Inr (), s1)"
    and con: "cm_connectTransactions cfg blk s1 = Some (Inr stxos, s2)"
    and blk: "cm_onError (connectBlock cfg clk n blk stxos) (\<lambda>e.
                  cm_bind (if is_RuleError e then set_flags n statusValidateFailed else cm_return ()) (\<lambda>_. flushToDB)) s2 = Some (Inr (), s3)"
    and val: "(if fastAdd \<or> \<not> KnownValid (st_status s3 n) then cm_bind (set_flags n statusValid) (\<lambda>_. flushToDB) s3 else Some (Inr (), s3)) = Some (Inr (), s4)"
    and end': "v" "s' = s4"
    by auto
  have "chain_ok cfg s1 tip \<and> tree_ok cfg s1 \<and> st_index s1 = st_index s \<and> db_blocks (st_db s1) = db_blocks (st_db s) \<and> coins_at cfg (st_db s) n \<noteq> None"
  proof (cases fastAdd)
    case True
    then show ?thesis using check assms(2,4) tree_okD(6) [OF assms(2,5) assms(8)] by simp
  next
    case False
    then show ?thesis using check check_tip_ok [OF assms(1-7), of "Inr ()" s1] by simp
  qed
  then have s1: "chain_ok cfg s1 tip" "tree_ok cfg s1" "st_index s1 h = Some n" "st_index s1 = st_index s" "db_blocks (st_db s1) = db_blocks (st_db s)"
    and at: "coins_at cfg (st_db s) n \<noteq> None" using assms(5) by simp_all
  have reg: "regular_index cfg s1" by (rule regular_index_cong [OF assms(3) s1(4,5)])
  have stored: "stored_block (cc_dh cfg) (st_db s1) n blk" using assms(7) same_blocks(1) [OF s1(5)] by blast
  obtain coins where coins: "coins_at cfg (st_db s1) n = Some coins" using at coins_at_cong [OF s1(5), of cfg n] by auto
  have "connectBlock cfg clk n blk stxos s2 = Some (Inr (), s3)" using blk by (auto simp: cm_onError_def split: option.splits sum.splits)
  note b = connect_block [OF assms(1) s1(2) reg s1(1,3) assms(6) stored coins con this]
  have at3: "coins_at cfg (st_db s3) n \<noteq> None" using coins coins_at_cong [OF b(4), of cfg n] by simp
  have t3: "tree_ok cfg s3" using tree_ok_cong [OF s1(2) b(2,4)] tree_okD(6) [OF s1(2)] by (simp add: b(3))
  have n3: "st_index s3 h = Some n" using b(2) s1(3) by simp
  have fin: "same_chain s3 s' \<and> tree_ok cfg s' \<and> KnownValid (st_status s' n)"
  proof (cases "fastAdd \<or> \<not> KnownValid (st_status s3 n)")
    case True
    then show ?thesis using val end'(2) mark_valid [OF t3 n3 at3, of "Inr ()" s'] by simp
  next
    case False
    then show ?thesis using val end'(2) t3 by simp
  qed
  then show "tree_ok cfg s'" "KnownValid (st_status s' n)" by simp_all
  show "v" by (rule end'(1))
  show "chain_ok cfg s' n" using b(1) fin same_chain_keeps(6) [of s3 s' cfg n] by simp
  show "st_index s' = st_index s" "db_blocks (st_db s') = db_blocks (st_db s)"
    using b(2,4) s1(4,5) fin same_chainD(1,6) [of s3 s'] by simp_all
qed

end
