(* ===== verification/Chain_Reorganize.thy ===== *)
theory Chain_Reorganize
  imports Chain_Extend
begin

text \<open>
  Moving the best chain to another branch (\<^verbatim>\<open>reorganizeChain\<close> and \<^verbatim>\<open>connectBestChain\<close> of \<^verbatim>\<open>node/blockchain/chain.go\<close>). A view that goes down from
  the tip has the coins of every block that it passes, with it a block is taken off the chain (\<open>disconnect_block\<close>); verifying a branch only loads entries and
  marks nodes (\<open>verified\<close>). In the end the node is in a good state at the new branch, or, when the branch is refused, at the old one.
\<close>

subsection \<open>What connecting and disconnecting do to the coins of a view\<close>

text \<open>A patch replaces the coins at some outpoints.\<close>

definition patch :: "(OutPoint \<rightharpoonup> coin option) \<Rightarrow> coins \<Rightarrow> coins" where
  "patch T c op = (case T op of None \<Rightarrow> c op | Some x \<Rightarrow> x)"

lemma patch_empty [simp]: "patch Map.empty c = c"
  by (simp add: patch_def fun_eq_iff)

lemma patch_patch: "patch T' (patch T c) = patch (T ++ T') c"
  by (auto simp: patch_def fun_eq_iff map_add_def split: option.split)

lemma patch_restrict: "c |` (- A) = patch (\<lambda>op. if op \<in> A then Some None else None) c"
  by (auto simp: patch_def restrict_map_def fun_eq_iff)

lemma patch_put: "view_coins U (put_entry view op entry) = patch [op \<mapsto> unspent entry] (view_coins U view)"
  by (auto simp: patch_def fun_eq_iff)

lemma unspend_patch:
  "(\<forall>view. unspend_ins ins stxos view = Inl rulePanic) \<or>
   (\<exists>T rest. \<forall>view. \<exists>view'. unspend_ins ins stxos view = Inr (view', rest) \<and> (\<forall>U. view_coins U view' = patch T (view_coins U view)))"
proof (induction ins arbitrary: stxos)
  case Nil
  have "\<forall>view. \<exists>view'. unspend_ins [] stxos view = Inr (view', stxos) \<and> (\<forall>U. view_coins U view' = patch Map.empty (view_coins U view))" by simp
  then show ?case by blast
next
  case (Cons txIn ins)
  show ?case
  proof (cases stxos)
    case (Cons stxo rest)
    let ?P = "[ti_PreviousOutPoint txIn \<mapsto> unspent (Some (restored_entry stxo))]"
    from Cons.IH [of rest] show ?thesis
    proof
      assume "\<exists>T r. \<forall>view. \<exists>view'. unspend_ins ins rest view = Inr (view', r) \<and> (\<forall>U. view_coins U view' = patch T (view_coins U view))"
      then obtain T r where T: "\<And>view. \<exists>view'. unspend_ins ins rest view = Inr (view', r) \<and> (\<forall>U. view_coins U view' = patch T (view_coins U view))" by blast
      have "\<exists>view'. unspend_ins (txIn # ins) stxos view = Inr (view', r) \<and> (\<forall>U. view_coins U view' = patch (?P ++ T) (view_coins U view))" for view
        using T [of "put_entry view (ti_PreviousOutPoint txIn) (Some (restored_entry stxo))"] Cons by (auto simp: patch_put patch_patch simp del: view_coins_put)
      then show ?thesis by blast
    qed (use Cons in simp)
  qed simp
qed

text \<open>Disconnecting the transactions is a patch that covers everything that they created.\<close>

lemma disconnect_patch:
  "(\<forall>view. disconnect_txs dh h txs stxos view = Inl rulePanic) \<or>
   (\<exists>T. block_outs dh h txs \<subseteq> dom T \<and>
     (\<forall>view. \<exists>view'. disconnect_txs dh h txs stxos view = Inr view' \<and> (\<forall>U. view_coins U view' = patch T (view_coins U view))))"
proof (induction txs arbitrary: stxos)
  case Nil
  show ?case by (rule disjI2, rule exI [of _ Map.empty]) simp
next
  case (Cons tx txs)
  let ?fl = "if txs = [] then tfCoinBase else 0"
  let ?u = "\<lambda>view. unmake_outs (TxHash dh tx) ?fl h 0 (tx_TxOut tx) view"
  let ?D = "\<lambda>op. if op \<in> dom (created dh h tx) then Some None else None :: coin option option"
  have u: "view_coins U (?u view) = patch ?D (view_coins U view)" for U view
    unfolding patch_restrict [symmetric] created_def by (rule unmake_outs_coins)
  have dom: "dom (created dh h tx) \<subseteq> dom ?D" by (auto split: if_splits)
  show ?case
  proof (cases "txs = []")
    case True
    then show ?thesis using u dom by (intro disjI2 exI [of _ ?D]) auto
  next
    case False
    from unspend_patch [of "rev (tx_TxIn tx)" stxos] show ?thesis
    proof
      assume "\<forall>view. unspend_ins (rev (tx_TxIn tx)) stxos view = Inl rulePanic"
      then show ?thesis using False by (simp add: Let_def)
    next
      assume "\<exists>T rest. \<forall>view. \<exists>view'. unspend_ins (rev (tx_TxIn tx)) stxos view = Inr (view', rest) \<and> (\<forall>U. view_coins U view' = patch T (view_coins U view))"
      then obtain T rest where T: "\<And>view. \<exists>view'. unspend_ins (rev (tx_TxIn tx)) stxos view = Inr (view', rest) \<and> (\<forall>U. view_coins U view' = patch T (view_coins U view))" by blast
      from Cons.IH [of rest] show ?thesis
      proof
        assume e: "\<forall>view. disconnect_txs dh h txs rest view = Inl rulePanic"
        have "disconnect_txs dh h (tx # txs) stxos view = Inl rulePanic" for view
          using T [of "?u view"] e False by (auto simp: Let_def)
        then show ?thesis by blast
      next
        assume "\<exists>T. block_outs dh h txs \<subseteq> dom T \<and> (\<forall>view. \<exists>view'. disconnect_txs dh h txs rest view = Inr view' \<and> (\<forall>U. view_coins U view' = patch T (view_coins U view)))"
        then obtain S where S: "block_outs dh h txs \<subseteq> dom S"
          "\<And>view. \<exists>view'. disconnect_txs dh h txs rest view = Inr view' \<and> (\<forall>U. view_coins U view' = patch S (view_coins U view))" by blast
        have "\<exists>view'. disconnect_txs dh h (tx # txs) stxos view = Inr view' \<and> (\<forall>U. view_coins U view' = patch (?D ++ T ++ S) (view_coins U view))" for view
        proof -
          obtain v1 where v1: "unspend_ins (rev (tx_TxIn tx)) stxos (?u view) = Inr (v1, rest)" "\<forall>U. view_coins U v1 = patch T (view_coins U (?u view))"
            using T by blast
          obtain v2 where "disconnect_txs dh h txs rest v1 = Inr v2" "\<forall>U. view_coins U v2 = patch S (view_coins U v1)" using S(2) by blast
          then show ?thesis using v1 False u by (intro exI [of _ v2]) (simp add: Let_def patch_patch)
        qed
        moreover have "block_outs dh h (tx # txs) \<subseteq> dom (?D ++ T ++ S)" using S(1) dom by auto
        ultimately show ?thesis by blast
      qed
    qed
  qed
qed

text \<open>So a view needs the coins after the block only outside of what the block creates.\<close>

lemma disconnect_block_coins:
  assumes "sane_block dh txs" "valid_txs dh h coins txs"
    "\<And>op. P op \<Longrightarrow> op \<notin> block_outs dh h txs \<Longrightarrow> view_coins U view op = apply_txs dh h txs coins op"
  shows "\<exists>view'. disconnect_txs dh h (rev txs) (rev (block_details dh h coins txs)) view = Inr view' \<and> (\<forall>op. P op \<longrightarrow> view_coins U view' op = coins op)"
proof -
  obtain cb rest where t: "txs = cb # rest" "IsCoinBaseTx cb" "list_all (\<lambda>tx. \<not> IsCoinBaseTx tx) rest"
    using assms(1) by (cases txs) (auto simp: sane_block_def)
  let ?W = "apply_txs dh h txs coins" and ?d = "disconnect_txs dh h (rev txs) (rev (block_details dh h coins txs))"
  have new: "view_coins ?W NewUtxoViewpoint = ?W" by (simp add: view_coins_def NewUtxoViewpoint_def fun_eq_iff)
  obtain v where v: "?d NewUtxoViewpoint = Inr v" "view_coins ?W v = coins"
    using disconnect_txs_coins [OF t(2,3) assms(2) [unfolded t(1)], of ?W NewUtxoViewpoint] new by (auto simp: t(1))
  obtain T where T: "block_outs dh h (rev txs) \<subseteq> dom T" "\<And>view. \<exists>view'. ?d view = Inr view' \<and> (\<forall>U. view_coins U view' = patch T (view_coins U view))"
    using disconnect_patch [of dh h "rev txs" "rev (block_details dh h coins txs)"] v(1) by auto
  have c: "patch T ?W = coins" using T(2) [of NewUtxoViewpoint] v new by auto
  obtain view' where view': "?d view = Inr view'" "view_coins U view' = patch T (view_coins U view)" using T(2) by blast
  have "view_coins U view' op = coins op" if "P op" for op
  proof (cases "op \<in> block_outs dh h txs")
    case True
    then have "T op \<noteq> None" using T(1) by (auto simp: block_outs_def)
    then show ?thesis using fun_cong [OF c, of op] by (auto simp: view'(2) patch_def)
  next
    case False
    then show ?thesis using assms(3) [OF that] fun_cong [OF c, of op] by (simp add: view'(2) patch_def split: option.splits)
  qed
  with view'(1) show ?thesis by blast
qed

text \<open>The coins after a block depend on those before only outside of what the block creates.\<close>

lemma apply_outs: "c op = c' op \<or> op \<in> block_outs dh h txs \<Longrightarrow> apply_txs dh h txs c op = apply_txs dh h txs c' op"
proof (induction txs arbitrary: c c')
  case (Cons tx txs)
  show ?case
  proof (cases "op \<in> dom (created dh h tx) \<or> c op = c' op")
    case True
    then have "apply_tx dh h tx c op = apply_tx dh h tx c' op" by (auto simp: apply_tx_def map_add_def restrict_map_def split: option.split)
    then show ?thesis using Cons.IH by simp
  next
    case False
    then show ?thesis using Cons.prems Cons.IH by auto
  qed
qed simp

subsection \<open>Sound views\<close>

text \<open>
  An entry of a view that can be written: what is not marked as modified agrees with the coins of the node.\<close>

definition entry_sound :: "coins \<Rightarrow> OutPoint \<Rightarrow> UtxoEntry option \<Rightarrow> bool" where
  "entry_sound U op entry \<longleftrightarrow> op_ok op \<and>
     (case entry of
        None \<Rightarrow> U op = None
      | Some e \<Rightarrow> entry_ok e \<and> (IsSpent e \<longrightarrow> isModified e) \<and> (\<not> isModified e \<longrightarrow> unspent (Some e) = U op))"

definition view_sound :: "coins \<Rightarrow> UtxoViewpoint \<Rightarrow> bool" where
  "view_sound U view \<longleftrightarrow> finite (dom (uv_entries view)) \<and> (\<forall>op entry. uv_entries view op = Some entry \<longrightarrow> entry_sound U op entry)"

lemma view_sound_new [simp]: "view_sound U NewUtxoViewpoint" "view_sound U (SetBestHash view h) = view_sound U view"
  by (simp_all add: view_sound_def NewUtxoViewpoint_def SetBestHash_def)

lemma view_sound_put: "view_sound U view \<Longrightarrow> entry_sound U op entry \<Longrightarrow> view_sound U (put_entry view op entry)"
  by (simp add: view_sound_def)

lemma lookup_sound: "view_sound U view \<Longrightarrow> LookupEntry view op = Some e \<Longrightarrow> op_ok op \<and> entry_ok e \<and> (IsSpent e \<longrightarrow> isModified e)"
  by (cases "uv_entries view op") (fastforce simp: view_sound_def LookupEntry_def entry_sound_def)+

lemma add_outs_sound:
  "view_sound U view \<Longrightarrow> length h = 32 \<Longrightarrow> k + length outs \<le> 2 ^ 32 \<Longrightarrow>
   \<forall>txOut \<in> set outs. storable (to_Value txOut) bh (to_PkScript txOut) \<Longrightarrow> view_sound U (add_outs h cb bh k outs view)"
proof (induction outs arbitrary: k view)
  case (Cons txOut outs)
  have "entry_sound U \<lparr>out_Hash = h, out_Index = k\<rparr> (Some (fresh_entry txOut cb bh))"
    using Cons.prems by (auto simp: entry_sound_def op_ok_def fresh_entry_def entry_ok_def IsSpent_def isModified_def tf_flags)
  then have "view_sound U (addTxOut view \<lparr>out_Hash = h, out_Index = k\<rparr> txOut cb bh)"
    using Cons.prems(1) view_sound_put by (simp add: addTxOut_def)
  with Cons show ?case by simp
qed simp

lemma unmake_outs_sound:
  "view_sound U view \<Longrightarrow> length h = 32 \<Longrightarrow> k + length outs \<le> 2 ^ 32 \<Longrightarrow> fl = 0 \<or> fl = tfCoinBase \<Longrightarrow>
   \<forall>txOut \<in> set outs. storable (to_Value txOut) bh (to_PkScript txOut) \<Longrightarrow> view_sound U (unmake_outs h fl bh k outs view)"
proof (induction outs arbitrary: k view)
  case (Cons txOut outs)
  let ?op = "\<lparr>out_Hash = h, out_Index = k\<rparr>"
  let ?entry = "case LookupEntry view ?op of
       None \<Rightarrow> \<lparr>ue_amount = to_Value txOut, ue_pkScript = to_PkScript txOut, ue_blockHeight = bh, ue_packedFlags = fl\<rparr>
     | Some entry \<Rightarrow> entry"
  have "entry_ok ?entry \<and> (IsSpent ?entry \<longrightarrow> isModified ?entry)"
  proof (cases "LookupEntry view ?op")
    case None
    then show ?thesis using Cons.prems(4,5) by (auto simp: entry_ok_def IsSpent_def tf_flags)
  next
    case (Some e)
    then show ?thesis using lookup_sound [OF Cons.prems(1) Some] by simp
  qed
  then have "entry_sound U ?op (Some (Spend ?entry))"
    using Cons.prems(2,3) by (auto simp: entry_sound_def op_ok_def flag_bits)
  from view_sound_put [OF Cons.prems(1) this] Cons show ?case by (simp add: Let_def)
qed simp

lemma restored_sound: "op_ok op \<Longrightarrow> stxo_ok stxo \<Longrightarrow> entry_sound U op (Some (restored_entry stxo))"
  by (auto simp: entry_sound_def stxo_ok_def entry_ok_def restored_entry_def IsSpent_def isModified_def tf_flags)

lemma unspend_sound:
  "unspend_ins ins stxos view = Inr (view', rest) \<Longrightarrow> view_sound U view \<Longrightarrow> list_all stxo_ok stxos \<Longrightarrow>
   \<forall>txIn \<in> set ins. op_ok (ti_PreviousOutPoint txIn) \<Longrightarrow> view_sound U view' \<and> list_all stxo_ok rest"
proof (induction ins stxos view rule: unspend_ins.induct)
  case (3 txIn ins stxo stxos view)
  then show ?case by (simp add: view_sound_put restored_sound)
qed simp_all

definition txs_storable :: "(bytes \<Rightarrow> hash) \<Rightarrow> int \<Rightarrow> MsgTx list \<Rightarrow> bool" where
  "txs_storable dh h txs \<longleftrightarrow> txs_ops_ok dh txs \<and>
     (\<forall>tx \<in> set txs. \<forall>txOut \<in> set (tx_TxOut tx). storable (to_Value txOut) h (to_PkScript txOut))"

lemma disconnect_sound:
  "disconnect_txs dh h txs stxos view = Inr view' \<Longrightarrow> view_sound U view \<Longrightarrow> list_all stxo_ok stxos \<Longrightarrow> txs_storable dh h txs \<Longrightarrow>
   view_sound U view'"
proof (induction txs arbitrary: stxos view)
  case (Cons tx txs)
  let ?view = "unmake_outs (TxHash dh tx) (if txs = [] then tfCoinBase else 0) h 0 (tx_TxOut tx) view"
  have u: "view_sound U ?view"
    by (rule unmake_outs_sound [OF Cons.prems(2)]) (use Cons.prems(4) in \<open>auto simp: txs_storable_def txs_ops_ok_def\<close>)
  have ops: "\<forall>txIn \<in> set (rev (tx_TxIn tx)). op_ok (ti_PreviousOutPoint txIn)"
    using Cons.prems(4) by (auto simp: txs_storable_def txs_ops_ok_def prevouts_def)
  have t: "txs_storable dh h txs" using Cons.prems(4) by (simp add: txs_storable_def txs_ops_ok_def)
  show ?case
  proof (cases "txs = []")
    case True
    then show ?thesis using Cons.prems(1) u by (simp add: Let_def)
  next
    case False
    then obtain v rest where v: "unspend_ins (rev (tx_TxIn tx)) stxos ?view = Inr (v, rest)" "disconnect_txs dh h txs rest v = Inr view'"
      using Cons.prems(1) by (auto simp: Let_def sbind_eq_Inr)
    from unspend_sound [OF v(1) u Cons.prems(3) ops] Cons.IH [OF v(2) _ _ t] show ?thesis by blast
  qed
qed simp

subsection \<open>Loading the inputs of a block\<close>

lemma add_outs_other: "created_from h cb bh' k outs op = None \<Longrightarrow> uv_entries (add_outs h cb bh k outs view) op = uv_entries view op"
proof (induction outs arbitrary: k view)
  case (Cons txOut outs)
  have "created_from h cb bh' (Suc k) outs op = None" using Cons.prems
    by (auto simp: created_from_Cons map_add_def split: option.splits if_splits)
  moreover have "uv_entries (addTxOut view \<lparr>out_Hash = h, out_Index = k\<rparr> txOut cb bh) op = uv_entries view op"
    using Cons.prems by (auto simp: addTxOut_def created_from_def split: if_splits)
  ultimately show ?case using Cons.IH by simp
qed simp

lemma find_tx_inputs_view:
  assumes "txs_storable dh (bk_Height blk) (bk_Transactions blk)"
  shows "\<forall>op \<in> set needed. op \<in> block_outs dh h (bk_Transactions blk) \<or> uv_entries view op = None \<Longrightarrow>
    (view_sound U view \<longrightarrow> view_sound U (fst (find_tx_inputs dh blk i ins (view, needed)))) \<and>
    (\<forall>op. op \<notin> block_outs dh h (bk_Transactions blk) \<longrightarrow> uv_entries (fst (find_tx_inputs dh blk i ins (view, needed))) op = uv_entries view op) \<and>
    (\<forall>op \<in> set (snd (find_tx_inputs dh blk i ins (view, needed))). op \<in> block_outs dh h (bk_Transactions blk) \<or> uv_entries view op = None)"
proof (induction ins arbitrary: view needed)
  case (Cons txIn ins)
  let ?O = "block_outs dh h (bk_Transactions blk)" and ?op = "ti_PreviousOutPoint txIn"
  show ?case
  proof (cases "\<exists>j. txInFlight dh (bk_Transactions blk) (out_Hash ?op) = Some j \<and> i \<ge> j")
    case True
    then obtain j where j: "txInFlight dh (bk_Transactions blk) (out_Hash ?op) = Some j" "i \<ge> j" by blast
    let ?tx = "bk_Transactions blk ! j" and ?view = "AddTxOuts dh view (bk_Transactions blk ! j) (bk_Height blk)"
    have tx: "?tx \<in> set (bk_Transactions blk)" using txInFlight_index [OF j(1)] by simp
    have s: "view_sound U ?view" if v: "view_sound U view" unfolding AddTxOuts_def
      by (rule add_outs_sound [OF v]) (use assms tx in \<open>auto simp: txs_storable_def txs_ops_ok_def\<close>)
    have same: "uv_entries ?view op = uv_entries view op" if "op \<notin> ?O" for op
    proof -
      have "created dh h ?tx op = None" using that tx by (auto simp: block_outs_def)
      then show ?thesis unfolding AddTxOuts_def created_def by (rule add_outs_other)
    qed
    then have "\<forall>op \<in> set needed. op \<in> ?O \<or> uv_entries ?view op = None" using Cons.prems by metis
    note IH = Cons.IH [OF this]
    have step: "find_tx_inputs dh blk i (txIn # ins) (view, needed) = find_tx_inputs dh blk i ins (?view, needed)" using j by simp
    show ?thesis unfolding step using IH s same by metis
  next
    case False
    then have step: "find_tx_inputs dh blk i (txIn # ins) (view, needed) =
        find_tx_inputs dh blk i ins (if uv_entries view ?op \<noteq> None then (view, needed) else (view, needed @ [?op]))"
      by (auto split: option.split)
    show ?thesis
    proof (cases "uv_entries view ?op = None")
      case True
      then have "\<forall>op \<in> set (needed @ [?op]). op \<in> ?O \<or> uv_entries view op = None" using Cons.prems by auto
      from Cons.IH [OF this] show ?thesis unfolding step using True by simp
    next
      case False
      then show ?thesis unfolding step using Cons.IH [OF Cons.prems] by simp
    qed
  qed
qed simp

lemma find_inputs_view:
  assumes "txs_storable dh (bk_Height blk) (bk_Transactions blk)"
  shows "\<forall>op \<in> set needed. op \<in> block_outs dh h (bk_Transactions blk) \<or> uv_entries view op = None \<Longrightarrow>
    (view_sound U view \<longrightarrow> view_sound U (fst (find_inputs dh blk i txs (view, needed)))) \<and>
    (\<forall>op. op \<notin> block_outs dh h (bk_Transactions blk) \<longrightarrow> uv_entries (fst (find_inputs dh blk i txs (view, needed))) op = uv_entries view op) \<and>
    (\<forall>op \<in> set (snd (find_inputs dh blk i txs (view, needed))). op \<in> block_outs dh h (bk_Transactions blk) \<or> uv_entries view op = None)"
proof (induction txs arbitrary: i view needed)
  case (Cons tx txs)
  obtain view1 needed1 where s: "find_tx_inputs dh blk i (tx_TxIn tx) (view, needed) = (view1, needed1)" by fastforce
  note k = find_tx_inputs_view [where U = U and i = i and ins = "tx_TxIn tx", OF assms Cons.prems, unfolded s fst_conv snd_conv]
  then have "\<forall>op \<in> set needed1. op \<in> block_outs dh h (bk_Transactions blk) \<or> uv_entries view1 op = None" by metis
  from Cons.IH [OF this, of "Suc i"] k show ?case by (simp add: s) metis
qed simp

lemma find_tx_inputs_bestHash: "uv_bestHash (fst (find_tx_inputs dh blk i ins (view, needed))) = uv_bestHash view"
  by (induction ins arbitrary: view needed) (auto simp: AddTxOuts_def split: option.split)

lemma find_inputs_bestHash: "uv_bestHash (fst (find_inputs dh blk i txs (view, needed))) = uv_bestHash view"
proof (induction txs arbitrary: i view needed)
  case (Cons tx txs)
  obtain view1 needed1 where s: "find_tx_inputs dh blk i (tx_TxIn tx) (view, needed) = (view1, needed1)" by fastforce
  with find_tx_inputs_bestHash [of dh blk i "tx_TxIn tx" view needed] Cons.IH show ?case by (simp add: s)
qed simp

text \<open>What the cache returns is sound and is the coin of the node.\<close>

lemma cache_source_sound:
  assumes "config_ok cfg" "utxo_ok cfg s n" "op_ok op" "cache_source cfg s op = Inr entry"
  shows "entry_sound (node_coins cfg s) op entry" "unspent entry = node_coins cfg s op"
proof -
  note u = utxo_okD [OF assms(2)]
  have c: "cached_ok (cc_curve cfg) (fmlookup (utxo_bucket s) (outpointKey op)) entry \<and> unspent entry = node_coins cfg s op"
  proof (cases "ms_get (uc_cachedEntries (st_utxoCache s)) op")
    case (Some entry')
    then show ?thesis using assms(4) u(1) by (auto simp: cache_source_def fetch_one coherent_def node_coins_def cache_coins_def)
  next
    case None
    obtain entry' where "dbFetchUtxoEntry (cc_curve cfg) (utxo_bucket s) op = Inr entry'"
      "cached_ok (cc_curve cfg) (fmlookup (utxo_bucket s) (outpointKey op)) entry'" "stored_coins (cc_curve cfg) (utxo_bucket s) op = unspent entry'"
      by (rule db_fetch_ok [OF configD(1) [OF assms(1)] u(2) assms(3)])
    then show ?thesis using None assms(4) by (auto simp: cache_source_def fetch_one node_coins_def cache_coins_def)
  qed
  then show "unspent entry = node_coins cfg s op" by simp
  with c assms(3) show "entry_sound (node_coins cfg s) op entry"
    by (cases entry) (auto simp: entry_sound_def cached_ok_def)
qed

text \<open>Loading the inputs of a block keeps the coins of the view but for what the block creates itself.\<close>

lemma fetch_inputs_view:
  assumes "config_ok cfg" "utxo_ok cfg s n" "txs_storable (cc_dh cfg) (bk_Height blk) (bk_Transactions blk)"
    "fetchInputUtxos (cc_dh cfg) (cache_source cfg s) view blk = Inr view'"
  shows "view_sound (node_coins cfg s) view \<Longrightarrow> view_sound (node_coins cfg s) view'" "uv_bestHash view' = uv_bestHash view"
    "op_ok op \<Longrightarrow> op \<notin> block_outs (cc_dh cfg) h (bk_Transactions blk) \<Longrightarrow> view_coins (node_coins cfg s) view' op = view_coins (node_coins cfg s) view op"
proof -
  let ?O = "block_outs (cc_dh cfg) h (bk_Transactions blk)" and ?U = "node_coins cfg s"
  obtain view1 needed where s: "findInputsToFetch (cc_dh cfg) view blk = Inr (view1, needed)" "fetchUtxosFromCache (cache_source cfg s) view1 needed = Inr view'"
    using assms(4) by (auto simp: fetchInputUtxos_def sbind_eq_Inr)
  then obtain cb txs where t: "bk_Transactions blk = cb # txs" "find_inputs (cc_dh cfg) blk 0 txs (view, []) = (view1, needed)"
    by (auto simp: findInputsToFetch_def split: list.splits)
  have "\<forall>op \<in> set []. op \<in> ?O \<or> uv_entries view op = None" by simp
  note k = find_inputs_view [where U = ?U and i = 0 and txs = txs, OF assms(3) this, unfolded t(2) fst_conv snd_conv]
  have ops: "op_ok op" if "op \<in> set needed" for op
    using that needed_ops_block [of "cc_dh cfg" blk 0 txs view "[]"] assms(3) by (fastforce simp: t txs_storable_def txs_ops_ok_def)
  note f = fetchUtxosFromCache_entries [OF s(2)]
  have loaded: "\<exists>entry. uv_entries view' op = Some entry \<and> entry_sound ?U op entry \<and> unspent entry = ?U op" if "op \<in> set needed" for op
    using f(2) [OF that] cache_source_sound [OF assms(1,2) ops [OF that]] by blast
  show "uv_bestHash view' = uv_bestHash view" using f(3) find_inputs_bestHash [of "cc_dh cfg" blk 0 txs view "[]"] by (simp add: t(2))
  {
  assume vs: "view_sound ?U view"
  have "dom (uv_entries view') \<subseteq> dom (uv_entries view1) \<union> set needed" using f(1) by (auto simp: dom_def)
  then have "finite (dom (uv_entries view'))" using k vs by (auto simp: view_sound_def intro: finite_subset)
  moreover have "entry_sound ?U op entry" if "uv_entries view' op = Some entry" for op entry
    using that loaded [of op] f(1) [of op] k vs by (cases "op \<in> set needed") (auto simp: view_sound_def)
  ultimately show "view_sound ?U view'" by (simp add: view_sound_def)
  }
  assume op: "op_ok op" "op \<notin> ?O"
  show "view_coins ?U view' op = view_coins ?U view op"
  proof (cases "op \<in> set needed")
    case True
    then have "uv_entries view op = None" using k op(2) by blast
    then show ?thesis using loaded [OF True] by (auto simp: view_coins_def)
  next
    case False
    then show ?thesis using f(1) k op(2) by (simp add: view_coins_def)
  qed
qed

subsection \<open>Disconnecting a block\<close>

lemma flush_erases:
  assumes "cache_flush C ord FlushRequired h now cache db = Inr (cache', db')" "coherent C (db_utxoSet db') cache'"
  shows "coherent C b cache'" "cache_coins C b cache' = stored_coins C b"
proof -
  have "\<forall>op. ms_get (uc_cachedEntries cache') op = None"
    using assms(1) get_erased_maps
    by (auto simp: cache_flush_def shouldFlush_def writeCache_def ms_get_def deleteMaps_def Let_def sbind_eq_Inr take_map split: if_splits)
  then show "coherent C b cache'" "cache_coins C b cache' = stored_coins C b"
    using assms(2) by (simp_all add: coherent_def cache_coins_def fun_eq_iff)
qed

lemma put_view_lookup:
  assumes "entries_ok es" "op_ok op" "dbPutUtxoView C es b = Inr b'"
  shows "fmlookup b' (outpointKey op) = (case map_of es op of
      Some (Some e) \<Rightarrow> if isModified e then (if IsSpent e then None else Some (entry_bytes C e)) else fmlookup b (outpointKey op)
    | _ \<Rightarrow> fmlookup b (outpointKey op))"
proof -
  have ok: "distinct (map fst es)" "list_all (\<lambda>(op, _). op_ok op) es"
    using assms(1) by (auto simp: entries_ok_def list_all_iff)
  show ?thesis
    using assms(3) bucket.get_writes [OF TrueI view_writes_keys(1) [OF ok], of C b "outpointKey op"] view_writes_keys(2) [OF ok assms(2), of C]
    by (auto simp: dbPutUtxoView_form split: option.splits)
qed

lemma put_view_bucket:
  assumes "entries_ok es" "bucket_ok C b" "dbPutUtxoView C es b = Inr b'"
  shows "bucket_ok C b'"
  unfolding bucket_ok_def
proof (intro allI impI)
  fix op
  assume op: "op_ok op"
  note l = put_view_lookup [OF assms(1) op assms(3)]
  have b: "fmlookup b (outpointKey op) = None \<or> (\<exists>e. entry_ok e \<and> fmlookup b (outpointKey op) = Some (entry_bytes C e))"
    using assms(2) op by (simp add: bucket_ok_def)
  show "fmlookup b' (outpointKey op) = None \<or> (\<exists>e. entry_ok e \<and> fmlookup b' (outpointKey op) = Some (entry_bytes C e))"
  proof (cases "map_of es op")
    case None
    then show ?thesis using l b by simp
  next
    case (Some entry)
    show ?thesis
    proof (cases entry)
      case None
      then show ?thesis using l b Some by simp
    next
      case e: (Some e)
      have "entry_ok e" using map_of_SomeD [OF Some] assms(1) e by (auto simp: entries_ok_def list_all_iff)
      then show ?thesis using l b Some e by auto
    qed
  qed
qed

text \<open>A sound view over the coins of the database is written without a loss.\<close>

lemma put_view_coins:
  assumes "curve_ok C" "distinct (map fst es)" "map_of es = uv_entries view" "view_sound (stored_coins C b) view" "bucket_ok C b"
  shows "\<exists>b'. dbPutUtxoView C es b = Inr b' \<and> bucket_ok C b' \<and> (\<forall>op. op_ok op \<longrightarrow> stored_coins C b' op = view_coins (stored_coins C b) view op)"
proof -
  have e: "entry_sound (stored_coins C b) op entry" if "(op, entry) \<in> set es" for op entry
    using that assms(2-4) by (simp add: view_sound_def flip: assms(3))
  have ok: "entries_ok es" using assms(2) e by (fastforce simp: entries_ok_def list_all_iff entry_sound_def split: option.split)
  obtain b' where b': "dbPutUtxoView C es b = Inr b'" by (simp add: dbPutUtxoView_form)
  have "stored_coins C b' op = view_coins (stored_coins C b) view op" if op: "op_ok op" for op
  proof (cases "map_of es op")
    case None
    then show ?thesis using dbPutUtxoView_coins [OF assms(1) ok op, of b] b' by (simp add: view_coins_def flip: assms(3))
  next
    case (Some entry)
    then show ?thesis using dbPutUtxoView_coins [OF assms(1) ok op, of b] b' e [OF map_of_SomeD [OF Some]]
      by (cases entry) (auto simp: view_coins_def entry_sound_def simp flip: assms(3))
  qed
  with b' put_view_bucket [OF ok assms(5) b'] show ?thesis by blast
qed

lemma disconnectBlock_effect:
  assumes "disconnectBlock cfg clk n blk view s = Some (Inr view', s')"
  shows "\<exists>tip p state si cache db b.
    view_tip (st_bestChain s) = Some tip \<and> bn_hash n = bn_hash tip \<and> bn_parent n = Some p \<and> be_Hash state = bn_hash p \<and>
    cache_flush (cc_curve cfg) (cc_mapOrder cfg) FlushRequired (bn_hash p) (cl_seconds clk) (st_utxoCache s)
      (dbRemoveBlockIndex (BlockHash (cc_dh cfg) (ub_header blk)) (bn_height n) (dbPutBestState state (bn_workSum n) ((st_db s)\<lparr>db_statusIndex := si\<rparr>))) =
      Inr (cache, db) \<and>
    dbPutUtxoView (cc_curve cfg) (cc_viewOrder cfg view) (db_utxoSet db) = Inr b \<and> view' = commit view \<and>
    setTip (st_bestChain s) (Some p) = Inr (st_bestChain s') \<and>
    s' = s\<lparr>st_db := dbRemoveSpendJournalEntry (BlockHash (cc_dh cfg) (ub_header blk)) (db\<lparr>db_utxoSet := b\<rparr>), st_dirty := [], st_utxoCache := cache,
      st_bestChain := st_bestChain s', st_snapshot := state\<rparr>"
proof -
  let ?h = "BlockHash (cc_dh cfg) (ub_header blk)"
  from assms obtain tip p prevBlock s1 where t: "view_tip (st_bestChain s) = Some tip" "bn_hash n = bn_hash tip" "bn_parent n = Some p"
    and f: "flushToDB s = Some (Inr (), s1)"
    and r: "(let blockHash = ?h;
           state = best_state p prevBlock (int (be_TotalTxns (st_snapshot s1)) - int (length (ub_Transactions blk)))
       in cm_bind
            (cm_Update
              (tx_bind (tx_write (\<lambda>db. Inr (dbPutBestState state (bn_workSum n) db)))
              (tx_bind (tx_write (\<lambda>db. Inr (dbRemoveBlockIndex blockHash (bn_height n) db)))
              (tx_bind (tx_flush cfg clk FlushRequired (be_Hash state))
              (tx_bind (tx_write (\<lambda>db. sbind (dbPutUtxoView (cc_curve cfg) (cc_viewOrder cfg view) (db_utxoSet db)) (\<lambda>b. Inr (db\<lparr>db_utxoSet := b\<rparr>))))
                (tx_write (\<lambda>db.
                   sbind (dbFetchSpendJournalEntry (cc_curve cfg) blockHash (ub_Transactions blk) db) (\<lambda>stxos.
                   let db = dbRemoveSpendJournalEntry blockHash db
                   in sbind (cc_indexDisconnect cfg blk stxos) (\<lambda>_. Inr db)))))))))
            (\<lambda>_. cm_bind (\<lambda>s. cm_lift fromGo (setTip (st_bestChain s) (Some p)) s) (\<lambda>bestChain.
             cm_bind (cm_update (\<lambda>s. s\<lparr>st_bestChain := bestChain, st_snapshot := state\<rparr>)) (\<lambda>_.
               cm_return (commit view)))) s1) = Some (Inr view', s')"
    unfolding disconnectBlock_def cm_bind_Inr by auto
  obtain si where "flushToDB s = Some (Inr (), s\<lparr>st_db := (st_db s)\<lparr>db_statusIndex := si\<rparr>, st_dirty := []\<rparr>)" by (rule flushToDB_effect)
  with f have s1: "s1 = s\<lparr>st_db := (st_db s)\<lparr>db_statusIndex := si\<rparr>, st_dirty := []\<rparr>" by simp
  let ?state = "best_state p prevBlock (int (be_TotalTxns (st_snapshot s1)) - int (length (ub_Transactions blk)))"
  from r [unfolded Let_def cm_bind_Inr] obtain s2 c where
    u: "cm_Update
              (tx_bind (tx_write (\<lambda>db. Inr (dbPutBestState ?state (bn_workSum n) db)))
              (tx_bind (tx_write (\<lambda>db. Inr (dbRemoveBlockIndex ?h (bn_height n) db)))
              (tx_bind (tx_flush cfg clk FlushRequired (be_Hash ?state))
              (tx_bind (tx_write (\<lambda>db. sbind (dbPutUtxoView (cc_curve cfg) (cc_viewOrder cfg view) (db_utxoSet db)) (\<lambda>b. Inr (db\<lparr>db_utxoSet := b\<rparr>))))
                (tx_write (\<lambda>db.
                   sbind (dbFetchSpendJournalEntry (cc_curve cfg) ?h (ub_Transactions blk) db) (\<lambda>stxos.
                   sbind (cc_indexDisconnect cfg blk stxos) (\<lambda>_. Inr (dbRemoveSpendJournalEntry ?h db))))))))) s1 = Some (Inr (), s2)"
    and c: "setTip (st_bestChain s2) (Some p) = Inr c" "view' = commit view" "s' = s2\<lparr>st_bestChain := c, st_snapshot := ?state\<rparr>"
    by auto
  from u obtain cache db b where
    d: "cache_flush (cc_curve cfg) (cc_mapOrder cfg) FlushRequired (bn_hash p) (cl_seconds clk) (st_utxoCache s)
      (dbRemoveBlockIndex ?h (bn_height n) (dbPutBestState ?state (bn_workSum n) ((st_db s)\<lparr>db_statusIndex := si\<rparr>))) = Inr (cache, db)"
      "dbPutUtxoView (cc_curve cfg) (cc_viewOrder cfg view) (db_utxoSet db) = Inr b"
    and s2: "s2 = s1\<lparr>st_utxoCache := cache, st_db := dbRemoveSpendJournalEntry ?h (db\<lparr>db_utxoSet := b\<rparr>)\<rparr>"
    unfolding tx_iffs by (auto simp: s1 sbind_eq_Inr)
  have "st_bestChain s' = c" using c(3) by simp
  then show ?thesis using t d c
    by (intro exI [of _ tip] exI [of _ p] exI [of _ ?state] exI [of _ si] exI [of _ cache] exI [of _ db] exI [of _ b]) (simp add: s2 s1)
qed

lemma view_after_commit:
  assumes "view_sound U view"
  shows "uv_entries (commit view) op = Some entry \<Longrightarrow> entry_sound (view_coins U view) op entry \<and> unspent entry = view_coins U view op"
    "finite (dom (uv_entries (commit view)))"
proof -
  have "dom (uv_entries (commit view)) \<subseteq> dom (uv_entries view)" by (auto simp: commit_def split: option.splits)
  then show "finite (dom (uv_entries (commit view)))" using assms by (auto simp: view_sound_def intro: finite_subset)
  assume "uv_entries (commit view) op = Some entry"
  then obtain e where e: "uv_entries view op = Some (Some e)" "\<not> (isModified e \<and> IsSpent e)"
    "entry = Some (e\<lparr>ue_packedFlags := ue_packedFlags e XOR tfModified\<rparr>)"
    by (auto simp: commit_def split: option.splits if_splits)
  have s: "entry_sound U op (Some e)" using assms e(1) by (simp add: view_sound_def)
  let ?e = "e\<lparr>ue_packedFlags := ue_packedFlags e XOR tfModified\<rparr>"
  have a: "(w XOR 4) AND 2 = w AND (2 :: byte)" "(w XOR 4) AND 1 = w AND (1 :: byte)" "(w XOR 4) AND 4 = (4 :: byte) \<longleftrightarrow> w AND 4 \<noteq> 4" for w
  proof -
    show "(w XOR 4) AND 2 = w AND (2 :: byte)" "(w XOR 4) AND 1 = w AND (1 :: byte)" by (simp_all add: bit.conj_xor_distrib2)
    have four: "v AND 4 = (if bit v 2 then 4 else (0 :: byte))" for v
    proof (rule bit_word_eqI)
      fix k
      assume "k < LENGTH(8)"
      have "bit (4 :: byte) k \<longleftrightarrow> k = 2" using bit_exp_iff [where m = 2 and n = k and 'a = byte] \<open>k < LENGTH(8)\<close> by auto
      then show "bit (v AND 4) k = bit (if bit v 2 then 4 else 0 :: byte) k" by (auto simp: bit_and_iff)
    qed
    show "(w XOR 4) AND 4 = (4 :: byte) \<longleftrightarrow> w AND 4 \<noteq> 4" by (simp add: four bit_xor_iff)
  qed
  have f: "IsSpent ?e = IsSpent e" "isModified ?e \<longleftrightarrow> \<not> isModified e" "entry_ok ?e = entry_ok e" "coin_of ?e = coin_of e"
    by (simp_all add: IsSpent_def isModified_def entry_ok_def coin_of_def ue_IsCoinBase_def tf_flags a)
  show "entry_sound (view_coins U view) op entry \<and> unspent entry = view_coins U view op"
    using s e(1,2) unfolding entry_sound_def e(3) by (auto simp: f view_coins_def unspent_def)
qed

lemma n_notin_parent:
  assumes "tree_ok cfg s" "st_index s h = Some n" "bn_parent n = Some p" "m \<in> set (branch p)"
  shows "bn_hash m \<noteq> bn_hash n"
proof -
  have b: "built (cc_dh cfg) n" using tree_okD(2) [OF assms(1,2)] .
  have m: "m \<in> set (chain_to p)" using branch_chain assms(4) by blast
  have "n \<notin> set (chain_to p)" using in_chain_to [of "cc_dh cfg" p n] built_parent(2) [OF b assms(3)] by auto
  then show ?thesis using chain_hash_inject [OF assms(1,2), of m n] m assms(3) by auto
qed

lemma stored_coins_op: "\<not> op_ok op \<Longrightarrow> stored_coins C b op = None"
  by (simp add: stored_coins_def)

text \<open>A tip is disconnected with a view that holds the coins after its parent: then the parent is the tip of a good state.\<close>

lemma disconnect_block:
  assumes "config_ok cfg" "tree_ok cfg s" "regular_index cfg s" "chain_ok cfg s n" "bn_parent n = Some p"
    "stored_block (cc_dh cfg) (st_db s) n blk" "coins_at cfg (st_db s) p = Some coins"
    "view_sound (node_coins cfg s) view" "agree (view_coins (node_coins cfg s) view) coins"
    "disconnectBlock cfg clk n blk view s = Some (Inr view', s')"
  shows "chain_ok cfg s' p" "st_index s' = st_index s" "st_status s' = st_status s" "db_blocks (st_db s') = db_blocks (st_db s)"
    "st_pool s' = st_pool s" "node_coins cfg s' = coins" "view_sound coins view'" "agree (view_coins coins view') coins"
proof -
  let ?C = "cc_curve cfg" and ?h = "bn_hash p"
  note c = chain_okD [OF assms(4)]
  note u = utxo_okD [OF c(3)] and cf = configD [OF assms(1)]
  have hash: "BlockHash (cc_dh cfg) (ub_header blk) = bn_hash n" using assms(6) by (simp add: stored_block_def)
  obtain state si cache db b where e: "be_Hash state = ?h"
    "cache_flush ?C (cc_mapOrder cfg) FlushRequired ?h (cl_seconds clk) (st_utxoCache s)
      (dbRemoveBlockIndex (bn_hash n) (bn_height n) (dbPutBestState state (bn_workSum n) ((st_db s)\<lparr>db_statusIndex := si\<rparr>))) = Inr (cache, db)"
    "dbPutUtxoView ?C (cc_viewOrder cfg view) (db_utxoSet db) = Inr b" "view' = commit view"
    "setTip (view_of n) (Some p) = Inr (st_bestChain s')"
    "s' = s\<lparr>st_db := dbRemoveSpendJournalEntry (bn_hash n) (db\<lparr>db_utxoSet := b\<rparr>), st_dirty := [], st_utxoCache := cache,
      st_bestChain := st_bestChain s', st_snapshot := state\<rparr>"
    using disconnectBlock_effect [OF assms(10)] assms(5) by (auto simp: c(1) hash)
  let ?db0 = "dbRemoveBlockIndex (bn_hash n) (bn_height n) (dbPutBestState state (bn_workSum n) ((st_db s)\<lparr>db_statusIndex := si\<rparr>))"
  have db0: "db_blocks ?db0 = db_blocks (st_db s)" "db_utxoSet ?db0 = utxo_bucket s" "db_spendJournal ?db0 = db_spendJournal (st_db s)"
    "best_stored ?db0 p"
    using best_state_put [OF e(1), of "bn_workSum n" "(st_db s)\<lparr>db_statusIndex := si\<rparr>"]
    by (simp_all add: db_effects dbRemoveBlockIndex_def best_stored_def)
  have sh: "shouldFlush FlushRequired ?h (cl_seconds clk) (st_utxoCache s)" by (simp add: shouldFlush_def)
  have f: "bucket_ok ?C (db_utxoSet db)" "coherent ?C (db_utxoSet db) cache" "stored_coins ?C (db_utxoSet db) = node_coins cfg s"
    "dbFetchUtxoStateConsistency db = Some ?h"
    using cache_flush_ok [OF cf(1,2), of ?db0 "st_utxoCache s" FlushRequired ?h "cl_seconds clk"] u(1,2) e(2) sh by (auto simp: db0(2) node_coins_def)
  obtain b0 where db: "db = dbPutUtxoStateConsistency ?h (?db0\<lparr>db_utxoSet := b0\<rparr>)" using flush_form [OF e(2)] sh by blast
  have v: "distinct (map fst (cc_viewOrder cfg view))" "map_of (cc_viewOrder cfg view) = uv_entries view"
    using cf(5) [of view] assms(8) by (simp_all add: view_sound_def)
  have b: "bucket_ok ?C b" "\<And>op. op_ok op \<Longrightarrow> stored_coins ?C b op = view_coins (node_coins cfg s) view op"
    using put_view_coins [OF cf(1) v, of "db_utxoSet db"] assms(8) f(1) e(3) by (auto simp: f(3))
  have bn: "built (cc_dh cfg) n" "built (cc_dh cfg) p" "st_index s ?h = Some p"
    using tree_okD(2,3) [OF assms(2) c(2)] built_parent(2) assms(5) by blast+
  have sc: "stored_coins ?C b = coins"
  proof
    fix op
    show "stored_coins ?C b op = coins op"
    proof (cases "op_ok op")
      case True
      then show ?thesis using b(2) assms(9) by (simp add: agree_def)
    next
      case False
      then have "coins op = None" using coins_at_coin [OF assms(1-3) bn(3) assms(7), of op] by (cases "coins op") (auto simp: coin_storable_def)
      then show ?thesis using False by (simp add: stored_coins_op)
    qed
  qed
  have cc: "coherent ?C b cache" "cache_coins ?C b cache = coins" using flush_erases [OF e(2) f(2)] sc by simp_all
  obtain bc where eq: "s' = s\<lparr>st_db := dbRemoveSpendJournalEntry (bn_hash n) (db\<lparr>db_utxoSet := b\<rparr>), st_dirty := [], st_utxoCache := cache,
      st_bestChain := bc, st_snapshot := state\<rparr>" using e(6) by blast
  have s': "st_db s' = dbRemoveSpendJournalEntry (bn_hash n) (db\<lparr>db_utxoSet := b\<rparr>)" "st_utxoCache s' = cache" "st_snapshot s' = state"
    "st_index s' = st_index s" "st_status s' = st_status s" "st_pool s' = st_pool s"
    by (simp_all add: eq)
  show "st_index s' = st_index s" "st_status s' = st_status s" "st_pool s' = st_pool s" by (rule s')+
  have keep: "db_blocks (st_db s') = db_blocks (st_db s)" "utxo_bucket s' = b"
    "db_spendJournal (st_db s') = fmdrop (bn_hash n) (db_spendJournal (st_db s))" "best_stored (st_db s') p"
    "dbFetchUtxoStateConsistency (st_db s') = Some ?h"
    using db0 f(4) by (auto simp: s'(1) db dbRemoveSpendJournalEntry_def dbPutUtxoStateConsistency_def meta_Put_def best_stored_def key_names dbFetchUtxoStateConsistency_def)
  show "db_blocks (st_db s') = db_blocks (st_db s)" by (rule keep(1))
  show nc: "node_coins cfg s' = coins" using cc(2) by (simp add: node_coins_def keep(2) s'(2))
  have at: "coins_at cfg (st_db s') m = coins_at cfg (st_db s) m" for m by (rule coins_at_cong [OF keep(1)])
  have jn: "journaled cfg (st_db s') (branch p) = journaled cfg (st_db s) (branch p)"
    by (rule journaled_cong [OF keep(1)]) (use n_notin_parent [OF assms(2) c(2) assms(5)] keep(3) in auto)
  have "st_bestChain s' = view_of p"
    using setTip_view [of "cc_dh cfg" "view_of n" p] e(5) bn regularD(1) [OF assms(3) c(2)] regularD(1) [OF assms(3) bn(3)] by (auto simp: view_ok_def)
  moreover have "durable cfg (st_db s') p"
    using keep(2,5) at assms(7) sc last_in_set [of "chain_to p"] unfolding durable_def by (intro bexI [of _ p]) (auto simp: in_chain_to [OF bn(2)])
  ultimately show "chain_ok cfg s' p"
    using c(4) assms(5,7) bn(3) keep cc b(1) e(1) nc at jn by (simp add: chain_ok_def utxo_ok_def s' node_coins_def)
  note vc = view_after_commit [OF assms(8)]
  have es: "entry_sound coins op entry \<and> unspent entry = coins op" if "uv_entries view' op = Some entry" for op entry
  proof -
    have "entry_sound (view_coins (node_coins cfg s) view) op entry" "unspent entry = view_coins (node_coins cfg s) view op"
      using vc(1) that e(4) by simp_all
    moreover from this(1) have "view_coins (node_coins cfg s) view op = coins op" using assms(9) by (simp add: entry_sound_def agree_def)
    ultimately show ?thesis by (cases entry) (simp_all add: entry_sound_def)
  qed
  then show "view_sound coins view'" using vc(2) e(4) by (simp add: view_sound_def)
  show "agree (view_coins coins view') coins" using es by (auto simp: agree_def view_coins_def split: option.split)
qed

subsection \<open>Undoing a block in a view\<close>

lemma stored_storable:
  assumes "config_ok cfg" "tree_ok cfg s" "regular_index cfg s" "st_index s h = Some n" "stored_block (cc_dh cfg) (st_db s) n blk"
  shows "txs_storable (cc_dh cfg) (bn_height n) (ub_Transactions blk)" "ub_Height blk = bn_height n"
proof -
  have r: "small_amounts (ub_Transactions blk)" using regularD(2) [OF assms(3,4)] stored_txs [OF assms(5)] by simp
  have b: "0 \<le> bn_height n" "bn_height n < 2 ^ 31" using built_height [OF tree_okD(2) [OF assms(2,4)]] by simp_all
  show "txs_storable (cc_dh cfg) (bn_height n) (ub_Transactions blk)"
    using block_outputs_storable(1) [OF assms(5) r configD(3) [OF assms(1)] b] stored_ops_ok [OF assms(5) configD(3) [OF assms(1)]]
    by (auto simp: txs_storable_def)
  show "ub_Height blk = bn_height n" using assms(5) fetched_height unfolding stored_block_def by blast
qed

text \<open>Reading outputs through the cache never fails in a good state.\<close>

lemma cache_source_total:
  assumes "config_ok cfg" "utxo_ok cfg s n" "op_ok op"
  shows "\<exists>entry. cache_source cfg s op = Inr entry"
proof (cases "ms_get (uc_cachedEntries (st_utxoCache s)) op")
  case None
  obtain entry where "dbFetchUtxoEntry (cc_curve cfg) (utxo_bucket s) op = Inr entry"
    by (rule db_fetch_ok [OF configD(1) [OF assms(1)] utxo_okD(2) [OF assms(2)] assms(3)])
  then show ?thesis using None by (simp add: cache_source_def fetch_one)
qed (simp add: cache_source_def fetch_one)

lemma fetch_entries_total: "\<forall>op \<in> set ops. \<exists>entry. source op = Inr entry \<Longrightarrow> \<exists>entries. fetch_entries source ops = Inr entries"
  by (induction ops) auto

lemma fetch_inputs_run:
  assumes "config_ok cfg" "utxo_ok cfg s m" "txs_storable (cc_dh cfg) (ub_Height blk) (ub_Transactions blk)" "ub_Transactions blk \<noteq> []"
  shows "\<exists>view' cache. cm_fetchInputUtxos cfg view blk s = Some (Inr view', s\<lparr>st_utxoCache := cache\<rparr>) \<and>
    fetchInputUtxos (cc_dh cfg) (cache_source cfg s) view (block_data blk) = Inr view' \<and>
    utxo_ok cfg (s\<lparr>st_utxoCache := cache\<rparr>) m \<and> node_coins cfg (s\<lparr>st_utxoCache := cache\<rparr>) = node_coins cfg s"
proof -
  have ops: "txs_ops_ok (cc_dh cfg) (bk_Transactions (block_data blk))" using assms(3) by (simp add: txs_storable_def block_data_def)
  obtain cache where cache: "load_inputs cfg view (block_data blk) s = s\<lparr>st_utxoCache := cache\<rparr>" "utxo_ok cfg (s\<lparr>st_utxoCache := cache\<rparr>) m"
    "node_coins cfg (s\<lparr>st_utxoCache := cache\<rparr>) = node_coins cfg s"
    using load_inputs_ok [OF assms(1,2) ops, of view] by (metis (no_types))
  obtain cb txs where t: "ub_Transactions blk = cb # txs" using assms(4) by (cases "ub_Transactions blk") auto
  have bd: "bk_Transactions (block_data blk) = cb # txs" by (simp add: block_data_def t)
  obtain view1 needed where f: "find_inputs (cc_dh cfg) (block_data blk) 0 txs (view, []) = (view1, needed)" by fastforce
  have "op_ok op" if "op \<in> set needed" for op
    using that needed_ops_block [of "cc_dh cfg" "block_data blk" 0 txs view "[]"] assms(3) by (fastforce simp: f t txs_storable_def txs_ops_ok_def)
  then obtain entries where "fetch_entries (cache_source cfg s) needed = Inr entries"
    using fetch_entries_total cache_source_total [OF assms(1,2)] by blast
  then have "\<exists>view'. fetchInputUtxos (cc_dh cfg) (cache_source cfg s) view (block_data blk) = Inr view'"
    using f by (cases "needed = []") (simp_all add: fetchInputUtxos_def findInputsToFetch_def fetchUtxosFromCache_def bd)
  then show ?thesis using cache by (auto simp: cm_fetchInputUtxos_def)
qed

lemma block_details_length: "sane_block dh txs \<Longrightarrow> length (block_details dh h coins txs) = sum_list (map (\<lambda>tx. length (tx_TxIn tx)) (tl txs))"
  by (cases txs) (auto simp: sane_block_def tx_details_def length_block_details)

text \<open>The outputs that a block spent, with them a view goes from the coins after the block to those before it.\<close>

lemma undo_block:
  assumes "config_ok cfg" "tree_ok cfg s" "regular_index cfg s" "utxo_ok cfg s m" "st_index s h = Some n" "bn_parent n = Some p"
    "stored_block (cc_dh cfg) (st_db s) n blk" "coins_at cfg (st_db s) n = Some after" "coins_at cfg (st_db s) p = Some before"
    "agree (view_coins (node_coins cfg s) view) after"
  shows "\<exists>view1 cache view2. cm_fetchInputUtxos cfg view blk s = Some (Inr view1, s\<lparr>st_utxoCache := cache\<rparr>) \<and>
    disconnectTransactions (cc_dh cfg) view1 (block_data blk) (block_details (cc_dh cfg) (bn_height n) before (ub_Transactions blk)) = Inr view2 \<and>
    utxo_ok cfg (s\<lparr>st_utxoCache := cache\<rparr>) m \<and> node_coins cfg (s\<lparr>st_utxoCache := cache\<rparr>) = node_coins cfg s \<and>
    agree (view_coins (node_coins cfg s) view2) before \<and> (view_sound (node_coins cfg s) view \<longrightarrow> view_sound (node_coins cfg s) view2)"
proof -
  let ?txs = "ub_Transactions blk" and ?U = "node_coins cfg s" and ?d = "block_details (cc_dh cfg) (bn_height n) before (ub_Transactions blk)"
  note st = stored_storable [OF assms(1-3,5,7)]
  have sane: "sane_block (cc_dh cfg) ?txs" using assms(7) by (simp add: stored_block_def)
  then have ne: "?txs \<noteq> []" by (simp add: sane_block_def)
  have v: "valid_txs (cc_dh cfg) (bn_height n) before ?txs" "after = apply_txs (cc_dh cfg) (bn_height n) ?txs before"
    using replay_valid [OF assms(8) [unfolded coins_at_def branch_simps(2) [OF assms(6)]] assms(9) [unfolded coins_at_def]] stored_txs [OF assms(7)] by simp_all
  have st': "txs_storable (cc_dh cfg) (ub_Height blk) ?txs" using st by simp
  obtain view1 cache where f: "cm_fetchInputUtxos cfg view blk s = Some (Inr view1, s\<lparr>st_utxoCache := cache\<rparr>)"
    "fetchInputUtxos (cc_dh cfg) (cache_source cfg s) view (block_data blk) = Inr view1"
    "utxo_ok cfg (s\<lparr>st_utxoCache := cache\<rparr>) m" "node_coins cfg (s\<lparr>st_utxoCache := cache\<rparr>) = ?U"
    using fetch_inputs_run [OF assms(1,4) st' ne, of view] by blast
  have bd: "bk_Transactions (block_data blk) = ?txs" "bk_Height (block_data blk) = bn_height n" by (simp_all add: block_data_def st(2))
  have st2: "txs_storable (cc_dh cfg) (bk_Height (block_data blk)) (bk_Transactions (block_data blk))" using st by (simp add: bd)
  note k = fetch_inputs_view [OF assms(1,4) st2 f(2), unfolded bd]
  have "view_coins ?U view1 op = apply_txs (cc_dh cfg) (bn_height n) ?txs before op" if "op_ok op" "op \<notin> block_outs (cc_dh cfg) (bn_height n) ?txs" for op
    using k(3) [OF that] assms(10) that(1) v(2) by (simp add: agree_def)
  from disconnect_block_coins [OF sane v(1) this] obtain view' where
    d: "disconnect_txs (cc_dh cfg) (bn_height n) (rev ?txs) (rev ?d) view1 = Inr view'" "agree (view_coins ?U view') before"
    by (auto simp: agree_def)
  let ?view2 = "SetBestHash view' (bh_PrevBlock (bk_Header (block_data blk)))"
  have run: "disconnectTransactions (cc_dh cfg) view1 (block_data blk) ?d = Inr ?view2"
    using d(1) ne block_details_length [OF sane, of "bn_height n" before]
    by (cases ?txs) (simp_all add: disconnectTransactions_def countSpentOutputs_def bd del: rev.simps disconnect_txs.simps block_details.simps)
  have ix: "st_index s (bn_hash p) = Some p" using tree_okD(3) [OF assms(2,5,6)] .
  have "list_all stxo_ok (rev ?d)"
    using details_storable [OF node_coins_storable [OF assms(1-3) ix assms(9)] v(1)] st(1) by (auto simp: txs_storable_def)
  then have snd: "view_sound ?U view \<longrightarrow> view_sound ?U ?view2"
    using disconnect_sound [OF d(1)] k(1) st(1) by (auto simp: txs_storable_def txs_ops_ok_def)
  have "view_coins ?U ?view2 = view_coins ?U view'" by (simp add: view_coins_def SetBestHash_def fun_eq_iff)
  with f run d(2) snd show ?thesis by (intro exI [of _ view1] exI [of _ cache] exI [of _ ?view2]) simp
qed

subsection \<open>Verifying a reorganization\<close>

text \<open>What the verification of a reorganization may change: it loads entries into the cache and marks nodes.\<close>

definition verified :: "'k chainConfig \<Rightarrow> blockNode \<Rightarrow> chainState \<Rightarrow> chainState \<Rightarrow> bool" where
  "verified cfg t s s' \<longleftrightarrow> st_index s' = st_index s \<and> st_bestChain s' = st_bestChain s \<and> st_db s' = st_db s \<and> st_snapshot s' = st_snapshot s \<and>
     st_pool s' = st_pool s \<and> node_coins cfg s' = node_coins cfg s \<and> utxo_ok cfg s' t \<and> tree_ok cfg s'"

lemma verified_refl: "utxo_ok cfg s t \<Longrightarrow> tree_ok cfg s \<Longrightarrow> verified cfg t s s"
  by (simp add: verified_def)

lemma verified_trans: "verified cfg t s s1 \<Longrightarrow> verified cfg t s1 s2 \<Longrightarrow> verified cfg t s s2"
  by (simp add: verified_def)

lemma verifiedD:
  assumes "verified cfg t s s'"
  shows "st_index s' = st_index s" "st_bestChain s' = st_bestChain s" "st_db s' = st_db s" "st_snapshot s' = st_snapshot s"
    "node_coins cfg s' = node_coins cfg s" "utxo_ok cfg s' t" "tree_ok cfg s'" "regular_index cfg s \<Longrightarrow> regular_index cfg s'"
    "chain_ok cfg s t \<Longrightarrow> chain_ok cfg s' t"
  using assms by (simp_all add: verified_def regular_index_def chain_ok_def)

lemma verified_cache:
  assumes "tree_ok cfg s" "utxo_ok cfg (s\<lparr>st_utxoCache := cache\<rparr>) t" "node_coins cfg (s\<lparr>st_utxoCache := cache\<rparr>) = node_coins cfg s"
  shows "verified cfg t s (s\<lparr>st_utxoCache := cache\<rparr>)"
  using assms tree_ok_cong [OF assms(1), of "s\<lparr>st_utxoCache := cache\<rparr>"] tree_okD(6) [OF assms(1)] by (simp add: verified_def)

text \<open>The blocks that are taken off, with what they spent.\<close>

definition undoes :: "'k chainConfig \<Rightarrow> chainDB \<Rightarrow> blockNode \<Rightarrow> utilBlock \<times> SpentTxOut list \<Rightarrow> bool" where
  "undoes cfg db n b \<longleftrightarrow> stored_block (cc_dh cfg) db n (fst b) \<and>
     (\<exists>p coins. bn_parent n = Some p \<and> coins_at cfg db p = Some coins \<and>
        snd b = block_details (cc_dh cfg) (bn_height n) coins (ub_Transactions (fst b)))"

lemma branch_head:
  assumes "chain_to n = chain_to f @ rev (x # xs)"
  shows "n = x" "\<exists>p. bn_parent x = Some p \<and> chain_to p = chain_to f @ rev xs"
proof -
  show x: "n = x" using assms last_chain_to(2) [of n] by simp
  then show "\<exists>p. bn_parent x = Some p \<and> chain_to p = chain_to f @ rev xs"
    using assms by (cases "bn_parent x") auto
qed

lemma journal_of:
  assumes "tree_ok cfg s" "st_index s h = Some n" "bn_parent n = Some p" "journaled cfg (st_db s) (branch n)" "coins_at cfg (st_db s) p = Some coins"
  shows "\<exists>blk. stored_block (cc_dh cfg) (st_db s) n blk \<and> dbFetchBlockByNode n (st_db s) = Inr blk \<and> BlockHash (cc_dh cfg) (ub_header blk) = bn_hash n \<and>
    dbFetchSpendJournalEntry (cc_curve cfg) (bn_hash n) (ub_Transactions blk) (st_db s) =
      Inr (block_details (cc_dh cfg) (bn_height n) coins (ub_Transactions blk))"
proof -
  obtain blk where blk: "stored_block (cc_dh cfg) (st_db s) n blk" using tree_okD(4) [OF assms(1-3)] by blast
  then have "dbFetchBlockByNode n (st_db s) = Inr blk" "BlockHash (cc_dh cfg) (ub_header blk) = bn_hash n" by (simp_all add: stored_block_def)
  moreover have "dbFetchSpendJournalEntry (cc_curve cfg) (bn_hash n) (ub_Transactions blk) (st_db s) =
      Inr (block_details (cc_dh cfg) (bn_height n) coins (ub_Transactions blk))"
    using assms(4,5) stored_txs [OF blk] by (simp add: assms(3) coins_at_def)
  ultimately show ?thesis using blk by blast
qed

text \<open>Going down to the fork in a view always succeeds, and the view has the coins there.\<close>

lemma verify_detach_run:
  assumes "config_ok cfg"
  shows "tree_ok cfg s \<Longrightarrow> regular_index cfg s \<Longrightarrow> utxo_ok cfg s t \<Longrightarrow> st_index s h = Some n \<Longrightarrow> chain_to n = chain_to f @ rev ns \<Longrightarrow>
    journaled cfg (st_db s) (branch n) \<Longrightarrow> coins_at cfg (st_db s) n = Some after \<Longrightarrow> agree (view_coins (node_coins cfg s) view) after \<Longrightarrow>
    \<exists>blocks view' s' coins. verify_detach cfg ns view s = Some (Inr (blocks, view'), s') \<and> verified cfg t s s' \<and>
      list_all2 (undoes cfg (st_db s)) ns blocks \<and> coins_at cfg (st_db s) f = Some coins \<and> agree (view_coins (node_coins cfg s) view') coins"
proof (induction ns arbitrary: n h s view after)
  case Nil
  then have "n = f" by (metis append_Nil2 last_chain_to(2) rev.simps(1))
  with Nil show ?case by (simp add: verified_refl)
next
  case (Cons x xs)
  obtain p where p: "n = x" "bn_parent n = Some p" "chain_to p = chain_to f @ rev xs" using branch_head [OF Cons.prems(5)] by auto
  have "chain_to n = chain_to p @ [n]" using p(2) by simp
  then obtain before where before: "coins_at cfg (st_db s) p = Some before"
    using coins_at_below [of cfg "st_db s" n p "[n]"] Cons.prems(7) by auto
  obtain blk where blk: "stored_block (cc_dh cfg) (st_db s) n blk" "dbFetchBlockByNode n (st_db s) = Inr blk"
    "BlockHash (cc_dh cfg) (ub_header blk) = bn_hash n"
    "dbFetchSpendJournalEntry (cc_curve cfg) (bn_hash n) (ub_Transactions blk) (st_db s) =
      Inr (block_details (cc_dh cfg) (bn_height n) before (ub_Transactions blk))"
    using journal_of [OF Cons.prems(1,4) p(2) Cons.prems(6) before] by blast
  obtain view1 cache view2 where u: "cm_fetchInputUtxos cfg view blk s = Some (Inr view1, s\<lparr>st_utxoCache := cache\<rparr>)"
    "disconnectTransactions (cc_dh cfg) view1 (block_data blk) (block_details (cc_dh cfg) (bn_height n) before (ub_Transactions blk)) = Inr view2"
    "utxo_ok cfg (s\<lparr>st_utxoCache := cache\<rparr>) t" "node_coins cfg (s\<lparr>st_utxoCache := cache\<rparr>) = node_coins cfg s"
    "agree (view_coins (node_coins cfg s) view2) before"
    using undo_block [OF assms Cons.prems(1-4) p(2) blk(1) Cons.prems(7) before Cons.prems(8)] by blast
  let ?s1 = "s\<lparr>st_utxoCache := cache\<rparr>"
  have v1: "verified cfg t s ?s1" by (rule verified_cache [OF Cons.prems(1) u(3,4)])
  note d = verifiedD [OF v1]
  have ix: "st_index ?s1 (bn_hash p) = Some p" using tree_okD(3) [OF Cons.prems(1,4) p(2)] by simp
  have j: "journaled cfg (st_db ?s1) (branch p)" using Cons.prems(6) by (simp add: p(2))
  have b1: "coins_at cfg (st_db ?s1) p = Some before" "agree (view_coins (node_coins cfg ?s1) view2) before" using before u(4,5) by simp_all
  obtain blocks view' s' coins where r: "verify_detach cfg xs view2 ?s1 = Some (Inr (blocks, view'), s')" "verified cfg t ?s1 s'"
    "list_all2 (undoes cfg (st_db ?s1)) xs blocks" "coins_at cfg (st_db ?s1) f = Some coins" "agree (view_coins (node_coins cfg ?s1) view') coins"
    using Cons.IH [OF d(7) d(8) [OF Cons.prems(2)] d(6) ix p(3) j b1] by blast
  let ?b = "(blk, block_details (cc_dh cfg) (bn_height n) before (ub_Transactions blk))"
  have "verify_detach cfg (x # xs) view s = Some (Inr (?b # blocks, view'), s')"
    using u(1,2) r(1) blk(2-4) by (simp add: p(1) [symmetric] cm_bind_Inr cm_guard_def)
  moreover have "undoes cfg (st_db s) x ?b" using blk(1) before p(1,2) by (auto simp: undoes_def)
  ultimately show ?case using r(3-5) verified_trans [OF v1 r(2)] u(4)
    by (intro exI [of _ "?b # blocks"] exI [of _ view'] exI [of _ s'] exI [of _ coins]) simp
qed

lemma verified_mark:
  assumes "tree_ok cfg s" "utxo_ok cfg s t" "\<And>m. KnownValid (st m) \<Longrightarrow> KnownValid (st_status s m) \<or> coins_at cfg (st_db s) m \<noteq> None"
  shows "verified cfg t s (mark_dirty ns (s\<lparr>st_status := st\<rparr>))"
proof -
  let ?s = "mark_dirty ns (s\<lparr>st_status := st\<rparr>)"
  have f: "st_index ?s = st_index s" "st_bestChain ?s = st_bestChain s" "st_db ?s = st_db s" "st_snapshot ?s = st_snapshot s" "st_pool ?s = st_pool s"
    "st_utxoCache ?s = st_utxoCache s" by (simp_all add: mark_dirty_def)
  have "tree_ok cfg ?s"
    by (rule same_chain_tree [OF set_flags_chain assms(1)]) (use assms(3) in simp)
  then show ?thesis using assms(2) by (simp add: verified_def f node_coins_def utxo_ok_def)
qed

lemma set_flags_verified:
  assumes "tree_ok cfg s" "utxo_ok cfg s t" "w = statusValid \<and> coins_at cfg (st_db s) n \<noteq> None \<or> w = statusValidateFailed \<or> w = statusInvalidAncestor"
    "set_flags n w s = Some (r, s')"
  shows "r = Inr ()" "verified cfg t s s'"
proof -
  have r: "r = Inr ()" "s' = mark_dirty [n] (s\<lparr>st_status := SetStatusFlags (st_status s) n w\<rparr>)" using assms(4) by (simp_all add: set_flags_run)
  show "r = Inr ()" by (rule r(1))
  show "verified cfg t s s'" unfolding r(2)
    by (rule verified_mark [OF assms(1,2)]) (use assms(3) in \<open>auto simp: SetStatusFlags_def status_bits split: if_splits\<close>)
qed

lemma mark_descendants_verified: "tree_ok cfg s \<Longrightarrow> utxo_ok cfg s t \<Longrightarrow> \<exists>s'. mark_descendants ns s = Some (Inr (), s') \<and> verified cfg t s s'"
proof (induction ns arbitrary: s)
  case Nil
  then show ?case by (simp add: verified_refl)
next
  case (Cons n ns)
  obtain s1 where s1: "set_flags n statusInvalidAncestor s = Some (Inr (), s1)" by (simp add: set_flags_run)
  then have v: "verified cfg t s s1" using set_flags_verified(2) [OF Cons.prems] by blast
  from Cons.IH [OF verifiedD(7) [OF v] verifiedD(6) [OF v]] s1 verified_trans [OF v] show ?case by (auto simp: cm_bind_Inr)
qed

text \<open>The view after a block that is known to be allowed.\<close>

lemma redo_block:
  assumes "config_ok cfg" "tree_ok cfg s" "regular_index cfg s" "utxo_ok cfg s t" "st_index s h = Some n" "bn_parent n = Some p"
    "stored_block (cc_dh cfg) (st_db s) n blk" "coins_at cfg (st_db s) n = Some after" "coins_at cfg (st_db s) p = Some before"
    "agree (view_coins (node_coins cfg s) view) before"
  shows "\<exists>view1 cache. cm_fetchInputUtxos cfg view blk s = Some (Inr view1, s\<lparr>st_utxoCache := cache\<rparr>) \<and>
    verified cfg t s (s\<lparr>st_utxoCache := cache\<rparr>) \<and>
    (\<forall>view2 stxos. connectTransactions (cc_dh cfg) view1 (block_data blk) [] = Inr (view2, stxos) \<longrightarrow> agree (view_coins (node_coins cfg s) view2) after)"
proof -
  let ?txs = "ub_Transactions blk" and ?U = "node_coins cfg s"
  note st = stored_storable [OF assms(1-3,5,7)]
  have ne: "?txs \<noteq> []" using assms(7) by (simp add: stored_block_def sane_block_def)
  have a: "after = apply_txs (cc_dh cfg) (bn_height n) ?txs before"
    using replay_valid [OF assms(8) [unfolded coins_at_def branch_simps(2) [OF assms(6)]] assms(9) [unfolded coins_at_def]] stored_txs [OF assms(7)] by simp
  have st': "txs_storable (cc_dh cfg) (ub_Height blk) ?txs" using st by simp
  obtain view1 cache where f: "cm_fetchInputUtxos cfg view blk s = Some (Inr view1, s\<lparr>st_utxoCache := cache\<rparr>)"
    "fetchInputUtxos (cc_dh cfg) (cache_source cfg s) view (block_data blk) = Inr view1"
    "utxo_ok cfg (s\<lparr>st_utxoCache := cache\<rparr>) t" "node_coins cfg (s\<lparr>st_utxoCache := cache\<rparr>) = ?U"
    using fetch_inputs_run [OF assms(1,4) st' ne, of view] by blast
  have bd: "bk_Transactions (block_data blk) = ?txs" "bk_Height (block_data blk) = bn_height n" by (simp_all add: block_data_def st(2))
  have st2: "txs_storable (cc_dh cfg) (bk_Height (block_data blk)) (bk_Transactions (block_data blk))" using st by (simp add: bd)
  note k = fetch_inputs_view(3) [OF assms(1,4) st2 f(2), unfolded bd]
  have "agree (view_coins ?U view2) after" if c: "connectTransactions (cc_dh cfg) view1 (block_data blk) [] = Inr (view2, stxos)" for view2 stxos
  proof -
    obtain v where v: "connect_txs (cc_dh cfg) (bn_height n) ?txs view1 [] = Inr (v, stxos)" "view_coins ?U view2 = view_coins ?U v"
      using c by (auto simp: connectTransactions_def sbind_eq_Inr bd view_coins_def SetBestHash_def fun_eq_iff)
    have "view_coins ?U view2 = apply_txs (cc_dh cfg) (bn_height n) ?txs (view_coins ?U view1)" using connect_txs_coins [OF v(1), of ?U] v(2) by simp
    moreover have "view_coins ?U view1 op = before op \<or> op \<in> block_outs (cc_dh cfg) (bn_height n) ?txs" if "op_ok op" for op
      using k [OF that, of "bn_height n"] assms(10) that by (auto simp: agree_def)
    ultimately show ?thesis using apply_outs unfolding agree_def a by metis
  qed
  then show ?thesis using f(1) verified_cache [OF assms(2) f(3,4)] by blast
qed

text \<open>Going up: nothing but marks and the cache changes, and after success every block above the fork is allowed.\<close>

lemma verify_attach_ok:
  assumes "config_ok cfg"
  shows "tree_ok cfg s \<Longrightarrow> regular_index cfg s \<Longrightarrow> utxo_ok cfg s t \<Longrightarrow> st_index s h = Some n \<Longrightarrow> chain_to n = chain_to f @ ns \<Longrightarrow>
    coins_at cfg (st_db s) f = Some coins \<Longrightarrow> agree (view_coins (node_coins cfg s) view) coins \<Longrightarrow> verify_attach cfg ns view s = Some (r, s') \<Longrightarrow>
    verified cfg t s s' \<and> (\<forall>blocks. r = Inr blocks \<longrightarrow> list_all2 (stored_block (cc_dh cfg) (st_db s)) ns blocks \<and> coins_at cfg (st_db s) n \<noteq> None)"
proof (induction ns arbitrary: f s view coins r)
  case Nil
  then have "n = f" by (metis append_Nil2 last_chain_to(2))
  with Nil show ?case by (simp add: verified_refl)
next
  case (Cons x xs)
  have bn: "built (cc_dh cfg) n" using tree_okD(2) [OF Cons.prems(1,4)] .
  note st = chain_step [OF bn Cons.prems(5)]
  have ix: "st_index s (bn_hash x) = Some x" using chain_indexed [OF Cons.prems(1,4) st(3)] .
  obtain blk where blk: "stored_block (cc_dh cfg) (st_db s) x blk" using tree_okD(4) [OF Cons.prems(1) ix st(1)] by blast
  then have fb: "dbFetchBlockByNode x (st_db s) = Inr blk" by (simp add: stored_block_def)
  let ?mid = "\<lambda>s. if KnownValid (st_status s x)
       then cm_bind (cm_fetchInputUtxos cfg view blk) (\<lambda>view.
              cm_lift fromRules (sbind (connectTransactions (cc_dh cfg) view (block_data blk) []) (\<lambda>(view, _). Inr view))) s
       else cm_bind (cm_checkConnectBlock cfg x blk view) (\<lambda>r.
              case r of
                Inl (ruleError c) \<Rightarrow>
                  cm_bind (set_flags x statusValidateFailed) (\<lambda>_. cm_bind (mark_descendants xs) (\<lambda>_. cm_throw (fromRules (ruleError c))))
              | Inl e \<Rightarrow> cm_throw (fromRules e)
              | Inr view \<Rightarrow> cm_bind (set_flags x statusValid) (\<lambda>_. cm_return view)) s"
  have mid: "verified cfg t s s1 \<and> (\<forall>view2. v = Inr view2 \<longrightarrow>
      (\<exists>coins'. coins_at cfg (st_db s) x = Some coins' \<and> agree (view_coins (node_coins cfg s) view2) coins'))" if m: "?mid s = Some (v, s1)" for v s1
  proof (cases "KnownValid (st_status s x)")
    case True
    obtain coins' where at: "coins_at cfg (st_db s) x = Some coins'" using tree_okD(6) [OF Cons.prems(1) ix True] by blast
    obtain view1 cache where f: "cm_fetchInputUtxos cfg view blk s = Some (Inr view1, s\<lparr>st_utxoCache := cache\<rparr>)"
      "verified cfg t s (s\<lparr>st_utxoCache := cache\<rparr>)"
      "\<And>view2 stxos. connectTransactions (cc_dh cfg) view1 (block_data blk) [] = Inr (view2, stxos) \<Longrightarrow> agree (view_coins (node_coins cfg s) view2) coins'"
      using redo_block [OF assms Cons.prems(1-3) ix st(1) blk at Cons.prems(6,7)] by blast
    from m True f(1) have "cm_lift fromRules (sbind (connectTransactions (cc_dh cfg) view1 (block_data blk) []) (\<lambda>(view, _). Inr view))
        (s\<lparr>st_utxoCache := cache\<rparr>) = Some (v, s1)" by (simp add: cm_bind_def)
    then show ?thesis using f(2,3) at by (cases "connectTransactions (cc_dh cfg) view1 (block_data blk) []") auto
  next
    case False
    obtain r1 s0 where check: "cm_checkConnectBlock cfg x blk view s = Some (r1, s0)"
      and rest: "(\<exists>e. r1 = Inl e \<and> v = Inl e \<and> s1 = s0) \<or> (\<exists>w. r1 = Inr w \<and>
        (case w of
           Inl (ruleError c) \<Rightarrow> cm_bind (set_flags x statusValidateFailed) (\<lambda>_. cm_bind (mark_descendants xs) (\<lambda>_. cm_throw (fromRules (ruleError c))))
         | Inl e \<Rightarrow> cm_throw (fromRules e)
         | Inr view \<Rightarrow> cm_bind (set_flags x statusValid) (\<lambda>_. cm_return view)) s0 = Some (v, s1))"
      using m unfolding if_not_P [OF False] cm_bind_iff [of "cm_checkConnectBlock cfg x blk view"] by blast
    note run = cm_check_run [OF assms Cons.prems(1-3) ix st(1) blk Cons.prems(6,7) check]
    obtain cache caches where s0: "s0 = s\<lparr>st_utxoCache := cache, st_caches := caches\<rparr>" "utxo_ok cfg s0 t" "node_coins cfg s0 = node_coins cfg s"
      using run(1) by blast
    have v0: "verified cfg t s s0"
      using s0 tree_ok_cong [OF Cons.prems(1), of s0] tree_okD(6) [OF Cons.prems(1)] by (auto simp: verified_def)
    obtain w where w: "r1 = Inr w" using run(3) by blast
    show ?thesis
    proof (cases w)
      case (Inr view2)
      then have e: "cm_bind (set_flags x statusValid) (\<lambda>_. cm_return view2) s0 = Some (v, s1)" using rest w by simp
      obtain coins' where at: "coins_at cfg (st_db s) x = Some coins'" "agree (view_coins (node_coins cfg s) view2) coins'"
        using run(2) [of view2] w Inr by auto
      then have "coins_at cfg (st_db s0) x \<noteq> None" using verifiedD(3) [OF v0] by simp
      then have "verified cfg t s0 s1 \<and> v = Inr view2"
        using e set_flags_verified [OF verifiedD(7) [OF v0] verifiedD(6) [OF v0], of statusValid x] by (auto simp: cm_bind_iff)
      then show ?thesis using at verified_trans [OF v0] by auto
    next
      case (Inl e)
      show ?thesis
      proof (cases "\<exists>c. e = ruleError c")
        case True
        then obtain c where e: "cm_bind (set_flags x statusValidateFailed) (\<lambda>_. cm_bind (mark_descendants xs) (\<lambda>_. cm_throw (fromRules (ruleError c)))) s0 = Some (v, s1)"
          using rest w Inl by auto
        obtain s2 where s2: "set_flags x statusValidateFailed s0 = Some (Inr (), s2)" by (simp add: set_flags_run)
        have v2: "verified cfg t s0 s2" using set_flags_verified(2) [OF verifiedD(7) [OF v0] verifiedD(6) [OF v0] _ s2] by simp
        obtain s3 where "mark_descendants xs s2 = Some (Inr (), s3)" "verified cfg t s2 s3"
          using mark_descendants_verified [OF verifiedD(7) [OF v2] verifiedD(6) [OF v2], of xs] by blast
        then have "s1 = s3 \<and> v = Inl (fromRules (ruleError c)) \<and> verified cfg t s s3"
          using e s2 verified_trans [OF v0 verified_trans [OF v2]] by (auto simp: cm_bind_iff)
        then show ?thesis by simp
      next
        case False
        then have "s1 = s0 \<and> (\<exists>d. v = Inl d)" using rest w Inl by (cases e) auto
        then show ?thesis using v0 by auto
      qed
    qed
  qed
  have "verify_attach cfg (x # xs) view s = cm_bind ?mid (\<lambda>view. cm_bind (verify_attach cfg xs view) (\<lambda>blocks. cm_return (blk # blocks))) s"
    by (simp add: cm_bind_def cm_lift_def cm_return_def fb)
  then have "cm_bind ?mid (\<lambda>view. cm_bind (verify_attach cfg xs view) (\<lambda>blocks. cm_return (blk # blocks))) s = Some (r, s')"
    using Cons.prems(8) by (simp only:)
  then consider (fail) e where "?mid s = Some (Inl e, s')" "r = Inl e"
    | (go) view2 s1 where "?mid s = Some (Inr view2, s1)" "cm_bind (verify_attach cfg xs view2) (\<lambda>blocks. cm_return (blk # blocks)) s1 = Some (r, s')"
    unfolding cm_bind_iff [of ?mid] by blast
  then show ?case
  proof cases
    case fail
    then show ?thesis using mid by blast
  next
    case go
    obtain coins' where v1: "verified cfg t s s1" and c1: "coins_at cfg (st_db s) x = Some coins'" "agree (view_coins (node_coins cfg s) view2) coins'"
      using mid [OF go(1)] by blast
    note d = verifiedD [OF v1]
    obtain r' where r': "verify_attach cfg xs view2 s1 = Some (r', s')" "\<And>blocks. r = Inr blocks \<Longrightarrow> \<exists>bs. r' = Inr bs \<and> blocks = blk # bs"
      using go(2) by (auto simp: cm_bind_iff)
    have ih: "st_index s1 h = Some n" "coins_at cfg (st_db s1) x = Some coins'" "agree (view_coins (node_coins cfg s1) view2) coins'"
      using Cons.prems(4) c1 d(1,3,5) by simp_all
    from Cons.IH [OF d(7) d(8) [OF Cons.prems(2)] d(6) ih(1) st(2) ih(2,3) r'(1)] have
      "verified cfg t s1 s'" "\<And>bs. r' = Inr bs \<Longrightarrow> list_all2 (stored_block (cc_dh cfg) (st_db s)) xs bs \<and> coins_at cfg (st_db s) n \<noteq> None"
      using d(3) by auto
    then show ?thesis using verified_trans [OF v1] r'(2) blk by auto
  qed
qed

lemma verify_reorganization:
  assumes "config_ok cfg" "tree_ok cfg s" "regular_index cfg s" "chain_ok cfg s t" "st_index s h = Some n"
    "chain_to t = chain_to f @ rev ds" "chain_to n = chain_to f @ as" "verifyReorganizationValidity cfg ds as s = Some (r, s')"
  shows "verified cfg t s s'"
    "r = Inr (detached, attached) \<Longrightarrow> list_all2 (undoes cfg (st_db s)) ds detached \<and> list_all2 (stored_block (cc_dh cfg) (st_db s)) as attached \<and>
       coins_at cfg (st_db s) n \<noteq> None"
proof -
  note c = chain_okD [OF assms(4)]
  note u = utxo_okD [OF c(3)]
  let ?Q = "verified cfg t s s' \<and> (r = Inr (detached, attached) \<longrightarrow> list_all2 (undoes cfg (st_db s)) ds detached \<and>
       list_all2 (stored_block (cc_dh cfg) (st_db s)) as attached \<and> coins_at cfg (st_db s) n \<noteq> None)"
  have ?Q
  proof (cases "ds = [] \<and> as = []")
    case True
    then have "n = t" using assms(6,7) last_chain_to(2) by (metis append_Nil2 rev.simps(1))
    then show ?thesis using True assms(2,8) c(3) u(3) verified_refl by (auto simp: verifyReorganizationValidity_def)
  next
    case False
    let ?view = "SetBestHash NewUtxoViewpoint (bn_hash t)"
    have new: "view_coins U ?view = U" for U by (simp add: view_coins_def SetBestHash_def NewUtxoViewpoint_def fun_eq_iff)
    have agree: "agree (view_coins (node_coins cfg s) ?view) (node_coins cfg s)" by (simp add: new)
    obtain detached' view s1 coins where d: "verify_detach cfg ds ?view s = Some (Inr (detached', view), s1)" "verified cfg t s s1"
      "list_all2 (undoes cfg (st_db s)) ds detached'" "coins_at cfg (st_db s) f = Some coins" "agree (view_coins (node_coins cfg s) view) coins"
      using verify_detach_run [OF assms(1-3) c(3,2) assms(6) c(4) u(3) agree] by blast
    note v = verifiedD [OF d(2)]
    have tip: "view_tip (st_bestChain s) = Some t" by (simp add: c(1) view_tip_view)
    let ?rest = "cm_bind (verify_attach cfg as view) (\<lambda>attachBlocks. cm_return (detached', attachBlocks)) s1"
    have "(\<exists>e. r = Inl e \<and> s' = s) \<or> ?rest = Some (r, s')"
      using assms(8) False tip d(1) by (auto simp: verifyReorganizationValidity_def cm_bind_def cm_deref_def cm_guard_def cm_return_def cm_throw_def
          split: if_splits option.splits)
    then show ?thesis
    proof
      assume "\<exists>e. r = Inl e \<and> s' = s"
      then show ?thesis using verified_refl [OF c(3) assms(2)] by auto
    next
      assume "?rest = Some (r, s')"
      then obtain r' where r': "verify_attach cfg as view s1 = Some (r', s')" "r = Inr (detached, attached) \<Longrightarrow> r' = Inr attached \<and> detached = detached'"
        by (auto simp: cm_bind_iff)
      have x: "st_index s1 h = Some n" "coins_at cfg (st_db s1) f = Some coins" "agree (view_coins (node_coins cfg s1) view) coins"
        using assms(5) d(4,5) v(1,3,5) by simp_all
      from verify_attach_ok [OF assms(1) v(7) v(8) [OF assms(3)] v(6) x(1) assms(7) x(2,3) r'(1)]
      show ?thesis using verified_trans [OF d(2)] r'(2) d(3) v(3) by auto
    qed
  qed
  then show "verified cfg t s s'"
    "r = Inr (detached, attached) \<Longrightarrow> list_all2 (undoes cfg (st_db s)) ds detached \<and> list_all2 (stored_block (cc_dh cfg) (st_db s)) as attached \<and>
       coins_at cfg (st_db s) n \<noteq> None" by simp_all
qed

subsection \<open>Taking blocks off and putting blocks on\<close>

lemma undoes_cong:
  assumes "db_blocks db' = db_blocks db"
  shows "undoes cfg db' = undoes cfg db"
  by (rule ext, rule ext) (simp only: undoes_def same_blocks(1) [OF assms] coins_at_cong [OF assms])

text \<open>Errors that are not the verdict of a rule.\<close>

definition no_verdict :: "((chain_error + 'a) \<times> chainState) option \<Rightarrow> bool" where
  "no_verdict r \<longleftrightarrow> (\<forall>e s'. r = Some (Inl e, s') \<longrightarrow> \<not> is_RuleError e)"

lemma no_verdict_bind: "no_verdict (m s) \<Longrightarrow> (\<And>x s1. no_verdict (f x s1)) \<Longrightarrow> no_verdict (cm_bind m f s)"
  unfolding no_verdict_def cm_bind_iff by blast

lemma no_verdict_steps:
  "no_verdict (Some (Inr x, s))" "no_verdict (cm_return x s)" "no_verdict (cm_update f s)" "no_verdict (cm_lift fromDB d s)" "no_verdict (cm_lift fromGo g s)"
  "no_verdict (cm_deref q s)" "no_verdict (cm_guard b (fromRules assertError) s)" "no_verdict (flushToDB s)" "no_verdict (cm_Update h s)"
  "no_verdict (warn_rules cfg n s)" "no_verdict (cm_lift fromRules (countSpentOutputs blk) s)"
  by (auto simp: no_verdict_def is_RuleError_def cm_return_def cm_update_def cm_lift_def cm_throw_def cm_deref_def cm_guard_def flushToDB_def cm_Update_def
      warn_rules_def countSpentOutputs_def split: sum.splits option.splits if_splits prod.splits list.splits)

lemma no_verdict_if: "no_verdict x \<Longrightarrow> no_verdict y \<Longrightarrow> no_verdict (if b then x else y)" "no_verdict (m s) \<Longrightarrow> no_verdict (m' s) \<Longrightarrow> no_verdict ((if b then m else m') s)"
  by simp_all

lemma no_verdict_connect: "no_verdict (connectBlock cfg clk n blk stxos s)"
  unfolding connectBlock_def Let_def
  by (intro no_verdict_bind no_verdict_steps no_verdict_if)

lemma no_verdict_disconnect: "no_verdict (disconnectBlock cfg clk n blk view s)"
  unfolding disconnectBlock_def Let_def
  by (intro no_verdict_bind no_verdict_steps)

text \<open>What stays when the best chain moves.\<close>

definition same_tree :: "'k chainConfig \<Rightarrow> chainState \<Rightarrow> chainState \<Rightarrow> bool" where
  "same_tree cfg s s' \<longleftrightarrow> st_index s' = st_index s \<and> db_blocks (st_db s') = db_blocks (st_db s) \<and> tree_ok cfg s' \<and> regular_index cfg s'"

lemma same_treeD:
  assumes "same_tree cfg s s'"
  shows "st_index s' = st_index s" "db_blocks (st_db s') = db_blocks (st_db s)" "tree_ok cfg s'" "regular_index cfg s'"
    "coins_at cfg (st_db s') n = coins_at cfg (st_db s) n" "stored_block dh (st_db s') n blk = stored_block dh (st_db s) n blk"
    "undoes cfg (st_db s') = undoes cfg (st_db s)"
proof -
  show "st_index s' = st_index s" "tree_ok cfg s'" "regular_index cfg s'" using assms by (simp_all add: same_tree_def)
  show b: "db_blocks (st_db s') = db_blocks (st_db s)" using assms by (simp add: same_tree_def)
  show "coins_at cfg (st_db s') n = coins_at cfg (st_db s) n" by (rule coins_at_cong [OF b])
  show "stored_block dh (st_db s') n blk = stored_block dh (st_db s) n blk" by (rule same_blocks(1) [OF b])
  show "undoes cfg (st_db s') = undoes cfg (st_db s)" by (rule undoes_cong [OF b])
qed

lemma same_tree_trans: "same_tree cfg s s1 \<Longrightarrow> same_tree cfg s1 s2 \<Longrightarrow> same_tree cfg s s2"
  by (simp add: same_tree_def)

lemma same_tree_moved:
  assumes "tree_ok cfg s" "regular_index cfg s" "st_index s' = st_index s" "st_status s' = st_status s" "db_blocks (st_db s') = db_blocks (st_db s)"
  shows "same_tree cfg s s'"
  using tree_ok_cong [OF assms(1,3,5)] tree_okD(6) [OF assms(1)] regular_index_cong [OF assms(2,3,5)] by (simp add: same_tree_def assms(3-5))

lemma verified_same_tree: "verified cfg t s s' \<Longrightarrow> regular_index cfg s \<Longrightarrow> same_tree cfg s s'"
  using verifiedD [of cfg t s s'] by (simp add: same_tree_def)

lemma detach_blocks_ok:
  assumes "config_ok cfg"
  shows "tree_ok cfg s \<Longrightarrow> regular_index cfg s \<Longrightarrow> chain_ok cfg s n \<Longrightarrow> chain_to n = chain_to f @ rev ns \<Longrightarrow> list_all2 (undoes cfg (st_db s)) ns blocks \<Longrightarrow>
    view_sound (node_coins cfg s) view \<Longrightarrow> agree (view_coins (node_coins cfg s) view) (node_coins cfg s) \<Longrightarrow>
    detach_blocks cfg clk (zip ns blocks) view s = Some (r, s') \<Longrightarrow>
    (case r of Inr _ \<Rightarrow> chain_ok cfg s' f \<and> same_tree cfg s s' | Inl e \<Rightarrow> \<not> is_RuleError e)"
proof (induction ns arbitrary: n s view blocks)
  case Nil
  then have "n = f" by (metis append_Nil2 last_chain_to(2) rev.simps(1))
  with Nil show ?case using same_tree_moved [of cfg s s] by simp
next
  case (Cons x xs)
  obtain p where p: "n = x" "bn_parent n = Some p" "chain_to p = chain_to f @ rev xs" using branch_head [OF Cons.prems(4)] by auto
  obtain b bs where b: "blocks = b # bs" "undoes cfg (st_db s) n b" "list_all2 (undoes cfg (st_db s)) xs bs"
    using Cons.prems(5) p(1) by (cases blocks) auto
  obtain blk where blk: "stored_block (cc_dh cfg) (st_db s) n blk" and bb: "fst b = blk" using b(2) by (auto simp: undoes_def)
  obtain before where before: "coins_at cfg (st_db s) p = Some before"
    "b = (blk, block_details (cc_dh cfg) (bn_height n) before (ub_Transactions blk))"
    using b(2) bb p(2) by (cases b) (auto simp: undoes_def)
  note c = chain_okD [OF Cons.prems(3)]
  note u = utxo_okD [OF c(3)]
  obtain view1 cache view2 where q: "cm_fetchInputUtxos cfg view blk s = Some (Inr view1, s\<lparr>st_utxoCache := cache\<rparr>)"
    "disconnectTransactions (cc_dh cfg) view1 (block_data blk) (block_details (cc_dh cfg) (bn_height n) before (ub_Transactions blk)) = Inr view2"
    "utxo_ok cfg (s\<lparr>st_utxoCache := cache\<rparr>) n" "node_coins cfg (s\<lparr>st_utxoCache := cache\<rparr>) = node_coins cfg s"
    "agree (view_coins (node_coins cfg s) view2) before" "view_sound (node_coins cfg s) view2"
    using undo_block [OF assms Cons.prems(1,2) c(3,2) p(2) blk u(3) before(1) Cons.prems(7)] Cons.prems(6) by blast
  let ?s1 = "s\<lparr>st_utxoCache := cache\<rparr>"
  have v1: "verified cfg n s ?s1" by (rule verified_cache [OF Cons.prems(1) q(3,4)])
  note v = verifiedD [OF v1]
  have "cm_bind (disconnectBlock cfg clk n blk view2) (\<lambda>view. detach_blocks cfg clk (zip xs bs) view) ?s1 = Some (r, s')"
    using Cons.prems(8) q(1,2) by (simp add: b(1) before(2) p(1) [symmetric] cm_bind_def cm_return_def)
  then consider (fail) e where "disconnectBlock cfg clk n blk view2 ?s1 = Some (Inl e, s')" "r = Inl e"
    | (go) view' s2 where "disconnectBlock cfg clk n blk view2 ?s1 = Some (Inr view', s2)" "detach_blocks cfg clk (zip xs bs) view' s2 = Some (r, s')"
    unfolding cm_bind_iff by blast
  then show ?case
  proof cases
    case fail
    then show ?thesis using no_verdict_disconnect [of cfg clk n blk view2 ?s1] by (auto simp: no_verdict_def)
  next
    case go
    have x: "stored_block (cc_dh cfg) (st_db ?s1) n blk" "coins_at cfg (st_db ?s1) p = Some before" "view_sound (node_coins cfg ?s1) view2"
      "agree (view_coins (node_coins cfg ?s1) view2) before" using blk before(1) q(4-6) by simp_all
    note d = disconnect_block [OF assms v(7) v(8) [OF Cons.prems(2)] v(9) [OF Cons.prems(3)] p(2) x go(1)]
    have t2: "same_tree cfg s s2"
      by (rule same_tree_trans [OF verified_same_tree [OF v1 Cons.prems(2)] same_tree_moved [OF v(7) v(8) [OF Cons.prems(2)] d(2,3,4)]])
    note t = same_treeD [OF t2]
    have y: "list_all2 (undoes cfg (st_db s2)) xs bs" "view_sound (node_coins cfg s2) view'" "agree (view_coins (node_coins cfg s2) view') (node_coins cfg s2)"
      using b(3) d(6-8) by (simp_all add: t(7))
    from Cons.IH [OF t(3,4) d(1) p(3) y go(2)] same_tree_trans [OF t2] show ?thesis by (auto split: sum.splits)
  qed
qed

lemma attach_blocks_ok:
  assumes "config_ok cfg"
  shows "tree_ok cfg s \<Longrightarrow> regular_index cfg s \<Longrightarrow> chain_ok cfg s f \<Longrightarrow> st_index s h = Some n \<Longrightarrow> chain_to n = chain_to f @ ns \<Longrightarrow>
    list_all2 (stored_block (cc_dh cfg) (st_db s)) ns blocks \<Longrightarrow> coins_at cfg (st_db s) n \<noteq> None \<Longrightarrow>
    attach_blocks cfg clk (zip ns blocks) s = Some (r, s') \<Longrightarrow>
    (case r of Inr _ \<Rightarrow> chain_ok cfg s' n \<and> same_tree cfg s s' | Inl e \<Rightarrow> \<not> is_RuleError e)"
proof (induction ns arbitrary: f s blocks)
  case Nil
  then have "n = f" by (metis append_Nil2 last_chain_to(2))
  with Nil show ?case using same_tree_moved [of cfg s s] by simp
next
  case (Cons x xs)
  note st = chain_step [OF tree_okD(2) [OF Cons.prems(1,4)] Cons.prems(5)]
  have ix: "st_index s (bn_hash x) = Some x" using chain_indexed [OF Cons.prems(1,4) st(3)] .
  obtain blk bs where b: "blocks = blk # bs" "stored_block (cc_dh cfg) (st_db s) x blk" "list_all2 (stored_block (cc_dh cfg) (st_db s)) xs bs"
    using Cons.prems(6) by (cases blocks) auto
  obtain coins where at: "coins_at cfg (st_db s) x = Some coins" using coins_at_below [OF Cons.prems(7) st(2)] by auto
  obtain cache where con: "cm_connectTransactions cfg blk s =
      Some (Inr (block_details (cc_dh cfg) (bn_height x) (node_coins cfg s) (ub_Transactions blk)), s\<lparr>st_utxoCache := cache\<rparr>)"
    using connect_transactions [OF assms Cons.prems(1,2) chain_okD(3) [OF Cons.prems(3)] ix st(1) b(2) at] by blast
  let ?d = "block_details (cc_dh cfg) (bn_height x) (node_coins cfg s) (ub_Transactions blk)" and ?s1 = "s\<lparr>st_utxoCache := cache\<rparr>"
  have "cm_bind (connectBlock cfg clk x blk ?d) (\<lambda>_. attach_blocks cfg clk (zip xs bs)) ?s1 = Some (r, s')"
    using Cons.prems(8) con by (simp add: b(1) cm_bind_def)
  then consider (fail) e where "connectBlock cfg clk x blk ?d ?s1 = Some (Inl e, s')" "r = Inl e"
    | (go) s2 where "connectBlock cfg clk x blk ?d ?s1 = Some (Inr (), s2)" "attach_blocks cfg clk (zip xs bs) s2 = Some (r, s')"
    unfolding cm_bind_iff by auto
  then show ?case
  proof cases
    case fail
    then show ?thesis using no_verdict_connect [of cfg clk x blk ?d ?s1] by (auto simp: no_verdict_def)
  next
    case go
    note d = connect_block [OF assms Cons.prems(1-3) ix st(1) b(2) at con go(1)]
    have t2: "same_tree cfg s s2" by (rule same_tree_moved [OF Cons.prems(1,2) d(2,3,4)])
    note t = same_treeD [OF t2]
    have eq: "stored_block (cc_dh cfg) (st_db s2) = stored_block (cc_dh cfg) (st_db s)" by (rule ext, rule ext, rule t(6))
    have y: "st_index s2 h = Some n" "list_all2 (stored_block (cc_dh cfg) (st_db s2)) xs bs" "coins_at cfg (st_db s2) n \<noteq> None"
      using Cons.prems(4,7) b(3) by (simp_all add: t(1,5) eq)
    from Cons.IH [OF t(3,4) d(1) y(1) st(2) y(2,3) go(2)] same_tree_trans [OF t2] show ?thesis by (auto split: sum.splits)
  qed
qed

text \<open>
  A reorganization: when it succeeds the new branch is the best chain, and when a block of it breaks a rule the old one still is. Other errors,
  of the database say, can leave it anywhere.\<close>

lemma reorganizeChain_ok:
  assumes "config_ok cfg" "tree_ok cfg s" "regular_index cfg s" "chain_ok cfg s t" "st_index s h = Some n"
    "chain_to t = chain_to f @ rev ds" "chain_to n = chain_to f @ as" "reorganizeChain cfg clk ds as s = Some (r, s')"
  shows "r = Inr () \<Longrightarrow> chain_ok cfg s' n \<and> same_tree cfg s s'"
    "r = Inl e \<Longrightarrow> is_RuleError e \<Longrightarrow> chain_ok cfg s' t \<and> same_tree cfg s s'"
proof -
  let ?Q = "case r of Inr _ \<Rightarrow> chain_ok cfg s' n \<and> same_tree cfg s s' | Inl e \<Rightarrow> is_RuleError e \<longrightarrow> chain_ok cfg s' t \<and> same_tree cfg s s'"
  consider (fail) e where "verifyReorganizationValidity cfg ds as s = Some (Inl e, s')" "r = Inl e"
    | (go) detached attached s1 where "verifyReorganizationValidity cfg ds as s = Some (Inr (detached, attached), s1)"
      "cm_bind (\<lambda>s. cm_deref (view_tip (st_bestChain s)) s) (\<lambda>tip.
        cm_bind (detach_blocks cfg clk (zip ds detached) (SetBestHash NewUtxoViewpoint (bn_hash tip))) (\<lambda>_. attach_blocks cfg clk (zip as attached))) s1 = Some (r, s')"
    using assms(8) unfolding reorganizeChain_def cm_bind_iff [of "verifyReorganizationValidity cfg ds as"] by (auto split: prod.splits)
  then have ?Q
  proof cases
    case fail
    note v = verify_reorganization(1) [OF assms(1-7) fail(1)]
    show ?thesis using fail(2) verifiedD(9) [OF v assms(4)] verified_same_tree [OF v assms(3)] by simp
  next
    case go
    note w = verify_reorganization [OF assms(1-7) go(1)]
    have v1: "verified cfg t s s1" by (rule w(1))
    note v = verifiedD [OF v1]
    have lists: "list_all2 (undoes cfg (st_db s1)) ds detached" "list_all2 (stored_block (cc_dh cfg) (st_db s)) as attached" "coins_at cfg (st_db s) n \<noteq> None"
      using w(2) [OF refl] by (simp_all add: v(3))
    have c1: "chain_ok cfg s1 t" by (rule v(9) [OF assms(4)])
    let ?view = "SetBestHash NewUtxoViewpoint (bn_hash t)"
    have "view_coins U ?view = U" for U by (simp add: view_coins_def SetBestHash_def NewUtxoViewpoint_def fun_eq_iff)
    then have view: "view_sound (node_coins cfg s1) ?view" "agree (view_coins (node_coins cfg s1) ?view) (node_coins cfg s1)" by simp_all
    have "cm_bind (detach_blocks cfg clk (zip ds detached) ?view) (\<lambda>_. attach_blocks cfg clk (zip as attached)) s1 = Some (r, s')"
      using go(2) by (simp add: cm_bind_def cm_deref_def cm_return_def chain_okD(1) [OF c1] view_tip_view)
    then obtain r1 s2 where d: "detach_blocks cfg clk (zip ds detached) ?view s1 = Some (r1, s2)"
      and rest: "(\<exists>e. r1 = Inl e \<and> r = Inl e \<and> s' = s2) \<or> (r1 = Inr () \<and> attach_blocks cfg clk (zip as attached) s2 = Some (r, s'))"
      unfolding cm_bind_iff by auto
    note dd = detach_blocks_ok [OF assms(1) v(7) v(8) [OF assms(3)] c1 assms(6) lists(1) view d]
    from rest show ?thesis
    proof
      assume "\<exists>e. r1 = Inl e \<and> r = Inl e \<and> s' = s2"
      then show ?thesis using dd by auto
    next
      assume a: "r1 = Inr () \<and> attach_blocks cfg clk (zip as attached) s2 = Some (r, s')"
      then have c2: "chain_ok cfg s2 f" and t2: "same_tree cfg s s2"
        using dd same_tree_trans [OF verified_same_tree [OF v1 assms(3)]] by simp_all
      note t = same_treeD [OF t2]
      have eq: "stored_block (cc_dh cfg) (st_db s2) = stored_block (cc_dh cfg) (st_db s)" by (rule ext, rule ext, rule t(6))
      have x: "st_index s2 h = Some n" "list_all2 (stored_block (cc_dh cfg) (st_db s2)) as attached" "coins_at cfg (st_db s2) n \<noteq> None"
        using assms(5) lists(2,3) by (simp_all add: t(1,5) eq)
      from attach_blocks_ok [OF assms(1) t(3,4) c2 x(1) assms(7) x(2,3) conjunct2 [OF a]] same_tree_trans [OF t2]
      show ?thesis by (auto split: sum.splits)
    qed
  qed
  then show "r = Inr () \<Longrightarrow> chain_ok cfg s' n \<and> same_tree cfg s s'"
    "r = Inl e \<Longrightarrow> is_RuleError e \<Longrightarrow> chain_ok cfg s' t \<and> same_tree cfg s s'" by auto
qed

subsection \<open>The choice of the best chain\<close>

lemma above_fork:
  assumes "built dh t" "built dh n" "fork_of t n = Some f" "chain_to n = chain_to f @ a"
  shows "set a = set (chain_to n) - set (chain_to t)"
proof -
  have f: "f \<in> set (chain_to t)" and low: "\<And>x. x \<in> set (chain_to t) \<Longrightarrow> x \<in> set (chain_to n) \<Longrightarrow> bn_height x \<le> bn_height f"
    using fork_of_chains(1) [OF assms(1,2), of f] assms(3) by simp_all
  have bf: "built dh f" by (rule chain_to_member(1) [OF assms(1) f])
  have "set (chain_to f) \<subseteq> set (chain_to t)" using chain_to_member(3) [OF assms(1) f] by (simp add: set_mono_prefix)
  moreover have "x \<notin> set (chain_to t)" if "x \<in> set a" for x
  proof
    assume x: "x \<in> set (chain_to t)"
    from that obtain i where i: "i < length a" "x = chain_to n ! (length (chain_to f) + i)" by (auto simp: in_set_conv_nth assms(4))
    then have "bn_height x = int (length (chain_to f) + i)" using chain_to_nth [OF assms(2), of "length (chain_to f) + i"] by (simp add: assms(4))
    moreover have "bn_height x \<le> bn_height f" using low [OF x] that by (simp add: assms(4))
    ultimately show False using length_chain_to [OF bf] by simp
  qed
  ultimately show ?thesis using assms(4) by auto
qed

text \<open>Two nodes of the index have a highest common ancestor.\<close>

lemma fork_exists:
  assumes "tree_ok cfg s" "st_index s h = Some t" "st_index s h' = Some n"
  shows "\<exists>f. fork_of t n = Some f"
proof -
  have "hd (chain_to t) = hd (chain_to n)" using assms unfolding tree_ok_def by blast
  then obtain g ts ns where g: "chain_to t = g # ts" "chain_to n = g # ns" by (cases "chain_to t"; cases "chain_to n") auto
  show ?thesis by (simp add: fork_of_def g)
qed

text \<open>A block on top of the tip that breaks a rule leaves the chain as it is.\<close>

lemma extend_tip_refused:
  assumes "config_ok cfg" "tree_ok cfg s" "regular_index cfg s" "chain_ok cfg s tip" "st_index s h = Some n" "bn_parent n = Some tip"
    "stored_block (cc_dh cfg) (st_db s) n blk" "fastAdd \<Longrightarrow> KnownValid (st_status s n)" "extend_tip cfg clk n blk fastAdd s = Some (Inl e, s')" "is_RuleError e"
  shows "chain_ok cfg s' tip \<and> same_tree cfg s s'"
proof -
  have step: "chain_ok cfg s1 tip \<and> same_tree cfg s s1 \<and> (r1 = Inr () \<longrightarrow> coins_at cfg (st_db s1) n \<noteq> None)"
    if r: "(if fastAdd then cm_return () else check_tip cfg n blk) s = Some (r1, s1)" for r1 s1
  proof (cases fastAdd)
    case True
    then show ?thesis using r assms(2-4) tree_okD(6) [OF assms(2,5) assms(8)] by (auto simp: same_tree_def)
  next
    case False
    then have "check_tip cfg n blk s = Some (r1, s1)" using r by simp
    note c = check_tip_ok [OF assms(1-7) this]
    show ?thesis using c regular_index_cong [OF assms(3) c(3,4)] coins_at_cong [OF c(4), of cfg n] by (simp add: same_tree_def)
  qed
  consider (check) "(if fastAdd then cm_return () else check_tip cfg n blk) s = Some (Inl e, s')"
    | (go) s1 where "(if fastAdd then cm_return () else check_tip cfg n blk) s = Some (Inr (), s1)"
      "cm_bind (cm_connectTransactions cfg blk) (\<lambda>stxos.
         cm_bind (cm_onError (connectBlock cfg clk n blk stxos) (\<lambda>e.
               cm_bind (if is_RuleError e then set_flags n statusValidateFailed else cm_return ()) (\<lambda>_. flushToDB))) (\<lambda>_.
         cm_bind (\<lambda>s. if fastAdd \<or> \<not> KnownValid (st_status s n)
                  then cm_bind (set_flags n statusValid) (\<lambda>_. flushToDB) s else Some (Inr (), s)) (\<lambda>_. cm_return True))) s1 = Some (Inl e, s')"
    using assms(9) unfolding extend_tip_def cm_bind_iff [of "if fastAdd then cm_return () else check_tip cfg n blk"] by auto
  then show ?thesis
  proof cases
    case check
    then show ?thesis using step by blast
  next
    case go
    have s1: "chain_ok cfg s1 tip" "same_tree cfg s s1" "coins_at cfg (st_db s1) n \<noteq> None" using step [OF go(1)] by simp_all
    note t = same_treeD [OF s1(2)]
    obtain coins where at: "coins_at cfg (st_db s1) n = Some coins" using s1(3) by blast
    have x: "st_index s1 h = Some n" "stored_block (cc_dh cfg) (st_db s1) n blk" using assms(5,7) by (simp_all add: t(1,6))
    obtain cache where con: "cm_connectTransactions cfg blk s1 =
        Some (Inr (block_details (cc_dh cfg) (bn_height n) (node_coins cfg s1) (ub_Transactions blk)), s1\<lparr>st_utxoCache := cache\<rparr>)"
      using connect_transactions [OF assms(1) t(3,4) chain_okD(3) [OF s1(1)] x(1) assms(6) x(2) at] by blast
    have "no_verdict (cm_onError (connectBlock cfg clk n blk stxos) g s)" for stxos g s
      using no_verdict_connect [of cfg clk n blk stxos s] by (auto simp: no_verdict_def cm_onError_def split: option.splits sum.splits)
    moreover have "no_verdict (set_flags m w s)" for m w s by (simp add: set_flags_def no_verdict_steps)
    ultimately have "no_verdict (cm_bind (cm_connectTransactions cfg blk) (\<lambda>stxos.
         cm_bind (cm_onError (connectBlock cfg clk n blk stxos) (\<lambda>e.
               cm_bind (if is_RuleError e then set_flags n statusValidateFailed else cm_return ()) (\<lambda>_. flushToDB))) (\<lambda>_.
         cm_bind (\<lambda>s. if fastAdd \<or> \<not> KnownValid (st_status s n)
                  then cm_bind (set_flags n statusValid) (\<lambda>_. flushToDB) s else Some (Inr (), s)) (\<lambda>_. cm_return True))) s1)"
      by (intro no_verdict_bind no_verdict_steps no_verdict_if) (simp_all add: con no_verdict_steps)
    then show ?thesis using go(2) assms(10) by (simp add: no_verdict_def)
  qed
qed

definition branch_refused :: "statuses \<Rightarrow> blockNode \<Rightarrow> blockNode \<Rightarrow> bool" where
  "branch_refused status t n \<longleftrightarrow>
     (\<exists>p. bn_parent n = Some p \<and> KnownInvalid (status p)) \<or> (\<exists>m \<in> set (chain_to n) - set (chain_to t). KnownInvalid (status m))"

lemma same_chain_same_tree:
  assumes "same_chain s s'" "st_status s' = st_status s" "tree_ok cfg s" "regular_index cfg s"
  shows "same_tree cfg s s'"
  using same_chain_tree [OF assms(1,3)] same_chain_keeps(1) [OF assms(1,4)] same_chainD(1,6) [OF assms(1)] assms(2) by (simp add: same_tree_def)

lemma reorganize_nodes_ok:
  assumes "tree_ok cfg s" "regular_index cfg s" "chain_ok cfg s t" "st_index s h = Some n" "bn_parent n = Some p"
  obtains f ds as s1 where "cm_getReorganizeNodes n s = Some (Inr (ds, as), s1)" "verified cfg t s s1"
    "if branch_refused (st_status s) t n then ds = [] \<and> as = [] else chain_to t = chain_to f @ rev ds \<and> chain_to n = chain_to f @ as"
proof -
  note c = chain_okD [OF assms(3)]
  have t: "built (cc_dh cfg) t" "bn_height t < 2 ^ 31 - 1" "built (cc_dh cfg) n"
    using tree_okD(2) [OF assms(1)] regularD(1) [OF assms(2)] c(2) assms(4) by blast+
  obtain f where f: "fork_of t n = Some f" using fork_exists [OF assms(1) c(2) assms(4)] by blast
  have marks: "verified cfg t s (mark_dirty ns (s\<lparr>st_status := st\<rparr>))" if "\<And>m. KnownValid (st m) = KnownValid (st_status s m)" for ns st
    by (rule verified_mark [OF assms(1) c(3)]) (use that in blast)
  obtain st ds as where g: "getReorganizeNodes (view_of t) (st_status s) n = Inr (st, ds, as)" "\<And>m. KnownValid (st m) = KnownValid (st_status s m)"
    "if branch_refused (st_status s) t n then ds = [] \<and> as = [] else chain_to t = chain_to f @ rev ds \<and> chain_to n = chain_to f @ as"
  proof (cases "KnownInvalid (st_status s p)")
    case True
    then have "getReorganizeNodes (view_of t) (st_status s) n = Inr (SetStatusFlags (st_status s) n statusInvalidAncestor, [], [])" "branch_refused (st_status s) t n"
      using assms(5) by (auto simp: getReorganizeNodes_def branch_refused_def)
    then show thesis using that [of "SetStatusFlags (st_status s) n statusInvalidAncestor" "[]" "[]"] by (simp add: SetStatusFlags_def status_bits)
  next
    case False
    obtain d a where da: "chain_to t = chain_to f @ d" "chain_to n = chain_to f @ a"
      "getReorganizeNodes (view_of t) (st_status s) n =
       Inr (if \<exists>x \<in> set a. KnownInvalid (st_status s x)
            then ((\<lambda>x. if x \<in> set (above_invalid (st_status s) a) then st_status s x OR statusInvalidAncestor else st_status s x), [], [])
            else (st_status s, rev d, a))"
      by (rule reorganize_value [OF t(1,2,3) assms(5), where status = "st_status s", OF False f])
    have r: "branch_refused (st_status s) t n \<longleftrightarrow> (\<exists>x \<in> set a. KnownInvalid (st_status s x))"
      using above_fork [OF t(1,3) f da(2)] assms(5) False by (auto simp: branch_refused_def)
    show thesis
    proof (cases "\<exists>x \<in> set a. KnownInvalid (st_status s x)")
      case True
      then show thesis using that da(3) r by (simp add: status_bits)
    next
      case False
      then have "getReorganizeNodes (view_of t) (st_status s) n = Inr (st_status s, rev d, a)" using da(3) by simp
      moreover have "\<not> branch_refused (st_status s) t n" using r False by simp
      ultimately show thesis using that [of "st_status s" "rev d" a] da(1,2) unfolding rev_rev_ident by presburger
    qed
  qed
  have run: "cm_getReorganizeNodes n s = Some (Inr (ds, as), mark_dirty (reorganize_marks (st_bestChain s) (st_status s) n) (s\<lparr>st_status := st\<rparr>))"
    by (simp add: cm_getReorganizeNodes_def c(1) g(1))
  show thesis by (rule that [OF run marks [OF g(2)] g(3)])
qed

lemma cm_bind_run: "m s = Some (Inr x, s1) \<Longrightarrow> cm_bind m f s = f x s1"
  by (simp add: cm_bind_def)

lemma connect_best_chain:
  assumes "config_ok cfg" "tree_ok cfg s" "regular_index cfg s" "chain_ok cfg s t" "st_index s h = Some n" "bn_parent n = Some p"
    "stored_block (cc_dh cfg) (st_db s) n blk" "bh_PrevBlock (ub_header blk) = bn_hash p" "\<not> flag_set flags BFFastAdd"
    "connectBestChain cfg clk n blk flags s = Some (r, s')"
  shows "case r of
      Inr main \<Rightarrow> same_tree cfg s s' \<and>
        (let more = ShouldChangeTip (bn_workSum t) (bn_workSum n) (CalcWork (bn_bits t)) (CalcWork (bn_bits n))
         in if p = t \<or> more \<and> \<not> branch_refused (st_status s) t n then main \<and> chain_ok cfg s' n else main = more \<and> chain_ok cfg s' t)
    | Inl e \<Rightarrow> is_RuleError e \<longrightarrow> same_tree cfg s s' \<and> chain_ok cfg s' t"
proof -
  note c = chain_okD [OF assms(4)]
  have ip: "st_index s (bn_hash p) = Some p" by (rule tree_okD(3) [OF assms(2,5,6)])
  have eq: "bn_hash p = bn_hash t \<longleftrightarrow> p = t" using ip c(2) by (metis option.inject)
  let ?more = "ShouldChangeTip (bn_workSum t) (bn_workSum n) (CalcWork (bn_bits t)) (CalcWork (bn_bits n))"
  let ?reorg = "cm_bind (cm_getReorganizeNodes n) (\<lambda>(detachNodes, attachNodes).
           cm_bind (cm_finally (reorganizeChain cfg clk detachNodes attachNodes) flushToDB) (\<lambda>_. cm_return True)) s"
  have tip: "(\<lambda>s. cm_deref (view_tip (st_bestChain s)) s) s = Some (Inr t, s)" by (simp add: c(1) view_tip_view cm_deref_def cm_return_def)
  have fast: "(flag_set flags BFFastAdd \<or> b) = b" for b using assms(9) by simp
  have run: "(if p = t then extend_tip cfg clk n blk (KnownValid (st_status s n)) s else if \<not> ?more then Some (Inr False, s) else ?reorg) = Some (r, s')"
    using assms(10) unfolding connectBestChain_def cm_bind_run [where m = "\<lambda>s. cm_deref (view_tip (st_bestChain s)) s", OF tip] assms(8) eq fast .
  show ?thesis
  proof (cases "p = t")
    case True
    then have e: "extend_tip cfg clk n blk (KnownValid (st_status s n)) s = Some (r, s')" using run by simp
    note pt = assms(6) [unfolded True]
    show ?thesis
    proof (cases r)
      case (Inr v)
      note x = extend_tip_ok [OF assms(1-5) pt assms(7) _ e [unfolded Inr]]
      show ?thesis using x regular_index_cong [OF assms(3), of s'] by (simp add: Inr True same_tree_def)
    next
      case (Inl d)
      show ?thesis using extend_tip_refused [OF assms(1-5) pt assms(7) _ e [unfolded Inl]] by (simp add: Inl)
    qed
  next
    case False
    show ?thesis
    proof (cases ?more)
      case True
      obtain f ds as s1 where g: "cm_getReorganizeNodes n s = Some (Inr (ds, as), s1)" "verified cfg t s s1"
        "if branch_refused (st_status s) t n then ds = [] \<and> as = [] else chain_to t = chain_to f @ rev ds \<and> chain_to n = chain_to f @ as"
        by (rule reorganize_nodes_ok [OF assms(2-6)])
      note v = verifiedD [OF g(2)]
      have t1: "same_tree cfg s s1" by (rule verified_same_tree [OF g(2) assms(3)])
      note c1 = v(9) [OF assms(4)]
      have "cm_bind (cm_finally (reorganizeChain cfg clk ds as) flushToDB) (\<lambda>_. cm_return True) s1 = Some (r, s')"
        using run False True g(1) by (simp add: cm_bind_def [of "cm_getReorganizeNodes n"])
      then obtain r2 s2 u where q: "reorganizeChain cfg clk ds as s1 = Some (r2, s2)" "flushToDB s2 = Some (u, s')"
        "r = (case r2 of Inl e \<Rightarrow> Inl e | Inr _ \<Rightarrow> Inr True)"
        by (auto simp: cm_bind_iff cm_finally_def split: option.splits)
      note fl = flushToDB_chain [OF q(2)]
      have fin: "chain_ok cfg s' m \<and> same_tree cfg s s'" if "chain_ok cfg s2 m \<and> same_tree cfg s1 s2" for m
        using that same_chain_keeps(6) [OF fl(2), of cfg m] same_tree_trans [OF same_tree_trans [OF t1] same_chain_same_tree [OF fl(2,3)]]
          same_treeD(3,4) [of cfg s1 s2] by blast
      show ?thesis
      proof (cases "branch_refused (st_status s) t n")
        case True
        then have "r2 = Inr () \<and> s2 = s1" using g(3) q(1) by (auto simp: reorganizeChain_def verifyReorganizationValidity_def cm_bind_iff
              chain_okD(1) [OF c1] view_tip_view cm_deref_def)
        moreover have "same_tree cfg s1 s1" using t1 by (simp add: same_tree_def)
        ultimately show ?thesis using fin [of t] c1 q(3) True False \<open>?more\<close> by simp
      next
        case ok: False
        then have l: "chain_to t = chain_to f @ rev ds" "chain_to n = chain_to f @ as" using g(3) by simp_all
        have n1: "st_index s1 h = Some n" using assms(5) v(1) by simp
        note z = reorganizeChain_ok [OF assms(1) v(7) v(8) [OF assms(3)] c1 n1 l q(1)]
        show ?thesis
        proof (cases r2)
          case (Inr w)
          then show ?thesis using fin [of n] z(1) q(3) ok \<open>?more\<close> by simp
        next
          case (Inl e)
          then show ?thesis using fin [of t] z(2) [of e] q(3) by simp
        qed
      qed
    next
      case less: False
      then have "r = Inr False" "s' = s" using run False by simp_all
      then show ?thesis using False less assms(2-4) by (simp add: same_tree_def)
    qed
  qed
qed

end
