(* ===== verification/Chain_Choice.thy ===== *)
theory Chain_Choice
  imports Chain_Reorganize
begin

text \<open>
  Accepting a block into the index and choosing the best chain (\<^verbatim>\<open>maybeAcceptBlock\<close> of \<^verbatim>\<open>node/blockchain/accept.go\<close>, \<^verbatim>\<open>connectBestChain\<close> of
  \<^verbatim>\<open>chain.go\<close>): every step leaves a good state, at the tip that the rules choose (\<open>chosen_tip\<close>). A sample chain of two blocks shows that such states exist and that a
  block is connected to them; the properties of the best chain and of the recovery after a crash come last.
\<close>

subsection \<open>Another block in the index\<close>

text \<open>What is known of a branch depends on its own blocks only.\<close>

lemma replay_local:
  assumes "\<forall>m \<in> set ns. dbFetchBlockByNode m db' = dbFetchBlockByNode m db"
  shows "replay dh k db' ns = replay dh k db ns"
  using assms
proof (induction ns)
  case (Cons n ns)
  then have "txs_of db' n = txs_of db n" "stored_block dh db' n = stored_block dh db n" by (simp_all add: txs_of_def stored_block_def fun_eq_iff)
  with Cons show ?case by (cases "replay dh k db ns") simp_all
qed simp

lemma journaled_local:
  assumes "\<forall>m \<in> set ns. dbFetchBlockByNode m db' = dbFetchBlockByNode m db" "db_spendJournal db' = db_spendJournal db"
  shows "journaled cfg db' ns = journaled cfg db ns"
  using assms(1)
proof (induction ns)
  case (Cons n ns)
  have "dbFetchSpendJournalEntry C h txs db' = dbFetchSpendJournalEntry C h txs db" for C :: "'a curve" and h txs
    using assms(2) by (cases txs) (simp_all add: dbFetchSpendJournalEntry_def)
  moreover have "txs_of db' n = txs_of db n" using Cons.prems by (simp add: txs_of_def)
  ultimately show ?case using Cons replay_local [of ns db' db] by simp
qed simp

text \<open>A block that can be added: it is well-formed, and its node keeps the index regular.\<close>

definition fresh_block :: "'k chainConfig \<Rightarrow> chainState \<Rightarrow> MsgBlock \<Rightarrow> bool" where
  "fresh_block cfg s msg \<longleftrightarrow>
     (let header = mh_BlockHeader (mb_MsgHeader msg); txs = mb_Transactions msg
      in block_ok msg \<and> sane_block (cc_dh cfg) txs \<and> \<not> HaveBlock (st_index s) (BlockHash (cc_dh cfg) header) \<and>
         (\<forall>p. LookupNode (st_index s) (bh_PrevBlock header) = Some p \<longrightarrow>
            bn_height p + 1 < 2 ^ 31 - 1 \<and> small_amounts txs \<and> spends_earlier (cc_dh cfg) (bn_height p + 1) txs \<and>
            (\<forall>m \<in> set (branch p). \<forall>t \<in> set txs. \<forall>u \<in> set (txs_of (st_db s) m). TxHash (cc_dh cfg) t \<noteq> TxHash (cc_dh cfg) u)))"

lemma add_block:
  assumes "tree_ok cfg s" "regular_index cfg s" "chain_ok cfg s t" "fresh_block cfg s msg" "LookupNode (st_index s) (bh_PrevBlock (mh_BlockHeader (mb_MsgHeader msg))) = Some p"
    "dbStoreBlock (cc_dh cfg) \<lparr>ub_MsgBlock = msg, ub_Height = bh\<rparr> vsize (st_db s) = Inr db"
    "n = newBlockNode (cc_dh cfg) (mh_BlockHeader (mb_MsgHeader msg)) (Some p) statusDataStored vsize"
    "s' = s\<lparr>st_db := db, st_index := addNode (st_index s) n, st_status := (st_status s)(n := statusDataStored)\<rparr>"
  shows "tree_ok cfg s'" "regular_index cfg s'" "chain_ok cfg s' t" "st_index s' (bn_hash n) = Some n" "bn_parent n = Some p"
    "stored_block (cc_dh cfg) (st_db s') n \<lparr>ub_MsgBlock = msg, ub_Height = bn_height n\<rparr>" "bh_PrevBlock (mh_BlockHeader (mb_MsgHeader msg)) = bn_hash p"
proof -
  let ?h = "BlockHash (cc_dh cfg) (mh_BlockHeader (mb_MsgHeader msg))"
  note f = assms(4) [unfolded fresh_block_def Let_def]
  have ok: "block_ok msg" "sane_block (cc_dh cfg) (mb_Transactions msg)" "st_index s ?h = None" using f by (simp_all add: HaveBlock_def)
  have reg: "bn_height p + 1 < 2 ^ 31 - 1" "small_amounts (mb_Transactions msg)" "spends_earlier (cc_dh cfg) (bn_height p + 1) (mb_Transactions msg)"
    "\<And>m t u. m \<in> set (branch p) \<Longrightarrow> t \<in> set (mb_Transactions msg) \<Longrightarrow> u \<in> set (txs_of (st_db s) m) \<Longrightarrow> TxHash (cc_dh cfg) t \<noteq> TxHash (cc_dh cfg) u"
    using f assms(5) by blast+
  have ip: "st_index s (bh_PrevBlock (mh_BlockHeader (mb_MsgHeader msg))) = Some p" using assms(5) by (simp add: LookupNode_def)
  then show prev: "bh_PrevBlock (mh_BlockHeader (mb_MsgHeader msg)) = bn_hash p" using tree_okD(1) [OF assms(1)] by simp
  have bp: "built (cc_dh cfg) p" by (rule tree_okD(2) [OF assms(1) ip])
  have hp: "0 \<le> bn_height p" using built_height [OF bp] by simp
  have n: "bn_hash n = ?h" "bn_parent n = Some p" "bn_height n = bn_height p + 1" "built (cc_dh cfg) n"
  proof -
    show "bn_hash n = ?h" "bn_parent n = Some p" by (simp_all add: assms(7) newBlockNode_def Let_def)
    show "built (cc_dh cfg) n" unfolding assms(7) by (rule built.built_child [OF bp]) (use reg(1) in simp)
    then show "bn_height n = bn_height p + 1" using built_parent(2) \<open>bn_parent n = Some p\<close> by blast
  qed
  show "bn_parent n = Some p" by (rule n(2))
  have has: "\<not> HasBlock ?h (st_db s)" using assms(1) ok(3) by (auto simp: tree_ok_def HasBlock_def)
  have fr: "db_spendJournal db = db_spendJournal (st_db s)" "db_utxoSet db = utxo_bucket s" "db_meta db = db_meta (st_db s)"
    "\<And>h. h \<noteq> ?h \<Longrightarrow> fmlookup (db_blocks db) h = fmlookup (db_blocks (st_db s)) h"
    using dbStoreBlock_frame [OF assms(6)] by simp_all
  have new: "dbFetchBlockByNode n db = Inr \<lparr>ub_MsgBlock = msg, ub_Height = bn_height n\<rparr>"
    by (rule holds_block_fetch) (use dbStoreBlock_holds [OF assms(6)] ok(1) has in \<open>simp add: n(1)\<close>)
  have old: "dbFetchBlockByNode m db = dbFetchBlockByNode m (st_db s)" "bn_hash m \<noteq> ?h" if "st_index s h = Some m" for m h
  proof -
    show "bn_hash m \<noteq> ?h" using index_self [OF assms(1) that] ok(3) by auto
    then show "dbFetchBlockByNode m db = dbFetchBlockByNode m (st_db s)" by (simp add: dbFetchBlockByNode_def FetchBlock_def fr(4))
  qed
  have olds: "\<forall>m \<in> set (chain_to c). dbFetchBlockByNode m db = dbFetchBlockByNode m (st_db s)" if "st_index s h = Some c" for c h
    using old(1) chain_indexed [OF assms(1) that] by blast
  then have oldb: "\<forall>m \<in> set (branch c). dbFetchBlockByNode m db = dbFetchBlockByNode m (st_db s)" if "st_index s h = Some c" for c h
    using branch_chain [of c] that by blast
  have at: "coins_at cfg db c = coins_at cfg (st_db s) c" if "st_index s h = Some c" for c h
    unfolding coins_at_def by (rule replay_local [OF oldb [OF that]])
  have tx: "txs_of db c = txs_of (st_db s) c" if "st_index s h = Some c" for c h using old(1) [OF that] by (simp add: txs_of_def)
  have st: "stored_block (cc_dh cfg) db c = stored_block (cc_dh cfg) (st_db s) c" if "st_index s h = Some c" for c h
    using old(1) [OF that] by (simp add: stored_block_def fun_eq_iff)
  have s': "st_db s' = db" "st_index s' = (st_index s)(?h \<mapsto> n)" "st_status s' = (st_status s)(n := statusDataStored)"
    "st_bestChain s' = st_bestChain s" "st_snapshot s' = st_snapshot s" "st_utxoCache s' = st_utxoCache s"
    by (simp_all add: assms(8) addNode_def n(1))
  show "st_index s' (bn_hash n) = Some n" by (simp add: s'(2) n(1))
  show stn: "stored_block (cc_dh cfg) (st_db s') n \<lparr>ub_MsgBlock = msg, ub_Height = bn_height n\<rparr>"
    using new ok(1,2) n(1) by (simp add: stored_block_def s'(1))
  have dist: "c \<noteq> n" if "st_index s h = Some c" for c h using old(2) [OF that] n(1) by auto
  have hd_n: "hd (chain_to n) = hd (chain_to p)" using n(2) by simp
  have nv: "\<not> KnownValid statusDataStored" by (simp add: KnownValid_def statusDataStored_def)
  show "tree_ok cfg s'" unfolding tree_ok_def s'(1,2,3)
  proof (intro conjI allI impI)
    fix h m
    assume m: "((st_index s)(?h \<mapsto> n)) h = Some m"
    consider (old) "st_index s h = Some m" "h \<noteq> ?h" | (new) "m = n" "h = ?h" using m by (auto split: if_splits)
    note cases = this
    show "bn_hash m = h" using cases by cases (use tree_okD(1) [OF assms(1)] n(1) in simp_all)
    show "built (cc_dh cfg) m" using cases by cases (use tree_okD(2) [OF assms(1)] n(4) in simp_all)
    show "\<exists>blk. dbFetchBlockByNode m db = Inr blk" using cases by cases (use tree_okD(5) [OF assms(1)] old(1) new in simp_all)
    show "coins_at cfg db m \<noteq> None" if "KnownValid (((st_status s)(n := statusDataStored)) m)"
      using cases by cases (use that tree_okD(6) [OF assms(1)] at dist nv in auto)
    fix q
    assume q: "bn_parent m = Some q"
    have "st_index s (bn_hash q) = Some q" using cases by cases (use tree_okD(3) [OF assms(1) _ q] q n(2) ip prev in auto)
    then show "((st_index s)(?h \<mapsto> n)) (bn_hash q) = Some q" using ok(3) by auto
    show "\<exists>blk. stored_block (cc_dh cfg) db m blk \<and> bh_PrevBlock (ub_header blk) = bn_hash q"
      using cases
    proof cases
      case old
      then show ?thesis using tree_okD(4) [OF assms(1) _ q] st by simp
    next
      case new
      then show ?thesis using stn q n(2) prev s'(1) by (intro exI [of _ "\<lparr>ub_MsgBlock = msg, ub_Height = bn_height n\<rparr>"]) simp
    qed
  next
    obtain g where "\<And>h m. st_index s h = Some m \<Longrightarrow> hd (chain_to m) = g" using assms(1) unfolding tree_ok_def by blast
    then show "\<exists>g. \<forall>h m. ((st_index s)(?h \<mapsto> n)) h = Some m \<longrightarrow> hd (chain_to m) = g" using ip hd_n by (intro exI [of _ g]) (auto split: if_splits)
  next
    fix h
    assume "fmlookup (db_blocks db) h \<noteq> None"
    then show "((st_index s)(?h \<mapsto> n)) h \<noteq> None" using assms(1) fr(4) [of h] by (cases "h = ?h") (auto simp: tree_ok_def)
  qed
  show "regular_index cfg s'" unfolding regular_index_def s'(1,2)
  proof (intro allI impI)
    fix h m
    assume m: "((st_index s)(?h \<mapsto> n)) h = Some m"
    show "regular cfg db m"
    proof (cases "h = ?h")
      case True
      then have "m = n" using m by simp
      moreover have "txs_of db n = mb_Transactions msg" using new by (simp add: txs_of_def)
      moreover have "txs_of db k = txs_of (st_db s) k" if "k \<in> set (branch p)" for k
        using tx chain_indexed [OF assms(1) ip] branch_chain [of p] that by blast
      ultimately show ?thesis using reg n(2,3) by (simp add: regular_def)
    next
      case False
      then have i: "st_index s h = Some m" using m by simp
      have "txs_of db k = txs_of (st_db s) k" if "k \<in> set (branch m)" for k
        using tx chain_indexed [OF assms(1) i] branch_chain [of m] that by blast
      moreover have "set (tl (branch m)) \<subseteq> set (branch m)" by (cases "branch m") auto
      ultimately show ?thesis using assms(2) [unfolded regular_index_def, rule_format, OF i] tx [OF i] by (auto simp: regular_def)
    qed
  qed
  note c = chain_okD [OF assms(3)]
  have nc: "node_coins cfg s' = node_coins cfg s" by (simp add: node_coins_def s'(1,6) fr(2))
  have du: "durable cfg db t"
  proof -
    obtain g where "g \<in> set (chain_to t)" "dbFetchUtxoStateConsistency (st_db s) = Some (bn_hash g)"
      "coins_at cfg (st_db s) g = Some (stored_coins (cc_curve cfg) (utxo_bucket s))" using utxo_okD(4) [OF c(3)] by (auto simp: durable_def)
    then show ?thesis using at [OF chain_indexed [OF assms(1) c(2), of g]] fr(2,3) by (auto simp: durable_def dbFetchUtxoStateConsistency_def)
  qed
  have "utxo_ok cfg s' t" using utxo_okD [OF c(3)] du at [OF c(2)] nc by (simp add: utxo_ok_def s'(1,6) fr(2))
  moreover have "journaled cfg db (branch t)" using c(4) journaled_local [OF oldb [OF c(2)] fr(1), of cfg] by simp
  moreover have "best_stored db t" using c(5) by (simp add: best_stored_def fr(3))
  moreover have "st_index s' (bn_hash t) = Some t" using c(2) old(2) [OF c(2)] by (simp add: s'(2))
  ultimately show "chain_ok cfg s' t" using c(1,6) by (simp add: chain_ok_def s'(1,4,5))
qed

text \<open>The tip after a block was added: its node when it continues the best chain, or has enough more work on a branch that is not refused.\<close>

definition chosen_tip :: "statuses \<Rightarrow> blockNode \<Rightarrow> blockNode \<Rightarrow> blockNode" where
  "chosen_tip status t n =
     (if bn_parent n = Some t \<or>
         ShouldChangeTip (bn_workSum t) (bn_workSum n) (CalcWork (bn_bits t)) (CalcWork (bn_bits n)) \<and> \<not> branch_refused status t n
      then n else t)"

lemma checkpoint_irrelevant:
  "tree_ok cfg (s\<lparr>st_checkpoint := ck\<rparr>) = tree_ok cfg s" "regular_index cfg (s\<lparr>st_checkpoint := ck\<rparr>) = regular_index cfg s"
  "chain_ok cfg (s\<lparr>st_checkpoint := ck\<rparr>) t = chain_ok cfg s t" "fresh_block cfg (s\<lparr>st_checkpoint := ck\<rparr>) msg = fresh_block cfg s msg"
  by (simp_all add: tree_ok_def regular_index_def chain_ok_def utxo_ok_def node_coins_def fresh_block_def)

lemma accept_block:
  assumes "config_ok cfg" "tree_ok cfg s" "regular_index cfg s" "chain_ok cfg s t" "fresh_block cfg s (ub_MsgBlock block)" "\<not> flag_set flags BFFastAdd"
    "maybeAcceptBlock cfg clk block flags s = Some (r, s')"
  shows "case r of
      Inr _ \<Rightarrow> \<exists>p n. LookupNode (st_index s) (bh_PrevBlock (ub_header block)) = Some p \<and> bn_parent n = Some p \<and>
        bn_hash n = BlockHash (cc_dh cfg) (ub_header block) \<and> st_index s' = (st_index s)(bn_hash n \<mapsto> n) \<and> tree_ok cfg s' \<and> regular_index cfg s' \<and>
        chain_ok cfg s' (chosen_tip ((st_status s)(n := statusDataStored)) t n)
    | Inl e \<Rightarrow> is_RuleError e \<longrightarrow> tree_ok cfg s' \<and> regular_index cfg s' \<and> chain_ok cfg s' t"
proof -
  let ?hd = "ub_header block" and ?msg = "ub_MsgBlock block"
  show ?thesis
  proof (cases "LookupNode (st_index s) (bh_PrevBlock ?hd)")
    case None
    then show ?thesis using assms(2-4,7) by (auto simp: maybeAcceptBlock_def)
  next
    case (Some p)
    let ?block = "block\<lparr>ub_Height := int32_of (bn_height p + 1)\<rparr>"
    let ?check = "checkBlockContext (cc_zk cfg) (cc_dh cfg) ?msg (cl_fraction clk ?hd) p flags (cc_rules cfg)
      (chain_ctx (cp_checkpoints (cc_params cfg)) (st_index s) (st_bestChain s)) (st_checkpoint s)"
    show ?thesis
    proof (cases "KnownInvalid (st_status s p)")
      case True
      then show ?thesis using Some assms(2-4,7) by (auto simp: maybeAcceptBlock_def)
    next
      case valid: False
      obtain c ck where ck: "?check = Some (c, ck)" using assms(7) Some valid by (cases "?check") (auto simp: maybeAcceptBlock_def)
      show ?thesis
      proof (cases c)
        case (Inl e)
        then show ?thesis using Some valid ck assms(2-4,7) by (auto simp: maybeAcceptBlock_def checkpoint_irrelevant)
      next
        case (Inr u)
        let ?v = "GetBlockVsize ?msg" and ?s = "s\<lparr>st_checkpoint := ck\<rparr>"
        let ?n = "newBlockNode (cc_dh cfg) ?hd (Some p) statusDataStored ?v"
        let ?k = "\<lambda>s. connectBestChain cfg clk ?n ?block flags
                   (s\<lparr>st_index := addNode (st_index s) ?n, st_status := (st_status s)(?n := statusDataStored)\<rparr>)"
        have run: "cm_bind (cm_Update (tx_write (dbStoreBlock (cc_dh cfg) ?block ?v))) (\<lambda>_. ?k) ?s = Some (r, s')"
          using assms(7) Some valid ck Inr by (simp add: maybeAcceptBlock_def index_Add_def Let_def)
        show ?thesis
        proof (cases "dbStoreBlock (cc_dh cfg) ?block ?v (st_db s)")
          case (Inl d)
          then show ?thesis using run by (auto simp: cm_bind_def cm_Update_def tx_write_def is_RuleError_def)
        next
          case (Inr db)
          let ?s1 = "?s\<lparr>st_db := db, st_index := addNode (st_index ?s) ?n, st_status := (st_status ?s)(?n := statusDataStored)\<rparr>"
          have go: "connectBestChain cfg clk ?n ?block flags ?s1 = Some (r, s')" using run Inr by (simp add: cm_bind_def cm_Update_def tx_write_def)
          have pre: "tree_ok cfg ?s" "regular_index cfg ?s" "chain_ok cfg ?s t" "fresh_block cfg ?s ?msg"
            using assms(2-5) by (simp_all add: checkpoint_irrelevant)
          have args: "LookupNode (st_index ?s) (bh_PrevBlock ?hd) = Some p"
            "dbStoreBlock (cc_dh cfg) \<lparr>ub_MsgBlock = ?msg, ub_Height = int32_of (bn_height p + 1)\<rparr> ?v (st_db ?s) = Inr db"
            using Some Inr by (cases block, simp)+
          note a = add_block [OF pre args refl refl]
          have hn: "bn_height ?n = int32_of (bn_height p + 1)" by (simp add: newBlockNode_def Let_def)
          have eq: "\<lparr>ub_MsgBlock = ?msg, ub_Height = bn_height ?n\<rparr> = ?block" by (cases block) (simp add: hn)
          have st: "stored_block (cc_dh cfg) (st_db ?s1) ?n ?block" using a(6) unfolding eq .
          have pb: "bh_PrevBlock (ub_header ?block) = bn_hash p" using a(7) by simp
          note b = connect_best_chain [OF assms(1) a(1-5) st pb assms(6) go]
          have ix: "st_index ?s1 = (st_index s)(bn_hash ?n \<mapsto> ?n)" "bn_hash ?n = BlockHash (cc_dh cfg) ?hd" "st_status ?s1 = (st_status s)(?n := statusDataStored)"
            by (simp_all add: addNode_def newBlockNode_def Let_def)
          show ?thesis
          proof (cases r)
            case (Inl e)
            then show ?thesis using b same_treeD(3,4) by auto
          next
            case (Inr main)
            have t: "same_tree cfg ?s1 s'" using b Inr by simp
            have "chain_ok cfg s' (chosen_tip (st_status ?s1) t ?n)" using b Inr a(5) by (simp add: chosen_tip_def Let_def split: if_splits)
            then show ?thesis unfolding Inr sum.case
              using Some a(5) ix same_treeD(1,3,4) [OF t] by (intro exI [of _ p] exI [of _ ?n]) simp
          qed
        qed
      qed
    qed
  qed
qed

subsection \<open>A block that is connected\<close>

text \<open>
  Connecting an allowed block on top of the tip succeeds, when the node does not watch for unknown rules (it does not while it is behind) and
  the optional indexes do not refuse the block.\<close>

lemma connect_block_runs:
  assumes "config_ok cfg" "tree_ok cfg s" "regular_index cfg s" "chain_ok cfg s tip" "st_index s h = Some n" "bn_parent n = Some tip"
    "stored_block (cc_dh cfg) (st_db s) n blk" "coins_at cfg (st_db s) n = Some coins" "bh_PrevBlock (ub_header blk) = bn_hash tip"
    "\<not> isCurrent cfg clk tip" "\<And>stxos. cc_indexConnect cfg blk stxos = Inr ()"
    "cm_connectTransactions cfg blk s = Some (Inr stxos, s1)"
  shows "\<exists>s2. connectBlock cfg clk n blk stxos s1 = Some (Inr (), s2)"
proof -
  let ?C = "cc_curve cfg" and ?txs = "ub_Transactions blk" and ?h = "BlockHash (cc_dh cfg) (ub_header blk)"
  note c = chain_okD [OF assms(4)]
  note u = utxo_okD [OF c(3)] and cf = configD [OF assms(1)]
  obtain cache where cache: "stxos = block_details (cc_dh cfg) (bn_height n) (node_coins cfg s) ?txs" "s1 = s\<lparr>st_utxoCache := cache\<rparr>"
    "coherent ?C (utxo_bucket s) cache" "cache_coins ?C (utxo_bucket s) cache = coins"
    using connect_transactions [OF assms(1-3) c(3) assms(5-8)] assms(12) by auto
  have hash: "?h = bn_hash n" using assms(7) by (simp add: stored_block_def)
  have b: "built (cc_dh cfg) n" "built (cc_dh cfg) tip" using tree_okD(2) [OF assms(2)] assms(5) c(2) by blast+
  have r: "bn_height n < 2 ^ 31 - 1" "small_amounts ?txs" using regularD(1,2) [OF assms(3,5)] stored_txs [OF assms(7)] by simp_all
  note rt = regularD(1) [OF assms(3) c(2)]
  have tip: "setTip (view_of tip) (Some n) = Inr (view_of n)" using setTip_view [of "cc_dh cfg" "view_of tip" n] b r(1) rt by (auto simp: view_ok_def)
  have before: "replay (cc_dh cfg) (cc_maturity cfg) (st_db s) (branch tip) = Some (node_coins cfg s)" using u(3) by (simp add: coins_at_def)
  have v: "valid_txs (cc_dh cfg) (bn_height n) (node_coins cfg s) ?txs"
    using replay_valid [OF assms(8) [unfolded coins_at_def branch_simps(2) [OF assms(6)]] before] stored_txs [OF assms(7)] by simp
  have st: "\<forall>tx \<in> set ?txs. \<forall>txOut \<in> set (tx_TxOut tx). storable (to_Value txOut) (bn_height n) (to_PkScript txOut)"
    using block_outputs_storable(1) [OF assms(7) r(2) cf(3)] built_height [OF b(1)] by blast
  have sane: "sane_block (cc_dh cfg) ?txs" using assms(7) by (simp add: stored_block_def)
  have count: "countSpentOutputs (block_data blk) = Inr (length stxos)"
    using block_details_length [OF sane, of "bn_height n" "node_coins cfg s"] sane
    by (cases ?txs) (simp_all add: cache(1) countSpentOutputs_def block_data_def sane_block_def del: block_details.simps)
  obtain si where si: "flushToDB s1 = Some (Inr (), s1\<lparr>st_db := (st_db s1)\<lparr>db_statusIndex := si\<rparr>, st_dirty := []\<rparr>)" by (rule flushToDB_effect)
  let ?s2 = "s1\<lparr>st_db := (st_db s1)\<lparr>db_statusIndex := si\<rparr>, st_dirty := []\<rparr>"
  let ?state = "best_state n blk (int (be_TotalTxns (st_snapshot ?s2)) + int (length ?txs))"
  let ?db0 = "dbPutBlockIndex (bn_hash n) (bn_height n) (dbPutBestState ?state (bn_workSum n) (st_db ?s2))"
  obtain j where j: "dbPutSpendJournalEntry ?C (bn_hash n) stxos ?db0 = Inr (?db0\<lparr>db_spendJournal := fmupd (bn_hash n) j (db_spendJournal ?db0)\<rparr>)"
    using journal_written [OF cf(1) node_coins_storable [OF assms(1-3) c(2) u(3)] v sane st, of "bn_hash n" ?db0] cache(1) by auto
  let ?db = "?db0\<lparr>db_spendJournal := fmupd (bn_hash n) j (db_spendJournal ?db0)\<rparr>"
  let ?s3 = "?s2\<lparr>st_db := ?db\<rparr>"
  let ?s4 = "?s3\<lparr>st_bestChain := view_of n, st_snapshot := ?state\<rparr>"
  let ?f = "tx_bind (prune_blocks cfg clk (st_index ?s2) (bn_hash n))
              (tx_bind (tx_write (\<lambda>db. Inr (dbPutBestState ?state (bn_workSum n) db)))
              (tx_bind (tx_write (\<lambda>db. Inr (dbPutBlockIndex ?h (bn_height n) db)))
              (tx_bind (tx_write (dbPutSpendJournalEntry ?C ?h stxos))
                (tx_write (\<lambda>db. sbind (cc_indexConnect cfg blk stxos) (\<lambda>_. Inr db))))))"
  have up: "cm_Update ?f ?s2 = Some (Inr (), ?s3)"
  proof -
    have "?f (st_utxoCache ?s2) (st_db ?s2) = (Inr ?db, st_utxoCache ?s2)"
      unfolding tx_bind_def tx_write_def prune_blocks_def hash using j by (simp add: cf(4) assms(11))
    then show ?thesis unfolding cm_Update_def by simp
  qed
  have bd: "bucket_ok ?C (db_utxoSet ?db)" "coherent ?C (db_utxoSet ?db) cache" using u(2) cache(2,3) by (simp_all add: db_effects)
  obtain cache' db' where fl: "cache_flush ?C (cc_mapOrder cfg) FlushIfNeeded (bn_hash n) (cl_seconds clk) cache ?db = Inr (cache', db')"
    using cache_flush_ok [OF cf(1,2) bd] by blast
  have "\<exists>s5. (if \<not> shouldFlush FlushIfNeeded (bn_hash n) (cl_seconds clk) (st_utxoCache ?s4) then Some (Inr (), ?s4)
      else cm_Update (tx_flush cfg clk FlushIfNeeded (bn_hash n)) ?s4) = Some (Inr (), s5)"
  proof (cases "shouldFlush FlushIfNeeded (bn_hash n) (cl_seconds clk) (st_utxoCache ?s4)")
    case True
    have "cm_Update (tx_flush cfg clk FlushIfNeeded (bn_hash n)) ?s4 = Some (Inr (), ?s4\<lparr>st_utxoCache := cache', st_db := db'\<rparr>)"
      using fl unfolding cm_Update_def tx_flush_def by (simp add: cache(2))
    then show ?thesis using True by (simp only: not_not if_False simp_thms) blast
  next
    case False
    then show ?thesis by simp
  qed
  then obtain s5 where last: "(if \<not> shouldFlush FlushIfNeeded (bn_hash n) (cl_seconds clk) (st_utxoCache ?s4) then Some (Inr (), ?s4)
      else cm_Update (tx_flush cfg clk FlushIfNeeded (bn_hash n)) ?s4) = Some (Inr (), s5)" by blast
  have d: "(\<lambda>s. cm_deref (view_tip (st_bestChain s)) s) s1 = Some (Inr tip, s1)"
    by (simp add: cm_deref_def cm_return_def cache(2) c(1) view_tip_view)
  have g: "cm_guard (bh_PrevBlock (ub_header blk) = bn_hash tip) (fromRules assertError) s1 = Some (Inr (), s1)"
    "cm_lift fromRules (countSpentOutputs (block_data blk)) s1 = Some (Inr (length stxos), s1)"
    "cm_guard (length stxos = length stxos) (fromRules assertError) s1 = Some (Inr (), s1)"
    "(if isCurrent cfg clk tip then warn_rules cfg n else cm_return ()) s1 = Some (Inr (), s1)"
    by (simp_all add: assms(9,10) count cm_guard_def cm_return_def cm_lift_def)
  have t: "(\<lambda>s. cm_lift fromGo (setTip (st_bestChain s) (Some n)) s) ?s3 = Some (Inr (view_of n), ?s3)"
    by (simp add: cache(2) c(1) tip cm_lift_def cm_return_def)
  have m: "cm_update (\<lambda>s. s\<lparr>st_bestChain := view_of n, st_snapshot := ?state\<rparr>) ?s3 = Some (Inr (), ?s4)" by (simp add: cm_update_def)
  have "connectBlock cfg clk n blk stxos s1 = Some (Inr (), s5)"
    unfolding connectBlock_def Let_def cm_bind_def best_state_hash
    using last by (simp only: d g si up t m option.case sum.case prod.case best_state_hash)
  then show ?thesis by blast
qed

subsection \<open>A sample chain\<close>

text \<open>A genesis block and a block on top of it, the node at the genesis block with an empty set of unspent outputs.\<close>

definition choice_block :: "hash \<Rightarrow> byte \<Rightarrow> MsgBlock" where
  "choice_block prev b =
     \<lparr>mb_MsgHeader = \<lparr>mh_MsgCertificate = None,
        mh_BlockHeader = genesis_header\<lparr>bh_PrevBlock := prev, bh_ProofCommitment := replicate 28 0 @ [0, 0, 0, b]\<rparr>\<rparr>,
      mb_Transactions = [free_coinbase]\<rparr>"

definition choice_bytes :: "hash \<Rightarrow> byte \<Rightarrow> bytes" where
  "choice_bytes prev b = (case block_Serialize (choice_block prev b) of Inl _ \<Rightarrow> [] | Inr bs \<Rightarrow> bs)"

definition choice_header :: "hash \<Rightarrow> byte \<Rightarrow> BlockHeader" where
  "choice_header prev b = mh_BlockHeader (mb_MsgHeader (choice_block prev b))"

definition choice_genesis :: blockNode where
  "choice_genesis = newBlockNode (DoubleHashRaw tail_crypto) (choice_header (replicate 32 0) 0) None statusDataStored 0"

definition choice_child :: blockNode where
  "choice_child = newBlockNode (DoubleHashRaw tail_crypto) (choice_header (bn_hash choice_genesis) 1) (Some choice_genesis) statusDataStored 0"

definition view_iteration :: "UtxoViewpoint \<Rightarrow> (OutPoint \<times> UtxoEntry option) list" where
  "view_iteration v = map (\<lambda>op. (op, the (uv_entries v op))) (sorted_list_of_set (dom (uv_entries v)))"

definition choice_config :: "unit chainConfig" where
  "choice_config = \<lparr>cc_crypto = tail_crypto, cc_sigPick = \<lambda>_. 0, cc_hashPick = \<lambda>_. 0, cc_rules = rule_params, cc_voting = vote_params, cc_zk = rule_ffi,
     cc_genesis = choice_block (replicate 32 0) 0, cc_curve = no_curve, cc_log = \<lambda>_. 0, cc_pruneTarget = 0, cc_PruneBlocks = \<lambda>_ db. Inr ([], db),
     cc_indexConnect = \<lambda>_ _. Inr (), cc_indexDisconnect = \<lambda>_ _. Inr (), cc_mapOrder = sorted_iteration, cc_viewOrder = view_iteration,
     cc_orphanOrder = \<lambda>_. [], cc_indexOrder = \<lambda>_. []\<rparr>"

definition choice_best :: BestState where
  "choice_best = newBestState choice_genesis 0 0 1 1 0 0"

definition choice_state :: chainState where
  "choice_state = \<lparr>st_index = [bn_hash choice_genesis \<mapsto> choice_genesis, bn_hash choice_child \<mapsto> choice_child],
     st_status = \<lambda>_. statusValid, st_dirty = [], st_bestChain = view_of choice_genesis, st_utxoCache = newUtxoCache (\<lambda>_. 0) 0,
     st_db = dbPutUtxoStateConsistency (bn_hash choice_genesis) (dbPutBestState choice_best 0
       (empty_db\<lparr>db_blocks := fmupd (bn_hash choice_child) (choice_bytes (bn_hash choice_genesis) 1)
          (fmupd (bn_hash choice_genesis) (choice_bytes (replicate 32 0) 0) fmempty)\<rparr>)),
     st_snapshot = choice_best, st_pool = no_orphans, st_checkpoint = \<lparr>ch_checkpointNode = None, ch_nextCheckpoint = None\<rparr>,
     st_voting = \<lparr>vs_deploymentCaches = [], vs_warningCaches = [], vs_unknownRulesWarned = False\<rparr>, st_caches = free_caches\<rparr>"

definition choice_clocks :: clocks where
  "choice_clocks = \<lparr>cl_seconds = 0, cl_nanos = 0, cl_adjusted = 10 ^ 9, cl_fraction = \<lambda>_. 0\<rparr>"

lemma choice_config_ok: "config_ok choice_config"
proof -
  have "length (DoubleHashRaw tail_crypto b) = 32" for b using tail_crypto_ok by (simp add: DoubleHashRaw_def crypto_ok_def)
  moreover have "distinct (map fst (view_iteration v)) \<and> map_of (view_iteration v) = uv_entries v" if "finite (dom (uv_entries v))" for v
    using that by (auto simp: view_iteration_def comp_def map_of_map_restrict restrict_map_def fun_eq_iff domIff)
  ultimately show ?thesis by (simp add: config_ok_def choice_config_def no_curve_ok sorted_iteration_iterates)
qed

lemma choice_block_ok:
  assumes "length prev = 32"
  shows "block_ok (choice_block prev b)" "sane_block (DoubleHashRaw tail_crypto) (mb_Transactions (choice_block prev b))"
    "block_Serialize (choice_block prev b) = Inr (choice_bytes prev b)"
proof -
  have "tx_ok free_coinbase" using free_script_facts(1)
    by (simp add: tx_ok_def free_coinbase_def txins_ok_def txin_ok_def txout_ok_def strip_def witness_ok_def witness_cost_def wire_limits outpoint_ok_def
        free_witness_def chainZeroHash_def)
  moreover have "tx_TxIn free_coinbase \<noteq> []" by (simp add: free_coinbase_def)
  ultimately show ok: "block_ok (choice_block prev b)"
    using assms by (simp add: block_ok_def choice_block_def msgheader_ok_def header_ok_def genesis_header_def wire_limits maxTxPerBlock_def)
  then show "block_Serialize (choice_block prev b) = Inr (choice_bytes prev b)" using msg_block.menc_ok by (fastforce simp: choice_bytes_def)
  show "sane_block (DoubleHashRaw tail_crypto) (mb_Transactions (choice_block prev b))"
    using free_coinbase_is(1) by (simp add: sane_block_def choice_block_def sane_outputs_def total_value_def free_coinbase_def amounts)
qed


lemma choice_nodes:
  "bn_parent choice_genesis = None" "bn_height choice_genesis = 0" "built (DoubleHashRaw tail_crypto) choice_genesis" "bn_timestamp choice_genesis = 0"
  "bn_parent choice_child = Some choice_genesis" "bn_height choice_child = 1" "built (DoubleHashRaw tail_crypto) choice_child"
  "bn_hash choice_genesis = BlockHash (DoubleHashRaw tail_crypto) (choice_header (replicate 32 0) 0)"
  "bn_hash choice_child = BlockHash (DoubleHashRaw tail_crypto) (choice_header (bn_hash choice_genesis) 1)"
  "length (bn_hash choice_genesis) = 32" "bn_hash choice_genesis \<noteq> bn_hash choice_child"
proof -
  show g: "bn_parent choice_genesis = None" "bn_height choice_genesis = 0" "bn_timestamp choice_genesis = 0"
    "bn_hash choice_genesis = BlockHash (DoubleHashRaw tail_crypto) (choice_header (replicate 32 0) 0)"
    by (simp_all add: choice_genesis_def newBlockNode_def Let_def choice_header_def choice_block_def genesis_header_def)
  show c: "bn_parent choice_child = Some choice_genesis" "bn_height choice_child = 1"
    "bn_hash choice_child = BlockHash (DoubleHashRaw tail_crypto) (choice_header (bn_hash choice_genesis) 1)"
    using g(2) by (simp_all add: choice_child_def newBlockNode_def Let_def int32_of_id)
  show b: "built (DoubleHashRaw tail_crypto) choice_genesis" unfolding choice_genesis_def by (rule built_genesis)
  show "built (DoubleHashRaw tail_crypto) choice_child" unfolding choice_child_def by (rule built_child [OF b]) (simp add: g(2))
  show l: "length (bn_hash choice_genesis) = 32" using tail_crypto_ok by (simp add: g(4) BlockHash_def DoubleHashRaw_def crypto_ok_def)
  have tail: "drop 28 (BlockHash (DoubleHashRaw tail_crypto) (choice_header prev b)) = [0, 0, 0, b]" for prev b
  proof -
    let ?pre = "le_bytes 4 1 @ prev @ replicate 32 0 @ le_bytes 4 0 @ le_bytes 4 (int 0x1b00ffff) @ replicate 28 0"
    have "writeBlockHeaderBuf (choice_header prev b) = ?pre @ [0, 0, 0, b]"
      by (simp only: writeBlockHeaderBuf_def choice_header_def choice_block_def genesis_header_def MsgBlock.simps MsgHeader.simps BlockHeader.simps append_assoc)
    then show ?thesis using tail_hash [of ?pre "[0, 0, 0, b]"] by (simp add: BlockHash_def)
  qed
  show "bn_hash choice_genesis \<noteq> bn_hash choice_child"
  proof
    assume "bn_hash choice_genesis = bn_hash choice_child"
    then have "drop 28 (bn_hash choice_genesis) = drop 28 (bn_hash choice_child)" by simp
    then show False unfolding g(4) c(3) tail by simp
  qed
qed

lemma choice_db:
  "dbFetchBlockByNode choice_genesis (st_db choice_state) = Inr \<lparr>ub_MsgBlock = choice_block (replicate 32 0) 0, ub_Height = 0\<rparr>"
  "dbFetchBlockByNode choice_child (st_db choice_state) = Inr \<lparr>ub_MsgBlock = choice_block (bn_hash choice_genesis) 1, ub_Height = 1\<rparr>"
  "utxo_bucket choice_state = fmempty" "dbFetchUtxoStateConsistency (st_db choice_state) = Some (bn_hash choice_genesis)"
  "best_stored (st_db choice_state) choice_genesis"
  "fmlookup (db_blocks (st_db choice_state)) h \<noteq> None \<Longrightarrow> h = bn_hash choice_genesis \<or> h = bn_hash choice_child"
proof -
  have bl: "db_blocks (st_db choice_state) = fmupd (bn_hash choice_child) (choice_bytes (bn_hash choice_genesis) 1)
      (fmupd (bn_hash choice_genesis) (choice_bytes (replicate 32 0) 0) fmempty)"
    by (simp add: choice_state_def dbPutUtxoStateConsistency_def meta_Put_def db_effects)
  show "fmlookup (db_blocks (st_db choice_state)) h \<noteq> None \<Longrightarrow> h = bn_hash choice_genesis \<or> h = bn_hash choice_child"
    by (auto simp: bl split: if_splits)
  have "holds_block (st_db choice_state) (bn_hash choice_genesis) (choice_block (replicate 32 0) 0)"
    using choice_block_ok [of "replicate 32 0" 0] choice_nodes(11) by (simp add: holds_block_def bl)
  from holds_block_fetch [OF this]
  show "dbFetchBlockByNode choice_genesis (st_db choice_state) = Inr \<lparr>ub_MsgBlock = choice_block (replicate 32 0) 0, ub_Height = 0\<rparr>"
    by (simp add: choice_nodes(2))
  have "holds_block (st_db choice_state) (bn_hash choice_child) (choice_block (bn_hash choice_genesis) 1)"
    using choice_block_ok [OF choice_nodes(10), of 1] by (simp add: holds_block_def bl)
  from holds_block_fetch [OF this]
  show "dbFetchBlockByNode choice_child (st_db choice_state) = Inr \<lparr>ub_MsgBlock = choice_block (bn_hash choice_genesis) 1, ub_Height = 1\<rparr>"
    by (simp add: choice_nodes(6))
  show "utxo_bucket choice_state = fmempty"
    by (simp add: choice_state_def dbPutUtxoStateConsistency_def meta_Put_def db_effects empty_db_def)
  show "dbFetchUtxoStateConsistency (st_db choice_state) = Some (bn_hash choice_genesis)"
    by (simp add: choice_state_def dbFetchUtxoStateConsistency_def dbPutUtxoStateConsistency_def meta_Put_def)
  have "be_Hash choice_best = bn_hash choice_genesis" by (simp add: choice_best_def newBestState_def)
  from best_state_put [OF this] show "best_stored (st_db choice_state) choice_genesis"
    by (simp add: choice_state_def dbPutUtxoStateConsistency_def meta_Put_def best_stored_def key_names)
qed

lemma choice_state_ok:
  "tree_ok choice_config choice_state" "regular_index choice_config choice_state" "chain_ok choice_config choice_state choice_genesis"
  "stored_block (DoubleHashRaw tail_crypto) (st_db choice_state) choice_child \<lparr>ub_MsgBlock = choice_block (bn_hash choice_genesis) 1, ub_Height = 1\<rparr>"
proof -
  let ?dh = "DoubleHashRaw tail_crypto" and ?db = "st_db choice_state"
  have cfg: "cc_dh choice_config = ?dh" "cc_maturity choice_config = 100" "cc_curve choice_config = no_curve"
    by (simp_all add: choice_config_def rule_params_def)
  have br: "branch choice_genesis = []" "branch choice_child = [choice_child]" using choice_nodes(1,5) by simp_all
  show st: "stored_block ?dh ?db choice_child \<lparr>ub_MsgBlock = choice_block (bn_hash choice_genesis) 1, ub_Height = 1\<rparr>"
    using choice_db(2) choice_block_ok [OF choice_nodes(10), of 1] choice_nodes(9) by (simp add: stored_block_def choice_header_def)
  have tx: "txs_of ?db choice_child = [free_coinbase]" "txs_of ?db choice_genesis = [free_coinbase]"
    using choice_db(1,2) by (simp_all add: txs_of_def choice_block_def)
  have al: "block_allowed ?dh 1 100 Map.empty [free_coinbase]" using free_coinbase_is(1) by (simp add: tx_allowed_def creates_ok_def)
  have at: "coins_at choice_config ?db choice_genesis = Some Map.empty" "coins_at choice_config ?db choice_child \<noteq> None"
    using al st tx(1) by (auto simp: coins_at_def br cfg choice_nodes(6))
  have ix: "st_index choice_state h = Some n \<longleftrightarrow> n = choice_genesis \<and> h = bn_hash choice_genesis \<or> n = choice_child \<and> h = bn_hash choice_child" for h n
    using choice_nodes(11) by (auto simp: choice_state_def)
  show "tree_ok choice_config choice_state" unfolding tree_ok_def cfg
  proof (intro conjI allI impI)
    fix h n
    assume "st_index choice_state h = Some n"
    then have n: "n = choice_genesis \<and> h = bn_hash choice_genesis \<or> n = choice_child \<and> h = bn_hash choice_child" by (simp add: ix)
    show "bn_hash n = h" using n by auto
    show "built ?dh n" using n choice_nodes(3,7) by auto
    show "\<exists>blk. dbFetchBlockByNode n ?db = Inr blk" using n choice_db(1,2) by auto
    show "coins_at choice_config ?db n \<noteq> None" using n at by auto
    fix p
    assume "bn_parent n = Some p"
    then have p: "n = choice_child" "p = choice_genesis" using n choice_nodes(1,5) by auto
    show "st_index choice_state (bn_hash p) = Some p" by (simp add: ix p)
    show "\<exists>blk. stored_block ?dh ?db n blk \<and> bh_PrevBlock (ub_header blk) = bn_hash p" unfolding p
      by (rule exI, rule conjI [OF st]) (simp add: choice_block_def)
  next
    have "hd (chain_to choice_genesis) = choice_genesis" "hd (chain_to choice_child) = choice_genesis" using choice_nodes(1,5) by simp_all
    then show "\<exists>g. \<forall>h n. st_index choice_state h = Some n \<longrightarrow> hd (chain_to n) = g" by (intro exI [of _ choice_genesis]) (auto simp: ix)
  next
    fix h
    assume "fmlookup (db_blocks ?db) h \<noteq> None"
    then show "st_index choice_state h \<noteq> None" using choice_db(6) [of h] by (auto simp: choice_state_def)
  qed
  have "small_amounts [free_coinbase]" by (simp add: small_amounts_def free_coinbase_def)
  moreover have "spends_earlier ?dh k [free_coinbase]" for k using free_coinbase_is(1) by simp
  ultimately show "regular_index choice_config choice_state" using choice_nodes(2,6) by (auto simp: regular_index_def ix regular_def tx br cfg)
  have no: "stored_coins C fmempty = Map.empty" for C :: "unit curve" by (simp add: stored_coins_def dbFetchUtxoEntry_def fun_eq_iff)
  have nc: "node_coins choice_config choice_state = Map.empty"
    using new_cache(2) [of no_curve fmempty] no by (simp add: node_coins_def choice_db(3) cfg) (simp add: choice_state_def)
  have du: "durable choice_config ?db choice_genesis"
    unfolding durable_def by (intro bexI [of _ choice_genesis]) (simp_all add: choice_db(3,4) at(1) no cfg choice_nodes(1))
  have "coherent no_curve fmempty (st_utxoCache choice_state)" by (simp add: choice_state_def new_cache(1))
  moreover have "bucket_ok no_curve fmempty" by (simp add: bucket_ok_def)
  ultimately have "utxo_ok choice_config choice_state choice_genesis" using du at(1) nc by (simp add: utxo_ok_def cfg choice_db(3))
  moreover have "be_Hash (st_snapshot choice_state) = bn_hash choice_genesis" by (simp add: choice_state_def choice_best_def newBestState_def)
  moreover have "st_bestChain choice_state = view_of choice_genesis" by (simp add: choice_state_def)
  ultimately show "chain_ok choice_config choice_state choice_genesis" using choice_db(5) by (simp add: chain_ok_def br ix)
qed

definition choice_top :: utilBlock where
  "choice_top = \<lparr>ub_MsgBlock = choice_block (bn_hash choice_genesis) 1, ub_Height = 1\<rparr>"

lemma choice_run: "\<exists>s'. connectBestChain choice_config choice_clocks choice_child choice_top 0 choice_state = Some (Inr True, s')"
proof -
  let ?s = choice_state and ?dh = "DoubleHashRaw tail_crypto"
  note c = chain_okD [OF choice_state_ok(3)]
  have ix: "st_index ?s (bn_hash choice_child) = Some choice_child" by (simp add: choice_state_def)
  have cfg: "cc_dh choice_config = ?dh" by (simp add: choice_config_def)
  have st: "stored_block (cc_dh choice_config) (st_db ?s) choice_child choice_top" using choice_state_ok(4) by (simp add: cfg choice_top_def)
  have kv: "KnownValid (st_status ?s choice_child)" by (simp add: choice_state_def KnownValid_def statusValid_def)
  obtain coins where at: "coins_at choice_config (st_db ?s) choice_child = Some coins" using tree_okD(6) [OF choice_state_ok(1) ix kv] by blast
  obtain stxos s1 where con: "cm_connectTransactions choice_config choice_top ?s = Some (Inr stxos, s1)"
    using connect_transactions [OF choice_config_ok choice_state_ok(1,2) c(3) ix choice_nodes(5) st at] by blast
  have prev: "bh_PrevBlock (ub_header choice_top) = bn_hash choice_genesis" by (simp add: choice_top_def choice_block_def)
  have late: "\<not> isCurrent choice_config choice_clocks choice_genesis"
    by (simp add: isCurrent_def choice_config_def rule_params_def choice_clocks_def LatestCheckpoint_def HasCheckpoints_def choice_nodes(4))
  have idx: "cc_indexConnect choice_config choice_top d = Inr ()" for d by (simp add: choice_config_def)
  obtain s2 where s2: "connectBlock choice_config choice_clocks choice_child choice_top stxos s1 = Some (Inr (), s2)"
    using connect_block_runs [OF choice_config_ok choice_state_ok(1-3) ix choice_nodes(5) st at prev late idx con] by blast
  obtain s3 where s3: "cm_bind (set_flags choice_child statusValid) (\<lambda>_. flushToDB) s2 = Some (Inr (), s3)"
  proof -
    obtain si where "flushToDB (mark_dirty [choice_child] (s2\<lparr>st_status := SetStatusFlags (st_status s2) choice_child statusValid\<rparr>)) = Some (Inr (), si)"
      using flushToDB_effect by metis
    then show thesis using that by (simp add: cm_bind_def set_flags_def cm_update_def)
  qed
  have d: "(\<lambda>s. cm_deref (view_tip (st_bestChain s)) s) ?s = Some (Inr choice_genesis, ?s)" by (simp add: cm_deref_def cm_return_def c(1) view_tip_view)
  have "extend_tip choice_config choice_clocks choice_child choice_top True ?s = Some (Inr True, s3)"
    using con s2 s3 by (simp add: extend_tip_def cm_bind_def [of "cm_return ()"] cm_bind_def [of "cm_connectTransactions choice_config choice_top"]
        cm_bind_def [of "cm_onError f g" for f g] cm_bind_def [of "\<lambda>s. cm_bind f g s" for f g] cm_onError_def cm_return_def)
  then have "connectBestChain choice_config choice_clocks choice_child choice_top 0 ?s = Some (Inr True, s3)"
    using prev kv by (simp add: connectBestChain_def cm_bind_run [where m = "\<lambda>s. cm_deref (view_tip (st_bestChain s)) s", OF d])
  then show ?thesis by blast
qed

subsection \<open>Properties\<close>



text \<open>
  C6. Recovery after a crash: when the cache of unspent outputs is lost, the start finds the block at which the database was left and connects the blocks above it again. Unless it is
  interrupted it returns and the node has the coins that it had before; interrupted, the database is again at a block of the best chain, so that the next start can go on.
  The index and the best chain are those of the node before the crash.\<close>

theorem crash_recovery:
  assumes "config_ok cfg" "tree_ok cfg s" "regular_index cfg s" "chain_ok cfg s tip"
  shows "\<exists>r s'. InitConsistentState cfg clk interrupted tip (s\<lparr>st_utxoCache := newUtxoCache (cc_log cfg) mem\<rparr>) = Some (r, s') \<and>
    durable cfg (st_db s') tip \<and> (r = Inr () \<longrightarrow> chain_ok cfg s' tip \<and> node_coins cfg s' = node_coins cfg s) \<and>
    ((\<forall>m. \<not> interrupted m) \<longrightarrow> r = Inr ())"
  by (rule recovery [OF assms refl])

theorem crash_recovery_witness:
  "\<exists>s s'. chain_ok choice_config s choice_child \<and>
    InitConsistentState choice_config choice_clocks (\<lambda>_. False) choice_child (s\<lparr>st_utxoCache := newUtxoCache (cc_log choice_config) 0\<rparr>) = Some (Inr (), s') \<and>
    chain_ok choice_config s' choice_child"
proof -
  obtain s where run: "connectBestChain choice_config choice_clocks choice_child choice_top 0 choice_state = Some (Inr True, s)"
    using choice_run by blast
  have ix: "st_index choice_state (bn_hash choice_child) = Some choice_child" by (simp add: choice_state_def)
  have st: "stored_block (cc_dh choice_config) (st_db choice_state) choice_child choice_top"
    using choice_state_ok(4) by (simp add: choice_config_def choice_top_def)
  have prev: "bh_PrevBlock (ub_header choice_top) = bn_hash choice_genesis" by (simp add: choice_top_def choice_block_def)
  have fast: "\<not> flag_set 0 BFFastAdd" by (simp add: flag_set_def BFFastAdd_def)
  have "chain_ok choice_config s choice_child" "tree_ok choice_config s" "regular_index choice_config s"
    using connect_best_chain [OF choice_config_ok choice_state_ok(1-3) ix choice_nodes(5) st prev fast run] by (auto simp: same_tree_def)
  with crash_recovery [OF choice_config_ok this(2,3,1), of choice_clocks "\<lambda>_. False" 0] show ?thesis by auto
qed

end
