(* ===== verification/Block_Invalidation.thy ===== *)
theory Block_Invalidation
  imports Chain_State
begin

text \<open>
  The tips of all branches, and the invalidation and reconsideration of a block by hand (\<^verbatim>\<open>InactiveTips\<close> in \<^verbatim>\<open>node/blockchain/blockindex.go\<close>,
  \<^verbatim>\<open>ChainTips\<close>, \<^verbatim>\<open>InvalidateBlock\<close> and \<^verbatim>\<open>ReconsiderBlock\<close> in \<^verbatim>\<open>chain.go\<close>). The order of the iterations over the index is a parameter.
\<close>

subsection \<open>The tips of the branches\<close>

definition UnsetStatusFlags :: "statuses \<Rightarrow> blockNode \<Rightarrow> byte \<Rightarrow> statuses" where
  "UnsetStatusFlags status node flags = status(node := status node AND NOT flags)"

definition unset_flags :: "blockNode \<Rightarrow> byte \<Rightarrow> unit chainM" where
  "unset_flags node flags = cm_update (\<lambda>s. mark_dirty [node] (s\<lparr>st_status := UnsetStatusFlags (st_status s) node flags\<rparr>))"

definition InactiveTips :: "(blockIndex \<Rightarrow> (hash \<times> blockNode) list) \<Rightarrow> chainView \<Rightarrow> blockIndex \<Rightarrow> go_error + blockNode list" where
  "InactiveTips ord bestChain bi =
     (let orphans = filter (\<lambda>(h, node). \<not> view_contains bestChain node) (ord bi)
      in if \<exists>(h, node) \<in> set orphans. bn_parent node = None then Inl goPanic
         else
           let orphanParent = map (\<lambda>(h, node). bn_hash (the (bn_parent node))) orphans
           in Inr (map snd (filter (\<lambda>(h, orphan). h \<notin> set orphanParent) (ord (map_of orphans)))))"

definition cm_tips :: "'k chainConfig \<Rightarrow> blockNode list chainM" where
  "cm_tips cfg s = cm_lift fromGo (InactiveTips (cc_indexOrder cfg) (st_bestChain s) (st_index s)) s"

datatype TipStatus = StatusUnknown | StatusActive | StatusInvalid | StatusValidFork

record ChainTip =
  tip_Height :: int
  tip_BlockHash :: hash
  tip_BranchLen :: int
  tip_Status :: TipStatus

definition tip_status :: "chainView \<Rightarrow> statuses \<Rightarrow> blockNode \<Rightarrow> TipStatus" where
  "tip_status bestChain status tip =
     (if view_contains bestChain tip then StatusActive
      else if KnownInvalid (status tip) then StatusInvalid
      else if HaveData (status tip) then StatusValidFork
      else StatusUnknown)"

fun chain_tips :: "chainView \<Rightarrow> statuses \<Rightarrow> blockNode list \<Rightarrow> go_error + ChainTip list" where
  "chain_tips bestChain status [] = Inr []"
| "chain_tips bestChain status (tip # tips) =
     (case findFork bestChain (Some tip) of
        None \<Rightarrow> Inl goPanic
      | Some fork \<Rightarrow>
          sbind (chain_tips bestChain status tips) (\<lambda>chainTips.
            Inr (\<lparr>tip_Height = bn_height tip, tip_BlockHash = bn_hash tip, tip_BranchLen = int32_of (bn_height tip - bn_height fork),
                  tip_Status = tip_status bestChain status tip\<rparr> # chainTips)))"

definition ChainTips :: "'k chainConfig \<Rightarrow> chainState \<Rightarrow> go_error + ChainTip list" where
  "ChainTips cfg s =
     sbind (InactiveTips (cc_indexOrder cfg) (st_bestChain s) (st_index s)) (\<lambda>tips.
       case view_tip (st_bestChain s) of
         None \<Rightarrow> Inl goPanic
       | Some tip \<Rightarrow> chain_tips (st_bestChain s) (st_status s) (tips @ [tip]))"

subsection \<open>Invalidating a block\<close>

text \<open>The nodes that were not invalid before are marked and returned.\<close>

fun invalidate_nodes :: "blockNode list \<Rightarrow> blockNode list chainM" where
  "invalidate_nodes [] = cm_return []"
| "invalidate_nodes (n # ns) =
     cm_bind (\<lambda>s. Some (Inr (KnownInvalid (st_status s n)), s)) (\<lambda>invalid.
       if invalid then invalidate_nodes ns
       else cm_bind (set_flags n statusInvalidAncestor) (\<lambda>_.
            cm_bind (unset_flags n statusValid) (\<lambda>_.
            cm_bind (invalidate_nodes ns) (\<lambda>marked. cm_return (n # marked)))))"

fun invalidate_tips :: "blockNode \<Rightarrow> blockNode list \<Rightarrow> unit chainM" where
  "invalidate_tips node [] = cm_return ()"
| "invalidate_tips node (tip # tips) =
     (if \<not> IsAncestor tip (Some node) then invalidate_tips node tips
      else cm_bind (invalidate_nodes (detach_loop (Some node) (Some tip))) (\<lambda>_. invalidate_tips node tips))"

definition better_tip :: "statuses \<Rightarrow> blockNode \<Rightarrow> blockNode option \<Rightarrow> blockNode option" where
  "better_tip status tip bestTip =
     (if KnownInvalid (status tip) then bestTip
      else case bestTip of
             None \<Rightarrow> Some tip
           | Some best \<Rightarrow> if bn_workSum tip > bn_workSum best then Some tip else bestTip)"

definition InvalidateBlock :: "'k chainConfig \<Rightarrow> clocks \<Rightarrow> hash \<Rightarrow> unit chainM" where
  "InvalidateBlock cfg clk h s =
     (case LookupNode (st_index s) h of
        None \<Rightarrow> Some (Inl (fromGo otherError), s)
      | Some node \<Rightarrow>
          if bn_height node = 0 then Some (Inl (fromGo otherError), s)
          else if KnownInvalid (st_status s node) then Some (Inr (), s)
          else
            cm_bind (set_flags node statusValidateFailed) (\<lambda>_.
            cm_bind (unset_flags node statusValid) (\<lambda>_ s.
              if \<not> view_contains (st_bestChain s) node then
                cm_bind (cm_tips cfg) (\<lambda>tips.
                cm_bind (invalidate_tips node tips) (\<lambda>_. flushToDB)) s
              else
                cm_bind (invalidate_nodes (detach_loop (Some node) (view_tip (st_bestChain s)))) (\<lambda>marked.
                cm_bind (reorganizeChain cfg clk (marked @ [node]) []) (\<lambda>_.
                cm_bind flushToDB (\<lambda>_.
                cm_bind (cm_tips cfg) (\<lambda>tips.
                cm_bind (\<lambda>s. cm_deref (view_tip (st_bestChain s)) s) (\<lambda>activeTip s.
                  let bestTip = fold (better_tip (st_status s)) (tips @ [activeTip]) None
                  in if bestTip = Some activeTip then Some (Inr (), s)
                     else
                       cm_bind (cm_deref bestTip) (\<lambda>bestTip.
                       cm_bind (cm_getReorganizeNodes bestTip) (\<lambda>(detachNodes, attachNodes).
                         cm_finally (reorganizeChain cfg clk detachNodes attachNodes) flushToDB)) s))))) s)) s)"

subsection \<open>Reconsidering a block\<close>

text \<open>The descendants lose their mark; the result is the last tip that was seen above the block.\<close>

fun unmark_nodes :: "blockNode list \<Rightarrow> unit chainM" where
  "unmark_nodes [] = cm_return ()"
| "unmark_nodes (n # ns) = cm_bind (unset_flags n statusInvalidAncestor) (\<lambda>_. unmark_nodes ns)"

fun reconsider_tips :: "blockNode \<Rightarrow> blockNode list \<Rightarrow> blockNode option \<Rightarrow> blockNode option chainM" where
  "reconsider_tips reconsiderNode [] reconsiderTip = cm_return reconsiderTip"
| "reconsider_tips reconsiderNode (tip # tips) reconsiderTip =
     (if \<not> IsAncestor tip (Some reconsiderNode)
      then reconsider_tips reconsiderNode tips (if tip = reconsiderNode then Some reconsiderNode else reconsiderTip)
      else cm_bind (unmark_nodes (detach_loop (Some reconsiderNode) (Some tip))) (\<lambda>_. reconsider_tips reconsiderNode tips (Some tip)))"

text \<open>An error of the verification means that the branch is invalid, which is no error here.\<close>

definition ReconsiderBlock :: "'k chainConfig \<Rightarrow> clocks \<Rightarrow> hash \<Rightarrow> unit chainM" where
  "ReconsiderBlock cfg clk h s =
     (case LookupNode (st_index s) h of
        None \<Rightarrow> Some (Inl (fromGo otherError), s)
      | Some reconsiderNode \<Rightarrow>
          if KnownValid (st_status s reconsiderNode) then Some (Inr (), s)
          else
            cm_bind (unset_flags reconsiderNode statusInvalidAncestor) (\<lambda>_.
            cm_bind (unset_flags reconsiderNode statusValidateFailed) (\<lambda>_.
            cm_bind (cm_tips cfg) (\<lambda>tips.
            cm_bind (\<lambda>s. cm_deref (view_tip (st_bestChain s)) s) (\<lambda>curTip.
            cm_bind (reconsider_tips reconsiderNode (tips @ [curTip]) None) (\<lambda>reconsiderTip.
            cm_bind (cm_deref reconsiderTip) (\<lambda>reconsiderTip.
              if \<not> ShouldChangeTip (bn_workSum curTip) (bn_workSum reconsiderTip) (CalcWork (bn_bits curTip)) (CalcWork (bn_bits reconsiderTip))
              then cm_return ()
              else
                cm_bind (cm_getReorganizeNodes reconsiderTip) (\<lambda>(detachNodes, attachNodes) s.
                  case verifyReorganizationValidity cfg detachNodes attachNodes s of
                    None \<Rightarrow> None
                  | Some (r, s) \<Rightarrow>
                      cm_bind flushToDB (\<lambda>_ s.
                        case r of
                          Inl _ \<Rightarrow> Some (Inr (), s)
                        | Inr _ \<Rightarrow> reorganizeChain cfg clk detachNodes attachNodes s) s))))))) s)"

end
