(* ===== verification/Spec2Isabelle.thy ===== *)
theory Spec2Isabelle
  imports Script_Validation Script_Checks Difficulty Merkle Compress Deployments Chain_View Ledger Wire_Block Median_Time Block_Rules Chain_Choice
    Block_Invalidation
begin

text \<open>
  Verification development for the consensus core of the Pearl node (\<^verbatim>\<open>src/node\<close>, Go): the script
  machine, the wire formats of transactions and blocks, and the rules by which a block is connected to the
  chain.

  \<^bold>\<open>The program and its parts.\<close> A block arrives as bytes, is decoded (package \<^verbatim>\<open>wire\<close>), checked without
  context, put into the block index below its parent, checked against its position in the chain, and, when
  its branch is the best one, connected: its inputs are looked up in a view of the unspent outputs,
  their scripts are executed (package \<^verbatim>\<open>txscript\<close>), the outputs it spends and creates are recorded and the best
  chain moves its tip (package \<^verbatim>\<open>blockchain\<close>). Peers ask for parts of the best chain with locators.

  \<^bold>\<open>Shared vocabulary.\<close> \<open>Prelude\<close>: bytes, Go's integer conversions, errors as the left side of a sum with
  \<open>sbind\<close> for the early returns, little-endian encodings. \<open>Script_Base\<close>: the error codes of
  \<^verbatim>\<open>txscript/error.go\<close>, limits, slices with their run-time panic (\<open>goPanic\<close>). \<open>Chain_Errors\<close>: the rule errors of
  \<^verbatim>\<open>blockchain/error.go\<close>.

  \<^bold>\<open>The script machine\<close> (\<^verbatim>\<open>node/txscript\<close>).
  \<^item> \<open>Script_Num\<close> (\<^verbatim>\<open>scriptnum.go\<close>), \<open>Script_Stack\<close> (\<^verbatim>\<open>stack.go\<close>), \<open>Script_Tokenizer\<close> (\<^verbatim>\<open>tokenizer.go\<close>, \<^verbatim>\<open>script.go\<close>,
    the opcode table), \<open>Script_Standard\<close> (\<^verbatim>\<open>scriptbuilder.go\<close>, \<^verbatim>\<open>standard.go\<close>, \<^verbatim>\<open>pkscript.go\<close>), \<open>Rand_Cache\<close>
    (\<^verbatim>\<open>randevictcache.go\<close>, the choice of the evicted entry is a parameter).
  \<^item> \<open>Script_Sighash\<close> (\<^verbatim>\<open>hashcache.go\<close>, \<^verbatim>\<open>sighash.go\<close>) and \<open>Script_Taproot\<close> (\<^verbatim>\<open>taproot.go\<close>, \<^verbatim>\<open>sigvalidate.go\<close>, \<^verbatim>\<open>sigcache.go\<close>):
    the messages that signatures sign, commitments of scripts, key spends with a signature cache.
  \<^item> \<open>Script_Opcodes\<close>, \<open>Script_Engine\<close> (\<^verbatim>\<open>opcode.go\<close>, \<^verbatim>\<open>engine.go\<close>): the record \<open>Engine\<close> is the code's struct, one function per
    handler, \<open>Step\<close> and \<open>Execute\<close> as the code composes them. \<open>Script_Handlers\<close> and \<open>Script_Machine\<close> hold the contract of the
    handlers and of a step, \<open>Script_Validation\<close>, \<open>Script_Checks\<close> and \<open>Script_Caches\<close> the results: no panic, resource limits,
    termination, the exact conditions under which taproot and merkle root outputs can be spent, the signature opcodes,
    soundness of the cache.
  The cryptographic primitives are the fields of the record \<open>crypto\<close>; what a result needs of them is a named hypothesis.

  \<^bold>\<open>The wire formats\<close> (\<^verbatim>\<open>node/wire\<close>). \<open>Wire_Codec\<close> (\<^verbatim>\<open>common.go\<close>) states the contract of a format as the
  locales \<open>byte_codec\<close> and \<open>budget_codec\<close>; \<open>Wire_Tx\<close> (\<^verbatim>\<open>msgtx.go\<close>, \<^verbatim>\<open>blockheader.go\<close>) and \<open>Wire_Block\<close> (\<^verbatim>\<open>certificate*.go\<close>,
  \<^verbatim>\<open>msgheaders.go\<close>, \<^verbatim>\<open>msgblock.go\<close>, locale \<open>message_codec\<close>) interpret them on the code's functions: every accepted byte string is the
  encoding of its value, so transactions and blocks are not malleable on this level.

  \<^bold>\<open>The chain\<close> (\<^verbatim>\<open>node/blockchain\<close>).
  \<^item> \<open>Work_Math\<close>, \<open>Difficulty\<close> (\<^verbatim>\<open>internal/workmath\<close>, \<^verbatim>\<open>difficulty.go\<close>): compact targets, the WTEMA rule and the bound for
    headers after a checkpoint. \<open>Median_Time\<close> (\<^verbatim>\<open>mediantime.go\<close>).
  \<^item> \<open>Merkle\<close> (\<^verbatim>\<open>merkle.go\<close>, \<^verbatim>\<open>rolling_merkle.go\<close>): both constructions compute the same root; witness commitments.
  \<^item> \<open>Compress\<close> (\<^verbatim>\<open>compress.go\<close>): the compressed outputs of the database.
  \<^item> \<open>Block_Index\<close> (\<^verbatim>\<open>blockindex.go\<close>), \<open>Chain_View\<close> (\<^verbatim>\<open>chainview.go\<close>, the queries and the choice of the tip in \<^verbatim>\<open>chain.go\<close>), \<open>Deployments\<close>
    (\<^verbatim>\<open>thresholdstate.go\<close>, \<^verbatim>\<open>versionbits.go\<close>): nodes with skip pointers, the best chain as an array, forks, locators, reorganisation
    lists, version bits voting with its caches (locale \<open>condition_checker\<close>).
  \<^item> \<open>Tx_Rules\<close> (\<^verbatim>\<open>validate.go\<close>, \<^verbatim>\<open>vsize.go\<close>), \<open>Utxo_View\<close> (\<^verbatim>\<open>utxoviewpoint.go\<close>), \<open>Block_Connect\<close> (\<^verbatim>\<open>validate.go\<close>, \<^verbatim>\<open>scriptval.go\<close>) and
    \<open>Ledger\<close>: the abstract state is the map \<open>coins\<close> of unspent outputs; connecting a block refines \<open>apply_txs\<close> on it, disconnecting
    undoes it, an accepted block executes the scripts of what it spends, and the supply stays below its limit. These
    results are about blocks in which no transaction spends an output of its own or a later one (\<open>spends_earlier\<close>). One result is negative and
    shows that the code does not enforce this: a concrete block that spends an output twice passes \<open>checkConnectBlock\<close>.

  \<^item> \<open>Block_Rules\<close> (\<^verbatim>\<open>validate.go\<close>, \<^verbatim>\<open>checkpoints.go\<close>, \<^verbatim>\<open>process.go\<close>, \<^verbatim>\<open>chaincfg/params.go\<close>, \<^verbatim>\<open>zkpow/verify.go\<close>): the checks of headers and
    blocks before they are connected, the certificates, checkpoints. A block that passes them is sane in the sense of \<open>Ledger\<close>.
  \<^item> \<open>Chain_Store\<close> (\<^verbatim>\<open>chainio.go\<close>) and \<open>Utxo_Cache\<close> with \<open>Size_Helper\<close> (\<^verbatim>\<open>utxocache.go\<close>, \<^verbatim>\<open>sizehelper.go\<close>): the records of the
    database, its operations over buckets and the cache in front of the unspent outputs. Both are instances of the locale
    \<open>keyed_store\<close> of \<open>Keyed_Store\<close>. The coins of a bucket (\<open>stored_coins\<close>) and those behind the cache (\<open>cache_coins\<close>) refine the map
    \<open>coins\<close>: writing a view, connecting a block through the cache and flushing change them as the ledger does, or not at all.

  \<^item> \<open>Orphan_Pool\<close> and \<open>Chain_State\<close> (\<^verbatim>\<open>chain.go\<close>, \<^verbatim>\<open>accept.go\<close>, \<^verbatim>\<open>process.go\<close>, \<^verbatim>\<open>chainio.go\<close>, \<^verbatim>\<open>utxocache.go\<close>): the blocks that wait for
    their parent, and the state of the chain with every operation from \<open>ProcessBlock\<close> down to the transactions of the database,
    reorganisation, the start and the recovery after a crash. A method is a function of the state that returns an error or a value
    (type \<open>chainM\<close>), and the state in both cases.
    \<open>Chain_Invariant\<close> states when such a state is sound (\<open>chain_ok\<close>: the tip has its blocks and journals in the database, and the coins
    behind the cache are those of the ledger along the chain of the tip), \<open>Chain_Extend\<close> shows that connecting a block on the tip keeps it,
    \<open>Chain_Reorganize\<close> that going over to another branch does, whether the branch is taken or refused, \<open>Chain_Choice\<close> that accepting a block leaves it at
    the tip that the rules choose, and \<open>Chain_Recovery\<close> that replaying the blocks above the last flush restores the coins after a crash. \<open>Block_Invalidation\<close> holds
    \<open>InvalidateBlock\<close> and \<open>ReconsiderBlock\<close> with the statuses that they leave.

  \<^bold>\<open>Loops and bounds.\<close> Loops are structural or have a measure; those that may not return are partial functions
  with the option type (\<open>Execute_loop\<close>, the merging of merkle rows, the locator, the voting windows), and the results about
  them show that they return. No fuel is used. Sizes that the code keeps in 32 bits are assumed below \<open>2 ^ 31\<close> where a lemma says so;
  heights are \<open>int32\<close> with the wrap-around written out.

  \<^bold>\<open>Not modelled.\<close> Concurrency: the validator, the caches and the locks are modelled as if one goroutine ran at a time.
  Logging, notifications, the storage engine with its files, the indexes, relay policy, block templates,
  peers, remote procedure calls, wallets and the light client are input and output around the rules
  or services without consensus rules. The proof of work verifier, elliptic curves and hash functions are parameters: their
  code is in Rust, C or assembly, or a cryptographic library.
\<close>

end
